(* ===== verification/NV_Prelude.thy ===== *)
theory NV_Prelude
  imports Main "HOL-Library.Word" "HOL-Library.Monad_Syntax"
begin

text \<open>
  Shared vocabulary of the development.

  \<^item> The C++ integer types as words: \<open>u8\<close>, \<open>u16\<close>, \<open>u32\<close>, \<open>u64\<close>.  A signed \<open>int\<close> of
    the source is an \<open>int\<close> here; signed overflow is undefined in C++ and the code
    keeps these values small.
  \<^item> Failure is \<open>None\<close>: a failed \<open>assert\<close>, an access outside an array, a read of an
    indeterminate value.  The \<open>do\<close> notation of the option monad threads it.
  \<^item> \<open>arr_get\<close> and \<open>arr_set\<close> are array accesses with their bounds made explicit.
  \<^item> \<open>first_index\<close> is the loop \<open>for (i = lo; i < hi; i++) if (P(i)) return i;\<close>.
  \<^item> The constants of \<open>inc/champsim.h\<close> and the function \<open>lg2\<close> of \<open>src/main.cc\<close>.
\<close>

unbundle bit_operations_syntax

type_synonym u8 = "8 word"
type_synonym u16 = "16 word"
type_synonym u32 = "32 word"
type_synonym u64 = "64 word"

named_theorems champsim_consts
named_theorems arr_simps

subsection \<open>Assertions and array accesses\<close>

definition assert_that :: "bool \<Rightarrow> unit option" where
  "assert_that b = (if b then Some () else None)"

lemma assert_that_simps [simp]:
  "assert_that True = Some ()" "assert_that False = None"
  "(assert_that b = Some x) = b" "(assert_that b = None) = (\<not> b)"
  by (auto simp: assert_that_def)

definition arr_get :: "'a list \<Rightarrow> nat \<Rightarrow> 'a option" where
  "arr_get xs i = (if i < length xs then Some (xs ! i) else None)"

definition arr_set :: "'a list \<Rightarrow> nat \<Rightarrow> 'a \<Rightarrow> 'a list option" where
  "arr_set xs i v = (if i < length xs then Some (xs[i := v]) else None)"

lemma arr_get_Some [arr_simps]: "(arr_get xs i = Some v) = (i < length xs \<and> v = xs ! i)"
  by (auto simp: arr_get_def)

lemma arr_set_Some [arr_simps]: "(arr_set xs i v = Some ys) = (i < length xs \<and> ys = xs[i := v])"
  by (auto simp: arr_set_def)

lemma arr_get_in [simp]: "i < length xs \<Longrightarrow> arr_get xs i = Some (xs ! i)"
  by (simp add: arr_get_def)

lemma arr_set_in [simp]: "i < length xs \<Longrightarrow> arr_set xs i v = Some (xs[i := v])"
  by (simp add: arr_set_def)

lemma bind_Some_iff [arr_simps]:
  "(Option.bind m f = Some y) = (\<exists>x. m = Some x \<and> f x = Some y)"
  by (cases m) auto

lemma nth_update_any [arr_simps]: "j < length xs \<Longrightarrow> xs[i := e] ! j = (if i = j then e else xs ! j)"
  by (auto simp: nth_list_update)

text \<open>Running a fallible operation over a list of arguments, stopping at the first failure.\<close>

fun fold_opt :: "('s \<Rightarrow> 'a \<Rightarrow> 's option) \<Rightarrow> 's \<Rightarrow> 'a list \<Rightarrow> 's option" where
  "fold_opt f s [] = Some s"
| "fold_opt f s (x # xs) = do { s' \<leftarrow> f s x; fold_opt f s' xs }"

lemma fold_opt_invariant:
  "P s \<Longrightarrow> (\<And>s x s'. P s \<Longrightarrow> x \<in> set xs \<Longrightarrow> f s x = Some s' \<Longrightarrow> P s') \<Longrightarrow>
     fold_opt f s xs = Some t \<Longrightarrow> P t"
proof (induction xs arbitrary: s)
  case (Cons x xs)
  from Cons.prems(3) obtain s1 where s1: "f s x = Some s1" "fold_opt f s1 xs = Some t"
    by (cases "f s x") auto
  have "P s1" by (rule Cons.prems(2) [OF Cons.prems(1) _ s1(1)]) simp
  then show ?case
    by (rule Cons.IH [OF _ _ s1(2)]) (rule Cons.prems(2), auto)
qed simp

text \<open>A loop that never stops early, with an invariant that mentions what has been visited.\<close>

lemma fold_opt_prefix:
  assumes "P [] s"
    and "\<And>done x todo s. xs = done @ x # todo \<Longrightarrow> P done s \<Longrightarrow> \<exists>s'. f s x = Some s' \<and> P (done @ [x]) s'"
  shows "\<exists>t. fold_opt f s xs = Some t \<and> P xs t"
proof -
  have "\<exists>t. fold_opt f s todo = Some t \<and> P xs t" if "xs = visited @ todo" "P visited s" for visited todo s
    using that
  proof (induction todo arbitrary: visited s)
    case (Cons x todo)
    from assms(2) [OF Cons.prems] obtain s' where s': "f s x = Some s'" "P (visited @ [x]) s'" by blast
    with Cons.IH [of "visited @ [x]" s'] Cons.prems(1) show ?case by simp
  qed simp
  from this [of "[]" xs s] assms(1) show ?thesis by simp
qed

subsection \<open>Search loops\<close>

text \<open>The first index in \<open>[lo, hi)\<close> that satisfies \<open>P\<close>, as the source's search loops return it.\<close>

function first_index :: "(nat \<Rightarrow> bool) \<Rightarrow> nat \<Rightarrow> nat \<Rightarrow> nat option" where
  "first_index P lo hi =
     (if lo < hi then (if P lo then Some lo else first_index P (Suc lo) hi) else None)"
  by pat_completeness auto
termination
  by (relation "measure (\<lambda>(P, lo, hi). hi - lo)") auto

declare first_index.simps [simp del]

lemma first_index_code [code]:
  "first_index P lo hi =
     (if lo < hi then (if P lo then Some lo else first_index P (Suc lo) hi) else None)"
  by (rule first_index.simps)

lemma first_index_empty [simp]: "hi \<le> lo \<Longrightarrow> first_index P lo hi = None"
  by (subst first_index.simps) simp

lemma first_index_Some:
  "first_index P lo hi = Some i \<Longrightarrow> lo \<le> i \<and> i < hi \<and> P i \<and> (\<forall>j. lo \<le> j \<longrightarrow> j < i \<longrightarrow> \<not> P j)"
proof (induction P lo hi rule: first_index.induct)
  case (1 P lo hi)
  show ?case
  proof (cases "lo < hi")
    case False
    with 1 show ?thesis by simp
  next
    case lt: True
    show ?thesis
    proof (cases "P lo")
      case True
      with lt "1.prems" show ?thesis by (simp add: first_index.simps [of P lo hi])
    next
      case False
      with lt "1.prems" have "first_index P (Suc lo) hi = Some i"
        by (simp add: first_index.simps [of P lo hi])
      with lt False "1.IH" have "Suc lo \<le> i \<and> i < hi \<and> P i \<and> (\<forall>j. Suc lo \<le> j \<longrightarrow> j < i \<longrightarrow> \<not> P j)"
        by blast
      with False show ?thesis by (metis Suc_leD Suc_leI le_neq_implies_less)
    qed
  qed
qed

lemma first_index_None: "(first_index P lo hi = None) = (\<forall>j. lo \<le> j \<longrightarrow> j < hi \<longrightarrow> \<not> P j)"
proof (induction P lo hi rule: first_index.induct)
  case (1 P lo hi)
  show ?case
  proof (cases "lo < hi \<and> \<not> P lo")
    case True
    with 1 show ?thesis
      by (simp add: first_index.simps [of P lo hi]) (metis Suc_leD Suc_leI le_neq_implies_less)
  next
    case False
    then show ?thesis by (auto simp: first_index.simps [of P lo hi])
  qed
qed

lemma first_index_ex:
  "lo \<le> i \<Longrightarrow> i < hi \<Longrightarrow> P i \<Longrightarrow> \<exists>k. first_index P lo hi = Some k"
  using first_index_None [of P lo hi] by (cases "first_index P lo hi") auto

lemma first_index_cong:
  "(\<And>i. lo \<le> i \<Longrightarrow> i < hi \<Longrightarrow> P i = Q i) \<Longrightarrow> first_index P lo hi = first_index Q lo hi"
proof (induction P lo hi rule: first_index.induct)
  case (1 P lo hi)
  show ?case
  proof (cases "lo < hi")
    case True
    with 1 show ?thesis
      by (simp add: first_index.simps [of P lo hi] first_index.simps [of Q lo hi])
  qed simp
qed

text \<open>The same loop over the cells of an array, where reading past the end fails.\<close>

function search_arr :: "('a \<Rightarrow> bool) \<Rightarrow> 'a list \<Rightarrow> nat \<Rightarrow> nat \<Rightarrow> nat option option" where
  "search_arr P xs lo hi =
     (if lo < hi
      then do { x \<leftarrow> arr_get xs lo; if P x then Some (Some lo) else search_arr P xs (Suc lo) hi }
      else Some None)"
  by pat_completeness auto
termination
  by (relation "measure (\<lambda>(P, xs, lo, hi). hi - lo)") auto

declare search_arr.simps [simp del]

lemma search_arr_code [code]:
  "search_arr P xs lo hi =
     (if lo < hi
      then do { x \<leftarrow> arr_get xs lo; if P x then Some (Some lo) else search_arr P xs (Suc lo) hi }
      else Some None)"
  by (rule search_arr.simps)

lemma search_arr_eq:
  "hi \<le> length xs \<Longrightarrow> search_arr P xs lo hi = Some (first_index (\<lambda>i. P (xs ! i)) lo hi)"
proof (induction P xs lo hi rule: search_arr.induct)
  case (1 P xs lo hi)
  show ?case
  proof (cases "lo < hi")
    case True
    with 1 have "arr_get xs lo = Some (xs ! lo)" by simp
    with True 1 show ?thesis
      by (simp add: search_arr.simps [of P xs lo hi] first_index.simps [of _ lo hi])
  qed (simp add: search_arr.simps)
qed

lemma first_index_append:
  "lo \<le> mid \<Longrightarrow> mid \<le> hi \<Longrightarrow> first_index P lo hi =
     (case first_index P lo mid of None \<Rightarrow> first_index P mid hi | Some i \<Rightarrow> Some i)"
proof (induction P lo mid rule: first_index.induct)
  case (1 P lo mid)
  then show ?case
    by (cases "lo < mid") (auto simp: first_index.simps [of P lo hi] first_index.simps [of P lo mid])
qed

lemma first_index_shift:
  "first_index P (lo + k) (hi + k) = map_option (\<lambda>i. i + k) (first_index (\<lambda>i. P (i + k)) lo hi)"
proof (induction "\<lambda>i. P (i + k)" lo hi rule: first_index.induct)
  case (1 lo hi)
  then show ?case
    by (cases "lo < hi")
      (auto simp: first_index.simps [of P "lo + k" "hi + k"] first_index.simps [of _ lo hi])
qed

subsection \<open>Constants of inc/champsim.h\<close>

definition NUM_CPUS :: nat where [champsim_consts]: "NUM_CPUS = 1"
definition PAGE_SIZE :: nat where [champsim_consts]: "PAGE_SIZE = 4096"
definition LOG2_PAGE_SIZE :: nat where [champsim_consts]: "LOG2_PAGE_SIZE = 12"
definition BLOCK_SIZE :: nat where [champsim_consts]: "BLOCK_SIZE = 64"
definition LOG2_BLOCK_SIZE :: nat where [champsim_consts]: "LOG2_BLOCK_SIZE = 6"
definition INFLIGHT :: u8 where [champsim_consts]: "INFLIGHT = 1"
definition COMPLETED :: u8 where [champsim_consts]: "COMPLETED = 2"

text \<open>The cache access types of \<open>inc/memory_class.h\<close>.\<close>

definition LOAD :: u8 where [champsim_consts]: "LOAD = 0"
definition RFO :: u8 where [champsim_consts]: "RFO = 1"
definition PREFETCH :: u8 where [champsim_consts]: "PREFETCH = 2"
definition WRITEBACK :: u8 where [champsim_consts]: "WRITEBACK = 3"
definition NUM_TYPES :: nat where [champsim_consts]: "NUM_TYPES = 4"

subsection \<open>The integer logarithm of src/main.cc\<close>

text \<open>The loop halves \<open>m\<close> until it is zero and counts the halvings from \<open>-1\<close>.\<close>

fun lg2_loop :: "nat \<Rightarrow> int \<Rightarrow> int" where
  "lg2_loop m c = (if m = 0 then c else lg2_loop (m div 2) (c + 1))"

declare lg2_loop.simps [simp del]

definition lg2 :: "nat \<Rightarrow> int" where
  "lg2 n = lg2_loop n (- 1)"

lemma lg2_loop_pow: "lg2_loop (2 ^ k) c = c + int k + 1"
proof (induction k arbitrary: c)
  case 0
  show ?case by (simp add: lg2_loop.simps [of "Suc 0"] lg2_loop.simps [of 0])
next
  case (Suc k)
  have "(2::nat) ^ Suc k div 2 = 2 ^ k" by simp
  with Suc show ?case by (subst lg2_loop.simps) simp
qed

lemma lg2_pow [simp]: "lg2 (2 ^ k) = int k"
  by (simp add: lg2_def lg2_loop_pow)

end
