(* ===== verification/Fast_Set.thy ===== *)
theory Fast_Set
  imports NV_Prelude
begin

text \<open>
  The class \<open>fastset\<close> of \<open>inc/set.h\<close>: a set of 16-bit values below \<open>MAX_SIZE\<close>, kept as a
  sorted array while it has fewer than \<open>SMALL_SIZE\<close> members and as a bit set of 64-bit
  words afterwards; both representations share the memory of one C++ union.

  The union is a datatype whose constructor is the active member.  Reading the member that
  is not active, reading a cell that was never written, and indexing outside an array are
  \<open>None\<close>.  The invariant \<open>fs_inv\<close> and the abstraction \<open>fs_set\<close> show that none of these
  happens and that the operations are those of a mathematical set (locale \<open>set_interface\<close>).
\<close>

section \<open>The data type\<close>

definition MAX_SIZE :: nat where [champsim_consts]: "MAX_SIZE = 512"
definition SMALL_SIZE :: int where [champsim_consts]: "SMALL_SIZE = 13"
definition SMALLER_SIZE :: int where [champsim_consts]: "SMALLER_SIZE = 6"

datatype fs_union = Values "u16 option list" | Bits "u64 list"

record fastset =
  fs_data :: fs_union
  card_of :: int

text \<open>The constructor sets the cardinality only; the union's memory is indeterminate.\<close>

definition fastset_new :: fastset where
  "fastset_new = \<lparr>fs_data = Values (replicate 13 None), card_of = 0\<rparr>"

definition get_value :: "fastset \<Rightarrow> int \<Rightarrow> u16 option" where
  "get_value s i =
     (case fs_data s of
        Values vs \<Rightarrow> (if 0 \<le> i then do { c \<leftarrow> arr_get vs (nat i); c } else None)
      | Bits _ \<Rightarrow> None)"

text \<open>Writing a value makes the value array the active member of the union.\<close>

definition set_value :: "fastset \<Rightarrow> int \<Rightarrow> u16 \<Rightarrow> fastset option" where
  "set_value s i x =
     (let vs = (case fs_data s of Values vs \<Rightarrow> vs | Bits _ \<Rightarrow> replicate 13 None)
      in if 0 \<le> i
         then do { vs' \<leftarrow> arr_set vs (nat i) (Some x); Some (s\<lparr>fs_data := Values vs'\<rparr>) }
         else None)"

definition setbit :: "fastset \<Rightarrow> u16 \<Rightarrow> fastset option" where
  "setbit s x =
     (let wd = unat (drop_bit 6 x); b = unat (x AND 63)
      in case fs_data s of
           Values _ \<Rightarrow> None
         | Bits bs \<Rightarrow> do {
             old \<leftarrow> arr_get bs wd;
             bs' \<leftarrow> arr_set bs wd (old OR push_bit b 1);
             Some (s\<lparr>fs_data := Bits bs'\<rparr>) })"

definition getbit :: "fastset \<Rightarrow> u16 \<Rightarrow> bool option" where
  "getbit s x =
     (let wd = unat (drop_bit 6 x); b = unat (x AND 63)
      in case fs_data s of
           Values _ \<Rightarrow> None
         | Bits bs \<Rightarrow> do { w \<leftarrow> arr_get bs wd; Some (drop_bit b w AND 1 \<noteq> 0) })"

section \<open>Insertion\<close>

text \<open>
  The search loop of \<open>insert_small\<close>: \<open>Some None\<close> when \<open>x\<close> is already there (the function
  returns), \<open>Some (Some i)\<close> when the loop is left at index \<open>i\<close>.
\<close>

function insert_pos :: "fastset \<Rightarrow> u16 \<Rightarrow> int \<Rightarrow> int option option" where
  "insert_pos s x i =
     (if i < card_of s
      then do {
        y \<leftarrow> get_value s i;
        if y = x then Some None
        else if y > x then Some (Some i)
        else insert_pos s x (i + 1) }
      else Some (Some i))"
  by pat_completeness auto
termination
  by (relation "measure (\<lambda>(s, x, i). nat (card_of s - i))") auto

text \<open>The loop \<open>for (j = card-1; j >= i; j--) values[j+1] = values[j]\<close>.\<close>

function shift_up :: "fastset \<Rightarrow> int \<Rightarrow> int \<Rightarrow> fastset option" where
  "shift_up s i j =
     (if i \<le> j
      then do {
        v \<leftarrow> get_value s j;
        s' \<leftarrow> set_value s (j + 1) v;
        shift_up s' i (j - 1) }
      else Some s)"
  by pat_completeness auto
termination
  by (relation "measure (\<lambda>(s, i, j). nat (j - i + 1))") auto

definition insert_small :: "fastset \<Rightarrow> u16 \<Rightarrow> fastset option" where
  "insert_small s x = do {
     r \<leftarrow> insert_pos s x 0;
     case r of
       None \<Rightarrow> Some s
     | Some i \<Rightarrow> do {
         s1 \<leftarrow> shift_up s i (card_of s - 1);
         s2 \<leftarrow> set_value s1 i x;
         Some (s2\<lparr>card_of := card_of s2 + 1\<rparr>) } }"

text \<open>
  \<open>smalltobit\<close> copies the values to a temporary array, clears the bit words (which share
  the values' memory) and then sets one bit per copied value.
\<close>

fun copy_values :: "fastset \<Rightarrow> int \<Rightarrow> nat \<Rightarrow> u16 list option" where
  "copy_values s i 0 = Some []"
| "copy_values s i (Suc n) = do {
     v \<leftarrow> get_value s i;
     vs \<leftarrow> copy_values s (i + 1) n;
     Some (v # vs) }"

fun setbits :: "fastset \<Rightarrow> u16 list \<Rightarrow> fastset option" where
  "setbits s [] = Some s"
| "setbits s (x # xs) = do { s' \<leftarrow> setbit s x; setbits s' xs }"

definition smalltobit :: "fastset \<Rightarrow> fastset option" where
  "smalltobit s = do {
     tmp \<leftarrow> copy_values s 0 (nat (card_of s));
     setbits (s\<lparr>fs_data := Bits (replicate (MAX_SIZE div 64) 0)\<rparr>) tmp }"

definition fs_insert :: "fastset \<Rightarrow> u16 \<Rightarrow> fastset option" where
  "fs_insert s x =
     (if card_of s = 0
      then do { s' \<leftarrow> set_value s 0 x; Some (s'\<lparr>card_of := card_of s' + 1\<rparr>) }
      else if card_of s < SMALL_SIZE
      then do {
        s' \<leftarrow> insert_small s x;
        if card_of s' = SMALL_SIZE then smalltobit s' else Some s' }
      else setbit s x)"

section \<open>Search\<close>

function search_small_linear :: "fastset \<Rightarrow> u16 \<Rightarrow> int \<Rightarrow> bool option" where
  "search_small_linear s x i =
     (if i < card_of s
      then do {
        y \<leftarrow> get_value s i;
        if y > x then Some False
        else if y = x then Some True
        else search_small_linear s x (i + 1) }
      else Some False)"
  by pat_completeness auto
termination
  by (relation "measure (\<lambda>(s, x, i). nat (card_of s - i))") auto

text \<open>
  The binary search.  The source tests \<open>end < begin\<close> after each halving and its first
  middle is \<open>end/2\<close>, which is \<open>(begin+end)/2\<close> for \<open>begin = 0\<close>; the sum is never negative,
  so the division truncates and rounds down alike.
\<close>

function binary_search :: "fastset \<Rightarrow> u16 \<Rightarrow> int \<Rightarrow> int \<Rightarrow> bool option" where
  "binary_search s x b e =
     (if e < b then Some False
      else let m = (b + e) div 2 in do {
        y \<leftarrow> get_value s m;
        if x < y then binary_search s x b (m - 1)
        else if x > y then binary_search s x (m + 1) e
        else Some True })"
  by pat_completeness auto
termination
  by (relation "measure (\<lambda>(s, x, b, e). nat (e - b + 1))") auto

definition search_small :: "fastset \<Rightarrow> u16 \<Rightarrow> bool option" where
  "search_small s x =
     (if card_of s = 0 then Some False
      else if card_of s < SMALLER_SIZE then search_small_linear s x 0
      else binary_search s x 0 (card_of s - 1))"

definition fs_search :: "fastset \<Rightarrow> u16 \<Rightarrow> bool option" where
  "fs_search s x =
     (if card_of s = 0 then Some False
      else if card_of s = 1 then do { v \<leftarrow> get_value s 0; Some (v = x) }
      else if card_of s < SMALL_SIZE then search_small s x
      else getbit s x)"

section \<open>Union and expansion\<close>

fun insert_values :: "fastset \<Rightarrow> fastset \<Rightarrow> int \<Rightarrow> nat \<Rightarrow> fastset option" where
  "insert_values s q i 0 = Some s"
| "insert_values s q i (Suc n) = do {
     v \<leftarrow> get_value q i;
     s' \<leftarrow> fs_insert s v;
     insert_values s' q (i + 1) n }"

fun or_words :: "u64 list \<Rightarrow> u64 list \<Rightarrow> nat \<Rightarrow> nat \<Rightarrow> u64 list option" where
  "or_words bs cs i 0 = Some bs"
| "or_words bs cs i (Suc n) = do {
     b \<leftarrow> arr_get bs i;
     c \<leftarrow> arr_get cs i;
     bs' \<leftarrow> arr_set bs i (b OR c);
     or_words bs' cs (Suc i) n }"

text \<open>\<open>join\<close>: this set becomes the union of itself and \<open>other\<close>, up to the next multiple of 64 of \<open>n\<close>.\<close>

definition join_bits :: "fastset \<Rightarrow> fastset \<Rightarrow> nat \<Rightarrow> fastset option" where
  "join_bits s other n =
     (let lim = ((n OR 63) + 1) div 64
      in case (fs_data s, fs_data other) of
           (Bits bs, Bits cs) \<Rightarrow> do {
             bs' \<leftarrow> or_words bs cs 0 lim;
             Some (s\<lparr>fs_data := Bits bs'\<rparr>) }
         | _ \<Rightarrow> None)"

definition fs_join :: "fastset \<Rightarrow> fastset \<Rightarrow> nat \<Rightarrow> fastset option" where
  "fs_join s other n =
     (if card_of other = 0 then Some s
      else if card_of other < SMALL_SIZE then insert_values s other 0 (nat (card_of other))
      else if card_of s < SMALL_SIZE
      then do {
        s' \<leftarrow> smalltobit s;
        join_bits (s'\<lparr>card_of := SMALL_SIZE\<rparr>) other n }
      else join_bits s other n)"

text \<open>The inner loop of \<open>expand\<close> over the 64 bits from \<open>i\<close> on, and the outer loop over the words.\<close>

fun expand_word :: "fastset \<Rightarrow> nat \<Rightarrow> nat \<Rightarrow> nat \<Rightarrow> u16 list option" where
  "expand_word s n l 0 = Some []"
| "expand_word s n l (Suc k) =
     (if l < n
      then do {
        b \<leftarrow> getbit s (of_nat l);
        vs \<leftarrow> expand_word s n (Suc l) k;
        Some (if b then of_nat l # vs else vs) }
      else Some [])"

function expand_bits :: "fastset \<Rightarrow> u64 list \<Rightarrow> nat \<Rightarrow> nat \<Rightarrow> u16 list option" where
  "expand_bits s bs n i =
     (if i < n
      then do {
        w \<leftarrow> arr_get bs (i div 64);
        vs \<leftarrow> (if w \<noteq> 0 then expand_word s n i 64 else Some []);
        ws \<leftarrow> expand_bits s bs n (i + 64);
        Some (vs @ ws) }
      else Some [])"
  by pat_completeness auto
termination
  by (relation "measure (\<lambda>(s, bs, n, i). n - i)") auto

text \<open>\<open>expand\<close> returns the values written to the array \<open>v\<close>; its length is the returned cardinality.\<close>

definition fs_expand :: "fastset \<Rightarrow> nat \<Rightarrow> u16 list option" where
  "fs_expand s n =
     (if card_of s = 0 then Some []
      else if card_of s < SMALL_SIZE then copy_values s 0 (nat (card_of s))
      else case fs_data s of Values _ \<Rightarrow> None | Bits bs \<Rightarrow> expand_bits s bs n 0)"

section \<open>Representation of small sets\<close>

declare insert_pos.simps [simp del] shift_up.simps [simp del]
  search_small_linear.simps [simp del] binary_search.simps [simp del] expand_bits.simps [simp del]

text \<open>\<open>rep s xs\<close>: the first \<open>card\<close> cells of the value array hold \<open>xs\<close>.\<close>

definition rep :: "fastset \<Rightarrow> u16 list \<Rightarrow> bool" where
  "rep s xs \<longleftrightarrow> card_of s = int (length xs) \<and>
     (\<exists>rest. fs_data s = Values (map Some xs @ rest) \<and> length xs + length rest = 13)"

lemma rep_card: "rep s xs \<Longrightarrow> card_of s = int (length xs)"
  by (simp add: rep_def)

lemma get_value_rep:
  "rep s xs \<Longrightarrow> 0 \<le> i \<Longrightarrow> i < int (length xs) \<Longrightarrow> get_value s i = Some (xs ! nat i)"
  by (auto simp: rep_def get_value_def arr_get_def nth_append nat_less_iff)

lemma length_takeWhile_split:
  assumes "\<And>k. k < i \<Longrightarrow> xs ! k < (x::u16)" "i \<le> length xs" "i < length xs \<Longrightarrow> \<not> xs ! i < x"
  shows "length (takeWhile (\<lambda>y. y < x) xs) = i"
proof -
  have "takeWhile (\<lambda>y. y < x) xs = take i xs"
    by (rule takeWhile_eq_take_P_nth) (use assms in auto)
  with assms(2) show ?thesis by simp
qed

lemma insert_pos_rep:
  assumes "rep s xs" "sorted_wrt (<) xs" "0 \<le> i" "i \<le> int (length xs)"
    and "\<forall>k < nat i. xs ! k < x"
  shows "insert_pos s x i =
    Some (if x \<in> set xs then None else Some (int (length (takeWhile (\<lambda>y. y < x) xs))))"
  using assms
proof (induction s x i rule: insert_pos.induct)
  case (1 s x i)
  note rep = "1.prems"(1) and srt = "1.prems"(2) and lo = "1.prems"(3) and hi = "1.prems"(4)
    and left = "1.prems"(5)
  have notleft: "\<forall>k < nat i. xs ! k \<noteq> x" using left by auto
  show ?case
  proof (cases "i < card_of s")
    case False
    with rep_card [OF rep] hi have len: "nat i = length xs" by simp
    with left have all: "\<forall>y \<in> set xs. y < x" by (auto simp: in_set_conv_nth)
    have "length (takeWhile (\<lambda>y. y < x) xs) = nat i"
      using all len by (intro length_takeWhile_split) auto
    moreover have "x \<notin> set xs" using all by auto
    ultimately show ?thesis using False lo by (simp add: insert_pos.simps [of s x i])
  next
    case True
    with rep_card [OF rep] lo have ilen: "nat i < length xs" by simp
    have gv: "get_value s i = Some (xs ! nat i)"
      using get_value_rep [OF rep lo] True rep_card [OF rep] by simp
    consider (eq) "xs ! nat i = x" | (gt) "x < xs ! nat i" | (lt) "xs ! nat i < x"
      by (meson linorder_cases)
    then show ?thesis
    proof cases
      case eq
      then have "x \<in> set xs" using ilen nth_mem by blast
      with eq gv True show ?thesis by (simp add: insert_pos.simps [of s x i])
    next
      case gt
      have right: "\<forall>k. nat i \<le> k \<longrightarrow> k < length xs \<longrightarrow> x < xs ! k"
        using srt gt by (metis le_neq_implies_less order.strict_trans sorted_wrt_nth_less)
      have "x \<notin> set xs"
        using left right by (metis in_set_conv_nth less_irrefl not_le_imp_less)
      moreover have "length (takeWhile (\<lambda>y. y < x) xs) = nat i"
        using left gt ilen by (intro length_takeWhile_split) auto
      ultimately show ?thesis using gt gv True lo by (auto simp: insert_pos.simps [of s x i])
    next
      case lt
      have left': "\<forall>k < nat (i + 1). xs ! k < x"
      proof (intro allI impI)
        fix k assume "k < nat (i + 1)"
        with lo have "k < nat i \<or> k = nat i" by linarith
        with left lt show "xs ! k < x" by auto
      qed
      have "insert_pos s x (i + 1) =
          Some (if x \<in> set xs then None else Some (int (length (takeWhile (\<lambda>y. y < x) xs))))"
        by (rule "1.IH" [OF True gv _ _ rep srt _ _ left']) (use lt lo ilen in auto)
      with lt gv True show ?thesis by (auto simp: insert_pos.simps [of s x i])
    qed
  qed
qed

lemma shift_up_Values:
  assumes "fs_data s = Values vs" "0 \<le> i" "i \<le> j + 1" "j + 1 < int (length vs)"
    and "\<forall>k. i \<le> int k \<longrightarrow> int k \<le> j \<longrightarrow> vs ! k \<noteq> None"
  shows "\<exists>vs'. shift_up s i j = Some (s\<lparr>fs_data := Values vs'\<rparr>) \<and> length vs' = length vs \<and>
    (\<forall>k. vs' ! k = (if i < int k \<and> int k \<le> j + 1 then vs ! (k - 1) else vs ! k))"
  using assms
proof (induction s i j arbitrary: vs rule: shift_up.induct)
  case (1 s i j)
  note data = "1.prems"(1) and lo = "1.prems"(2) and ij = "1.prems"(3) and hi = "1.prems"(4)
    and some = "1.prems"(5)
  show ?case
  proof (cases "i \<le> j")
    case False
    with ij have "i = j + 1" by simp
    then have "shift_up s i j = Some (s\<lparr>fs_data := Values vs\<rparr>)"
      using data by (cases s) (simp add: shift_up.simps)
    with False show ?thesis by (intro exI [of _ vs]) auto
  next
    case True
    with lo hi have jlen: "nat j < length vs" by linarith
    from some True lo have "vs ! nat j \<noteq> None" by simp
    then obtain v where v: "vs ! nat j = Some v" by blast
    have gv: "get_value s j = Some v"
      using data True lo jlen v by (simp add: get_value_def)
    define s' where "s' = s\<lparr>fs_data := Values (vs[nat (j + 1) := Some v])\<rparr>"
    have sv: "set_value s (j + 1) v = Some s'"
      using data True lo hi by (simp add: set_value_def s'_def)
    have data': "fs_data s' = Values (vs[nat (j + 1) := Some v])" by (simp add: s'_def)
    have some': "\<forall>k. i \<le> int k \<longrightarrow> int k \<le> j - 1 \<longrightarrow> vs[nat (j + 1) := Some v] ! k \<noteq> None"
    proof (intro allI impI)
      fix k assume k: "i \<le> int k" "int k \<le> j - 1"
      then have "k \<noteq> nat (j + 1)" by linarith
      with k some show "vs[nat (j + 1) := Some v] ! k \<noteq> None" by simp
    qed
    obtain vs' where vs': "shift_up s' i (j - 1) = Some (s'\<lparr>fs_data := Values vs'\<rparr>)"
        "length vs' = length vs"
        "\<forall>k. vs' ! k = (if i < int k \<and> int k \<le> j then vs[nat (j + 1) := Some v] ! (k - 1)
              else vs[nat (j + 1) := Some v] ! k)"
      using "1.IH" [OF True gv sv data' lo] True hi some' by auto
    have "vs' ! k = (if i < int k \<and> int k \<le> j + 1 then vs ! (k - 1) else vs ! k)" for k
    proof (cases "int k = j + 1")
      case True
      then have "k = nat (j + 1)" "k - 1 = nat j" "nat (j + 1) < length vs" using hi by linarith+
      with \<open>i \<le> j\<close> True v hi vs'(3) show ?thesis by simp
    next
      case False
      then have "k \<noteq> nat (j + 1)" "k - 1 \<noteq> nat (j + 1) \<or> \<not> int k \<le> j" using lo \<open>i \<le> j\<close> by linarith+
      with False vs'(3) show ?thesis by auto
    qed
    with vs' gv sv True show ?thesis by (auto simp: shift_up.simps [of s i j] s'_def)
  qed
qed

definition ins_sorted :: "u16 \<Rightarrow> u16 list \<Rightarrow> u16 list" where
  "ins_sorted x xs = (if x \<in> set xs then xs
     else takeWhile (\<lambda>y. y < x) xs @ x # dropWhile (\<lambda>y. y < x) xs)"

lemma insert_small_rep:
  assumes rep: "rep s xs" and srt: "sorted_wrt (<) xs" and len: "length xs < 13"
  shows "\<exists>s'. insert_small s x = Some s' \<and> rep s' (ins_sorted x xs)"
proof -
  define n where "n = length (takeWhile (\<lambda>y. y < x) xs)"
  have n: "n \<le> length xs" by (simp add: n_def length_takeWhile_le)
  have pos: "insert_pos s x 0 = Some (if x \<in> set xs then None else Some (int n))"
    using insert_pos_rep [OF rep srt, of 0 x] by (simp add: n_def)
  show ?thesis
  proof (cases "x \<in> set xs")
    case True
    with pos rep show ?thesis by (auto simp: insert_small_def ins_sorted_def)
  next
    case False
    from rep obtain rest where data: "fs_data s = Values (map Some xs @ rest)"
        and l13: "length xs + length rest = 13" and c: "card_of s = int (length xs)"
      by (auto simp: rep_def)
    let ?vs = "map Some xs @ rest"
    have "\<forall>k. int n \<le> int k \<longrightarrow> int k \<le> card_of s - 1 \<longrightarrow> ?vs ! k \<noteq> None"
      by (auto simp: nth_append c)
    with shift_up_Values [OF data, of "int n" "card_of s - 1"] n len l13 c
    obtain vs' where sh: "shift_up s (int n) (card_of s - 1) = Some (s\<lparr>fs_data := Values vs'\<rparr>)"
        and lv: "length vs' = 13"
        and nv: "\<And>k. vs' ! k = (if n < k \<and> k \<le> length xs then ?vs ! (k - 1) else ?vs ! k)"
      by auto
    let ?ys = "take n xs @ x # drop n xs"
    have tw: "takeWhile (\<lambda>y. y < x) xs = take n xs" "dropWhile (\<lambda>y. y < x) xs = drop n xs"
      by (simp_all add: n_def takeWhile_eq_take [symmetric] dropWhile_eq_drop [symmetric])
    have eq: "vs'[n := Some x] = map Some ?ys @ drop (Suc (length xs)) vs'"
    proof (rule nth_equalityI)
      show "length (vs'[n := Some x]) = length (map Some ?ys @ drop (Suc (length xs)) vs')"
        using n len lv by simp
    next
      fix k assume k: "k < length (vs'[n := Some x])"
      show "vs'[n := Some x] ! k = (map Some ?ys @ drop (Suc (length xs)) vs') ! k"
      proof (cases "k \<le> length xs")
        case False
        then have "\<not> k - Suc n < length xs - n" "k - Suc (length xs) + Suc (length xs) = k" "n \<noteq> k" "\<not> k < n"
          using n by linarith+
        with n k lv False show ?thesis by (simp add: nth_append nth_Cons' min_def add.commute)
      next
        case True
        then consider "k < n" | "k = n" | "n < k" "k \<le> length xs" by linarith
        then show ?thesis
        proof cases
          case 3
          then have "k - Suc n < length xs - n" "n + (k - Suc n) = k - 1" "k - Suc 0 < length xs" by linarith+
          with 3 n k lv show ?thesis by (simp add: nth_append nv nth_Cons' min_def)
        qed (use n k lv True in \<open>auto simp: nth_append nv min_def\<close>)
      qed
    qed
    let ?s' = "s\<lparr>fs_data := Values (vs'[n := Some x]), card_of := card_of s + 1\<rparr>"
    have "insert_small s x = Some ?s'"
      using pos False sh n len lv by (simp add: insert_small_def set_value_def)
    moreover have "rep ?s' ?ys"
      unfolding rep_def using n len lv eq c by auto
    ultimately show ?thesis using False tw by (auto simp: ins_sorted_def)
  qed
qed


section \<open>The bit representation\<close>

lemma word_index: "unat (drop_bit 6 (x::u16)) = unat x div 64"
  by (simp add: drop_bit_eq_div unat_div)

lemma bit_index: "unat (x AND 63 :: u16) = unat x mod 64"
proof -
  have "(63::u16) = mask 6" by (simp add: mask_eq_exp_minus_1)
  then have "x AND 63 = take_bit 6 x" by (simp add: take_bit_eq_mask)
  then show ?thesis by (simp add: take_bit_eq_mod unat_mod)
qed

lemma bit_test: "(drop_bit b (w::u64) AND 1 \<noteq> 0) = bit w b"
proof -
  have "drop_bit b w AND 1 = of_bool (bit w b)"
    by (rule bit_eqI) (auto simp: bit_and_iff bit_drop_bit_eq bit_1_iff intro!: gr0I)
  then show ?thesis by simp
qed

lemma bit_push_one: "b < 64 \<Longrightarrow> bit (push_bit b (1::u64)) n = (n = b)"
  by (auto simp: push_bit_eq_mult bit_exp_iff)

definition bits_mem :: "u64 list \<Rightarrow> u16 \<Rightarrow> bool" where
  "bits_mem bs x \<longleftrightarrow> bit (bs ! (unat x div 64)) (unat x mod 64)"

lemma getbit_Bits:
  "fs_data s = Bits bs \<Longrightarrow> length bs = 8 \<Longrightarrow> unat x < 512 \<Longrightarrow> getbit s x = Some (bits_mem bs x)"
  by (simp add: getbit_def word_index bit_index bit_test bits_mem_def)

lemma setbit_Bits:
  assumes "fs_data s = Bits bs" "length bs = 8" "unat x < 512"
  shows "\<exists>bs'. setbit s x = Some (s\<lparr>fs_data := Bits bs'\<rparr>) \<and> length bs' = 8 \<and>
    (\<forall>y. unat y < 512 \<longrightarrow> bits_mem bs' y = (y = x \<or> bits_mem bs y))"
proof -
  let ?w = "unat x div 64" and ?b = "unat x mod 64"
  let ?bs = "bs[?w := bs ! ?w OR push_bit ?b 1]"
  have w: "?w < 8" using assms(3) by auto
  have "bits_mem ?bs y = (y = x \<or> bits_mem bs y)" if "unat y < 512" for y
  proof (cases "unat y div 64 = ?w")
    case True
    have "(unat y mod 64 = ?b) = (y = x)"
      using True by (metis div_mult_mod_eq word_unat_eq_iff)
    with True w assms(2) show ?thesis
      by (auto simp: bits_mem_def bit_or_iff bit_push_one simp del: push_bit_of_1)
  next
    case False
    then have "y \<noteq> x" by auto
    with False show ?thesis by (simp add: bits_mem_def)
  qed
  with assms w show ?thesis
    by (intro exI [of _ ?bs]) (simp add: setbit_def word_index bit_index Let_def)
qed

lemma setbits_Bits:
  assumes "fs_data s = Bits bs" "length bs = 8" "\<forall>x \<in> set xs. unat x < 512"
  shows "\<exists>bs'. setbits s xs = Some (s\<lparr>fs_data := Bits bs'\<rparr>) \<and> length bs' = 8 \<and>
    (\<forall>y. unat y < 512 \<longrightarrow> bits_mem bs' y = (y \<in> set xs \<or> bits_mem bs y))"
  using assms
proof (induction xs arbitrary: s bs)
  case Nil
  then have "setbits s [] = Some (s\<lparr>fs_data := Bits bs\<rparr>)" by (cases s) simp
  with Nil show ?case by (intro exI [of _ bs]) (simp del: setbits.simps)
next
  case (Cons x xs)
  from setbit_Bits [OF Cons.prems(1,2), of x] Cons.prems(3)
  obtain bs1 where b1: "setbit s x = Some (s\<lparr>fs_data := Bits bs1\<rparr>)" "length bs1 = 8"
      "\<forall>y. unat y < 512 \<longrightarrow> bits_mem bs1 y = (y = x \<or> bits_mem bs y)" by auto
  from Cons.IH [of "s\<lparr>fs_data := Bits bs1\<rparr>" bs1] b1(2) Cons.prems(3)
  obtain bs2 where "setbits (s\<lparr>fs_data := Bits bs1\<rparr>) xs = Some (s\<lparr>fs_data := Bits bs2\<rparr>)"
      "length bs2 = 8" "\<forall>y. unat y < 512 \<longrightarrow> bits_mem bs2 y = (y \<in> set xs \<or> bits_mem bs1 y)"
    by auto
  with b1 show ?case by auto
qed

lemma copy_values_rep:
  assumes "rep s xs" "0 \<le> i" "nat i + n \<le> length xs"
  shows "copy_values s i n = Some (take n (drop (nat i) xs))"
  using assms
proof (induction s i n rule: copy_values.induct)
  case (2 s i n)
  then have "get_value s i = Some (xs ! nat i)" by (intro get_value_rep) auto
  moreover have "copy_values s (i + 1) n = Some (take n (drop (nat (i + 1)) xs))"
    using "2.IH" "2.prems" \<open>get_value s i = Some (xs ! nat i)\<close> by (simp add: nat_add_distrib)
  moreover have "drop (nat i) xs = xs ! nat i # drop (nat (i + 1)) xs"
    using 2 by (simp add: nat_add_distrib Cons_nth_drop_Suc)
  ultimately show ?case by simp
qed simp

lemma smalltobit_rep:
  assumes "rep s xs" "\<forall>x \<in> set xs. unat x < 512"
  shows "\<exists>bs. smalltobit s = Some (s\<lparr>fs_data := Bits bs\<rparr>) \<and> length bs = 8 \<and>
    (\<forall>y. unat y < 512 \<longrightarrow> bits_mem bs y = (y \<in> set xs))"
proof -
  let ?s = "s\<lparr>fs_data := Bits (replicate 8 0)\<rparr>"
  have zero: "\<not> bits_mem (replicate 8 0) y" if "unat y < 512" for y
    using that by (simp add: bits_mem_def)
  have "copy_values s 0 (nat (card_of s)) = Some xs"
    using copy_values_rep [OF assms(1), of 0 "length xs"] rep_card [OF assms(1)] by simp
  moreover obtain bs where "setbits ?s xs = Some (?s\<lparr>fs_data := Bits bs\<rparr>)" "length bs = 8"
      "\<forall>y. unat y < 512 \<longrightarrow> bits_mem bs y = (y \<in> set xs \<or> bits_mem (replicate 8 0) y)"
    using setbits_Bits [of ?s "replicate 8 0" xs] assms(2) by auto
  ultimately show ?thesis using zero by (auto simp: smalltobit_def MAX_SIZE_def)
qed

section \<open>Invariant and abstraction\<close>

text \<open>
  \<open>small_vals\<close> are the values of a small set, in array order.  The invariant: a small set's
  values are written, strictly increasing and below \<open>MAX_SIZE\<close>; otherwise the cardinality
  stays at \<open>SMALL_SIZE\<close> and the eight bit words are the active member.
\<close>

definition small_vals :: "fastset \<Rightarrow> u16 list" where
  "small_vals s = (case fs_data s of
      Values vs \<Rightarrow> map the (take (nat (card_of s)) vs) | Bits _ \<Rightarrow> [])"

definition fs_inv :: "fastset \<Rightarrow> bool" where
  "fs_inv s \<longleftrightarrow> 0 \<le> card_of s \<and>
     (if card_of s < SMALL_SIZE
      then (case fs_data s of
              Values vs \<Rightarrow> length vs = 13 \<and> list_all (\<lambda>c. c \<noteq> None) (take (nat (card_of s)) vs)
            | Bits _ \<Rightarrow> False) \<and>
           sorted_wrt (<) (small_vals s) \<and> list_all (\<lambda>x. unat x < MAX_SIZE) (small_vals s)
      else card_of s = SMALL_SIZE \<and>
           (case fs_data s of Values _ \<Rightarrow> False | Bits bs \<Rightarrow> length bs = 8))"

definition fs_set :: "fastset \<Rightarrow> u16 set" where
  "fs_set s = (if card_of s < SMALL_SIZE then set (small_vals s)
     else case fs_data s of Values _ \<Rightarrow> {} | Bits bs \<Rightarrow> {x. unat x < MAX_SIZE \<and> bits_mem bs x})"

lemma fs_small:
  "(fs_inv s \<and> card_of s < SMALL_SIZE) =
     (\<exists>xs. rep s xs \<and> length xs < 13 \<and> sorted_wrt (<) xs \<and> (\<forall>x \<in> set xs. unat x < 512))"
  (is "?L = ?R")
proof
  assume L: ?L
  then obtain vs where vs: "fs_data s = Values vs" "length vs = 13"
      "list_all (\<lambda>c. c \<noteq> None) (take (nat (card_of s)) vs)"
    by (auto simp: fs_inv_def split: fs_union.splits)
  let ?xs = "small_vals s"
  have "map Some ?xs = take (nat (card_of s)) vs"
    using vs by (auto simp: small_vals_def list_all_iff intro!: map_idI)
  then have "rep s ?xs"
    using L vs by (auto simp: rep_def small_vals_def fs_inv_def SMALL_SIZE_def
        intro!: exI [of _ "drop (nat (card_of s)) vs"])
  then show ?R
    using L rep_card by (intro exI [of _ ?xs])
      (auto simp: fs_inv_def SMALL_SIZE_def MAX_SIZE_def list_all_iff)
next
  assume ?R
  then obtain xs rest where xs: "card_of s = int (length xs)" "fs_data s = Values (map Some xs @ rest)"
      "length xs + length rest = 13" "length xs < 13" "sorted_wrt (<) xs" "\<forall>x \<in> set xs. unat x < 512"
    by (auto simp: rep_def)
  then have "small_vals s = xs" by (simp add: small_vals_def comp_def)
  with xs show ?L
    by (auto simp: fs_inv_def SMALL_SIZE_def MAX_SIZE_def list_all_iff)
qed

lemma rep_small_vals: "rep s xs \<Longrightarrow> small_vals s = xs"
  by (auto simp: rep_def small_vals_def comp_def)

lemma fs_inv_cases:
  assumes "fs_inv s"
  obtains (small) xs where "rep s xs" "length xs < 13" "sorted_wrt (<) xs"
      "\<forall>x \<in> set xs. unat x < 512" "fs_set s = set xs" "card_of s < SMALL_SIZE"
    | (big) bs where "card_of s = SMALL_SIZE" "fs_data s = Bits bs" "length bs = 8"
      "fs_set s = {x. unat x < 512 \<and> bits_mem bs x}"
proof (cases "card_of s < SMALL_SIZE")
  case True
  with assms fs_small [of s] obtain xs where xs: "rep s xs" "length xs < 13" "sorted_wrt (<) xs"
      "\<forall>x \<in> set xs. unat x < 512" by auto
  then have "fs_set s = set xs" using True by (simp add: fs_set_def rep_small_vals)
  with xs True show ?thesis by (intro small) auto
next
  case False
  with assms obtain bs where "card_of s = SMALL_SIZE" "fs_data s = Bits bs" "length bs = 8"
    by (auto simp: fs_inv_def split: fs_union.splits)
  then show ?thesis by (intro big [of bs]) (auto simp: fs_set_def MAX_SIZE_def SMALL_SIZE_def)
qed

lemma fs_smallI:
  "rep s xs \<Longrightarrow> length xs < 13 \<Longrightarrow> sorted_wrt (<) xs \<Longrightarrow> \<forall>x \<in> set xs. unat x < 512 \<Longrightarrow>
     fs_inv s \<and> fs_set s = set xs \<and> card_of s < SMALL_SIZE"
  using fs_small [of s] by (auto simp: fs_set_def rep_small_vals)

lemma fs_bigI:
  "card_of s = SMALL_SIZE \<Longrightarrow> fs_data s = Bits bs \<Longrightarrow> length bs = 8 \<Longrightarrow>
     fs_inv s \<and> fs_set s = {x. unat x < 512 \<and> bits_mem bs x}"
  by (simp add: fs_inv_def fs_set_def SMALL_SIZE_def MAX_SIZE_def)

lemma fs_new_inv: "fs_inv fastset_new" "fs_set fastset_new = {}"
  by (simp_all add: fastset_new_def fs_inv_def fs_set_def small_vals_def SMALL_SIZE_def)

section \<open>The operations implement a set\<close>

lemma ins_sorted_props:
  assumes "sorted_wrt (<) xs"
  shows "sorted_wrt (<) (ins_sorted x xs)" "set (ins_sorted x xs) = insert x (set xs)"
    "length (ins_sorted x xs) \<le> Suc (length xs)"
proof -
  let ?p = "takeWhile (\<lambda>y. y < x) xs" and ?q = "dropWhile (\<lambda>y. y < x) xs"
  have pq: "xs = ?p @ ?q" by simp
  have srt: "sorted_wrt (<) (?p @ ?q)" using assms by simp
  have p: "\<forall>y \<in> set ?p. y < x" by (auto dest: set_takeWhileD)
  have q: "\<forall>y \<in> set ?q. x < y" if "x \<notin> set xs"
  proof (cases ?q)
    case (Cons z zs)
    then have "\<not> z < x" by (metis hd_dropWhile list.distinct(1) list.sel(1))
    moreover have "z \<in> set xs" using Cons by (metis list.set_intros(1) set_dropWhileD)
    ultimately have "x < z" using that by (metis linorder_neqE)
    moreover have "\<forall>y \<in> set zs. z < y"
      using srt unfolding Cons by (simp add: sorted_wrt_append)
    ultimately show ?thesis using Cons by auto
  next
    case Nil
    show ?thesis unfolding Nil by simp
  qed
  show "sorted_wrt (<) (ins_sorted x xs)"
    using srt p q assms by (auto simp: ins_sorted_def sorted_wrt_append) (meson order.strict_trans)
  have "set xs = set ?p \<union> set ?q" by (metis pq set_append)
  then show "set (ins_sorted x xs) = insert x (set xs)" by (auto simp: ins_sorted_def)
  have "length xs = length ?p + length ?q" by (metis pq length_append)
  then show "length (ins_sorted x xs) \<le> Suc (length xs)" by (simp add: ins_sorted_def)
qed

lemma smalltobit_correct:
  assumes "rep s xs" "\<forall>x \<in> set xs. unat x < 512"
  shows "\<exists>bs. smalltobit s = Some (s\<lparr>fs_data := Bits bs\<rparr>) \<and> length bs = 8 \<and>
    {x. unat x < 512 \<and> bits_mem bs x} = set xs"
  using smalltobit_rep [OF assms] assms(2) by fastforce

lemma fs_insert_correct:
  assumes "fs_inv s" "unat x < 512"
  shows "\<exists>s'. fs_insert s x = Some s' \<and> fs_inv s' \<and> fs_set s' = insert x (fs_set s)"
  using assms(1)
proof (cases rule: fs_inv_cases)
  case (big bs)
  from setbit_Bits [OF big(2,3) assms(2)] obtain bs' where
    b: "setbit s x = Some (s\<lparr>fs_data := Bits bs'\<rparr>)" "length bs' = 8"
       "\<forall>y. unat y < 512 \<longrightarrow> bits_mem bs' y = (y = x \<or> bits_mem bs y)" by blast
  have "fs_insert s x = Some (s\<lparr>fs_data := Bits bs'\<rparr>)"
    using b big(1) by (simp add: fs_insert_def SMALL_SIZE_def)
  moreover have "fs_inv (s\<lparr>fs_data := Bits bs'\<rparr>) \<and>
      fs_set (s\<lparr>fs_data := Bits bs'\<rparr>) = {y. unat y < 512 \<and> bits_mem bs' y}"
    using big b by (intro fs_bigI) auto
  ultimately show ?thesis using b(3) big(4) assms(2) by auto
next
  case (small xs)
  note c = rep_card [OF small(1)]
  show ?thesis
  proof (cases "xs = []")
    case True
    from small(1) True obtain vs where d: "fs_data s = Values vs" "length vs = 13" by (auto simp: rep_def)
    let ?s = "s\<lparr>fs_data := Values (vs[0 := Some x]), card_of := card_of s + 1\<rparr>"
    have "fs_insert s x = Some ?s"
      using c True d by (simp add: fs_insert_def set_value_def)
    moreover have "rep ?s [x]"
      using d True c by (cases vs) (auto simp: rep_def)
    then have "fs_inv ?s \<and> fs_set ?s = set [x] \<and> card_of ?s < SMALL_SIZE"
      using assms(2) by (intro fs_smallI) auto
    ultimately show ?thesis using small(5) True by auto
  next
    case False
    let ?ys = "ins_sorted x xs"
    note ys = ins_sorted_props [OF small(3), of x]
    have lt: "\<forall>y \<in> set ?ys. unat y < 512" using small(4) assms(2) by (auto simp: ys(2))
    obtain s' where s': "insert_small s x = Some s'" "rep s' ?ys"
      using insert_small_rep [OF small(1,3,2)] by blast
    have ins: "fs_insert s x = (if card_of s' = SMALL_SIZE then smalltobit s' else Some s')"
      using s'(1) False c small(6) by (simp add: fs_insert_def)
    show ?thesis
    proof (cases "card_of s' = SMALL_SIZE")
      case True
      obtain bs where "smalltobit s' = Some (s'\<lparr>fs_data := Bits bs\<rparr>)" "length bs = 8"
          "{x. unat x < 512 \<and> bits_mem bs x} = set ?ys"
        using smalltobit_correct [OF s'(2) lt] by blast
      moreover from this True have "fs_inv (s'\<lparr>fs_data := Bits bs\<rparr>) \<and>
          fs_set (s'\<lparr>fs_data := Bits bs\<rparr>) = {x. unat x < 512 \<and> bits_mem bs x}"
        by (intro fs_bigI) auto
      ultimately show ?thesis using ins True ys(2) small(5) by auto
    next
      case False
      then have "length ?ys < 13"
        using ys(3) small(2) rep_card [OF s'(2)] by (simp add: SMALL_SIZE_def)
      then show ?thesis
        using fs_smallI [OF s'(2) _ ys(1) lt] ins False ys(2) small(5) by auto
    qed
  qed
qed

lemma search_small_linear_rep:
  assumes "rep s xs" "sorted_wrt (<) xs" "0 \<le> i" "\<forall>k < nat i. xs ! k < x" "i \<le> int (length xs)"
  shows "search_small_linear s x i = Some (x \<in> set xs)"
  using assms
proof (induction s x i rule: search_small_linear.induct)
  case (1 s x i)
  note rep = "1.prems"(1) and srt = "1.prems"(2) and lo = "1.prems"(3) and left = "1.prems"(4)
  show ?case
  proof (cases "i < card_of s")
    case False
    with rep_card [OF rep] "1.prems"(5) have "nat i = length xs" by simp
    with left have "x \<notin> set xs" by (auto simp: in_set_conv_nth)
    with False show ?thesis by (simp add: search_small_linear.simps [of s x i])
  next
    case True
    with rep_card [OF rep] lo have ilen: "nat i < length xs" by simp
    have gv: "get_value s i = Some (xs ! nat i)"
      using get_value_rep [OF rep lo] True rep_card [OF rep] by simp
    consider (eq) "xs ! nat i = x" | (gt) "x < xs ! nat i" | (lt) "xs ! nat i < x"
      by (meson linorder_cases)
    then show ?thesis
    proof cases
      case eq
      then have "x \<in> set xs" using ilen nth_mem by blast
      with eq gv True show ?thesis by (simp add: search_small_linear.simps [of s x i])
    next
      case gt
      have "\<forall>k. nat i \<le> k \<longrightarrow> k < length xs \<longrightarrow> x < xs ! k"
        using srt gt by (metis le_neq_implies_less order.strict_trans sorted_wrt_nth_less)
      then have "x \<notin> set xs"
        using left by (metis in_set_conv_nth less_irrefl not_le_imp_less)
      with gt gv True show ?thesis by (simp add: search_small_linear.simps [of s x i])
    next
      case lt
      have left': "\<forall>k < nat (i + 1). xs ! k < x"
      proof (intro allI impI)
        fix k assume "k < nat (i + 1)"
        with lo have "k < nat i \<or> k = nat i" by linarith
        with left lt show "xs ! k < x" by auto
      qed
      have "search_small_linear s x (i + 1) = Some (x \<in> set xs)"
        by (rule "1.IH" [OF True gv _ _ rep srt _ left']) (use lt lo ilen in auto)
      with lt gv True show ?thesis by (auto simp: search_small_linear.simps [of s x i])
    qed
  qed
qed

lemma binary_search_rep:
  assumes "rep s xs" "sorted_wrt (<) xs" "0 \<le> b" "e < int (length xs)"
    and "\<forall>k < nat b. xs ! k < x" "\<forall>k. e < int k \<longrightarrow> k < length xs \<longrightarrow> x < xs ! k"
  shows "binary_search s x b e = Some (x \<in> set xs)"
  using assms
proof (induction s x b e rule: binary_search.induct)
  case (1 s x b e)
  note rep = "1.prems"(1) and srt = "1.prems"(2) and b0 = "1.prems"(3) and ehi = "1.prems"(4)
    and left = "1.prems"(5) and right = "1.prems"(6)
  show ?case
  proof (cases "e < b")
    case True
    have "xs ! k \<noteq> x" if "k < length xs" for k
      using True left right that by (cases "k < nat b") force+
    then have "x \<notin> set xs" by (auto simp: in_set_conv_nth)
    with True show ?thesis by (simp add: binary_search.simps [of s x b e])
  next
    case False
    define m where "m = (b + e) div 2"
    have m: "b \<le> m" "m \<le> e" using False by (auto simp: m_def)
    with b0 ehi have mlen: "nat m < length xs" "0 \<le> m" "m < int (length xs)" by auto
    have gv: "get_value s m = Some (xs ! nat m)" using get_value_rep [OF rep] mlen by simp
    have unf: "binary_search s x b e =
        (if x < xs ! nat m then binary_search s x b (m - 1)
         else if x > xs ! nat m then binary_search s x (m + 1) e else Some True)"
      using False gv by (subst binary_search.simps) (simp add: m_def [symmetric] Let_def)
    consider (eq) "xs ! nat m = x" | (gt) "x < xs ! nat m" | (lt) "xs ! nat m < x"
      by (meson linorder_cases)
    then show ?thesis
    proof cases
      case eq
      then have "x \<in> set xs" using mlen nth_mem by blast
      with eq unf show ?thesis by simp
    next
      case gt
      have r: "\<forall>k. m - 1 < int k \<longrightarrow> k < length xs \<longrightarrow> x < xs ! k"
      proof (intro allI impI)
        fix k assume k: "m - 1 < int k" "k < length xs"
        then have "nat m = k \<or> nat m < k" by linarith
        with gt k srt show "x < xs ! k"
          by (metis order.strict_trans sorted_wrt_nth_less)
      qed
      have "binary_search s x b (m - 1) = Some (x \<in> set xs)"
        by (rule "1.IH"(1) [OF False m_def gv gt rep srt b0 _ left r]) (use mlen in auto)
      with gt unf show ?thesis by simp
    next
      case lt
      have l: "\<forall>k < nat (m + 1). xs ! k < x"
      proof (intro allI impI)
        fix k assume "k < nat (m + 1)"
        then have "k = nat m \<or> k < nat m" by linarith
        with lt mlen srt show "xs ! k < x"
          by (metis order.strict_trans sorted_wrt_nth_less)
      qed
      have "binary_search s x (m + 1) e = Some (x \<in> set xs)"
        by (rule "1.IH"(2) [OF False m_def gv _ _ rep srt _ ehi l right]) (use lt mlen in auto)
      with lt unf show ?thesis by auto
    qed
  qed
qed

lemma fs_search_correct:
  assumes "fs_inv s" "unat x < 512"
  shows "fs_search s x = Some (x \<in> fs_set s)"
  using assms(1)
proof (cases rule: fs_inv_cases)
  case (big bs)
  then show ?thesis
    using getbit_Bits [OF big(2,3) assms(2)] assms(2)
    by (simp add: fs_search_def SMALL_SIZE_def)
next
  case (small xs)
  note c = rep_card [OF small(1)]
  have lin: "search_small_linear s x 0 = Some (x \<in> set xs)"
    using search_small_linear_rep [OF small(1,3)] by simp
  have bin: "binary_search s x 0 (card_of s - 1) = Some (x \<in> set xs)"
    by (rule binary_search_rep [OF small(1,3)]) (auto simp: c)
  show ?thesis
  proof (cases "length xs = 1")
    case True
    then obtain y where "xs = [y]" by (cases xs) auto
    with small c get_value_rep [OF small(1), of 0] show ?thesis
      by (auto simp: fs_search_def SMALL_SIZE_def)
  next
    case False
    with small c lin bin show ?thesis by (auto simp: fs_search_def search_small_def SMALL_SIZE_def)
  qed
qed

lemma insert_values_correct:
  assumes "rep q ys" "\<forall>y \<in> set ys. unat y < 512" "fs_inv s" "0 \<le> i" "nat i + n \<le> length ys"
  shows "\<exists>s'. insert_values s q i n = Some s' \<and> fs_inv s' \<and>
    fs_set s' = fs_set s \<union> set (take n (drop (nat i) ys))"
  using assms(3-5)
proof (induction n arbitrary: s i)
  case 0
  then show ?case by simp
next
  case (Suc n)
  then have i: "0 \<le> i" "i < int (length ys)" "nat i < length ys" by auto
  have gv: "get_value q i = Some (ys ! nat i)" using get_value_rep [OF assms(1)] i by simp
  have "unat (ys ! nat i) < 512" using assms(2) i by simp
  from fs_insert_correct [OF Suc.prems(1) this] obtain s1 where
    s1: "fs_insert s (ys ! nat i) = Some s1" "fs_inv s1" "fs_set s1 = insert (ys ! nat i) (fs_set s)"
    by blast
  obtain s2 where s2: "insert_values s1 q (i + 1) n = Some s2" "fs_inv s2"
      "fs_set s2 = fs_set s1 \<union> set (take n (drop (nat (i + 1)) ys))"
    using Suc.IH [OF s1(2), of "i + 1"] Suc.prems by (auto simp: nat_add_distrib)
  have "drop (nat i) ys = ys ! nat i # drop (nat (i + 1)) ys"
    using i by (simp add: nat_add_distrib Cons_nth_drop_Suc)
  with s1 s2 gv show ?case by auto
qed

lemma or_words_correct:
  assumes "length bs = 8" "length cs = 8" "i + n \<le> 8"
  shows "\<exists>ds. or_words bs cs i n = Some ds \<and> length ds = 8 \<and>
    (\<forall>k < 8. ds ! k = (if i \<le> k \<and> k < i + n then bs ! k OR cs ! k else bs ! k))"
  using assms
proof (induction n arbitrary: bs i)
  case 0
  then show ?case by auto
next
  case (Suc n)
  let ?bs = "bs[i := bs ! i OR cs ! i]"
  obtain ds where ds: "or_words ?bs cs (Suc i) n = Some ds" "length ds = 8"
      "\<forall>k < 8. ds ! k = (if Suc i \<le> k \<and> k < Suc i + n then ?bs ! k OR cs ! k else ?bs ! k)"
    using Suc.IH [of ?bs "Suc i"] Suc.prems by auto
  have "ds ! k = (if i \<le> k \<and> k < i + Suc n then bs ! k OR cs ! k else bs ! k)" if "k < 8" for k
    using ds(3) that Suc.prems(1) by (cases "k = i") auto
  with ds(1,2) Suc.prems show ?case by simp
qed

lemma lim_words: "((n OR 63) + 1) div 64 = n div 64 + (1::nat)"
proof -
  have m: "(63::nat) = mask 6" by (simp add: mask_eq_exp_minus_1)
  have "drop_bit 6 (n OR 63) = drop_bit 6 n OR drop_bit 6 (63::nat)" by (simp only: drop_bit_or)
  then have d: "(n OR 63) div 64 = n div 64" by (simp add: drop_bit_eq_div)
  have "take_bit 6 (n OR mask 6) = mask 6"
    by (rule bit_eqI) (auto simp: bit_or_iff bit_take_bit_iff bit_mask_iff)
  then have "take_bit 6 (n OR 63) = 63" by (simp only: m)
  then have "(n OR 63) mod 64 = 63" by (simp add: take_bit_eq_mod)
  with d have "(n OR 63) = 64 * (n div 64) + 63" by (metis mult_div_mod_eq)
  then show ?thesis by simp
qed

lemma join_bits_correct:
  assumes "card_of s = SMALL_SIZE" "fs_data s = Bits bs" "length bs = 8"
    and "fs_data q = Bits cs" "length cs = 8" "n < 512"
  shows "\<exists>s'. join_bits s q n = Some s' \<and> fs_inv s' \<and> fs_set s' =
    {x. unat x < 512 \<and> (bits_mem bs x \<or> unat x < 64 * (n div 64 + 1) \<and> bits_mem cs x)}"
proof -
  let ?lim = "n div 64 + 1"
  have "0 + ?lim \<le> 8" using assms(6) by auto
  from or_words_correct [OF assms(3,5) this] obtain ds where
    ds: "or_words bs cs 0 ?lim = Some ds" "length ds = 8"
        "\<And>k. k < 8 \<Longrightarrow> ds ! k = (if k < ?lim then bs ! k OR cs ! k else bs ! k)" by auto
  let ?s = "s\<lparr>fs_data := Bits ds\<rparr>"
  have "join_bits s q n = Some ?s"
    using assms ds(1) unfolding join_bits_def lim_words by (simp add: Let_def)
  moreover have "fs_inv ?s \<and> fs_set ?s = {x. unat x < 512 \<and> bits_mem ds x}"
    using assms ds by (intro fs_bigI) auto
  moreover have "bits_mem ds x = (bits_mem bs x \<or> unat x < 64 * ?lim \<and> bits_mem cs x)"
    if "unat x < 512" for x
  proof -
    have "unat x div 64 < 8" "(unat x div 64 < ?lim) = (unat x < 64 * ?lim)" using that by auto
    with ds(3) show ?thesis by (auto simp: bits_mem_def bit_or_iff)
  qed
  ultimately show ?thesis by auto
qed

lemma fs_join_correct:
  assumes "fs_inv s" "fs_inv q" "n < 512"
  shows "\<exists>s'. fs_join s q n = Some s' \<and> fs_inv s' \<and> fs_set s' = fs_set s \<union>
    (if card_of q < SMALL_SIZE then fs_set q else {x \<in> fs_set q. unat x < 64 * (n div 64 + 1)})"
  using assms(2)
proof (cases rule: fs_inv_cases)
  case (small ys)
  have "\<exists>s'. insert_values s q 0 (length ys) = Some s' \<and> fs_inv s' \<and> fs_set s' = fs_set s \<union> set ys"
    using insert_values_correct [OF small(1,4) assms(1), of 0 "length ys"] by simp
  then show ?thesis
    using small rep_card [OF small(1)] assms(1) by (auto simp: fs_join_def)
next
  case (big cs)
  note qbig = this
  show ?thesis using assms(1)
  proof (cases rule: fs_inv_cases)
    case (big bs)
    with join_bits_correct [OF big(1,2,3) qbig(2,3) assms(3)] qbig show ?thesis
      by (auto simp: fs_join_def SMALL_SIZE_def)
  next
    case (small xs)
    obtain bs where bs: "smalltobit s = Some (s\<lparr>fs_data := Bits bs\<rparr>)" "length bs = 8"
        "{x. unat x < 512 \<and> bits_mem bs x} = set xs"
      using smalltobit_correct [OF small(1,4)] by blast
    let ?s = "s\<lparr>fs_data := Bits bs, card_of := SMALL_SIZE\<rparr>"
    have "fs_join s q n = join_bits ?s q n"
      using small(6) qbig(1) bs(1) by (simp add: fs_join_def SMALL_SIZE_def)
    with join_bits_correct [of ?s bs q cs n] bs qbig small assms(3) show ?thesis
      by (auto simp: SMALL_SIZE_def)
  qed
qed

lemma expand_word_correct:
  assumes "fs_data s = Bits bs" "length bs = 8" "n \<le> 512"
  shows "expand_word s n l k =
    Some (map of_nat (filter (\<lambda>j. bits_mem bs (of_nat j)) [l..<min n (l + k)]))"
proof (induction k arbitrary: l)
  case (Suc k)
  show ?case
  proof (cases "l < n")
    case True
    with assms(3) have "unat (of_nat l :: u16) < 512"
      by (simp add: unat_of_nat)
    then have "getbit s (of_nat l) = Some (bits_mem bs (of_nat l))"
      by (rule getbit_Bits [OF assms(1,2)])
    moreover have "[l..<min n (l + Suc k)] = l # [Suc l..<min n (Suc l + k)]"
      using True by (simp add: upt_conv_Cons)
    ultimately show ?thesis using True Suc [of "Suc l"] by simp
  qed simp
qed simp

lemma expand_bits_correct:
  assumes "fs_data s = Bits bs" "length bs = 8" "n \<le> 512" "64 dvd i"
  shows "expand_bits s bs n i = Some (map of_nat (filter (\<lambda>j. bits_mem bs (of_nat j)) [i..<n]))"
  using assms
proof (induction s bs n i rule: expand_bits.induct)
  case (1 s bs n i)
  let ?P = "\<lambda>j. bits_mem bs (of_nat j)"
  show ?case
  proof (cases "i < n")
    case True
    have w: "arr_get bs (i div 64) = Some (bs ! (i div 64))" using True "1.prems" by simp
    have empty: "filter ?P [i..<min n (i + 64)] = []" if "bs ! (i div 64) = 0"
    proof (rule filter_False, rule ballI)
      fix j assume j: "j \<in> set [i..<min n (i + 64)]"
      with "1.prems"(3,4) have "unat (of_nat j :: u16) = j" "j div 64 = i div 64"
        by (auto simp: unat_of_nat elim!: dvdE)
      with that show "\<not> ?P j" by (simp add: bits_mem_def)
    qed
    have word: "(if bs ! (i div 64) \<noteq> 0 then expand_word s n i 64 else Some []) =
        Some (map of_nat (filter ?P [i..<min n (i + 64)]))"
      using empty expand_word_correct [OF "1.prems"(1,2,3), of i 64] by auto
    have "expand_bits s bs n (i + 64) = Some (map of_nat (filter ?P [i + 64..<n]))"
      using "1.IH" [OF True w word] "1.prems" by auto
    moreover have "[i..<n] = [i..<min n (i + 64)] @ [i + 64..<n]"
      using upt_add_eq_append [of i "i + 64" "n - (i + 64)"] True
      by (cases "i + 64 \<le> n") (simp_all add: min_def)
    ultimately show ?thesis
      using True w word by (subst expand_bits.simps) (simp del: expand_word.simps)
  qed (simp add: expand_bits.simps)
qed

lemma fs_expand_correct:
  assumes "fs_inv s" "n \<le> 512"
  shows "\<exists>vs. fs_expand s n = Some vs \<and> sorted_wrt (<) vs \<and>
    set vs = (if card_of s < SMALL_SIZE then fs_set s else {x \<in> fs_set s. unat x < n})"
  using assms(1)
proof (cases rule: fs_inv_cases)
  case (small xs)
  have "copy_values s 0 (nat (card_of s)) = Some xs"
    using copy_values_rep [OF small(1), of 0 "length xs"] rep_card [OF small(1)] by simp
  then show ?thesis using small rep_card [OF small(1)] by (auto simp: fs_expand_def)
next
  case (big bs)
  let ?vs = "map of_nat (filter (\<lambda>j. bits_mem bs (of_nat j)) [0..<n]) :: u16 list"
  have u: "unat (of_nat j :: u16) = j" if "j < n" for j
    using that assms(2) by (simp add: unat_of_nat)
  have "fs_expand s n = Some ?vs"
    using big expand_bits_correct [OF big(2,3) assms(2), of 0] by (simp add: fs_expand_def SMALL_SIZE_def)
  moreover have "sorted_wrt (<) ?vs"
    unfolding sorted_wrt_map
  proof (rule sorted_wrt_mono_rel [OF _ sorted_wrt_filter [OF sorted_wrt_upt]])
    fix i j assume "i \<in> set (filter (\<lambda>j. bits_mem bs (of_nat j)) [0..<n])"
      "j \<in> set (filter (\<lambda>j. bits_mem bs (of_nat j)) [0..<n])" "i < j"
    then show "(of_nat i :: u16) < of_nat j" using u by (simp add: word_less_nat_alt)
  qed
  moreover have "set ?vs = {x \<in> fs_set s. unat x < n}"
  proof -
    have "x \<in> set ?vs \<longleftrightarrow> x \<in> fs_set s \<and> unat x < n" for x
    proof
      assume "x \<in> set ?vs"
      then obtain j where "j < n" "bits_mem bs (of_nat j)" "x = of_nat j" by auto
      then show "x \<in> fs_set s \<and> unat x < n" using u [of j] assms(2) big(4) by auto
    next
      assume "x \<in> fs_set s \<and> unat x < n"
      then have "unat x \<in> set (filter (\<lambda>j. bits_mem bs (of_nat j)) [0..<n])"
        using big(4) by simp
      then show "x \<in> set ?vs" unfolding set_map by (rule image_eqI [rotated]) simp
    qed
    then show ?thesis by auto
  qed
  ultimately show ?thesis using big(1) by auto
qed

section \<open>The set contract\<close>

text \<open>
  What the load/store queues and the caches rely on when they keep indices in a fastset:
  the operations never fail on values in range and act as the operations of a set.
\<close>

locale set_interface =
  fixes empty :: 's and ins :: "'s \<Rightarrow> 'a \<Rightarrow> 's option" and mem :: "'s \<Rightarrow> 'a \<Rightarrow> bool option"
    and set_of :: "'s \<Rightarrow> 'a set" and inv :: "'s \<Rightarrow> bool" and ok :: "'a \<Rightarrow> bool"
  assumes empty_inv: "inv empty" and empty_set: "set_of empty = {}"
    and ins_spec: "inv s \<Longrightarrow> ok x \<Longrightarrow> \<exists>s'. ins s x = Some s' \<and> inv s' \<and> set_of s' = insert x (set_of s)"
    and mem_spec: "inv s \<Longrightarrow> ok x \<Longrightarrow> mem s x = Some (x \<in> set_of s)"
begin

lemma ins_all_spec:
  "inv s \<Longrightarrow> list_all ok xs \<Longrightarrow>
     \<exists>s'. fold_opt ins s xs = Some s' \<and> inv s' \<and> set_of s' = set_of s \<union> set xs"
proof (induction xs arbitrary: s)
  case Nil
  then show ?case by simp
next
  case (Cons x xs)
  then obtain s1 where "ins s x = Some s1" "inv s1" "set_of s1 = insert x (set_of s)"
    using ins_spec by fastforce
  moreover obtain s2 where "fold_opt ins s1 xs = Some s2" "inv s2" "set_of s2 = set_of s1 \<union> set xs"
    using Cons.IH [of s1] Cons.prems calculation by auto
  ultimately show ?case by auto
qed

lemma mem_after_ins_all:
  assumes "list_all ok xs" "ok y"
  shows "do { s \<leftarrow> fold_opt ins empty xs; mem s y } = Some (y \<in> set xs)"
proof -
  obtain s where "fold_opt ins empty xs = Some s" "inv s" "set_of s = set xs"
    using ins_all_spec [OF empty_inv assms(1)] empty_set by auto
  with mem_spec assms(2) show ?thesis by simp
qed

end

interpretation fs: set_interface fastset_new fs_insert fs_search fs_set fs_inv "\<lambda>x. unat x < 512"
  by unfold_locales (auto simp: fs_new_inv fs_insert_correct fs_search_correct)

section \<open>Properties\<close>

text \<open>
  C21. A fastset behaves as a set across its change of representation: after any sequence of
  insertions of values below \<open>MAX_SIZE\<close> into a fresh set, a search answers exactly whether
  the value was inserted, and no operation fails.
\<close>

theorem fastset_insert_search:
  assumes "list_all (\<lambda>x. unat x < 512) xs" and "unat y < 512"
  shows "do { s \<leftarrow> fold_opt fs_insert fastset_new xs; fs_search s y } = Some (y \<in> set xs)"
  using assms by (rule fs.mem_after_ins_all)

lemma fastset_insert_search_witness:
  "do { s \<leftarrow> fold_opt fs_insert fastset_new [9, 3, 500, 7, 1, 12, 11, 64, 65, 40, 41, 42, 43, 300];
        fs_search s 64 } = Some True"
  using fastset_insert_search [of "[9, 3, 500, 7, 1, 12, 11, 64, 65, 40, 41, 42, 43, 300]" 64] by simp

text \<open>
  \<open>join\<close> computes the union whenever the members of the other set are below the size
  \<open>n\<close> the caller passes (the callers pass \<open>LQ_SIZE\<close>, \<open>SQ_SIZE\<close> and \<open>ROB_SIZE\<close>), whatever
  the representations of the two sets.
\<close>

theorem fastset_join_union:
  assumes "fs_inv s" and "fs_inv q" and "n < 512" and "\<forall>x \<in> fs_set q. unat x < n"
  shows "\<exists>s'. fs_join s q n = Some s' \<and> fs_inv s' \<and> fs_set s' = fs_set s \<union> fs_set q"
proof -
  have "{x \<in> fs_set q. unat x < 64 * (n div 64 + 1)} = fs_set q" using assms(4) by fastforce
  with fs_join_correct [OF assms(1-3)] show ?thesis by auto
qed

lemma fastset_join_union_witness:
  "\<exists>s'. fs_join fastset_new \<lparr>fs_data = Bits [2, 0, 0, 0, 0, 0, 0, 0], card_of = 13\<rparr> 72 = Some s' \<and>
     fs_inv s' \<and> fs_set s' = {} \<union> fs_set \<lparr>fs_data = Bits [2, 0, 0, 0, 0, 0, 0, 0], card_of = 13\<rparr>"
proof -
  let ?q = "\<lparr>fs_data = Bits [2, 0, 0, 0, 0, 0, 0, 0], card_of = 13\<rparr>"
  have inv: "fs_inv ?q" by (simp add: fs_inv_def SMALL_SIZE_def)
  have "\<forall>x \<in> fs_set ?q. unat x < 72"
  proof
    fix x assume "x \<in> fs_set ?q"
    then have b: "unat x < 512" "bit ([2, 0, 0, 0, 0, 0, 0, 0 :: u64] ! (unat x div 64)) (unat x mod 64)"
      by (simp_all add: fs_set_def SMALL_SIZE_def MAX_SIZE_def bits_mem_def)
    have zero: "[2, 0, 0, 0, 0, 0, 0, 0 :: u64] ! k = 0" if "0 < k" "k < 8" for k
      using that by (cases k) (auto simp: less_Suc_eq numeral_eq_Suc)
    show "unat x < 72"
    proof (rule ccontr)
      assume "\<not> unat x < 72"
      then have "0 < unat x div 64" "unat x div 64 < 8" using b(1) by auto
      from zero [OF this] b(2) show False by simp
    qed
  qed
  from fastset_join_union [OF fs_new_inv(1) inv _ this] show ?thesis by (simp add: fs_new_inv)
qed

text \<open>
  \<open>expand\<close> lists the members of a set in increasing order without repetition, for
  either representation (for the bit representation, those below \<open>n\<close>).
\<close>

theorem fastset_expand_enumerates:
  assumes "fs_inv s" and "n \<le> 512" and "\<forall>x \<in> fs_set s. unat x < n"
  shows "\<exists>vs. fs_expand s n = Some vs \<and> sorted_wrt (<) vs \<and> set vs = fs_set s"
proof -
  have "{x \<in> fs_set s. unat x < n} = fs_set s" using assms(3) by auto
  with fs_expand_correct [OF assms(1,2)] show ?thesis by auto
qed

lemma fastset_expand_enumerates_witness:
  "\<exists>vs. fs_expand \<lparr>fs_data = Values ([Some 3, Some 8] @ replicate 11 None), card_of = 2\<rparr> 72 = Some vs \<and>
     sorted_wrt (<) vs \<and> set vs = {3, 8}"
proof -
  let ?s = "\<lparr>fs_data = Values ([Some 3, Some 8] @ replicate 11 None), card_of = 2\<rparr>"
  have "fs_set ?s = {3, 8}" "fs_inv ?s"
    by (simp_all add: fs_set_def fs_inv_def small_vals_def SMALL_SIZE_def MAX_SIZE_def)
  with fastset_expand_enumerates [of ?s 72] show ?thesis by simp
qed

end
