(* ===== verification/Packet_Queue.thy ===== *)
theory Packet_Queue
  imports Fast_Set
begin

text \<open>
  The data of \<open>inc/block.h\<close> and the queue operations of \<open>src/block.cc\<close>: the cache block
  \<open>BLOCK\<close>, the message \<open>PACKET\<close> and the ring buffer \<open>PACKET_QUEUE\<close> that every cache and
  memory controller uses.

  A member that a C++ constructor leaves uninitialised is an option here and starts as
  \<open>None\<close>; reading it where the value matters fails.  A \<open>PACKET *\<close> that points into a
  queue is the index of the entry.

  \<open>ring_inv\<close> is the invariant of a queue used as a ring, \<open>q_list\<close> its contents in arrival
  order.  The locale \<open>fifo\<close> states what the caches rely on; it is interpreted on the
  operations of the code.
\<close>

section \<open>Blocks and packets\<close>

text \<open>The sizes of the buffers of a core, from \<open>inc/instruction.h\<close>.\<close>

definition ROB_SIZE :: nat where [champsim_consts]: "ROB_SIZE = 256"
definition LQ_SIZE :: nat where [champsim_consts]: "LQ_SIZE = 72"
definition SQ_SIZE :: nat where [champsim_consts]: "SQ_SIZE = 56"

record block =
  b_valid :: u8
  b_prefetch :: u8
  b_dirty :: u8
  b_used :: u8
  b_delta :: int
  b_depth :: int
  b_signature :: int
  b_confidence :: int
  b_address :: u64
  b_full_addr :: u64
  b_tag :: u64
  b_data :: u64
  b_cpu :: u64
  b_instr_id :: u64
  b_lru :: u32

definition block_new :: block where
  "block_new = \<lparr>b_valid = 0, b_prefetch = 0, b_dirty = 0, b_used = 0,
     b_delta = 0, b_depth = 0, b_signature = 0, b_confidence = 0,
     b_address = 0, b_full_addr = 0, b_tag = 0, b_data = 0, b_cpu = 0, b_instr_id = 0, b_lru = 0\<rparr>"

record packet =
  p_instruction :: u8
  p_tlb_access :: u8
  p_scheduled :: u8
  p_translated :: u8
  p_fetched :: u8
  p_prefetched :: u8
  p_drc_tag_read :: u8
  p_fill_level :: int
  p_pf_origin_level :: "int option"
  p_rob_signal :: int
  p_rob_index :: int
  p_producer :: int
  p_delta :: int
  p_depth :: int
  p_signature :: int
  p_confidence :: int
  p_pf_metadata :: "u32 option"
  p_is_producer :: u8
  p_instr_merged :: u8
  p_load_merged :: u8
  p_store_merged :: u8
  p_returned :: u8
  p_asid :: "u8 \<times> u8"
  p_type :: u8
  p_rob_deps :: fastset
  p_lq_deps :: fastset
  p_sq_deps :: fastset
  p_cpu :: u32
  p_data_index :: u32
  p_lq_index :: u32
  p_sq_index :: u32
  p_address :: u64
  p_full_addr :: u64
  p_instruction_pa :: u64
  p_data_pa :: "u64 option"
  p_data :: u64
  p_instr_id :: u64
  p_ip :: u64
  p_event_cycle :: u64
  p_cycle_enqueued :: u64

definition packet_new :: packet where
  "packet_new = \<lparr>p_instruction = 0, p_tlb_access = 0, p_scheduled = 0, p_translated = 0,
     p_fetched = 0, p_prefetched = 0, p_drc_tag_read = 0,
     p_fill_level = - 1, p_pf_origin_level = None, p_rob_signal = - 1, p_rob_index = - 1,
     p_producer = - 1, p_delta = 0, p_depth = 0, p_signature = 0, p_confidence = 0,
     p_pf_metadata = None, p_is_producer = 0, p_instr_merged = 0, p_load_merged = 0,
     p_store_merged = 0, p_returned = 0, p_asid = (255, 255), p_type = 0,
     p_rob_deps = fastset_new, p_lq_deps = fastset_new, p_sq_deps = fastset_new,
     p_cpu = of_nat NUM_CPUS, p_data_index = 0, p_lq_index = 0, p_sq_index = 0,
     p_address = 0, p_full_addr = 0, p_instruction_pa = 0, p_data_pa = None, p_data = 0,
     p_instr_id = 0, p_ip = 0, p_event_cycle = - 1, p_cycle_enqueued = 0\<rparr>"

section \<open>The queue\<close>

record packet_queue =
  q_name :: string
  q_size :: u32
  q_is_RQ :: u8
  q_is_WQ :: u8
  q_write_mode :: u8
  q_cpu :: u32
  q_head :: u32
  q_tail :: u32
  q_occupancy :: u32
  q_num_returned :: u32
  q_next_fill_index :: u32
  q_next_schedule_index :: u32
  q_next_process_index :: u32
  q_next_fill_cycle :: u64
  q_next_schedule_cycle :: u64
  q_next_process_cycle :: u64
  q_ACCESS :: u64
  q_FORWARD :: u64
  q_MERGED :: u64
  q_TO_CACHE :: u64
  q_ROW_BUFFER_HIT :: u64
  q_ROW_BUFFER_MISS :: u64
  q_FULL :: u64
  q_entry :: "packet list"

definition packet_queue_new :: "string \<Rightarrow> u32 \<Rightarrow> packet_queue" where
  "packet_queue_new v1 v2 = \<lparr>q_name = v1, q_size = v2, q_is_RQ = 0, q_is_WQ = 0, q_write_mode = 0,
     q_cpu = 0, q_head = 0, q_tail = 0, q_occupancy = 0, q_num_returned = 0,
     q_next_fill_index = 0, q_next_schedule_index = 0, q_next_process_index = 0,
     q_next_fill_cycle = - 1, q_next_schedule_cycle = - 1, q_next_process_cycle = - 1,
     q_ACCESS = 0, q_FORWARD = 0, q_MERGED = 0, q_TO_CACHE = 0,
     q_ROW_BUFFER_HIT = 0, q_ROW_BUFFER_MISS = 0, q_FULL = 0,
     q_entry = replicate (unat v2) packet_new\<rparr>"

text \<open>Two packets collide when their block addresses agree; in the L1D write queue, when their full addresses do.\<close>

definition same_packet :: "packet_queue \<Rightarrow> packet \<Rightarrow> packet \<Rightarrow> bool" where
  "same_packet q packet e \<longleftrightarrow>
     (if q_name q = ''L1D_WQ'' then p_full_addr e = p_full_addr packet
      else p_address e = p_address packet)"

definition check_queue :: "packet_queue \<Rightarrow> packet \<Rightarrow> int option" where
  "check_queue q packet =
     (if q_head q = q_tail q \<and> q_occupancy q = 0 then Some (- 1)
      else if q_head q < q_tail q
      then do {
        r \<leftarrow> search_arr (same_packet q packet) (q_entry q) (unat (q_head q)) (unat (q_tail q));
        Some (case r of None \<Rightarrow> - 1 | Some i \<Rightarrow> int i) }
      else do {
        r \<leftarrow> search_arr (same_packet q packet) (q_entry q) (unat (q_head q)) (unat (q_size q));
        case r of
          Some i \<Rightarrow> Some (int i)
        | None \<Rightarrow> do {
            r' \<leftarrow> search_arr (same_packet q packet) (q_entry q) 0 (unat (q_tail q));
            Some (case r' of None \<Rightarrow> - 1 | Some i \<Rightarrow> int i) } })"

definition add_queue :: "packet_queue \<Rightarrow> packet \<Rightarrow> packet_queue option" where
  "add_queue q packet = do {
     assert_that (\<not> (q_occupancy q \<noteq> 0 \<and> q_head q = q_tail q));
     es \<leftarrow> arr_set (q_entry q) (unat (q_tail q)) packet;
     Some (q\<lparr>q_entry := es, q_occupancy := q_occupancy q + 1,
       q_tail := (if q_tail q + 1 \<ge> q_size q then 0 else q_tail q + 1)\<rparr>) }"

text \<open>\<open>remove_queue(&entry[i])\<close>: the entry is reset wherever it is; the head advances by one.\<close>

definition remove_queue :: "packet_queue \<Rightarrow> nat \<Rightarrow> packet_queue option" where
  "remove_queue q i = do {
     assert_that (\<not> (q_occupancy q = 0 \<and> q_head q = q_tail q));
     es \<leftarrow> arr_set (q_entry q) i packet_new;
     Some (q\<lparr>q_entry := es, q_occupancy := q_occupancy q - 1,
       q_head := (if q_head q + 1 \<ge> q_size q then 0 else q_head q + 1)\<rparr>) }"

text \<open>
  The code that \<open>CACHE::add_rq\<close>, \<open>add_wq\<close> and \<open>add_pq\<close> repeat for their own queues: write
  the entry at the tail and advance the tail.
\<close>

definition push_tail :: "packet_queue \<Rightarrow> packet \<Rightarrow> packet_queue option" where
  "push_tail q packet = do {
     es \<leftarrow> arr_set (q_entry q) (unat (q_tail q)) packet;
     Some (q\<lparr>q_entry := es, q_occupancy := q_occupancy q + 1,
       q_tail := (if q_tail q + 1 \<ge> q_size q then 0 else q_tail q + 1)\<rparr>) }"

lemma add_queue_push:
  "add_queue q p = do { assert_that (\<not> (q_occupancy q \<noteq> 0 \<and> q_head q = q_tail q)); push_tail q p }"
  by (simp add: add_queue_def push_tail_def)

section \<open>The ring invariant\<close>

definition ring_idx :: "packet_queue \<Rightarrow> nat \<Rightarrow> nat" where
  "ring_idx q k = (unat (q_head q) + k) mod unat (q_size q)"

definition ring_inv :: "packet_queue \<Rightarrow> bool" where
  "ring_inv q \<longleftrightarrow> length (q_entry q) = unat (q_size q) \<and> q_occupancy q \<le> q_size q \<and>
     (if q_size q = 0 then q_head q = 0 \<and> q_tail q = 0
      else q_head q < q_size q \<and> unat (q_tail q) = ring_idx q (unat (q_occupancy q))) \<and>
     list_all (\<lambda>k. p_address (q_entry q ! ring_idx q k) = 0)
       [unat (q_occupancy q)..<unat (q_size q)]"

definition q_list :: "packet_queue \<Rightarrow> packet list" where
  "q_list q = map (\<lambda>k. q_entry q ! ring_idx q k) [0..<unat (q_occupancy q)]"

lemma unat_inc: "(x::'a::len word) < y \<Longrightarrow> unat (x + 1) = unat x + 1"
proof -
  assume "x < y"
  moreover have "unat y < 2 ^ LENGTH('a)" by (rule unsigned_less)
  ultimately have "unat x + 1 < 2 ^ LENGTH('a)" unfolding word_less_nat_alt by linarith
  then show ?thesis by (simp add: unat_word_ariths)
qed

lemma unat_dec: "(x::'a::len word) \<noteq> 0 \<Longrightarrow> unat (x - 1) = unat x - 1"
  by (rule unat_minus_one)

lemma q_list_length [simp]: "length (q_list q) = unat (q_occupancy q)"
  by (simp add: q_list_def)

lemma ring_facts:
  assumes "ring_inv q" "q_size q \<noteq> 0"
  shows "length (q_entry q) = unat (q_size q)" "0 < unat (q_size q)"
    "unat (q_occupancy q) \<le> unat (q_size q)" "unat (q_head q) < unat (q_size q)"
    "unat (q_tail q) < unat (q_size q)" "unat (q_tail q) = ring_idx q (unat (q_occupancy q))"
proof -
  show "0 < unat (q_size q)" using assms(2) by (simp add: unat_gt_0)
  then show "unat (q_tail q) < unat (q_size q)" using assms by (simp add: ring_inv_def ring_idx_def)
qed (use assms in \<open>simp_all add: ring_inv_def word_le_nat_alt word_less_nat_alt\<close>)

lemma ring_idx_less: "0 < unat (q_size q) \<Longrightarrow> ring_idx q k < unat (q_size q)"
  by (simp add: ring_idx_def)

lemma mod_offset_inj:
  assumes "(h + i) mod n = (h + j) mod n" "i < n" "j < (n::nat)"
  shows "i = j"
proof -
  have "\<not> a < b" if "(h + a) mod n = (h + b) mod n" "b < n" for a b
  proof
    assume "a < b"
    then have "n dvd (h + b) - (h + a)" using that mod_eq_dvd_iff_nat [of "h + a" "h + b" n] by simp
    then have "n \<le> b - a" using \<open>a < b\<close> by (intro dvd_imp_le) auto
    with that(2) \<open>a < b\<close> show False by simp
  qed
  from this [of i j] this [of j i] assms show ?thesis by simp
qed

lemma ring_idx_inj:
  "ring_idx q i = ring_idx q j \<Longrightarrow> i < unat (q_size q) \<Longrightarrow> j < unat (q_size q) \<Longrightarrow> i = j"
  unfolding ring_idx_def by (rule mod_offset_inj)

lemma ring_cases:
  assumes "ring_inv q" "q_size q \<noteq> 0"
  shows "q_head q < q_tail q \<Longrightarrow> unat (q_tail q) = unat (q_head q) + unat (q_occupancy q)"
    and "\<not> q_head q < q_tail q \<Longrightarrow> q_occupancy q \<noteq> 0 \<Longrightarrow>
      unat (q_occupancy q) = (unat (q_size q) - unat (q_head q)) + unat (q_tail q)"
proof -
  let ?h = "unat (q_head q)" and ?o = "unat (q_occupancy q)" and ?n = "unat (q_size q)"
  note f = ring_facts [OF assms]
  have t: "unat (q_tail q) = (if ?h + ?o < ?n then ?h + ?o else ?h + ?o - ?n)"
    using f by (auto simp: ring_idx_def mod_if [of "?h + ?o"] le_mod_geq)
  show "q_head q < q_tail q \<Longrightarrow> unat (q_tail q) = ?h + ?o"
    using t f by (auto simp: word_less_nat_alt split: if_splits)
  show "\<not> q_head q < q_tail q \<Longrightarrow> q_occupancy q \<noteq> 0 \<Longrightarrow> ?o = (?n - ?h) + unat (q_tail q)"
    using t f by (auto simp: word_less_nat_alt unat_eq_0 split: if_splits)
qed

section \<open>Searching the ring\<close>

lemma check_queue_ring:
  assumes inv: "ring_inv q"
  shows "check_queue q p = Some (case first_index (\<lambda>k. same_packet q p (q_list q ! k)) 0 (unat (q_occupancy q)) of
      None \<Rightarrow> - 1 | Some k \<Rightarrow> int (ring_idx q k))"
proof (cases "q_occupancy q = 0")
  case True
  then have "q_head q = q_tail q"
    using inv by (auto simp: ring_inv_def ring_idx_def word_less_nat_alt word_unat_eq_iff split: if_splits)
  with True show ?thesis by (simp add: check_queue_def)
next
  case False
  then have n: "q_size q \<noteq> 0" using inv by (auto simp: ring_inv_def)
  note f = ring_facts [OF inv n]
  let ?h = "unat (q_head q)" and ?o = "unat (q_occupancy q)" and ?n = "unat (q_size q)"
  let ?P = "\<lambda>i. same_packet q p (q_entry q ! i)" and ?Q = "\<lambda>k. same_packet q p (q_list q ! k)"
  have QP: "?Q k = ?P (ring_idx q k)" if "k < ?o" for k
    using that by (simp add: q_list_def)
  show ?thesis
  proof (cases "q_head q < q_tail q")
    case True
    note t = ring_cases(1) [OF inv n True]
    have idx: "ring_idx q k = k + ?h" if "k < ?o" for k
      using that f t by (simp add: ring_idx_def)
    have "first_index ?P ?h (unat (q_tail q)) = map_option (\<lambda>i. i + ?h) (first_index (\<lambda>i. ?P (i + ?h)) 0 ?o)"
      using first_index_shift [of ?P 0 ?h ?o] t by (simp add: add.commute)
    also have "first_index (\<lambda>i. ?P (i + ?h)) 0 ?o = first_index ?Q 0 ?o"
      using QP idx by (intro first_index_cong) simp
    finally show ?thesis
      using True False f idx by (auto simp: check_queue_def search_arr_eq split: option.splits dest!: first_index_Some)
  next
    case nlt: False
    note o = ring_cases(2) [OF inv n nlt False]
    let ?m = "?n - ?h"
    have m: "?m \<le> ?o" using o by simp
    have idx1: "ring_idx q k = k + ?h" if "k < ?m" for k
      using that f by (simp add: ring_idx_def)
    have idx2: "ring_idx q (k + ?m) = k" if "k < unat (q_tail q)" for k
    proof -
      have "?h + (k + ?m) = k + ?n" "k < ?n" using f that by linarith+
      then show ?thesis by (simp add: ring_idx_def)
    qed
    have "first_index ?P ?h ?n = map_option (\<lambda>i. i + ?h) (first_index (\<lambda>i. ?P (i + ?h)) 0 ?m)"
      using first_index_shift [of ?P 0 ?h ?m] f by simp
    also have "first_index (\<lambda>i. ?P (i + ?h)) 0 ?m = first_index ?Q 0 ?m"
      using QP idx1 m by (intro first_index_cong) simp
    finally have one: "first_index ?P ?h ?n = map_option (\<lambda>i. i + ?h) (first_index ?Q 0 ?m)" .
    have "first_index ?Q ?m ?o = map_option (\<lambda>i. i + ?m) (first_index (\<lambda>i. ?Q (i + ?m)) 0 (unat (q_tail q)))"
      using first_index_shift [of ?Q 0 ?m "unat (q_tail q)"] o by (simp add: add.commute)
    also have "first_index (\<lambda>i. ?Q (i + ?m)) 0 (unat (q_tail q)) = first_index ?P 0 (unat (q_tail q))"
      using QP idx2 o by (intro first_index_cong) simp
    finally have two: "first_index ?Q ?m ?o = map_option (\<lambda>i. i + ?m) (first_index ?P 0 (unat (q_tail q)))" .
    have split: "first_index ?Q 0 ?o =
        (case first_index ?Q 0 ?m of None \<Rightarrow> first_index ?Q ?m ?o | Some i \<Rightarrow> Some i)"
      using m by (intro first_index_append) auto
    show ?thesis
    proof (cases "first_index ?Q 0 ?m")
      case None
      with one two split nlt False f idx2 show ?thesis
        by (auto simp: check_queue_def search_arr_eq split: option.splits dest!: first_index_Some)
    next
      case (Some k)
      then have "k < ?m" by (auto dest: first_index_Some)
      with Some one split nlt False f idx1 show ?thesis
        by (simp add: check_queue_def search_arr_eq)
    qed
  qed
qed

lemma check_queue_miss:
  "ring_inv q \<Longrightarrow> (check_queue q p = Some (- 1)) = (\<forall>e \<in> set (q_list q). \<not> same_packet q p e)"
  by (auto simp: check_queue_ring first_index_None in_set_conv_nth split: option.splits dest!: first_index_Some)
    (metis nth_mem q_list_length)

lemma check_queue_hit:
  assumes "ring_inv q" "check_queue q p = Some i" "i \<noteq> - 1"
  shows "\<exists>k < unat (q_occupancy q). i = int (ring_idx q k) \<and> same_packet q p (q_list q ! k) \<and>
    q_entry q ! nat i = q_list q ! k \<and> (\<forall>j < k. \<not> same_packet q p (q_list q ! j))"
  using assms by (auto simp: check_queue_ring q_list_def split: option.splits dest!: first_index_Some)

lemma check_queue_total: "ring_inv q \<Longrightarrow> \<exists>i. check_queue q p = Some i"
  by (simp add: check_queue_ring)

section \<open>Adding and removing\<close>

lemma push_tail_ring:
  assumes inv: "ring_inv q" and room: "q_occupancy q < q_size q"
  shows "\<exists>q'. push_tail q p = Some q' \<and> ring_inv q' \<and> q_list q' = q_list q @ [p] \<and>
    q_occupancy q' = q_occupancy q + 1 \<and> q_size q' = q_size q \<and> q_name q' = q_name q \<and>
    q_head q' = q_head q"
proof -
  have n: "q_size q \<noteq> 0" using room by auto
  note f = ring_facts [OF inv n]
  let ?h = "unat (q_head q)" and ?o = "unat (q_occupancy q)" and ?n = "unat (q_size q)"
  define q' where "q' = q\<lparr>q_entry := (q_entry q)[unat (q_tail q) := p],
    q_occupancy := q_occupancy q + 1,
    q_tail := (if q_tail q + 1 \<ge> q_size q then 0 else q_tail q + 1)\<rparr>"
  have push: "push_tail q p = Some q'" using f by (simp add: push_tail_def q'_def)
  have o': "unat (q_occupancy q') = ?o + 1" using room by (simp add: q'_def unat_inc)
  have on: "?o < ?n" using room by (simp add: word_less_nat_alt)
  have idx': "ring_idx q' k = ring_idx q k" for k by (simp add: ring_idx_def q'_def)
  have t1: "unat (q_tail q + 1) = unat (q_tail q) + 1"
    using unat_inc [of "q_tail q" "q_size q"] f by (simp add: word_less_nat_alt)
  have tail': "unat (q_tail q') = ring_idx q (?o + 1)"
  proof -
    have "ring_idx q (?o + 1) = (if unat (q_tail q) + 1 = ?n then 0 else unat (q_tail q) + 1)"
      using f by (simp add: ring_idx_def mod_Suc)
    moreover have "unat (q_tail q') = (if ?n \<le> unat (q_tail q) + 1 then 0 else unat (q_tail q) + 1)"
      using t1 by (simp add: q'_def word_le_nat_alt)
    ultimately show ?thesis using f(5) by auto
  qed
  have other: "q_entry q' ! ring_idx q k = q_entry q ! ring_idx q k" if "k < ?n" "k \<noteq> ?o" for k
    using ring_idx_inj [of q k ?o] that on f by (auto simp: q'_def nth_list_update)
  have self: "q_entry q' ! ring_idx q ?o = p" using f by (simp add: q'_def)
  have frame: "q_size q' = q_size q" "q_head q' = q_head q" "length (q_entry q') = ?n"
    using f by (simp_all add: q'_def)
  have "p_address (q_entry q' ! ring_idx q k) = 0" if "?o + 1 \<le> k" "k < ?n" for k
    using other [of k] that inv by (simp add: ring_inv_def list_all_iff)
  then have "ring_inv q'"
    unfolding ring_inv_def idx' o' frame using tail' n on f o'
    by (simp add: word_le_nat_alt word_less_nat_alt list_all_iff)
  moreover have "q_list q' = q_list q @ [p]"
    using other self on o' by (auto simp: q_list_def idx')
  ultimately show ?thesis using push by (auto simp: q'_def)
qed

lemma add_queue_ring:
  assumes "ring_inv q" "q_occupancy q < q_size q"
  shows "\<exists>q'. add_queue q p = Some q' \<and> ring_inv q' \<and> q_list q' = q_list q @ [p] \<and>
    q_occupancy q' = q_occupancy q + 1 \<and> q_size q' = q_size q \<and> q_name q' = q_name q"
proof -
  have n: "q_size q \<noteq> 0" using assms(2) by auto
  have "\<not> (q_occupancy q \<noteq> 0 \<and> q_head q = q_tail q)"
    using ring_cases(2) [OF assms(1) n] ring_facts [OF assms(1) n] assms(2)
    by (auto simp: word_less_nat_alt)
  with push_tail_ring [OF assms] show ?thesis by (auto simp: add_queue_push)
qed

lemma remove_queue_ring:
  assumes inv: "ring_inv q" and some: "q_occupancy q \<noteq> 0"
  shows "\<exists>q'. remove_queue q (unat (q_head q)) = Some q' \<and> ring_inv q' \<and> q_list q' = tl (q_list q) \<and>
    q_occupancy q' = q_occupancy q - 1 \<and> q_size q' = q_size q \<and> q_name q' = q_name q"
proof -
  have n: "q_size q \<noteq> 0" using inv some by (auto simp: ring_inv_def)
  note f = ring_facts [OF inv n]
  let ?h = "unat (q_head q)" and ?o = "unat (q_occupancy q)" and ?n = "unat (q_size q)"
  define q' where "q' = q\<lparr>q_entry := (q_entry q)[?h := packet_new],
    q_occupancy := q_occupancy q - 1,
    q_head := (if q_head q + 1 \<ge> q_size q then 0 else q_head q + 1)\<rparr>"
  have rem: "remove_queue q ?h = Some q'" using f some by (simp add: remove_queue_def q'_def)
  have o0: "0 < ?o" using some by (simp add: unat_gt_0)
  have o': "unat (q_occupancy q') = ?o - 1" using some by (simp add: q'_def unat_dec)
  have h1: "unat (q_head q + 1) = ?h + 1"
    using unat_inc [of "q_head q" "q_size q"] f by (simp add: word_less_nat_alt)
  have head': "unat (q_head q') = (?h + 1) mod ?n"
    using h1 f by (auto simp: q'_def word_le_nat_alt mod_Suc)
  have idx': "ring_idx q' k = ring_idx q (k + 1)" for k
    unfolding ring_idx_def head' by (simp add: q'_def mod_add_left_eq)
  have h0: "?h = ring_idx q 0" using f by (simp add: ring_idx_def)
  have other: "q_entry q' ! ring_idx q k = q_entry q ! ring_idx q k" if "k < ?n" "k \<noteq> 0" for k
    using ring_idx_inj [of q k 0] that f h0 by (auto simp: q'_def nth_list_update)
  have self: "p_address (q_entry q' ! ring_idx q ?n) = 0"
    using f by (simp add: q'_def ring_idx_def packet_new_def)
  have zero: "p_address (q_entry q' ! ring_idx q (k + 1)) = 0" if "?o - 1 \<le> k" "k < ?n" for k
  proof (cases "k + 1 = ?n")
    case True
    with self show ?thesis by simp
  next
    case False
    with that o0 have "?o \<le> k + 1" "k + 1 < ?n" by auto
    with inv other [of "k + 1"] show ?thesis by (simp add: ring_inv_def list_all_iff)
  qed
  have "q_head q' < q_size q'" using head' f by (simp add: word_less_nat_alt q'_def)
  moreover have "unat (q_tail q') = ring_idx q' (unat (q_occupancy q'))"
    using f o' o0 idx' by (simp add: q'_def)
  moreover have "q_occupancy q' \<le> q_size q'" using o' f by (simp add: word_le_nat_alt q'_def)
  ultimately have "ring_inv q'"
    using zero n f by (simp add: ring_inv_def idx' o' list_all_iff) (simp add: q'_def)
  moreover have "q_list q' = tl (q_list q)"
  proof -
    have "[0..<?o] = 0 # map Suc [0..<?o - 1]" using o0 by (metis Suc_pred upt_conv_Cons map_Suc_upt One_nat_def)
    then show ?thesis using other o' f by (auto simp: q_list_def idx' comp_def)
  qed
  ultimately show ?thesis using rem by (auto simp: q'_def)
qed

lemma packet_queue_new_ring: "ring_inv (packet_queue_new nm n)" "q_list (packet_queue_new nm n) = []"
proof -
  let ?q = "packet_queue_new nm n"
  have "p_address (q_entry ?q ! ring_idx ?q k) = 0" if "k < unat n" for k
    using ring_idx_less [of ?q k] that by (simp add: packet_queue_new_def packet_new_def)
  then show "ring_inv ?q"
    unfolding ring_inv_def list_all_iff
    by (simp add: ring_idx_def) (simp add: packet_queue_new_def word_gt_0)
qed (simp add: q_list_def packet_queue_new_def)

section \<open>The queue contract\<close>

text \<open>
  A bounded first-in first-out queue: what the caches rely on when they enqueue requests at
  the tail and serve them from the head.
\<close>

locale fifo =
  fixes enq :: "'q \<Rightarrow> 'a \<Rightarrow> 'q option" and deq :: "'q \<Rightarrow> 'q option"
    and contents :: "'q \<Rightarrow> 'a list" and bound :: "'q \<Rightarrow> nat" and inv :: "'q \<Rightarrow> bool"
  assumes enq_room: "inv q \<Longrightarrow> length (contents q) < bound q \<Longrightarrow>
      \<exists>q'. enq q x = Some q' \<and> inv q' \<and> contents q' = contents q @ [x] \<and> bound q' = bound q"
    and deq_some: "inv q \<Longrightarrow> contents q \<noteq> [] \<Longrightarrow>
      \<exists>q'. deq q = Some q' \<and> inv q' \<and> contents q' = tl (contents q) \<and> bound q' = bound q"
begin

lemma enq_all:
  "inv q \<Longrightarrow> length (contents q) + length xs \<le> bound q \<Longrightarrow>
     \<exists>q'. fold_opt enq q xs = Some q' \<and> inv q' \<and> contents q' = contents q @ xs \<and> bound q' = bound q"
proof (induction xs arbitrary: q)
  case Nil
  then show ?case by simp
next
  case (Cons x xs)
  then obtain q1 where q1: "enq q x = Some q1" "inv q1" "contents q1 = contents q @ [x]" "bound q1 = bound q"
    using enq_room [of q x] by auto
  with Cons.IH [of q1] Cons.prems show ?case by auto
qed

lemma deq_n:
  "inv q \<Longrightarrow> n \<le> length (contents q) \<Longrightarrow>
     \<exists>q'. fold_opt (\<lambda>q _. deq q) q (replicate n ()) = Some q' \<and> inv q' \<and>
       contents q' = drop n (contents q) \<and> bound q' = bound q"
proof (induction n arbitrary: q)
  case 0
  then show ?case by simp
next
  case (Suc n)
  then have "contents q \<noteq> []" by auto
  with Suc.prems obtain q1 where q1: "deq q = Some q1" "inv q1" "contents q1 = tl (contents q)" "bound q1 = bound q"
    using deq_some by blast
  with Suc.IH [of q1] Suc.prems show ?case by (auto simp: drop_Suc)
qed

lemma first_in_first_out:
  assumes "inv q" "length (contents q) + length xs \<le> bound q"
  shows "\<exists>q1 q2. fold_opt enq q xs = Some q1 \<and>
    fold_opt (\<lambda>q _. deq q) q1 (replicate (length (contents q)) ()) = Some q2 \<and>
    inv q2 \<and> contents q2 = xs"
  using enq_all [OF assms] deq_n [of _ "length (contents q)"] by fastforce

end

definition remove_head :: "packet_queue \<Rightarrow> packet_queue option" where
  "remove_head q = remove_queue q (unat (q_head q))"

interpretation rq: fifo add_queue remove_head q_list "\<lambda>q. unat (q_size q)" ring_inv
proof unfold_locales
  fix q :: packet_queue and x :: packet
  assume "ring_inv q" "length (q_list q) < unat (q_size q)"
  with add_queue_ring [of q x]
  show "\<exists>q'. add_queue q x = Some q' \<and> ring_inv q' \<and> q_list q' = q_list q @ [x] \<and>
      unat (q_size q') = unat (q_size q)"
    by (auto simp: word_less_nat_alt)
next
  fix q :: packet_queue
  assume "ring_inv q" "q_list q \<noteq> []"
  moreover from this have "q_occupancy q \<noteq> 0" by (auto simp: q_list_def)
  ultimately show "\<exists>q'. remove_head q = Some q' \<and> ring_inv q' \<and> q_list q' = tl (q_list q) \<and>
      unat (q_size q') = unat (q_size q)"
    using remove_queue_ring [of q] by (auto simp: remove_head_def)
qed

section \<open>Properties\<close>

text \<open>
  C20. The ring buffer is a first-in first-out queue: when there is room, requests added at the
  tail come out at the head in the order they went in, after everything queued before them,
  and neither the assertions nor the array bounds are violated on the way.
\<close>

theorem packet_queue_fifo:
  assumes "ring_inv q" and "length (q_list q) + length ps \<le> unat (q_size q)"
  shows "\<exists>q1 q2. fold_opt add_queue q ps = Some q1 \<and>
    fold_opt (\<lambda>q _. remove_head q) q1 (replicate (length (q_list q)) ()) = Some q2 \<and>
    ring_inv q2 \<and> q_list q2 = ps"
  using assms by (rule rq.first_in_first_out)

lemma packet_queue_fifo_witness:
  "\<exists>q1 q2. fold_opt add_queue (packet_queue_new ''RQ'' 4) [packet_new\<lparr>p_address := 7\<rparr>, packet_new\<lparr>p_address := 9\<rparr>] = Some q1 \<and>
    fold_opt (\<lambda>q _. remove_head q) q1 (replicate (length (q_list (packet_queue_new ''RQ'' 4))) ()) = Some q2 \<and>
    ring_inv q2 \<and> q_list q2 = [packet_new\<lparr>p_address := 7\<rparr>, packet_new\<lparr>p_address := 9\<rparr>]"
  using packet_queue_fifo [OF packet_queue_new_ring(1), of "''RQ''" 4
      "[packet_new\<lparr>p_address := 7\<rparr>, packet_new\<lparr>p_address := 9\<rparr>]"]
  by (simp add: packet_queue_new_ring(2)) (simp add: packet_queue_new_def)

text \<open>
  \<open>check_queue\<close> finds a queued packet with the same address exactly when there is one,
  wherever the ring wraps around, and returns the slot of the oldest one.
\<close>

theorem check_queue_finds_oldest:
  assumes "ring_inv q"
  shows "check_queue q p = Some (case first_index (\<lambda>k. same_packet q p (q_list q ! k)) 0 (length (q_list q)) of
      None \<Rightarrow> - 1 | Some k \<Rightarrow> int (ring_idx q k))"
  using check_queue_ring [OF assms] by simp

lemma check_queue_finds_oldest_witness:
  "ring_inv (packet_queue_new ''RQ'' 4) \<and> check_queue (packet_queue_new ''RQ'' 4) packet_new = Some (- 1)"
  using check_queue_finds_oldest [OF packet_queue_new_ring(1), of "''RQ''" 4 packet_new]
  by (simp add: packet_queue_new_ring)

end
