(* ===== verification/Replacement.thy ===== *)
theory Replacement
  imports Packet_Queue
begin

text \<open>
  The replacement policies: the LRU policy of \<open>replacement/base_replacement.cc\<close> that every
  cache but the LLC uses, and the LLC policies that the build copies over
  \<open>replacement/llc_replacement.cc\<close>: LRU (the file in the tree), SRRIP, DRRIP and SHiP (the
  build script's choice).

  A cache set is the list of its blocks; \<open>lru_victim\<close> and \<open>lru_update\<close> act on the
  \<open>lru\<close> members, which \<open>lru_perm\<close> keeps a permutation of the ways.  \<open>recency\<close> relates
  them to the abstract policy, a move-to-front list of ways.  The RRIP policies keep one
  counter per way; their victim search is a loop that is shown to end.
\<close>

section \<open>Least recently used\<close>

text \<open>\<open>lru_victim\<close>: an invalid way first, otherwise the way at the last position; no such way is an assertion failure.\<close>

definition lru_victim :: "u32 \<Rightarrow> block list \<Rightarrow> nat option" where
  "lru_victim NUM_WAY bs = do {
     r \<leftarrow> search_arr (\<lambda>b. b_valid b = 0) bs 0 (unat NUM_WAY);
     case r of
       Some way \<Rightarrow> Some way
     | None \<Rightarrow> do {
         r' \<leftarrow> search_arr (\<lambda>b. b_lru b = NUM_WAY - 1) bs 0 (unat NUM_WAY);
         r' } }"

fun lru_age :: "block list \<Rightarrow> nat \<Rightarrow> nat \<Rightarrow> nat \<Rightarrow> block list option" where
  "lru_age bs way i 0 = Some bs"
| "lru_age bs way i (Suc k) = do {
     b \<leftarrow> arr_get bs i;
     c \<leftarrow> arr_get bs way;
     bs' \<leftarrow> (if b_lru b < b_lru c then arr_set bs i (b\<lparr>b_lru := b_lru b + 1\<rparr>) else Some bs);
     lru_age bs' way (Suc i) k }"

definition lru_update :: "u32 \<Rightarrow> block list \<Rightarrow> nat \<Rightarrow> block list option" where
  "lru_update NUM_WAY bs way = do {
     bs' \<leftarrow> lru_age bs way 0 (unat NUM_WAY);
     c \<leftarrow> arr_get bs' way;
     arr_set bs' way (c\<lparr>b_lru := 0\<rparr>) }"

definition find_victim :: "u32 \<Rightarrow> block list \<Rightarrow> nat option" where
  "find_victim NUM_WAY current_set = lru_victim NUM_WAY current_set"

definition update_replacement_state :: "u32 \<Rightarrow> block list \<Rightarrow> nat \<Rightarrow> u8 \<Rightarrow> bool \<Rightarrow> block list option" where
  "update_replacement_state NUM_WAY bs way type hit =
     (if type = WRITEBACK \<and> hit then Some bs else lru_update NUM_WAY bs way)"

subsection \<open>Positions and recency\<close>

definition lru_perm :: "u32 list \<Rightarrow> bool" where
  "lru_perm ls \<longleftrightarrow> distinct ls \<and> list_all (\<lambda>l. unat l < length ls) ls"

definition lru_touch :: "u32 list \<Rightarrow> nat \<Rightarrow> u32 list" where
  "lru_touch ls w = (map (\<lambda>l. if l < ls ! w then l + 1 else l) ls)[w := 0]"

text \<open>\<open>ws\<close> lists the ways from the most to the least recently used.\<close>

definition recency :: "u32 list \<Rightarrow> nat list \<Rightarrow> bool" where
  "recency ls ws \<longleftrightarrow> length ws = length ls \<and> distinct ws \<and>
     (\<forall>k < length ws. ws ! k < length ls \<and> unat (ls ! (ws ! k)) = k)"

lemma lru_touch_length [simp]: "length (lru_touch ls w) = length ls"
  by (simp add: lru_touch_def)

lemma lru_touch_nth:
  "w < length ls \<Longrightarrow> i < length ls \<Longrightarrow>
     lru_touch ls w ! i = (if i = w then 0 else if ls ! i < ls ! w then ls ! i + 1 else ls ! i)"
  by (simp add: lru_touch_def)

lemma unat_touch:
  assumes "lru_perm ls" "w < length ls" "i < length ls"
  shows "unat (lru_touch ls w ! i) = (if i = w then 0
     else if unat (ls ! i) < unat (ls ! w) then unat (ls ! i) + 1 else unat (ls ! i))"
  using assms unat_inc [of "ls ! i" "ls ! w"] by (auto simp: lru_touch_nth word_less_nat_alt)

lemma lru_perm_inj:
  "lru_perm ls \<Longrightarrow> i < length ls \<Longrightarrow> j < length ls \<Longrightarrow> (unat (ls ! i) = unat (ls ! j)) = (i = j)"
  by (auto simp: lru_perm_def nth_eq_iff_index_eq simp flip: word_unat_eq_iff)

lemma lru_perm_less: "lru_perm ls \<Longrightarrow> i < length ls \<Longrightarrow> unat (ls ! i) < length ls"
  by (simp add: lru_perm_def list_all_length)

lemma lru_perm_touch:
  assumes p: "lru_perm ls" and w: "w < length ls"
  shows "lru_perm (lru_touch ls w)"
proof -
  have "lru_touch ls w ! i \<noteq> lru_touch ls w ! j" if ij: "i < length ls" "j < length ls" "i \<noteq> j" for i j
  proof -
    have "unat (lru_touch ls w ! i) \<noteq> unat (lru_touch ls w ! j)"
      unfolding unat_touch [OF p w ij(1)] unat_touch [OF p w ij(2)]
      using lru_perm_inj [OF p ij(1,2)] lru_perm_inj [OF p ij(1) w] lru_perm_inj [OF p ij(2) w] ij(3)
      by auto
    then show ?thesis by metis
  qed
  then have "distinct (lru_touch ls w)" by (simp add: distinct_conv_nth)
  moreover have "unat (lru_touch ls w ! i) < length ls" if "i < length ls" for i
    using unat_touch [OF p w that] lru_perm_less [OF p that] lru_perm_less [OF p w] by auto
  ultimately show ?thesis by (simp add: lru_perm_def list_all_length)
qed

lemma lru_perm_surj:
  assumes "lru_perm ls" "k < length ls"
  shows "\<exists>i < length ls. unat (ls ! i) = k"
proof -
  have "inj_on (\<lambda>i. unat (ls ! i)) {..<length ls}"
    using lru_perm_inj [OF assms(1)] by (auto simp: inj_on_def)
  moreover have "(\<lambda>i. unat (ls ! i)) ` {..<length ls} \<subseteq> {..<length ls}"
    using lru_perm_less [OF assms(1)] by auto
  ultimately have "(\<lambda>i. unat (ls ! i)) ` {..<length ls} = {..<length ls}"
    by (intro endo_inj_surj) auto
  with assms(2) have "k \<in> (\<lambda>i. unat (ls ! i)) ` {..<length ls}" by auto
  then show ?thesis by auto
qed

lemma recency_set:
  assumes "recency ls ws"
  shows "set ws = {..<length ls}"
proof -
  have "set ws \<subseteq> {..<length ls}" using assms by (auto simp: recency_def in_set_conv_nth)
  moreover have "card (set ws) = length ls" using assms by (auto simp: recency_def distinct_card)
  ultimately show ?thesis by (intro card_subset_eq) auto
qed

lemma recency_pos:
  assumes "recency ls ws" "i < length ls"
  shows "unat (ls ! i) < length ws \<and> ws ! unat (ls ! i) = i"
proof -
  from recency_set [OF assms(1)] assms(2) have "i \<in> set ws" by simp
  then obtain k where "k < length ws" "ws ! k = i" by (auto simp: in_set_conv_nth)
  with assms(1) show ?thesis by (auto simp: recency_def)
qed

lemma recency_perm: "recency ls ws \<Longrightarrow> lru_perm ls"
proof -
  assume r: "recency ls ws"
  have "i = j" if "i < length ls" "j < length ls" "ls ! i = ls ! j" for i j
    using recency_pos [OF r that(1)] recency_pos [OF r that(2)] that(3) by metis
  then show ?thesis
    using r recency_pos [OF r] by (auto simp: lru_perm_def distinct_conv_nth list_all_length recency_def)
qed

lemma remove1_nth:
  "distinct ws \<Longrightarrow> m < length ws \<Longrightarrow> k < length ws - 1 \<Longrightarrow>
     remove1 (ws ! m) ws ! k = (if k < m then ws ! k else ws ! Suc k)"
proof (induction ws arbitrary: m k)
  case (Cons a ws)
  show ?case
  proof (cases m)
    case (Suc m')
    with Cons.prems have "a \<noteq> ws ! m'" by auto
    with Cons Suc show ?thesis by (cases k) auto
  qed simp
qed simp

text \<open>Touching a way moves it to the front of the recency list.\<close>

lemma recency_touch:
  assumes r: "recency ls ws" and w: "w < length ls"
  shows "recency (lru_touch ls w) (w # remove1 w ws)"
proof -
  define m where "m = unat (ls ! w)"
  note p = recency_perm [OF r]
  have m: "m < length ws" "ws ! m = w" using recency_pos [OF r w] by (auto simp: m_def)
  have d: "distinct ws" "length ws = length ls" using r by (auto simp: recency_def)
  have len: "length (w # remove1 w ws) = length ls"
    using m d nth_mem [OF m(1)] by (simp add: length_remove1)
  have "(w # remove1 w ws) ! k < length ls \<and> unat (lru_touch ls w ! ((w # remove1 w ws) ! k)) = k"
    if k: "k < length ls" for k
  proof (cases k)
    case 0
    with w show ?thesis using unat_touch [OF p w w] by simp
  next
    case (Suc k')
    let ?v = "if k' < m then ws ! k' else ws ! Suc k'"
    have v: "(w # remove1 w ws) ! k = ?v"
      using remove1_nth [OF d(1) m(1), of k'] m(2) Suc k d(2) by simp
    have pos: "?v < length ls" "unat (ls ! ?v) = (if k' < m then k' else Suc k')"
      using r k Suc d(2) by (auto simp: recency_def)
    have "?v \<noteq> w" using pos(2) m_def by (auto split: if_splits)
    then show ?thesis
      unfolding v using unat_touch [OF p w pos(1)] pos Suc m_def by (auto split: if_splits)
  qed
  moreover have "distinct (w # remove1 w ws)" using d by (simp add: set_remove1_eq)
  ultimately show ?thesis unfolding recency_def len lru_touch_length by blast
qed

subsection \<open>The code maintains the recency list\<close>

abbreviation lrus :: "block list \<Rightarrow> u32 list" where
  "lrus bs \<equiv> map b_lru bs"

lemma lru_age_correct:
  assumes "way < length bs" "i + k \<le> length bs" "c = b_lru (bs ! way)"
  shows "lru_age bs way i k = Some (map (\<lambda>j. if i \<le> j \<and> j < i + k \<and> b_lru (bs ! j) < c
      then (bs ! j)\<lparr>b_lru := b_lru (bs ! j) + 1\<rparr> else bs ! j) [0..<length bs])"
  using assms
proof (induction k arbitrary: bs i)
  case 0
  then show ?case by (auto intro!: nth_equalityI)
next
  case (Suc k)
  define bs1 where "bs1 = (if b_lru (bs ! i) < c
    then bs[i := (bs ! i)\<lparr>b_lru := b_lru (bs ! i) + 1\<rparr>] else bs)"
  have c1: "c = b_lru (bs1 ! way)"
    using Suc.prems by (cases "i = way") (auto simp: bs1_def)
  have len: "length bs1 = length bs" by (simp add: bs1_def)
  have "lru_age bs way i (Suc k) = lru_age bs1 way (Suc i) k"
    using Suc.prems by (simp add: bs1_def)
  also have "\<dots> = Some (map (\<lambda>j. if Suc i \<le> j \<and> j < Suc i + k \<and> b_lru (bs1 ! j) < c
      then (bs1 ! j)\<lparr>b_lru := b_lru (bs1 ! j) + 1\<rparr> else bs1 ! j) [0..<length bs1])"
    using Suc.IH [of bs1 "Suc i"] Suc.prems len c1 by simp
  also have "\<dots> = Some (map (\<lambda>j. if i \<le> j \<and> j < i + Suc k \<and> b_lru (bs ! j) < c
      then (bs ! j)\<lparr>b_lru := b_lru (bs ! j) + 1\<rparr> else bs ! j) [0..<length bs])"
    unfolding len using Suc.prems(2)
    by (auto simp: bs1_def nth_list_update intro!: map_cong)
  finally show ?case .
qed

lemma lru_update_correct:
  assumes "length bs = unat n" "way < length bs"
  shows "\<exists>bs'. lru_update n bs way = Some bs' \<and> length bs' = length bs \<and>
    lrus bs' = lru_touch (lrus bs) way \<and>
    (\<forall>j < length bs. \<exists>l. bs' ! j = (bs ! j)\<lparr>b_lru := l\<rparr>)"
proof -
  let ?f = "\<lambda>j. if b_lru (bs ! j) < b_lru (bs ! way)
      then (bs ! j)\<lparr>b_lru := b_lru (bs ! j) + 1\<rparr> else bs ! j"
  let ?bs = "map ?f [0..<length bs]"
  let ?bs' = "?bs[way := (?bs ! way)\<lparr>b_lru := 0\<rparr>]"
  have "lru_age bs way 0 (unat n) = Some ?bs"
    using lru_age_correct [OF assms(2), of 0 "unat n" "b_lru (bs ! way)"] assms(1) by (auto intro!: map_cong)
  then have upd: "lru_update n bs way = Some ?bs'"
    using assms(2) by (simp add: lru_update_def)
  have nth: "?bs' ! j = (if j = way then (bs ! way)\<lparr>b_lru := 0\<rparr> else ?f j)" if "j < length bs" for j
    using that assms(2) by (simp add: nth_list_update)
  have "lrus ?bs' = lru_touch (lrus bs) way"
    by (rule nth_equalityI) (use assms(2) in \<open>auto simp: lru_touch_nth nth\<close>)
  moreover have "\<exists>l. ?bs' ! j = (bs ! j)\<lparr>b_lru := l\<rparr>" if "j < length bs" for j
  proof -
    have "\<exists>l. bs ! j = (bs ! j)\<lparr>b_lru := l\<rparr>" by (rule exI [of _ "b_lru (bs ! j)"]) simp
    then show ?thesis unfolding nth [OF that] by auto
  qed
  ultimately show ?thesis using upd by auto
qed

lemma lru_update_perm:
  assumes "lru_perm (lrus bs)" "length bs = unat n" "way < length bs"
  shows "\<exists>bs'. lru_update n bs way = Some bs' \<and> length bs' = length bs \<and> lru_perm (lrus bs')"
  using lru_update_correct [OF assms(2,3)] lru_perm_touch [OF assms(1), of way] assms(3) by auto

lemma lru_victim_total:
  assumes "lru_perm (lrus bs)" "length bs = unat n" "n \<noteq> 0"
  shows "\<exists>way. lru_victim n bs = Some way \<and> way < length bs \<and>
    (b_valid (bs ! way) = 0 \<or> list_all (\<lambda>b. b_valid b \<noteq> 0) bs \<and> unat (b_lru (bs ! way)) = length bs - 1)"
proof -
  let ?P = "\<lambda>i. b_valid (bs ! i) = 0" and ?Q = "\<lambda>i. b_lru (bs ! i) = n - 1"
  have v: "lru_victim n bs = (case first_index ?P 0 (length bs) of Some way \<Rightarrow> Some way
      | None \<Rightarrow> first_index ?Q 0 (length bs))"
    using assms(2) by (simp add: lru_victim_def search_arr_eq split: option.splits)
  show ?thesis
  proof (cases "first_index ?P 0 (length bs)")
    case (Some way)
    with v show ?thesis by (auto dest: first_index_Some)
  next
    case None
    then have valid: "list_all (\<lambda>b. b_valid b \<noteq> 0) bs"
      by (auto simp: first_index_None list_all_length)
    have n1: "unat (n - 1) = unat n - 1" "0 < unat n" using assms(3) by (simp_all add: unat_dec unat_gt_0)
    obtain i where i: "i < length bs" "unat (b_lru (bs ! i)) = unat n - 1"
      using lru_perm_surj [OF assms(1), of "unat n - 1"] n1 assms(2) by auto
    with n1 have "?Q i" by (simp add: word_unat_eq_iff)
    then obtain way where "first_index ?Q 0 (length bs) = Some way"
      using first_index_ex [of 0 i "length bs" ?Q] i by auto
    with v None valid n1 assms(2) show ?thesis by (auto dest!: first_index_Some)
  qed
qed

section \<open>Re-reference interval prediction\<close>

definition LLC_SET :: nat where [champsim_consts]: "LLC_SET = NUM_CPUS * 2048"
definition LLC_WAY :: nat where [champsim_consts]: "LLC_WAY = 16"
definition maxRRPV :: u32 where [champsim_consts]: "maxRRPV = 3"

text \<open>
  \<open>llc_find_victim\<close> of SRRIP, DRRIP and SHiP on one row of counters: the first way at
  \<open>maxRRPV\<close>; if there is none, all counters are incremented and the search starts again.
  The loop of the source has no bound, so not returning is \<open>None\<close>.
\<close>

partial_function (option) rrip_victim :: "u32 list \<Rightarrow> (nat \<times> u32 list) option" where
  "rrip_victim row =
     (case first_index (\<lambda>i. row ! i = maxRRPV) 0 (length row) of
        Some i \<Rightarrow> Some (i, row)
      | None \<Rightarrow> rrip_victim (map (\<lambda>v. v + 1) row))"

definition rrip_ok :: "u32 list \<Rightarrow> bool" where
  "rrip_ok row \<longleftrightarrow> row \<noteq> [] \<and> list_all (\<lambda>v. v \<le> maxRRPV) row"

lemma rrip_row_bounds:
  assumes "rrip_ok row" "v \<in> set row"
  shows "unat v \<le> 3"
proof -
  have "v \<le> 3" using assms by (simp add: rrip_ok_def list_all_iff maxRRPV_def)
  then show ?thesis by (simp add: word_le_nat_alt)
qed

lemma rrip_victim_hit:
  assumes "rrip_ok row" "\<exists>v \<in> set row. v = maxRRPV"
  shows "\<exists>way < length row. rrip_victim row = Some (way, row) \<and> row ! way = maxRRPV \<and>
    (\<forall>j < way. row ! j \<noteq> maxRRPV)"
proof -
  from assms(2) obtain k where "k < length row" "row ! k = maxRRPV" by (auto simp: in_set_conv_nth)
  then obtain i where i: "first_index (\<lambda>i. row ! i = maxRRPV) 0 (length row) = Some i"
    using first_index_ex [of 0 k "length row" "\<lambda>i. row ! i = maxRRPV"] by auto
  have "rrip_victim row = Some (i, row)" by (subst rrip_victim.simps) (simp add: i)
  with first_index_Some [OF i] show ?thesis by auto
qed

lemma rrip_victim_miss:
  assumes "\<forall>v \<in> set row. v \<noteq> maxRRPV"
  shows "rrip_victim row = rrip_victim (map (\<lambda>v. v + 1) row)"
proof -
  have "first_index (\<lambda>i. row ! i = maxRRPV) 0 (length row) = None"
    using assms by (simp add: first_index_None)
  then show ?thesis by (subst rrip_victim.simps) simp
qed

lemma rrip_inc:
  assumes "rrip_ok row" "\<forall>v \<in> set row. v \<noteq> maxRRPV"
  shows "rrip_ok (map (\<lambda>v. v + 1) row) \<and> (\<forall>v \<in> set row. unat (v + 1) = unat v + 1)"
proof -
  have "unat (v + 1) = unat v + 1 \<and> v + 1 \<le> maxRRPV" if v: "v \<in> set row" for v
  proof -
    have "v \<le> maxRRPV" "v \<noteq> maxRRPV" using assms v by (auto simp: rrip_ok_def list_all_iff)
    then have lt: "v < maxRRPV" by (rule le_neq_trans)
    from unat_inc [OF lt] lt show ?thesis by (simp add: word_le_nat_alt word_less_nat_alt)
  qed
  with assms(1) show ?thesis by (simp add: rrip_ok_def list_all_iff)
qed

text \<open>
  The search returns after at most three rounds of ageing; the victim is the first way with
  the largest counter, and all counters have grown by the same amount.
\<close>

definition rrip_spec :: "u32 list \<Rightarrow> nat \<Rightarrow> u32 list \<Rightarrow> bool" where
  "rrip_spec row way row' \<longleftrightarrow> way < length row \<and> length row' = length row \<and>
     (\<forall>j < length row. unat (row ! j) \<le> unat (row ! way)) \<and>
     (\<forall>j < way. unat (row ! j) < unat (row ! way)) \<and>
     (\<forall>j < length row. unat (row' ! j) = unat (row ! j) + (3 - unat (row ! way)))"

lemma rrip_victim_ages:
  assumes "rrip_ok row" "\<exists>v \<in> set row. 3 - n \<le> unat v"
  shows "\<exists>way row'. rrip_victim row = Some (way, row') \<and> rrip_spec row way row'"
  using assms
proof (induction n arbitrary: row)
  case 0
  then have "\<exists>v \<in> set row. v = maxRRPV"
    using rrip_row_bounds [OF "0.prems"(1)]
    by (fastforce simp: maxRRPV_def word_unat_eq_iff)
  from rrip_victim_hit [OF "0.prems"(1) this] obtain way where
    w: "way < length row" "rrip_victim row = Some (way, row)" "row ! way = maxRRPV"
      "\<forall>j < way. row ! j \<noteq> maxRRPV" by blast
  have "unat (row ! j) \<le> 3" if "j < length row" for j
    using rrip_row_bounds [OF "0.prems"(1)] that by simp
  moreover have "unat (row ! j) \<noteq> 3" if "j < way" for j
    using w(4) that by (auto simp: maxRRPV_def word_unat_eq_iff)
  ultimately have le: "\<forall>j < length row. unat (row ! j) \<le> 3" "\<forall>j < way. unat (row ! j) < 3"
    using w(1) by (auto simp: order_le_less dest: order_less_trans)
  have "unat (row ! way) = 3" using w(3) by (simp add: maxRRPV_def)
  with le w(1) have "rrip_spec row way row" by (simp add: rrip_spec_def)
  with w(2) show ?case by blast
next
  case (Suc n)
  let ?row = "map (\<lambda>v. v + 1) row"
  show ?case
  proof (cases "\<exists>v \<in> set row. v = maxRRPV")
    case True
    then have "\<exists>v \<in> set row. 3 - n \<le> unat v"
      by (intro bexI [of _ maxRRPV]) (auto simp: maxRRPV_def)
    with Suc show ?thesis by blast
  next
    case False
    then have ne: "\<forall>v \<in> set row. v \<noteq> maxRRPV" by blast
    note inc = rrip_inc [OF Suc.prems(1) ne]
    from Suc.prems(2) obtain v where v: "v \<in> set row" "3 - Suc n \<le> unat v" by blast
    then have "3 - n \<le> unat (v + 1)" using inc by simp
    then have "\<exists>v \<in> set ?row. 3 - n \<le> unat v" using v(1) by auto
    with Suc.IH inc obtain way row' where
      w: "rrip_victim ?row = Some (way, row')" "rrip_spec ?row way row'" by blast
    have un: "unat (?row ! j) = unat (row ! j) + 1" if "j < length row" for j
      using inc that by simp
    have way: "way < length row" using w(2) by (simp add: rrip_spec_def)
    have "?row ! way \<in> set ?row" using way by (intro nth_mem) simp
    then have "unat (?row ! way) \<le> 3" using rrip_row_bounds [of ?row] inc by blast
    then have d: "3 - unat (row ! way) = Suc (3 - unat (?row ! way))" unfolding un [OF way] by simp
    have "rrip_spec row way row'"
      unfolding rrip_spec_def
    proof (intro conjI allI impI)
      fix j assume j: "j < length row"
      show "unat (row ! j) \<le> unat (row ! way)"
        using w(2) j un [OF j] un [OF way] unfolding rrip_spec_def length_map by (metis add_le_cancel_right)
      have "unat (row' ! j) = unat (?row ! j) + (3 - unat (?row ! way))"
        using w(2) j unfolding rrip_spec_def length_map by blast
      then show "unat (row' ! j) = unat (row ! j) + (3 - unat (row ! way))"
        unfolding un [OF j] d by simp
    next
      fix j assume j: "j < way"
      then have "j < length row" using way by simp
      from w(2) j un [OF this] un [OF way] show "unat (row ! j) < unat (row ! way)"
        unfolding rrip_spec_def by (metis add_less_cancel_right)
    qed (use w(2) in \<open>simp_all add: rrip_spec_def\<close>)
    with w(1) rrip_victim_miss [OF ne] show ?thesis by auto
  qed
qed

lemma rrip_victim_total:
  assumes "rrip_ok row"
  shows "\<exists>way row'. rrip_victim row = Some (way, row') \<and> rrip_spec row way row' \<and> rrip_ok row'"
proof -
  have "\<exists>v \<in> set row. 3 - 3 \<le> unat v" using assms by (cases row) (auto simp: rrip_ok_def)
  from rrip_victim_ages [OF assms this] obtain way row' where
    w: "rrip_victim row = Some (way, row')" "rrip_spec row way row'" by blast
  have way: "way < length row" using w(2) by (simp add: rrip_spec_def)
  have "unat (row' ! j) \<le> 3" if "j < length row'" for j
  proof -
    have "j < length row" using that w(2) by (simp add: rrip_spec_def)
    then have "unat (row' ! j) = unat (row ! j) + (3 - unat (row ! way))"
      "unat (row ! j) \<le> unat (row ! way)" using w(2) unfolding rrip_spec_def by blast+
    then show ?thesis using rrip_row_bounds [OF assms nth_mem [OF way]] by linarith
  qed
  then have "rrip_ok row'"
    using w(2) assms by (auto simp: rrip_spec_def rrip_ok_def list_all_length maxRRPV_def word_le_nat_alt)
  with w show ?thesis by blast
qed

section \<open>The LLC policies\<close>

text \<open>
  The state of the policies, file-scope arrays of the \<open>.llc_repl\<close> files.  \<open>r_rrpv\<close> has
  a row of counters per set.  DRRIP adds the duelling counter \<open>r_PSEL\<close> and the bimodal
  throttle; SHiP adds the sampler and the table of signature counters.
\<close>

datatype llc_policy = LLC_LRU | LLC_SRRIP | LLC_DRRIP | LLC_SHIP

record sampler_entry =
  s_valid :: u8
  s_type :: u8
  s_used :: u8
  s_tag :: u64
  s_cl_addr :: u64
  s_ip :: u64
  s_lru :: u32

definition sampler_entry_new :: sampler_entry where
  "sampler_entry_new = \<lparr>s_valid = 0, s_type = 0, s_used = 0, s_tag = 0, s_cl_addr = 0, s_ip = 0, s_lru = 0\<rparr>"

record llc_repl =
  r_rrpv :: "u32 list list"
  r_bip_counter :: u32
  r_PSEL :: "u32 list"
  r_rand_sets :: "u32 list"
  r_sampler :: "sampler_entry list list"
  r_SHCT :: "u32 list list"

definition NUM_POLICY :: nat where [champsim_consts]: "NUM_POLICY = 2"
definition SDM_SIZE :: nat where [champsim_consts]: "SDM_SIZE = 32"
definition TOTAL_SDM_SETS :: nat where [champsim_consts]: "TOTAL_SDM_SETS = NUM_CPUS * NUM_POLICY * SDM_SIZE"
definition BIP_MAX :: u32 where [champsim_consts]: "BIP_MAX = 32"
definition PSEL_MAX :: u32 where [champsim_consts]: "PSEL_MAX = push_bit 10 1 - 1"
definition PSEL_THRS :: u32 where [champsim_consts]: "PSEL_THRS = PSEL_MAX div 2"
definition SHCT_SIZE :: nat where [champsim_consts]: "SHCT_SIZE = 16384"
definition SHCT_PRIME :: u64 where [champsim_consts]: "SHCT_PRIME = 16381"
definition SAMPLER_SET :: nat where [champsim_consts]: "SAMPLER_SET = 256 * NUM_CPUS"
definition SAMPLER_WAY :: nat where [champsim_consts]: "SAMPLER_WAY = LLC_WAY"
definition SHCT_MAX :: u32 where [champsim_consts]: "SHCT_MAX = 7"

subsection \<open>Initial state\<close>

text \<open>
  The sampled sets: a linear congruential generator, drawn again while the set was drawn
  before.  The redrawing has no bound in the source, so not returning is \<open>None\<close>.
\<close>

definition lcg_next :: "u64 \<Rightarrow> u64" where
  "lcg_next rand_seed = rand_seed * 1103515245 + 12345"

definition lcg_set :: "u64 \<Rightarrow> u32" where
  "lcg_set rand_seed = ucast ((rand_seed div 65536) mod 1048576) mod of_nat LLC_SET"

partial_function (option) draw_set :: "u64 \<Rightarrow> u32 list \<Rightarrow> (u64 \<times> u32) option" where
  "draw_set rand_seed drawn =
     (if lcg_set (lcg_next rand_seed) \<in> set drawn then draw_set (lcg_next rand_seed) drawn
      else Some (lcg_next rand_seed, lcg_set (lcg_next rand_seed)))"

fun draw_sets :: "nat \<Rightarrow> u64 \<Rightarrow> u32 list \<Rightarrow> u32 list option" where
  "draw_sets 0 rand_seed drawn = Some drawn"
| "draw_sets (Suc n) rand_seed drawn = do {
     (seed', s) \<leftarrow> draw_set rand_seed drawn;
     draw_sets n seed' (drawn @ [s]) }"

definition rrpv_init :: "u32 list list" where
  "rrpv_init = replicate LLC_SET (replicate LLC_WAY maxRRPV)"

definition sampler_init :: "sampler_entry list list" where
  "sampler_init = replicate SAMPLER_SET (map (\<lambda>j. sampler_entry_new\<lparr>s_lru := of_nat j\<rparr>) [0..<SAMPLER_WAY])"

definition llc_initialize_replacement :: "llc_policy \<Rightarrow> llc_repl option" where
  "llc_initialize_replacement pol = do {
     sets \<leftarrow> (case pol of LLC_DRRIP \<Rightarrow> draw_sets TOTAL_SDM_SETS 1 []
       | LLC_SHIP \<Rightarrow> draw_sets SAMPLER_SET 1 [] | _ \<Rightarrow> Some []);
     Some \<lparr>r_rrpv = rrpv_init, r_bip_counter = 0, r_PSEL = replicate NUM_CPUS 0,
       r_rand_sets = sets, r_sampler = sampler_init,
       r_SHCT = replicate NUM_CPUS (replicate SHCT_SIZE 0)\<rparr> }"

subsection \<open>The victim\<close>

definition llc_find_victim :: "llc_policy \<Rightarrow> llc_repl \<Rightarrow> u32 \<Rightarrow> nat \<Rightarrow> block list \<Rightarrow> (nat \<times> llc_repl) option" where
  "llc_find_victim pol r NUM_WAY st current_set =
     (case pol of
        LLC_LRU \<Rightarrow> do { way \<leftarrow> lru_victim NUM_WAY current_set; Some (way, r) }
      | _ \<Rightarrow> do {
          row \<leftarrow> arr_get (r_rrpv r) st;
          (way, row') \<leftarrow> rrip_victim row;
          rows \<leftarrow> arr_set (r_rrpv r) st row';
          Some (way, r\<lparr>r_rrpv := rows\<rparr>) })"

subsection \<open>The updates\<close>

definition set_rrpv :: "llc_repl \<Rightarrow> nat \<Rightarrow> nat \<Rightarrow> u32 \<Rightarrow> llc_repl option" where
  "set_rrpv r st way v = do {
     row \<leftarrow> arr_get (r_rrpv r) st;
     row' \<leftarrow> arr_set row way v;
     rows \<leftarrow> arr_set (r_rrpv r) st row';
     Some (r\<lparr>r_rrpv := rows\<rparr>) }"

definition srrip_update :: "llc_repl \<Rightarrow> nat \<Rightarrow> nat \<Rightarrow> u64 \<Rightarrow> u8 \<Rightarrow> bool \<Rightarrow> llc_repl option" where
  "srrip_update r st way ip type hit = do {
     assert_that (type = LOAD \<or> type = RFO \<or> type = PREFETCH \<or> type = WRITEBACK);
     assert_that (\<not> (type = WRITEBACK \<and> ip \<noteq> 0));
     set_rrpv r st way (if hit then 0 else maxRRPV - 1) }"

definition is_it_leader :: "llc_repl \<Rightarrow> nat \<Rightarrow> nat \<Rightarrow> int option" where
  "is_it_leader r cpu st = do {
     let start = cpu * NUM_POLICY * SDM_SIZE;
     i \<leftarrow> search_arr (\<lambda>s. s = of_nat st) (r_rand_sets r) start (start + NUM_POLICY * SDM_SIZE);
     Some (case i of Some i \<Rightarrow> int ((i - start) div SDM_SIZE) | None \<Rightarrow> - 1) }"

text \<open>The bimodal insertion that two branches of DRRIP share: near the end of the stack once in \<open>BIP_MAX\<close> times.\<close>

definition bip_insert :: "llc_repl \<Rightarrow> nat \<Rightarrow> nat \<Rightarrow> llc_repl option" where
  "bip_insert r st way = do {
     r1 \<leftarrow> set_rrpv r st way maxRRPV;
     let b = r_bip_counter r1 + 1;
     let b' = (if b = BIP_MAX then 0 else b);
     let r2 = r1\<lparr>r_bip_counter := b'\<rparr>;
     if b' = 0 then set_rrpv r2 st way (maxRRPV - 1) else Some r2 }"

definition drrip_update :: "llc_repl \<Rightarrow> nat \<Rightarrow> nat \<Rightarrow> nat \<Rightarrow> u8 \<Rightarrow> bool \<Rightarrow> llc_repl option" where
  "drrip_update r cpu st way type hit =
     (if type = WRITEBACK then set_rrpv r st way (maxRRPV - 1)
      else if hit then set_rrpv r st way 0
      else do {
        leader \<leftarrow> is_it_leader r cpu st;
        psel \<leftarrow> arr_get (r_PSEL r) cpu;
        if leader = - 1 then
          (if psel > PSEL_THRS then bip_insert r st way else set_rrpv r st way (maxRRPV - 1))
        else if leader = 0 then
          bip_insert (r\<lparr>r_PSEL := (r_PSEL r)[cpu := if psel > 0 then psel - 1 else psel]\<rparr>) st way
        else if leader = 1 then
          set_rrpv (r\<lparr>r_PSEL := (r_PSEL r)[cpu := if psel < PSEL_MAX then psel + 1 else psel]\<rparr>) st way (maxRRPV - 1)
        else None })"

definition is_it_sampled :: "llc_repl \<Rightarrow> nat \<Rightarrow> nat option" where
  "is_it_sampled r st = do {
     i \<leftarrow> search_arr (\<lambda>s. s = of_nat st) (r_rand_sets r) 0 SAMPLER_SET;
     Some (case i of Some i \<Rightarrow> i | None \<Rightarrow> SAMPLER_SET) }"

definition sampler_touch :: "sampler_entry list \<Rightarrow> nat \<Rightarrow> sampler_entry list option" where
  "sampler_touch s_set m = do {
     e \<leftarrow> arr_get s_set m;
     Some ((map (\<lambda>s. if s_lru s < s_lru e then s\<lparr>s_lru := s_lru s + 1\<rparr> else s) s_set)
       [m := e\<lparr>s_lru := 0\<rparr>]) }"

definition SHCT_idx :: "u64 \<Rightarrow> nat" where
  "SHCT_idx ip = unat (ip mod SHCT_PRIME)"

text \<open>
  \<open>update_sampler\<close> on one sampled set and the counters of one core: a hit detrains the
  signature that inserted the line, an invalid way is filled, otherwise the least recently
  used entry is replaced and its signature trained when the entry was never hit.
\<close>

definition update_sampler :: "u32 list \<Rightarrow> sampler_entry list \<Rightarrow> u64 \<Rightarrow> u64 \<Rightarrow> u8 \<Rightarrow>
    (u32 list \<times> sampler_entry list) option" where
  "update_sampler shct s_set address ip type = do {
     let tag = address div of_nat (64 * LLC_SET);
     hit \<leftarrow> search_arr (\<lambda>s. s_valid s \<noteq> 0 \<and> s_tag s = tag) s_set 0 SAMPLER_WAY;
     case hit of
       Some m \<Rightarrow> do {
         e \<leftarrow> arr_get s_set m;
         c \<leftarrow> arr_get shct (SHCT_idx (s_ip e));
         let shct' = (if c > 0 then shct[SHCT_idx (s_ip e) := c - 1] else shct);
         s_set' \<leftarrow> sampler_touch (s_set[m := e\<lparr>s_type := type, s_used := 1\<rparr>]) m;
         Some (shct', s_set') }
     | None \<Rightarrow> do {
         free \<leftarrow> search_arr (\<lambda>s. s_valid s = 0) s_set 0 SAMPLER_WAY;
         case free of
           Some m \<Rightarrow> do {
             e \<leftarrow> arr_get s_set m;
             s_set' \<leftarrow> sampler_touch
               (s_set[m := e\<lparr>s_valid := 1, s_tag := tag, s_ip := ip, s_type := type, s_used := 0\<rparr>]) m;
             Some (shct, s_set') }
         | None \<Rightarrow> do {
             old \<leftarrow> search_arr (\<lambda>s. s_lru s = of_nat (SAMPLER_WAY - 1)) s_set 0 SAMPLER_WAY;
             m \<leftarrow> old;
             e \<leftarrow> arr_get s_set m;
             shct' \<leftarrow> (if s_used e = 0 then do {
               c \<leftarrow> arr_get shct (SHCT_idx (s_ip e));
               Some (if c < SHCT_MAX then shct[SHCT_idx (s_ip e) := c + 1] else shct) } else Some shct);
             s_set' \<leftarrow> sampler_touch
               (s_set[m := e\<lparr>s_tag := tag, s_ip := ip, s_type := type, s_used := 0\<rparr>]) m;
             Some (shct', s_set') } } }"

definition ship_update :: "llc_repl \<Rightarrow> nat \<Rightarrow> nat \<Rightarrow> nat \<Rightarrow> u64 \<Rightarrow> u64 \<Rightarrow> u8 \<Rightarrow> bool \<Rightarrow> llc_repl option" where
  "ship_update r cpu st way full_addr ip type hit = do {
     assert_that (type = LOAD \<or> type = RFO \<or> type = PREFETCH \<or> type = WRITEBACK);
     assert_that (\<not> (type = WRITEBACK \<and> ip \<noteq> 0));
     if type = WRITEBACK then (if hit then Some r else set_rrpv r st way (maxRRPV - 1))
     else do {
       s_idx \<leftarrow> is_it_sampled r st;
       r1 \<leftarrow> (if s_idx < SAMPLER_SET then do {
           shct \<leftarrow> arr_get (r_SHCT r) cpu;
           s_set \<leftarrow> arr_get (r_sampler r) s_idx;
           (shct', s_set') \<leftarrow> update_sampler shct s_set full_addr ip type;
           Some (r\<lparr>r_SHCT := (r_SHCT r)[cpu := shct'], r_sampler := (r_sampler r)[s_idx := s_set']\<rparr>) }
         else Some r);
       if hit then set_rrpv r1 st way 0
       else do {
         shct \<leftarrow> arr_get (r_SHCT r1) cpu;
         c \<leftarrow> arr_get shct (SHCT_idx ip);
         set_rrpv r1 st way (if c = SHCT_MAX then maxRRPV else maxRRPV - 1) } } }"

definition llc_update_replacement_state :: "llc_policy \<Rightarrow> llc_repl \<Rightarrow> u32 \<Rightarrow> block list \<Rightarrow> nat \<Rightarrow> nat \<Rightarrow>
    nat \<Rightarrow> u64 \<Rightarrow> u64 \<Rightarrow> u8 \<Rightarrow> bool \<Rightarrow> (llc_repl \<times> block list) option" where
  "llc_update_replacement_state pol r NUM_WAY bs cpu st way full_addr ip type hit =
     (case pol of
        LLC_LRU \<Rightarrow> do {
          assert_that (type = LOAD \<or> type = RFO \<or> type = PREFETCH \<or> type = WRITEBACK);
          assert_that (\<not> (type = WRITEBACK \<and> ip \<noteq> 0));
          bs' \<leftarrow> (if hit \<and> type = WRITEBACK then Some bs else lru_update NUM_WAY bs way);
          Some (r, bs') }
      | LLC_SRRIP \<Rightarrow> do { r' \<leftarrow> srrip_update r st way ip type hit; Some (r', bs) }
      | LLC_DRRIP \<Rightarrow> do { r' \<leftarrow> drrip_update r cpu st way type hit; Some (r', bs) }
      | LLC_SHIP \<Rightarrow> do { r' \<leftarrow> ship_update r cpu st way full_addr ip type hit; Some (r', bs) })"

section \<open>The sampled sets\<close>

text \<open>
  Redrawing ends: the generator has full period, because its multiplier is \<open>1\<close> modulo 4
  and its increment is odd, so from every seed every set is reached.
\<close>

declare draw_set.simps [code] rrip_victim.simps [code]

definition lcg_int :: "int \<Rightarrow> int" where
  "lcg_int x = 1103515245 * x + 12345"

lemma lcg_int_pow:
  "\<exists>a c. (\<forall>x. (lcg_int ^^ (2 ^ k)) x = a * x + c) \<and> 2 ^ (k + 2) dvd a - 1 \<and> 2 ^ (k + 1) dvd c - 2 ^ k"
proof (induction k)
  case 0
  have "(lcg_int ^^ (2 ^ 0)) x = 1103515245 * x + 12345" for x by (simp add: lcg_int_def)
  moreover have "(2::int) ^ (0 + 2) dvd 1103515245 - 1" "(2::int) ^ (0 + 1) dvd 12345 - 2 ^ 0" by simp_all
  ultimately show ?case by blast
next
  case (Suc k)
  then obtain a c where ac: "\<And>x. (lcg_int ^^ (2 ^ k)) x = a * x + c"
    "2 ^ (k + 2) dvd a - 1" "2 ^ (k + 1) dvd c - 2 ^ k" by blast
  from ac(2,3) obtain u v where u: "a = 1 + 2 ^ (k + 2) * u" and v: "c = 2 ^ k + 2 ^ (k + 1) * v"
    by (metis add.commute diff_add_cancel dvdE)
  have "(lcg_int ^^ (2 ^ Suc k)) x = (a * a) * x + (a * c + c)" for x
  proof -
    have "(lcg_int ^^ (2 ^ Suc k)) x = (lcg_int ^^ (2 ^ k)) ((lcg_int ^^ (2 ^ k)) x)"
      by (simp add: mult_2 funpow_add)
    then show ?thesis by (simp add: ac(1) algebra_simps)
  qed
  moreover have "2 ^ (Suc k + 2) dvd a * a - 1"
  proof -
    have "a * a - 1 = 2 ^ (Suc k + 2) * (u + 2 ^ (k + 1) * u * u)"
      by (simp add: u algebra_simps power_add)
    then show ?thesis by simp
  qed
  moreover have "2 ^ (Suc k + 1) dvd a * c + c - 2 ^ Suc k"
  proof -
    have "a * c + c - 2 ^ Suc k = 2 ^ (Suc k + 1) * (v + 2 ^ k * u + 2 ^ (k + 1) * u * v)"
      by (simp add: u v algebra_simps power_add)
    then show ?thesis by simp
  qed
  ultimately show ?case by blast
qed

lemma lcg_int_reaches: "\<exists>n. 2 ^ k dvd (lcg_int ^^ n) x - y"
proof (induction k)
  case 0
  show ?case by simp
next
  case (Suc k)
  then obtain n z where n: "(lcg_int ^^ n) x - y = 2 ^ k * z" by (auto elim: dvdE)
  show ?case
  proof (cases "even z")
    case True
    with n show ?thesis by (auto intro!: exI [of _ n] elim!: evenE)
  next
    case False
    then obtain w where w: "z = 2 * w + 1" by (auto elim: oddE)
    obtain a c where ac: "\<And>x. (lcg_int ^^ (2 ^ k)) x = a * x + c"
      "2 ^ (k + 2) dvd a - 1" "2 ^ (k + 1) dvd c - 2 ^ k" using lcg_int_pow [of k] by blast
    from ac(2,3) obtain u v where u: "a = 1 + 2 ^ (k + 2) * u" and v: "c = 2 ^ k + 2 ^ (k + 1) * v"
      by (metis add.commute diff_add_cancel dvdE)
    let ?x = "(lcg_int ^^ n) x"
    have "(lcg_int ^^ (2 ^ k + n)) x - y = a * ?x + c - y" by (simp add: funpow_add ac(1))
    also have "\<dots> = 2 ^ Suc k * (2 * u * ?x + v + w + 1)"
      using n by (simp add: u v w algebra_simps power_add)
    finally show ?thesis by (metis dvd_triv_left)
  qed
qed

lemma lcg_next_int: "uint ((lcg_next ^^ n) s) = ((lcg_int ^^ n) (uint s)) mod 2 ^ 64"
proof (induction n)
  case (Suc n)
  have "uint ((lcg_next ^^ Suc n) s) = (1103515245 * uint ((lcg_next ^^ n) s) + 12345) mod 2 ^ 64"
    by (simp add: lcg_next_def uint_word_ariths mod_simps mult.commute)
  also have "\<dots> = (1103515245 * (lcg_int ^^ n) (uint s) + 12345) mod 2 ^ 64"
    unfolding Suc by (metis mod_add_left_eq mod_mult_right_eq)
  finally show ?case by (simp add: lcg_int_def [of "(lcg_int ^^ n) (uint s)"])
qed (use uint_lt2p [of s] in simp)

lemma lcg_set_unat: "unat (lcg_set s) = nat (uint s div 65536 mod 2048)"
proof -
  have "uint s div 65536 mod 1048576 < 2 ^ 32" "0 \<le> uint s div 65536 mod 1048576"
    by (auto intro: order.strict_trans [OF pos_mod_bound])
  then have "uint (lcg_set s) = uint s div 65536 mod 1048576 mod 2048"
    by (simp add: lcg_set_def champsim_consts uint_mod uint_div unsigned_ucast_eq take_bit_eq_mod)
  also have "\<dots> = uint s div 65536 mod 2048" by (simp add: mod_mod_cancel)
  finally show ?thesis by (metis nat_uint_eq)
qed

lemma lcg_set_reaches:
  assumes "t < 2048"
  shows "\<exists>n. unat (lcg_set ((lcg_next ^^ n) s)) = t"
proof -
  obtain n where "2 ^ 27 dvd (lcg_int ^^ n) (uint s) - int t * 65536"
    using lcg_int_reaches [of 27 "uint s" "int t * 65536"] by blast
  then have "(lcg_int ^^ n) (uint s) mod 2 ^ 27 = int t * 65536 mod 2 ^ 27"
    by (simp add: mod_eq_dvd_iff)
  moreover have "(lcg_int ^^ n) (uint s) mod 2 ^ 64 mod 2 ^ 27 = (lcg_int ^^ n) (uint s) mod 2 ^ 27"
    by (simp add: mod_mod_cancel)
  ultimately have m: "uint ((lcg_next ^^ n) s) mod (65536 * 2048) = int t * 65536"
    using assms by (simp add: lcg_next_int)
  have "uint ((lcg_next ^^ n) s) div 65536 mod 2048 =
      uint ((lcg_next ^^ n) s) mod (65536 * 2048) div 65536"
    using zmod_zmult2_eq [of 2048 "uint ((lcg_next ^^ n) s)" 65536] by simp
  then show ?thesis using m by (intro exI [of _ n]) (simp add: lcg_set_unat)
qed

lemma draw_set_total:
  assumes "length drawn < 2048"
  shows "\<exists>s' x. draw_set s drawn = Some (s', x) \<and> x \<notin> set drawn \<and> unat x < LLC_SET"
proof -
  have "card (unat ` set drawn) < card {..<2048::nat}"
    using assms card_length [of drawn] card_image_le [of "set drawn" unat] by simp
  then obtain t where t: "t < 2048" "t \<notin> unat ` set drawn"
    by (metis card_mono finite_imageI finite_set leD lessThan_iff subsetI)
  obtain n where "unat (lcg_set ((lcg_next ^^ n) (lcg_next s))) = t"
    using lcg_set_reaches [OF t(1)] by blast
  with t(2) have "lcg_set ((lcg_next ^^ n) (lcg_next s)) \<notin> set drawn" by blast
  then show ?thesis
  proof (induction n arbitrary: s)
    case 0
    then have "draw_set s drawn = Some (lcg_next s, lcg_set (lcg_next s))"
      by (subst draw_set.simps) simp
    moreover have "unat (lcg_set (lcg_next s)) < LLC_SET"
      by (simp add: lcg_set_unat champsim_consts nat_less_iff)
    ultimately show ?case using 0 by simp
  next
    case (Suc n)
    show ?case
    proof (cases "lcg_set (lcg_next s) \<in> set drawn")
      case True
      then have "draw_set s drawn = draw_set (lcg_next s) drawn" by (subst draw_set.simps) simp
      moreover from Suc.prems have "lcg_set ((lcg_next ^^ n) (lcg_next (lcg_next s))) \<notin> set drawn"
        by (simp add: funpow_swap1)
      ultimately show ?thesis using Suc.IH by simp
    next
      case False
      then have "draw_set s drawn = Some (lcg_next s, lcg_set (lcg_next s))"
        by (subst draw_set.simps) simp
      moreover have "unat (lcg_set (lcg_next s)) < LLC_SET"
        by (simp add: lcg_set_unat champsim_consts nat_less_iff)
      ultimately show ?thesis using False by simp
    qed
  qed
qed

lemma draw_sets_total:
  assumes "length drawn + n \<le> 2048" "distinct drawn" "\<forall>x \<in> set drawn. unat x < LLC_SET"
  shows "\<exists>xs. draw_sets n s drawn = Some xs \<and> length xs = length drawn + n \<and> distinct xs \<and>
    (\<forall>x \<in> set xs. unat x < LLC_SET)"
  using assms
proof (induction n arbitrary: s drawn)
  case (Suc n)
  then obtain s' x where x: "draw_set s drawn = Some (s', x)" "x \<notin> set drawn" "unat x < LLC_SET"
    using draw_set_total [of drawn s] by auto
  with Suc.IH [of "drawn @ [x]" s'] Suc.prems show ?case by auto
qed simp

section \<open>Invariants of the policies\<close>

definition rrpv_inv :: "llc_repl \<Rightarrow> bool" where
  "rrpv_inv r \<longleftrightarrow> length (r_rrpv r) = LLC_SET \<and>
     list_all (\<lambda>row. rrip_ok row \<and> length row = LLC_WAY) (r_rrpv r)"

definition drrip_inv :: "llc_repl \<Rightarrow> bool" where
  "drrip_inv r \<longleftrightarrow> rrpv_inv r \<and> r_bip_counter r < BIP_MAX \<and>
     length (r_rand_sets r) = TOTAL_SDM_SETS \<and>
     length (r_PSEL r) = NUM_CPUS \<and> list_all (\<lambda>v. v \<le> PSEL_MAX) (r_PSEL r)"

definition shct_ok :: "u32 list \<Rightarrow> bool" where
  "shct_ok row \<longleftrightarrow> length row = SHCT_SIZE \<and> list_all (\<lambda>v. v \<le> SHCT_MAX) row"

definition sampler_ok :: "sampler_entry list \<Rightarrow> bool" where
  "sampler_ok row \<longleftrightarrow> length row = SAMPLER_WAY \<and> lru_perm (map s_lru row)"

definition ship_inv :: "llc_repl \<Rightarrow> bool" where
  "ship_inv r \<longleftrightarrow> rrpv_inv r \<and> length (r_rand_sets r) = SAMPLER_SET \<and>
     length (r_sampler r) = SAMPLER_SET \<and> list_all sampler_ok (r_sampler r) \<and>
     length (r_SHCT r) = NUM_CPUS \<and> list_all shct_ok (r_SHCT r)"

definition llc_inv :: "llc_policy \<Rightarrow> llc_repl \<Rightarrow> bool" where
  "llc_inv pol r = (case pol of LLC_LRU \<Rightarrow> True | LLC_SRRIP \<Rightarrow> rrpv_inv r
     | LLC_DRRIP \<Rightarrow> drrip_inv r | LLC_SHIP \<Rightarrow> ship_inv r)"

lemma rrip_ok_update: "rrip_ok row \<Longrightarrow> v \<le> maxRRPV \<Longrightarrow> rrip_ok (row[way := v])"
  by (auto simp: rrip_ok_def list_all_iff dest!: set_update_subset_insert [THEN subsetD])

lemma set_rrpv_total:
  assumes "rrpv_inv r" "st < LLC_SET" "way < LLC_WAY" "v \<le> maxRRPV"
  shows "\<exists>rows. set_rrpv r st way v = Some (r\<lparr>r_rrpv := rows\<rparr>) \<and> rrpv_inv (r\<lparr>r_rrpv := rows\<rparr>)"
proof -
  have len: "length (r_rrpv r) = LLC_SET" using assms(1) by (simp add: rrpv_inv_def)
  have row: "rrip_ok (r_rrpv r ! st)" "length (r_rrpv r ! st) = LLC_WAY"
    using assms(1,2) len by (auto simp: rrpv_inv_def list_all_length)
  let ?rows = "(r_rrpv r)[st := (r_rrpv r ! st)[way := v]]"
  have "set_rrpv r st way v = Some (r\<lparr>r_rrpv := ?rows\<rparr>)"
    using assms(2,3) row len by (simp add: set_rrpv_def)
  moreover have "rrpv_inv (r\<lparr>r_rrpv := ?rows\<rparr>)"
    using assms row len rrip_ok_update [OF row(1) assms(4)]
    by (auto simp: rrpv_inv_def list_all_length nth_list_update)
  ultimately show ?thesis by blast
qed

lemma rrpv_consts [simp]: "maxRRPV - 1 \<le> maxRRPV" "0 \<le> maxRRPV"
  by (simp_all add: maxRRPV_def)

lemma llc_find_victim_rrip:
  assumes "rrpv_inv r" "st < LLC_SET" "pol \<noteq> LLC_LRU"
  shows "\<exists>way rows. llc_find_victim pol r n st bs = Some (way, r\<lparr>r_rrpv := rows\<rparr>) \<and> way < LLC_WAY \<and>
    rrpv_inv (r\<lparr>r_rrpv := rows\<rparr>)"
proof -
  have len: "length (r_rrpv r) = LLC_SET" using assms(1) by (simp add: rrpv_inv_def)
  have row: "rrip_ok (r_rrpv r ! st)" "length (r_rrpv r ! st) = LLC_WAY"
    using assms(1,2) len by (auto simp: rrpv_inv_def list_all_length)
  from rrip_victim_total [OF row(1)] obtain way row' where
    w: "rrip_victim (r_rrpv r ! st) = Some (way, row')" "rrip_spec (r_rrpv r ! st) way row'" "rrip_ok row'" by blast
  then have "way < LLC_WAY" "length row' = LLC_WAY" using row by (auto simp: rrip_spec_def)
  moreover have "llc_find_victim pol r n st bs = Some (way, r\<lparr>r_rrpv := (r_rrpv r)[st := row']\<rparr>)"
    using assms(2,3) len w(1) by (cases pol) (simp_all add: llc_find_victim_def)
  moreover have "rrpv_inv (r\<lparr>r_rrpv := (r_rrpv r)[st := row']\<rparr>)"
    using assms(1,2) len w(3) \<open>length row' = LLC_WAY\<close>
    by (auto simp: rrpv_inv_def list_all_length nth_list_update)
  ultimately show ?thesis by blast
qed

lemma rrpv_inv_frame [simp]:
  "rrpv_inv (r\<lparr>r_bip_counter := b\<rparr>) = rrpv_inv r" "rrpv_inv (r\<lparr>r_PSEL := p\<rparr>) = rrpv_inv r"
  "rrpv_inv (r\<lparr>r_SHCT := c\<rparr>) = rrpv_inv r" "rrpv_inv (r\<lparr>r_sampler := m\<rparr>) = rrpv_inv r"
  by (simp_all add: rrpv_inv_def)

lemma bip_insert_total:
  assumes "drrip_inv r" "st < LLC_SET" "way < LLC_WAY"
  shows "\<exists>r'. bip_insert r st way = Some r' \<and> drrip_inv r'"
proof -
  have inv: "rrpv_inv r" using assms(1) by (simp add: drrip_inv_def)
  from set_rrpv_total [OF inv assms(2,3) order_refl] obtain rows where
    s1: "set_rrpv r st way maxRRPV = Some (r\<lparr>r_rrpv := rows\<rparr>)" "rrpv_inv (r\<lparr>r_rrpv := rows\<rparr>)" by blast
  define b where "b = (if r_bip_counter r + 1 = BIP_MAX then 0 else r_bip_counter r + 1)"
  let ?r2 = "r\<lparr>r_rrpv := rows, r_bip_counter := b\<rparr>"
  have lt: "r_bip_counter r < BIP_MAX" using assms(1) by (simp add: drrip_inv_def)
  from unat_inc [OF this] lt have b: "b < BIP_MAX"
    by (auto simp: b_def word_less_nat_alt word_unat_eq_iff BIP_MAX_def)
  have i2: "rrpv_inv ?r2" using s1(2) by simp
  from set_rrpv_total [OF i2 assms(2,3) rrpv_consts(1)] obtain rows' where
    s2: "set_rrpv ?r2 st way (maxRRPV - 1) = Some (?r2\<lparr>r_rrpv := rows'\<rparr>)" "rrpv_inv (?r2\<lparr>r_rrpv := rows'\<rparr>)" by blast
  have "bip_insert r st way = (if b = 0 then Some (?r2\<lparr>r_rrpv := rows'\<rparr>) else Some ?r2)"
    using s1(1) s2(1)
    by (cases "r_bip_counter r + 1 = BIP_MAX"; cases "r_bip_counter r + 1 = 0") (simp_all add: bip_insert_def Let_def b_def)
  moreover have "drrip_inv ?r2" "drrip_inv (?r2\<lparr>r_rrpv := rows'\<rparr>)"
    using assms(1) i2 s2(2) b by (simp_all add: drrip_inv_def)
  ultimately show ?thesis by (metis (no_types, lifting))
qed

lemma psel_update:
  assumes "drrip_inv r" "p \<le> PSEL_MAX"
  shows "drrip_inv (r\<lparr>r_PSEL := (r_PSEL r)[cpu := p]\<rparr>)"
  using assms by (auto simp: drrip_inv_def list_all_iff dest!: set_update_subset_insert [THEN subsetD])

lemma drrip_set_rrpv_total:
  assumes "drrip_inv r" "st < LLC_SET" "way < LLC_WAY" "v \<le> maxRRPV"
  shows "\<exists>r'. set_rrpv r st way v = Some r' \<and> drrip_inv r'"
  using set_rrpv_total [OF _ assms(2-4), of r] assms(1) by (auto simp: drrip_inv_def)

lemma leader_cases:
  assumes "drrip_inv r" "cpu < NUM_CPUS"
  shows "\<exists>l. is_it_leader r cpu st = Some l \<and> (l = - 1 \<or> l = 0 \<or> l = 1)"
proof -
  have "length (r_rand_sets r) = 64" using assms(1) by (simp add: drrip_inv_def champsim_consts)
  then have "is_it_leader r cpu st = Some (case first_index (\<lambda>i. r_rand_sets r ! i = of_nat st) 0 64 of
      Some i \<Rightarrow> int (i div 32) | None \<Rightarrow> - 1)"
    using assms(2) by (simp add: is_it_leader_def search_arr_eq champsim_consts Let_def split: option.split)
  then show ?thesis
    by (auto split: option.splits dest!: first_index_Some)
qed

lemma drrip_update_total:
  assumes "drrip_inv r" "cpu < NUM_CPUS" "st < LLC_SET" "way < LLC_WAY"
  shows "\<exists>r'. drrip_update r cpu st way type hit = Some r' \<and> drrip_inv r'"
proof -
  note tot = drrip_set_rrpv_total [OF _ assms(3,4)]
  have len: "length (r_PSEL r) = NUM_CPUS" using assms(1) by (simp add: drrip_inv_def)
  obtain psel where psel: "arr_get (r_PSEL r) cpu = Some psel" "psel \<le> PSEL_MAX"
    using assms(1,2) len by (auto simp: drrip_inv_def list_all_length)
  have dec: "(if psel > 0 then psel - 1 else psel) \<le> PSEL_MAX"
    using psel(2) unat_dec [of psel] by (auto simp: word_le_nat_alt)
  have inc: "(if psel < PSEL_MAX then psel + 1 else psel) \<le> PSEL_MAX"
    using psel(2) unat_inc [of psel PSEL_MAX] by (auto simp: word_le_nat_alt word_less_nat_alt)
  note d = psel_update [OF assms(1) dec, of cpu] and i = psel_update [OF assms(1) inc, of cpu]
  obtain l where l: "is_it_leader r cpu st = Some l" "l = - 1 \<or> l = 0 \<or> l = 1"
    using leader_cases [OF assms(1,2)] by blast
  from l(2) show ?thesis
    using tot [OF assms(1), of "maxRRPV - 1"] tot [OF assms(1), of 0] tot [OF i, of "maxRRPV - 1"]
      bip_insert_total [OF assms(1,3,4)] bip_insert_total [OF d assms(3,4)] l(1) psel(1)
    unfolding drrip_update_def by auto
qed

lemma srrip_update_total:
  assumes "rrpv_inv r" "st < LLC_SET" "way < LLC_WAY"
    "type = LOAD \<or> type = RFO \<or> type = PREFETCH \<or> type = WRITEBACK \<and> ip = 0"
  shows "\<exists>r'. srrip_update r st way ip type hit = Some r' \<and> rrpv_inv r'"
  using set_rrpv_total [OF assms(1-3), of "if hit then 0 else maxRRPV - 1"] assms(4)
  by (auto simp: srrip_update_def champsim_consts)

subsection \<open>SHiP\<close>

lemma sampler_touch_ok:
  assumes "length s_set = SAMPLER_WAY" "lru_perm (map s_lru s_set)" "m < SAMPLER_WAY"
  shows "\<exists>s'. sampler_touch s_set m = Some s' \<and> sampler_ok s'"
proof -
  let ?e = "s_set ! m"
  let ?s = "(map (\<lambda>s. if s_lru s < s_lru ?e then s\<lparr>s_lru := s_lru s + 1\<rparr> else s) s_set)[m := ?e\<lparr>s_lru := 0\<rparr>]"
  have "sampler_touch s_set m = Some ?s" using assms by (simp add: sampler_touch_def)
  moreover have "map s_lru ?s = lru_touch (map s_lru s_set) m"
    using assms by (auto simp: lru_touch_def map_update intro!: arg_cong [where f = "\<lambda>xs. xs[m := 0]"])
  ultimately show ?thesis
    using lru_perm_touch [OF assms(2), of m] assms(1,3) by (auto simp: sampler_ok_def)
qed

lemma SHCT_idx_less: "SHCT_idx ip < SHCT_SIZE"
proof -
  have "SHCT_idx ip < 16381"
    using mod_less_divisor [of 16381 "unat ip"] by (simp add: SHCT_idx_def SHCT_PRIME_def unat_mod)
  then show ?thesis by (simp add: SHCT_SIZE_def)
qed

lemma shct_ok_update: "shct_ok row \<Longrightarrow> c \<le> SHCT_MAX \<Longrightarrow> shct_ok (row[i := c])"
  by (auto simp: shct_ok_def list_all_iff dest!: set_update_subset_insert [THEN subsetD])

lemma shct_get:
  "shct_ok row \<Longrightarrow> arr_get row (SHCT_idx ip) = Some (row ! SHCT_idx ip) \<and> row ! SHCT_idx ip \<le> SHCT_MAX"
  using SHCT_idx_less [of ip] by (simp add: shct_ok_def list_all_length)

lemma map_s_lru_update: "s_lru e = s_lru (s_set ! m) \<Longrightarrow> map s_lru (s_set[m := e]) = map s_lru s_set"
  by (metis list_update_id map_update)

lemma update_sampler_total:
  assumes sh: "shct_ok shct" and sa: "sampler_ok s_set"
  shows "\<exists>shct' s'. update_sampler shct s_set address ip type = Some (shct', s') \<and> shct_ok shct' \<and> sampler_ok s'"
proof -
  have len: "length s_set = SAMPLER_WAY" "SAMPLER_WAY = 16"
    using sa by (simp_all add: sampler_ok_def champsim_consts)
  have perm: "lru_perm (map s_lru s_set)" using sa by (simp add: sampler_ok_def)
  let ?tag = "address div of_nat (64 * LLC_SET)"
  define hit where "hit = first_index (\<lambda>i. s_valid (s_set ! i) \<noteq> 0 \<and> s_tag (s_set ! i) = ?tag) 0 SAMPLER_WAY"
  define free where "free = first_index (\<lambda>i. s_valid (s_set ! i) = 0) 0 SAMPLER_WAY"
  define old where "old = first_index (\<lambda>i. s_lru (s_set ! i) = of_nat (SAMPLER_WAY - 1)) 0 SAMPLER_WAY"
  have hits: "search_arr (\<lambda>s. s_valid s \<noteq> 0 \<and> s_tag s = ?tag) s_set 0 SAMPLER_WAY = Some hit"
    "search_arr (\<lambda>s. s_valid s = 0) s_set 0 SAMPLER_WAY = Some free"
    "search_arr (\<lambda>s. s_lru s = of_nat (SAMPLER_WAY - 1)) s_set 0 SAMPLER_WAY = Some old"
    using len by (simp_all add: search_arr_eq hit_def free_def old_def)
  have touch: "\<exists>s'. sampler_touch (s_set[m := e]) m = Some s' \<and> sampler_ok s'"
    if "m < SAMPLER_WAY" "s_lru e = s_lru (s_set ! m)" for m e
    using sampler_touch_ok [of "s_set[m := e]" m] map_s_lru_update [OF that(2)] perm len that by simp
  have dec: "shct_ok (if c > 0 then shct[SHCT_idx i := c - 1] else shct)" if "c \<le> SHCT_MAX" for c i
    using that sh unat_dec [of c] by (auto intro!: shct_ok_update simp: word_le_nat_alt word_gt_0)
  have inc: "shct_ok (if c < SHCT_MAX then shct[SHCT_idx i := c + 1] else shct)" for c i
    using sh unat_inc [of c SHCT_MAX] by (auto intro!: shct_ok_update simp: word_le_nat_alt word_less_nat_alt)
  show ?thesis
  proof (cases hit)
    case (Some m)
    then have m: "m < SAMPLER_WAY" by (auto simp: hit_def dest!: first_index_Some)
    obtain s' where s': "sampler_touch (s_set[m := (s_set ! m)\<lparr>s_type := type, s_used := 1\<rparr>]) m = Some s'"
      "sampler_ok s'" using touch [OF m] by (metis sampler_entry.select_convs(7) sampler_entry.surjective
        sampler_entry.update_convs(2,3))
    show ?thesis
      unfolding update_sampler_def Let_def hits Some
      using s' m len shct_get [OF sh] dec by simp
  next
    case None
    show ?thesis
    proof (cases free)
      case (Some m)
      then have m: "m < SAMPLER_WAY" by (auto simp: free_def dest!: first_index_Some)
      have "\<exists>s'. sampler_touch (s_set[m := (s_set ! m)\<lparr>s_valid := 1, s_tag := ?tag, s_ip := ip, s_type := type, s_used := 0\<rparr>]) m = Some s'
        \<and> sampler_ok s'" by (rule touch [OF m]) simp
      then show ?thesis
        unfolding update_sampler_def Let_def hits None Some using m len sh by auto
    next
      case free: None
      have w15: "(of_nat (SAMPLER_WAY - 1) :: u32) = 15" by (simp add: champsim_consts)
      obtain i where i: "i < SAMPLER_WAY" "unat (map s_lru s_set ! i) = 15"
        using lru_perm_surj [OF perm, of 15] len by auto
      then have "unat (s_lru (s_set ! i)) = unat (15 :: u32)" using len(1) by simp
      then have "s_lru (s_set ! i) = of_nat (SAMPLER_WAY - 1)" unfolding w15 by (simp only: word_unat_eq_iff)
      then obtain m where Some: "old = Some m"
        using i(1) first_index_ex [of 0 i SAMPLER_WAY "\<lambda>i. s_lru (s_set ! i) = of_nat (SAMPLER_WAY - 1)"]
        by (auto simp: old_def)
      then have m: "m < SAMPLER_WAY" by (auto simp: old_def dest!: first_index_Some)
      have "\<exists>s'. sampler_touch (s_set[m := (s_set ! m)\<lparr>s_tag := ?tag, s_ip := ip, s_type := type, s_used := 0\<rparr>]) m = Some s'
        \<and> sampler_ok s'" by (rule touch [OF m]) simp
      then show ?thesis
        unfolding update_sampler_def Let_def hits None free Some
        using m len sh shct_get [OF sh] inc [of "shct ! SHCT_idx (s_ip (s_set ! m))" "s_ip (s_set ! m)"]
        by auto
    qed
  qed
qed

lemma ship_set_rrpv_total:
  assumes "ship_inv r" "st < LLC_SET" "way < LLC_WAY" "v \<le> maxRRPV"
  shows "\<exists>r'. set_rrpv r st way v = Some r' \<and> ship_inv r'"
  using set_rrpv_total [OF _ assms(2-4), of r] assms(1) by (auto simp: ship_inv_def)

lemma is_it_sampled_total:
  "length (r_rand_sets r) = SAMPLER_SET \<Longrightarrow> \<exists>i. is_it_sampled r st = Some i"
  by (simp add: is_it_sampled_def search_arr_eq)

lemma ship_sample_total:
  assumes "ship_inv r" "cpu < NUM_CPUS" "s_idx < SAMPLER_SET"
  shows "\<exists>shct' s'. update_sampler (r_SHCT r ! cpu) (r_sampler r ! s_idx) full_addr ip type = Some (shct', s') \<and>
    ship_inv (r\<lparr>r_SHCT := (r_SHCT r)[cpu := shct'], r_sampler := (r_sampler r)[s_idx := s']\<rparr>)"
proof -
  have "shct_ok (r_SHCT r ! cpu)" "sampler_ok (r_sampler r ! s_idx)"
    using assms by (auto simp: ship_inv_def list_all_length)
  from update_sampler_total [OF this] obtain shct' s' where
    u: "update_sampler (r_SHCT r ! cpu) (r_sampler r ! s_idx) full_addr ip type = Some (shct', s')"
      "shct_ok shct'" "sampler_ok s'" by blast
  have "ship_inv (r\<lparr>r_SHCT := (r_SHCT r)[cpu := shct'], r_sampler := (r_sampler r)[s_idx := s']\<rparr>)"
    using assms(1) u(2,3)
    by (auto simp: ship_inv_def list_all_iff dest!: set_update_subset_insert [THEN subsetD])
  with u(1) show ?thesis by blast
qed

lemma ship_update_total:
  assumes inv: "ship_inv r" and b: "cpu < NUM_CPUS" "st < LLC_SET" "way < LLC_WAY"
    and t: "type = LOAD \<or> type = RFO \<or> type = PREFETCH \<or> type = WRITEBACK \<and> ip = 0"
  shows "\<exists>r'. ship_update r cpu st way full_addr ip type hit = Some r' \<and> ship_inv r'"
proof (cases "type = WRITEBACK")
  case True
  with t ship_set_rrpv_total [OF inv b(2,3), of "maxRRPV - 1"] inv show ?thesis
    by (auto simp: ship_update_def champsim_consts)
next
  case False
  have len: "length (r_rand_sets r) = SAMPLER_SET" "length (r_SHCT r) = NUM_CPUS" "length (r_sampler r) = SAMPLER_SET"
    using inv by (simp_all add: ship_inv_def)
  obtain s_idx where s: "is_it_sampled r st = Some s_idx" using is_it_sampled_total [OF len(1)] by blast
  define r1 where "r1 = (if s_idx < SAMPLER_SET then
      (case update_sampler (r_SHCT r ! cpu) (r_sampler r ! s_idx) full_addr ip type of
         Some (shct', s_set') \<Rightarrow> r\<lparr>r_SHCT := (r_SHCT r)[cpu := shct'], r_sampler := (r_sampler r)[s_idx := s_set']\<rparr>
       | None \<Rightarrow> r) else r)"
  have inv1: "ship_inv r1"
    using ship_sample_total [OF inv b(1), of s_idx full_addr ip type] inv by (auto simp: r1_def)
  have sh: "shct_ok (r_SHCT r1 ! cpu)" "length (r_SHCT r1) = NUM_CPUS"
    using inv1 b(1) by (auto simp: ship_inv_def list_all_length)
  have "ship_update r cpu st way full_addr ip type hit =
      set_rrpv r1 st way (if hit then 0 else if r_SHCT r1 ! cpu ! SHCT_idx ip = SHCT_MAX then maxRRPV else maxRRPV - 1)"
    using t False s len b(1) sh shct_get [OF sh(1)] ship_sample_total [OF inv b(1), of s_idx full_addr ip type]
    by (auto simp: ship_update_def r1_def)
  then show ?thesis
    using ship_set_rrpv_total [OF inv1 b(2,3), of "if hit then 0 else if r_SHCT r1 ! cpu ! SHCT_idx ip = SHCT_MAX then maxRRPV else maxRRPV - 1"]
    by simp
qed

section \<open>The replacement contract\<close>

text \<open>
  What a cache relies on: in a state that satisfies the invariant a victim is found and an
  update succeeds, and both keep the invariant.
\<close>

datatype 'c repl_event = Repl_fill 'c nat | Repl_hit 'c nat nat

fun repl_event_ok :: "('c \<Rightarrow> bool) \<Rightarrow> nat \<Rightarrow> nat \<Rightarrow> 'c repl_event \<Rightarrow> bool" where
  "repl_event_ok ok sets ways (Repl_fill c st) = (ok c \<and> st < sets)"
| "repl_event_ok ok sets ways (Repl_hit c st way) = (ok c \<and> st < sets \<and> way < ways)"

fun repl_step :: "('s \<Rightarrow> nat \<Rightarrow> (nat \<times> 's) option) \<Rightarrow> ('s \<Rightarrow> 'c \<Rightarrow> nat \<Rightarrow> nat \<Rightarrow> bool \<Rightarrow> 's option) \<Rightarrow>
    's \<Rightarrow> 'c repl_event \<Rightarrow> 's option" where
  "repl_step victim update s (Repl_fill c st) = do {
     (way, s') \<leftarrow> victim s st; update s' c st way False }"
| "repl_step victim update s (Repl_hit c st way) = update s c st way True"

locale replacement =
  fixes victim :: "'s \<Rightarrow> nat \<Rightarrow> (nat \<times> 's) option"
    and update :: "'s \<Rightarrow> 'c \<Rightarrow> nat \<Rightarrow> nat \<Rightarrow> bool \<Rightarrow> 's option"
    and sets :: nat and ways :: nat and ok :: "'c \<Rightarrow> bool" and inv :: "'s \<Rightarrow> bool"
  assumes victim_total: "inv s \<Longrightarrow> st < sets \<Longrightarrow>
      \<exists>way s'. victim s st = Some (way, s') \<and> way < ways \<and> inv s'"
    and update_total: "inv s \<Longrightarrow> ok c \<Longrightarrow> st < sets \<Longrightarrow> way < ways \<Longrightarrow>
      \<exists>s'. update s c st way hit = Some s' \<and> inv s'"
begin

lemma step_total:
  "inv s \<Longrightarrow> repl_event_ok ok sets ways e \<Longrightarrow> \<exists>s'. repl_step victim update s e = Some s' \<and> inv s'"
proof (cases e)
  case (Repl_fill c st)
  assume "inv s" "repl_event_ok ok sets ways e"
  moreover from this Repl_fill obtain way s1 where
    "victim s st = Some (way, s1)" "way < ways" "inv s1" using victim_total [of s st] by auto
  ultimately show ?thesis using Repl_fill update_total [of s1 c st way False] by auto
qed (use update_total in auto)

lemma run_total:
  "inv s \<Longrightarrow> list_all (repl_event_ok ok sets ways) es \<Longrightarrow>
     \<exists>s'. fold_opt (repl_step victim update) s es = Some s' \<and> inv s'"
proof (induction es arbitrary: s)
  case (Cons e es)
  then obtain s1 where "repl_step victim update s e = Some s1" "inv s1"
    using step_total [of s e] by auto
  with Cons show ?case by simp
qed simp

end

text \<open>
  The dispatch that \<open>src/cache.cc\<close> repeats at each use: the LLC calls the \<open>llc_\<close> functions,
  every other cache the base policy.  The context of an access is the core, the full
  address, the instruction pointer and the access type.
\<close>

type_synonym repl_state = "llc_repl \<times> block list list"
type_synonym repl_ctx = "nat \<times> u64 \<times> u64 \<times> u8"

definition repl_victim :: "bool \<Rightarrow> llc_policy \<Rightarrow> u32 \<Rightarrow> repl_state \<Rightarrow> nat \<Rightarrow> (nat \<times> repl_state) option" where
  "repl_victim is_llc pol NUM_WAY s st = do {
     bs \<leftarrow> arr_get (snd s) st;
     if is_llc then do {
       (way, r') \<leftarrow> llc_find_victim pol (fst s) NUM_WAY st bs;
       Some (way, (r', snd s)) }
     else do { way \<leftarrow> find_victim NUM_WAY bs; Some (way, s) } }"

definition repl_update :: "bool \<Rightarrow> llc_policy \<Rightarrow> u32 \<Rightarrow> repl_state \<Rightarrow> repl_ctx \<Rightarrow> nat \<Rightarrow> nat \<Rightarrow> bool \<Rightarrow> repl_state option" where
  "repl_update is_llc pol NUM_WAY s c st way hit = (case c of (cpu, full_addr, ip, type) \<Rightarrow> do {
     bs \<leftarrow> arr_get (snd s) st;
     (r', bs') \<leftarrow> (if is_llc
       then llc_update_replacement_state pol (fst s) NUM_WAY bs cpu st way full_addr ip type hit
       else do { bs' \<leftarrow> update_replacement_state NUM_WAY bs way type hit; Some (fst s, bs') });
     Some (r', (snd s)[st := bs']) })"

definition repl_ctx_ok :: "repl_ctx \<Rightarrow> bool" where
  "repl_ctx_ok c = (case c of (cpu, full_addr, ip, type) \<Rightarrow> cpu < NUM_CPUS \<and>
     (type = LOAD \<or> type = RFO \<or> type = PREFETCH \<or> type = WRITEBACK \<and> ip = 0))"

definition repl_inv :: "bool \<Rightarrow> llc_policy \<Rightarrow> nat \<Rightarrow> u32 \<Rightarrow> repl_state \<Rightarrow> bool" where
  "repl_inv is_llc pol sets NUM_WAY s \<longleftrightarrow> length (snd s) = sets \<and> NUM_WAY \<noteq> 0 \<and>
     list_all (\<lambda>bs. length bs = unat NUM_WAY \<and> lru_perm (lrus bs)) (snd s) \<and>
     (is_llc \<longrightarrow> llc_inv pol (fst s) \<and> sets = LLC_SET \<and> unat NUM_WAY = LLC_WAY)"

lemma repl_inv_set:
  "repl_inv is_llc pol sets n s \<Longrightarrow> st < sets \<Longrightarrow>
     length (snd s ! st) = unat n \<and> lru_perm (lrus (snd s ! st)) \<and> st < length (snd s)"
  by (auto simp: repl_inv_def list_all_length)

lemma repl_inv_update:
  assumes "repl_inv is_llc pol sets n s" "length bs = unat n" "lru_perm (lrus bs)"
    "is_llc \<longrightarrow> llc_inv pol r"
  shows "repl_inv is_llc pol sets n (r, (snd s)[st := bs])"
  using assms unfolding repl_inv_def
  by (auto simp: list_all_iff dest!: set_update_subset_insert [THEN subsetD])

lemma repl_victim_total:
  assumes inv: "repl_inv is_llc pol sets n s" and st: "st < sets"
  shows "\<exists>way s'. repl_victim is_llc pol n s st = Some (way, s') \<and> way < unat n \<and>
    repl_inv is_llc pol sets n s' \<and> snd s' = snd s"
proof -
  note row = repl_inv_set [OF inv st]
  have n0: "n \<noteq> 0" using inv by (simp add: repl_inv_def)
  obtain way where way: "lru_victim n (snd s ! st) = Some way" "way < unat n"
    using lru_victim_total [of "snd s ! st" n] row n0 by auto
  show ?thesis
  proof (cases "is_llc \<and> pol \<noteq> LLC_LRU")
    case True
    then have llc: "rrpv_inv (fst s)" "llc_inv pol (fst s)" "st < LLC_SET" "unat n = LLC_WAY"
      using inv st by (cases pol; auto simp: repl_inv_def llc_inv_def drrip_inv_def ship_inv_def)+
    from llc_find_victim_rrip [OF llc(1,3)] True obtain way rows where
      v: "llc_find_victim pol (fst s) n st (snd s ! st) = Some (way, (fst s)\<lparr>r_rrpv := rows\<rparr>)" "way < LLC_WAY"
        "rrpv_inv ((fst s)\<lparr>r_rrpv := rows\<rparr>)" by blast
    have "llc_inv pol ((fst s)\<lparr>r_rrpv := rows\<rparr>)"
      using llc(2) v(3) by (cases pol) (auto simp: llc_inv_def drrip_inv_def ship_inv_def)
    then have "repl_inv is_llc pol sets n ((fst s)\<lparr>r_rrpv := rows\<rparr>, snd s)"
      using inv by (simp add: repl_inv_def)
    then show ?thesis using True row v llc(4) by (simp add: repl_victim_def)
  next
    case False
    then show ?thesis
      using way row inv by (cases is_llc) (auto simp: repl_victim_def find_victim_def llc_find_victim_def)
  qed
qed

lemma repl_update_total:
  assumes inv: "repl_inv is_llc pol sets n s" and ok: "repl_ctx_ok c" and st: "st < sets" "way < unat n"
  shows "\<exists>s'. repl_update is_llc pol n s c st way hit = Some s' \<and> repl_inv is_llc pol sets n s'"
proof -
  obtain cpu full_addr ip type where c: "c = (cpu, full_addr, ip, type)" by (cases c)
  have t: "cpu < NUM_CPUS" "type = LOAD \<or> type = RFO \<or> type = PREFETCH \<or> type = WRITEBACK \<and> ip = 0"
    using ok by (auto simp: repl_ctx_ok_def c)
  note row = repl_inv_set [OF inv st(1)]
  obtain bs' where bs': "lru_update n (snd s ! st) way = Some bs'" "length bs' = unat n" "lru_perm (lrus bs')"
    using lru_update_perm [of "snd s ! st" n way] row st(2) by auto
  have llc: "is_llc \<Longrightarrow> llc_inv pol (fst s)" "is_llc \<Longrightarrow> st < LLC_SET" "is_llc \<Longrightarrow> way < LLC_WAY"
    using inv st by (auto simp: repl_inv_def)
  let ?g = "if is_llc
       then llc_update_replacement_state pol (fst s) n (snd s ! st) cpu st way full_addr ip type hit
       else do { bs' \<leftarrow> update_replacement_state n (snd s ! st) way type hit; Some (fst s, bs') }"
  have "\<exists>r b. ?g = Some (r, b) \<and> length b = unat n \<and> lru_perm (lrus b) \<and> (is_llc \<longrightarrow> llc_inv pol r)"
  proof (cases is_llc)
    case False
    then show ?thesis using row bs' by (simp add: update_replacement_state_def)
  next
    case True
    note llc = llc [OF True]
    show ?thesis
    proof (cases pol)
      case LLC_LRU
      then show ?thesis using True t row bs' llc
        by (auto simp: llc_update_replacement_state_def champsim_consts llc_inv_def)
    next
      case LLC_SRRIP
      then show ?thesis
        using True row llc srrip_update_total [OF _ llc(2,3) t(2), of "fst s" hit]
        by (auto simp: llc_update_replacement_state_def llc_inv_def)
    next
      case LLC_DRRIP
      then show ?thesis
        using True row llc drrip_update_total [OF _ t(1) llc(2,3), of "fst s" type hit]
        by (auto simp: llc_update_replacement_state_def llc_inv_def)
    next
      case LLC_SHIP
      then show ?thesis
        using True row llc ship_update_total [OF _ t(1) llc(2,3) t(2), of "fst s" full_addr hit]
        by (auto simp: llc_update_replacement_state_def llc_inv_def)
    qed
  qed
  then obtain r b where "?g = Some (r, b)" "length b = unat n" "lru_perm (lrus b)" "is_llc \<longrightarrow> llc_inv pol r"
    by blast
  with repl_inv_update [OF inv, of b r st] row show ?thesis
    by (simp add: repl_update_def c)
qed

interpretation rp: replacement "repl_victim is_llc pol n" "repl_update is_llc pol n" sets "unat n"
    repl_ctx_ok "repl_inv is_llc pol sets n" for is_llc pol sets n
  by unfold_locales (use repl_victim_total repl_update_total in \<open>blast+\<close>)

section \<open>Properties\<close>

text \<open>
  C18. The LRU policy is move-to-front: if \<open>ws\<close> lists the ways of a set from the most to the
  least recently used, then after \<open>lru_update\<close> of a way the list is that way followed by
  the others in their old order; nothing but the \<open>lru\<close> members changes.
\<close>

theorem lru_update_moves_to_front:
  assumes "recency (lrus bs) ws" and "length bs = unat NUM_WAY" and "way < length bs"
  shows "\<exists>bs'. lru_update NUM_WAY bs way = Some bs' \<and> recency (lrus bs') (way # remove1 way ws) \<and>
    length bs' = length bs \<and> (\<forall>j < length bs. \<exists>l. bs' ! j = (bs ! j)\<lparr>b_lru := l\<rparr>)"
  using lru_update_correct [OF assms(2,3)] recency_touch [OF assms(1), of way] assms(3) by auto

definition two_blocks :: "block list" where
  "two_blocks = [block_new\<lparr>b_valid := 1, b_lru := 1\<rparr>, block_new\<lparr>b_valid := 1\<rparr>]"

lemma two_blocks_recency: "recency (lrus two_blocks) [1, 0]" "length two_blocks = 2"
  by (auto simp: recency_def two_blocks_def block_new_def less_Suc_eq numeral_2_eq_2 nth_Cons split: nat.splits)

lemma lru_update_moves_to_front_witness:
  "\<exists>bs'. lru_update 2 two_blocks 0 = Some bs' \<and> recency (lrus bs') [0, 1]"
  using lru_update_moves_to_front [OF two_blocks_recency(1), of 2 0] two_blocks_recency(2) by auto

text \<open>
  The LRU victim: in a set whose recency list is \<open>ws\<close> the policy never fails; it returns
  an invalid way when there is one and the least recently used way otherwise.
\<close>

theorem lru_victim_least_recent:
  assumes "recency (lrus bs) ws" and "length bs = unat NUM_WAY" and "NUM_WAY \<noteq> 0"
  shows "\<exists>way. lru_victim NUM_WAY bs = Some way \<and> way < length bs \<and>
    (if list_all (\<lambda>b. b_valid b \<noteq> 0) bs then way = last ws else b_valid (bs ! way) = 0)"
proof -
  obtain way where w: "lru_victim NUM_WAY bs = Some way" "way < length bs"
    "b_valid (bs ! way) = 0 \<or> list_all (\<lambda>b. b_valid b \<noteq> 0) bs \<and> unat (b_lru (bs ! way)) = length bs - 1"
    using lru_victim_total [OF recency_perm [OF assms(1)] assms(2,3)] by auto
  have "way = last ws" if "list_all (\<lambda>b. b_valid b \<noteq> 0) bs"
  proof -
    have "unat (lrus bs ! way) = length ws - 1"
      using w that assms(1) by (auto simp: list_all_length recency_def)
    moreover have "ws \<noteq> []" using assms(1) w(2) by (auto simp: recency_def)
    ultimately show ?thesis using recency_pos [OF assms(1), of way] w(2) by (auto simp: last_conv_nth)
  qed
  with w show ?thesis by auto
qed

lemma lru_victim_least_recent_witness:
  "\<exists>way. lru_victim 2 two_blocks = Some way \<and> way < 2 \<and>
    (if list_all (\<lambda>b. b_valid b \<noteq> 0) two_blocks then way = 0 else b_valid (two_blocks ! way) = 0)"
  using lru_victim_least_recent [OF two_blocks_recency(1), of 2] two_blocks_recency(2)
  by (simp cong: if_cong)

text \<open>
  C19. The RRIP victim search ends: on a row of counters that are at most \<open>maxRRPV\<close> the
  unbounded loop of \<open>llc_find_victim\<close> returns the first way with the largest counter, after
  ageing every counter by the distance of that counter from \<open>maxRRPV\<close>, and no counter
  exceeds \<open>maxRRPV\<close>.
\<close>

theorem rrip_victim_terminates:
  assumes "rrip_ok row"
  shows "\<exists>way row'. rrip_victim row = Some (way, row') \<and> rrip_spec row way row' \<and> rrip_ok row'"
  using assms by (rule rrip_victim_total)

lemma rrip_victim_terminates_witness:
  "\<exists>way row'. rrip_victim [1, 2, 2] = Some (way, row') \<and> rrip_spec [1, 2, 2] way row' \<and> rrip_ok row'"
  using rrip_victim_terminates [of "[1, 2, 2]"] by (simp add: rrip_ok_def maxRRPV_def)

text \<open>
  The initialisation of the sampling policies ends and establishes the invariant: the
  generator reaches every set from every seed, so redrawing cannot go on for ever, and the
  sampled sets are pairwise different sets of the LLC.
\<close>

theorem llc_initialize_total:
  "\<exists>r. llc_initialize_replacement pol = Some r \<and> llc_inv pol r \<and> distinct (r_rand_sets r) \<and>
    list_all (\<lambda>s. unat s < LLC_SET) (r_rand_sets r)"
proof -
  have rows: "list_all (\<lambda>row. rrip_ok row \<and> length row = LLC_WAY) rrpv_init" "length rrpv_init = LLC_SET"
    by (auto simp: rrpv_init_def list_all_length rrip_ok_def champsim_consts)
  have "lru_perm (map (of_nat :: nat \<Rightarrow> u32) [0..<16])" by code_simp
  then have "sampler_ok (map (\<lambda>j. sampler_entry_new\<lparr>s_lru := of_nat j\<rparr>) [0..<SAMPLER_WAY])"
    by (simp add: sampler_ok_def comp_def champsim_consts)
  then have samp: "list_all sampler_ok sampler_init" "length sampler_init = SAMPLER_SET"
    by (simp_all add: sampler_init_def list_all_length)
  have "shct_ok (replicate SHCT_SIZE 0)" by (simp add: shct_ok_def list_all_length)
  then have sh: "list_all shct_ok (replicate NUM_CPUS (replicate SHCT_SIZE 0))" by (simp add: list_all_length)
  note draw = draw_sets_total [of "[]" _ 1, simplified]
  have d: "\<exists>xs. draw_sets n 1 [] = Some xs \<and> length xs = n \<and> distinct xs \<and> (\<forall>x\<in>set xs. unat x < LLC_SET)"
    if "n \<le> 2048" for n using draw [OF that] .
  show ?thesis
    using d [of TOTAL_SDM_SETS] d [of SAMPLER_SET] rows samp sh
    by (cases pol) (auto simp: llc_initialize_replacement_def llc_inv_def rrpv_inv_def drrip_inv_def
        ship_inv_def list_all_iff champsim_consts)
qed

text \<open>
  C17. No sequence of fills and hits, at any sets and ways of a cache and under any of the
  policies, trips an assertion, leaves an array or runs for ever; the recency permutations,
  prediction counters, duelling counters and sampler stay in their ranges throughout.
\<close>

theorem replacement_never_fails:
  assumes "repl_inv is_llc pol sets NUM_WAY s"
    and "list_all (repl_event_ok repl_ctx_ok sets (unat NUM_WAY)) events"
  shows "\<exists>s'. fold_opt (repl_step (repl_victim is_llc pol NUM_WAY) (repl_update is_llc pol NUM_WAY)) s events = Some s' \<and>
    repl_inv is_llc pol sets NUM_WAY s'"
  using assms by (rule rp.run_total)

definition repl_small :: repl_state where
  "repl_small = (\<lparr>r_rrpv = [], r_bip_counter = 0, r_PSEL = [], r_rand_sets = [], r_sampler = [], r_SHCT = []\<rparr>, [two_blocks])"

lemma replacement_never_fails_witness:
  "\<exists>s'. fold_opt (repl_step (repl_victim False LLC_LRU 2) (repl_update False LLC_LRU 2)) repl_small
      [Repl_hit (0, 64, 9, LOAD) 0 1, Repl_fill (0, 128, 9, RFO) 0] = Some s' \<and>
    repl_inv False LLC_LRU 1 2 s'"
proof (rule replacement_never_fails)
  show "repl_inv False LLC_LRU 1 2 repl_small"
    using recency_perm [OF two_blocks_recency(1)] two_blocks_recency(2)
    by (simp add: repl_inv_def repl_small_def)
qed (simp add: repl_ctx_ok_def NUM_CPUS_def)

end
