(* ===== verification/Event_Table.thy ===== *)
theory Event_Table
  imports Packet_Queue
begin

text \<open>
  A \<open>PACKET_QUEUE\<close> used as a table, as the miss status registers of a cache and the request
  queues of a memory controller are: an entry is free when its address is 0, entries are
  added at the first free index and removed at any index, and the code keeps the earliest
  pending event of the table in the \<open>next_\<close> members.

  \<open>table_inv\<close> is the invariant of such a table; \<open>min_event\<close> is the loop that looks for the
  earliest event, and \<open>earliest\<close> its specification.
\<close>

section \<open>Tables\<close>

definition used :: "packet_queue \<Rightarrow> nat set" where
  "used q = {i. i < length (q_entry q) \<and> p_address (q_entry q ! i) \<noteq> 0}"

definition table_inv :: "packet_queue \<Rightarrow> bool" where
  "table_inv q \<longleftrightarrow> length (q_entry q) = unat (q_size q) \<and> unat (q_occupancy q) = card (used q) \<and>
     inj_on (\<lambda>i. p_address (q_entry q ! i)) (used q)"

definition addresses :: "packet_queue \<Rightarrow> u64 set" where
  "addresses q = (\<lambda>i. p_address (q_entry q ! i)) ` used q"

lemma finite_used [simp]: "finite (used q)"
  by (simp add: used_def)

lemma used_bound: "i \<in> used q \<Longrightarrow> i < length (q_entry q)"
  by (simp add: used_def)

lemma card_used: "card (used q) \<le> length (q_entry q)"
proof -
  have "used q \<subseteq> {..<length (q_entry q)}" by (auto simp: used_def)
  then show ?thesis using card_mono [of "{..<length (q_entry q)}" "used q"] by simp
qed

lemma table_free:
  assumes "table_inv q" "q_occupancy q < q_size q"
  shows "\<exists>i < length (q_entry q). p_address (q_entry q ! i) = 0"
proof (rule ccontr)
  assume "\<not> ?thesis"
  then have "used q = {..<length (q_entry q)}" by (auto simp: used_def)
  with assms show False by (simp add: table_inv_def word_less_nat_alt)
qed

lemma used_add:
  "i < length (q_entry q) \<Longrightarrow> p_address e \<noteq> 0 \<Longrightarrow>
     used (q\<lparr>q_entry := (q_entry q)[i := e], q_occupancy := n\<rparr>) = insert i (used q)"
  by (auto simp: used_def nth_list_update)

lemma table_add:
  assumes inv: "table_inv q" and i: "i < length (q_entry q)" "p_address (q_entry q ! i) = 0"
    and e: "p_address e \<noteq> 0" "p_address e \<notin> addresses q"
  shows "table_inv (q\<lparr>q_entry := (q_entry q)[i := e], q_occupancy := q_occupancy q + 1\<rparr>)"
    and "addresses (q\<lparr>q_entry := (q_entry q)[i := e], q_occupancy := q_occupancy q + 1\<rparr>) =
      insert (p_address e) (addresses q)"
    and "unat (q_occupancy q + 1) = unat (q_occupancy q) + 1"
proof -
  let ?q = "q\<lparr>q_entry := (q_entry q)[i := e], q_occupancy := q_occupancy q + 1\<rparr>"
  have new: "i \<notin> used q" using i by (simp add: used_def)
  note u = used_add [OF i(1) e(1), of "q_occupancy q + 1"]
  have "card (insert i (used q)) \<le> length (q_entry q)" using card_used [of ?q] by (simp add: u)
  then have lt: "q_occupancy q < q_size q"
    using new inv by (simp add: table_inv_def word_less_nat_alt)
  then show o: "unat (q_occupancy q + 1) = unat (q_occupancy q) + 1" by (rule unat_inc)
  have other: "p_address (q_entry ?q ! j) = p_address (q_entry q ! j)" if "j \<in> used q" for j
    using that new by (cases "i = j") auto
  have self: "p_address (q_entry ?q ! i) = p_address e" using i by simp
  show adr: "addresses ?q = insert (p_address e) (addresses q)"
    unfolding addresses_def u image_insert self using other by (auto intro!: image_cong)
  have "inj_on (\<lambda>j. p_address (q_entry ?q ! j)) (used q)"
    using inv other by (auto simp: table_inv_def inj_on_def)
  moreover have "p_address e \<notin> (\<lambda>j. p_address (q_entry ?q ! j)) ` used q"
    using e(2) other by (auto simp: addresses_def)
  ultimately have "inj_on (\<lambda>j. p_address (q_entry ?q ! j)) (insert i (used q))"
    using self new by (simp add: inj_on_insert)
  then show "table_inv ?q"
    using inv o new by (simp add: table_inv_def u)
qed

lemma used_replace:
  "i < length (q_entry q) \<Longrightarrow> p_address e = p_address (q_entry q ! i) \<Longrightarrow>
     used (q\<lparr>q_entry := (q_entry q)[i := e]\<rparr>) = used q"
  by (auto simp: used_def nth_list_update)

lemma address_replace:
  "p_address e = p_address (q_entry q ! i) \<Longrightarrow>
     p_address ((q_entry q)[i := e] ! j) = p_address (q_entry q ! j)"
  by (cases "i = j"; cases "i < length (q_entry q)") (auto simp: list_update_beyond)

lemma table_replace:
  assumes "table_inv q" "i < length (q_entry q)" "p_address e = p_address (q_entry q ! i)"
  shows "table_inv (q\<lparr>q_entry := (q_entry q)[i := e]\<rparr>)"
    and "addresses (q\<lparr>q_entry := (q_entry q)[i := e]\<rparr>) = addresses q"
  using assms by (simp_all add: table_inv_def addresses_def used_replace address_replace)

lemma table_remove:
  assumes inv: "table_inv q" and i: "i \<in> used q"
  shows "\<exists>q'. remove_queue q i = Some q' \<and> table_inv q' \<and> addresses q' = addresses q - {p_address (q_entry q ! i)} \<and>
    q_entry q' = (q_entry q)[i := packet_new] \<and> q_size q' = q_size q \<and>
    unat (q_occupancy q') + 1 = unat (q_occupancy q)"
proof -
  have il: "i < length (q_entry q)" using i by (rule used_bound)
  have pos: "0 < unat (q_occupancy q)"
    using inv i by (auto simp: table_inv_def card_gt_0_iff)
  then have nz: "q_occupancy q \<noteq> 0" by auto
  let ?q = "q\<lparr>q_entry := (q_entry q)[i := packet_new], q_occupancy := q_occupancy q - 1,
    q_head := (if q_head q + 1 \<ge> q_size q then 0 else q_head q + 1)\<rparr>"
  have rem: "remove_queue q i = Some ?q" using il nz by (simp add: remove_queue_def)
  have u: "used ?q = used q - {i}" using il by (auto simp: used_def nth_list_update packet_new_def)
  have other: "p_address (q_entry ?q ! j) = p_address (q_entry q ! j)" if "j \<in> used q - {i}" for j
    using that by auto
  have o: "unat (q_occupancy ?q) + 1 = unat (q_occupancy q)" using nz pos by (simp add: unat_dec)
  have inj: "inj_on (\<lambda>j. p_address (q_entry q ! j)) (used q)" using inv by (simp add: table_inv_def)
  have "inj_on (\<lambda>j. p_address (q_entry ?q ! j)) (used q - {i})"
    using inj other by (auto simp: inj_on_def)
  then have tab: "table_inv ?q"
    using inv i o by (simp add: table_inv_def u)
  have "addresses ?q = (\<lambda>j. p_address (q_entry q ! j)) ` (used q - {i})"
    unfolding addresses_def u using other by (intro image_cong) auto
  also have "\<dots> = addresses q - {p_address (q_entry q ! i)}"
    using inj_on_image_set_diff [OF inj, of "used q" "{i}"] i by (simp add: addresses_def)
  finally show ?thesis using rem tab o by auto
qed

lemma used_new: "used (packet_queue_new nm n) = {}"
  by (auto simp: used_def packet_queue_new_def packet_new_def)

lemma table_new: "table_inv (packet_queue_new nm n)" "addresses (packet_queue_new nm n) = {}"
  unfolding table_inv_def addresses_def used_new by (simp_all add: packet_queue_new_def)

text \<open>The search for a free entry or for an address.\<close>

lemma address_search:
  assumes "table_inv q" "a \<noteq> 0"
  shows "(first_index (\<lambda>i. p_address (q_entry q ! i) = a) 0 (unat (q_size q)) = None) = (a \<notin> addresses q)"
  using assms by (auto simp: first_index_None addresses_def used_def table_inv_def)

lemma address_found:
  assumes "table_inv q" "a \<noteq> 0" "first_index (\<lambda>i. p_address (q_entry q ! i) = a) 0 (unat (q_size q)) = Some i"
  shows "i \<in> used q" "p_address (q_entry q ! i) = a" "a \<in> addresses q"
  using assms by (auto simp: addresses_def used_def table_inv_def dest!: first_index_Some)

section \<open>The earliest event\<close>

text \<open>
  The loops that look for the earliest event of a queue: the cycle and the index of the
  first entry that satisfies \<open>P\<close> with the least event cycle below the initial one.  \<open>P\<close> may
  fail, where the code indexes an array to evaluate it; \<open>ix\<close> is the type the index is kept in.
\<close>

fun min_event :: "(nat \<Rightarrow> 'i) \<Rightarrow> (packet \<Rightarrow> bool option) \<Rightarrow> packet list \<Rightarrow> nat \<Rightarrow> nat \<Rightarrow> u64 \<times> 'i \<Rightarrow> (u64 \<times> 'i) option" where
  "min_event ix P es i 0 m = Some m"
| "min_event ix P es i (Suc k) m = do {
     e \<leftarrow> arr_get es i;
     ok \<leftarrow> P e;
     min_event ix P es (Suc i) k
       (if ok \<and> p_event_cycle e < fst m then (p_event_cycle e, ix i) else m) }"

text \<open>Nothing found leaves \<open>UINT64_MAX\<close> and the size.\<close>

definition queue_min_event :: "(packet \<Rightarrow> bool) \<Rightarrow> packet_queue \<Rightarrow> (u64 \<times> u32) option" where
  "queue_min_event P q = min_event of_nat (\<lambda>e. Some (P e)) (q_entry q) 0 (unat (q_size q)) (- 1, q_size q)"

text \<open>\<open>m\<close> is the earliest event among the first \<open>k\<close> entries, \<open>m0\<close> when there is none before it.\<close>

definition earliest :: "(nat \<Rightarrow> 'i) \<Rightarrow> (packet \<Rightarrow> bool) \<Rightarrow> packet list \<Rightarrow> nat \<Rightarrow> u64 \<times> 'i \<Rightarrow> u64 \<times> 'i \<Rightarrow> bool" where
  "earliest ix P es k m0 m \<longleftrightarrow>
     (m = m0 \<and> (\<forall>j < k. P (es ! j) \<longrightarrow> fst m0 \<le> p_event_cycle (es ! j))) \<or>
     (\<exists>i < k. m = (p_event_cycle (es ! i), ix i) \<and> P (es ! i) \<and> p_event_cycle (es ! i) < fst m0 \<and>
        (\<forall>j < k. P (es ! j) \<longrightarrow> p_event_cycle (es ! i) \<le> p_event_cycle (es ! j)) \<and>
        (\<forall>j < i. P (es ! j) \<longrightarrow> p_event_cycle (es ! i) < p_event_cycle (es ! j)))"

lemma earliest_step:
  assumes "earliest ix P es k m0 m" "m' = (if P (es ! k) \<and> p_event_cycle (es ! k) < fst m
    then (p_event_cycle (es ! k), ix k) else m)"
  shows "earliest ix P es (Suc k) m0 m'"
proof -
  have le: "fst m \<le> fst m0" and all: "\<forall>j < k. P (es ! j) \<longrightarrow> fst m \<le> p_event_cycle (es ! j)"
    using assms(1) by (auto simp: earliest_def)
  show ?thesis
  proof (cases "P (es ! k) \<and> p_event_cycle (es ! k) < fst m")
    case True
    then have lt: "p_event_cycle (es ! k) < fst m0" using le by (blast intro: order_less_le_trans)
    have strict: "\<forall>j < k. P (es ! j) \<longrightarrow> p_event_cycle (es ! k) < p_event_cycle (es ! j)"
      using all True by (meson order_less_le_trans)
    then have "\<forall>j < Suc k. P (es ! j) \<longrightarrow> p_event_cycle (es ! k) \<le> p_event_cycle (es ! j)"
      by (auto simp: less_Suc_eq intro: less_imp_le)
    with strict lt True assms(2) show ?thesis unfolding earliest_def by auto
  next
    case False
    then have new: "P (es ! k) \<longrightarrow> fst m \<le> p_event_cycle (es ! k)" by auto
    have m': "m' = m" using assms(2) unfolding if_not_P [OF False] .
    from assms(1) show ?thesis
      unfolding m' earliest_def
    proof (elim disjE exE conjE)
      assume "m = m0" "\<forall>j<k. P (es ! j) \<longrightarrow> fst m0 \<le> p_event_cycle (es ! j)"
      with new show "m = m0 \<and> (\<forall>j < Suc k. P (es ! j) \<longrightarrow> fst m0 \<le> p_event_cycle (es ! j)) \<or>
          (\<exists>i < Suc k. m = (p_event_cycle (es ! i), ix i) \<and> P (es ! i) \<and> p_event_cycle (es ! i) < fst m0 \<and>
            (\<forall>j < Suc k. P (es ! j) \<longrightarrow> p_event_cycle (es ! i) \<le> p_event_cycle (es ! j)) \<and>
            (\<forall>j < i. P (es ! j) \<longrightarrow> p_event_cycle (es ! i) < p_event_cycle (es ! j)))"
        by (simp add: less_Suc_eq)
    next
      fix i assume i: "i < k" "m = (p_event_cycle (es ! i), ix i)" "P (es ! i)" "p_event_cycle (es ! i) < fst m0"
        "\<forall>j < k. P (es ! j) \<longrightarrow> p_event_cycle (es ! i) \<le> p_event_cycle (es ! j)"
        "\<forall>j < i. P (es ! j) \<longrightarrow> p_event_cycle (es ! i) < p_event_cycle (es ! j)"
      then have "\<forall>j < Suc k. P (es ! j) \<longrightarrow> p_event_cycle (es ! i) \<le> p_event_cycle (es ! j)"
        using new by (auto simp: less_Suc_eq)
      with i show "m = m0 \<and> (\<forall>j < Suc k. P (es ! j) \<longrightarrow> fst m0 \<le> p_event_cycle (es ! j)) \<or>
          (\<exists>i < Suc k. m = (p_event_cycle (es ! i), ix i) \<and> P (es ! i) \<and> p_event_cycle (es ! i) < fst m0 \<and>
            (\<forall>j < Suc k. P (es ! j) \<longrightarrow> p_event_cycle (es ! i) \<le> p_event_cycle (es ! j)) \<and>
            (\<forall>j < i. P (es ! j) \<longrightarrow> p_event_cycle (es ! i) < p_event_cycle (es ! j)))"
        by (auto simp: less_Suc_eq)
    qed
  qed
qed

lemma min_event_earliest:
  assumes "i + k \<le> length es" "earliest ix Q es i m0 m" "\<forall>e \<in> set es. P e = Some (Q e)"
  shows "\<exists>m'. min_event ix P es i k m = Some m' \<and> earliest ix Q es (i + k) m0 m'"
  using assms(1,2)
proof (induction k arbitrary: i m)
  case (Suc k)
  from Suc.prems(1) have i: "i < length es" by simp
  then have "P (es ! i) = Some (Q (es ! i))" using assms(3) by simp
  with Suc.IH [OF _ earliest_step [OF Suc.prems(2) refl]] Suc.prems(1) i show ?case by simp
qed simp

lemma queue_min_event_earliest:
  assumes "length (q_entry q) = unat (q_size q)"
  shows "\<exists>m. queue_min_event P q = Some m \<and> earliest of_nat P (q_entry q) (unat (q_size q)) (- 1, q_size q) m"
  using min_event_earliest [of 0 "unat (q_size q)" "q_entry q" of_nat P "(- 1, q_size q)" "(- 1, q_size q)"] assms
  by (simp add: queue_min_event_def earliest_def)

lemma earliest_cong:
  assumes "\<And>j. j < k \<Longrightarrow> P (es ! j) = P (es' ! j) \<and> (P (es ! j) \<longrightarrow> p_event_cycle (es ! j) = p_event_cycle (es' ! j))"
  shows "earliest ix P es k m0 m = earliest ix P es' k m0 m"
proof -
  have "earliest ix P es k m0 m \<Longrightarrow> earliest ix P es' k m0 m"
    if *: "\<And>j. j < k \<Longrightarrow> P (es ! j) = P (es' ! j) \<and> (P (es ! j) \<longrightarrow> p_event_cycle (es ! j) = p_event_cycle (es' ! j))"
    for es es'
    unfolding earliest_def
  proof (elim disjE exE conjE)
    fix i assume i: "i < k" "m = (p_event_cycle (es ! i), ix i)" "P (es ! i)"
      "p_event_cycle (es ! i) < fst m0"
      "\<forall>j < k. P (es ! j) \<longrightarrow> p_event_cycle (es ! i) \<le> p_event_cycle (es ! j)"
      "\<forall>j < i. P (es ! j) \<longrightarrow> p_event_cycle (es ! i) < p_event_cycle (es ! j)"
    have e: "p_event_cycle (es' ! i) = p_event_cycle (es ! i)" "P (es' ! i)" using * [OF i(1)] i(3) by auto
    have "\<forall>j < k. P (es' ! j) \<longrightarrow> p_event_cycle (es' ! i) \<le> p_event_cycle (es' ! j)"
      using i(5) * e by metis
    moreover have "\<forall>j < i. P (es' ! j) \<longrightarrow> p_event_cycle (es' ! i) < p_event_cycle (es' ! j)"
      using i(1,6) * e by (metis order.strict_trans)
    ultimately show "(m = m0 \<and> (\<forall>j < k. P (es' ! j) \<longrightarrow> fst m0 \<le> p_event_cycle (es' ! j))) \<or>
      (\<exists>i < k. m = (p_event_cycle (es' ! i), ix i) \<and> P (es' ! i) \<and> p_event_cycle (es' ! i) < fst m0 \<and>
        (\<forall>j < k. P (es' ! j) \<longrightarrow> p_event_cycle (es' ! i) \<le> p_event_cycle (es' ! j)) \<and>
        (\<forall>j < i. P (es' ! j) \<longrightarrow> p_event_cycle (es' ! i) < p_event_cycle (es' ! j)))"
      using i(1,2,4) e by auto
  qed (use * in auto)
  from this [of es es'] this [of es' es] assms show ?thesis by metis
qed

end
