(* ===== verification/Float32.thy ===== *)
theory Float32
  imports Complex_Main NV_Prelude
begin

text \<open>
  The single precision arithmetic that \<open>src/cache.cc\<close> uses to measure prefetch accuracy,
  exact on rational numbers.
\<close>

section \<open>Rounding\<close>

text \<open>
  Single precision arithmetic: a positive rational is rounded to 24 significant bits, ties
  to even.  The values of the code are between \<open>2 ^ -64\<close> and \<open>2 ^ 71\<close>, inside the range of
  normal numbers, so overflow and subnormal numbers do not arise.
\<close>

definition pow2 :: "int \<Rightarrow> rat" where
  "pow2 k = (if 0 \<le> k then 2 ^ nat k else 1 / 2 ^ nat (- k))"

definition f32_exp :: "rat \<Rightarrow> int" where
  "f32_exp q = (case quotient_of q of (n, d) \<Rightarrow>
     (let k = lg2 (nat n) - lg2 (nat d) in if pow2 k \<le> q then k else k - 1))"

definition round_even :: "rat \<Rightarrow> int" where
  "round_even q = (let f = \<lfloor>q\<rfloor>; r = q - of_int f in
     if r < 1 / 2 then f else if 1 / 2 < r then f + 1 else if even f then f else f + 1)"

definition f32_round :: "rat \<Rightarrow> rat" where
  "f32_round q = (if q \<le> 0 then 0
     else let u = pow2 (f32_exp q - 23) in of_int (round_even (q / u)) * u)"

definition f32_of_u64 :: "u64 \<Rightarrow> rat" where
  "f32_of_u64 w = f32_round (of_int (uint w))"

text \<open>Conversion to \<open>uint32_t\<close> truncates; a value out of range is undefined behaviour.\<close>

definition f32_to_u32 :: "rat \<Rightarrow> u32 option" where
  "f32_to_u32 q = (if \<lfloor>q\<rfloor> < 2 ^ 32 then Some (of_int \<lfloor>q\<rfloor>) else None)"

text \<open>Rounding at most doubles a value.\<close>

lemma lg2_loop_bounds:
  "0 < n \<Longrightarrow> \<exists>k. lg2_loop n c = c + int k + 1 \<and> 2 ^ k \<le> n \<and> n < 2 ^ Suc k"
proof (induction n c rule: lg2_loop.induct)
  case (1 m c)
  show ?case
  proof (cases "m div 2 = 0")
    case True
    with 1 have "m = 1" by simp
    then show ?thesis by (intro exI [of _ 0]) (simp add: lg2_loop.simps)
  next
    case False
    with 1 obtain k where k: "lg2_loop (m div 2) (c + 1) = c + 1 + int k + 1" "2 ^ k \<le> m div 2" "m div 2 < 2 ^ Suc k"
      by auto
    then have "lg2_loop m c = c + int (Suc k) + 1" using "1.prems" by (subst lg2_loop.simps) simp
    moreover have "2 ^ Suc k \<le> m" "m < 2 ^ Suc (Suc k)" using k(2,3) by simp_all
    ultimately show ?thesis by blast
  qed
qed

lemma lg2_bounds: "0 < n \<Longrightarrow> \<exists>k. lg2 n = int k \<and> 2 ^ k \<le> n \<and> n < 2 ^ Suc k"
  using lg2_loop_bounds [of n "- 1"] by (simp add: lg2_def)

lemma pow2_pos [simp]: "0 < pow2 k"
  by (simp add: pow2_def)

lemma pow2_diff: "pow2 (int a - int b) = 2 ^ a / 2 ^ b"
proof (cases "b \<le> a")
  case True
  then show ?thesis by (simp add: pow2_def power_diff nat_diff_distrib' flip: of_nat_diff)
next
  case False
  then have "(2::rat) ^ b = 2 ^ a * 2 ^ (b - a)" by (simp flip: power_add)
  with False show ?thesis by (simp add: pow2_def nat_diff_distrib')
qed

lemma f32_exp_le:
  assumes "0 < q"
  shows "pow2 (f32_exp q) \<le> q"
proof -
  obtain n d where nd: "quotient_of q = (n, d)" by fastforce
  then have q: "q = of_int n / of_int d" and d: "0 < d" by (simp_all add: quotient_of_div quotient_of_denom_pos)
  then have n: "0 < n" using assms by (simp add: zero_less_divide_iff)
  obtain a where a: "lg2 (nat n) = int a" "2 ^ a \<le> nat n" using lg2_bounds [of "nat n"] n by auto
  obtain b where b: "lg2 (nat d) = int b" "nat d < 2 ^ Suc b" using lg2_bounds [of "nat d"] d by auto
  have n': "(2::rat) ^ a \<le> of_int n"
  proof -
    have "2 ^ a \<le> n" using a(2) n by (simp add: le_nat_iff)
    then have "(of_int (2 ^ a) :: rat) \<le> of_int n" by (simp only: of_int_le_iff)
    then show ?thesis by simp
  qed
  have d': "of_int d \<le> (2::rat) ^ Suc b"
  proof -
    have "d \<le> 2 ^ Suc b" using b(2) d by (simp add: nat_less_iff)
    then have "(of_int d :: rat) \<le> of_int (2 ^ Suc b)" by (simp only: of_int_le_iff)
    then show ?thesis by simp
  qed
  have "pow2 (int a - int (Suc b)) = 2 ^ a / 2 ^ Suc b" by (rule pow2_diff)
  also have "\<dots> \<le> of_int n / of_int d"
  proof (rule frac_le)
    show "(0::rat) \<le> of_int n" "(0::rat) < of_int d" using n d by simp_all
  qed (fact n' d')+
  also have "int a - int (Suc b) = int a - int b - 1" by simp
  finally have le: "pow2 (int a - int b - 1) \<le> q" unfolding q .
  have "f32_exp q = (if pow2 (int a - int b) \<le> q then int a - int b else int a - int b - 1)"
    by (simp only: f32_exp_def nd a(1) b(1) Let_def prod.case)
  with le show ?thesis by simp
qed

lemma round_even_le: "1 / 2 \<le> q \<Longrightarrow> of_int (round_even q) \<le> 2 * q"
proof -
  assume "1 / 2 \<le> q"
  moreover have "of_int (round_even q) \<le> q + 1 / 2"
    by (simp add: round_even_def Let_def) linarith
  ultimately show ?thesis by linarith
qed

lemma f32_round_le: "0 \<le> q \<Longrightarrow> f32_round q \<le> 2 * q"
proof -
  assume q: "0 \<le> q"
  show ?thesis
  proof (cases "q = 0")
    case False
    with q have pos: "0 < q" by simp
    let ?u = "pow2 (f32_exp q - 23)"
    have "?u \<le> pow2 (f32_exp q)"
    proof -
      obtain a b where ab: "f32_exp q = int a - int b" by (metis diff_conv_add_uminus int_diff_cases)
      have "f32_exp q - 23 = int a - int (b + 23)" using ab by simp
      then have "?u = 2 ^ a / 2 ^ (b + 23)" by (simp only: pow2_diff)
      also have "\<dots> \<le> 2 ^ a / 2 ^ b" by (intro divide_left_mono) simp_all
      also have "\<dots> = pow2 (f32_exp q)" using ab by (simp only: pow2_diff)
      finally show ?thesis .
    qed
    then have "?u \<le> q" using f32_exp_le [OF pos] by linarith
    then have "1 / 2 \<le> q / ?u" using pos by (simp add: field_simps)
    then have "of_int (round_even (q / ?u)) \<le> 2 * (q / ?u)" by (rule round_even_le)
    then show ?thesis using pos by (simp add: f32_round_def Let_def pos_le_divide_eq)
  qed (simp add: f32_round_def)
qed

lemma f32_round_nonneg: "0 \<le> f32_round q"
proof (cases "q \<le> 0")
  case False
  let ?u = "pow2 (f32_exp q - 23)"
  have "0 \<le> q / ?u" using False pow2_pos [of "f32_exp q - 23"]
    by (metis divide_nonneg_pos linear)
  then have "0 \<le> round_even (q / ?u)" by (simp add: round_even_def Let_def)
  then show ?thesis
    using False pow2_pos [of "f32_exp q - 23"] by (simp add: f32_round_def Let_def less_imp_le)
qed (simp add: f32_round_def)

end
