(* ===== verification/Cache.thy ===== *)
theory Cache
  imports Replacement Event_Table Float32
begin

text \<open>
  One cache: the class \<open>CACHE\<close> of \<open>inc/cache.h\<close> with the operations of \<open>src/cache.cc\<close> that
  touch nothing but the cache itself.  The operations that call other levels are in
  \<open>Hierarchy\<close>.

  The tag store is the list of the sets; the miss status registers are a queue used as a
  table, in which an entry is free when its address is 0.  \<open>mshr_inv\<close> is the invariant of
  that table: no address twice, the occupancy counted right.  \<open>fill_inv\<close> says that the
  scheduled fill is the earliest returned miss.
\<close>

section \<open>State\<close>

text \<open>A \<open>MEMORY *\<close>: a cache or a memory controller of the machine; a null pointer is \<open>None\<close>.\<close>

datatype obj = Cache_obj nat | Mem_obj nat

definition IS_ITLB :: u8 where [champsim_consts]: "IS_ITLB = 0"
definition IS_DTLB :: u8 where [champsim_consts]: "IS_DTLB = 1"
definition IS_STLB :: u8 where [champsim_consts]: "IS_STLB = 2"
definition IS_L1I :: u8 where [champsim_consts]: "IS_L1I = 3"
definition IS_L1D :: u8 where [champsim_consts]: "IS_L1D = 4"
definition IS_L2C :: u8 where [champsim_consts]: "IS_L2C = 5"
definition IS_LLC :: u8 where [champsim_consts]: "IS_LLC = 6"
definition CACHE_ACC_LEVELS :: nat where [champsim_consts]: "CACHE_ACC_LEVELS = 10"

text \<open>The global variables that the memory system reads, with the knobs of \<open>src/knobs.cc\<close>.\<close>

record globals =
  g_current_core_cycle :: "u64 list"
  g_warmup_complete :: "u8 list"
  g_all_warmup_complete :: u8
  k_l1d_perfect :: bool
  k_l2c_perfect :: bool
  k_llc_perfect :: bool
  k_l1d_semi_perfect :: bool
  k_l2c_semi_perfect :: bool
  k_llc_semi_perfect :: bool
  k_page_buffer_size :: u32
  k_measure_cache_acc :: bool
  k_measure_cache_acc_epoch :: u32
  k_llc_policy :: llc_policy

record cache_stats =
  t_pf_requested :: u64
  t_pf_dropped :: u64
  t_pf_issued :: u64
  t_pf_filled :: u64
  t_pf_useful :: u64
  t_pf_useless :: u64
  t_pf_late :: u64
  t_sim_access :: "u64 list list"
  t_sim_hit :: "u64 list list"
  t_sim_miss :: "u64 list list"
  t_total_miss_latency :: u64
  t_ACCESS :: "u64 list"
  t_HIT :: "u64 list"
  t_MISS :: "u64 list"
  t_MSHR_MERGED :: "u64 list"
  t_STALL :: "u64 list"
  t_cycle :: u64
  t_next_measure_cycle :: u64
  t_pf_useful_epoch :: u64
  t_pf_filled_epoch :: u64
  t_pref_acc :: u32
  t_total_acc_epochs :: u64
  t_acc_epoch_hist :: "u64 list"

record cache =
  c_cpu :: u32
  c_NAME :: string
  c_NUM_SET :: u32
  c_NUM_WAY :: u32
  c_RQ_SIZE :: u32
  c_PQ_SIZE :: u32
  c_MSHR_SIZE :: u32
  c_LATENCY :: u32
  c_block :: "block list list"
  c_fill_level :: int
  c_MAX_READ :: u32
  c_reads_available :: u32
  c_cache_type :: u8
  c_WQ :: packet_queue
  c_RQ :: packet_queue
  c_PQ :: packet_queue
  c_MSHR :: packet_queue
  c_PROCESSED :: packet_queue
  c_page_buffer :: "u64 list"
  c_upper_icache :: "obj option list"
  c_upper_dcache :: "obj option list"
  c_lower :: "obj option"
  c_repl :: llc_repl
  c_stats :: cache_stats

definition cache_stats_new :: cache_stats where
  "cache_stats_new = (let z = replicate NUM_TYPES 0; zz = replicate NUM_CPUS z in
     \<lparr>t_pf_requested = 0, t_pf_dropped = 0, t_pf_issued = 0, t_pf_filled = 0, t_pf_useful = 0,
      t_pf_useless = 0, t_pf_late = 0, t_sim_access = zz, t_sim_hit = zz, t_sim_miss = zz,
      t_total_miss_latency = 0, t_ACCESS = z, t_HIT = z, t_MISS = z, t_MSHR_MERGED = z, t_STALL = z,
      t_cycle = 0, t_next_measure_cycle = 0, t_pf_useful_epoch = 0, t_pf_filled_epoch = 0,
      t_pref_acc = 0, t_total_acc_epochs = 0, t_acc_epoch_hist = replicate CACHE_ACC_LEVELS 0\<rparr>)"

text \<open>
  The constructor.  The caches are members of global objects, so a member that the
  constructor leaves out is zero; \<open>cache_type\<close> is assigned in \<open>main\<close>.  The replacement
  arrays are file-scope variables; they are passed in.
\<close>

definition cache_new :: "string \<Rightarrow> u32 \<Rightarrow> u32 \<Rightarrow> u32 \<Rightarrow> u32 \<Rightarrow> u32 \<Rightarrow> u32 \<Rightarrow> u8 \<Rightarrow> llc_repl \<Rightarrow> cache" where
  "cache_new v1 v2 v3 v5 v6 v7 v8 cache_type repl =
     \<lparr>c_cpu = 0, c_NAME = v1, c_NUM_SET = v2, c_NUM_WAY = v3, c_RQ_SIZE = v6, c_PQ_SIZE = v7,
      c_MSHR_SIZE = v8, c_LATENCY = 0,
      c_block = replicate (unat v2) (map (\<lambda>j. block_new\<lparr>b_lru := of_nat j\<rparr>) [0..<unat v3]),
      c_fill_level = - 1, c_MAX_READ = 1, c_reads_available = 0, c_cache_type = cache_type,
      c_WQ = packet_queue_new (v1 @ ''_WQ'') v5, c_RQ = packet_queue_new (v1 @ ''_RQ'') v6,
      c_PQ = packet_queue_new (v1 @ ''_PQ'') v7, c_MSHR = packet_queue_new (v1 @ ''_MSHR'') v8,
      c_PROCESSED = packet_queue_new (v1 @ ''_PROCESSED'') (of_nat ROB_SIZE), c_page_buffer = [],
      c_upper_icache = replicate NUM_CPUS None, c_upper_dcache = replicate NUM_CPUS None,
      c_lower = None, c_repl = repl, c_stats = cache_stats_new\<rparr>"

section \<open>Statistics\<close>

definition bump :: "u64 list \<Rightarrow> nat \<Rightarrow> u64 list option" where
  "bump xs i = do { v \<leftarrow> arr_get xs i; arr_set xs i (v + 1) }"

definition bump2 :: "u64 list list \<Rightarrow> nat \<Rightarrow> nat \<Rightarrow> u64 list list option" where
  "bump2 xs i j = do { row \<leftarrow> arr_get xs i; row' \<leftarrow> bump row j; arr_set xs i row' }"

text \<open>\<open>X[type]++\<close> and \<open>sim_X[cpu][type]++\<close> for the counter array \<open>X\<close>.\<close>

definition count :: "(cache_stats \<Rightarrow> u64 list) \<Rightarrow> ((u64 list \<Rightarrow> u64 list) \<Rightarrow> cache_stats \<Rightarrow> cache_stats) \<Rightarrow>
    u8 \<Rightarrow> cache \<Rightarrow> cache option" where
  "count get upd type c = do {
     v \<leftarrow> bump (get (c_stats c)) (unat type);
     Some (c\<lparr>c_stats := upd (\<lambda>_. v) (c_stats c)\<rparr>) }"

definition count_sim :: "(cache_stats \<Rightarrow> u64 list list) \<Rightarrow>
    ((u64 list list \<Rightarrow> u64 list list) \<Rightarrow> cache_stats \<Rightarrow> cache_stats) \<Rightarrow> u32 \<Rightarrow> u8 \<Rightarrow> cache \<Rightarrow> cache option" where
  "count_sim get upd cpu type c = do {
     v \<leftarrow> bump2 (get (c_stats c)) (unat cpu) (unat type);
     Some (c\<lparr>c_stats := upd (\<lambda>_. v) (c_stats c)\<rparr>) }"

abbreviation "count_HIT \<equiv> count t_HIT t_HIT_update"
abbreviation "count_MISS \<equiv> count t_MISS t_MISS_update"
abbreviation "count_ACCESS \<equiv> count t_ACCESS t_ACCESS_update"
abbreviation "count_MERGED \<equiv> count t_MSHR_MERGED t_MSHR_MERGED_update"
abbreviation "count_STALL \<equiv> count t_STALL t_STALL_update"
abbreviation "count_sim_hit \<equiv> count_sim t_sim_hit t_sim_hit_update"
abbreviation "count_sim_miss \<equiv> count_sim t_sim_miss t_sim_miss_update"
abbreviation "count_sim_access \<equiv> count_sim t_sim_access t_sim_access_update"

definition core_cycle :: "globals \<Rightarrow> u32 \<Rightarrow> u64 option" where
  "core_cycle g cpu = arr_get (g_current_core_cycle g) (unat cpu)"

section \<open>The tag store\<close>

definition get_set :: "cache \<Rightarrow> u64 \<Rightarrow> nat" where
  "get_set c address =
     unat (ucast (address AND of_int (push_bit (nat (lg2 (unat (c_NUM_SET c)))) 1 - 1)) :: u32)"

definition get_block :: "cache \<Rightarrow> nat \<Rightarrow> nat \<Rightarrow> block option" where
  "get_block c st way = do { bs \<leftarrow> arr_get (c_block c) st; arr_get bs way }"

definition put_block :: "cache \<Rightarrow> nat \<Rightarrow> nat \<Rightarrow> block \<Rightarrow> cache option" where
  "put_block c st way b = do {
     bs \<leftarrow> arr_get (c_block c) st;
     bs' \<leftarrow> arr_set bs way b;
     Some (c\<lparr>c_block := (c_block c)[st := bs']\<rparr>) }"

definition tag_match :: "u64 \<Rightarrow> block \<Rightarrow> bool" where
  "tag_match address b \<longleftrightarrow> b_valid b \<noteq> 0 \<and> b_tag b = address"

definition get_way :: "cache \<Rightarrow> u64 \<Rightarrow> nat \<Rightarrow> nat option" where
  "get_way c address st = do {
     bs \<leftarrow> arr_get (c_block c) st;
     r \<leftarrow> search_arr (tag_match address) bs 0 (unat (c_NUM_WAY c));
     Some (case r of Some way \<Rightarrow> way | None \<Rightarrow> unat (c_NUM_WAY c)) }"

text \<open>The page buffer of the semi-perfect modes; \<open>pop_front\<close> of an empty deque is undefined.\<close>

definition search_and_add :: "globals \<Rightarrow> cache \<Rightarrow> u64 \<Rightarrow> (cache \<times> bool) option" where
  "search_and_add g c page =
     (if page \<in> set (c_page_buffer c) then Some (c, True)
      else do {
        buf \<leftarrow> (if unat (k_page_buffer_size g) \<le> length (c_page_buffer c)
               then (case c_page_buffer c of [] \<Rightarrow> None | _ # ps \<Rightarrow> Some ps)
               else Some (c_page_buffer c));
        Some (c\<lparr>c_page_buffer := buf @ [page]\<rparr>, False) })"

definition is_perfect :: "globals \<Rightarrow> cache \<Rightarrow> bool" where
  "is_perfect g c \<longleftrightarrow> c_cache_type c = IS_L1D \<and> k_l1d_perfect g \<or> c_cache_type c = IS_L2C \<and> k_l2c_perfect g \<or>
     c_cache_type c = IS_LLC \<and> k_llc_perfect g"

definition is_semi_perfect :: "globals \<Rightarrow> cache \<Rightarrow> bool" where
  "is_semi_perfect g c \<longleftrightarrow> c_cache_type c = IS_L1D \<and> k_l1d_semi_perfect g \<or>
     c_cache_type c = IS_L2C \<and> k_l2c_semi_perfect g \<or> c_cache_type c = IS_LLC \<and> k_llc_semi_perfect g"

definition check_hit :: "globals \<Rightarrow> cache \<Rightarrow> packet \<Rightarrow> (cache \<times> int) option" where
  "check_hit g c packet = do {
     let st = get_set c (p_address packet);
     assert_that (\<not> unat (c_NUM_SET c) < st);
     if is_perfect g c then Some (c, 0)
     else do {
       (c1, found) \<leftarrow> (if is_semi_perfect g c \<and> p_type packet = LOAD
         then search_and_add g c (drop_bit LOG2_PAGE_SIZE (p_address packet)) else Some (c, False));
       if found then Some (c1, 0)
       else do {
         bs \<leftarrow> arr_get (c_block c1) st;
         r \<leftarrow> search_arr (tag_match (p_address packet)) bs 0 (unat (c_NUM_WAY c1));
         Some (c1, case r of Some way \<Rightarrow> int way | None \<Rightarrow> - 1) } } }"

definition invalidate_entry :: "cache \<Rightarrow> u64 \<Rightarrow> (cache \<times> int) option" where
  "invalidate_entry c inval_addr = do {
     let st = get_set c inval_addr;
     assert_that (\<not> unat (c_NUM_SET c) < st);
     bs \<leftarrow> arr_get (c_block c) st;
     r \<leftarrow> search_arr (tag_match inval_addr) bs 0 (unat (c_NUM_WAY c));
     case r of
       None \<Rightarrow> Some (c, - 1)
     | Some way \<Rightarrow> do {
         c' \<leftarrow> put_block c st way ((bs ! way)\<lparr>b_valid := 0\<rparr>);
         Some (c', int way) } }"

definition filled_block :: "block \<Rightarrow> packet \<Rightarrow> block" where
  "filled_block b packet = b\<lparr>b_valid := (if b_valid b = 0 then 1 else b_valid b), b_dirty := 0,
       b_prefetch := (if p_type packet = PREFETCH then 1 else 0), b_used := 0,
       b_delta := p_delta packet, b_depth := p_depth packet, b_signature := p_signature packet,
       b_confidence := p_confidence packet, b_tag := p_address packet, b_address := p_address packet,
       b_full_addr := p_full_addr packet, b_data := p_data packet, b_cpu := ucast (p_cpu packet),
       b_instr_id := p_instr_id packet\<rparr>"

definition fill_stats :: "cache_stats \<Rightarrow> block \<Rightarrow> packet \<Rightarrow> cache_stats" where
  "fill_stats t b packet = (
     let t1 = (if b_prefetch b \<noteq> 0 \<and> b_used b = 0 then t\<lparr>t_pf_useless := t_pf_useless t + 1\<rparr> else t)
     in if p_type packet = PREFETCH
       then t1\<lparr>t_pf_filled := t_pf_filled t1 + 1, t_pf_filled_epoch := t_pf_filled_epoch t1 + 1\<rparr> else t1)"

definition fill_cache :: "cache \<Rightarrow> nat \<Rightarrow> nat \<Rightarrow> packet \<Rightarrow> cache option" where
  "fill_cache c st way packet = do {
     assert_that (c_cache_type c = IS_ITLB \<longrightarrow> p_data packet \<noteq> 0);
     assert_that (c_cache_type c = IS_DTLB \<longrightarrow> p_data packet \<noteq> 0);
     assert_that (c_cache_type c = IS_STLB \<longrightarrow> p_data packet \<noteq> 0);
     b \<leftarrow> get_block c st way;
     put_block (c\<lparr>c_stats := fill_stats (c_stats c) b packet\<rparr>) st way (filled_block b packet) }"

section \<open>The miss status registers\<close>

definition check_mshr :: "cache \<Rightarrow> packet \<Rightarrow> int option" where
  "check_mshr c packet = do {
     r \<leftarrow> search_arr (\<lambda>e. p_address e = p_address packet) (q_entry (c_MSHR c)) 0 (unat (c_MSHR_SIZE c));
     Some (case r of Some i \<Rightarrow> int i | None \<Rightarrow> - 1) }"

text \<open>\<open>add_mshr(&p)\<close> stamps \<open>p\<close> and copies it to the first free register, if there is one.\<close>

definition add_mshr :: "globals \<Rightarrow> cache \<Rightarrow> packet \<Rightarrow> (cache \<times> packet) option" where
  "add_mshr g c packet = do {
     now \<leftarrow> core_cycle g (p_cpu packet);
     let packet' = packet\<lparr>p_cycle_enqueued := now\<rparr>;
     let q = c_MSHR c;
     r \<leftarrow> search_arr (\<lambda>e. p_address e = 0) (q_entry q) 0 (unat (c_MSHR_SIZE c));
     Some (case r of
         Some i \<Rightarrow> c\<lparr>c_MSHR := q\<lparr>q_entry := (q_entry q)[i := packet'\<lparr>p_returned := INFLIGHT\<rparr>],
           q_occupancy := q_occupancy q + 1\<rparr>\<rparr>
       | None \<Rightarrow> c, packet') }"

definition update_fill_cycle :: "cache \<Rightarrow> cache option" where
  "update_fill_cycle c = do {
     m \<leftarrow> queue_min_event (\<lambda>e. p_returned e = COMPLETED) (c_MSHR c);
     Some (c\<lparr>c_MSHR := (c_MSHR c)\<lparr>q_next_fill_cycle := fst m, q_next_fill_index := snd m\<rparr>\<rparr>) }"

text \<open>The latency that an entry is charged on its way into a queue.\<close>

definition add_latency :: "globals \<Rightarrow> cache \<Rightarrow> u32 \<Rightarrow> packet \<Rightarrow> packet option" where
  "add_latency g c cpu e = do {
     now \<leftarrow> core_cycle g cpu;
     Some (e\<lparr>p_event_cycle :=
       (if p_event_cycle e < now then now else p_event_cycle e) + ucast (c_LATENCY c)\<rparr>) }"

definition return_data :: "globals \<Rightarrow> cache \<Rightarrow> packet \<Rightarrow> cache option" where
  "return_data g c packet = do {
     i \<leftarrow> check_mshr c packet;
     assert_that (i \<noteq> - 1);
     let q = c_MSHR c;
     e \<leftarrow> arr_get (q_entry q) (nat i);
     e' \<leftarrow> add_latency g c (p_cpu packet)
       (e\<lparr>p_returned := COMPLETED, p_data := p_data packet, p_pf_metadata := p_pf_metadata packet\<rparr>);
     update_fill_cycle (c\<lparr>c_MSHR := q\<lparr>q_num_returned := q_num_returned q + 1,
       q_entry := (q_entry q)[nat i := e']\<rparr>\<rparr>) }"

section \<open>The queues\<close>

definition get_occupancy :: "cache \<Rightarrow> u8 \<Rightarrow> u64 \<Rightarrow> u32" where
  "get_occupancy c queue_type address =
     (if queue_type = 0 then q_occupancy (c_MSHR c)
      else if queue_type = 1 then q_occupancy (c_RQ c)
      else if queue_type = 2 then q_occupancy (c_WQ c)
      else if queue_type = 3 then q_occupancy (c_PQ c) else 0)"

definition get_size :: "cache \<Rightarrow> u8 \<Rightarrow> u64 \<Rightarrow> u32" where
  "get_size c queue_type address =
     (if queue_type = 0 then q_size (c_MSHR c)
      else if queue_type = 1 then q_size (c_RQ c)
      else if queue_type = 2 then q_size (c_WQ c)
      else if queue_type = 3 then q_size (c_PQ c) else 0)"

definition increment_WQ_FULL :: "cache \<Rightarrow> u64 \<Rightarrow> cache" where
  "increment_WQ_FULL c address = c\<lparr>c_WQ := (c_WQ c)\<lparr>q_FULL := q_FULL (c_WQ c) + 1\<rparr>\<rparr>"

definition prefetcher_feedback :: "cache \<Rightarrow> u64 \<times> u64 \<times> u64 \<times> u64" where
  "prefetcher_feedback c = (let t = c_stats c in
     (t_pf_issued t, t_pf_filled t, t_pf_useful t, t_pf_late t))"

definition entry_is_free :: "packet_queue \<Rightarrow> bool option" where
  "entry_is_free q = do { e \<leftarrow> arr_get (q_entry q) (unat (q_tail q)); Some (p_address e = 0) }"

definition add_wq :: "globals \<Rightarrow> cache \<Rightarrow> packet \<Rightarrow> (cache \<times> int) option" where
  "add_wq g c packet = do {
     index \<leftarrow> check_queue (c_WQ c) packet;
     if index \<noteq> - 1 then
       Some (c\<lparr>c_WQ := (c_WQ c)\<lparr>q_MERGED := q_MERGED (c_WQ c) + 1, q_ACCESS := q_ACCESS (c_WQ c) + 1\<rparr>\<rparr>, index)
     else do {
       assert_that (\<not> q_occupancy (c_WQ c) \<ge> q_size (c_WQ c));
       free \<leftarrow> entry_is_free (c_WQ c);
       assert_that free;
       e \<leftarrow> add_latency g c (p_cpu packet) packet;
       q \<leftarrow> push_tail (c_WQ c) e;
       Some (c\<lparr>c_WQ := q\<lparr>q_TO_CACHE := q_TO_CACHE q + 1, q_ACCESS := q_ACCESS q + 1\<rparr>\<rparr>, - 1) } }"

text \<open>\<open>if (PROCESSED.occupancy < PROCESSED.SIZE) PROCESSED.add_queue(&p);\<close>\<close>

definition add_processed :: "cache \<Rightarrow> packet \<Rightarrow> cache option" where
  "add_processed c packet =
     (if q_occupancy (c_PROCESSED c) < q_size (c_PROCESSED c)
      then do { q \<leftarrow> add_queue (c_PROCESSED c) packet; Some (c\<lparr>c_PROCESSED := q\<rparr>) }
      else Some c)"

text \<open>
  The tail of \<open>add_rq\<close> and \<open>add_pq\<close>, after the search for duplicates: a full queue refuses,
  otherwise the request is queued behind the latency of the cache.  A request for address 0
  is an assertion failure.
\<close>

definition enqueue_request :: "globals \<Rightarrow> cache \<Rightarrow> u32 \<Rightarrow> packet_queue \<Rightarrow> packet \<Rightarrow> (packet_queue \<times> int) option" where
  "enqueue_request g c limit q packet =
     (if q_occupancy q = limit then Some (q\<lparr>q_FULL := q_FULL q + 1\<rparr>, - 2)
      else do {
        free \<leftarrow> entry_is_free q;
        assert_that free;
        e \<leftarrow> add_latency g c (p_cpu packet) packet;
        q1 \<leftarrow> push_tail q e;
        assert_that (p_address packet \<noteq> 0);
        Some (q1\<lparr>q_TO_CACHE := q_TO_CACHE q1 + 1, q_ACCESS := q_ACCESS q1 + 1\<rparr>, - 1) })"

text \<open>What a request leaves in the read queue entry it is merged with.\<close>

definition rq_merge :: "packet \<Rightarrow> packet \<Rightarrow> packet option" where
  "rq_merge e packet =
     (if p_instruction packet \<noteq> 0 then do {
        s \<leftarrow> fs_insert (p_rob_deps e) (of_int (p_rob_index packet));
        Some (e\<lparr>p_rob_deps := s, p_instr_merged := 1\<rparr>) }
      else if p_type packet = RFO then do {
        s \<leftarrow> fs_insert (p_sq_deps e) (ucast (p_sq_index packet));
        Some (e\<lparr>p_sq_deps := s, p_store_merged := 1\<rparr>) }
      else do {
        s \<leftarrow> fs_insert (p_lq_deps e) (ucast (p_lq_index packet));
        Some (e\<lparr>p_lq_deps := s, p_load_merged := 1\<rparr>) })"

section \<open>The tag store as a map\<close>

definition shape_ok :: "cache \<Rightarrow> bool" where
  "shape_ok c \<longleftrightarrow> (\<exists>k < 32. unat (c_NUM_SET c) = 2 ^ k) \<and> length (c_block c) = unat (c_NUM_SET c) \<and>
     list_all (\<lambda>bs. length bs = unat (c_NUM_WAY c)) (c_block c)"

text \<open>Every valid line is in the set its tag selects, and no set holds a tag twice.\<close>

definition tags_ok :: "cache \<Rightarrow> bool" where
  "tags_ok c \<longleftrightarrow> (\<forall>st < length (c_block c). \<forall>w < unat (c_NUM_WAY c).
     b_valid (c_block c ! st ! w) \<noteq> 0 \<longrightarrow> get_set c (b_tag (c_block c ! st ! w)) = st \<and>
       (\<forall>w' < unat (c_NUM_WAY c). tag_match (b_tag (c_block c ! st ! w)) (c_block c ! st ! w') \<longrightarrow> w = w'))"

definition line :: "cache \<Rightarrow> u64 \<Rightarrow> block option" where
  "line c a = map_option (\<lambda>w. c_block c ! get_set c a ! w)
     (first_index (\<lambda>w. tag_match a (c_block c ! get_set c a ! w)) 0 (unat (c_NUM_WAY c)))"

lemma get_set_mod:
  assumes "unat (c_NUM_SET c) = 2 ^ k" "k < 32"
  shows "get_set c a = unat a mod 2 ^ k"
proof -
  have "of_int (push_bit k 1 - 1) = (mask k :: u64)" by (simp add: mask_eq_exp_minus_1)
  then have "a AND of_int (push_bit (nat (lg2 (unat (c_NUM_SET c)))) 1 - 1) = take_bit k a"
    using assms(1) by (simp add: take_bit_eq_mask)
  moreover have "unat (ucast (take_bit k a) :: u32) = take_bit 32 (take_bit k (unat a))"
    by (simp add: unsigned_ucast_eq unsigned_take_bit_eq min.commute)
  moreover have "take_bit 32 (take_bit k (unat a)) = unat a mod 2 ^ k"
  proof -
    have "take_bit 32 (take_bit k (unat a)) = take_bit k (unat a)"
      using assms(2) by (simp only: take_bit_take_bit min_absorb2 less_imp_le)
    then show ?thesis by (simp only: take_bit_eq_mod)
  qed
  ultimately show ?thesis by (simp add: get_set_def)
qed

lemma get_set_less: "shape_ok c \<Longrightarrow> get_set c a < unat (c_NUM_SET c)"
  by (auto simp: shape_ok_def get_set_mod)

lemma get_set_cong: "c_NUM_SET c' = c_NUM_SET c \<Longrightarrow> get_set c' a = get_set c a"
  by (simp add: get_set_def)

lemma shape_set:
  "shape_ok c \<Longrightarrow> st < unat (c_NUM_SET c) \<Longrightarrow> length (c_block c ! st) = unat (c_NUM_WAY c) \<and> st < length (c_block c)"
  by (auto simp: shape_ok_def list_all_length)

lemma line_iff:
  assumes "shape_ok c" "tags_ok c"
  shows "(line c a = Some b) = (\<exists>w < unat (c_NUM_WAY c). c_block c ! get_set c a ! w = b \<and> tag_match a b)"
proof
  assume "line c a = Some b"
  then show "\<exists>w < unat (c_NUM_WAY c). c_block c ! get_set c a ! w = b \<and> tag_match a b"
    by (auto simp: line_def dest!: first_index_Some)
next
  let ?P = "\<lambda>w. tag_match a (c_block c ! get_set c a ! w)"
  assume "\<exists>w < unat (c_NUM_WAY c). c_block c ! get_set c a ! w = b \<and> tag_match a b"
  then obtain w where w: "w < unat (c_NUM_WAY c)" "c_block c ! get_set c a ! w = b" "?P w" by auto
  obtain w' where w': "first_index ?P 0 (unat (c_NUM_WAY c)) = Some w'"
    using first_index_ex [of 0 w _ ?P] w by auto
  from first_index_Some [OF w'] have m: "w' < unat (c_NUM_WAY c)" "?P w'" by auto
  have "get_set c a < length (c_block c)" using get_set_less [OF assms(1)] assms(1) by (simp add: shape_ok_def)
  then have "w = w'" using assms(2) m w unfolding tags_ok_def by (metis tag_match_def)
  with w w' show "line c a = Some b" by (simp add: line_def)
qed

text \<open>Replacing one block of the store.\<close>

definition set_block :: "cache \<Rightarrow> nat \<Rightarrow> nat \<Rightarrow> block \<Rightarrow> cache" where
  "set_block c st w b = c\<lparr>c_block := (c_block c)[st := (c_block c ! st)[w := b]]\<rparr>"

lemma put_block_eq:
  "shape_ok c \<Longrightarrow> st < unat (c_NUM_SET c) \<Longrightarrow> w < unat (c_NUM_WAY c) \<Longrightarrow>
     put_block c st w b = Some (set_block c st w b)"
  using shape_set [of c st] by (simp add: put_block_def set_block_def)

lemma shape_set_block: "shape_ok c \<Longrightarrow> shape_ok (set_block c st w b)"
  unfolding shape_ok_def set_block_def
  by (cases "st < length (c_block c)") (auto simp: list_all_length nth_list_update)

lemma set_block_nth:
  assumes "shape_ok c" "st < unat (c_NUM_SET c)" "w < unat (c_NUM_WAY c)"
  shows "c_block (set_block c st w b) ! s ! v = (if s = st \<and> v = w then b else c_block c ! s ! v)"
  using shape_set [OF assms(1,2)] assms(3) by (cases "s = st"; cases "v = w") (auto simp: set_block_def)

definition block_fits :: "cache \<Rightarrow> nat \<Rightarrow> nat \<Rightarrow> block \<Rightarrow> bool" where
  "block_fits c st w b \<longleftrightarrow> (b_valid b \<noteq> 0 \<longrightarrow> get_set c (b_tag b) = st \<and>
     (\<forall>v < unat (c_NUM_WAY c). tag_match (b_tag b) (c_block c ! st ! v) \<longrightarrow> v = w))"

lemma tags_okD:
  assumes "tags_ok c" "s < length (c_block c)" "v < unat (c_NUM_WAY c)" "b_valid (c_block c ! s ! v) \<noteq> 0"
  shows "get_set c (b_tag (c_block c ! s ! v)) = s"
    and "v' < unat (c_NUM_WAY c) \<Longrightarrow> tag_match (b_tag (c_block c ! s ! v)) (c_block c ! s ! v') \<Longrightarrow> v = v'"
  using assms by (auto simp: tags_ok_def)

lemma set_block_tags:
  assumes sh: "shape_ok c" and tg: "tags_ok c" and st: "st < unat (c_NUM_SET c)" and w: "w < unat (c_NUM_WAY c)"
    and fits: "block_fits c st w b"
  shows "tags_ok (set_block c st w b)"
proof -
  let ?c = "set_block c st w b"
  note nth = set_block_nth [OF sh st w, of b]
  have same: "c_NUM_WAY ?c = c_NUM_WAY c" "get_set ?c = get_set c" "length (c_block ?c) = length (c_block c)"
    by (simp_all add: set_block_def get_set_def fun_eq_iff)
  have "get_set c (b_tag (c_block ?c ! s ! v)) = s \<and>
      (\<forall>v' < unat (c_NUM_WAY c). tag_match (b_tag (c_block ?c ! s ! v)) (c_block ?c ! s ! v') \<longrightarrow> v = v')"
    if sv: "s < length (c_block c)" "v < unat (c_NUM_WAY c)" and val: "b_valid (c_block ?c ! s ! v) \<noteq> 0" for s v
  proof (cases "s = st \<and> v = w")
    case True
    then have b: "c_block ?c ! s ! v = b" by (simp only: nth) simp
    with val fits have f: "get_set c (b_tag b) = st"
      "\<forall>v < unat (c_NUM_WAY c). tag_match (b_tag b) (c_block c ! st ! v) \<longrightarrow> v = w"
      by (auto simp: block_fits_def)
    show ?thesis
    proof (intro conjI allI impI)
      fix v' assume v': "v' < unat (c_NUM_WAY c)" "tag_match (b_tag (c_block ?c ! s ! v)) (c_block ?c ! s ! v')"
      show "v = v'"
      proof (cases "v' = w")
        case False
        with v' True b have "tag_match (b_tag b) (c_block c ! st ! v')" by (simp add: nth)
        with f(2) v'(1) True show ?thesis by blast
      qed (use True in simp)
    qed (use b f True in simp)
  next
    case False
    then have b: "c_block ?c ! s ! v = c_block c ! s ! v" by (simp only: nth) auto
    note old = tags_okD [OF tg sv val [unfolded b]]
    show ?thesis
    proof (intro conjI allI impI)
      fix v' assume v': "v' < unat (c_NUM_WAY c)" "tag_match (b_tag (c_block ?c ! s ! v)) (c_block ?c ! s ! v')"
      show "v = v'"
      proof (cases "s = st \<and> v' = w")
        case True
        then have "c_block ?c ! s ! v' = b" by (simp only: nth) simp
        with v' b have "b_valid b \<noteq> 0" "b_tag b = b_tag (c_block c ! s ! v)" by (simp_all add: tag_match_def)
        moreover from this val b have "tag_match (b_tag b) (c_block c ! s ! v)" by (simp add: tag_match_def)
        ultimately show ?thesis using fits sv(2) True by (auto simp: block_fits_def)
      next
        case False
        then have "c_block ?c ! s ! v' = c_block c ! s ! v'" by (simp only: nth) auto
        with v' b old(2) show ?thesis by simp
      qed
    qed (use b old(1) in simp)
  qed
  then show ?thesis by (simp add: tags_ok_def same)
qed

lemma set_block_line:
  assumes sh: "shape_ok c" and tg: "tags_ok c" and st: "st < unat (c_NUM_SET c)" and w: "w < unat (c_NUM_WAY c)"
    and fits: "block_fits c st w b"
  shows "line (set_block c st w b) a =
      (if tag_match a b then Some b
       else if tag_match a (c_block c ! st ! w) then None else line c a)"
proof -
  let ?c = "set_block c st w b"
  note nth = set_block_nth [OF sh st w, of b]
  have same: "c_NUM_WAY ?c = c_NUM_WAY c" "get_set ?c = get_set c"
    by (simp_all add: set_block_def get_set_def fun_eq_iff)
  have l: "(line ?c a = Some x) = (\<exists>v < unat (c_NUM_WAY c). c_block ?c ! get_set c a ! v = x \<and> tag_match a x)" for x
    using line_iff [OF shape_set_block [OF sh] set_block_tags [OF assms]] by (simp add: same)
  have lst: "st < length (c_block c)" using shape_set [OF sh st] by simp
  show ?thesis
  proof (cases "tag_match a b")
    case True
    then have "get_set c a = st" using fits by (auto simp: tag_match_def block_fits_def)
    then have "c_block ?c ! get_set c a ! w = b" by (simp add: nth)
    with True w have "line ?c a = Some b" by (subst l) blast
    with True show ?thesis by simp
  next
    case nb: False
    show ?thesis
    proof (cases "tag_match a (c_block c ! st ! w)")
      case True
      then have val: "b_valid (c_block c ! st ! w) \<noteq> 0" and a: "a = b_tag (c_block c ! st ! w)"
        by (auto simp: tag_match_def)
      note old = tags_okD [OF tg lst w val, folded a]
      have "line ?c a \<noteq> Some x" for x
      proof
        assume "line ?c a = Some x"
        then obtain v where v: "v < unat (c_NUM_WAY c)" "c_block ?c ! st ! v = x" "tag_match a x"
          unfolding l old(1) by blast
        show False
        proof (cases "v = w")
          case True
          with v nb show False by (simp add: nth)
        next
          case False
          with v old(2) [of v] show False by (simp add: nth)
        qed
      qed
      then show ?thesis using True nb by (cases "line ?c a") auto
    next
      case False
      have eq: "(c_block ?c ! get_set c a ! v = x \<and> tag_match a x) = (c_block c ! get_set c a ! v = x \<and> tag_match a x)" for v x
        using False nb by (cases "get_set c a = st \<and> v = w") (simp_all only: nth if_True if_False, auto)
      have "(line ?c a = Some x) = (line c a = Some x)" for x
        by (simp only: l line_iff [OF sh tg] eq)
      then have "line ?c a = line c a" by (metis option.exhaust)
      then show ?thesis using False nb by (simp only: if_False)
    qed
  qed
qed

lemma check_hit_plain:
  assumes "shape_ok c" "\<not> is_perfect g c" "\<not> (is_semi_perfect g c \<and> p_type p = LOAD)"
  shows "check_hit g c p = Some (c,
    case first_index (\<lambda>w. tag_match (p_address p) (c_block c ! get_set c (p_address p) ! w)) 0 (unat (c_NUM_WAY c)) of
      Some w \<Rightarrow> int w | None \<Rightarrow> - 1)"
proof -
  note lt = get_set_less [OF assms(1), of "p_address p"]
  have plain: "(is_semi_perfect g c \<and> p_type p = LOAD) = False" using assms(3) by simp
  from shape_set [OF assms(1) lt] lt assms(2) show ?thesis
    by (simp add: check_hit_def Let_def search_arr_eq plain del: de_Morgan_conj)
qed

lemma check_hit_line:
  assumes "shape_ok c" "tags_ok c" "\<not> is_perfect g c" "\<not> (is_semi_perfect g c \<and> p_type p = LOAD)"
  shows "\<exists>i. check_hit g c p = Some (c, i) \<and>
    (case line c (p_address p) of None \<Rightarrow> i = - 1
     | Some b \<Rightarrow> 0 \<le> i \<and> nat i < unat (c_NUM_WAY c) \<and> c_block c ! get_set c (p_address p) ! nat i = b)"
  using check_hit_plain [OF assms(1,3,4)]
  by (auto simp: line_def split: option.splits dest!: first_index_Some)

lemma line_valid: "line c a = Some b \<Longrightarrow> b_valid b \<noteq> 0 \<and> b_tag b = a"
  by (auto simp: line_def tag_match_def dest!: first_index_Some)

definition same_shape :: "cache \<Rightarrow> cache \<Rightarrow> bool" where
  "same_shape c c' \<longleftrightarrow> c_NUM_SET c' = c_NUM_SET c \<and> c_NUM_WAY c' = c_NUM_WAY c"

lemma invalidate_total:
  assumes sh: "shape_ok c" and tg: "tags_ok c"
  shows "\<exists>c' i. invalidate_entry c a = Some (c', i) \<and> shape_ok c' \<and> tags_ok c' \<and>
    line c' = (line c)(a := None) \<and> c_fill_level c' = c_fill_level c \<and> (i = - 1 \<longleftrightarrow> line c a = None)"
proof -
  let ?st = "get_set c a"
  let ?P = "\<lambda>w. tag_match a (c_block c ! ?st ! w)"
  note lt = get_set_less [OF sh, of a]
  note row = shape_set [OF sh lt]
  show ?thesis
  proof (cases "first_index ?P 0 (unat (c_NUM_WAY c))")
    case None
    then have "line c a = None" by (simp add: line_def)
    then have "line c = (line c)(a := None)" by auto
    moreover have "invalidate_entry c a = Some (c, - 1)"
      using lt row None by (simp add: invalidate_entry_def Let_def search_arr_eq)
    ultimately show ?thesis using sh tg \<open>line c a = None\<close> by auto
  next
    case (Some w)
    note w = first_index_Some [OF Some]
    let ?b = "(c_block c ! ?st ! w)\<lparr>b_valid := 0\<rparr>"
    have "invalidate_entry c a = Some (set_block c ?st w ?b, int w)"
      using lt row Some put_block_eq [OF sh lt, of w] w by (simp add: invalidate_entry_def Let_def search_arr_eq)
    moreover have fits: "block_fits c ?st w ?b" by (simp add: block_fits_def)
    moreover have "line (set_block c ?st w ?b) x = ((line c)(a := None)) x" for x
      using set_block_line [OF sh tg lt _ fits, of x] w by (auto simp: tag_match_def)
    moreover have "line c a \<noteq> None" using Some by (simp add: line_def)
    ultimately show ?thesis
      using shape_set_block [OF sh] set_block_tags [OF sh tg lt _ fits] w by (auto simp: set_block_def)
  qed
qed

definition is_tlb :: "cache \<Rightarrow> bool" where
  "is_tlb c \<longleftrightarrow> c_cache_type c = IS_ITLB \<or> c_cache_type c = IS_DTLB \<or> c_cache_type c = IS_STLB"

lemma fill_cache_eq:
  assumes sh: "shape_ok c" and st: "st < unat (c_NUM_SET c)" and w: "w < unat (c_NUM_WAY c)"
    and d: "is_tlb c \<Longrightarrow> p_data p \<noteq> 0"
  shows "\<exists>t. fill_cache c st w p = Some (set_block (c\<lparr>c_stats := t\<rparr>) st w (filled_block (c_block c ! st ! w) p))"
proof -
  have blk: "get_block c st w = Some (c_block c ! st ! w)"
    using shape_set [OF sh st] w by (simp add: get_block_def)
  have put: "put_block (c\<lparr>c_stats := t\<rparr>) st w b = Some (set_block (c\<lparr>c_stats := t\<rparr>) st w b)" for t b
    using sh st w by (intro put_block_eq) (simp_all add: shape_ok_def)
  have "fill_cache c st w p = put_block (c\<lparr>c_stats := fill_stats (c_stats c) (c_block c ! st ! w) p\<rparr>) st w
      (filled_block (c_block c ! st ! w) p)"
    using d by (auto simp: fill_cache_def blk is_tlb_def)
  then show ?thesis using put by auto
qed

lemma line_frame [simp]: "line (c\<lparr>c_stats := t\<rparr>) = line c"
  by (simp add: line_def get_set_def fun_eq_iff)

lemma shape_frame [simp]: "shape_ok (c\<lparr>c_stats := t\<rparr>) = shape_ok c"
  by (simp add: shape_ok_def)

lemma tags_frame [simp]: "tags_ok (c\<lparr>c_stats := t\<rparr>) = tags_ok c"
  by (simp add: tags_ok_def get_set_def)

lemma fill_total:
  assumes sh: "shape_ok c" and tg: "tags_ok c" and w: "w < unat (c_NUM_WAY c)"
    and st: "st = get_set c (p_address p)" and d: "is_tlb c \<Longrightarrow> p_data p \<noteq> 0"
    and new: "line c (p_address p) = None"
  shows "\<exists>c'. fill_cache c st w p = Some c' \<and> shape_ok c' \<and> tags_ok c' \<and>
    line c' = (\<lambda>a. if tag_match a (c_block c ! st ! w) then None else line c a)
      (p_address p \<mapsto> filled_block (c_block c ! st ! w) p)"
proof -
  let ?b = "filled_block (c_block c ! st ! w) p"
  have lt: "st < unat (c_NUM_SET c)" using get_set_less [OF sh] st by simp
  obtain t where t: "fill_cache c st w p = Some (set_block (c\<lparr>c_stats := t\<rparr>) st w ?b)"
    using fill_cache_eq [OF sh lt w, of p] d by blast
  let ?c = "c\<lparr>c_stats := t\<rparr>"
  have b: "b_valid ?b \<noteq> 0" "b_tag ?b = p_address p" by (simp_all add: filled_block_def)
  have "\<not> tag_match (p_address p) (c_block c ! st ! v)" if "v < unat (c_NUM_WAY c)" for v
    using new that st by (auto simp: line_def first_index_None)
  then have fits: "block_fits ?c st w ?b" using st b by (simp add: block_fits_def get_set_def)
  have sh': "shape_ok ?c" "tags_ok ?c" "st < unat (c_NUM_SET ?c)" "w < unat (c_NUM_WAY ?c)" using sh tg lt w by simp_all
  have "line (set_block ?c st w ?b) a = ((\<lambda>a. if tag_match a (c_block c ! st ! w) then None else line c a)
      (p_address p \<mapsto> ?b)) a" for a
    using set_block_line [OF sh' fits, of a] b by (auto simp: tag_match_def)
  then show ?thesis
    using t shape_set_block [OF sh'(1)] set_block_tags [OF sh' fits] by blast
qed

section \<open>The store contract\<close>

text \<open>
  A store of lines by address, as the page allocator and the fill path use the caches:
  invalidating an address removes it and nothing else.
\<close>

locale line_store =
  fixes look :: "'c \<Rightarrow> 'a \<Rightarrow> 'b option" and inval :: "'c \<Rightarrow> 'a \<Rightarrow> ('c \<times> int) option" and inv :: "'c \<Rightarrow> bool"
  assumes inval_total: "inv c \<Longrightarrow> \<exists>c' i. inval c a = Some (c', i) \<and> inv c' \<and> look c' = (look c)(a := None)"
begin

lemma inval_all:
  "inv c \<Longrightarrow> \<exists>c'. fold_opt (\<lambda>c a. map_option fst (inval c a)) c as = Some c' \<and> inv c' \<and>
     look c' = (\<lambda>a. if a \<in> set as then None else look c a)"
proof (induction as arbitrary: c)
  case (Cons a as)
  from inval_total [OF Cons.prems] obtain c1 i where
    c1: "inval c a = Some (c1, i)" "inv c1" "look c1 = (look c)(a := None)" by blast
  from Cons.IH [OF c1(2)] obtain c' where
    "fold_opt (\<lambda>c a. map_option fst (inval c a)) c1 as = Some c'" "inv c'"
    "look c' = (\<lambda>a. if a \<in> set as then None else look c1 a)" by blast
  with c1 show ?case by (auto simp: fun_eq_iff)
qed simp

end

interpretation ls: line_store line invalidate_entry "\<lambda>c. shape_ok c \<and> tags_ok c"
  by unfold_locales (use invalidate_total in blast)

section \<open>Invariants of the miss status registers\<close>

definition returned :: "packet \<Rightarrow> bool" where
  "returned e \<longleftrightarrow> p_returned e = COMPLETED"

definition mshr_inv :: "cache \<Rightarrow> bool" where
  "mshr_inv c \<longleftrightarrow> table_inv (c_MSHR c) \<and> q_size (c_MSHR c) = c_MSHR_SIZE c \<and>
     list_all (\<lambda>e. p_address e = 0 \<longrightarrow> \<not> returned e) (q_entry (c_MSHR c))"

text \<open>The scheduled fill is the earliest returned miss.\<close>

definition fill_inv :: "cache \<Rightarrow> bool" where
  "fill_inv c \<longleftrightarrow> (\<exists>m. earliest of_nat returned (q_entry (c_MSHR c)) (unat (c_MSHR_SIZE c)) (- 1, c_MSHR_SIZE c) m \<and>
     q_next_fill_cycle (c_MSHR c) = fst m \<and> (fst m \<noteq> - 1 \<longrightarrow> q_next_fill_index (c_MSHR c) = snd m))"

lemma mshr_length: "mshr_inv c \<Longrightarrow> length (q_entry (c_MSHR c)) = unat (c_MSHR_SIZE c)"
  by (simp add: mshr_inv_def table_inv_def)

lemma returned_simps [simp]:
  "returned (e\<lparr>p_event_cycle := x\<rparr>) = returned e" "returned (e\<lparr>p_returned := INFLIGHT\<rparr>) = False"
  "returned packet_new = False"
  by (simp_all add: returned_def champsim_consts packet_new_def)

lemma queue_min_event_returned:
  "queue_min_event (\<lambda>e. p_returned e = COMPLETED) q = queue_min_event returned q"
  by (simp add: returned_def [abs_def])

lemma update_fill_cycle_total:
  assumes "mshr_inv c"
  shows "\<exists>m. update_fill_cycle c = Some (c\<lparr>c_MSHR := (c_MSHR c)\<lparr>q_next_fill_cycle := fst m, q_next_fill_index := snd m\<rparr>\<rparr>) \<and>
    earliest of_nat returned (q_entry (c_MSHR c)) (unat (c_MSHR_SIZE c)) (- 1, c_MSHR_SIZE c) m"
proof -
  have sz: "length (q_entry (c_MSHR c)) = unat (q_size (c_MSHR c))" "q_size (c_MSHR c) = c_MSHR_SIZE c"
    using assms by (simp_all add: mshr_inv_def table_inv_def)
  obtain m where "queue_min_event returned (c_MSHR c) = Some m"
    "earliest of_nat returned (q_entry (c_MSHR c)) (unat (q_size (c_MSHR c))) (- 1, q_size (c_MSHR c)) m"
    using queue_min_event_earliest [OF sz(1)] by blast
  then show ?thesis
    by (intro exI [of _ m]) (simp add: update_fill_cycle_def queue_min_event_returned flip: sz(2))
qed

lemma mshr_inv_frame:
  "mshr_inv (c\<lparr>c_MSHR := (c_MSHR c)\<lparr>q_next_fill_cycle := x, q_next_fill_index := y\<rparr>\<rparr>) = mshr_inv c"
  by (simp add: mshr_inv_def table_inv_def used_def)

lemma update_fill_cycle_inv:
  assumes "mshr_inv c"
  shows "\<exists>x y. update_fill_cycle c = Some (c\<lparr>c_MSHR := (c_MSHR c)\<lparr>q_next_fill_cycle := x, q_next_fill_index := y\<rparr>\<rparr>) \<and>
    mshr_inv (c\<lparr>c_MSHR := (c_MSHR c)\<lparr>q_next_fill_cycle := x, q_next_fill_index := y\<rparr>\<rparr>) \<and>
    fill_inv (c\<lparr>c_MSHR := (c_MSHR c)\<lparr>q_next_fill_cycle := x, q_next_fill_index := y\<rparr>\<rparr>)"
  using update_fill_cycle_total [OF assms] assms by (auto simp: fill_inv_def mshr_inv_frame)

lemma check_mshr_correct:
  assumes inv: "mshr_inv c" and a: "p_address p \<noteq> 0"
  shows "\<exists>i. check_mshr c p = Some i \<and> (i = - 1 \<longleftrightarrow> p_address p \<notin> addresses (c_MSHR c)) \<and>
    (i \<noteq> - 1 \<longrightarrow> nat i \<in> used (c_MSHR c) \<and> 0 \<le> i \<and> p_address (q_entry (c_MSHR c) ! nat i) = p_address p)"
proof -
  have tab: "table_inv (c_MSHR c)" and sz: "q_size (c_MSHR c) = c_MSHR_SIZE c"
    using inv by (simp_all add: mshr_inv_def)
  have "check_mshr c p = Some (case first_index (\<lambda>i. p_address (q_entry (c_MSHR c) ! i) = p_address p) 0
      (unat (c_MSHR_SIZE c)) of Some i \<Rightarrow> int i | None \<Rightarrow> - 1)"
    using mshr_length [OF inv] by (simp add: check_mshr_def search_arr_eq)
  then show ?thesis
    using address_search [OF tab a] address_found [OF tab a]
    by (auto simp: sz split: option.splits)
qed

lemma core_cycle_Some [simp]:
  "unat cpu < length (g_current_core_cycle g) \<Longrightarrow> core_cycle g cpu = Some (g_current_core_cycle g ! unat cpu)"
  by (simp add: core_cycle_def)

lemma add_mshr_total:
  assumes inv: "mshr_inv c" and fi: "fill_inv c" and room: "q_occupancy (c_MSHR c) < c_MSHR_SIZE c"
    and cpu: "unat (p_cpu p) < length (g_current_core_cycle g)"
    and a: "p_address p \<noteq> 0" "p_address p \<notin> addresses (c_MSHR c)"
  shows "\<exists>q i. add_mshr g c p = Some (c\<lparr>c_MSHR := q\<rparr>, p\<lparr>p_cycle_enqueued := g_current_core_cycle g ! unat (p_cpu p)\<rparr>) \<and>
    mshr_inv (c\<lparr>c_MSHR := q\<rparr>) \<and> fill_inv (c\<lparr>c_MSHR := q\<rparr>) \<and>
    addresses q = insert (p_address p) (addresses (c_MSHR c)) \<and>
    i < length (q_entry q) \<and> p_address (q_entry (c_MSHR c) ! i) = 0 \<and>
    q_entry q = (q_entry (c_MSHR c))[i := p\<lparr>p_cycle_enqueued := g_current_core_cycle g ! unat (p_cpu p), p_returned := INFLIGHT\<rparr>] \<and>
    unat (q_occupancy q) = unat (q_occupancy (c_MSHR c)) + 1 \<and>
    q_next_fill_cycle q = q_next_fill_cycle (c_MSHR c) \<and> q_next_fill_index q = q_next_fill_index (c_MSHR c)"
proof -
  let ?q = "c_MSHR c"
  have tab: "table_inv ?q" and sz: "q_size ?q = c_MSHR_SIZE c" using inv by (simp_all add: mshr_inv_def)
  note len = mshr_length [OF inv]
  let ?p = "p\<lparr>p_cycle_enqueued := g_current_core_cycle g ! unat (p_cpu p)\<rparr>"
  let ?e = "?p\<lparr>p_returned := INFLIGHT\<rparr>"
  obtain j where "j < length (q_entry ?q)" "p_address (q_entry ?q ! j) = 0"
    using table_free [OF tab] room sz by auto
  then obtain i where i: "first_index (\<lambda>i. p_address (q_entry ?q ! i) = 0) 0 (unat (c_MSHR_SIZE c)) = Some i"
    using first_index_ex [of 0 j "unat (c_MSHR_SIZE c)" "\<lambda>i. p_address (q_entry ?q ! i) = 0"] len by auto
  then have il: "i < length (q_entry ?q)" "p_address (q_entry ?q ! i) = 0"
    using len by (auto dest: first_index_Some)
  let ?q' = "?q\<lparr>q_entry := (q_entry ?q)[i := ?e], q_occupancy := q_occupancy ?q + 1\<rparr>"
  have free: "\<not> returned (q_entry ?q ! i)" using inv il by (auto simp: mshr_inv_def list_all_length)
  have add: "add_mshr g c p = Some (c\<lparr>c_MSHR := ?q'\<rparr>, ?p)"
    using cpu i len by (simp add: add_mshr_def search_arr_eq Let_def)
  note tadd = table_add [OF tab il, of ?e, simplified, OF a]
  have "mshr_inv (c\<lparr>c_MSHR := ?q'\<rparr>)"
    using inv tadd(1) il(1) by (auto simp: mshr_inv_def list_all_length nth_list_update)
  moreover have "earliest of_nat returned (q_entry ?q') k m0 m = earliest of_nat returned (q_entry ?q) k m0 m" for k m0 and m :: "u64 \<times> u32"
    using free il by (intro earliest_cong) (auto simp: nth_list_update)
  then have "fill_inv (c\<lparr>c_MSHR := ?q'\<rparr>)" using fi by (simp add: fill_inv_def)
  ultimately show ?thesis using add tadd(2,3) il by (intro exI [of _ ?q'] exI [of _ i]) simp
qed

lemma mshr_replace:
  assumes inv: "mshr_inv c" and i: "i \<in> used (c_MSHR c)" and e: "p_address e = p_address (q_entry (c_MSHR c) ! i)"
  shows "mshr_inv (c\<lparr>c_MSHR := (c_MSHR c)\<lparr>q_entry := (q_entry (c_MSHR c))[i := e]\<rparr>\<rparr>)"
    and "addresses ((c_MSHR c)\<lparr>q_entry := (q_entry (c_MSHR c))[i := e]\<rparr>) = addresses (c_MSHR c)"
proof -
  have tab: "table_inv (c_MSHR c)" using inv by (simp add: mshr_inv_def)
  note r = table_replace [OF tab used_bound [OF i] e]
  then show "addresses ((c_MSHR c)\<lparr>q_entry := (q_entry (c_MSHR c))[i := e]\<rparr>) = addresses (c_MSHR c)" by simp
  have "p_address e \<noteq> 0" using i e by (simp add: used_def)
  then have "list_all (\<lambda>e. p_address e = 0 \<longrightarrow> \<not> returned e) ((q_entry (c_MSHR c))[i := e])"
    using inv used_bound [OF i] by (auto simp: mshr_inv_def list_all_length nth_list_update)
  then show "mshr_inv (c\<lparr>c_MSHR := (c_MSHR c)\<lparr>q_entry := (q_entry (c_MSHR c))[i := e]\<rparr>\<rparr>)"
    using inv r(1) by (simp add: mshr_inv_def)
qed

lemma mshr_inv_num_returned:
  "mshr_inv (c\<lparr>c_MSHR := q\<lparr>q_num_returned := n\<rparr>\<rparr>) = mshr_inv (c\<lparr>c_MSHR := q\<rparr>)"
  "addresses (q\<lparr>q_num_returned := n\<rparr>) = addresses q"
  by (simp_all add: mshr_inv_def table_inv_def used_def addresses_def)

lemma add_latency_Some [simp]:
  "unat cpu < length (g_current_core_cycle g) \<Longrightarrow>
     add_latency g c cpu e = Some (e\<lparr>p_event_cycle := (if p_event_cycle e < g_current_core_cycle g ! unat cpu
       then g_current_core_cycle g ! unat cpu else p_event_cycle e) + ucast (c_LATENCY c)\<rparr>)"
  by (simp add: add_latency_def)

text \<open>The register that \<open>return_data\<close> completes.\<close>

definition returned_entry :: "globals \<Rightarrow> cache \<Rightarrow> packet \<Rightarrow> packet \<Rightarrow> packet" where
  "returned_entry g c p e = e\<lparr>p_returned := COMPLETED, p_data := p_data p, p_pf_metadata := p_pf_metadata p,
     p_event_cycle := (if p_event_cycle e < g_current_core_cycle g ! unat (p_cpu p)
       then g_current_core_cycle g ! unat (p_cpu p) else p_event_cycle e) + ucast (c_LATENCY c)\<rparr>"

lemma return_data_total:
  assumes inv: "mshr_inv c" and cpu: "unat (p_cpu p) < length (g_current_core_cycle g)"
    and a: "p_address p \<noteq> 0" "p_address p \<in> addresses (c_MSHR c)"
  shows "\<exists>q i. return_data g c p = Some (c\<lparr>c_MSHR := q\<rparr>) \<and> mshr_inv (c\<lparr>c_MSHR := q\<rparr>) \<and> fill_inv (c\<lparr>c_MSHR := q\<rparr>) \<and>
    addresses q = addresses (c_MSHR c) \<and> i \<in> used (c_MSHR c) \<and> p_address (q_entry (c_MSHR c) ! i) = p_address p \<and>
    q_entry q = (q_entry (c_MSHR c))[i := returned_entry g c p (q_entry (c_MSHR c) ! i)] \<and>
    q_occupancy q = q_occupancy (c_MSHR c)"
proof -
  let ?q = "c_MSHR c"
  obtain i where i: "check_mshr c p = Some i" "i \<noteq> - 1" "nat i \<in> used ?q" "p_address (q_entry ?q ! nat i) = p_address p"
    using check_mshr_correct [OF inv a(1)] a(2) by blast
  let ?j = "nat i"
  let ?e = "returned_entry g c p (q_entry ?q ! ?j)"
  let ?q1 = "?q\<lparr>q_num_returned := q_num_returned ?q + 1, q_entry := (q_entry ?q)[?j := ?e]\<rparr>"
  let ?c1 = "c\<lparr>c_MSHR := ?q1\<rparr>"
  have adr: "p_address ?e = p_address (q_entry ?q ! ?j)" by (simp add: returned_entry_def)
  have q1: "?q1 = (?q\<lparr>q_entry := (q_entry ?q)[?j := ?e]\<rparr>)\<lparr>q_num_returned := q_num_returned ?q + 1\<rparr>" by simp
  have inv1: "mshr_inv ?c1" and ad1: "addresses ?q1 = addresses ?q"
    unfolding q1 mshr_inv_num_returned using mshr_replace [OF inv i(3) adr] by simp_all
  obtain x y where u: "update_fill_cycle ?c1 = Some (?c1\<lparr>c_MSHR := ?q1\<lparr>q_next_fill_cycle := x, q_next_fill_index := y\<rparr>\<rparr>)"
      "mshr_inv (?c1\<lparr>c_MSHR := ?q1\<lparr>q_next_fill_cycle := x, q_next_fill_index := y\<rparr>\<rparr>)"
      "fill_inv (?c1\<lparr>c_MSHR := ?q1\<lparr>q_next_fill_cycle := x, q_next_fill_index := y\<rparr>\<rparr>)"
    using update_fill_cycle_inv [OF inv1] by auto
  have "return_data g c p = update_fill_cycle ?c1"
    using i used_bound [OF i(3)] cpu by (simp add: return_data_def returned_entry_def Let_def)
  moreover have "addresses (?q1\<lparr>q_next_fill_cycle := x, q_next_fill_index := y\<rparr>) = addresses ?q"
    using ad1 by (simp add: addresses_def used_def)
  ultimately show ?thesis
    using u i by (intro exI [of _ "?q1\<lparr>q_next_fill_cycle := x, q_next_fill_index := y\<rparr>"] exI [of _ ?j]) simp
qed

lemma mshr_remove:
  assumes inv: "mshr_inv c" and i: "i \<in> used (c_MSHR c)"
  shows "\<exists>q. remove_queue (c_MSHR c) i = Some q \<and> mshr_inv (c\<lparr>c_MSHR := q\<rparr>) \<and>
    addresses q = addresses (c_MSHR c) - {p_address (q_entry (c_MSHR c) ! i)} \<and>
    q_entry q = (q_entry (c_MSHR c))[i := packet_new]"
proof -
  have tab: "table_inv (c_MSHR c)" using inv by (simp add: mshr_inv_def)
  obtain q where q: "remove_queue (c_MSHR c) i = Some q" "table_inv q"
      "addresses q = addresses (c_MSHR c) - {p_address (q_entry (c_MSHR c) ! i)}"
      "q_entry q = (q_entry (c_MSHR c))[i := packet_new]" "q_size q = q_size (c_MSHR c)"
    using table_remove [OF tab i] by blast
  moreover have "mshr_inv (c\<lparr>c_MSHR := q\<rparr>)"
    using inv q used_bound [OF i] by (auto simp: mshr_inv_def list_all_length nth_list_update)
  ultimately show ?thesis by blast
qed

section \<open>The request queues\<close>

lemma entry_is_free_ring:
  assumes "ring_inv q" "q_occupancy q < q_size q"
  shows "entry_is_free q = Some True"
proof -
  have n: "q_size q \<noteq> 0" using assms(2) by auto
  note f = ring_facts [OF assms(1) n]
  have o: "unat (q_occupancy q) < unat (q_size q)" using assms(2) by (simp add: word_less_nat_alt)
  have "p_address (q_entry q ! ring_idx q (unat (q_occupancy q))) = 0"
    using assms(1) o by (simp add: ring_inv_def list_all_iff)
  then show ?thesis using f(1,5,6) by (simp add: entry_is_free_def)
qed

lemma ring_stats [simp]:
  "ring_inv (q\<lparr>q_MERGED := m\<rparr>) = ring_inv q" "ring_inv (q\<lparr>q_ACCESS := m\<rparr>) = ring_inv q"
  "ring_inv (q\<lparr>q_TO_CACHE := m\<rparr>) = ring_inv q" "ring_inv (q\<lparr>q_FULL := m\<rparr>) = ring_inv q"
  "ring_inv (q\<lparr>q_FORWARD := m\<rparr>) = ring_inv q"
  "q_list (q\<lparr>q_MERGED := m\<rparr>) = q_list q" "q_list (q\<lparr>q_ACCESS := m\<rparr>) = q_list q"
  "q_list (q\<lparr>q_TO_CACHE := m\<rparr>) = q_list q" "q_list (q\<lparr>q_FULL := m\<rparr>) = q_list q"
  "q_list (q\<lparr>q_FORWARD := m\<rparr>) = q_list q"
  by (simp_all add: ring_inv_def ring_idx_def q_list_def)

text \<open>The entry a request becomes: itself, with the latency of the cache added to its cycle.\<close>

definition queued :: "globals \<Rightarrow> cache \<Rightarrow> packet \<Rightarrow> packet" where
  "queued g c p = p\<lparr>p_event_cycle := (if p_event_cycle p < g_current_core_cycle g ! unat (p_cpu p)
     then g_current_core_cycle g ! unat (p_cpu p) else p_event_cycle p) + ucast (c_LATENCY c)\<rparr>"

lemma add_wq_total:
  assumes inv: "ring_inv (c_WQ c)" and cpu: "unat (p_cpu p) < length (g_current_core_cycle g)"
    and room: "q_occupancy (c_WQ c) < q_size (c_WQ c) \<or> (\<exists>e \<in> set (q_list (c_WQ c)). same_packet (c_WQ c) p e)"
  shows "\<exists>q r. add_wq g c p = Some (c\<lparr>c_WQ := q\<rparr>, r) \<and> ring_inv q \<and> q_size q = q_size (c_WQ c) \<and> q_name q = q_name (c_WQ c) \<and>
    q_list q = (if \<exists>e \<in> set (q_list (c_WQ c)). same_packet (c_WQ c) p e then q_list (c_WQ c)
      else q_list (c_WQ c) @ [queued g c p])"
proof -
  let ?q = "c_WQ c"
  obtain i where i: "check_queue ?q p = Some i" using check_queue_total [OF inv] by blast
  show ?thesis
  proof (cases "i = - 1")
    case False
    then have "\<exists>e \<in> set (q_list ?q). same_packet ?q p e" using check_queue_miss [OF inv, of p] i by auto
    then show ?thesis using i False inv by (auto simp: add_wq_def)
  next
    case True
    then have none: "\<not> (\<exists>e \<in> set (q_list ?q). same_packet ?q p e)" using check_queue_miss [OF inv, of p] i by auto
    then have lt: "q_occupancy ?q < q_size ?q" using room by blast
    obtain q' where q': "push_tail ?q (queued g c p) = Some q'" "ring_inv q'" "q_list q' = q_list ?q @ [queued g c p]"
        "q_size q' = q_size ?q" "q_name q' = q_name ?q"
      using push_tail_ring [OF inv lt] by blast
    have nle: "(q_size ?q \<le> q_occupancy ?q) = False" using lt by (simp add: not_le)
    have "add_wq g c p = Some (c\<lparr>c_WQ := q'\<lparr>q_TO_CACHE := q_TO_CACHE q' + 1, q_ACCESS := q_ACCESS q' + 1\<rparr>\<rparr>, - 1)"
      using i True entry_is_free_ring [OF inv lt] cpu q'(1)
      by (simp add: add_wq_def queued_def nle)
    with q' none show ?thesis by auto
  qed
qed

lemma enqueue_request_total:
  assumes inv: "ring_inv q" and lim: "q_size q = limit" and cpu: "unat (p_cpu p) < length (g_current_core_cycle g)"
    and a: "p_address p \<noteq> 0"
  shows "\<exists>q' r. enqueue_request g c limit q p = Some (q', r) \<and> ring_inv q' \<and> q_size q' = q_size q \<and> q_name q' = q_name q \<and>
    (if q_occupancy q = limit then r = - 2 \<and> q_list q' = q_list q else r = - 1 \<and> q_list q' = q_list q @ [queued g c p])"
proof (cases "q_occupancy q = limit")
  case True
  then show ?thesis using inv by (simp add: enqueue_request_def)
next
  case False
  have "q_occupancy q \<le> q_size q" using inv by (simp add: ring_inv_def)
  then have lt: "q_occupancy q < q_size q" using False lim by auto
  obtain q' where q': "push_tail q (queued g c p) = Some q'" "ring_inv q'" "q_list q' = q_list q @ [queued g c p]"
      "q_size q' = q_size q" "q_name q' = q_name q"
    using push_tail_ring [OF inv lt] by blast
  have "enqueue_request g c limit q p = Some (q'\<lparr>q_TO_CACHE := q_TO_CACHE q' + 1, q_ACCESS := q_ACCESS q' + 1\<rparr>, - 1)"
    using False entry_is_free_ring [OF inv lt] cpu q'(1) a by (simp add: enqueue_request_def queued_def)
  with q' False show ?thesis by simp
qed

section \<open>Prefetch feedback\<close>

definition epoch_accuracy :: "u64 \<Rightarrow> u64 \<Rightarrow> u32 option" where
  "epoch_accuracy useful filled =
     (if filled \<noteq> 0 then f32_to_u32 (f32_round (f32_round (100 * f32_of_u64 useful) / f32_of_u64 filled))
      else Some 0)"

definition accuracy_level :: "u32 \<Rightarrow> u32 option" where
  "accuracy_level acc = do {
     l \<leftarrow> f32_to_u32 (f32_round (f32_of_u64 (ucast acc) / 10));
     Some (if of_nat CACHE_ACC_LEVELS \<le> l then of_nat (CACHE_ACC_LEVELS - 1) else l) }"

text \<open>
  The prefetcher hooks of the prefetchers in the tree, \<open>prefetcher/l1d_prefetcher.cc\<close> and its
  siblings: they do not prefetch, and pass the metadata on.  The metadata of a demand request
  is never initialised; \<open>None\<close> stands for that value.
\<close>

definition l2c_prefetcher_operate :: "u64 \<Rightarrow> u64 \<Rightarrow> u8 \<Rightarrow> u8 \<Rightarrow> u32 option \<Rightarrow> u32 option" where
  "l2c_prefetcher_operate addr ip cache_hit type metadata_in = metadata_in"

definition l2c_prefetcher_cache_fill :: "u64 \<Rightarrow> nat \<Rightarrow> nat \<Rightarrow> u8 \<Rightarrow> u64 \<Rightarrow> u32 option \<Rightarrow> u32 option" where
  "l2c_prefetcher_cache_fill addr st way prefetch evicted_addr metadata_in = metadata_in"

definition llc_prefetcher_operate :: "u64 \<Rightarrow> u64 \<Rightarrow> u8 \<Rightarrow> u8 \<Rightarrow> u32 option \<Rightarrow> u32 option" where
  "llc_prefetcher_operate addr ip cache_hit type metadata_in = metadata_in"

definition llc_prefetcher_cache_fill :: "u64 \<Rightarrow> nat \<Rightarrow> nat \<Rightarrow> u8 \<Rightarrow> u64 \<Rightarrow> u32 option \<Rightarrow> u32 option" where
  "llc_prefetcher_cache_fill addr st way prefetch evicted_addr metadata_in = metadata_in"

text \<open>\<open>handle_prefetch_feedback\<close>; the level it broadcasts reaches prefetchers that ignore it.\<close>

definition handle_prefetch_feedback :: "globals \<Rightarrow> cache \<Rightarrow> cache option" where
  "handle_prefetch_feedback g c = do {
     let t = (c_stats c)\<lparr>t_cycle := t_cycle (c_stats c) + 1\<rparr>;
     if k_measure_cache_acc g \<and> t_next_measure_cycle t \<le> t_cycle t then do {
       accuracy \<leftarrow> epoch_accuracy (t_pf_useful_epoch t) (t_pf_filled_epoch t);
       let acc = (t_pref_acc t + accuracy) div 2;
       level \<leftarrow> accuracy_level acc;
       hist \<leftarrow> bump (t_acc_epoch_hist t) (unat level);
       Some (c\<lparr>c_stats := t\<lparr>t_pref_acc := acc, t_pf_useful_epoch := 0, t_pf_filled_epoch := 0,
         t_next_measure_cycle := t_cycle t + ucast (k_measure_cache_acc_epoch g),
         t_total_acc_epochs := t_total_acc_epochs t + 1, t_acc_epoch_hist := hist\<rparr>\<rparr>) }
     else Some (c\<lparr>c_stats := t\<rparr>) }"

lemma accuracy_level_total: "\<exists>l. accuracy_level acc = Some l \<and> unat l < CACHE_ACC_LEVELS"
proof -
  let ?v = "f32_of_u64 (ucast acc)"
  have "uint (ucast acc :: u64) < 4294967296"
    using uint_lt2p [of acc] by (simp add: unsigned_ucast_eq take_bit_eq_mod)
  then have w: "(of_int (uint (ucast acc :: u64)) :: rat) < 4294967296"
    by (metis of_int_less_iff of_int_numeral)
  have nn: "(0::rat) \<le> of_int (uint (ucast acc :: u64))" unfolding of_int_0_le_iff by simp
  have "?v \<le> 2 * of_int (uint (ucast acc :: u64))"
    unfolding f32_of_u64_def by (rule f32_round_le [OF nn])
  moreover have "0 \<le> ?v / 10" by (simp add: f32_of_u64_def f32_round_nonneg)
  then have "f32_round (?v / 10) \<le> 2 * (?v / 10)" by (rule f32_round_le)
  moreover have "f < 4294967296" if "v \<le> 2 * x" "f \<le> 2 * (v / 10)" "x < 4294967296" "0 \<le> x" for f v x :: rat
    using that by (simp add: field_simps)
  ultimately have "f32_round (?v / 10) < 4294967296" using w nn by blast
  then have "\<lfloor>f32_round (?v / 10)\<rfloor> < 2 ^ 32" by (simp add: floor_less_iff)
  then show ?thesis
    by (auto simp: accuracy_level_def f32_to_u32_def champsim_consts word_le_nat_alt)
qed

lemma handle_prefetch_feedback_total:
  assumes "k_measure_cache_acc g \<Longrightarrow> epoch_accuracy (t_pf_useful_epoch (c_stats c)) (t_pf_filled_epoch (c_stats c)) \<noteq> None"
    and "length (t_acc_epoch_hist (c_stats c)) = CACHE_ACC_LEVELS"
  shows "\<exists>t. handle_prefetch_feedback g c = Some (c\<lparr>c_stats := t\<rparr>) \<and> t_cycle t = t_cycle (c_stats c) + 1 \<and>
    length (t_acc_epoch_hist t) = CACHE_ACC_LEVELS"
proof (cases "k_measure_cache_acc g \<and> t_next_measure_cycle (c_stats c) \<le> t_cycle (c_stats c) + 1")
  case True
  then obtain acc where acc: "epoch_accuracy (t_pf_useful_epoch (c_stats c)) (t_pf_filled_epoch (c_stats c)) = Some acc"
    using assms(1) by auto
  define x where "x = (t_pref_acc (c_stats c) + acc) div 2"
  obtain l where l: "accuracy_level x = Some l" "unat l < CACHE_ACC_LEVELS"
    using accuracy_level_total by blast
  let ?h = "(t_acc_epoch_hist (c_stats c))[unat l := t_acc_epoch_hist (c_stats c) ! unat l + 1]"
  let ?t = "(c_stats c)\<lparr>t_cycle := t_cycle (c_stats c) + 1, t_pref_acc := x, t_pf_useful_epoch := 0,
    t_pf_filled_epoch := 0, t_next_measure_cycle := t_cycle (c_stats c) + 1 + ucast (k_measure_cache_acc_epoch g),
    t_total_acc_epochs := t_total_acc_epochs (c_stats c) + 1, t_acc_epoch_hist := ?h\<rparr>"
  have "bump (t_acc_epoch_hist (c_stats c)) (unat l) = Some ?h" using l(2) assms(2) by (simp add: bump_def)
  then have "handle_prefetch_feedback g c = Some (c\<lparr>c_stats := ?t\<rparr>)"
    using True acc l(1) by (simp add: handle_prefetch_feedback_def Let_def flip: x_def)
  then show ?thesis using assms(2) by (intro exI [of _ ?t]) simp
next
  case False
  then have "handle_prefetch_feedback g c = Some (c\<lparr>c_stats := (c_stats c)\<lparr>t_cycle := t_cycle (c_stats c) + 1\<rparr>\<rparr>)"
    by (auto simp: handle_prefetch_feedback_def Let_def)
  then show ?thesis using assms(2) by (intro exI) auto
qed

section \<open>Properties\<close>

text \<open>
  C14. Fill, then hit: filling a line at any way of its set makes the next lookup of that
  address hit with the data of the packet; the line that was in the way is gone, and every
  other address looks up as before.
\<close>

theorem fill_then_lookup:
  assumes "shape_ok c" and "tags_ok c" and "way < unat (c_NUM_WAY c)"
    and "is_tlb c \<Longrightarrow> p_data p \<noteq> 0" and "line c (p_address p) = None"
  shows "\<exists>c'. fill_cache c (get_set c (p_address p)) way p = Some c' \<and> shape_ok c' \<and> tags_ok c' \<and>
    map_option b_data (line c' (p_address p)) = Some (p_data p) \<and>
    (\<forall>a. a \<noteq> p_address p \<longrightarrow> line c' a =
      (if tag_match a (c_block c ! get_set c (p_address p) ! way) then None else line c a))"
  using fill_total [OF assms(1-3) refl assms(4,5)] by (auto simp: filled_block_def)

definition demo_repl :: llc_repl where
  "demo_repl = \<lparr>r_rrpv = [], r_bip_counter = 0, r_PSEL = [], r_rand_sets = [], r_sampler = [], r_SHCT = []\<rparr>"

definition demo_cache :: cache where
  "demo_cache = cache_new ''L1D'' 4 2 8 8 8 4 IS_L1D demo_repl"

lemma cache_new_store:
  assumes "unat sets = 2 ^ k" "k < 32"
  shows "shape_ok (cache_new nm sets ways wq rq pq ms ty r)" "tags_ok (cache_new nm sets ways wq rq pq ms ty r)"
    "line (cache_new nm sets ways wq rq pq ms ty r) = Map.empty"
proof -
  let ?c = "cache_new nm sets ways wq rq pq ms ty r"
  show sh: "shape_ok ?c" using assms by (auto simp: shape_ok_def cache_new_def list_all_length)
  have inv: "b_valid (c_block ?c ! st ! w) = 0" if "st < unat (c_NUM_SET ?c)" "w < unat (c_NUM_WAY ?c)" for st w
    using that by (simp add: cache_new_def block_new_def)
  show tg: "tags_ok ?c" using inv sh by (simp add: tags_ok_def shape_ok_def)
  have "line ?c a \<noteq> Some b" for a b
    using inv get_set_less [OF sh, of a] by (auto simp: line_iff [OF sh tg] tag_match_def)
  then show "line ?c = Map.empty" by (auto simp: fun_eq_iff not_Some_eq [symmetric] simp del: not_Some_eq)
qed

lemma demo_cache_store: "shape_ok demo_cache" "tags_ok demo_cache" "line demo_cache = Map.empty"
  "c_NUM_WAY demo_cache = 2" "\<not> is_tlb demo_cache"
  unfolding demo_cache_def
  by (rule cache_new_store [of _ 2]; simp)+ (simp_all add: cache_new_def is_tlb_def champsim_consts)

lemma fill_then_lookup_witness:
  "\<exists>c'. fill_cache demo_cache (get_set demo_cache 5) 1 (packet_new\<lparr>p_address := 5, p_data := 9\<rparr>) = Some c' \<and>
    map_option b_data (line c' 5) = Some 9"
  using fill_then_lookup [of demo_cache 1 "packet_new\<lparr>p_address := 5, p_data := 9\<rparr>"] demo_cache_store
  by auto

text \<open>
  A lookup is right: in the normal mode \<open>check_hit\<close> never fails, changes nothing, and returns
  the way that holds the valid line with the tag of the packet in the set its address selects,
  or \<open>-1\<close> exactly when there is none.
\<close>

theorem check_hit_correct:
  assumes "shape_ok c" and "tags_ok c" and "\<not> is_perfect g c" and "\<not> (is_semi_perfect g c \<and> p_type p = LOAD)"
  shows "\<exists>i. check_hit g c p = Some (c, i) \<and>
    (case line c (p_address p) of None \<Rightarrow> i = - 1
     | Some b \<Rightarrow> 0 \<le> i \<and> nat i < unat (c_NUM_WAY c) \<and> c_block c ! get_set c (p_address p) ! nat i = b)"
  using assms by (rule check_hit_line)

definition demo_globals :: globals where
  "demo_globals = \<lparr>g_current_core_cycle = [100], g_warmup_complete = [1], g_all_warmup_complete = 1,
     k_l1d_perfect = False, k_l2c_perfect = False, k_llc_perfect = False,
     k_l1d_semi_perfect = False, k_l2c_semi_perfect = False, k_llc_semi_perfect = False,
     k_page_buffer_size = 64, k_measure_cache_acc = True, k_measure_cache_acc_epoch = 1024,
     k_llc_policy = LLC_SHIP\<rparr>"

lemma demo_globals_plain: "\<not> is_perfect demo_globals c" "\<not> is_semi_perfect demo_globals c"
  by (simp_all add: is_perfect_def is_semi_perfect_def demo_globals_def)

lemma check_hit_correct_witness:
  "\<exists>i. check_hit demo_globals demo_cache packet_new = Some (demo_cache, i) \<and> i = - 1"
  using check_hit_correct [of demo_cache demo_globals packet_new] demo_cache_store demo_globals_plain by auto

text \<open>
  Invalidation: invalidating any list of addresses never fails; afterwards exactly those
  addresses are absent and every other line is untouched.  This is what a page swap does to
  the 64 lines of the page in each cache.
\<close>

theorem invalidate_all:
  assumes "shape_ok c" and "tags_ok c"
  shows "\<exists>c'. fold_opt (\<lambda>c a. map_option fst (invalidate_entry c a)) c as = Some c' \<and> shape_ok c' \<and> tags_ok c' \<and>
    line c' = (\<lambda>a. if a \<in> set as then None else line c a)"
  using ls.inval_all [of c as] assms by blast

lemma invalidate_all_witness:
  "\<exists>c'. fold_opt (\<lambda>c a. map_option fst (invalidate_entry c a)) demo_cache [64, 65] = Some c' \<and>
    line c' = (\<lambda>a. if a \<in> set [64, 65] then None else line demo_cache a)"
  using invalidate_all [OF demo_cache_store(1,2), of "[64, 65]"] by blast

lemma cache_new_mshr:
  "mshr_inv (cache_new nm sets ways wq rq pq ms ty r)" "fill_inv (cache_new nm sets ways wq rq pq ms ty r)"
  "addresses (c_MSHR (cache_new nm sets ways wq rq pq ms ty r)) = {}"
proof -
  let ?c = "cache_new nm sets ways wq rq pq ms ty r"
  have q: "c_MSHR ?c = packet_queue_new (nm @ ''_MSHR'') ms" "c_MSHR_SIZE ?c = ms" by (simp_all add: cache_new_def)
  have e: "q_entry (packet_queue_new (nm @ ''_MSHR'') ms) = replicate (unat ms) packet_new"
    "q_size (packet_queue_new (nm @ ''_MSHR'') ms) = ms" "q_next_fill_cycle (packet_queue_new (nm @ ''_MSHR'') ms) = - 1"
    by (simp_all add: packet_queue_new_def)
  show "mshr_inv ?c" unfolding mshr_inv_def q by (simp add: table_new e list_all_length)
  show "fill_inv ?c" unfolding fill_inv_def q by (intro exI [of _ "(- 1, ms)"]) (simp add: e earliest_def)
  show "addresses (c_MSHR ?c) = {}" by (simp add: q table_new)
qed

definition demo_missing :: cache where
  "demo_missing = demo_cache\<lparr>c_MSHR := (c_MSHR demo_cache)\<lparr>
     q_entry := (q_entry (c_MSHR demo_cache))[0 := packet_new\<lparr>p_address := 5, p_cpu := 0, p_returned := INFLIGHT\<rparr>],
     q_occupancy := q_occupancy (c_MSHR demo_cache) + 1\<rparr>\<rparr>"

lemma demo_missing_mshr: "mshr_inv demo_missing" "addresses (c_MSHR demo_missing) = {5}"
proof -
  let ?e = "packet_new\<lparr>p_address := 5, p_cpu := 0, p_returned := INFLIGHT\<rparr>"
  have inv: "mshr_inv demo_cache" and none: "addresses (c_MSHR demo_cache) = {}"
    by (simp_all add: demo_cache_def cache_new_mshr)
  have z: "0 < length (q_entry (c_MSHR demo_cache))" "p_address (q_entry (c_MSHR demo_cache) ! 0) = 0"
    by (simp_all add: demo_cache_def cache_new_def packet_queue_new_def packet_new_def)
  have tab: "table_inv (c_MSHR demo_cache)" using inv by (simp add: mshr_inv_def)
  note t = table_add [OF tab z, of ?e, simplified, unfolded none, simplified]
  show "addresses (c_MSHR demo_missing) = {5}" using t(2) by (simp add: demo_missing_def)
  show "mshr_inv demo_missing"
    using inv t(1) z(1) by (auto simp: mshr_inv_def demo_missing_def list_all_length nth_list_update)
qed

text \<open>
  C16. Fill scheduling: when data returns for an outstanding miss, \<open>return_data\<close> completes
  exactly the register with that address, keeps the table invariant, and reschedules so that
  the next fill is the earliest returned miss.
\<close>

theorem return_data_correct:
  assumes "mshr_inv c" and "unat (p_cpu p) < length (g_current_core_cycle g)"
    and "p_address p \<noteq> 0" and "p_address p \<in> addresses (c_MSHR c)"
  shows "\<exists>q i. return_data g c p = Some (c\<lparr>c_MSHR := q\<rparr>) \<and> mshr_inv (c\<lparr>c_MSHR := q\<rparr>) \<and> fill_inv (c\<lparr>c_MSHR := q\<rparr>) \<and>
    addresses q = addresses (c_MSHR c) \<and> i \<in> used (c_MSHR c) \<and> p_address (q_entry (c_MSHR c) ! i) = p_address p \<and>
    q_entry q = (q_entry (c_MSHR c))[i := returned_entry g c p (q_entry (c_MSHR c) ! i)] \<and>
    q_occupancy q = q_occupancy (c_MSHR c)"
  using assms by (rule return_data_total)

lemma return_data_correct_witness:
  "\<exists>q. return_data demo_globals demo_missing (packet_new\<lparr>p_address := 5, p_cpu := 0\<rparr>) =
     Some (demo_missing\<lparr>c_MSHR := q\<rparr>) \<and> fill_inv (demo_missing\<lparr>c_MSHR := q\<rparr>) \<and> addresses q = {5}"
  using return_data_correct [OF demo_missing_mshr(1), of "packet_new\<lparr>p_address := 5, p_cpu := 0\<rparr>" demo_globals]
  by (simp add: demo_missing_mshr demo_globals_def) blast

text \<open>
  C15. Allocating a miss: \<open>add_mshr\<close>, called as the handlers call it when no register has the
  address and one is free, puts the stamped request in the first free register; no address
  is ever in two registers, the occupancy is their number, and the scheduled fill stands.
\<close>

theorem add_mshr_correct:
  assumes "mshr_inv c" and "fill_inv c" and "q_occupancy (c_MSHR c) < c_MSHR_SIZE c"
    and "unat (p_cpu p) < length (g_current_core_cycle g)" and "p_address p \<noteq> 0"
    and "check_mshr c p = Some (- 1)"
  shows "\<exists>q. add_mshr g c p = Some (c\<lparr>c_MSHR := q\<rparr>, p\<lparr>p_cycle_enqueued := g_current_core_cycle g ! unat (p_cpu p)\<rparr>) \<and>
    mshr_inv (c\<lparr>c_MSHR := q\<rparr>) \<and> fill_inv (c\<lparr>c_MSHR := q\<rparr>) \<and>
    addresses q = insert (p_address p) (addresses (c_MSHR c)) \<and>
    unat (q_occupancy q) = unat (q_occupancy (c_MSHR c)) + 1 \<and> check_mshr (c\<lparr>c_MSHR := q\<rparr>) p \<noteq> Some (- 1)"
proof -
  have "p_address p \<notin> addresses (c_MSHR c)" using check_mshr_correct [OF assms(1,5)] assms(6) by auto
  from add_mshr_total [OF assms(1-5) this] obtain q where
    q: "add_mshr g c p = Some (c\<lparr>c_MSHR := q\<rparr>, p\<lparr>p_cycle_enqueued := g_current_core_cycle g ! unat (p_cpu p)\<rparr>)"
      "mshr_inv (c\<lparr>c_MSHR := q\<rparr>)" "fill_inv (c\<lparr>c_MSHR := q\<rparr>)" "addresses q = insert (p_address p) (addresses (c_MSHR c))"
      "unat (q_occupancy q) = unat (q_occupancy (c_MSHR c)) + 1" by blast
  obtain i where "check_mshr (c\<lparr>c_MSHR := q\<rparr>) p = Some i" "i \<noteq> - 1"
    using check_mshr_correct [OF q(2) assms(5)] q(4) by (metis cache.select_convs(17) cache.surjective
      cache.update_convs(17) insertI1)
  with q show ?thesis by (intro exI [of _ q]) simp
qed

lemma add_mshr_correct_witness:
  "\<exists>q. add_mshr demo_globals demo_cache (packet_new\<lparr>p_address := 5, p_cpu := 0\<rparr>) =
     Some (demo_cache\<lparr>c_MSHR := q\<rparr>, packet_new\<lparr>p_address := 5, p_cpu := 0, p_cycle_enqueued := 100\<rparr>) \<and>
     addresses q = {5}"
proof -
  have "mshr_inv demo_cache" "fill_inv demo_cache" "addresses (c_MSHR demo_cache) = {}"
    by (simp_all add: demo_cache_def cache_new_mshr)
  moreover from this check_mshr_correct [of demo_cache "packet_new\<lparr>p_address := 5, p_cpu := 0\<rparr>"]
  have "check_mshr demo_cache (packet_new\<lparr>p_address := 5, p_cpu := 0\<rparr>) = Some (- 1)" by auto
  moreover have "q_occupancy (c_MSHR demo_cache) < c_MSHR_SIZE demo_cache"
    by (simp add: demo_cache_def cache_new_def packet_queue_new_def)
  ultimately show ?thesis
    using add_mshr_correct [of demo_cache "packet_new\<lparr>p_address := 5, p_cpu := 0\<rparr>" demo_globals]
    by (simp add: demo_globals_def) blast
qed

end
