(* ===== verification/Memory_Controller.thy ===== *)
theory Memory_Controller
  imports Cache
begin

text \<open>
  The memory controllers.  \<open>src/dram_controller.cc\<close>, \<open>src/nvm_controller.cc\<close> and
  \<open>src/hybrid_memory_controller.cc\<close> are the same program over different constants, so the
  definitions take the constants as a record \<open>mc_config\<close>.

  A controller keeps a read and a write queue per channel, used as tables, and one
  \<open>BANK_REQUEST\<close> per bank.  It serves either reads or writes; \<open>schedule\<close> gives the oldest
  ready row hit, or the oldest ready request, to its bank; \<open>process\<close> completes it when the
  bank and the data bus are ready.  A read that completes is returned to the upper level: the
  operations hand the packets out, and \<open>Hierarchy\<close> delivers them.
\<close>

section \<open>Configuration and state\<close>

record mc_config =
  m_NAME :: string
  m_CHANNELS :: nat
  m_LOG2_CHANNELS :: nat
  m_RANKS :: nat
  m_LOG2_RANKS :: nat
  m_BANKS :: nat
  m_LOG2_BANKS :: nat
  m_ROWS :: nat
  m_LOG2_ROWS :: nat
  m_COLUMNS :: nat
  m_LOG2_COLUMNS :: nat
  m_WQ_SIZE :: u32
  m_RQ_SIZE :: u32
  m_WRITE_HIGH_WM :: u32
  m_WRITE_LOW_WM :: u32
  m_DBUS_TURN_AROUND_TIME :: u64
  m_DBUS_RETURN_TIME :: u32
  m_tRP :: u32
  m_tRCD :: u32
  m_tCAS :: u32

record bank_request =
  br_cycle_available :: u64
  br_address :: u64
  br_full_addr :: u64
  br_open_row :: u32
  br_working :: u8
  br_working_type :: u8
  br_row_buffer_hit :: u8
  br_drc_hit :: u8
  br_is_write :: u8
  br_is_read :: u8
  br_request_index :: int

definition bank_request_new :: bank_request where
  "bank_request_new = \<lparr>br_cycle_available = 0, br_address = 0, br_full_addr = 0, br_open_row = - 1,
     br_working = 0, br_working_type = 0, br_row_buffer_hit = 0, br_drc_hit = 0, br_is_write = 0,
     br_is_read = 0, br_request_index = - 1\<rparr>"

record memory_controller =
  mc_dbus_cycle_available :: "u64 list"
  mc_dbus_cycle_congested :: "u64 list"
  mc_dbus_congested :: "u64 list list list"
  mc_write_mode :: "u8 list"
  mc_scheduled_reads :: "u32 list"
  mc_scheduled_writes :: "u32 list"
  mc_bank_request :: "bank_request list list list"
  mc_WQ :: "packet_queue list"
  mc_RQ :: "packet_queue list"
  mc_rq_enqueue_count :: u64
  mc_ACCESS :: "u64 list"
  mc_HIT :: "u64 list"

text \<open>The constructor.\<close>

definition channel_name :: "string \<Rightarrow> nat \<Rightarrow> string" where
  "channel_name nm i = nm @ [char_of (48 + i)]"

definition mc_construct :: "mc_config \<Rightarrow> memory_controller" where
  "mc_construct k = (let n = m_CHANNELS k in
     \<lparr>mc_dbus_cycle_available = replicate n 0, mc_dbus_cycle_congested = replicate n 0,
      mc_dbus_congested = replicate n (replicate (NUM_TYPES + 1) (replicate (NUM_TYPES + 1) 0)),
      mc_write_mode = replicate n 0, mc_scheduled_reads = replicate n 0, mc_scheduled_writes = replicate n 0,
      mc_bank_request = replicate n (replicate (m_RANKS k) (replicate (m_BANKS k) bank_request_new)),
      mc_WQ = map (\<lambda>i. packet_queue_new (channel_name (m_NAME k @ ''_WQ'') i) (m_WQ_SIZE k)) [0..<n],
      mc_RQ = map (\<lambda>i. packet_queue_new (channel_name (m_NAME k @ ''_RQ'') i) (m_RQ_SIZE k)) [0..<n],
      mc_rq_enqueue_count = 0, mc_ACCESS = replicate NUM_TYPES 0, mc_HIT = replicate NUM_TYPES 0\<rparr>)"

text \<open>\<open>main\<close> marks the queues of the controller it wires.\<close>

definition mark_queues :: "memory_controller \<Rightarrow> memory_controller" where
  "mark_queues mc = mc\<lparr>mc_RQ := map (q_is_RQ_update (\<lambda>_. 1)) (mc_RQ mc), mc_WQ := map (q_is_WQ_update (\<lambda>_. 1)) (mc_WQ mc)\<rparr>"

definition mc_new :: "mc_config \<Rightarrow> memory_controller" where
  "mc_new k = mark_queues (mc_construct k)"

lemma mc_new_eq: "mc_new k = (let n = m_CHANNELS k in
     \<lparr>mc_dbus_cycle_available = replicate n 0, mc_dbus_cycle_congested = replicate n 0,
      mc_dbus_congested = replicate n (replicate (NUM_TYPES + 1) (replicate (NUM_TYPES + 1) 0)),
      mc_write_mode = replicate n 0, mc_scheduled_reads = replicate n 0, mc_scheduled_writes = replicate n 0,
      mc_bank_request = replicate n (replicate (m_RANKS k) (replicate (m_BANKS k) bank_request_new)),
      mc_WQ = map (\<lambda>i. (packet_queue_new (channel_name (m_NAME k @ ''_WQ'') i) (m_WQ_SIZE k))\<lparr>q_is_WQ := 1\<rparr>) [0..<n],
      mc_RQ = map (\<lambda>i. (packet_queue_new (channel_name (m_NAME k @ ''_RQ'') i) (m_RQ_SIZE k))\<lparr>q_is_RQ := 1\<rparr>) [0..<n],
      mc_rq_enqueue_count = 0, mc_ACCESS = replicate NUM_TYPES 0, mc_HIT = replicate NUM_TYPES 0\<rparr>)"
  by (simp add: mc_new_def mark_queues_def mc_construct_def Let_def)

section \<open>The address mapping\<close>

definition addr_field :: "nat \<Rightarrow> nat \<Rightarrow> nat \<Rightarrow> u64 \<Rightarrow> u32" where
  "addr_field log2 units shift address =
     (if log2 = 0 then 0 else ucast (drop_bit shift address) AND (of_nat units - 1))"

definition dram_get_channel :: "mc_config \<Rightarrow> u64 \<Rightarrow> u32" where
  "dram_get_channel k address = addr_field (m_LOG2_CHANNELS k) (m_CHANNELS k) 0 address"

definition dram_get_bank :: "mc_config \<Rightarrow> u64 \<Rightarrow> u32" where
  "dram_get_bank k address = addr_field (m_LOG2_BANKS k) (m_BANKS k) (m_LOG2_CHANNELS k) address"

definition dram_get_column :: "mc_config \<Rightarrow> u64 \<Rightarrow> u32" where
  "dram_get_column k address =
     addr_field (m_LOG2_COLUMNS k) (m_COLUMNS k) (m_LOG2_BANKS k + m_LOG2_CHANNELS k) address"

definition dram_get_rank :: "mc_config \<Rightarrow> u64 \<Rightarrow> u32" where
  "dram_get_rank k address =
     addr_field (m_LOG2_RANKS k) (m_RANKS k) (m_LOG2_COLUMNS k + m_LOG2_BANKS k + m_LOG2_CHANNELS k) address"

definition dram_get_row :: "mc_config \<Rightarrow> u64 \<Rightarrow> u32" where
  "dram_get_row k address = addr_field (m_LOG2_ROWS k) (m_ROWS k)
     (m_LOG2_RANKS k + m_LOG2_COLUMNS k + m_LOG2_BANKS k + m_LOG2_CHANNELS k) address"

type_synonym bank_key = "nat \<times> nat \<times> nat"

definition bank_key :: "mc_config \<Rightarrow> u64 \<Rightarrow> bank_key" where
  "bank_key k a = (unat (dram_get_channel k a), unat (dram_get_rank k a), unat (dram_get_bank k a))"

definition get_bank :: "memory_controller \<Rightarrow> bank_key \<Rightarrow> bank_request option" where
  "get_bank mc key = (case key of (ch, rank, bank) \<Rightarrow> do {
     rs \<leftarrow> arr_get (mc_bank_request mc) ch;
     bs \<leftarrow> arr_get rs rank;
     arr_get bs bank })"

definition put_bank :: "memory_controller \<Rightarrow> bank_key \<Rightarrow> bank_request \<Rightarrow> memory_controller option" where
  "put_bank mc key b = (case key of (ch, rank, bank) \<Rightarrow> do {
     rs \<leftarrow> arr_get (mc_bank_request mc) ch;
     bs \<leftarrow> arr_get rs rank;
     bs' \<leftarrow> arr_set bs bank b;
     Some (mc\<lparr>mc_bank_request := (mc_bank_request mc)[ch := rs[rank := bs']]\<rparr>) })"

text \<open>A \<open>PACKET_QUEUE *\<close> of the controller: the write or the read queue of a channel.\<close>

definition get_queue :: "memory_controller \<Rightarrow> bool \<Rightarrow> nat \<Rightarrow> packet_queue option" where
  "get_queue mc w ch = arr_get (if w then mc_WQ mc else mc_RQ mc) ch"

definition put_queue :: "memory_controller \<Rightarrow> bool \<Rightarrow> nat \<Rightarrow> packet_queue \<Rightarrow> memory_controller" where
  "put_queue mc w ch q = (if w then mc\<lparr>mc_WQ := (mc_WQ mc)[ch := q]\<rparr> else mc\<lparr>mc_RQ := (mc_RQ mc)[ch := q]\<rparr>)"

section \<open>Scheduling\<close>

definition pending :: "packet \<Rightarrow> bool" where
  "pending e \<longleftrightarrow> p_address e \<noteq> 0 \<and> p_scheduled e = 0"

definition in_bank :: "packet \<Rightarrow> bool" where
  "in_bank e \<longleftrightarrow> p_scheduled e \<noteq> 0"

definition update_schedule_cycle :: "packet_queue \<Rightarrow> packet_queue option" where
  "update_schedule_cycle q = do {
     m \<leftarrow> queue_min_event pending q;
     Some (q\<lparr>q_next_schedule_cycle := fst m, q_next_schedule_index := snd m\<rparr>) }"

definition update_process_cycle :: "packet_queue \<Rightarrow> packet_queue option" where
  "update_process_cycle q = do {
     m \<leftarrow> queue_min_event in_bank q;
     Some (q\<lparr>q_next_process_cycle := fst m, q_next_process_index := snd m\<rparr>) }"

text \<open>The tests of the two search loops of \<open>schedule\<close>: ready, and ready with its row open.\<close>

definition bank_ready :: "mc_config \<Rightarrow> memory_controller \<Rightarrow> packet \<Rightarrow> bool option" where
  "bank_ready k mc e =
     (if p_scheduled e \<noteq> 0 \<or> p_address e = 0 then Some False
      else do { b \<leftarrow> get_bank mc (bank_key k (p_address e)); Some (br_working b = 0) })"

definition row_hit :: "mc_config \<Rightarrow> memory_controller \<Rightarrow> packet \<Rightarrow> bool option" where
  "row_hit k mc e =
     (if p_scheduled e \<noteq> 0 \<or> p_address e = 0 then Some False
      else do {
        b \<leftarrow> get_bank mc (bank_key k (p_address e));
        Some (br_working b = 0 \<and> br_open_row b = dram_get_row k (p_address e)) })"

definition find_oldest :: "mc_config \<Rightarrow> memory_controller \<Rightarrow> packet_queue \<Rightarrow> (int \<times> bool) option" where
  "find_oldest k mc q = do {
     h \<leftarrow> min_event int (row_hit k mc) (q_entry q) 0 (unat (q_size q)) (- 1, - 1);
     if snd h \<noteq> - 1 then Some (snd h, True)
     else do {
       m \<leftarrow> min_event int (bank_ready k mc) (q_entry q) 0 (unat (q_size q)) (- 1, - 1);
       Some (snd m, False) } }"

definition inc_scheduled :: "memory_controller \<Rightarrow> bool \<Rightarrow> nat \<Rightarrow> u32 \<Rightarrow> memory_controller option" where
  "inc_scheduled mc w ch d =
     (if w then do {
        v \<leftarrow> arr_get (mc_scheduled_writes mc) ch;
        Some (mc\<lparr>mc_scheduled_writes := (mc_scheduled_writes mc)[ch := v + d]\<rparr>) }
      else do {
        v \<leftarrow> arr_get (mc_scheduled_reads mc) ch;
        Some (mc\<lparr>mc_scheduled_reads := (mc_scheduled_reads mc)[ch := v + d]\<rparr>) })"

definition schedule :: "mc_config \<Rightarrow> globals \<Rightarrow> bool \<Rightarrow> nat \<Rightarrow> memory_controller \<Rightarrow> memory_controller option" where
  "schedule k g w ch mc = do {
     q \<leftarrow> get_queue mc w ch;
     (oldest_index, row_buffer_hit) \<leftarrow> find_oldest k mc q;
     if oldest_index = - 1 then Some mc
     else do {
       let i = nat oldest_index;
       e \<leftarrow> arr_get (q_entry q) i;
       now \<leftarrow> core_cycle g (p_cpu e);
       let LATENCY = (ucast (if row_buffer_hit then m_tCAS k else m_tRP k + m_tRCD k + m_tCAS k) :: u64);
       let key = bank_key k (p_address e);
       let is_WQ = (q_is_WQ q \<noteq> 0);
       b \<leftarrow> get_bank mc key;
       mc1 \<leftarrow> put_bank mc key (b\<lparr>br_working := 1, br_working_type := p_type e,
         br_cycle_available := now + LATENCY, br_request_index := oldest_index,
         br_row_buffer_hit := (if row_buffer_hit then 1 else 0),
         br_is_write := (if is_WQ then 1 else 0), br_is_read := (if is_WQ then 0 else 1),
         br_open_row := dram_get_row k (p_address e)\<rparr>);
       mc2 \<leftarrow> inc_scheduled mc1 is_WQ (fst key) 1;
       let q1 = q\<lparr>q_entry := (q_entry q)[i := e\<lparr>p_scheduled := 1, p_event_cycle := now + LATENCY\<rparr>]\<rparr>;
       q2 \<leftarrow> update_schedule_cycle q1;
       q3 \<leftarrow> update_process_cycle q2;
       Some (put_queue mc2 w ch q3) } }"

section \<open>Processing\<close>

definition bank_idle :: "bank_request \<Rightarrow> bank_request" where
  "bank_idle b = b\<lparr>br_request_index := - 1, br_row_buffer_hit := 0, br_working := 0,
     br_is_write := 0, br_is_read := 0\<rparr>"

definition count_row_buffer :: "bank_request \<Rightarrow> packet_queue \<Rightarrow> packet_queue" where
  "count_row_buffer b q = (if br_row_buffer_hit b \<noteq> 0 then q\<lparr>q_ROW_BUFFER_HIT := q_ROW_BUFFER_HIT q + 1\<rparr>
     else q\<lparr>q_ROW_BUFFER_MISS := q_ROW_BUFFER_MISS q + 1\<rparr>)"

text \<open>The bookkeeping of a request that finds the data bus busy.\<close>

definition bus_congested :: "memory_controller \<Rightarrow> bank_key \<Rightarrow> bank_request \<Rightarrow> u8 \<Rightarrow> u64 \<Rightarrow> memory_controller option" where
  "bus_congested mc key b op_type now = do {
     let ch = fst key;
     avail \<leftarrow> arr_get (mc_dbus_cycle_available mc) ch;
     cong \<leftarrow> arr_get (mc_dbus_cycle_congested mc) ch;
     mc1 \<leftarrow> put_bank mc key (b\<lparr>br_cycle_available := avail\<rparr>);
     t0 \<leftarrow> arr_get (mc_dbus_congested mc) ch;
     t1 \<leftarrow> bump2 t0 NUM_TYPES NUM_TYPES;
     t2 \<leftarrow> bump2 t1 NUM_TYPES (unat op_type);
     t3 \<leftarrow> bump2 t2 (unat (br_working_type b)) NUM_TYPES;
     t4 \<leftarrow> bump2 t3 (unat (br_working_type b)) (unat op_type);
     Some (mc1\<lparr>mc_dbus_cycle_congested := (mc_dbus_cycle_congested mc)[ch := cong + (avail - now)],
       mc_dbus_congested := (mc_dbus_congested mc)[ch := t4]\<rparr>) }"

definition process :: "mc_config \<Rightarrow> globals \<Rightarrow> bool \<Rightarrow> nat \<Rightarrow> memory_controller \<Rightarrow>
    (memory_controller \<times> packet list) option" where
  "process k g w ch mc = do {
     q \<leftarrow> get_queue mc w ch;
     let request_index = q_next_process_index q;
     assert_that (request_index \<noteq> q_size q);
     let i = unat request_index;
     e \<leftarrow> arr_get (q_entry q) i;
     let key = bank_key k (p_address e);
     b \<leftarrow> get_bank mc key;
     assert_that (br_request_index b = int i);
     now \<leftarrow> core_cycle g (p_cpu e);
     if br_cycle_available b \<le> now then do {
       avail \<leftarrow> arr_get (mc_dbus_cycle_available mc) (fst key);
       if avail \<le> now then do {
         let bus = now + ucast (m_DBUS_RETURN_TIME k);
         let is_WQ = (q_is_WQ q \<noteq> 0);
         let e' = (if is_WQ then e else e\<lparr>p_event_cycle := bus\<rparr>);
         let q1 = count_row_buffer b q;
         mc1 \<leftarrow> put_bank (mc\<lparr>mc_dbus_cycle_available := (mc_dbus_cycle_available mc)[fst key := bus]\<rparr>) key (bank_idle b);
         mc2 \<leftarrow> inc_scheduled mc1 is_WQ (fst key) (- 1);
         q2 \<leftarrow> remove_queue q1 i;
         q3 \<leftarrow> update_process_cycle q2;
         Some (put_queue mc2 w ch q3, if is_WQ then [] else [e']) }
       else do {
         mc' \<leftarrow> bus_congested mc key b (p_type e) now;
         Some (mc', []) } }
     else Some (mc, []) }"

section \<open>Switching between reads and writes\<close>

definition reset_request :: "mc_config \<Rightarrow> globals \<Rightarrow> bool \<Rightarrow> nat \<Rightarrow> nat \<Rightarrow> memory_controller \<Rightarrow> memory_controller option" where
  "reset_request k g w ch i mc = do {
     q \<leftarrow> get_queue mc w ch;
     e \<leftarrow> arr_get (q_entry q) i;
     if p_scheduled e = 0 then Some mc
     else do {
       now \<leftarrow> core_cycle g (p_cpu e);
       let key = bank_key k (p_address e);
       b \<leftarrow> get_bank mc key;
       let b1 = b\<lparr>br_open_row := (if br_cycle_available b - ucast (m_tCAS k) \<le> now
           then dram_get_row k (p_address e) else - 1),
         br_request_index := - 1, br_row_buffer_hit := 0, br_working := 0, br_cycle_available := now\<rparr>;
       let b2 = (if br_is_write b1 \<noteq> 0 then b1\<lparr>br_is_write := 0\<rparr>
         else if br_is_read b1 \<noteq> 0 then b1\<lparr>br_is_read := 0\<rparr> else b1);
       mc1 \<leftarrow> put_bank mc key b2;
       mc2 \<leftarrow> (if br_is_write b1 \<noteq> 0 then inc_scheduled mc1 True ch (- 1)
         else if br_is_read b1 \<noteq> 0 then inc_scheduled mc1 False ch (- 1) else Some mc1);
       Some (put_queue mc2 w ch
         (q\<lparr>q_entry := (q_entry q)[i := e\<lparr>p_scheduled := 0, p_event_cycle := now\<rparr>]\<rparr>)) } }"

fun reset_loop :: "mc_config \<Rightarrow> globals \<Rightarrow> bool \<Rightarrow> nat \<Rightarrow> nat \<Rightarrow> nat \<Rightarrow> memory_controller \<Rightarrow> memory_controller option" where
  "reset_loop k g w ch i 0 mc = Some mc"
| "reset_loop k g w ch i (Suc n) mc = do {
     mc1 \<leftarrow> reset_request k g w ch i mc;
     reset_loop k g w ch (Suc i) n mc1 }"

definition refresh_queue :: "bool \<Rightarrow> nat \<Rightarrow> memory_controller \<Rightarrow> memory_controller option" where
  "refresh_queue w ch mc = do {
     q \<leftarrow> get_queue mc w ch;
     q1 \<leftarrow> update_schedule_cycle q;
     q2 \<leftarrow> update_process_cycle q1;
     Some (put_queue mc w ch q2) }"

definition reset_remain_requests :: "mc_config \<Rightarrow> globals \<Rightarrow> bool \<Rightarrow> nat \<Rightarrow> memory_controller \<Rightarrow> memory_controller option" where
  "reset_remain_requests k g w ch mc = do {
     q \<leftarrow> get_queue mc w ch;
     mc1 \<leftarrow> reset_loop k g w ch 0 (unat (q_size q)) mc;
     mc2 \<leftarrow> refresh_queue False ch mc1;
     mc3 \<leftarrow> refresh_queue True ch mc2;
     n \<leftarrow> arr_get (if q_is_WQ q \<noteq> 0 then mc_scheduled_writes mc3 else mc_scheduled_reads mc3) ch;
     assert_that (n = 0);
     Some mc3 }"

definition turn_around :: "mc_config \<Rightarrow> nat \<Rightarrow> memory_controller \<Rightarrow> memory_controller option" where
  "turn_around k ch mc = do {
     v \<leftarrow> arr_get (mc_dbus_cycle_available mc) ch;
     Some (mc\<lparr>mc_dbus_cycle_available := (mc_dbus_cycle_available mc)[ch := v + m_DBUS_TURN_AROUND_TIME k]\<rparr>) }"

definition set_write_mode :: "nat \<Rightarrow> u8 \<Rightarrow> memory_controller \<Rightarrow> memory_controller option" where
  "set_write_mode ch v mc = do {
     ms \<leftarrow> arr_set (mc_write_mode mc) ch v;
     Some (mc\<lparr>mc_write_mode := ms\<rparr>) }"

text \<open>The head of the loop of \<open>operate\<close>: whether the channel turns around.\<close>

definition select_mode :: "mc_config \<Rightarrow> globals \<Rightarrow> nat \<Rightarrow> memory_controller \<Rightarrow> memory_controller option" where
  "select_mode k g ch mc = do {
     mode \<leftarrow> arr_get (mc_write_mode mc) ch;
     wq \<leftarrow> get_queue mc True ch;
     rq \<leftarrow> get_queue mc False ch;
     if mode = 0 \<and> (q_occupancy wq \<ge> m_WRITE_HIGH_WM k \<or> (q_occupancy rq = 0 \<and> q_occupancy wq > 0)) then do {
       mc1 \<leftarrow> set_write_mode ch 1 mc;
       mc2 \<leftarrow> reset_remain_requests k g False ch mc1;
       turn_around k ch mc2 }
     else if mode \<noteq> 0 \<and> (q_occupancy wq = 0 \<or> (q_occupancy rq \<noteq> 0 \<and> q_occupancy wq < m_WRITE_LOW_WM k)) then do {
       mc1 \<leftarrow> set_write_mode ch 0 mc;
       mc2 \<leftarrow> reset_remain_requests k g True ch mc1;
       turn_around k ch mc2 }
     else Some mc }"

text \<open>Schedule, then process, one queue of a channel, each when its time has come.\<close>

definition serve_schedule :: "mc_config \<Rightarrow> globals \<Rightarrow> bool \<Rightarrow> nat \<Rightarrow> memory_controller \<Rightarrow> memory_controller option" where
  "serve_schedule k g w ch mc = do {
     q \<leftarrow> get_queue mc w ch;
     if q_next_schedule_index q < q_size q then do {
       e \<leftarrow> arr_get (q_entry q) (unat (q_next_schedule_index q));
       now \<leftarrow> core_cycle g (p_cpu e);
       if q_next_schedule_cycle q \<le> now then schedule k g w ch mc else Some mc }
     else Some mc }"

definition serve_process :: "mc_config \<Rightarrow> globals \<Rightarrow> bool \<Rightarrow> nat \<Rightarrow> memory_controller \<Rightarrow>
    (memory_controller \<times> packet list) option" where
  "serve_process k g w ch mc = do {
     q \<leftarrow> get_queue mc w ch;
     if q_next_process_index q < q_size q then do {
       e \<leftarrow> arr_get (q_entry q) (unat (q_next_process_index q));
       now \<leftarrow> core_cycle g (p_cpu e);
       if q_next_process_cycle q \<le> now then process k g w ch mc else Some (mc, []) }
     else Some (mc, []) }"

definition operate_channel :: "mc_config \<Rightarrow> globals \<Rightarrow> nat \<Rightarrow> memory_controller \<Rightarrow>
    (memory_controller \<times> packet list) option" where
  "operate_channel k g ch mc = do {
     mc1 \<leftarrow> select_mode k g ch mc;
     mode \<leftarrow> arr_get (mc_write_mode mc1) ch;
     mc2 \<leftarrow> serve_schedule k g (mode \<noteq> 0) ch mc1;
     serve_process k g (mode \<noteq> 0) ch mc2 }"

fun operate_channels :: "mc_config \<Rightarrow> globals \<Rightarrow> nat \<Rightarrow> nat \<Rightarrow> memory_controller \<Rightarrow>
    (memory_controller \<times> packet list) option" where
  "operate_channels k g ch 0 mc = Some (mc, [])"
| "operate_channels k g ch (Suc n) mc = do {
     (mc1, rs) \<leftarrow> operate_channel k g ch mc;
     (mc2, rs') \<leftarrow> operate_channels k g (Suc ch) n mc1;
     Some (mc2, rs @ rs') }"

definition dram_operate :: "mc_config \<Rightarrow> globals \<Rightarrow> memory_controller \<Rightarrow> (memory_controller \<times> packet list) option" where
  "dram_operate k g mc = operate_channels k g 0 (m_CHANNELS k) mc"

section \<open>Requests\<close>

definition check_dram_queue :: "packet_queue \<Rightarrow> packet \<Rightarrow> int option" where
  "check_dram_queue q packet = do {
     r \<leftarrow> search_arr (\<lambda>e. p_address e = p_address packet) (q_entry q) 0 (unat (q_size q));
     Some (case r of Some i \<Rightarrow> int i | None \<Rightarrow> - 1) }"

text \<open>The packet goes to the first free entry; when there is none it is dropped.\<close>

definition store_packet :: "packet_queue \<Rightarrow> u32 \<Rightarrow> packet \<Rightarrow> (packet_queue \<times> bool) option" where
  "store_packet q limit packet = do {
     r \<leftarrow> search_arr (\<lambda>e. p_address e = 0) (q_entry q) 0 (unat limit);
     Some (case r of
         Some i \<Rightarrow> (q\<lparr>q_entry := (q_entry q)[i := packet], q_occupancy := q_occupancy q + 1\<rparr>, True)
       | None \<Rightarrow> (q, False)) }"

text \<open>\<open>add_rq\<close>: the controller, the packets returned to the upper level, the packet, and the result.\<close>

definition dram_add_rq :: "mc_config \<Rightarrow> globals \<Rightarrow> memory_controller \<Rightarrow> packet \<Rightarrow>
    (memory_controller \<times> packet list \<times> packet \<times> int) option" where
  "dram_add_rq k g mc packet =
     (if unat (g_all_warmup_complete g) < NUM_CPUS then Some (mc, [packet], packet, - 1)
      else do {
        let ch = unat (dram_get_channel k (p_address packet));
        wq \<leftarrow> get_queue mc True ch;
        rq \<leftarrow> get_queue mc False ch;
        wq_index \<leftarrow> check_dram_queue wq packet;
        if wq_index \<noteq> - 1 then do {
          e \<leftarrow> arr_get (q_entry wq) (nat wq_index);
          let packet' = packet\<lparr>p_data := p_data e\<rparr>;
          acc \<leftarrow> bump (mc_ACCESS mc) 1;
          hit \<leftarrow> bump (mc_HIT mc) 1;
          let mc1 = put_queue (mc\<lparr>mc_ACCESS := acc, mc_HIT := hit\<rparr>) True ch (wq\<lparr>q_FORWARD := q_FORWARD wq + 1\<rparr>);
          Some (put_queue mc1 False ch (rq\<lparr>q_ACCESS := q_ACCESS rq + 1\<rparr>), [packet'], packet', - 1) }
        else do {
          index \<leftarrow> check_dram_queue rq packet;
          if index \<noteq> - 1 then Some (mc, [], packet, index)
          else do {
            (rq1, added) \<leftarrow> store_packet rq (m_RQ_SIZE k) packet;
            rq2 \<leftarrow> update_schedule_cycle rq1;
            Some ((put_queue mc False ch rq2)\<lparr>mc_rq_enqueue_count :=
              mc_rq_enqueue_count mc + (if added then 1 else 0)\<rparr>, [], packet, - 1) } } })"

definition dram_add_wq :: "mc_config \<Rightarrow> globals \<Rightarrow> memory_controller \<Rightarrow> packet \<Rightarrow> (memory_controller \<times> int) option" where
  "dram_add_wq k g mc packet =
     (if unat (g_all_warmup_complete g) < NUM_CPUS then Some (mc, - 1)
      else do {
        let ch = unat (dram_get_channel k (p_address packet));
        wq \<leftarrow> get_queue mc True ch;
        index \<leftarrow> check_dram_queue wq packet;
        if index \<noteq> - 1 then Some (mc, index)
        else do {
          (wq1, added) \<leftarrow> store_packet wq (m_WQ_SIZE k) packet;
          wq2 \<leftarrow> update_schedule_cycle wq1;
          Some (put_queue mc True ch wq2, - 1) } })"

definition dram_add_pq :: "memory_controller \<Rightarrow> packet \<Rightarrow> memory_controller \<times> int" where
  "dram_add_pq mc packet = (mc, - 1)"

definition dram_get_occupancy :: "mc_config \<Rightarrow> memory_controller \<Rightarrow> u8 \<Rightarrow> u64 \<Rightarrow> u32 option" where
  "dram_get_occupancy k mc queue_type address = do {
     let ch = unat (dram_get_channel k address);
     if queue_type = 1 then do { q \<leftarrow> get_queue mc False ch; Some (q_occupancy q) }
     else if queue_type = 2 then do { q \<leftarrow> get_queue mc True ch; Some (q_occupancy q) }
     else Some 0 }"

definition dram_get_size :: "mc_config \<Rightarrow> memory_controller \<Rightarrow> u8 \<Rightarrow> u64 \<Rightarrow> u32 option" where
  "dram_get_size k mc queue_type address = do {
     let ch = unat (dram_get_channel k address);
     if queue_type = 1 then do { q \<leftarrow> get_queue mc False ch; Some (q_size q) }
     else if queue_type = 2 then do { q \<leftarrow> get_queue mc True ch; Some (q_size q) }
     else Some 0 }"

definition dram_increment_WQ_FULL :: "mc_config \<Rightarrow> memory_controller \<Rightarrow> u64 \<Rightarrow> memory_controller option" where
  "dram_increment_WQ_FULL k mc address = do {
     let ch = unat (dram_get_channel k address);
     q \<leftarrow> get_queue mc True ch;
     Some (put_queue mc True ch (q\<lparr>q_FULL := q_FULL q + 1\<rparr>)) }"

section \<open>The three controllers\<close>

text \<open>
  The constants of \<open>inc/champsim.h\<close> and of the three headers.  The latencies are computed in
  \<open>main\<close> from the nanoseconds in the headers and the frequency of 4 GHz; the return time of
  the data bus also depends on a knob and is an argument.
\<close>

definition dram_config :: "u32 \<Rightarrow> mc_config" where
  "dram_config return_time = \<lparr>m_NAME = ''DRAM'', m_CHANNELS = 1, m_LOG2_CHANNELS = 0, m_RANKS = 1, m_LOG2_RANKS = 0,
     m_BANKS = 8, m_LOG2_BANKS = 3, m_ROWS = 65536, m_LOG2_ROWS = 16, m_COLUMNS = 128, m_LOG2_COLUMNS = 7,
     m_WQ_SIZE = 64, m_RQ_SIZE = 64, m_WRITE_HIGH_WM = 56, m_WRITE_LOW_WM = 48,
     m_DBUS_TURN_AROUND_TIME = 30, m_DBUS_RETURN_TIME = return_time, m_tRP = 60, m_tRCD = 60, m_tCAS = 50\<rparr>"

section \<open>Invariants\<close>

definition config_ok :: "mc_config \<Rightarrow> bool" where
  "config_ok k \<longleftrightarrow> 0 < m_CHANNELS k \<and> m_CHANNELS k < 2 ^ 32 \<and> 0 < m_RANKS k \<and> m_RANKS k < 2 ^ 32 \<and>
     0 < m_BANKS k \<and> m_BANKS k < 2 ^ 32"

definition key_ok :: "mc_config \<Rightarrow> bank_key \<Rightarrow> bool" where
  "key_ok k key = (case key of (ch, rank, bank) \<Rightarrow> ch < m_CHANNELS k \<and> rank < m_RANKS k \<and> bank < m_BANKS k)"

lemma addr_field_less:
  assumes "0 < n" "n < 2 ^ 32"
  shows "unat (addr_field l n s a) < n"
proof -
  have "unat (of_nat n - 1 :: u32) = n - 1"
    using assms by (simp add: unat_dec word_unat_eq_iff unat_of_nat)
  moreover have "unat (ucast (drop_bit s a) AND (of_nat n - 1 :: u32)) \<le> unat (of_nat n - 1 :: u32)"
    using word_and_le1 by (simp only: word_le_nat_alt [symmetric])
  ultimately have "unat (ucast (drop_bit s a) AND (of_nat n - 1 :: u32)) < n" using assms by linarith
  then show ?thesis using assms by (simp add: addr_field_def)
qed

lemma bank_key_ok: "config_ok k \<Longrightarrow> key_ok k (bank_key k a)"
  by (simp add: key_ok_def bank_key_def config_ok_def dram_get_channel_def dram_get_rank_def dram_get_bank_def addr_field_less)

definition bank_at :: "memory_controller \<Rightarrow> bank_key \<Rightarrow> bank_request" where
  "bank_at mc key = (case key of (ch, rank, bank) \<Rightarrow> mc_bank_request mc ! ch ! rank ! bank)"

definition set_bank :: "memory_controller \<Rightarrow> bank_key \<Rightarrow> bank_request \<Rightarrow> memory_controller" where
  "set_bank mc key b = (case key of (ch, rank, bank) \<Rightarrow>
     mc\<lparr>mc_bank_request := (mc_bank_request mc)[ch := (mc_bank_request mc ! ch)
       [rank := (mc_bank_request mc ! ch ! rank)[bank := b]]]\<rparr>)"

definition banks_ok :: "mc_config \<Rightarrow> memory_controller \<Rightarrow> bool" where
  "banks_ok k mc \<longleftrightarrow> length (mc_bank_request mc) = m_CHANNELS k \<and>
     (\<forall>c < m_CHANNELS k. length (mc_bank_request mc ! c) = m_RANKS k \<and>
       (\<forall>r < m_RANKS k. length (mc_bank_request mc ! c ! r) = m_BANKS k)) \<and>
     (\<forall>key. key_ok k key \<longrightarrow> unat (br_working_type (bank_at mc key)) < NUM_TYPES)"

lemma get_bank_eq: "banks_ok k mc \<Longrightarrow> key_ok k key \<Longrightarrow> get_bank mc key = Some (bank_at mc key)"
  by (auto simp: get_bank_def bank_at_def banks_ok_def key_ok_def split: prod.splits)

lemma put_bank_eq: "banks_ok k mc \<Longrightarrow> key_ok k key \<Longrightarrow> put_bank mc key b = Some (set_bank mc key b)"
  by (auto simp: put_bank_def set_bank_def banks_ok_def key_ok_def split: prod.splits)

lemma bank_at_set:
  "banks_ok k mc \<Longrightarrow> key_ok k key \<Longrightarrow> bank_at (set_bank mc key b) key' = (if key' = key then b else bank_at mc key')"
  by (auto simp: bank_at_def set_bank_def banks_ok_def key_ok_def nth_list_update split: prod.splits)

lemma banks_ok_set:
  assumes "banks_ok k mc" "key_ok k key" "unat (br_working_type b) < NUM_TYPES"
  shows "banks_ok k (set_bank mc key b)"
proof -
  have "length (mc_bank_request (set_bank mc key b)) = m_CHANNELS k \<and>
     (\<forall>c < m_CHANNELS k. length (mc_bank_request (set_bank mc key b) ! c) = m_RANKS k \<and>
       (\<forall>r < m_RANKS k. length (mc_bank_request (set_bank mc key b) ! c ! r) = m_BANKS k))"
    using assms(1,2)
    by (auto simp: set_bank_def banks_ok_def key_ok_def nth_list_update split: prod.splits)
  moreover have "unat (br_working_type (bank_at (set_bank mc key b) key')) < NUM_TYPES" if "key_ok k key'" for key'
  proof -
    have "unat (br_working_type (bank_at mc key')) < NUM_TYPES" using assms(1) that unfolding banks_ok_def by blast
    then show ?thesis using assms(3) bank_at_set [OF assms(1,2), of b key'] by simp
  qed
  ultimately show ?thesis by (simp add: banks_ok_def)
qed

definition queue_at :: "memory_controller \<Rightarrow> bool \<Rightarrow> nat \<Rightarrow> packet_queue" where
  "queue_at mc w ch = (if w then mc_WQ mc else mc_RQ mc) ! ch"

definition sched_count :: "memory_controller \<Rightarrow> bool \<Rightarrow> u32 list" where
  "sched_count mc w = (if w then mc_scheduled_writes mc else mc_scheduled_reads mc)"

definition banked :: "packet_queue \<Rightarrow> nat set" where
  "banked q = {i. i < length (q_entry q) \<and> in_bank (q_entry q ! i)}"

definition dims_ok :: "mc_config \<Rightarrow> memory_controller \<Rightarrow> bool" where
  "dims_ok k mc \<longleftrightarrow> banks_ok k mc \<and>
     length (mc_dbus_cycle_available mc) = m_CHANNELS k \<and> length (mc_dbus_cycle_congested mc) = m_CHANNELS k \<and>
     length (mc_dbus_congested mc) = m_CHANNELS k \<and>
     list_all (\<lambda>t. length t = NUM_TYPES + 1 \<and> list_all (\<lambda>row. length row = NUM_TYPES + 1) t) (mc_dbus_congested mc) \<and>
     length (mc_write_mode mc) = m_CHANNELS k \<and> (\<forall>w. length (sched_count mc w) = m_CHANNELS k) \<and>
     length (mc_WQ mc) = m_CHANNELS k \<and> length (mc_RQ mc) = m_CHANNELS k \<and>
     length (mc_ACCESS mc) = NUM_TYPES \<and> length (mc_HIT mc) = NUM_TYPES"

text \<open>
  The clocks: \<open>current_core_cycle\<close> has one element per core, as the source declares it, and no
  clock has reached the maximum, which the queues use for "no event".
\<close>

definition clock_ok :: "nat \<Rightarrow> globals \<Rightarrow> bool" where
  "clock_ok cpus g \<longleftrightarrow> length (g_current_core_cycle g) = cpus \<and> list_all (\<lambda>c. c \<noteq> - 1) (g_current_core_cycle g)"

lemma clock_okD:
  assumes "clock_ok cpus g" "unat c < cpus"
  shows "core_cycle g c = Some (g_current_core_cycle g ! unat c)" "g_current_core_cycle g ! unat c \<noteq> - 1"
  using assms by (auto simp: clock_ok_def list_all_length)

text \<open>One entry of a queue: a request of its channel, from a core of the machine; free entries are not scheduled.\<close>

definition entry_ok :: "mc_config \<Rightarrow> nat \<Rightarrow> nat \<Rightarrow> packet \<Rightarrow> bool" where
  "entry_ok k cpus ch e \<longleftrightarrow> (if p_address e = 0 then p_scheduled e = 0 \<and> unat (p_cpu e) \<le> cpus
     else fst (bank_key k (p_address e)) = ch \<and> unat (p_cpu e) < cpus \<and> unat (p_type e) < NUM_TYPES)"

definition queue_ok :: "mc_config \<Rightarrow> nat \<Rightarrow> bool \<Rightarrow> nat \<Rightarrow> packet_queue \<Rightarrow> bool" where
  "queue_ok k cpus w ch q \<longleftrightarrow> table_inv q \<and> q_size q = (if w then m_WQ_SIZE k else m_RQ_SIZE k) \<and>
     (q_is_WQ q \<noteq> 0) = w \<and> NUM_CPUS \<le> cpus \<and> (\<forall>i < length (q_entry q). entry_ok k cpus ch (q_entry q ! i))"

text \<open>Every scheduled request owns the bank of its address.\<close>

definition link :: "mc_config \<Rightarrow> memory_controller \<Rightarrow> bool \<Rightarrow> packet_queue \<Rightarrow> bool" where
  "link k mc w q \<longleftrightarrow> (\<forall>i \<in> banked q. let b = bank_at mc (bank_key k (p_address (q_entry q ! i))) in
     br_request_index b = int i \<and> br_working b \<noteq> 0 \<and> (br_is_write b \<noteq> 0) = w \<and> (br_is_read b \<noteq> 0) = (\<not> w))"

definition core_ok :: "mc_config \<Rightarrow> nat \<Rightarrow> memory_controller \<Rightarrow> bool \<Rightarrow> nat \<Rightarrow> bool" where
  "core_ok k cpus mc w ch \<longleftrightarrow> queue_ok k cpus w ch (queue_at mc w ch) \<and> link k mc w (queue_at mc w ch) \<and>
     unat (sched_count mc w ! ch) = card (banked (queue_at mc w ch))"

text \<open>
  The next event of a queue is the earliest of its entries of a kind, or it was never computed
  and there is no entry of that kind.
\<close>

definition event_ok :: "(packet \<Rightarrow> bool) \<Rightarrow> packet_queue \<Rightarrow> u64 \<Rightarrow> u32 \<Rightarrow> bool" where
  "event_ok P q c x \<longleftrightarrow> earliest of_nat P (q_entry q) (unat (q_size q)) (- 1, q_size q) (c, x) \<or>
     (c = - 1 \<and> x = 0 \<and> (\<forall>i < unat (q_size q). \<not> P (q_entry q ! i)))"

definition fresh :: "packet_queue \<Rightarrow> bool" where
  "fresh q \<longleftrightarrow> event_ok pending q (q_next_schedule_cycle q) (q_next_schedule_index q) \<and>
     event_ok in_bank q (q_next_process_cycle q) (q_next_process_index q)"

text \<open>
  A free entry carries \<open>cpu = NUM_CPUS\<close>, and \<open>operate\<close> reads the clock of the core of the entry
  that the next index points to: on a free entry, one past the end of the array.  A queue is
  \<open>aimed\<close> when its next indices do not point to a free entry.  The queue that \<open>operate\<close> serves
  after \<open>select_mode\<close> is aimed in a \<open>settled\<close> channel, and every operation keeps that.
\<close>

definition aimed :: "packet_queue \<Rightarrow> bool" where
  "aimed q \<longleftrightarrow> (q_next_schedule_index q < q_size q \<longrightarrow> pending (q_entry q ! unat (q_next_schedule_index q))) \<and>
     (q_next_process_index q < q_size q \<longrightarrow> p_address (q_entry q ! unat (q_next_process_index q)) \<noteq> 0)"

definition settled :: "memory_controller \<Rightarrow> nat \<Rightarrow> bool" where
  "settled mc ch \<longleftrightarrow> (if mc_write_mode mc ! ch = 0
     then aimed (queue_at mc False ch) \<or> (q_occupancy (queue_at mc False ch) = 0 \<and> 0 < q_occupancy (queue_at mc True ch))
     else aimed (queue_at mc True ch))"

definition live_mc :: "mc_config \<Rightarrow> memory_controller \<Rightarrow> bool" where
  "live_mc k mc \<longleftrightarrow> (\<forall>ch < m_CHANNELS k. settled mc ch)"

definition mc_core :: "mc_config \<Rightarrow> nat \<Rightarrow> memory_controller \<Rightarrow> bool" where
  "mc_core k cpus mc \<longleftrightarrow> config_ok k \<and> dims_ok k mc \<and> (\<forall>w ch. ch < m_CHANNELS k \<longrightarrow> core_ok k cpus mc w ch)"

definition mc_inv :: "mc_config \<Rightarrow> nat \<Rightarrow> memory_controller \<Rightarrow> bool" where
  "mc_inv k cpus mc \<longleftrightarrow> mc_core k cpus mc \<and> (\<forall>w ch. ch < m_CHANNELS k \<longrightarrow> fresh (queue_at mc w ch))"

subsection \<open>Access lemmas\<close>

lemma get_queue_eq: "dims_ok k mc \<Longrightarrow> ch < m_CHANNELS k \<Longrightarrow> get_queue mc w ch = Some (queue_at mc w ch)"
  by (auto simp: get_queue_def queue_at_def dims_ok_def)

lemma put_queue_at:
  "dims_ok k mc \<Longrightarrow> ch < m_CHANNELS k \<Longrightarrow>
     queue_at (put_queue mc w ch q) w' ch' = (if w' = w \<and> ch' = ch then q else queue_at mc w' ch')"
  by (auto simp: put_queue_def queue_at_def dims_ok_def)

lemma put_queue_frame [simp]:
  "bank_at (put_queue mc w ch q) key = bank_at mc key" "sched_count (put_queue mc w ch q) v = sched_count mc v"
  "dims_ok k (put_queue mc w ch q) = dims_ok k mc"
  by (auto simp: put_queue_def bank_at_def sched_count_def dims_ok_def banks_ok_def)

lemma set_bank_frame [simp]:
  "queue_at (set_bank mc key b) w ch = queue_at mc w ch" "sched_count (set_bank mc key b) w = sched_count mc w"
  by (auto simp: set_bank_def queue_at_def sched_count_def split: prod.splits)

lemma dims_ok_set_bank:
  "dims_ok k mc \<Longrightarrow> key_ok k key \<Longrightarrow> unat (br_working_type b) < NUM_TYPES \<Longrightarrow> dims_ok k (set_bank mc key b)"
  using banks_ok_set [of k mc key b] by (auto simp: dims_ok_def) (auto simp: set_bank_def split: prod.splits)

lemma inc_scheduled_eq:
  assumes "dims_ok k mc" "ch < m_CHANNELS k"
  shows "\<exists>mc'. inc_scheduled mc w ch d = Some mc' \<and> dims_ok k mc' \<and>
    (\<forall>v. sched_count mc' v = (if v = w then (sched_count mc w)[ch := sched_count mc w ! ch + d] else sched_count mc v)) \<and>
    bank_at mc' = bank_at mc \<and> queue_at mc' = queue_at mc \<and>
    mc_write_mode mc' = mc_write_mode mc"
proof -
  have "length (mc_scheduled_writes mc) = m_CHANNELS k" "length (mc_scheduled_reads mc) = m_CHANNELS k"
    using assms(1) unfolding dims_ok_def sched_count_def by (metis (full_types))+
  then show ?thesis
    using assms by (cases w) (simp_all add: inc_scheduled_def sched_count_def dims_ok_def banks_ok_def bank_at_def queue_at_def fun_eq_iff)
qed

lemma update_schedule_cycle_eq:
  assumes "length (q_entry q) = unat (q_size q)"
  shows "\<exists>x y. update_schedule_cycle q = Some (q\<lparr>q_next_schedule_cycle := x, q_next_schedule_index := y\<rparr>) \<and>
    earliest of_nat pending (q_entry q) (unat (q_size q)) (- 1, q_size q) (x, y)"
proof -
  obtain x y where "queue_min_event pending q = Some (x, y)"
    "earliest of_nat pending (q_entry q) (unat (q_size q)) (- 1, q_size q) (x, y)"
    using queue_min_event_earliest [OF assms, of pending] by (metis surj_pair)
  then show ?thesis by (intro exI [of _ x] exI [of _ y]) (simp add: update_schedule_cycle_def)
qed

lemma update_process_cycle_eq:
  assumes "length (q_entry q) = unat (q_size q)"
  shows "\<exists>x y. update_process_cycle q = Some (q\<lparr>q_next_process_cycle := x, q_next_process_index := y\<rparr>) \<and>
    earliest of_nat in_bank (q_entry q) (unat (q_size q)) (- 1, q_size q) (x, y)"
proof -
  obtain x y where "queue_min_event in_bank q = Some (x, y)"
    "earliest of_nat in_bank (q_entry q) (unat (q_size q)) (- 1, q_size q) (x, y)"
    using queue_min_event_earliest [OF assms, of in_bank] by (metis surj_pair)
  then show ?thesis by (intro exI [of _ x] exI [of _ y]) (simp add: update_process_cycle_def)
qed

text \<open>Only the entries, the size, the occupancy and the write mark of a queue matter to the invariant.\<close>

definition same_queue :: "packet_queue \<Rightarrow> packet_queue \<Rightarrow> bool" where
  "same_queue q q' \<longleftrightarrow> q_entry q' = q_entry q \<and> q_size q' = q_size q \<and> q_occupancy q' = q_occupancy q \<and> q_is_WQ q' = q_is_WQ q"

lemma same_queue_inv:
  assumes "same_queue q q'"
  shows "queue_ok k cpus w ch q' = queue_ok k cpus w ch q" "link k mc w q' = link k mc w q" "banked q' = banked q"
    "addresses q' = addresses q"
  using assms by (simp_all add: same_queue_def queue_ok_def link_def banked_def table_inv_def used_def addresses_def)

text \<open>The requests that wait in the queues: a step that neither adds nor completes any keeps them.\<close>

definition same_requests :: "mc_config \<Rightarrow> memory_controller \<Rightarrow> memory_controller \<Rightarrow> bool" where
  "same_requests k mc mc' \<longleftrightarrow> (\<forall>v c. c < m_CHANNELS k \<longrightarrow> addresses (queue_at mc' v c) = addresses (queue_at mc v c))"

lemma same_requests_refl: "queue_at mc' = queue_at mc \<Longrightarrow> same_requests k mc mc'"
  by (simp add: same_requests_def)

lemma same_requests_trans: "same_requests k mc mc1 \<Longrightarrow> same_requests k mc1 mc2 \<Longrightarrow> same_requests k mc mc2"
  by (simp add: same_requests_def)

lemma same_requests_step:
  assumes "\<forall>v c. c < m_CHANNELS k \<longrightarrow> \<not> (v = w \<and> c = ch) \<longrightarrow> queue_at mc' v c = queue_at mc v c"
    "addresses (queue_at mc' w ch) = addresses (queue_at mc w ch)"
  shows "same_requests k mc mc'"
  unfolding same_requests_def
proof (intro allI impI)
  fix v c assume "c < m_CHANNELS k"
  then show "addresses (queue_at mc' v c) = addresses (queue_at mc v c)" using assms by (cases "v = w \<and> c = ch") auto
qed

subsection \<open>Banks belong to one request\<close>

lemma core_okD:
  assumes "mc_core k cpus mc" "ch < m_CHANNELS k"
  shows "queue_ok k cpus w ch (queue_at mc w ch)" "link k mc w (queue_at mc w ch)"
    "unat (sched_count mc w ! ch) = card (banked (queue_at mc w ch))"
  using assms by (simp_all add: mc_core_def core_ok_def)

lemma queue_length: "queue_ok k cpus w ch q \<Longrightarrow> length (q_entry q) = unat (q_size q)"
  by (simp add: queue_ok_def table_inv_def)

lemma bankedD:
  assumes "queue_ok k cpus w ch q" "i \<in> banked q"
  shows "i < length (q_entry q)" "p_address (q_entry q ! i) \<noteq> 0" "in_bank (q_entry q ! i)"
    "fst (bank_key k (p_address (q_entry q ! i))) = ch" "unat (p_cpu (q_entry q ! i)) < cpus"
    "unat (p_type (q_entry q ! i)) < NUM_TYPES" "i \<in> used q"
proof -
  show l: "i < length (q_entry q)" and b: "in_bank (q_entry q ! i)" using assms(2) by (auto simp: banked_def)
  have e: "entry_ok k cpus ch (q_entry q ! i)" using assms(1) l by (simp add: queue_ok_def)
  show nz: "p_address (q_entry q ! i) \<noteq> 0" using e b by (auto simp: entry_ok_def in_bank_def split: if_splits)
  show "fst (bank_key k (p_address (q_entry q ! i))) = ch" "unat (p_cpu (q_entry q ! i)) < cpus"
    "unat (p_type (q_entry q ! i)) < NUM_TYPES" using e nz by (auto simp: entry_ok_def)
  show "i \<in> used q" using l nz by (simp add: used_def)
qed

lemma linkD:
  assumes "link k mc w q" "i \<in> banked q"
  shows "br_request_index (bank_at mc (bank_key k (p_address (q_entry q ! i)))) = int i"
    "br_working (bank_at mc (bank_key k (p_address (q_entry q ! i)))) \<noteq> 0"
    "(br_is_write (bank_at mc (bank_key k (p_address (q_entry q ! i)))) \<noteq> 0) = w"
    "(br_is_read (bank_at mc (bank_key k (p_address (q_entry q ! i)))) \<noteq> 0) = (\<not> w)"
  using assms by (auto simp: link_def Let_def)

lemma bank_owner:
  assumes core: "mc_core k cpus mc" and c: "c1 < m_CHANNELS k" "c2 < m_CHANNELS k"
    and i: "i \<in> banked (queue_at mc w1 c1)" and j: "j \<in> banked (queue_at mc w2 c2)"
    and key: "bank_key k (p_address (q_entry (queue_at mc w1 c1) ! i)) = bank_key k (p_address (q_entry (queue_at mc w2 c2) ! j))"
  shows "w1 = w2 \<and> c1 = c2 \<and> i = j"
proof -
  note o1 = core_okD [OF core c(1), of w1] and o2 = core_okD [OF core c(2), of w2]
  have "c1 = c2" using bankedD(4) [OF o1(1) i] bankedD(4) [OF o2(1) j] key by simp
  moreover have "int i = int j" using linkD(1) [OF o1(2) i] linkD(1) [OF o2(2) j] key by simp
  moreover have "w1 = w2" using linkD(3) [OF o1(2) i] linkD(3) [OF o2(2) j] key by simp
  ultimately show ?thesis by simp
qed

text \<open>A step that changes one queue and one bank that no other request owns.\<close>

lemma core_update:
  assumes core: "mc_core k cpus mc" and ch: "ch < m_CHANNELS k" and dims: "dims_ok k mc'"
    and queues: "\<And>v c. c < m_CHANNELS k \<Longrightarrow> queue_at mc' v c = (if v = w \<and> c = ch then q' else queue_at mc v c)"
    and counts: "\<And>v c. c < m_CHANNELS k \<Longrightarrow> \<not> (v = w \<and> c = ch) \<Longrightarrow> sched_count mc' v ! c = sched_count mc v ! c"
    and banks: "\<And>key'. key' \<noteq> key \<Longrightarrow> bank_at mc' key' = bank_at mc key'"
    and other: "\<And>v c i. c < m_CHANNELS k \<Longrightarrow> \<not> (v = w \<and> c = ch) \<Longrightarrow> i \<in> banked (queue_at mc v c) \<Longrightarrow>
      bank_key k (p_address (q_entry (queue_at mc v c) ! i)) \<noteq> key"
    and own: "queue_ok k cpus w ch q'" "link k mc' w q'" "unat (sched_count mc' w ! ch) = card (banked q')"
  shows "mc_core k cpus mc'"
  unfolding mc_core_def
proof (intro conjI allI impI)
  show "config_ok k" using core by (simp add: mc_core_def)
  show "dims_ok k mc'" by (rule dims)
  fix v c assume c: "c < m_CHANNELS k"
  show "core_ok k cpus mc' v c"
  proof (cases "v = w \<and> c = ch")
    case True
    then show ?thesis using queues [OF c, of v] own by (simp add: core_ok_def)
  next
    case False
    note o = core_okD [OF core c, of v]
    have q: "queue_at mc' v c = queue_at mc v c" using queues [OF c, of v] False by auto
    have "link k mc' v (queue_at mc v c)"
      using o(2) other [OF c False] banks unfolding link_def by simp
    then show ?thesis using o(1,3) counts [OF c False] by (simp add: core_ok_def q)
  qed
qed

subsection \<open>Choosing a request\<close>

definition ready :: "mc_config \<Rightarrow> memory_controller \<Rightarrow> packet \<Rightarrow> bool" where
  "ready k mc e \<longleftrightarrow> pending e \<and> br_working (bank_at mc (bank_key k (p_address e))) = 0"

definition open_hit :: "mc_config \<Rightarrow> memory_controller \<Rightarrow> packet \<Rightarrow> bool" where
  "open_hit k mc e \<longleftrightarrow> ready k mc e \<and> br_open_row (bank_at mc (bank_key k (p_address e))) = dram_get_row k (p_address e)"

lemma ready_eq:
  assumes "config_ok k" "dims_ok k mc"
  shows "bank_ready k mc e = Some (ready k mc e)" "row_hit k mc e = Some (open_hit k mc e)"
proof -
  have "banks_ok k mc" using assms(2) by (simp add: dims_ok_def)
  note g = get_bank_eq [OF this bank_key_ok [OF assms(1), of "p_address e"]]
  show "bank_ready k mc e = Some (ready k mc e)" by (auto simp: bank_ready_def ready_def pending_def g)
  show "row_hit k mc e = Some (open_hit k mc e)" by (auto simp: row_hit_def open_hit_def ready_def pending_def g)
qed

lemma find_oldest_total:
  assumes "config_ok k" "dims_ok k mc" "length (q_entry q) = unat (q_size q)"
  shows "\<exists>i h. find_oldest k mc q = Some (i, h) \<and>
    (if h then \<exists>c. earliest int (open_hit k mc) (q_entry q) (unat (q_size q)) (- 1, - 1) (c, i) \<and> i \<noteq> - 1
     else (\<exists>c. earliest int (open_hit k mc) (q_entry q) (unat (q_size q)) (- 1, - 1) (c, - 1)) \<and>
       (\<exists>c. earliest int (ready k mc) (q_entry q) (unat (q_size q)) (- 1, - 1) (c, i)))"
proof -
  note r = ready_eq [OF assms(1,2)]
  have e0: "earliest int P (q_entry q) 0 (- 1, - 1) (- 1, - 1)" for P by (simp add: earliest_def)
  obtain h where h: "min_event int (row_hit k mc) (q_entry q) 0 (unat (q_size q)) (- 1, - 1) = Some h"
      "earliest int (open_hit k mc) (q_entry q) (unat (q_size q)) (- 1, - 1) h"
    using min_event_earliest [of 0 "unat (q_size q)" "q_entry q" int "open_hit k mc" "(- 1, - 1)" "(- 1, - 1)" "row_hit k mc"]
      assms(3) r(2) e0 by auto
  obtain m where m: "min_event int (bank_ready k mc) (q_entry q) 0 (unat (q_size q)) (- 1, - 1) = Some m"
      "earliest int (ready k mc) (q_entry q) (unat (q_size q)) (- 1, - 1) m"
    using min_event_earliest [of 0 "unat (q_size q)" "q_entry q" int "ready k mc" "(- 1, - 1)" "(- 1, - 1)" "bank_ready k mc"]
      assms(3) r(1) e0 by auto
  show ?thesis
  proof (cases "snd h = - 1")
    case True
    then have "find_oldest k mc q = Some (snd m, False)" using h m by (simp add: find_oldest_def)
    moreover have "h = (fst h, - 1)" using True by (metis prod.collapse)
    ultimately show ?thesis using h(2) m(2) by (metis prod.collapse)
  next
    case False
    then have "find_oldest k mc q = Some (snd h, True)" using h by (simp add: find_oldest_def)
    then show ?thesis using h(2) False by (metis prod.collapse)
  qed
qed

lemma earliest_int:
  assumes "earliest int P es n (- 1, - 1) (c, i)"
  shows "i = - 1 \<or> (0 \<le> i \<and> nat i < n \<and> P (es ! nat i))"
  using assms by (auto simp: earliest_def)

lemma find_oldest_ready:
  assumes "config_ok k" "dims_ok k mc" "length (q_entry q) = unat (q_size q)"
    "find_oldest k mc q = Some (i, h)" "i \<noteq> - 1"
  shows "0 \<le> i" "nat i < length (q_entry q)" "ready k mc (q_entry q ! nat i)"
proof -
  have hit: "open_hit k mc e \<Longrightarrow> ready k mc e" for e by (simp add: open_hit_def)
  have "\<exists>c P. earliest int P (q_entry q) (unat (q_size q)) (- 1, - 1) (c, i) \<and> (\<forall>e. P e \<longrightarrow> ready k mc e)"
  proof -
    have f: "if h then \<exists>c. earliest int (open_hit k mc) (q_entry q) (unat (q_size q)) (- 1, - 1) (c, i) \<and> i \<noteq> - 1
       else (\<exists>c. earliest int (open_hit k mc) (q_entry q) (unat (q_size q)) (- 1, - 1) (c, - 1)) \<and>
         (\<exists>c. earliest int (ready k mc) (q_entry q) (unat (q_size q)) (- 1, - 1) (c, i))"
      using find_oldest_total [OF assms(1-3)] assms(4) by simp
    show ?thesis
    proof (cases h)
      case True
      with f obtain c where "earliest int (open_hit k mc) (q_entry q) (unat (q_size q)) (- 1, - 1) (c, i)" by auto
      with hit show ?thesis by blast
    next
      case False
      with f obtain c where "earliest int (ready k mc) (q_entry q) (unat (q_size q)) (- 1, - 1) (c, i)" by auto
      then show ?thesis by blast
    qed
  qed
  then obtain c P where "earliest int P (q_entry q) (unat (q_size q)) (- 1, - 1) (c, i)" "\<forall>e. P e \<longrightarrow> ready k mc e"
    by blast
  then show "0 \<le> i" "nat i < length (q_entry q)" "ready k mc (q_entry q ! nat i)"
    using earliest_int [of P "q_entry q" _ c i] assms(3,5) by auto
qed

subsection \<open>Scheduling keeps the invariant\<close>

lemma queue_ok_replace:
  assumes ok: "queue_ok k cpus w ch q" and i: "i \<in> used q"
    and e: "p_address e = p_address (q_entry q ! i)" "p_cpu e = p_cpu (q_entry q ! i)" "p_type e = p_type (q_entry q ! i)"
  shows "queue_ok k cpus w ch (q\<lparr>q_entry := (q_entry q)[i := e]\<rparr>)"
    "addresses (q\<lparr>q_entry := (q_entry q)[i := e]\<rparr>) = addresses q"
proof -
  have il: "i < length (q_entry q)" and nz: "p_address (q_entry q ! i) \<noteq> 0" using i by (auto simp: used_def)
  have tab: "table_inv q" using ok by (simp add: queue_ok_def)
  have "entry_ok k cpus ch (q_entry q ! i)" using ok il by (simp add: queue_ok_def)
  then have "entry_ok k cpus ch e" using nz e by (simp add: entry_ok_def)
  then have "entry_ok k cpus ch ((q_entry q)[i := e] ! j)" if "j < length (q_entry q)" for j
    using ok that il by (cases "i = j") (simp_all add: queue_ok_def)
  then show "queue_ok k cpus w ch (q\<lparr>q_entry := (q_entry q)[i := e]\<rparr>)"
    using ok table_replace(1) [OF tab il e(1)] by (simp add: queue_ok_def)
  show "addresses (q\<lparr>q_entry := (q_entry q)[i := e]\<rparr>) = addresses q" by (rule table_replace(2) [OF tab il e(1)])
qed

lemma earliest_index:
  assumes "earliest of_nat P es (unat n) (- 1, n) (c, x)" "x < (n :: u32)"
  shows "unat x < unat n \<and> P (es ! unat x)"
proof -
  from assms obtain j where j: "j < unat n" "x = of_nat j" "P (es ! j)"
    by (auto simp: earliest_def)
  have "j < 2 ^ LENGTH(32)" using j(1) unsigned_less [of n, where 'a = nat] by (rule less_trans)
  then have "unat x = j" using j(2) by (simp add: unat_of_nat)
  with j show ?thesis by simp
qed

lemma aimedI:
  assumes ok: "queue_ok k cpus w ch q"
    and s: "q_next_schedule_index q < q_size q \<Longrightarrow> pending (q_entry q ! unat (q_next_schedule_index q))"
    and p: "earliest of_nat in_bank (q_entry q) (unat (q_size q)) (- 1, q_size q) (c, q_next_process_index q)"
  shows "aimed q"
proof -
  have "p_address (q_entry q ! unat (q_next_process_index q)) \<noteq> 0" if "q_next_process_index q < q_size q"
    using bankedD(2) [OF ok] earliest_index [OF p that] queue_length [OF ok] by (simp add: banked_def)
  then show ?thesis using s by (simp add: aimed_def)
qed

lemma aimed_cpu:
  assumes "queue_ok k cpus w ch q" "i < length (q_entry q)" "p_address (q_entry q ! i) \<noteq> 0"
  shows "unat (p_cpu (q_entry q ! i)) < cpus"
proof -
  have "entry_ok k cpus ch (q_entry q ! i)" using assms by (simp add: queue_ok_def)
  then show ?thesis using assms(3) by (simp add: entry_ok_def)
qed

lemma refresh_eq:
  assumes ok: "queue_ok k cpus w ch q"
  shows "\<exists>q1 q2. update_schedule_cycle q = Some q1 \<and> update_process_cycle q1 = Some q2 \<and> same_queue q q2 \<and> fresh q2 \<and> aimed q2 \<and>
    q_next_schedule_cycle q2 = q_next_schedule_cycle q1 \<and> q_next_schedule_index q2 = q_next_schedule_index q1"
proof -
  note len = queue_length [OF ok]
  obtain x y where xy: "update_schedule_cycle q = Some (q\<lparr>q_next_schedule_cycle := x, q_next_schedule_index := y\<rparr>)"
      "earliest of_nat pending (q_entry q) (unat (q_size q)) (- 1, q_size q) (x, y)"
    using update_schedule_cycle_eq [OF len] by blast
  let ?q1 = "q\<lparr>q_next_schedule_cycle := x, q_next_schedule_index := y\<rparr>"
  obtain u v where uv: "update_process_cycle ?q1 = Some (?q1\<lparr>q_next_process_cycle := u, q_next_process_index := v\<rparr>)"
      "earliest of_nat in_bank (q_entry q) (unat (q_size q)) (- 1, q_size q) (u, v)"
    using update_process_cycle_eq [of ?q1] len by auto
  let ?q2 = "?q1\<lparr>q_next_process_cycle := u, q_next_process_index := v\<rparr>"
  have "same_queue q ?q2" by (simp add: same_queue_def)
  then have "queue_ok k cpus w ch ?q2" using ok same_queue_inv(1) by simp
  then have "aimed ?q2" by (rule aimedI [where c = u]) (use uv(2) earliest_index [OF xy(2)] in auto)
  with xy uv \<open>same_queue q ?q2\<close> show ?thesis
    by (intro exI [of _ ?q1] exI [of _ ?q2]) (simp add: fresh_def event_ok_def)
qed

lemma card_banked: "card (banked q) \<le> length (q_entry q)"
proof -
  have "banked q \<subseteq> {..<length (q_entry q)}" by (auto simp: banked_def)
  then show ?thesis using card_mono [of "{..<length (q_entry q)}" "banked q"] by simp
qed

lemma finite_banked [simp]: "finite (banked q)"
  by (simp add: banked_def)

text \<open>Adding one to, or subtracting one from, the number of scheduled requests.\<close>

lemma card_insert_word:
  assumes "unat (v::u32) = card S" "finite S" "i \<notin> S" "card (insert i S) \<le> n" "n < 2 ^ 32"
  shows "unat (v + 1) = card (insert i S)"
proof -
  have "card (insert i S) = unat v + 1" using assms(1-3) by simp
  then show ?thesis using assms(4,5) by (simp add: unat_word_ariths)
qed

lemma card_remove_word:
  assumes "unat (v::u32) = card S" "finite S" "i \<in> S"
  shows "unat (v + (- 1)) = card (S - {i})"
proof -
  have "card S \<noteq> 0" using assms(2,3) by auto
  then have "v \<noteq> 0" using assms(1) by auto
  then show ?thesis using assms by (simp add: unat_dec)
qed

lemma schedule_step:
  assumes core: "mc_core k cpus mc" and ch: "ch < m_CHANNELS k" and g: "clock_ok cpus g"
    and f: "find_oldest k mc (queue_at mc w ch) = Some (i, h)" "i \<noteq> - 1"
  shows "\<exists>mc'. schedule k g w ch mc = Some mc' \<and> mc_core k cpus mc' \<and> fresh (queue_at mc' w ch) \<and> aimed (queue_at mc' w ch) \<and>
    (\<forall>v c. c < m_CHANNELS k \<longrightarrow> \<not> (v = w \<and> c = ch) \<longrightarrow> queue_at mc' v c = queue_at mc v c) \<and>
    mc_write_mode mc' = mc_write_mode mc \<and> addresses (queue_at mc' w ch) = addresses (queue_at mc w ch) \<and>
    banked (queue_at mc' w ch) = insert (nat i) (banked (queue_at mc w ch)) \<and> nat i \<notin> banked (queue_at mc w ch)"
proof -
  let ?q = "queue_at mc w ch"
  have cfg: "config_ok k" and dims: "dims_ok k mc" using core by (simp_all add: mc_core_def)
  have banks: "banks_ok k mc" using dims by (simp add: dims_ok_def)
  note own = core_okD [OF core ch, of w]
  note len = queue_length [OF own(1)]
  note r = find_oldest_ready [OF cfg dims len f]
  let ?i = "nat i"
  let ?e = "q_entry ?q ! ?i"
  let ?key = "bank_key k (p_address ?e)"
  note key = bank_key_ok [OF cfg, of "p_address ?e"]
  have pend: "p_address ?e \<noteq> 0" "p_scheduled ?e = 0" and idle: "br_working (bank_at mc ?key) = 0"
    using r(3) by (auto simp: ready_def pending_def)
  have used: "?i \<in> used ?q" using r(2) pend by (simp add: used_def)
  have eok: "entry_ok k cpus ch ?e" using own(1) r(2) by (simp add: queue_ok_def)
  then have cpu: "unat (p_cpu ?e) < cpus" and kch: "fst ?key = ch" and ty: "unat (p_type ?e) < NUM_TYPES"
    using pend by (auto simp: entry_ok_def)
  have wq: "(q_is_WQ ?q \<noteq> 0) = w" using own(1) by (simp add: queue_ok_def)
  define now where "now = g_current_core_cycle g ! unat (p_cpu ?e)"
  have now: "core_cycle g (p_cpu ?e) = Some now" using clock_okD(1) [OF g] cpu by (simp add: now_def)
  define L where "L = (ucast (if h then m_tCAS k else m_tRP k + m_tRCD k + m_tCAS k) :: u64)"
  define b where "b = (bank_at mc ?key)\<lparr>br_working := 1, br_working_type := p_type ?e,
         br_cycle_available := now + L, br_request_index := i,
         br_row_buffer_hit := (if h then 1 else 0),
         br_is_write := (if w then 1 else 0), br_is_read := (if w then 0 else 1),
         br_open_row := dram_get_row k (p_address ?e)\<rparr>"
  let ?mc1 = "set_bank mc ?key b"
  have bty: "unat (br_working_type b) < NUM_TYPES" using ty by (simp add: b_def)
  note dims1 = dims_ok_set_bank [OF dims key bty]
  obtain mc2 where mc2: "inc_scheduled ?mc1 w ch 1 = Some mc2" "dims_ok k mc2"
    "\<forall>v. sched_count mc2 v = (if v = w then (sched_count ?mc1 w)[ch := sched_count ?mc1 w ! ch + 1] else sched_count ?mc1 v)"
    "bank_at mc2 = bank_at ?mc1" "queue_at mc2 = queue_at ?mc1"
    "mc_write_mode mc2 = mc_write_mode ?mc1"
    using inc_scheduled_eq [OF dims1 ch, of w 1] by blast
  define e' where "e' = ?e\<lparr>p_scheduled := 1, p_event_cycle := now + L\<rparr>"
  let ?q1 = "?q\<lparr>q_entry := (q_entry ?q)[?i := e']\<rparr>"
  have q1: "queue_ok k cpus w ch ?q1" and ad: "addresses ?q1 = addresses ?q"
    by (rule queue_ok_replace [OF own(1) used]; simp add: e'_def)+
  obtain q2 q3 where q3: "update_schedule_cycle ?q1 = Some q2" "update_process_cycle q2 = Some q3" "same_queue ?q1 q3" "fresh q3" "aimed q3"
    using refresh_eq [OF q1] by blast
  let ?mc = "put_queue mc2 w ch q3"
  have sch: "schedule k g w ch mc = Some ?mc"
    using get_queue_eq [OF dims ch] f r(2) now get_bank_eq [OF banks key] put_bank_eq [OF banks key, of b]
      mc2(1) q3(1,2)
    by (simp add: schedule_def Let_def wq kch b_def [symmetric] L_def [symmetric] e'_def [symmetric])
  have bk: "banked q3 = insert ?i (banked ?q)"
    using r(2) by (auto simp: same_queue_inv [OF q3(3)]) (auto simp: banked_def nth_list_update in_bank_def e'_def split: if_splits)
  have new: "?i \<notin> banked ?q" using pend by (simp add: banked_def in_bank_def)
  note at = put_queue_at [OF mc2(2) ch]
  have clen: "length (sched_count mc v) = m_CHANNELS k" for v using dims by (simp add: dims_ok_def)
  have free: "bank_key k (p_address (q_entry (queue_at mc v c) ! j)) \<noteq> ?key"
    if "c < m_CHANNELS k" "j \<in> banked (queue_at mc v c)" for v c j
    using linkD(2) [OF core_okD(2) [OF core that(1)] that(2)] idle by auto
  have core': "mc_core k cpus ?mc"
  proof (rule core_update [OF core ch, where w = w and q' = q3 and key = ?key])
    show "dims_ok k ?mc" using mc2(2) by simp
    show "queue_at ?mc v c = (if v = w \<and> c = ch then q3 else queue_at mc v c)" for v c
      using at mc2(5) by simp
    show "sched_count ?mc v ! c = sched_count mc v ! c" if "\<not> (v = w \<and> c = ch)" for v c
      using mc2(3) that by auto
    show "bank_at ?mc key' = bank_at mc key'" if "key' \<noteq> ?key" for key'
      using mc2(4) bank_at_set [OF banks key, of b key'] that by simp
    show "queue_ok k cpus w ch q3" using q1 same_queue_inv(1) [OF q3(3)] by simp
    show "link k ?mc w q3"
      unfolding link_def
    proof
      fix j assume j: "j \<in> banked q3"
      have ent: "q_entry q3 = (q_entry ?q)[?i := e']" using q3(3) by (simp add: same_queue_def)
      show "let b = bank_at ?mc (bank_key k (p_address (q_entry q3 ! j)))
         in br_request_index b = int j \<and> br_working b \<noteq> 0 \<and> (br_is_write b \<noteq> 0) = w \<and> (br_is_read b \<noteq> 0) = (\<not> w)"
      proof (cases "j = ?i")
        case True
        then have "q_entry q3 ! j = e'" using ent r(2) by simp
        moreover have "bank_at ?mc ?key = b" using mc2(4) bank_at_set [OF banks key, of b] by simp
        ultimately show ?thesis using True r(1) by (simp add: e'_def b_def Let_def)
      next
        case False
        then have jb: "j \<in> banked ?q" using j bk by simp
        have "bank_at ?mc (bank_key k (p_address (q_entry ?q ! j))) = bank_at mc (bank_key k (p_address (q_entry ?q ! j)))"
          using free [OF ch jb] mc2(4) bank_at_set [OF banks key, of b] by simp
        then show ?thesis using False linkD [OF own(2) jb] ent by (simp add: Let_def)
      qed
    qed
    have "card (insert ?i (banked ?q)) \<le> length (q_entry q3)" using card_banked [of q3] bk by simp
    moreover have "length (q_entry q3) = unat (q_size q3)"
      using queue_length [OF q1] q3(3) by (simp add: same_queue_def)
    moreover have "unat (q_size q3) < 2 ^ 32" using unsigned_less [of "q_size q3"] by simp
    ultimately have "unat (sched_count mc w ! ch + 1) = card (insert ?i (banked ?q))"
      using card_insert_word [OF own(3) _ new] by simp
    then show "unat (sched_count ?mc w ! ch) = card (banked q3)" using mc2(3) clen ch bk by simp
  qed (use free in auto)
  have wm: "mc_write_mode ?mc = mc_write_mode mc"
    using mc2(6) by (auto simp: put_queue_def set_bank_def split: prod.splits)
  show ?thesis
    using sch core' q3(4,5) at mc2(5) bk new wm ad same_queue_inv(4) [OF q3(3)] by auto
qed

subsection \<open>Processing keeps the invariant\<close>

lemma event_ok_cong:
  assumes "q_size q' = q_size q"
    "\<And>j. j < unat (q_size q) \<Longrightarrow> P (q_entry q' ! j) = P (q_entry q ! j) \<and>
      (P (q_entry q' ! j) \<longrightarrow> p_event_cycle (q_entry q' ! j) = p_event_cycle (q_entry q ! j))"
  shows "event_ok P q' c x = event_ok P q c x"
proof -
  have "earliest of_nat P (q_entry q') (unat (q_size q)) (- 1, q_size q) (c, x) =
      earliest of_nat P (q_entry q) (unat (q_size q)) (- 1, q_size q) (c, x)"
    using assms(2) by (rule earliest_cong)
  then show ?thesis using assms by (simp add: event_ok_def)
qed

text \<open>Where the next event points: to an entry of the kind, or, never computed, to the first entry at cycle \<open>UINT64_MAX\<close>.\<close>

lemma event_ok_index:
  assumes "event_ok P q c x" "x < q_size q"
  shows "unat x < unat (q_size q) \<and> (P (q_entry q ! unat x) \<or> c = - 1)"
  using assms earliest_index [of P "q_entry q" "q_size q" c x] by (auto simp: event_ok_def word_less_nat_alt)

lemma next_banked:
  assumes "fresh q" "length (q_entry q) = unat (q_size q)" "q_next_process_index q < q_size q" "q_next_process_cycle q \<noteq> - 1"
  shows "unat (q_next_process_index q) \<in> banked q"
  using event_ok_index [of in_bank q "q_next_process_cycle q" "q_next_process_index q"] assms
  by (simp add: fresh_def banked_def)

lemma bump2_Some:
  assumes "length t = NUM_TYPES + 1" "list_all (\<lambda>row. length row = NUM_TYPES + 1) t" "i \<le> NUM_TYPES" "j \<le> NUM_TYPES"
  shows "\<exists>t'. bump2 t i j = Some t' \<and> length t' = NUM_TYPES + 1 \<and> list_all (\<lambda>row. length row = NUM_TYPES + 1) t'"
proof -
  have "length (t ! i) = NUM_TYPES + 1" using assms by (simp add: list_all_length)
  then show ?thesis
    using assms by (auto simp: bump2_def bump_def list_all_length nth_list_update)
qed

lemma dims_ok_congested:
  assumes "dims_ok k mc" "length x = m_CHANNELS k" "length y = m_CHANNELS k"
    "list_all (\<lambda>t. length t = NUM_TYPES + 1 \<and> list_all (\<lambda>row. length row = NUM_TYPES + 1) t) y"
  shows "dims_ok k (mc\<lparr>mc_dbus_cycle_congested := x, mc_dbus_congested := y\<rparr>)"
proof -
  let ?mc = "mc\<lparr>mc_dbus_cycle_congested := x, mc_dbus_congested := y\<rparr>"
  have "bank_at ?mc = bank_at mc" "sched_count ?mc = sched_count mc"
    by (auto simp: bank_at_def sched_count_def fun_eq_iff)
  then show ?thesis using assms unfolding dims_ok_def banks_ok_def by simp
qed

lemma bus_congested_total:
  assumes dims: "dims_ok k mc" and key: "key_ok k key" and b: "b = bank_at mc key" and ty: "unat ty < NUM_TYPES"
  shows "\<exists>mc' b'. bus_congested mc key b ty now = Some mc' \<and> dims_ok k mc' \<and>
    br_request_index b' = br_request_index b \<and> br_working b' = br_working b \<and>
    br_is_write b' = br_is_write b \<and> br_is_read b' = br_is_read b \<and>
    bank_at mc' = (bank_at mc)(key := b') \<and> queue_at mc' = queue_at mc \<and> sched_count mc' = sched_count mc \<and>
    mc_write_mode mc' = mc_write_mode mc"
proof -
  let ?ch = "fst key"
  have ch: "?ch < m_CHANNELS k" using key by (auto simp: key_ok_def split: prod.splits)
  have banks: "banks_ok k mc" using dims by (simp add: dims_ok_def)
  have len: "length (mc_dbus_cycle_available mc) = m_CHANNELS k" "length (mc_dbus_cycle_congested mc) = m_CHANNELS k"
    "length (mc_dbus_congested mc) = m_CHANNELS k" using dims by (simp_all add: dims_ok_def)
  let ?t0 = "mc_dbus_congested mc ! ?ch"
  have t0: "length ?t0 = NUM_TYPES + 1" "list_all (\<lambda>row. length row = NUM_TYPES + 1) ?t0"
    using dims ch len by (auto simp: dims_ok_def list_all_length)
  have wt: "unat (br_working_type b) < NUM_TYPES" using banks key unfolding b banks_ok_def by blast
  obtain t1 where t1: "bump2 ?t0 NUM_TYPES NUM_TYPES = Some t1" "length t1 = NUM_TYPES + 1" "list_all (\<lambda>row. length row = NUM_TYPES + 1) t1"
    using bump2_Some [OF t0 order_refl order_refl] by blast
  obtain t2 where t2: "bump2 t1 NUM_TYPES (unat ty) = Some t2" "length t2 = NUM_TYPES + 1" "list_all (\<lambda>row. length row = NUM_TYPES + 1) t2"
    using bump2_Some [OF t1(2,3) order_refl less_imp_le [OF ty]] by blast
  obtain t3 where t3: "bump2 t2 (unat (br_working_type b)) NUM_TYPES = Some t3" "length t3 = NUM_TYPES + 1" "list_all (\<lambda>row. length row = NUM_TYPES + 1) t3"
    using bump2_Some [OF t2(2,3) less_imp_le [OF wt] order_refl] by blast
  obtain t4 where t4: "bump2 t3 (unat (br_working_type b)) (unat ty) = Some t4" "length t4 = NUM_TYPES + 1" "list_all (\<lambda>row. length row = NUM_TYPES + 1) t4"
    using bump2_Some [OF t3(2,3) less_imp_le [OF wt] less_imp_le [OF ty]] by blast
  define b' where "b' = b\<lparr>br_cycle_available := mc_dbus_cycle_available mc ! ?ch\<rparr>"
  define cong where "cong = (mc_dbus_cycle_congested mc)[?ch := mc_dbus_cycle_congested mc ! ?ch + (mc_dbus_cycle_available mc ! ?ch - now)]"
  let ?mc1 = "set_bank mc key b'"
  let ?mc = "?mc1\<lparr>mc_dbus_cycle_congested := cong, mc_dbus_congested := (mc_dbus_congested mc)[?ch := t4]\<rparr>"
  have eq: "bus_congested mc key b ty now = Some ?mc"
    using ch len put_bank_eq [OF banks key, of b'] t1(1) t2(1) t3(1) t4(1)
    by (simp add: bus_congested_def Let_def b'_def [symmetric] cong_def [symmetric])
  have wt': "unat (br_working_type b') < NUM_TYPES" using wt by (simp add: b'_def)
  have "list_all (\<lambda>t. length t = NUM_TYPES + 1 \<and> list_all (\<lambda>row. length row = NUM_TYPES + 1) t) ((mc_dbus_congested mc)[?ch := t4])"
    using dims t4(2,3) by (auto simp: dims_ok_def list_all_iff dest!: set_update_subset_insert [THEN subsetD])
  then have "dims_ok k ?mc"
    using dims_ok_congested [OF dims_ok_set_bank [OF dims key wt']] len by (simp add: cong_def)
  moreover have "bank_at ?mc = (bank_at mc)(key := b')"
  proof
    fix key'
    have "bank_at ?mc key' = bank_at ?mc1 key'" by (simp add: bank_at_def)
    then show "bank_at ?mc key' = ((bank_at mc)(key := b')) key'" using bank_at_set [OF banks key, of b' key'] by simp
  qed
  moreover have "queue_at ?mc = queue_at mc" "sched_count ?mc = sched_count mc" "mc_write_mode ?mc = mc_write_mode mc"
    by (auto simp: queue_at_def sched_count_def set_bank_def fun_eq_iff split: prod.splits)
  ultimately show ?thesis using eq by (intro exI [of _ ?mc] exI [of _ b']) (simp add: b'_def)
qed

lemma same_queue_stats [simp]:
  "same_queue q (q\<lparr>q_ROW_BUFFER_HIT := x\<rparr>)" "same_queue q (q\<lparr>q_ROW_BUFFER_MISS := x\<rparr>)"
  by (simp_all add: same_queue_def)

lemma queue_remove:
  assumes ok: "queue_ok k cpus w ch q" and i: "i \<in> used q"
  shows "\<exists>q'. remove_queue q i = Some q' \<and> queue_ok k cpus w ch q' \<and> q_entry q' = (q_entry q)[i := packet_new] \<and>
    q_size q' = q_size q \<and> addresses q' = addresses q - {p_address (q_entry q ! i)}"
proof -
  have tab: "table_inv q" using ok by (simp add: queue_ok_def)
  obtain q' where q': "remove_queue q i = Some q'" "table_inv q'" "q_entry q' = (q_entry q)[i := packet_new]" "q_size q' = q_size q"
      "addresses q' = addresses q - {p_address (q_entry q ! i)}"
    using table_remove [OF tab i] by blast
  have "q_is_WQ q' = q_is_WQ q" using q'(1) by (auto simp: remove_queue_def arr_simps)
  moreover have "entry_ok k cpus ch ((q_entry q)[i := packet_new] ! j)" if "j < length (q_entry q)" for j
    using ok that used_bound [OF i] by (cases "i = j") (simp_all add: queue_ok_def entry_ok_def packet_new_def NUM_CPUS_def)
  ultimately have "queue_ok k cpus w ch q'" using ok q' by (simp add: queue_ok_def)
  with q' show ?thesis by blast
qed

lemma other_owner:
  assumes core: "mc_core k cpus mc" and ch: "ch < m_CHANNELS k" and i: "i \<in> banked (queue_at mc w ch)"
    and c: "c < m_CHANNELS k" "j \<in> banked (queue_at mc v c)" "\<not> (v = w \<and> c = ch \<and> j = i)"
  shows "bank_key k (p_address (q_entry (queue_at mc v c) ! j)) \<noteq> bank_key k (p_address (q_entry (queue_at mc w ch) ! i))"
  using bank_owner [OF core c(1) ch c(2) i] c(3) by blast

lemma dims_ok_dbus:
  assumes "dims_ok k mc" "length x = m_CHANNELS k"
  shows "dims_ok k (mc\<lparr>mc_dbus_cycle_available := x\<rparr>)"
proof -
  let ?mc = "mc\<lparr>mc_dbus_cycle_available := x\<rparr>"
  have "bank_at ?mc = bank_at mc" "sched_count ?mc = sched_count mc"
    by (auto simp: bank_at_def sched_count_def fun_eq_iff)
  then show ?thesis using assms unfolding dims_ok_def banks_ok_def by simp
qed

lemma dbus_frame [simp]:
  "bank_at (mc\<lparr>mc_dbus_cycle_available := x\<rparr>) = bank_at mc" "sched_count (mc\<lparr>mc_dbus_cycle_available := x\<rparr>) = sched_count mc"
  "queue_at (mc\<lparr>mc_dbus_cycle_available := x\<rparr>) = queue_at mc"
  by (auto simp: bank_at_def sched_count_def queue_at_def fun_eq_iff)

text \<open>A request leaves its bank: the bank becomes idle, the count drops, the entry changes.\<close>

lemma release_step:
  assumes core: "mc_core k cpus mc" and ch: "ch < m_CHANNELS k" and i: "i \<in> banked (queue_at mc w ch)"
    and dims: "dims_ok k mc'"
    and q: "queue_ok k cpus w ch q'" "q_entry q' = (q_entry (queue_at mc w ch))[i := e']" "\<not> in_bank e'"
    and queues: "\<And>v c. c < m_CHANNELS k \<Longrightarrow> queue_at mc' v c = (if v = w \<and> c = ch then q' else queue_at mc v c)"
    and counts: "\<And>v. sched_count mc' v = (if v = w then (sched_count mc w)[ch := sched_count mc w ! ch + (- 1)] else sched_count mc v)"
    and banks: "\<And>key. key \<noteq> bank_key k (p_address (q_entry (queue_at mc w ch) ! i)) \<Longrightarrow> bank_at mc' key = bank_at mc key"
  shows "mc_core k cpus mc'" "banked q' = banked (queue_at mc w ch) - {i}"
proof -
  let ?q = "queue_at mc w ch"
  note own = core_okD [OF core ch, of w]
  have il: "i < length (q_entry ?q)" using i by (simp add: banked_def)
  show bk: "banked q' = banked ?q - {i}"
    using q(2,3) il by (auto simp: banked_def nth_list_update split: if_splits)
  have clen: "length (sched_count mc w) = m_CHANNELS k" using core by (simp add: mc_core_def dims_ok_def)
  show "mc_core k cpus mc'"
  proof (rule core_update [OF core ch dims queues, where key = "bank_key k (p_address (q_entry ?q ! i))"])
    show "sched_count mc' v ! c = sched_count mc v ! c" if "\<not> (v = w \<and> c = ch)" for v c
      using counts [of v] that by auto
    show "link k mc' w q'"
      unfolding link_def
    proof
      fix j assume j: "j \<in> banked q'"
      then have jb: "j \<in> banked ?q" "j \<noteq> i" using bk by auto
      have ent: "q_entry q' ! j = q_entry ?q ! j" using q(2) jb by simp
      have "bank_at mc' (bank_key k (p_address (q_entry ?q ! j))) = bank_at mc (bank_key k (p_address (q_entry ?q ! j)))"
        using other_owner [OF core ch i ch jb(1)] jb(2) banks by blast
      then show "let b = bank_at mc' (bank_key k (p_address (q_entry q' ! j)))
         in br_request_index b = int j \<and> br_working b \<noteq> 0 \<and> (br_is_write b \<noteq> 0) = w \<and> (br_is_read b \<noteq> 0) = (\<not> w)"
        using linkD [OF own(2) jb(1)] ent by (simp add: Let_def)
    qed
    have "unat (sched_count mc w ! ch + (- 1)) = card (banked ?q - {i})"
      by (rule card_remove_word [OF own(3) _ i]) simp
    moreover have "sched_count mc' w ! ch = sched_count mc w ! ch + (- 1)" using counts [of w] clen ch by simp
    ultimately show "unat (sched_count mc' w ! ch) = card (banked q')" using bk by simp
    show "bank_key k (p_address (q_entry (queue_at mc v c) ! j)) \<noteq> bank_key k (p_address (q_entry ?q ! i))"
      if "c < m_CHANNELS k" "\<not> (v = w \<and> c = ch)" "j \<in> banked (queue_at mc v c)" for v c j
      using other_owner [OF core ch i that(1,3)] that(2) by blast
  qed (use q(1) banks in auto)
qed

lemma process_step:
  assumes core: "mc_core k cpus mc" and ch: "ch < m_CHANNELS k" and g: "clock_ok cpus g"
    and fr: "fresh (queue_at mc w ch)" and am: "aimed (queue_at mc w ch)" and nx: "q_next_process_index (queue_at mc w ch) < q_size (queue_at mc w ch)"
      "q_next_process_cycle (queue_at mc w ch) \<noteq> - 1"
  shows "\<exists>mc' rs. process k g w ch mc = Some (mc', rs) \<and> mc_core k cpus mc' \<and> fresh (queue_at mc' w ch) \<and> aimed (queue_at mc' w ch) \<and>
    (\<forall>v c. c < m_CHANNELS k \<longrightarrow> \<not> (v = w \<and> c = ch) \<longrightarrow> queue_at mc' v c = queue_at mc v c) \<and>
    mc_write_mode mc' = mc_write_mode mc \<and>
    (\<exists>served. addresses (queue_at mc' w ch) = addresses (queue_at mc w ch) - served \<and> served \<subseteq> addresses (queue_at mc w ch) \<and>
      (\<not> w \<longrightarrow> served = p_address ` set rs)) \<and>
    (rs = [] \<or> \<not> w \<and> (\<exists>i x. i \<in> banked (queue_at mc w ch) \<and> rs = [(q_entry (queue_at mc w ch) ! i)\<lparr>p_event_cycle := x\<rparr>] \<and>
      banked (queue_at mc' w ch) = banked (queue_at mc w ch) - {i}))"
proof -
  let ?q = "queue_at mc w ch"
  have cfg: "config_ok k" and dims: "dims_ok k mc" using core by (simp_all add: mc_core_def)
  have banks: "banks_ok k mc" using dims by (simp add: dims_ok_def)
  note own = core_okD [OF core ch, of w]
  note len = queue_length [OF own(1)]
  define i where "i = unat (q_next_process_index ?q)"
  have i: "i \<in> banked ?q" unfolding i_def by (rule next_banked [OF fr len nx])
  note e = bankedD [OF own(1) i]
  let ?e = "q_entry ?q ! i"
  let ?key = "bank_key k (p_address ?e)"
  note key = bank_key_ok [OF cfg, of "p_address ?e"]
  let ?b = "bank_at mc ?key"
  note l = linkD [OF own(2) i]
  have wq: "(q_is_WQ ?q \<noteq> 0) = w" using own(1) by (simp add: queue_ok_def)
  define now where "now = g_current_core_cycle g ! unat (p_cpu ?e)"
  have now: "core_cycle g (p_cpu ?e) = Some now" using clock_okD(1) [OF g] e(5) by (simp add: now_def)
  have ne: "q_next_process_index ?q \<noteq> q_size ?q" using nx(1) by auto
  have iu: "int i = uint (q_next_process_index ?q)" by (simp add: i_def)
  note start = get_queue_eq [OF dims ch, of w] ne e(1) get_bank_eq [OF banks key] l(1) now
  have dlen: "length (mc_dbus_cycle_available mc) = m_CHANNELS k" using dims by (simp add: dims_ok_def)
  show ?thesis
  proof (cases "br_cycle_available ?b \<le> now")
    case False
    then have "process k g w ch mc = Some (mc, [])"
      using start by (simp add: process_def Let_def i_def)
    then show ?thesis using core fr am
      by (intro exI [of _ mc] exI [of _ "[]"]) auto
  next
    case bank: True
    show ?thesis
    proof (cases "mc_dbus_cycle_available mc ! ch \<le> now")
      case False
      obtain mc' b' where m: "bus_congested mc ?key ?b (p_type ?e) now = Some mc'" "dims_ok k mc'"
        "br_request_index b' = br_request_index ?b" "br_working b' = br_working ?b" "br_is_write b' = br_is_write ?b"
        "br_is_read b' = br_is_read ?b" "bank_at mc' = (bank_at mc)(?key := b')" "queue_at mc' = queue_at mc"
        "sched_count mc' = sched_count mc" "mc_write_mode mc' = mc_write_mode mc"
        using bus_congested_total [OF dims key refl e(6), of now] by blast
      have eq: "process k g w ch mc = Some (mc', [])"
        using start bank False m(1) e(4) dlen ch by (simp add: process_def Let_def i_def)
      have sim: "br_request_index (bank_at mc' key') = br_request_index (bank_at mc key')"
        "br_working (bank_at mc' key') = br_working (bank_at mc key')"
        "br_is_write (bank_at mc' key') = br_is_write (bank_at mc key')"
        "br_is_read (bank_at mc' key') = br_is_read (bank_at mc key')" for key'
        using m(3-7) by (cases "key' = ?key"; simp)+
      have "core_ok k cpus mc' v c" if c: "c < m_CHANNELS k" for v c
      proof -
        note o = core_okD [OF core c, of v]
        have "link k mc' v (queue_at mc v c)"
          unfolding link_def
        proof
          fix j assume j: "j \<in> banked (queue_at mc v c)"
          show "let b = bank_at mc' (bank_key k (p_address (q_entry (queue_at mc v c) ! j)))
             in br_request_index b = int j \<and> br_working b \<noteq> 0 \<and> (br_is_write b \<noteq> 0) = v \<and> (br_is_read b \<noteq> 0) = (\<not> v)"
            using linkD [OF o(2) j] by (simp add: Let_def sim)
        qed
        then show ?thesis using o m(8,9) by (simp add: core_ok_def)
      qed
      then have "mc_core k cpus mc'" using cfg m(2) by (simp add: mc_core_def)
      then show ?thesis using eq fr am m(8,10) by (intro exI [of _ mc'] exI [of _ "[]"]) auto
    next
      case bus: True
      define t where "t = now + ucast (m_DBUS_RETURN_TIME k)"
      define e' where "e' = (if w then ?e else ?e\<lparr>p_event_cycle := t\<rparr>)"
      define q1 where "q1 = count_row_buffer ?b ?q"
      have sq: "same_queue ?q q1" by (simp add: q1_def count_row_buffer_def)
      have q1: "queue_ok k cpus w ch q1" "used q1 = used ?q" "q_entry q1 = q_entry ?q" "q_size q1 = q_size ?q"
        using own(1) same_queue_inv(1) [OF sq] sq by (simp_all add: same_queue_def used_def)
      obtain q2 where q2: "remove_queue q1 i = Some q2" "queue_ok k cpus w ch q2" "q_entry q2 = (q_entry ?q)[i := packet_new]"
          "q_size q2 = q_size ?q" "addresses q2 = addresses q1 - {p_address ?e}"
        using queue_remove [OF q1(1), of i] e(7) q1 by auto
      obtain x y where u: "update_process_cycle q2 = Some (q2\<lparr>q_next_process_cycle := x, q_next_process_index := y\<rparr>)"
          "earliest of_nat in_bank (q_entry q2) (unat (q_size q2)) (- 1, q_size q2) (x, y)"
        using update_process_cycle_eq [OF queue_length [OF q2(2)]] by blast
      let ?q3 = "q2\<lparr>q_next_process_cycle := x, q_next_process_index := y\<rparr>"
      have nxt: "q_next_schedule_cycle q2 = q_next_schedule_cycle ?q" "q_next_schedule_index q2 = q_next_schedule_index ?q"
        using q2(1) by (auto simp: remove_queue_def arr_simps q1_def count_row_buffer_def)
      have "event_ok pending ?q3 c z = event_ok pending ?q c z" for c z
        using q2(3,4) e(1,3) len by (intro event_ok_cong) (auto simp: nth_list_update pending_def in_bank_def packet_new_def)
      then have fr3: "fresh ?q3" using fr u(2) nxt by (simp add: fresh_def) (simp add: event_ok_def)
      let ?mc0 = "mc\<lparr>mc_dbus_cycle_available := (mc_dbus_cycle_available mc)[ch := t]\<rparr>"
      have dims0: "dims_ok k ?mc0" using dims_ok_dbus [OF dims] dlen by simp
      then have banks0: "banks_ok k ?mc0" by (simp add: dims_ok_def)
      have wt: "unat (br_working_type (bank_idle ?b)) < NUM_TYPES"
      proof -
        have "unat (br_working_type ?b) < NUM_TYPES" using banks key unfolding banks_ok_def by blast
        then show ?thesis by (simp add: bank_idle_def)
      qed
      let ?mc1 = "set_bank ?mc0 ?key (bank_idle ?b)"
      note dims1 = dims_ok_set_bank [OF dims0 key wt]
      obtain mc2 where mc2: "inc_scheduled ?mc1 w ch (- 1) = Some mc2" "dims_ok k mc2"
        "\<forall>v. sched_count mc2 v = (if v = w then (sched_count ?mc1 w)[ch := sched_count ?mc1 w ! ch + (- 1)] else sched_count ?mc1 v)"
        "bank_at mc2 = bank_at ?mc1" "queue_at mc2 = queue_at ?mc1" "mc_write_mode mc2 = mc_write_mode ?mc1"
        using inc_scheduled_eq [OF dims1 ch, of w "- 1"] by blast
      let ?mc = "put_queue mc2 w ch ?q3"
      have eq: "process k g w ch mc = Some (?mc, if w then [] else [e'])"
        using iu start bank bus e(4) dlen ch put_bank_eq [OF banks0 key, of "bank_idle ?b"] mc2(1) q2(1) u(1)
        by (simp add: process_def Let_def i_def [symmetric] wq t_def [symmetric] q1_def [symmetric] e'_def)
      note at = put_queue_at [OF mc2(2) ch]
      have sq3: "same_queue q2 ?q3" by (simp add: same_queue_def)
      have d: "dims_ok k ?mc" using mc2(2) by simp
      have qo: "queue_ok k cpus w ch ?q3" using q2(2) same_queue_inv(1) [OF sq3] by simp
      have qe: "q_entry ?q3 = (q_entry ?q)[i := packet_new]" using q2(3) by simp
      have nb: "\<not> in_bank packet_new" by (simp add: in_bank_def packet_new_def)
      have qa: "queue_at ?mc v c = (if v = w \<and> c = ch then ?q3 else queue_at mc v c)" for v c
        using at [of w ?q3 v c] mc2(5) by simp
      have sc: "sched_count ?mc v = (if v = w then (sched_count mc w)[ch := sched_count mc w ! ch + (- 1)] else sched_count mc v)" for v
        using mc2(3) by simp
      have ba: "bank_at ?mc key' = bank_at mc key'" if "key' \<noteq> ?key" for key'
        using mc2(4) bank_at_set [OF banks0 key, of "bank_idle ?b" key'] that by simp
      note rel = release_step [OF core ch i d qo qe nb qa sc ba]
      have wm: "mc_write_mode ?mc = mc_write_mode mc"
        using mc2(6) by (auto simp: put_queue_def set_bank_def split: prod.splits)
      have q3at: "queue_at ?mc w ch = ?q3" using at by simp
      have oth: "queue_at ?mc v c = queue_at mc v c" if "\<not> (v = w \<and> c = ch)" for v c
        using at [of w ?q3 v c] that mc2(5) by auto
      have ad: "addresses (queue_at ?mc w ch) = addresses ?q - {p_address ?e}"
        using q3at q2(5) same_queue_inv(4) [OF sq] same_queue_inv(4) [OF sq3] by simp
      have me: "{p_address ?e} \<subseteq> addresses ?q" using e(7) by (auto simp: addresses_def)
      have out: "\<not> w \<longrightarrow> {p_address ?e} = p_address ` set (if w then [] else [e'])" by (simp add: e'_def)
      have served: "\<exists>served. addresses (queue_at ?mc w ch) = addresses ?q - served \<and> served \<subseteq> addresses ?q \<and>
          (\<not> w \<longrightarrow> served = p_address ` set (if w then [] else [e']))"
        using ad me out by blast
      have one: "(if w then [] else [e']) = [] \<or> \<not> w \<and> (\<exists>i x. i \<in> banked ?q \<and>
          (if w then [] else [e']) = [(q_entry ?q ! i)\<lparr>p_event_cycle := x\<rparr>] \<and> banked (queue_at ?mc w ch) = banked ?q - {i})"
        using rel(2) q3at i by (auto simp: e'_def)
      have fr': "fresh (queue_at ?mc w ch)" using fr3 q3at by simp
      have am': "aimed (queue_at ?mc w ch)"
        unfolding q3at
      proof (rule aimedI [OF qo])
        show "earliest of_nat in_bank (q_entry ?q3) (unat (q_size ?q3)) (- 1, q_size ?q3) (x, q_next_process_index ?q3)"
          using u(2) by simp
        assume "q_next_schedule_index ?q3 < q_size ?q3"
        then have "pending (q_entry ?q ! unat (q_next_schedule_index ?q))" using am nxt q2(4) by (simp add: aimed_def)
        then show "pending (q_entry ?q3 ! unat (q_next_schedule_index ?q3))"
          using e(3) nxt q2(3) by (cases "unat (q_next_schedule_index ?q) = i") (auto simp: pending_def in_bank_def)
      qed
      from eq rel(1) fr' am' oth wm served one show ?thesis
        by (intro exI [of _ ?mc] exI [of _ "if w then [] else [e']"]) (intro conjI allI impI; assumption?; blast)
    qed
  qed
qed

subsection \<open>Turning the channel around\<close>

lemma put_queue_mode [simp]: "mc_write_mode (put_queue mc w ch q) = mc_write_mode mc"
  by (simp add: put_queue_def)

lemma set_bank_mode [simp]: "mc_write_mode (set_bank mc key b) = mc_write_mode mc"
  by (simp add: set_bank_def split: prod.splits)

lemma reset_step:
  assumes core: "mc_core k cpus mc" and ch: "ch < m_CHANNELS k" and g: "clock_ok cpus g"
    and il: "i < unat (q_size (queue_at mc w ch))"
  shows "\<exists>mc'. reset_request k g w ch i mc = Some mc' \<and> mc_core k cpus mc' \<and>
    banked (queue_at mc' w ch) = banked (queue_at mc w ch) - {i} \<and> q_size (queue_at mc' w ch) = q_size (queue_at mc w ch) \<and>
    addresses (queue_at mc' w ch) = addresses (queue_at mc w ch) \<and>
    (\<forall>v c. c < m_CHANNELS k \<longrightarrow> \<not> (v = w \<and> c = ch) \<longrightarrow> queue_at mc' v c = queue_at mc v c) \<and>
    mc_write_mode mc' = mc_write_mode mc"
proof -
  let ?q = "queue_at mc w ch"
  have cfg: "config_ok k" and dims: "dims_ok k mc" using core by (simp_all add: mc_core_def)
  have banks: "banks_ok k mc" using dims by (simp add: dims_ok_def)
  note own = core_okD [OF core ch, of w]
  note len = queue_length [OF own(1)]
  let ?e = "q_entry ?q ! i"
  show ?thesis
  proof (cases "in_bank ?e")
    case False
    then have "reset_request k g w ch i mc = Some mc"
      using get_queue_eq [OF dims ch, of w] il len by (simp add: reset_request_def in_bank_def)
    moreover have "banked ?q - {i} = banked ?q" using False by (auto simp: banked_def)
    ultimately show ?thesis using core by auto
  next
    case True
    then have i: "i \<in> banked ?q" using il len by (simp add: banked_def)
    note e = bankedD [OF own(1) i]
    let ?key = "bank_key k (p_address ?e)"
    note key = bank_key_ok [OF cfg, of "p_address ?e"]
    let ?b = "bank_at mc ?key"
    note l = linkD [OF own(2) i]
    define now where "now = g_current_core_cycle g ! unat (p_cpu ?e)"
    have now: "core_cycle g (p_cpu ?e) = Some now" using clock_okD(1) [OF g] e(5) by (simp add: now_def)
    define b1 where "b1 = ?b\<lparr>br_open_row := (if br_cycle_available ?b - ucast (m_tCAS k) \<le> now
           then dram_get_row k (p_address ?e) else - 1),
         br_request_index := - 1, br_row_buffer_hit := 0, br_working := 0, br_cycle_available := now\<rparr>"
    define b2 where "b2 = (if br_is_write b1 \<noteq> 0 then b1\<lparr>br_is_write := 0\<rparr>
         else if br_is_read b1 \<noteq> 0 then b1\<lparr>br_is_read := 0\<rparr> else b1)"
    have flags: "(br_is_write b1 \<noteq> 0) = w" "(br_is_read b1 \<noteq> 0) = (\<not> w)" using l(3,4) by (simp_all add: b1_def)
    have wt: "unat (br_working_type b2) < NUM_TYPES"
    proof -
      have "unat (br_working_type ?b) < NUM_TYPES" using banks key unfolding banks_ok_def by blast
      then show ?thesis by (simp add: b2_def b1_def)
    qed
    define e' where "e' = ?e\<lparr>p_scheduled := 0, p_event_cycle := now\<rparr>"
    let ?q' = "?q\<lparr>q_entry := (q_entry ?q)[i := e']\<rparr>"
    have qo: "queue_ok k cpus w ch ?q'" and ad: "addresses ?q' = addresses ?q"
      by (rule queue_ok_replace [OF own(1) e(7)]; simp add: e'_def)+
    let ?mc1 = "set_bank mc ?key b2"
    note dims1 = dims_ok_set_bank [OF dims key wt]
    obtain mc2 where mc2: "inc_scheduled ?mc1 w ch (- 1) = Some mc2" "dims_ok k mc2"
      "\<forall>v. sched_count mc2 v = (if v = w then (sched_count ?mc1 w)[ch := sched_count ?mc1 w ! ch + (- 1)] else sched_count ?mc1 v)"
      "bank_at mc2 = bank_at ?mc1" "queue_at mc2 = queue_at ?mc1" "mc_write_mode mc2 = mc_write_mode ?mc1"
      using inc_scheduled_eq [OF dims1 ch, of w "- 1"] by blast
    let ?mc = "put_queue mc2 w ch ?q'"
    have sel: "(if br_is_write b1 \<noteq> 0 then inc_scheduled ?mc1 True ch (- 1)
         else if br_is_read b1 \<noteq> 0 then inc_scheduled ?mc1 False ch (- 1) else Some ?mc1) = Some mc2"
      using flags mc2(1) by (cases w) simp_all
    have ns: "p_scheduled ?e \<noteq> 0" using True by (simp add: in_bank_def)
    have eq: "reset_request k g w ch i mc = Some ?mc"
      unfolding reset_request_def get_queue_eq [OF dims ch] Option.bind.simps arr_get_in [OF e(1)] if_not_P [OF ns] now Let_def
        get_bank_eq [OF banks key] b1_def [symmetric] b2_def [symmetric] put_bank_eq [OF banks key, of b2] sel e'_def [symmetric]
      by (rule refl)
    note at = put_queue_at [OF mc2(2) ch]
    have d: "dims_ok k ?mc" using mc2(2) by simp
    have qe: "q_entry ?q' = (q_entry ?q)[i := e']" by simp
    have nb: "\<not> in_bank e'" by (simp add: in_bank_def e'_def)
    have qa: "queue_at ?mc v c = (if v = w \<and> c = ch then ?q' else queue_at mc v c)" for v c
      using at [of w ?q' v c] mc2(5) by simp
    have sc: "sched_count ?mc v = (if v = w then (sched_count mc w)[ch := sched_count mc w ! ch + (- 1)] else sched_count mc v)" for v
      using mc2(3) by simp
    have ba: "bank_at ?mc key' = bank_at mc key'" if "key' \<noteq> ?key" for key'
      using mc2(4) bank_at_set [OF banks key, of b2 key'] that by simp
    note rel = release_step [OF core ch i d qo qe nb qa sc ba]
    have wm: "mc_write_mode ?mc = mc_write_mode mc" using mc2(6) by simp
    show ?thesis
    proof (intro exI conjI)
      show "reset_request k g w ch i mc = Some ?mc" by (rule eq)
      show "mc_core k cpus ?mc" by (rule rel(1))
      show "banked (queue_at ?mc w ch) = banked ?q - {i}" using rel(2) qa [of w ch] by simp
      show "q_size (queue_at ?mc w ch) = q_size ?q" using qa [of w ch] by simp
      show "addresses (queue_at ?mc w ch) = addresses ?q" using qa [of w ch] ad by simp
      show "\<forall>v c. c < m_CHANNELS k \<longrightarrow> \<not> (v = w \<and> c = ch) \<longrightarrow> queue_at ?mc v c = queue_at mc v c" using qa by auto
      show "mc_write_mode ?mc = mc_write_mode mc" by (rule wm)
    qed
  qed
qed

lemma reset_loop_total:
  assumes "mc_core k cpus mc" "ch < m_CHANNELS k" "clock_ok cpus g"
    "i + n \<le> unat (q_size (queue_at mc w ch))"
  shows "\<exists>mc'. reset_loop k g w ch i n mc = Some mc' \<and> mc_core k cpus mc' \<and>
    banked (queue_at mc' w ch) = banked (queue_at mc w ch) - {i..<i + n} \<and>
    addresses (queue_at mc' w ch) = addresses (queue_at mc w ch) \<and>
    (\<forall>v c. c < m_CHANNELS k \<longrightarrow> \<not> (v = w \<and> c = ch) \<longrightarrow> queue_at mc' v c = queue_at mc v c) \<and>
    mc_write_mode mc' = mc_write_mode mc"
  using assms
proof (induction n arbitrary: i mc)
  case 0
  then show ?case by auto
next
  case (Suc n)
  from Suc.prems(4) have "i < unat (q_size (queue_at mc w ch))" by simp
  from reset_step [OF Suc.prems(1-3) this] obtain mc1 where
    m1: "reset_request k g w ch i mc = Some mc1" "mc_core k cpus mc1"
      "banked (queue_at mc1 w ch) = banked (queue_at mc w ch) - {i}" "q_size (queue_at mc1 w ch) = q_size (queue_at mc w ch)"
      "addresses (queue_at mc1 w ch) = addresses (queue_at mc w ch)"
      "\<forall>v c. c < m_CHANNELS k \<longrightarrow> \<not> (v = w \<and> c = ch) \<longrightarrow> queue_at mc1 v c = queue_at mc v c"
      "mc_write_mode mc1 = mc_write_mode mc" by blast
  obtain mc2 where m2: "reset_loop k g w ch (Suc i) n mc1 = Some mc2" "mc_core k cpus mc2"
      "banked (queue_at mc2 w ch) = banked (queue_at mc1 w ch) - {Suc i..<Suc i + n}"
      "addresses (queue_at mc2 w ch) = addresses (queue_at mc1 w ch)"
      "\<forall>v c. c < m_CHANNELS k \<longrightarrow> \<not> (v = w \<and> c = ch) \<longrightarrow> queue_at mc2 v c = queue_at mc1 v c"
      "mc_write_mode mc2 = mc_write_mode mc1"
    using Suc.IH [OF m1(2) Suc.prems(2,3), of "Suc i"] Suc.prems(4) m1(4) by auto
  have "banked (queue_at mc w ch) - {i} - {Suc i..<Suc i + n} = banked (queue_at mc w ch) - {i..<i + Suc n}" by auto
  then show ?case using m1 m2 by auto
qed

lemma refresh_queue_total:
  assumes core: "mc_core k cpus mc" and ch: "ch < m_CHANNELS k"
  shows "\<exists>mc'. refresh_queue w ch mc = Some mc' \<and> mc_core k cpus mc' \<and> fresh (queue_at mc' w ch) \<and> aimed (queue_at mc' w ch) \<and>
    banked (queue_at mc' w ch) = banked (queue_at mc w ch) \<and> addresses (queue_at mc' w ch) = addresses (queue_at mc w ch) \<and>
    (\<forall>v c. c < m_CHANNELS k \<longrightarrow> \<not> (v = w \<and> c = ch) \<longrightarrow> queue_at mc' v c = queue_at mc v c) \<and>
    mc_write_mode mc' = mc_write_mode mc"
proof -
  let ?q = "queue_at mc w ch"
  have dims: "dims_ok k mc" using core by (simp add: mc_core_def)
  note own = core_okD [OF core ch, of w]
  obtain q1 q2 where q: "update_schedule_cycle ?q = Some q1" "update_process_cycle q1 = Some q2" "same_queue ?q q2" "fresh q2" "aimed q2"
    using refresh_eq [OF own(1)] by blast
  let ?mc = "put_queue mc w ch q2"
  note at = put_queue_at [OF dims ch]
  have lk: "link k ?mc v x = link k mc v x" for v x by (simp add: link_def)
  have "core_ok k cpus ?mc v c" if c: "c < m_CHANNELS k" for v c
    using core_okD [OF core c, of v] same_queue_inv [OF q(3)]
    by (cases "v = w \<and> c = ch") (auto simp: core_ok_def at lk)
  then have "mc_core k cpus ?mc" using core dims by (simp add: mc_core_def)
  moreover have "refresh_queue w ch mc = Some ?mc"
    using get_queue_eq [OF dims ch, of w] q(1,2) by (simp add: refresh_queue_def)
  ultimately show ?thesis using q(4,5) at same_queue_inv(3,4) [OF q(3)] by auto
qed

lemma reset_remain_requests_total:
  assumes core: "mc_core k cpus mc" and ch: "ch < m_CHANNELS k" and g: "clock_ok cpus g"
  shows "\<exists>mc'. reset_remain_requests k g w ch mc = Some mc' \<and> mc_core k cpus mc' \<and>
    fresh (queue_at mc' w ch) \<and> fresh (queue_at mc' (\<not> w) ch) \<and> (\<forall>v. aimed (queue_at mc' v ch)) \<and> banked (queue_at mc' w ch) = {} \<and>
    same_requests k mc mc' \<and>
    (\<forall>v c. c < m_CHANNELS k \<longrightarrow> c \<noteq> ch \<longrightarrow> queue_at mc' v c = queue_at mc v c) \<and>
    mc_write_mode mc' = mc_write_mode mc"
proof -
  let ?q = "queue_at mc w ch"
  have dims: "dims_ok k mc" using core by (simp add: mc_core_def)
  note own = core_okD [OF core ch, of w]
  obtain mc1 where m1: "reset_loop k g w ch 0 (unat (q_size ?q)) mc = Some mc1" "mc_core k cpus mc1"
      "banked (queue_at mc1 w ch) = banked ?q - {0..<0 + unat (q_size ?q)}"
      "\<forall>v c. c < m_CHANNELS k \<longrightarrow> \<not> (v = w \<and> c = ch) \<longrightarrow> queue_at mc1 v c = queue_at mc v c"
      "mc_write_mode mc1 = mc_write_mode mc" "addresses (queue_at mc1 w ch) = addresses ?q"
  proof -
    have "0 + unat (q_size ?q) \<le> unat (q_size ?q)" by simp
    from reset_loop_total [OF core ch g this] that show ?thesis by blast
  qed
  have "banked ?q \<subseteq> {0..<0 + unat (q_size ?q)}" using queue_length [OF own(1)] by (auto simp: banked_def)
  then have none: "banked (queue_at mc1 w ch) = {}" unfolding m1(3) by blast
  obtain mc2 where m2: "refresh_queue False ch mc1 = Some mc2" "mc_core k cpus mc2" "fresh (queue_at mc2 False ch)" "aimed (queue_at mc2 False ch)"
      "banked (queue_at mc2 False ch) = banked (queue_at mc1 False ch)"
      "\<forall>v c. c < m_CHANNELS k \<longrightarrow> \<not> (v = False \<and> c = ch) \<longrightarrow> queue_at mc2 v c = queue_at mc1 v c"
      "mc_write_mode mc2 = mc_write_mode mc1" "addresses (queue_at mc2 False ch) = addresses (queue_at mc1 False ch)"
    using refresh_queue_total [OF m1(2) ch, of False] by blast
  obtain mc3 where m3: "refresh_queue True ch mc2 = Some mc3" "mc_core k cpus mc3" "fresh (queue_at mc3 True ch)" "aimed (queue_at mc3 True ch)"
      "banked (queue_at mc3 True ch) = banked (queue_at mc2 True ch)"
      "\<forall>v c. c < m_CHANNELS k \<longrightarrow> \<not> (v = True \<and> c = ch) \<longrightarrow> queue_at mc3 v c = queue_at mc2 v c"
      "mc_write_mode mc3 = mc_write_mode mc2" "addresses (queue_at mc3 True ch) = addresses (queue_at mc2 True ch)"
    using refresh_queue_total [OF m2(2) ch, of True] by blast
  have q2: "queue_at mc2 True ch = queue_at mc1 True ch" and q3: "queue_at mc3 False ch = queue_at mc2 False ch"
    using m2(6) [rule_format, of ch True] m3(6) [rule_format, of ch False] ch by simp_all
  have fr: "fresh (queue_at mc3 v ch)" for v using m3(3) q3 m2(3) by (cases v) simp_all
  have am: "aimed (queue_at mc3 v ch)" for v using m3(4) q3 m2(4) by (cases v) simp_all
  have bk: "banked (queue_at mc3 w ch) = {}" using none m2(5) m3(5) q2 q3 by (cases w) simp_all
  have "unat (sched_count mc3 w ! ch) = 0" using core_okD(3) [OF m3(2) ch, of w] bk by simp
  then have z: "sched_count mc3 w ! ch = 0" by (simp add: unat_eq_0)
  have cl: "length (sched_count mc3 w) = m_CHANNELS k" using m3(2) by (simp add: mc_core_def dims_ok_def)
  have wq: "(q_is_WQ ?q \<noteq> 0) = w" using own(1) by (simp add: queue_ok_def)
  have "reset_remain_requests k g w ch mc = Some mc3"
    unfolding reset_remain_requests_def get_queue_eq [OF dims ch] Option.bind.simps m1(1) m2(1) m3(1) wq
      sched_count_def [symmetric]
    using z cl ch by simp
  moreover have "queue_at mc3 v c = queue_at mc v c" if "c < m_CHANNELS k" "c \<noteq> ch" for v c
    using m1(4) [rule_format, of c v] m2(6) [rule_format, of c v] m3(6) [rule_format, of c v] that by simp
  moreover have "same_requests k mc mc3"
    using same_requests_trans [OF same_requests_trans [OF same_requests_step [OF m1(4,6)] same_requests_step [OF m2(6,8)]]
      same_requests_step [OF m3(6,8)]] .
  ultimately show ?thesis using m3(2) fr am bk m1(5) m2(7) m3(7) by (intro exI [of _ mc3]) simp
qed

subsection \<open>One cycle\<close>

lemma mc_inv_other:
  assumes "mc_inv k cpus mc" "mc_core k cpus mc'" "\<And>w. fresh (queue_at mc' w ch)"
    "\<And>v c. c < m_CHANNELS k \<Longrightarrow> c \<noteq> ch \<Longrightarrow> queue_at mc' v c = queue_at mc v c"
  shows "mc_inv k cpus mc'"
  unfolding mc_inv_def
proof (intro conjI allI impI)
  show "mc_core k cpus mc'" by (rule assms(2))
  fix w c assume "c < m_CHANNELS k"
  then show "fresh (queue_at mc' w c)"
    using assms(1,3,4) by (cases "c = ch") (auto simp: mc_inv_def)
qed

lemma mode_frame [simp]:
  "queue_at (mc\<lparr>mc_write_mode := x\<rparr>) = queue_at mc" "bank_at (mc\<lparr>mc_write_mode := x\<rparr>) = bank_at mc"
  "sched_count (mc\<lparr>mc_write_mode := x\<rparr>) = sched_count mc"
  by (auto simp: bank_at_def sched_count_def queue_at_def fun_eq_iff)

lemma core_frame:
  assumes "mc_core k cpus mc" "dims_ok k mc'" "queue_at mc' = queue_at mc" "bank_at mc' = bank_at mc" "sched_count mc' = sched_count mc"
  shows "mc_core k cpus mc'"
  using assms by (simp add: mc_core_def core_ok_def link_def)

lemma set_write_mode_total:
  assumes core: "mc_core k cpus mc" and ch: "ch < m_CHANNELS k"
  shows "\<exists>mc'. set_write_mode ch v mc = Some mc' \<and> mc_core k cpus mc' \<and> queue_at mc' = queue_at mc \<and>
    mc_write_mode mc' = (mc_write_mode mc)[ch := v]"
proof -
  let ?mc = "mc\<lparr>mc_write_mode := (mc_write_mode mc)[ch := v]\<rparr>"
  have dims: "dims_ok k mc" using core by (simp add: mc_core_def)
  then have d: "dims_ok k ?mc" unfolding dims_ok_def banks_ok_def by simp
  have "set_write_mode ch v mc = Some ?mc" using dims ch by (simp add: set_write_mode_def dims_ok_def)
  with core_frame [OF core d] show ?thesis by simp
qed

lemma turn_around_total:
  assumes core: "mc_core k cpus mc" and ch: "ch < m_CHANNELS k"
  shows "\<exists>mc'. turn_around k ch mc = Some mc' \<and> mc_core k cpus mc' \<and> queue_at mc' = queue_at mc \<and>
    mc_write_mode mc' = mc_write_mode mc"
proof -
  have dims: "dims_ok k mc" and len: "length (mc_dbus_cycle_available mc) = m_CHANNELS k"
    using core by (simp_all add: mc_core_def dims_ok_def)
  let ?x = "(mc_dbus_cycle_available mc)[ch := mc_dbus_cycle_available mc ! ch + m_DBUS_TURN_AROUND_TIME k]"
  let ?mc = "mc\<lparr>mc_dbus_cycle_available := ?x\<rparr>"
  have d: "dims_ok k ?mc" using dims_ok_dbus [OF dims, of ?x] len by simp
  have "turn_around k ch mc = Some ?mc" using len ch by (simp add: turn_around_def)
  with core_frame [OF core d] show ?thesis by simp
qed

lemma switch_total:
  assumes inv: "mc_inv k cpus mc" and ch: "ch < m_CHANNELS k" and g: "clock_ok cpus g"
  shows "\<exists>mc'. do { mc1 \<leftarrow> set_write_mode ch v mc; mc2 \<leftarrow> reset_remain_requests k g w ch mc1; turn_around k ch mc2 } = Some mc' \<and>
    mc_inv k cpus mc' \<and> mc_write_mode mc' = (mc_write_mode mc)[ch := v] \<and> same_requests k mc mc' \<and>
    (\<forall>u. aimed (queue_at mc' u ch)) \<and> (\<forall>u c. c < m_CHANNELS k \<longrightarrow> c \<noteq> ch \<longrightarrow> queue_at mc' u c = queue_at mc u c)"
proof -
  have core: "mc_core k cpus mc" using inv by (simp add: mc_inv_def)
  obtain mc1 where m1: "set_write_mode ch v mc = Some mc1" "mc_core k cpus mc1" "queue_at mc1 = queue_at mc"
      "mc_write_mode mc1 = (mc_write_mode mc)[ch := v]"
    using set_write_mode_total [OF core ch] by blast
  obtain mc2 where m2: "reset_remain_requests k g w ch mc1 = Some mc2" "mc_core k cpus mc2"
      "fresh (queue_at mc2 w ch)" "fresh (queue_at mc2 (\<not> w) ch)"
      "\<forall>v c. c < m_CHANNELS k \<longrightarrow> c \<noteq> ch \<longrightarrow> queue_at mc2 v c = queue_at mc1 v c" "mc_write_mode mc2 = mc_write_mode mc1"
      "same_requests k mc1 mc2" "\<forall>u. aimed (queue_at mc2 u ch)"
    using reset_remain_requests_total [OF m1(2) ch g] by blast
  obtain mc3 where m3: "turn_around k ch mc2 = Some mc3" "mc_core k cpus mc3" "queue_at mc3 = queue_at mc2"
      "mc_write_mode mc3 = mc_write_mode mc2"
    using turn_around_total [OF m2(2) ch] by blast
  have "mc_inv k cpus mc3"
  proof (rule mc_inv_other [OF inv m3(2)])
    show "fresh (queue_at mc3 u ch)" for u using m2(3,4) m3(3) by (cases "u = w") auto
    show "queue_at mc3 u c = queue_at mc u c" if "c < m_CHANNELS k" "c \<noteq> ch" for u c
      using m2(5) that m3(3) m1(3) by simp
  qed
  moreover have "same_requests k mc mc3"
    using m2(7) m1(3) m3(3) by (simp add: same_requests_def)
  ultimately show ?thesis using m1 m2 m3 by simp
qed

text \<open>What \<open>select_mode\<close> leaves to the two steps that follow: the queue to serve, and whether it is aimed.\<close>

definition selected :: "mc_config \<Rightarrow> nat \<Rightarrow> memory_controller \<Rightarrow> memory_controller \<Rightarrow> bool" where
  "selected k ch mc mc' \<longleftrightarrow> aimed (queue_at mc' (mc_write_mode mc' ! ch \<noteq> 0) ch) \<and>
     (\<forall>c < m_CHANNELS k. c \<noteq> ch \<longrightarrow> settled mc' c = settled mc c)"

lemma settled_cong:
  assumes "mc_write_mode mc' ! c = mc_write_mode mc ! c" "\<And>u. queue_at mc' u c = queue_at mc u c"
  shows "settled mc' c = settled mc c"
  using assms by (simp add: settled_def)

lemma settled_aimed: "aimed (queue_at mc (mc_write_mode mc ! c \<noteq> 0) c) \<Longrightarrow> settled mc c"
  by (cases "mc_write_mode mc ! c = 0") (simp_all add: settled_def)

lemma switch_selected:
  assumes "mc_write_mode mc' = (mc_write_mode mc)[ch := v]" "\<forall>u. aimed (queue_at mc' u ch)"
    "\<forall>u c. c < m_CHANNELS k \<longrightarrow> c \<noteq> ch \<longrightarrow> queue_at mc' u c = queue_at mc u c"
  shows "selected k ch mc mc'"
proof -
  have "settled mc' c = settled mc c" if "c < m_CHANNELS k" "c \<noteq> ch" for c
    by (rule settled_cong) (use assms(1,3) that in auto)
  then show ?thesis using assms(2) by (simp add: selected_def)
qed

lemma select_mode_total:
  assumes inv: "mc_inv k cpus mc" and ch: "ch < m_CHANNELS k" and g: "clock_ok cpus g" and st: "settled mc ch"
  shows "\<exists>mc'. select_mode k g ch mc = Some mc' \<and> mc_inv k cpus mc' \<and> same_requests k mc mc' \<and> selected k ch mc mc'"
proof -
  have dims: "dims_ok k mc" using inv by (simp add: mc_inv_def mc_core_def)
  then have m: "arr_get (mc_write_mode mc) ch = Some (mc_write_mode mc ! ch)" using ch by (simp add: dims_ok_def)
  let ?rq = "queue_at mc False ch" and ?wq = "queue_at mc True ch" and ?mode = "mc_write_mode mc ! ch"
  consider (to_writes) "?mode = 0 \<and> (q_occupancy ?wq \<ge> m_WRITE_HIGH_WM k \<or> (q_occupancy ?rq = 0 \<and> q_occupancy ?wq > 0))"
    | (to_reads) "?mode \<noteq> 0 \<and> (q_occupancy ?wq = 0 \<or> (q_occupancy ?rq \<noteq> 0 \<and> q_occupancy ?wq < m_WRITE_LOW_WM k))"
    | (stay) "\<not> (?mode = 0 \<and> (q_occupancy ?wq \<ge> m_WRITE_HIGH_WM k \<or> (q_occupancy ?rq = 0 \<and> q_occupancy ?wq > 0)))"
      "\<not> (?mode \<noteq> 0 \<and> (q_occupancy ?wq = 0 \<or> (q_occupancy ?rq \<noteq> 0 \<and> q_occupancy ?wq < m_WRITE_LOW_WM k)))" by blast
  then show ?thesis
  proof cases
    case to_writes
    show ?thesis
      unfolding select_mode_def m Option.bind.simps get_queue_eq [OF dims ch] if_P [OF to_writes]
      using switch_total [OF inv ch g, of 1 False] switch_selected by metis
  next
    case to_reads
    then have nw: "\<not> (?mode = 0 \<and> (q_occupancy ?wq \<ge> m_WRITE_HIGH_WM k \<or> (q_occupancy ?rq = 0 \<and> q_occupancy ?wq > 0)))" by blast
    show ?thesis
      unfolding select_mode_def m Option.bind.simps get_queue_eq [OF dims ch] if_not_P [OF nw] if_P [OF to_reads]
      using switch_total [OF inv ch g, of 0 True] switch_selected by metis
  next
    case stay
    have "selected k ch mc mc" using st stay(1) by (auto simp: selected_def settled_def split: if_splits)
    then show ?thesis
      unfolding select_mode_def m Option.bind.simps get_queue_eq [OF dims ch] if_not_P [OF stay(1)] if_not_P [OF stay(2)]
      using inv same_requests_refl [of mc mc k] by simp
  qed
qed

lemma mc_inv_fresh: "mc_inv k cpus mc \<Longrightarrow> ch < m_CHANNELS k \<Longrightarrow> fresh (queue_at mc w ch)"
  by (simp add: mc_inv_def)

lemma mc_inv_step:
  assumes inv: "mc_inv k cpus mc" and ch: "ch < m_CHANNELS k"
    and "mc_core k cpus mc'" "fresh (queue_at mc' w ch)"
    "\<forall>v c. c < m_CHANNELS k \<longrightarrow> \<not> (v = w \<and> c = ch) \<longrightarrow> queue_at mc' v c = queue_at mc v c"
  shows "mc_inv k cpus mc'"
proof (rule mc_inv_other [OF inv assms(3)])
  show "fresh (queue_at mc' u ch)" for u
    using assms(4) assms(5) [rule_format, OF ch, of u] mc_inv_fresh [OF inv ch, of u] by (cases "u = w") auto
qed (use assms(5) in auto)

text \<open>A step that works on one queue of a channel and leaves that queue aimed.\<close>

definition serving :: "mc_config \<Rightarrow> bool \<Rightarrow> nat \<Rightarrow> memory_controller \<Rightarrow> memory_controller \<Rightarrow> bool" where
  "serving k w ch mc mc' \<longleftrightarrow> mc_write_mode mc' = mc_write_mode mc \<and> aimed (queue_at mc' w ch) \<and>
     (\<forall>v c. c < m_CHANNELS k \<longrightarrow> \<not> (v = w \<and> c = ch) \<longrightarrow> queue_at mc' v c = queue_at mc v c)"

lemma serving_refl: "aimed (queue_at mc w ch) \<Longrightarrow> serving k w ch mc mc"
  by (simp add: serving_def)

lemma serving_settled:
  assumes sel: "selected k ch mc mc1" and w: "w = (mc_write_mode mc1 ! ch \<noteq> 0)"
    and s: "serving k w ch mc1 mc2" "serving k w ch mc2 mc3" and live: "live_mc k mc"
  shows "live_mc k mc3"
  unfolding live_mc_def
proof (intro allI impI)
  fix c assume c: "c < m_CHANNELS k"
  show "settled mc3 c"
  proof (cases "c = ch")
    case True
    then show ?thesis using s w by (intro settled_aimed) (simp add: serving_def)
  next
    case False
    have "settled mc3 c = settled mc1 c" by (rule settled_cong) (use s c False in \<open>auto simp: serving_def\<close>)
    then show ?thesis using sel live c False by (simp add: selected_def live_mc_def)
  qed
qed

lemma schedule_total:
  assumes inv: "mc_inv k cpus mc" and ch: "ch < m_CHANNELS k" and g: "clock_ok cpus g" and am: "aimed (queue_at mc w ch)"
  shows "\<exists>mc'. schedule k g w ch mc = Some mc' \<and> mc_inv k cpus mc' \<and> serving k w ch mc mc' \<and> same_requests k mc mc'"
proof -
  have core: "mc_core k cpus mc" using inv by (simp add: mc_inv_def)
  then have cfg: "config_ok k" "dims_ok k mc" by (simp_all add: mc_core_def)
  note own = core_okD [OF core ch, of w]
  obtain i h where f: "find_oldest k mc (queue_at mc w ch) = Some (i, h)"
    using find_oldest_total [OF cfg queue_length [OF own(1)]] by blast
  show ?thesis
  proof (cases "i = - 1")
    case True
    then have "schedule k g w ch mc = Some mc"
      using f get_queue_eq [OF cfg(2) ch] by (simp add: schedule_def)
    then show ?thesis using inv same_requests_refl serving_refl [of mc w ch k] am by auto
  next
    case False
    from schedule_step [OF core ch g f False] obtain mc' where s: "schedule k g w ch mc = Some mc'" "mc_core k cpus mc'"
      "fresh (queue_at mc' w ch)" "aimed (queue_at mc' w ch)"
      "\<forall>v c. c < m_CHANNELS k \<longrightarrow> \<not> (v = w \<and> c = ch) \<longrightarrow> queue_at mc' v c = queue_at mc v c"
      "mc_write_mode mc' = mc_write_mode mc" "addresses (queue_at mc' w ch) = addresses (queue_at mc w ch)" by blast
    have "serving k w ch mc mc'" using s(4-6) by (simp add: serving_def)
    with s mc_inv_step [OF inv ch s(2,3,5)] same_requests_step [OF s(5,7)] show ?thesis by blast
  qed
qed

lemma serve_schedule_total:
  assumes inv: "mc_inv k cpus mc" and ch: "ch < m_CHANNELS k" and g: "clock_ok cpus g" and am: "aimed (queue_at mc w ch)"
  shows "\<exists>mc'. serve_schedule k g w ch mc = Some mc' \<and> mc_inv k cpus mc' \<and> serving k w ch mc mc' \<and> same_requests k mc mc'"
proof -
  let ?q = "queue_at mc w ch"
  have core: "mc_core k cpus mc" and dims: "dims_ok k mc" using inv by (simp_all add: mc_inv_def mc_core_def)
  note own = core_okD [OF core ch, of w]
  note len = queue_length [OF own(1)]
  note stay = inv same_requests_refl [of mc mc k] serving_refl [OF am, of k]
  show ?thesis
  proof (cases "q_next_schedule_index ?q < q_size ?q")
    case True
    let ?i = "unat (q_next_schedule_index ?q)"
    have i: "?i < length (q_entry ?q)" using True len by (simp add: word_less_nat_alt)
    have "p_address (q_entry ?q ! ?i) \<noteq> 0" using am True by (simp add: aimed_def pending_def)
    note now = clock_okD [OF g aimed_cpu [OF own(1) i this]]
    show ?thesis
      unfolding serve_schedule_def get_queue_eq [OF dims ch] Option.bind.simps
      using True i now schedule_total [OF inv ch g am] stay by auto
  next
    case False
    then show ?thesis
      unfolding serve_schedule_def get_queue_eq [OF dims ch] Option.bind.simps using stay by simp
  qed
qed

text \<open>The addresses of the reads that wait, and a step that completes some of them.\<close>

definition reads :: "mc_config \<Rightarrow> memory_controller \<Rightarrow> u64 set" where
  "reads k mc = (\<Union>c < m_CHANNELS k. addresses (queue_at mc False c))"

definition serves :: "mc_config \<Rightarrow> memory_controller \<Rightarrow> memory_controller \<Rightarrow> packet list \<Rightarrow> bool" where
  "serves k mc mc' rs \<longleftrightarrow> reads k mc' = reads k mc - p_address ` set rs \<and> p_address ` set rs \<subseteq> reads k mc"

lemma serves_none: "same_requests k mc mc' \<Longrightarrow> serves k mc mc' []"
  by (simp add: same_requests_def serves_def reads_def)

lemma serves_append: "serves k mc mc1 rs \<Longrightarrow> serves k mc1 mc2 rs' \<Longrightarrow> serves k mc mc2 (rs @ rs')"
  by (auto simp: serves_def)

lemma address_channel:
  assumes "queue_ok k cpus w ch q" "a \<in> addresses q"
  shows "fst (bank_key k a) = ch"
proof -
  from assms(2) obtain i where i: "i < length (q_entry q)" "p_address (q_entry q ! i) \<noteq> 0" "a = p_address (q_entry q ! i)"
    by (auto simp: addresses_def used_def)
  have "entry_ok k cpus ch (q_entry q ! i)" using assms(1) i(1) by (simp add: queue_ok_def)
  then show ?thesis using i by (simp add: entry_ok_def)
qed

lemma serves_step:
  assumes core: "mc_core k cpus mc" and ch: "ch < m_CHANNELS k"
    and oth: "\<forall>v c. c < m_CHANNELS k \<longrightarrow> \<not> (v = w \<and> c = ch) \<longrightarrow> queue_at mc' v c = queue_at mc v c"
    and ad: "addresses (queue_at mc' w ch) = addresses (queue_at mc w ch) - served" "served \<subseteq> addresses (queue_at mc w ch)"
    and out: "\<not> w \<Longrightarrow> served = p_address ` set rs" "w \<Longrightarrow> rs = []"
  shows "serves k mc mc' rs"
proof (cases w)
  case True
  then have "reads k mc' = reads k mc" using oth unfolding reads_def by (intro SUP_cong) auto
  then show ?thesis using out(2) True by (simp add: serves_def)
next
  case False
  have sub: "served \<subseteq> reads k mc" using ad(2) ch False by (auto simp: reads_def)
  have "addresses (queue_at mc' False c) = addresses (queue_at mc False c) - served" if c: "c < m_CHANNELS k" for c
  proof (cases "c = ch")
    case True
    then show ?thesis using ad(1) False by simp
  next
    case other: False
    have "a \<notin> served" if a: "a \<in> addresses (queue_at mc False c)" for a
      using address_channel [OF core_okD(1) [OF core c, of False] a]
        address_channel [OF core_okD(1) [OF core ch, of w], of a] ad(2) other by auto
    then show ?thesis using oth c other by auto
  qed
  then have "reads k mc' = reads k mc - served" by (auto simp: reads_def)
  then show ?thesis using sub out(1) False by (simp add: serves_def)
qed

lemma serve_process_total:
  assumes inv: "mc_inv k cpus mc" and ch: "ch < m_CHANNELS k" and g: "clock_ok cpus g" and am: "aimed (queue_at mc w ch)"
  shows "\<exists>mc' rs. serve_process k g w ch mc = Some (mc', rs) \<and> mc_inv k cpus mc' \<and> serving k w ch mc mc' \<and> serves k mc mc' rs \<and>
    (\<forall>r \<in> set rs. p_address r \<noteq> 0 \<and> unat (p_cpu r) < cpus)"
proof -
  let ?q = "queue_at mc w ch"
  have core: "mc_core k cpus mc" and dims: "dims_ok k mc" using inv by (simp_all add: mc_inv_def mc_core_def)
  note own = core_okD [OF core ch, of w]
  note len = queue_length [OF own(1)]
  note fr = mc_inv_fresh [OF inv ch, of w]
  have none: "serves k mc mc []" "serving k w ch mc mc" by (intro serves_none same_requests_refl refl serving_refl am)+
  show ?thesis
  proof (cases "q_next_process_index ?q < q_size ?q")
    case True
    let ?i = "unat (q_next_process_index ?q)"
    have il: "?i < length (q_entry ?q)" using True len by (simp add: word_less_nat_alt)
    have "p_address (q_entry ?q ! ?i) \<noteq> 0" using am True by (simp add: aimed_def)
    note now = clock_okD [OF g aimed_cpu [OF own(1) il this]]
    show ?thesis
    proof (cases "q_next_process_cycle ?q \<le> g_current_core_cycle g ! unat (p_cpu (q_entry ?q ! ?i))")
      case False
      then show ?thesis
        unfolding serve_process_def get_queue_eq [OF dims ch] Option.bind.simps using True il now inv none by simp
    next
      case due: True
      then have nm: "q_next_process_cycle ?q \<noteq> - 1" using now(2) by (metis word_order.extremum_uniqueI)
      from process_step [OF core ch g fr am True nm]
      obtain mc' rs served where p: "process k g w ch mc = Some (mc', rs)" "mc_core k cpus mc'" "fresh (queue_at mc' w ch)"
        "\<forall>v c. c < m_CHANNELS k \<longrightarrow> \<not> (v = w \<and> c = ch) \<longrightarrow> queue_at mc' v c = queue_at mc v c"
        and sv: "aimed (queue_at mc' w ch)" "mc_write_mode mc' = mc_write_mode mc"
        and s: "addresses (queue_at mc' w ch) = addresses ?q - served" "served \<subseteq> addresses ?q"
          "\<not> w \<longrightarrow> served = p_address ` set rs"
        and one:
        "rs = [] \<or> \<not> w \<and> (\<exists>i x. i \<in> banked ?q \<and> rs = [(q_entry ?q ! i)\<lparr>p_event_cycle := x\<rparr>] \<and>
          banked (queue_at mc' w ch) = banked ?q - {i})"
        by (elim exE conjE) (rule that; assumption)
      have "\<forall>r \<in> set rs. p_address r \<noteq> 0 \<and> unat (p_cpu r) < cpus"
        using one
      proof (elim disjE conjE exE)
        fix j x assume j: "j \<in> banked ?q" "rs = [(q_entry ?q ! j)\<lparr>p_event_cycle := x\<rparr>]"
        then show ?thesis using bankedD(2,5) [OF own(1) j(1)] by simp
      qed simp
      moreover have "serves k mc mc' rs"
      proof -
        have "w \<Longrightarrow> rs = []" using one by (elim disjE conjE) simp_all
        from serves_step [OF core ch p(4) s(1,2) s(3) [rule_format] this] show ?thesis .
      qed
      moreover have "mc_inv k cpus mc'" by (rule mc_inv_step [OF inv ch p(2-4)])
      moreover have "serve_process k g w ch mc = Some (mc', rs)"
        unfolding serve_process_def get_queue_eq [OF dims ch] Option.bind.simps
        using True due il now(1) p(1) by simp
      moreover have "serving k w ch mc mc'" using sv p(4) by (simp add: serving_def)
      ultimately show ?thesis by blast
    qed
  next
    case False
    then show ?thesis
      unfolding serve_process_def get_queue_eq [OF dims ch] Option.bind.simps using inv none by simp
  qed
qed

lemma operate_channel_total:
  assumes inv: "mc_inv k cpus mc" and ch: "ch < m_CHANNELS k" and g: "clock_ok cpus g" and live: "live_mc k mc"
  shows "\<exists>mc' rs. operate_channel k g ch mc = Some (mc', rs) \<and> mc_inv k cpus mc' \<and> live_mc k mc' \<and> serves k mc mc' rs \<and>
    (\<forall>r \<in> set rs. p_address r \<noteq> 0 \<and> unat (p_cpu r) < cpus)"
proof -
  have "settled mc ch" using live ch by (simp add: live_mc_def)
  from select_mode_total [OF inv ch g this]
  obtain mc1 where m1: "select_mode k g ch mc = Some mc1" "mc_inv k cpus mc1" "same_requests k mc mc1" "selected k ch mc mc1" by blast
  have "length (mc_write_mode mc1) = m_CHANNELS k" using m1(2) by (simp add: mc_inv_def mc_core_def dims_ok_def)
  then have mode: "arr_get (mc_write_mode mc1) ch = Some (mc_write_mode mc1 ! ch)" using ch by simp
  define w where "w = (mc_write_mode mc1 ! ch \<noteq> 0)"
  have am: "aimed (queue_at mc1 w ch)" using m1(4) by (simp add: selected_def w_def)
  obtain mc2 where m2: "serve_schedule k g w ch mc1 = Some mc2" "mc_inv k cpus mc2" "serving k w ch mc1 mc2" "same_requests k mc1 mc2"
    using serve_schedule_total [OF m1(2) ch g am] by blast
  have am2: "aimed (queue_at mc2 w ch)" using m2(3) by (simp add: serving_def)
  obtain mc3 rs where m3: "serve_process k g w ch mc2 = Some (mc3, rs)" "mc_inv k cpus mc3" "serving k w ch mc2 mc3"
    "serves k mc2 mc3 rs" "\<forall>r \<in> set rs. p_address r \<noteq> 0 \<and> unat (p_cpu r) < cpus"
    using serve_process_total [OF m2(2) ch g am2] by blast
  have "serves k mc mc3 rs"
    using serves_append [OF serves_none [OF same_requests_trans [OF m1(3) m2(4)]] m3(4)] by simp
  with serving_settled [OF m1(4) w_def m2(3) m3(3) live] show ?thesis
    unfolding operate_channel_def m1(1) mode Option.bind.simps w_def [symmetric] m2(1) using m3 by blast
qed

lemma operate_channels_total:
  assumes "mc_inv k cpus mc" "ch + n \<le> m_CHANNELS k" "clock_ok cpus g" "live_mc k mc"
  shows "\<exists>mc' rs. operate_channels k g ch n mc = Some (mc', rs) \<and> mc_inv k cpus mc' \<and> live_mc k mc' \<and> serves k mc mc' rs \<and>
    (\<forall>r \<in> set rs. p_address r \<noteq> 0 \<and> unat (p_cpu r) < cpus)"
  using assms
proof (induction n arbitrary: ch mc)
  case 0
  have "serves k mc mc []" by (intro serves_none same_requests_refl refl)
  with 0 show ?case by simp
next
  case (Suc n)
  then obtain mc1 rs where m1: "operate_channel k g ch mc = Some (mc1, rs)" "mc_inv k cpus mc1" "live_mc k mc1" "serves k mc mc1 rs"
    "\<forall>r \<in> set rs. p_address r \<noteq> 0 \<and> unat (p_cpu r) < cpus"
    using operate_channel_total [of k cpus mc ch g] by auto
  obtain mc2 rs2 where m2: "operate_channels k g (Suc ch) n mc1 = Some (mc2, rs2)" "mc_inv k cpus mc2" "live_mc k mc2"
    "serves k mc1 mc2 rs2" "\<forall>r \<in> set rs2. p_address r \<noteq> 0 \<and> unat (p_cpu r) < cpus"
    using Suc.IH [OF m1(2), of "Suc ch"] Suc.prems m1(3) by auto
  have "operate_channels k g ch (Suc n) mc = Some (mc2, rs @ rs2)" by (simp add: m1(1) m2(1))
  then show ?case using m1(5) m2(2,3,5) serves_append [OF m1(4) m2(4)] by auto
qed

subsection \<open>Requests\<close>

lemma core_put_queue:
  assumes core: "mc_core k cpus mc" and ch: "ch < m_CHANNELS k"
    and q: "queue_ok k cpus w ch q" "banked q = banked (queue_at mc w ch)"
      "\<And>i. i \<in> banked q \<Longrightarrow> p_address (q_entry q ! i) = p_address (q_entry (queue_at mc w ch) ! i)"
  shows "mc_core k cpus (put_queue mc w ch q)"
proof -
  have dims: "dims_ok k mc" using core by (simp add: mc_core_def)
  note at = put_queue_at [OF dims ch]
  note own = core_okD [OF core ch, of w]
  have lk: "link k (put_queue mc w ch q) v x = link k mc v x" for v x by (simp add: link_def)
  have "link k mc w q" using own(2) q(2,3) by (simp add: link_def)
  then have "core_ok k cpus (put_queue mc w ch q) v c" if "c < m_CHANNELS k" for v c
    using core_okD [OF core that, of v] q(1,2) own(3)
    by (cases "v = w \<and> c = ch") (auto simp: core_ok_def at lk)
  then show ?thesis using core dims by (simp add: mc_core_def)
qed

lemma check_dram_queue_correct:
  assumes tab: "table_inv q" and a: "p_address p \<noteq> 0"
  shows "\<exists>i. check_dram_queue q p = Some i \<and> (i = - 1 \<longleftrightarrow> p_address p \<notin> addresses q) \<and>
    (i \<noteq> - 1 \<longrightarrow> nat i < length (q_entry q) \<and> p_address (q_entry q ! nat i) = p_address p)"
proof -
  have len: "length (q_entry q) = unat (q_size q)" using tab by (simp add: table_inv_def)
  have "check_dram_queue q p = Some (case first_index (\<lambda>i. p_address (q_entry q ! i) = p_address p) 0
      (unat (q_size q)) of Some i \<Rightarrow> int i | None \<Rightarrow> - 1)"
    using len by (simp add: check_dram_queue_def search_arr_eq)
  then show ?thesis
    using address_search [OF tab a] address_found [OF tab a]
    by (auto simp: used_def split: option.splits)
qed

lemma occupancy_used: "table_inv q \<Longrightarrow> unat (q_occupancy q) = card (used q) \<and> finite (used q)"
  using finite_subset [of "used q" "{..<length (q_entry q)}"] by (auto simp: table_inv_def used_def)

lemma occupancy_zero:
  assumes "table_inv q" "q_occupancy q = 0"
  shows "used q = {}" "addresses q = {}"
proof -
  show "used q = {}" using occupancy_used [OF assms(1)] assms(2) by simp
  then show "addresses q = {}" by (simp add: addresses_def)
qed

lemma occupancy_pos:
  assumes "table_inv q" "a \<in> addresses q"
  shows "0 < q_occupancy q"
  using occupancy_zero(2) [OF assms(1)] assms(2) by (auto simp: word_gt_0)

text \<open>What the caches send: a request with an address, from a core, not yet scheduled.\<close>

definition request_ok :: "nat \<Rightarrow> packet \<Rightarrow> bool" where
  "request_ok cpus p \<longleftrightarrow> p_address p \<noteq> 0 \<and> unat (p_cpu p) < cpus \<and> unat (p_type p) < NUM_TYPES \<and> p_scheduled p = 0"

lemma aimed_store:
  assumes u: "earliest of_nat pending (q_entry q) (unat (q_size q)) (- 1, q_size q) (x, y)"
    and p: "q_next_process_index q < q_size q \<Longrightarrow> p_address (q_entry q ! unat (q_next_process_index q)) \<noteq> 0"
  shows "aimed (q\<lparr>q_next_schedule_cycle := x, q_next_schedule_index := y\<rparr>)"
  using earliest_index [OF u] p by (simp add: aimed_def)

text \<open>In an empty table nothing is in a bank: the next event was never computed, or points past the end.\<close>

lemma empty_next:
  assumes ok: "queue_ok k cpus w ch q" and fr: "fresh q" and e: "q_occupancy q = 0"
    and nx: "q_next_process_index q < q_size q"
  shows "q_next_process_index q = 0"
proof -
  have "used q = {}" using occupancy_zero(1) ok e by (simp add: queue_ok_def)
  then have "banked q = {}" using bankedD(7) [OF ok] by blast
  then have nb: "\<not> in_bank (q_entry q ! unat (q_next_process_index q))"
    using nx queue_length [OF ok] by (auto simp: banked_def word_less_nat_alt)
  have "event_ok in_bank q (q_next_process_cycle q) (q_next_process_index q)" using fr by (simp add: fresh_def)
  then show ?thesis using earliest_index [OF _ nx, of in_bank "q_entry q"] nb by (auto simp: event_ok_def)
qed

lemma store_packet_total:
  assumes inv: "mc_inv k cpus mc" and ch: "ch < m_CHANNELS k" and p: "request_ok cpus p"
    and pch: "fst (bank_key k (p_address p)) = ch" and new: "p_address p \<notin> addresses (queue_at mc w ch)"
    and lim: "limit = (if w then m_WQ_SIZE k else m_RQ_SIZE k)"
  shows "\<exists>q1 q2 added. store_packet (queue_at mc w ch) limit p = Some (q1, added) \<and> update_schedule_cycle q1 = Some q2 \<and>
    mc_inv k cpus (put_queue mc w ch q2) \<and> added = (q_occupancy (queue_at mc w ch) < q_size (queue_at mc w ch)) \<and>
    addresses q2 = (if added then insert (p_address p) (addresses (queue_at mc w ch)) else addresses (queue_at mc w ch)) \<and>
    (aimed (queue_at mc w ch) \<or> q_occupancy (queue_at mc w ch) = 0 \<longrightarrow> aimed q2) \<and>
    (0 < q_size (queue_at mc w ch) \<longrightarrow> 0 < q_occupancy q2)"
proof -
  let ?q = "queue_at mc w ch"
  have core: "mc_core k cpus mc" and dims: "dims_ok k mc" using inv by (simp_all add: mc_inv_def mc_core_def)
  note own = core_okD [OF core ch, of w]
  note len = queue_length [OF own(1)]
  have tab: "table_inv ?q" and sz: "q_size ?q = limit" using own(1) lim by (simp_all add: queue_ok_def)
  have p0: "p_address p \<noteq> 0" "unat (p_cpu p) < cpus" "unat (p_type p) < NUM_TYPES" "p_scheduled p = 0"
    using p by (simp_all add: request_ok_def)
  have fin: "mc_inv k cpus (put_queue mc w ch q2)"
    if q2: "queue_ok k cpus w ch q1" "banked q1 = banked ?q" "\<And>i. i \<in> banked q1 \<Longrightarrow> q_entry q1 ! i = q_entry ?q ! i"
      "q_size q1 = q_size ?q" "q_next_process_cycle q1 = q_next_process_cycle ?q" "q_next_process_index q1 = q_next_process_index ?q"
      "q2 = q1\<lparr>q_next_schedule_cycle := x, q_next_schedule_index := y\<rparr>"
      "earliest of_nat pending (q_entry q1) (unat (q_size q1)) (- 1, q_size q1) (x, y)" for q1 q2 x y
  proof -
    have sq: "same_queue q1 q2" using q2(7) by (simp add: same_queue_def)
    have "mc_core k cpus (put_queue mc w ch q2)"
      using q2(1-3) same_queue_inv [OF sq] q2(7) by (intro core_put_queue [OF core ch]) auto
    moreover have "fresh q2"
    proof -
      have l1: "length (q_entry q1) = unat (q_size ?q)" using queue_length [OF q2(1)] q2(4) by simp
      have "event_ok in_bank q2 c z = event_ok in_bank ?q c z" for c z
      proof (rule event_ok_cong)
        show "q_size q2 = q_size ?q" using q2(4,7) by simp
        fix j assume j: "j < unat (q_size ?q)"
        then have "in_bank (q_entry q1 ! j) = in_bank (q_entry ?q ! j)"
          using q2(2) l1 len by (auto simp: banked_def set_eq_iff)
        moreover have "in_bank (q_entry q1 ! j) \<longrightarrow> q_entry q1 ! j = q_entry ?q ! j"
          using q2(3) j l1 by (simp add: banked_def)
        ultimately show "in_bank (q_entry q2 ! j) = in_bank (q_entry ?q ! j) \<and>
            (in_bank (q_entry q2 ! j) \<longrightarrow> p_event_cycle (q_entry q2 ! j) = p_event_cycle (q_entry ?q ! j))"
          using q2(7) by simp
      qed
      then show ?thesis
        using mc_inv_fresh [OF inv ch, of w] q2(4-8) by (simp add: fresh_def) (simp add: event_ok_def)
    qed
    ultimately show ?thesis
      using mc_inv_step [OF inv ch, of "put_queue mc w ch q2" w] put_queue_at [OF dims ch] by auto
  qed
  show ?thesis
  proof (cases "first_index (\<lambda>i. p_address (q_entry ?q ! i) = 0) 0 (unat limit)")
    case None
    then have "\<not> q_occupancy ?q < q_size ?q"
      using table_free [OF tab] len sz by (auto simp: first_index_None)
    moreover have "store_packet ?q limit p = Some (?q, False)"
      using None len sz by (simp add: store_packet_def search_arr_eq)
    moreover obtain x y where u: "update_schedule_cycle ?q = Some (?q\<lparr>q_next_schedule_cycle := x, q_next_schedule_index := y\<rparr>)"
      "earliest of_nat pending (q_entry ?q) (unat (q_size ?q)) (- 1, q_size ?q) (x, y)"
      using update_schedule_cycle_eq [OF len] by blast
    moreover have "mc_inv k cpus (put_queue mc w ch (?q\<lparr>q_next_schedule_cycle := x, q_next_schedule_index := y\<rparr>))"
      using fin [OF own(1) refl refl refl refl refl refl u(2)] .
    moreover have "addresses (?q\<lparr>q_next_schedule_cycle := x, q_next_schedule_index := y\<rparr>) = addresses ?q"
      by (simp add: addresses_def used_def)
    moreover have full: "used ?q = {..<length (q_entry ?q)}"
      using None len sz by (auto simp: first_index_None used_def)
    then have "0 < q_size ?q \<longrightarrow> 0 < q_occupancy ?q"
      using occupancy_used [OF tab] len by (auto simp: word_less_nat_alt)
    moreover have "aimed (?q\<lparr>q_next_schedule_cycle := x, q_next_schedule_index := y\<rparr>)"
      if "aimed ?q \<or> q_occupancy ?q = 0"
    proof (rule aimed_store [OF u(2)])
      assume nx: "q_next_process_index ?q < q_size ?q"
      then have "unat (q_next_process_index ?q) \<in> used ?q" unfolding full using len by (simp add: word_less_nat_alt)
      then show "p_address (q_entry ?q ! unat (q_next_process_index ?q)) \<noteq> 0" by (simp add: used_def)
    qed
    ultimately show ?thesis
      by (intro exI [of _ ?q] exI [of _ "?q\<lparr>q_next_schedule_cycle := x, q_next_schedule_index := y\<rparr>"] exI [of _ False]) simp
  next
    case (Some i)
    then have i: "i < length (q_entry ?q)" "p_address (q_entry ?q ! i) = 0"
      using len sz by (auto dest: first_index_Some)
    let ?q1 = "?q\<lparr>q_entry := (q_entry ?q)[i := p], q_occupancy := q_occupancy ?q + 1\<rparr>"
    note t = table_add [OF tab i p0(1) new]
    have "entry_ok k cpus ch ((q_entry ?q)[i := p] ! j)" if "j < length (q_entry ?q)" for j
      using own(1) that i p0 pch by (cases "i = j") (auto simp: queue_ok_def entry_ok_def)
    then have q1: "queue_ok k cpus w ch ?q1" using own(1) t(1) by (simp add: queue_ok_def)
    have ns: "\<not> in_bank (q_entry ?q ! i)" "\<not> in_bank p"
      using own(1) i p0(4) by (auto simp: queue_ok_def entry_ok_def in_bank_def split: if_splits)
    then have b1: "banked ?q1 = banked ?q" using i by (auto simp: banked_def nth_list_update split: if_splits)
    have e1: "q_entry ?q1 ! j = q_entry ?q ! j" if "j \<in> banked ?q1" for j
      using that ns i by (auto simp: banked_def nth_list_update split: if_splits)
    obtain x y where u: "update_schedule_cycle ?q1 = Some (?q1\<lparr>q_next_schedule_cycle := x, q_next_schedule_index := y\<rparr>)"
      "earliest of_nat pending (q_entry ?q1) (unat (q_size ?q1)) (- 1, q_size ?q1) (x, y)"
      using update_schedule_cycle_eq [OF queue_length [OF q1]] by blast
    have "mc_inv k cpus (put_queue mc w ch (?q1\<lparr>q_next_schedule_cycle := x, q_next_schedule_index := y\<rparr>))"
      by (rule fin [OF q1 b1 e1 _ _ _ refl u(2)]) simp_all
    moreover have "store_packet ?q limit p = Some (?q1, True)"
      using Some len sz by (simp add: store_packet_def search_arr_eq)
    moreover have "addresses (?q1\<lparr>q_next_schedule_cycle := x, q_next_schedule_index := y\<rparr>) = addresses ?q1"
      by (simp add: addresses_def used_def)
    moreover have "q_occupancy ?q < q_size ?q"
    proof -
      have "unat (q_occupancy ?q) + 1 \<le> length (q_entry ?q)"
        using t(1,3) card_used [of ?q1] by (simp add: table_inv_def)
      then show ?thesis using len by (simp add: word_less_nat_alt)
    qed
    moreover have "0 < q_occupancy ?q + 1" using t(3) by (simp add: word_less_nat_alt)
    moreover have "aimed (?q1\<lparr>q_next_schedule_cycle := x, q_next_schedule_index := y\<rparr>)"
      if am: "aimed ?q \<or> q_occupancy ?q = 0"
    proof (rule aimed_store [OF u(2)])
      let ?x = "q_next_process_index ?q"
      assume "q_next_process_index ?q1 < q_size ?q1"
      then have nx: "?x < q_size ?q" by simp
      have "p_address ((q_entry ?q)[i := p] ! unat ?x) \<noteq> 0"
        using am
      proof
        assume "aimed ?q"
        then have "p_address (q_entry ?q ! unat ?x) \<noteq> 0" using nx by (simp add: aimed_def)
        then show ?thesis using i p0(1) by (cases "unat ?x = i") simp_all
      next
        assume z: "q_occupancy ?q = 0"
        have x0: "?x = 0" by (rule empty_next [OF own(1) mc_inv_fresh [OF inv ch] z nx])
        have "0 < length (q_entry ?q)" using i(1) by linarith
        then have "p_address (q_entry ?q ! 0) = 0" using occupancy_zero(1) [OF tab z] by (auto simp: used_def)
        then have "i = 0" using first_index_Some [OF Some] by (cases "i = 0") auto
        then show ?thesis using x0 i(1) p0(1) by simp
      qed
      then show "p_address (q_entry ?q1 ! unat (q_next_process_index ?q1)) \<noteq> 0" by simp
    qed
    ultimately show ?thesis using u(1) t(2)
      by (intro exI [of _ ?q1] exI [of _ "?q1\<lparr>q_next_schedule_cycle := x, q_next_schedule_index := y\<rparr>"] exI [of _ True]) simp
  qed
qed


subsection \<open>The constructor\<close>

lemma mc_new_at:
  assumes "ch < m_CHANNELS k"
  shows "q_entry (queue_at (mc_new k) w ch) = replicate (unat (if w then m_WQ_SIZE k else m_RQ_SIZE k)) packet_new"
    "queue_ok k NUM_CPUS w ch (queue_at (mc_new k) w ch)" "fresh (queue_at (mc_new k) w ch)"
    "banked (queue_at (mc_new k) w ch) = {}" "addresses (queue_at (mc_new k) w ch) = {}"
proof -
  let ?q = "queue_at (mc_new k) w ch"
  have q: "\<exists>nm. same_queue ((packet_queue_new nm (if w then m_WQ_SIZE k else m_RQ_SIZE k))\<lparr>q_is_WQ := if w then 1 else 0\<rparr>) ?q \<and>
     q_next_schedule_cycle ?q = - 1 \<and> q_next_schedule_index ?q = 0 \<and>
     q_next_process_cycle ?q = - 1 \<and> q_next_process_index ?q = 0"
    using assms by (auto simp: mc_new_eq Let_def queue_at_def same_queue_def packet_queue_new_def)
  then obtain nm where sq: "same_queue ((packet_queue_new nm (if w then m_WQ_SIZE k else m_RQ_SIZE k))\<lparr>q_is_WQ := if w then 1 else 0\<rparr>) ?q"
    and nx: "q_next_schedule_cycle ?q = - 1" "q_next_schedule_index ?q = 0"
     "q_next_process_cycle ?q = - 1" "q_next_process_index ?q = 0" by blast
  let ?p = "(packet_queue_new nm (if w then m_WQ_SIZE k else m_RQ_SIZE k))\<lparr>q_is_WQ := if w then 1 else 0\<rparr>"
  show ent: "q_entry ?q = replicate (unat (if w then m_WQ_SIZE k else m_RQ_SIZE k)) packet_new"
    using sq by (simp add: same_queue_def packet_queue_new_def)
  have size: "q_size ?q = (if w then m_WQ_SIZE k else m_RQ_SIZE k)"
    using sq by (simp add: same_queue_def packet_queue_new_def)
  have tab: "table_inv ?p" "addresses ?p = {}"
  proof -
    have "table_inv (q\<lparr>q_is_WQ := z\<rparr>) = table_inv q \<and> addresses (q\<lparr>q_is_WQ := z\<rparr>) = addresses q" for q z
      by (simp add: table_inv_def addresses_def used_def)
    then show "table_inv ?p" "addresses ?p = {}" using table_new [of nm "if w then m_WQ_SIZE k else m_RQ_SIZE k"] by simp_all
  qed
  have "queue_ok k NUM_CPUS w ch ?p"
    using tab(1) unfolding queue_ok_def
    by (auto simp: packet_queue_new_def entry_ok_def packet_new_def NUM_CPUS_def)
  then show "queue_ok k NUM_CPUS w ch ?q" using same_queue_inv(1) [OF sq] by simp
  show "banked ?q = {}" using ent by (auto simp: banked_def in_bank_def packet_new_def)
  show "fresh ?q"
    using ent size nx by (auto simp: fresh_def event_ok_def pending_def in_bank_def packet_new_def)
  show "addresses ?q = {}" using ent by (auto simp: addresses_def used_def packet_new_def)
qed

lemma mc_new_inv:
  assumes "config_ok k"
  shows "mc_inv k NUM_CPUS (mc_new k)"
proof -
  let ?mc = "mc_new k"
  have b: "bank_at ?mc key = bank_request_new" if "key_ok k key" for key
    using that by (auto simp: key_ok_def bank_at_def mc_new_eq Let_def split: prod.splits)
  have "banks_ok k ?mc"
    unfolding banks_ok_def using b
    by (auto simp: bank_request_new_def NUM_TYPES_def) (auto simp: mc_new_eq Let_def)
  then have dims: "dims_ok k ?mc"
    unfolding dims_ok_def by (auto simp: mc_new_eq Let_def sched_count_def list_all_length simp del: replicate_Suc)
  have "core_ok k NUM_CPUS ?mc w ch" if "ch < m_CHANNELS k" for w ch
    using mc_new_at [OF that, of w] that
    by (auto simp: core_ok_def link_def) (auto simp: mc_new_eq Let_def sched_count_def)
  then show ?thesis
    using assms dims mc_new_at(3) by (simp add: mc_inv_def mc_core_def)
qed

subsection \<open>Adding a request\<close>

lemma channel_less: "config_ok k \<Longrightarrow> unat (dram_get_channel k a) < m_CHANNELS k"
  by (simp add: config_ok_def dram_get_channel_def addr_field_less)

lemma stats_inv:
  assumes inv: "mc_inv k cpus mc" and "length x = NUM_TYPES" "length y = NUM_TYPES"
  shows "mc_inv k cpus (mc\<lparr>mc_ACCESS := x, mc_HIT := y\<rparr>)"
proof -
  let ?mc = "mc\<lparr>mc_ACCESS := x, mc_HIT := y\<rparr>"
  have f: "bank_at ?mc = bank_at mc" "sched_count ?mc = sched_count mc" "queue_at ?mc = queue_at mc"
    by (auto simp: bank_at_def sched_count_def queue_at_def fun_eq_iff)
  have core: "mc_core k cpus mc" using inv by (simp add: mc_inv_def)
  then have d: "dims_ok k mc" by (simp add: mc_core_def)
  have "dims_ok k ?mc" using d assms(2,3) f unfolding dims_ok_def banks_ok_def by simp
  from core_frame [OF core this] f inv show ?thesis by (simp add: mc_inv_def)
qed

lemma same_queue_mc_inv:
  assumes inv: "mc_inv k cpus mc" and ch: "ch < m_CHANNELS k" and sq: "same_queue (queue_at mc w ch) q"
    and nx: "q_next_schedule_cycle q = q_next_schedule_cycle (queue_at mc w ch)"
      "q_next_schedule_index q = q_next_schedule_index (queue_at mc w ch)"
      "q_next_process_cycle q = q_next_process_cycle (queue_at mc w ch)"
      "q_next_process_index q = q_next_process_index (queue_at mc w ch)"
  shows "mc_inv k cpus (put_queue mc w ch q)"
proof -
  have core: "mc_core k cpus mc" and dims: "dims_ok k mc" using inv by (simp_all add: mc_inv_def mc_core_def)
  note own = core_okD [OF core ch, of w]
  have "mc_core k cpus (put_queue mc w ch q)"
    using own(1) same_queue_inv [OF sq] sq by (intro core_put_queue [OF core ch]) (auto simp: same_queue_def)
  moreover have "fresh q"
    using mc_inv_fresh [OF inv ch, of w] sq nx by (simp add: fresh_def event_ok_def same_queue_def)
  ultimately show ?thesis
    using mc_inv_step [OF inv ch, of "put_queue mc w ch q" w] put_queue_at [OF dims ch] by auto
qed

lemma enqueue_count_inv:
  "mc_inv k cpus (mc\<lparr>mc_rq_enqueue_count := x\<rparr>) = mc_inv k cpus mc"
proof -
  let ?mc = "mc\<lparr>mc_rq_enqueue_count := x\<rparr>"
  have f: "bank_at ?mc = bank_at mc" "sched_count ?mc = sched_count mc" "queue_at ?mc = queue_at mc"
    by (auto simp: bank_at_def sched_count_def queue_at_def fun_eq_iff)
  have "dims_ok k ?mc = dims_ok k mc" using f unfolding dims_ok_def banks_ok_def by simp
  with f show ?thesis by (simp add: mc_inv_def mc_core_def core_ok_def link_def)
qed

lemma enqueue_count_at [simp]: "queue_at (mc\<lparr>mc_rq_enqueue_count := x\<rparr>) = queue_at mc"
  by (simp add: queue_at_def fun_eq_iff)

lemma stats_at [simp]: "queue_at (mc\<lparr>mc_ACCESS := x, mc_HIT := y\<rparr>) = queue_at mc"
  by (simp add: queue_at_def fun_eq_iff)

text \<open>What a request finds: a channel whose two queues obey the invariant.\<close>

lemma request_channel:
  assumes inv: "mc_inv k cpus mc" and p: "p_address p \<noteq> 0"
  defines "ch \<equiv> unat (dram_get_channel k (p_address p))"
  shows "ch < m_CHANNELS k" "get_queue mc w ch = Some (queue_at mc w ch)"
    "\<exists>i. check_dram_queue (queue_at mc w ch) p = Some i \<and> (i = - 1 \<longleftrightarrow> p_address p \<notin> addresses (queue_at mc w ch)) \<and>
      (i \<noteq> - 1 \<longrightarrow> nat i < length (q_entry (queue_at mc w ch)) \<and> p_address (q_entry (queue_at mc w ch) ! nat i) = p_address p)"
proof -
  have core: "mc_core k cpus mc" and dims: "dims_ok k mc" and cfg: "config_ok k" using inv by (simp_all add: mc_inv_def mc_core_def)
  show ch: "ch < m_CHANNELS k" using channel_less [OF cfg] by (simp add: ch_def)
  show "get_queue mc w ch = Some (queue_at mc w ch)" by (rule get_queue_eq [OF dims ch])
  have "table_inv (queue_at mc w ch)" using core_okD(1) [OF core ch, of w] by (simp add: queue_ok_def)
  from check_dram_queue_correct [OF this p] show
    "\<exists>i. check_dram_queue (queue_at mc w ch) p = Some i \<and> (i = - 1 \<longleftrightarrow> p_address p \<notin> addresses (queue_at mc w ch)) \<and>
      (i \<noteq> - 1 \<longrightarrow> nat i < length (q_entry (queue_at mc w ch)) \<and> p_address (q_entry (queue_at mc w ch) ! nat i) = p_address p)" .
qed

text \<open>
  A request settles its channel: a read or a write that comes to a channel that is settled, or
  that reads and has no read waiting, leaves it settled, and no other channel changes.
\<close>

definition dormant :: "memory_controller \<Rightarrow> nat \<Rightarrow> bool" where
  "dormant mc ch \<longleftrightarrow> mc_write_mode mc ! ch = 0 \<and> q_occupancy (queue_at mc False ch) = 0 \<and> 0 < q_size (queue_at mc True ch)"

definition settles :: "mc_config \<Rightarrow> nat \<Rightarrow> memory_controller \<Rightarrow> memory_controller \<Rightarrow> bool" where
  "settles k ch mc mc' \<longleftrightarrow> (settled mc ch \<or> dormant mc ch \<longrightarrow> settled mc' ch) \<and>
     (\<forall>c < m_CHANNELS k. c \<noteq> ch \<longrightarrow> settled mc' c = settled mc c)"

lemma settles_live: "settles k ch mc mc' \<Longrightarrow> live_mc k mc \<Longrightarrow> ch < m_CHANNELS k \<Longrightarrow> live_mc k mc'"
  by (auto simp: settles_def live_mc_def)

lemma settles_same:
  assumes "table_inv (queue_at mc w ch)" "a \<in> addresses (queue_at mc w ch)"
  shows "settles k ch mc mc"
  using occupancy_pos [OF assms] by (cases w) (auto simp: settles_def settled_def dormant_def)

lemma settles_cong:
  assumes s: "settles k ch mc mc1" and m: "mc_write_mode mc2 = mc_write_mode mc1"
    and q: "\<And>w c. c < m_CHANNELS k \<Longrightarrow> aimed (queue_at mc2 w c) = aimed (queue_at mc1 w c) \<and>
      q_occupancy (queue_at mc2 w c) = q_occupancy (queue_at mc1 w c)"
    and ch: "ch < m_CHANNELS k"
  shows "settles k ch mc mc2"
proof -
  have "settled mc2 c = settled mc1 c" if "c < m_CHANNELS k" for c using m q [OF that] by (simp add: settled_def)
  then show ?thesis using s ch by (simp add: settles_def)
qed

lemma settles_store:
  assumes dims: "dims_ok k mc" and ch: "ch < m_CHANNELS k"
    and a: "aimed (queue_at mc w ch) \<or> q_occupancy (queue_at mc w ch) = 0 \<longrightarrow> aimed q"
    and o: "0 < q_size (queue_at mc w ch) \<longrightarrow> 0 < q_occupancy q"
    and t: "table_inv (queue_at mc True ch)"
  shows "settles k ch mc (put_queue mc w ch q)"
proof -
  note at = put_queue_at [OF dims ch]
  have "0 < q_size (queue_at mc True ch)" if "0 < q_occupancy (queue_at mc True ch)"
  proof -
    have "0 < card (used (queue_at mc True ch))" using that occupancy_used [OF t] by (simp add: word_less_nat_alt)
    then have "0 < unat (q_size (queue_at mc True ch))" using card_used [of "queue_at mc True ch"] t by (simp add: table_inv_def)
    then show ?thesis by (simp add: word_less_nat_alt)
  qed
  then have "settled (put_queue mc w ch q) ch" if "settled mc ch \<or> dormant mc ch"
    using that a o by (cases w; cases "mc_write_mode mc ! ch = 0") (auto simp: settled_def dormant_def at)
  moreover have "settled (put_queue mc w ch q) c = settled mc c" if "c \<noteq> ch" for c
    by (rule settled_cong) (use at that in auto)
  ultimately show ?thesis by (simp add: settles_def)
qed

lemma dram_add_wq_total:
  assumes inv: "mc_inv k cpus mc" and p: "request_ok cpus p" and warm: "NUM_CPUS \<le> unat (g_all_warmup_complete g)"
  defines "ch \<equiv> unat (dram_get_channel k (p_address p))"
  shows "\<exists>mc' r. dram_add_wq k g mc p = Some (mc', r) \<and> mc_inv k cpus mc' \<and>
    (\<forall>v c. c < m_CHANNELS k \<longrightarrow> \<not> (v \<and> c = ch) \<longrightarrow> queue_at mc' v c = queue_at mc v c) \<and>
    (r \<noteq> - 1 \<longleftrightarrow> p_address p \<in> addresses (queue_at mc True ch)) \<and> (r \<noteq> - 1 \<longrightarrow> mc' = mc) \<and>
    addresses (queue_at mc' True ch) =
      (if r = - 1 \<and> q_occupancy (queue_at mc True ch) < q_size (queue_at mc True ch)
       then insert (p_address p) (addresses (queue_at mc True ch)) else addresses (queue_at mc True ch)) \<and>
    settles k ch mc mc'"
proof -
  have a: "p_address p \<noteq> 0" using p by (simp add: request_ok_def)
  note rc = request_channel [OF inv a, folded ch_def]
  let ?q = "queue_at mc True ch"
  have dims: "dims_ok k mc" using inv by (simp add: mc_inv_def mc_core_def)
  have tab: "table_inv ?q"
    using core_okD(1) [OF _ rc(1), of cpus mc True] inv by (simp add: mc_inv_def queue_ok_def)
  obtain i where i: "check_dram_queue ?q p = Some i" "i = - 1 \<longleftrightarrow> p_address p \<notin> addresses ?q" using rc(3) by blast
  show ?thesis
  proof (cases "i = - 1")
    case False
    then have "dram_add_wq k g mc p = Some (mc, i)"
      using warm rc(2) i(1) by (simp add: dram_add_wq_def Let_def ch_def [symmetric])
    then show ?thesis using inv i(2) False settles_same [OF tab, of "p_address p" k] by auto
  next
    case True
    have pch: "fst (bank_key k (p_address p)) = ch" by (simp add: bank_key_def ch_def)
    have new: "p_address p \<notin> addresses (queue_at mc True ch)" using i(2) True by simp
    obtain q1 q2 added where s: "store_packet ?q (m_WQ_SIZE k) p = Some (q1, added)" "update_schedule_cycle q1 = Some q2"
      "mc_inv k cpus (put_queue mc True ch q2)" "added = (q_occupancy ?q < q_size ?q)"
      "addresses q2 = (if added then insert (p_address p) (addresses ?q) else addresses ?q)"
      "aimed ?q \<or> q_occupancy ?q = 0 \<longrightarrow> aimed q2" "0 < q_size ?q \<longrightarrow> 0 < q_occupancy q2"
      using store_packet_total [OF inv rc(1) p pch new, of "m_WQ_SIZE k"] by auto
    have eq: "dram_add_wq k g mc p = Some (put_queue mc True ch q2, - 1)"
      using warm rc(2) i(1) True s(1,2) by (simp add: dram_add_wq_def Let_def ch_def [symmetric])
    show ?thesis
      using s(3-5) put_queue_at [OF dims rc(1)] new settles_store [OF dims rc(1) s(6,7) tab]
      by (intro exI [of _ "put_queue mc True ch q2"] exI [of _ "- 1"] conjI eq) auto
  qed
qed

lemma forward_inv:
  fixes f a :: u64
  assumes inv: "mc_inv k cpus mc" and ch: "ch < m_CHANNELS k" and x: "length x = NUM_TYPES" "length y = NUM_TYPES"
  defines "mc' \<equiv> put_queue (put_queue (mc\<lparr>mc_ACCESS := x, mc_HIT := y\<rparr>) True ch ((queue_at mc True ch)\<lparr>q_FORWARD := f\<rparr>))
      False ch ((queue_at mc False ch)\<lparr>q_ACCESS := a\<rparr>)"
  shows "mc_inv k cpus mc'" "same_requests k mc mc'"
    "mc_write_mode mc' = mc_write_mode mc \<and> (\<forall>w c. aimed (queue_at mc' w c) = aimed (queue_at mc w c) \<and>
      q_occupancy (queue_at mc' w c) = q_occupancy (queue_at mc w c))"
proof -
  let ?m1 = "mc\<lparr>mc_ACCESS := x, mc_HIT := y\<rparr>"
  note i1 = stats_inv [OF inv x]
  have d1: "dims_ok k ?m1" using i1 by (simp add: mc_inv_def mc_core_def)
  let ?m2 = "put_queue ?m1 True ch ((queue_at mc True ch)\<lparr>q_FORWARD := f\<rparr>)"
  have i2: "mc_inv k cpus ?m2"
    by (rule same_queue_mc_inv [OF i1 ch]) (simp_all add: same_queue_def)
  have d2: "dims_ok k ?m2" using i2 by (simp add: mc_inv_def mc_core_def)
  have q2: "queue_at ?m2 False ch = queue_at mc False ch" using put_queue_at [OF d1 ch] by simp
  show "mc_inv k cpus mc'" unfolding mc'_def
    by (rule same_queue_mc_inv [OF i2 ch]) (simp_all add: same_queue_def q2)
  show "same_requests k mc mc'"
    unfolding mc'_def same_requests_def
    using put_queue_at [OF d1 ch] put_queue_at [OF d2 ch] by (auto simp: addresses_def used_def)
  show "mc_write_mode mc' = mc_write_mode mc \<and> (\<forall>w c. aimed (queue_at mc' w c) = aimed (queue_at mc w c) \<and>
      q_occupancy (queue_at mc' w c) = q_occupancy (queue_at mc w c))"
    unfolding mc'_def using put_queue_at [OF d1 ch] put_queue_at [OF d2 ch] by (auto simp: aimed_def)
qed

lemma dram_add_rq_total:
  assumes inv: "mc_inv k cpus mc" and p: "request_ok cpus p" and warm: "NUM_CPUS \<le> unat (g_all_warmup_complete g)"
  defines "ch \<equiv> unat (dram_get_channel k (p_address p))"
  shows "\<exists>mc' rs p' r. dram_add_rq k g mc p = Some (mc', rs, p', r) \<and> mc_inv k cpus mc' \<and>
    (if p_address p \<in> addresses (queue_at mc True ch)
     then rs = [p'] \<and> r = - 1 \<and> same_requests k mc mc' \<and>
       (\<exists>i \<in> used (queue_at mc True ch). p_address (q_entry (queue_at mc True ch) ! i) = p_address p \<and>
         p' = p\<lparr>p_data := p_data (q_entry (queue_at mc True ch) ! i)\<rparr>)
     else if p_address p \<in> addresses (queue_at mc False ch) then rs = [] \<and> p' = p \<and> r \<noteq> - 1 \<and> mc' = mc
     else rs = [] \<and> p' = p \<and> r = - 1 \<and>
       reads k mc' = (if q_occupancy (queue_at mc False ch) < q_size (queue_at mc False ch)
         then insert (p_address p) (reads k mc) else reads k mc)) \<and>
    settles k ch mc mc'"
proof -
  have a: "p_address p \<noteq> 0" using p by (simp add: request_ok_def)
  note rc = request_channel [OF inv a, folded ch_def]
  let ?w = "queue_at mc True ch" and ?q = "queue_at mc False ch"
  have dims: "dims_ok k mc" using inv by (simp add: mc_inv_def mc_core_def)
  have tab: "table_inv (queue_at mc w ch)" for w
    using core_okD(1) [OF _ rc(1), of cpus mc w] inv by (simp add: mc_inv_def queue_ok_def)
  obtain j where j: "check_dram_queue ?w p = Some j" "j = - 1 \<longleftrightarrow> p_address p \<notin> addresses ?w"
    "j \<noteq> - 1 \<longrightarrow> nat j < length (q_entry ?w) \<and> p_address (q_entry ?w ! nat j) = p_address p" using rc(3) by blast
  obtain i where i: "check_dram_queue ?q p = Some i" "i = - 1 \<longleftrightarrow> p_address p \<notin> addresses ?q" using rc(3) by blast
  note start = rc(2) warm j(1) i(1)
  consider "j \<noteq> - 1" | "j = - 1" "i \<noteq> - 1" | "j = - 1" "i = - 1" by blast
  then show ?thesis
  proof cases
    case 1
    have len: "length (mc_ACCESS mc) = NUM_TYPES" "length (mc_HIT mc) = NUM_TYPES" using dims by (simp_all add: dims_ok_def)
    have "\<exists>x. bump (mc_ACCESS mc) 1 = Some x \<and> length x = NUM_TYPES" "\<exists>x. bump (mc_HIT mc) 1 = Some x \<and> length x = NUM_TYPES"
      using len by (simp_all add: bump_def NUM_TYPES_def)
    then obtain x y where xy: "bump (mc_ACCESS mc) 1 = Some x" "length x = NUM_TYPES"
      "bump (mc_HIT mc) 1 = Some y" "length y = NUM_TYPES" by blast
    let ?p = "p\<lparr>p_data := p_data (q_entry ?w ! nat j)\<rparr>"
    note f = forward_inv [OF inv rc(1) xy(2,4), of "q_FORWARD ?w + 1" "q_ACCESS ?q + 1"]
    let ?mc = "put_queue (put_queue (mc\<lparr>mc_ACCESS := x, mc_HIT := y\<rparr>) True ch (?w\<lparr>q_FORWARD := q_FORWARD ?w + 1\<rparr>))
      False ch (?q\<lparr>q_ACCESS := q_ACCESS ?q + 1\<rparr>)"
    have eq: "dram_add_rq k g mc p = Some (?mc, [?p], ?p, - 1)"
      using start 1 j(3) xy(1,3) by (simp add: dram_add_rq_def Let_def ch_def [symmetric])
    have "nat j \<in> used ?w" using j(3) 1 a by (simp add: used_def)
    moreover have "settles k ch mc ?mc"
    proof (rule settles_cong [OF settles_same [OF tab]])
      show "p_address p \<in> addresses ?w" using 1 j(2) by simp
    qed (use f(3) rc(1) in auto)
    ultimately show ?thesis using eq f(1,2) 1 j(2,3)
      by (intro exI [of _ ?mc] exI [of _ "[?p]"] exI [of _ ?p] exI [of _ "- 1"]) auto
  next
    case 2
    then have "dram_add_rq k g mc p = Some (mc, [], p, i)"
      using start by (simp add: dram_add_rq_def Let_def ch_def [symmetric])
    then show ?thesis using inv i(2) j(2) 2 settles_same [OF tab [of False], of "p_address p" k] by auto
  next
    case 3
    have pch: "fst (bank_key k (p_address p)) = ch" by (simp add: bank_key_def ch_def)
    have new: "p_address p \<notin> addresses (queue_at mc False ch)" using i(2) 3 by simp
    obtain q1 q2 added where s: "store_packet ?q (m_RQ_SIZE k) p = Some (q1, added)" "update_schedule_cycle q1 = Some q2"
      "mc_inv k cpus (put_queue mc False ch q2)" "added = (q_occupancy ?q < q_size ?q)"
      "addresses q2 = (if added then insert (p_address p) (addresses ?q) else addresses ?q)"
      "aimed ?q \<or> q_occupancy ?q = 0 \<longrightarrow> aimed q2" "0 < q_size ?q \<longrightarrow> 0 < q_occupancy q2"
      using store_packet_total [OF inv rc(1) p pch new, of "m_RQ_SIZE k"] by auto
    let ?mc = "(put_queue mc False ch q2)\<lparr>mc_rq_enqueue_count := mc_rq_enqueue_count mc + (if added then 1 else 0)\<rparr>"
    have eq: "dram_add_rq k g mc p = Some (?mc, [], p, - 1)"
      using start 3 s(1,2) by (simp add: dram_add_rq_def Let_def ch_def [symmetric])
    have at: "addresses (queue_at ?mc False c) = (if c = ch \<and> added then insert (p_address p) (addresses (queue_at mc False c))
        else addresses (queue_at mc False c))" for c
      using put_queue_at [OF dims rc(1), of False q2 False c] s(5) by simp
    have rd: "reads k ?mc = (if added then insert (p_address p) (reads k mc) else reads k mc)"
      using rc(1) unfolding reads_def at by (auto split: if_splits)
    have iv: "mc_inv k cpus ?mc" using s(3) by (simp add: enqueue_count_inv)
    have "p_address p \<notin> addresses ?w" using 3 j(2) by simp
    moreover have "settles k ch mc ?mc"
      by (rule settles_cong [OF settles_store [OF dims rc(1) s(6,7) tab] _ _ rc(1)]) simp_all
    ultimately show ?thesis using eq iv rd new s(4)
      by (intro exI [of _ ?mc] exI [of _ "[]"] exI [of _ p] exI [of _ "- 1"]) simp
  qed
qed

section \<open>The memory contract\<close>

text \<open>
  A memory behind a controller, as the last-level cache uses it: reads and writes are
  requested, cycles pass, and every operation keeps the invariant.  \<open>waiting\<close> are the reads
  that were accepted and not yet returned.
\<close>

datatype mc_op = Read packet | Write packet | Cycle

fun mc_exec :: "mc_config \<Rightarrow> globals \<Rightarrow> memory_controller \<Rightarrow> mc_op \<Rightarrow> (memory_controller \<times> packet list) option" where
  "mc_exec k g mc (Read p) = do { (mc', rs, p', r) \<leftarrow> dram_add_rq k g mc p; Some (mc', rs) }"
| "mc_exec k g mc (Write p) = do { (mc', r) \<leftarrow> dram_add_wq k g mc p; Some (mc', []) }"
| "mc_exec k g mc Cycle = dram_operate k g mc"

definition mc_step :: "mc_config \<Rightarrow> memory_controller \<Rightarrow> globals \<times> mc_op \<Rightarrow> (memory_controller \<times> packet list) option" where
  "mc_step k mc x = mc_exec k (fst x) mc (snd x)"

text \<open>A run: operations in sequence, with the clocks they see.\<close>

fun run_ops :: "('m \<Rightarrow> 'o \<Rightarrow> ('m \<times> packet list) option) \<Rightarrow> 'm \<Rightarrow> 'o list \<Rightarrow> ('m \<times> packet list) option" where
  "run_ops exec m [] = Some (m, [])"
| "run_ops exec m (x # xs) = do { (m1, rs) \<leftarrow> exec m x; (m2, rs') \<leftarrow> run_ops exec m1 xs; Some (m2, rs @ rs') }"

fun op_ok :: "globals \<times> mc_op \<Rightarrow> bool" where
  "op_ok (g, x) \<longleftrightarrow> clock_ok NUM_CPUS g \<and> NUM_CPUS \<le> unat (g_all_warmup_complete g) \<and>
     (case x of Read p \<Rightarrow> request_ok NUM_CPUS p | Write p \<Rightarrow> request_ok NUM_CPUS p | Cycle \<Rightarrow> True)"

fun read_address :: "globals \<times> mc_op \<Rightarrow> u64 set" where
  "read_address (g, Read p) = {p_address p}"
| "read_address (g, x) = {}"

lemma answers_step:
  assumes "R1 \<subseteq> W \<union> A" "W1 \<subseteq> W \<union> A" "W \<subseteq> W1 \<union> R1" "R2 \<subseteq> W1 \<union> B" "W1 \<subseteq> W2 \<union> R2"
  shows "R1 \<union> R2 \<subseteq> W \<union> (A \<union> B) \<and> W \<subseteq> W2 \<union> (R1 \<union> R2)"
  using assms by blast

locale memory =
  fixes exec :: "'m \<Rightarrow> 'o \<Rightarrow> ('m \<times> packet list) option" and inv :: "'m \<Rightarrow> bool" and waiting :: "'m \<Rightarrow> u64 set"
    and ok :: "'o \<Rightarrow> bool" and asks :: "'o \<Rightarrow> u64 set"
  assumes exec_total: "inv m \<Longrightarrow> ok x \<Longrightarrow> \<exists>m' rs. exec m x = Some (m', rs) \<and> inv m'"
    and exec_answers: "inv m \<Longrightarrow> ok x \<Longrightarrow> exec m x = Some (m', rs) \<Longrightarrow>
      p_address ` set rs \<subseteq> waiting m \<union> asks x \<and> waiting m' \<subseteq> waiting m \<union> asks x \<and> waiting m \<subseteq> waiting m' \<union> p_address ` set rs"
begin

lemma run_total: "inv m \<Longrightarrow> list_all ok xs \<Longrightarrow> \<exists>m' rs. run_ops exec m xs = Some (m', rs) \<and> inv m'"
proof (induction xs arbitrary: m)
  case (Cons x xs)
  then have x: "ok x" and xs: "list_all ok xs" by simp_all
  obtain m1 rs where m1: "exec m x = Some (m1, rs)" "inv m1" using exec_total [OF Cons.prems(1) x] by blast
  show ?case using Cons.IH [OF m1(2) xs] m1(1) by auto
qed simp

lemma run_answers:
  assumes "inv m" "list_all ok xs" "run_ops exec m xs = Some (m', rs)"
  shows "p_address ` set rs \<subseteq> waiting m \<union> \<Union> (asks ` set xs)" "waiting m \<subseteq> waiting m' \<union> p_address ` set rs"
proof -
  from assms have "p_address ` set rs \<subseteq> waiting m \<union> \<Union> (asks ` set xs) \<and> waiting m \<subseteq> waiting m' \<union> p_address ` set rs"
  proof (induction xs arbitrary: m rs)
    case (Cons x xs)
    have x: "ok x" and xs: "list_all ok xs" using Cons.prems(2) by simp_all
    obtain m1 rs1 where m1: "exec m x = Some (m1, rs1)" "inv m1" using exec_total [OF Cons.prems(1) x] by blast
    obtain rs2 where m2: "run_ops exec m1 xs = Some (m', rs2)" "rs = rs1 @ rs2"
      using Cons.prems(3) m1(1) by (cases "run_ops exec m1 xs") auto
    have "p_address ` set rs = p_address ` set rs1 \<union> p_address ` set rs2" using m2(2) by auto
    moreover have "\<Union> (asks ` set (x # xs)) = asks x \<union> \<Union> (asks ` set xs)" by simp
    moreover note answers_step [of "p_address ` set rs1" "waiting m" "asks x" "waiting m1" "p_address ` set rs2"
      "\<Union> (asks ` set xs)" "waiting m'"] exec_answers [OF Cons.prems(1) x m1(1)] Cons.IH [OF m1(2) xs m2(1)]
    ultimately show ?case by simp
  qed simp
  then show "p_address ` set rs \<subseteq> waiting m \<union> \<Union> (asks ` set xs)" "waiting m \<subseteq> waiting m' \<union> p_address ` set rs" by simp_all
qed

end

lemma mc_step_total:
  assumes "mc_inv k NUM_CPUS mc" "op_ok x" and live: "snd x = Cycle \<Longrightarrow> live_mc k mc"
  shows "\<exists>mc' rs. mc_step k mc x = Some (mc', rs) \<and> mc_inv k NUM_CPUS mc' \<and>
    p_address ` set rs \<subseteq> reads k mc \<union> read_address x \<and> reads k mc' \<subseteq> reads k mc \<union> read_address x \<and>
    reads k mc \<subseteq> reads k mc' \<union> p_address ` set rs \<and> (live_mc k mc \<longrightarrow> live_mc k mc') \<and>
    (snd x \<noteq> Cycle \<longrightarrow> (\<exists>ch < m_CHANNELS k. settles k ch mc mc'))"
proof -
  obtain g y where x: "x = (g, y)" by (cases x)
  have chan: "unat (dram_get_channel k a) < m_CHANNELS k" for a
    using assms(1) by (simp add: mc_inv_def mc_core_def channel_less)
  have g: "clock_ok NUM_CPUS g" "NUM_CPUS \<le> unat (g_all_warmup_complete g)" using assms(2) x by simp_all
  show ?thesis
  proof (cases y)
    case (Read p)
    then have p: "request_ok NUM_CPUS p" using assms(2) x by simp
    let ?ch = "unat (dram_get_channel k (p_address p))"
    obtain mc' rs p' r where d: "dram_add_rq k g mc p = Some (mc', rs, p', r)" "mc_inv k NUM_CPUS mc'"
      "if p_address p \<in> addresses (queue_at mc True ?ch)
       then rs = [p'] \<and> r = - 1 \<and> same_requests k mc mc' \<and>
         (\<exists>i \<in> used (queue_at mc True ?ch). p_address (q_entry (queue_at mc True ?ch) ! i) = p_address p \<and>
           p' = p\<lparr>p_data := p_data (q_entry (queue_at mc True ?ch) ! i)\<rparr>)
       else if p_address p \<in> addresses (queue_at mc False ?ch) then rs = [] \<and> p' = p \<and> r \<noteq> - 1 \<and> mc' = mc
       else rs = [] \<and> p' = p \<and> r = - 1 \<and>
         reads k mc' = (if q_occupancy (queue_at mc False ?ch) < q_size (queue_at mc False ?ch)
           then insert (p_address p) (reads k mc) else reads k mc)"
      "settles k ?ch mc mc'"
      using dram_add_rq_total [OF assms(1) p g(2)] by blast
    have step: "mc_step k mc x = Some (mc', rs)" using d(1) x Read by (simp add: mc_step_def)
    have ra: "read_address x = {p_address p}" using x Read by simp
    consider "p_address p \<in> addresses (queue_at mc True ?ch)" | "rs = []" "mc' = mc"
      | "rs = []" "reads k mc' = insert (p_address p) (reads k mc)" | "rs = []" "reads k mc' = reads k mc"
      using d(3) by (auto split: if_splits)
    then have "p_address ` set rs \<subseteq> reads k mc \<union> read_address x \<and> reads k mc' \<subseteq> reads k mc \<union> read_address x \<and>
      reads k mc \<subseteq> reads k mc' \<union> p_address ` set rs"
    proof cases
      case 1
      then have f: "rs = [p']" "same_requests k mc mc'" "p_address p' = p_address p" using d(3) by auto
      have "reads k mc' = reads k mc" using f(2) by (simp add: same_requests_def reads_def)
      then show ?thesis using f ra by auto
    qed (use ra in auto)
    with step d(2,4) settles_live [OF d(4) _ chan] chan [of "p_address p"] show ?thesis by blast
  next
    case (Write p)
    then have p: "request_ok NUM_CPUS p" using assms(2) x by simp
    let ?ch = "unat (dram_get_channel k (p_address p))"
    obtain mc' r where d: "dram_add_wq k g mc p = Some (mc', r)" "mc_inv k NUM_CPUS mc'"
      "\<forall>v c. c < m_CHANNELS k \<longrightarrow> \<not> (v \<and> c = ?ch) \<longrightarrow> queue_at mc' v c = queue_at mc v c"
      "settles k ?ch mc mc'"
      using dram_add_wq_total [OF assms(1) p g(2)] by blast
    have "reads k mc' = reads k mc" using d(3) by (simp add: reads_def)
    then show ?thesis using d(1,2,4) x Write settles_live [OF d(4) _ chan] chan [of "p_address p"] by (auto simp: mc_step_def)
  next
    case Cycle
    have le: "0 + m_CHANNELS k \<le> m_CHANNELS k" by simp
    have "live_mc k mc" using live x Cycle by simp
    from operate_channels_total [OF assms(1) le g(1) this]
    obtain mc' rs where d: "dram_operate k g mc = Some (mc', rs)" "mc_inv k NUM_CPUS mc'" "serves k mc mc' rs" "live_mc k mc'"
      by (auto simp: dram_operate_def)
    have "mc_step k mc x = Some (mc', rs)" "read_address x = {}" using d(1) x Cycle by (simp_all add: mc_step_def)
    then show ?thesis using d(2-4) x Cycle by (auto simp: serves_def)
  qed
qed

interpretation mem: memory "mc_step k" "\<lambda>mc. mc_inv k NUM_CPUS mc \<and> live_mc k mc" "reads k" op_ok read_address for k
proof (unfold_locales, goal_cases)
  case (1 m x)
  from 1(1) have "mc_inv k NUM_CPUS m" and l: "live_mc k m" by simp_all
  from mc_step_total [OF this(1) 1(2) l] show ?case using l by (elim exE conjE) (intro exI conjI; simp)
next
  case (2 m x m' rs)
  from 2(1) have "mc_inv k NUM_CPUS m" and l: "live_mc k m" by simp_all
  from mc_step_total [OF this(1) 2(2) l] 2(3) show ?case by (elim exE conjE) simp
qed

lemma mc_new_reads: "reads k (mc_new k) = {}"
  by (auto simp: reads_def mc_new_at)

lemma mc_new_dormant:
  assumes "ch < m_CHANNELS k" "0 < m_WQ_SIZE k"
  shows "dormant (mc_new k) ch"
  using assms by (simp add: dormant_def queue_at_def mc_new_eq Let_def packet_queue_new_def)

section \<open>Properties\<close>

text \<open>Whether a run begins with a cycle: the fresh controller is then operated before it holds a request.\<close>

fun cycle_first :: "(globals \<times> mc_op) list \<Rightarrow> bool" where
  "cycle_first ((g, Cycle) # xs) = True"
| "cycle_first xs = False"

lemma fresh_operate_fails:
  assumes "length (g_current_core_cycle g) = NUM_CPUS"
  shows "dram_operate (dram_config r) g (mc_new (dram_config r)) = None"
proof -
  let ?k = "dram_config r"
  let ?mc = "mc_new ?k"
  have inv: "mc_inv ?k NUM_CPUS ?mc" by (rule mc_new_inv) (simp add: config_ok_def dram_config_def)
  then have dims: "dims_ok ?k ?mc" by (simp add: mc_inv_def mc_core_def)
  have ch: "0 < m_CHANNELS ?k" by (simp add: dram_config_def)
  note at = mc_new_at [OF ch]
  have q: "q_next_schedule_index (queue_at ?mc False 0) = 0" "q_size (queue_at ?mc False 0) = 64"
    "q_occupancy (queue_at ?mc False 0) = 0" "q_occupancy (queue_at ?mc True 0) = 0" "mc_write_mode ?mc ! 0 = 0"
    "length (mc_write_mode ?mc) = 1" "m_WRITE_HIGH_WM ?k = 56"
    by (simp_all add: queue_at_def mc_new_eq Let_def packet_queue_new_def dram_config_def)
  have sel: "select_mode ?k g 0 ?mc = Some ?mc"
    using get_queue_eq [OF dims ch] q by (simp add: select_mode_def)
  have e: "arr_get (q_entry (queue_at ?mc False 0)) 0 = Some packet_new"
    using at(1) [of False] by (simp add: dram_config_def)
  have "core_cycle g (p_cpu packet_new) = None"
    using assms by (simp add: core_cycle_def packet_new_def NUM_CPUS_def arr_get_def)
  then have "serve_schedule ?k g False 0 ?mc = None"
    using get_queue_eq [OF dims ch] q e by (simp add: serve_schedule_def)
  then have "operate_channel ?k g 0 ?mc = None"
    using sel q by (simp add: operate_channel_def)
  then show ?thesis by (simp add: dram_operate_def dram_config_def)
qed

lemma first_request_settles:
  fixes r :: u32
  defines "k \<equiv> dram_config r"
  assumes "op_ok x" "snd x \<noteq> Cycle"
  shows "\<exists>mc rs. mc_step k (mc_new k) x = Some (mc, rs) \<and> mc_inv k NUM_CPUS mc \<and> live_mc k mc \<and>
    p_address ` set rs \<subseteq> read_address x \<and> reads k mc \<subseteq> read_address x"
proof -
  have cfg: "config_ok k" "m_CHANNELS k = 1" "0 < m_WQ_SIZE k" by (simp_all add: k_def config_ok_def dram_config_def)
  obtain mc rs ch where s: "mc_step k (mc_new k) x = Some (mc, rs)" "mc_inv k NUM_CPUS mc"
    "p_address ` set rs \<subseteq> reads k (mc_new k) \<union> read_address x" "reads k mc \<subseteq> reads k (mc_new k) \<union> read_address x"
    "ch < m_CHANNELS k" "settles k ch (mc_new k) mc"
    using mc_step_total [OF mc_new_inv [OF cfg(1)] assms(2)] assms(3) by blast
  have "settled mc ch" using s(6) mc_new_dormant [OF s(5) cfg(3)] by (simp add: settles_def)
  then have "live_mc k mc" using s(5) cfg(2) by (simp add: live_mc_def)
  with s show ?thesis by (simp add: mc_new_reads)
qed

text \<open>
  C1. When the DRAM controller runs safely: from the constructor, a sequence of valid reads,
  writes and cycles after the warmup, under any clocks of the cores, fails when it begins with a
  cycle (the fresh controller looks up the clock of a core that does not exist) and in no other
  case.  Every run in which a request comes before the first cycle goes through without a failing
  assertion and without an access outside an array; the state stays well formed (tables without
  duplicates, every scheduled request owning its bank, the counts of scheduled requests exact),
  and only reads that were asked are answered.
\<close>

theorem memory_controller_safe:
  assumes "list_all op_ok xs"
  shows "if cycle_first xs then run_ops (mc_step (dram_config r)) (mc_new (dram_config r)) xs = None
    else \<exists>mc rs. run_ops (mc_step (dram_config r)) (mc_new (dram_config r)) xs = Some (mc, rs) \<and>
      mc_inv (dram_config r) NUM_CPUS mc \<and> p_address ` set rs \<subseteq> \<Union> (read_address ` set xs)"
proof (cases xs)
  case Nil
  then show ?thesis using mc_new_inv [of "dram_config r"] by (simp add: config_ok_def dram_config_def)
next
  case (Cons x ys)
  have x: "op_ok x" and ys: "list_all op_ok ys" using assms Cons by simp_all
  show ?thesis
  proof (cases "snd x = Cycle")
    case True
    then obtain g where g: "x = (g, Cycle)" by (cases x) simp
    then show ?thesis
      using x Cons fresh_operate_fails [of g r] by (simp add: mc_step_def clock_ok_def)
  next
    case False
    obtain m1 rs1 where m1: "mc_step (dram_config r) (mc_new (dram_config r)) x = Some (m1, rs1)"
      and inv: "mc_inv (dram_config r) NUM_CPUS m1 \<and> live_mc (dram_config r) m1"
      and a: "p_address ` set rs1 \<subseteq> read_address x" "reads (dram_config r) m1 \<subseteq> read_address x"
      using first_request_settles [OF x False, of r] by blast
    obtain m2 rs2 where m2: "run_ops (mc_step (dram_config r)) m1 ys = Some (m2, rs2)" "mc_inv (dram_config r) NUM_CPUS m2"
      using mem.run_total [OF inv ys] by blast
    have "\<not> cycle_first xs" using False Cons by (cases x) (auto elim: cycle_first.elims)
    moreover have "p_address ` set (rs1 @ rs2) \<subseteq> \<Union> (read_address ` set xs)"
      using mem.run_answers(1) [OF inv ys m2(1)] a Cons by auto
    ultimately show ?thesis using m1 m2 Cons by simp
  qed
qed

definition demo_clock :: globals where
  "demo_clock = demo_globals\<lparr>g_current_core_cycle := [100]\<rparr>"

definition demo_read :: packet where
  "demo_read = packet_new\<lparr>p_address := 5, p_cpu := 0\<rparr>"

lemma demo_op_ok: "op_ok (demo_clock, Read demo_read)" "op_ok (demo_clock, Cycle)" "config_ok (dram_config 10)"
  by (simp_all add: clock_ok_def demo_clock_def demo_globals_def request_ok_def demo_read_def NUM_CPUS_def
    packet_new_def NUM_TYPES_def config_ok_def dram_config_def)

lemma memory_controller_safe_witness:
  "\<exists>mc rs. run_ops (mc_step (dram_config 10)) (mc_new (dram_config 10)) [(demo_clock, Read demo_read), (demo_clock, Cycle)] =
     Some (mc, rs) \<and> p_address ` set rs \<subseteq> {5}"
proof -
  have "\<Union> (read_address ` set [(demo_clock, Read demo_read), (demo_clock, Cycle)]) = {5}" by (simp add: demo_read_def)
  with memory_controller_safe [of "[(demo_clock, Read demo_read), (demo_clock, Cycle)]" 10] demo_op_ok
  show ?thesis by auto
qed

lemma demo_settled:
  "\<exists>mc rs. mc_step (dram_config 10) (mc_new (dram_config 10)) (demo_clock, Read demo_read) = Some (mc, rs) \<and>
     mc_inv (dram_config 10) NUM_CPUS mc \<and> live_mc (dram_config 10) mc"
  using first_request_settles [OF demo_op_ok(1), of 10] by auto

text \<open>
  C11. A cycle loses no read: in any well-formed state whose channels are settled (the queue to
  be served does not point to a free entry, as after the first request: C1) \<open>operate\<close> succeeds,
  the state stays well formed and settled, and the reads that waited before are exactly those
  that still wait and those whose packets are handed to the upper level; no other packet is
  handed up.
\<close>

theorem operate_serves_reads:
  assumes "mc_inv k cpus mc" and "live_mc k mc" and "clock_ok cpus g"
  shows "\<exists>mc' rs. dram_operate k g mc = Some (mc', rs) \<and> mc_inv k cpus mc' \<and> live_mc k mc' \<and>
    reads k mc' = reads k mc - p_address ` set rs \<and> p_address ` set rs \<subseteq> reads k mc"
  using operate_channels_total [OF assms(1) _ assms(3,2), of 0 "m_CHANNELS k"]
  by (auto simp: dram_operate_def serves_def)

lemma operate_serves_reads_witness:
  "\<exists>mc0 mc rs. dram_operate (dram_config 10) demo_clock mc0 = Some (mc, rs) \<and>
     mc_inv (dram_config 10) NUM_CPUS mc0 \<and> live_mc (dram_config 10) mc0 \<and> live_mc (dram_config 10) mc"
proof -
  obtain mc0 where "mc_inv (dram_config 10) NUM_CPUS mc0" "live_mc (dram_config 10) mc0" using demo_settled by blast
  with operate_serves_reads [OF this, of demo_clock] demo_op_ok(2) show ?thesis by auto
qed


text \<open>
  C12. The order of service is first-ready, first-come-first-served: \<open>find_oldest\<close> returns the
  oldest request whose bank is idle and has its row open; when there is none, the oldest request
  whose bank is idle; and \<open>-1\<close> only when no bank of a waiting request is idle.  Among equally old
  requests the first entry is taken.
\<close>

definition oldest_of :: "(packet \<Rightarrow> bool) \<Rightarrow> packet_queue \<Rightarrow> nat \<Rightarrow> bool" where
  "oldest_of P q i \<longleftrightarrow> i < length (q_entry q) \<and> P (q_entry q ! i) \<and>
     (\<forall>j < length (q_entry q). P (q_entry q ! j) \<longrightarrow> p_event_cycle (q_entry q ! i) \<le> p_event_cycle (q_entry q ! j) \<and>
       (j < i \<longrightarrow> p_event_cycle (q_entry q ! i) < p_event_cycle (q_entry q ! j)))"

definition none_before_max :: "(packet \<Rightarrow> bool) \<Rightarrow> packet_queue \<Rightarrow> bool" where
  "none_before_max P q \<longleftrightarrow> (\<forall>j < length (q_entry q). P (q_entry q ! j) \<longrightarrow> p_event_cycle (q_entry q ! j) = - 1)"

lemma earliest_oldest:
  assumes "earliest int P (q_entry q) (length (q_entry q)) (- 1, - 1) (c, i)"
  shows "if i = - 1 then none_before_max P q else 0 \<le> i \<and> oldest_of P q (nat i)"
proof (cases "i = - 1")
  case True
  then have "\<forall>j < length (q_entry q). P (q_entry q ! j) \<longrightarrow> - 1 \<le> p_event_cycle (q_entry q ! j)"
    using assms by (auto simp: earliest_def)
  then show ?thesis using True word_order.extremum_uniqueI by (auto simp: none_before_max_def)
next
  case False
  then obtain j where j: "j < length (q_entry q)" "i = int j" "P (q_entry q ! j)"
     "\<forall>l < length (q_entry q). P (q_entry q ! l) \<longrightarrow> p_event_cycle (q_entry q ! j) \<le> p_event_cycle (q_entry q ! l)"
     "\<forall>l < j. P (q_entry q ! l) \<longrightarrow> p_event_cycle (q_entry q ! j) < p_event_cycle (q_entry q ! l)"
    using assms by (auto simp: earliest_def)
  then show ?thesis by (simp add: oldest_of_def)
qed

theorem find_oldest_fr_fcfs:
  fixes w :: bool
  assumes "mc_inv k cpus mc" and "ch < m_CHANNELS k"
  defines "q \<equiv> queue_at mc w ch"
  shows "\<exists>i h. find_oldest k mc q = Some (i, h) \<and>
    (if h then 0 \<le> i \<and> oldest_of (open_hit k mc) q (nat i)
     else none_before_max (open_hit k mc) q \<and>
       (if i = - 1 then none_before_max (ready k mc) q else 0 \<le> i \<and> oldest_of (ready k mc) q (nat i)))"
proof -
  have core: "mc_core k cpus mc" using assms(1) by (simp add: mc_inv_def)
  then have cfg: "config_ok k" "dims_ok k mc" by (simp_all add: mc_core_def)
  have len: "length (q_entry q) = unat (q_size q)"
    using queue_length [OF core_okD(1) [OF core assms(2), of w]] by (simp add: q_def)
  obtain i h where f: "find_oldest k mc q = Some (i, h)"
    "if h then \<exists>c. earliest int (open_hit k mc) (q_entry q) (unat (q_size q)) (- 1, - 1) (c, i) \<and> i \<noteq> - 1
     else (\<exists>c. earliest int (open_hit k mc) (q_entry q) (unat (q_size q)) (- 1, - 1) (c, - 1)) \<and>
       (\<exists>c. earliest int (ready k mc) (q_entry q) (unat (q_size q)) (- 1, - 1) (c, i))"
    using find_oldest_total [OF cfg len] by blast
  show ?thesis
  proof (cases h)
    case True
    then obtain c where "earliest int (open_hit k mc) (q_entry q) (length (q_entry q)) (- 1, - 1) (c, i)" "i \<noteq> - 1"
      using f(2) len by auto
    from earliest_oldest [OF this(1)] this(2) f(1) True show ?thesis by auto
  next
    case False
    then obtain c c' where "earliest int (open_hit k mc) (q_entry q) (length (q_entry q)) (- 1, - 1) (c, - 1)"
      "earliest int (ready k mc) (q_entry q) (length (q_entry q)) (- 1, - 1) (c', i)"
      using f(2) len by auto
    from earliest_oldest [OF this(1)] earliest_oldest [OF this(2)] f(1) False show ?thesis
      by (intro exI [of _ i] exI [of _ h]) simp
  qed
qed

lemma find_oldest_fr_fcfs_witness:
  "\<exists>i h. find_oldest (dram_config 10) (mc_new (dram_config 10)) (queue_at (mc_new (dram_config 10)) False 0) = Some (i, h)"
proof -
  have "0 < m_CHANNELS (dram_config 10)" by (simp add: dram_config_def)
  from find_oldest_fr_fcfs [OF mc_new_inv [OF demo_op_ok(3)] this, of False] show ?thesis by blast
qed

text \<open>
  C13. What \<open>add_rq\<close> does with a read after the warmup: a read that the write queue holds is
  answered at once with the data of that write; one that the read queue holds is merged (its
  index is returned, nothing changes); a new one is stored if there is room, and is silently
  dropped when the read queue is full.
\<close>

theorem add_rq_outcomes:
  assumes "mc_inv k cpus mc" and "request_ok cpus p" and "NUM_CPUS \<le> unat (g_all_warmup_complete g)"
  defines "wq \<equiv> queue_at mc True (unat (dram_get_channel k (p_address p)))"
    and "rq \<equiv> queue_at mc False (unat (dram_get_channel k (p_address p)))"
  shows "\<exists>mc' rs p' r. dram_add_rq k g mc p = Some (mc', rs, p', r) \<and> mc_inv k cpus mc' \<and>
    (if p_address p \<in> addresses wq
     then rs = [p'] \<and> r = - 1 \<and> reads k mc' = reads k mc \<and>
       (\<exists>i \<in> used wq. p_address (q_entry wq ! i) = p_address p \<and> p' = p\<lparr>p_data := p_data (q_entry wq ! i)\<rparr>)
     else if p_address p \<in> addresses rq then rs = [] \<and> r \<noteq> - 1 \<and> mc' = mc
     else rs = [] \<and> r = - 1 \<and>
       reads k mc' = (if q_occupancy rq < q_size rq then insert (p_address p) (reads k mc) else reads k mc))"
proof -
  obtain mc' rs p' r where d: "dram_add_rq k g mc p = Some (mc', rs, p', r)" "mc_inv k cpus mc'"
    "if p_address p \<in> addresses wq
     then rs = [p'] \<and> r = - 1 \<and> same_requests k mc mc' \<and>
       (\<exists>i \<in> used wq. p_address (q_entry wq ! i) = p_address p \<and> p' = p\<lparr>p_data := p_data (q_entry wq ! i)\<rparr>)
     else if p_address p \<in> addresses rq then rs = [] \<and> p' = p \<and> r \<noteq> - 1 \<and> mc' = mc
     else rs = [] \<and> p' = p \<and> r = - 1 \<and>
       reads k mc' = (if q_occupancy rq < q_size rq then insert (p_address p) (reads k mc) else reads k mc)"
    using dram_add_rq_total [OF assms(1-3)] unfolding wq_def rq_def by blast
  have "same_requests k mc mc' \<Longrightarrow> reads k mc' = reads k mc" by (simp add: same_requests_def reads_def)
  then show ?thesis using d by (intro exI [of _ mc'] exI [of _ rs] exI [of _ p'] exI [of _ r]) (simp split: if_splits)
qed

lemma add_rq_outcomes_witness:
  "\<exists>mc' rs p' r. dram_add_rq (dram_config 10) demo_clock (mc_new (dram_config 10)) demo_read = Some (mc', rs, p', r) \<and>
     rs = [] \<and> r = - 1 \<and> reads (dram_config 10) mc' = {5}"
proof -
  let ?k = "dram_config 10"
  let ?ch = "unat (dram_get_channel ?k (p_address demo_read))"
  note inv = mc_new_inv [OF demo_op_ok(3)]
  have p: "request_ok NUM_CPUS demo_read" "NUM_CPUS \<le> unat (g_all_warmup_complete demo_clock)"
    using demo_op_ok(1) by simp_all
  have ch: "?ch < m_CHANNELS ?k" by (rule channel_less [OF demo_op_ok(3)])
  have e: "addresses (queue_at (mc_new ?k) w ?ch) = {}" for w by (rule mc_new_at(5) [OF ch])
  have r: "reads ?k (mc_new ?k) = {}" by (auto simp: reads_def mc_new_at)
  have "q_occupancy (queue_at (mc_new ?k) False ?ch) < q_size (queue_at (mc_new ?k) False ?ch)"
    using ch by (simp add: queue_at_def mc_new_eq Let_def packet_queue_new_def dram_config_def)
  with add_rq_outcomes [OF inv p] show ?thesis unfolding e r by (auto simp: demo_read_def)
qed

text \<open>
  When a channel turns around: after \<open>select_mode\<close> it serves writes exactly when it was
  reading and the write queue reached the high mark, or had work while no read waited; or when
  it was writing and the write queue is neither empty nor, with reads waiting, below the low mark.
\<close>

theorem write_mode_hysteresis:
  assumes "mc_inv k cpus mc" and "ch < m_CHANNELS k" and "clock_ok cpus g"
  shows "\<exists>mc'. select_mode k g ch mc = Some mc' \<and> mc_inv k cpus mc' \<and>
    (mc_write_mode mc' ! ch \<noteq> 0) =
      (if mc_write_mode mc ! ch = 0
       then m_WRITE_HIGH_WM k \<le> q_occupancy (queue_at mc True ch) \<or>
         (q_occupancy (queue_at mc False ch) = 0 \<and> 0 < q_occupancy (queue_at mc True ch))
       else q_occupancy (queue_at mc True ch) \<noteq> 0 \<and>
         (q_occupancy (queue_at mc False ch) = 0 \<or> m_WRITE_LOW_WM k \<le> q_occupancy (queue_at mc True ch)))"
proof -
  note inv = assms(1) and ch = assms(2)
  have dims: "dims_ok k mc" using inv by (simp add: mc_inv_def mc_core_def)
  then have len: "length (mc_write_mode mc) = m_CHANNELS k" by (simp add: dims_ok_def)
  then have m: "arr_get (mc_write_mode mc) ch = Some (mc_write_mode mc ! ch)" using ch by simp
  obtain mc1 where 1: "do { mc1 \<leftarrow> set_write_mode ch 1 mc; mc2 \<leftarrow> reset_remain_requests k g False ch mc1; turn_around k ch mc2 } = Some mc1"
    "mc_inv k cpus mc1" "mc_write_mode mc1 = (mc_write_mode mc)[ch := 1]"
    using switch_total [OF assms, of 1 False] by blast
  obtain mc2 where 2: "do { mc1 \<leftarrow> set_write_mode ch 0 mc; mc2 \<leftarrow> reset_remain_requests k g True ch mc1; turn_around k ch mc2 } = Some mc2"
    "mc_inv k cpus mc2" "mc_write_mode mc2 = (mc_write_mode mc)[ch := 0]"
    using switch_total [OF assms, of 0 True] by blast
  show ?thesis
    unfolding select_mode_def m Option.bind.simps get_queue_eq [OF dims ch] 1(1) 2(1)
    using 1(2,3) 2(2,3) inv len ch by (auto simp: word_gt_0 not_le not_less)
qed

lemma write_mode_hysteresis_witness:
  "\<exists>mc'. select_mode (dram_config 10) demo_clock 0 (mc_new (dram_config 10)) = Some mc' \<and> mc_write_mode mc' ! 0 = 0"
proof -
  let ?k = "dram_config 10"
  have ch: "0 < m_CHANNELS ?k" by (simp add: dram_config_def)
  have "q_occupancy (queue_at (mc_new ?k) True 0) = 0" "mc_write_mode (mc_new ?k) ! 0 = 0" "m_WRITE_HIGH_WM ?k = 56"
    by (simp_all add: queue_at_def mc_new_eq Let_def packet_queue_new_def dram_config_def)
  with write_mode_hysteresis [OF mc_new_inv [OF demo_op_ok(3)] ch] demo_op_ok(2) show ?thesis by fastforce
qed


text \<open>
  The DRAM address mapping is a bijection on the 26 low bits of a block address: row, column
  and bank, put back at their places, give the bits that were split, and the single channel and
  rank take none; so two blocks with the same coordinates agree modulo the size of the DRAM.
\<close>

theorem dram_address_split:
  fixes a :: u64
  shows "push_bit 10 (ucast (dram_get_row (dram_config r) a)) OR push_bit 3 (ucast (dram_get_column (dram_config r) a)) OR
      ucast (dram_get_bank (dram_config r) a) = a AND mask 26"
    (is "?l = _")
proof (rule bit_word_eqI)
  fix n assume "n < LENGTH(64)"
  then have n: "n < 64" by simp
  have m: "(65535 :: u32) = mask 16" "(127 :: u32) = mask 7" "(7 :: u32) = mask 3" by (simp_all add: mask_eq_exp_minus_1)
  show "bit ?l n = bit (a AND mask 26) n"
  proof -
    consider "n < 3" | "3 \<le> n" "n < 10" | "10 \<le> n" "n < 26" | "26 \<le> n" by linarith
    then show ?thesis
      by cases (use n in \<open>auto simp: dram_get_row_def dram_get_column_def dram_get_bank_def dram_config_def
        addr_field_def m bit_simps\<close>)
  qed
qed

text \<open>
  C22. On a fresh controller \<open>operate\<close> reads \<open>current_core_cycle\<close> out of bounds: the next indices
  of its queues are 0, the first entry carries \<open>cpu = NUM_CPUS\<close>, and the array has \<open>NUM_CPUS\<close>
  elements, so in the model, where such an access fails, the first cycle has no result.
\<close>

theorem fresh_controller_reads_out_of_bounds:
  assumes "length (g_current_core_cycle g) = NUM_CPUS"
  shows "dram_operate (dram_config r) g (mc_new (dram_config r)) = None"
  by (rule fresh_operate_fails [OF assms])

lemma fresh_controller_reads_out_of_bounds_witness:
  "dram_operate (dram_config 10) demo_globals (mc_new (dram_config 10)) = None"
  by (rule fresh_controller_reads_out_of_bounds) (simp add: demo_globals_def NUM_CPUS_def)

end
