(* ===== verification/Nvm_Controllers.thy ===== *)
theory Nvm_Controllers
  imports Memory_Controller
begin

text \<open>
  \<open>src/nvm_controller.cc\<close> and \<open>src/hybrid_memory_controller.cc\<close>: the controller of
  \<open>Memory_Controller\<close> over the constants of \<open>inc/nvm_controller.h\<close>,
  \<open>inc/hybrid_memory_controller.h\<close> and \<open>inc/champsim.h\<close>.  The two files repeat the functions of
  \<open>src/dram_controller.cc\<close> line by line; each definition below is one of these copies, at its
  own constants.  \<open>main\<close> computes the latencies of both but wires neither: their queues stay as
  the constructor leaves them, without the mark that tells a write queue from a read queue.  The
  interpretations of the contract \<open>memory\<close> speak of a controller whose queues are marked, as
  \<open>main\<close> marks those of the DRAM.  The hybrid controller names its queues \<open>NVM_WQ\<close> and \<open>NVM_RQ\<close> too.
\<close>

section \<open>The controller of the non-volatile memory\<close>

definition nvm_config :: "u32 \<Rightarrow> mc_config" where
  "nvm_config return_time = \<lparr>m_NAME = ''NVM'', m_CHANNELS = 1, m_LOG2_CHANNELS = 0, m_RANKS = 8, m_LOG2_RANKS = 0,
     m_BANKS = 8, m_LOG2_BANKS = 3, m_ROWS = 65536, m_LOG2_ROWS = 16, m_COLUMNS = 128, m_LOG2_COLUMNS = 7,
     m_WQ_SIZE = 64, m_RQ_SIZE = 64, m_WRITE_HIGH_WM = 56, m_WRITE_LOW_WM = 48,
     m_DBUS_TURN_AROUND_TIME = 60, m_DBUS_RETURN_TIME = return_time, m_tRP = 120, m_tRCD = 120, m_tCAS = 100\<rparr>"

definition nvm_new :: "u32 \<Rightarrow> memory_controller" where
  "nvm_new rt = mc_construct (nvm_config rt)"

definition nvm_get_channel :: "u32 \<Rightarrow> u64 \<Rightarrow> u32" where
  "nvm_get_channel rt = dram_get_channel (nvm_config rt)"

definition nvm_get_bank :: "u32 \<Rightarrow> u64 \<Rightarrow> u32" where
  "nvm_get_bank rt = dram_get_bank (nvm_config rt)"

definition nvm_get_column :: "u32 \<Rightarrow> u64 \<Rightarrow> u32" where
  "nvm_get_column rt = dram_get_column (nvm_config rt)"

definition nvm_get_rank :: "u32 \<Rightarrow> u64 \<Rightarrow> u32" where
  "nvm_get_rank rt = dram_get_rank (nvm_config rt)"

definition nvm_get_row :: "u32 \<Rightarrow> u64 \<Rightarrow> u32" where
  "nvm_get_row rt = dram_get_row (nvm_config rt)"

definition nvm_update_schedule_cycle :: "packet_queue \<Rightarrow> packet_queue option" where
  "nvm_update_schedule_cycle = update_schedule_cycle"

definition nvm_update_process_cycle :: "packet_queue \<Rightarrow> packet_queue option" where
  "nvm_update_process_cycle = update_process_cycle"

definition nvm_schedule :: "u32 \<Rightarrow> globals \<Rightarrow> bool \<Rightarrow> nat \<Rightarrow> memory_controller \<Rightarrow> memory_controller option" where
  "nvm_schedule rt = schedule (nvm_config rt)"

definition nvm_process :: "u32 \<Rightarrow> globals \<Rightarrow> bool \<Rightarrow> nat \<Rightarrow> memory_controller \<Rightarrow> (memory_controller \<times> packet list) option" where
  "nvm_process rt = process (nvm_config rt)"

definition nvm_reset_remain_requests :: "u32 \<Rightarrow> globals \<Rightarrow> bool \<Rightarrow> nat \<Rightarrow> memory_controller \<Rightarrow> memory_controller option" where
  "nvm_reset_remain_requests rt = reset_remain_requests (nvm_config rt)"

definition nvm_operate :: "u32 \<Rightarrow> globals \<Rightarrow> memory_controller \<Rightarrow> (memory_controller \<times> packet list) option" where
  "nvm_operate rt = dram_operate (nvm_config rt)"

definition nvm_check_queue :: "packet_queue \<Rightarrow> packet \<Rightarrow> int option" where
  "nvm_check_queue = check_dram_queue"

definition nvm_add_rq :: "u32 \<Rightarrow> globals \<Rightarrow> memory_controller \<Rightarrow> packet \<Rightarrow> (memory_controller \<times> packet list \<times> packet \<times> int) option" where
  "nvm_add_rq rt = dram_add_rq (nvm_config rt)"

definition nvm_add_wq :: "u32 \<Rightarrow> globals \<Rightarrow> memory_controller \<Rightarrow> packet \<Rightarrow> (memory_controller \<times> int) option" where
  "nvm_add_wq rt = dram_add_wq (nvm_config rt)"

definition nvm_add_pq :: "memory_controller \<Rightarrow> packet \<Rightarrow> memory_controller \<times> int" where
  "nvm_add_pq = dram_add_pq"

definition nvm_get_occupancy :: "u32 \<Rightarrow> memory_controller \<Rightarrow> u8 \<Rightarrow> u64 \<Rightarrow> u32 option" where
  "nvm_get_occupancy rt = dram_get_occupancy (nvm_config rt)"

definition nvm_get_size :: "u32 \<Rightarrow> memory_controller \<Rightarrow> u8 \<Rightarrow> u64 \<Rightarrow> u32 option" where
  "nvm_get_size rt = dram_get_size (nvm_config rt)"

definition nvm_increment_WQ_FULL :: "u32 \<Rightarrow> memory_controller \<Rightarrow> u64 \<Rightarrow> memory_controller option" where
  "nvm_increment_WQ_FULL rt = dram_increment_WQ_FULL (nvm_config rt)"

text \<open>The operations the caches call, in one step.\<close>

fun nvm_step :: "u32 \<Rightarrow> memory_controller \<Rightarrow> globals \<times> mc_op \<Rightarrow> (memory_controller \<times> packet list) option" where
  "nvm_step rt mc (g, Read p) = do { (mc', rs, p', r) \<leftarrow> nvm_add_rq rt g mc p; Some (mc', rs) }"
| "nvm_step rt mc (g, Write p) = do { (mc', r) \<leftarrow> nvm_add_wq rt g mc p; Some (mc', []) }"
| "nvm_step rt mc (g, Cycle) = nvm_operate rt g mc"

lemma nvm_step_eq: "nvm_step rt mc x = mc_step (nvm_config rt) mc x"
  by (cases "(rt, mc, x)" rule: nvm_step.cases)
    (simp_all add: mc_step_def nvm_add_rq_def nvm_add_wq_def nvm_operate_def)

lemma nvm_config_ok: "config_ok (nvm_config rt)"
  by (simp add: config_ok_def nvm_config_def)

interpretation nvm: memory "nvm_step rt" "\<lambda>mc. mc_inv (nvm_config rt) NUM_CPUS mc \<and> live_mc (nvm_config rt) mc" "reads (nvm_config rt)" op_ok read_address for rt
  unfolding nvm_step_eq by (rule mem.memory_axioms)

section \<open>The controller of the hybrid memory\<close>

definition hmm_config :: "u32 \<Rightarrow> mc_config" where
  "hmm_config return_time = \<lparr>m_NAME = ''NVM'', m_CHANNELS = 1, m_LOG2_CHANNELS = 0, m_RANKS = 8, m_LOG2_RANKS = 0,
     m_BANKS = 8, m_LOG2_BANKS = 3, m_ROWS = 65536, m_LOG2_ROWS = 16, m_COLUMNS = 128, m_LOG2_COLUMNS = 7,
     m_WQ_SIZE = 64, m_RQ_SIZE = 64, m_WRITE_HIGH_WM = 56, m_WRITE_LOW_WM = 48,
     m_DBUS_TURN_AROUND_TIME = 60, m_DBUS_RETURN_TIME = return_time, m_tRP = 120, m_tRCD = 120, m_tCAS = 100\<rparr>"

definition hmm_new :: "u32 \<Rightarrow> memory_controller" where
  "hmm_new rt = mc_construct (hmm_config rt)"

definition hmm_get_channel :: "u32 \<Rightarrow> u64 \<Rightarrow> u32" where
  "hmm_get_channel rt = dram_get_channel (hmm_config rt)"

definition hmm_get_bank :: "u32 \<Rightarrow> u64 \<Rightarrow> u32" where
  "hmm_get_bank rt = dram_get_bank (hmm_config rt)"

definition hmm_get_column :: "u32 \<Rightarrow> u64 \<Rightarrow> u32" where
  "hmm_get_column rt = dram_get_column (hmm_config rt)"

definition hmm_get_rank :: "u32 \<Rightarrow> u64 \<Rightarrow> u32" where
  "hmm_get_rank rt = dram_get_rank (hmm_config rt)"

definition hmm_get_row :: "u32 \<Rightarrow> u64 \<Rightarrow> u32" where
  "hmm_get_row rt = dram_get_row (hmm_config rt)"

definition hmm_update_schedule_cycle :: "packet_queue \<Rightarrow> packet_queue option" where
  "hmm_update_schedule_cycle = update_schedule_cycle"

definition hmm_update_process_cycle :: "packet_queue \<Rightarrow> packet_queue option" where
  "hmm_update_process_cycle = update_process_cycle"

definition hmm_schedule :: "u32 \<Rightarrow> globals \<Rightarrow> bool \<Rightarrow> nat \<Rightarrow> memory_controller \<Rightarrow> memory_controller option" where
  "hmm_schedule rt = schedule (hmm_config rt)"

definition hmm_process :: "u32 \<Rightarrow> globals \<Rightarrow> bool \<Rightarrow> nat \<Rightarrow> memory_controller \<Rightarrow> (memory_controller \<times> packet list) option" where
  "hmm_process rt = process (hmm_config rt)"

definition hmm_reset_remain_requests :: "u32 \<Rightarrow> globals \<Rightarrow> bool \<Rightarrow> nat \<Rightarrow> memory_controller \<Rightarrow> memory_controller option" where
  "hmm_reset_remain_requests rt = reset_remain_requests (hmm_config rt)"

definition hmm_operate :: "u32 \<Rightarrow> globals \<Rightarrow> memory_controller \<Rightarrow> (memory_controller \<times> packet list) option" where
  "hmm_operate rt = dram_operate (hmm_config rt)"

definition hmm_check_queue :: "packet_queue \<Rightarrow> packet \<Rightarrow> int option" where
  "hmm_check_queue = check_dram_queue"

definition hmm_add_rq :: "u32 \<Rightarrow> globals \<Rightarrow> memory_controller \<Rightarrow> packet \<Rightarrow> (memory_controller \<times> packet list \<times> packet \<times> int) option" where
  "hmm_add_rq rt = dram_add_rq (hmm_config rt)"

definition hmm_add_wq :: "u32 \<Rightarrow> globals \<Rightarrow> memory_controller \<Rightarrow> packet \<Rightarrow> (memory_controller \<times> int) option" where
  "hmm_add_wq rt = dram_add_wq (hmm_config rt)"

definition hmm_add_pq :: "memory_controller \<Rightarrow> packet \<Rightarrow> memory_controller \<times> int" where
  "hmm_add_pq = dram_add_pq"

definition hmm_get_occupancy :: "u32 \<Rightarrow> memory_controller \<Rightarrow> u8 \<Rightarrow> u64 \<Rightarrow> u32 option" where
  "hmm_get_occupancy rt = dram_get_occupancy (hmm_config rt)"

definition hmm_get_size :: "u32 \<Rightarrow> memory_controller \<Rightarrow> u8 \<Rightarrow> u64 \<Rightarrow> u32 option" where
  "hmm_get_size rt = dram_get_size (hmm_config rt)"

definition hmm_increment_WQ_FULL :: "u32 \<Rightarrow> memory_controller \<Rightarrow> u64 \<Rightarrow> memory_controller option" where
  "hmm_increment_WQ_FULL rt = dram_increment_WQ_FULL (hmm_config rt)"

text \<open>The operations the caches call, in one step.\<close>

fun hmm_step :: "u32 \<Rightarrow> memory_controller \<Rightarrow> globals \<times> mc_op \<Rightarrow> (memory_controller \<times> packet list) option" where
  "hmm_step rt mc (g, Read p) = do { (mc', rs, p', r) \<leftarrow> hmm_add_rq rt g mc p; Some (mc', rs) }"
| "hmm_step rt mc (g, Write p) = do { (mc', r) \<leftarrow> hmm_add_wq rt g mc p; Some (mc', []) }"
| "hmm_step rt mc (g, Cycle) = hmm_operate rt g mc"

lemma hmm_step_eq: "hmm_step rt mc x = mc_step (hmm_config rt) mc x"
  by (cases "(rt, mc, x)" rule: hmm_step.cases)
    (simp_all add: mc_step_def hmm_add_rq_def hmm_add_wq_def hmm_operate_def)

lemma hmm_config_ok: "config_ok (hmm_config rt)"
  by (simp add: config_ok_def hmm_config_def)

interpretation hmm: memory "hmm_step rt" "\<lambda>mc. mc_inv (hmm_config rt) NUM_CPUS mc \<and> live_mc (hmm_config rt) mc" "reads (hmm_config rt)" op_ok read_address for rt
  unfolding hmm_step_eq by (rule mem.memory_axioms)

section \<open>Properties\<close>

text \<open>
  C23. The rank bits of the non-volatile memories are never used: with \<open>LOG2_NVM_RANKS = 0\<close> every
  address falls in rank 0, so of the 64 banks that the controllers keep only 8 ever serve a
  request, and addresses that differ above the 26 low bits share a bank and a row.
\<close>

theorem nvm_uses_one_rank:
  "range (bank_key (nvm_config rt)) = {0} \<times> {0} \<times> {..<8} \<and> range (bank_key (hmm_config rt)) = {0} \<times> {0} \<times> {..<8} \<and>
     card {key. key_ok (nvm_config rt) key} = 64 \<and>
     (a AND mask 26 = b AND mask 26 \<longrightarrow> bank_key (nvm_config rt) a = bank_key (nvm_config rt) b \<and>
       nvm_get_row rt a = nvm_get_row rt b)"
proof (intro conjI impI)
  have m: "(7 :: u32) = mask 3" "(65535 :: u32) = mask 16" by (simp_all add: mask_eq_exp_minus_1)
  have k: "bank_key (nvm_config rt) x = (0, 0, unat (ucast x AND 7 :: u32))" for x
    by (simp add: bank_key_def dram_get_channel_def dram_get_rank_def dram_get_bank_def addr_field_def nvm_config_def)
  have b: "unat (ucast x AND 7 :: u32) < 8" for x :: u64
    using word_and_le1 [of "ucast x" "7 :: u32"] by (simp add: word_le_nat_alt)
  have s: "unat (ucast (of_nat n :: u64) AND 7 :: u32) = n" if "n < 8" for n
  proof -
    from that consider "n = 0" | "n = 1" | "n = 2" | "n = 3" | "n = 4" | "n = 5" | "n = 6" | "n = 7" by linarith
    then show ?thesis by cases simp_all
  qed
  show r: "range (bank_key (nvm_config rt)) = {0} \<times> {0} \<times> {..<8}"
  proof
    show "range (bank_key (nvm_config rt)) \<subseteq> {0} \<times> {0} \<times> {..<8}" using k b by auto
    have "(0, 0, n) \<in> range (bank_key (nvm_config rt))" if "n < 8" for n
      using k [of "of_nat n"] s [OF that] by (metis rangeI)
    then show "{0} \<times> {0} \<times> {..<8} \<subseteq> range (bank_key (nvm_config rt))" by auto
  qed
  have "bank_key (hmm_config rt) = bank_key (nvm_config rt)" by (simp add: hmm_config_def nvm_config_def)
  with r show "range (bank_key (hmm_config rt)) = {0} \<times> {0} \<times> {..<8}" by simp
  have "{key. key_ok (nvm_config rt) key} = {..<1} \<times> {..<8} \<times> {..<8}" by (auto simp: key_ok_def nvm_config_def)
  then show "card {key. key_ok (nvm_config rt) key} = 64" by (simp add: card_cartesian_product)
  assume ab: "a AND mask 26 = b AND mask 26"
  have bits: "bit a n = bit b n" if "n < 26" for n
  proof -
    have "bit (a AND mask 26) n = bit (b AND mask 26) n" by (simp only: ab)
    then show ?thesis using that by (simp add: bit_and_iff bit_mask_iff)
  qed
  show "bank_key (nvm_config rt) a = bank_key (nvm_config rt) b"
  proof -
    have "(ucast a AND 7 :: u32) = ucast b AND 7"
      unfolding m by (rule bit_word_eqI) (use bits in \<open>auto simp: bit_simps\<close>)
    then show ?thesis by (simp add: k)
  qed
  have "(ucast (drop_bit 10 a) AND mask 16 :: u32) = ucast (drop_bit 10 b) AND mask 16"
    by (rule bit_word_eqI) (use bits in \<open>auto simp: bit_simps\<close>)
  then show "nvm_get_row rt a = nvm_get_row rt b"
    by (simp add: nvm_get_row_def dram_get_row_def addr_field_def nvm_config_def m)
qed

lemma nvm_uses_one_rank_witness:
  "bank_key (nvm_config 53) (2 ^ 26) = bank_key (nvm_config 53) 0"
  using nvm_uses_one_rank [of 53 "2 ^ 26" 0] by (simp add: mask_eq_exp_minus_1)

end
