(* ===== verification/Std_Map.thy ===== *)
theory Std_Map
  imports NV_Prelude
begin

text \<open>
  \<open>std::map\<close>: the list of its elements in the order in which an iterator visits them, the
  keys increasing.  \<open>map_of\<close> is \<open>find\<close>; \<open>map_insert\<close> is \<open>insert(make_pair(k, v))\<close>, which
  does not overwrite; \<open>map_assign\<close> is an assignment through an iterator; \<open>map_erase\<close> removes
  the element with a key.
\<close>

type_synonym ('k, 'v) std_map = "('k \<times> 'v) list"

fun map_insert :: "'k::linorder \<Rightarrow> 'v \<Rightarrow> ('k, 'v) std_map \<Rightarrow> ('k, 'v) std_map" where
  "map_insert k v [] = [(k, v)]"
| "map_insert k v ((a, b) # xs) =
     (if k < a then (k, v) # (a, b) # xs else if k = a then (a, b) # xs else (a, b) # map_insert k v xs)"

definition map_assign :: "'k \<Rightarrow> 'v \<Rightarrow> ('k, 'v) std_map \<Rightarrow> ('k, 'v) std_map" where
  "map_assign k v xs = map (\<lambda>(a, b). if a = k then (a, v) else (a, b)) xs"

definition map_erase :: "'k \<Rightarrow> ('k, 'v) std_map \<Rightarrow> ('k, 'v) std_map" where
  "map_erase k xs = filter (\<lambda>(a, b). a \<noteq> k) xs"

definition map_sorted :: "('k::linorder, 'v) std_map \<Rightarrow> bool" where
  "map_sorted xs \<longleftrightarrow> sorted_wrt (<) (map fst xs)"

lemma map_sorted_simps [simp]:
  "map_sorted []" "map_sorted ((a, b) # xs) \<longleftrightarrow> (\<forall>k \<in> fst ` set xs. a < k) \<and> map_sorted xs"
  by (auto simp: map_sorted_def)

lemma map_insert_keys [simp]: "fst ` set (map_insert k v xs) = insert k (fst ` set xs)"
  by (induction k v xs rule: map_insert.induct) auto

lemma map_insert_sorted: "map_sorted xs \<Longrightarrow> map_sorted (map_insert k v xs)"
  by (induction k v xs rule: map_insert.induct) auto

lemma map_sorted_distinct: "map_sorted xs \<Longrightarrow> distinct (map fst xs)"
  by (induction xs) force+

lemma map_of_map_insert:
  "map_sorted xs \<Longrightarrow> map_of (map_insert k v xs) = (if k \<in> fst ` set xs then map_of xs else (map_of xs)(k \<mapsto> v))"
  by (induction k v xs rule: map_insert.induct) (auto simp: fun_eq_iff)

lemma map_insert_length: "map_sorted xs \<Longrightarrow> k \<notin> fst ` set xs \<Longrightarrow> length (map_insert k v xs) = Suc (length xs)"
  by (induction k v xs rule: map_insert.induct) auto

lemma map_assign_keys [simp]: "map fst (map_assign k v xs) = map fst xs"
  by (induction xs) (auto simp: map_assign_def)

lemma map_assign_length [simp]: "length (map_assign k v xs) = length xs"
  by (simp add: map_assign_def)

lemma map_assign_sorted [simp]: "map_sorted (map_assign k v xs) = map_sorted xs"
  by (simp add: map_sorted_def)

lemma map_of_map_assign: "map_of (map_assign k v xs) = (if k \<in> fst ` set xs then (map_of xs)(k \<mapsto> v) else map_of xs)"
  by (induction xs) (auto simp: map_assign_def fun_eq_iff)

lemma map_erase_keys [simp]: "fst ` set (map_erase k xs) = fst ` set xs - {k}"
  by (force simp: map_erase_def)

lemma map_erase_sorted: "map_sorted xs \<Longrightarrow> map_sorted (map_erase k xs)"
  by (induction xs) (auto simp: map_erase_def)

lemma map_of_map_erase: "map_of (map_erase k xs) = (map_of xs)(k := None)"
  by (induction xs) (auto simp: map_erase_def fun_eq_iff)

lemma map_erase_length: "map_sorted xs \<Longrightarrow> k \<in> fst ` set xs \<Longrightarrow> Suc (length (map_erase k xs)) = length xs"
proof (induction xs)
  case (Cons x xs)
  show ?case
  proof (cases "fst x = k")
    case True
    then have "k \<notin> fst ` set xs" using Cons.prems(1) by (cases x) auto
    then have "map_erase k (x # xs) = xs"
      using True by (cases x) (force simp: map_erase_def filter_id_conv)
    then show ?thesis by simp
  next
    case False
    then show ?thesis using Cons by (cases x) (auto simp: map_erase_def)
  qed
qed simp

lemma map_of_key: "map_of xs k = None \<longleftrightarrow> k \<notin> fst ` set xs"
  by (rule map_of_eq_None_iff)

end
