(* ===== verification/Page_Table.thy ===== *)
theory Page_Table
  imports Std_Map Cache
begin

text \<open>
  The virtual memory of \<open>src/main.cc\<close>: \<open>va_to_pa\<close> with the global variables it owns.  The
  random number generator \<open>champsim_rand\<close> and \<open>rand()\<close> are parameters: \<open>draw n\<close> and \<open>rnd n\<close> are
  the \<open>n\<close>-th numbers they return, and the state counts the numbers taken from each.

  The search for a free frame draws until the frame is free, so it is a partial function; it
  ends for every generator that leaves any small set of frames.  The caches that a swap
  invalidates are in \<open>Hierarchy\<close>: here a swap reports the page it evicted and its frame.
\<close>

section \<open>Rotations\<close>

definition rotl64 :: "u64 \<Rightarrow> u32 \<Rightarrow> u64 option" where
  "rotl64 n c = do {
     assert_that (c \<le> 63);
     Some (push_bit (unat (c AND 63)) n OR drop_bit (unat (- (c AND 63) AND 63)) n) }"

definition rotr64 :: "u64 \<Rightarrow> u32 \<Rightarrow> u64 option" where
  "rotr64 n c = do {
     assert_that (c \<le> 63);
     Some (drop_bit (unat (c AND 63)) n OR push_bit (unat (- (c AND 63) AND 63)) n) }"

section \<open>State\<close>

record page_state =
  v_page_table :: "(u64, u64) std_map"
  v_inverse_table :: "(u64, u64) std_map"
  v_recent_page :: "(u64, u64) std_map"
  v_unique_cl :: "(u64, u64) std_map list"
  v_page_queue :: "u64 list"
  v_previous_ppage :: u64
  v_num_adjacent_page :: u64
  v_num_cl :: "u64 list"
  v_allocated_pages :: u64
  v_num_page :: "u64 list"
  v_minor_fault :: "u64 list"
  v_major_fault :: "u64 list"
  v_stall_cycle :: "u64 list"
  v_PAGE_TABLE_LATENCY :: u32
  v_SWAP_LATENCY :: u32
  v_draws :: nat
  v_rands :: nat

text \<open>The state \<open>main\<close> starts the simulation with; \<open>finish_warmup\<close> sets the latencies to 100 and 100000.\<close>

definition page_state_new :: page_state where
  "page_state_new = \<lparr>v_page_table = [], v_inverse_table = [], v_recent_page = [],
     v_unique_cl = replicate NUM_CPUS [], v_page_queue = [], v_previous_ppage = 0,
     v_num_adjacent_page = 0, v_num_cl = replicate NUM_CPUS 0, v_allocated_pages = 0,
     v_num_page = replicate NUM_CPUS 0, v_minor_fault = replicate NUM_CPUS 0,
     v_major_fault = replicate NUM_CPUS 0, v_stall_cycle = replicate NUM_CPUS 0,
     v_PAGE_TABLE_LATENCY = 0, v_SWAP_LATENCY = 0, v_draws = 0, v_rands = 0\<rparr>"

definition DRAM_PAGES :: nat where "DRAM_PAGES = 1048576"

section \<open>The operations\<close>

text \<open>The footprint of cache lines: a counter per line seen.\<close>

definition note_line :: "u32 \<Rightarrow> u64 \<Rightarrow> page_state \<Rightarrow> page_state option" where
  "note_line cpu unique_va s = do {
     let line = drop_bit LOG2_BLOCK_SIZE unique_va;
     cl \<leftarrow> arr_get (v_unique_cl s) (unat cpu);
     case map_of cl line of
       None \<Rightarrow> do {
         n \<leftarrow> bump (v_num_cl s) (unat cpu);
         Some (s\<lparr>v_unique_cl := (v_unique_cl s)[unat cpu := map_insert line 0 cl], v_num_cl := n\<rparr>) }
     | Some seen \<Rightarrow> Some (s\<lparr>v_unique_cl := (v_unique_cl s)[unat cpu := map_assign line (seen + 1) cl]\<rparr>) }"

text \<open>A page takes the frame of the first page, in the order of the table, that is not recent.\<close>

definition swap_page :: "u64 \<Rightarrow> page_state \<Rightarrow> (page_state \<times> u64 \<times> u64) option" where
  "swap_page vpage s = do {
     (NRU_vpage, mapped_ppage) \<leftarrow> List.find (\<lambda>(v, _). map_of (v_recent_page s) v = None) (v_page_table s);
     assert_that (map_of (v_inverse_table s) mapped_ppage \<noteq> None);
     queue \<leftarrow> (case v_page_queue s of [] \<Rightarrow> None | _ # vs \<Rightarrow> Some (vs @ [vpage]));
     Some (s\<lparr>v_page_table := map_insert vpage mapped_ppage (map_erase NRU_vpage (v_page_table s)),
         v_inverse_table := map_assign mapped_ppage vpage (v_inverse_table s),
         v_page_queue := queue\<rparr>, NRU_vpage, mapped_ppage) }"

text \<open>\<open>while (1)\<close>: take the proposed frame if it is free, else draw another one.\<close>

partial_function (option) find_frame ::
  "(nat \<Rightarrow> u64) \<Rightarrow> (u64, u64) std_map \<Rightarrow> bool \<Rightarrow> u64 \<Rightarrow> nat \<Rightarrow> bool \<Rightarrow> (u64 \<times> nat \<times> bool) option" where
  "find_frame draw inverse_table adjacent random_ppage n fragmented =
     (if map_of inverse_table random_ppage \<noteq> None
      then find_frame draw inverse_table adjacent (draw n) (Suc n) (adjacent \<or> fragmented)
      else Some (random_ppage, n, fragmented))"

declare find_frame.simps [code]

definition allocate_page :: "(nat \<Rightarrow> u64) \<Rightarrow> (nat \<Rightarrow> nat) \<Rightarrow> u32 \<Rightarrow> u64 \<Rightarrow> page_state \<Rightarrow> page_state option" where
  "allocate_page draw rnd cpu vpage s = do {
     let adjacent = v_num_adjacent_page s > 0;
     (random_ppage, n, fragmented) \<leftarrow>
       (if adjacent then find_frame draw (v_inverse_table s) adjacent (v_previous_ppage s + 1) (v_draws s) False
        else find_frame draw (v_inverse_table s) adjacent (draw (v_draws s)) (Suc (v_draws s)) True);
     pages \<leftarrow> bump (v_num_page s) (unat cpu);
     Some (s\<lparr>v_page_table := map_insert vpage random_ppage (v_page_table s),
       v_inverse_table := map_insert random_ppage vpage (v_inverse_table s),
       v_page_queue := v_page_queue s @ [vpage], v_previous_ppage := random_ppage, v_num_page := pages,
       v_allocated_pages := v_allocated_pages s + 1, v_draws := n,
       v_num_adjacent_page := (if fragmented then push_bit (rnd (v_rands s) mod 10) 1
         else v_num_adjacent_page s - 1),
       v_rands := (if fragmented then Suc (v_rands s) else v_rands s)\<rparr>) }"

text \<open>A page fault: a swap when every frame is taken.  The result names the evicted page and its frame.\<close>

definition page_fault :: "(nat \<Rightarrow> u64) \<Rightarrow> (nat \<Rightarrow> nat) \<Rightarrow> u32 \<Rightarrow> u64 \<Rightarrow> page_state \<Rightarrow>
    (page_state \<times> (u64 \<times> u64) option) option" where
  "page_fault draw rnd cpu vpage s =
     (if DRAM_PAGES \<le> unat (v_allocated_pages s)
      then do {
        (s1, evicted) \<leftarrow> swap_page vpage s;
        faults \<leftarrow> bump (v_major_fault s1) (unat cpu);
        Some (s1\<lparr>v_major_fault := faults\<rparr>, Some evicted) }
      else do {
        s1 \<leftarrow> allocate_page draw rnd cpu vpage s;
        faults \<leftarrow> bump (v_minor_fault s1) (unat cpu);
        Some (s1\<lparr>v_minor_fault := faults\<rparr>, None) })"

definition translate :: "(nat \<Rightarrow> u64) \<Rightarrow> (nat \<Rightarrow> nat) \<Rightarrow> u64 list \<Rightarrow> u32 \<Rightarrow> u64 \<Rightarrow> u64 \<Rightarrow> page_state \<Rightarrow>
    (page_state \<times> u64 \<times> (u64 \<times> u64) option) option" where
  "translate draw rnd current_core_cycle cpu va unique_vpage s = do {
     assert_that (va \<noteq> 0);
     high_bit_mask \<leftarrow> rotr64 (ucast cpu) (of_int (lg2 NUM_CPUS));
     let unique_va = va OR high_bit_mask;
     let vpage = unique_vpage OR high_bit_mask;
     let voffset = unique_va AND of_int (push_bit LOG2_PAGE_SIZE 1 - 1);
     s1 \<leftarrow> note_line cpu unique_va s;
     (s2, evicted) \<leftarrow> (case map_of (v_page_table s1) vpage of
         None \<Rightarrow> page_fault draw rnd cpu vpage s1
       | Some _ \<Rightarrow> Some (s1, None));
     ppage \<leftarrow> map_of (v_page_table s2) vpage;
     now \<leftarrow> arr_get current_core_cycle (unat cpu);
     stall \<leftarrow> arr_set (v_stall_cycle s2) (unat cpu)
       (now + ucast (if evicted \<noteq> None then v_SWAP_LATENCY s2 else v_PAGE_TABLE_LATENCY s2));
     Some (s2\<lparr>v_stall_cycle := stall\<rparr>, push_bit LOG2_PAGE_SIZE ppage OR voffset, evicted) }"

text \<open>A sequence of translations: the cycle counters, the core, the address and its page.\<close>

type_synonym page_request = "u64 list \<times> u32 \<times> u64 \<times> u64"

definition translate_all :: "(nat \<Rightarrow> u64) \<Rightarrow> (nat \<Rightarrow> nat) \<Rightarrow> page_state \<Rightarrow> page_request list \<Rightarrow> page_state option" where
  "translate_all draw rnd = fold_opt (\<lambda>s (now, cpu, va, vpage).
     do { (s', _, _) \<leftarrow> translate draw rnd now cpu va vpage s; Some s' })"

section \<open>Rotations undo each other\<close>

lemma neg_and_63:
  assumes "c \<le> (63 :: u32)"
  shows "c AND 63 = c" "unat (- c AND 63) = (if c = 0 then 0 else 64 - unat c)"
proof -
  have "unat c \<le> 63" using assms by (simp add: word_le_nat_alt)
  then have mod: "unat c mod 64 = unat c" by simp
  have mask: "(63 :: u32) = mask 6" by (simp add: mask_eq_exp_minus_1)
  have "unat (c AND 63) = unat c mod 64"
    unfolding mask by (simp add: take_bit_eq_mask [symmetric] unsigned_take_bit_eq take_bit_eq_mod unat_mod_distrib)
  then show "c AND 63 = c" using mod by (metis word_unat_eq_iff)
  have "unat (- c AND 63) = unat (- c) mod 64"
    unfolding mask by (simp add: take_bit_eq_mask [symmetric] unsigned_take_bit_eq take_bit_eq_mod unat_mod_distrib)
  also have "unat (- c) = (if c = 0 then 0 else 2 ^ 32 - unat c)"
  proof (cases "c = 0")
    case False
    have "of_nat (2 ^ 32 - unat c) = (of_nat (2 ^ 32) - of_nat (unat c) :: u32)"
      using \<open>unat c \<le> 63\<close> by (subst of_nat_diff) auto
    then have "- c = of_nat (2 ^ 32 - unat c)" by simp
    moreover have "2 ^ 32 - unat c < 2 ^ LENGTH(32)" using False by (simp add: unat_gt_0)
    ultimately have "unat (- c) = 2 ^ 32 - unat c" by (intro of_nat_inverse) auto
    then show ?thesis using False by simp
  qed simp
  also have "(if c = 0 then 0 else 2 ^ 32 - unat c) mod 64 = (if c = 0 then 0 else 64 - unat c)"
  proof (cases "c = 0")
    case False
    then have pos: "0 < unat c" by (simp add: unat_gt_0)
    have "(2 ^ 32 - unat c :: nat) = (64 - unat c) + 64 * (2 ^ 26 - 1)" using \<open>unat c \<le> 63\<close> by simp
    then have "(2 ^ 32 - unat c) mod 64 = (64 - unat c) mod 64" by (metis mod_mult_self2)
    then show ?thesis using pos False by simp
  qed simp
  finally show "unat (- c AND 63) = (if c = 0 then 0 else 64 - unat c)" .
qed

lemma rotr64_word: "c \<le> 63 \<Longrightarrow> rotr64 n c = Some (word_rotr (unat c) n)"
proof -
  assume c: "c \<le> 63"
  then have k: "unat c \<le> 63" by (simp add: word_le_nat_alt)
  have "drop_bit (unat c) n OR push_bit (unat (- c AND 63)) n = word_rotr (unat c) n"
  proof (rule bit_word_eqI)
    fix i assume "i < LENGTH(64)"
    then have i: "i < 64" by simp
    show "bit (drop_bit (unat c) n OR push_bit (unat (- c AND 63)) n) i = bit (word_rotr (unat c) n) i"
    proof (cases "unat c + i < 64")
      case True
      then show ?thesis using i c k
        by (auto simp: bit_simps neg_and_63 ac_simps)
    next
      case False
      then have "(unat c + i) mod 64 = unat c + i - 64" using i k by (simp add: mod_if)
      moreover have "\<not> bit n (unat c + i)" using False by (auto dest: bit_imp_le_length)
      ultimately show ?thesis using i c k False
        by (auto simp: bit_simps neg_and_63 ac_simps)
    qed
  qed
  then show ?thesis using c by (simp add: rotr64_def neg_and_63)
qed

lemma rotl64_word: "c \<le> 63 \<Longrightarrow> rotl64 n c = Some (word_rotl (unat c) n)"
proof -
  assume c: "c \<le> 63"
  then have k: "unat c \<le> 63" by (simp add: word_le_nat_alt)
  have "push_bit (unat c) n OR drop_bit (unat (- c AND 63)) n = word_rotl (unat c) n"
  proof (rule bit_word_eqI)
    fix i assume "i < LENGTH(64)"
    then have i: "i < 64" by simp
    show "bit (push_bit (unat c) n OR drop_bit (unat (- c AND 63)) n) i = bit (word_rotl (unat c) n) i"
    proof (cases "unat c \<le> i")
      case True
      have "(i + 64 - unat c) mod 64 = i - unat c"
        using True i k mod_add_self2 [of "i - unat c" 64] by simp
      moreover have "c \<noteq> 0 \<Longrightarrow> \<not> bit n (64 + i - unat c)" using True k by (auto dest: bit_imp_le_length)
      ultimately show ?thesis using i c k True
        by (auto simp: bit_simps neg_and_63)
    next
      case False
      then show ?thesis using i c k
        by (auto simp: bit_simps neg_and_63 add.commute [of 64 i])
    qed
  qed
  then show ?thesis using c by (simp add: rotl64_def neg_and_63)
qed

text \<open>
  \<open>rotr64\<close> undoes \<open>rotl64\<close> and \<open>rotl64\<close> undoes \<open>rotr64\<close>, for every amount the assertions allow.
\<close>

theorem rotate_round_trip:
  assumes "c \<le> 63"
  shows "(\<exists>m. rotl64 n c = Some m \<and> rotr64 m c = Some n) \<and> (\<exists>m. rotr64 n c = Some m \<and> rotl64 m c = Some n)"
  using assms by (simp_all add: rotl64_word rotr64_word)

lemma rotate_round_trip_witness:
  "(\<exists>m. rotl64 0x8000000000000001 4 = Some m \<and> rotr64 m 4 = Some 0x8000000000000001)"
  using rotate_round_trip [where c = 4 and n = "0x8000000000000001"] by simp

section \<open>The invariant\<close>

text \<open>
  The two tables are inverse to each other, every allocated frame is in them, and the queue of
  pages has an entry per page.  Nothing is ever entered in \<open>recent_page\<close>.
\<close>

definition tables_ok :: "page_state \<Rightarrow> bool" where
  "tables_ok s \<longleftrightarrow> map_sorted (v_page_table s) \<and> map_sorted (v_inverse_table s) \<and>
     (\<forall>v p. map_of (v_page_table s) v = Some p \<longleftrightarrow> map_of (v_inverse_table s) p = Some v) \<and>
     length (v_page_table s) = unat (v_allocated_pages s) \<and>
     length (v_inverse_table s) = unat (v_allocated_pages s) \<and>
     length (v_page_queue s) = unat (v_allocated_pages s) \<and>
     unat (v_allocated_pages s) \<le> DRAM_PAGES \<and> v_recent_page s = []"

definition counters_ok :: "page_state \<Rightarrow> bool" where
  "counters_ok s \<longleftrightarrow> length (v_unique_cl s) = NUM_CPUS \<and> length (v_num_cl s) = NUM_CPUS \<and>
     length (v_num_page s) = NUM_CPUS \<and> length (v_minor_fault s) = NUM_CPUS \<and>
     length (v_major_fault s) = NUM_CPUS \<and> length (v_stall_cycle s) = NUM_CPUS"

definition page_inv :: "page_state \<Rightarrow> bool" where
  "page_inv s \<longleftrightarrow> tables_ok s \<and> counters_ok s"

lemma page_inv_new: "page_inv page_state_new"
  by (simp add: page_inv_def tables_ok_def counters_ok_def page_state_new_def)

text \<open>The generator: no set of frames that fits in memory holds all the numbers still to come.\<close>

definition draws_ok :: "(nat \<Rightarrow> u64) \<Rightarrow> bool" where
  "draws_ok draw \<longleftrightarrow> (\<forall>S n. finite S \<longrightarrow> card S \<le> DRAM_PAGES \<longrightarrow> (\<exists>k \<ge> n. draw k \<notin> S))"

lemma find_frame_ends:
  assumes "draw k \<notin> fst ` set it" "n \<le> k"
  shows "\<exists>p m f. find_frame draw it adj r n frag = Some (p, m, f) \<and> p \<notin> fst ` set it"
  using assms(2)
proof (induction "k - n" arbitrary: r n frag)
  case 0
  then have "n = k" by simp
  show ?case
  proof (cases "map_of it r")
    case None
    then show ?thesis by (subst find_frame.simps) (simp add: map_of_key)
  next
    case (Some v)
    have "map_of it (draw k) = None" using assms(1) by (simp add: map_of_key)
    then have "find_frame draw it adj r n frag = Some (draw k, Suc k, adj \<or> frag)"
      using Some \<open>n = k\<close> by (simp add: find_frame.simps [of _ _ _ r] find_frame.simps [of _ _ _ "draw k"])
    then show ?thesis using assms(1) by blast
  qed
next
  case (Suc d)
  show ?case
  proof (cases "map_of it r")
    case None
    then show ?thesis by (subst find_frame.simps) (simp add: map_of_key)
  next
    case (Some v)
    then have "find_frame draw it adj r n frag = find_frame draw it adj (draw n) (Suc n) (adj \<or> frag)"
      by (subst find_frame.simps) simp
    then show ?thesis using Suc.hyps(1) [of "Suc n" "draw n" "adj \<or> frag"] Suc.hyps(2) Suc.prems by simp
  qed
qed

lemma free_frame:
  assumes "draws_ok draw" "tables_ok s"
  shows "\<exists>p m f. find_frame draw (v_inverse_table s) adj r n frag = Some (p, m, f) \<and>
    p \<notin> fst ` set (v_inverse_table s)"
proof -
  let ?S = "fst ` set (v_inverse_table s)"
  have "card ?S \<le> card (set (v_inverse_table s))" by (rule card_image_le) simp
  also have "\<dots> \<le> length (v_inverse_table s)" by (rule card_length)
  also have "\<dots> \<le> DRAM_PAGES" using assms(2) by (simp add: tables_ok_def)
  finally obtain k where "n \<le> k" "draw k \<notin> ?S" using assms(1) unfolding draws_ok_def by blast
  then show ?thesis using find_frame_ends by blast
qed

lemma bump_Some: "i < length xs \<Longrightarrow> bump xs i = Some (xs[i := xs ! i + 1])"
  by (simp add: bump_def)

text \<open>What a page fault does to the tables.\<close>

definition mapping :: "page_state \<Rightarrow> u64 \<Rightarrow> u64 option" where
  "mapping s = map_of (v_page_table s)"

lemma mapping_inverse:
  "tables_ok s \<Longrightarrow> mapping s v = Some p \<longleftrightarrow> map_of (v_inverse_table s) p = Some v"
  by (simp add: tables_ok_def mapping_def)

lemma mapping_inj: "tables_ok s \<Longrightarrow> mapping s v = Some p \<Longrightarrow> mapping s w = Some p \<Longrightarrow> v = w"
  by (simp add: mapping_inverse)

lemma unat_suc_pages: "unat x < DRAM_PAGES \<Longrightarrow> unat (x + 1 :: u64) = Suc (unat x)"
  using unat_inc [of x "of_nat DRAM_PAGES"] by (simp add: word_less_nat_alt DRAM_PAGES_def)

lemma allocate_page_total:
  assumes inv: "tables_ok s" "counters_ok s" and draw: "draws_ok draw"
    and new: "mapping s vpage = None" and room: "unat (v_allocated_pages s) < DRAM_PAGES" and cpu: "unat cpu < NUM_CPUS"
  shows "\<exists>s' p. allocate_page draw rnd cpu vpage s = Some s' \<and> tables_ok s' \<and> counters_ok s' \<and>
    mapping s' = (mapping s)(vpage \<mapsto> p) \<and> (\<forall>v. mapping s v \<noteq> Some p) \<and>
    v_stall_cycle s' = v_stall_cycle s"
proof -
  define r where "r = (if 0 < v_num_adjacent_page s
    then find_frame draw (v_inverse_table s) (0 < v_num_adjacent_page s) (v_previous_ppage s + 1) (v_draws s) False
    else find_frame draw (v_inverse_table s) (0 < v_num_adjacent_page s) (draw (v_draws s)) (Suc (v_draws s)) True)"
  have "\<exists>p m f. r = Some (p, m, f) \<and> p \<notin> fst ` set (v_inverse_table s)"
    unfolding r_def using free_frame [OF draw inv(1)] by (cases "0 < v_num_adjacent_page s") simp_all
  then obtain p m f where r: "r = Some (p, m, f)" and p: "p \<notin> fst ` set (v_inverse_table s)" by blast
  have v: "vpage \<notin> fst ` set (v_page_table s)" using new by (simp add: mapping_def map_of_key)
  have sorted: "map_sorted (v_page_table s)" "map_sorted (v_inverse_table s)" using inv(1) by (auto simp: tables_ok_def)
  have bump: "bump (v_num_page s) (unat cpu) = Some ((v_num_page s)[unat cpu := v_num_page s ! unat cpu + 1])"
    using inv(2) cpu by (intro bump_Some) (simp add: counters_ok_def)
  define s' where "s' = s\<lparr>v_page_table := map_insert vpage p (v_page_table s),
       v_inverse_table := map_insert p vpage (v_inverse_table s),
       v_page_queue := v_page_queue s @ [vpage], v_previous_ppage := p,
       v_num_page := (v_num_page s)[unat cpu := v_num_page s ! unat cpu + 1],
       v_allocated_pages := v_allocated_pages s + 1, v_draws := m,
       v_num_adjacent_page := (if f then push_bit (rnd (v_rands s) mod 10) 1 else v_num_adjacent_page s - 1),
       v_rands := (if f then Suc (v_rands s) else v_rands s)\<rparr>"
  have run: "allocate_page draw rnd cpu vpage s = Some s'"
    using r unfolding r_def by (simp add: allocate_page_def bump s'_def Let_def)
  have fresh: "mapping s w \<noteq> Some p" for w using p by (simp add: mapping_inverse [OF inv(1)] map_of_key [symmetric])
  have mp: "mapping s' = (mapping s)(vpage \<mapsto> p)"
    using v by (simp add: mapping_def s'_def map_of_map_insert [OF sorted(1)])
  have im: "map_of (v_inverse_table s') = (map_of (v_inverse_table s))(p \<mapsto> vpage)"
    using p by (simp add: s'_def map_of_map_insert [OF sorted(2)])
  have "mapping s' w = Some q \<longleftrightarrow> map_of (v_inverse_table s') q = Some w" for w q
    using new fresh unfolding mp im by (auto simp: mapping_inverse [OF inv(1), symmetric])
  then have "tables_ok s'"
    using inv(1) p v room unfolding tables_ok_def mapping_def
    by (simp add: s'_def map_insert_sorted map_insert_length unat_suc_pages)
  moreover have "counters_ok s'" using inv(2) by (simp add: counters_ok_def s'_def)
  moreover have "v_stall_cycle s' = v_stall_cycle s" by (simp add: s'_def)
  ultimately show ?thesis using run mp fresh by blast
qed

lemma swap_page_total:
  assumes inv: "tables_ok s" and new: "mapping s vpage = None" and full: "DRAM_PAGES \<le> unat (v_allocated_pages s)"
  shows "\<exists>s' old p rest. swap_page vpage s = Some (s', old, p) \<and> tables_ok s' \<and> v_page_table s = (old, p) # rest \<and>
    mapping s' = (mapping s)(old := None, vpage \<mapsto> p) \<and>
    (counters_ok s \<longrightarrow> counters_ok s') \<and> v_stall_cycle s' = v_stall_cycle s"
proof -
  have len: "length (v_page_table s) = DRAM_PAGES" "length (v_page_queue s) = DRAM_PAGES"
    using inv full by (auto simp: tables_ok_def)
  have "0 < DRAM_PAGES" by (simp add: DRAM_PAGES_def)
  then have "v_page_table s \<noteq> []" "v_page_queue s \<noteq> []" using len by auto
  then obtain old p rest v0 vs where t: "v_page_table s = (old, p) # rest" and q: "v_page_queue s = v0 # vs"
    by (metis list.exhaust surj_pair)
  have found: "List.find (\<lambda>(v, _). map_of (v_recent_page s) v = None) (v_page_table s) = Some (old, p)"
    using inv by (simp add: t tables_ok_def)
  have oldp: "mapping s old = Some p" by (simp add: mapping_def t)
  then have ip: "map_of (v_inverse_table s) p = Some old" using mapping_inverse [OF inv] by simp
  then have pin: "p \<in> fst ` set (v_inverse_table s)" using map_of_key [of "v_inverse_table s" p] by auto
  have sorted: "map_sorted (v_page_table s)" "map_sorted (v_inverse_table s)" using inv by (auto simp: tables_ok_def)
  have v: "vpage \<notin> fst ` set (v_page_table s)" using new by (simp add: mapping_def map_of_key)
  define s' where "s' = s\<lparr>v_page_table := map_insert vpage p (map_erase old (v_page_table s)),
    v_inverse_table := map_assign p vpage (v_inverse_table s), v_page_queue := vs @ [vpage]\<rparr>"
  have run: "swap_page vpage s = Some (s', old, p)"
    using found ip q by (simp add: swap_page_def s'_def)
  have mp: "mapping s' = (mapping s)(old := None, vpage \<mapsto> p)"
    using v by (simp add: mapping_def s'_def map_of_map_insert map_erase_sorted sorted map_of_map_erase)
  have im: "map_of (v_inverse_table s') = (map_of (v_inverse_table s))(p \<mapsto> vpage)"
    using pin by (simp add: s'_def map_of_map_assign)
  have "mapping s' w = Some r \<longleftrightarrow> map_of (v_inverse_table s') r = Some w" for w r
    using new oldp unfolding mp im
    by (auto simp: mapping_inverse [OF inv, symmetric] dest: mapping_inj [OF inv])
  moreover have "length (v_page_table s') = length (v_page_table s)"
    using map_erase_length [OF sorted(1), of old] v
    by (simp add: s'_def map_insert_length map_erase_sorted sorted) (simp add: t)
  ultimately have "tables_ok s'"
    using inv q len unfolding tables_ok_def mapping_def
    by (simp add: s'_def map_insert_sorted map_erase_sorted)
  then show ?thesis using run t mp by (auto simp: counters_ok_def s'_def)
qed

text \<open>The footprint counters leave the tables alone.\<close>

lemma note_line_total:
  assumes "counters_ok s" "unat cpu < NUM_CPUS"
  shows "\<exists>s'. note_line cpu a s = Some s' \<and> counters_ok s' \<and> tables_ok s' = tables_ok s \<and>
    mapping s' = mapping s \<and> v_allocated_pages s' = v_allocated_pages s \<and>
    v_page_table s' = v_page_table s \<and> v_stall_cycle s' = v_stall_cycle s"
proof -
  have "bump (v_num_cl s) (unat cpu) = Some ((v_num_cl s)[unat cpu := v_num_cl s ! unat cpu + 1])"
    using assms by (intro bump_Some) (simp add: counters_ok_def)
  moreover have "unat cpu < length (v_unique_cl s)" using assms by (simp add: counters_ok_def)
  ultimately show ?thesis using assms(1)
    by (cases "map_of (v_unique_cl s ! unat cpu) (drop_bit LOG2_BLOCK_SIZE a)")
      (auto simp: note_line_def Let_def counters_ok_def tables_ok_def mapping_def)
qed

text \<open>What a translation may do to the mapping of a page.\<close>

definition fault_outcome :: "page_state \<Rightarrow> page_state \<Rightarrow> u64 \<Rightarrow> u64 \<Rightarrow> (u64 \<times> u64) option \<Rightarrow> bool" where
  "fault_outcome s s' vpage p evicted \<longleftrightarrow>
     (if unat (v_allocated_pages s) < DRAM_PAGES
      then evicted = None \<and> mapping s' = (mapping s)(vpage \<mapsto> p) \<and> (\<forall>v. mapping s v \<noteq> Some p)
      else \<exists>old rest. v_page_table s = (old, p) # rest \<and> evicted = Some (old, p) \<and>
        mapping s' = (mapping s)(old := None, vpage \<mapsto> p))"

lemma page_fault_total:
  assumes inv: "tables_ok s" "counters_ok s" and draw: "draws_ok draw" and new: "mapping s vpage = None" and cpu: "unat cpu < NUM_CPUS"
  shows "\<exists>s' p evicted. page_fault draw rnd cpu vpage s = Some (s', evicted) \<and> tables_ok s' \<and> counters_ok s' \<and>
    fault_outcome s s' vpage p evicted"
proof (cases "unat (v_allocated_pages s) < DRAM_PAGES")
  case True
  obtain s1 p where s1: "allocate_page draw rnd cpu vpage s = Some s1" "tables_ok s1" "counters_ok s1"
    "mapping s1 = (mapping s)(vpage \<mapsto> p)" "\<forall>v. mapping s v \<noteq> Some p"
    using allocate_page_total [OF inv draw new True cpu, of rnd] by blast
  let ?f = "(v_minor_fault s1)[unat cpu := v_minor_fault s1 ! unat cpu + 1]"
  have "bump (v_minor_fault s1) (unat cpu) = Some ?f"
    using s1(3) cpu by (intro bump_Some) (simp add: counters_ok_def)
  then have "page_fault draw rnd cpu vpage s = Some (s1\<lparr>v_minor_fault := ?f\<rparr>, None)"
    using True s1(1) by (simp add: page_fault_def)
  moreover have "fault_outcome s (s1\<lparr>v_minor_fault := ?f\<rparr>) vpage p None"
    using True s1(4,5) by (simp add: fault_outcome_def mapping_def)
  moreover have "tables_ok (s1\<lparr>v_minor_fault := ?f\<rparr>)" "counters_ok (s1\<lparr>v_minor_fault := ?f\<rparr>)"
    using s1(2,3) by (simp_all add: tables_ok_def counters_ok_def)
  ultimately show ?thesis by blast
next
  case False
  then have full: "DRAM_PAGES \<le> unat (v_allocated_pages s)" by simp
  obtain s1 old p rest where s1: "swap_page vpage s = Some (s1, old, p)" "tables_ok s1" "counters_ok s1"
    "v_page_table s = (old, p) # rest" "mapping s1 = (mapping s)(old := None, vpage \<mapsto> p)"
    using swap_page_total [OF inv(1) new full] inv(2) by blast
  let ?f = "(v_major_fault s1)[unat cpu := v_major_fault s1 ! unat cpu + 1]"
  have "bump (v_major_fault s1) (unat cpu) = Some ?f"
    using s1(3) cpu by (intro bump_Some) (simp add: counters_ok_def)
  then have "page_fault draw rnd cpu vpage s = Some (s1\<lparr>v_major_fault := ?f\<rparr>, Some (old, p))"
    using full s1(1) by (simp add: page_fault_def)
  moreover have "fault_outcome s (s1\<lparr>v_major_fault := ?f\<rparr>) vpage p (Some (old, p))"
    using False s1(4,5) by (simp add: fault_outcome_def mapping_def)
  moreover have "tables_ok (s1\<lparr>v_major_fault := ?f\<rparr>)" "counters_ok (s1\<lparr>v_major_fault := ?f\<rparr>)"
    using s1(2,3) by (simp_all add: tables_ok_def counters_ok_def)
  ultimately show ?thesis by blast
qed

lemma high_bit_mask: "unat (cpu :: u32) < NUM_CPUS \<Longrightarrow> rotr64 (ucast cpu) (of_int (lg2 NUM_CPUS)) = Some 0"
proof -
  assume "unat cpu < NUM_CPUS"
  then have "cpu = 0" by (simp add: NUM_CPUS_def unat_eq_0 [symmetric])
  moreover have "lg2 NUM_CPUS = 0" using lg2_pow [of 0] by (simp add: NUM_CPUS_def)
  ultimately show ?thesis by (simp add: rotr64_def)
qed

text \<open>The physical address: the frame with the offset in the page.\<close>

definition physical :: "u64 \<Rightarrow> u64 \<Rightarrow> u64" where
  "physical p va = push_bit LOG2_PAGE_SIZE p OR (va AND mask LOG2_PAGE_SIZE)"

lemma translate_total:
  assumes inv: "page_inv s" and draw: "draws_ok draw" and va: "va \<noteq> 0"
    and cpu: "unat cpu < NUM_CPUS" "NUM_CPUS \<le> length now"
  shows "\<exists>s' p evicted. translate draw rnd now cpu va vpage s = Some (s', physical p va, evicted) \<and> page_inv s' \<and>
    mapping s' vpage = Some p \<and>
    (if mapping s vpage = None then fault_outcome s s' vpage p evicted
     else evicted = None \<and> mapping s' = mapping s) \<and>
    v_stall_cycle s' ! unat cpu = now ! unat cpu + ucast (if evicted = None then v_PAGE_TABLE_LATENCY s' else v_SWAP_LATENCY s')"
proof -
  have inv': "tables_ok s" "counters_ok s" using inv by (auto simp: page_inv_def)
  obtain s1 where s1: "note_line cpu va s = Some s1" "counters_ok s1" "tables_ok s1" "mapping s1 = mapping s"
      "v_allocated_pages s1 = v_allocated_pages s" "v_page_table s1 = v_page_table s"
    using note_line_total [OF inv'(2) cpu(1), of va] inv'(1) by blast
  have "\<exists>s2 p evicted. (case map_of (v_page_table s1) vpage of None \<Rightarrow> page_fault draw rnd cpu vpage s1
        | Some _ \<Rightarrow> Some (s1, None)) = Some (s2, evicted) \<and> tables_ok s2 \<and> counters_ok s2 \<and> mapping s2 vpage = Some p \<and>
      (if mapping s vpage = None then fault_outcome s s2 vpage p evicted else evicted = None \<and> mapping s2 = mapping s)"
  proof (cases "mapping s vpage")
    case None
    then obtain s2 p evicted where f: "page_fault draw rnd cpu vpage s1 = Some (s2, evicted)" "tables_ok s2"
        "counters_ok s2" "fault_outcome s1 s2 vpage p evicted"
      using page_fault_total [OF s1(3,2) draw _ cpu(1), of vpage rnd] s1(4) by force
    have out: "fault_outcome s s2 vpage p evicted" using f(4) unfolding fault_outcome_def s1(4) s1(5) s1(6) .
    then have "mapping s2 vpage = Some p" by (auto simp: fault_outcome_def split: if_splits)
    then show ?thesis using f(1-3) out None s1(4) by (auto simp: mapping_def)
  next
    case (Some p)
    then show ?thesis using s1 by (auto simp: mapping_def)
  qed
  then obtain s2 p evicted where s2: "(case map_of (v_page_table s1) vpage of None \<Rightarrow> page_fault draw rnd cpu vpage s1
        | Some _ \<Rightarrow> Some (s1, None)) = Some (s2, evicted)" "tables_ok s2" "counters_ok s2" "mapping s2 vpage = Some p"
      "if mapping s vpage = None then fault_outcome s s2 vpage p evicted else evicted = None \<and> mapping s2 = mapping s"
    by (elim exE conjE) (rule that; assumption)
  let ?c = "now ! unat cpu + ucast (if evicted \<noteq> None then v_SWAP_LATENCY s2 else v_PAGE_TABLE_LATENCY s2)"
  define s' where "s' = s2\<lparr>v_stall_cycle := (v_stall_cycle s2)[unat cpu := ?c]\<rparr>"
  have len: "unat cpu < length (v_stall_cycle s2)" using s2(3) cpu(1) by (simp add: counters_ok_def)
  have off: "of_int (push_bit LOG2_PAGE_SIZE 1 - 1) = (mask LOG2_PAGE_SIZE :: u64)" by (simp add: mask_eq_exp_minus_1)
  have pt: "map_of (v_page_table s2) vpage = Some p" using s2(4) by (simp add: mapping_def)
  have "translate draw rnd now cpu va vpage s = Some (s', physical p va, evicted)"
    unfolding translate_def high_bit_mask [OF cpu(1)] Let_def bind.bind_lunit or.right_neutral off
    using s1(1) s2(1) pt len cpu va by (simp add: s'_def physical_def)
  moreover have "page_inv s'" "mapping s' = mapping s2"
    using s2(2,3) by (auto simp: page_inv_def s'_def tables_ok_def counters_ok_def mapping_def)
  moreover have "if mapping s vpage = None then fault_outcome s s' vpage p evicted else evicted = None \<and> mapping s' = mapping s"
    using s2(5) unfolding fault_outcome_def \<open>mapping s' = mapping s2\<close> .
  moreover have "v_stall_cycle s' ! unat cpu = now ! unat cpu + ucast (if evicted = None then v_PAGE_TABLE_LATENCY s' else v_SWAP_LATENCY s')"
    using len by (simp add: s'_def)
  ultimately show ?thesis using s2(4) by auto
qed

section \<open>Properties\<close>

definition page_request_ok :: "page_request \<Rightarrow> bool" where
  "page_request_ok r \<longleftrightarrow> (case r of (now, cpu, va, vpage) \<Rightarrow> NUM_CPUS \<le> length now \<and> unat cpu < NUM_CPUS \<and> va \<noteq> 0)"

lemma translate_all_total:
  "page_inv s \<Longrightarrow> draws_ok draw \<Longrightarrow> list_all page_request_ok rs \<Longrightarrow>
     \<exists>t. translate_all draw rnd s rs = Some t \<and> page_inv t"
proof (induction rs arbitrary: s)
  case Nil
  then show ?case by (simp add: translate_all_def)
next
  case (Cons r rs)
  obtain now cpu va vpage where r: "r = (now, cpu, va, vpage)" by (cases r)
  then have ok: "va \<noteq> 0" "unat cpu < NUM_CPUS" "NUM_CPUS \<le> length now" using Cons.prems(3) by (auto simp: page_request_ok_def)
  obtain s1 pa ev where s1: "translate draw rnd now cpu va vpage s = Some (s1, pa, ev)" "page_inv s1"
    using translate_total [OF Cons.prems(1,2) ok, of rnd vpage] by blast
  show ?case using Cons.IH [OF s1(2) Cons.prems(2)] Cons.prems(3) s1(1) by (simp add: translate_all_def r)
qed

text \<open>
  C24. From the state \<open>main\<close> starts with, any sequence of translations of addresses other than 0
  ends, whatever \<open>rand()\<close> returns, as long as the generator does not stay within the taken
  frames; and at the end no two virtual pages share a frame and no more than \<open>DRAM_PAGES\<close>
  frames are in use.
\<close>

theorem pages_never_alias:
  assumes "draws_ok draw" "list_all page_request_ok rs"
  shows "\<exists>s. translate_all draw rnd page_state_new rs = Some s \<and>
    (\<forall>v w p. mapping s v = Some p \<and> mapping s w = Some p \<longrightarrow> v = w) \<and> card (dom (mapping s)) \<le> DRAM_PAGES"
proof -
  obtain s where s: "translate_all draw rnd page_state_new rs = Some s" "page_inv s"
    using translate_all_total [OF page_inv_new assms] by blast
  have ok: "tables_ok s" using s(2) by (simp add: page_inv_def)
  have "card (dom (mapping s)) \<le> card (set (v_page_table s))"
    unfolding mapping_def dom_map_of_conv_image_fst by (rule card_image_le) simp
  also have "\<dots> \<le> DRAM_PAGES" using card_length [of "v_page_table s"] ok by (simp add: tables_ok_def)
  finally show ?thesis using s(1) mapping_inj [OF ok] by blast
qed

text \<open>A generator in the range of \<open>champsim_rand\<close>: it counts.\<close>

definition demo_draw :: "nat \<Rightarrow> u64" where
  "demo_draw n = of_nat (n mod 2 ^ 36)"

lemma demo_draws_ok: "draws_ok demo_draw"
  unfolding draws_ok_def
proof (intro allI impI)
  fix S :: "u64 set" and n
  assume S: "finite S" "card S \<le> DRAM_PAGES"
  define m :: nat where "m = 2 ^ 36 * (n div 2 ^ 36 + 1)"
  have inj: "inj_on (\<lambda>k. of_nat k :: u64) {..DRAM_PAGES}"
    by (rule inj_onI) (simp add: DRAM_PAGES_def of_nat_eq_iff word_of_nat_eq_iff take_bit_nat_eq_self)
  have "\<not> (\<lambda>k. of_nat k :: u64) ` {..DRAM_PAGES} \<subseteq> S"
  proof
    assume "(\<lambda>k. of_nat k :: u64) ` {..DRAM_PAGES} \<subseteq> S"
    then have "card {..DRAM_PAGES} \<le> card S" using card_mono [OF S(1)] card_image [OF inj] by metis
    then show False using S(2) by simp
  qed
  then obtain k where k: "k \<le> DRAM_PAGES" "of_nat k \<notin> S" by auto
  have "k mod 2 ^ 36 = k" using k(1) by (simp add: DRAM_PAGES_def)
  moreover have "(m + k) mod 2 ^ 36 = k mod 2 ^ 36" unfolding m_def by (rule mod_mult_self4)
  ultimately have "demo_draw (m + k) = of_nat k" by (simp only: demo_draw_def)
  moreover have "n \<le> m + k"
    using mult_div_mod_eq [of "2 ^ 36" n] mod_less_divisor [of "2 ^ 36" n] by (simp add: m_def)
  ultimately show "\<exists>k \<ge> n. demo_draw k \<notin> S" using k(2) by metis
qed

lemma pages_never_alias_witness:
  "\<exists>s. translate_all demo_draw (\<lambda>n. n) page_state_new [([7], 0, 0x1234, 1), ([9], 0, 0x5678, 5)] = Some s \<and>
    (\<forall>v w p. mapping s v = Some p \<and> mapping s w = Some p \<longrightarrow> v = w) \<and> card (dom (mapping s)) \<le> DRAM_PAGES"
  by (rule pages_never_alias [OF demo_draws_ok]) (simp add: page_request_ok_def NUM_CPUS_def)

text \<open>
  A mapped page keeps its frame: translating any address of it gives the frame with the
  offset, charges the page table latency and leaves every mapping as it is.
\<close>

theorem mapped_page_is_stable:
  assumes "page_inv s" "draws_ok draw" "va \<noteq> 0" "unat cpu < NUM_CPUS" "NUM_CPUS \<le> length now"
    and "mapping s vpage = Some p"
  shows "\<exists>s'. translate draw rnd now cpu va vpage s = Some (s', physical p va, None) \<and> page_inv s' \<and>
    mapping s' = mapping s \<and> v_stall_cycle s' ! unat cpu = now ! unat cpu + ucast (v_PAGE_TABLE_LATENCY s')"
  using translate_total [OF assms(1-5), of rnd vpage] assms(6) by auto

text \<open>
  A new page gets a frame no page had, and every other page keeps its frame, while memory
  is not full.
\<close>

theorem new_page_gets_free_frame:
  assumes "page_inv s" "draws_ok draw" "va \<noteq> 0" "unat cpu < NUM_CPUS" "NUM_CPUS \<le> length now"
    and "mapping s vpage = None" "unat (v_allocated_pages s) < DRAM_PAGES"
  shows "\<exists>s' p. translate draw rnd now cpu va vpage s = Some (s', physical p va, None) \<and> page_inv s' \<and>
    (\<forall>v. mapping s v \<noteq> Some p) \<and> mapping s' = (mapping s)(vpage \<mapsto> p)"
  using translate_total [OF assms(1-5), of rnd vpage] assms(6,7) by (auto simp: fault_outcome_def)

lemma swap_outcome:
  assumes "page_inv s" "draws_ok draw" "va \<noteq> 0" "unat cpu < NUM_CPUS" "NUM_CPUS \<le> length now"
    and "mapping s vpage = None" "DRAM_PAGES \<le> unat (v_allocated_pages s)"
  shows "\<exists>s' old p. translate draw rnd now cpu va vpage s = Some (s', physical p va, Some (old, p)) \<and> page_inv s' \<and>
    mapping s old = Some p \<and> (\<forall>v \<in> dom (mapping s). old \<le> v) \<and>
    mapping s' = (mapping s)(old := None, vpage \<mapsto> p) \<and>
    v_stall_cycle s' ! unat cpu = now ! unat cpu + ucast (v_SWAP_LATENCY s')"
proof -
  obtain s' p evicted where t: "translate draw rnd now cpu va vpage s = Some (s', physical p va, evicted)" "page_inv s'"
      "fault_outcome s s' vpage p evicted"
      "v_stall_cycle s' ! unat cpu = now ! unat cpu + ucast (if evicted = None then v_PAGE_TABLE_LATENCY s' else v_SWAP_LATENCY s')"
    using translate_total [OF assms(1-5), of rnd vpage] assms(6) by auto
  then obtain old rest where o: "v_page_table s = (old, p) # rest" "evicted = Some (old, p)"
      "mapping s' = (mapping s)(old := None, vpage \<mapsto> p)"
    using assms(7) by (auto simp: fault_outcome_def)
  have "map_sorted ((old, p) # rest)" using assms(1) o(1) by (simp add: page_inv_def tables_ok_def)
  then have "\<forall>v \<in> dom (mapping s). old \<le> v"
    by (auto simp: mapping_def o(1) dom_map_of_conv_image_fst order_less_imp_le simp del: map_of.simps)
  then show ?thesis using t o by (auto simp: mapping_def)
qed

text \<open>
  C25. When memory is full a new page takes the frame of the mapped page with the least number,
  however recently it was used; that page is unmapped and the swap latency is charged.
\<close>

theorem swap_evicts_least_page:
  assumes "page_inv s" "draws_ok draw" "va \<noteq> 0" "unat cpu < NUM_CPUS" "NUM_CPUS \<le> length now"
    and "mapping s vpage = None" "DRAM_PAGES \<le> unat (v_allocated_pages s)"
  shows "\<exists>s' old p. translate draw rnd now cpu va vpage s = Some (s', physical p va, Some (old, p)) \<and> page_inv s' \<and>
    mapping s old = Some p \<and> (\<forall>v \<in> dom (mapping s). old \<le> v) \<and>
    mapping s' = (mapping s)(old := None, vpage \<mapsto> p) \<and>
    v_stall_cycle s' ! unat cpu = now ! unat cpu + ucast (v_SWAP_LATENCY s')"
  using assms by (rule swap_outcome)

text \<open>Inputs: the state after one translation, and a full memory in which page \<open>v\<close> has frame \<open>v + 7\<close>.\<close>

definition demo_pages :: page_state where
  "demo_pages = page_state_new\<lparr>v_page_table := [(1, 5)], v_inverse_table := [(5, 1)],
     v_page_queue := [1], v_allocated_pages := 1\<rparr>"

lemma demo_pages_inv: "page_inv demo_pages" "mapping demo_pages 1 = Some 5" "mapping demo_pages 2 = None"
  by (simp_all add: demo_pages_def page_inv_def tables_ok_def counters_ok_def page_state_new_def DRAM_PAGES_def mapping_def)

definition full_pages :: page_state where
  "full_pages = page_state_new\<lparr>v_page_table := map (\<lambda>n. (of_nat n, of_nat n + 7)) [0..<DRAM_PAGES],
     v_inverse_table := map (\<lambda>n. (of_nat n + 7, of_nat n)) [0..<DRAM_PAGES],
     v_page_queue := map of_nat [0..<DRAM_PAGES], v_allocated_pages := of_nat DRAM_PAGES\<rparr>"

lemma small_word:
  "n < DRAM_PAGES \<Longrightarrow> unat (of_nat n :: u64) = n" "n < DRAM_PAGES \<Longrightarrow> unat (of_nat n + 7 :: u64) = n + 7"
proof -
  assume n: "n < DRAM_PAGES"
  then show "unat (of_nat n :: u64) = n" by (intro of_nat_inverse) (auto simp: DRAM_PAGES_def)
  have "(of_nat n + 7 :: u64) = of_nat (n + 7)" by simp
  also have "unat (of_nat (n + 7) :: u64) = n + 7"
    using n by (intro of_nat_inverse) (auto simp: DRAM_PAGES_def)
  finally show "unat (of_nat n + 7 :: u64) = n + 7" .
qed

lemma sorted_upt_map:
  "(\<And>i j. i < j \<Longrightarrow> j < n \<Longrightarrow> f i < (f j :: u64)) \<Longrightarrow> map_sorted (map (\<lambda>n. (f n, g n)) [0..<n])"
  by (auto simp: map_sorted_def o_def sorted_wrt_iff_nth_less)

lemma map_of_upt_iff:
  "inj_on f {..<n} \<Longrightarrow> map_of (map (\<lambda>n. (f n, g n)) [0..<n]) v = Some p \<longleftrightarrow> (\<exists>i < n. v = f i \<and> p = g i)"
  by (subst map_of_eq_Some_iff) (auto simp: o_def distinct_map atLeast0LessThan)

lemma full_pages_inv:
  "page_inv full_pages" "DRAM_PAGES \<le> unat (v_allocated_pages full_pages)" "mapping full_pages (- 1) = None"
proof -
  have less: "of_nat i < (of_nat j :: u64)" "of_nat i + 7 < (of_nat j + 7 :: u64)" if "i < j" "j < DRAM_PAGES" for i j
    using that by (simp_all add: word_less_nat_alt small_word)
  have inj: "inj_on (of_nat :: nat \<Rightarrow> u64) {..<DRAM_PAGES}" "inj_on (\<lambda>n. of_nat n + 7 :: u64) {..<DRAM_PAGES}"
    by (auto intro!: inj_onI dest!: arg_cong [of _ _ unat] simp: small_word)
  note lookup = map_of_upt_iff [OF inj(1), of "\<lambda>n. of_nat n + 7 :: u64"] map_of_upt_iff [OF inj(2), of of_nat]
  have size: "unat (of_nat DRAM_PAGES :: u64) = DRAM_PAGES" by (simp add: DRAM_PAGES_def)
  have "tables_ok full_pages"
    unfolding tables_ok_def full_pages_def
    by (simp add: lookup size sorted_upt_map less page_state_new_def conj_commute)
  then show "page_inv full_pages" by (simp add: page_inv_def counters_ok_def full_pages_def page_state_new_def)
  show "DRAM_PAGES \<le> unat (v_allocated_pages full_pages)" by (simp add: full_pages_def size)
  have "(- 1 :: u64) \<noteq> of_nat i" if "i < DRAM_PAGES" for i
    using small_word(1) [OF that] that
    by (auto simp: DRAM_PAGES_def unsigned_minus_1_eq_mask mask_eq_exp_minus_1 dest!: arg_cong [of _ _ unat])
  then show "mapping full_pages (- 1) = None"
    using lookup(1) [of "- 1"] by (cases "mapping full_pages (- 1)") (auto simp: mapping_def full_pages_def)
qed

lemma mapped_page_is_stable_witness:
  "\<exists>s'. translate demo_draw (\<lambda>n. n) [7] 0 0x1234 1 demo_pages = Some (s', physical 5 0x1234, None) \<and> page_inv s' \<and>
    mapping s' = mapping demo_pages \<and> v_stall_cycle s' ! unat (0 :: u32) = [7] ! unat (0 :: u32) + ucast (v_PAGE_TABLE_LATENCY s')"
  by (rule mapped_page_is_stable [OF demo_pages_inv(1) demo_draws_ok _ _ _ demo_pages_inv(2)]) (simp_all add: NUM_CPUS_def)

lemma new_page_gets_free_frame_witness:
  "\<exists>s' p. translate demo_draw (\<lambda>n. n) [7] 0 0x2345 2 demo_pages = Some (s', physical p 0x2345, None) \<and> page_inv s' \<and>
    (\<forall>v. mapping demo_pages v \<noteq> Some p) \<and> mapping s' = (mapping demo_pages)(2 \<mapsto> p)"
  by (rule new_page_gets_free_frame [OF demo_pages_inv(1) demo_draws_ok _ _ _ demo_pages_inv(3)])
    (simp_all add: NUM_CPUS_def demo_pages_def DRAM_PAGES_def)

lemma swap_evicts_least_page_witness:
  "\<exists>s' old p. translate demo_draw (\<lambda>n. n) [7] 0 0x1234 (- 1) full_pages = Some (s', physical p 0x1234, Some (old, p)) \<and>
    page_inv s' \<and> mapping full_pages old = Some p \<and> (\<forall>v \<in> dom (mapping full_pages). old \<le> v) \<and>
    mapping s' = (mapping full_pages)(old := None, - 1 \<mapsto> p) \<and>
    v_stall_cycle s' ! unat (0 :: u32) = [7] ! unat (0 :: u32) + ucast (v_SWAP_LATENCY s')"
  by (rule swap_evicts_least_page [OF full_pages_inv(1) demo_draws_ok _ _ _ full_pages_inv(3,2)]) (simp_all add: NUM_CPUS_def)

end
