(* ===== verification/Memory_System.thy ===== *)
theory Memory_System
  imports Memory_Controller Page_Table
begin

text \<open>
  The memory system: the caches and memory controllers of the machine and the messages between
  them, from \<open>src/cache.cc\<close>, \<open>src/main.cc\<close> and \<open>src/dram_controller.cc\<close>.

  A \<open>MEMORY *\<close> of the source is an \<open>obj\<close>: an index into the list of the caches or into the list
  of the controllers.  A virtual call dispatches on it; a call through a null pointer fails.
  Every operation takes and returns the state of the whole system, since a request can reach
  down to the controller and its answer come back up within one call.
\<close>

section \<open>State\<close>

text \<open>The caches of one \<open>O3_CPU\<close>.\<close>

record core_caches =
  i_ITLB :: nat
  i_DTLB :: nat
  i_STLB :: nat
  i_L1I :: nat
  i_L1D :: nat
  i_L2C :: nat

text \<open>A controller with its constants and the caches above it.\<close>

record memory_object =
  o_config :: mc_config
  o_mc :: memory_controller
  o_upper_icache :: "obj option list"
  o_upper_dcache :: "obj option list"

record sys =
  y_caches :: "cache list"
  y_mems :: "memory_object list"
  y_globals :: globals
  y_pages :: page_state
  y_cores :: "core_caches list"
  y_LLC :: nat

definition cache_at :: "sys \<Rightarrow> nat \<Rightarrow> cache option" where
  "cache_at s i = arr_get (y_caches s) i"

definition put_cache :: "nat \<Rightarrow> cache \<Rightarrow> sys \<Rightarrow> sys" where
  "put_cache i c s = s\<lparr>y_caches := (y_caches s)[i := c]\<rparr>"

definition on_cache :: "nat \<Rightarrow> (cache \<Rightarrow> cache option) \<Rightarrow> sys \<Rightarrow> sys option" where
  "on_cache i f s = do { c \<leftarrow> cache_at s i; c' \<leftarrow> f c; Some (put_cache i c' s) }"

definition mem_at :: "sys \<Rightarrow> nat \<Rightarrow> memory_object option" where
  "mem_at s j = arr_get (y_mems s) j"

definition put_mc :: "nat \<Rightarrow> memory_controller \<Rightarrow> sys \<Rightarrow> sys" where
  "put_mc j mc s = s\<lparr>y_mems := (y_mems s)[j := (y_mems s ! j)\<lparr>o_mc := mc\<rparr>]\<rparr>"

section \<open>Answers\<close>

text \<open>\<open>return_data\<close> of a controller is empty.\<close>

definition obj_return_data :: "obj option \<Rightarrow> packet \<Rightarrow> sys \<Rightarrow> sys option" where
  "obj_return_data u packet s = (case u of
       None \<Rightarrow> None
     | Some (Cache_obj j) \<Rightarrow> on_cache j (\<lambda>c. return_data (y_globals s) c packet) s
     | Some (Mem_obj j) \<Rightarrow> Some s)"

text \<open>The answer goes to the instruction side or to the data side.\<close>

definition upper_of :: "obj option list \<Rightarrow> obj option list \<Rightarrow> u32 \<Rightarrow> packet \<Rightarrow> obj option option" where
  "upper_of icache dcache cpu packet =
     arr_get (if p_instruction packet \<noteq> 0 then icache else dcache) (unat cpu)"

text \<open>\<open>if (packet->fill_level < fill_level) upper_level_xcache[cpu]->return_data(packet);\<close>\<close>

definition return_up :: "nat \<Rightarrow> u32 \<Rightarrow> packet \<Rightarrow> sys \<Rightarrow> sys option" where
  "return_up i cpu packet s = do {
     c \<leftarrow> cache_at s i;
     if p_fill_level packet < c_fill_level c
     then do {
       u \<leftarrow> upper_of (c_upper_icache c) (c_upper_dcache c) cpu packet;
       obj_return_data u packet s }
     else Some s }"

text \<open>The answers of a controller go up from it in the order in which it gives them.\<close>

definition deliver :: "nat \<Rightarrow> sys \<Rightarrow> packet list \<Rightarrow> sys option" where
  "deliver j = fold_opt (\<lambda>s packet. do {
     m \<leftarrow> mem_at s j;
     u \<leftarrow> upper_of (o_upper_icache m) (o_upper_dcache m) (p_cpu packet) packet;
     obj_return_data u packet s })"

section \<open>Requests\<close>

definition cache_add_rq :: "nat \<Rightarrow> packet \<Rightarrow> sys \<Rightarrow> (sys \<times> packet \<times> int) option" where
  "cache_add_rq i packet s = do {
     let g = y_globals s;
     c \<leftarrow> cache_at s i;
     wq_index \<leftarrow> check_queue (c_WQ c) packet;
     if wq_index \<noteq> - 1 then do {
       e \<leftarrow> arr_get (q_entry (c_WQ c)) (nat wq_index);
       let packet' = (if p_fill_level packet < c_fill_level c then packet\<lparr>p_data := p_data e\<rparr> else packet);
       s1 \<leftarrow> return_up i (p_cpu packet) packet' s;
       assert_that (c_cache_type c \<noteq> IS_ITLB \<and> c_cache_type c \<noteq> IS_DTLB \<and> c_cache_type c \<noteq> IS_L1I);
       s2 \<leftarrow> on_cache i (\<lambda>c. do {
         c1 \<leftarrow> (if c_cache_type c = IS_L1D \<and> p_type packet \<noteq> PREFETCH then add_processed c packet' else Some c);
         c2 \<leftarrow> count_HIT (p_type packet) c1;
         c3 \<leftarrow> count_ACCESS (p_type packet) c2;
         Some (c3\<lparr>c_WQ := (c_WQ c3)\<lparr>q_FORWARD := q_FORWARD (c_WQ c3) + 1\<rparr>,
           c_RQ := (c_RQ c3)\<lparr>q_ACCESS := q_ACCESS (c_RQ c3) + 1\<rparr>\<rparr>) }) s1;
       Some (s2, packet', - 1) }
     else do {
       index \<leftarrow> check_queue (c_RQ c) packet;
       if index \<noteq> - 1 then do {
         e \<leftarrow> arr_get (q_entry (c_RQ c)) (nat index);
         e' \<leftarrow> rq_merge e packet;
         let q = (c_RQ c)\<lparr>q_entry := (q_entry (c_RQ c))[nat index := e'],
           q_MERGED := q_MERGED (c_RQ c) + 1, q_ACCESS := q_ACCESS (c_RQ c) + 1\<rparr>;
         Some (put_cache i (c\<lparr>c_RQ := q\<rparr>) s, packet, index) }
       else do {
         (q, r) \<leftarrow> enqueue_request g c (c_RQ_SIZE c) (c_RQ c) packet;
         Some (put_cache i (c\<lparr>c_RQ := q\<rparr>) s, packet, r) } } }"

definition cache_add_pq :: "nat \<Rightarrow> packet \<Rightarrow> sys \<Rightarrow> (sys \<times> packet \<times> int) option" where
  "cache_add_pq i packet s = do {
     let g = y_globals s;
     c \<leftarrow> cache_at s i;
     wq_index \<leftarrow> check_queue (c_WQ c) packet;
     if wq_index \<noteq> - 1 then do {
       e \<leftarrow> arr_get (q_entry (c_WQ c)) (nat wq_index);
       let packet' = (if p_fill_level packet < c_fill_level c then packet\<lparr>p_data := p_data e\<rparr> else packet);
       s1 \<leftarrow> return_up i (p_cpu packet) packet' s;
       s2 \<leftarrow> on_cache i (\<lambda>c. do {
         c2 \<leftarrow> count_HIT (p_type packet) c;
         c3 \<leftarrow> count_ACCESS (p_type packet) c2;
         Some (c3\<lparr>c_WQ := (c_WQ c3)\<lparr>q_FORWARD := q_FORWARD (c_WQ c3) + 1\<rparr>,
           c_PQ := (c_PQ c3)\<lparr>q_ACCESS := q_ACCESS (c_PQ c3) + 1\<rparr>\<rparr>) }) s1;
       Some (s2, packet', - 1) }
     else do {
       index \<leftarrow> check_queue (c_PQ c) packet;
       if index \<noteq> - 1 then do {
         e \<leftarrow> arr_get (q_entry (c_PQ c)) (nat index);
         let e' = (if p_fill_level packet < p_fill_level e then e\<lparr>p_fill_level := p_fill_level packet\<rparr> else e);
         let q = (c_PQ c)\<lparr>q_entry := (q_entry (c_PQ c))[nat index := e'],
           q_MERGED := q_MERGED (c_PQ c) + 1, q_ACCESS := q_ACCESS (c_PQ c) + 1\<rparr>;
         Some (put_cache i (c\<lparr>c_PQ := q\<rparr>) s, packet, index) }
       else do {
         (q, r) \<leftarrow> enqueue_request g c (c_PQ_SIZE c) (c_PQ c) packet;
         Some (put_cache i (c\<lparr>c_PQ := q\<rparr>) s, packet, r) } } }"

section \<open>Virtual calls\<close>

definition obj_add_rq :: "obj \<Rightarrow> packet \<Rightarrow> sys \<Rightarrow> (sys \<times> packet \<times> int) option" where
  "obj_add_rq u packet s = (case u of
       Cache_obj i \<Rightarrow> cache_add_rq i packet s
     | Mem_obj j \<Rightarrow> do {
         m \<leftarrow> mem_at s j;
         (mc, answers, packet', r) \<leftarrow> dram_add_rq (o_config m) (y_globals s) (o_mc m) packet;
         s1 \<leftarrow> deliver j (put_mc j mc s) answers;
         Some (s1, packet', r) })"

definition obj_add_wq :: "obj \<Rightarrow> packet \<Rightarrow> sys \<Rightarrow> (sys \<times> int) option" where
  "obj_add_wq u packet s = (case u of
       Cache_obj i \<Rightarrow> do {
         c \<leftarrow> cache_at s i;
         (c', r) \<leftarrow> add_wq (y_globals s) c packet;
         Some (put_cache i c' s, r) }
     | Mem_obj j \<Rightarrow> do {
         m \<leftarrow> mem_at s j;
         (mc, r) \<leftarrow> dram_add_wq (o_config m) (y_globals s) (o_mc m) packet;
         Some (put_mc j mc s, r) })"

definition obj_add_pq :: "obj \<Rightarrow> packet \<Rightarrow> sys \<Rightarrow> (sys \<times> packet \<times> int) option" where
  "obj_add_pq u packet s = (case u of
       Cache_obj i \<Rightarrow> cache_add_pq i packet s
     | Mem_obj j \<Rightarrow> do {
         m \<leftarrow> mem_at s j;
         let (mc, r) = dram_add_pq (o_mc m) packet;
         Some (put_mc j mc s, packet, r) })"

definition obj_get_occupancy :: "obj \<Rightarrow> u8 \<Rightarrow> u64 \<Rightarrow> sys \<Rightarrow> u32 option" where
  "obj_get_occupancy u queue_type address s = (case u of
       Cache_obj i \<Rightarrow> do { c \<leftarrow> cache_at s i; Some (get_occupancy c queue_type address) }
     | Mem_obj j \<Rightarrow> do { m \<leftarrow> mem_at s j; dram_get_occupancy (o_config m) (o_mc m) queue_type address })"

definition obj_get_size :: "obj \<Rightarrow> u8 \<Rightarrow> u64 \<Rightarrow> sys \<Rightarrow> u32 option" where
  "obj_get_size u queue_type address s = (case u of
       Cache_obj i \<Rightarrow> do { c \<leftarrow> cache_at s i; Some (get_size c queue_type address) }
     | Mem_obj j \<Rightarrow> do { m \<leftarrow> mem_at s j; dram_get_size (o_config m) (o_mc m) queue_type address })"

definition obj_increment_WQ_FULL :: "obj \<Rightarrow> u64 \<Rightarrow> sys \<Rightarrow> sys option" where
  "obj_increment_WQ_FULL u address s = (case u of
       Cache_obj i \<Rightarrow> on_cache i (\<lambda>c. Some (increment_WQ_FULL c address)) s
     | Mem_obj j \<Rightarrow> do {
         m \<leftarrow> mem_at s j;
         mc \<leftarrow> dram_increment_WQ_FULL (o_config m) (o_mc m) address;
         Some (put_mc j mc s) })"

text \<open>\<open>lower_level->get_occupancy(t, a) == lower_level->get_size(t, a)\<close>\<close>

definition obj_is_full :: "obj \<Rightarrow> u8 \<Rightarrow> u64 \<Rightarrow> sys \<Rightarrow> bool option" where
  "obj_is_full u queue_type address s = do {
     n \<leftarrow> obj_get_occupancy u queue_type address s;
     m \<leftarrow> obj_get_size u queue_type address s;
     Some (n = m) }"

end
