(* ===== verification/Hierarchy.thy ===== *)
theory Hierarchy
  imports Memory_System
begin

text \<open>
  The handlers of \<open>src/cache.cc\<close> that a cache runs each cycle: \<open>handle_fill\<close>,
  \<open>handle_writeback\<close>, \<open>handle_read\<close>, \<open>handle_prefetch\<close> and \<open>operate\<close>, with the prefetch requests
  and \<open>va_to_pa\<close> of \<open>src/main.cc\<close>, on the state of the whole memory system.

  The source reads and writes the queue entry it works on in place.  An entry is removed from
  its queue at the end of the handler that changes it, so the model carries the changed copy.
  The hooks of the prefetchers in the tree do nothing; where they hand on metadata the model
  calls them.
\<close>

section \<open>Pieces the handlers share\<close>

text \<open>Replacement, on the array of the cache or of the last level.\<close>

definition cache_victim :: "globals \<Rightarrow> nat \<Rightarrow> cache \<Rightarrow> (nat \<times> cache) option" where
  "cache_victim g st c = do {
     (way, r, bs) \<leftarrow> repl_victim (c_cache_type c = IS_LLC) (k_llc_policy g) (c_NUM_WAY c) (c_repl c, c_block c) st;
     Some (way, c\<lparr>c_repl := r, c_block := bs\<rparr>) }"

definition cache_touch :: "globals \<Rightarrow> u32 \<Rightarrow> u64 \<Rightarrow> u64 \<Rightarrow> u8 \<Rightarrow> nat \<Rightarrow> nat \<Rightarrow> bool \<Rightarrow> cache \<Rightarrow> cache option" where
  "cache_touch g cpu full_addr ip type st way hit c = do {
     (r, bs) \<leftarrow> repl_update (c_cache_type c = IS_LLC) (k_llc_policy g) (c_NUM_WAY c) (c_repl c, c_block c)
       (unat cpu, full_addr, ip, type) st way hit;
     Some (c\<lparr>c_repl := r, c_block := bs\<rparr>) }"

text \<open>The last level is told which core it works for and then forgets it: \<open>cpu = 0\<close>.\<close>

definition forget_cpu :: "cache \<Rightarrow> cache" where
  "forget_cpu c = (if c_cache_type c = IS_LLC then c\<lparr>c_cpu := 0\<rparr> else c)"

definition fill_metadata :: "cache \<Rightarrow> packet \<Rightarrow> nat \<Rightarrow> nat \<Rightarrow> u8 \<Rightarrow> block \<Rightarrow> u32 option" where
  "fill_metadata c e st way prefetch b =
     (let a = push_bit LOG2_BLOCK_SIZE (p_address e); v = push_bit LOG2_BLOCK_SIZE (b_address b) in
      if c_cache_type c = IS_L2C then l2c_prefetcher_cache_fill a st way prefetch v (p_pf_metadata e)
      else if c_cache_type c = IS_LLC then llc_prefetcher_cache_fill a st way prefetch v (p_pf_metadata e)
      else p_pf_metadata e)"

text \<open>What a lookup in a TLB writes into the request.\<close>

definition hit_packet :: "cache \<Rightarrow> u64 \<Rightarrow> packet \<Rightarrow> packet" where
  "hit_packet c data e =
     (if c_cache_type c = IS_ITLB then e\<lparr>p_instruction_pa := data\<rparr>
      else if c_cache_type c = IS_DTLB then e\<lparr>p_data_pa := Some data\<rparr>
      else if c_cache_type c = IS_STLB then e\<lparr>p_data := data\<rparr> else e)"

text \<open>The requests of the core are handed back to it through \<open>PROCESSED\<close>.\<close>

definition to_core :: "packet \<Rightarrow> cache \<Rightarrow> cache option" where
  "to_core e c =
     (if c_cache_type c = IS_ITLB \<or> c_cache_type c = IS_DTLB \<or> c_cache_type c = IS_L1I \<or>
        c_cache_type c = IS_L1D \<and> p_type e \<noteq> PREFETCH then add_processed c e else Some c)"

definition mark_dirty :: "nat \<Rightarrow> nat \<Rightarrow> cache \<Rightarrow> cache option" where
  "mark_dirty st way c = do { b \<leftarrow> get_block c st way; put_block c st way (b\<lparr>b_dirty := 1\<rparr>) }"

text \<open>Update the replacement state, count the miss, fill the line.\<close>

definition fill_line :: "globals \<Rightarrow> u32 \<Rightarrow> nat \<Rightarrow> nat \<Rightarrow> packet \<Rightarrow> cache \<Rightarrow> cache option" where
  "fill_line g cpu st way e c = do {
     c1 \<leftarrow> cache_touch g cpu (p_full_addr e) (p_ip e) (p_type e) st way False (forget_cpu c);
     c2 \<leftarrow> count_sim_miss cpu (p_type e) c1;
     c3 \<leftarrow> count_sim_access cpu (p_type e) c2;
     fill_cache c3 st way e }"

text \<open>
  Make room: a dirty victim goes to the write queue of the lower level; when that is full
  nothing happens in this cycle.  Only the second-level TLB may have no lower level.
\<close>

definition writeback_packet :: "cache \<Rightarrow> u32 \<Rightarrow> u64 \<Rightarrow> packet \<Rightarrow> block \<Rightarrow> packet" where
  "writeback_packet c cpu now e b = packet_new\<lparr>p_fill_level := 2 * c_fill_level c, p_cpu := cpu,
     p_address := b_address b, p_full_addr := b_full_addr b, p_data := b_data b,
     p_instr_id := p_instr_id e, p_ip := 0, p_type := WRITEBACK, p_event_cycle := now\<rparr>"

definition evict :: "nat \<Rightarrow> u32 \<Rightarrow> packet \<Rightarrow> nat \<Rightarrow> nat \<Rightarrow> sys \<Rightarrow> (sys \<times> bool) option" where
  "evict i cpu e st way s = do {
     c \<leftarrow> cache_at s i;
     b \<leftarrow> get_block c st way;
     if b_dirty b = 0 then Some (s, True)
     else case c_lower c of
       None \<Rightarrow> do { assert_that (c_cache_type c = IS_STLB); Some (s, True) }
     | Some low \<Rightarrow> do {
         full \<leftarrow> obj_is_full low 2 (b_address b) s;
         if full then do {
           s1 \<leftarrow> obj_increment_WQ_FULL low (b_address b) s;
           s2 \<leftarrow> on_cache i (count_STALL (p_type e)) s1;
           Some (s2, False) }
         else do {
           now \<leftarrow> core_cycle (y_globals s) cpu;
           (s1, _) \<leftarrow> obj_add_wq low (writeback_packet c cpu now e b) s;
           Some (s1, True) } } }"

section \<open>Fills\<close>

text \<open>The end of a fill: the latency is counted, the register is freed and the next fill chosen.\<close>

definition retire_mshr :: "globals \<Rightarrow> u32 \<Rightarrow> nat \<Rightarrow> packet \<Rightarrow> cache \<Rightarrow> cache option" where
  "retire_mshr g cpu index e c = do {
     warm \<leftarrow> arr_get (g_warmup_complete g) (unat cpu);
     now \<leftarrow> core_cycle g cpu;
     let t = c_stats c;
     let t1 = (if warm \<noteq> 0 then t\<lparr>t_total_miss_latency := t_total_miss_latency t + (now - p_cycle_enqueued e)\<rparr> else t);
     q \<leftarrow> remove_queue (c_MSHR c) index;
     update_fill_cycle (c\<lparr>c_stats := t1, c_MSHR := q\<lparr>q_num_returned := q_num_returned q - 1\<rparr>\<rparr>) }"

definition finish_fill :: "nat \<Rightarrow> u32 \<Rightarrow> nat \<Rightarrow> nat \<Rightarrow> nat \<Rightarrow> sys \<Rightarrow> sys option" where
  "finish_fill i cpu index st way s = do {
     let g = y_globals s;
     c \<leftarrow> cache_at s i;
     e0 \<leftarrow> arr_get (q_entry (c_MSHR c)) index;
     b \<leftarrow> get_block c st way;
     let e = e0\<lparr>p_pf_metadata := fill_metadata c e0 st way (if p_type e0 = PREFETCH then 1 else 0) b\<rparr>;
     c1 \<leftarrow> fill_line g cpu st way e c;
     c2 \<leftarrow> (if c_cache_type c1 = IS_L1D \<and> p_type e = RFO then mark_dirty st way c1 else Some c1);
     s1 \<leftarrow> return_up i cpu e (put_cache i c2 s);
     on_cache i (\<lambda>c. do {
       b \<leftarrow> get_block c st way;
       c1 \<leftarrow> to_core (hit_packet c (b_data b) e) c;
       retire_mshr g cpu index e c1 }) s1 }"

text \<open>A fill that bypasses the last level.\<close>

definition bypass_fill :: "nat \<Rightarrow> u32 \<Rightarrow> nat \<Rightarrow> nat \<Rightarrow> nat \<Rightarrow> sys \<Rightarrow> sys option" where
  "bypass_fill i cpu index st way s = do {
     let g = y_globals s;
     c \<leftarrow> cache_at s i;
     e \<leftarrow> arr_get (q_entry (c_MSHR c)) index;
     c1 \<leftarrow> cache_touch g cpu (p_full_addr e) (p_ip e) (p_type e) st way False c;
     c2 \<leftarrow> count_sim_miss cpu (p_type e) c1;
     c3 \<leftarrow> count_sim_access cpu (p_type e) c2;
     s1 \<leftarrow> return_up i cpu e (put_cache i c3 s);
     on_cache i (retire_mshr g cpu index e) s1 }"

definition handle_fill :: "nat \<Rightarrow> sys \<Rightarrow> sys option" where
  "handle_fill i s = do {
     let g = y_globals s;
     c \<leftarrow> cache_at s i;
     let q = c_MSHR c;
     if q_next_fill_index q = c_MSHR_SIZE c then Some s
     else do {
       let index = unat (q_next_fill_index q);
       e \<leftarrow> arr_get (q_entry q) index;
       let cpu = p_cpu e;
       if unat cpu = NUM_CPUS then Some s
       else do {
         now \<leftarrow> core_cycle g cpu;
         if q_next_fill_cycle q \<le> now then do {
           assert_that (q_next_fill_index q < q_size q);
           let st = get_set c (p_address e);
           (way, c1) \<leftarrow> cache_victim g st c;
           let s1 = put_cache i c1 s;
           if c_cache_type c = IS_LLC \<and> way = LLC_WAY then bypass_fill i cpu index st way s1
           else do {
             (s2, do_fill) \<leftarrow> evict i cpu e st way s1;
             if do_fill then finish_fill i cpu index st way s2 else Some s2 } }
         else Some s } } }"

section \<open>Writebacks\<close>

definition remove_WQ :: "nat \<Rightarrow> cache \<Rightarrow> cache option" where
  "remove_WQ index c = do { q \<leftarrow> remove_queue (c_WQ c) index; Some (c\<lparr>c_WQ := q\<rparr>) }"

text \<open>A request that was handled: count it as a hit or a miss and remove it.\<close>

definition done_WQ :: "(u8 \<Rightarrow> cache \<Rightarrow> cache option) \<Rightarrow> packet \<Rightarrow> nat \<Rightarrow> cache \<Rightarrow> cache option" where
  "done_WQ count_result e index c = do {
     c1 \<leftarrow> count_result (p_type e) c;
     c2 \<leftarrow> count_ACCESS (p_type e) c1;
     remove_WQ index c2 }"

definition writeback_hit :: "nat \<Rightarrow> u32 \<Rightarrow> packet \<Rightarrow> nat \<Rightarrow> nat \<Rightarrow> nat \<Rightarrow> sys \<Rightarrow> sys option" where
  "writeback_hit i cpu e index st way s = do {
     let g = y_globals s;
     c \<leftarrow> cache_at s i;
     b \<leftarrow> get_block c st way;
     c1 \<leftarrow> cache_touch g cpu (b_full_addr b) (p_ip e) (p_type e) st way True c;
     c2 \<leftarrow> count_sim_hit cpu (p_type e) c1;
     c3 \<leftarrow> count_sim_access cpu (p_type e) c2;
     c4 \<leftarrow> mark_dirty st way c3;
     s1 \<leftarrow> return_up i cpu (hit_packet c (b_data b) e) (put_cache i c4 s);
     on_cache i (done_WQ count_HIT e index) s1 }"

text \<open>
  A request that meets a miss in flight lowers its fill level; a demand that meets a prefetch
  takes its register over and keeps only whether and when the data came.
\<close>

definition mshr_upgrade :: "packet \<Rightarrow> packet \<Rightarrow> packet" where
  "mshr_upgrade m e = (
     let m1 = (if p_fill_level e < p_fill_level m then m\<lparr>p_fill_level := p_fill_level e\<rparr> else m) in
     if p_type m1 = PREFETCH then e\<lparr>p_returned := p_returned m1, p_event_cycle := p_event_cycle m1\<rparr> else m1)"

definition put_mshr :: "nat \<Rightarrow> packet \<Rightarrow> cache \<Rightarrow> cache" where
  "put_mshr k m c = c\<lparr>c_MSHR := (c_MSHR c)\<lparr>q_entry := (q_entry (c_MSHR c))[k := m]\<rparr>\<rparr>"

text \<open>
  A store that misses in the first level.  The test for the last level inside this branch of the
  source is never true.
\<close>

definition rfo_miss :: "nat \<Rightarrow> packet \<Rightarrow> nat \<Rightarrow> sys \<Rightarrow> sys option" where
  "rfo_miss i e index s = do {
     let g = y_globals s;
     c \<leftarrow> cache_at s i;
     mshr_index \<leftarrow> check_mshr c e;
     (s1, miss_handled) \<leftarrow>
       (if mshr_index = - 1 \<and> q_occupancy (c_MSHR c) < c_MSHR_SIZE c then do {
          (c1, e1) \<leftarrow> add_mshr g c e;
          low \<leftarrow> c_lower c;
          (s1, _, _) \<leftarrow> obj_add_rq low e1 (put_cache i c1 s);
          Some (s1, True) }
        else if mshr_index = - 1 \<and> q_occupancy (c_MSHR c) = c_MSHR_SIZE c then do {
          c1 \<leftarrow> count_STALL (p_type e) c;
          Some (put_cache i c1 s, False) }
        else do {
          assert_that (mshr_index \<noteq> - 1);
          m \<leftarrow> arr_get (q_entry (c_MSHR c)) (nat mshr_index);
          c1 \<leftarrow> count_MERGED (p_type e) (put_mshr (nat mshr_index) (mshr_upgrade m e) c);
          Some (put_cache i c1 s, True) });
     if miss_handled then on_cache i (done_WQ count_MISS e index) s1 else Some s1 }"

text \<open>A writeback that misses below the first level fills the line at once.\<close>

definition writeback_fill :: "nat \<Rightarrow> u32 \<Rightarrow> packet \<Rightarrow> nat \<Rightarrow> sys \<Rightarrow> sys option" where
  "writeback_fill i cpu e0 index s = do {
     let g = y_globals s;
     c \<leftarrow> cache_at s i;
     let st = get_set c (p_address e0);
     (way, c1) \<leftarrow> cache_victim g st c;
     assert_that (\<not> (c_cache_type c = IS_LLC \<and> way = LLC_WAY));
     (s2, do_fill) \<leftarrow> evict i cpu e0 st way (put_cache i c1 s);
     if do_fill then do {
       c2 \<leftarrow> cache_at s2 i;
       b \<leftarrow> get_block c2 st way;
       let e = e0\<lparr>p_pf_metadata := fill_metadata c2 e0 st way 0 b\<rparr>;
       c3 \<leftarrow> fill_line g cpu st way e c2;
       c4 \<leftarrow> mark_dirty st way c3;
       s3 \<leftarrow> return_up i cpu e (put_cache i c4 s2);
       on_cache i (done_WQ count_MISS e index) s3 }
     else Some s2 }"

definition handle_writeback :: "nat \<Rightarrow> sys \<Rightarrow> sys option" where
  "handle_writeback i s = do {
     let g = y_globals s;
     c \<leftarrow> cache_at s i;
     let index = unat (q_head (c_WQ c));
     e \<leftarrow> arr_get (q_entry (c_WQ c)) index;
     let cpu = p_cpu e;
     if unat cpu = NUM_CPUS then Some s
     else do {
       now \<leftarrow> core_cycle g cpu;
       if p_event_cycle e \<le> now \<and> q_occupancy (c_WQ c) > 0 then do {
         (c1, way) \<leftarrow> check_hit g c e;
         let s1 = put_cache i c1 s;
         if way \<ge> 0 then writeback_hit i cpu e index (get_set c (p_address e)) (nat way) s1
         else if c_cache_type c = IS_L1D then rfo_miss i e index s1
         else writeback_fill i cpu e index s1 }
       else Some s } }"

section \<open>Address translation\<close>

definition inval_at :: "nat \<Rightarrow> u64 \<Rightarrow> sys \<Rightarrow> sys option" where
  "inval_at i a s = on_cache i (\<lambda>c. map_option fst (invalidate_entry c a)) s"

text \<open>A swap invalidates the page in the TLBs and the lines of its frame in the caches.\<close>

definition swap_lines :: "u64 \<Rightarrow> u64 list" where
  "swap_lines mapped_ppage = map (\<lambda>n. push_bit 6 mapped_ppage OR of_nat n) [0..<BLOCK_SIZE]"

definition invalidate_swapped :: "nat \<Rightarrow> core_caches \<Rightarrow> u64 \<times> u64 \<Rightarrow> sys \<Rightarrow> sys option" where
  "invalidate_swapped llc core evicted s = (case evicted of (NRU_vpage, mapped_ppage) \<Rightarrow> do {
     s1 \<leftarrow> fold_opt (\<lambda>s i. inval_at i NRU_vpage s) s [i_ITLB core, i_DTLB core, i_STLB core];
     fold_opt (\<lambda>s cl_addr. fold_opt (\<lambda>s i. inval_at i cl_addr s) s [i_L1I core, i_L1D core, i_L2C core, llc])
       s1 (swap_lines mapped_ppage) })"

definition va_to_pa :: "(nat \<Rightarrow> u64) \<Rightarrow> (nat \<Rightarrow> nat) \<Rightarrow> u32 \<Rightarrow> u64 \<Rightarrow> u64 \<Rightarrow> sys \<Rightarrow> (sys \<times> u64) option" where
  "va_to_pa draw rnd cpu va unique_vpage s = do {
     (pages, pa, evicted) \<leftarrow> translate draw rnd (g_current_core_cycle (y_globals s)) cpu va unique_vpage (y_pages s);
     let s1 = s\<lparr>y_pages := pages\<rparr>;
     s2 \<leftarrow> (case evicted of
         None \<Rightarrow> Some s1
       | Some e \<Rightarrow> do { core \<leftarrow> arr_get (y_cores s) (unat cpu); invalidate_swapped (y_LLC s) core e s1 });
     Some (s2, pa) }"

section \<open>Reads\<close>

definition remove_RQ :: "nat \<Rightarrow> cache \<Rightarrow> cache option" where
  "remove_RQ index c = do {
     q \<leftarrow> remove_queue (c_RQ c) index;
     Some (c\<lparr>c_RQ := q, c_reads_available := c_reads_available c - 1\<rparr>) }"

definition done_RQ :: "(u8 \<Rightarrow> cache \<Rightarrow> cache option) \<Rightarrow> packet \<Rightarrow> nat \<Rightarrow> cache \<Rightarrow> cache option" where
  "done_RQ count_result e index c = do {
     c1 \<leftarrow> count_result (p_type e) c;
     c2 \<leftarrow> count_ACCESS (p_type e) c1;
     remove_RQ index c2 }"

text \<open>The first use of a prefetched line is counted; the line is marked as used.\<close>

definition use_line :: "nat \<Rightarrow> nat \<Rightarrow> cache \<Rightarrow> cache option" where
  "use_line st way c = do {
     b \<leftarrow> get_block c st way;
     let c1 = (if b_prefetch b \<noteq> 0
       then c\<lparr>c_stats := (c_stats c)\<lparr>t_pf_useful := t_pf_useful (c_stats c) + 1,
         t_pf_useful_epoch := t_pf_useful_epoch (c_stats c) + 1\<rparr>\<rparr> else c);
     put_block c1 st way (b\<lparr>b_prefetch := 0, b_used := 1\<rparr>) }"

definition read_hit :: "nat \<Rightarrow> u32 \<Rightarrow> packet \<Rightarrow> nat \<Rightarrow> nat \<Rightarrow> nat \<Rightarrow> sys \<Rightarrow> sys option" where
  "read_hit i cpu e0 index st way s = do {
     let g = y_globals s;
     c \<leftarrow> cache_at s i;
     b \<leftarrow> get_block c st way;
     let e = hit_packet c (b_data b) e0;
     c1 \<leftarrow> to_core e c;
     let c2 = (if p_type e = LOAD then forget_cpu c1 else c1);
     c3 \<leftarrow> cache_touch g cpu (b_full_addr b) (p_ip e) (p_type e) st way True c2;
     c4 \<leftarrow> count_sim_hit cpu (p_type e) c3;
     c5 \<leftarrow> count_sim_access cpu (p_type e) c4;
     s1 \<leftarrow> return_up i cpu e (put_cache i c5 s);
     on_cache i (\<lambda>c. do { c1 \<leftarrow> use_line st way c; done_RQ count_HIT e index c1 }) s1 }"

text \<open>The instructions, loads and stores that wait for the request join those of the miss.\<close>

definition merge_consumers :: "packet \<Rightarrow> packet \<Rightarrow> packet option" where
  "merge_consumers e m =
     (if p_type e = RFO then do {
        m1 \<leftarrow> (if p_tlb_access e \<noteq> 0 then do {
            d \<leftarrow> fs_insert (p_sq_deps m) (ucast (p_sq_index e));
            d' \<leftarrow> fs_join d (p_sq_deps e) SQ_SIZE;
            Some (m\<lparr>p_store_merged := 1, p_sq_deps := d'\<rparr>) }
          else Some m);
        if p_load_merged e \<noteq> 0 then do {
          d \<leftarrow> fs_join (p_lq_deps m1) (p_lq_deps e) LQ_SIZE;
          Some (m1\<lparr>p_load_merged := 1, p_lq_deps := d\<rparr>) }
        else Some m1 }
      else if p_instruction e \<noteq> 0 then do {
        d \<leftarrow> fs_insert (p_rob_deps m) (of_int (p_rob_index e));
        d' \<leftarrow> (if p_instr_merged e \<noteq> 0 then fs_join d (p_rob_deps e) ROB_SIZE else Some d);
        Some (m\<lparr>p_instr_merged := 1, p_rob_deps := d'\<rparr>) }
      else do {
        d \<leftarrow> fs_insert (p_lq_deps m) (ucast (p_lq_index e));
        d' \<leftarrow> fs_join d (p_lq_deps e) LQ_SIZE;
        let m1 = m\<lparr>p_load_merged := 1, p_lq_deps := d'\<rparr>;
        if p_store_merged e \<noteq> 0 then do {
          d \<leftarrow> fs_join (p_sq_deps m1) (p_sq_deps e) SQ_SIZE;
          Some (m1\<lparr>p_store_merged := 1, p_sq_deps := d\<rparr>) }
        else Some m1 })"

definition read_merge :: "packet \<Rightarrow> nat \<Rightarrow> cache \<Rightarrow> cache option" where
  "read_merge e k c = do {
     m \<leftarrow> arr_get (q_entry (c_MSHR c)) k;
     m1 \<leftarrow> merge_consumers e m;
     let t = c_stats c;
     let c1 = (if p_type m1 = PREFETCH then c\<lparr>c_stats := t\<lparr>t_pf_late := t_pf_late t + 1\<rparr>\<rparr> else c);
     count_MERGED (p_type e) (put_mshr k (mshr_upgrade m1 e) c1) }"

text \<open>
  A new miss.  The last level asks whether the controller has room; the others send the request
  down without asking, and the second-level TLB walks the page table and answers itself.
\<close>

definition new_read_miss :: "(nat \<Rightarrow> u64) \<Rightarrow> (nat \<Rightarrow> nat) \<Rightarrow> nat \<Rightarrow> u32 \<Rightarrow> packet \<Rightarrow> sys \<Rightarrow> (sys \<times> bool) option" where
  "new_read_miss draw rnd i cpu e s = do {
     let g = y_globals s;
     c \<leftarrow> cache_at s i;
     if c_cache_type c = IS_LLC then do {
       low \<leftarrow> c_lower c;
       full \<leftarrow> obj_is_full low 1 (p_address e) s;
       if full then Some (s, False)
       else do {
         (c1, e1) \<leftarrow> add_mshr g c e;
         (s1, _, _) \<leftarrow> obj_add_rq low e1 (put_cache i c1 s);
         Some (s1, True) } }
     else do {
       (c1, e1) \<leftarrow> add_mshr g c e;
       let s1 = put_cache i c1 s;
       case c_lower c of
         Some low \<Rightarrow> do { (s2, _, _) \<leftarrow> obj_add_rq low e1 s1; Some (s2, True) }
       | None \<Rightarrow>
         if c_cache_type c = IS_STLB then do {
           (s2, pa) \<leftarrow> va_to_pa draw rnd cpu (p_full_addr e1) (p_address e1) s1;
           now \<leftarrow> core_cycle g cpu;
           s3 \<leftarrow> on_cache i (\<lambda>c. return_data g c
             (e1\<lparr>p_data := drop_bit LOG2_PAGE_SIZE pa, p_event_cycle := now\<rparr>)) s2;
           Some (s3, True) }
         else Some (s1, True) } }"

definition read_miss :: "(nat \<Rightarrow> u64) \<Rightarrow> (nat \<Rightarrow> nat) \<Rightarrow> nat \<Rightarrow> u32 \<Rightarrow> packet \<Rightarrow> nat \<Rightarrow> sys \<Rightarrow> sys option" where
  "read_miss draw rnd i cpu e index s = do {
     c \<leftarrow> cache_at s i;
     mshr_index \<leftarrow> check_mshr c e;
     (s1, miss_handled) \<leftarrow>
       (if mshr_index = - 1 \<and> q_occupancy (c_MSHR c) < c_MSHR_SIZE c then new_read_miss draw rnd i cpu e s
        else if mshr_index = - 1 \<and> q_occupancy (c_MSHR c) = c_MSHR_SIZE c then do {
          c1 \<leftarrow> count_STALL (p_type e) c;
          Some (put_cache i c1 s, False) }
        else do {
          assert_that (mshr_index \<noteq> - 1);
          c1 \<leftarrow> read_merge e (nat mshr_index) c;
          Some (put_cache i c1 s, True) });
     if miss_handled then
       on_cache i (\<lambda>c. done_RQ count_MISS e index (if p_type e = LOAD then forget_cpu c else c)) s1
     else Some s1 }"

text \<open>One turn of the loop, and whether to go on.\<close>

definition read_step :: "(nat \<Rightarrow> u64) \<Rightarrow> (nat \<Rightarrow> nat) \<Rightarrow> nat \<Rightarrow> sys \<Rightarrow> (sys \<times> bool) option" where
  "read_step draw rnd i s = do {
     let g = y_globals s;
     c \<leftarrow> cache_at s i;
     let index = unat (q_head (c_RQ c));
     e \<leftarrow> arr_get (q_entry (c_RQ c)) index;
     let cpu = p_cpu e;
     if unat cpu = NUM_CPUS then Some (s, False)
     else do {
       now \<leftarrow> core_cycle g cpu;
       if p_event_cycle e \<le> now \<and> q_occupancy (c_RQ c) > 0 then do {
         (c1, way) \<leftarrow> check_hit g c e;
         let s1 = put_cache i c1 s;
         s2 \<leftarrow> (if way \<ge> 0 then read_hit i cpu e index (get_set c (p_address e)) (nat way) s1
           else read_miss draw rnd i cpu e index s1);
         c2 \<leftarrow> cache_at s2 i;
         Some (s2, c_reads_available c2 \<noteq> 0) }
       else Some (s, False) } }"

fun repeat_step :: "(sys \<Rightarrow> (sys \<times> bool) option) \<Rightarrow> nat \<Rightarrow> sys \<Rightarrow> sys option" where
  "repeat_step f 0 s = Some s"
| "repeat_step f (Suc n) s = do { (s', go) \<leftarrow> f s; if go then repeat_step f n s' else Some s' }"

definition handle_read :: "(nat \<Rightarrow> u64) \<Rightarrow> (nat \<Rightarrow> nat) \<Rightarrow> nat \<Rightarrow> sys \<Rightarrow> sys option" where
  "handle_read draw rnd i s = do {
     c \<leftarrow> cache_at s i;
     repeat_step (read_step draw rnd i) (unat (c_MAX_READ c)) s }"

section \<open>Prefetches\<close>

definition remove_PQ :: "nat \<Rightarrow> cache \<Rightarrow> cache option" where
  "remove_PQ index c = do {
     q \<leftarrow> remove_queue (c_PQ c) index;
     Some (c\<lparr>c_PQ := q, c_reads_available := c_reads_available c - 1\<rparr>) }"

definition done_PQ :: "(u8 \<Rightarrow> cache \<Rightarrow> cache option) \<Rightarrow> packet \<Rightarrow> nat \<Rightarrow> cache \<Rightarrow> cache option" where
  "done_PQ count_result e index c = do {
     c1 \<leftarrow> count_result (p_type e) c;
     c2 \<leftarrow> count_ACCESS (p_type e) c1;
     remove_PQ index c2 }"

text \<open>
  The prefetcher of this level sees the prefetches that come from a higher one.  Comparing the
  level of a packet that is not a prefetch would read an uninitialised member.
\<close>

definition operate_metadata :: "cache \<Rightarrow> packet \<Rightarrow> u64 \<Rightarrow> u8 \<Rightarrow> (cache \<times> packet) option" where
  "operate_metadata c e addr hit = do {
     origin \<leftarrow> p_pf_origin_level e;
     Some (if origin < c_fill_level c then
         (forget_cpu c, e\<lparr>p_pf_metadata :=
           (if c_cache_type c = IS_L2C then l2c_prefetcher_operate addr (p_ip e) hit PREFETCH (p_pf_metadata e)
            else if c_cache_type c = IS_LLC then llc_prefetcher_operate addr (p_ip e) hit PREFETCH (p_pf_metadata e)
            else p_pf_metadata e)\<rparr>)
       else (c, e)) }"

definition prefetch_hit :: "nat \<Rightarrow> u32 \<Rightarrow> packet \<Rightarrow> nat \<Rightarrow> nat \<Rightarrow> nat \<Rightarrow> sys \<Rightarrow> sys option" where
  "prefetch_hit i cpu e0 index st way s = do {
     let g = y_globals s;
     c \<leftarrow> cache_at s i;
     b \<leftarrow> get_block c st way;
     c1 \<leftarrow> cache_touch g cpu (b_full_addr b) (p_ip e0) (p_type e0) st way True c;
     c2 \<leftarrow> count_sim_hit cpu (p_type e0) c1;
     c3 \<leftarrow> count_sim_access cpu (p_type e0) c2;
     (c4, e) \<leftarrow> operate_metadata c3 e0 (push_bit LOG2_BLOCK_SIZE (b_address b)) 1;
     s1 \<leftarrow> return_up i cpu e (put_cache i c4 s);
     on_cache i (done_PQ count_HIT e index) s1 }"

text \<open>
  A new prefetch miss goes to the read queue of the controller from the last level and to the
  prefetch queue of the lower cache from the others; this level gets a register for it only if
  the line is to be filled here.
\<close>

definition new_prefetch_miss :: "nat \<Rightarrow> packet \<Rightarrow> sys \<Rightarrow> (sys \<times> bool) option" where
  "new_prefetch_miss i e0 s = do {
     let g = y_globals s;
     c \<leftarrow> cache_at s i;
     case c_lower c of
       None \<Rightarrow> Some (s, True)
     | Some low \<Rightarrow> do {
         full \<leftarrow> obj_is_full low (if c_cache_type c = IS_LLC then 1 else 3) (p_address e0) s;
         if full then Some (s, False)
         else do {
           (c1, e) \<leftarrow> operate_metadata c e0 (push_bit LOG2_BLOCK_SIZE (p_address e0)) 0;
           (c2, e1) \<leftarrow> (if p_fill_level e \<le> c_fill_level c1 then add_mshr g c1 e else Some (c1, e));
           (s1, _, _) \<leftarrow> (if c_cache_type c = IS_LLC then obj_add_rq low e1 (put_cache i c2 s)
             else obj_add_pq low e1 (put_cache i c2 s));
           Some (s1, True) } } }"

definition prefetch_miss :: "nat \<Rightarrow> packet \<Rightarrow> nat \<Rightarrow> sys \<Rightarrow> sys option" where
  "prefetch_miss i e index s = do {
     c \<leftarrow> cache_at s i;
     mshr_index \<leftarrow> check_mshr c e;
     (s1, miss_handled) \<leftarrow>
       (if mshr_index = - 1 \<and> q_occupancy (c_MSHR c) < c_MSHR_SIZE c then new_prefetch_miss i e s
        else if mshr_index = - 1 \<and> q_occupancy (c_MSHR c) = c_MSHR_SIZE c then do {
          c1 \<leftarrow> count_STALL (p_type e) c;
          Some (put_cache i c1 s, False) }
        else do {
          assert_that (mshr_index \<noteq> - 1);
          m \<leftarrow> arr_get (q_entry (c_MSHR c)) (nat mshr_index);
          let m1 = (if p_fill_level e < p_fill_level m then m\<lparr>p_fill_level := p_fill_level e\<rparr> else m);
          c1 \<leftarrow> count_MERGED (p_type e) (put_mshr (nat mshr_index) m1 c);
          Some (put_cache i c1 s, True) });
     if miss_handled then on_cache i (done_PQ count_MISS e index) s1 else Some s1 }"

definition prefetch_step :: "nat \<Rightarrow> sys \<Rightarrow> (sys \<times> bool) option" where
  "prefetch_step i s = do {
     let g = y_globals s;
     c \<leftarrow> cache_at s i;
     let index = unat (q_head (c_PQ c));
     e \<leftarrow> arr_get (q_entry (c_PQ c)) index;
     let cpu = p_cpu e;
     if unat cpu = NUM_CPUS then Some (s, False)
     else do {
       now \<leftarrow> core_cycle g cpu;
       if p_event_cycle e \<le> now \<and> q_occupancy (c_PQ c) > 0 then do {
         (c1, way) \<leftarrow> check_hit g c e;
         let s1 = put_cache i c1 s;
         s2 \<leftarrow> (if way \<ge> 0 then prefetch_hit i cpu e index (get_set c (p_address e)) (nat way) s1
           else prefetch_miss i e index s1);
         c2 \<leftarrow> cache_at s2 i;
         Some (s2, c_reads_available c2 \<noteq> 0) }
       else Some (s, False) } }"

definition handle_prefetch :: "nat \<Rightarrow> sys \<Rightarrow> sys option" where
  "handle_prefetch i s = do {
     c \<leftarrow> cache_at s i;
     repeat_step (prefetch_step i) (unat (c_MAX_READ c)) s }"

text \<open>The requests of a prefetcher.\<close>

definition prefetch_packet :: "cache \<Rightarrow> u64 \<Rightarrow> u64 \<Rightarrow> u64 \<Rightarrow> int \<Rightarrow> u32 \<Rightarrow> packet" where
  "prefetch_packet c now ip pf_addr pf_fill_level metadata = packet_new\<lparr>p_fill_level := pf_fill_level,
     p_pf_origin_level := Some (c_fill_level c), p_pf_metadata := Some metadata, p_cpu := c_cpu c,
     p_address := drop_bit LOG2_BLOCK_SIZE pf_addr, p_full_addr := pf_addr, p_ip := ip,
     p_type := PREFETCH, p_event_cycle := now\<rparr>"

definition pf_stat :: "(cache_stats \<Rightarrow> cache_stats) \<Rightarrow> nat \<Rightarrow> sys \<Rightarrow> sys option" where
  "pf_stat f i s = on_cache i (\<lambda>c. Some (c\<lparr>c_stats := f (c_stats c)\<rparr>)) s"

definition prefetch_line :: "nat \<Rightarrow> u64 \<Rightarrow> u64 \<Rightarrow> u64 \<Rightarrow> int \<Rightarrow> u32 \<Rightarrow> sys \<Rightarrow> (sys \<times> int) option" where
  "prefetch_line i ip base_addr pf_addr pf_fill_level prefetch_metadata s = do {
     s1 \<leftarrow> pf_stat (\<lambda>t. t\<lparr>t_pf_requested := t_pf_requested t + 1\<rparr>) i s;
     c \<leftarrow> cache_at s1 i;
     if q_occupancy (c_PQ c) < q_size (c_PQ c) then do {
       now \<leftarrow> core_cycle (y_globals s) (c_cpu c);
       (s2, _, _) \<leftarrow> cache_add_pq i (prefetch_packet c now ip pf_addr pf_fill_level prefetch_metadata) s1;
       s3 \<leftarrow> pf_stat (\<lambda>t. t\<lparr>t_pf_issued := t_pf_issued t + 1\<rparr>) i s2;
       Some (s3, 1) }
     else do {
       s2 \<leftarrow> pf_stat (\<lambda>t. t\<lparr>t_pf_dropped := t_pf_dropped t + 1\<rparr>) i s1;
       Some (s2, 0) } }"

definition kpc_prefetch_line :: "nat \<Rightarrow> u64 \<Rightarrow> u64 \<Rightarrow> int \<Rightarrow> int \<Rightarrow> int \<Rightarrow> int \<Rightarrow> int \<Rightarrow> u32 \<Rightarrow> sys \<Rightarrow> (sys \<times> int) option" where
  "kpc_prefetch_line i base_addr pf_addr pf_fill_level delta depth signature confidence prefetch_metadata s = do {
     c \<leftarrow> cache_at s i;
     if q_occupancy (c_PQ c) < q_size (c_PQ c) \<and>
       drop_bit LOG2_PAGE_SIZE base_addr = drop_bit LOG2_PAGE_SIZE pf_addr then do {
       now \<leftarrow> core_cycle (y_globals s) (c_cpu c);
       (s2, _, _) \<leftarrow> cache_add_pq i ((prefetch_packet c now 0 pf_addr pf_fill_level prefetch_metadata)
         \<lparr>p_delta := delta, p_depth := depth, p_signature := signature, p_confidence := confidence\<rparr>) s;
       s3 \<leftarrow> pf_stat (\<lambda>t. t\<lparr>t_pf_issued := t_pf_issued t + 1\<rparr>) i s2;
       Some (s3, 1) }
     else Some (s, 0) }"

section \<open>A cycle\<close>

definition cache_operate :: "(nat \<Rightarrow> u64) \<Rightarrow> (nat \<Rightarrow> nat) \<Rightarrow> nat \<Rightarrow> sys \<Rightarrow> sys option" where
  "cache_operate draw rnd i s = do {
     s1 \<leftarrow> handle_fill i s;
     s2 \<leftarrow> handle_writeback i s1;
     s3 \<leftarrow> on_cache i (\<lambda>c. Some (c\<lparr>c_reads_available := c_MAX_READ c\<rparr>)) s2;
     s4 \<leftarrow> handle_read draw rnd i s3;
     c \<leftarrow> cache_at s4 i;
     s5 \<leftarrow> (if q_occupancy (c_PQ c) \<noteq> 0 \<and> c_reads_available c > 0 then handle_prefetch i s4 else Some s4);
     on_cache i (handle_prefetch_feedback (y_globals s5)) s5 }"

definition mem_operate :: "nat \<Rightarrow> sys \<Rightarrow> sys option" where
  "mem_operate j s = do {
     m \<leftarrow> mem_at s j;
     (mc, answers) \<leftarrow> dram_operate (o_config m) (y_globals s) (o_mc m);
     deliver j (put_mc j mc s) answers }"

text \<open>\<open>O3_CPU::operate_cache\<close>.\<close>

definition operate_cache :: "(nat \<Rightarrow> u64) \<Rightarrow> (nat \<Rightarrow> nat) \<Rightarrow> core_caches \<Rightarrow> sys \<Rightarrow> sys option" where
  "operate_cache draw rnd core s = fold_opt (\<lambda>s i. cache_operate draw rnd i s) s
     [i_ITLB core, i_DTLB core, i_STLB core, i_L1I core, i_L1D core, i_L2C core]"

section \<open>Access lemmas\<close>

lemma cache_at_Some [arr_simps]: "cache_at s i = Some c \<longleftrightarrow> i < length (y_caches s) \<and> c = y_caches s ! i"
  by (simp add: cache_at_def arr_get_Some)

lemma cache_at_put [simp]:
  "i < length (y_caches s) \<Longrightarrow> cache_at (put_cache i c s) j = (if j = i then Some c else cache_at s j)"
  by (simp add: cache_at_def put_cache_def arr_get_def)

lemma put_cache_frame [simp]:
  "y_mems (put_cache i c s) = y_mems s" "y_globals (put_cache i c s) = y_globals s"
  "y_pages (put_cache i c s) = y_pages s" "y_cores (put_cache i c s) = y_cores s" "y_LLC (put_cache i c s) = y_LLC s"
  "length (y_caches (put_cache i c s)) = length (y_caches s)" "y_caches (put_cache i c s) = (y_caches s)[i := c]"
  by (simp_all add: put_cache_def)

lemma put_put [simp]: "put_cache i c (put_cache i d s) = put_cache i c s"
  by (simp add: put_cache_def)

lemma put_commute: "i \<noteq> j \<Longrightarrow> put_cache i c (put_cache j d s) = put_cache j d (put_cache i c s)"
  by (simp add: put_cache_def list_update_swap)

lemma on_cacheI: "cache_at s i = Some c \<Longrightarrow> f c = Some c' \<Longrightarrow> on_cache i f s = Some (put_cache i c' s)"
  by (simp add: on_cache_def)

lemma get_block_at:
  "shape_ok c \<Longrightarrow> st < unat (c_NUM_SET c) \<Longrightarrow> w < unat (c_NUM_WAY c) \<Longrightarrow> get_block c st w = Some (c_block c ! st ! w)"
  using shape_set [of c st] by (simp add: get_block_def)

section \<open>A swap\<close>

text \<open>The lines of a system: what each cache holds.\<close>

definition store_at :: "sys \<Rightarrow> nat \<Rightarrow> bool" where
  "store_at s i \<longleftrightarrow> i < length (y_caches s) \<and> shape_ok (y_caches s ! i) \<and> tags_ok (y_caches s ! i)"

definition lines :: "sys \<Rightarrow> nat \<Rightarrow> u64 \<Rightarrow> block option" where
  "lines s i = line (y_caches s ! i)"

lemma inval_at_total:
  assumes "store_at s i"
  shows "\<exists>s'. inval_at i a s = Some s' \<and> (\<forall>j. store_at s j \<longrightarrow> store_at s' j) \<and>
    lines s' = (lines s)(i := (lines s i)(a := None))"
proof -
  let ?c = "y_caches s ! i"
  have i: "i < length (y_caches s)" "shape_ok ?c" "tags_ok ?c" using assms by (auto simp: store_at_def)
  obtain c' r where c': "invalidate_entry ?c a = Some (c', r)" "shape_ok c'" "tags_ok c'" "line c' = (line ?c)(a := None)"
    using invalidate_total [OF i(2,3)] by blast
  have "inval_at i a s = Some (put_cache i c' s)"
    using i(1) c'(1) by (simp add: inval_at_def on_cache_def cache_at_def)
  moreover have "store_at (put_cache i c' s) j" if "store_at s j" for j
    using that c'(2,3) i(1) by (cases "j = i") (auto simp: store_at_def)
  moreover have "lines (put_cache i c' s) = (lines s)(i := (lines s i)(a := None))"
    using i(1) c'(4) by (auto simp: lines_def fun_eq_iff nth_list_update)
  ultimately show ?thesis by blast
qed

lemma inval_caches:
  assumes "\<forall>i \<in> set is. store_at s i"
  shows "\<exists>s'. fold_opt (\<lambda>s i. inval_at i a s) s is = Some s' \<and> (\<forall>j. store_at s j \<longrightarrow> store_at s' j) \<and>
    lines s' = (\<lambda>i. if i \<in> set is then (lines s i)(a := None) else lines s i)"
  using assms
proof (induction "is" arbitrary: s)
  case (Cons i "is")
  obtain s1 where s1: "inval_at i a s = Some s1" "\<forall>j. store_at s j \<longrightarrow> store_at s1 j"
      "lines s1 = (lines s)(i := (lines s i)(a := None))"
    using inval_at_total [of s i a] Cons.prems by auto
  obtain s' where s': "fold_opt (\<lambda>s i. inval_at i a s) s1 is = Some s'" "\<forall>j. store_at s1 j \<longrightarrow> store_at s' j"
      "lines s' = (\<lambda>i. if i \<in> set is then (lines s1 i)(a := None) else lines s1 i)"
    using Cons.IH [of s1] Cons.prems s1(2) by auto
  show ?case using s1 s' by (auto simp: fun_eq_iff)
qed simp

lemma inval_lines:
  assumes "\<forall>i \<in> set is. store_at s i"
  shows "\<exists>s'. fold_opt (\<lambda>s a. fold_opt (\<lambda>s i. inval_at i a s) s is) s as = Some s' \<and>
    (\<forall>j. store_at s j \<longrightarrow> store_at s' j) \<and>
    lines s' = (\<lambda>i a. if i \<in> set is \<and> a \<in> set as then None else lines s i a)"
  using assms
proof (induction as arbitrary: s)
  case (Cons a as)
  obtain s1 where s1: "fold_opt (\<lambda>s i. inval_at i a s) s is = Some s1" "\<forall>j. store_at s j \<longrightarrow> store_at s1 j"
      "lines s1 = (\<lambda>i. if i \<in> set is then (lines s i)(a := None) else lines s i)"
    using inval_caches [OF Cons.prems] by blast
  obtain s' where "fold_opt (\<lambda>s a. fold_opt (\<lambda>s i. inval_at i a s) s is) s1 as = Some s'"
      "\<forall>j. store_at s1 j \<longrightarrow> store_at s' j"
      "lines s' = (\<lambda>i a. if i \<in> set is \<and> a \<in> set as then None else lines s1 i a)"
    using Cons.IH [of s1] Cons.prems s1(2) by blast
  then show ?case using s1 by (auto simp: fun_eq_iff)
qed simp

text \<open>The caches of a core and the last level are where the pointers say.\<close>

definition stores_ok :: "nat \<Rightarrow> core_caches \<Rightarrow> sys \<Rightarrow> bool" where
  "stores_ok llc core s \<longleftrightarrow>
     list_all (store_at s) [i_ITLB core, i_DTLB core, i_STLB core, i_L1I core, i_L1D core, i_L2C core, llc]"

lemma invalidate_swapped_total:
  assumes "stores_ok llc core s"
  shows "\<exists>s'. invalidate_swapped llc core (old, frame) s = Some s' \<and> (\<forall>j. store_at s j \<longrightarrow> store_at s' j) \<and>
    lines s' = (\<lambda>i a. if i \<in> {i_ITLB core, i_DTLB core, i_STLB core} \<and> a = old \<or>
      i \<in> {i_L1I core, i_L1D core, i_L2C core, llc} \<and> a \<in> set (swap_lines frame) then None else lines s i a)"
proof -
  obtain s1 where s1: "fold_opt (\<lambda>s i. inval_at i old s) s [i_ITLB core, i_DTLB core, i_STLB core] = Some s1"
      "\<forall>j. store_at s j \<longrightarrow> store_at s1 j"
      "lines s1 = (\<lambda>i. if i \<in> set [i_ITLB core, i_DTLB core, i_STLB core] then (lines s i)(old := None) else lines s i)"
    using inval_caches [of "[i_ITLB core, i_DTLB core, i_STLB core]" s old] assms by (auto simp: stores_ok_def)
  obtain s' where "fold_opt (\<lambda>s a. fold_opt (\<lambda>s i. inval_at i a s) s [i_L1I core, i_L1D core, i_L2C core, llc])
        s1 (swap_lines frame) = Some s'" "\<forall>j. store_at s1 j \<longrightarrow> store_at s' j"
      "lines s' = (\<lambda>i a. if i \<in> set [i_L1I core, i_L1D core, i_L2C core, llc] \<and> a \<in> set (swap_lines frame)
        then None else lines s1 i a)"
    using inval_lines [of "[i_L1I core, i_L1D core, i_L2C core, llc]" s1 "swap_lines frame"] assms s1(2)
    by (auto simp: stores_ok_def)
  with s1 show ?thesis
    by (intro exI [of _ s']) (auto simp: invalidate_swapped_def fun_eq_iff simp del: fold_opt.simps)
qed

lemma on_cache_pages: "on_cache i f s = Some s' \<Longrightarrow> y_pages s' = y_pages s"
  by (auto simp: on_cache_def arr_simps)

lemma inval_caches_pages: "fold_opt (\<lambda>s i. inval_at i a s) s is = Some s' \<Longrightarrow> y_pages s' = y_pages s"
  by (rule fold_opt_invariant [where P = "\<lambda>t. y_pages t = y_pages s"]) (auto simp: inval_at_def dest: on_cache_pages)

lemma invalidate_swapped_pages:
  assumes "invalidate_swapped llc core e s = Some s'"
  shows "y_pages s' = y_pages s"
proof -
  obtain old frame where e: "e = (old, frame)" by (cases e)
  obtain s1 where s1: "fold_opt (\<lambda>s i. inval_at i old s) s [i_ITLB core, i_DTLB core, i_STLB core] = Some s1"
    "fold_opt (\<lambda>s a. fold_opt (\<lambda>s i. inval_at i a s) s [i_L1I core, i_L1D core, i_L2C core, llc]) s1 (swap_lines frame) = Some s'"
    using assms unfolding e invalidate_swapped_def prod.case bind_Some_iff by blast
  have "y_pages s' = y_pages s1"
    by (rule fold_opt_invariant [where P = "\<lambda>t. y_pages t = y_pages s1", OF refl _ s1(2)]) (auto dest: inval_caches_pages simp del: fold_opt.simps)
  then show ?thesis using inval_caches_pages [OF s1(1)] by simp
qed

text \<open>
  C26. When memory is full a new translation evicts a page, and afterwards the system holds
  nothing of it: no TLB of the core maps it, and no cache of the core nor the last level has
  any of the 64 lines of the frame that changes hands.  No other line is lost.
\<close>

theorem swap_flushes_frame:
  assumes "page_inv (y_pages s)" and "draws_ok draw" and "va \<noteq> 0" and "unat cpu < NUM_CPUS"
    and "NUM_CPUS \<le> length (g_current_core_cycle (y_globals s))" and "mapping (y_pages s) vpage = None"
    and "DRAM_PAGES \<le> unat (v_allocated_pages (y_pages s))"
    and "unat cpu < length (y_cores s)" and "stores_ok (y_LLC s) (y_cores s ! unat cpu) s"
  defines "core \<equiv> y_cores s ! unat cpu"
  shows "\<exists>s' old frame. va_to_pa draw rnd cpu va vpage s = Some (s', physical frame va) \<and>
    mapping (y_pages s') vpage = Some frame \<and> mapping (y_pages s) old = Some frame \<and>
    (old \<noteq> vpage \<longrightarrow> mapping (y_pages s') old = None) \<and>
    lines s' = (\<lambda>i a. if i \<in> {i_ITLB core, i_DTLB core, i_STLB core} \<and> a = old \<or>
      i \<in> {i_L1I core, i_L1D core, i_L2C core, y_LLC s} \<and> a \<in> set (swap_lines frame) then None else lines s i a)"
proof -
  obtain pages old frame where t: "translate draw rnd (g_current_core_cycle (y_globals s)) cpu va vpage (y_pages s) =
        Some (pages, physical frame va, Some (old, frame))"
      "mapping (y_pages s) old = Some frame" "mapping pages = (mapping (y_pages s))(old := None, vpage \<mapsto> frame)"
    using swap_outcome [OF assms(1-7), of rnd] by blast
  let ?s = "s\<lparr>y_pages := pages\<rparr>"
  have same: "lines ?s = lines s" by (simp add: lines_def fun_eq_iff)
  have "stores_ok (y_LLC s) core ?s" using assms(9) by (simp add: stores_ok_def store_at_def core_def)
  then obtain s' where s': "invalidate_swapped (y_LLC s) core (old, frame) ?s = Some s'"
      "lines s' = (\<lambda>i a. if i \<in> {i_ITLB core, i_DTLB core, i_STLB core} \<and> a = old \<or>
        i \<in> {i_L1I core, i_L1D core, i_L2C core, y_LLC s} \<and> a \<in> set (swap_lines frame) then None else lines ?s i a)"
    using invalidate_swapped_total [of "y_LLC s" core ?s old frame] by blast
  have "y_pages s' = pages" using invalidate_swapped_pages [OF s'(1)] by simp
  moreover have "va_to_pa draw rnd cpu va vpage s = Some (s', physical frame va)"
    using t(1) s'(1) assms(8) by (simp add: va_to_pa_def core_def)
  ultimately show ?thesis using t(2,3) s'(2) [unfolded same]
    by - (rule exI [of _ s'], rule exI [of _ old], rule exI [of _ frame], simp)
qed

text \<open>A machine of seven small caches whose memory is full.\<close>

definition demo_core :: core_caches where
  "demo_core = \<lparr>i_ITLB = 0, i_DTLB = 1, i_STLB = 2, i_L1I = 3, i_L1D = 4, i_L2C = 5\<rparr>"

definition full_sys :: sys where
  "full_sys = \<lparr>y_caches = replicate 7 demo_cache, y_mems = [], y_globals = demo_globals, y_pages = full_pages,
     y_cores = [demo_core], y_LLC = 6\<rparr>"

lemma swap_flushes_frame_witness:
  "\<exists>s' old frame. va_to_pa demo_draw (\<lambda>n. n) 0 0x1234 (- 1) full_sys = Some (s', physical frame 0x1234) \<and>
    mapping (y_pages s') (- 1) = Some frame \<and> mapping full_pages old = Some frame"
proof -
  have stores: "stores_ok (y_LLC full_sys) (y_cores full_sys ! unat (0 :: u32)) full_sys"
    using demo_cache_store(1,2) by (simp add: stores_ok_def store_at_def full_sys_def demo_core_def nth_Cons')
  have sys: "y_pages full_sys = full_pages" "unat (0 :: u32) < NUM_CPUS" "unat (0 :: u32) < length (y_cores full_sys)"
    "NUM_CPUS \<le> length (g_current_core_cycle (y_globals full_sys))"
    by (simp_all add: full_sys_def NUM_CPUS_def demo_globals_def)
  from swap_flushes_frame [of full_sys demo_draw "0x1234" 0 "- 1" "\<lambda>n. n", unfolded sys(1), OF full_pages_inv(1) demo_draws_ok _
      sys(2,4) full_pages_inv(3,2) sys(3) stores]
  show ?thesis by auto
qed

section \<open>Making room\<close>

lemma count_STALL_total:
  "unat ty < length (t_STALL (c_stats c)) \<Longrightarrow> \<exists>t. count_STALL ty c = Some (c\<lparr>c_stats := t\<rparr>)"
  by (simp add: count_def bump_Some) (rule exI, rule refl)

text \<open>
  C27. A dirty line is not lost when its way is needed.  If the write queue of the lower cache is
  full, nothing is evicted: the line, the registers and the queue stay, and only counters
  change.  Otherwise the queue holds a writeback of the line's address afterwards.  It carries the
  line's data, unless a writeback of that address was still queued: then the queue keeps the
  older one as it is.
\<close>

theorem evict_keeps_dirty_line:
  assumes "cache_at s i = Some c" and "shape_ok c" and "st < unat (c_NUM_SET c)" and "way < unat (c_NUM_WAY c)"
    and "b_dirty (c_block c ! st ! way) \<noteq> 0"
    and "c_lower c = Some (Cache_obj j)" and "j \<noteq> i" and "cache_at s j = Some d"
    and "ring_inv (c_WQ d)" and "q_name (c_WQ d) \<noteq> ''L1D_WQ''"
    and "unat cpu < length (g_current_core_cycle (y_globals s))" and "unat (p_type e) < length (t_STALL (c_stats c))"
  defines "b \<equiv> c_block c ! st ! way"
  shows "\<exists>s' ok c' d'. evict i cpu e st way s = Some (s', ok) \<and> cache_at s' i = Some c' \<and> cache_at s' j = Some d' \<and>
    c_block c' = c_block c \<and> c_MSHR c' = c_MSHR c \<and> (ok \<longleftrightarrow> q_occupancy (c_WQ d) \<noteq> q_size (c_WQ d)) \<and>
    q_list (c_WQ d') = (if \<not> ok \<or> (\<exists>p \<in> set (q_list (c_WQ d)). p_address p = b_address b) then q_list (c_WQ d)
      else q_list (c_WQ d) @ [queued (y_globals s) d
        (writeback_packet c cpu (g_current_core_cycle (y_globals s) ! unat cpu) e b)])"
proof -
  have i: "i < length (y_caches s)" "j < length (y_caches s)" using assms(1,8) by (auto simp: arr_simps)
  have blk: "get_block c st way = Some b" using get_block_at [OF assms(2-4)] by (simp add: b_def)
  have full: "obj_is_full (Cache_obj j) 2 (b_address b) s = Some (q_occupancy (c_WQ d) = q_size (c_WQ d))"
    using assms(8) by (simp add: obj_is_full_def obj_get_occupancy_def obj_get_size_def get_occupancy_def get_size_def)
  have dirty: "b_dirty b \<noteq> 0" using assms(5) by (simp add: b_def)
  show ?thesis
  proof (cases "q_occupancy (c_WQ d) = q_size (c_WQ d)")
    case True
    let ?s1 = "put_cache j (increment_WQ_FULL d (b_address b)) s"
    obtain t where t: "count_STALL (p_type e) c = Some (c\<lparr>c_stats := t\<rparr>)" using count_STALL_total [OF assms(12)] by blast
    have "cache_at ?s1 i = Some c" using i assms(1,7) by simp
    then have "evict i cpu e st way s = Some (put_cache i (c\<lparr>c_stats := t\<rparr>) ?s1, False)"
      using assms(1,6,8) blk dirty full True t
      by (simp add: evict_def obj_increment_WQ_FULL_def on_cache_def)
    then show ?thesis using i assms(7) True
      by - (rule exI [of _ "put_cache i (c\<lparr>c_stats := t\<rparr>) ?s1"], rule exI [of _ False], rule exI [of _ "c\<lparr>c_stats := t\<rparr>"],
        rule exI [of _ "increment_WQ_FULL d (b_address b)"], simp add: increment_WQ_FULL_def)
  next
    case False
    have same: "same_packet (c_WQ d) p q \<longleftrightarrow> p_address q = p_address p" for p q
      using assms(10) by (simp add: same_packet_def)
    define p where "p = writeback_packet c cpu (g_current_core_cycle (y_globals s) ! unat cpu) e b"
    have p: "p_cpu p = cpu" "p_address p = b_address b" by (simp_all add: p_def writeback_packet_def)
    have "q_occupancy (c_WQ d) \<le> q_size (c_WQ d)" using assms(9) by (simp add: ring_inv_def)
    then have room: "q_occupancy (c_WQ d) < q_size (c_WQ d)" using False by auto
    obtain q r where q: "add_wq (y_globals s) d p = Some (d\<lparr>c_WQ := q\<rparr>, r)"
        "q_list q = (if \<exists>e \<in> set (q_list (c_WQ d)). same_packet (c_WQ d) p e then q_list (c_WQ d)
          else q_list (c_WQ d) @ [queued (y_globals s) d p])"
      using add_wq_total [OF assms(9), of p "y_globals s"] assms(11) p(1) room by auto
    have "evict i cpu e st way s = Some (put_cache j (d\<lparr>c_WQ := q\<rparr>) s, True)"
      using assms(1,6,8,11) blk dirty full False q(1)
      by (simp add: evict_def obj_add_wq_def p_def)
    then show ?thesis using i assms(1,7) False q(2)
      by - (rule exI [of _ "put_cache j (d\<lparr>c_WQ := q\<rparr>) s"], rule exI [of _ True], rule exI [of _ c],
        rule exI [of _ "d\<lparr>c_WQ := q\<rparr>"], simp add: same p p_def [symmetric])
  qed
qed

text \<open>An L1D with a dirty line over an L2C.\<close>

definition demo_dirty :: cache where
  "demo_dirty = (set_block demo_cache 1 0 (block_new\<lparr>b_valid := 1, b_dirty := 1, b_tag := 5, b_address := 5, b_data := 9\<rparr>))
     \<lparr>c_fill_level := 1, c_lower := Some (Cache_obj 1)\<rparr>"

definition demo_l2 :: cache where
  "demo_l2 = cache_new ''L2C'' 4 2 8 8 8 4 IS_L2C demo_repl"

definition demo_pair :: sys where
  "demo_pair = \<lparr>y_caches = [demo_dirty, demo_l2], y_mems = [], y_globals = demo_globals, y_pages = page_state_new,
     y_cores = [], y_LLC = 1\<rparr>"

lemma demo_pair_at: "cache_at demo_pair 0 = Some demo_dirty" "cache_at demo_pair 1 = Some demo_l2"
  by (simp_all add: cache_at_def demo_pair_def)

lemma evict_keeps_dirty_line_witness:
  "\<exists>s' d'. evict 0 0 packet_new 1 0 demo_pair = Some (s', True) \<and> cache_at s' 1 = Some d' \<and>
     map p_data (q_list (c_WQ d')) = [9]"
proof -
  have c: "shape_ok demo_dirty" "1 < unat (c_NUM_SET demo_dirty)" "0 < unat (c_NUM_WAY demo_dirty)"
      "c_block demo_dirty ! 1 ! 0 = block_new\<lparr>b_valid := 1, b_dirty := 1, b_tag := 5, b_address := 5, b_data := 9\<rparr>"
  proof -
    let ?b = "block_new\<lparr>b_valid := 1, b_dirty := 1, b_tag := 5, b_address := 5, b_data := 9\<rparr>"
    have dim: "unat (c_NUM_SET demo_cache) = 4" "unat (c_NUM_WAY demo_cache) = 2"
      by (simp_all add: demo_cache_def cache_new_def)
    show "shape_ok demo_dirty" using shape_set_block [OF demo_cache_store(1), of 1 0 ?b]
      by (simp add: demo_dirty_def shape_ok_def)
    show "1 < unat (c_NUM_SET demo_dirty)" "0 < unat (c_NUM_WAY demo_dirty)"
      using dim by (simp_all add: demo_dirty_def set_block_def)
    show "c_block demo_dirty ! 1 ! 0 = ?b"
      using set_block_nth [OF demo_cache_store(1), of 1 0 ?b 1 0] dim by (simp add: demo_dirty_def)
  qed
  have l: "c_lower demo_dirty = Some (Cache_obj 1)" "unat (p_type packet_new) < length (t_STALL (c_stats demo_dirty))"
    by (simp_all add: demo_dirty_def set_block_def demo_cache_def cache_new_def cache_stats_new_def packet_new_def NUM_TYPES_def Let_def)
  have w: "c_WQ demo_l2 = packet_queue_new ''L2C_WQ'' 8" by (simp add: demo_l2_def cache_new_def)
  have r: "ring_inv (c_WQ demo_l2)" "q_name (c_WQ demo_l2) \<noteq> ''L1D_WQ''" "q_list (c_WQ demo_l2) = []"
      "q_occupancy (c_WQ demo_l2) \<noteq> q_size (c_WQ demo_l2)"
    unfolding w by (simp_all add: packet_queue_new_ring packet_queue_new_ring(2)) (simp_all add: packet_queue_new_def)
  have g: "unat (0 :: u32) < length (g_current_core_cycle (y_globals demo_pair))" by (simp add: demo_pair_def demo_globals_def)
  have b: "b_dirty (c_block demo_dirty ! 1 ! 0) \<noteq> 0" using c(4) by simp
  from evict_keeps_dirty_line [OF demo_pair_at(1) c(1-3) b l(1) _ demo_pair_at(2) r(1,2) g l(2)] r(3,4)
  show ?thesis using c(4) by (auto simp: queued_def writeback_packet_def)
qed

end
