(* ===== verification/Cache_Steps.thy ===== *)
theory Cache_Steps
  imports Hierarchy
begin

text \<open>
  The steps of a handler that stay within one cache: they succeed, keep the invariant of the
  store, the statistics and the queue to the core, and leave the request queues and the miss
  registers alone.  \<open>local_inv\<close> is that invariant, \<open>same_queues\<close> what they leave alone.
\<close>

section \<open>The invariant\<close>

definition stats_ok :: "cache_stats \<Rightarrow> bool" where
  "stats_ok t \<longleftrightarrow> length (t_ACCESS t) = NUM_TYPES \<and> length (t_HIT t) = NUM_TYPES \<and> length (t_MISS t) = NUM_TYPES \<and>
     length (t_MSHR_MERGED t) = NUM_TYPES \<and> length (t_STALL t) = NUM_TYPES \<and>
     length (t_acc_epoch_hist t) = CACHE_ACC_LEVELS \<and>
     length (t_sim_access t) = NUM_CPUS \<and> list_all (\<lambda>r. length r = NUM_TYPES) (t_sim_access t) \<and>
     length (t_sim_hit t) = NUM_CPUS \<and> list_all (\<lambda>r. length r = NUM_TYPES) (t_sim_hit t) \<and>
     length (t_sim_miss t) = NUM_CPUS \<and> list_all (\<lambda>r. length r = NUM_TYPES) (t_sim_miss t)"

text \<open>
  A line that is valid or dirty has an address.  The instruction side and the TLBs never hold a
  dirty line, and a translation in a TLB is never 0.
\<close>

definition tlb_type :: "u8 \<Rightarrow> bool" where
  "tlb_type ty \<longleftrightarrow> ty = IS_ITLB \<or> ty = IS_DTLB \<or> ty = IS_STLB"

definition clean_type :: "u8 \<Rightarrow> bool" where
  "clean_type ty \<longleftrightarrow> tlb_type ty \<or> ty = IS_L1I"

definition block_ok :: "u8 \<Rightarrow> block \<Rightarrow> bool" where
  "block_ok ty b \<longleftrightarrow> (b_valid b \<noteq> 0 \<or> b_dirty b \<noteq> 0 \<longrightarrow> b_address b \<noteq> 0) \<and>
     (clean_type ty \<longrightarrow> b_dirty b = 0) \<and> (tlb_type ty \<longrightarrow> b_valid b \<noteq> 0 \<longrightarrow> b_data b \<noteq> 0)"

definition store_inv :: "llc_policy \<Rightarrow> cache \<Rightarrow> bool" where
  "store_inv pol c \<longleftrightarrow> (\<exists>k < 32. unat (c_NUM_SET c) = 2 ^ k) \<and>
     repl_inv (c_cache_type c = IS_LLC) pol (unat (c_NUM_SET c)) (c_NUM_WAY c) (c_repl c, c_block c) \<and>
     list_all (list_all (block_ok (c_cache_type c))) (c_block c)"

definition local_inv :: "llc_policy \<Rightarrow> cache \<Rightarrow> bool" where
  "local_inv pol c \<longleftrightarrow> store_inv pol c \<and> stats_ok (c_stats c) \<and> ring_inv (c_PROCESSED c)"

definition same_static :: "cache \<Rightarrow> cache \<Rightarrow> bool" where
  "same_static c c' \<longleftrightarrow> c_NUM_SET c' = c_NUM_SET c \<and> c_NUM_WAY c' = c_NUM_WAY c \<and> c_RQ_SIZE c' = c_RQ_SIZE c \<and>
     c_PQ_SIZE c' = c_PQ_SIZE c \<and> c_MSHR_SIZE c' = c_MSHR_SIZE c \<and> c_fill_level c' = c_fill_level c \<and>
     c_cache_type c' = c_cache_type c \<and> c_upper_icache c' = c_upper_icache c \<and>
     c_upper_dcache c' = c_upper_dcache c \<and> c_lower c' = c_lower c \<and> c_MAX_READ c' = c_MAX_READ c"

text \<open>What the accuracy of an epoch is computed from.\<close>

definition epoch_state :: "cache_stats \<Rightarrow> u64 \<times> u64 \<times> u64" where
  "epoch_state t = (t_pf_useful_epoch t, t_cycle t, t_next_measure_cycle t)"

definition same_queues :: "cache \<Rightarrow> cache \<Rightarrow> bool" where
  "same_queues c c' \<longleftrightarrow> same_static c c' \<and> epoch_state (c_stats c') = epoch_state (c_stats c) \<and> c_RQ c' = c_RQ c \<and> c_WQ c' = c_WQ c \<and> c_PQ c' = c_PQ c \<and> c_MSHR c' = c_MSHR c"

lemma same_static_refl [simp]: "same_static c c" by (simp add: same_static_def)
lemma same_queues_refl [simp]: "same_queues c c" by (simp add: same_queues_def)

lemma same_queues_trans: "same_queues a b \<Longrightarrow> same_queues b c \<Longrightarrow> same_queues a c"
  by (simp add: same_queues_def same_static_def)

text \<open>A step that succeeds, keeps the invariant and leaves the queues alone.\<close>

definition local_step :: "llc_policy \<Rightarrow> cache \<Rightarrow> cache option \<Rightarrow> bool" where
  "local_step pol c r \<longleftrightarrow> (\<exists>c'. r = Some c' \<and> local_inv pol c' \<and> same_queues c c')"

lemma local_stepI: "r = Some c' \<Longrightarrow> local_inv pol c' \<Longrightarrow> same_queues c c' \<Longrightarrow> local_step pol c r"
  by (auto simp: local_step_def)

lemma local_step_bind:
  assumes "local_step pol c r" "\<And>c'. local_inv pol c' \<Longrightarrow> same_queues c c' \<Longrightarrow> local_step pol c' (f c')"
  shows "local_step pol c (Option.bind r f)"
  using assms same_queues_trans unfolding local_step_def by fastforce

lemma local_step_refl: "local_inv pol c \<Longrightarrow> local_step pol c (Some c)"
  by (rule local_stepI [OF refl]) simp_all

text \<open>A quiet step also leaves the lines alone, but for their recency.\<close>

definition same_lines :: "cache \<Rightarrow> cache \<Rightarrow> bool" where
  "same_lines c c' \<longleftrightarrow> (\<forall>st < unat (c_NUM_SET c). \<forall>w < unat (c_NUM_WAY c).
     (c_block c' ! st ! w)\<lparr>b_lru := 0\<rparr> = (c_block c ! st ! w)\<lparr>b_lru := 0\<rparr>)"

definition quiet_step :: "llc_policy \<Rightarrow> cache \<Rightarrow> cache option \<Rightarrow> bool" where
  "quiet_step pol c r \<longleftrightarrow> (\<exists>c'. r = Some c' \<and> local_inv pol c' \<and> same_queues c c' \<and> same_lines c c')"

lemma same_lines_refl [simp]: "same_lines c c" by (simp add: same_lines_def)

lemma same_lines_trans: "same_queues a b \<Longrightarrow> same_lines a b \<Longrightarrow> same_lines b c \<Longrightarrow> same_lines a c"
  by (simp add: same_lines_def same_queues_def same_static_def)

lemma quiet_stepI: "r = Some c' \<Longrightarrow> local_inv pol c' \<Longrightarrow> same_queues c c' \<Longrightarrow> same_lines c c' \<Longrightarrow> quiet_step pol c r"
  by (auto simp: quiet_step_def)

lemma quiet_local: "quiet_step pol c r \<Longrightarrow> local_step pol c r"
  by (auto simp: quiet_step_def local_step_def)

lemma quiet_bind:
  assumes "quiet_step pol c r"
    "\<And>c'. local_inv pol c' \<Longrightarrow> same_queues c c' \<Longrightarrow> same_lines c c' \<Longrightarrow> quiet_step pol c' (f c')"
  shows "quiet_step pol c (Option.bind r f)"
proof -
  obtain c1 where c1: "r = Some c1" "local_inv pol c1" "same_queues c c1" "same_lines c c1"
    using assms(1) by (auto simp: quiet_step_def)
  obtain c2 where "f c1 = Some c2" "local_inv pol c2" "same_queues c1 c2" "same_lines c1 c2"
    using assms(2) [OF c1(2-4)] by (auto simp: quiet_step_def)
  then show ?thesis using c1 same_queues_trans same_lines_trans by (intro quiet_stepI [of _ c2]) auto
qed

lemma quiet_local_bind:
  assumes "quiet_step pol c r"
    "\<And>c'. local_inv pol c' \<Longrightarrow> same_queues c c' \<Longrightarrow> same_lines c c' \<Longrightarrow> local_step pol c' (f c')"
  shows "local_step pol c (Option.bind r f)"
proof -
  obtain c1 where c1: "r = Some c1" "local_inv pol c1" "same_queues c c1" "same_lines c c1"
    using assms(1) by (auto simp: quiet_step_def)
  obtain c2 where "f c1 = Some c2" "local_inv pol c2" "same_queues c1 c2"
    using assms(2) [OF c1(2-4)] by (auto simp: local_step_def)
  then show ?thesis using c1 same_queues_trans by (intro local_stepI [of _ c2]) auto
qed

lemma quiet_step_refl: "local_inv pol c \<Longrightarrow> quiet_step pol c (Some c)"
  by (rule quiet_stepI [OF refl]) simp_all

lemma local_inv_stats: "local_inv pol c \<Longrightarrow> stats_ok t \<Longrightarrow> local_inv pol (c\<lparr>c_stats := t\<rparr>)"
  by (simp add: local_inv_def store_inv_def)

lemma same_queues_simps [simp]:
  "same_queues c (c\<lparr>c_stats := t\<rparr>) = (epoch_state t = epoch_state (c_stats c))"
  "same_queues c (c\<lparr>c_repl := r, c_block := bs\<rparr>)"
  "same_queues c (c\<lparr>c_cpu := u\<rparr>)" "same_queues c (c\<lparr>c_block := bs\<rparr>)" "same_queues c (c\<lparr>c_PROCESSED := q\<rparr>)"
  "same_queues c (c\<lparr>c_page_buffer := pb\<rparr>)"
  by (simp_all add: same_queues_def same_static_def)

lemma local_inv_other [simp]:
  "local_inv pol (c\<lparr>c_cpu := u\<rparr>) = local_inv pol c" "local_inv pol (c\<lparr>c_page_buffer := pb\<rparr>) = local_inv pol c"
  "local_inv pol (c\<lparr>c_MSHR := q\<rparr>) = local_inv pol c" "local_inv pol (c\<lparr>c_RQ := q\<rparr>) = local_inv pol c"
  "local_inv pol (c\<lparr>c_WQ := q\<rparr>) = local_inv pol c" "local_inv pol (c\<lparr>c_PQ := q\<rparr>) = local_inv pol c"
  "local_inv pol (c\<lparr>c_reads_available := n\<rparr>) = local_inv pol c"
  by (simp_all add: local_inv_def store_inv_def)

section \<open>Counters\<close>

lemma bump2_total:
  assumes "i < length xs" "list_all (\<lambda>r. length r = m) xs" "j < m"
  shows "\<exists>ys. bump2 xs i j = Some ys \<and> length ys = length xs \<and> list_all (\<lambda>r. length r = m) ys"
proof -
  have l: "length (xs ! i) = m" using assms by (simp add: list_all_length)
  then have "bump2 xs i j = Some (xs[i := (xs ! i)[j := xs ! i ! j + 1]])"
    using assms by (simp add: bump2_def bump_Some)
  then show ?thesis using assms l by (auto simp: list_all_length nth_list_update)
qed

lemma count_step:
  assumes "local_inv pol c" "unat ty < NUM_TYPES"
    and "\<And>v t. length v = NUM_TYPES \<Longrightarrow> stats_ok t \<Longrightarrow> stats_ok (upd (\<lambda>_. v) t)"
    and "\<And>t. stats_ok t \<Longrightarrow> length (get t) = NUM_TYPES" "\<And>v t. epoch_state (upd (\<lambda>_. v) t) = epoch_state t"
  shows "quiet_step pol c (count get upd ty c)"
proof -
  have st: "stats_ok (c_stats c)" using assms(1) by (simp add: local_inv_def)
  let ?v = "(get (c_stats c))[unat ty := get (c_stats c) ! unat ty + 1]"
  have "count get upd ty c = Some (c\<lparr>c_stats := upd (\<lambda>_. ?v) (c_stats c)\<rparr>)"
    using assms(2,4) st by (simp add: count_def bump_Some)
  moreover have "stats_ok (upd (\<lambda>_. ?v) (c_stats c))" using assms(3,4) st by simp
  ultimately show ?thesis using assms(1,5) by (auto intro!: quiet_stepI local_inv_stats simp: same_lines_def)
qed

lemma count_steps:
  assumes "local_inv pol c" "unat ty < NUM_TYPES"
  shows "quiet_step pol c (count_HIT ty c)" "quiet_step pol c (count_MISS ty c)" "quiet_step pol c (count_ACCESS ty c)"
    "quiet_step pol c (count_MERGED ty c)" "quiet_step pol c (count_STALL ty c)"
  by (rule count_step [OF assms]; simp add: stats_ok_def epoch_state_def)+

lemma count_sim_step:
  assumes "local_inv pol c" "unat ty < NUM_TYPES" "unat cpu < NUM_CPUS"
    and "\<And>v t. length v = NUM_CPUS \<Longrightarrow> list_all (\<lambda>r. length r = NUM_TYPES) v \<Longrightarrow> stats_ok t \<Longrightarrow> stats_ok (upd (\<lambda>_. v) t)"
    and "\<And>t. stats_ok t \<Longrightarrow> length (get t) = NUM_CPUS \<and> list_all (\<lambda>r. length r = NUM_TYPES) (get t)"
    and "\<And>v t. epoch_state (upd (\<lambda>_. v) t) = epoch_state t"
  shows "quiet_step pol c (count_sim get upd cpu ty c)"
proof -
  have st: "stats_ok (c_stats c)" using assms(1) by (simp add: local_inv_def)
  obtain v where v: "bump2 (get (c_stats c)) (unat cpu) (unat ty) = Some v" "length v = NUM_CPUS"
      "list_all (\<lambda>r. length r = NUM_TYPES) v"
    using bump2_total [of "unat cpu" "get (c_stats c)" NUM_TYPES "unat ty"] assms(2,3) assms(5) [OF st] by auto
  then have "count_sim get upd cpu ty c = Some (c\<lparr>c_stats := upd (\<lambda>_. v) (c_stats c)\<rparr>)"
    by (simp add: count_sim_def)
  then show ?thesis using assms(1) assms(4) [OF v(2,3) st] assms(6) by (auto intro!: quiet_stepI local_inv_stats simp: same_lines_def)
qed

lemma count_sim_steps:
  assumes "local_inv pol c" "unat ty < NUM_TYPES" "unat cpu < NUM_CPUS"
  shows "quiet_step pol c (count_sim_hit cpu ty c)" "quiet_step pol c (count_sim_miss cpu ty c)"
    "quiet_step pol c (count_sim_access cpu ty c)"
  by (rule count_sim_step [OF assms]; simp add: stats_ok_def epoch_state_def)+

section \<open>The tag store\<close>

lemma store_inv_rows:
  assumes "store_inv pol c"
  shows "shape_ok c" "c_NUM_WAY c \<noteq> 0" "0 < unat (c_NUM_WAY c)"
proof -
  show "shape_ok c" using assms by (auto simp: store_inv_def repl_inv_def shape_ok_def list_all_iff)
  show "c_NUM_WAY c \<noteq> 0" using assms by (simp add: store_inv_def repl_inv_def)
  then show "0 < unat (c_NUM_WAY c)" by (simp add: unat_gt_0)
qed

lemma local_inv_store:
  assumes "local_inv pol c"
  shows "shape_ok c" "0 < unat (c_NUM_WAY c)" "get_set c a < unat (c_NUM_SET c)"
  using store_inv_rows [of pol c] get_set_less [of c a] assms by (auto simp: local_inv_def)

lemma local_inv_block:
  assumes "local_inv pol c" "st < unat (c_NUM_SET c)" "w < unat (c_NUM_WAY c)"
  shows "get_block c st w = Some (c_block c ! st ! w)" "block_ok (c_cache_type c) (c_block c ! st ! w)"
proof -
  have sh: "shape_ok c" using local_inv_store [OF assms(1)] by blast
  then show "get_block c st w = Some (c_block c ! st ! w)" using assms(2,3) by (rule get_block_at)
  show "block_ok (c_cache_type c) (c_block c ! st ! w)"
    using assms shape_set [OF sh assms(2)] by (simp add: local_inv_def store_inv_def list_all_length)
qed

text \<open>Replacement changes nothing but the recency of the blocks.\<close>

definition same_but_lru :: "block list \<Rightarrow> block list \<Rightarrow> bool" where
  "same_but_lru bs bs' \<longleftrightarrow> list_all2 (\<lambda>b b'. b'\<lparr>b_lru := 0\<rparr> = b\<lparr>b_lru := 0\<rparr>) bs bs'"

lemma same_but_lru_refl: "same_but_lru bs bs"
  by (simp add: same_but_lru_def list.rel_refl)

lemma same_but_lru_trans: "same_but_lru a b \<Longrightarrow> same_but_lru b c \<Longrightarrow> same_but_lru a c"
  by (auto simp: same_but_lru_def list_all2_conv_all_nth)

lemma same_but_lru_set: "i < length bs \<Longrightarrow> same_but_lru bs (bs[i := (bs ! i)\<lparr>b_lru := x\<rparr>])"
  by (auto simp: same_but_lru_def list_all2_conv_all_nth nth_list_update)

lemma lru_age_same: "lru_age bs way i n = Some bs' \<Longrightarrow> same_but_lru bs bs'"
proof (induction n arbitrary: bs i)
  case 0
  then show ?case by (simp add: same_but_lru_refl)
next
  case (Suc n)
  obtain b c :: block and bs1 where b: "arr_get bs i = Some b"
      "(if b_lru b < b_lru c then arr_set bs i (b\<lparr>b_lru := b_lru b + 1\<rparr>) else Some bs) = Some bs1"
      "lru_age bs1 way (Suc i) n = Some bs'"
    using Suc.prems unfolding lru_age.simps bind_Some_iff by blast
  moreover have "same_but_lru bs bs1"
    using b(1,2) by (auto simp: arr_simps same_but_lru_set same_but_lru_refl split: if_splits)
  ultimately show ?case using Suc.IH same_but_lru_trans by blast
qed

lemma lru_update_same:
  assumes "lru_update n bs way = Some bs'"
  shows "same_but_lru bs bs'"
proof -
  obtain bs1 where "lru_age bs way 0 (unat n) = Some bs1" "way < length bs1" "bs' = bs1[way := (bs1 ! way)\<lparr>b_lru := 0\<rparr>]"
    using assms by (auto simp: lru_update_def arr_simps)
  then show ?thesis using lru_age_same same_but_lru_set same_but_lru_trans by metis
qed

lemma same_but_lru_ok:
  assumes "same_but_lru bs bs'" "list_all (block_ok ty) bs"
  shows "list_all (block_ok ty) bs'"
proof -
  have "block_ok ty b' = block_ok ty b" if "b'\<lparr>b_lru := 0\<rparr> = b\<lparr>b_lru := 0\<rparr>" for b b'
  proof -
    have "block_ok ty (b'\<lparr>b_lru := 0\<rparr>) = block_ok ty (b\<lparr>b_lru := 0\<rparr>)" by (simp only: that)
    then show ?thesis by (simp add: block_ok_def)
  qed
  note eq = this
  show ?thesis
    using assms unfolding same_but_lru_def by (induction rule: list_all2_induct) (simp, metis eq list.pred_inject(2))
qed

lemma same_row: "\<exists>bs. bss = bss[st := bs] \<and> same_but_lru (bss ! st) bs"
  by (rule exI [of _ "bss ! st"]) (simp add: same_but_lru_refl)

lemma repl_update_same:
  assumes "repl_update llc pol n (r, bss) ctx st way hit = Some (r', bss')" "st < length bss"
  shows "\<exists>bs. bss' = bss[st := bs] \<and> same_but_lru (bss ! st) bs"
  using assms
  by (cases ctx; cases pol)
    (auto simp: repl_update_def llc_update_replacement_state_def update_replacement_state_def arr_simps
      dest: lru_update_same intro: same_row split: if_splits)

text \<open>Storing rows of blocks.\<close>

lemma store_inv_set:
  assumes "store_inv pol c" "length bs = unat (c_NUM_WAY c)" "lru_perm (lrus bs)" "list_all (block_ok (c_cache_type c)) bs"
    and "c_cache_type c = IS_LLC \<longrightarrow> llc_inv pol r"
  shows "store_inv pol (c\<lparr>c_repl := r, c_block := (c_block c)[st := bs]\<rparr>)"
  using assms repl_inv_update [of "c_cache_type c = IS_LLC" pol _ _ "(c_repl c, c_block c)" bs r st]
  by (auto simp: store_inv_def list_all_iff dest!: set_update_subset_insert [THEN subsetD])

lemma local_inv_set:
  assumes "local_inv pol c" "st < unat (c_NUM_SET c)" "w < unat (c_NUM_WAY c)"
    and "block_ok (c_cache_type c) b" "b_lru b = b_lru (c_block c ! st ! w)"
  shows "local_inv pol (set_block c st w b)"
proof -
  have si: "store_inv pol c" using assms(1) by (simp add: local_inv_def)
  note sh = shape_set [OF store_inv_rows(1) [OF si] assms(2)]
  let ?row = "(c_block c ! st)[w := b]"
  have "lrus ?row = lrus (c_block c ! st)"
    using assms(5) sh assms(3) by (simp add: map_update list_update_same_conv)
  moreover have "list_all (block_ok (c_cache_type c)) (c_block c ! st)"
    using si sh by (auto simp: store_inv_def list_all_length)
  then have "list_all (block_ok (c_cache_type c)) ?row"
    using assms(4) by (auto simp: list_all_iff dest!: set_update_subset_insert [THEN subsetD])
  ultimately have "store_inv pol (c\<lparr>c_repl := c_repl c, c_block := (c_block c)[st := ?row]\<rparr>)"
    using si sh repl_inv_set [of _ pol _ _ "(c_repl c, c_block c)" st] assms(2)
    by (intro store_inv_set) (auto simp: store_inv_def repl_inv_def)
  then show ?thesis using assms(1) by (simp add: local_inv_def set_block_def store_inv_def)
qed

lemma put_block_step:
  assumes "local_inv pol c" "st < unat (c_NUM_SET c)" "w < unat (c_NUM_WAY c)"
    and "block_ok (c_cache_type c) b" "b_lru b = b_lru (c_block c ! st ! w)"
  shows "put_block c st w b = Some (set_block c st w b)" "local_inv pol (set_block c st w b)"
    "same_queues c (set_block c st w b)"
  using put_block_eq [OF local_inv_store(1) [OF assms(1)] assms(2,3)] local_inv_set [OF assms]
  by (simp_all add: set_block_def)

lemma cache_victim_step:
  assumes "local_inv pol c" "k_llc_policy g = pol" "st < unat (c_NUM_SET c)"
  shows "\<exists>way c'. cache_victim g st c = Some (way, c') \<and> way < unat (c_NUM_WAY c) \<and> local_inv pol c' \<and>
    same_queues c c' \<and> c_block c' = c_block c \<and> \<not> (c_cache_type c = IS_LLC \<and> way = LLC_WAY)"
proof -
  have si: "store_inv pol c" using assms(1) by (simp add: local_inv_def)
  then have ri: "repl_inv (c_cache_type c = IS_LLC) pol (unat (c_NUM_SET c)) (c_NUM_WAY c) (c_repl c, c_block c)"
    by (simp add: store_inv_def)
  obtain way r where v: "repl_victim (c_cache_type c = IS_LLC) pol (c_NUM_WAY c) (c_repl c, c_block c) st = Some (way, r, c_block c)"
      "way < unat (c_NUM_WAY c)" "repl_inv (c_cache_type c = IS_LLC) pol (unat (c_NUM_SET c)) (c_NUM_WAY c) (r, c_block c)"
    using repl_victim_total [OF ri assms(3)] by (auto simp: prod_eq_iff)
  let ?c = "c\<lparr>c_repl := r, c_block := c_block c\<rparr>"
  have "cache_victim g st c = Some (way, ?c)" using v(1) assms(2) by (simp add: cache_victim_def)
  moreover have "local_inv pol ?c" using assms(1) v(3) by (simp add: local_inv_def store_inv_def)
  moreover have "\<not> (c_cache_type c = IS_LLC \<and> way = LLC_WAY)" using v(2) ri by (auto simp: repl_inv_def)
  ultimately show ?thesis using v(2) by (intro exI [of _ way] exI [of _ ?c]) (simp add: same_queues_def same_static_def)
qed

definition access_ok :: "u32 \<Rightarrow> u64 \<Rightarrow> u8 \<Rightarrow> bool" where
  "access_ok cpu ip ty \<longleftrightarrow> unat cpu < NUM_CPUS \<and> (ty = LOAD \<or> ty = RFO \<or> ty = PREFETCH \<or> ty = WRITEBACK \<and> ip = 0)"

lemma access_ok_type: "access_ok cpu ip ty \<Longrightarrow> unat ty < NUM_TYPES \<and> unat cpu < NUM_CPUS"
  by (auto simp: access_ok_def champsim_consts)

lemma cache_touch_step:
  assumes "local_inv pol c" "k_llc_policy g = pol" "st < unat (c_NUM_SET c)" "way < unat (c_NUM_WAY c)" "access_ok cpu ip ty"
  shows "quiet_step pol c (cache_touch g cpu a ip ty st way hit c)"
proof -
  have si: "store_inv pol c" using assms(1) by (simp add: local_inv_def)
  then have ri: "repl_inv (c_cache_type c = IS_LLC) pol (unat (c_NUM_SET c)) (c_NUM_WAY c) (c_repl c, c_block c)"
    by (simp add: store_inv_def)
  have ctx: "repl_ctx_ok (unat cpu, a, ip, ty)" using assms(5) by (simp add: repl_ctx_ok_def access_ok_def)
  obtain r bss where u: "repl_update (c_cache_type c = IS_LLC) pol (c_NUM_WAY c) (c_repl c, c_block c)
        (unat cpu, a, ip, ty) st way hit = Some (r, bss)"
      "repl_inv (c_cache_type c = IS_LLC) pol (unat (c_NUM_SET c)) (c_NUM_WAY c) (r, bss)"
    using repl_update_total [OF ri ctx assms(3,4), of hit] by auto
  have len: "st < length (c_block c)" using shape_set [OF store_inv_rows(1) [OF si] assms(3)] by simp
  obtain bs where bs: "bss = (c_block c)[st := bs]" "same_but_lru (c_block c ! st) bs"
    using repl_update_same [OF u(1) len] by blast
  have "list_all (block_ok (c_cache_type c)) (c_block c ! st)" using si len by (simp add: store_inv_def list_all_length)
  then have "list_all (list_all (block_ok (c_cache_type c))) bss"
    using same_but_lru_ok [OF bs(2)] si unfolding bs(1)
    by (auto simp: store_inv_def list_all_iff dest!: set_update_subset_insert [THEN subsetD])
  then have "local_inv pol (c\<lparr>c_repl := r, c_block := bss\<rparr>)"
    using assms(1) u(2) by (simp add: local_inv_def store_inv_def)
  moreover have "cache_touch g cpu a ip ty st way hit c = Some (c\<lparr>c_repl := r, c_block := bss\<rparr>)"
    using u(1) assms(2) by (simp add: cache_touch_def)
  moreover have "same_lines c (c\<lparr>c_repl := r, c_block := bss\<rparr>)"
    using bs len shape_set [OF store_inv_rows(1) [OF si]] unfolding same_lines_def
    by (auto simp: same_but_lru_def list_all2_conv_all_nth nth_list_update)
  ultimately show ?thesis by (intro quiet_stepI [of _ "c\<lparr>c_repl := r, c_block := bss\<rparr>"]) (simp_all add: same_queues_def same_static_def)
qed

lemma same_lines_block:
  assumes "same_lines c c'" "st < unat (c_NUM_SET c)" "w < unat (c_NUM_WAY c)"
  shows "b_valid (c_block c' ! st ! w) = b_valid (c_block c ! st ! w)"
    "b_dirty (c_block c' ! st ! w) = b_dirty (c_block c ! st ! w)"
    "b_address (c_block c' ! st ! w) = b_address (c_block c ! st ! w)"
    "b_data (c_block c' ! st ! w) = b_data (c_block c ! st ! w)"
proof -
  have e: "(c_block c' ! st ! w)\<lparr>b_lru := 0\<rparr> = (c_block c ! st ! w)\<lparr>b_lru := 0\<rparr>"
    using assms by (simp add: same_lines_def)
  show "b_valid (c_block c' ! st ! w) = b_valid (c_block c ! st ! w)" using arg_cong [OF e, of b_valid] by simp
  show "b_dirty (c_block c' ! st ! w) = b_dirty (c_block c ! st ! w)" using arg_cong [OF e, of b_dirty] by simp
  show "b_address (c_block c' ! st ! w) = b_address (c_block c ! st ! w)" using arg_cong [OF e, of b_address] by simp
  show "b_data (c_block c' ! st ! w) = b_data (c_block c ! st ! w)" using arg_cong [OF e, of b_data] by simp
qed

lemma mark_dirty_step:
  assumes "local_inv pol c" "st < unat (c_NUM_SET c)" "way < unat (c_NUM_WAY c)" "\<not> clean_type (c_cache_type c)"
    and "b_address (c_block c ! st ! way) \<noteq> 0"
  shows "local_step pol c (mark_dirty st way c)"
proof -
  note b = local_inv_block [OF assms(1-3)]
  let ?b = "(c_block c ! st ! way)\<lparr>b_dirty := 1\<rparr>"
  have "block_ok (c_cache_type c) ?b" using b(2) assms(4,5) by (simp add: block_ok_def)
  note p = put_block_step [OF assms(1-3) this]
  show ?thesis using p b(1) by (intro local_stepI [of _ "set_block c st way ?b"]) (simp_all add: mark_dirty_def)
qed

text \<open>A use of a prefetched line counts in the epoch.\<close>

definition used_up_to :: "nat \<Rightarrow> cache \<Rightarrow> cache \<Rightarrow> bool" where
  "used_up_to n c c' \<longleftrightarrow> (\<exists>k \<le> n. t_pf_useful_epoch (c_stats c') = t_pf_useful_epoch (c_stats c) + of_nat k) \<and>
     t_cycle (c_stats c') = t_cycle (c_stats c) \<and> t_next_measure_cycle (c_stats c') = t_next_measure_cycle (c_stats c)"

lemma same_queues_used: "same_queues c c' \<Longrightarrow> used_up_to 0 c c'"
  by (simp add: same_queues_def used_up_to_def epoch_state_def)

lemma used_up_to_trans:
  assumes "used_up_to m a b" "used_up_to n b c"
  shows "used_up_to (m + n) a c"
proof -
  obtain k l where k: "k \<le> m" "t_pf_useful_epoch (c_stats b) = t_pf_useful_epoch (c_stats a) + of_nat k"
      "l \<le> n" "t_pf_useful_epoch (c_stats c) = t_pf_useful_epoch (c_stats b) + of_nat l"
    using assms by (auto simp: used_up_to_def)
  then have "t_pf_useful_epoch (c_stats c) = t_pf_useful_epoch (c_stats a) + of_nat (k + l)" by simp
  then show ?thesis using assms k by (auto simp: used_up_to_def intro!: exI [of _ "k + l"])
qed

lemma used_up_to_mono: "used_up_to m a b \<Longrightarrow> m \<le> n \<Longrightarrow> used_up_to n a b"
  unfolding used_up_to_def using le_trans by blast

definition same_traffic :: "cache \<Rightarrow> cache \<Rightarrow> bool" where
  "same_traffic c c' \<longleftrightarrow> same_static c c' \<and> c_RQ c' = c_RQ c \<and> c_WQ c' = c_WQ c \<and> c_PQ c' = c_PQ c \<and> c_MSHR c' = c_MSHR c"

lemma use_line_step:
  assumes "local_inv pol c" "st < unat (c_NUM_SET c)" "way < unat (c_NUM_WAY c)"
  shows "\<exists>c'. use_line st way c = Some c' \<and> local_inv pol c' \<and> same_traffic c c' \<and> used_up_to 1 c c'"
proof -
  note b = local_inv_block [OF assms]
  let ?b = "(c_block c ! st ! way)\<lparr>b_prefetch := 0, b_used := 1\<rparr>"
  define c1 where "c1 = (if b_prefetch (c_block c ! st ! way) \<noteq> 0
       then c\<lparr>c_stats := (c_stats c)\<lparr>t_pf_useful := t_pf_useful (c_stats c) + 1,
         t_pf_useful_epoch := t_pf_useful_epoch (c_stats c) + 1\<rparr>\<rparr> else c)"
  have c1: "local_inv pol c1" "same_traffic c c1" "used_up_to 1 c c1" "c_block c1 = c_block c" "c_NUM_SET c1 = c_NUM_SET c"
      "c_NUM_WAY c1 = c_NUM_WAY c" "c_cache_type c1 = c_cache_type c"
    using assms(1) by (auto simp: c1_def local_inv_def store_inv_def stats_ok_def same_traffic_def same_static_def used_up_to_def
        intro: exI [of _ 1] exI [of _ 0])
  have "block_ok (c_cache_type c1) ?b" using b(2) by (simp add: block_ok_def c1)
  then have p: "put_block c1 st way ?b = Some (set_block c1 st way ?b)" "local_inv pol (set_block c1 st way ?b)"
      "same_queues c1 (set_block c1 st way ?b)"
    using put_block_step [OF c1(1), of st way ?b] assms(2,3) by (simp_all add: c1)
  have "use_line st way c = Some (set_block c1 st way ?b)"
    using b(1) p(1) by (simp add: use_line_def c1_def)
  moreover have "same_traffic c (set_block c1 st way ?b)"
    using c1(2) p(3) by (simp add: same_traffic_def same_queues_def same_static_def)
  moreover have "used_up_to 1 c (set_block c1 st way ?b)"
    using used_up_to_trans [OF c1(3) same_queues_used [OF p(3)]] by simp
  ultimately show ?thesis using p(2) by blast
qed

lemma to_core_step:
  assumes "local_inv pol c"
  shows "quiet_step pol c (to_core e c)"
proof (cases "q_occupancy (c_PROCESSED c) < q_size (c_PROCESSED c)")
  case True
  have "ring_inv (c_PROCESSED c)" using assms by (simp add: local_inv_def)
  then obtain q where "add_queue (c_PROCESSED c) e = Some q" "ring_inv q" using add_queue_ring True by blast
  then show ?thesis using True assms
    by (auto simp: to_core_def add_processed_def local_inv_def store_inv_def same_lines_def
        intro!: quiet_stepI [of _ "c\<lparr>c_PROCESSED := q\<rparr>"] quiet_step_refl)
next
  case False
  then show ?thesis using quiet_step_refl [OF assms] by (simp add: to_core_def add_processed_def)
qed

lemma stats_fill: "stats_ok t \<Longrightarrow> stats_ok (fill_stats t b p)" "epoch_state (fill_stats t b p) = epoch_state t"
  by (simp_all add: fill_stats_def stats_ok_def epoch_state_def Let_def)

lemma fill_cache_step:
  assumes "local_inv pol c" "st < unat (c_NUM_SET c)" "way < unat (c_NUM_WAY c)" "p_address p \<noteq> 0"
    and "tlb_type (c_cache_type c) \<Longrightarrow> p_data p \<noteq> 0"
  shows "\<exists>c'. fill_cache c st way p = Some c' \<and> local_inv pol c' \<and> same_queues c c' \<and>
    b_address (c_block c' ! st ! way) \<noteq> 0"
proof -
  note b = local_inv_block [OF assms(1-3)]
  let ?b = "filled_block (c_block c ! st ! way) p"
  define c1 where "c1 = c\<lparr>c_stats := fill_stats (c_stats c) (c_block c ! st ! way) p\<rparr>"
  have c1: "local_inv pol c1" "same_queues c c1" "c_block c1 = c_block c" "c_NUM_SET c1 = c_NUM_SET c"
      "c_NUM_WAY c1 = c_NUM_WAY c" "c_cache_type c1 = c_cache_type c"
    using assms(1) by (auto simp: c1_def local_inv_def store_inv_def stats_fill)
  have "block_ok (c_cache_type c1) ?b" using assms(4,5) by (simp add: block_ok_def c1 filled_block_def)
  moreover have "b_lru ?b = b_lru (c_block c1 ! st ! way)" by (simp add: filled_block_def c1)
  ultimately have p: "put_block c1 st way ?b = Some (set_block c1 st way ?b)" "local_inv pol (set_block c1 st way ?b)"
      "same_queues c1 (set_block c1 st way ?b)"
    using put_block_step [OF c1(1), of st way ?b] assms(2,3) by (simp_all add: c1)
  have "fill_cache c st way p = Some (set_block c1 st way ?b)"
    using b(1) p(1) assms(5) by (simp add: fill_cache_def c1_def tlb_type_def)
  moreover have "c_block (set_block c1 st way ?b) ! st ! way = ?b"
    using set_block_nth [OF local_inv_store(1) [OF c1(1)], of st way ?b st way] assms(2,3) by (simp add: c1)
  ultimately show ?thesis using p same_queues_trans [OF c1(2)] assms(4) by (auto simp: filled_block_def)
qed

lemma fill_line_step:
  assumes "local_inv pol c" "k_llc_policy g = pol" "st < unat (c_NUM_SET c)" "way < unat (c_NUM_WAY c)"
    and "access_ok cpu (p_ip p) (p_type p)" "p_address p \<noteq> 0"
    and "tlb_type (c_cache_type c) \<Longrightarrow> p_data p \<noteq> 0"
  shows "\<exists>c'. fill_line g cpu st way p c = Some c' \<and> local_inv pol c' \<and> same_queues c c' \<and>
    b_address (c_block c' ! st ! way) \<noteq> 0"
proof -
  note t = access_ok_type [OF assms(5)]
  have f: "local_inv pol (forget_cpu c)" "same_queues c (forget_cpu c)" using assms(1) by (simp_all add: forget_cpu_def)
  have "quiet_step pol (forget_cpu c) (do {
     c1 \<leftarrow> cache_touch g cpu (p_full_addr p) (p_ip p) (p_type p) st way False (forget_cpu c);
     c2 \<leftarrow> count_sim_miss cpu (p_type p) c1;
     count_sim_access cpu (p_type p) c2 })"
    using cache_touch_step [OF f(1) assms(2), of st way cpu "p_ip p" "p_type p"] f assms(3-5) t
    by (intro quiet_bind count_sim_steps) (auto simp: same_queues_def same_static_def)
  then obtain c3 where c3: "do {
     c1 \<leftarrow> cache_touch g cpu (p_full_addr p) (p_ip p) (p_type p) st way False (forget_cpu c);
     c2 \<leftarrow> count_sim_miss cpu (p_type p) c1;
     count_sim_access cpu (p_type p) c2 } = Some c3" "local_inv pol c3" "same_queues (forget_cpu c) c3"
    by (auto simp: quiet_step_def)
  have q: "same_queues c c3" by (rule same_queues_trans [OF f(2) c3(3)])
  then have st: "st < unat (c_NUM_SET c3)" "way < unat (c_NUM_WAY c3)" "c_cache_type c3 = c_cache_type c"
    using assms(3,4) by (auto simp: same_queues_def same_static_def)
  obtain c' where c': "fill_cache c3 st way p = Some c'" "local_inv pol c'" "same_queues c3 c'"
      "b_address (c_block c' ! st ! way) \<noteq> 0"
    using fill_cache_step [OF c3(2) st(1,2) assms(6)] assms(7) st(3) by auto
  have "fill_line g cpu st way p c = Some c'"
    using c3(1) c'(1) by (auto simp: fill_line_def bind_Some_iff)
  then show ?thesis using c' same_queues_trans [OF q] by blast
qed

section \<open>Lookups\<close>

text \<open>The knobs of a run without the ideal caches.\<close>

definition knobs_ok :: "globals \<Rightarrow> bool" where
  "knobs_ok g \<longleftrightarrow> \<not> k_l1d_perfect g \<and> \<not> k_l2c_perfect g \<and> \<not> k_llc_perfect g \<and> 0 < unat (k_page_buffer_size g)"

lemma search_and_add_total:
  assumes "0 < unat (k_page_buffer_size g)"
  shows "\<exists>pb found. search_and_add g c page = Some (c\<lparr>c_page_buffer := pb\<rparr>, found)"
proof (cases "page \<in> set (c_page_buffer c)")
  case True
  then have "search_and_add g c page = Some (c\<lparr>c_page_buffer := c_page_buffer c\<rparr>, True)" by (simp add: search_and_add_def)
  then show ?thesis by blast
next
  case False
  have "(if unat (k_page_buffer_size g) \<le> length (c_page_buffer c)
      then (case c_page_buffer c of [] \<Rightarrow> None | _ # ps \<Rightarrow> Some ps) else Some (c_page_buffer c)) \<noteq> None" (is "?m \<noteq> None")
    using assms by (cases "c_page_buffer c") auto
  then obtain buf where "?m = Some buf" by blast
  then have "search_and_add g c page = Some (c\<lparr>c_page_buffer := buf @ [page]\<rparr>, False)"
    using False by (simp add: search_and_add_def)
  then show ?thesis by blast
qed

lemma check_hit_step:
  assumes "local_inv pol c" "knobs_ok g"
  shows "\<exists>c' way. check_hit g c p = Some (c', way) \<and> local_inv pol c' \<and> same_queues c c' \<and> c_block c' = c_block c \<and>
    (0 \<le> way \<longrightarrow> nat way < unat (c_NUM_WAY c) \<and>
      (p_type p \<noteq> LOAD \<or> tlb_type (c_cache_type c) \<longrightarrow> b_valid (c_block c ! get_set c (p_address p) ! nat way) \<noteq> 0))"
proof -
  have sh: "shape_ok c" "0 < unat (c_NUM_WAY c)" "get_set c (p_address p) < unat (c_NUM_SET c)"
    using local_inv_store [OF assms(1)] by blast+
  have np: "\<not> is_perfect g c" using assms(2) by (auto simp: is_perfect_def knobs_ok_def)
  have semi: "tlb_type (c_cache_type c) \<Longrightarrow> \<not> is_semi_perfect g c"
    by (auto simp: is_semi_perfect_def tlb_type_def champsim_consts)
  show ?thesis
  proof (cases "is_semi_perfect g c \<and> p_type p = LOAD")
    case False
    let ?r = "first_index (\<lambda>w. tag_match (p_address p) (c_block c ! get_set c (p_address p) ! w)) 0 (unat (c_NUM_WAY c))"
    have "check_hit g c p = Some (c, case ?r of Some w \<Rightarrow> int w | None \<Rightarrow> - 1)"
      using check_hit_plain [OF sh(1) np False] .
    moreover have "0 \<le> (case ?r of Some w \<Rightarrow> int w | None \<Rightarrow> - 1) \<Longrightarrow>
        nat (case ?r of Some w \<Rightarrow> int w | None \<Rightarrow> - 1) < unat (c_NUM_WAY c) \<and>
        b_valid (c_block c ! get_set c (p_address p) ! nat (case ?r of Some w \<Rightarrow> int w | None \<Rightarrow> - 1)) \<noteq> 0"
      by (auto simp: tag_match_def split: option.splits dest!: first_index_Some)
    ultimately show ?thesis using assms(1) by auto
  next
    case True
    obtain pb found where pb: "search_and_add g c (drop_bit LOG2_PAGE_SIZE (p_address p)) = Some (c\<lparr>c_page_buffer := pb\<rparr>, found)"
      using search_and_add_total [of g c] assms(2) unfolding knobs_ok_def by blast
    let ?c = "c\<lparr>c_page_buffer := pb\<rparr>"
    let ?r = "first_index (\<lambda>w. tag_match (p_address p) (c_block c ! get_set c (p_address p) ! w)) 0 (unat (c_NUM_WAY c))"
    have row: "length (c_block c ! get_set c (p_address p)) = unat (c_NUM_WAY c) \<and> get_set c (p_address p) < length (c_block c)"
      using shape_set [OF sh(1,3)] .
    have "check_hit g c p = Some (?c, if found then 0 else case ?r of Some w \<Rightarrow> int w | None \<Rightarrow> - 1)"
      using np True pb row sh(3) by (cases found) (simp_all add: check_hit_def search_arr_eq Let_def)
    moreover have "0 \<le> (if found then 0 else case ?r of Some w \<Rightarrow> int w | None \<Rightarrow> - 1) \<Longrightarrow>
        nat (if found then 0 else case ?r of Some w \<Rightarrow> int w | None \<Rightarrow> - 1) < unat (c_NUM_WAY c)"
      using sh(2) by (auto split: option.splits if_splits dest!: first_index_Some)
    moreover have "\<not> (p_type p \<noteq> LOAD \<or> tlb_type (c_cache_type c))" using True semi by blast
    ultimately show ?thesis using assms(1) by auto
  qed
qed

lemma inval_step:
  assumes "local_inv pol c"
  shows "local_step pol c (map_option fst (invalidate_entry c a))"
proof -
  let ?st = "get_set c a"
  have sh: "shape_ok c" "?st < unat (c_NUM_SET c)" using local_inv_store [OF assms] by blast+
  note row = shape_set [OF sh]
  show ?thesis
  proof (cases "first_index (\<lambda>w. tag_match a (c_block c ! ?st ! w)) 0 (unat (c_NUM_WAY c))")
    case None
    then have "invalidate_entry c a = Some (c, - 1)"
      using sh row by (simp add: invalidate_entry_def Let_def search_arr_eq)
    then show ?thesis using local_step_refl [OF assms] by simp
  next
    case (Some w)
    then have w: "w < unat (c_NUM_WAY c)" by (auto dest!: first_index_Some)
    let ?b = "(c_block c ! ?st ! w)\<lparr>b_valid := 0\<rparr>"
    have "block_ok (c_cache_type c) ?b" using local_inv_block(2) [OF assms sh(2) w] by (auto simp: block_ok_def)
    note p = put_block_step [OF assms sh(2) w this]
    have "invalidate_entry c a = Some (set_block c ?st w ?b, int w)"
      using sh row Some p(1) by (simp add: invalidate_entry_def Let_def search_arr_eq)
    then show ?thesis using p by (auto intro: local_stepI)
  qed
qed

section \<open>The accuracy of an epoch\<close>

text \<open>
  The counter of useful prefetches is bounded by the reads since the last measurement: with
  \<open>d\<close> cycles to go in an epoch of \<open>e\<close> cycles, at most \<open>m * (e - d)\<close>.  So the quotient of an
  epoch fits in 32 bits when an epoch has at most \<open>2\<^sup>18\<close> cycles of at most 8 reads.
\<close>

definition epoch_ok :: "globals \<Rightarrow> nat \<Rightarrow> cache \<Rightarrow> bool" where
  "epoch_ok g extra c \<longleftrightarrow> (let t = c_stats c; e = unat (k_measure_cache_acc_epoch g);
      d = unat (t_next_measure_cycle t - t_cycle t) in
     k_measure_cache_acc g \<longrightarrow> d \<le> e \<and> (d = 0 \<longrightarrow> t_cycle t = 0) \<and>
     unat (t_pf_useful_epoch t) \<le> unat (c_MAX_READ c) * (e - d) + extra)"

definition epochs_small :: "globals \<Rightarrow> bool" where
  "epochs_small g \<longleftrightarrow> (k_measure_cache_acc g \<longrightarrow> 0 < unat (k_measure_cache_acc_epoch g) \<and>
     unat (k_measure_cache_acc_epoch g) \<le> 2 ^ 18)"

lemma unat_add_nat_le: "unat (a + of_nat k :: u64) \<le> unat a + k"
proof -
  have "unat (a + of_nat k) = (unat a + k mod 2 ^ 64) mod 2 ^ 64"
    by (simp add: unat_word_ariths unsigned_of_nat take_bit_eq_mod)
  also have "\<dots> \<le> unat a + k" using mod_less_eq_dividend order_trans by (meson add_left_mono)
  finally show ?thesis .
qed

lemma epoch_ok_used:
  assumes "epoch_ok g m c" "used_up_to n c c'" "c_MAX_READ c' = c_MAX_READ c" "epochs_small g"
    "unat (c_MAX_READ c) \<le> 8" "m + n \<le> 2 ^ 18"
  shows "epoch_ok g (m + n) c'"
proof (cases "k_measure_cache_acc g")
  case True
  obtain k where k: "k \<le> n" "t_pf_useful_epoch (c_stats c') = t_pf_useful_epoch (c_stats c) + of_nat k"
    using assms(2) by (auto simp: used_up_to_def)
  let ?e = "unat (k_measure_cache_acc_epoch g)" and ?d = "unat (t_next_measure_cycle (c_stats c) - t_cycle (c_stats c))"
  have "unat (t_pf_useful_epoch (c_stats c)) \<le> unat (c_MAX_READ c) * (?e - ?d) + m"
    using assms(1) True by (simp add: epoch_ok_def Let_def)
  moreover have "unat (t_pf_useful_epoch (c_stats c')) \<le> unat (t_pf_useful_epoch (c_stats c)) + n"
    using k unat_add_nat_le [of "t_pf_useful_epoch (c_stats c)" k] by simp
  ultimately show ?thesis using assms True by (simp add: epoch_ok_def used_up_to_def Let_def)
qed (simp add: epoch_ok_def)

end
