(* ===== verification/Core_State.thy ===== *)
theory Core_State
  imports Packet_Queue
begin

text \<open>
  The state of the out-of-order core: \<open>inc/instruction.h\<close>, the buffers of \<open>inc/block.h\<close> and the
  class \<open>O3_CPU\<close> of \<open>inc/ooo_cpu.h\<close>, with their constructors.

  A pointer into the reorder buffer, the load queue or the store queue is an index, as in the
  source.  The six arrays of ready instructions (\<open>RTE0\<close>, \<open>RTE1\<close>, \<open>RTL0\<close>, \<open>RTL1\<close>, \<open>RTS0\<close>,
  \<open>RTS1\<close>) with their heads and tails are the record \<open>index_ring\<close>.
\<close>

section \<open>Constants\<close>

definition NUM_INSTR_DESTINATIONS_SPARC :: nat where [champsim_consts]: "NUM_INSTR_DESTINATIONS_SPARC = 4"
definition NUM_INSTR_DESTINATIONS :: nat where [champsim_consts]: "NUM_INSTR_DESTINATIONS = 2"
definition NUM_INSTR_SOURCES :: nat where [champsim_consts]: "NUM_INSTR_SOURCES = 4"
definition FETCH_WIDTH :: nat where [champsim_consts]: "FETCH_WIDTH = 6"
definition EXEC_WIDTH :: nat where [champsim_consts]: "EXEC_WIDTH = 4"
definition LQ_WIDTH :: nat where [champsim_consts]: "LQ_WIDTH = 2"
definition SQ_WIDTH :: nat where [champsim_consts]: "SQ_WIDTH = 2"
definition RETIRE_WIDTH :: nat where [champsim_consts]: "RETIRE_WIDTH = 4"
definition SCHEDULER_SIZE :: u32 where [champsim_consts]: "SCHEDULER_SIZE = 128"
definition BRANCH_MISPREDICT_PENALTY :: u64 where [champsim_consts]: "BRANCH_MISPREDICT_PENALTY = 20"
definition STA_SIZE :: nat where [champsim_consts]: "STA_SIZE = ROB_SIZE * NUM_INSTR_DESTINATIONS_SPARC"
definition DEADLOCK_CYCLE :: u64 where [champsim_consts]: "DEADLOCK_CYCLE = 1000000"

section \<open>Instructions\<close>

text \<open>
  One record of a trace: \<open>input_instr\<close>, or \<open>cloudsuite_instr\<close> when it carries an \<open>asid\<close>.
\<close>

record trace_instr =
  tr_ip :: u64
  tr_is_branch :: u8
  tr_branch_taken :: u8
  tr_destination_registers :: "u8 list"
  tr_source_registers :: "u8 list"
  tr_destination_memory :: "u64 list"
  tr_source_memory :: "u64 list"
  tr_asid :: "(u8 \<times> u8) option"

definition input_instr_new :: trace_instr where
  "input_instr_new = \<lparr>tr_ip = 0, tr_is_branch = 0, tr_branch_taken = 0,
     tr_destination_registers = replicate NUM_INSTR_DESTINATIONS 0,
     tr_source_registers = replicate NUM_INSTR_SOURCES 0,
     tr_destination_memory = replicate NUM_INSTR_DESTINATIONS 0,
     tr_source_memory = replicate NUM_INSTR_SOURCES 0, tr_asid = None\<rparr>"

definition cloudsuite_instr_new :: trace_instr where
  "cloudsuite_instr_new = \<lparr>tr_ip = 0, tr_is_branch = 0, tr_branch_taken = 0,
     tr_destination_registers = replicate NUM_INSTR_DESTINATIONS_SPARC 0,
     tr_source_registers = replicate NUM_INSTR_SOURCES 0,
     tr_destination_memory = replicate NUM_INSTR_DESTINATIONS_SPARC 0,
     tr_source_memory = replicate NUM_INSTR_SOURCES 0, tr_asid = Some (255, 255)\<rparr>"

text \<open>An instruction in flight.\<close>

record instr =
  n_instr_id :: u64
  n_ip :: u64
  n_fetch_producer :: u64
  n_producer_id :: u64
  n_translated_cycle :: u64
  n_fetched_cycle :: u64
  n_execute_begin_cycle :: u64
  n_retired_cycle :: u64
  n_event_cycle :: u64
  n_is_branch :: u8
  n_is_memory :: u8
  n_branch_taken :: u8
  n_branch_mispredicted :: u8
  n_translated :: u8
  n_data_translated :: u8
  n_source_added :: "u8 list"
  n_destination_added :: "u8 list"
  n_is_producer :: u8
  n_is_consumer :: u8
  n_reg_RAW_producer :: u8
  n_reg_ready :: u8
  n_mem_ready :: u8
  n_asid :: "u8 \<times> u8"
  n_reg_RAW_checked :: "u8 list"
  n_fetched :: u32
  n_scheduled :: u32
  n_num_reg_ops :: int
  n_num_mem_ops :: int
  n_num_reg_dependent :: int
  n_executed :: int
  n_destination_registers :: "u8 list"
  n_source_registers :: "u8 list"
  n_registers_instrs_depend_on_me :: fastset
  n_registers_index_depend_on_me :: "fastset list"
  n_instruction_pa :: u64
  n_data_pa :: u64
  n_virtual_address :: u64
  n_physical_address :: u64
  n_destination_memory :: "u64 list"
  n_source_memory :: "u64 list"
  n_destination_virtual_address :: "u64 list"
  n_source_virtual_address :: "u64 list"
  n_memory_instrs_depend_on_me :: fastset
  n_lq_index :: "u32 list"
  n_sq_index :: "u32 list"
  n_forwarding_index :: "u32 list"

definition instr_new :: instr where
  "instr_new = \<lparr>n_instr_id = 0, n_ip = 0, n_fetch_producer = 0, n_producer_id = 0,
     n_translated_cycle = 0, n_fetched_cycle = 0, n_execute_begin_cycle = 0, n_retired_cycle = 0,
     n_event_cycle = 0, n_is_branch = 0, n_is_memory = 0, n_branch_taken = 0,
     n_branch_mispredicted = 0, n_translated = 0, n_data_translated = 0,
     n_source_added = replicate NUM_INSTR_SOURCES 0,
     n_destination_added = replicate NUM_INSTR_DESTINATIONS_SPARC 0,
     n_is_producer = 0, n_is_consumer = 0, n_reg_RAW_producer = 0, n_reg_ready = 0, n_mem_ready = 0,
     n_asid = (255, 255), n_reg_RAW_checked = replicate NUM_INSTR_SOURCES 0,
     n_fetched = 0, n_scheduled = 0, n_num_reg_ops = 0, n_num_mem_ops = 0, n_num_reg_dependent = 0,
     n_executed = 0,
     n_destination_registers = replicate NUM_INSTR_DESTINATIONS_SPARC 0,
     n_source_registers = replicate NUM_INSTR_SOURCES 0,
     n_registers_instrs_depend_on_me = fastset_new,
     n_registers_index_depend_on_me = replicate NUM_INSTR_SOURCES fastset_new,
     n_instruction_pa = 0, n_data_pa = 0, n_virtual_address = 0, n_physical_address = 0,
     n_destination_memory = replicate NUM_INSTR_DESTINATIONS_SPARC 0,
     n_source_memory = replicate NUM_INSTR_SOURCES 0,
     n_destination_virtual_address = replicate NUM_INSTR_DESTINATIONS_SPARC 0,
     n_source_virtual_address = replicate NUM_INSTR_SOURCES 0,
     n_memory_instrs_depend_on_me = fastset_new,
     n_lq_index = replicate NUM_INSTR_SOURCES (- 1),
     n_sq_index = replicate NUM_INSTR_DESTINATIONS_SPARC (- 1),
     n_forwarding_index = replicate NUM_INSTR_DESTINATIONS_SPARC 0\<rparr>"

section \<open>Buffers\<close>

record core_buffer =
  rob_SIZE :: u32
  rob_cpu :: u32
  rob_head :: u32
  rob_tail :: u32
  rob_occupancy :: u32
  rob_last_read :: u32
  rob_last_fetch :: u32
  rob_last_scheduled :: u32
  rob_inorder_fetch :: "u32 \<times> u32"
  rob_next_fetch :: "u32 \<times> u32"
  rob_next_schedule :: u32
  rob_event_cycle :: u64
  rob_fetch_event_cycle :: u64
  rob_schedule_event_cycle :: u64
  rob_execute_event_cycle :: u64
  rob_lsq_event_cycle :: u64
  rob_retire_event_cycle :: u64
  rob_entry :: "instr list"

definition core_buffer_new :: "u32 \<Rightarrow> core_buffer" where
  "core_buffer_new n = \<lparr>rob_SIZE = n, rob_cpu = 0, rob_head = 0, rob_tail = 0, rob_occupancy = 0,
     rob_last_read = n - 1, rob_last_fetch = n - 1, rob_last_scheduled = 0,
     rob_inorder_fetch = (0, 0), rob_next_fetch = (0, 0), rob_next_schedule = 0,
     rob_event_cycle = 0, rob_fetch_event_cycle = - 1, rob_schedule_event_cycle = - 1,
     rob_execute_event_cycle = - 1, rob_lsq_event_cycle = - 1, rob_retire_event_cycle = - 1,
     rob_entry = replicate (unat n) instr_new\<rparr>"

record lsq_entry =
  l_instr_id :: u64
  l_producer_id :: u64
  l_virtual_address :: u64
  l_physical_address :: u64
  l_ip :: u64
  l_event_cycle :: u64
  l_rob_index :: u32
  l_data_index :: u32
  l_sq_index :: u32
  l_translated :: u8
  l_fetched :: u8
  l_asid :: "u8 \<times> u8"
  l_forwarding_depend_on_me :: fastset

definition lsq_entry_new :: lsq_entry where
  "lsq_entry_new = \<lparr>l_instr_id = 0, l_producer_id = - 1, l_virtual_address = 0,
     l_physical_address = 0, l_ip = 0, l_event_cycle = 0, l_rob_index = 0, l_data_index = 0,
     l_sq_index = - 1, l_translated = 0, l_fetched = 0, l_asid = (255, 255),
     l_forwarding_depend_on_me = fastset_new\<rparr>"

record load_store_queue =
  ls_SIZE :: u32
  ls_occupancy :: u32
  ls_head :: u32
  ls_tail :: u32
  ls_entry :: "lsq_entry list"

definition load_store_queue_new :: "u32 \<Rightarrow> load_store_queue" where
  "load_store_queue_new n = \<lparr>ls_SIZE = n, ls_occupancy = 0, ls_head = 0, ls_tail = 0,
     ls_entry = replicate (unat n) lsq_entry_new\<rparr>"

text \<open>An array of indices with its head and tail; a free slot holds the size.\<close>

record index_ring =
  w_slot :: "u32 list"
  w_head :: u32
  w_tail :: u32

definition index_ring_new :: "nat \<Rightarrow> index_ring" where
  "index_ring_new n = \<lparr>w_slot = replicate n (of_nat n), w_head = 0, w_tail = 0\<rparr>"

text \<open>\<open>i++; if (i == n) i = 0;\<close>\<close>

definition bump_index :: "nat \<Rightarrow> u32 \<Rightarrow> u32" where
  "bump_index n i = (if i + 1 = of_nat n then 0 else i + 1)"

text \<open>\<open>A[A_tail] = v; A_tail++; if (A_tail == n) A_tail = 0;\<close>\<close>

definition ring_push :: "nat \<Rightarrow> u32 \<Rightarrow> index_ring \<Rightarrow> index_ring option" where
  "ring_push n v w = do {
     slots \<leftarrow> arr_set (w_slot w) (unat (w_tail w)) v;
     Some (w\<lparr>w_slot := slots, w_tail := bump_index n (w_tail w)\<rparr>) }"

text \<open>\<open>A[A_head] = n; A_head++; if (A_head == n) A_head = 0;\<close>\<close>

definition ring_pop :: "nat \<Rightarrow> index_ring \<Rightarrow> index_ring option" where
  "ring_pop n w = do {
     slots \<leftarrow> arr_set (w_slot w) (unat (w_head w)) (of_nat n);
     Some (w\<lparr>w_slot := slots, w_head := bump_index n (w_head w)\<rparr>) }"

definition ring_first :: "index_ring \<Rightarrow> u32 option" where
  "ring_first w = arr_get (w_slot w) (unat (w_head w))"

section \<open>The core\<close>

text \<open>
  The members of \<open>O3_CPU\<close>.  \<open>x_trace\<close> is the content of the trace file and \<open>x_trace_pos\<close> the
  number of records already read from the open pipe.  \<open>x_bimodal_table\<close> is the row of
  \<open>bimodal_table\<close> of this core (\<open>branch/branch_predictor.cc\<close>).
\<close>

record o3_cpu =
  x_cpu :: u32
  x_trace :: "trace_instr list"
  x_trace_pos :: nat
  x_instr_unique_id :: u64
  x_completed_executions :: u64
  x_begin_sim_cycle :: u64
  x_begin_sim_instr :: u64
  x_finish_sim_cycle :: u64
  x_finish_sim_instr :: u64
  x_simulation_instructions :: u64
  x_instrs_to_read_this_cycle :: u64
  x_num_retired :: u64
  x_last_num_ins :: u64
  x_last_ins_in_epoch :: u64
  x_next_measure_ipc_cycle :: u64
  x_inflight_reg_executions :: u32
  x_inflight_mem_executions :: u32
  x_num_searched :: u32
  x_ROB :: core_buffer
  x_LQ :: load_store_queue
  x_SQ :: load_store_queue
  x_STA :: "u64 list"
  x_STA_head :: u64
  x_STA_tail :: u64
  x_RTE0 :: index_ring
  x_RTE1 :: index_ring
  x_RTL0 :: index_ring
  x_RTL1 :: index_ring
  x_RTS0 :: index_ring
  x_RTS1 :: index_ring
  x_fetch_stall :: u8
  x_fetch_resume_cycle :: u64
  x_num_branch :: u64
  x_branch_mispredictions :: u64
  x_total_rob_occupancy_at_branch_mispredict :: u64
  x_bimodal_table :: "int list"

definition BIMODAL_TABLE_SIZE :: nat where [champsim_consts]: "BIMODAL_TABLE_SIZE = 16384"
definition BIMODAL_PRIME :: u64 where [champsim_consts]: "BIMODAL_PRIME = 16381"
definition MAX_COUNTER :: int where [champsim_consts]: "MAX_COUNTER = 3"

text \<open>The constructor, and \<open>initialize_branch_predictor\<close>.\<close>

definition o3_cpu_new :: "trace_instr list \<Rightarrow> o3_cpu" where
  "o3_cpu_new trace = \<lparr>x_cpu = 0, x_trace = trace, x_trace_pos = 0, x_instr_unique_id = 0,
     x_completed_executions = 0, x_begin_sim_cycle = 0, x_begin_sim_instr = 0,
     x_finish_sim_cycle = 0, x_finish_sim_instr = 0, x_simulation_instructions = 0,
     x_instrs_to_read_this_cycle = 0, x_num_retired = 0, x_last_num_ins = 0,
     x_last_ins_in_epoch = 0, x_next_measure_ipc_cycle = 1,
     x_inflight_reg_executions = 0, x_inflight_mem_executions = 0, x_num_searched = 0,
     x_ROB = core_buffer_new (of_nat ROB_SIZE),
     x_LQ = load_store_queue_new (of_nat LQ_SIZE),
     x_SQ = load_store_queue_new (of_nat SQ_SIZE),
     x_STA = replicate STA_SIZE (- 1), x_STA_head = 0, x_STA_tail = 0,
     x_RTE0 = index_ring_new ROB_SIZE, x_RTE1 = index_ring_new ROB_SIZE,
     x_RTL0 = index_ring_new LQ_SIZE, x_RTL1 = index_ring_new LQ_SIZE,
     x_RTS0 = index_ring_new SQ_SIZE, x_RTS1 = index_ring_new SQ_SIZE,
     x_fetch_stall = 0, x_fetch_resume_cycle = 0, x_num_branch = 0, x_branch_mispredictions = 0,
     x_total_rob_occupancy_at_branch_mispredict = 0,
     x_bimodal_table = replicate BIMODAL_TABLE_SIZE 0\<rparr>"

text \<open>
  What the functions of the core read of the rest of the program: the value of
  \<open>current_core_cycle[cpu]\<close>, which stays the same within a cycle, the latencies, and the two
  globals that say how a trace is laid out.
\<close>

record core_env =
  f_now :: u64
  f_SCHEDULING_LATENCY :: u32
  f_EXEC_LATENCY :: u32
  f_MAX_INSTR_DESTINATIONS :: nat
  f_cloudsuite :: bool

section \<open>Access to the buffers\<close>

definition rob_at :: "o3_cpu \<Rightarrow> nat \<Rightarrow> instr option" where
  "rob_at x i = arr_get (rob_entry (x_ROB x)) i"

definition upd_rob :: "nat \<Rightarrow> (instr \<Rightarrow> instr) \<Rightarrow> o3_cpu \<Rightarrow> o3_cpu option" where
  "upd_rob i f x = do {
     e \<leftarrow> rob_at x i;
     Some (x\<lparr>x_ROB := (x_ROB x)\<lparr>rob_entry := (rob_entry (x_ROB x))[i := f e]\<rparr>\<rparr>) }"

definition lq_at :: "o3_cpu \<Rightarrow> nat \<Rightarrow> lsq_entry option" where
  "lq_at x i = arr_get (ls_entry (x_LQ x)) i"

definition upd_lq :: "nat \<Rightarrow> (lsq_entry \<Rightarrow> lsq_entry) \<Rightarrow> o3_cpu \<Rightarrow> o3_cpu option" where
  "upd_lq i f x = do {
     e \<leftarrow> lq_at x i;
     Some (x\<lparr>x_LQ := (x_LQ x)\<lparr>ls_entry := (ls_entry (x_LQ x))[i := f e]\<rparr>\<rparr>) }"

definition sq_at :: "o3_cpu \<Rightarrow> nat \<Rightarrow> lsq_entry option" where
  "sq_at x i = arr_get (ls_entry (x_SQ x)) i"

definition upd_sq :: "nat \<Rightarrow> (lsq_entry \<Rightarrow> lsq_entry) \<Rightarrow> o3_cpu \<Rightarrow> o3_cpu option" where
  "upd_sq i f x = do {
     e \<leftarrow> sq_at x i;
     Some (x\<lparr>x_SQ := (x_SQ x)\<lparr>ls_entry := (ls_entry (x_SQ x))[i := f e]\<rparr>\<rparr>) }"

text \<open>The states of an instruction, in the type of \<open>fetched\<close> and \<open>scheduled\<close> and in that of \<open>executed\<close>.\<close>

abbreviation inflight32 :: u32 where "inflight32 \<equiv> ucast INFLIGHT"
abbreviation completed32 :: u32 where "completed32 \<equiv> ucast COMPLETED"
abbreviation inflight_int :: int where "inflight_int \<equiv> uint INFLIGHT"
abbreviation completed_int :: int where "completed_int \<equiv> uint COMPLETED"

text \<open>
  The loops over the buffer: \<open>rob_span\<close> lists the indices from the head up to \<open>limit\<close>, around
  the end when \<open>limit\<close> is not above the head; \<open>older_entries\<close> lists the indices that the search
  for a producer visits, from the entry before \<open>i\<close> back to the head.
\<close>

definition rob_span :: "core_buffer \<Rightarrow> u32 \<Rightarrow> nat list \<times> nat list" where
  "rob_span b limit =
     (if rob_head b < limit then ([unat (rob_head b)..<unat limit], [])
      else ([unat (rob_head b)..<unat (rob_SIZE b)], [0..<unat limit]))"

definition older_entries :: "core_buffer \<Rightarrow> nat \<Rightarrow> nat list" where
  "older_entries b i =
     (let h = unat (rob_head b); n = unat (rob_SIZE b); prior = (if i = 0 then n - 1 else i - 1)
      in if i = h then []
         else if h \<le> prior then rev [h..<Suc prior]
         else rev [0..<Suc prior] @ rev [h..<n])"

text \<open>\<open>ITERATE_SET\<close>: the members are listed first, then visited in that order.\<close>

definition iterate_set :: "(nat \<Rightarrow> 's \<Rightarrow> 's option) \<Rightarrow> fastset \<Rightarrow> nat \<Rightarrow> 's \<Rightarrow> 's option" where
  "iterate_set f a n s = do {
     members \<leftarrow> fs_expand a n;
     fold_opt (\<lambda>s m. f (unat m) s) s members }"


section \<open>The arrays of ready instructions\<close>

text \<open>
  \<open>ring_holds n w xs\<close>: the slots from the head on hold \<open>xs\<close>, in order, and the others are free.
\<close>

definition ring_holds :: "nat \<Rightarrow> index_ring \<Rightarrow> nat list \<Rightarrow> bool" where
  "ring_holds n w xs \<longleftrightarrow> length (w_slot w) = n \<and> unat (w_head w) < n \<and> length xs \<le> n \<and>
     unat (w_tail w) = (unat (w_head w) + length xs) mod n \<and>
     (\<forall>j < n. w_slot w ! ((unat (w_head w) + j) mod n) = (if j < length xs then of_nat (xs ! j) else of_nat n)) \<and>
     list_all (\<lambda>v. v < n) xs"

lemma ring_holds_new: "0 < n \<Longrightarrow> ring_holds n (index_ring_new n) []"
  by (simp add: ring_holds_def index_ring_new_def)

lemma bump_index_mod:
  assumes "unat i < n" "n < 2 ^ 32"
  shows "unat (bump_index n i) = (unat i + 1) mod n"
proof -
  have n: "unat (of_nat n :: u32) = n" using assms by (simp add: unat_of_nat)
  then have "unat (i + 1) = unat i + 1" using assms by (intro unat_inc [of i "of_nat n"]) (simp add: word_less_nat_alt)
  moreover note n
  ultimately show ?thesis using assms by (auto simp: bump_index_def word_unat_eq_iff mod_if)
qed

lemma mod_cover:
  assumes "a < n" "h < (n::nat)"
  shows "\<exists>k < n. a = (h + k) mod n"
proof (cases "h \<le> a")
  case True
  with assms show ?thesis by (intro exI [of _ "a - h"]) auto
next
  case False
  with assms show ?thesis by (intro exI [of _ "n + a - h"]) (auto simp: mod_if)
qed

lemma ring_push_holds:
  assumes w: "ring_holds n w xs" and free: "length xs < n" and v: "v < n" and n: "n < 2 ^ 32"
  shows "\<exists>w'. ring_push n (of_nat v) w = Some w' \<and> ring_holds n w' (xs @ [v]) \<and>
    arr_get (w_slot w) (unat (w_tail w)) = Some (of_nat n)"
proof -
  let ?h = "unat (w_head w)" and ?m = "length xs"
  let ?w = "w\<lparr>w_slot := (w_slot w)[unat (w_tail w) := of_nat v], w_tail := bump_index n (w_tail w)\<rparr>"
  have tail: "unat (w_tail w) = (?h + ?m) mod n" "unat (w_tail w) < n"
    and len: "length (w_slot w) = n" "?h < n"
    using w free by (auto simp: ring_holds_def)
  have slot: "w_slot w ! ((?h + j) mod n) = (if j < ?m then of_nat (xs ! j) else of_nat n)" if "j < n" for j
    using w that by (simp add: ring_holds_def)
  have at: "w_slot w ! unat (w_tail w) = of_nat n"
    using slot [of ?m] free by (simp add: tail)
  have "unat (bump_index n (w_tail w)) = (?h + Suc ?m) mod n"
    using bump_index_mod [OF tail(2) n] by (simp add: tail(1) mod_simps)
  moreover have "(w_slot w)[unat (w_tail w) := of_nat v] ! ((?h + j) mod n) =
      (if j < Suc ?m then of_nat ((xs @ [v]) ! j) else of_nat n)" if "j < n" for j
  proof (cases "j = ?m")
    case True
    then show ?thesis using tail len by simp
  next
    case False
    then have "(?h + j) mod n \<noteq> unat (w_tail w)"
      using mod_offset_inj [of ?h j n ?m] that free by (auto simp: tail)
    with False show ?thesis using slot [OF that] by (auto simp: nth_append less_Suc_eq)
  qed
  ultimately have "ring_holds n ?w (xs @ [v])"
    using w len free v by (simp add: ring_holds_def)
  moreover have "ring_push n (of_nat v) w = Some ?w" using tail len by (simp add: ring_push_def)
  ultimately show ?thesis using at tail len by (intro exI [of _ ?w]) simp
qed

lemma ring_first_holds:
  assumes "ring_holds n w xs"
  shows "ring_first w = Some (case xs of [] \<Rightarrow> of_nat n | v # _ \<Rightarrow> of_nat v)"
proof -
  have h: "unat (w_head w) < n" "length (w_slot w) = n" "length xs \<le> n" using assms by (simp_all add: ring_holds_def)
  have "w_slot w ! ((unat (w_head w) + 0) mod n) = (if 0 < length xs then of_nat (xs ! 0) else of_nat n)"
    using assms h unfolding ring_holds_def by (elim conjE allE [of _ 0]) simp
  with h show ?thesis by (cases xs) (simp_all add: ring_first_def)
qed

lemma ring_pop_holds:
  assumes w: "ring_holds n w (v # xs)" and n: "n < 2 ^ 32"
  shows "\<exists>w'. ring_pop n w = Some w' \<and> ring_holds n w' xs"
proof -
  let ?h = "unat (w_head w)"
  let ?w = "w\<lparr>w_slot := (w_slot w)[?h := of_nat n], w_head := bump_index n (w_head w)\<rparr>"
  have len: "length (w_slot w) = n" "?h < n" "Suc (length xs) \<le> n"
    using w by (auto simp: ring_holds_def)
  have slot: "w_slot w ! ((?h + j) mod n) = (if j < Suc (length xs) then of_nat ((v # xs) ! j) else of_nat n)" if "j < n" for j
    using w that by (simp add: ring_holds_def)
  have head: "unat (bump_index n (w_head w)) = (?h + 1) mod n" using bump_index_mod [OF len(2) n] .
  have "(w_slot w)[?h := of_nat n] ! (((?h + 1) mod n + j) mod n) =
      (if j < length xs then of_nat (xs ! j) else of_nat n)" if j: "j < n" for j
  proof (cases "Suc j = n")
    case True
    then have "((?h + 1) mod n + j) mod n = (?h + n) mod n" by (simp add: mod_simps flip: True)
    then have "((?h + 1) mod n + j) mod n = ?h" using len by simp
    with True show ?thesis using len by simp
  next
    case False
    with j have sj: "Suc j < n" by simp
    then have "(?h + Suc j) mod n \<noteq> (?h + 0) mod n"
      using mod_offset_inj [of ?h "Suc j" n 0] by auto
    moreover have "((?h + 1) mod n + j) mod n = (?h + Suc j) mod n" by (simp add: mod_simps)
    ultimately show ?thesis using slot [OF sj] len by simp
  qed
  moreover have "unat (w_tail w) = ((?h + 1) mod n + length xs) mod n"
    using w by (simp add: ring_holds_def mod_simps)
  ultimately have "ring_holds n ?w xs" using w len head by (simp add: ring_holds_def)
  moreover have "ring_pop n w = Some ?w" using len by (simp add: ring_pop_def)
  ultimately show ?thesis by blast
qed

end
