(* ===== verification/Core_Frontend.thy ===== *)
theory Core_Frontend
  imports Core_State Memory_System
begin

text \<open>
  The front end of the core, from \<open>src/ooo_cpu.cc\<close>: the branch predictor of
  \<open>branch/branch_predictor.cc\<close>, reading the trace into the reorder buffer, and the requests to the
  ITLB and the L1I.
\<close>

section \<open>The branch predictor\<close>

definition predict_branch :: "o3_cpu \<Rightarrow> u64 \<Rightarrow> u8 option" where
  "predict_branch x ip = do {
     counter \<leftarrow> arr_get (x_bimodal_table x) (unat (ip mod BIMODAL_PRIME));
     Some (if counter \<ge> (MAX_COUNTER + 1) div 2 then 1 else 0) }"

definition last_branch_result :: "u64 \<Rightarrow> u8 \<Rightarrow> o3_cpu \<Rightarrow> o3_cpu option" where
  "last_branch_result ip taken x = do {
     let hash = unat (ip mod BIMODAL_PRIME);
     counter \<leftarrow> arr_get (x_bimodal_table x) hash;
     Some (x\<lparr>x_bimodal_table := (x_bimodal_table x)[hash :=
       (if taken \<noteq> 0 \<and> counter < MAX_COUNTER then counter + 1
        else if taken = 0 \<and> counter > 0 then counter - 1
        else counter)]\<rparr>) }"

section \<open>Reading the trace\<close>

text \<open>\<open>STA[STA_tail] = instr_unique_id; STA_tail++;\<close> with its sanity check.\<close>

definition sta_push :: "o3_cpu \<Rightarrow> o3_cpu option" where
  "sta_push x = do {
     v \<leftarrow> arr_get (x_STA x) (unat (x_STA_tail x));
     assert_that (\<not> (v < - 1 \<and> x_STA_head x \<noteq> x_STA_tail x));
     Some (x\<lparr>x_STA := (x_STA x)[unat (x_STA_tail x) := x_instr_unique_id x],
       x_STA_tail := (if x_STA_tail x + 1 = of_nat STA_SIZE then 0 else x_STA_tail x + 1)\<rparr>) }"

text \<open>
  Copying one operand of the trace record into the instruction.  The destinations come first, and
  every memory destination is announced in \<open>STA\<close>.
\<close>

definition copy_destination :: "trace_instr \<Rightarrow> o3_cpu \<times> instr \<Rightarrow> nat \<Rightarrow> (o3_cpu \<times> instr) option" where
  "copy_destination t = (\<lambda>(x, a) i. do {
     r \<leftarrow> arr_get (tr_destination_registers t) i;
     m \<leftarrow> arr_get (tr_destination_memory t) i;
     let a = a\<lparr>n_destination_registers := (n_destination_registers a)[i := r],
       n_destination_memory := (n_destination_memory a)[i := m],
       n_destination_virtual_address := (n_destination_virtual_address a)[i := m],
       n_num_reg_ops := n_num_reg_ops a + (if r \<noteq> 0 then 1 else 0),
       n_num_mem_ops := n_num_mem_ops a + (if m \<noteq> 0 then 1 else 0)\<rparr>;
     x \<leftarrow> (if m \<noteq> 0 \<and> n_num_mem_ops a > 0 then sta_push x else Some x);
     Some (x, a) })"

definition copy_source :: "trace_instr \<Rightarrow> instr \<Rightarrow> nat \<Rightarrow> instr option" where
  "copy_source t a i = do {
     r \<leftarrow> arr_get (tr_source_registers t) i;
     m \<leftarrow> arr_get (tr_source_memory t) i;
     Some (a\<lparr>n_source_registers := (n_source_registers a)[i := r],
       n_source_memory := (n_source_memory a)[i := m],
       n_source_virtual_address := (n_source_virtual_address a)[i := m],
       n_num_reg_ops := n_num_reg_ops a + (if r \<noteq> 0 then 1 else 0),
       n_num_mem_ops := n_num_mem_ops a + (if m \<noteq> 0 then 1 else 0)\<rparr>) }"

text \<open>The operation counters are local variables of the source that start at 0, as the members do.\<close>

definition decode_instr :: "core_env \<Rightarrow> trace_instr \<Rightarrow> o3_cpu \<Rightarrow> (o3_cpu \<times> instr) option" where
  "decode_instr k t x = do {
     let a0 = instr_new\<lparr>n_instr_id := x_instr_unique_id x, n_ip := tr_ip t,
       n_is_branch := tr_is_branch t, n_branch_taken := tr_branch_taken t,
       n_asid := (case tr_asid t of Some a \<Rightarrow> a | None \<Rightarrow> (ucast (x_cpu x), ucast (x_cpu x)))\<rparr>;
     (x1, a1) \<leftarrow> fold_opt (copy_destination t) (x, a0) [0..<f_MAX_INSTR_DESTINATIONS k];
     a2 \<leftarrow> fold_opt (copy_source t) a1 [0..<NUM_INSTR_SOURCES];
     Some (x1, if n_num_mem_ops a2 > 0 then a2\<lparr>n_is_memory := 1\<rparr> else a2) }"

definition add_to_rob :: "core_env \<Rightarrow> instr \<Rightarrow> o3_cpu \<Rightarrow> (o3_cpu \<times> nat) option" where
  "add_to_rob k a x = do {
     let b = x_ROB x;
     let index = unat (rob_tail b);
     e \<leftarrow> rob_at x index;
     assert_that (n_instr_id e = 0);
     assert_that (n_ip a \<noteq> 0);
     Some (x\<lparr>x_ROB := b\<lparr>rob_entry := (rob_entry b)[index := a\<lparr>n_event_cycle := f_now k\<rparr>],
       rob_occupancy := rob_occupancy b + 1,
       rob_tail := (if rob_tail b + 1 \<ge> rob_SIZE b then 0 else rob_tail b + 1)\<rparr>\<rparr>, index) }"

definition check_rob :: "o3_cpu \<Rightarrow> u64 \<Rightarrow> nat option" where
  "check_rob x instr_id =
     (let b = x_ROB x in
      if rob_head b = rob_tail b \<and> rob_occupancy b = 0 then Some (unat (rob_SIZE b))
      else if rob_head b < rob_tail b
      then do {
        r \<leftarrow> search_arr (\<lambda>e. n_instr_id e = instr_id) (rob_entry b) (unat (rob_head b)) (unat (rob_tail b));
        r }
      else do {
        r \<leftarrow> search_arr (\<lambda>e. n_instr_id e = instr_id) (rob_entry b) (unat (rob_head b)) (unat (rob_SIZE b));
        case r of
          Some i \<Rightarrow> Some i
        | None \<Rightarrow> do {
            r' \<leftarrow> search_arr (\<lambda>e. n_instr_id e = instr_id) (rob_entry b) 0 (unat (rob_tail b));
            r' } })"

text \<open>The branch part of \<open>handle_branch\<close>: predict, compare with the trace, train.\<close>

definition check_branch :: "instr \<Rightarrow> nat \<Rightarrow> o3_cpu \<Rightarrow> o3_cpu option" where
  "check_branch a rob_index x = do {
     let x1 = x\<lparr>x_num_branch := x_num_branch x + 1\<rparr>;
     prediction \<leftarrow> predict_branch x1 (n_ip a);
     x2 \<leftarrow> (if n_branch_taken a \<noteq> prediction
       then upd_rob rob_index (\<lambda>e. e\<lparr>n_branch_mispredicted := 1\<rparr>)
         (x1\<lparr>x_branch_mispredictions := x_branch_mispredictions x1 + 1,
           x_total_rob_occupancy_at_branch_mispredict :=
             x_total_rob_occupancy_at_branch_mispredict x1 + ucast (rob_occupancy (x_ROB x1)),
           x_instrs_to_read_this_cycle := 0, x_fetch_stall := 1\<rparr>)
       else Some (if prediction = 1 then x1\<lparr>x_instrs_to_read_this_cycle := 0\<rparr> else x1));
     last_branch_result (n_ip a) (n_branch_taken a) x2 }"

text \<open>
  One successful read: decode the record and put it into the reorder buffer when there is room.
  The result is the state, the number of instructions read and whether to continue.
\<close>

definition read_instr :: "core_env \<Rightarrow> trace_instr \<Rightarrow> u32 \<Rightarrow> o3_cpu \<Rightarrow> (o3_cpu \<times> u32 \<times> bool) option" where
  "read_instr k t num_reads x = do {
     (x1, a) \<leftarrow> decode_instr k t x;
     (x2, n, go) \<leftarrow>
       (if rob_occupancy (x_ROB x1) < rob_SIZE (x_ROB x1)
        then do {
          (y, rob_index) \<leftarrow> add_to_rob k a x1;
          y \<leftarrow> (if n_is_branch a \<noteq> 0 then check_branch a rob_index y else Some y);
          Some (y, num_reads + 1,
            \<not> (ucast (num_reads + 1) \<ge> x_instrs_to_read_this_cycle y \<or>
               rob_occupancy (x_ROB y) = rob_SIZE (x_ROB y))) }
        else Some (x1, num_reads, True));
     Some (x2\<lparr>x_instr_unique_id := x_instr_unique_id x2 + 1\<rparr>, n, go) }"

text \<open>
  The reading loop.  At the end of the trace the file is opened again; it does not end when the
  trace is empty, nor when the reorder buffer is full on entry.
\<close>

partial_function (option) read_loop :: "core_env \<Rightarrow> u32 \<Rightarrow> o3_cpu \<Rightarrow> o3_cpu option" where
  "read_loop k num_reads x =
     (if x_trace_pos x < length (x_trace x)
      then do {
        (y, n, go) \<leftarrow> read_instr k (x_trace x ! x_trace_pos x) num_reads (x\<lparr>x_trace_pos := x_trace_pos x + 1\<rparr>);
        if go then read_loop k n y else Some y }
      else read_loop k num_reads (x\<lparr>x_trace_pos := 0\<rparr>))"

declare read_loop.simps [code]

definition handle_branch :: "core_env \<Rightarrow> o3_cpu \<Rightarrow> o3_cpu option" where
  "handle_branch k x = read_loop k 0 (x\<lparr>x_instrs_to_read_this_cycle := of_nat FETCH_WIDTH\<rparr>)"

section \<open>Fetching\<close>

text \<open>The requests for the translation and for the line of an instruction.\<close>

definition trace_packet :: "core_env \<Rightarrow> u32 \<Rightarrow> instr \<Rightarrow> nat \<Rightarrow> packet" where
  "trace_packet k cpu e read_index = packet_new\<lparr>p_instruction := 1, p_tlb_access := 1,
     p_fill_level := 1, p_cpu := cpu,
     p_address := (if f_cloudsuite k
       then push_bit 9 (drop_bit LOG2_PAGE_SIZE (n_ip e)) OR (256 + ucast (fst (n_asid e)))
       else drop_bit LOG2_PAGE_SIZE (n_ip e)),
     p_full_addr := n_ip e, p_instr_id := n_instr_id e, p_rob_index := int read_index,
     p_producer := 0, p_ip := n_ip e, p_type := LOAD, p_asid := n_asid e,
     p_event_cycle := f_now k\<rparr>"

definition fetch_packet :: "core_env \<Rightarrow> u32 \<Rightarrow> instr \<Rightarrow> nat \<Rightarrow> packet" where
  "fetch_packet k cpu e fetch_index = packet_new\<lparr>p_instruction := 1, p_fill_level := 1, p_cpu := cpu,
     p_address := drop_bit 6 (n_instruction_pa e), p_instruction_pa := n_instruction_pa e,
     p_full_addr := n_instruction_pa e, p_instr_id := n_instr_id e, p_rob_index := int fetch_index,
     p_producer := 0, p_ip := n_ip e, p_type := LOAD, p_asid := n_asid e,
     p_event_cycle := f_now k\<rparr>"

text \<open>The entry after \<open>i\<close> in the reorder buffer.\<close>

definition next_entry :: "core_buffer \<Rightarrow> u32 \<Rightarrow> u32" where
  "next_entry b i = (if i = rob_SIZE b - 1 then 0 else i + 1)"

fun translate_loop :: "core_env \<Rightarrow> nat \<Rightarrow> nat \<Rightarrow> u32 \<Rightarrow> sys \<times> o3_cpu \<Rightarrow> (sys \<times> o3_cpu) option" where
  "translate_loop k itlb 0 read_index sx = Some sx"
| "translate_loop k itlb (Suc n) read_index (s, x) = do {
     e \<leftarrow> rob_at x (unat read_index);
     if n_ip e = 0 then Some (s, x)
     else if n_translated e \<noteq> 0
     then do { assert_that (read_index = rob_head (x_ROB x)); Some (s, x) }
     else do {
       (s1, _, rq_index) \<leftarrow> cache_add_rq itlb (trace_packet k (x_cpu x) e (unat read_index)) s;
       if rq_index = - 2 then Some (s1, x)
       else translate_loop k itlb n (if read_index + 1 = rob_SIZE (x_ROB x) then 0 else read_index + 1)
         (s1, x\<lparr>x_ROB := (x_ROB x)\<lparr>rob_last_read := read_index\<rparr>\<rparr>) } }"

fun fetch_loop :: "core_env \<Rightarrow> nat \<Rightarrow> nat \<Rightarrow> u32 \<Rightarrow> sys \<times> o3_cpu \<Rightarrow> (sys \<times> o3_cpu) option" where
  "fetch_loop k l1i 0 fetch_index sx = Some sx"
| "fetch_loop k l1i (Suc n) fetch_index (s, x) = do {
     e \<leftarrow> rob_at x (unat fetch_index);
     if n_translated e \<noteq> COMPLETED \<or> n_event_cycle e > f_now k then Some (s, x)
     else if n_fetched e \<noteq> 0
     then do { assert_that (fetch_index = rob_head (x_ROB x)); Some (s, x) }
     else do {
       (s1, _, rq_index) \<leftarrow> cache_add_rq l1i (fetch_packet k (x_cpu x) e (unat fetch_index)) s;
       if rq_index = - 2 then Some (s1, x)
       else do {
         x1 \<leftarrow> upd_rob (unat fetch_index) (\<lambda>e. e\<lparr>n_fetched := inflight32\<rparr>) x;
         fetch_loop k l1i n (if fetch_index + 1 = rob_SIZE (x_ROB x) then 0 else fetch_index + 1)
           (s1, x1\<lparr>x_ROB := (x_ROB x1)\<lparr>rob_last_fetch := fetch_index\<rparr>\<rparr>) } } }"

definition fetch_instruction :: "core_env \<Rightarrow> core_caches \<Rightarrow> sys \<times> o3_cpu \<Rightarrow> (sys \<times> o3_cpu) option" where
  "fetch_instruction k ic = (\<lambda>(s, x). do {
     let x = (if x_fetch_stall x = 1 \<and> f_now k \<ge> x_fetch_resume_cycle x \<and> x_fetch_resume_cycle x \<noteq> 0
       then x\<lparr>x_fetch_stall := 0, x_fetch_resume_cycle := 0\<rparr> else x);
     (s1, x1) \<leftarrow> translate_loop k (i_ITLB ic) FETCH_WIDTH (next_entry (x_ROB x) (rob_last_read (x_ROB x))) (s, x);
     fetch_loop k (i_L1I ic) FETCH_WIDTH (next_entry (x_ROB x1) (rob_last_fetch (x_ROB x1))) (s1, x1) })"

end
