(* ===== verification/Core_Schedule.thy ===== *)
theory Core_Schedule
  imports Core_State
begin

text \<open>
  The register part of the back end, from \<open>src/ooo_cpu.cc\<close>: the search for the producers of an
  instruction, the arrays of ready instructions, execution and completion.
\<close>

section \<open>Dependencies through registers\<close>

text \<open>\<open>current\<close> waits for \<open>prior\<close> because of its source \<open>source_index\<close>.\<close>

definition mark_producer :: "nat \<Rightarrow> nat \<Rightarrow> nat \<Rightarrow> o3_cpu \<Rightarrow> o3_cpu option" where
  "mark_producer prior current source_index x = do {
     p \<leftarrow> rob_at x prior;
     instrs \<leftarrow> fs_insert (n_registers_instrs_depend_on_me p) (of_nat current);
     s \<leftarrow> arr_get (n_registers_index_depend_on_me p) source_index;
     s' \<leftarrow> fs_insert s (of_nat current);
     x1 \<leftarrow> upd_rob prior (\<lambda>p. p\<lparr>n_registers_instrs_depend_on_me := instrs,
       n_registers_index_depend_on_me := (n_registers_index_depend_on_me p)[source_index := s'],
       n_reg_RAW_producer := 1\<rparr>) x;
     upd_rob current (\<lambda>e. e\<lparr>n_reg_ready := 0, n_producer_id := n_instr_id p,
       n_num_reg_dependent := n_num_reg_dependent e + 1,
       n_reg_RAW_checked := (n_reg_RAW_checked e)[source_index := 1]\<rparr>) x1 }"

fun RAW_loop :: "nat \<Rightarrow> nat \<Rightarrow> nat \<Rightarrow> nat list \<Rightarrow> o3_cpu \<Rightarrow> o3_cpu option" where
  "RAW_loop prior current source_index [] x = Some x"
| "RAW_loop prior current source_index (i # is) x = do {
     p \<leftarrow> rob_at x prior;
     e \<leftarrow> rob_at x current;
     d \<leftarrow> arr_get (n_destination_registers p) i;
     r \<leftarrow> arr_get (n_source_registers e) source_index;
     if d \<noteq> 0 \<and> d = r then mark_producer prior current source_index x
     else RAW_loop prior current source_index is x }"

definition reg_RAW_dependency :: "core_env \<Rightarrow> nat \<Rightarrow> nat \<Rightarrow> nat \<Rightarrow> o3_cpu \<Rightarrow> o3_cpu option" where
  "reg_RAW_dependency k prior current source_index x =
     RAW_loop prior current source_index [0..<f_MAX_INSTR_DESTINATIONS k] x"

text \<open>The body of the search: every source of the instruction that has no producer yet.\<close>

definition check_source :: "core_env \<Rightarrow> nat \<Rightarrow> nat \<Rightarrow> o3_cpu \<Rightarrow> nat \<Rightarrow> o3_cpu option" where
  "check_source k prior current x j = do {
     e \<leftarrow> rob_at x current;
     r \<leftarrow> arr_get (n_source_registers e) j;
     checked \<leftarrow> arr_get (n_reg_RAW_checked e) j;
     if r \<noteq> 0 \<and> checked = 0 then reg_RAW_dependency k prior current j x else Some x }"

definition check_prior :: "core_env \<Rightarrow> nat \<Rightarrow> o3_cpu \<Rightarrow> nat \<Rightarrow> o3_cpu option" where
  "check_prior k current x prior = do {
     p \<leftarrow> rob_at x prior;
     if n_executed p \<noteq> completed_int
     then fold_opt (check_source k prior current) x [0..<NUM_INSTR_SOURCES]
     else Some x }"

definition reg_dependency :: "core_env \<Rightarrow> nat \<Rightarrow> o3_cpu \<Rightarrow> o3_cpu option" where
  "reg_dependency k rob_index x =
     fold_opt (check_prior k rob_index) x (older_entries (x_ROB x) rob_index)"

section \<open>Scheduling\<close>

text \<open>\<open>if (event_cycle < now) event_cycle = now + latency; else event_cycle += latency;\<close>\<close>

definition delay :: "u64 \<Rightarrow> u32 \<Rightarrow> instr \<Rightarrow> instr" where
  "delay now latency e = e\<lparr>n_event_cycle :=
     (if n_event_cycle e < now then now else n_event_cycle e) + ucast latency\<rparr>"

text \<open>The sanity check of \<open>RTE0\<close> and \<open>RTE1\<close>: the slot at the tail is free.\<close>

definition rte_push :: "nat \<Rightarrow> index_ring \<Rightarrow> index_ring option" where
  "rte_push i w = do {
     v \<leftarrow> arr_get (w_slot w) (unat (w_tail w));
     assert_that (\<not> v < of_nat ROB_SIZE);
     ring_push ROB_SIZE (of_nat i) w }"

definition do_scheduling :: "core_env \<Rightarrow> nat \<Rightarrow> o3_cpu \<Rightarrow> o3_cpu option" where
  "do_scheduling k rob_index x = do {
     x1 \<leftarrow> upd_rob rob_index (\<lambda>e. e\<lparr>n_reg_ready := 1\<rparr>) x;
     x2 \<leftarrow> reg_dependency k rob_index x1;
     let b = x_ROB x2;
     let x3 = x2\<lparr>x_ROB := b\<lparr>rob_next_schedule :=
       (if of_nat rob_index = rob_SIZE b - 1 then 0 else of_nat rob_index + 1)\<rparr>\<rparr>;
     e \<leftarrow> rob_at x3 rob_index;
     if n_is_memory e \<noteq> 0 then upd_rob rob_index (\<lambda>e. e\<lparr>n_scheduled := inflight32\<rparr>) x3
     else do {
       x4 \<leftarrow> upd_rob rob_index
         (\<lambda>e. delay (f_now k) (f_SCHEDULING_LATENCY k) (e\<lparr>n_scheduled := completed32\<rparr>)) x3;
       if n_reg_ready e \<noteq> 0
       then do { w \<leftarrow> rte_push rob_index (x_RTE1 x4); Some (x4\<lparr>x_RTE1 := w\<rparr>) }
       else Some x4 } }"

text \<open>The in-order loop over the fetched instructions; the first that cannot go on ends it.\<close>

fun schedule_loop :: "core_env \<Rightarrow> nat list \<Rightarrow> o3_cpu \<Rightarrow> o3_cpu option" where
  "schedule_loop k [] x = Some x"
| "schedule_loop k (i # is) x = do {
     e \<leftarrow> rob_at x i;
     if n_fetched e \<noteq> completed32 \<or> n_event_cycle e > f_now k \<or> x_num_searched x \<ge> SCHEDULER_SIZE
     then Some x
     else do {
       x1 \<leftarrow> (if n_scheduled e = 0 then do_scheduling k i x else Some x);
       schedule_loop k is (x1\<lparr>x_num_searched := x_num_searched x1 + 1\<rparr>) } }"

definition rob_empty :: "core_buffer \<Rightarrow> bool" where
  "rob_empty b \<longleftrightarrow> rob_head b = rob_tail b \<and> rob_occupancy b = 0"

definition schedule_instruction :: "core_env \<Rightarrow> o3_cpu \<Rightarrow> o3_cpu option" where
  "schedule_instruction k x =
     (if rob_empty (x_ROB x) then Some x
      else (let (s1, s2) = rob_span (x_ROB x) (snd (rob_next_fetch (x_ROB x)))
            in schedule_loop k (s1 @ s2) (x\<lparr>x_num_searched := 0\<rparr>)))"

section \<open>Execution\<close>

definition do_execution :: "core_env \<Rightarrow> nat \<Rightarrow> o3_cpu \<Rightarrow> o3_cpu option" where
  "do_execution k rob_index x = do {
     x1 \<leftarrow> upd_rob rob_index
       (\<lambda>e. delay (f_now k) (f_EXEC_LATENCY k) (e\<lparr>n_executed := inflight_int\<rparr>)) x;
     Some (x1\<lparr>x_inflight_reg_executions := x_inflight_reg_executions x1 + 1\<rparr>) }"

definition rte :: "bool \<Rightarrow> o3_cpu \<Rightarrow> index_ring" where
  "rte second x = (if second then x_RTE1 x else x_RTE0 x)"

definition put_rte :: "bool \<Rightarrow> index_ring \<Rightarrow> o3_cpu \<Rightarrow> o3_cpu" where
  "put_rte second w x = (if second then x\<lparr>x_RTE1 := w\<rparr> else x\<lparr>x_RTE0 := w\<rparr>)"

text \<open>
  One of the two loops of \<open>execute_instruction\<close>.  The first argument is the number of iterations
  left: the source stops after \<open>ROB_SIZE - 1\<close>.
\<close>

fun execute_loop :: "nat \<Rightarrow> bool \<Rightarrow> core_env \<Rightarrow> nat \<Rightarrow> o3_cpu \<Rightarrow> (nat \<times> o3_cpu) option" where
  "execute_loop 0 second k issued x = Some (issued, x)"
| "execute_loop (Suc n) second k issued x =
     (if \<not> issued < EXEC_WIDTH then Some (issued, x)
      else do {
        v \<leftarrow> ring_first (rte second x);
        if v < of_nat ROB_SIZE
        then do {
          e \<leftarrow> rob_at x (unat v);
          if n_event_cycle e \<le> f_now k
          then do {
            x1 \<leftarrow> do_execution k (unat v) x;
            w \<leftarrow> ring_pop ROB_SIZE (rte second x1);
            execute_loop n second k (issued + 1) (put_rte second w x1) }
          else execute_loop n second k issued x }
        else Some (issued, x) })"

definition execute_instruction :: "core_env \<Rightarrow> o3_cpu \<Rightarrow> o3_cpu option" where
  "execute_instruction k x =
     (if rob_empty (x_ROB x) then Some x
      else do {
        (issued, x1) \<leftarrow> execute_loop (ROB_SIZE - 1) False k 0 x;
        (_, x2) \<leftarrow> execute_loop (ROB_SIZE - 1) True k issued x1;
        Some x2 })"

section \<open>Completion\<close>

text \<open>One source of a dependent instruction is served.\<close>

definition release_source :: "nat \<Rightarrow> nat \<Rightarrow> o3_cpu \<Rightarrow> nat \<Rightarrow> o3_cpu option" where
  "release_source rob_index i x j = do {
     p \<leftarrow> rob_at x rob_index;
     s \<leftarrow> arr_get (n_registers_index_depend_on_me p) j;
     found \<leftarrow> fs_search s (of_nat i);
     if found then do {
       x1 \<leftarrow> upd_rob i (\<lambda>e. e\<lparr>n_num_reg_dependent := n_num_reg_dependent e - 1\<rparr>) x;
       e \<leftarrow> rob_at x1 i;
       if n_num_reg_dependent e = 0
       then (if n_is_memory e \<noteq> 0
         then upd_rob i (\<lambda>e. e\<lparr>n_reg_ready := 1, n_scheduled := inflight32\<rparr>) x1
         else do {
           x2 \<leftarrow> upd_rob i (\<lambda>e. e\<lparr>n_reg_ready := 1, n_scheduled := completed32\<rparr>) x1;
           w \<leftarrow> rte_push i (x_RTE0 x2);
           Some (x2\<lparr>x_RTE0 := w\<rparr>) })
       else Some x1 }
     else Some x }"

definition reg_RAW_release :: "nat \<Rightarrow> o3_cpu \<Rightarrow> o3_cpu option" where
  "reg_RAW_release rob_index x = do {
     p \<leftarrow> rob_at x rob_index;
     iterate_set (\<lambda>i x. fold_opt (release_source rob_index i) x [0..<NUM_INSTR_SOURCES])
       (n_registers_instrs_depend_on_me p) ROB_SIZE x }"

text \<open>The common part of the two branches of \<open>complete_execution\<close>.\<close>

definition finish_execution :: "core_env \<Rightarrow> nat \<Rightarrow> o3_cpu \<Rightarrow> o3_cpu option" where
  "finish_execution k rob_index x = do {
     x1 \<leftarrow> upd_rob rob_index (\<lambda>e. e\<lparr>n_executed := completed_int\<rparr>) x;
     e \<leftarrow> rob_at x1 rob_index;
     let x2 = (if n_is_memory e = 0
       then x1\<lparr>x_inflight_reg_executions := x_inflight_reg_executions x1 - 1\<rparr>
       else x1\<lparr>x_inflight_mem_executions := x_inflight_mem_executions x1 - 1\<rparr>);
     let x3 = x2\<lparr>x_completed_executions := x_completed_executions x2 + 1\<rparr>;
     x4 \<leftarrow> (if n_reg_RAW_producer e \<noteq> 0 then reg_RAW_release rob_index x3 else Some x3);
     Some (if n_branch_mispredicted e \<noteq> 0
       then x4\<lparr>x_fetch_resume_cycle := f_now k + BRANCH_MISPREDICT_PENALTY\<rparr> else x4) }"

definition complete_execution :: "core_env \<Rightarrow> o3_cpu \<Rightarrow> nat \<Rightarrow> o3_cpu option" where
  "complete_execution k x rob_index = do {
     e \<leftarrow> rob_at x rob_index;
     if (n_is_memory e = 0 \<or> n_num_mem_ops e = 0) \<and>
        n_executed e = inflight_int \<and> n_event_cycle e \<le> f_now k
     then finish_execution k rob_index x
     else Some x }"

text \<open>The last part of \<open>update_rob\<close>: every instruction in the buffer may complete.\<close>

definition complete_all :: "core_env \<Rightarrow> o3_cpu \<Rightarrow> o3_cpu option" where
  "complete_all k x =
     (if x_inflight_reg_executions x > 0 \<or> x_inflight_mem_executions x > 0
      then (let (s1, s2) = rob_span (x_ROB x) (rob_tail (x_ROB x))
            in fold_opt (complete_execution k) x (s1 @ s2))
      else Some x)"

end
