(* ===== verification/Core_Lsq.thy ===== *)
theory Core_Lsq
  imports Core_Schedule Core_Frontend
begin

text \<open>
  The memory part of the back end, from \<open>src/ooo_cpu.cc\<close>: the load queue, the store queue, the
  forwarding of stores to loads, and the requests to the DTLB and the L1D.
\<close>

section \<open>The queues\<close>

definition release_load_queue :: "nat \<Rightarrow> o3_cpu \<Rightarrow> o3_cpu option" where
  "release_load_queue lq_index x = do {
     x1 \<leftarrow> upd_lq lq_index (\<lambda>_. lsq_entry_new) x;
     Some (x1\<lparr>x_LQ := (x_LQ x1)\<lparr>ls_occupancy := ls_occupancy (x_LQ x1) - 1\<rparr>\<rparr>) }"

text \<open>
  A memory operation of \<open>rob_index\<close> is done: \<open>num_mem_ops--\<close> with its assertion; the last one
  makes the instruction a candidate for completion.
\<close>

definition mem_op_done :: "nat \<Rightarrow> u64 option \<Rightarrow> o3_cpu \<Rightarrow> o3_cpu option" where
  "mem_op_done rob_index cycle x = do {
     x1 \<leftarrow> upd_rob rob_index (\<lambda>e. e\<lparr>n_num_mem_ops := n_num_mem_ops e - 1,
       n_event_cycle := (case cycle of Some c \<Rightarrow> c | None \<Rightarrow> n_event_cycle e)\<rparr>) x;
     e \<leftarrow> rob_at x1 rob_index;
     assert_that (0 \<le> n_num_mem_ops e);
     Some (if n_num_mem_ops e = 0
       then x1\<lparr>x_inflight_mem_executions := x_inflight_mem_executions x1 + 1\<rparr> else x1) }"

text \<open>The address of the store's line with the offset of the load.\<close>

definition forward_address :: "u64 \<Rightarrow> u64 \<Rightarrow> u64" where
  "forward_address store_pa load_va =
     (store_pa AND NOT (push_bit LOG2_BLOCK_SIZE 1 - 1)) OR (load_va AND (push_bit LOG2_BLOCK_SIZE 1 - 1))"

text \<open>A page frame with the offset of a virtual address.\<close>

definition translated_address :: "u64 \<Rightarrow> u64 \<Rightarrow> u64" where
  "translated_address frame va =
     push_bit LOG2_PAGE_SIZE frame OR (va AND (push_bit LOG2_PAGE_SIZE 1 - 1))"

definition push_RTL0 :: "nat \<Rightarrow> o3_cpu \<Rightarrow> o3_cpu option" where
  "push_RTL0 i x = do { w \<leftarrow> ring_push LQ_SIZE (of_nat i) (x_RTL0 x); Some (x\<lparr>x_RTL0 := w\<rparr>) }"

definition push_RTL1 :: "nat \<Rightarrow> o3_cpu \<Rightarrow> o3_cpu option" where
  "push_RTL1 i x = do { w \<leftarrow> ring_push LQ_SIZE (of_nat i) (x_RTL1 x); Some (x\<lparr>x_RTL1 := w\<rparr>) }"

definition push_RTS0 :: "nat \<Rightarrow> o3_cpu \<Rightarrow> o3_cpu option" where
  "push_RTS0 i x = do { w \<leftarrow> ring_push SQ_SIZE (of_nat i) (x_RTS0 x); Some (x\<lparr>x_RTS0 := w\<rparr>) }"

definition push_RTS1 :: "nat \<Rightarrow> o3_cpu \<Rightarrow> o3_cpu option" where
  "push_RTS1 i x = do { w \<leftarrow> ring_push SQ_SIZE (of_nat i) (x_RTS1 x); Some (x\<lparr>x_RTS1 := w\<rparr>) }"

section \<open>Dependencies through memory\<close>

fun mem_RAW_loop :: "nat \<Rightarrow> nat \<Rightarrow> nat \<Rightarrow> nat \<Rightarrow> nat list \<Rightarrow> o3_cpu \<Rightarrow> o3_cpu option" where
  "mem_RAW_loop prior current data_index lq_index [] x = Some x"
| "mem_RAW_loop prior current data_index lq_index (i # is) x = do {
     p \<leftarrow> rob_at x prior;
     e \<leftarrow> rob_at x current;
     d \<leftarrow> arr_get (n_destination_memory p) i;
     a \<leftarrow> arr_get (n_source_memory e) data_index;
     if d \<noteq> 0 \<and> d = a
     then do {
       deps \<leftarrow> fs_insert (n_memory_instrs_depend_on_me p) (of_nat current);
       x1 \<leftarrow> upd_rob prior (\<lambda>p. p\<lparr>n_memory_instrs_depend_on_me := deps, n_is_producer := 1\<rparr>) x;
       upd_lq lq_index (\<lambda>l. l\<lparr>l_producer_id := n_instr_id p, l_translated := INFLIGHT\<rparr>) x1 }
     else mem_RAW_loop prior current data_index lq_index is x }"

definition mem_RAW_dependency :: "core_env \<Rightarrow> nat \<Rightarrow> nat \<Rightarrow> nat \<Rightarrow> nat \<Rightarrow> o3_cpu \<Rightarrow> o3_cpu option" where
  "mem_RAW_dependency k prior current data_index lq_index x =
     mem_RAW_loop prior current data_index lq_index [0..<f_MAX_INSTR_DESTINATIONS k] x"

text \<open>The loop over the older instructions stops when a producer has been found.\<close>

fun find_producer :: "core_env \<Rightarrow> nat \<Rightarrow> nat \<Rightarrow> nat \<Rightarrow> nat list \<Rightarrow> o3_cpu \<Rightarrow> o3_cpu option" where
  "find_producer k current data_index lq_index [] x = Some x"
| "find_producer k current data_index lq_index (i # is) x = do {
     l \<leftarrow> lq_at x lq_index;
     if l_producer_id l \<noteq> - 1 then Some x
     else do {
       x1 \<leftarrow> mem_RAW_dependency k i current data_index lq_index x;
       find_producer k current data_index lq_index is x1 } }"

text \<open>
  The search of the store queue: a store of the producer stops it and is returned; a younger store
  to the address of a load without a producer resets the load, and the search goes on.
\<close>

fun find_forwarding :: "nat \<Rightarrow> nat \<Rightarrow> nat list \<Rightarrow> o3_cpu \<Rightarrow> (o3_cpu \<times> nat option) option" where
  "find_forwarding rob_index lq_index [] x = Some (x, None)"
| "find_forwarding rob_index lq_index (i # is) x = do {
     st \<leftarrow> sq_at x i;
     l \<leftarrow> lq_at x lq_index;
     if l_virtual_address st = 0 then find_forwarding rob_index lq_index is x
     else if l_virtual_address st = l_virtual_address l
     then (if rob_index \<noteq> unat (rob_head (x_ROB x)) \<and> l_producer_id l = l_instr_id st
       then Some (x, Some i)
       else if l_producer_id l = - 1 \<and> l_instr_id l \<le> l_instr_id st
       then do {
         x1 \<leftarrow> upd_lq lq_index (\<lambda>l. l\<lparr>l_physical_address := 0, l_translated := 0, l_fetched := 0\<rparr>) x;
         find_forwarding rob_index lq_index is x1 }
       else find_forwarding rob_index lq_index is x)
     else find_forwarding rob_index lq_index is x }"

text \<open>The new entry of the load queue.\<close>

definition lq_fill :: "core_env \<Rightarrow> nat \<Rightarrow> nat \<Rightarrow> nat \<Rightarrow> o3_cpu \<Rightarrow> o3_cpu option" where
  "lq_fill k rob_index data_index lq_index x = do {
     e \<leftarrow> rob_at x rob_index;
     a \<leftarrow> arr_get (n_source_memory e) data_index;
     x1 \<leftarrow> upd_rob rob_index (\<lambda>e. e\<lparr>n_lq_index := (n_lq_index e)[data_index := of_nat lq_index]\<rparr>) x;
     x2 \<leftarrow> upd_lq lq_index (\<lambda>l. l\<lparr>l_instr_id := n_instr_id e, l_virtual_address := a, l_ip := n_ip e,
       l_data_index := of_nat data_index, l_rob_index := of_nat rob_index, l_asid := n_asid e,
       l_event_cycle := f_now k + ucast (f_SCHEDULING_LATENCY k)\<rparr>) x1;
     Some (x2\<lparr>x_LQ := (x_LQ x2)\<lparr>ls_occupancy := ls_occupancy (x_LQ x2) + 1\<rparr>\<rparr>) }"

text \<open>The load takes the data of an executed store.\<close>

definition forward_store :: "core_env \<Rightarrow> nat \<Rightarrow> nat \<Rightarrow> o3_cpu \<Rightarrow> o3_cpu option" where
  "forward_store k sq_index lq_index x = do {
     st \<leftarrow> sq_at x sq_index;
     if l_fetched st = COMPLETED \<and> l_event_cycle st \<le> f_now k
     then do {
       x1 \<leftarrow> upd_lq lq_index (\<lambda>l. l\<lparr>
         l_physical_address := forward_address (l_physical_address st) (l_virtual_address l),
         l_translated := COMPLETED, l_fetched := COMPLETED\<rparr>) x;
       l \<leftarrow> lq_at x1 lq_index;
       x2 \<leftarrow> mem_op_done (unat (l_rob_index l)) (Some (f_now k)) x1;
       release_load_queue lq_index x2 }
     else Some x }"

definition add_load_queue :: "core_env \<Rightarrow> nat \<Rightarrow> nat \<Rightarrow> o3_cpu \<Rightarrow> o3_cpu option" where
  "add_load_queue k rob_index data_index x = do {
     slot \<leftarrow> search_arr (\<lambda>l. l_virtual_address l = 0) (ls_entry (x_LQ x)) 0 (unat (ls_SIZE (x_LQ x)));
     lq_index \<leftarrow> slot;
     x1 \<leftarrow> lq_fill k rob_index data_index lq_index x;
     x2 \<leftarrow> find_producer k rob_index data_index lq_index (older_entries (x_ROB x1) rob_index) x1;
     (x3, forwarding_index) \<leftarrow> find_forwarding rob_index lq_index [0..<unat (ls_SIZE (x_SQ x2))] x2;
     x4 \<leftarrow> (case forwarding_index of
         Some i \<Rightarrow> forward_store k i lq_index x3
       | None \<Rightarrow> Some x3);
     x5 \<leftarrow> upd_rob rob_index (\<lambda>e. e\<lparr>n_source_added := (n_source_added e)[data_index := 1]\<rparr>) x4;
     l \<leftarrow> lq_at x5 lq_index;
     if l_virtual_address l \<noteq> 0 \<and> l_producer_id l = - 1 then push_RTL0 lq_index x5 else Some x5 }"

definition add_store_queue :: "core_env \<Rightarrow> nat \<Rightarrow> nat \<Rightarrow> o3_cpu \<Rightarrow> o3_cpu option" where
  "add_store_queue k rob_index data_index x = do {
     let sq_index = unat (ls_tail (x_SQ x));
     st \<leftarrow> sq_at x sq_index;
     assert_that (l_virtual_address st = 0);
     e \<leftarrow> rob_at x rob_index;
     a \<leftarrow> arr_get (n_destination_memory e) data_index;
     x1 \<leftarrow> upd_rob rob_index (\<lambda>e. e\<lparr>n_sq_index := (n_sq_index e)[data_index := of_nat sq_index],
       n_destination_added := (n_destination_added e)[data_index := 1]\<rparr>) x;
     x2 \<leftarrow> upd_sq sq_index (\<lambda>l. l\<lparr>l_instr_id := n_instr_id e, l_virtual_address := a, l_ip := n_ip e,
       l_data_index := of_nat data_index, l_rob_index := of_nat rob_index, l_asid := n_asid e,
       l_event_cycle := f_now k + ucast (f_SCHEDULING_LATENCY k)\<rparr>) x1;
     let q = x_SQ x2;
     sta \<leftarrow> arr_set (x_STA x2) (unat (x_STA_head x2)) (- 1);
     push_RTS0 sq_index (x2\<lparr>
       x_SQ := q\<lparr>ls_occupancy := ls_occupancy q + 1,
         ls_tail := (if ls_tail q + 1 = ls_SIZE q then 0 else ls_tail q + 1)\<rparr>,
       x_STA := sta,
       x_STA_head := (if x_STA_head x2 + 1 = of_nat STA_SIZE then 0 else x_STA_head x2 + 1)\<rparr>) }"

section \<open>Scheduling memory instructions\<close>

text \<open>
  One operand: the result counts the operations of the instruction and those that are in a queue.
\<close>

definition add_source :: "core_env \<Rightarrow> nat \<Rightarrow> o3_cpu \<times> u32 \<times> u32 \<Rightarrow> nat \<Rightarrow> (o3_cpu \<times> u32 \<times> u32) option" where
  "add_source k rob_index = (\<lambda>(x, ops, added) i. do {
     e \<leftarrow> rob_at x rob_index;
     a \<leftarrow> arr_get (n_source_memory e) i;
     here \<leftarrow> arr_get (n_source_added e) i;
     if a = 0 then Some (x, ops, added)
     else if here \<noteq> 0 then Some (x, ops + 1, added + 1)
     else if ls_occupancy (x_LQ x) < ls_SIZE (x_LQ x)
     then do { x1 \<leftarrow> add_load_queue k rob_index i x; Some (x1, ops + 1, added + 1) }
     else Some (x, ops + 1, added) })"

definition add_destination :: "core_env \<Rightarrow> nat \<Rightarrow> o3_cpu \<times> u32 \<times> u32 \<Rightarrow> nat \<Rightarrow> (o3_cpu \<times> u32 \<times> u32) option" where
  "add_destination k rob_index = (\<lambda>(x, ops, added) i. do {
     e \<leftarrow> rob_at x rob_index;
     a \<leftarrow> arr_get (n_destination_memory e) i;
     here \<leftarrow> arr_get (n_destination_added e) i;
     if a = 0 then Some (x, ops, added)
     else if here \<noteq> 0 then Some (x, ops + 1, added + 1)
     else if ls_occupancy (x_SQ x) < ls_SIZE (x_SQ x)
     then do {
       h \<leftarrow> arr_get (x_STA x) (unat (x_STA_head x));
       if h = n_instr_id e
       then do { x1 \<leftarrow> add_store_queue k rob_index i x; Some (x1, ops + 1, added + 1) }
       else Some (x, ops + 1, added) }
     else Some (x, ops + 1, added) })"

definition check_and_add_lsq :: "core_env \<Rightarrow> nat \<Rightarrow> o3_cpu \<Rightarrow> (o3_cpu \<times> u32) option" where
  "check_and_add_lsq k rob_index x = do {
     (x1, ops, added) \<leftarrow> fold_opt (add_source k rob_index) (x, 0, 0) [0..<NUM_INSTR_SOURCES];
     (x2, ops, added) \<leftarrow> fold_opt (add_destination k rob_index) (x1, ops, added) [0..<f_MAX_INSTR_DESTINATIONS k];
     if added = ops then Some (x2, 0)
     else do { assert_that (\<not> ops - added > ops); Some (x2, ops - added) } }"

definition do_memory_scheduling :: "core_env \<Rightarrow> nat \<Rightarrow> o3_cpu \<Rightarrow> o3_cpu option" where
  "do_memory_scheduling k rob_index x = do {
     (x1, not_available) \<leftarrow> check_and_add_lsq k rob_index x;
     x2 \<leftarrow> (if not_available = 0
       then upd_rob rob_index (\<lambda>e. e\<lparr>n_scheduled := completed32,
         n_executed := (if n_executed e = 0 then inflight_int else n_executed e)\<rparr>) x1
       else Some x1);
     Some (x2\<lparr>x_num_searched := x_num_searched x2 + 1\<rparr>) }"

fun schedule_memory_loop :: "core_env \<Rightarrow> nat list \<Rightarrow> o3_cpu \<Rightarrow> o3_cpu option" where
  "schedule_memory_loop k [] x = Some x"
| "schedule_memory_loop k (i # is) x = do {
     e \<leftarrow> rob_at x i;
     if n_is_memory e = 0 then schedule_memory_loop k is x
     else if n_fetched e \<noteq> completed32 \<or> n_event_cycle e > f_now k \<or> x_num_searched x \<ge> SCHEDULER_SIZE
     then Some x
     else do {
       x1 \<leftarrow> (if n_is_memory e \<noteq> 0 \<and> n_reg_ready e \<noteq> 0 \<and> n_scheduled e = inflight32
         then do_memory_scheduling k i x else Some x);
       schedule_memory_loop k is x1 } }"

text \<open>A \<open>break\<close> of the first loop goes on with the second.\<close>

definition schedule_memory_instruction :: "core_env \<Rightarrow> o3_cpu \<Rightarrow> o3_cpu option" where
  "schedule_memory_instruction k x =
     (if rob_empty (x_ROB x) then Some x
      else (let (s1, s2) = rob_span (x_ROB x) (rob_next_schedule (x_ROB x))
            in do {
              x1 \<leftarrow> schedule_memory_loop k s1 (x\<lparr>x_num_searched := 0\<rparr>);
              schedule_memory_loop k s2 x1 }))"

end
