(* ===== verification/Core_Execute.thy ===== *)
theory Core_Execute
  imports Core_Lsq Hierarchy
begin

text \<open>
  The rest of the back end, from \<open>src/ooo_cpu.cc\<close>: issuing loads and stores to the caches, their
  answers, and retirement.  These functions work on the memory system and the core together.

  The TPC prefetcher is off, as in the default configuration, so \<open>execute_load\<close> does not train it;
  the address files that \<open>operate_lsq\<close> writes are output and are left out.
\<close>

type_synonym core_sys = "sys \<times> o3_cpu"

text \<open>A function of the core alone, in the pair.\<close>

definition on_core :: "(o3_cpu \<Rightarrow> o3_cpu option) \<Rightarrow> core_sys \<Rightarrow> core_sys option" where
  "on_core f = (\<lambda>(s, x). do { x' \<leftarrow> f x; Some (s, x') })"

section \<open>Stores\<close>

text \<open>A load that waits for the store takes its data and leaves the queue.\<close>

definition serve_dependent :: "core_env \<Rightarrow> nat \<Rightarrow> nat \<Rightarrow> nat \<Rightarrow> o3_cpu \<Rightarrow> nat \<Rightarrow> o3_cpu option" where
  "serve_dependent k rob_index sq_index dep x j = do {
     e \<leftarrow> rob_at x dep;
     a \<leftarrow> arr_get (n_source_memory e) j;
     here \<leftarrow> arr_get (n_source_added e) j;
     st \<leftarrow> sq_at x sq_index;
     if a \<noteq> 0 \<and> here \<noteq> 0 \<and> a = l_virtual_address st
     then do {
       i \<leftarrow> arr_get (n_lq_index e) j;
       let lq_index = unat i;
       assert_that (\<not> i \<ge> ls_SIZE (x_LQ x));
       l \<leftarrow> lq_at x lq_index;
       assert_that (l_producer_id l = l_instr_id st);
       x1 \<leftarrow> upd_lq lq_index (\<lambda>l. l\<lparr>
         l_physical_address := forward_address (l_physical_address st) (l_virtual_address l),
         l_translated := COMPLETED, l_fetched := COMPLETED, l_event_cycle := f_now k\<rparr>) x;
       x2 \<leftarrow> mem_op_done (unat (l_rob_index l)) (Some (f_now k)) x1;
       x3 \<leftarrow> release_load_queue lq_index x2;
       if j = NUM_INSTR_SOURCES - 1
       then do {
         p \<leftarrow> rob_at x3 rob_index;
         deps \<leftarrow> fs_insert (n_memory_instrs_depend_on_me p) (of_nat dep);
         upd_rob rob_index (\<lambda>p. p\<lparr>n_memory_instrs_depend_on_me := deps\<rparr>) x3 }
       else Some x3 }
     else Some x }"

definition execute_store :: "core_env \<Rightarrow> nat \<Rightarrow> nat \<Rightarrow> o3_cpu \<Rightarrow> o3_cpu option" where
  "execute_store k rob_index sq_index x = do {
     x1 \<leftarrow> upd_sq sq_index (\<lambda>l. l\<lparr>l_fetched := COMPLETED, l_event_cycle := f_now k\<rparr>) x;
     x2 \<leftarrow> mem_op_done rob_index (Some (f_now k)) x1;
     p \<leftarrow> rob_at x2 rob_index;
     if n_is_producer p \<noteq> 0
     then iterate_set
       (\<lambda>dep x. fold_opt (serve_dependent k rob_index sq_index dep) x [0..<NUM_INSTR_SOURCES])
       (n_memory_instrs_depend_on_me p) ROB_SIZE x2
     else Some x2 }"

section \<open>Requests\<close>

definition tlb_address :: "core_env \<Rightarrow> lsq_entry \<Rightarrow> u64" where
  "tlb_address k l =
     (if f_cloudsuite k
      then push_bit 9 (drop_bit LOG2_PAGE_SIZE (l_virtual_address l)) OR ucast (snd (l_asid l))
      else drop_bit LOG2_PAGE_SIZE (l_virtual_address l))"

text \<open>What the packets of the two queues have in common.\<close>

definition lsq_packet :: "u32 \<Rightarrow> lsq_entry \<Rightarrow> packet" where
  "lsq_packet cpu l = packet_new\<lparr>p_fill_level := 1, p_cpu := cpu, p_data_index := l_data_index l,
     p_instr_id := l_instr_id l, p_rob_index := uint (l_rob_index l), p_ip := l_ip l,
     p_asid := l_asid l, p_event_cycle := l_event_cycle l\<rparr>"

definition store_tlb_packet :: "core_env \<Rightarrow> u32 \<Rightarrow> nat \<Rightarrow> lsq_entry \<Rightarrow> packet" where
  "store_tlb_packet k cpu sq_index l = (lsq_packet cpu l)\<lparr>p_tlb_access := 1,
     p_sq_index := of_nat sq_index, p_address := tlb_address k l,
     p_full_addr := l_virtual_address l, p_type := RFO\<rparr>"

definition load_tlb_packet :: "core_env \<Rightarrow> u32 \<Rightarrow> nat \<Rightarrow> lsq_entry \<Rightarrow> packet" where
  "load_tlb_packet k cpu lq_index l = (lsq_packet cpu l)\<lparr>p_lq_index := of_nat lq_index,
     p_address := tlb_address k l, p_full_addr := l_virtual_address l, p_type := LOAD\<rparr>"

definition load_packet :: "u32 \<Rightarrow> nat \<Rightarrow> lsq_entry \<Rightarrow> packet" where
  "load_packet cpu lq_index l = (lsq_packet cpu l)\<lparr>p_lq_index := of_nat lq_index,
     p_address := drop_bit LOG2_BLOCK_SIZE (l_physical_address l),
     p_full_addr := l_physical_address l, p_type := LOAD\<rparr>"

definition execute_load :: "nat \<Rightarrow> nat \<Rightarrow> core_sys \<Rightarrow> (core_sys \<times> int) option" where
  "execute_load l1d lq_index = (\<lambda>(s, x). do {
     l \<leftarrow> lq_at x lq_index;
     (s1, _, rq_index) \<leftarrow> cache_add_rq l1d (load_packet (x_cpu x) lq_index l) s;
     if rq_index = - 2 then Some ((s1, x), rq_index)
     else do {
       x1 \<leftarrow> upd_lq lq_index (\<lambda>l. l\<lparr>l_fetched := INFLIGHT\<rparr>) x;
       Some ((s1, x1), rq_index) } })"

text \<open>
  The four loops of \<open>operate_lsq\<close>.  The first argument counts the iterations that are left; the
  result carries the number of operations issued, which the next loop goes on with.
\<close>

fun issue_store_tlb :: "nat \<Rightarrow> core_env \<Rightarrow> nat \<Rightarrow> nat \<Rightarrow> core_sys \<Rightarrow> (nat \<times> core_sys) option" where
  "issue_store_tlb 0 k dtlb issued sx = Some (issued, sx)"
| "issue_store_tlb (Suc n) k dtlb issued (s, x) =
     (if \<not> issued < SQ_WIDTH then Some (issued, (s, x))
      else do {
        v \<leftarrow> ring_first (x_RTS0 x);
        if v < of_nat SQ_SIZE
        then do {
          l \<leftarrow> sq_at x (unat v);
          if l_event_cycle l \<le> f_now k
          then do {
            (s1, _, rq_index) \<leftarrow> cache_add_rq dtlb (store_tlb_packet k (x_cpu x) (unat v) l) s;
            if rq_index = - 2 then Some (issued, (s1, x))
            else do {
              x1 \<leftarrow> upd_sq (unat v) (\<lambda>l. l\<lparr>l_translated := INFLIGHT\<rparr>) x;
              w \<leftarrow> ring_pop SQ_SIZE (x_RTS0 x1);
              issue_store_tlb n k dtlb (issued + 1) (s1, x1\<lparr>x_RTS0 := w\<rparr>) } }
          else issue_store_tlb n k dtlb issued (s, x) }
        else Some (issued, (s, x)) })"

fun issue_stores :: "nat \<Rightarrow> core_env \<Rightarrow> nat \<Rightarrow> o3_cpu \<Rightarrow> (nat \<times> o3_cpu) option" where
  "issue_stores 0 k issued x = Some (issued, x)"
| "issue_stores (Suc n) k issued x =
     (if \<not> issued < SQ_WIDTH then Some (issued, x)
      else do {
        v \<leftarrow> ring_first (x_RTS1 x);
        if v < of_nat SQ_SIZE
        then do {
          l \<leftarrow> sq_at x (unat v);
          if l_event_cycle l \<le> f_now k
          then do {
            x1 \<leftarrow> execute_store k (unat (l_rob_index l)) (unat v) x;
            w \<leftarrow> ring_pop SQ_SIZE (x_RTS1 x1);
            issue_stores n k (issued + 1) (x1\<lparr>x_RTS1 := w\<rparr>) }
          else issue_stores n k issued x }
        else Some (issued, x) })"

fun issue_load_tlb :: "nat \<Rightarrow> core_env \<Rightarrow> nat \<Rightarrow> nat \<Rightarrow> core_sys \<Rightarrow> (nat \<times> core_sys) option" where
  "issue_load_tlb 0 k dtlb issued sx = Some (issued, sx)"
| "issue_load_tlb (Suc n) k dtlb issued (s, x) =
     (if \<not> issued < LQ_WIDTH then Some (issued, (s, x))
      else do {
        v \<leftarrow> ring_first (x_RTL0 x);
        if v < of_nat LQ_SIZE
        then do {
          l \<leftarrow> lq_at x (unat v);
          if l_event_cycle l \<le> f_now k
          then do {
            (s1, _, rq_index) \<leftarrow> cache_add_rq dtlb (load_tlb_packet k (x_cpu x) (unat v) l) s;
            if rq_index = - 2 then Some (issued, (s1, x))
            else do {
              x1 \<leftarrow> upd_lq (unat v) (\<lambda>l. l\<lparr>l_translated := INFLIGHT\<rparr>) x;
              w \<leftarrow> ring_pop LQ_SIZE (x_RTL0 x1);
              issue_load_tlb n k dtlb (issued + 1) (s1, x1\<lparr>x_RTL0 := w\<rparr>) } }
          else issue_load_tlb n k dtlb issued (s, x) }
        else Some (issued, (s, x)) })"

text \<open>A load that the L1D refuses stays at the head, and the loop tries it again.\<close>

fun issue_loads :: "nat \<Rightarrow> core_env \<Rightarrow> nat \<Rightarrow> nat \<Rightarrow> core_sys \<Rightarrow> (nat \<times> core_sys) option" where
  "issue_loads 0 k l1d issued sx = Some (issued, sx)"
| "issue_loads (Suc n) k l1d issued (s, x) =
     (if \<not> issued < LQ_WIDTH then Some (issued, (s, x))
      else do {
        v \<leftarrow> ring_first (x_RTL1 x);
        if v < of_nat LQ_SIZE
        then do {
          l \<leftarrow> lq_at x (unat v);
          if l_event_cycle l \<le> f_now k
          then do {
            ((s1, x1), rq_index) \<leftarrow> execute_load l1d (unat v) (s, x);
            if rq_index = - 2 then issue_loads n k l1d issued (s1, x1)
            else do {
              w \<leftarrow> ring_pop LQ_SIZE (x_RTL1 x1);
              issue_loads n k l1d (issued + 1) (s1, x1\<lparr>x_RTL1 := w\<rparr>) } }
          else issue_loads n k l1d issued (s, x) }
        else Some (issued, (s, x)) })"

definition operate_lsq :: "core_env \<Rightarrow> core_caches \<Rightarrow> core_sys \<Rightarrow> core_sys option" where
  "operate_lsq k ic sx = do {
     (issued, (s1, x1)) \<leftarrow> issue_store_tlb (SQ_SIZE - 1) k (i_DTLB ic) 0 sx;
     (_, x2) \<leftarrow> issue_stores (SQ_SIZE - 1) k issued x1;
     (issued, sx3) \<leftarrow> issue_load_tlb (LQ_SIZE - 1) k (i_DTLB ic) 0 (s1, x2);
     (_, sx4) \<leftarrow> issue_loads (LQ_SIZE - 1) k (i_L1D ic) issued sx3;
     Some sx4 }"

section \<open>Answers\<close>

text \<open>The translation of a store, and that of a load.\<close>

definition store_translated :: "packet \<Rightarrow> u64 option \<Rightarrow> nat \<Rightarrow> o3_cpu \<Rightarrow> o3_cpu option" where
  "store_translated provider cycle i x = do {
     frame \<leftarrow> p_data_pa provider;
     x1 \<leftarrow> upd_sq i (\<lambda>l. l\<lparr>l_translated := COMPLETED,
       l_physical_address := translated_address frame (l_virtual_address l),
       l_event_cycle := (case cycle of Some c \<Rightarrow> c | None \<Rightarrow> l_event_cycle l)\<rparr>) x;
     push_RTS1 i x1 }"

definition load_translated :: "packet \<Rightarrow> u64 option \<Rightarrow> nat \<Rightarrow> o3_cpu \<Rightarrow> o3_cpu option" where
  "load_translated provider cycle i x = do {
     frame \<leftarrow> p_data_pa provider;
     x1 \<leftarrow> upd_lq i (\<lambda>l. l\<lparr>l_translated := COMPLETED,
       l_physical_address := translated_address frame (l_virtual_address l),
       l_event_cycle := (case cycle of Some c \<Rightarrow> c | None \<Rightarrow> l_event_cycle l)\<rparr>) x;
     push_RTL1 i x1 }"

definition handle_merged_translation :: "core_env \<Rightarrow> packet \<Rightarrow> o3_cpu \<Rightarrow> o3_cpu option" where
  "handle_merged_translation k provider x = do {
     x1 \<leftarrow> (if p_store_merged provider \<noteq> 0
       then iterate_set (store_translated provider (Some (f_now k))) (p_sq_deps provider) (unat (ls_SIZE (x_SQ x))) x
       else Some x);
     if p_load_merged provider \<noteq> 0
     then iterate_set (load_translated provider (Some (f_now k))) (p_lq_deps provider) (unat (ls_SIZE (x_LQ x1))) x1
     else Some x1 }"

text \<open>The data of a load have come; \<open>own\<close> is the cycle that the load queue entry gets.\<close>

definition load_done :: "u64 option \<Rightarrow> u64 option \<Rightarrow> nat \<Rightarrow> nat \<Rightarrow> o3_cpu \<Rightarrow> o3_cpu option" where
  "load_done own cycle lq_index rob_index x = do {
     x1 \<leftarrow> upd_lq lq_index (\<lambda>l. l\<lparr>l_fetched := COMPLETED,
       l_event_cycle := (case own of Some c \<Rightarrow> c | None \<Rightarrow> l_event_cycle l)\<rparr>) x;
     x2 \<leftarrow> mem_op_done rob_index cycle x1;
     release_load_queue lq_index x2 }"

definition merged_load :: "core_env \<Rightarrow> nat \<Rightarrow> o3_cpu \<Rightarrow> o3_cpu option" where
  "merged_load k merged x = do {
     l \<leftarrow> lq_at x merged;
     load_done (Some (f_now k)) (Some (f_now k)) merged (unat (l_rob_index l)) x }"

definition handle_merged_load :: "core_env \<Rightarrow> packet \<Rightarrow> o3_cpu \<Rightarrow> o3_cpu option" where
  "handle_merged_load k provider x =
     iterate_set (merged_load k) (p_lq_deps provider) (unat (ls_SIZE (x_LQ x))) x"

text \<open>An instruction has been translated or fetched.\<close>

definition instr_fetched :: "packet \<Rightarrow> bool \<Rightarrow> u64 \<Rightarrow> nat \<Rightarrow> o3_cpu \<Rightarrow> o3_cpu option" where
  "instr_fetched provider is_it_tlb cycle i x =
     upd_rob i (\<lambda>e. (if is_it_tlb
       then e\<lparr>n_translated := COMPLETED,
         n_instruction_pa := translated_address (p_instruction_pa provider) (n_ip e)\<rparr>
       else e\<lparr>n_fetched := completed32\<rparr>)\<lparr>n_event_cycle := cycle\<rparr>) x"

definition remove_processed :: "nat \<Rightarrow> sys \<Rightarrow> sys option" where
  "remove_processed i = on_cache i (\<lambda>c. do {
     q \<leftarrow> remove_queue (c_PROCESSED c) (unat (q_head (c_PROCESSED c)));
     Some (c\<lparr>c_PROCESSED := q\<rparr>) })"

definition first_processed :: "nat \<Rightarrow> sys \<Rightarrow> packet option" where
  "first_processed i s = do {
     c \<leftarrow> cache_at s i;
     arr_get (q_entry (c_PROCESSED c)) (unat (q_head (c_PROCESSED c))) }"

abbreviation packet_rob_index :: "packet \<Rightarrow> nat" where
  "packet_rob_index p \<equiv> unat (word_of_int (p_rob_index p) :: u32)"

definition complete_instr_fetch :: "core_env \<Rightarrow> nat \<Rightarrow> bool \<Rightarrow> core_sys \<Rightarrow> core_sys option" where
  "complete_instr_fetch k i is_it_tlb = (\<lambda>(s, x). do {
     p \<leftarrow> first_processed i s;
     let rob_index = packet_rob_index p;
     found \<leftarrow> check_rob x (p_instr_id p);
     assert_that (rob_index = found);
     x1 \<leftarrow> instr_fetched p is_it_tlb (f_now k) rob_index x;
     x2 \<leftarrow> (if p_instr_merged p \<noteq> 0
       then do {
         (y, _) \<leftarrow> iterate_set (\<lambda>m (y, num_fetched). do {
             z \<leftarrow> instr_fetched p is_it_tlb (f_now k + of_nat (num_fetched div FETCH_WIDTH)) m y;
             Some (z, num_fetched + 1) })
           (p_rob_deps p) ROB_SIZE (x1, 1);
         Some y }
       else Some x1);
     s1 \<leftarrow> remove_processed i s;
     Some (s1, x2) })"

definition complete_data_fetch :: "core_env \<Rightarrow> nat \<Rightarrow> bool \<Rightarrow> core_sys \<Rightarrow> core_sys option" where
  "complete_data_fetch k i is_it_tlb = (\<lambda>(s, x). do {
     p \<leftarrow> first_processed i s;
     let rob_index = packet_rob_index p;
     (if p_type p \<noteq> RFO
      then do { found \<leftarrow> check_rob x (p_instr_id p); assert_that (rob_index = found) }
      else Some ());
     x1 \<leftarrow> (if is_it_tlb
       then do {
         y \<leftarrow> (if p_type p = RFO
           then store_translated p (Some (f_now k)) (unat (p_sq_index p)) x
           else load_translated p (Some (f_now k)) (unat (p_lq_index p)) x);
         y \<leftarrow> handle_merged_translation k p y;
         upd_rob rob_index (\<lambda>e. e\<lparr>n_event_cycle := p_event_cycle p\<rparr>) y }
       else if p_type p = RFO then handle_merged_load k p x
       else do {
         assert_that (p_store_merged p = 0);
         y \<leftarrow> load_done (Some (f_now k)) (Some (p_event_cycle p)) (unat (p_lq_index p)) rob_index x;
         handle_merged_load k p y });
     s1 \<leftarrow> remove_processed i s;
     Some (s1, x1) })"

text \<open>
  \<open>handle_o3_fetch\<close>, which no function of the repository calls, answers a packet directly.
\<close>

definition handle_o3_fetch :: "core_env \<Rightarrow> packet \<Rightarrow> u32 \<Rightarrow> o3_cpu \<Rightarrow> o3_cpu option" where
  "handle_o3_fetch k p cache_type x = do {
     let rob_index = packet_rob_index p;
     if cache_type = 0
     then do {
       found \<leftarrow> check_rob x (p_instr_id p);
       assert_that (rob_index = found);
       y \<leftarrow> (if p_type p = RFO
         then store_translated p None (unat (p_sq_index p)) x
         else load_translated p None (unat (p_lq_index p)) x);
       y \<leftarrow> handle_merged_translation k p y;
       upd_rob rob_index (\<lambda>e. e\<lparr>n_event_cycle := p_event_cycle p\<rparr>) y }
     else if p_type p = RFO then handle_merged_load k p x
     else do {
       found \<leftarrow> check_rob x (p_instr_id p);
       assert_that (rob_index = found);
       assert_that (p_store_merged p = 0);
       y \<leftarrow> load_done None None (unat (p_lq_index p)) rob_index x;
       y \<leftarrow> handle_merged_load k p y;
       upd_rob rob_index (\<lambda>e. e\<lparr>n_event_cycle := p_event_cycle p\<rparr>) y } }"

text \<open>An answer whose cycle has come is handled.\<close>

definition answer_due :: "core_env \<Rightarrow> nat \<Rightarrow> sys \<Rightarrow> bool option" where
  "answer_due k i s = do {
     c \<leftarrow> cache_at s i;
     if q_occupancy (c_PROCESSED c) = 0 then Some False
     else do { p \<leftarrow> first_processed i s; Some (p_event_cycle p \<le> f_now k) } }"

definition on_answer :: "(core_env \<Rightarrow> nat \<Rightarrow> bool \<Rightarrow> core_sys \<Rightarrow> core_sys option) \<Rightarrow> core_env \<Rightarrow> nat \<Rightarrow> bool \<Rightarrow> core_sys \<Rightarrow> core_sys option" where
  "on_answer handler k i is_it_tlb sx = do {
     due \<leftarrow> answer_due k i (fst sx);
     if due then handler k i is_it_tlb sx else Some sx }"

definition update_rob :: "core_env \<Rightarrow> core_caches \<Rightarrow> core_sys \<Rightarrow> core_sys option" where
  "update_rob k ic sx = do {
     sx1 \<leftarrow> on_answer complete_instr_fetch k (i_ITLB ic) True sx;
     sx2 \<leftarrow> on_answer complete_instr_fetch k (i_L1I ic) False sx1;
     sx3 \<leftarrow> on_answer complete_data_fetch k (i_DTLB ic) True sx2;
     sx4 \<leftarrow> on_answer complete_data_fetch k (i_L1D ic) False sx3;
     on_core (complete_all k) sx4 }"

section \<open>Retirement\<close>

definition retire_packet :: "core_env \<Rightarrow> u32 \<Rightarrow> nat \<Rightarrow> lsq_entry \<Rightarrow> packet" where
  "retire_packet k cpu sq_index l = (lsq_packet cpu l)\<lparr>p_sq_index := of_nat sq_index,
     p_address := drop_bit LOG2_BLOCK_SIZE (l_physical_address l),
     p_full_addr := l_physical_address l, p_type := RFO, p_event_cycle := f_now k\<rparr>"

text \<open>A store is written to the L1D.\<close>

definition retire_store :: "core_env \<Rightarrow> nat \<Rightarrow> instr \<Rightarrow> o3_cpu \<Rightarrow> sys \<Rightarrow> nat \<Rightarrow> sys option" where
  "retire_store k l1d e x s i = do {
     m \<leftarrow> arr_get (n_destination_memory e) i;
     if m \<noteq> 0 then do {
       v \<leftarrow> arr_get (n_sq_index e) i;
       l \<leftarrow> sq_at x (unat v);
       (s1, _) \<leftarrow> obj_add_wq (Cache_obj l1d) (retire_packet k (x_cpu x) (unat v) l) s;
       Some s1 }
     else Some s }"

definition release_store :: "instr \<Rightarrow> o3_cpu \<Rightarrow> nat \<Rightarrow> o3_cpu option" where
  "release_store e x i = do {
     v \<leftarrow> arr_get (n_sq_index e) i;
     if v \<noteq> - 1 then do {
       x1 \<leftarrow> upd_sq (unat v) (\<lambda>_. lsq_entry_new) x;
       let q = x_SQ x1;
       Some (x1\<lparr>x_SQ := q\<lparr>ls_occupancy := ls_occupancy q - 1,
         ls_head := (if ls_head q + 1 = ls_SIZE q then 0 else ls_head q + 1)\<rparr>\<rparr>) }
     else Some x }"

definition release_rob :: "o3_cpu \<Rightarrow> o3_cpu option" where
  "release_rob x = do {
     x1 \<leftarrow> upd_rob (unat (rob_head (x_ROB x))) (\<lambda>_. instr_new) x;
     let b = x_ROB x1;
     Some (x1\<lparr>x_ROB := b\<lparr>
         rob_head := (if rob_head b + 1 = rob_SIZE b then 0 else rob_head b + 1),
         rob_occupancy := rob_occupancy b - 1\<rparr>,
       x_completed_executions := x_completed_executions x1 - 1,
       x_num_retired := x_num_retired x1 + 1\<rparr>) }"

definition count_stores :: "core_env \<Rightarrow> instr \<Rightarrow> nat option" where
  "count_stores k e = fold_opt (\<lambda>n i. do {
     m \<leftarrow> arr_get (n_destination_memory e) i; Some (if m \<noteq> 0 then n + 1 else n) })
     0 [0..<f_MAX_INSTR_DESTINATIONS k]"

text \<open>One round of \<open>retire_rob\<close>; the flag says whether the loop goes on.\<close>

definition retire_one :: "core_env \<Rightarrow> nat \<Rightarrow> core_sys \<Rightarrow> (core_sys \<times> bool) option" where
  "retire_one k l1d = (\<lambda>(s, x). do {
     e \<leftarrow> rob_at x (unat (rob_head (x_ROB x)));
     if n_ip e = 0 \<or> n_executed e \<noteq> completed_int then Some ((s, x), False)
     else do {
       num_store \<leftarrow> count_stores k e;
       c \<leftarrow> cache_at s l1d;
       if num_store \<noteq> 0 \<and> \<not> q_occupancy (c_WQ c) + of_nat num_store \<le> q_size (c_WQ c)
       then do {
         s1 \<leftarrow> on_cache l1d (\<lambda>c. count_STALL RFO
           (c\<lparr>c_WQ := (c_WQ c)\<lparr>q_FULL := q_FULL (c_WQ c) + 1\<rparr>\<rparr>)) s;
         Some ((s1, x), False) }
       else do {
         s1 \<leftarrow> (if num_store \<noteq> 0
           then fold_opt (retire_store k l1d e x) s [0..<f_MAX_INSTR_DESTINATIONS k] else Some s);
         x1 \<leftarrow> fold_opt (release_store e) x [0..<f_MAX_INSTR_DESTINATIONS k];
         x2 \<leftarrow> release_rob x1;
         Some ((s1, x2), True) } } })"

fun retire_loop :: "nat \<Rightarrow> core_env \<Rightarrow> nat \<Rightarrow> core_sys \<Rightarrow> core_sys option" where
  "retire_loop 0 k l1d sx = Some sx"
| "retire_loop (Suc n) k l1d sx = do {
     (sx1, go) \<leftarrow> retire_one k l1d sx;
     if go then retire_loop n k l1d sx1 else Some sx1 }"

definition retire_rob :: "core_env \<Rightarrow> core_caches \<Rightarrow> core_sys \<Rightarrow> core_sys option" where
  "retire_rob k ic sx = retire_loop RETIRE_WIDTH k (i_L1D ic) sx"

end
