(* ===== verification/Core_Scoreboard.thy ===== *)
theory Core_Scoreboard
  imports Core_Schedule
begin

text \<open>
  The register scoreboard of the core: what \<open>reg_dependency\<close> finds, the invariant that ties the
  counters, the sets of dependants and the arrays of ready instructions together, and its
  preservation by scheduling, execution and completion.
\<close>

section \<open>The producers of an instruction\<close>

text \<open>
  The producer of source \<open>j\<close>: the youngest older instruction that is not complete and writes the
  register.
\<close>

definition writes :: "core_env \<Rightarrow> instr \<Rightarrow> u8 \<Rightarrow> bool" where
  "writes k e r \<longleftrightarrow> r \<noteq> 0 \<and> r \<in> set (take (f_MAX_INSTR_DESTINATIONS k) (n_destination_registers e))"

definition producer_among :: "core_env \<Rightarrow> core_buffer \<Rightarrow> nat \<Rightarrow> nat \<Rightarrow> nat list \<Rightarrow> nat option" where
  "producer_among k b current j older =
     find (\<lambda>p. n_executed (rob_entry b ! p) \<noteq> completed_int \<and>
       writes k (rob_entry b ! p) (n_source_registers (rob_entry b ! current) ! j)) older"

definition producer_of :: "core_env \<Rightarrow> core_buffer \<Rightarrow> nat \<Rightarrow> nat \<Rightarrow> nat option" where
  "producer_of k b current j = producer_among k b current j (older_entries b current)"

section \<open>Marking producers\<close>

text \<open>The shape of an entry: array lengths and well-formed sets.\<close>

definition entry_shape :: "instr \<Rightarrow> bool" where
  "entry_shape e \<longleftrightarrow> length (n_destination_registers e) = NUM_INSTR_DESTINATIONS_SPARC \<and>
     length (n_source_registers e) = NUM_INSTR_SOURCES \<and>
     length (n_reg_RAW_checked e) = NUM_INSTR_SOURCES \<and>
     length (n_registers_index_depend_on_me e) = NUM_INSTR_SOURCES \<and>
     fs_inv (n_registers_instrs_depend_on_me e) \<and>
     (\<forall>j < NUM_INSTR_SOURCES. fs_inv (n_registers_index_depend_on_me e ! j))"

definition rob_shape :: "o3_cpu \<Rightarrow> bool" where
  "rob_shape x \<longleftrightarrow> length (rob_entry (x_ROB x)) = ROB_SIZE \<and>
     (\<forall>i < ROB_SIZE. entry_shape (rob_entry (x_ROB x) ! i))"

text \<open>The dependants of an entry through source \<open>j\<close>, and through any source.\<close>

definition index_deps :: "instr \<Rightarrow> nat \<Rightarrow> u16 set" where
  "index_deps e j = fs_set (n_registers_index_depend_on_me e ! j)"

definition instr_deps :: "instr \<Rightarrow> u16 set" where
  "instr_deps e = fs_set (n_registers_instrs_depend_on_me e)"

abbreviation ent :: "o3_cpu \<Rightarrow> nat \<Rightarrow> instr" where
  "ent x i \<equiv> rob_entry (x_ROB x) ! i"

lemma ent_upd:
  "rob_at x i = Some e \<Longrightarrow> \<exists>y. upd_rob i f x = Some y \<and> y = x\<lparr>x_ROB := (x_ROB x)\<lparr>rob_entry := (rob_entry (x_ROB x))[i := f e]\<rparr>\<rparr>"
  by (simp add: upd_rob_def)

lemma rob_at_ent: "i < length (rob_entry (x_ROB x)) \<Longrightarrow> rob_at x i = Some (ent x i)"
  by (simp add: rob_at_def)

text \<open>What marking leaves alone in a producer, and in a consumer.\<close>

definition producer_frame :: "instr \<Rightarrow> instr" where
  "producer_frame e = e\<lparr>n_registers_instrs_depend_on_me := fastset_new,
     n_registers_index_depend_on_me := [], n_reg_RAW_producer := 0\<rparr>"

definition consumer_frame :: "instr \<Rightarrow> instr" where
  "consumer_frame e = e\<lparr>n_reg_ready := 0, n_producer_id := 0, n_num_reg_dependent := 0, n_reg_RAW_checked := []\<rparr>"

lemma producer_frame_upd:
  "producer_frame (e\<lparr>n_registers_instrs_depend_on_me := a, n_registers_index_depend_on_me := b, n_reg_RAW_producer := r\<rparr>) = producer_frame e"
  by (simp add: producer_frame_def)

lemma consumer_frame_upd:
  "consumer_frame (e\<lparr>n_reg_ready := a, n_producer_id := b, n_num_reg_dependent := c, n_reg_RAW_checked := d\<rparr>) = consumer_frame e"
  by (simp add: consumer_frame_def)

lemma producer_frame_fields:
  assumes "producer_frame e = producer_frame e'"
  shows "n_executed e = n_executed e'" "n_destination_registers e = n_destination_registers e'"
    "n_source_registers e = n_source_registers e'" "n_reg_RAW_checked e = n_reg_RAW_checked e'"
    "n_reg_ready e = n_reg_ready e'" "n_num_reg_dependent e = n_num_reg_dependent e'"
    "n_scheduled e = n_scheduled e'" "n_is_memory e = n_is_memory e'" "n_instr_id e = n_instr_id e'"
    "n_fetched e = n_fetched e'" "n_translated e = n_translated e'"
  subgoal using arg_cong [OF assms, of n_executed] by (simp add: producer_frame_def)
  subgoal using arg_cong [OF assms, of n_destination_registers] by (simp add: producer_frame_def)
  subgoal using arg_cong [OF assms, of n_source_registers] by (simp add: producer_frame_def)
  subgoal using arg_cong [OF assms, of n_reg_RAW_checked] by (simp add: producer_frame_def)
  subgoal using arg_cong [OF assms, of n_reg_ready] by (simp add: producer_frame_def)
  subgoal using arg_cong [OF assms, of n_num_reg_dependent] by (simp add: producer_frame_def)
  subgoal using arg_cong [OF assms, of n_scheduled] by (simp add: producer_frame_def)
  subgoal using arg_cong [OF assms, of n_is_memory] by (simp add: producer_frame_def)
  subgoal using arg_cong [OF assms, of n_instr_id] by (simp add: producer_frame_def)
  subgoal using arg_cong [OF assms, of n_fetched] by (simp add: producer_frame_def)
  subgoal using arg_cong [OF assms, of n_translated] by (simp add: producer_frame_def)
  done

lemma consumer_frame_fields:
  assumes "consumer_frame e = consumer_frame e'"
  shows "n_executed e = n_executed e'" "n_destination_registers e = n_destination_registers e'"
    "n_source_registers e = n_source_registers e'" "n_scheduled e = n_scheduled e'"
    "n_is_memory e = n_is_memory e'" "n_instr_id e = n_instr_id e'" "n_fetched e = n_fetched e'"
    "n_registers_instrs_depend_on_me e = n_registers_instrs_depend_on_me e'"
    "n_registers_index_depend_on_me e = n_registers_index_depend_on_me e'"
    "n_reg_RAW_producer e = n_reg_RAW_producer e'" "n_translated e = n_translated e'"
  subgoal using arg_cong [OF assms, of n_executed] by (simp add: consumer_frame_def)
  subgoal using arg_cong [OF assms, of n_destination_registers] by (simp add: consumer_frame_def)
  subgoal using arg_cong [OF assms, of n_source_registers] by (simp add: consumer_frame_def)
  subgoal using arg_cong [OF assms, of n_scheduled] by (simp add: consumer_frame_def)
  subgoal using arg_cong [OF assms, of n_is_memory] by (simp add: consumer_frame_def)
  subgoal using arg_cong [OF assms, of n_instr_id] by (simp add: consumer_frame_def)
  subgoal using arg_cong [OF assms, of n_fetched] by (simp add: consumer_frame_def)
  subgoal using arg_cong [OF assms, of n_registers_instrs_depend_on_me] by (simp add: consumer_frame_def)
  subgoal using arg_cong [OF assms, of n_registers_index_depend_on_me] by (simp add: consumer_frame_def)
  subgoal using arg_cong [OF assms, of n_reg_RAW_producer] by (simp add: consumer_frame_def)
  subgoal using arg_cong [OF assms, of n_translated] by (simp add: consumer_frame_def)
  done

text \<open>
  \<open>x'\<close> is \<open>x\<close> where \<open>c\<close> waits for the pairs \<open>(p, j)\<close> of \<open>M\<close>: producer and source.
\<close>

definition marks_producer :: "nat \<Rightarrow> (nat \<times> nat) set \<Rightarrow> nat \<Rightarrow> instr \<Rightarrow> instr \<Rightarrow> bool" where
  "marks_producer c M p e e' \<longleftrightarrow> producer_frame e' = producer_frame e \<and>
     n_reg_RAW_producer e' = (if p \<in> fst ` M then 1 else n_reg_RAW_producer e) \<and>
     instr_deps e' = instr_deps e \<union> (if p \<in> fst ` M then {of_nat c} else {}) \<and>
     (\<forall>j < NUM_INSTR_SOURCES. index_deps e' j = index_deps e j \<union> (if (p, j) \<in> M then {of_nat c} else {}))"

definition marks_consumer :: "(nat \<times> nat) set \<Rightarrow> instr \<Rightarrow> instr \<Rightarrow> bool" where
  "marks_consumer M e e' \<longleftrightarrow> consumer_frame e' = consumer_frame e \<and>
     n_reg_ready e' = (if M = {} then n_reg_ready e else 0) \<and>
     n_num_reg_dependent e' = n_num_reg_dependent e + int (card M) \<and>
     (\<forall>j < NUM_INSTR_SOURCES. n_reg_RAW_checked e' ! j = (if j \<in> snd ` M then 1 else n_reg_RAW_checked e ! j))"

definition same_but_entries :: "o3_cpu \<Rightarrow> o3_cpu \<Rightarrow> bool" where
  "same_but_entries x x' \<longleftrightarrow> x' = x\<lparr>x_ROB := (x_ROB x)\<lparr>rob_entry := rob_entry (x_ROB x')\<rparr>\<rparr>"

definition marked :: "nat \<Rightarrow> (nat \<times> nat) set \<Rightarrow> o3_cpu \<Rightarrow> o3_cpu \<Rightarrow> bool" where
  "marked c M x x' \<longleftrightarrow> rob_shape x' \<and> finite M \<and> same_but_entries x x' \<and>
     (\<forall>p < ROB_SIZE. p \<noteq> c \<longrightarrow> marks_producer c M p (ent x p) (ent x' p)) \<and>
     marks_consumer M (ent x c) (ent x' c)"

lemma marked_refl:
  assumes "rob_shape x"
  shows "marked c {} x x"
proof -
  have "x = x\<lparr>x_ROB := (x_ROB x)\<lparr>rob_entry := rob_entry (x_ROB x)\<rparr>\<rparr>" by simp
  then show ?thesis
    using assms by (simp add: marked_def marks_producer_def marks_consumer_def same_but_entries_def)
qed


lemma rob_shapeD:
  assumes "rob_shape x" "i < ROB_SIZE"
  shows "rob_at x i = Some (ent x i)" "entry_shape (ent x i)"
  using assms by (auto simp: rob_shape_def rob_at_def)

lemma rob_shape_upd:
  assumes "rob_shape x" "entry_shape e"
  shows "rob_shape (x\<lparr>x_ROB := (x_ROB x)\<lparr>rob_entry := (rob_entry (x_ROB x))[i := e]\<rparr>\<rparr>)"
  using assms by (auto simp: rob_shape_def nth_update_any)

lemma same_but_entries_upd:
  "same_but_entries x x' \<Longrightarrow>
     same_but_entries x (x'\<lparr>x_ROB := (x_ROB x')\<lparr>rob_entry := es\<rparr>\<rparr>)"
proof -
  assume "same_but_entries x x'"
  then obtain E where "x' = x\<lparr>x_ROB := (x_ROB x)\<lparr>rob_entry := E\<rparr>\<rparr>" unfolding same_but_entries_def by blast
  then show ?thesis by (simp add: same_but_entries_def)
qed

lemma mark_producer_step:
  assumes x': "marked c M x x'" and idx: "c < ROB_SIZE" "p < ROB_SIZE" "p \<noteq> c" "j < NUM_INSTR_SOURCES"
    and new: "j \<notin> snd ` M"
  shows "\<exists>x''. mark_producer p c j x' = Some x'' \<and> marked c (insert (p, j) M) x x''"
proof -
  have sh: "rob_shape x'" and fin: "finite M" using x' by (simp_all add: marked_def)
  note P = rob_shapeD [OF sh idx(2)] and C = rob_shapeD [OF sh idx(1)]
  have c512: "unat (of_nat c :: u16) < 512" using idx(1) by (simp add: unat_of_nat ROB_SIZE_def)
  obtain a where a: "fs_insert (n_registers_instrs_depend_on_me (ent x' p)) (of_nat c) = Some a"
      "fs_inv a" "fs_set a = insert (of_nat c) (instr_deps (ent x' p))"
    using fs_insert_correct [OF _ c512] P(2) unfolding entry_shape_def instr_deps_def by blast
  obtain b where b: "fs_insert (n_registers_index_depend_on_me (ent x' p) ! j) (of_nat c) = Some b"
      "fs_inv b" "fs_set b = insert (of_nat c) (index_deps (ent x' p) j)"
    using fs_insert_correct [OF _ c512] P(2) idx(4) unfolding entry_shape_def index_deps_def by blast
  define ep where "ep = (ent x' p)\<lparr>n_registers_instrs_depend_on_me := a,
    n_registers_index_depend_on_me := (n_registers_index_depend_on_me (ent x' p))[j := b], n_reg_RAW_producer := 1\<rparr>"
  define ec where "ec = (ent x' c)\<lparr>n_reg_ready := 0, n_producer_id := n_instr_id (ent x' p),
    n_num_reg_dependent := n_num_reg_dependent (ent x' c) + 1,
    n_reg_RAW_checked := (n_reg_RAW_checked (ent x' c))[j := 1]\<rparr>"
  define es where "es = (rob_entry (x_ROB x'))[p := ep, c := ec]"
  have len: "length (rob_entry (x_ROB x')) = ROB_SIZE" using sh by (simp add: rob_shape_def)
  have "mark_producer p c j x' = Some (x'\<lparr>x_ROB := (x_ROB x')\<lparr>rob_entry := es\<rparr>\<rparr>)"
    using P C a b idx len
    by (simp add: mark_producer_def upd_rob_def rob_at_def entry_shape_def es_def ep_def ec_def)
  moreover have "entry_shape ep" using P(2) a(2) b(2)
    by (auto simp: entry_shape_def ep_def nth_update_any)
  moreover have "entry_shape ec" using C(2) by (simp add: entry_shape_def ec_def)
  ultimately have run: "mark_producer p c j x' = Some (x'\<lparr>x_ROB := (x_ROB x')\<lparr>rob_entry := es\<rparr>\<rparr>)"
    and sh2: "rob_shape (x'\<lparr>x_ROB := (x_ROB x')\<lparr>rob_entry := es\<rparr>\<rparr>)"
    using sh by (auto simp: rob_shape_def es_def nth_update_any)
  have pj: "(p, j) \<notin> M" using new by force
  have ep_mark: "marks_producer c (insert (p, j) M) p (ent x p) ep"
  proof -
    have old: "marks_producer c M p (ent x p) (ent x' p)" using x' idx by (simp add: marked_def)
    have "producer_frame ep = producer_frame (ent x' p)" by (simp add: ep_def producer_frame_upd)
    moreover have "instr_deps ep = insert (of_nat c) (instr_deps (ent x' p))" by (simp add: instr_deps_def ep_def a(3))
    moreover have "index_deps ep i = (if i = j then insert (of_nat c) (index_deps (ent x' p) j) else index_deps (ent x' p) i)"
      if "i < NUM_INSTR_SOURCES" for i
      using that P(2) b(3) by (simp add: index_deps_def ep_def entry_shape_def)
    moreover have "n_reg_RAW_producer ep = 1" by (simp add: ep_def)
    ultimately show ?thesis using old pj by (auto simp: marks_producer_def)
  qed
  have ec_mark: "marks_consumer (insert (p, j) M) (ent x c) ec"
  proof -
    have old: "marks_consumer M (ent x c) (ent x' c)" using x' by (simp add: marked_def)
    have "consumer_frame ec = consumer_frame (ent x' c)" by (simp add: ec_def consumer_frame_upd)
    moreover have "n_reg_RAW_checked ec ! i = (if i = j then 1 else n_reg_RAW_checked (ent x' c) ! i)"
      if "i < NUM_INSTR_SOURCES" for i
      using that C(2) by (simp add: ec_def entry_shape_def)
    moreover have "n_reg_ready ec = 0" "n_num_reg_dependent ec = n_num_reg_dependent (ent x' c) + 1"
      by (simp_all add: ec_def)
    ultimately show ?thesis using old pj fin by (auto simp: marks_consumer_def)
  qed
  have other: "marks_producer c (insert (p, j) M) q (ent x q) (ent x' q)" if "q < ROB_SIZE" "q \<noteq> c" "q \<noteq> p" for q
    using x' that by (auto simp: marked_def marks_producer_def)
  have "marked c (insert (p, j) M) x (x'\<lparr>x_ROB := (x_ROB x')\<lparr>rob_entry := es\<rparr>\<rparr>)"
    using sh2 fin ep_mark ec_mark other idx len x' same_but_entries_upd [of x x' es]
    by (auto simp: marked_def es_def nth_update_any)
  with run show ?thesis by blast
qed


text \<open>The loops around it.\<close>

lemma RAW_loop_eq:
  assumes "rob_shape x" "p < ROB_SIZE" "c < ROB_SIZE" "j < NUM_INSTR_SOURCES"
    and "\<forall>i \<in> set is. i < NUM_INSTR_DESTINATIONS_SPARC"
  shows "RAW_loop p c j is x =
    (if \<exists>i \<in> set is. n_destination_registers (ent x p) ! i \<noteq> 0 \<and>
          n_destination_registers (ent x p) ! i = n_source_registers (ent x c) ! j
     then mark_producer p c j x else Some x)"
  using assms(5)
proof (induction "is")
  case (Cons i "is")
  then have "arr_get (n_destination_registers (ent x p)) i = Some (n_destination_registers (ent x p) ! i)"
    "arr_get (n_source_registers (ent x c)) j = Some (n_source_registers (ent x c) ! j)"
    using rob_shapeD(2) [OF assms(1,2)] rob_shapeD(2) [OF assms(1,3)] assms(4) by (simp_all add: entry_shape_def)
  with Cons show ?case using rob_shapeD(1) [OF assms(1,2)] rob_shapeD(1) [OF assms(1,3)] by auto
qed simp

lemma writes_index:
  assumes "f_MAX_INSTR_DESTINATIONS k \<le> NUM_INSTR_DESTINATIONS_SPARC" "entry_shape e"
  shows "writes k e r = (\<exists>i \<in> set [0..<f_MAX_INSTR_DESTINATIONS k].
    n_destination_registers e ! i \<noteq> 0 \<and> n_destination_registers e ! i = r)"
  using assms by (auto simp: writes_def in_set_conv_nth entry_shape_def)

lemma marked_same:
  assumes "marked c M x x'" "c < ROB_SIZE" "p < ROB_SIZE"
  shows "n_executed (ent x' p) = n_executed (ent x p)"
    "n_destination_registers (ent x' p) = n_destination_registers (ent x p)"
    "n_source_registers (ent x' p) = n_source_registers (ent x p)"
  using assms producer_frame_fields [of "ent x' p" "ent x p"] consumer_frame_fields [of "ent x' c" "ent x c"]
  by (cases "p = c"; simp add: marked_def marks_producer_def marks_consumer_def)+

lemma check_source_step:
  assumes x': "marked c M x x'" and idx: "c < ROB_SIZE" "p < ROB_SIZE" "p \<noteq> c" "j < NUM_INSTR_SOURCES"
    and k: "f_MAX_INSTR_DESTINATIONS k \<le> NUM_INSTR_DESTINATIONS_SPARC"
    and fresh: "n_reg_RAW_checked (ent x c) ! j = 0"
  shows "\<exists>x''. check_source k p c x' j = Some x'' \<and>
    marked c (if j \<notin> snd ` M \<and> writes k (ent x p) (n_source_registers (ent x c) ! j)
      then insert (p, j) M else M) x x''"
proof -
  have sh: "rob_shape x'" using x' by (simp add: marked_def)
  note P = rob_shapeD [OF sh idx(2)] and C = rob_shapeD [OF sh idx(1)]
  have get: "arr_get (n_source_registers (ent x' c)) j = Some (n_source_registers (ent x c) ! j)"
    "arr_get (n_reg_RAW_checked (ent x' c)) j = Some (if j \<in> snd ` M then 1 else 0)"
    using C(2) idx(4) marked_same(3) [OF x' idx(1,1)] x' fresh
    by (simp_all add: entry_shape_def marked_def marks_consumer_def)
  have "reg_RAW_dependency k p c j x' =
      (if writes k (ent x p) (n_source_registers (ent x c) ! j) then mark_producer p c j x' else Some x')"
    unfolding reg_RAW_dependency_def
    by (subst RAW_loop_eq [OF sh idx(2,1,4)])
      (use k marked_same [OF x' idx(1,2)] marked_same [OF x' idx(1,1)] writes_index [OF k P(2)] in
        \<open>auto simp: writes_def\<close>)
  then have "check_source k p c x' j =
      (if j \<notin> snd ` M \<and> writes k (ent x p) (n_source_registers (ent x c) ! j) then mark_producer p c j x' else Some x')"
    using C(1) get by (auto simp: check_source_def writes_def)
  with mark_producer_step [OF x' idx] x' show ?thesis by auto
qed

lemma check_prior_step:
  assumes x': "marked c M x x'" and idx: "c < ROB_SIZE" "p < ROB_SIZE" "p \<noteq> c"
    and k: "f_MAX_INSTR_DESTINATIONS k \<le> NUM_INSTR_DESTINATIONS_SPARC"
    and fresh: "\<forall>j < NUM_INSTR_SOURCES. n_reg_RAW_checked (ent x c) ! j = 0"
  shows "\<exists>x''. check_prior k c x' p = Some x'' \<and>
    marked c (M \<union> {(p, j) | j. n_executed (ent x p) \<noteq> completed_int \<and> j < NUM_INSTR_SOURCES \<and>
      j \<notin> snd ` M \<and> writes k (ent x p) (n_source_registers (ent x c) ! j)}) x x''"
proof -
  have sh: "rob_shape x'" using x' by (simp add: marked_def)
  let ?w = "\<lambda>j. j \<notin> snd ` M \<and> writes k (ent x p) (n_source_registers (ent x c) ! j)"
  define N where "N js = M \<union> Pair p ` {j \<in> set js. ?w j}" for js
  have "\<exists>x''. fold_opt (check_source k p c) x' [0..<NUM_INSTR_SOURCES] = Some x'' \<and> marked c (N [0..<NUM_INSTR_SOURCES]) x x''"
  proof (rule fold_opt_prefix)
    fix js j todo s
    assume split: "[0..<NUM_INSTR_SOURCES] = js @ j # todo" and s: "marked c (N js) x s"
    have j: "j < NUM_INSTR_SOURCES" using split by (metis atLeastLessThan_iff in_set_conv_decomp set_upt)
    have "j \<notin> set js" using split distinct_upt [of 0 NUM_INSTR_SOURCES] by simp
    then have "j \<notin> snd ` N js \<longleftrightarrow> j \<notin> snd ` M" by (auto simp: N_def image_Un image_image)
    moreover have "N (js @ [j]) = (if ?w j then insert (p, j) (N js) else N js)" by (auto simp: N_def)
    ultimately show "\<exists>s'. check_source k p c s j = Some s' \<and> marked c (N (js @ [j])) x s'"
      using check_source_step [OF s idx j k] fresh j by simp
  qed (use x' in \<open>simp add: N_def\<close>)
  moreover have "N [0..<NUM_INSTR_SOURCES] = M \<union> {(p, j) | j. j < NUM_INSTR_SOURCES \<and> ?w j}"
    by (auto simp: N_def)
  ultimately show ?thesis
    using rob_shapeD(1) [OF sh idx(2)] marked_same(1) [OF x' idx(1,2)] x'
    by (cases "n_executed (ent x p) = completed_int") (simp_all add: check_prior_def)
qed

lemma find_append: "find P (xs @ ys) = (case find P xs of None \<Rightarrow> find P ys | Some x \<Rightarrow> Some x)"
  by (induction xs) auto

text \<open>The pairs that the search finds.\<close>

definition producers :: "core_env \<Rightarrow> core_buffer \<Rightarrow> nat \<Rightarrow> nat list \<Rightarrow> (nat \<times> nat) set" where
  "producers k b c older = {(p, j). j < NUM_INSTR_SOURCES \<and> producer_among k b c j older = Some p}"

lemma reg_dependency_marks:
  assumes sh: "rob_shape x" and c: "c < ROB_SIZE"
    and older: "\<forall>p \<in> set (older_entries (x_ROB x) c). p < ROB_SIZE \<and> p \<noteq> c"
    and k: "f_MAX_INSTR_DESTINATIONS k \<le> NUM_INSTR_DESTINATIONS_SPARC"
    and fresh: "\<forall>j < NUM_INSTR_SOURCES. n_reg_RAW_checked (ent x c) ! j = 0"
  shows "\<exists>x'. reg_dependency k c x = Some x' \<and>
    marked c (producers k (x_ROB x) c (older_entries (x_ROB x) c)) x x'"
  unfolding reg_dependency_def
proof (rule fold_opt_prefix)
  show "marked c (producers k (x_ROB x) c []) x x"
    using marked_refl [OF sh, of c] by (simp add: producers_def producer_among_def)
next
  fix olds p todo s
  let ?b = "x_ROB x"
  assume split: "older_entries ?b c = olds @ p # todo" and s: "marked c (producers k ?b c olds) x s"
  have p: "p < ROB_SIZE" "p \<noteq> c" using older split by auto
  have "producers k ?b c (olds @ [p]) = producers k ?b c olds \<union>
      {(p, j) | j. n_executed (ent x p) \<noteq> completed_int \<and> j < NUM_INSTR_SOURCES \<and>
        j \<notin> snd ` producers k ?b c olds \<and> writes k (ent x p) (n_source_registers (ent x c) ! j)}"
    by (force simp: producers_def producer_among_def find_append split: option.splits if_splits)
  with check_prior_step [OF s c p k fresh]
  show "\<exists>s'. check_prior k c s p = Some s' \<and> marked c (producers k ?b c (olds @ [p])) x s'" by simp
qed


section \<open>Positions in the buffer\<close>

definition rob_idx :: "core_buffer \<Rightarrow> nat \<Rightarrow> nat" where
  "rob_idx b k = (unat (rob_head b) + k) mod ROB_SIZE"

definition rob_pos :: "core_buffer \<Rightarrow> nat \<Rightarrow> nat" where
  "rob_pos b i = (i + (ROB_SIZE - unat (rob_head b))) mod ROB_SIZE"

definition rob_ring :: "core_buffer \<Rightarrow> bool" where
  "rob_ring b \<longleftrightarrow> rob_SIZE b = of_nat ROB_SIZE \<and> length (rob_entry b) = ROB_SIZE \<and>
     unat (rob_head b) < ROB_SIZE \<and> unat (rob_occupancy b) \<le> ROB_SIZE \<and>
     unat (rob_tail b) = rob_idx b (unat (rob_occupancy b))"

definition live :: "core_buffer \<Rightarrow> nat \<Rightarrow> bool" where
  "live b i \<longleftrightarrow> i < ROB_SIZE \<and> rob_pos b i < unat (rob_occupancy b)"

lemma ROB_SIZE_words: "unat (of_nat ROB_SIZE :: u32) = ROB_SIZE" "0 < ROB_SIZE"
  by (simp_all add: ROB_SIZE_def)

lemma rob_idx_less [simp]: "rob_idx b k < ROB_SIZE"
  by (simp add: rob_idx_def ROB_SIZE_def)

lemma rob_pos_less [simp]: "rob_pos b k < ROB_SIZE"
  by (simp add: rob_pos_def ROB_SIZE_def)

lemma rob_idx_pos: "rob_ring b \<Longrightarrow> i < ROB_SIZE \<Longrightarrow> rob_idx b (rob_pos b i) = i"
  by (simp add: rob_ring_def rob_idx_def rob_pos_def mod_simps)

lemma rob_pos_idx:
  assumes "rob_ring b" "k < ROB_SIZE"
  shows "rob_pos b (rob_idx b k) = k"
proof -
  let ?h = "unat (rob_head b)"
  have "rob_pos b (rob_idx b k) = (?h + k + (ROB_SIZE - ?h)) mod ROB_SIZE"
    unfolding rob_pos_def rob_idx_def by (rule mod_add_left_eq)
  also have "?h + k + (ROB_SIZE - ?h) = k + ROB_SIZE" using assms(1) by (simp add: rob_ring_def)
  finally show ?thesis using assms(2) by simp
qed

lemma live_idx: "rob_ring b \<Longrightarrow> k < unat (rob_occupancy b) \<Longrightarrow> live b (rob_idx b k)"
  by (auto simp: live_def rob_pos_idx rob_ring_def)

lemma live_less: "live b i \<Longrightarrow> i < ROB_SIZE"
  by (simp add: live_def)

lemma upt_mod:
  assumes "h < n" "m \<le> (n::nat)"
  shows "map (\<lambda>k. (h + k) mod n) [0..<m] = (if h + m \<le> n then [h..<h + m] else [h..<n] @ [0..<h + m - n])"
proof (rule nth_equalityI)
  fix i assume "i < length (map (\<lambda>k. (h + k) mod n) [0..<m])"
  then show "map (\<lambda>k. (h + k) mod n) [0..<m] ! i = (if h + m \<le> n then [h..<h + m] else [h..<n] @ [0..<h + m - n]) ! i"
    using assms by (auto simp: nth_append mod_if)
qed (use assms in auto)

lemma older_entries_pos:
  assumes b: "rob_ring b" and c: "c < ROB_SIZE"
  shows "older_entries b c = rev (map (rob_idx b) [0..<rob_pos b c])"
proof -
  let ?h = "unat (rob_head b)" and ?n = ROB_SIZE
  have h: "?h < ?n" "unat (rob_SIZE b) = ?n" using b by (simp_all add: rob_ring_def ROB_SIZE_words)
  have pos: "rob_pos b c = (if ?h \<le> c then c - ?h else c + ?n - ?h)"
    using h c by (auto simp: rob_pos_def mod_if)
  have m: "map (rob_idx b) [0..<rob_pos b c] =
      (if ?h + rob_pos b c \<le> ?n then [?h..<?h + rob_pos b c] else [?h..<?n] @ [0..<?h + rob_pos b c - ?n])"
    unfolding rob_idx_def by (rule upt_mod [OF h(1)]) (simp add: less_imp_le)
  consider "c = ?h" | "?h < c" | "c < ?h" "c = 0" | "c < ?h" "0 < c" by linarith
  then show ?thesis
  proof cases
    case 2
    then show ?thesis using h c unfolding m by (simp add: older_entries_def Let_def pos less_Suc_eq_le [symmetric] del: upt_Suc)
  next
    case 3
    then have p: "rob_pos b 0 = ?n - ?h" using pos by simp
    show ?thesis using 3 h unfolding m by (auto simp: older_entries_def Let_def p)
  next
    case 4
    then show ?thesis using h c unfolding m by (auto simp: older_entries_def Let_def pos simp del: upt_Suc)
  next
    case 1
    then have "rob_pos b c = 0" using pos by simp
    with 1 show ?thesis by (simp add: older_entries_def)
  qed
qed

lemma older_entries_set:
  assumes b: "rob_ring b" and c: "live b c"
  shows "set (older_entries b c) = {p. live b p \<and> rob_pos b p < rob_pos b c}"
proof -
  have "rob_pos b c < unat (rob_occupancy b)" "c < ROB_SIZE" using c by (simp_all add: live_def)
  moreover have "unat (rob_occupancy b) \<le> ROB_SIZE" using b by (simp add: rob_ring_def)
  ultimately show ?thesis
    using older_entries_pos [OF b, of c]
    by (auto simp: live_def rob_pos_idx [OF b] image_iff intro: rob_idx_pos [OF b, symmetric])
qed

lemma rob_span_tail:
  assumes b: "rob_ring b"
  shows "fst (rob_span b (rob_tail b)) @ snd (rob_span b (rob_tail b)) =
    map (rob_idx b) [0..<(if rob_occupancy b = 0 then ROB_SIZE else unat (rob_occupancy b))]"
proof -
  let ?h = "unat (rob_head b)" and ?n = ROB_SIZE and ?m = "unat (rob_occupancy b)"
  let ?l = "if rob_occupancy b = 0 then ?n else ?m"
  have f: "?h < ?n" "?m \<le> ?n" "unat (rob_tail b) = (?h + ?m) mod ?n" "unat (rob_SIZE b) = ?n"
    using b by (simp_all add: rob_ring_def rob_idx_def ROB_SIZE_words)
  have m0: "rob_occupancy b = 0 \<longleftrightarrow> ?m = 0" by (simp add: unat_eq_0)
  have m: "map (rob_idx b) [0..<?l] = (if ?h + ?l \<le> ?n then [?h..<?h + ?l] else [?h..<?n] @ [0..<?h + ?l - ?n])"
    unfolding rob_idx_def by (rule upt_mod [OF f(1)]) (use f in simp)
  show ?thesis
    using f m0 unfolding m rob_span_def word_less_nat_alt
    by (cases "?m = 0"; cases "?h + ?m < ?n") (auto simp: mod_if)
qed


section \<open>The invariant\<close>

text \<open>
  A link \<open>(i, p, j)\<close>: source \<open>j\<close> of instruction \<open>i\<close> waits for \<open>p\<close>, which is in flight and not
  complete.
\<close>

definition links :: "o3_cpu \<Rightarrow> (nat \<times> nat \<times> nat) set" where
  "links x = {(i, p, j). i < ROB_SIZE \<and> live (x_ROB x) p \<and> j < NUM_INSTR_SOURCES \<and>
     n_executed (ent x p) \<noteq> completed_int \<and> of_nat i \<in> index_deps (ent x p) j}"

definition waits :: "(nat \<times> nat \<times> nat) set \<Rightarrow> nat \<Rightarrow> (nat \<times> nat) set" where
  "waits W i = {(p, j). (i, p, j) \<in> W}"

text \<open>An entry that the waits \<open>M\<close> describe.\<close>

definition score :: "(nat \<times> nat) set \<Rightarrow> instr \<Rightarrow> bool" where
  "score M e \<longleftrightarrow> n_num_reg_dependent e = int (card M) \<and>
     (n_scheduled e = 0 \<longrightarrow> M = {} \<and> n_executed e = 0 \<and> (\<forall>j < NUM_INSTR_SOURCES. n_reg_RAW_checked e ! j = 0)) \<and>
     (n_scheduled e \<noteq> 0 \<longrightarrow> (n_reg_ready e = 0 \<longleftrightarrow> M \<noteq> {})) \<and>
     (M \<noteq> {} \<longrightarrow> n_executed e = 0) \<and>
     n_executed e \<in> {0, inflight_int, completed_int}"

text \<open>The two sets of dependants of an entry agree, hold indices, and are announced by the flag.\<close>

definition deps_ok :: "instr \<Rightarrow> bool" where
  "deps_ok e \<longleftrightarrow> instr_deps e = (\<Union>j < NUM_INSTR_SOURCES. index_deps e j) \<and>
     (instr_deps e \<noteq> {} \<longrightarrow> n_reg_RAW_producer e \<noteq> 0) \<and> (\<forall>m \<in> instr_deps e. unat m < ROB_SIZE)"

text \<open>The instructions that can execute: they are in one of the two arrays, once.\<close>

definition ready :: "o3_cpu \<Rightarrow> nat set" where
  "ready x = {i. live (x_ROB x) i \<and> n_is_memory (ent x i) = 0 \<and> n_scheduled (ent x i) \<noteq> 0 \<and>
     n_reg_ready (ent x i) \<noteq> 0 \<and> n_executed (ent x i) = 0}"

definition rings_ok :: "nat set \<Rightarrow> o3_cpu \<Rightarrow> bool" where
  "rings_ok R x \<longleftrightarrow> (\<exists>xs ys. ring_holds ROB_SIZE (x_RTE0 x) xs \<and> ring_holds ROB_SIZE (x_RTE1 x) ys \<and>
     distinct (xs @ ys) \<and> set (xs @ ys) = R)"

text \<open>A link goes from an older instruction to a younger one that has been scheduled.\<close>

definition link_ok :: "o3_cpu \<Rightarrow> nat \<times> nat \<times> nat \<Rightarrow> bool" where
  "link_ok x = (\<lambda>(i, p, j). live (x_ROB x) i \<and> live (x_ROB x) p \<and> j < NUM_INSTR_SOURCES \<and>
     rob_pos (x_ROB x) p < rob_pos (x_ROB x) i \<and> n_scheduled (ent x i) \<noteq> 0)"

definition board :: "(nat \<times> nat \<times> nat) set \<Rightarrow> o3_cpu \<Rightarrow> bool" where
  "board W x \<longleftrightarrow> rob_ring (x_ROB x) \<and> rob_shape x \<and> (\<forall>w \<in> W. link_ok x w) \<and>
     (\<forall>i. live (x_ROB x) i \<longrightarrow> score (waits W i) (ent x i) \<and> deps_ok (ent x i)) \<and>
     rings_ok (ready x) x"

definition board_inv :: "o3_cpu \<Rightarrow> bool" where
  "board_inv x \<longleftrightarrow> board (links x) x"

lemma completed_int_simps [simp]: "completed_int = 2" "inflight_int = 1"
  by (simp_all add: COMPLETED_def INFLIGHT_def)

lemma links_finite: "finite (links x)"
proof (rule finite_subset)
  show "links x \<subseteq> {..<ROB_SIZE} \<times> {..<ROB_SIZE} \<times> {..<NUM_INSTR_SOURCES}"
    by (auto simp: links_def live_def)
qed simp

lemma board_new: "board_inv (o3_cpu_new tr)"
proof -
  have ring: "rob_ring (x_ROB (o3_cpu_new tr))"
    by (simp add: o3_cpu_new_def core_buffer_new_def rob_ring_def rob_idx_def ROB_SIZE_def)
  have "\<not> live (x_ROB (o3_cpu_new tr)) i" for i
    by (simp add: o3_cpu_new_def core_buffer_new_def live_def)
  then have none: "links (o3_cpu_new tr) = {}" "ready (o3_cpu_new tr) = {}"
    "\<not> live (x_ROB (o3_cpu_new tr)) i" for i
    by (simp_all add: links_def ready_def)
  have "entry_shape instr_new"
    by (simp add: entry_shape_def instr_new_def fs_new_inv)
  then have "rob_shape (o3_cpu_new tr)"
    by (simp add: rob_shape_def o3_cpu_new_def core_buffer_new_def ROB_SIZE_words)
  moreover have "rings_ok {} (o3_cpu_new tr)"
    using ring_holds_new [OF ROB_SIZE_words(2)]
    by (auto simp: rings_ok_def o3_cpu_new_def intro!: exI [of _ "[]"])
  ultimately show ?thesis using ring by (simp add: board_inv_def board_def none)
qed


section \<open>What the invariant depends on\<close>

definition reg_view :: "instr \<Rightarrow> (u8 \<times> bool \<times> u8 \<times> int \<times> int) \<times> (u8 list \<times> fastset list \<times> fastset \<times> u8) \<times> (u8 list \<times> u8 list)" where
  "reg_view e = ((n_is_memory e, n_scheduled e = 0, n_reg_ready e, n_executed e, n_num_reg_dependent e),
     (n_reg_RAW_checked e, n_registers_index_depend_on_me e, n_registers_instrs_depend_on_me e, n_reg_RAW_producer e),
     (n_destination_registers e, n_source_registers e))"

definition same_ring :: "core_buffer \<Rightarrow> core_buffer \<Rightarrow> bool" where
  "same_ring b b' \<longleftrightarrow> rob_SIZE b' = rob_SIZE b \<and> rob_head b' = rob_head b \<and> rob_tail b' = rob_tail b \<and>
     rob_occupancy b' = rob_occupancy b \<and> length (rob_entry b') = length (rob_entry b) \<and>
     rob_next_fetch b' = rob_next_fetch b"

lemma reg_viewD:
  assumes "reg_view e' = reg_view e"
  shows "n_is_memory e' = n_is_memory e" "n_scheduled e' = 0 \<longleftrightarrow> n_scheduled e = 0" "n_reg_ready e' = n_reg_ready e"
    "n_executed e' = n_executed e" "index_deps e' = index_deps e" "entry_shape e' = entry_shape e"
    "score M e' = score M e" "deps_ok e' = deps_ok e"
proof -
  show idx: "index_deps e' = index_deps e" using assms by (simp add: reg_view_def index_deps_def fun_eq_iff)
  have "instr_deps e' = instr_deps e" using assms by (simp add: reg_view_def instr_deps_def)
  with idx assms show "deps_ok e' = deps_ok e" by (simp add: reg_view_def deps_ok_def)
qed (use assms in \<open>simp_all add: reg_view_def entry_shape_def score_def\<close>)

lemma same_ring_simps:
  assumes "same_ring b b'"
  shows "rob_ring b' = rob_ring b" "live b' = live b" "rob_pos b' = rob_pos b"
  using assms by (auto simp: same_ring_def rob_ring_def live_def rob_pos_def rob_idx_def fun_eq_iff)

lemma board_frame:
  assumes r: "same_ring (x_ROB x) (x_ROB x')" and v: "\<forall>i < ROB_SIZE. reg_view (ent x' i) = reg_view (ent x i)"
    and w: "x_RTE0 x' = x_RTE0 x" "x_RTE1 x' = x_RTE1 x"
  shows "board W x' = board W x" "links x' = links x" "ready x' = ready x"
proof -
  note same_ring_simps [OF r, simp]
  note v' = reg_viewD [OF v [rule_format]]
  show l: "links x' = links x" using v'(4,5) by (auto simp: links_def live_def)
  show rd: "ready x' = ready x" using v'(1-4) by (auto simp: ready_def live_def)
  have "rob_shape x' = rob_shape x" using r v'(6) by (auto simp: rob_shape_def same_ring_def)
  moreover have "link_ok x' t = link_ok x t" for t
    using v'(2) by (cases t) (auto simp: link_ok_def live_def)
  moreover have "(live (x_ROB x) i \<longrightarrow> score M (ent x' i) \<and> deps_ok (ent x' i)) =
      (live (x_ROB x) i \<longrightarrow> score M (ent x i) \<and> deps_ok (ent x i))" for i M
    using v'(7,8) by (auto simp: live_def)
  ultimately show "board W x' = board W x" by (simp add: board_def rd rings_ok_def w)
qed

lemma board_inv_frame:
  assumes "same_ring (x_ROB x) (x_ROB x')" and "\<forall>i < ROB_SIZE. reg_view (ent x' i) = reg_view (ent x i)"
    and "x_RTE0 x' = x_RTE0 x" "x_RTE1 x' = x_RTE1 x"
  shows "board_inv x' = board_inv x"
  using board_frame [OF assms] by (simp add: board_inv_def)

lemma u16_inj: "i < ROB_SIZE \<Longrightarrow> j < ROB_SIZE \<Longrightarrow> (of_nat i :: u16) = of_nat j \<longleftrightarrow> i = j"
  by (simp add: word_unat_eq_iff unat_of_nat ROB_SIZE_def)

lemma boardD:
  assumes "board W x" "live (x_ROB x) i"
  shows "score (waits W i) (ent x i)" "deps_ok (ent x i)" "i < ROB_SIZE" "entry_shape (ent x i)"
    "rob_at x i = Some (ent x i)"
  using assms rob_shapeD [of x i] by (auto simp: board_def live_def)

lemma fold_opt_Some_cases:
  "(case m of None \<Rightarrow> None | Some y \<Rightarrow> Some (f y)) = Some z \<longleftrightarrow> (\<exists>y. m = Some y \<and> z = f y)"
  by (cases m) auto

section \<open>Scheduling keeps the invariant\<close>

text \<open>The state between the search for producers and the end of \<open>do_scheduling\<close>.\<close>

lemma board_mark:
  assumes b: "board (links x) x" and c: "live (x_ROB x) c" "n_scheduled (ent x c) = 0"
    and M: "\<forall>(p, j) \<in> M. live (x_ROB x) p \<and> j < NUM_INSTR_SOURCES \<and> n_executed (ent x p) \<noteq> completed_int \<and>
      rob_pos (x_ROB x) p < rob_pos (x_ROB x) c"
    and m: "marked c M (x\<lparr>x_ROB := (x_ROB x)\<lparr>rob_entry := (rob_entry (x_ROB x))[c := (ent x c)\<lparr>n_reg_ready := 1\<rparr>]\<rparr>\<rparr>) y"
    and e: "consumer_frame e = consumer_frame ((ent y c)\<lparr>n_scheduled := s, n_event_cycle := t\<rparr>)" "s \<noteq> 0"
      "n_reg_ready e = n_reg_ready (ent y c)" "n_num_reg_dependent e = n_num_reg_dependent (ent y c)"
    and R: "rings_ok (ready x \<union> (if M = {} \<and> n_is_memory (ent x c) = 0 then {c} else {})) x'"
    and x': "same_ring (x_ROB x) (x_ROB x')" "ent x' c = e" "\<forall>i < ROB_SIZE. i \<noteq> c \<longrightarrow> ent x' i = ent y i"
    and shape: "rob_shape x'"
  shows "board (links x') x'"
proof -
  let ?x1 = "x\<lparr>x_ROB := (x_ROB x)\<lparr>rob_entry := (rob_entry (x_ROB x))[c := (ent x c)\<lparr>n_reg_ready := 1\<rparr>]\<rparr>\<rparr>"
  note same_ring_simps [OF x'(1), simp]
  have cl: "c < ROB_SIZE" "length (rob_entry (x_ROB x)) = ROB_SIZE" using c(1) b by (auto simp: live_def board_def rob_ring_def)
  have e1: "ent ?x1 i = (if i = c then (ent x c)\<lparr>n_reg_ready := 1\<rparr> else ent x i)" if "i < ROB_SIZE" for i
    using that cl by simp
  have prod: "marks_producer c M i (ent x i) (ent x' i)" if "i < ROB_SIZE" "i \<noteq> c" for i
    using m that e1 [of i] x'(3) by (simp add: marked_def)
  have cons: "marks_consumer M ((ent x c)\<lparr>n_reg_ready := 1\<rparr>) (ent y c)"
    using m e1 [OF cl(1)] by (simp add: marked_def)
  have fin: "finite M" using m by (simp add: marked_def)
  have old: "score (waits (links x) c) (ent x c)" using boardD(1) [OF b c(1)] .
  then have W0: "waits (links x) c = {}" "n_executed (ent x c) = 0" "n_num_reg_dependent (ent x c) = 0"
    using c(2) by (auto simp: score_def)
  have ef: "n_executed e = 0" "n_is_memory e = n_is_memory (ent x c)" "n_scheduled e = s"
    "n_registers_index_depend_on_me e = n_registers_index_depend_on_me (ent x c)"
    "n_registers_instrs_depend_on_me e = n_registers_instrs_depend_on_me (ent x c)"
    "n_reg_RAW_producer e = n_reg_RAW_producer (ent x c)"
    using consumer_frame_fields [OF e(1)] consumer_frame_fields [of "ent y c" "(ent x c)\<lparr>n_reg_ready := 1\<rparr>"] cons W0(2)
    by (simp_all add: marks_consumer_def)
  have er: "n_reg_ready e = (if M = {} then 1 else 0)" "n_num_reg_dependent e = int (card M)"
    using e cons W0(3) by (simp_all add: marks_consumer_def)
  note pf = producer_frame_fields [of "ent x' i" "ent x i" for i]
  have same: "n_executed (ent x' i) = n_executed (ent x i)" "n_is_memory (ent x' i) = n_is_memory (ent x i)"
    if "i < ROB_SIZE" for i
    using pf [of i] prod [OF that] that ef W0 x'(2) by (cases "i = c"; simp add: marks_producer_def)+
  have idx: "index_deps (ent x' i) j = index_deps (ent x i) j \<union> (if (i, j) \<in> M then {of_nat c} else {})"
    if "i < ROB_SIZE" "j < NUM_INSTR_SOURCES" for i j
  proof (cases "i = c")
    case True
    then have "(i, j) \<notin> M" using M by auto
    with True show ?thesis using ef x'(2) by (simp add: index_deps_def)
  qed (use prod [OF that(1)] that in \<open>simp add: marks_producer_def\<close>)
  have links': "links x' = links x \<union> {(c, p, j) | p j. (p, j) \<in> M}"
    using M same(1) idx u16_inj cl(1)
    by (auto simp: links_def live_def split: if_splits; force)
  have waits': "waits (links x') i = (if i = c then M else waits (links x) i)" for i
    using W0(1) by (auto simp: links' waits_def)
  have sched: "n_scheduled (ent x' i) = (if i = c then s else n_scheduled (ent x i))" if "i < ROB_SIZE" for i
    using pf(7) [of i] prod [OF that] that ef x'(2) by (auto simp: marks_producer_def)
  have "link_ok x' w" if "w \<in> links x'" for w
  proof -
    consider "w \<in> links x" | p j where "w = (c, p, j)" "(p, j) \<in> M" using \<open>w \<in> links x'\<close> unfolding links' by blast
    then show ?thesis
    proof cases
      case 1
      then have "link_ok x w" using b by (simp add: board_def)
      then show ?thesis using e(2) by (cases w) (simp add: link_ok_def sched [OF live_less [of "x_ROB x"]])
    next
      case 2
      with M [THEN bspec, OF 2(2)] c(1) cl(1) sched e(2) show ?thesis by (simp add: link_ok_def)
    qed
  qed
  moreover have "score (waits (links x') i) (ent x' i)" if i: "live (x_ROB x) i" for i
  proof (cases "i = c")
    case True
    then show ?thesis using x'(2) ef er e(2) by (simp add: waits' score_def)
  next
    case False
    have il: "i < ROB_SIZE" using i by (simp add: live_def)
    show ?thesis using boardD(1) [OF b i] False pf [of i] prod [OF il False] by (simp add: waits' score_def marks_producer_def)
  qed
  moreover have "deps_ok (ent x' i)" if i: "live (x_ROB x) i" for i
  proof (cases "i = c")
    case True
    then show ?thesis using boardD(2) [OF b i] x'(2) ef by (simp add: deps_ok_def instr_deps_def index_deps_def)
  next
    case False
    have il: "i < ROB_SIZE" using i by (simp add: live_def)
    have "unat (of_nat c :: u16) < ROB_SIZE" using cl(1) by (simp add: unat_of_nat ROB_SIZE_def)
    moreover have "(\<Union>j < NUM_INSTR_SOURCES. index_deps (ent x' i) j) =
        (\<Union>j < NUM_INSTR_SOURCES. index_deps (ent x i) j) \<union> (if i \<in> fst ` M then {of_nat c} else {})"
      using M idx [OF il] by (auto split: if_splits; force)
    ultimately show ?thesis using boardD(2) [OF b i] prod [OF il False]
      by (auto simp: deps_ok_def marks_producer_def)
  qed
  moreover have "ready x' = ready x \<union> (if M = {} \<and> n_is_memory (ent x c) = 0 then {c} else {})"
  proof -
    have "i \<in> ready x' \<longleftrightarrow> i \<in> ready x" if "i \<noteq> c" for i
      using that pf [of i] prod [of i] by (auto simp: ready_def live_def marks_producer_def)
    moreover have "c \<notin> ready x" "c \<in> ready x' \<longleftrightarrow> M = {} \<and> n_is_memory (ent x c) = 0"
      using c ef er e(2) x'(2) by (auto simp: ready_def)
    ultimately have "i \<in> ready x' \<longleftrightarrow> i \<in> ready x \<union> (if M = {} \<and> n_is_memory (ent x c) = 0 then {c} else {})" for i
      by (cases "i = c") simp_all
    then show ?thesis by (rule set_eqI)
  qed
  ultimately show ?thesis using b shape R by (auto simp: board_def)
qed


lemma rings_room:
  assumes "ring_holds ROB_SIZE w0 xs" "ring_holds ROB_SIZE w1 ys" "distinct (xs @ ys)" "c \<notin> set (xs @ ys)" "c < ROB_SIZE"
  shows "length xs < ROB_SIZE" "length ys < ROB_SIZE"
proof -
  have "set (c # xs @ ys) \<subseteq> {..<ROB_SIZE}"
    using assms(1,2,5) by (auto simp: ring_holds_def list_all_iff)
  then have "card (set (c # xs @ ys)) \<le> ROB_SIZE" using card_mono [of "{..<ROB_SIZE}"] by fastforce
  moreover have "card (set (c # xs @ ys)) = Suc (length xs + length ys)"
    using assms(3,4) by (simp add: distinct_card card_Un_disjoint)
  ultimately show "length xs < ROB_SIZE" "length ys < ROB_SIZE" by linarith+
qed

lemma rte_push_holds:
  assumes "ring_holds ROB_SIZE w xs" "length xs < ROB_SIZE" "c < ROB_SIZE"
  shows "\<exists>w'. rte_push c w = Some w' \<and> ring_holds ROB_SIZE w' (xs @ [c])"
proof -
  obtain w' where "ring_push ROB_SIZE (of_nat c) w = Some w'" "ring_holds ROB_SIZE w' (xs @ [c])"
    "arr_get (w_slot w) (unat (w_tail w)) = Some (of_nat ROB_SIZE)"
    using ring_push_holds [OF assms] by (auto simp: ROB_SIZE_def)
  then show ?thesis by (simp add: rte_push_def)
qed

lemma RTE0_push:
  assumes R: "rings_ok R x" and c: "c \<notin> R" "c < ROB_SIZE"
  shows "\<exists>w. rte_push c (x_RTE0 x) = Some w \<and> rings_ok (insert c R) (x\<lparr>x_RTE0 := w\<rparr>)"
proof -
  obtain xs ys where r: "ring_holds ROB_SIZE (x_RTE0 x) xs" "ring_holds ROB_SIZE (x_RTE1 x) ys" "distinct (xs @ ys)"
    "set (xs @ ys) = R" using R by (auto simp: rings_ok_def)
  obtain w where w: "rte_push c (x_RTE0 x) = Some w" "ring_holds ROB_SIZE w (xs @ [c])"
    using rte_push_holds [OF r(1)] rings_room [OF r(1-3) _ c(2)] c r(4) by blast
  have "distinct ((xs @ [c]) @ ys)" "set ((xs @ [c]) @ ys) = insert c R" using r(3,4) c(1) by auto
  with w(2) r(2) have "rings_ok (insert c R) (x\<lparr>x_RTE0 := w\<rparr>)"
    unfolding rings_ok_def by - (rule exI [of _ "xs @ [c]"], rule exI [of _ ys], simp)
  with w(1) show ?thesis by blast
qed

lemma RTE1_push:
  assumes R: "rings_ok R x" and c: "c \<notin> R" "c < ROB_SIZE"
  shows "\<exists>w. rte_push c (x_RTE1 x) = Some w \<and> rings_ok (insert c R) (x\<lparr>x_RTE1 := w\<rparr>)"
proof -
  obtain xs ys where r: "ring_holds ROB_SIZE (x_RTE0 x) xs" "ring_holds ROB_SIZE (x_RTE1 x) ys" "distinct (xs @ ys)"
    "set (xs @ ys) = R" using R by (auto simp: rings_ok_def)
  obtain w where w: "rte_push c (x_RTE1 x) = Some w" "ring_holds ROB_SIZE w (ys @ [c])"
    using rte_push_holds [OF r(2)] rings_room [OF r(1-3) _ c(2)] c r(4) by blast
  have "distinct (xs @ (ys @ [c]))" "set (xs @ (ys @ [c])) = insert c R" using r(3,4) c(1) by auto
  with w(2) r(1) have "rings_ok (insert c R) (x\<lparr>x_RTE1 := w\<rparr>)"
    unfolding rings_ok_def by - (rule exI [of _ xs], rule exI [of _ "ys @ [c]"], simp)
  with w(1) show ?thesis by blast
qed

abbreviation set_ent :: "nat \<Rightarrow> instr \<Rightarrow> o3_cpu \<Rightarrow> o3_cpu" where
  "set_ent i e x \<equiv> x\<lparr>x_ROB := (x_ROB x)\<lparr>rob_entry := (rob_entry (x_ROB x))[i := e]\<rparr>\<rparr>"

lemma upd_rob_ent: "rob_shape x \<Longrightarrow> i < ROB_SIZE \<Longrightarrow> upd_rob i f x = Some (set_ent i (f (ent x i)) x)"
  by (simp add: upd_rob_def rob_shapeD)

text \<open>What decides whether an entry is scheduled or completed, and whose it is.\<close>

definition progress :: "instr \<Rightarrow> u32 \<times> int \<times> u8 \<times> u64" where
  "progress e = (n_fetched e, n_executed e, n_translated e, n_instr_id e)"

lemma do_scheduling_board:
  assumes b: "board_inv x" and c: "live (x_ROB x) c" "n_scheduled (ent x c) = 0"
    and k: "f_MAX_INSTR_DESTINATIONS k \<le> NUM_INSTR_DESTINATIONS_SPARC"
  shows "\<exists>x'. do_scheduling k c x = Some x' \<and> board_inv x' \<and> same_ring (x_ROB x) (x_ROB x') \<and>
    (\<forall>i < ROB_SIZE. progress (ent x' i) = progress (ent x i))"
proof -
  let ?b = "x_ROB x" and ?x1 = "set_ent c ((ent x c)\<lparr>n_reg_ready := 1\<rparr>) x"
  have B: "board (links x) x" using b by (simp add: board_inv_def)
  then have ring: "rob_ring ?b" and sh: "rob_shape x" by (simp_all add: board_def)
  have cl: "c < ROB_SIZE" and len: "length (rob_entry ?b) = ROB_SIZE" using c(1) ring by (simp_all add: live_def rob_ring_def)
  have sh1: "rob_shape ?x1" using rob_shape_upd [OF sh] rob_shapeD(2) [OF sh cl] by (simp add: entry_shape_def)
  have older: "older_entries (x_ROB ?x1) c = older_entries ?b c" by (simp add: older_entries_def)
  define M where "M = producers k (x_ROB ?x1) c (older_entries ?b c)"
  have fresh: "\<forall>j < NUM_INSTR_SOURCES. n_reg_RAW_checked (ent ?x1 c) ! j = 0"
    using boardD(1) [OF B c(1)] c(2) cl len by (simp add: score_def)
  have "\<forall>p \<in> set (older_entries (x_ROB ?x1) c). p < ROB_SIZE \<and> p \<noteq> c"
    unfolding older older_entries_set [OF ring c(1)] by (auto simp: live_def)
  from reg_dependency_marks [OF sh1 cl this k fresh]
  obtain y where y: "reg_dependency k c ?x1 = Some y" "marked c M ?x1 y" unfolding older M_def by blast
  have sy: "rob_shape y" and "same_but_entries ?x1 y" using y(2) by (simp_all add: marked_def)
  then obtain E where E: "y = ?x1\<lparr>x_ROB := (x_ROB ?x1)\<lparr>rob_entry := E\<rparr>\<rparr>" unfolding same_but_entries_def by blast
  define y3 where "y3 = y\<lparr>x_ROB := (x_ROB y)\<lparr>rob_next_schedule :=
    (if of_nat c = rob_SIZE (x_ROB y) - 1 then 0 else of_nat c + 1)\<rparr>\<rparr>"
  have lenE: "length E = ROB_SIZE" using sy E by (simp add: rob_shape_def)
  have MM: "\<forall>(p, j) \<in> M. live ?b p \<and> j < NUM_INSTR_SOURCES \<and> n_executed (ent x p) \<noteq> completed_int \<and> rob_pos ?b p < rob_pos ?b c"
  proof clarify
    fix p j assume "(p, j) \<in> M"
    then have f: "producer_among k (x_ROB ?x1) c j (older_entries ?b c) = Some p" "j < NUM_INSTR_SOURCES"
      by (simp_all add: M_def producers_def)
    then have "p \<in> set (older_entries ?b c)" "n_executed (ent ?x1 p) \<noteq> completed_int"
      by (auto simp: producer_among_def find_Some_iff)
    then have p: "live ?b p" "rob_pos ?b p < rob_pos ?b c" unfolding older_entries_set [OF ring c(1)] by auto
    then have "p \<noteq> c" "p < ROB_SIZE" by (auto simp: live_def)
    with p f(2) \<open>n_executed (ent ?x1 p) \<noteq> completed_int\<close> len
    show "live ?b p \<and> j < NUM_INSTR_SOURCES \<and> n_executed (ent x p) \<noteq> completed_int \<and> rob_pos ?b p < rob_pos ?b c"
      by simp
  qed
  have cons: "marks_consumer M ((ent x c)\<lparr>n_reg_ready := 1\<rparr>) (ent y c)" using y(2) cl len by (simp add: marked_def)
  then have mem: "n_is_memory (ent y c) = n_is_memory (ent x c)" and rdy: "n_reg_ready (ent y c) = (if M = {} then 1 else 0)"
    using consumer_frame_fields(5) [of "ent y c" "(ent x c)\<lparr>n_reg_ready := 1\<rparr>"] by (simp_all add: marks_consumer_def)
  have sy3: "rob_shape y3" using sy by (simp add: y3_def rob_shape_def)
  have R: "rings_ok (ready x) y3" using B E by (simp add: board_def rings_ok_def y3_def)
  have cr: "c \<notin> ready x" using c(2) by (simp add: ready_def)
  have start: "do_scheduling k c x = (do {
     if n_is_memory (ent x c) \<noteq> 0 then upd_rob c (\<lambda>e. e\<lparr>n_scheduled := inflight32\<rparr>) y3
     else do {
       x4 \<leftarrow> upd_rob c (\<lambda>e. delay (f_now k) (f_SCHEDULING_LATENCY k) (e\<lparr>n_scheduled := completed32\<rparr>)) y3;
       if n_reg_ready (ent y c) \<noteq> 0
       then do { w \<leftarrow> rte_push c (x_RTE1 x4); Some (x4\<lparr>x_RTE1 := w\<rparr>) }
       else Some x4 } })"
    using y(1) rob_shapeD(1) [OF sy3 cl] mem
    by (simp add: do_scheduling_def upd_rob_ent [OF sh cl] y3_def Let_def)
  let ?e = "\<lambda>s t. (ent y c)\<lparr>n_scheduled := s, n_event_cycle := t\<rparr>"
  have prog: "progress (ent y i) = progress (ent x i)" if i: "i < ROB_SIZE" for i
  proof (cases "i = c")
    case True
    then show ?thesis using cons consumer_frame_fields(1,6,7,11) [of "ent y c" "(ent x c)\<lparr>n_reg_ready := 1\<rparr>"]
      by (simp add: marks_consumer_def progress_def)
  next
    case False
    then have "producer_frame (ent y i) = producer_frame (ent x i)"
      using y(2) i len by (simp add: marked_def marks_producer_def)
    then show ?thesis using producer_frame_fields(1,9,10,11) [of "ent y i" "ent x i"] by (simp add: progress_def)
  qed
  have result: "board (links x') x' \<and> same_ring ?b (x_ROB x') \<and> (\<forall>i < ROB_SIZE. progress (ent x' i) = progress (ent x i))"
    if x': "x_ROB x' = x_ROB (set_ent c (?e s t) y3)" and s: "s \<noteq> 0"
      and R': "rings_ok (ready x \<union> (if M = {} \<and> n_is_memory (ent x c) = 0 then {c} else {})) x'" for x' s t
  proof -
    have shape: "rob_shape x'"
      using rob_shape_upd [OF sy3, of "?e s t" c] rob_shapeD(2) [OF sy cl] x' by (simp add: rob_shape_def entry_shape_def)
    have ring': "same_ring ?b (x_ROB x')" using x' E lenE len by (simp add: same_ring_def y3_def)
    have e: "ent x' c = ?e s t" "\<forall>i < ROB_SIZE. i \<noteq> c \<longrightarrow> ent x' i = ent y i"
      using x' E lenE cl by (simp_all add: y3_def)
    show ?thesis
      using board_mark [OF B c MM y(2) _ s _ _ R' ring' e shape, of t] ring' prog e cl
      by (auto simp: progress_def)
  qed
  show ?thesis
  proof (cases "n_is_memory (ent x c) = 0")
    case False
    let ?x = "set_ent c (?e inflight32 (n_event_cycle (ent y c))) y3"
    have "do_scheduling k c x = Some ?x"
      unfolding start using False upd_rob_ent [OF sy3 cl] by (simp add: y3_def)
    moreover have "board (links ?x) ?x \<and> same_ring ?b (x_ROB ?x) \<and> (\<forall>i < ROB_SIZE. progress (ent ?x i) = progress (ent x i))"
      by (rule result [OF refl]) (use R False in \<open>simp_all add: rings_ok_def INFLIGHT_def\<close>)
    ultimately show ?thesis unfolding board_inv_def by blast
  next
    case True
    define t where "t = n_event_cycle (delay (f_now k) (f_SCHEDULING_LATENCY k) (ent y c))"
    let ?x = "set_ent c (?e completed32 t) y3"
    have d: "delay (f_now k) (f_SCHEDULING_LATENCY k) ((ent y c)\<lparr>n_scheduled := completed32\<rparr>) = ?e completed32 t"
      by (simp add: delay_def t_def)
    have x4: "upd_rob c (\<lambda>e. delay (f_now k) (f_SCHEDULING_LATENCY k) (e\<lparr>n_scheduled := completed32\<rparr>)) y3 = Some ?x"
      using upd_rob_ent [OF sy3 cl] d by (simp add: y3_def)
    show ?thesis
    proof (cases "M = {}")
      case True
      have "rings_ok (ready x) ?x" using R by (simp add: rings_ok_def)
      from RTE1_push [OF this cr cl] obtain w where w: "rte_push c (x_RTE1 ?x) = Some w"
        "rings_ok (insert c (ready x)) (?x\<lparr>x_RTE1 := w\<rparr>)" by blast
      have "do_scheduling k c x = Some (?x\<lparr>x_RTE1 := w\<rparr>)"
        unfolding start using \<open>n_is_memory (ent x c) = 0\<close> x4 w(1) rdy True by simp
      moreover have "board (links (?x\<lparr>x_RTE1 := w\<rparr>)) (?x\<lparr>x_RTE1 := w\<rparr>) \<and>
          same_ring ?b (x_ROB (?x\<lparr>x_RTE1 := w\<rparr>)) \<and> (\<forall>i < ROB_SIZE. progress (ent (?x\<lparr>x_RTE1 := w\<rparr>) i) = progress (ent x i))"
        by (rule result [of _ t completed32])
          (use w(2) True \<open>n_is_memory (ent x c) = 0\<close> in \<open>simp_all add: COMPLETED_def\<close>)
      ultimately show ?thesis unfolding board_inv_def by blast
    next
      case False
      have "do_scheduling k c x = Some ?x"
        unfolding start using \<open>n_is_memory (ent x c) = 0\<close> x4 rdy False by simp
      moreover have "board (links ?x) ?x \<and> same_ring ?b (x_ROB ?x) \<and> (\<forall>i < ROB_SIZE. progress (ent ?x i) = progress (ent x i))"
        by (rule result [OF refl]) (use R False in \<open>simp_all add: rings_ok_def COMPLETED_def\<close>)
      ultimately show ?thesis unfolding board_inv_def by blast
    qed
  qed
qed

end
