(* ===== verification/Core_Backend.thy ===== *)
theory Core_Backend
  imports Core_Scoreboard
begin

text \<open>
  Scheduling, execution and completion keep the scoreboard: no assertion fails, no access leaves
  an array, and every instruction that waits for a register has a producer in flight.
\<close>

section \<open>The invariant of the back end\<close>

text \<open>An entry that is not in flight is neither translated nor fetched nor executed.\<close>

definition idle :: "o3_cpu \<Rightarrow> bool" where
  "idle x \<longleftrightarrow> (\<forall>i < ROB_SIZE. \<not> live (x_ROB x) i \<longrightarrow> progress (ent x i) = (0, 0, 0, 0))"

text \<open>\<open>ROB.next_fetch[1]\<close> stays as the constructor left it.\<close>

definition backend_inv :: "o3_cpu \<Rightarrow> bool" where
  "backend_inv x \<longleftrightarrow> board_inv x \<and> idle x \<and> snd (rob_next_fetch (x_ROB x)) = 0"

lemma backend_new: "backend_inv (o3_cpu_new tr)"
proof -
  have "progress instr_new = (0, 0, 0, 0)" by (simp add: progress_def instr_new_def)
  then have "idle (o3_cpu_new tr)"
    by (simp add: idle_def o3_cpu_new_def core_buffer_new_def ROB_SIZE_words)
  moreover have "snd (rob_next_fetch (x_ROB (o3_cpu_new tr))) = 0" by (simp add: o3_cpu_new_def core_buffer_new_def)
  ultimately show ?thesis using board_new by (simp add: backend_inv_def)
qed

lemma backend_next_fetch:
  "backend_inv x \<Longrightarrow> same_ring (x_ROB x) (x_ROB x') \<Longrightarrow> board_inv x' \<Longrightarrow> idle x' \<Longrightarrow> backend_inv x'"
  by (simp add: backend_inv_def same_ring_def)

lemma idle_frame:
  assumes "idle x" "same_ring (x_ROB x) (x_ROB x')" "\<forall>i < ROB_SIZE. \<not> live (x_ROB x) i \<longrightarrow> progress (ent x' i) = progress (ent x i)"
  shows "idle x'"
  using assms by (auto simp: idle_def same_ring_simps)

lemma same_ring_trans: "same_ring a b \<Longrightarrow> same_ring b c \<Longrightarrow> same_ring a c"
  by (simp add: same_ring_def)

lemma same_ring_refl [simp]: "same_ring b b"
  by (simp add: same_ring_def)

lemma backendD:
  assumes "backend_inv x" "i < ROB_SIZE"
  shows "rob_at x i = Some (ent x i)" "rob_shape x" "rob_ring (x_ROB x)" "board (links x) x"
  using assms rob_shapeD [of x i] by (auto simp: backend_inv_def board_inv_def board_def)

lemma schedule_loop_inv:
  assumes "backend_inv x" "\<forall>i \<in> set is. i < ROB_SIZE" "f_MAX_INSTR_DESTINATIONS k \<le> NUM_INSTR_DESTINATIONS_SPARC"
  shows "\<exists>x'. schedule_loop k is x = Some x' \<and> backend_inv x' \<and> same_ring (x_ROB x) (x_ROB x')"
  using assms(1,2)
proof (induction "is" arbitrary: x)
  case (Cons i "is")
  have i: "i < ROB_SIZE" using Cons.prems by simp
  note e = backendD [OF Cons.prems(1) i]
  show ?case
  proof (cases "n_fetched (ent x i) \<noteq> completed32 \<or> n_event_cycle (ent x i) > f_now k \<or> x_num_searched x \<ge> SCHEDULER_SIZE")
    case True
    then have "schedule_loop k (i # is) x = Some x" using e(1) by simp
    then show ?thesis using Cons.prems(1) by simp
  next
    case False
    then have "live (x_ROB x) i"
      using Cons.prems(1) i by (auto simp: backend_inv_def idle_def progress_def COMPLETED_def)
    have "\<exists>x1. (if n_scheduled (ent x i) = 0 then do_scheduling k i x else Some x) = Some x1 \<and>
        backend_inv x1 \<and> same_ring (x_ROB x) (x_ROB x1)"
    proof (cases "n_scheduled (ent x i) = 0")
      case True
      have "board_inv x" using Cons.prems(1) by (simp add: backend_inv_def)
      from do_scheduling_board [OF this \<open>live (x_ROB x) i\<close> True assms(3)] obtain x1 where
        x1: "do_scheduling k i x = Some x1" "board_inv x1" "same_ring (x_ROB x) (x_ROB x1)"
          "\<forall>i < ROB_SIZE. progress (ent x1 i) = progress (ent x i)" by blast
      then have "idle x1" using Cons.prems(1) by (auto intro: idle_frame simp: backend_inv_def)
      with x1 True backend_next_fetch [OF Cons.prems(1) x1(3)] show ?thesis by simp
    qed (use Cons.prems(1) in simp)
    then obtain x1 where x1: "(if n_scheduled (ent x i) = 0 then do_scheduling k i x else Some x) = Some x1"
      "backend_inv x1" "same_ring (x_ROB x) (x_ROB x1)" by blast
    let ?y = "x1\<lparr>x_num_searched := x_num_searched x1 + 1\<rparr>"
    have "board_inv ?y = board_inv x1" by (rule board_inv_frame) simp_all
    then have "backend_inv ?y" using x1(2) by (simp add: backend_inv_def idle_def)
    from Cons.IH [OF this] Cons.prems(2) obtain x' where
      "schedule_loop k is ?y = Some x'" "backend_inv x'" "same_ring (x_ROB ?y) (x_ROB x')" by auto
    moreover have "schedule_loop k (i # is) x = schedule_loop k is ?y"
      using False e(1) x1(1) by (auto split: if_splits)
    ultimately show ?thesis using same_ring_trans [OF x1(3)] by simp
  qed
qed simp

lemma rob_span_bound:
  assumes "rob_ring b" "unat limit \<le> ROB_SIZE" "i \<in> set (fst (rob_span b limit) @ snd (rob_span b limit))"
  shows "i < ROB_SIZE"
  using assms by (auto simp: rob_span_def rob_ring_def ROB_SIZE_words split: if_splits)

lemma schedule_instruction_inv:
  assumes b: "backend_inv x" and k: "f_MAX_INSTR_DESTINATIONS k \<le> NUM_INSTR_DESTINATIONS_SPARC"
  shows "\<exists>x'. schedule_instruction k x = Some x' \<and> backend_inv x' \<and> same_ring (x_ROB x) (x_ROB x')"
proof (cases "rob_empty (x_ROB x)")
  case False
  let ?y = "x\<lparr>x_num_searched := 0\<rparr>" and ?s = "rob_span (x_ROB x) (snd (rob_next_fetch (x_ROB x)))"
  have "board_inv ?y = board_inv x" by (rule board_inv_frame) simp_all
  then have y: "backend_inv ?y" using b by (simp add: backend_inv_def idle_def)
  have l: "unat (snd (rob_next_fetch (x_ROB x))) \<le> ROB_SIZE" using b by (simp add: backend_inv_def)
  have "\<forall>i \<in> set (fst ?s @ snd ?s). i < ROB_SIZE"
    using rob_span_bound [OF backendD(3) [OF b ROB_SIZE_words(2)] l] by blast
  from schedule_loop_inv [OF y this k] False show ?thesis
    by (simp add: schedule_instruction_def case_prod_beta)
qed (use b in \<open>simp add: schedule_instruction_def\<close>)


section \<open>Execution\<close>

text \<open>An instruction whose sources are there starts to execute.\<close>

lemma board_start:
  assumes b: "board_inv x" and c: "live (x_ROB x) c" "n_scheduled (ent x c) \<noteq> 0" "n_reg_ready (ent x c) \<noteq> 0"
      "n_executed (ent x c) = 0"
    and e: "reg_view e = reg_view ((ent x c)\<lparr>n_executed := inflight_int\<rparr>)"
    and x': "x_ROB x' = x_ROB (set_ent c e x)" and R: "rings_ok (ready x - {c}) x'"
  shows "board_inv x'" "same_ring (x_ROB x) (x_ROB x')"
proof -
  have B: "board (links x) x" using b by (simp add: board_inv_def)
  have cl: "c < ROB_SIZE" "length (rob_entry (x_ROB x)) = ROB_SIZE"
    using c(1) B by (simp_all add: live_def board_def rob_ring_def)
  have ent': "ent x' i = (if i = c then e else ent x i)" for i using x' cl by (simp add: nth_update_any)
  show r: "same_ring (x_ROB x) (x_ROB x')" using x' by (simp add: same_ring_def)
  note same_ring_simps [OF r, simp]
  note v = reg_viewD [OF e]
  let ?e = "(ent x c)\<lparr>n_executed := inflight_int\<rparr>"
  have W: "waits (links x) c = {}" using boardD(1) [OF B c(1)] c by (simp add: score_def)
  have deps: "index_deps (ent x' i) = index_deps (ent x i)" for i
    using v(5) by (simp add: ent' index_deps_def fun_eq_iff)
  have links': "links x' = links x"
    using deps v(4) c(4) by (auto simp: links_def ent' split: if_splits)
  have "score (waits (links x) i) (ent x' i) \<and> deps_ok (ent x' i)" if i: "live (x_ROB x) i" for i
  proof (cases "i = c")
    case True
    have "score {} ?e" using boardD(1) [OF B c(1)] W c(2) by (simp add: score_def)
    moreover have "deps_ok ?e" using boardD(2) [OF B c(1)] by (simp add: deps_ok_def instr_deps_def index_deps_def)
    ultimately show ?thesis using True W v(7,8) by (simp add: ent')
  qed (use boardD [OF B i] in \<open>simp add: ent'\<close>)
  moreover have "link_ok x' w" if "w \<in> links x" for w
  proof -
    have "link_ok x w" using B that by (simp add: board_def)
    then show ?thesis using v(2) c(2) by (cases w) (simp add: link_ok_def ent')
  qed
  moreover have "ready x' = ready x - {c}" using v(4) by (auto simp: ready_def ent')
  moreover have "rob_shape x'"
  proof -
    have "rob_shape (set_ent c e x)"
      using B rob_shape_upd [of x e c] boardD(4) [OF B c(1)] v(6) by (simp add: board_def entry_shape_def)
    then show ?thesis using x' by (simp add: rob_shape_def)
  qed
  ultimately show "board_inv x'" using B R by (simp add: board_inv_def board_def links')
qed

lemma idle_live:
  assumes "idle x" "live (x_ROB x) c" "x_ROB x' = x_ROB (set_ent c e x)"
  shows "idle x'"
proof (rule idle_frame [OF assms(1)])
  show "same_ring (x_ROB x) (x_ROB x')" using assms(3) by (simp add: same_ring_def)
  show "\<forall>i < ROB_SIZE. \<not> live (x_ROB x) i \<longrightarrow> progress (ent x' i) = progress (ent x i)"
    using assms(2) by (intro allI impI, case_tac "i = c") (simp_all add: assms(3))
qed

lemma ready_entry:
  assumes "c \<in> ready x"
  shows "live (x_ROB x) c" "n_scheduled (ent x c) \<noteq> 0" "n_reg_ready (ent x c) \<noteq> 0" "n_executed (ent x c) = 0"
    "n_is_memory (ent x c) = 0"
  using assms by (simp_all add: ready_def)

lemma rte_holds:
  assumes "rings_ok R x"
  shows "\<exists>xs ys. ring_holds ROB_SIZE (rte s x) xs \<and> ring_holds ROB_SIZE (rte (\<not> s) x) ys \<and> distinct (xs @ ys) \<and> set (xs @ ys) = R"
proof -
  obtain xs ys where r: "ring_holds ROB_SIZE (x_RTE0 x) xs" "ring_holds ROB_SIZE (x_RTE1 x) ys" "distinct (xs @ ys)"
    "set (xs @ ys) = R" using assms by (auto simp: rings_ok_def)
  show ?thesis
  proof (cases s)
    case True
    with r show ?thesis by - (rule exI [of _ ys], rule exI [of _ xs], auto simp: rte_def)
  next
    case False
    with r show ?thesis by - (rule exI [of _ xs], rule exI [of _ ys], auto simp: rte_def)
  qed
qed

lemma put_rte_holds:
  assumes "ring_holds ROB_SIZE w xs" "ring_holds ROB_SIZE (rte (\<not> s) x) ys" "distinct (xs @ ys)" "set (xs @ ys) = R"
  shows "rings_ok R (put_rte s w x)"
proof (cases s)
  case True
  then show ?thesis using assms unfolding rings_ok_def
    by - (rule exI [of _ ys], rule exI [of _ xs], auto simp: rte_def put_rte_def)
next
  case False
  then show ?thesis using assms unfolding rings_ok_def
    by - (rule exI [of _ xs], rule exI [of _ ys], auto simp: rte_def put_rte_def)
qed

text \<open>The first instruction of one of the arrays leaves it.\<close>

lemma start_first:
  assumes b: "backend_inv x" and v: "ring_first (rte s x) = Some v" "v < of_nat ROB_SIZE"
  shows "\<exists>x1 w. unat v \<in> ready x \<and> do_execution k (unat v) x = Some x1 \<and> ring_pop ROB_SIZE (rte s x1) = Some w \<and>
    backend_inv (put_rte s w x1) \<and> same_ring (x_ROB x) (x_ROB (put_rte s w x1))"
proof -
  have B: "board_inv x" "rings_ok (ready x) x" "rob_shape x" "idle x"
    using b by (simp_all add: backend_inv_def board_inv_def board_def)
  obtain xs ys where h: "ring_holds ROB_SIZE (rte s x) xs" "ring_holds ROB_SIZE (rte (\<not> s) x) ys" "distinct (xs @ ys)"
    "set (xs @ ys) = ready x" using rte_holds [OF B(2)] by blast
  obtain c zs where xs: "xs = c # zs" "v = of_nat c"
    using v ring_first_holds [OF h(1)] by (cases xs) (simp_all add: ROB_SIZE_def)
  then have c: "c \<in> ready x" using h(4) by auto
  note r = ready_entry [OF c]
  have cl: "c < ROB_SIZE" using r(1) by (simp add: live_def)
  then have vc: "unat v = c" by (simp add: xs unat_of_nat ROB_SIZE_def)
  define e where "e = delay (f_now k) (f_EXEC_LATENCY k) ((ent x c)\<lparr>n_executed := inflight_int\<rparr>)"
  define x1 where "x1 = (set_ent c e x)\<lparr>x_inflight_reg_executions := x_inflight_reg_executions x + 1\<rparr>"
  have x1: "do_execution k c x = Some x1" using upd_rob_ent [OF B(3) cl] by (simp add: do_execution_def x1_def e_def)
  have same: "rte t x1 = rte t x" for t by (simp add: rte_def x1_def)
  obtain w where w: "ring_pop ROB_SIZE (rte s x) = Some w" "ring_holds ROB_SIZE w zs"
    using ring_pop_holds [OF h(1) [unfolded xs]] by (auto simp: ROB_SIZE_def)
  have R: "rings_ok (ready x - {c}) (put_rte s w x1)"
    by (rule put_rte_holds [OF w(2)]) (use h xs same in auto)
  have view: "reg_view e = reg_view ((ent x c)\<lparr>n_executed := inflight_int\<rparr>)" by (simp add: e_def delay_def reg_view_def)
  have rob: "x_ROB (put_rte s w x1) = x_ROB (set_ent c e x)" by (simp add: put_rte_def x1_def)
  note board_start [OF B(1) r(1-4) view rob R]
  moreover have "idle (put_rte s w x1)" by (rule idle_live [OF B(4) r(1) rob])
  ultimately show ?thesis using c vc x1 w(1) same backend_next_fetch [OF b] by auto
qed

lemma execute_loop_inv:
  assumes "backend_inv x"
  shows "\<exists>m x'. execute_loop n s k issued x = Some (m, x') \<and> backend_inv x' \<and> same_ring (x_ROB x) (x_ROB x')"
  using assms
proof (induction n arbitrary: issued x)
  case (Suc n)
  have "rings_ok (ready x) x" using Suc.prems by (simp add: backend_inv_def board_inv_def board_def)
  then obtain xs where "ring_holds ROB_SIZE (rte s x) xs" using rte_holds by blast
  then obtain v where v: "ring_first (rte s x) = Some v" using ring_first_holds by blast
  show ?case
  proof (cases "issued < EXEC_WIDTH \<and> v < of_nat ROB_SIZE")
    case True
    from start_first [OF Suc.prems v conjunct2 [OF True], of k] obtain x1 w where
      x1: "unat v \<in> ready x" "do_execution k (unat v) x = Some x1" "ring_pop ROB_SIZE (rte s x1) = Some w"
        "backend_inv (put_rte s w x1)" "same_ring (x_ROB x) (x_ROB (put_rte s w x1))" by blast
    have e: "rob_at x (unat v) = Some (ent x (unat v))"
      using backendD(1) [OF Suc.prems] ready_entry(1) [OF x1(1)] by (simp add: live_def)
    show ?thesis
    proof (cases "n_event_cycle (ent x (unat v)) \<le> f_now k")
      case True
      from Suc.IH [OF x1(4), of "issued + 1"] obtain m x' where
        "execute_loop n s k (issued + 1) (put_rte s w x1) = Some (m, x')" "backend_inv x'"
        "same_ring (x_ROB (put_rte s w x1)) (x_ROB x')" by blast
      moreover from this(1) have "execute_loop (Suc n) s k issued x = Some (m, x')"
        using True \<open>issued < EXEC_WIDTH \<and> v < of_nat ROB_SIZE\<close> v x1(2,3) e by simp
      ultimately show ?thesis using same_ring_trans [OF x1(5)] by blast
    next
      case False
      then have "execute_loop (Suc n) s k issued x = execute_loop n s k issued x"
        using \<open>issued < EXEC_WIDTH \<and> v < of_nat ROB_SIZE\<close> v e by simp
      then show ?thesis using Suc.IH [OF Suc.prems, of issued] by simp
    qed
  qed (use Suc.prems v in auto)
qed simp

lemma execute_instruction_inv:
  assumes "backend_inv x"
  shows "\<exists>x'. execute_instruction k x = Some x' \<and> backend_inv x' \<and> same_ring (x_ROB x) (x_ROB x')"
proof (cases "rob_empty (x_ROB x)")
  case False
  obtain m x1 where x1: "execute_loop (ROB_SIZE - 1) False k 0 x = Some (m, x1)" "backend_inv x1"
    "same_ring (x_ROB x) (x_ROB x1)" using execute_loop_inv [OF assms] by blast
  obtain m2 x2 where "execute_loop (ROB_SIZE - 1) True k m x1 = Some (m2, x2)" "backend_inv x2"
    "same_ring (x_ROB x1) (x_ROB x2)" using execute_loop_inv [OF x1(2)] by blast
  then show ?thesis using False x1 same_ring_trans [OF x1(3)]
    by (simp add: execute_instruction_def del: execute_loop.simps)
qed (use assms in \<open>simp add: execute_instruction_def\<close>)


section \<open>Completion\<close>

text \<open>What the release of sources leaves as it is.\<close>

definition kept :: "o3_cpu \<Rightarrow> o3_cpu \<Rightarrow> bool" where
  "kept x x' \<longleftrightarrow> same_ring (x_ROB x) (x_ROB x') \<and> (\<forall>q < ROB_SIZE. progress (ent x' q) = progress (ent x q) \<and>
     n_registers_index_depend_on_me (ent x' q) = n_registers_index_depend_on_me (ent x q) \<and>
     n_registers_instrs_depend_on_me (ent x' q) = n_registers_instrs_depend_on_me (ent x q))"

lemma kept_refl [simp]: "kept x x"
  by (simp add: kept_def)

lemma kept_trans: "kept x y \<Longrightarrow> kept y z \<Longrightarrow> kept x z"
  unfolding kept_def by (auto intro: same_ring_trans)

lemma kept_ent:
  assumes "kept x x'" "q < ROB_SIZE"
  shows "index_deps (ent x' q) = index_deps (ent x q)" "instr_deps (ent x' q) = instr_deps (ent x q)"
    "n_executed (ent x' q) = n_executed (ent x q)"
  using assms by (auto simp: kept_def index_deps_def instr_deps_def progress_def fun_eq_iff)

lemma kept_ring:
  assumes "kept x x'"
  shows "live (x_ROB x') = live (x_ROB x)" "rob_pos (x_ROB x') = rob_pos (x_ROB x)"
  using assms by (simp_all add: kept_def same_ring_simps)

lemma kept_links: "kept x x' \<Longrightarrow> links x' = links x"
  unfolding links_def using kept_ent(1,3) [of x x'] kept_ring [of x x'] live_less [of "x_ROB x"]
  by (intro Collect_cong) (auto cong: conj_cong)

lemma kept_idle: "kept x x' \<Longrightarrow> idle x \<Longrightarrow> idle x'"
  by (erule idle_frame) (simp_all add: kept_def)

text \<open>The entry of an instruction after one of its waits is over.\<close>

definition woken :: "(nat \<times> nat) set \<Rightarrow> u32 \<Rightarrow> instr \<Rightarrow> instr" where
  "woken M s e = (let e1 = e\<lparr>n_num_reg_dependent := n_num_reg_dependent e - 1\<rparr> in
     if M = {} then e1\<lparr>n_reg_ready := 1, n_scheduled := s\<rparr> else e1)"

lemma woken_simps [simp]:
  "n_translated (woken M s e) = n_translated e" "n_instr_id (woken M s e) = n_instr_id e"
  "n_executed (woken M s e) = n_executed e" "n_fetched (woken M s e) = n_fetched e" "n_is_memory (woken M s e) = n_is_memory e"
  "n_registers_index_depend_on_me (woken M s e) = n_registers_index_depend_on_me e"
  "n_registers_instrs_depend_on_me (woken M s e) = n_registers_instrs_depend_on_me e"
  "n_scheduled (woken M s e) = (if M = {} then s else n_scheduled e)"
  "n_reg_ready (woken M s e) = (if M = {} then 1 else n_reg_ready e)"
  "n_num_reg_dependent (woken M s e) = n_num_reg_dependent e - 1"
  "n_reg_RAW_checked (woken M s e) = n_reg_RAW_checked e" "entry_shape (woken M s e) = entry_shape e"
  "deps_ok (woken M s e) = deps_ok e"
  by (simp_all add: woken_def Let_def entry_shape_def deps_ok_def instr_deps_def index_deps_def)

lemma score_woken:
  assumes "score M e" "finite M" "w \<in> M" "s \<noteq> 0" "n_scheduled e \<noteq> 0"
  shows "score (M - {w}) (woken (M - {w}) s e)" "n_num_reg_dependent e - 1 = 0 \<longleftrightarrow> M - {w} = {}"
proof -
  have "Suc (card (M - {w})) = card M" using assms(2,3) by (rule card_Suc_Diff1)
  then have c: "int (card (M - {w})) = n_num_reg_dependent e - 1" using assms(1) unfolding score_def by linarith
  then show "n_num_reg_dependent e - 1 = 0 \<longleftrightarrow> M - {w} = {}"
    using card_0_eq [OF finite_Diff [OF assms(2), of "{w}"]] by linarith
  show "score (M - {w}) (woken (M - {w}) s e)" using assms c by (auto simp: score_def)
qed

lemma board_finite:
  assumes "board W x"
  shows "finite W"
proof (rule finite_subset)
  show "W \<subseteq> {..<ROB_SIZE} \<times> {..<ROB_SIZE} \<times> {..<NUM_INSTR_SOURCES}"
    using assms by (auto simp: board_def link_ok_def live_def)
qed simp

lemma waits_finite: "finite W \<Longrightarrow> finite (waits W i)"
  by (rule finite_subset [of _ "snd ` W"]) (force simp: waits_def)+

text \<open>A wait ends: the other waits and the ready instructions stay in order.\<close>

lemma board_release:
  assumes b: "board W x" and w: "(i, p, j) \<in> W" and s: "s \<noteq> 0"
    and x': "x_ROB x' = x_ROB (set_ent i (woken (waits W i - {(p, j)}) s (ent x i)) x)"
    and R: "rings_ok (ready x \<union> (if waits W i = {(p, j)} \<and> n_is_memory (ent x i) = 0 then {i} else {})) x'"
  shows "board (W - {(i, p, j)}) x'" "kept x x'"
proof -
  let ?M = "waits W i" and ?w = "(p, j)"
  let ?e = "woken (?M - {?w}) s (ent x i)"
  have lk: "link_ok x (i, p, j)" using b w by (simp add: board_def)
  then have i: "live (x_ROB x) i" "n_scheduled (ent x i) \<noteq> 0" by (simp_all add: link_ok_def)
  note bd = boardD [OF b i(1)]
  have len: "length (rob_entry (x_ROB x)) = ROB_SIZE" using b by (simp add: board_def rob_ring_def)
  have ent': "ent x' q = (if q = i then ?e else ent x q)" for q using x' bd(3) len by (simp add: nth_update_any)
  have r: "same_ring (x_ROB x) (x_ROB x')" using x' by (simp add: same_ring_def)
  note same_ring_simps [OF r, simp]
  show "kept x x'" using r by (simp add: kept_def ent' progress_def)
  have wM: "?w \<in> ?M" using w by (simp add: waits_def)
  note sw = score_woken [OF bd(1) waits_finite [OF board_finite [OF b]] wM s i(2)]
  have waits': "waits (W - {(i, p, j)}) q = (if q = i then ?M - {?w} else waits W q)" for q
    by (auto simp: waits_def)
  have "score (waits (W - {(i, p, j)}) q) (ent x' q) \<and> deps_ok (ent x' q)" if q: "live (x_ROB x) q" for q
    using boardD(1,2) [OF b q] bd(2) sw(1) by (simp add: waits' ent')
  moreover have "link_ok x' t" if "t \<in> W - {(i, p, j)}" for t
  proof -
    have "link_ok x t" using b that by (simp add: board_def)
    then show ?thesis using s i(2) by (cases t) (simp add: link_ok_def ent')
  qed
  moreover have "ready x' = ready x \<union> (if ?M = {?w} \<and> n_is_memory (ent x i) = 0 then {i} else {})"
  proof -
    have e: "n_executed (ent x i) = 0" "n_reg_ready (ent x i) = 0" using bd(1) wM i(2) by (auto simp: score_def)
    have "?M - {?w} = {} \<longleftrightarrow> ?M = {?w}" using wM by blast
    then show ?thesis using i e s by (auto simp: ready_def ent' split: if_splits)
  qed
  moreover have "rob_shape x'"
    using rob_shape_upd [of x ?e i] b bd(4) x' by (simp add: board_def rob_shape_def)
  ultimately show "board (W - {(i, p, j)}) x'" using b R by (simp add: board_def)
qed

lemma rings_ok_frame: "x_RTE0 x' = x_RTE0 x \<Longrightarrow> x_RTE1 x' = x_RTE1 x \<Longrightarrow> rings_ok R x' = rings_ok R x"
  by (simp add: rings_ok_def)

lemma release_source_step:
  assumes b: "board W x" and p: "p < ROB_SIZE" and i: "i < ROB_SIZE" and j: "j < NUM_INSTR_SOURCES"
    and w: "(i, p, j) \<in> W \<longleftrightarrow> of_nat i \<in> index_deps (ent x p) j"
  shows "\<exists>x'. release_source p i x j = Some x' \<and> board (W - {(i, p, j)}) x' \<and> kept x x'"
proof -
  have sh: "rob_shape x" using b by (simp add: board_def)
  note P = rob_shapeD [OF sh p] and I = rob_shapeD [OF sh i]
  have "unat (of_nat i :: u16) < 512" using i by (simp add: unat_of_nat ROB_SIZE_def)
  then have found: "fs_search (n_registers_index_depend_on_me (ent x p) ! j) (of_nat i) = Some ((i, p, j) \<in> W)"
    using fs_search_correct P(2) j w by (simp add: entry_shape_def index_deps_def)
  have get: "arr_get (n_registers_index_depend_on_me (ent x p)) j = Some (n_registers_index_depend_on_me (ent x p) ! j)"
    using P(2) j by (simp add: entry_shape_def)
  show ?thesis
  proof (cases "(i, p, j) \<in> W")
    case False
    then show ?thesis using b P(1) get found by (simp add: release_source_def)
  next
    case True
    then have lk: "link_ok x (i, p, j)" using b by (simp add: board_def)
    then have lv: "live (x_ROB x) i" "n_scheduled (ent x i) \<noteq> 0" by (simp_all add: link_ok_def)
    define e1 where "e1 = (ent x i)\<lparr>n_num_reg_dependent := n_num_reg_dependent (ent x i) - 1\<rparr>"
    let ?M = "waits W i" and ?w = "(p, j)" and ?n = "n_num_reg_dependent e1"
    let ?e = "\<lambda>s. woken (?M - {?w}) s (ent x i)"
    let ?x1 = "set_ent i e1 x"
    have wM: "?w \<in> ?M" using True by (simp add: waits_def)
    have m: "?n = 0 \<longleftrightarrow> ?M - {?w} = {}"
      using score_woken(2) [OF boardD(1) [OF b lv(1)] waits_finite [OF board_finite [OF b]] wM _ lv(2), of 1] by (simp add: e1_def)
    have M1: "?M - {?w} = {} \<longleftrightarrow> ?M = {?w}" using wM by blast
    have nr: "i \<notin> ready x" using boardD(1) [OF b lv(1)] wM lv(2) by (auto simp: score_def ready_def)
    have R: "rings_ok (ready x) x" using b by (simp add: board_def)
    have sh1: "rob_shape ?x1" using rob_shape_upd [OF sh] I(2) by (simp add: entry_shape_def e1_def)
    have len: "length (rob_entry (x_ROB x)) = ROB_SIZE" using sh by (simp add: rob_shape_def)
    have m1: "n_is_memory e1 = n_is_memory (ent x i)" by (simp add: e1_def)
    have go: "release_source p i x j = (if ?n = 0
       then (if n_is_memory (ent x i) \<noteq> 0
         then Some (set_ent i ((ent ?x1 i)\<lparr>n_reg_ready := 1, n_scheduled := inflight32\<rparr>) ?x1)
         else do { w \<leftarrow> rte_push i (x_RTE0 x);
                   Some ((set_ent i ((ent ?x1 i)\<lparr>n_reg_ready := 1, n_scheduled := completed32\<rparr>) ?x1)\<lparr>x_RTE0 := w\<rparr>) })
       else Some ?x1)"
      using P(1) get found True upd_rob_ent [OF sh i] upd_rob_ent [OF sh1 i] rob_shapeD(1) [OF sh1 i] len i
      by (simp add: release_source_def e1_def [symmetric] m1)
    consider "?n \<noteq> 0" | "?n = 0" "n_is_memory (ent x i) \<noteq> 0" | "?n = 0" "n_is_memory (ent x i) = 0" by blast
    then show ?thesis
    proof cases
      case 1
      have x1: "x_ROB ?x1 = x_ROB (set_ent i (?e 1) x)" using 1 m by (simp add: woken_def Let_def e1_def)
      have "rings_ok (ready x \<union> (if ?M = {?w} \<and> n_is_memory (ent x i) = 0 then {i} else {})) ?x1"
        using 1 m M1 R by (simp add: rings_ok_def)
      from board_release [OF b True _ x1 this] 1 go show ?thesis by simp
    next
      case 2
      let ?x = "set_ent i ((ent ?x1 i)\<lparr>n_reg_ready := 1, n_scheduled := inflight32\<rparr>) ?x1"
      have x1: "x_ROB ?x = x_ROB (set_ent i (?e inflight32) x)" using 2 m len i by (simp add: woken_def Let_def e1_def)
      have "rings_ok (ready x \<union> (if ?M = {?w} \<and> n_is_memory (ent x i) = 0 then {i} else {})) ?x"
        using 2 R by (simp add: rings_ok_def)
      from board_release [OF b True _ x1 this] 2 go show ?thesis by (simp add: INFLIGHT_def)
    next
      case 3
      let ?x = "set_ent i ((ent ?x1 i)\<lparr>n_reg_ready := 1, n_scheduled := completed32\<rparr>) ?x1"
      have "rings_ok (ready x) ?x" using R by (simp add: rings_ok_def)
      from RTE0_push [OF this nr i] obtain u where u: "rte_push i (x_RTE0 ?x) = Some u"
        "rings_ok (insert i (ready x)) (?x\<lparr>x_RTE0 := u\<rparr>)" by blast
      have x1: "x_ROB (?x\<lparr>x_RTE0 := u\<rparr>) = x_ROB (set_ent i (?e completed32) x)" using 3 m len i by (simp add: woken_def Let_def e1_def)
      have "rings_ok (ready x \<union> (if ?M = {?w} \<and> n_is_memory (ent x i) = 0 then {i} else {})) (?x\<lparr>x_RTE0 := u\<rparr>)"
        using 3 m M1 u(2) by simp
      from board_release [OF b True _ x1 this] 3 go u(1) show ?thesis by (simp add: COMPLETED_def)
    qed
  qed
qed

lemma kept_deps: "kept x y \<Longrightarrow> p < ROB_SIZE \<Longrightarrow> index_deps (ent y p) = index_deps (ent x p)"
  by (rule kept_ent(1))

lemma release_sources:
  assumes b: "board W x" and p: "p < ROB_SIZE" and i: "i < ROB_SIZE"
    and w: "\<And>j. j < NUM_INSTR_SOURCES \<Longrightarrow> (i, p, j) \<in> W \<longleftrightarrow> of_nat i \<in> index_deps (ent x p) j"
  shows "\<exists>x'. fold_opt (release_source p i) x [0..<NUM_INSTR_SOURCES] = Some x' \<and>
    board {t \<in> W. \<not> (fst t = i \<and> fst (snd t) = p)} x' \<and> kept x x'"
proof -
  let ?W = "\<lambda>js. {t \<in> W. \<not> (fst t = i \<and> fst (snd t) = p \<and> snd (snd t) \<in> set js)}"
  let ?P = "\<lambda>js y. board (?W js) y \<and> kept x y"
  have "\<exists>y. fold_opt (release_source p i) x [0..<NUM_INSTR_SOURCES] = Some y \<and> ?P [0..<NUM_INSTR_SOURCES] y"
  proof (rule fold_opt_prefix [where P = ?P])
    show "?P [] x" using b by simp
  next
    fix js j rest y assume split: "[0..<NUM_INSTR_SOURCES] = js @ j # rest" and P: "?P js y"
    have "distinct (js @ j # rest)" using distinct_upt [of 0 NUM_INSTR_SOURCES] by (simp only: split)
    moreover have "j \<in> set [0..<NUM_INSTR_SOURCES]" by (simp add: split)
    ultimately have j: "j < NUM_INSTR_SOURCES" "j \<notin> set js" by simp_all
    have "(i, p, j) \<in> ?W js \<longleftrightarrow> of_nat i \<in> index_deps (ent y p) j"
      using w [OF j(1)] j(2) kept_deps [OF conjunct2 [OF P] p] by simp
    from release_source_step [OF conjunct1 [OF P] p i j(1) this] obtain y' where
      y': "release_source p i y j = Some y'" "board (?W js - {(i, p, j)}) y'" "kept y y'" by blast
    have "?W js - {(i, p, j)} = ?W (js @ [j])" by auto
    with y' kept_trans [OF conjunct2 [OF P]] show "\<exists>y'. release_source p i y j = Some y' \<and> ?P (js @ [j]) y'" by auto
  qed
  moreover have "?W [0..<NUM_INSTR_SOURCES] = {t \<in> W. \<not> (fst t = i \<and> fst (snd t) = p)}"
    using b by (auto simp: board_def link_ok_def)
  ultimately show ?thesis by simp
qed

text \<open>All the waits for a complete instruction end.\<close>

lemma reg_RAW_release_step:
  assumes b: "board (links x \<union> N) x" and p: "live (x_ROB x) p" "n_executed (ent x p) = completed_int"
    and N: "N = {(i, q, j). q = p \<and> i < ROB_SIZE \<and> j < NUM_INSTR_SOURCES \<and> of_nat i \<in> index_deps (ent x p) j}"
  shows "\<exists>x'. reg_RAW_release p x = Some x' \<and> board_inv x' \<and> kept x x'"
proof -
  let ?W = "links x \<union> N" and ?ms = "n_registers_instrs_depend_on_me (ent x p)"
  note bd = boardD [OF b p(1)]
  have small: "unat m < ROB_SIZE" if "m \<in> instr_deps (ent x p)" for m
    using bd(2) that by (simp add: deps_ok_def)
  have "{m \<in> fs_set ?ms. unat m < ROB_SIZE} = fs_set ?ms" using small by (auto simp: instr_deps_def)
  then obtain ms where ms: "fs_expand ?ms ROB_SIZE = Some ms" "sorted_wrt (<) ms" "set ms = instr_deps (ent x p)"
    using fs_expand_correct [of ?ms ROB_SIZE] bd(4)
    by (auto simp: entry_shape_def instr_deps_def ROB_SIZE_def split: if_splits)
  let ?V = "\<lambda>done :: u16 list. {t \<in> ?W. \<not> (fst t \<in> unat ` set done \<and> fst (snd t) = p)}"
  let ?P = "\<lambda>done y. board (?V done) y \<and> kept x y"
  let ?f = "\<lambda>y m. fold_opt (release_source p (unat m)) y [0..<NUM_INSTR_SOURCES]"
  have "\<exists>y. fold_opt ?f x ms = Some y \<and> ?P ms y"
  proof (rule fold_opt_prefix [where P = ?P])
    have "?V [] = ?W" by auto
    with b show "?P [] x" by (simp only: kept_refl simp_thms)
  next
    fix "done" m rest y assume split: "ms = done @ m # rest" and P: "?P done y"
    have m: "unat m < ROB_SIZE" using small split ms(3) by auto
    have "m \<notin> set done" using ms(2) by (auto simp: split sorted_wrt_append)
    then have new: "unat m \<notin> unat ` set done" by (simp add: inj_image_mem_iff word_unat_eq_iff inj_def)
    have "(unat m, p, j) \<in> ?V done \<longleftrightarrow> of_nat (unat m) \<in> index_deps (ent y p) j" if "j < NUM_INSTR_SOURCES" for j
      using that new m p(2) kept_deps [OF conjunct2 [OF P] bd(3)] by (auto simp: N links_def)
    from release_sources [OF conjunct1 [OF P] bd(3) m this] obtain y' where
      y': "?f y m = Some y'" "board {t \<in> ?V done. \<not> (fst t = unat m \<and> fst (snd t) = p)} y'" "kept y y'" by blast
    have "{t \<in> ?V done. \<not> (fst t = unat m \<and> fst (snd t) = p)} = ?V (done @ [m])" by auto
    with y' kept_trans [OF conjunct2 [OF P]] show "\<exists>y'. ?f y m = Some y' \<and> ?P (done @ [m]) y'" by auto
  qed
  then obtain y where y: "fold_opt ?f x ms = Some y" "board (?V ms) y" "kept x y" by blast
  have "?V ms = links x"
  proof (rule set_eqI)
    fix t :: "nat \<times> nat \<times> nat"
    obtain i q j where t: "t = (i, q, j)" by (cases t)
    have "i \<in> unat ` set ms" if "(i, p, j) \<in> N"
    proof -
      have "of_nat i \<in> instr_deps (ent x p)" "i < ROB_SIZE" using that bd(2) by (auto simp: N deps_ok_def)
      then show ?thesis unfolding ms(3) by (intro image_eqI [of _ _ "of_nat i"]) (simp_all add: unat_of_nat ROB_SIZE_def)
    qed
    then show "t \<in> ?V ms \<longleftrightarrow> t \<in> links x" using p(2) by (auto simp: t N links_def)
  qed
  then have "board_inv y" using y(2) kept_links [OF y(3)] by (simp add: board_inv_def)
  moreover have "reg_RAW_release p x = Some y"
    using rob_shapeD(1) [of x p] b bd(3) ms(1) y(1) by (simp add: reg_RAW_release_def iterate_set_def board_def)
  ultimately show ?thesis using y(3) by blast
qed


text \<open>An instruction in flight completes.\<close>

lemma complete_entry:
  assumes b: "board_inv x" and c: "live (x_ROB x) c" "n_executed (ent x c) = inflight_int"
    and e: "reg_view e = reg_view ((ent x c)\<lparr>n_executed := completed_int\<rparr>)"
    and x': "x_ROB x' = x_ROB (set_ent c e x)" "x_RTE0 x' = x_RTE0 x" "x_RTE1 x' = x_RTE1 x"
  shows "board (links x' \<union> {(i, q, j). q = c \<and> i < ROB_SIZE \<and> j < NUM_INSTR_SOURCES \<and> of_nat i \<in> index_deps (ent x' c) j}) x'"
    (is "board (_ \<union> ?N) x'") "same_ring (x_ROB x) (x_ROB x')" "links x' = {t \<in> links x. fst (snd t) \<noteq> c}"
proof -
  have B: "board (links x) x" using b by (simp add: board_inv_def)
  note bd = boardD [OF B c(1)]
  have len: "length (rob_entry (x_ROB x)) = ROB_SIZE" using B by (simp add: board_def rob_ring_def)
  have ent': "ent x' i = (if i = c then e else ent x i)" for i using x' bd(3) len by (simp add: nth_update_any)
  show r: "same_ring (x_ROB x) (x_ROB x')" using x' by (simp add: same_ring_def)
  note same_ring_simps [OF r, simp]
  note v = reg_viewD [OF e]
  let ?e = "(ent x c)\<lparr>n_executed := completed_int\<rparr>"
  have deps: "index_deps (ent x' i) = index_deps (ent x i)" for i
    using v(5) by (simp add: ent' index_deps_def fun_eq_iff)
  have W: "links x' \<union> ?N = links x"
    using v(4) c by (auto simp: links_def deps) (auto simp: ent' split: if_splits)
  have "\<forall>t \<in> links x'. fst (snd t) \<noteq> c" using v(4) by (auto simp: links_def ent')
  then show "links x' = {t \<in> links x. fst (snd t) \<noteq> c}" using W by auto
  have sc: "n_scheduled (ent x c) \<noteq> 0" "waits (links x) c = {}" using bd(1) c(2) by (auto simp: score_def)
  have "score (waits (links x) i) (ent x' i) \<and> deps_ok (ent x' i)" if i: "live (x_ROB x) i" for i
  proof (cases "i = c")
    case True
    have "score {} ?e" using bd(1) sc by (simp add: score_def)
    moreover have "deps_ok ?e" using bd(2) by (simp add: deps_ok_def instr_deps_def index_deps_def)
    ultimately show ?thesis using True sc(2) v(7,8) by (simp add: ent')
  qed (use boardD [OF B i] in \<open>simp add: ent'\<close>)
  moreover have "link_ok x' w" if "w \<in> links x" for w
  proof -
    have "link_ok x w" using B that by (simp add: board_def)
    then show ?thesis using v(2) sc(1) by (cases w) (simp add: link_ok_def ent')
  qed
  moreover have "ready x' = ready x" using v(4) c(2) by (auto simp: ready_def ent' split: if_splits)
  moreover have "rob_shape x'"
  proof -
    have "rob_shape (set_ent c e x)" using B rob_shape_upd [of x e c] bd(4) v(6) by (simp add: board_def entry_shape_def)
    then show ?thesis using x' by (simp add: rob_shape_def)
  qed
  ultimately have "board (links x) x'" using B x'(2,3) by (simp add: board_def rings_ok_def)
  then show "board (links x' \<union> ?N) x'" by (simp only: W)
qed

lemma release_if_producer:
  assumes b: "board (links x \<union> {(i, q, j). q = p \<and> i < ROB_SIZE \<and> j < NUM_INSTR_SOURCES \<and> of_nat i \<in> index_deps (ent x p) j}) x"
      (is "board (_ \<union> ?N) x")
    and p: "live (x_ROB x) p" "n_executed (ent x p) = completed_int"
  shows "\<exists>x'. (if n_reg_RAW_producer (ent x p) \<noteq> 0 then reg_RAW_release p x else Some x) = Some x' \<and> board_inv x' \<and> kept x x'"
proof (cases "n_reg_RAW_producer (ent x p) = 0")
  case True
  have "deps_ok (ent x p)" using boardD(2) [OF b p(1)] .
  then have "instr_deps (ent x p) = {}" "instr_deps (ent x p) = (\<Union>j < NUM_INSTR_SOURCES. index_deps (ent x p) j)"
    using True by (auto simp: deps_ok_def)
  then have "?N = {}" by auto
  with b have "board_inv x" by (simp only: board_inv_def Un_empty_right)
  then show ?thesis using True by simp
next
  case False
  with reg_RAW_release_step [OF b p refl] show ?thesis by simp
qed

text \<open>A due instruction completes, and nothing waits for it any longer.\<close>

definition due :: "core_env \<Rightarrow> instr \<Rightarrow> bool" where
  "due k e \<longleftrightarrow> (n_is_memory e = 0 \<or> n_num_mem_ops e = 0) \<and> n_executed e = inflight_int \<and> n_event_cycle e \<le> f_now k"

lemma complete_due:
  assumes b: "backend_inv x" and i: "i < ROB_SIZE" and d: "due k (ent x i)"
  shows "\<exists>x'. complete_execution k x i = Some x' \<and> backend_inv x' \<and> same_ring (x_ROB x) (x_ROB x') \<and>
    links x' = {t \<in> links x. fst (snd t) \<noteq> i} \<and> n_executed (ent x' i) = completed_int"
proof -
  have B: "board_inv x" "idle x" "rob_shape x" using b backendD(2) [OF b i] by (simp_all add: backend_inv_def)
  have d': "n_executed (ent x i) = inflight_int" using d by (simp add: due_def)
  have lv: "live (x_ROB x) i" using B(2) i d' by (auto simp: idle_def progress_def)
  define e where "e = (ent x i)\<lparr>n_executed := completed_int\<rparr>"
  define x1 where "x1 = set_ent i e x"
  define x3 where "x3 = (let x2 = (if n_is_memory e = 0
       then x1\<lparr>x_inflight_reg_executions := x_inflight_reg_executions x1 - 1\<rparr>
       else x1\<lparr>x_inflight_mem_executions := x_inflight_mem_executions x1 - 1\<rparr>)
    in x2\<lparr>x_completed_executions := x_completed_executions x2 + 1\<rparr>)"
  have x3: "x_ROB x3 = x_ROB (set_ent i e x)" "x_RTE0 x3 = x_RTE0 x" "x_RTE1 x3 = x_RTE1 x"
    by (simp_all add: x3_def x1_def Let_def)
  have len: "length (rob_entry (x_ROB x)) = ROB_SIZE" using B(3) by (simp add: rob_shape_def)
  have ei: "ent x3 i = e" "n_executed e = completed_int" using x3(1) i len by (simp_all add: e_def)
  have view: "reg_view e = reg_view ((ent x i)\<lparr>n_executed := completed_int\<rparr>)" by (simp add: e_def)
  note comp = complete_entry [OF B(1) lv d' view x3]
  have lv3: "live (x_ROB x3) i" using lv same_ring_simps(2) [OF comp(2)] by simp
  obtain x4 where x4: "(if n_reg_RAW_producer e \<noteq> 0 then reg_RAW_release i x3 else Some x3) = Some x4"
    "board_inv x4" "kept x3 x4" using release_if_producer [OF comp(1) lv3] ei by auto
  define x5 where "x5 = (if n_branch_mispredicted e \<noteq> 0
       then x4\<lparr>x_fetch_resume_cycle := f_now k + BRANCH_MISPREDICT_PENALTY\<rparr> else x4)"
  have "upd_rob i (\<lambda>e. e\<lparr>n_executed := completed_int\<rparr>) x = Some x1"
    using upd_rob_ent [OF B(3) i] by (simp add: x1_def e_def)
  moreover have "rob_at x1 i = Some e" using i len by (simp add: x1_def rob_at_def)
  ultimately have "finish_execution k i x = (do {
      x4 \<leftarrow> (if n_reg_RAW_producer e \<noteq> 0 then reg_RAW_release i x3 else Some x3);
      Some (if n_branch_mispredicted e \<noteq> 0
        then x4\<lparr>x_fetch_resume_cycle := f_now k + BRANCH_MISPREDICT_PENALTY\<rparr> else x4) })"
    by (simp add: finish_execution_def x3_def Let_def)
  then have "finish_execution k i x = Some x5" unfolding x4(1) by (simp add: x5_def)
  then have r: "complete_execution k x i = Some x5"
    using d backendD(1) [OF b i] by (simp add: complete_execution_def due_def)
  have x5: "x_ROB x5 = x_ROB x4" "board_inv x5 = board_inv x4" "links x5 = links x4"
    by (simp_all add: x5_def board_inv_frame links_def)
  have "idle x4" using kept_idle [OF x4(3) idle_live [OF B(2) lv x3(1)]] .
  then have "backend_inv x5"
    using x4(2) x5 same_ring_trans [OF comp(2)] x4(3) backend_next_fetch [OF b, of x5] by (simp add: kept_def idle_def)
  moreover have "n_executed (ent x5 i) = completed_int" using kept_ent(3) [OF x4(3) i] ei x5(1) by simp
  ultimately show ?thesis
    using r x5 kept_links [OF x4(3)] comp(3) same_ring_trans [OF comp(2)] x4(3) by (simp add: kept_def)
qed

lemma complete_execution_inv:
  assumes b: "backend_inv x" and i: "i < ROB_SIZE"
  shows "\<exists>x'. complete_execution k x i = Some x' \<and> backend_inv x' \<and> same_ring (x_ROB x) (x_ROB x')"
proof (cases "due k (ent x i)")
  case False
  then show ?thesis using b backendD(1) [OF b i] by (auto simp: complete_execution_def due_def)
qed (use complete_due [OF assms] in blast)

lemma complete_all_inv:
  assumes b: "backend_inv x"
  shows "\<exists>x'. complete_all k x = Some x' \<and> backend_inv x' \<and> same_ring (x_ROB x) (x_ROB x')"
proof (cases "x_inflight_reg_executions x > 0 \<or> x_inflight_mem_executions x > 0")
  case True
  let ?s = "rob_span (x_ROB x) (rob_tail (x_ROB x))"
  let ?P = "\<lambda>js y. backend_inv y \<and> same_ring (x_ROB x) (x_ROB y)"
  have ring: "rob_ring (x_ROB x)" using backendD(3) [OF b ROB_SIZE_words(2)] .
  have "\<exists>y. fold_opt (complete_execution k) x (fst ?s @ snd ?s) = Some y \<and> ?P (fst ?s @ snd ?s) y"
  proof (rule fold_opt_prefix [where P = ?P])
    fix js i rest y assume "fst ?s @ snd ?s = js @ i # rest" and P: "?P js y"
    then have "i \<in> set (fst ?s @ snd ?s)" by simp
    then have "i < ROB_SIZE"
      unfolding rob_span_tail [OF ring] by (auto simp: rob_idx_def ROB_SIZE_def)
    with complete_execution_inv [OF conjunct1 [OF P], of i k] same_ring_trans [OF conjunct2 [OF P]]
    show "\<exists>y'. complete_execution k y i = Some y' \<and> ?P (js @ [i]) y'" by blast
  qed (use b in simp)
  then show ?thesis using True by (auto simp: complete_all_def case_prod_beta)
qed (use b in \<open>simp add: complete_all_def\<close>)

end
