(* ===== verification/Core_Safety.thy ===== *)
theory Core_Safety
  imports Core_Backend Core_Execute
begin

text \<open>
  The core as a whole: every stage keeps the scoreboard, whatever the memory system answers and in
  whichever order the stages run.
\<close>

section \<open>What the stages of the load and store queues leave alone\<close>

text \<open>The part of the core that the scoreboard is about.\<close>

definition core_view where
  "core_view x = ((rob_SIZE (x_ROB x), rob_head (x_ROB x), rob_tail (x_ROB x), rob_occupancy (x_ROB x),
       rob_next_fetch (x_ROB x)),
     map (\<lambda>e. (reg_view e, progress e)) (rob_entry (x_ROB x)), x_RTE0 x, x_RTE1 x)"

named_theorems core_frame

lemma core_view_backend:
  assumes v: "core_view x' = core_view x"
  shows "backend_inv x' = backend_inv x" "same_ring (x_ROB x) (x_ROB x')"
proof -
  let ?f = "\<lambda>e. (reg_view e, progress e)"
  have m: "map ?f (rob_entry (x_ROB x')) = map ?f (rob_entry (x_ROB x))" using v by (simp add: core_view_def)
  have len: "length (rob_entry (x_ROB x')) = length (rob_entry (x_ROB x))" using arg_cong [OF m, of length] by simp
  show r: "same_ring (x_ROB x) (x_ROB x')" using v len by (simp add: core_view_def same_ring_def)
  have e: "?f (ent x' i) = ?f (ent x i)" if "i < length (rob_entry (x_ROB x))" for i
    using arg_cong [OF m, of "\<lambda>l. l ! i"] that len by simp
  show "backend_inv x' = backend_inv x"
  proof (cases "length (rob_entry (x_ROB x)) = ROB_SIZE")
    case True
    have "board_inv x' = board_inv x"
      by (rule board_inv_frame [OF r]) (use e True v in \<open>auto simp: core_view_def\<close>)
    moreover have "idle x' = idle x" using e True by (simp add: idle_def same_ring_simps [OF r])
    ultimately show ?thesis using r by (simp add: backend_inv_def same_ring_def)
  next
    case False
    then show ?thesis using len by (simp add: backend_inv_def board_inv_def board_def rob_shape_def)
  qed
qed

lemma core_view_simps [simp]:
  "core_view (x\<lparr>x_LQ := lq\<rparr>) = core_view x" "core_view (x\<lparr>x_SQ := sq\<rparr>) = core_view x"
  "core_view (x\<lparr>x_RTL0 := w\<rparr>) = core_view x" "core_view (x\<lparr>x_RTL1 := w\<rparr>) = core_view x"
  "core_view (x\<lparr>x_RTS0 := w\<rparr>) = core_view x" "core_view (x\<lparr>x_RTS1 := w\<rparr>) = core_view x"
  "core_view (x\<lparr>x_STA := sta\<rparr>) = core_view x" "core_view (x\<lparr>x_STA_head := h\<rparr>) = core_view x"
  "core_view (x\<lparr>x_STA_tail := h\<rparr>) = core_view x"
  "core_view (x\<lparr>x_inflight_mem_executions := m\<rparr>) = core_view x"
  "core_view (x\<lparr>x_num_searched := n\<rparr>) = core_view x"
  "core_view (x\<lparr>x_ROB := (x_ROB x)\<lparr>rob_last_read := r\<rparr>\<rparr>) = core_view x"
  "core_view (x\<lparr>x_fetch_stall := a\<rparr>) = core_view x" "core_view (x\<lparr>x_fetch_resume_cycle := c\<rparr>) = core_view x"
  "core_view (x\<lparr>x_bimodal_table := t\<rparr>) = core_view x"
  "core_view (x\<lparr>x_num_branch := n64\<rparr>) = core_view x"
  "core_view (x\<lparr>x_branch_mispredictions := n64\<rparr>) = core_view x"
  "core_view (x\<lparr>x_total_rob_occupancy_at_branch_mispredict := n64\<rparr>) = core_view x"
  "core_view (x\<lparr>x_instrs_to_read_this_cycle := n64\<rparr>) = core_view x"
  "core_view (x\<lparr>x_instr_unique_id := n64\<rparr>) = core_view x"
  "core_view (x\<lparr>x_trace_pos := pos\<rparr>) = core_view x"
  "core_view (x\<lparr>x_SQ := sq, x_STA := sta, x_STA_head := h\<rparr>) = core_view x"
  "core_view (x\<lparr>x_STA := sta, x_STA_tail := h\<rparr>) = core_view x"
  by (simp_all add: core_view_def)

lemma upd_rob_view:
  assumes "upd_rob i f x = Some x'" "\<And>e. reg_view (f e) = reg_view e" "\<And>e. progress (f e) = progress e"
  shows "core_view x' = core_view x"
proof -
  from assms(1) obtain e where i: "i < length (rob_entry (x_ROB x))" and
    x': "x' = set_ent i (f (ent x i)) x"
    by (auto simp: upd_rob_def rob_at_def arr_simps)
  have "map (\<lambda>e. (reg_view e, progress e)) ((rob_entry (x_ROB x))[i := f (ent x i)]) =
      map (\<lambda>e. (reg_view e, progress e)) (rob_entry (x_ROB x))"
    using i assms(2,3) by (simp add: map_update list_update_same_conv)
  then show ?thesis by (simp add: core_view_def x')
qed

lemma upd_lq_view [core_frame]: "upd_lq i f x = Some x' \<Longrightarrow> core_view x' = core_view x"
  by (auto simp: upd_lq_def arr_simps)

lemma upd_sq_view [core_frame]: "upd_sq i f x = Some x' \<Longrightarrow> core_view x' = core_view x"
  by (auto simp: upd_sq_def arr_simps)

lemma bind_SomeE: "Option.bind m f = Some y \<Longrightarrow> (\<And>a. m = Some a \<Longrightarrow> f a = Some y \<Longrightarrow> P) \<Longrightarrow> P"
  by (cases m) auto

lemma fold_opt_view:
  assumes "fold_opt f s xs = Some t" "\<And>s a s'. f s a = Some s' \<Longrightarrow> V s' = V s"
  shows "V t = V s"
  using assms(1)
proof (induction xs arbitrary: s)
  case (Cons a xs)
  then obtain s' where "f s a = Some s'" "fold_opt f s' xs = Some t" by (auto simp: arr_simps)
  then show ?case using Cons.IH [of s'] assms(2) [of s a s'] by simp
qed simp

lemma iterate_set_view:
  assumes "iterate_set f a n s = Some t" "\<And>m s s'. f m s = Some s' \<Longrightarrow> V s' = V s"
  shows "V t = V s"
  using assms by (auto simp: iterate_set_def arr_simps elim!: fold_opt_view)

lemma push_view [core_frame]:
  "push_RTL0 i x = Some x' \<Longrightarrow> core_view x' = core_view x"
  "push_RTL1 i x = Some x' \<Longrightarrow> core_view x' = core_view x"
  "push_RTS0 i x = Some x' \<Longrightarrow> core_view x' = core_view x"
  "push_RTS1 i x = Some x' \<Longrightarrow> core_view x' = core_view x"
  by (auto simp: push_RTL0_def push_RTL1_def push_RTS0_def push_RTS1_def arr_simps)

lemma release_load_queue_view [core_frame]: "release_load_queue i x = Some x' \<Longrightarrow> core_view x' = core_view x"
  by (auto simp: release_load_queue_def arr_simps dest!: core_frame)

lemma mem_op_done_view [core_frame]:
  assumes "mem_op_done i c x = Some x'"
  shows "core_view x' = core_view x"
proof -
  from assms obtain x1 where "upd_rob i (\<lambda>e. e\<lparr>n_num_mem_ops := n_num_mem_ops e - 1,
       n_event_cycle := (case c of Some c \<Rightarrow> c | None \<Rightarrow> n_event_cycle e)\<rparr>) x = Some x1"
    "core_view x' = core_view x1"
    by (auto simp: mem_op_done_def arr_simps)
  from upd_rob_view [OF this(1)] this(2) show ?thesis by (simp add: reg_view_def progress_def)
qed

lemma mem_RAW_loop_view: "mem_RAW_loop p c d q is x = Some x' \<Longrightarrow> core_view x' = core_view x"
proof (induction "is")
  case (Cons i "is")
  then show ?case
    by (auto simp: arr_simps reg_view_def progress_def split: if_splits dest!: core_frame upd_rob_view)
qed simp

lemma mem_RAW_dependency_view [core_frame]: "mem_RAW_dependency k p c d q x = Some x' \<Longrightarrow> core_view x' = core_view x"
  unfolding mem_RAW_dependency_def by (rule mem_RAW_loop_view)

lemma find_producer_view [core_frame]: "find_producer k c d q is x = Some x' \<Longrightarrow> core_view x' = core_view x"
  by (induction "is" arbitrary: x) (auto simp: arr_simps split: if_splits dest!: core_frame)

lemma find_forwarding_view [core_frame]: "find_forwarding r q is x = Some (x', f) \<Longrightarrow> core_view x' = core_view x"
  by (induction "is" arbitrary: x) (auto simp: arr_simps split: if_splits dest!: core_frame)

lemma lq_fill_view [core_frame]: "lq_fill k r d q x = Some x' \<Longrightarrow> core_view x' = core_view x"
  by (auto simp: lq_fill_def arr_simps reg_view_def progress_def dest!: core_frame upd_rob_view)

lemma forward_store_view [core_frame]: "forward_store k s q x = Some x' \<Longrightarrow> core_view x' = core_view x"
  by (auto simp: forward_store_def arr_simps split: if_splits dest!: core_frame)

lemma add_load_queue_view [core_frame]: "add_load_queue k r d x = Some x' \<Longrightarrow> core_view x' = core_view x"
  by (auto simp: add_load_queue_def arr_simps reg_view_def progress_def
      split: if_splits option.splits dest!: core_frame upd_rob_view)

lemma add_store_queue_view [core_frame]: "add_store_queue k r d x = Some x' \<Longrightarrow> core_view x' = core_view x"
  by (auto simp: add_store_queue_def Let_def arr_simps reg_view_def progress_def dest!: core_frame upd_rob_view)

lemma add_source_view: "add_source k r (x, ops, n) i = Some (x', ops', n') \<Longrightarrow> core_view x' = core_view x"
  by (auto simp: add_source_def arr_simps split: if_splits dest!: core_frame)

lemma add_destination_view: "add_destination k r (x, ops, n) i = Some (x', ops', n') \<Longrightarrow> core_view x' = core_view x"
  by (auto simp: add_destination_def arr_simps split: if_splits dest!: core_frame)

lemma check_and_add_lsq_view [core_frame]:
  assumes "check_and_add_lsq k r x = Some (x', m)"
  shows "core_view x' = core_view x"
proof -
  from assms obtain x1 a b c d where
    f: "fold_opt (add_source k r) (x, 0, 0) [0..<NUM_INSTR_SOURCES] = Some (x1, a, b)"
       "fold_opt (add_destination k r) (x1, a, b) [0..<f_MAX_INSTR_DESTINATIONS k] = Some (x', c, d)"
    by (auto simp: check_and_add_lsq_def arr_simps split: if_splits)
  from fold_opt_view [OF f(1), where V = "core_view \<circ> fst"] fold_opt_view [OF f(2), where V = "core_view \<circ> fst"]
  show ?thesis using add_source_view add_destination_view by fastforce
qed


lemma serve_dependent_view: "serve_dependent k r q d x j = Some x' \<Longrightarrow> core_view x' = core_view x"
  by (auto simp: serve_dependent_def Let_def arr_simps reg_view_def progress_def
      split: if_splits dest!: core_frame upd_rob_view)

lemma execute_store_view [core_frame]:
  assumes "execute_store k r q x = Some x'"
  shows "core_view x' = core_view x"
proof -
  let ?f = "\<lambda>dep x. fold_opt (serve_dependent k r q dep) x [0..<NUM_INSTR_SOURCES]"
  from assms obtain x1 x2 and p :: instr where "upd_sq q (\<lambda>l. l\<lparr>l_fetched := COMPLETED, l_event_cycle := f_now k\<rparr>) x = Some x1"
    "mem_op_done r (Some (f_now k)) x1 = Some x2" and
    x2: "(if n_is_producer p \<noteq> 0 then iterate_set ?f (n_memory_instrs_depend_on_me p) ROB_SIZE x2 else Some x2) = Some x'"
    unfolding execute_store_def by (elim bind_SomeE) (rule that)
  then have "core_view x2 = core_view x" by (simp add: mem_op_done_view upd_sq_view)
  moreover have "core_view z = core_view y" if "?f m y = Some z" for m y z
    using that by (rule fold_opt_view) (rule serve_dependent_view)
  ultimately show ?thesis using x2 iterate_set_view [of ?f _ _ x2 x' core_view] by (auto split: if_splits)
qed

lemma execute_load_view [core_frame]: "execute_load c q (s, x) = Some ((s', x'), r) \<Longrightarrow> core_view x' = core_view x"
  by (auto simp: execute_load_def arr_simps split: if_splits dest!: core_frame)

lemma issue_store_tlb_view [core_frame]: "issue_store_tlb n k c m (s, x) = Some (m', (s', x')) \<Longrightarrow> core_view x' = core_view x"
  by (induction n arbitrary: m s x) (auto simp: arr_simps split: if_splits dest!: core_frame)

lemma issue_stores_view [core_frame]: "issue_stores n k m x = Some (m', x') \<Longrightarrow> core_view x' = core_view x"
  by (induction n arbitrary: m x) (auto simp: arr_simps split: if_splits dest!: core_frame)

lemma issue_load_tlb_view [core_frame]: "issue_load_tlb n k c m (s, x) = Some (m', (s', x')) \<Longrightarrow> core_view x' = core_view x"
  by (induction n arbitrary: m s x) (auto simp: arr_simps split: if_splits dest!: core_frame)

lemma issue_loads_view [core_frame]: "issue_loads n k c m (s, x) = Some (m', (s', x')) \<Longrightarrow> core_view x' = core_view x"
  by (induction n arbitrary: m s x) (auto simp: arr_simps split: if_splits dest!: core_frame)

lemma operate_lsq_view: "operate_lsq k ic (s, x) = Some (s', x') \<Longrightarrow> core_view x' = core_view x"
  by (auto simp: operate_lsq_def arr_simps dest!: core_frame)

lemma translated_view [core_frame]:
  "store_translated p c i x = Some x' \<Longrightarrow> core_view x' = core_view x"
  "load_translated p c i x = Some x' \<Longrightarrow> core_view x' = core_view x"
  by (auto simp: store_translated_def load_translated_def arr_simps dest!: core_frame)

lemma handle_merged_translation_view [core_frame]:
  assumes "handle_merged_translation k p x = Some x'"
  shows "core_view x' = core_view x"
proof -
  from assms obtain x1 where
    "(if p_store_merged p \<noteq> 0
       then iterate_set (store_translated p (Some (f_now k))) (p_sq_deps p) (unat (ls_SIZE (x_SQ x))) x else Some x) = Some x1"
    "(if p_load_merged p \<noteq> 0
       then iterate_set (load_translated p (Some (f_now k))) (p_lq_deps p) (unat (ls_SIZE (x_LQ x1))) x1 else Some x1) = Some x'"
    by (auto simp: handle_merged_translation_def arr_simps)
  then show ?thesis
    using iterate_set_view [of "store_translated p (Some (f_now k))" _ _ x x1 core_view]
      iterate_set_view [of "load_translated p (Some (f_now k))" _ _ x1 x' core_view] translated_view
    by (auto split: if_splits)
qed

lemma load_done_view [core_frame]: "load_done a b i r x = Some x' \<Longrightarrow> core_view x' = core_view x"
  by (auto simp: load_done_def arr_simps dest!: core_frame)

lemma merged_load_view: "merged_load k i x = Some x' \<Longrightarrow> core_view x' = core_view x"
  by (auto simp: merged_load_def arr_simps dest!: core_frame)

lemma handle_merged_load_view [core_frame]: "handle_merged_load k p x = Some x' \<Longrightarrow> core_view x' = core_view x"
  unfolding handle_merged_load_def by (erule iterate_set_view) (rule merged_load_view)

lemma complete_data_fetch_view:
  "complete_data_fetch k i t (s, x) = Some (s', x') \<Longrightarrow> core_view x' = core_view x"
  by (auto simp: complete_data_fetch_def Let_def arr_simps reg_view_def progress_def
      split: if_splits dest!: core_frame upd_rob_view)

lemma translate_loop_view [core_frame]:
  "translate_loop k c n r (s, x) = Some (s', x') \<Longrightarrow> core_view x' = core_view x"
  by (induction n arbitrary: r s x) (auto simp: Let_def arr_simps split: if_splits)

lemma release_store_view: "release_store e x i = Some x' \<Longrightarrow> core_view x' = core_view x"
  unfolding release_store_def Let_def
  by (erule bind_SomeE) (auto simp: core_view_def split: if_splits elim!: bind_SomeE dest!: upd_sq_view)

lemma last_branch_result_view [core_frame]: "last_branch_result ip taken x = Some x' \<Longrightarrow> core_view x' = core_view x"
  by (auto simp: last_branch_result_def Let_def arr_simps)

lemma check_branch_view [core_frame]:
  assumes "check_branch a r x = Some x'"
  shows "core_view x' = core_view x"
proof -
  let ?x = "x\<lparr>x_num_branch := x_num_branch x + 1\<rparr>"
  let ?y = "?x\<lparr>x_branch_mispredictions := x_branch_mispredictions ?x + 1,
     x_total_rob_occupancy_at_branch_mispredict :=
       x_total_rob_occupancy_at_branch_mispredict ?x + ucast (rob_occupancy (x_ROB ?x)),
     x_instrs_to_read_this_cycle := 0, x_fetch_stall := 1\<rparr>"
  from assms obtain p x2 where x2:
    "(if n_branch_taken a \<noteq> p then upd_rob r (\<lambda>e. e\<lparr>n_branch_mispredicted := 1\<rparr>) ?y
       else Some (if p = 1 then ?x\<lparr>x_instrs_to_read_this_cycle := 0\<rparr> else ?x)) = Some x2"
    "last_branch_result (n_ip a) (n_branch_taken a) x2 = Some x'"
    unfolding check_branch_def Let_def by (elim bind_SomeE) blast
  have "core_view x2 = core_view x"
  proof (cases "n_branch_taken a \<noteq> p")
    case True
    with x2(1) have "upd_rob r (\<lambda>e. e\<lparr>n_branch_mispredicted := 1\<rparr>) ?y = Some x2" by simp
    from upd_rob_view [OF this] show ?thesis by (simp add: reg_view_def progress_def core_view_def)
  qed (use x2(1) in \<open>auto simp: core_view_def\<close>)
  then show ?thesis using last_branch_result_view [OF x2(2)] by simp
qed

lemma sta_push_view [core_frame]: "sta_push x = Some x' \<Longrightarrow> core_view x' = core_view x"
  by (auto simp: sta_push_def arr_simps)


section \<open>Fetching and the answers to it\<close>

lemma write_live:
  assumes b: "backend_inv x" and l: "live (x_ROB x) c" and u: "upd_rob c f x = Some x'"
    and f: "\<And>e. reg_view (f e) = reg_view e"
  shows "backend_inv x'" "same_ring (x_ROB x) (x_ROB x')"
proof -
  have cl: "c < ROB_SIZE" using l by (simp add: live_def)
  have x': "x' = set_ent c (f (ent x c)) x" using u upd_rob_ent [OF backendD(2) [OF b cl] cl] by simp
  have len: "length (rob_entry (x_ROB x)) = ROB_SIZE" using backendD(3) [OF b cl] by (simp add: rob_ring_def)
  show r: "same_ring (x_ROB x) (x_ROB x')" by (simp add: x' same_ring_def)
  have "board_inv x' = board_inv x"
    by (rule board_inv_frame [OF r]) (simp_all add: x' nth_update_any len f)
  moreover have "idle x'" using b idle_live [OF _ l] by (simp add: backend_inv_def x')
  ultimately show "backend_inv x'" using b backend_next_fetch [OF b r] by (simp add: backend_inv_def)
qed

lemma same_ring_live: "same_ring b b' \<Longrightarrow> live b' = live b"
  by (rule same_ring_simps)

lemma idle_entry:
  assumes "backend_inv x" "rob_at x i = Some e" "progress e \<noteq> (0, 0, 0, 0)"
  shows "live (x_ROB x) i" "e = ent x i"
proof -
  have l: "length (rob_entry (x_ROB x)) = ROB_SIZE"
    using backendD(3) [OF assms(1) ROB_SIZE_words(2)] by (simp add: rob_ring_def)
  then show "e = ent x i" using assms(2) by (simp add: rob_at_def arr_simps)
  with assms l show "live (x_ROB x) i" by (auto simp: backend_inv_def idle_def rob_at_def arr_simps)
qed

lemma fetch_loop_inv:
  assumes "backend_inv x" "fetch_loop k c n r (s, x) = Some (s', x')"
  shows "backend_inv x'"
  using assms
proof (induction n arbitrary: r s x)
  case (Suc n)
  obtain e where e: "rob_at x (unat r) = Some e" using Suc.prems(2) by (auto simp: arr_simps)
  show ?case
  proof (cases "n_translated e \<noteq> COMPLETED \<or> n_event_cycle e > f_now k \<or> n_fetched e \<noteq> 0")
    case True
    then show ?thesis using Suc.prems e by (auto simp: arr_simps split: if_splits)
  next
    case False
    obtain s1 w rq where a: "cache_add_rq c (fetch_packet k (x_cpu x) e (unat r)) s = Some (s1, w, rq)"
      using Suc.prems(2) e False by (auto simp: arr_simps)
    show ?thesis
    proof (cases "rq = - 2")
      case True
      then show ?thesis using Suc.prems e False a by simp
    next
      case rq: False
      obtain x1 where x1: "upd_rob (unat r) (\<lambda>e. e\<lparr>n_fetched := inflight32\<rparr>) x = Some x1"
        and go: "fetch_loop k c n (if r + 1 = rob_SIZE (x_ROB x) then 0 else r + 1)
           (s1, x1\<lparr>x_ROB := (x_ROB x1)\<lparr>rob_last_fetch := r\<rparr>\<rparr>) = Some (s', x')"
        using Suc.prems(2) e False a rq by (auto simp: arr_simps)
      have "live (x_ROB x) (unat r)"
        by (rule idle_entry [OF Suc.prems(1) e]) (use False in \<open>simp add: progress_def COMPLETED_def\<close>)
      from write_live [OF Suc.prems(1) this x1] have "backend_inv x1" by (simp add: reg_view_def)
      moreover have "core_view (x1\<lparr>x_ROB := (x_ROB x1)\<lparr>rob_last_fetch := r\<rparr>\<rparr>) = core_view x1" by (simp add: core_view_def)
      ultimately show ?thesis using Suc.IH [OF _ go] core_view_backend(1) by blast
    qed
  qed
qed simp

lemma fetch_instruction_inv:
  assumes b: "backend_inv x" and f: "fetch_instruction k ic (s, x) = Some (s', x')"
  shows "backend_inv x'"
proof -
  define y where "y = (if x_fetch_stall x = 1 \<and> f_now k \<ge> x_fetch_resume_cycle x \<and> x_fetch_resume_cycle x \<noteq> 0
       then x\<lparr>x_fetch_stall := 0, x_fetch_resume_cycle := 0\<rparr> else x)"
  obtain s1 x1 where t: "translate_loop k (i_ITLB ic) FETCH_WIDTH (next_entry (x_ROB y) (rob_last_read (x_ROB y))) (s, y) = Some (s1, x1)"
    "fetch_loop k (i_L1I ic) FETCH_WIDTH (next_entry (x_ROB x1) (rob_last_fetch (x_ROB x1))) (s1, x1) = Some (s', x')"
    using f by (auto simp: fetch_instruction_def y_def [symmetric] Let_def arr_simps)
  have "core_view y = core_view x" by (simp add: y_def core_view_def)
  with translate_loop_view [OF t(1)] have "core_view x1 = core_view x" by simp
  with b have "backend_inv x1" using core_view_backend(1) by blast
  then show ?thesis by (rule fetch_loop_inv [OF _ t(2)])
qed


text \<open>\<open>check_rob\<close> finds the oldest instruction in flight with the number; an empty buffer gives \<open>ROB_SIZE\<close>.\<close>

lemma first_index_find: "first_index P lo hi = find P [lo..<hi]"
proof (induction P lo hi rule: first_index.induct)
  case (1 P lo hi)
  then show ?case
    by (cases "lo < hi"; cases "P lo") (simp_all add: first_index.simps [of P lo hi] upt_conv_Cons)
qed

lemma check_rob_find:
  assumes b: "rob_ring (x_ROB x)"
  shows "check_rob x m = (if rob_occupancy (x_ROB x) = 0 then Some ROB_SIZE
    else find (\<lambda>i. n_instr_id (ent x i) = m) (map (rob_idx (x_ROB x)) [0..<unat (rob_occupancy (x_ROB x))]))"
proof -
  let ?b = "x_ROB x" and ?P = "\<lambda>e. n_instr_id e = m"
  have f: "unat (rob_SIZE ?b) = ROB_SIZE" "length (rob_entry ?b) = ROB_SIZE" "unat (rob_head ?b) < ROB_SIZE"
    "unat (rob_tail ?b) < ROB_SIZE"
    using b by (simp_all add: rob_ring_def ROB_SIZE_words)
  have s: "search_arr ?P (rob_entry ?b) lo hi = Some (find (\<lambda>i. ?P (ent x i)) [lo..<hi])" if "hi \<le> ROB_SIZE" for lo hi
    using that f(2) by (simp add: search_arr_eq first_index_find)
  have empty: "rob_occupancy ?b = 0 \<Longrightarrow> rob_head ?b = rob_tail ?b"
    using b by (simp add: rob_ring_def rob_idx_def word_unat_eq_iff)
  have span: "fst (rob_span ?b (rob_tail ?b)) @ snd (rob_span ?b (rob_tail ?b)) =
      map (rob_idx ?b) [0..<unat (rob_occupancy ?b)]" if "rob_occupancy ?b \<noteq> 0"
    using rob_span_tail [OF b] that by simp
  show ?thesis
  proof (cases "rob_occupancy ?b = 0")
    case True
    then show ?thesis using empty f(1) by (simp add: check_rob_def)
  next
    case False
    show ?thesis
      unfolding span [OF False, symmetric] using False f
      by (auto simp: check_rob_def Let_def s rob_span_def word_less_nat_alt find_append split: option.split)
  qed
qed

lemma check_rob_live:
  assumes b: "rob_ring (x_ROB x)" and c: "check_rob x m = Some i" and i: "i < ROB_SIZE"
  shows "live (x_ROB x) i" "n_instr_id (ent x i) = m"
  using c i live_idx [OF b]
  by (auto simp: check_rob_find [OF b] find_Some_iff split: if_splits)

section \<open>Answers\<close>

text \<open>The instructions that an answer for a fetch names are in flight.\<close>

definition fetch_answer_ok :: "nat \<Rightarrow> core_sys \<Rightarrow> bool" where
  "fetch_answer_ok i = (\<lambda>(s, x). case first_processed i s of None \<Rightarrow> True | Some p \<Rightarrow>
     (case fs_expand (p_rob_deps p) ROB_SIZE of None \<Rightarrow> True
      | Some ms \<Rightarrow> p_instr_merged p \<noteq> 0 \<longrightarrow> list_all (\<lambda>m. live (x_ROB x) (unat m)) ms))"

lemma instr_fetched_inv:
  assumes "backend_inv x" "live (x_ROB x) m" "instr_fetched p t c m x = Some x'"
  shows "backend_inv x' \<and> same_ring (x_ROB x) (x_ROB x')"
  using write_live [OF assms(1,2) assms(3) [unfolded instr_fetched_def]] by (simp add: reg_view_def)

lemma complete_instr_fetch_inv:
  assumes b: "backend_inv x" and ok: "fetch_answer_ok i (s, x)" and c: "complete_instr_fetch k i t (s, x) = Some (s', x')"
  shows "backend_inv x'"
proof -
  let ?f = "\<lambda>p m (y, n :: nat). do {
     z \<leftarrow> instr_fetched p t (f_now k + of_nat (n div FETCH_WIDTH)) m y; Some (z, n + 1) }"
  obtain p x1 where p: "first_processed i s = Some p" "check_rob x (p_instr_id p) = Some (packet_rob_index p)"
    "instr_fetched p t (f_now k) (packet_rob_index p) x = Some x1"
    "(if p_instr_merged p \<noteq> 0 then do { (y, _) \<leftarrow> iterate_set (?f p) (p_rob_deps p) ROB_SIZE (x1, 1); Some y }
      else Some x1) = Some x'"
    using c by (auto simp: complete_instr_fetch_def Let_def arr_simps)
  note ring = backendD(3) [OF b ROB_SIZE_words(2)]
  have lt: "packet_rob_index p < ROB_SIZE"
    using p(3) ring by (auto simp: instr_fetched_def upd_rob_def rob_at_def arr_simps rob_ring_def)
  have x1: "backend_inv x1 \<and> same_ring (x_ROB x) (x_ROB x1)"
    using instr_fetched_inv [OF b check_rob_live(1) [OF ring p(2) lt] p(3)] .
  show ?thesis
  proof (cases "p_instr_merged p = 0")
    case False
    then obtain ms n where ms: "fs_expand (p_rob_deps p) ROB_SIZE = Some ms"
      "fold_opt (\<lambda>y m. ?f p (unat m) y) (x1, 1) ms = Some (x', n)"
      using p(4) by (auto simp: iterate_set_def arr_simps)
    have lv: "live (x_ROB x) (unat m)" if "m \<in> set ms" for m
      using ok p(1) ms(1) False that by (simp add: fetch_answer_ok_def list_all_iff)
    have "backend_inv (fst (x', n)) \<and> same_ring (x_ROB x) (x_ROB (fst (x', n)))"
    proof (rule fold_opt_invariant [OF _ _ ms(2), where P = "\<lambda>y. backend_inv (fst y) \<and> same_ring (x_ROB x) (x_ROB (fst y))"])
      fix y m y' assume P: "backend_inv (fst y) \<and> same_ring (x_ROB x) (x_ROB (fst y))"
        and m: "m \<in> set ms" and step: "?f p (unat m) y = Some y'"
      obtain z n' where y: "y = (z, n')" by (cases y)
      from step obtain z' where z': "instr_fetched p t (f_now k + of_nat (n' div FETCH_WIDTH)) (unat m) z = Some z'"
        "fst y' = z'" by (auto simp: y arr_simps)
      have "live (x_ROB z) (unat m)" using lv [OF m] same_ring_live [OF conjunct2 [OF P]] by (simp add: y)
      from instr_fetched_inv [OF _ this z'(1)] P z'(2) same_ring_trans
      show "backend_inv (fst y') \<and> same_ring (x_ROB x) (x_ROB (fst y'))" by (auto simp: y)
    qed (use x1 in simp)
    then show ?thesis by simp
  qed (use p(4) x1 in simp)
qed

section \<open>Scheduling of memory instructions\<close>

lemma do_memory_scheduling_inv:
  assumes b: "backend_inv x" and e: "rob_at x i = Some e" "n_is_memory e \<noteq> 0" "n_fetched e = completed32"
      "n_reg_ready e \<noteq> 0" "n_scheduled e = inflight32"
    and d: "do_memory_scheduling k i x = Some x'"
  shows "backend_inv x'"
proof -
  let ?f = "\<lambda>e. e\<lparr>n_scheduled := completed32, n_executed := (if n_executed e = 0 then inflight_int else n_executed e)\<rparr>"
  obtain x1 m x2 where x1: "check_and_add_lsq k i x = Some (x1, m)"
    and x2: "(if m = 0 then upd_rob i ?f x1 else Some x1) = Some x2"
    and x': "core_view x' = core_view x2"
    using d by (auto simp: do_memory_scheduling_def arr_simps)
  note v = core_view_backend [OF check_and_add_lsq_view [OF x1]]
  have b1: "backend_inv x1" using v(1) b by simp
  have lv: "live (x_ROB x) i" "e = ent x i"
    by (rule idle_entry [OF b e(1)], simp add: e(3) progress_def COMPLETED_def)
       (rule idle_entry [OF b e(1)], simp add: e(3) progress_def COMPLETED_def)
  then have lv1: "live (x_ROB x1) i" and il: "i < ROB_SIZE" using same_ring_live [OF v(2)] by (simp_all add: live_def)
  have len: "i < length (rob_entry (x_ROB x))" "length (rob_entry (x_ROB x1)) = length (rob_entry (x_ROB x))"
    using backendD(3) [OF b il] backendD(3) [OF b1 il] il by (simp_all add: rob_ring_def)
  have "map (\<lambda>e. (reg_view e, progress e)) (rob_entry (x_ROB x1)) ! i = map (\<lambda>e. (reg_view e, progress e)) (rob_entry (x_ROB x)) ! i"
    using check_and_add_lsq_view [OF x1] by (simp add: core_view_def)
  then have rv: "reg_view (ent x1 i) = reg_view (ent x i)" using len by simp
  note r = reg_viewD [OF rv]
  have "backend_inv x2"
  proof (cases "m = 0")
    case True
    then have x2': "x2 = set_ent i (?f (ent x1 i)) x1"
      using x2 upd_rob_ent [OF backendD(2) [OF b1 il] il] by simp
    have idle2: "idle x2" by (rule idle_live [OF _ lv1]) (use b1 x2' in \<open>simp_all add: backend_inv_def\<close>)
    have sch: "n_scheduled (ent x1 i) \<noteq> 0" using r(2) e(5) lv(2) by (simp add: INFLIGHT_def)
    show ?thesis
    proof (cases "n_executed (ent x1 i) = 0")
      case ex: True
      have "reg_view (?f (ent x1 i)) = reg_view ((ent x1 i)\<lparr>n_executed := inflight_int\<rparr>)"
        using ex sch by (simp add: reg_view_def COMPLETED_def)
      moreover have "rings_ok (Core_Scoreboard.ready x1 - {i}) x2"
      proof -
        have "i \<notin> Core_Scoreboard.ready x1" using r(1) e(2) lv(2) by (simp add: Core_Scoreboard.ready_def)
        then show ?thesis using b1 x2' by (simp add: backend_inv_def board_inv_def board_def rings_ok_def)
      qed
      moreover have "x_ROB x2 = x_ROB (set_ent i (?f (ent x1 i)) x1)" by (simp add: x2')
      ultimately have "board_inv x2" "same_ring (x_ROB x1) (x_ROB x2)"
        using board_start [OF _ lv1 sch, of "?f (ent x1 i)" x2] ex r(3) e(4) lv(2) b1 by (simp_all add: backend_inv_def)
      then show ?thesis using backend_next_fetch [OF b1 _ _ idle2] by simp
    next
      case ex: False
      have "core_view x2 = core_view x1"
      proof -
        have "map (\<lambda>e. (reg_view e, progress e)) ((rob_entry (x_ROB x1))[i := ?f (ent x1 i)]) =
            map (\<lambda>e. (reg_view e, progress e)) (rob_entry (x_ROB x1))"
          using len ex sch by (simp add: map_update list_update_same_conv reg_view_def progress_def COMPLETED_def)
        then show ?thesis by (simp add: core_view_def x2')
      qed
      then show ?thesis using core_view_backend(1) b1 by blast
    qed
  qed (use x2 b1 in simp)
  then show ?thesis using core_view_backend(1) [OF x'] by simp
qed

lemma schedule_memory_loop_inv:
  "backend_inv x \<Longrightarrow> schedule_memory_loop k is x = Some x' \<Longrightarrow> backend_inv x'"
proof (induction "is" arbitrary: x)
  case (Cons i "is")
  obtain e where e: "rob_at x i = Some e" using Cons.prems(2) by (auto simp: arr_simps)
  show ?case
  proof (cases "n_is_memory e = 0")
    case True
    then show ?thesis using Cons.prems Cons.IH [OF Cons.prems(1)] e by simp
  next
    case mem: False
    show ?thesis
    proof (cases "n_fetched e \<noteq> completed32 \<or> n_event_cycle e > f_now k \<or> x_num_searched x \<ge> SCHEDULER_SIZE")
      case True
      then show ?thesis using Cons.prems e mem by simp
    next
      case False
      obtain x1 where x1: "(if n_is_memory e \<noteq> 0 \<and> n_reg_ready e \<noteq> 0 \<and> n_scheduled e = inflight32
         then do_memory_scheduling k i x else Some x) = Some x1" "schedule_memory_loop k is x1 = Some x'"
        using Cons.prems(2) e mem False by (auto simp: arr_simps)
      have "backend_inv x1"
        using x1(1) Cons.prems(1) False do_memory_scheduling_inv [OF Cons.prems(1) e mem] by (auto split: if_splits)
      then show ?thesis using Cons.IH x1(2) by blast
    qed
  qed
qed simp

lemma schedule_memory_instruction_inv:
  assumes "backend_inv x" "schedule_memory_instruction k x = Some x'"
  shows "backend_inv x'"
proof (cases "rob_empty (x_ROB x)")
  case False
  let ?y = "x\<lparr>x_num_searched := 0\<rparr>"
  obtain x1 where x1: "schedule_memory_loop k (fst (rob_span (x_ROB x) (rob_next_schedule (x_ROB x)))) ?y = Some x1"
    "schedule_memory_loop k (snd (rob_span (x_ROB x) (rob_next_schedule (x_ROB x)))) x1 = Some x'"
    using assms(2) False by (auto simp: schedule_memory_instruction_def case_prod_beta arr_simps)
  have "backend_inv ?y" using assms(1) core_view_backend(1) [of ?y x] by simp
  then show ?thesis using schedule_memory_loop_inv x1 by blast
qed (use assms in \<open>simp add: schedule_memory_instruction_def\<close>)


section \<open>A new instruction\<close>

definition fresh_instr :: "instr \<Rightarrow> bool" where
  "fresh_instr a \<longleftrightarrow> entry_shape a \<and> n_scheduled a = 0 \<and> n_executed a = 0 \<and> n_num_reg_dependent a = 0 \<and>
     (\<forall>j < NUM_INSTR_SOURCES. n_reg_RAW_checked a ! j = 0) \<and> instr_deps a = {} \<and>
     (\<forall>j < NUM_INSTR_SOURCES. index_deps a j = {})"

lemma freshD:
  assumes "fresh_instr a"
  shows "score {} a" "deps_ok a" "entry_shape a" "n_scheduled a = 0" "\<And>j. j < NUM_INSTR_SOURCES \<Longrightarrow> index_deps a j = {}"
  using assms by (simp_all add: fresh_instr_def score_def deps_ok_def)

lemma fs_set_new: "fs_set fastset_new = {}"
  using fs_new_inv by (simp add: fs_new_inv)

text \<open>The part of an instruction that copying the operands does not change.\<close>

definition decode_view where
  "decode_view = (\<lambda>(x, a). (core_view x, x_instr_unique_id x, n_ip a, n_instr_id a,
     (length (n_destination_registers a), length (n_source_registers a)),
     (n_reg_RAW_checked a, n_registers_index_depend_on_me a, n_registers_instrs_depend_on_me a),
     (n_scheduled a, n_executed a, n_num_reg_dependent a)))"

lemma copy_destination_view: "copy_destination t (x, a) i = Some (x', a') \<Longrightarrow> decode_view (x', a') = decode_view (x, a)"
proof -
  assume c: "copy_destination t (x, a) i = Some (x', a')"
  let ?a = "\<lambda>r m. a\<lparr>n_destination_registers := (n_destination_registers a)[i := r],
       n_destination_memory := (n_destination_memory a)[i := m],
       n_destination_virtual_address := (n_destination_virtual_address a)[i := m],
       n_num_reg_ops := n_num_reg_ops a + (if r \<noteq> 0 then 1 else 0),
       n_num_mem_ops := n_num_mem_ops a + (if m \<noteq> 0 then 1 else 0)\<rparr>"
  from c obtain r m y where
    y: "(if m \<noteq> 0 \<and> n_num_mem_ops (?a r m) > 0 then sta_push x else Some x) = Some y" "Some (y, ?a r m) = Some (x', a')"
    unfolding copy_destination_def prod.case Let_def by (elim bind_SomeE) (rule that)
  then have a': "a' = ?a r m" and x': "x' = x \<or> sta_push x = Some x'" by (auto split: if_splits)
  from x' have "core_view x' = core_view x" "x_instr_unique_id x' = x_instr_unique_id x"
    using sta_push_view [of x x'] by (auto simp: sta_push_def arr_simps)
  then show ?thesis by (simp add: decode_view_def a')
qed

lemma copy_source_view: "copy_source t a i = Some a' \<Longrightarrow> decode_view (x, a') = decode_view (x, a)"
  by (auto simp: copy_source_def arr_simps decode_view_def)

lemma decode_instr_fresh:
  assumes "decode_instr k t x = Some (x', a)"
  shows "core_view x' = core_view x" "fresh_instr a" "n_ip a = tr_ip t" "n_instr_id a = x_instr_unique_id x"
    "x_instr_unique_id x' = x_instr_unique_id x"
proof -
  let ?a0 = "instr_new\<lparr>n_instr_id := x_instr_unique_id x, n_ip := tr_ip t,
       n_is_branch := tr_is_branch t, n_branch_taken := tr_branch_taken t,
       n_asid := (case tr_asid t of Some a \<Rightarrow> a | None \<Rightarrow> (ucast (x_cpu x), ucast (x_cpu x)))\<rparr>"
  obtain a1 a2 where f: "fold_opt (copy_destination t) (x, ?a0) [0..<f_MAX_INSTR_DESTINATIONS k] = Some (x', a1)"
    "fold_opt (copy_source t) a1 [0..<NUM_INSTR_SOURCES] = Some a2"
    and a: "a = (if n_num_mem_ops a2 > 0 then a2\<lparr>n_is_memory := 1\<rparr> else a2)"
    using assms by (auto simp: decode_instr_def Let_def arr_simps)
  have "decode_view (x', a1) = decode_view (x, ?a0)"
    by (rule fold_opt_view [OF f(1)]) (metis copy_destination_view prod.exhaust)
  moreover have "decode_view (x', a2) = decode_view (x', a1)"
    by (rule fold_opt_view [OF f(2), where V = "\<lambda>a. decode_view (x', a)"]) (rule copy_source_view)
  moreover have "decode_view (x', a) = decode_view (x', a2)" by (simp add: a decode_view_def)
  ultimately have v: "decode_view (x', a) = decode_view (x, ?a0)" by simp
  show "core_view x' = core_view x" "n_ip a = tr_ip t" "n_instr_id a = x_instr_unique_id x"
    "x_instr_unique_id x' = x_instr_unique_id x"
    using v by (simp_all add: decode_view_def)
  show "fresh_instr a"
    using v fs_new_inv
    by (simp add: decode_view_def fresh_instr_def entry_shape_def instr_deps_def index_deps_def instr_new_def)
qed

lemma bump_tail:
  assumes "unat (t :: u32) < ROB_SIZE"
  shows "unat (if t + 1 \<ge> of_nat ROB_SIZE then 0 else t + 1) = (unat t + 1) mod ROB_SIZE"
proof -
  have u: "unat (t + 1) = unat t + 1"
    using assms by (intro unat_inc [of t "of_nat ROB_SIZE"]) (simp add: word_less_nat_alt ROB_SIZE_def)
  show ?thesis using assms u by (auto simp: word_le_nat_alt ROB_SIZE_def mod_if)
qed

lemma occupancy_inc:
  assumes "unat (n :: u32) < ROB_SIZE"
  shows "unat (n + 1) = unat n + 1"
  using assms by (intro unat_inc [of n "of_nat ROB_SIZE"]) (simp add: word_less_nat_alt ROB_SIZE_def)

text \<open>An instruction enters the buffer at its tail.\<close>

lemma add_to_rob_inv:
  assumes b: "backend_inv x" and a: "fresh_instr a" "n_ip a \<noteq> 0" and room: "unat (rob_occupancy (x_ROB x)) < ROB_SIZE"
  shows "\<exists>x'. add_to_rob k a x = Some (x', unat (rob_tail (x_ROB x))) \<and> backend_inv x' \<and>
    unat (rob_occupancy (x_ROB x')) = unat (rob_occupancy (x_ROB x)) + 1 \<and>
    (\<forall>i. live (x_ROB x') i \<longleftrightarrow> live (x_ROB x) i \<or> i = unat (rob_tail (x_ROB x)))"
proof -
  let ?b = "x_ROB x" and ?e = "a\<lparr>n_event_cycle := f_now k\<rparr>"
  let ?t = "unat (rob_tail ?b)" and ?o = "unat (rob_occupancy ?b)"
  define b' where "b' = ?b\<lparr>rob_entry := (rob_entry ?b)[?t := ?e], rob_occupancy := rob_occupancy ?b + 1,
       rob_tail := (if rob_tail ?b + 1 \<ge> rob_SIZE ?b then 0 else rob_tail ?b + 1)\<rparr>"
  define x' where "x' = x\<lparr>x_ROB := b'\<rparr>"
  have B: "board (links x) x" and ring: "rob_ring ?b" and idle: "idle x" and sh: "rob_shape x"
    using b by (simp_all add: backend_inv_def board_inv_def board_def)
  have t: "?t = rob_idx ?b ?o" "?t < ROB_SIZE" using ring by (simp_all add: rob_ring_def)
  have len: "length (rob_entry ?b) = ROB_SIZE" "rob_SIZE ?b = of_nat ROB_SIZE" using ring by (simp_all add: rob_ring_def)
  have pt: "rob_pos ?b ?t = ?o" using rob_pos_idx [OF ring room] t(1) by simp
  then have tl: "\<not> live ?b ?t" by (simp add: live_def)
  have pos: "rob_pos b' = rob_pos ?b" and occ: "unat (rob_occupancy b') = ?o + 1"
    using occupancy_inc [OF room] by (simp_all add: b'_def rob_pos_def fun_eq_iff)
  have lv: "live b' i \<longleftrightarrow> live ?b i \<or> i = ?t" for i
  proof -
    have "i = ?t" if "i < ROB_SIZE" "rob_pos ?b i = ?o"
      using rob_idx_pos [OF ring that(1)] that(2) t(1) by simp
    then show ?thesis using pt t(2) by (auto simp: live_def pos occ less_Suc_eq)
  qed
  have ring': "rob_ring b'"
  proof -
    have "rob_idx b' (?o + 1) = (?t + 1) mod ROB_SIZE"
      using t(1) by (simp add: rob_idx_def b'_def mod_simps)
    then show ?thesis using ring occ bump_tail [OF t(2)] room len
      by (simp add: rob_ring_def b'_def)
  qed
  have xr: "x_ROB x' = b'" by (simp add: x'_def)
  have ent': "rob_entry b' ! i = (if i = ?t then ?e else ent x i)" for i using t(2) len by (simp add: b'_def nth_update_any)
  have fe: "fresh_instr ?e" using a(1) by (simp add: fresh_instr_def entry_shape_def instr_deps_def index_deps_def)
  note f = freshD [OF fe]
  have links': "links x' = links x" using f(5) tl by (auto simp: links_def ent' lv xr split: if_splits)
  have wt: "waits (links x) ?t = {}" using B tl by (auto simp: waits_def board_def link_ok_def)
  have "score (waits (links x) i) (ent x' i) \<and> deps_ok (ent x' i)" if "live b' i" for i
    using that boardD(1,2) [OF B] f(1,2) wt by (cases "i = ?t") (auto simp: ent' lv xr)
  moreover have "link_ok x' w" if "w \<in> links x" for w
  proof -
    have "link_ok x w" using B that by (simp add: board_def)
    then show ?thesis using tl by (cases w) (auto simp: link_ok_def ent' xr lv pos)
  qed
  moreover have "Core_Scoreboard.ready x' = Core_Scoreboard.ready x"
    using f(4) tl by (auto simp: Core_Scoreboard.ready_def ent' xr lv split: if_splits)
  moreover have "rob_shape x'" using sh f(3) len by (auto simp: rob_shape_def ent' xr) (simp add: b'_def)
  moreover have "rings_ok R x' = rings_ok R x" for R by (simp add: rings_ok_def x'_def)
  ultimately have "board_inv x'" using B ring' by (simp add: board_inv_def board_def links' xr)
  moreover have "idle x'" using idle by (auto simp: idle_def ent' xr lv)
  ultimately have inv: "backend_inv x'" using b by (simp add: backend_inv_def x'_def b'_def)
  have "rob_at x ?t = Some (ent x ?t)" "n_instr_id (ent x ?t) = 0"
    using t(2) len idle tl by (simp_all add: rob_at_def idle_def progress_def)
  then have "add_to_rob k a x = Some (x', ?t)" using a(2) by (simp add: add_to_rob_def x'_def b'_def Let_def)
  then show ?thesis using inv occ lv by (simp add: x'_def)
qed


lemma add_to_rob_ip: "add_to_rob k a x = Some r \<Longrightarrow> n_ip a \<noteq> 0"
  by (auto simp: add_to_rob_def Let_def arr_simps)

lemma read_instr_inv:
  assumes b: "backend_inv x" and r: "read_instr k t n x = Some (x', m, go)"
  shows "backend_inv x'"
proof -
  obtain x1 a where d: "decode_instr k t x = Some (x1, a)" using r by (auto simp: read_instr_def arr_simps)
  note f = decode_instr_fresh [OF d]
  have b1: "backend_inv x1" using b core_view_backend(1) [OF f(1)] by simp
  have S: "rob_SIZE (x_ROB x1) = of_nat ROB_SIZE" using backendD(3) [OF b1 ROB_SIZE_words(2)] by (simp add: rob_ring_def)
  show ?thesis
  proof (cases "rob_occupancy (x_ROB x1) < rob_SIZE (x_ROB x1)")
    case False
    then have "core_view x' = core_view x1" using r d by (auto simp: read_instr_def arr_simps)
    then show ?thesis using b1 core_view_backend(1) by blast
  next
    case True
    then obtain y i where y: "add_to_rob k a x1 = Some (y, i)"
      "x' = y\<lparr>x_instr_unique_id := x_instr_unique_id y + 1\<rparr> \<or>
       (\<exists>y'. check_branch a i y = Some y' \<and> x' = y'\<lparr>x_instr_unique_id := x_instr_unique_id y' + 1\<rparr>)"
      using r d by (auto simp: read_instr_def arr_simps split: if_splits)
    have "unat (rob_occupancy (x_ROB x1)) < ROB_SIZE" using True by (simp add: S word_less_nat_alt ROB_SIZE_words)
    then have "backend_inv y" using add_to_rob_inv [OF b1 f(2) add_to_rob_ip [OF y(1)], of k] y(1) by auto
    moreover have "core_view x' = core_view y" using y(2) check_branch_view [of a i y] by auto
    ultimately show ?thesis using core_view_backend(1) [of x' y] by simp
  qed
qed

lemma read_loop_inv:
  assumes "read_loop k n x = Some x'" "backend_inv x"
  shows "backend_inv x'"
proof -
  have "backend_inv x \<longrightarrow> backend_inv x'"
  proof (rule read_loop.raw_induct [of "\<lambda>k n x x'. backend_inv x \<longrightarrow> backend_inv x'" "((k, n), x)" x', unfolded prod.case],
      intro impI)
    fix loop :: "core_env \<Rightarrow> u32 \<Rightarrow> o3_cpu \<Rightarrow> o3_cpu option" and k n x x'
    assume IH: "\<And>k n x x'. loop k n x = Some x' \<Longrightarrow> backend_inv x \<longrightarrow> backend_inv x'"
      and step: "(if x_trace_pos x < length (x_trace x)
      then do {
        (y, n, go) \<leftarrow> read_instr k (x_trace x ! x_trace_pos x) n (x\<lparr>x_trace_pos := x_trace_pos x + 1\<rparr>);
        if go then loop k n y else Some y }
      else loop k n (x\<lparr>x_trace_pos := 0\<rparr>)) = Some x'" and b: "backend_inv x"
  show "backend_inv x'"
  proof (cases "x_trace_pos x < length (x_trace x)")
    case True
    let ?x = "x\<lparr>x_trace_pos := x_trace_pos x + 1\<rparr>"
    obtain y m go where y: "read_instr k (x_trace x ! x_trace_pos x) n ?x = Some (y, m, go)"
      "(if go then loop k m y else Some y) = Some x'"
      using step True by (auto simp: arr_simps)
    have "backend_inv ?x" using b core_view_backend(1) [of ?x x] by simp
    then have "backend_inv y" by (rule read_instr_inv [OF _ y(1)])
    then show ?thesis using y(2) IH by (auto split: if_splits)
  next
    case False
    let ?x = "x\<lparr>x_trace_pos := 0\<rparr>"
    have "backend_inv ?x" using b core_view_backend(1) [of ?x x] by simp
    then show ?thesis using IH [of k n ?x x'] step False by simp
  qed
  qed (rule assms(1))
  then show ?thesis using assms(2) by blast
qed

lemma handle_branch_inv:
  assumes "backend_inv x" "handle_branch k x = Some x'"
  shows "backend_inv x'"
proof -
  let ?x = "x\<lparr>x_instrs_to_read_this_cycle := of_nat FETCH_WIDTH\<rparr>"
  have "backend_inv ?x" using assms(1) core_view_backend(1) [of ?x x] by simp
  then show ?thesis using assms(2) read_loop_inv by (simp add: handle_branch_def)
qed

section \<open>Retirement\<close>

lemma bump_head:
  assumes "unat (h :: u32) < ROB_SIZE"
  shows "unat (if h + 1 = of_nat ROB_SIZE then 0 else h + 1) = (unat h + 1) mod ROB_SIZE"
proof -
  have u: "unat (h + 1) = unat h + 1"
    using assms by (intro unat_inc [of h "of_nat ROB_SIZE"]) (simp add: word_less_nat_alt ROB_SIZE_def)
  then have "h + 1 = of_nat ROB_SIZE \<longleftrightarrow> unat h + 1 = ROB_SIZE"
    using ROB_SIZE_words(1) by (simp add: word_unat_eq_iff)
  then show ?thesis using assms u by (auto simp: mod_if)
qed

text \<open>The complete instruction at the head leaves the buffer.\<close>

lemma release_rob_inv:
  assumes b: "backend_inv x" and c: "n_executed (ent x (unat (rob_head (x_ROB x)))) = completed_int"
  shows "\<exists>x'. release_rob x = Some x' \<and> backend_inv x' \<and>
    unat (rob_occupancy (x_ROB x')) = unat (rob_occupancy (x_ROB x)) - 1 \<and>
    unat (rob_head (x_ROB x')) = (unat (rob_head (x_ROB x)) + 1) mod ROB_SIZE \<and>
    (\<forall>i. live (x_ROB x') i \<longleftrightarrow> live (x_ROB x) i \<and> i \<noteq> unat (rob_head (x_ROB x)))"
proof -
  let ?b = "x_ROB x"
  let ?h = "unat (rob_head ?b)" and ?o = "unat (rob_occupancy ?b)"
  define b' where "b' = ?b\<lparr>rob_entry := (rob_entry ?b)[?h := instr_new],
       rob_head := (if rob_head ?b + 1 = rob_SIZE ?b then 0 else rob_head ?b + 1),
       rob_occupancy := rob_occupancy ?b - 1\<rparr>"
  define x' where "x' = x\<lparr>x_ROB := b', x_completed_executions := x_completed_executions x - 1,
       x_num_retired := x_num_retired x + 1\<rparr>"
  have xr: "x_ROB x' = b'" by (simp add: x'_def)
  have B: "board (links x) x" and ring: "rob_ring ?b" and idle: "idle x" and sh: "rob_shape x"
    using b by (simp_all add: backend_inv_def board_inv_def board_def)
  have h: "?h < ROB_SIZE" and len: "length (rob_entry ?b) = ROB_SIZE" "rob_SIZE ?b = of_nat ROB_SIZE"
    using ring by (simp_all add: rob_ring_def)
  have ph: "rob_pos ?b ?h = 0" using h by (simp add: rob_pos_def)
  have hl: "live ?b ?h" using idle h c by (auto simp: idle_def progress_def)
  then have o: "0 < ?o" using ph by (simp add: live_def)
  have occ: "unat (rob_occupancy b') = ?o - 1" using o by (simp add: b'_def unat_minus_one unat_gt_0)
  have head: "unat (rob_head b') = (?h + 1) mod ROB_SIZE" using bump_head [OF h] len by (simp add: b'_def)
  have idx: "rob_idx b' n = rob_idx ?b (n + 1)" for n
    unfolding rob_idx_def head by (simp add: mod_simps add.commute add.left_commute)
  have ring': "rob_ring b'"
    using ring o occ idx [of "?o - 1"] head by (simp add: rob_ring_def b'_def) (simp add: le_diff_conv)
  have pos: "rob_pos b' i = rob_pos ?b i - 1" "0 < rob_pos ?b i" if "i < ROB_SIZE" "i \<noteq> ?h" for i
  proof -
    have i: "rob_idx ?b (rob_pos ?b i) = i" by (rule rob_idx_pos [OF ring that(1)])
    show p: "0 < rob_pos ?b i"
      using i that(2) h by (cases "rob_pos ?b i") (auto simp: rob_idx_def)
    have "rob_idx b' (rob_pos ?b i - 1) = i" using i p idx by simp
    then show "rob_pos b' i = rob_pos ?b i - 1"
      using rob_pos_idx [OF ring' less_imp_diff_less [OF rob_pos_less, of ?b i 1]] by simp
  qed
  have pos_h: "rob_pos b' ?h = ROB_SIZE - 1"
  proof -
    have "rob_idx b' (ROB_SIZE - 1) = ?h" unfolding idx using h by (simp add: rob_idx_def ROB_SIZE_def)
    then show ?thesis using rob_pos_idx [OF ring', of "ROB_SIZE - 1"] by (simp add: ROB_SIZE_def)
  qed
  have lv: "live b' i \<longleftrightarrow> live ?b i \<and> i \<noteq> ?h" for i
  proof (cases "i = ?h")
    case True
    have "?o \<le> ROB_SIZE" using ring by (simp add: rob_ring_def)
    then have "\<not> rob_pos b' ?h < ?o - 1" unfolding pos_h by linarith
    then show ?thesis using True by (simp add: live_def occ)
  next
    case False
    then show ?thesis using pos [of i] by (auto simp: live_def occ)
  qed
  have ent': "rob_entry b' ! i = (if i = ?h then instr_new else ent x i)" for i
    using h len by (simp add: b'_def nth_update_any)
  have links': "links x' = links x" using c by (auto simp: links_def ent' lv xr split: if_splits)
  have "link_ok x' w" if "w \<in> links x" for w
  proof -
    obtain i p j where w: "w = (i, p, j)" by (cases w)
    have "link_ok x w" using B that by (simp add: board_def)
    then have k: "live ?b i" "live ?b p" "j < NUM_INSTR_SOURCES" "rob_pos ?b p < rob_pos ?b i" "n_scheduled (ent x i) \<noteq> 0"
      by (simp_all add: link_ok_def w)
    have "i \<noteq> ?h" using k(4) ph by auto
    moreover have "p \<noteq> ?h" using that c by (auto simp: links_def w)
    ultimately show ?thesis using k pos [OF live_less [OF k(1)]] pos [OF live_less [OF k(2)]]
      by (simp add: link_ok_def w xr lv ent' diff_less_mono)
  qed
  moreover have "score (waits (links x) i) (ent x' i) \<and> deps_ok (ent x' i)" if "live b' i" for i
    using that boardD(1,2) [OF B] by (simp add: ent' lv xr)
  moreover have "Core_Scoreboard.ready x' = Core_Scoreboard.ready x"
    using c by (auto simp: Core_Scoreboard.ready_def ent' xr lv split: if_splits)
  moreover have "rob_shape x'"
  proof -
    have "entry_shape instr_new" by (simp add: entry_shape_def instr_new_def fs_new_inv)
    then show ?thesis using sh by (auto simp: rob_shape_def ent' xr) (simp add: b'_def)
  qed
  moreover have "rings_ok R x' = rings_ok R x" for R by (simp add: rings_ok_def x'_def)
  ultimately have "board_inv x'" using B ring' by (simp add: board_inv_def board_def links' xr)
  moreover have "idle x'"
  proof -
    have "progress instr_new = (0, 0, 0, 0)" by (simp add: progress_def instr_new_def)
    then show ?thesis using idle by (auto simp: idle_def ent' xr lv)
  qed
  ultimately have "backend_inv x'" using b by (simp add: backend_inv_def xr b'_def)
  moreover have "release_rob x = Some x'"
    using upd_rob_ent [OF sh h] by (simp add: release_rob_def x'_def b'_def Let_def)
  ultimately show ?thesis using occ head lv by (simp add: xr)
qed

lemma retire_one_inv:
  assumes b: "backend_inv x" and r: "retire_one k c (s, x) = Some ((s', x'), go)"
  shows "backend_inv x'"
proof -
  let ?h = "unat (rob_head (x_ROB x))"
  have h: "?h < ROB_SIZE" using backendD(3) [OF b ROB_SIZE_words(2)] by (simp add: rob_ring_def)
  note e = backendD(1) [OF b h]
  consider "x' = x" | x1 where "n_executed (ent x ?h) = completed_int"
    "fold_opt (release_store (ent x ?h)) x [0..<f_MAX_INSTR_DESTINATIONS k] = Some x1" "release_rob x1 = Some x'"
    using r e by (auto simp: retire_one_def arr_simps split: if_splits)
  then show ?thesis
  proof cases
    case 2
    have v: "core_view x1 = core_view x" by (rule fold_opt_view [OF 2(2)]) (rule release_store_view)
    have b1: "backend_inv x1" using b core_view_backend(1) [OF v] by simp
    have "rob_head (x_ROB x1) = rob_head (x_ROB x)" using v by (simp add: core_view_def)
    moreover have "n_executed (ent x1 ?h) = n_executed (ent x ?h)"
    proof -
      have "length (rob_entry (x_ROB x)) = ROB_SIZE" "length (rob_entry (x_ROB x1)) = ROB_SIZE"
        using backendD(3) [OF b h] backendD(3) [OF b1 h] by (simp_all add: rob_ring_def)
      moreover have "map (\<lambda>e. (reg_view e, progress e)) (rob_entry (x_ROB x1)) ! ?h =
          map (\<lambda>e. (reg_view e, progress e)) (rob_entry (x_ROB x)) ! ?h"
        using v by (simp add: core_view_def)
      ultimately show ?thesis using h by (simp add: progress_def)
    qed
    ultimately have "n_executed (ent x1 (unat (rob_head (x_ROB x1)))) = completed_int" using 2(1) by simp
    from release_rob_inv [OF b1 this] 2(3) show ?thesis by auto
  qed (use b in simp)
qed

lemma retire_rob_inv:
  assumes "backend_inv x" "retire_rob k ic (s, x) = Some (s', x')"
  shows "backend_inv x'"
proof -
  have "backend_inv x \<Longrightarrow> retire_loop n k c (s, x) = Some (s', x') \<Longrightarrow> backend_inv x'" for n c s x
  proof (induction n arbitrary: s x)
    case (Suc n)
    then obtain s1 x1 go where "retire_one k c (s, x) = Some ((s1, x1), go)"
      "(if go then retire_loop n k c (s1, x1) else Some (s1, x1)) = Some (s', x')"
      by (auto simp: arr_simps)
    then show ?case using retire_one_inv [OF Suc.prems(1)] Suc.IH [of x1 s1] by (auto split: if_splits)
  qed simp
  then show ?thesis using assms unfolding retire_rob_def by blast
qed

end
