(* ===== verification/Core_Claims.thy ===== *)
theory Core_Claims
  imports Core_Safety
begin

text \<open>
  What the scoreboard means for a core that has run any number of steps: no failing stage, no
  instruction that waits in vain, wake-up at completion, and issue in order of readiness.
\<close>

section \<open>Steps of the core\<close>

text \<open>
  A step is one of the functions that \<open>main\<close> calls for a core, at any cycle, or a change of the
  memory system alone.  The order of the stages is left open, and so is what the memory system
  does, with one assumption about it: an answer for an instruction fetch names as merged only
  instructions that are still in the reorder buffer (\<open>fetch_answer_ok\<close>).  No line of the source
  checks this, and it is not derived here from the model of the caches, which put the merged
  instructions into the answer; every property below that speaks of \<open>core_reachable\<close> rests on it.
\<close>

inductive core_step :: "core_caches \<Rightarrow> core_sys \<Rightarrow> core_sys \<Rightarrow> bool" for ic where
  memory: "core_step ic (s, x) (s', x)"
| branch: "handle_branch k x = Some x' \<Longrightarrow> core_step ic (s, x) (s, x')"
| fetch: "fetch_instruction k ic (s, x) = Some sx' \<Longrightarrow> core_step ic (s, x) sx'"
| schedule: "f_MAX_INSTR_DESTINATIONS k \<le> NUM_INSTR_DESTINATIONS_SPARC \<Longrightarrow>
    schedule_instruction k x = Some x' \<Longrightarrow> core_step ic (s, x) (s, x')"
| execute: "execute_instruction k x = Some x' \<Longrightarrow> core_step ic (s, x) (s, x')"
| schedule_memory: "schedule_memory_instruction k x = Some x' \<Longrightarrow> core_step ic (s, x) (s, x')"
| lsq: "operate_lsq k ic (s, x) = Some sx' \<Longrightarrow> core_step ic (s, x) sx'"
| instr_answer: "fetch_answer_ok i (s, x) \<Longrightarrow> complete_instr_fetch k i t (s, x) = Some sx' \<Longrightarrow> core_step ic (s, x) sx'"
| data_answer: "complete_data_fetch k i t (s, x) = Some sx' \<Longrightarrow> core_step ic (s, x) sx'"
| complete: "complete_all k x = Some x' \<Longrightarrow> core_step ic (s, x) (s, x')"
| retire: "retire_rob k ic (s, x) = Some sx' \<Longrightarrow> core_step ic (s, x) sx'"

definition core_reachable :: "o3_cpu \<Rightarrow> bool" where
  "core_reachable x \<longleftrightarrow> (\<exists>ic tr s0 s. (core_step ic)\<^sup>*\<^sup>* (s0, o3_cpu_new tr) (s, x))"

lemma core_step_inv:
  assumes "core_step ic sx sx'" and b: "backend_inv (snd sx)"
  shows "backend_inv (snd sx')"
  using assms(1)
proof cases
  case (memory s x s')
  with b show ?thesis by simp
next
  case (branch k x x' s)
  with b handle_branch_inv [of x k x'] show ?thesis by simp
next
  case (fetch k s x)
  with b fetch_instruction_inv [of x k ic s "fst sx'" "snd sx'"] show ?thesis by simp
next
  case (schedule k x x' s)
  with b schedule_instruction_inv [of x k] show ?thesis by auto
next
  case (execute k x x' s)
  with b execute_instruction_inv [of x k] show ?thesis by auto
next
  case (schedule_memory k x x' s)
  with b schedule_memory_instruction_inv [of x k x'] show ?thesis by simp
next
  case (lsq k s x)
  with b core_view_backend(1) [OF operate_lsq_view, of k ic s x "fst sx'" "snd sx'"] show ?thesis by simp
next
  case (instr_answer i s x k t)
  with b complete_instr_fetch_inv [of x i s k t "fst sx'" "snd sx'"] show ?thesis by simp
next
  case (data_answer k i t s x)
  with b core_view_backend(1) [OF complete_data_fetch_view, of k i t s x "fst sx'" "snd sx'"] show ?thesis by simp
next
  case (complete k x x' s)
  with b complete_all_inv [of x k] show ?thesis by auto
next
  case (retire k s x)
  with b retire_rob_inv [of x k ic s "fst sx'" "snd sx'"] show ?thesis by simp
qed

lemma core_reachable_inv: "core_reachable x \<Longrightarrow> backend_inv x"
proof -
  assume "core_reachable x"
  then obtain ic tr s0 s where "(core_step ic)\<^sup>*\<^sup>* (s0, o3_cpu_new tr) (s, x)" by (auto simp: core_reachable_def)
  then have "backend_inv (snd (s, x))"
    by (induction rule: rtranclp_induct) (simp_all add: backend_new core_step_inv)
  then show ?thesis by simp
qed


section \<open>Waiting and waking\<close>

lemma ring_slots:
  assumes "ring_holds n w xs" "i < n" "n < 2 ^ 32"
  shows "of_nat i \<in> set (w_slot w) \<longleftrightarrow> i \<in> set xs"
proof -
  let ?h = "unat (w_head w)"
  have len: "length (w_slot w) = n" "length xs \<le> n" and small: "\<forall>v \<in> set xs. v < n"
    using assms(1) by (simp_all add: ring_holds_def list_all_iff)
  have slot: "w_slot w ! ((?h + j) mod n) = (if j < length xs then of_nat (xs ! j) else of_nat n)" if "j < n" for j
    using assms(1) that by (simp add: ring_holds_def)
  have inj: "(of_nat i :: u32) = of_nat v \<longleftrightarrow> i = v" if "v \<le> n" for v
    using that assms(2,3) by (simp add: word_unat_eq_iff unat_of_nat)
  show ?thesis
  proof
    assume "i \<in> set xs"
    then obtain j where j: "j < length xs" "xs ! j = i" by (auto simp: in_set_conv_nth)
    then have "w_slot w ! ((?h + j) mod n) = of_nat i" using slot len(2) by simp
    moreover have "(?h + j) mod n < length (w_slot w)" using assms(2) len(1) by simp
    ultimately show "of_nat i \<in> set (w_slot w)" by (metis nth_mem)
  next
    assume "of_nat i \<in> set (w_slot w)"
    then obtain m where m: "m < n" "w_slot w ! m = of_nat i" using len(1) by (auto simp: in_set_conv_nth)
    obtain j where j: "j < n" "(?h + j) mod n = m"
    proof -
      have "?h < n" using assms(1) by (simp add: ring_holds_def)
      then have "(?h + (m + (n - ?h)) mod n) mod n = m" using m(1) by (simp add: mod_simps)
      with that [of "(m + (n - ?h)) mod n"] assms(2) show ?thesis by simp
    qed
    with slot [OF j(1)] m(2) inj [of n] inj [of "xs ! j"] assms(2) small show "i \<in> set xs"
      by (auto split: if_splits) (metis less_imp_le nth_mem)
  qed
qed

text \<open>The two arrays of ready instructions.\<close>

definition in_ready_array :: "o3_cpu \<Rightarrow> nat \<Rightarrow> bool" where
  "in_ready_array x i \<longleftrightarrow> of_nat i \<in> set (w_slot (x_RTE0 x)) \<or> of_nat i \<in> set (w_slot (x_RTE1 x))"

lemma backend_ready_array:
  assumes "backend_inv x" "live (x_ROB x) i" "n_is_memory (ent x i) = 0" "n_scheduled (ent x i) \<noteq> 0"
  shows "in_ready_array x i \<longleftrightarrow> n_reg_ready (ent x i) \<noteq> 0 \<and> n_executed (ent x i) = 0"
proof -
  obtain xs ys where r: "ring_holds ROB_SIZE (x_RTE0 x) xs" "ring_holds ROB_SIZE (x_RTE1 x) ys"
    "set (xs @ ys) = Core_Scoreboard.ready x"
    using assms(1) by (auto simp: backend_inv_def board_inv_def board_def rings_ok_def)
  have "i < ROB_SIZE" using assms(2) by (simp add: live_def)
  then have "in_ready_array x i \<longleftrightarrow> i \<in> Core_Scoreboard.ready x"
    using ring_slots [OF r(1), of i] ring_slots [OF r(2), of i] r(3)
    by (auto simp: in_ready_array_def ROB_SIZE_def)
  then show ?thesis using assms by (simp add: Core_Scoreboard.ready_def)
qed

lemma backend_score:
  assumes "backend_inv x" "live (x_ROB x) i"
  shows "score (waits (links x) i) (ent x i)"
  using assms boardD(1) [of "links x" x i] by (simp add: backend_inv_def board_inv_def)

lemma waits_link:
  assumes "backend_inv x" "(p, j) \<in> waits (links x) i"
  shows "live (x_ROB x) p" "live (x_ROB x) i" "rob_pos (x_ROB x) p < rob_pos (x_ROB x) i" "j < NUM_INSTR_SOURCES"
    "n_executed (ent x p) \<noteq> completed_int" "of_nat i \<in> index_deps (ent x p) j" "n_scheduled (ent x i) \<noteq> 0"
proof -
  have l: "(i, p, j) \<in> links x" using assms(2) by (simp add: waits_def)
  then have "link_ok x (i, p, j)" using assms(1) by (auto simp: backend_inv_def board_inv_def board_def)
  with l show "live (x_ROB x) p" "live (x_ROB x) i" "rob_pos (x_ROB x) p < rob_pos (x_ROB x) i" "j < NUM_INSTR_SOURCES"
    "n_executed (ent x p) \<noteq> completed_int" "of_nat i \<in> index_deps (ent x p) j" "n_scheduled (ent x i) \<noteq> 0"
    by (auto simp: links_def link_ok_def)
qed

lemma backend_waiting:
  assumes b: "backend_inv x" and l: "live (x_ROB x) i" "n_scheduled (ent x i) \<noteq> 0"
  shows "n_reg_ready (ent x i) = 0 \<longleftrightarrow> (\<exists>p j. (p, j) \<in> waits (links x) i)"
  using backend_score [OF b l(1)] l(2) by (auto simp: score_def)

text \<open>The dependants of an entry as the code reads them.\<close>

definition depends_on :: "o3_cpu \<Rightarrow> nat \<Rightarrow> nat \<Rightarrow> nat \<Rightarrow> bool" where
  "depends_on x i p j \<longleftrightarrow> fs_search (n_registers_index_depend_on_me (ent x p) ! j) (of_nat i) = Some True"

lemma depends_on_index:
  assumes "backend_inv x" "p < ROB_SIZE" "i < ROB_SIZE" "j < NUM_INSTR_SOURCES"
  shows "depends_on x i p j \<longleftrightarrow> of_nat i \<in> index_deps (ent x p) j"
proof -
  have "unat (of_nat i :: u16) < 512" using assms(3) by (simp add: unat_of_nat ROB_SIZE_def)
  moreover have "fs_inv (n_registers_index_depend_on_me (ent x p) ! j)"
    using rob_shapeD(2) [OF backendD(2) [OF assms(1,2)] assms(2)] assms(4) by (simp add: entry_shape_def)
  ultimately show ?thesis using fs_search_correct by (simp add: depends_on_def index_deps_def)
qed

text \<open>An instruction with nothing to store: no destination in memory, no entry in the store queue.\<close>

definition holds_no_store :: "core_env \<Rightarrow> instr \<Rightarrow> bool" where
  "holds_no_store k e \<longleftrightarrow> (\<forall>i < f_MAX_INSTR_DESTINATIONS k.
     arr_get (n_destination_memory e) i = Some 0 \<and> arr_get (n_sq_index e) i = Some (- 1))"

lemma fold_opt_stay: "(\<And>i. i \<in> set is \<Longrightarrow> f a i = Some a) \<Longrightarrow> fold_opt f a is = Some a"
  by (induction "is") simp_all

lemma retire_one_plain:
  assumes b: "backend_inv x" and c: "cache_at s l1d \<noteq> None"
  defines "e \<equiv> ent x (unat (rob_head (x_ROB x)))"
  assumes e: "n_ip e \<noteq> 0" "n_executed e = completed_int" "holds_no_store k e"
  shows "retire_one k l1d (s, x) = (case release_rob x of Some x' \<Rightarrow> Some ((s, x'), True) | None \<Rightarrow> None)"
proof -
  have h: "unat (rob_head (x_ROB x)) < ROB_SIZE" using backendD(3) [OF b ROB_SIZE_words(2)] by (simp add: rob_ring_def)
  have at: "rob_at x (unat (rob_head (x_ROB x))) = Some e" using backendD(1) [OF b h] by (simp add: e_def)
  have n: "count_stores k e = Some 0"
    unfolding count_stores_def by (rule fold_opt_stay) (use e(3) in \<open>simp add: holds_no_store_def\<close>)
  have r: "fold_opt (release_store e) x [0..<f_MAX_INSTR_DESTINATIONS k] = Some x"
    by (rule fold_opt_stay) (use e(3) in \<open>simp add: holds_no_store_def release_store_def\<close>)
  show ?thesis using c e(1,2) by (auto simp: retire_one_def at n r split: option.split)
qed

text \<open>
  C2. In every reachable state of the core (whose memory answers fetches as \<open>fetch_answer_ok\<close>
  assumes), scheduling, execution and completion do not fail: no assertion of theirs is violated,
  no index leaves an array, and the fast sets of dependants are never read through the wrong
  representation.  A round of \<open>retire_rob\<close> does not fail either when the head is not complete, in
  which case it changes nothing, or is complete and has nothing to store, in which case it leaves
  the memory alone and releases the head.  The retirement of stores, which writes to the L1D, is
  not covered.
\<close>

theorem register_backend_never_fails:
  assumes "core_reachable x" "f_MAX_INSTR_DESTINATIONS k \<le> NUM_INSTR_DESTINATIONS_SPARC"
  defines "h \<equiv> unat (rob_head (x_ROB x))"
  shows "schedule_instruction k x \<noteq> None \<and> execute_instruction k x \<noteq> None \<and> complete_all k x \<noteq> None \<and>
    (n_ip (ent x h) = 0 \<or> n_executed (ent x h) \<noteq> completed_int \<longrightarrow> retire_one k l1d (s, x) = Some ((s, x), False)) \<and>
    (n_ip (ent x h) \<noteq> 0 \<and> n_executed (ent x h) = completed_int \<and> holds_no_store k (ent x h) \<and> cache_at s l1d \<noteq> None \<longrightarrow>
      (\<exists>x'. retire_one k l1d (s, x) = Some ((s, x'), True) \<and>
        unat (rob_occupancy (x_ROB x')) = unat (rob_occupancy (x_ROB x)) - 1 \<and>
        (\<forall>i. live (x_ROB x') i \<longleftrightarrow> live (x_ROB x) i \<and> i \<noteq> h)))"
proof -
  have b: "backend_inv x" by (rule core_reachable_inv [OF assms(1)])
  have "h < ROB_SIZE" using backendD(3) [OF b ROB_SIZE_words(2)] by (simp add: rob_ring_def h_def)
  from backendD(1) [OF b this] have "n_ip (ent x h) = 0 \<or> n_executed (ent x h) \<noteq> completed_int \<longrightarrow>
      retire_one k l1d (s, x) = Some ((s, x), False)"
    by (auto simp: retire_one_def h_def)
  moreover have "\<exists>x'. retire_one k l1d (s, x) = Some ((s, x'), True) \<and>
        unat (rob_occupancy (x_ROB x')) = unat (rob_occupancy (x_ROB x)) - 1 \<and>
        (\<forall>i. live (x_ROB x') i \<longleftrightarrow> live (x_ROB x) i \<and> i \<noteq> h)"
    if e: "n_ip (ent x h) \<noteq> 0" "n_executed (ent x h) = completed_int" "holds_no_store k (ent x h)" "cache_at s l1d \<noteq> None"
    using release_rob_inv [OF b e(2) [unfolded h_def]] retire_one_plain [OF b e(4) e(1-3) [unfolded h_def]]
    by (auto simp: h_def)
  ultimately show ?thesis
    using schedule_instruction_inv [OF b assms(2)] execute_instruction_inv [OF b, of k] complete_all_inv [OF b, of k] by auto
qed

text \<open>
  C3. No lost wake-up: in every reachable state an instruction that has been scheduled and still
  waits for a register has an older producer in flight that has not completed, that is marked as a
  producer, and whose set of dependants for some source contains the instruction, so its completion
  will release it.
\<close>

theorem waiting_has_producer:
  assumes "core_reachable x" "live (x_ROB x) i" "n_scheduled (ent x i) \<noteq> 0" "n_reg_ready (ent x i) = 0"
  shows "\<exists>p j. live (x_ROB x) p \<and> rob_pos (x_ROB x) p < rob_pos (x_ROB x) i \<and> j < NUM_INSTR_SOURCES \<and>
    n_executed (ent x p) \<noteq> completed_int \<and> n_reg_RAW_producer (ent x p) \<noteq> 0 \<and> depends_on x i p j"
proof -
  have b: "backend_inv x" by (rule core_reachable_inv [OF assms(1)])
  obtain p j where w: "(p, j) \<in> waits (links x) i" using backend_waiting [OF b assms(2,3)] assms(4) by blast
  note l = waits_link [OF b w]
  have "deps_ok (ent x p)" using boardD(2) [of "links x" x p] b l(1) by (simp add: backend_inv_def board_inv_def)
  with l(4,6) have "n_reg_RAW_producer (ent x p) \<noteq> 0" by (auto simp: deps_ok_def)
  then show ?thesis using l depends_on_index [OF b live_less [OF l(1)] live_less [OF l(2)] l(4)] by blast
qed

text \<open>
  C5. The oldest instruction is never blocked on registers: if it has been scheduled and every older
  one has completed, its registers are ready; and unless it is a memory instruction it is executing
  or stands in one of the arrays \<open>execute_instruction\<close> serves.
\<close>

theorem oldest_is_ready:
  assumes "core_reachable x" "live (x_ROB x) i" "n_scheduled (ent x i) \<noteq> 0" "n_executed (ent x i) \<noteq> completed_int"
    and "\<forall>p. live (x_ROB x) p \<and> rob_pos (x_ROB x) p < rob_pos (x_ROB x) i \<longrightarrow> n_executed (ent x p) = completed_int"
  shows "n_reg_ready (ent x i) \<noteq> 0 \<and>
    (n_is_memory (ent x i) = 0 \<longrightarrow> n_executed (ent x i) = inflight_int \<or> in_ready_array x i)"
proof -
  have b: "backend_inv x" by (rule core_reachable_inv [OF assms(1)])
  have "\<not> (\<exists>p j. (p, j) \<in> waits (links x) i)" using waits_link(1,3,5) [OF b] assms(5) by blast
  then have r: "n_reg_ready (ent x i) \<noteq> 0" using backend_waiting [OF b assms(2,3)] by blast
  have "n_executed (ent x i) \<in> {0, inflight_int}" using backend_score [OF b assms(2)] assms(4) by (auto simp: score_def)
  then show ?thesis using r backend_ready_array [OF b assms(2) _ assms(3)] by auto
qed

text \<open>
  C4. Completion wakes the dependants: when an instruction whose cycle has come completes, every
  instruction in flight has as many fewer waits as it has sources that waited for it; afterwards the
  counter of waits is zero exactly for the scheduled instructions that are ready, and each of these
  that is neither a memory instruction nor started is in an array of ready instructions.
\<close>

theorem completion_wakes_dependants:
  assumes "core_reachable x" "p < ROB_SIZE" "due k (ent x p)"
  shows "\<exists>x'. complete_execution k x p = Some x' \<and> n_executed (ent x' p) = completed_int \<and>
    (\<forall>i. live (x_ROB x) i \<longrightarrow>
      n_num_reg_dependent (ent x' i) =
        n_num_reg_dependent (ent x i) - int (card {j. j < NUM_INSTR_SOURCES \<and> depends_on x i p j}) \<and>
      (n_scheduled (ent x' i) \<noteq> 0 \<longrightarrow> (n_reg_ready (ent x' i) \<noteq> 0 \<longleftrightarrow> n_num_reg_dependent (ent x' i) = 0) \<and>
        (n_num_reg_dependent (ent x' i) = 0 \<and> n_is_memory (ent x' i) = 0 \<and> n_executed (ent x' i) = 0 \<longrightarrow>
          in_ready_array x' i)))"
proof -
  have b: "backend_inv x" by (rule core_reachable_inv [OF assms(1)])
  obtain x' where x': "complete_execution k x p = Some x'" "backend_inv x'" "same_ring (x_ROB x) (x_ROB x')"
    "links x' = {t \<in> links x. fst (snd t) \<noteq> p}" "n_executed (ent x' p) = completed_int"
    using complete_due [OF b assms(2,3)] by blast
  have ex: "n_executed (ent x p) \<noteq> 0" "n_executed (ent x p) \<noteq> completed_int" using assms(3) by (simp_all add: due_def)
  then have lp: "live (x_ROB x) p" using b assms(2) by (auto simp: backend_inv_def idle_def progress_def)
  have fin: "finite (waits (links y) i)" for y i using waits_finite [OF links_finite] .
  {
    fix i assume i: "live (x_ROB x) i"
    then have i': "live (x_ROB x') i" using same_ring_live [OF x'(3)] by simp
    let ?J = "{j. j < NUM_INSTR_SOURCES \<and> depends_on x i p j}"
    have J: "waits (links x) i = waits (links x') i \<union> Pair p ` ?J"
      using depends_on_index [OF b assms(2) live_less [OF i]] lp ex live_less [OF i]
      by (auto simp: waits_def x'(4)) (auto simp: links_def)
    have disj: "waits (links x') i \<inter> Pair p ` ?J = {}" by (auto simp: waits_def x'(4))
    have "card (Pair p ` ?J) = card ?J" by (rule card_image) (simp add: inj_on_def)
    then have "card (waits (links x) i) = card (waits (links x') i) + card ?J"
      unfolding J using card_Un_disjoint [OF fin _ disj] by simp
    moreover have s: "score (waits (links x) i) (ent x i)" "score (waits (links x') i) (ent x' i)"
      using backend_score [OF b i] backend_score [OF x'(2) i'] .
    ultimately have n: "n_num_reg_dependent (ent x' i) = n_num_reg_dependent (ent x i) - int (card ?J)"
      by (simp add: score_def)
    have c: "n_num_reg_dependent (ent x' i) = 0 \<longleftrightarrow> waits (links x') i = {}"
      using s(2) fin by (simp add: score_def)
    have "n_scheduled (ent x' i) \<noteq> 0 \<longrightarrow> (n_reg_ready (ent x' i) \<noteq> 0 \<longleftrightarrow> n_num_reg_dependent (ent x' i) = 0) \<and>
        (n_num_reg_dependent (ent x' i) = 0 \<and> n_is_memory (ent x' i) = 0 \<and> n_executed (ent x' i) = 0 \<longrightarrow> in_ready_array x' i)"
      using s(2) c backend_ready_array [OF x'(2) i'] by (auto simp: score_def)
    with n have "n_num_reg_dependent (ent x' i) = n_num_reg_dependent (ent x i) - int (card ?J) \<and>
      (n_scheduled (ent x' i) \<noteq> 0 \<longrightarrow> (n_reg_ready (ent x' i) \<noteq> 0 \<longleftrightarrow> n_num_reg_dependent (ent x' i) = 0) \<and>
        (n_num_reg_dependent (ent x' i) = 0 \<and> n_is_memory (ent x' i) = 0 \<and> n_executed (ent x' i) = 0 \<longrightarrow>
          in_ready_array x' i))" by blast
  }
  with x'(1,5) show ?thesis by blast
qed


section \<open>Well-formedness\<close>

text \<open>An entry in flight has a legal state and dependants within the buffer; another one is blank.\<close>

definition slot_ok :: "o3_cpu \<Rightarrow> nat \<Rightarrow> bool" where
  "slot_ok x i \<longleftrightarrow> entry_shape (ent x i) \<and>
      (if live (x_ROB x) i
       then n_executed (ent x i) \<in> {0, inflight_int, completed_int} \<and> 0 \<le> n_num_reg_dependent (ent x i) \<and>
         (\<forall>m \<in> instr_deps (ent x i). unat m < ROB_SIZE)
       else n_fetched (ent x i) = 0 \<and> n_executed (ent x i) = 0 \<and> n_translated (ent x i) = 0 \<and> n_instr_id (ent x i) = 0)"

text \<open>
  C8. In every reachable state the reorder buffer is well formed: its size, its head, its tail and
  its occupancy fit together; the arrays of every entry have their lengths and its fast sets their
  invariant; an entry in flight has a legal state and names only entries of the buffer as
  dependants; and an entry that is not in flight is blank.
\<close>

theorem reorder_buffer_well_formed:
  assumes "core_reachable x"
  shows "rob_SIZE (x_ROB x) = of_nat ROB_SIZE \<and> length (rob_entry (x_ROB x)) = ROB_SIZE \<and>
    rob_head (x_ROB x) < of_nat ROB_SIZE \<and> rob_occupancy (x_ROB x) \<le> of_nat ROB_SIZE \<and>
    unat (rob_tail (x_ROB x)) = (unat (rob_head (x_ROB x)) + unat (rob_occupancy (x_ROB x))) mod ROB_SIZE \<and>
    (\<forall>i \<in> {..<ROB_SIZE}. slot_ok x i)"
proof -
  have b: "backend_inv x" by (rule core_reachable_inv [OF assms])
  have B: "board (links x) x" and "idle x" using b by (simp_all add: backend_inv_def board_inv_def)
  note ring = backendD(3) [OF b ROB_SIZE_words(2)] and sh = backendD(2) [OF b ROB_SIZE_words(2)]
  have E: "slot_ok x i"
    if "i < ROB_SIZE" for i
    using that rob_shapeD(2) [OF sh that] boardD(1,2) [OF B, of i] \<open>idle x\<close>
    by (auto simp: slot_ok_def score_def deps_ok_def idle_def progress_def)
  have "rob_SIZE (x_ROB x) = of_nat ROB_SIZE" "length (rob_entry (x_ROB x)) = ROB_SIZE"
    "rob_head (x_ROB x) < of_nat ROB_SIZE" "rob_occupancy (x_ROB x) \<le> of_nat ROB_SIZE"
    "unat (rob_tail (x_ROB x)) = (unat (rob_head (x_ROB x)) + unat (rob_occupancy (x_ROB x))) mod ROB_SIZE"
    using ring by (simp_all add: rob_ring_def rob_idx_def word_less_nat_alt word_le_nat_alt ROB_SIZE_words)
  then show ?thesis using E by simp
qed

section \<open>The search for producers\<close>

text \<open>
  \<open>p\<close> is the youngest of the older instructions that have not completed and write the register of
  source \<open>j\<close> of \<open>c\<close>.
\<close>

definition youngest_writer :: "core_env \<Rightarrow> o3_cpu \<Rightarrow> nat \<Rightarrow> nat \<Rightarrow> nat \<Rightarrow> bool" where
  "youngest_writer k x c j p \<longleftrightarrow>
     (let writer = (\<lambda>q. n_executed (ent x q) \<noteq> completed_int \<and> writes k (ent x q) (n_source_registers (ent x c) ! j)) in
      live (x_ROB x) p \<and> rob_pos (x_ROB x) p < rob_pos (x_ROB x) c \<and> writer p \<and>
      (\<forall>q. live (x_ROB x) q \<and> rob_pos (x_ROB x) p < rob_pos (x_ROB x) q \<and> rob_pos (x_ROB x) q < rob_pos (x_ROB x) c \<longrightarrow>
        \<not> writer q))"

lemma find_rev_upt:
  "find P (rev (map f [0..<m])) = Some p \<longleftrightarrow> (\<exists>n < m. p = f n \<and> P (f n) \<and> (\<forall>n'. n < n' \<and> n' < m \<longrightarrow> \<not> P (f n')))"
proof (induction m)
  case (Suc m)
  show ?case
  proof (cases "P (f m)")
    case True
    then show ?thesis by (auto simp: less_Suc_eq)
  next
    case False
    then show ?thesis using Suc by (simp add: less_Suc_eq) blast
  qed
qed simp

lemma find_youngest:
  assumes b: "rob_ring b" and c: "live b c"
  shows "find P (rev (map (rob_idx b) [0..<rob_pos b c])) = Some p \<longleftrightarrow>
    live b p \<and> rob_pos b p < rob_pos b c \<and> P p \<and>
    (\<forall>q. live b q \<and> rob_pos b p < rob_pos b q \<and> rob_pos b q < rob_pos b c \<longrightarrow> \<not> P q)"
proof -
  have cl: "rob_pos b c < unat (rob_occupancy b)" "unat (rob_occupancy b) \<le> ROB_SIZE"
    using c b by (simp_all add: live_def rob_ring_def)
  have pos: "rob_pos b (rob_idx b n) = n" "live b (rob_idx b n)" if "n < rob_pos b c" for n
    using that cl rob_pos_idx [OF b, of n] live_idx [OF b, of n] by simp_all
  have idx: "rob_idx b (rob_pos b q) = q" if "live b q" for q by (rule rob_idx_pos [OF b live_less [OF that]])
  show ?thesis
    unfolding find_rev_upt
  proof
    assume "\<exists>n < rob_pos b c. p = rob_idx b n \<and> P (rob_idx b n) \<and> (\<forall>n'. n < n' \<and> n' < rob_pos b c \<longrightarrow> \<not> P (rob_idx b n'))"
    then obtain n where n: "n < rob_pos b c" "p = rob_idx b n" "P p"
      "\<And>n'. n < n' \<Longrightarrow> n' < rob_pos b c \<Longrightarrow> \<not> P (rob_idx b n')" by blast
    have "\<not> P q" if "live b q" "rob_pos b p < rob_pos b q" "rob_pos b q < rob_pos b c" for q
      using n(4) [of "rob_pos b q"] that idx [OF that(1)] pos(1) [OF n(1)] n(2) by simp
    then show "live b p \<and> rob_pos b p < rob_pos b c \<and> P p \<and>
        (\<forall>q. live b q \<and> rob_pos b p < rob_pos b q \<and> rob_pos b q < rob_pos b c \<longrightarrow> \<not> P q)"
      using n pos [OF n(1)] by simp
  next
    assume A: "live b p \<and> rob_pos b p < rob_pos b c \<and> P p \<and>
        (\<forall>q. live b q \<and> rob_pos b p < rob_pos b q \<and> rob_pos b q < rob_pos b c \<longrightarrow> \<not> P q)"
    have "\<not> P (rob_idx b n)" if "rob_pos b p < n" "n < rob_pos b c" for n
      using A pos [OF that(2)] that by simp
    then show "\<exists>n < rob_pos b c. p = rob_idx b n \<and> P (rob_idx b n) \<and> (\<forall>n'. n < n' \<and> n' < rob_pos b c \<longrightarrow> \<not> P (rob_idx b n'))"
      using A idx [of p] by (intro exI [of _ "rob_pos b p"]) simp
  qed
qed

lemma producer_youngest:
  assumes b: "rob_ring (x_ROB x)" and c: "live (x_ROB x) c"
  shows "producer_among k (x_ROB x) c j (older_entries (x_ROB x) c) = Some p \<longleftrightarrow> youngest_writer k x c j p"
  unfolding producer_among_def older_entries_pos [OF b live_less [OF c]] find_youngest [OF b c]
  by (simp add: youngest_writer_def Let_def)

text \<open>
  C6. The search for producers makes each source of an instruction depend on the youngest older
  instruction that writes its register and has not completed, and on no other: the sets of
  dependants grow by exactly these pairs, the counter of the instruction by their number, and the
  instruction loses its ready flag exactly when there is one.
\<close>

theorem reg_dependency_finds_youngest_writer:
  assumes "core_reachable x" "live (x_ROB x) c" "n_scheduled (ent x c) = 0"
    and "f_MAX_INSTR_DESTINATIONS k \<le> NUM_INSTR_DESTINATIONS_SPARC"
  shows "\<exists>x'. reg_dependency k c x = Some x' \<and>
    (\<forall>p \<in> {..<ROB_SIZE}. \<forall>j \<in> {..<NUM_INSTR_SOURCES}.
      depends_on x' c p j \<longleftrightarrow> depends_on x c p j \<or> youngest_writer k x c j p) \<and>
    n_num_reg_dependent (ent x' c) =
      n_num_reg_dependent (ent x c) + int (card {j. j < NUM_INSTR_SOURCES \<and> (\<exists>p. youngest_writer k x c j p)}) \<and>
    n_reg_ready (ent x' c) = (if \<exists>j < NUM_INSTR_SOURCES. \<exists>p. youngest_writer k x c j p then 0 else n_reg_ready (ent x c))"
proof -
  have b: "backend_inv x" by (rule core_reachable_inv [OF assms(1)])
  let ?b = "x_ROB x" and ?M = "producers k (x_ROB x) c (older_entries (x_ROB x) c)"
  have cl: "c < ROB_SIZE" by (rule live_less [OF assms(2)])
  note sh = backendD(2) [OF b cl] and ring = backendD(3) [OF b cl]
  have older: "\<forall>p \<in> set (older_entries ?b c). p < ROB_SIZE \<and> p \<noteq> c"
    unfolding older_entries_set [OF ring assms(2)] by (auto simp: live_def)
  have fresh: "\<forall>j < NUM_INSTR_SOURCES. n_reg_RAW_checked (ent x c) ! j = 0"
    using backend_score [OF b assms(2)] assms(3) by (simp add: score_def)
  obtain x' where x': "reg_dependency k c x = Some x'" "marked c ?M x x'"
    using reg_dependency_marks [OF sh cl older assms(4) fresh] by blast
  have M: "(p, j) \<in> ?M \<longleftrightarrow> j < NUM_INSTR_SOURCES \<and> youngest_writer k x c j p" for p j
    using producer_youngest [OF ring assms(2)] by (simp add: producers_def)
  have sh': "rob_shape x'" using x'(2) by (simp add: marked_def)
  have dep: "depends_on y c p j \<longleftrightarrow> of_nat c \<in> index_deps (ent y p) j"
    if "rob_shape y" "p < ROB_SIZE" "j < NUM_INSTR_SOURCES" for y p j
  proof -
    have "unat (of_nat c :: u16) < 512" using cl by (simp add: unat_of_nat ROB_SIZE_def)
    then show ?thesis using fs_search_correct rob_shapeD(2) [OF that(1,2)] that(3)
      by (simp add: depends_on_def index_deps_def entry_shape_def)
  qed
  have prod: "index_deps (ent x' p) j = index_deps (ent x p) j \<union> (if (p, j) \<in> ?M then {of_nat c} else {})"
    if "p < ROB_SIZE" "j < NUM_INSTR_SOURCES" for p j
  proof (cases "p = c")
    case True
    have "(p, j) \<notin> ?M" unfolding M youngest_writer_def Let_def using True by simp
    moreover have "index_deps (ent x' c) = index_deps (ent x c)"
      using x'(2) consumer_frame_fields(9) [of "ent x' c" "ent x c"]
      by (simp add: marked_def marks_consumer_def index_deps_def fun_eq_iff)
    ultimately show ?thesis using True by simp
  qed (use x'(2) that in \<open>simp add: marked_def marks_producer_def\<close>)
  have "card ?M = card (snd ` ?M)"
    by (rule card_image [symmetric]) (auto simp: inj_on_def producers_def)
  also have "snd ` ?M = {j. j < NUM_INSTR_SOURCES \<and> (\<exists>p. youngest_writer k x c j p)}"
    using M by (force simp: image_iff)
  finally have card: "card ?M = card {j. j < NUM_INSTR_SOURCES \<and> (\<exists>p. youngest_writer k x c j p)}" .
  have none: "?M = {} \<longleftrightarrow> \<not> (\<exists>j < NUM_INSTR_SOURCES. \<exists>p. youngest_writer k x c j p)" using M by fastforce
  have "n_num_reg_dependent (ent x' c) = n_num_reg_dependent (ent x c) + int (card ?M)"
    "n_reg_ready (ent x' c) = (if ?M = {} then n_reg_ready (ent x c) else 0)"
    using x'(2) by (simp_all add: marked_def marks_consumer_def)
  moreover have "depends_on x' c p j \<longleftrightarrow> depends_on x c p j \<or> youngest_writer k x c j p"
    if "p < ROB_SIZE" "j < NUM_INSTR_SOURCES" for p j
    using dep [OF sh' that] dep [OF sh that] prod [OF that] M that(2) by (auto split: if_splits)
  ultimately show ?thesis using x'(1) none card by auto
qed


section \<open>Issue\<close>

text \<open>The instructions in an array, from its head on.\<close>

definition ring_list :: "index_ring \<Rightarrow> nat list" where
  "ring_list w = map unat (takeWhile (\<lambda>v. v \<noteq> of_nat ROB_SIZE)
     (map (\<lambda>j. w_slot w ! ((unat (w_head w) + j) mod ROB_SIZE)) [0..<ROB_SIZE]))"

lemma ring_list_holds:
  assumes "ring_holds ROB_SIZE w xs"
  shows "ring_list w = xs"
proof -
  let ?f = "\<lambda>j. w_slot w ! ((unat (w_head w) + j) mod ROB_SIZE)"
  have len: "length xs \<le> ROB_SIZE" and small: "v \<in> set xs \<Longrightarrow> v < ROB_SIZE" for v
    using assms by (auto simp: ring_holds_def list_all_iff)
  have "map ?f [0..<ROB_SIZE] = map of_nat xs @ replicate (ROB_SIZE - length xs) (of_nat ROB_SIZE)"
    using assms len by (intro nth_equalityI) (auto simp: ring_holds_def nth_append)
  moreover have ne: "(of_nat v :: u32) \<noteq> of_nat ROB_SIZE" if "v \<in> set xs" for v
    using small [OF that] by (simp add: word_unat_eq_iff unat_of_nat ROB_SIZE_def)
  moreover have "takeWhile (\<lambda>v :: u32. v \<noteq> of_nat ROB_SIZE) (map of_nat xs @ replicate m (of_nat ROB_SIZE)) = map of_nat xs" for m
    using ne by (subst takeWhile_append2) (auto simp: takeWhile_replicate)
  moreover have "map unat (map (of_nat :: nat \<Rightarrow> u32) xs) = xs"
  proof -
    have "unat (of_nat v :: u32) = v" if "v \<in> set xs" for v
      using small [OF that] by (simp add: unat_of_nat ROB_SIZE_def)
    then show ?thesis by (simp add: map_idI)
  qed
  ultimately show ?thesis by (simp add: ring_list_def)
qed


lemma rte_put [simp]: "rte s (put_rte s w x) = w" "rte (\<not> s) (put_rte s w x) = rte (\<not> s) x"
  "x_ROB (put_rte s w x) = x_ROB x"
  by (simp_all add: rte_def put_rte_def)





section \<open>The order of the buffer\<close>

text \<open>The numbers of the instructions in flight, the oldest first.\<close>

definition rob_ids :: "o3_cpu \<Rightarrow> u64 list" where
  "rob_ids x = map (\<lambda>n. n_instr_id (ent x (rob_idx (x_ROB x) n))) [0..<unat (rob_occupancy (x_ROB x))]"

lemma add_to_rob_ids:
  assumes b: "backend_inv x" and room: "unat (rob_occupancy (x_ROB x)) < ROB_SIZE" and a: "add_to_rob k a x = Some (x', i)"
  shows "rob_ids x' = rob_ids x @ [n_instr_id a]" "i = unat (rob_tail (x_ROB x))"
proof -
  let ?o = "unat (rob_occupancy (x_ROB x))" and ?t = "unat (rob_tail (x_ROB x))"
  note ring = backendD(3) [OF b ROB_SIZE_words(2)]
  have t: "?t = rob_idx (x_ROB x) ?o" "?t < length (rob_entry (x_ROB x))" using ring by (simp_all add: rob_ring_def)
  have f: "rob_head (x_ROB x') = rob_head (x_ROB x)" "rob_occupancy (x_ROB x') = rob_occupancy (x_ROB x) + 1"
    "rob_entry (x_ROB x') = (rob_entry (x_ROB x))[?t := a\<lparr>n_event_cycle := f_now k\<rparr>]" "i = ?t"
    using a by (auto simp: add_to_rob_def Let_def arr_simps)
  show "i = ?t" by (rule f(4))
  have idx: "rob_idx (x_ROB x') = rob_idx (x_ROB x)" by (simp add: rob_idx_def f(1) fun_eq_iff)
  have "?t \<noteq> rob_idx (x_ROB x) n" if "n < ?o" for n
    using rob_pos_idx [OF ring, of n] rob_pos_idx [OF ring room] t(1) that room by auto
  then show "rob_ids x' = rob_ids x @ [n_instr_id a]"
    using t(2) occupancy_inc [OF room] by (simp add: rob_ids_def f idx flip: t(1))
qed

lemma release_rob_ids:
  assumes b: "backend_inv x" and c: "n_executed (ent x (unat (rob_head (x_ROB x)))) = completed_int"
    and r: "release_rob x = Some x'"
  shows "rob_ids x' = tl (rob_ids x)" "rob_ids x \<noteq> []"
    "hd (rob_ids x) = n_instr_id (ent x (unat (rob_head (x_ROB x))))"
proof -
  let ?h = "unat (rob_head (x_ROB x))" and ?o = "unat (rob_occupancy (x_ROB x))"
  note ring = backendD(3) [OF b ROB_SIZE_words(2)]
  have h: "?h < ROB_SIZE" "rob_idx (x_ROB x) 0 = ?h" using ring by (simp_all add: rob_ring_def rob_idx_def)
  have "live (x_ROB x) ?h" using b h c by (auto simp: backend_inv_def idle_def progress_def)
  then have o: "0 < ?o" "?o \<le> ROB_SIZE" using ring by (simp_all add: live_def rob_ring_def)
  have r': "unat (rob_occupancy (x_ROB x')) = ?o - 1" "unat (rob_head (x_ROB x')) = (?h + 1) mod ROB_SIZE"
    using release_rob_inv [OF b c] r by auto
  have e: "rob_entry (x_ROB x') = (rob_entry (x_ROB x))[?h := instr_new]"
    using r by (auto simp: release_rob_def upd_rob_def Let_def arr_simps)
  have idx: "rob_idx (x_ROB x') n = rob_idx (x_ROB x) (Suc n)" for n
    unfolding rob_idx_def r'(2) by (simp add: mod_simps)
  have ne: "?h \<noteq> rob_idx (x_ROB x) (Suc n)" if "n < ?o - 1" for n
    using less_le_trans [of "Suc n" ?o ROB_SIZE] rob_pos_idx [OF ring, of "Suc n"] rob_pos_idx [OF ring ROB_SIZE_words(2)] h(2) that o(2) by auto
  have up: "[0..<?o] = 0 # map Suc [0..<?o - 1]" using o(1) by (cases ?o) (simp_all add: upt_conv_Cons map_Suc_upt del: upt_Suc)
  show "rob_ids x' = tl (rob_ids x)" unfolding rob_ids_def r'(1) idx e up using ne by simp
  show "rob_ids x \<noteq> []" "hd (rob_ids x) = n_instr_id (ent x ?h)" unfolding rob_ids_def up using h(2) by simp_all
qed

text \<open>
  C9. The reorder buffer is first in, first out: an instruction that enters a buffer with room is
  the youngest, and the oldest leaves when it has completed; the others keep their order.
\<close>

theorem reorder_buffer_fifo:
  assumes "core_reachable x"
  shows "(fresh_instr a \<and> n_ip a \<noteq> 0 \<and> rob_occupancy (x_ROB x) < rob_SIZE (x_ROB x) \<longrightarrow>
      (\<exists>x' i. add_to_rob k a x = Some (x', i) \<and> rob_ids x' = rob_ids x @ [n_instr_id a])) \<and>
    (n_executed (ent x (unat (rob_head (x_ROB x)))) = completed_int \<longrightarrow>
      (\<exists>x' m. release_rob x = Some x' \<and> rob_ids x = m # rob_ids x' \<and>
        m = n_instr_id (ent x (unat (rob_head (x_ROB x))))))"
proof -
  have b: "backend_inv x" by (rule core_reachable_inv [OF assms(1)])
  have S: "rob_SIZE (x_ROB x) = of_nat ROB_SIZE" using backendD(3) [OF b ROB_SIZE_words(2)] by (simp add: rob_ring_def)
  have "\<exists>x' i. add_to_rob k a x = Some (x', i) \<and> rob_ids x' = rob_ids x @ [n_instr_id a]"
    if f: "fresh_instr a \<and> n_ip a \<noteq> 0 \<and> rob_occupancy (x_ROB x) < rob_SIZE (x_ROB x)"
  proof -
    have room: "unat (rob_occupancy (x_ROB x)) < ROB_SIZE" using f by (simp add: S word_less_nat_alt ROB_SIZE_words)
    obtain x' where x': "add_to_rob k a x = Some (x', unat (rob_tail (x_ROB x)))"
      using add_to_rob_inv [OF b _ _ room, of a k] f by blast
    from add_to_rob_ids(1) [OF b room x'] x' show ?thesis by blast
  qed
  moreover have "\<exists>x' m. release_rob x = Some x' \<and> rob_ids x = m # rob_ids x' \<and> m = n_instr_id (ent x (unat (rob_head (x_ROB x))))"
    if c: "n_executed (ent x (unat (rob_head (x_ROB x)))) = completed_int"
  proof -
    obtain x' where x': "release_rob x = Some x'" using release_rob_inv [OF b c] by blast
    note r = release_rob_ids [OF b c x']
    have "rob_ids x = hd (rob_ids x) # rob_ids x'" using r(1,2) by (simp add: hd_Cons_tl)
    with x' r(3) show ?thesis by auto
  qed
  ultimately show ?thesis by blast
qed

section \<open>The branch predictor\<close>

definition bimodal_ok :: "o3_cpu \<Rightarrow> bool" where
  "bimodal_ok x \<longleftrightarrow> length (x_bimodal_table x) = BIMODAL_TABLE_SIZE \<and> (\<forall>c \<in> set (x_bimodal_table x). 0 \<le> c \<and> c \<le> MAX_COUNTER)"

abbreviation bimodal_slot :: "u64 \<Rightarrow> nat" where
  "bimodal_slot ip \<equiv> unat (ip mod BIMODAL_PRIME)"

lemma bimodal_slot_less: "bimodal_slot ip < BIMODAL_TABLE_SIZE"
proof -
  have "ip mod BIMODAL_PRIME < BIMODAL_PRIME" by (rule word_mod_less_divisor) (simp add: BIMODAL_PRIME_def)
  then show ?thesis by (simp add: word_less_nat_alt BIMODAL_PRIME_def BIMODAL_TABLE_SIZE_def)
qed

definition bimodal_next :: "u8 \<Rightarrow> int \<Rightarrow> int" where
  "bimodal_next taken c = (if taken \<noteq> 0 then min MAX_COUNTER (c + 1) else max 0 (c - 1))"

lemma last_branch_result_eq:
  assumes "bimodal_ok x"
  shows "last_branch_result ip taken x = Some (x\<lparr>x_bimodal_table := (x_bimodal_table x)[bimodal_slot ip :=
    bimodal_next taken (x_bimodal_table x ! bimodal_slot ip)]\<rparr>)"
proof -
  have s: "bimodal_slot ip < length (x_bimodal_table x)" using assms bimodal_slot_less by (simp add: bimodal_ok_def)
  then have "0 \<le> x_bimodal_table x ! bimodal_slot ip \<and> x_bimodal_table x ! bimodal_slot ip \<le> MAX_COUNTER"
    using assms by (simp add: bimodal_ok_def)
  then have "(if taken \<noteq> 0 \<and> x_bimodal_table x ! bimodal_slot ip < MAX_COUNTER then x_bimodal_table x ! bimodal_slot ip + 1
        else if taken = 0 \<and> x_bimodal_table x ! bimodal_slot ip > 0 then x_bimodal_table x ! bimodal_slot ip - 1
        else x_bimodal_table x ! bimodal_slot ip) = bimodal_next taken (x_bimodal_table x ! bimodal_slot ip)"
    by (auto simp: bimodal_next_def)
  then show ?thesis using s by (simp add: last_branch_result_def Let_def)
qed

lemma last_branch_result_ok:
  assumes "bimodal_ok x"
  shows "\<exists>x'. last_branch_result ip taken x = Some x' \<and> bimodal_ok x' \<and>
    x' = x\<lparr>x_bimodal_table := (x_bimodal_table x)[bimodal_slot ip := bimodal_next taken (x_bimodal_table x ! bimodal_slot ip)]\<rparr>"
proof -
  let ?c = "x_bimodal_table x ! bimodal_slot ip"
  have "0 \<le> bimodal_next taken ?c" "bimodal_next taken ?c \<le> MAX_COUNTER"
  proof -
    have "?c \<in> set (x_bimodal_table x)" using assms bimodal_slot_less by (simp add: bimodal_ok_def)
    then have "0 \<le> ?c \<and> ?c \<le> MAX_COUNTER" using assms by (simp add: bimodal_ok_def)
    then show "0 \<le> bimodal_next taken ?c" "bimodal_next taken ?c \<le> MAX_COUNTER"
      by (auto simp: bimodal_next_def MAX_COUNTER_def)
  qed
  then have "bimodal_ok (x\<lparr>x_bimodal_table := (x_bimodal_table x)[bimodal_slot ip := bimodal_next taken ?c]\<rparr>)"
    using assms by (auto simp: bimodal_ok_def dest!: set_update_subset_insert [THEN subsetD])
  then show ?thesis using last_branch_result_eq [OF assms] by blast
qed

lemma predict_branch_eq:
  assumes "bimodal_ok x"
  shows "predict_branch x ip = Some (if 2 \<le> x_bimodal_table x ! bimodal_slot ip then 1 else 0)"
  using assms bimodal_slot_less [of ip] by (simp add: predict_branch_def bimodal_ok_def MAX_COUNTER_def)

lemma bimodal_train:
  assumes "bimodal_ok x"
  shows "\<exists>x'. fold_opt (\<lambda>x t. last_branch_result ip t x) x ts = Some x' \<and> bimodal_ok x' \<and>
    x_bimodal_table x' = (x_bimodal_table x)[bimodal_slot ip := fold bimodal_next ts (x_bimodal_table x ! bimodal_slot ip)]"
  using assms
proof (induction ts arbitrary: x)
  case (Cons t ts)
  let ?c = "bimodal_next t (x_bimodal_table x ! bimodal_slot ip)"
  obtain x1 where x1: "last_branch_result ip t x = Some x1" "bimodal_ok x1"
    "x1 = x\<lparr>x_bimodal_table := (x_bimodal_table x)[bimodal_slot ip := ?c]\<rparr>"
    using last_branch_result_ok [OF Cons.prems, of ip t] by blast
  have "bimodal_slot ip < length (x_bimodal_table x)" using Cons.prems bimodal_slot_less by (simp add: bimodal_ok_def)
  then have "x_bimodal_table x1 = (x_bimodal_table x)[bimodal_slot ip := ?c]" "x_bimodal_table x1 ! bimodal_slot ip = ?c"
    using x1(3) by simp_all
  with Cons.IH [OF x1(2)] x1(1) show ?case by auto
qed simp

text \<open>
  C10. Training the bimodal predictor on any history of a branch never leaves the table and keeps
  every counter between 0 and \<open>MAX_COUNTER\<close>; after two equal outcomes in a row the branch is
  predicted that way, whatever came before, and branches of other slots are predicted as before.
\<close>

theorem bimodal_learns:
  assumes "bimodal_ok x"
  shows "\<exists>x'. fold_opt (\<lambda>x t. last_branch_result ip t x) x (ts @ [t, t]) = Some x' \<and> bimodal_ok x' \<and>
    predict_branch x' ip = Some (if t \<noteq> 0 then 1 else 0) \<and>
    (\<forall>q. bimodal_slot q \<noteq> bimodal_slot ip \<longrightarrow> predict_branch x' q = predict_branch x q)"
proof -
  let ?s = "bimodal_slot ip"
  let ?c = "fold bimodal_next ts (x_bimodal_table x ! ?s)"
  obtain x1 where "bimodal_ok x1" "x_bimodal_table x1 = (x_bimodal_table x)[?s := ?c]"
    using bimodal_train [OF assms, of ip ts] by blast
  moreover have s: "?s < length (x_bimodal_table x)" using assms bimodal_slot_less by (simp add: bimodal_ok_def)
  ultimately have "?c \<in> set (x_bimodal_table x1)" by (simp add: set_update_memI)
  then have c: "0 \<le> ?c" "?c \<le> 3" using \<open>bimodal_ok x1\<close> by (simp_all add: bimodal_ok_def MAX_COUNTER_def)
  obtain x' where x': "fold_opt (\<lambda>x t. last_branch_result ip t x) x (ts @ [t, t]) = Some x'" "bimodal_ok x'"
    "x_bimodal_table x' = (x_bimodal_table x)[?s := bimodal_next t (bimodal_next t ?c)]"
    using bimodal_train [OF assms, of ip "ts @ [t, t]"] by auto
  have "predict_branch x' ip = Some (if t \<noteq> 0 then 1 else 0)"
    using predict_branch_eq [OF x'(2), of ip] s c by (auto simp: x'(3) bimodal_next_def MAX_COUNTER_def min_def max_def)
  moreover have "predict_branch x' q = predict_branch x q" if "bimodal_slot q \<noteq> ?s" for q
    using predict_branch_eq [OF x'(2), of q] predict_branch_eq [OF assms, of q] that by (simp add: x'(3))
  ultimately show ?thesis using x'(1,2) by blast
qed

lemma bimodal_new: "bimodal_ok (o3_cpu_new tr)"
  by (simp add: bimodal_ok_def o3_cpu_new_def MAX_COUNTER_def)


section \<open>A core with two instructions\<close>

text \<open>
  The second instruction, a mispredicted branch, reads the register that the first one writes.  Both
  are read from the trace and fetched by one answer of the L1I.
\<close>

definition demo_env :: core_env where
  "demo_env = \<lparr>f_now = 10, f_SCHEDULING_LATENCY = 0, f_EXEC_LATENCY = 0, f_MAX_INSTR_DESTINATIONS = 2, f_cloudsuite = False\<rparr>"

definition demo_trace :: "trace_instr list" where
  "demo_trace = [input_instr_new\<lparr>tr_ip := 4, tr_destination_registers := [5, 0]\<rparr>,
   input_instr_new\<lparr>tr_ip := 8, tr_is_branch := 1, tr_branch_taken := 1, tr_source_registers := [5, 0, 0, 0]\<rparr>]"

definition demo_rob :: "instr \<Rightarrow> instr \<Rightarrow> o3_cpu" where
  "demo_rob e0 e1 = (o3_cpu_new demo_trace)\<lparr>x_trace_pos := 2, x_instr_unique_id := 2,
     x_instrs_to_read_this_cycle := 0, x_fetch_stall := 1, x_num_branch := 1, x_branch_mispredictions := 1,
     x_total_rob_occupancy_at_branch_mispredict := 2,
     x_bimodal_table := (replicate BIMODAL_TABLE_SIZE 0)[8 := 1],
     x_ROB := (core_buffer_new (of_nat ROB_SIZE))\<lparr>rob_tail := 2, rob_occupancy := 2,
       rob_entry := e0 # e1 # replicate 254 instr_new\<rparr>\<rparr>"

definition demo_e0 :: instr where
  "demo_e0 = instr_new\<lparr>n_ip := 4, n_event_cycle := 10, n_asid := (0, 0), n_num_reg_ops := 1,
     n_destination_registers := [5, 0, 0, 0]\<rparr>"

definition demo_e1 :: instr where
  "demo_e1 = instr_new\<lparr>n_instr_id := 1, n_ip := 8, n_event_cycle := 10, n_is_branch := 1, n_branch_taken := 1,
     n_branch_mispredicted := 1, n_asid := (0, 0), n_num_reg_ops := 1, n_source_registers := [5, 0, 0, 0]\<rparr>"

lemma demo_env_sel: "f_now demo_env = 10" "f_SCHEDULING_LATENCY demo_env = 0" "f_EXEC_LATENCY demo_env = 0" "f_MAX_INSTR_DESTINATIONS demo_env = 2" by (simp_all add: demo_env_def)

lemmas demo_defs = demo_env_sel NUM_INSTR_SOURCES_def NUM_INSTR_DESTINATIONS_def NUM_INSTR_DESTINATIONS_SPARC_def ROB_SIZE_def

lemma demo_replicate: "replicate 256 instr_new = instr_new # instr_new # replicate 254 instr_new"
  by (simp add: numeral_eq_Suc)

lemma demo_replicate_small: "replicate 4 x = [x, x, x, x]" "replicate 2 x = [x, x]"
  by (simp_all add: numeral_eq_Suc)

lemma demo_upt: "[0..<4] = [0,1,2,3]" "[0..<2] = [0,1]" by (simp_all add: upt_rec)

lemma demo_decode0: "decode_instr demo_env (demo_trace ! 0) x = Some (x, demo_e0\<lparr>n_event_cycle := 0, n_instr_id := x_instr_unique_id x, n_asid := (ucast (x_cpu x), ucast (x_cpu x))\<rparr>)"
  by (simp add: decode_instr_def demo_trace_def demo_e0_def copy_destination_def copy_source_def
      input_instr_new_def instr_new_def Let_def demo_defs demo_replicate_small demo_upt)

lemma demo_decode1: "decode_instr demo_env (demo_trace ! 1) x = Some (x, demo_e1\<lparr>n_event_cycle := 0, n_branch_mispredicted := 0, n_instr_id := x_instr_unique_id x, n_asid := (ucast (x_cpu x), ucast (x_cpu x))\<rparr>)"
  by (simp add: decode_instr_def demo_trace_def demo_e1_def copy_destination_def copy_source_def
      input_instr_new_def instr_new_def Let_def demo_defs demo_replicate_small demo_upt)

lemma demo_words: "\<not> (256::u32) \<le> 1" "\<not> (6::u64) \<le> 1" "\<not> (256::u32) \<le> 2" "\<not> (256 :: u32) < 2" "(0::u32) < 2" "(0::u32) < 256" "(1::u32) < 256"
  by (simp_all add: word_le_nat_alt word_less_nat_alt)

lemma demo_trace_length: "length demo_trace = 2" by (simp add: demo_trace_def)

lemma demo_handle_branch: "handle_branch demo_env (o3_cpu_new demo_trace) = Some (demo_rob demo_e0 demo_e1)"
  apply (simp add: handle_branch_def)
  apply (subst read_loop.simps)
  apply (simp add: read_instr_def demo_decode0 add_to_rob_def rob_at_def demo_trace_length o3_cpu_new_def
      core_buffer_new_def demo_replicate demo_defs demo_words FETCH_WIDTH_def Let_def)
  apply (simp add: demo_e0_def instr_new_def)
  apply (subst read_loop.simps)
  apply (simp add: read_instr_def demo_decode1 [simplified] add_to_rob_def rob_at_def demo_trace_length demo_defs
      Let_def check_branch_def predict_branch_def last_branch_result_def upd_rob_def BIMODAL_TABLE_SIZE_def BIMODAL_PRIME_def MAX_COUNTER_def instr_new_def demo_e1_def demo_rob_def demo_words o3_cpu_new_def core_buffer_new_def demo_replicate)
  done

definition demo_packet :: packet where
  "demo_packet = packet_new\<lparr>p_rob_index := 0, p_instr_id := 0, p_instr_merged := 1,
     p_rob_deps := \<lparr>fs_data = Values ((replicate 13 None)[0 := Some 1]), card_of = 1\<rparr>\<rparr>"

definition demo_answer :: sys where
  "demo_answer = \<lparr>y_caches = [(cache_new ''L1I'' 4 2 8 8 8 4 IS_L1I demo_repl)\<lparr>c_PROCESSED := (packet_queue_new ''PROCESSED'' 1)\<lparr>
     q_entry := [demo_packet], q_occupancy := 1\<rparr>\<rparr>], y_mems = [], y_globals = demo_globals, y_pages = page_state_new,
     y_cores = [], y_LLC = 0\<rparr>"

lemma demo_packet_sel: "p_instr_merged demo_packet = 1" "p_rob_index demo_packet = 0" "p_instr_id demo_packet = 0" by (simp_all add: demo_packet_def packet_new_def)

lemma demo_expand: "fs_expand (p_rob_deps demo_packet) n = Some [1]"
  by (simp add: demo_packet_def fs_expand_def SMALL_SIZE_def copy_values.simps get_value_def)

lemma demo_first_processed: "first_processed 0 demo_answer = Some demo_packet"
  by (simp add: first_processed_def demo_answer_def cache_at_def packet_queue_new_def)

lemma demo_remove_processed: "\<exists>s. remove_processed 0 demo_answer = Some s"
  by (simp add: remove_processed_def demo_answer_def cache_at_def packet_queue_new_def on_cache_def remove_queue_def)

lemma demo_answer_step: "\<exists>s. complete_instr_fetch demo_env 0 False (demo_answer, demo_rob demo_e0 demo_e1) =
  Some (s, demo_rob (demo_e0\<lparr>n_fetched := completed32\<rparr>) (demo_e1\<lparr>n_fetched := completed32\<rparr>))"
proof -
  obtain s where s: "remove_processed 0 demo_answer = Some s" using demo_remove_processed by blast
  show ?thesis
    by (simp add: s demo_expand complete_instr_fetch_def demo_first_processed demo_packet_sel check_rob_def
      demo_words search_arr.simps demo_rob_def o3_cpu_new_def core_buffer_new_def iterate_set_def instr_fetched_def upd_rob_def rob_at_def demo_defs demo_e0_def demo_e1_def instr_new_def FETCH_WIDTH_def)
qed

lemma demo_upt256: "[0..<256] = 0 # 1 # 2 # [3..<256]" by (simp add: upt_rec)

lemma demo_fs_insert: "fs_insert fastset_new 1 = Some \<lparr>fs_data = Values ((replicate 13 None)[0 := Some 1]), card_of = 1\<rparr>"
  by (simp add: fs_insert_def fastset_new_def set_value_def)

lemma demo_states: "completed32 = 2" "(inflight32 :: u32) = 1" by (simp_all add: COMPLETED_def INFLIGHT_def)

lemma demo_searched: "\<not> (128 :: u32) \<le> 1" by (simp add: word_le_nat_alt)

lemmas demo_execute_loop = execute_loop.simps(2) [of 254, unfolded Suc_numeral, simplified] execute_loop.simps(2) [of 253, unfolded Suc_numeral, simplified]

lemma demo_schedule: "\<exists>x. schedule_instruction demo_env (demo_rob (demo_e0\<lparr>n_fetched := completed32\<rparr>) (demo_e1\<lparr>n_fetched := completed32\<rparr>)) = Some x \<and>
   n_scheduled (ent x 0) \<noteq> 0 \<and> n_scheduled (ent x 1) \<noteq> 0 \<and> n_reg_ready (ent x 1) = 0 \<and> n_executed (ent x 0) = 0 \<and> unat (rob_occupancy (x_ROB x)) = 2 \<and> rob_head (x_ROB x) = 0 \<and>
  (\<forall>e \<in> set (rob_entry (x_ROB x)). n_event_cycle e \<le> 10) \<and>
  (\<exists>y. execute_instruction demo_env x = Some y \<and> n_executed (ent y 0) = 1 \<and> n_is_memory (ent y 0) = 0 \<and> n_event_cycle (ent y 0) \<le> 10 \<and>
    (\<exists>z. complete_all demo_env y = Some z \<and> rob_head (x_ROB z) = 0 \<and> n_executed (ent z 0) = 2 \<and> n_ip (ent z 0) = 4 \<and>
      n_destination_memory (ent z 0) = [0, 0, 0, 0] \<and> n_sq_index (ent z 0) = [- 1, - 1, - 1, - 1]))"
  apply (simp add: schedule_instruction_def rob_empty_def rob_span_def demo_rob_def o3_cpu_new_def
      core_buffer_new_def demo_defs demo_upt256 demo_states)
  apply (simp add: rob_at_def upd_rob_def do_scheduling_def reg_dependency_def older_entries_def demo_e0_def
      demo_e1_def instr_new_def SCHEDULER_SIZE_def demo_words demo_defs check_prior_def check_source_def reg_RAW_dependency_def
   demo_upt demo_replicate_small mark_producer_def demo_fs_insert Let_def delay_def rte_push_def ring_push_def index_ring_new_def bump_index_def demo_states demo_searched)
  apply (simp add: execute_instruction_def demo_execute_loop rob_empty_def ring_first_def rte_def demo_states
      demo_env_sel EXEC_WIDTH_def put_rte_def do_execution_def upd_rob_def rob_at_def delay_def ring_pop_def bump_index_def demo_words demo_defs)
  apply (simp add: complete_all_def rob_span_def demo_words demo_upt complete_execution_def finish_execution_def rob_at_def
      upd_rob_def reg_RAW_release_def iterate_set_def fs_expand_def SMALL_SIZE_def copy_values.simps get_value_def
      release_source_def fs_search_def fastset_new_def demo_env_sel demo_states NUM_INSTR_SOURCES_def ROB_SIZE_def rte_push_def ring_push_def bump_index_def Let_def BRANCH_MISPREDICT_PENALTY_def demo_replicate_small)
  done


lemma demo_reach:
  "core_reachable (demo_rob (demo_e0\<lparr>n_fetched := completed32\<rparr>) (demo_e1\<lparr>n_fetched := completed32\<rparr>))"
proof -
  let ?x = "demo_rob demo_e0 demo_e1"
  let ?y = "demo_rob (demo_e0\<lparr>n_fetched := completed32\<rparr>) (demo_e1\<lparr>n_fetched := completed32\<rparr>)"
  let ?s = "core_step demo_core"
  obtain s where s: "complete_instr_fetch demo_env 0 False (demo_answer, ?x) = Some (s, ?y)" using demo_answer_step by blast
  have "live (x_ROB ?x) 1" by (simp add: live_def rob_pos_def demo_rob_def core_buffer_new_def ROB_SIZE_def)
  then have ok: "fetch_answer_ok 0 (demo_answer, ?x)" by (simp add: fetch_answer_ok_def demo_first_processed demo_expand)
  have "?s (demo_answer, o3_cpu_new demo_trace) (demo_answer, ?x)" by (rule branch [OF demo_handle_branch])
  moreover have "?s (demo_answer, ?x) (s, ?y)" by (rule instr_answer [OF ok s])
  ultimately have "?s\<^sup>*\<^sup>* (demo_answer, o3_cpu_new demo_trace) (s, ?y)" by auto
  then show ?thesis unfolding core_reachable_def by blast
qed

lemma core_reachable_step: "core_reachable x \<Longrightarrow> (\<And>ic s. core_step ic (s, x) (s, x')) \<Longrightarrow> core_reachable x'"
  unfolding core_reachable_def by (metis rtranclp.rtrancl_into_rtrancl)

lemma demo_live:
  assumes "core_reachable x" "unat (rob_occupancy (x_ROB x)) = 2" "rob_head (x_ROB x) = 0"
  shows "live (x_ROB x) 0" "live (x_ROB x) 1" "rob_pos (x_ROB x) 0 = 0" "rob_pos (x_ROB x) 1 = 1"
  using assms(2,3) by (simp_all add: live_def rob_pos_def ROB_SIZE_def)

lemma demo_scheduled:
  "\<exists>x. core_reachable x \<and> live (x_ROB x) 0 \<and> live (x_ROB x) 1 \<and> rob_pos (x_ROB x) 0 = 0 \<and> \<not> rob_empty (x_ROB x) \<and>
    n_scheduled (ent x 0) \<noteq> 0 \<and> n_executed (ent x 0) = 0 \<and>
    n_scheduled (ent x 1) \<noteq> 0 \<and> n_reg_ready (ent x 1) = 0 \<and>
    (\<forall>i \<in> set (ring_list (x_RTE0 x) @ ring_list (x_RTE1 x)). n_event_cycle (ent x i) \<le> f_now demo_env) \<and>
    (\<exists>y. core_reachable y \<and> live (x_ROB y) 0 \<and> live (x_ROB y) 1 \<and> due demo_env (ent y 0))"
proof -
  let ?x = "demo_rob (demo_e0\<lparr>n_fetched := completed32\<rparr>) (demo_e1\<lparr>n_fetched := completed32\<rparr>)"
  obtain x y where x: "schedule_instruction demo_env ?x = Some x" "n_scheduled (ent x 0) \<noteq> 0" "n_scheduled (ent x 1) \<noteq> 0"
    "n_reg_ready (ent x 1) = 0" "n_executed (ent x 0) = 0" "unat (rob_occupancy (x_ROB x)) = 2" "rob_head (x_ROB x) = 0"
    "\<And>e. e \<in> set (rob_entry (x_ROB x)) \<Longrightarrow> n_event_cycle e \<le> 10"
    and y: "execute_instruction demo_env x = Some y" "n_executed (ent y 0) = 1" "n_is_memory (ent y 0) = 0"
      "n_event_cycle (ent y 0) \<le> 10"
    using demo_schedule by blast
  have reach: "core_reachable x"
    by (rule core_reachable_step [OF demo_reach], rule schedule [OF _ x(1)])
      (simp add: demo_env_sel NUM_INSTR_DESTINATIONS_SPARC_def)
  have reachy: "core_reachable y" by (rule core_reachable_step [OF reach execute [OF y(1)]])
  note b = core_reachable_inv [OF reach] and l = demo_live [OF reach x(6,7)]
  have "same_ring (x_ROB x) (x_ROB y)" using execute_instruction_inv [OF b, of demo_env] y(1) by auto
  then have ly: "live (x_ROB y) = live (x_ROB x)" by (rule same_ring_live)
  have "n_event_cycle (ent x i) \<le> f_now demo_env" if "i \<in> set (ring_list (x_RTE0 x) @ ring_list (x_RTE1 x))" for i
  proof -
    obtain xs ys where r: "ring_holds ROB_SIZE (x_RTE0 x) xs" "ring_holds ROB_SIZE (x_RTE1 x) ys"
      using b by (auto simp: backend_inv_def board_inv_def board_def rings_ok_def)
    then have "i < ROB_SIZE" using that ring_list_holds by (auto simp: ring_holds_def list_all_iff)
    then have "ent x i \<in> set (rob_entry (x_ROB x))"
      using backendD(3) [OF b ROB_SIZE_words(2)] by (simp add: rob_ring_def)
    then show ?thesis using x(8) by (simp add: demo_env_sel)
  qed
  moreover have "due demo_env (ent y 0)" using y by (simp add: due_def demo_env_sel)
  moreover have "\<not> rob_empty (x_ROB x)" using x(6) by (auto simp: rob_empty_def)
  ultimately show ?thesis using reach reachy l ly x
    by (intro exI [of _ x] conjI exI [of _ y] ballI) (simp_all only: simp_thms)
qed

lemma demo_complete_head:
  "\<exists>z. core_reachable z \<and> rob_head (x_ROB z) = 0 \<and> n_executed (ent z 0) = completed_int \<and> n_ip (ent z 0) \<noteq> 0 \<and>
     holds_no_store demo_env (ent z 0)"
proof -
  let ?x = "demo_rob (demo_e0\<lparr>n_fetched := completed32\<rparr>) (demo_e1\<lparr>n_fetched := completed32\<rparr>)"
  obtain x y z where x: "schedule_instruction demo_env ?x = Some x" and y: "execute_instruction demo_env x = Some y"
    and z: "complete_all demo_env y = Some z" "rob_head (x_ROB z) = 0" "n_executed (ent z 0) = 2" "n_ip (ent z 0) = 4"
      "n_destination_memory (ent z 0) = [0, 0, 0, 0]" "n_sq_index (ent z 0) = [- 1, - 1, - 1, - 1]"
    using demo_schedule by blast
  have "core_reachable x"
    by (rule core_reachable_step [OF demo_reach], rule schedule [OF _ x])
      (simp add: demo_env_sel NUM_INSTR_DESTINATIONS_SPARC_def)
  from core_reachable_step [OF core_reachable_step [OF this execute [OF y]] complete [OF z(1)]] have "core_reachable z" .
  moreover have "holds_no_store demo_env (ent z 0)"
    using z(5,6) by (auto simp: holds_no_store_def demo_env_sel less_Suc_eq numeral_2_eq_2 arr_simps)
  ultimately show ?thesis using z by (intro exI [of _ z]) (simp add: COMPLETED_def)
qed

lemma register_backend_never_fails_witness:
  "\<exists>x x'. schedule_instruction demo_env x \<noteq> None \<and> execute_instruction demo_env x \<noteq> None \<and> complete_all demo_env x \<noteq> None \<and>
     retire_one demo_env 0 (demo_answer, x) = Some ((demo_answer, x'), True) \<and> \<not> live (x_ROB x') 0"
proof -
  obtain x where x: "core_reachable x" "rob_head (x_ROB x) = 0" "n_executed (ent x 0) = completed_int" "n_ip (ent x 0) \<noteq> 0"
    "holds_no_store demo_env (ent x 0)" using demo_complete_head by blast
  have "f_MAX_INSTR_DESTINATIONS demo_env \<le> NUM_INSTR_DESTINATIONS_SPARC"
    by (simp add: demo_env_sel NUM_INSTR_DESTINATIONS_SPARC_def)
  moreover have "cache_at demo_answer 0 \<noteq> None" by (simp add: cache_at_def demo_answer_def)
  ultimately show ?thesis using register_backend_never_fails [OF x(1), of demo_env 0 demo_answer] x(2-5) by auto
qed

lemma waiting_has_producer_witness:
  "\<exists>x p j. core_reachable x \<and> live (x_ROB x) p \<and> rob_pos (x_ROB x) p < rob_pos (x_ROB x) 1 \<and> depends_on x 1 p j"
  using waiting_has_producer [of _ 1] demo_scheduled by blast

lemma oldest_is_ready_witness:
  "\<exists>x. core_reachable x \<and> n_reg_ready (ent x 0) \<noteq> 0 \<and> n_reg_ready (ent x 1) = 0"
proof -
  obtain x where x: "core_reachable x" "live (x_ROB x) 0" "rob_pos (x_ROB x) 0 = 0" "n_scheduled (ent x 0) \<noteq> 0"
    "n_executed (ent x 0) = 0" "n_reg_ready (ent x 1) = 0" using demo_scheduled by blast
  with oldest_is_ready [OF x(1,2,4)] show ?thesis by auto
qed

lemma completion_wakes_dependants_witness:
  "\<exists>x x'. core_reachable x \<and> live (x_ROB x) 1 \<and> complete_execution demo_env x 0 = Some x' \<and> n_executed (ent x' 0) = completed_int"
proof -
  obtain y where y: "core_reachable y" "live (x_ROB y) 0" "live (x_ROB y) 1" "due demo_env (ent y 0)"
    using demo_scheduled by blast
  from completion_wakes_dependants [OF y(1) live_less [OF y(2)] y(4)] y show ?thesis by blast
qed

lemma reorder_buffer_well_formed_witness:
  "slot_ok (demo_rob (demo_e0\<lparr>n_fetched := completed32\<rparr>) (demo_e1\<lparr>n_fetched := completed32\<rparr>)) 1"
proof -
  have "(1 :: nat) \<in> {..<ROB_SIZE}" by (simp add: ROB_SIZE_def)
  then show ?thesis using reorder_buffer_well_formed [OF demo_reach] by blast
qed

lemma reg_dependency_finds_youngest_writer_witness:
  "\<exists>x'. reg_dependency demo_env 1
     (demo_rob (demo_e0\<lparr>n_fetched := completed32\<rparr>) (demo_e1\<lparr>n_fetched := completed32\<rparr>)) = Some x' \<and> depends_on x' 1 0 0"
proof -
  let ?x = "demo_rob (demo_e0\<lparr>n_fetched := completed32\<rparr>) (demo_e1\<lparr>n_fetched := completed32\<rparr>)"
  have l: "live (x_ROB ?x) 1" "live (x_ROB ?x) 0" "rob_pos (x_ROB ?x) 0 = 0" "rob_pos (x_ROB ?x) 1 = 1"
    by (simp_all add: live_def rob_pos_def demo_rob_def core_buffer_new_def ROB_SIZE_def)
  have e: "ent ?x 1 = demo_e1\<lparr>n_fetched := completed32\<rparr>" "ent ?x 0 = demo_e0\<lparr>n_fetched := completed32\<rparr>" by (simp_all add: demo_rob_def)
  have "n_scheduled (ent ?x 1) = 0" unfolding e by (simp add: demo_e1_def instr_new_def)
  moreover have "youngest_writer demo_env ?x 1 0 0"
    unfolding youngest_writer_def Let_def l e using l
    by (simp add: writes_def demo_env_sel demo_e0_def demo_e1_def instr_new_def)
  ultimately show ?thesis
    using reg_dependency_finds_youngest_writer [OF demo_reach l(1), of demo_env] live_less [OF l(2)]
    by (fastforce simp: demo_env_sel NUM_INSTR_DESTINATIONS_SPARC_def NUM_INSTR_SOURCES_def)
qed


lemma reorder_buffer_fifo_witness:
  "\<exists>x' i. add_to_rob demo_env (instr_new\<lparr>n_ip := 16, n_instr_id := 2\<rparr>)
     (demo_rob (demo_e0\<lparr>n_fetched := completed32\<rparr>) (demo_e1\<lparr>n_fetched := completed32\<rparr>)) = Some (x', i) \<and> last (rob_ids x') = 2"
proof -
  let ?x = "demo_rob (demo_e0\<lparr>n_fetched := completed32\<rparr>) (demo_e1\<lparr>n_fetched := completed32\<rparr>)"
  let ?a = "instr_new\<lparr>n_ip := 16, n_instr_id := 2\<rparr>"
  have "fresh_instr ?a" using fs_new_inv
    by (simp add: fresh_instr_def entry_shape_def instr_new_def instr_deps_def index_deps_def NUM_INSTR_SOURCES_def)
  moreover have "rob_occupancy (x_ROB ?x) < rob_SIZE (x_ROB ?x)"
    by (simp add: demo_rob_def core_buffer_new_def ROB_SIZE_def demo_words word_less_nat_alt)
  ultimately show ?thesis using reorder_buffer_fifo [OF demo_reach, of ?a demo_env] by fastforce
qed

lemma bimodal_learns_witness:
  "\<exists>x'. fold_opt (\<lambda>x t. last_branch_result 8 t x) (o3_cpu_new []) [1, 0, 1, 1] = Some x' \<and> predict_branch x' 8 = Some 1"
  using bimodal_learns [OF bimodal_new [of "[]"], where ip = 8 and ts = "[1, 0]" and t = 1] by auto

end
