(* ===== verification/Simulator.thy ===== *)
theory Simulator
  imports Core_Execute Replacement
begin

text \<open>
  The simulator as a whole, from \<open>src/main.cc\<close>: the machine that \<open>main\<close> wires together and one
  iteration of its loop, which lets every core, the last-level cache and the memory controller do
  a cycle.

  Printing, the elapsed time and the region-of-interest counters that are only printed are left
  out.  \<open>print_deadlock\<close> ends in \<open>assert(0)\<close>, so a deadlocked core is \<open>None\<close>.
\<close>

section \<open>State\<close>

text \<open>The knobs that the loop reads, and the constant that \<open>main\<close> computes for the bandwidth.\<close>

record sim_knobs =
  kn_warmup_instructions :: u64
  kn_simulation_instructions :: u64
  kn_cloudsuite :: bool
  kn_measure_ipc :: bool
  kn_measure_ipc_epoch :: u32
  kn_measure_dram_bw :: bool
  kn_measure_dram_bw_epoch :: u64
  kn_DBUS_RETURN_TIME :: u32
  kn_DBUS_MAX_CAS :: u32

text \<open>The members of the controller that measure the bandwidth.\<close>

record dram_bw =
  bw_last_enqueue_count :: u64
  bw_epoch_enqueue_count :: u64
  bw_next_measure_cycle :: u64
  bw_level :: u8
  bw_total_epochs :: u64
  bw_level_hist :: "u64 list"

record machine =
  z_knobs :: sim_knobs
  z_sys :: sys
  z_cores :: "o3_cpu list"
  z_SCHEDULING_LATENCY :: u32
  z_EXEC_LATENCY :: u32
  z_simulation_complete :: "u8 list"
  z_all_simulation_complete :: u8
  z_generated :: "bool list"
  z_num_generated :: nat
  z_cpu_draws :: nat
  z_cycle :: u64
  z_bw :: dram_bw

definition MAX_READ_PER_CYCLE :: u32 where [champsim_consts]: "MAX_READ_PER_CYCLE = 8"

section \<open>Construction\<close>

text \<open>
  The caches in the order of their types: \<open>ITLB\<close>, \<open>DTLB\<close>, \<open>STLB\<close>, \<open>L1I\<close>, \<open>L1D\<close>, \<open>L2C\<close>, and the
  shared \<open>LLC\<close>, with the sizes of \<open>inc/cache.h\<close> and the wiring of \<open>main\<close>.  Controller 0 is the
  DRAM.
\<close>

definition wire :: "u8 \<Rightarrow> u32 \<Rightarrow> int \<Rightarrow> obj option \<Rightarrow> obj option \<Rightarrow> obj option \<Rightarrow> cache \<Rightarrow> cache" where
  "wire type max_read level icache dcache lower c = c\<lparr>c_cache_type := type,
     c_MAX_READ := (if max_read > MAX_READ_PER_CYCLE then MAX_READ_PER_CYCLE else max_read),
     c_fill_level := level, c_upper_icache := [icache], c_upper_dcache := [dcache], c_lower := lower\<rparr>"

definition machine_caches :: "llc_repl \<Rightarrow> cache list" where
  "machine_caches repl =
     [wire IS_ITLB 1 1 None None (Some (Cache_obj 2))
        (cache_new ''ITLB'' 16 8 16 16 0 8 IS_ITLB repl),
      wire IS_DTLB 2 1 None None (Some (Cache_obj 2))
        (cache_new ''DTLB'' 16 4 16 16 0 8 IS_DTLB repl),
      wire IS_STLB 1 2 (Some (Cache_obj 0)) (Some (Cache_obj 1)) None
        (cache_new ''STLB'' 128 12 32 32 0 16 IS_STLB repl),
      wire IS_L1I (of_nat FETCH_WIDTH) 1 None None (Some (Cache_obj 5))
        (cache_new ''L1I'' 64 8 64 64 8 8 IS_L1I repl),
      wire IS_L1D 2 1 None None (Some (Cache_obj 5))
        (cache_new ''L1D'' 64 8 64 64 8 16 IS_L1D repl),
      wire IS_L2C 1 2 (Some (Cache_obj 3)) (Some (Cache_obj 4)) (Some (Cache_obj 6))
        (cache_new ''L2C'' 512 8 32 32 32 32 IS_L2C repl),
      wire IS_LLC (of_nat NUM_CPUS) 4 (Some (Cache_obj 5)) (Some (Cache_obj 5)) (Some (Mem_obj 0))
        (cache_new ''LLC'' 2048 16 32 32 32 64 IS_LLC repl)]"

definition machine_core :: core_caches where
  "machine_core = \<lparr>i_ITLB = 0, i_DTLB = 1, i_STLB = 2, i_L1I = 3, i_L1D = 4, i_L2C = 5\<rparr>"

definition dram_bw_new :: dram_bw where
  "dram_bw_new = \<lparr>bw_last_enqueue_count = 0, bw_epoch_enqueue_count = 0, bw_next_measure_cycle = 1,
     bw_level = 0, bw_total_epochs = 0, bw_level_hist = replicate 4 0\<rparr>"

text \<open>
  \<open>g\<close> holds the knobs of the caches; the clock and the warmup flags start at 0.  With the clock
  array as it is declared, the first cycle of the fresh controller has no result in the model: it
  reads one cell past the end of the array (\<open>fresh_controller_reads_out_of_bounds\<close>).
\<close>

definition machine_new :: "sim_knobs \<Rightarrow> globals \<Rightarrow> trace_instr list \<Rightarrow> machine option" where
  "machine_new kn g trace = do {
     repl \<leftarrow> llc_initialize_replacement (k_llc_policy g);
     Some \<lparr>z_knobs = kn,
       z_sys = \<lparr>y_caches = machine_caches repl,
         y_mems = [\<lparr>o_config = dram_config (kn_DBUS_RETURN_TIME kn),
           o_mc = mark_queues (mc_construct (dram_config (kn_DBUS_RETURN_TIME kn))),
           o_upper_icache = [Some (Cache_obj 6)], o_upper_dcache = [Some (Cache_obj 6)]\<rparr>],
         y_globals = g\<lparr>g_current_core_cycle := replicate NUM_CPUS 0,
           g_warmup_complete := replicate NUM_CPUS 0, g_all_warmup_complete := 0\<rparr>,
         y_pages = page_state_new, y_cores = [machine_core], y_LLC = 6\<rparr>,
       z_cores = [(o3_cpu_new trace)\<lparr>
         x_simulation_instructions := kn_simulation_instructions kn,
         x_begin_sim_instr := kn_warmup_instructions kn\<rparr>],
       z_SCHEDULING_LATENCY = 0, z_EXEC_LATENCY = 0,
       z_simulation_complete = replicate NUM_CPUS 0, z_all_simulation_complete = 0,
       z_generated = replicate NUM_CPUS False, z_num_generated = 0, z_cpu_draws = 0,
       z_cycle = 0, z_bw = dram_bw_new\<rparr> }"

section \<open>The end of the warmup\<close>

definition reset_cache_stats :: "nat \<Rightarrow> cache \<Rightarrow> cache" where
  "reset_cache_stats cpu c = (let t = c_stats c; z = replicate NUM_TYPES 0 in
     c\<lparr>c_stats := t\<lparr>t_ACCESS := z, t_HIT := z, t_MISS := z, t_MSHR_MERGED := z, t_STALL := z,
         t_sim_access := (t_sim_access t)[cpu := z], t_sim_hit := (t_sim_hit t)[cpu := z],
         t_sim_miss := (t_sim_miss t)[cpu := z], t_total_miss_latency := 0\<rparr>,
       c_RQ := (c_RQ c)\<lparr>q_ACCESS := 0, q_MERGED := 0, q_TO_CACHE := 0\<rparr>,
       c_WQ := (c_WQ c)\<lparr>q_ACCESS := 0, q_MERGED := 0, q_TO_CACHE := 0, q_FORWARD := 0, q_FULL := 0\<rparr>\<rparr>)"

definition reset_row_stats :: "packet_queue \<Rightarrow> packet_queue" where
  "reset_row_stats q = q\<lparr>q_ROW_BUFFER_HIT := 0, q_ROW_BUFFER_MISS := 0\<rparr>"

text \<open>The latencies of \<open>inc/cache.h\<close>.\<close>

definition set_latency :: "nat \<Rightarrow> u32 \<Rightarrow> sys \<Rightarrow> sys option" where
  "set_latency i l = on_cache i (\<lambda>c. Some (c\<lparr>c_LATENCY := l\<rparr>))"

definition core_latencies :: "core_caches \<Rightarrow> (nat \<times> u32) list" where
  "core_latencies ic = [(i_ITLB ic, 1), (i_DTLB ic, 1), (i_STLB ic, 8), (i_L1I ic, 1), (i_L1D ic, 4), (i_L2C ic, 10)]"

definition finish_warmup :: "machine \<Rightarrow> machine option" where
  "finish_warmup z = do {
     let s0 = (z_sys z)\<lparr>y_pages := (y_pages (z_sys z))\<lparr>v_PAGE_TABLE_LATENCY := 100, v_SWAP_LATENCY := 100000\<rparr>\<rparr>;
     let cores = map (\<lambda>(x, now). x\<lparr>x_begin_sim_cycle := now, x_begin_sim_instr := x_num_retired x,
         x_num_branch := 0, x_branch_mispredictions := 0,
         x_total_rob_occupancy_at_branch_mispredict := 0\<rparr>)
       (zip (z_cores z) (g_current_core_cycle (y_globals s0)));
     s1 \<leftarrow> fold_opt (\<lambda>s (cpu, ic). fold_opt (\<lambda>s i. on_cache i (\<lambda>c. Some (reset_cache_stats cpu c)) s) s
         [i_L1I ic, i_L1D ic, i_L2C ic, y_LLC s]) s0 (enumerate 0 (y_cores s0));
     m \<leftarrow> mem_at s1 0;
     let mc = o_mc m;
     let s2 = put_mc 0 (mc\<lparr>mc_RQ := map reset_row_stats (mc_RQ mc), mc_WQ := map reset_row_stats (mc_WQ mc)\<rparr>) s1;
     s3 \<leftarrow> fold_opt (\<lambda>s ic. fold_opt (\<lambda>s (i, l). set_latency i l s) s (core_latencies ic)) s2 (y_cores s2);
     s4 \<leftarrow> set_latency (y_LLC s3) 20 s3;
     Some (z\<lparr>z_sys := s4, z_cores := cores, z_SCHEDULING_LATENCY := 6, z_EXEC_LATENCY := 1\<rparr>) }"

section \<open>The order of the cores\<close>

text \<open>
  \<open>get_next_cpu\<close> draws until it finds a core that has not had its turn; \<open>draw\<close> is the random
  generator.  When all have had their turn, a new round starts.
\<close>

partial_function (option) draw_cpu :: "(nat \<Rightarrow> nat) \<Rightarrow> bool list \<Rightarrow> nat \<Rightarrow> (nat \<times> nat) option" where
  "draw_cpu draw generated n = do {
     used \<leftarrow> arr_get generated (draw n);
     if used then draw_cpu draw generated (n + 1) else Some (draw n, n + 1) }"

declare draw_cpu.simps [code]

definition get_next_cpu :: "(nat \<Rightarrow> nat) \<Rightarrow> bool list \<Rightarrow> nat \<Rightarrow> nat \<Rightarrow> (nat \<times> bool list \<times> nat \<times> nat) option" where
  "get_next_cpu draw generated num_generated n = do {
     (index, n') \<leftarrow> draw_cpu draw generated n;
     let generated = generated[index := True];
     Some (if num_generated + 1 = length generated
       then (index, replicate (length generated) False, 0, n')
       else (index, generated, num_generated + 1, n')) }"

section \<open>A cycle of a core\<close>

definition core_work :: "(nat \<Rightarrow> u64) \<Rightarrow> (nat \<Rightarrow> nat) \<Rightarrow> core_env \<Rightarrow> core_caches \<Rightarrow> core_sys \<Rightarrow> core_sys option" where
  "core_work draw rnd k ic = (\<lambda>(s, x). do {
     x1 \<leftarrow> (if rob_occupancy (x_ROB x) < rob_SIZE (x_ROB x) \<and> x_fetch_stall x = 0
       then handle_branch k x else Some x);
     (s2, x2) \<leftarrow> fetch_instruction k ic (s, x1);
     e \<leftarrow> rob_at x2 (unat (rob_next_schedule (x_ROB x2)));
     x3 \<leftarrow> (if n_scheduled e = 0 \<and> n_event_cycle e \<le> f_now k then schedule_instruction k x2 else Some x2);
     x4 \<leftarrow> execute_instruction k x3;
     x5 \<leftarrow> schedule_memory_instruction k x4;
     (s6, x6) \<leftarrow> operate_lsq k ic (s2, x5);
     s7 \<leftarrow> operate_cache draw rnd ic s6;
     (s8, x8) \<leftarrow> update_rob k ic (s7, x6);
     e \<leftarrow> rob_at x8 (unat (rob_head (x_ROB x8)));
     if n_executed e = completed_int \<and> n_event_cycle e \<le> f_now k
     then retire_rob k ic (s8, x8) else Some (s8, x8) })"

text \<open>\<open>if (measure_ipc && ...)\<close>: the hooks that hear of the rate do nothing.\<close>

definition monitor_ipc :: "sim_knobs \<Rightarrow> u64 \<Rightarrow> o3_cpu \<Rightarrow> o3_cpu" where
  "monitor_ipc kn now x =
     (if kn_measure_ipc kn \<and> now \<ge> x_next_measure_ipc_cycle x
      then x\<lparr>x_last_num_ins := x_num_retired x,
        x_last_ins_in_epoch := x_num_retired x - x_last_num_ins x,
        x_next_measure_ipc_cycle := now + ucast (kn_measure_ipc_epoch kn)\<rparr>
      else x)"

definition env_of :: "machine \<Rightarrow> u64 \<Rightarrow> core_env" where
  "env_of z now = \<lparr>f_now = now, f_SCHEDULING_LATENCY = z_SCHEDULING_LATENCY z,
     f_EXEC_LATENCY = z_EXEC_LATENCY z,
     f_MAX_INSTR_DESTINATIONS = (if kn_cloudsuite (z_knobs z) then NUM_INSTR_DESTINATIONS_SPARC else NUM_INSTR_DESTINATIONS),
     f_cloudsuite = kn_cloudsuite (z_knobs z)\<rparr>"

text \<open>\<open>print_deadlock\<close>.\<close>

definition deadlocked :: "u64 \<Rightarrow> o3_cpu \<Rightarrow> bool option" where
  "deadlocked now x = do {
     e \<leftarrow> rob_at x (unat (rob_head (x_ROB x)));
     Some (n_ip e \<noteq> 0 \<and> n_event_cycle e + DEADLOCK_CYCLE \<le> now) }"

definition check_warmup :: "nat \<Rightarrow> machine \<Rightarrow> machine option" where
  "check_warmup i z = do {
     x \<leftarrow> arr_get (z_cores z) i;
     let g = y_globals (z_sys z);
     w \<leftarrow> arr_get (g_warmup_complete g) i;
     let g1 = (if w = 0 \<and> x_num_retired x > kn_warmup_instructions (z_knobs z)
       then g\<lparr>g_warmup_complete := (g_warmup_complete g)[i := 1],
         g_all_warmup_complete := g_all_warmup_complete g + 1\<rparr> else g);
     if g_all_warmup_complete g1 = of_nat NUM_CPUS
     then finish_warmup (z\<lparr>z_sys := (z_sys z)\<lparr>y_globals := g1\<lparr>g_all_warmup_complete := g_all_warmup_complete g1 + 1\<rparr>\<rparr>\<rparr>)
     else Some (z\<lparr>z_sys := (z_sys z)\<lparr>y_globals := g1\<rparr>\<rparr>) }"

definition check_complete :: "nat \<Rightarrow> machine \<Rightarrow> machine option" where
  "check_complete i z = do {
     x \<leftarrow> arr_get (z_cores z) i;
     let g = y_globals (z_sys z);
     now \<leftarrow> arr_get (g_current_core_cycle g) i;
     done \<leftarrow> arr_get (z_simulation_complete z) i;
     Some (if g_all_warmup_complete g > of_nat NUM_CPUS \<and> done = 0 \<and>
         x_num_retired x \<ge> x_begin_sim_instr x + x_simulation_instructions x
       then z\<lparr>z_simulation_complete := (z_simulation_complete z)[i := 1],
         z_cores := (z_cores z)[i := x\<lparr>x_finish_sim_instr := x_num_retired x - x_begin_sim_instr x,
           x_finish_sim_cycle := now - x_begin_sim_cycle x\<rparr>],
         z_all_simulation_complete := z_all_simulation_complete z + 1\<rparr>
       else z) }"

definition cpu_cycle :: "(nat \<Rightarrow> u64) \<Rightarrow> (nat \<Rightarrow> nat) \<Rightarrow> nat \<Rightarrow> machine \<Rightarrow> machine option" where
  "cpu_cycle draw rnd i z = do {
     let s = z_sys z;
     let g = y_globals s;
     cycle \<leftarrow> arr_get (g_current_core_cycle g) i;
     let now = cycle + 1;
     let s1 = s\<lparr>y_globals := g\<lparr>g_current_core_cycle := (g_current_core_cycle g)[i := now]\<rparr>\<rparr>;
     x \<leftarrow> arr_get (z_cores z) i;
     ic \<leftarrow> arr_get (y_cores s) i;
     stall \<leftarrow> arr_get (v_stall_cycle (y_pages s)) i;
     let x1 = monitor_ipc (z_knobs z) now x;
     (s2, x2) \<leftarrow> (if stall \<le> now then core_work draw rnd (env_of z now) ic (s1, x1) else Some (s1, x1));
     dead \<leftarrow> deadlocked now x2;
     assert_that (\<not> dead);
     z1 \<leftarrow> check_warmup i (z\<lparr>z_sys := s2, z_cores := (z_cores z)[i := x2]\<rparr>);
     check_complete i z1 }"

section \<open>The bandwidth of the DRAM\<close>

text \<open>
  \<open>(float)100 * count / MAX_CAS\<close>, truncated; division by zero gives a value out of range.
  \<open>broadcast_bw\<close> only calls hooks that do nothing.
\<close>

definition bw_quartile :: "u64 \<Rightarrow> u32 \<Rightarrow> u32 option" where
  "bw_quartile n max_cas =
     (if max_cas = 0 then None
      else f32_to_u32 (f32_round (f32_round (100 * f32_of_u64 n) / f32_of_u64 (ucast max_cas))))"

definition bw_level_of :: "u32 \<Rightarrow> u8" where
  "bw_level_of quartile = (if quartile \<le> 25 then 0 else if quartile \<le> 50 then 1 else if quartile \<le> 75 then 2 else 3)"

definition measure_bw :: "machine \<Rightarrow> machine option" where
  "measure_bw z = (let kn = z_knobs z; b = z_bw z in
     if kn_measure_dram_bw kn \<and> z_cycle z \<ge> bw_next_measure_cycle b
     then do {
       m \<leftarrow> mem_at (z_sys z) 0;
       let enqueued = mc_rq_enqueue_count (o_mc m);
       let n = bw_epoch_enqueue_count b div 2 + (enqueued - bw_last_enqueue_count b);
       quartile \<leftarrow> bw_quartile n (kn_DBUS_MAX_CAS kn);
       let level = bw_level_of quartile;
       hist \<leftarrow> bump (bw_level_hist b) (unat level);
       Some (z\<lparr>z_bw := \<lparr>bw_last_enqueue_count = enqueued, bw_epoch_enqueue_count = n,
         bw_next_measure_cycle = z_cycle z + kn_measure_dram_bw_epoch kn, bw_level = level,
         bw_total_epochs = bw_total_epochs b + 1, bw_level_hist = hist\<rparr>\<rparr>) }
     else Some z)"

section \<open>The loop\<close>

fun cpu_rounds :: "(nat \<Rightarrow> nat) \<Rightarrow> (nat \<Rightarrow> u64) \<Rightarrow> (nat \<Rightarrow> nat) \<Rightarrow> nat \<Rightarrow> machine \<Rightarrow> machine option" where
  "cpu_rounds cpu_draw draw rnd 0 z = Some z"
| "cpu_rounds cpu_draw draw rnd (Suc n) z = do {
     (i, generated, num_generated, draws) \<leftarrow> get_next_cpu cpu_draw (z_generated z) (z_num_generated z) (z_cpu_draws z);
     z1 \<leftarrow> cpu_cycle draw rnd i
       (z\<lparr>z_generated := generated, z_num_generated := num_generated, z_cpu_draws := draws\<rparr>);
     cpu_rounds cpu_draw draw rnd n z1 }"

text \<open>One iteration of \<open>while (run_simulation)\<close>.\<close>

definition simulate_cycle :: "(nat \<Rightarrow> nat) \<Rightarrow> (nat \<Rightarrow> u64) \<Rightarrow> (nat \<Rightarrow> nat) \<Rightarrow> machine \<Rightarrow> machine option" where
  "simulate_cycle cpu_draw draw rnd z = do {
     z1 \<leftarrow> cpu_rounds cpu_draw draw rnd NUM_CPUS z;
     z2 \<leftarrow> measure_bw (z1\<lparr>z_cycle := z_cycle z1 + 1\<rparr>);
     s3 \<leftarrow> cache_operate draw rnd (y_LLC (z_sys z2)) (z_sys z2);
     s4 \<leftarrow> mem_operate 0 s3;
     Some (z2\<lparr>z_sys := s4\<rparr>) }"

definition run_simulation :: "machine \<Rightarrow> bool" where
  "run_simulation z \<longleftrightarrow> z_all_simulation_complete z \<noteq> of_nat NUM_CPUS"

partial_function (option) simulate :: "(nat \<Rightarrow> nat) \<Rightarrow> (nat \<Rightarrow> u64) \<Rightarrow> (nat \<Rightarrow> nat) \<Rightarrow> machine \<Rightarrow> machine option" where
  "simulate cpu_draw draw rnd z =
     (if run_simulation z
      then do { z1 \<leftarrow> simulate_cycle cpu_draw draw rnd z; simulate cpu_draw draw rnd z1 }
      else Some z)"

declare simulate.simps [code]

end
