(* ===== verification/Dram_Cache.thy ===== *)
theory Dram_Cache
  imports NV_Prelude
begin

text \<open>
  The functional DRAM cache of \<open>inc/base_cache.h\<close>, \<open>inc/dram_cache.h\<close> and
  \<open>src/dram_cache.cc\<close>: a set associative tag store with FIFO, LRU or random replacement
  and its counters.

  \<^item> \<open>cache_line\<close> is \<open>CacheLine\<close>; \<open>cache_base\<close> and \<open>dram_cache\<close> are the classes
    \<open>Cache_base\<close> and \<open>DRAM_Cache\<close>, the record of the subclass extending that of its base.
    The two fields no constructor initialises, \<open>cur_addr\<close> and \<open>cur_victimtag\<close>, are options,
    \<open>None\<close> until they are written.
  \<^item> The set number is a 32-bit product as in the code, \<open>int count = getCount()\<close> keeps the
    low 32 bits, and the comparison with it converts them back with their sign.
  \<^item> The value of \<open>rand()\<close> is an argument of the operations that may draw it.
  \<^item> \<open>dram_cache_wf\<close> is the invariant, and \<open>resident\<close> the abstraction: the set of the tags
    the cache holds.
\<close>

unbundle bit_operations_syntax

section \<open>The state\<close>

datatype operation = READ | WRITE

datatype cache_replacement_algo = CACHE_FIFO | CACHE_LRU | CACHE_RAND

record cache_line =
  cl_tag :: u64
  cl_valid :: bool
  cl_dirty :: bool
  cl_count :: u64

definition new_cache_line :: cache_line where
  "new_cache_line = \<lparr>cl_tag = 0, cl_valid = False, cl_dirty = False, cl_count = 0\<rparr>"

record cache_base =
  cache_size :: u64
  cache_line_size :: u32
  cache_line_num :: u64
  cache_line_shifts :: u32
  caches :: "cache_line list"
  tick_count :: u64
  cache_r_count :: u64
  cache_w_count :: u64
  cache_hit_r_count :: u64
  cache_hit_w_count :: u64
  cache_to_next_mem :: u64
  cache_hit_count :: u64
  cache_miss_count :: u64
  cache_capacity_miss_count :: u64
  cache_conflict_miss_count :: u64
  cur_addr :: "u64 option"
  cur_victimtag :: "u64 option"

record dram_cache = cache_base +
  cache_ways :: u32
  cache_set_num :: u32
  cache_set_shifts :: u32
  replacement_algo :: cache_replacement_algo

text \<open>
  \<open>std::log2\<close> of an unsigned 32-bit number, truncated to an integer; the logarithm of zero
  has no integer value.
\<close>

fun log2_floor :: "nat \<Rightarrow> nat" where
  "log2_floor n = (if n < 2 then 0 else Suc (log2_floor (n div 2)))"

declare log2_floor.simps [simp del]

definition log2_u32 :: "u32 \<Rightarrow> u32 option" where
  "log2_u32 w = (if w = 0 then None else Some (of_nat (log2_floor (unat w))))"

lemma log2_floor_bounds: "0 < n \<Longrightarrow> 2 ^ log2_floor n \<le> n \<and> n < 2 ^ Suc (log2_floor n)"
proof (induction n rule: log2_floor.induct)
  case (1 n)
  then show ?case
    by (cases "n < 2") (auto simp: log2_floor.simps [of n])
qed

lemma log2_floor_pow [simp]: "log2_floor (2 ^ k) = k"
proof (induction k)
  case (Suc k)
  then show ?case by (simp add: log2_floor.simps [of "2 * 2 ^ k"])
qed (simp add: log2_floor.simps)

lemma log2_floor_less: "0 < n \<Longrightarrow> n < 2 ^ k \<Longrightarrow> log2_floor n < k"
  using log2_floor_bounds [of n] by (meson le_less_trans power_less_imp_less_exp one_less_numeral_iff semiring_norm(76))

text \<open>The constructors.  \<open>new_cache_base\<close> lacks the fields of the subclass, which
  \<open>new_dram_cache\<close> adds.\<close>

definition new_cache_base :: "u64 \<Rightarrow> u32 \<Rightarrow> cache_base option" where
  "new_cache_base sz line_size = do {
     assert_that (line_size \<noteq> 0);
     shifts \<leftarrow> log2_u32 line_size;
     let num = sz div ucast line_size;
     Some \<lparr>cache_size = sz, cache_line_size = line_size, cache_line_num = num,
       cache_line_shifts = shifts, caches = replicate (unat num) new_cache_line, tick_count = 0,
       cache_r_count = 0, cache_w_count = 0, cache_hit_r_count = 0, cache_hit_w_count = 0,
       cache_to_next_mem = 0, cache_hit_count = 0, cache_miss_count = 0,
       cache_capacity_miss_count = 0, cache_conflict_miss_count = 0,
       cur_addr = None, cur_victimtag = None\<rparr> }"

definition new_dram_cache ::
  "u64 \<Rightarrow> u32 \<Rightarrow> cache_replacement_algo \<Rightarrow> u32 \<Rightarrow> dram_cache option" where
  "new_dram_cache sz line_size algo way = do {
     b \<leftarrow> new_cache_base sz line_size;
     assert_that (way \<noteq> 0);
     set_shifts \<leftarrow> log2_u32 way;
     Some (cache_base.extend b
       (dram_cache.fields way (ucast (sz div ucast line_size div ucast way)) set_shifts algo)) }"

definition default_dram_cache :: "dram_cache option" where
  "default_dram_cache = do {
     b \<leftarrow> new_cache_base (128 * 1024) 64;
     Some (cache_base.extend b (dram_cache.fields 4 512 2 CACHE_LRU)) }"

section \<open>The operations\<close>

text \<open>The set of an address and the number of its first line.\<close>

definition cache_set :: "dram_cache \<Rightarrow> u64 \<Rightarrow> u32 option" where
  "cache_set c addr = do {
     assert_that (unat (cache_line_shifts c) < 64 \<and> cache_set_num c \<noteq> 0);
     Some (ucast (drop_bit (unat (cache_line_shifts c)) addr mod ucast (cache_set_num c))) }"

definition cache_first_line :: "dram_cache \<Rightarrow> u64 \<Rightarrow> u64 option" where
  "cache_first_line c addr = do {
     s \<leftarrow> cache_set c addr;
     Some (ucast (s * cache_ways c)) }"

definition cache_tag :: "dram_cache \<Rightarrow> u64 \<Rightarrow> u64" where
  "cache_tag c addr = drop_bit (unat (cache_line_shifts c)) addr"

definition check_cache_hit :: "dram_cache \<Rightarrow> u64 \<Rightarrow> bool option" where
  "check_cache_hit c addr = do {
     line \<leftarrow> cache_first_line c addr;
     let bound = line + ucast (cache_ways c);
     found \<leftarrow> search_arr (\<lambda>l. cl_valid l \<and> cl_tag l = cache_tag c addr) (caches c) (unat line) (unat bound);
     Some (found \<noteq> None) }"

definition ULONG_MAX :: u64 where
  "ULONG_MAX = 0xFFFFFFFFFFFFFFFF"

definition get_cache_free_line :: "dram_cache \<Rightarrow> u64 \<Rightarrow> u64 option" where
  "get_cache_free_line c addr = do {
     line \<leftarrow> cache_first_line c addr;
     let bound = line + ucast (cache_ways c);
     found \<leftarrow> search_arr (\<lambda>l. \<not> cl_valid l) (caches c) (unat line) (unat bound);
     Some (case found of None \<Rightarrow> ULONG_MAX | Some i \<Rightarrow> of_nat i) }"

text \<open>The loop that looks for the smallest counter, shared by FIFO and LRU; \<open>count\<close> is the
  \<open>int\<close> of the code.\<close>

definition least_step :: "cache_line list \<Rightarrow> u32 \<times> nat \<Rightarrow> nat \<Rightarrow> (u32 \<times> nat) option" where
  "least_step ls st i = do {
     l \<leftarrow> arr_get ls i;
     Some (if cl_count l < scast (fst st) then (ucast (cl_count l), i) else st) }"

definition choose_victim :: "nat \<Rightarrow> dram_cache \<Rightarrow> u64 \<Rightarrow> u64 option" where
  "choose_victim rnd c line = do {
     first \<leftarrow> arr_get (caches c) (unat line);
     let bound = line + ucast (cache_ways c);
     (case replacement_algo c of
         CACHE_RAND \<Rightarrow> Some (line + of_nat (rnd mod unat (cache_ways c)))
       | _ \<Rightarrow> do {
           r \<leftarrow> fold_opt (least_step (caches c)) (ucast (cl_count first), unat line)
                  [unat line ..< unat bound];
           Some (of_nat (snd r)) }) }"

definition dram_find_victim :: "nat \<Rightarrow> dram_cache \<Rightarrow> u64 \<Rightarrow> (dram_cache \<times> u64) option" where
  "dram_find_victim rnd c addr = do {
     free \<leftarrow> get_cache_free_line c addr;
     if free < cache_line_num c
     then Some (c\<lparr>cur_victimtag := Some ULONG_MAX,
                  cache_capacity_miss_count := cache_capacity_miss_count c + 1\<rparr>, free)
     else do {
       line \<leftarrow> cache_first_line c addr;
       victim \<leftarrow> choose_victim rnd c line;
       l \<leftarrow> arr_get (caches c) (unat victim);
       let c1 = c\<lparr>cache_conflict_miss_count := cache_conflict_miss_count c + 1,
                  cur_victimtag := Some (cl_tag l)\<rparr>;
       let c2 = (if cl_dirty l \<and> cl_valid l
                 then c1\<lparr>cache_to_next_mem := cache_to_next_mem c1 + 1\<rparr> else c1);
       Some (c2, victim) } }"

text \<open>The counter of a line after a hit; \<open>FIFO\<close> leaves it.\<close>

definition touch_line :: "dram_cache \<Rightarrow> cache_line \<Rightarrow> cache_line" where
  "touch_line c l = (case replacement_algo c of
     CACHE_FIFO \<Rightarrow> l | _ \<Rightarrow> l\<lparr>cl_count := tick_count c\<rparr>)"

definition read_cache :: "dram_cache \<Rightarrow> u64 \<Rightarrow> (dram_cache \<times> bool) option" where
  "read_cache c line = do {
     l \<leftarrow> arr_get (caches c) (unat line);
     Some (if cl_valid l
       then (c\<lparr>cache_hit_r_count := cache_hit_r_count c + 1,
               caches := (caches c)[unat line := touch_line c l]\<rparr>, True)
       else (c, False)) }"

definition write_cache :: "dram_cache \<Rightarrow> u64 \<Rightarrow> (dram_cache \<times> bool) option" where
  "write_cache c line = do {
     l \<leftarrow> arr_get (caches c) (unat line);
     Some (if cl_valid l
       then (c\<lparr>cache_hit_w_count := cache_hit_w_count c + 1,
               caches := (caches c)[unat line := touch_line c (l\<lparr>cl_dirty := True\<rparr>)]\<rparr>, True)
       else (c, False)) }"

text \<open>What a miss writes into the line it takes.\<close>

definition take_line :: "dram_cache \<Rightarrow> u64 \<Rightarrow> operation \<Rightarrow> cache_line \<Rightarrow> cache_line" where
  "take_line c addr op l = l\<lparr>cl_valid := True, cl_dirty := (op = WRITE),
     cl_tag := cache_tag c addr, cl_count := tick_count c\<rparr>"

text \<open>The state in which an operation looks up its address.\<close>

definition counted :: "u64 \<Rightarrow> operation \<Rightarrow> dram_cache \<Rightarrow> dram_cache" where
  "counted addr op c = (let c1 = c\<lparr>tick_count := tick_count c + 1, cur_addr := Some addr\<rparr> in
     case op of READ \<Rightarrow> c1\<lparr>cache_r_count := cache_r_count c1 + 1\<rparr>
       | WRITE \<Rightarrow> c1\<lparr>cache_w_count := cache_w_count c1 + 1\<rparr>)"

definition do_cache_op :: "nat \<Rightarrow> u64 \<Rightarrow> operation \<Rightarrow> dram_cache \<Rightarrow> dram_cache option" where
  "do_cache_op rnd addr op c = do {
     let c2 = counted addr op c;
     line \<leftarrow> cache_first_line c2 addr;
     hit \<leftarrow> check_cache_hit c2 addr;
     if hit
     then do {
       r \<leftarrow> (case op of READ \<Rightarrow> read_cache c2 line | WRITE \<Rightarrow> write_cache c2 line);
       Some ((fst r)\<lparr>cache_hit_count := cache_hit_count (fst r) + 1\<rparr>) }
     else do {
       let c3 = c2\<lparr>cache_miss_count := cache_miss_count c2 + 1\<rparr>;
       (c4, victim) \<leftarrow> dram_find_victim rnd c3 addr;
       l \<leftarrow> arr_get (caches c4) (unat victim);
       Some (c4\<lparr>caches := (caches c4)[unat victim := take_line c4 addr op l]\<rparr>) } }"

definition get_victim_tag :: "dram_cache \<Rightarrow> u64 option" where
  "get_victim_tag c = cur_victimtag c"

definition flush_cache :: "dram_cache \<Rightarrow> dram_cache option" where
  "flush_cache c = do {
     assert_that (unat (cache_line_num c) \<le> length (caches c));
     Some (c\<lparr>caches :=
         map (\<lambda>l. l\<lparr>cl_valid := False, cl_dirty := False\<rparr>) (take (unat (cache_line_num c)) (caches c))
         @ drop (unat (cache_line_num c)) (caches c),
       tick_count := 0, cache_r_count := 0, cache_w_count := 0, cache_hit_r_count := 0,
       cache_hit_w_count := 0, cache_to_next_mem := 0, cache_hit_count := 0, cache_miss_count := 0,
       cache_capacity_miss_count := 0, cache_conflict_miss_count := 0,
       cur_addr := Some 0, cur_victimtag := Some 0\<rparr>) }"

section \<open>The invariant\<close>

definition set_index :: "dram_cache \<Rightarrow> u64 \<Rightarrow> nat" where
  "set_index c t = unat t mod unat (cache_set_num c)"

definition first_of :: "dram_cache \<Rightarrow> u64 \<Rightarrow> nat" where
  "first_of c t = set_index c t * unat (cache_ways c)"

definition in_set :: "dram_cache \<Rightarrow> u64 \<Rightarrow> nat \<Rightarrow> bool" where
  "in_set c t i \<longleftrightarrow> first_of c t \<le> i \<and> i < first_of c t + unat (cache_ways c)"

definition geometry_ok :: "dram_cache \<Rightarrow> bool" where
  "geometry_ok c \<longleftrightarrow> cache_ways c \<noteq> 0 \<and> cache_set_num c \<noteq> 0 \<and> unat (cache_line_shifts c) < 64 \<and>
     unat (cache_set_num c) * unat (cache_ways c) < 2 ^ 32 \<and>
     unat (cache_set_num c) * unat (cache_ways c) \<le> length (caches c) \<and>
     length (caches c) = unat (cache_line_num c)"

definition holds_at :: "dram_cache \<Rightarrow> u64 \<Rightarrow> nat \<Rightarrow> bool" where
  "holds_at c t i \<longleftrightarrow> i < length (caches c) \<and> cl_valid (caches c ! i) \<and> cl_tag (caches c ! i) = t"

definition lines_ok :: "dram_cache \<Rightarrow> bool" where
  "lines_ok c \<longleftrightarrow> (\<forall>t i. holds_at c t i \<longrightarrow> in_set c t i) \<and>
     (\<forall>t i j. holds_at c t i \<longrightarrow> holds_at c t j \<longrightarrow> i = j) \<and>
     (\<forall>t i j. in_set c t j \<longrightarrow> cl_valid (caches c ! j) \<longrightarrow> first_of c t \<le> i \<longrightarrow> i \<le> j \<longrightarrow> cl_valid (caches c ! i))"

definition dram_counters_ok :: "dram_cache \<Rightarrow> bool" where
  "dram_counters_ok c \<longleftrightarrow> cache_r_count c + cache_w_count c = tick_count c \<and>
     cache_hit_count c + cache_miss_count c = tick_count c \<and>
     cache_hit_r_count c + cache_hit_w_count c = cache_hit_count c \<and>
     cache_capacity_miss_count c + cache_conflict_miss_count c = cache_miss_count c"

definition dram_cache_wf :: "dram_cache \<Rightarrow> bool" where
  "dram_cache_wf c \<longleftrightarrow> geometry_ok c \<and> lines_ok c \<and> dram_counters_ok c"

definition resident :: "dram_cache \<Rightarrow> u64 set" where
  "resident c = {t. \<exists>i. holds_at c t i}"

lemma set_index_less: "geometry_ok c \<Longrightarrow> set_index c t < unat (cache_set_num c)"
  by (simp add: set_index_def geometry_ok_def unat_gt_0)

lemma in_set_bound:
  assumes "geometry_ok c"
  shows "first_of c t + unat (cache_ways c) \<le> unat (cache_set_num c) * unat (cache_ways c)"
proof -
  have "Suc (set_index c t) * unat (cache_ways c) \<le> unat (cache_set_num c) * unat (cache_ways c)"
    using set_index_less [OF assms, of t] by (intro mult_le_mono1) simp
  then show ?thesis by (simp add: first_of_def algebra_simps)
qed

lemma in_set_length: "geometry_ok c \<Longrightarrow> in_set c t i \<Longrightarrow> i < length (caches c)"
  using in_set_bound [of c t] by (simp add: in_set_def geometry_ok_def)

lemma first_in_set: "geometry_ok c \<Longrightarrow> in_set c t (first_of c t)"
  by (simp add: in_set_def geometry_ok_def unat_gt_0)

lemma unat_ucast_u32 [simp]: "unat (ucast (w :: u32) :: u64) = unat w"
  using unsigned_less [of w, where ?'a = nat] by (simp add: unsigned_ucast_eq take_bit_nat_eq_self)

lemma cache_set_eq:
  assumes "geometry_ok c"
  shows "cache_set c addr = Some (of_nat (set_index c (cache_tag c addr)))"
proof -
  let ?m = "cache_tag c addr mod ucast (cache_set_num c) :: u64"
  have "unat ?m = set_index c (cache_tag c addr)"
    by (simp add: unat_mod set_index_def)
  then have "ucast ?m = (of_nat (set_index c (cache_tag c addr)) :: u32)"
    by (metis of_nat_unat)
  then show ?thesis using assms by (simp add: cache_set_def geometry_ok_def cache_tag_def)
qed

lemma cache_first_line_eq:
  assumes "geometry_ok c"
  shows "cache_first_line c addr = Some (of_nat (first_of c (cache_tag c addr)))"
proof -
  let ?t = "cache_tag c addr"
  have lt: "first_of c ?t < 2 ^ 32"
    using in_set_bound [OF assms, of ?t] assms by (simp add: geometry_ok_def)
  have "(of_nat (set_index c ?t) * cache_ways c :: u32) = of_nat (first_of c ?t)"
    by (simp add: first_of_def)
  moreover have "ucast (of_nat (first_of c ?t) :: u32) = (of_nat (first_of c ?t) :: u64)"
    using lt by (intro word_eq_iff_unsigned [where ?'a = nat, THEN iffD2]) (simp add: unat_of_nat)
  ultimately show ?thesis using assms by (simp add: cache_first_line_def cache_set_eq)
qed

lemma line_bounds:
  assumes "geometry_ok c" "line = (of_nat (first_of c t) :: u64)"
  shows "unat line = first_of c t" "unat (line + ucast (cache_ways c)) = first_of c t + unat (cache_ways c)"
proof -
  have lt: "first_of c t + unat (cache_ways c) < 2 ^ 32"
    using in_set_bound [OF assms(1), of t] assms(1) by (simp add: geometry_ok_def)
  then show l: "unat line = first_of c t" using assms(2) by (simp add: unat_of_nat)
  show "unat (line + ucast (cache_ways c)) = first_of c t + unat (cache_ways c)"
    using lt l by (subst unat_add_lem [THEN iffD1]) simp_all
qed

lemma check_cache_hit_eq:
  assumes "geometry_ok c" "lines_ok c"
  shows "check_cache_hit c addr = Some (cache_tag c addr \<in> resident c)"
proof -
  let ?t = "cache_tag c addr"
  let ?P = "\<lambda>i. cl_valid (caches c ! i) \<and> cl_tag (caches c ! i) = ?t"
  have len: "first_of c ?t + unat (cache_ways c) \<le> length (caches c)"
    using in_set_bound [OF assms(1), of ?t] assms(1) by (simp add: geometry_ok_def)
  have "(first_index ?P (first_of c ?t) (first_of c ?t + unat (cache_ways c)) \<noteq> None) = (?t \<in> resident c)"
    using assms(2) len unfolding first_index_None resident_def lines_ok_def holds_at_def in_set_def
    by (smt (verit) less_le_trans mem_Collect_eq)
  then show ?thesis
    using assms(1) len
    by (simp add: check_cache_hit_def cache_first_line_eq line_bounds [OF assms(1) refl] search_arr_eq)
qed

section \<open>Filling a line\<close>

text \<open>Two caches with the same geometry.\<close>

definition same_geometry :: "dram_cache \<Rightarrow> dram_cache \<Rightarrow> bool" where
  "same_geometry c c' \<longleftrightarrow> cache_ways c' = cache_ways c \<and> cache_set_num c' = cache_set_num c \<and>
     cache_line_shifts c' = cache_line_shifts c \<and> cache_line_num c' = cache_line_num c \<and>
     replacement_algo c' = replacement_algo c \<and> length (caches c') = length (caches c)"

lemma same_geometry_facts:
  assumes "same_geometry c c'"
  shows "geometry_ok c' = geometry_ok c" "first_of c' t = first_of c t" "in_set c' t i = in_set c t i"
    "cache_tag c' addr = cache_tag c addr"
  using assms by (simp_all add: same_geometry_def geometry_ok_def first_of_def set_index_def in_set_def cache_tag_def)

lemma lines_ok_cong:
  "same_geometry c c' \<Longrightarrow> caches c' = caches c \<Longrightarrow> lines_ok c' = lines_ok c \<and> resident c' = resident c"
  by (simp add: lines_ok_def resident_def holds_at_def same_geometry_facts)

text \<open>Rewriting a line without its tag and valid bit changes nothing of the abstraction.\<close>

lemma lines_ok_touch:
  assumes "same_geometry c c'" "caches c' = (caches c)[i := l]" "i < length (caches c)"
    "cl_valid l = cl_valid (caches c ! i)" "cl_tag l = cl_tag (caches c ! i)"
  shows "lines_ok c' = lines_ok c" "resident c' = resident c"
proof -
  have v: "cl_valid (caches c' ! j) = cl_valid (caches c ! j)" "cl_tag (caches c' ! j) = cl_tag (caches c ! j)" for j
    using assms by (cases "i = j"; simp)+
  then have h: "holds_at c' t j = holds_at c t j" for t j
    using assms(2) by (simp add: holds_at_def)
  show "lines_ok c' = lines_ok c" "resident c' = resident c"
    by (simp_all add: lines_ok_def resident_def h v same_geometry_facts [OF assms(1)])
qed

text \<open>Sets do not overlap.\<close>

lemma in_set_same:
  assumes "in_set c u i" "in_set c t i"
  shows "set_index c u = set_index c t"
proof -
  have "i div unat (cache_ways c) = set_index c x" if "in_set c x i" for x
  proof -
    have "set_index c x * unat (cache_ways c) \<le> i" "i < Suc (set_index c x) * unat (cache_ways c)"
      using that by (simp_all add: in_set_def first_of_def)
    then show ?thesis by (metis div_nat_eqI mult.commute)
  qed
  then show ?thesis using assms by metis
qed

text \<open>A line of the set of \<open>t\<close> takes the tag \<open>t\<close>, which no line holds.\<close>

lemma lines_ok_fill:
  assumes ok: "geometry_ok c" "lines_ok c" and sh: "same_geometry c c'" "caches c' = (caches c)[v := l]"
    and v: "in_set c t v" and l: "cl_valid l" "cl_tag l = t" and new: "t \<notin> resident c"
    and below: "\<And>i. first_of c t \<le> i \<Longrightarrow> i < v \<Longrightarrow> cl_valid (caches c ! i)"
  shows "lines_ok c'"
    "resident c' = insert t (resident c - (if cl_valid (caches c ! v) then {cl_tag (caches c ! v)} else {}))"
proof -
  have vl: "v < length (caches c)" by (rule in_set_length [OF ok(1) v])
  have h: "holds_at c' u i = (if i = v then u = t else holds_at c u i)" for u i
    using sh(2) vl l by (auto simp: holds_at_def nth_list_update)
  have nt: "\<not> holds_at c t i" for i using new by (auto simp: resident_def)
  have one: "holds_at c u i \<Longrightarrow> holds_at c u j \<Longrightarrow> i = j" for u i j
    using ok(2) unfolding lines_ok_def by blast
  have disj: "i = v \<Longrightarrow> in_set c u i \<Longrightarrow> first_of c u = first_of c t" for u i
    using in_set_same [of c u i t] v by (simp add: first_of_def)
  have "in_set c' u i" if "holds_at c' u i" for u i
    using that v ok(2) by (auto simp: h same_geometry_facts [OF sh(1)] lines_ok_def split: if_splits)
  moreover have "i = j" if "holds_at c' u i" "holds_at c' u j" for u i j
    using that nt one by (auto simp: h split: if_splits)
  moreover have "cl_valid (caches c' ! i)"
    if "in_set c' u j" "cl_valid (caches c' ! j)" "first_of c' u \<le> i" "i \<le> j" for u i j
  proof (cases "i = v")
    case False
    then have i: "caches c' ! i = caches c ! i" using sh(2) by simp
    show ?thesis
    proof (cases "j = v")
      case True
      then show ?thesis using that below False disj [of j u] i by (simp add: same_geometry_facts [OF sh(1)])
    next
      case jv: False
      then show ?thesis using that ok(2) i sh(2) unfolding lines_ok_def
        by (metis nth_list_update_neq same_geometry_facts(2,3) [OF sh(1)])
    qed
  qed (simp add: sh(2) vl l)
  ultimately show "lines_ok c'" unfolding lines_ok_def by blast
  show "resident c' = insert t (resident c - (if cl_valid (caches c ! v) then {cl_tag (caches c ! v)} else {}))"
  proof (intro set_eqI iffI)
    fix u assume "u \<in> resident c'"
    then obtain i where i: "holds_at c' u i" by (auto simp: resident_def)
    show "u \<in> insert t (resident c - (if cl_valid (caches c ! v) then {cl_tag (caches c ! v)} else {}))"
    proof (cases "i = v")
      case False
      then have u: "holds_at c u i" using i by (simp add: h)
      then have "\<not> (cl_valid (caches c ! v) \<and> cl_tag (caches c ! v) = u)"
        using one [of u i v] False vl by (auto simp: holds_at_def)
      then show ?thesis using u by (auto simp: resident_def)
    qed (use i in \<open>simp add: h\<close>)
  next
    fix u assume u: "u \<in> insert t (resident c - (if cl_valid (caches c ! v) then {cl_tag (caches c ! v)} else {}))"
    show "u \<in> resident c'"
    proof (cases "u = t")
      case True
      then show ?thesis using h [of t v] by (auto simp: resident_def)
    next
      case False
      then obtain i where i: "holds_at c u i" using u by (auto simp: resident_def)
      then have "i \<noteq> v" using u False by (auto simp: holds_at_def)
      then show ?thesis using i h [of u i] by (auto simp: resident_def)
    qed
  qed
qed

section \<open>The victim\<close>

lemma int_count_small:
  "w < 2 ^ 31 \<Longrightarrow> scast (ucast (w :: u64) :: u32) = w"
proof -
  assume "w < 2 ^ 31"
  then have u: "uint w < 2 ^ 31" by (simp add: word_less_def)
  have "sint (ucast w :: u32) = uint w"
    using u uint_ge_0 [of w] by (simp add: signed_ucast_eq signed_take_bit_int_eq_self order_trans [of _ 0])
  then show ?thesis by (simp add: scast_eq)
qed

text \<open>The loop over the counters ends on the index it started with or on one it visited; the
  counters of the visited lines, when they fit a positive \<open>int\<close>, are not below the result's.\<close>

lemma least_loop:
  assumes "set is \<subseteq> {..< length ls}" "n < length ls" "cn = ucast (cl_count (ls ! n))"
  obtains r where "fold_opt (least_step ls) (cn, n) is = Some r" "snd r = n \<or> snd r \<in> set is"
    "(\<forall>i \<in> insert n (set is). cl_count (ls ! i) < 2 ^ 31) \<Longrightarrow>
       (\<forall>i \<in> insert n (set is). cl_count (ls ! snd r) \<le> cl_count (ls ! i))"
  using assms
proof (induction "is" arbitrary: n cn thesis)
  case (Cons i "is")
  let ?st = "if cl_count (ls ! i) < scast cn then (ucast (cl_count (ls ! i)), i) else (cn, n)"
  have st: "snd ?st < length ls" "fst ?st = ucast (cl_count (ls ! snd ?st))" "snd ?st = n \<or> snd ?st = i"
    using Cons.prems by (auto split: if_splits)
  obtain r where r: "fold_opt (least_step ls) ?st is = Some r" "snd r = snd ?st \<or> snd r \<in> set is"
    "(\<forall>k \<in> insert (snd ?st) (set is). cl_count (ls ! k) < 2 ^ 31) \<Longrightarrow>
       (\<forall>k \<in> insert (snd ?st) (set is). cl_count (ls ! snd r) \<le> cl_count (ls ! k))"
    by (rule Cons.IH [OF _ _ st(1,2), unfolded prod.collapse]) (use Cons.prems(2) in auto)
  have step: "fold_opt (least_step ls) (cn, n) (i # is) = Some r"
    using r(1) Cons.prems(2) by (simp add: least_step_def)
  show ?case
  proof (rule Cons.prems(1) [OF step])
    show "snd r = n \<or> snd r \<in> set (i # is)" using r(2) st(3) by auto
    assume small: "\<forall>k \<in> insert n (set (i # is)). cl_count (ls ! k) < 2 ^ 31"
    have "scast cn = cl_count (ls ! n)"
      using small Cons.prems(4) by (simp add: int_count_small)
    then have "cl_count (ls ! snd ?st) \<le> cl_count (ls ! n) \<and> cl_count (ls ! snd ?st) \<le> cl_count (ls ! i)"
      by (auto simp: not_less)
    moreover have "\<forall>k \<in> insert (snd ?st) (set is). cl_count (ls ! snd r) \<le> cl_count (ls ! k)"
      using r(3) small st(3) by (metis insert_iff list.set_intros(1) list.set_intros(2))
    ultimately show "\<forall>k \<in> insert n (set (i # is)). cl_count (ls ! snd r) \<le> cl_count (ls ! k)"
      using order_trans by fastforce
  qed
qed simp

definition set_full :: "dram_cache \<Rightarrow> u64 \<Rightarrow> bool" where
  "set_full c t \<longleftrightarrow> (\<forall>i. in_set c t i \<longrightarrow> cl_valid (caches c ! i))"

definition same_counts :: "dram_cache \<Rightarrow> dram_cache \<Rightarrow> bool" where
  "same_counts c c' \<longleftrightarrow> tick_count c' = tick_count c \<and> cache_r_count c' = cache_r_count c \<and>
     cache_w_count c' = cache_w_count c \<and> cache_hit_r_count c' = cache_hit_r_count c \<and>
     cache_hit_w_count c' = cache_hit_w_count c \<and> cache_hit_count c' = cache_hit_count c \<and>
     cache_miss_count c' = cache_miss_count c"

text \<open>What a search for a victim promises of the cache it returns and of the line.\<close>

definition victim_spec :: "dram_cache \<Rightarrow> u64 \<Rightarrow> dram_cache \<Rightarrow> nat \<Rightarrow> bool" where
  "victim_spec c t c' v \<longleftrightarrow> same_geometry c c' \<and> caches c' = caches c \<and> same_counts c c' \<and>
     cur_addr c' = cur_addr c \<and> in_set c t v \<and>
     (\<forall>i. first_of c t \<le> i \<longrightarrow> i < v \<longrightarrow> cl_valid (caches c ! i)) \<and>
     cl_valid (caches c ! v) = set_full c t \<and>
     cur_victimtag c' = Some (if set_full c t then cl_tag (caches c ! v) else ULONG_MAX) \<and>
     cache_capacity_miss_count c' + cache_conflict_miss_count c' =
       cache_capacity_miss_count c + cache_conflict_miss_count c + 1 \<and>
     (set_full c t \<longrightarrow> replacement_algo c \<noteq> CACHE_RAND \<longrightarrow>
       (\<forall>i. in_set c t i \<longrightarrow> cl_count (caches c ! i) < 2 ^ 31) \<longrightarrow>
       (\<forall>i. in_set c t i \<longrightarrow> cl_count (caches c ! v) \<le> cl_count (caches c ! i)))"

lemma free_line_eq:
  assumes g: "geometry_ok c"
  shows "get_cache_free_line c addr =
    Some (case first_index (\<lambda>i. \<not> cl_valid (caches c ! i)) (first_of c (cache_tag c addr))
            (first_of c (cache_tag c addr) + unat (cache_ways c)) of
          None \<Rightarrow> ULONG_MAX | Some i \<Rightarrow> of_nat i)"
proof -
  have "first_of c (cache_tag c addr) + unat (cache_ways c) \<le> length (caches c)"
    using in_set_bound [OF g, of "cache_tag c addr"] g by (simp add: geometry_ok_def)
  then show ?thesis
    by (simp add: get_cache_free_line_def cache_first_line_eq [OF g] line_bounds [OF g refl] search_arr_eq)
qed

lemma unat_line:
  assumes "geometry_ok c" "i < length (caches c)"
  shows "unat (of_nat i :: u64) = i" "of_nat i < cache_line_num c"
proof -
  have "i < 2 ^ 64" using assms unsigned_less [of "cache_line_num c", where ?'a = nat] by (simp add: geometry_ok_def)
  then show u: "unat (of_nat i :: u64) = i" by (simp add: unat_of_nat)
  show "of_nat i < cache_line_num c" using assms u by (simp add: word_less_nat_alt geometry_ok_def)
qed

lemma max_not_line: "\<not> ULONG_MAX < cache_line_num c"
proof -
  have "unat (cache_line_num c) < 2 ^ 64" using unsigned_less [of "cache_line_num c", where ?'a = nat] by simp
  then show ?thesis by (simp add: ULONG_MAX_def word_less_nat_alt)
qed

text \<open>A free way is taken first, the lowest one.\<close>

lemma find_victim_free:
  assumes g: "geometry_ok c" and nf: "\<not> set_full c (cache_tag c addr)"
  obtains c' v where "dram_find_victim rnd c addr = Some (c', v)" "victim_spec c (cache_tag c addr) c' (unat v)"
proof -
  let ?t = "cache_tag c addr"
  obtain k where k: "first_index (\<lambda>i. \<not> cl_valid (caches c ! i)) (first_of c ?t)
      (first_of c ?t + unat (cache_ways c)) = Some k"
    using nf first_index_ex [of "first_of c ?t" _ _ "\<lambda>i. \<not> cl_valid (caches c ! i)"]
    unfolding set_full_def in_set_def by blast
  from first_index_Some [OF k] have k': "in_set c ?t k" "\<not> cl_valid (caches c ! k)"
    "\<And>i. first_of c ?t \<le> i \<Longrightarrow> i < k \<Longrightarrow> cl_valid (caches c ! i)"
    by (auto simp: in_set_def)
  note kl = unat_line [OF g in_set_length [OF g k'(1)]]
  let ?c = "c\<lparr>cur_victimtag := Some ULONG_MAX, cache_capacity_miss_count := cache_capacity_miss_count c + 1\<rparr>"
  have "dram_find_victim rnd c addr = Some (?c, of_nat k)"
    by (simp add: dram_find_victim_def free_line_eq [OF g] k kl)
  moreover have "victim_spec c ?t ?c (unat (of_nat k :: u64))"
    using k' nf by (simp add: victim_spec_def same_geometry_def same_counts_def kl)
  ultimately show ?thesis by (rule that)
qed

text \<open>In a full set the policy chooses.\<close>

lemma choose_victim_ok:
  fixes line :: u64
  assumes g: "geometry_ok c" and line: "line = of_nat (first_of c t)"
  obtains v where "choose_victim rnd c line = Some v" "in_set c t (unat v)"
    "replacement_algo c \<noteq> CACHE_RAND \<longrightarrow> (\<forall>i. in_set c t i \<longrightarrow> cl_count (caches c ! i) < 2 ^ 31) \<longrightarrow>
      (\<forall>i. in_set c t i \<longrightarrow> cl_count (caches c ! unat v) \<le> cl_count (caches c ! i))"
proof -
  note lb = line_bounds [OF g line]
  have ll: "first_of c t < length (caches c)" by (rule in_set_length [OF g first_in_set [OF g]])
  show ?thesis
  proof (cases "replacement_algo c = CACHE_RAND")
  case True
  let ?k = "rnd mod unat (cache_ways c)"
  have "?k < unat (cache_ways c)" using g by (simp add: geometry_ok_def unat_gt_0)
  then have "in_set c t (first_of c t + ?k)" by (simp add: in_set_def)
  moreover have "unat (of_nat (first_of c t + ?k) :: u64) = first_of c t + ?k"
    by (rule unat_line(1) [OF g in_set_length [OF g calculation]])
  moreover have "choose_victim rnd c line = Some (of_nat (first_of c t + ?k))"
    using True ll by (simp add: choose_victim_def lb) (simp add: line)
  ultimately show ?thesis using that True by metis
next
  case False
  let ?is = "[first_of c t ..< first_of c t + unat (cache_ways c)]"
  have "set ?is \<subseteq> {..< length (caches c)}"
    using in_set_length [OF g] by (auto simp: in_set_def)
  then obtain r where r: "fold_opt (least_step (caches c)) (ucast (cl_count (caches c ! first_of c t)), first_of c t) ?is = Some r"
    "snd r = first_of c t \<or> snd r \<in> set ?is"
    "(\<forall>i \<in> insert (first_of c t) (set ?is). cl_count (caches c ! i) < 2 ^ 31) \<Longrightarrow>
       (\<forall>i \<in> insert (first_of c t) (set ?is). cl_count (caches c ! snd r) \<le> cl_count (caches c ! i))"
    using least_loop in_set_length [OF g first_in_set [OF g]] by blast
  have m: "i \<in> insert (first_of c t) (set ?is) \<longleftrightarrow> in_set c t i" for i
    using first_in_set [OF g, of t] by (auto simp: in_set_def)
  have v: "in_set c t (snd r)" using r(2) m by auto
  note vl = unat_line [OF g in_set_length [OF g v]]
  have "choose_victim rnd c line = Some (of_nat (snd r))"
    using False r(1) ll by (cases "replacement_algo c") (simp_all add: choose_victim_def lb)
  then show ?thesis using that v vl r(3) m by metis
  qed
qed

lemma find_victim_full:
  assumes g: "geometry_ok c" and f: "set_full c (cache_tag c addr)"
  obtains c' v where "dram_find_victim rnd c addr = Some (c', v)" "victim_spec c (cache_tag c addr) c' (unat v)"
proof -
  let ?t = "cache_tag c addr"
  let ?line = "of_nat (first_of c ?t) :: u64"
  have none: "first_index (\<lambda>i. \<not> cl_valid (caches c ! i)) (first_of c ?t)
      (first_of c ?t + unat (cache_ways c)) = None"
    using f by (simp add: first_index_None set_full_def in_set_def)
  obtain v where v: "choose_victim rnd c ?line = Some v" "in_set c ?t (unat v)"
    "replacement_algo c \<noteq> CACHE_RAND \<longrightarrow> (\<forall>i. in_set c ?t i \<longrightarrow> cl_count (caches c ! i) < 2 ^ 31) \<longrightarrow>
      (\<forall>i. in_set c ?t i \<longrightarrow> cl_count (caches c ! unat v) \<le> cl_count (caches c ! i))"
    by (rule choose_victim_ok [OF g refl])
  let ?l = "caches c ! unat v"
  define c1 where "c1 = c\<lparr>cache_conflict_miss_count := cache_conflict_miss_count c + 1, cur_victimtag := Some (cl_tag ?l)\<rparr>"
  define c2 where "c2 = (if cl_dirty ?l \<and> cl_valid ?l then c1\<lparr>cache_to_next_mem := cache_to_next_mem c1 + 1\<rparr> else c1)"
  have ll: "first_of c ?t < length (caches c)" by (rule in_set_length [OF g first_in_set [OF g]])
  have vl: "unat v < length (caches c)" by (rule in_set_length [OF g v(2)])
  have "dram_find_victim rnd c addr = Some (c2, v)"
    using v(1) vl none
    by (simp add: dram_find_victim_def free_line_eq [OF g] max_not_line cache_first_line_eq [OF g]
        c1_def c2_def Let_def)
  moreover have "victim_spec c ?t c2 (unat v)"
    using v(2,3) f vl by (auto simp: victim_spec_def same_geometry_def same_counts_def c1_def c2_def set_full_def in_set_def)
  ultimately show ?thesis by (rule that)
qed

lemma find_victim_ok:
  assumes "geometry_ok c"
  obtains c' v where "dram_find_victim rnd c addr = Some (c', v)" "victim_spec c (cache_tag c addr) c' (unat v)"
  using find_victim_free [OF assms] find_victim_full [OF assms] by metis

section \<open>One operation\<close>

lemma counted_facts:
  "same_geometry c (counted addr op c)" "caches (counted addr op c) = caches c"
  "cache_tag (counted addr op c) a = cache_tag c a" "first_of (counted addr op c) t = first_of c t"
  "cur_victimtag (counted addr op c) = cur_victimtag c" "in_set (counted addr op c) t i = in_set c t i"
  "set_full (counted addr op c) t = set_full c t" "geometry_ok (counted addr op c) = geometry_ok c"
  "lines_ok (counted addr op c) = lines_ok c" "resident (counted addr op c) = resident c"
  "replacement_algo (counted addr op c) = replacement_algo c"
  by (cases op; simp add: counted_def Let_def same_geometry_def cache_tag_def first_of_def set_index_def
      in_set_def set_full_def geometry_ok_def lines_ok_def resident_def holds_at_def)+

lemma do_cache_op_counted:
  assumes "geometry_ok c" "lines_ok c"
  shows "do_cache_op rnd addr op c =
    (let c2 = counted addr op c; line = of_nat (first_of c (cache_tag c addr)) in
     if cache_tag c addr \<in> resident c
     then do {
       r \<leftarrow> (case op of READ \<Rightarrow> read_cache c2 line | WRITE \<Rightarrow> write_cache c2 line);
       Some ((fst r)\<lparr>cache_hit_count := cache_hit_count (fst r) + 1\<rparr>) }
     else do {
       (c4, victim) \<leftarrow> dram_find_victim rnd (c2\<lparr>cache_miss_count := cache_miss_count c2 + 1\<rparr>) addr;
       l \<leftarrow> arr_get (caches c4) (unat victim);
       Some (c4\<lparr>caches := (caches c4)[unat victim := take_line c4 addr op l]\<rparr>) })"
proof -
  have "cache_first_line (counted addr op c) addr = Some (of_nat (first_of c (cache_tag c addr)))"
    "check_cache_hit (counted addr op c) addr = Some (cache_tag c addr \<in> resident c)"
    using assms by (simp_all add: cache_first_line_eq check_cache_hit_eq counted_facts)
  then show ?thesis by (simp add: do_cache_op_def Let_def)
qed

text \<open>A hit rewrites the first way of the set, whichever way holds the tag.\<close>

definition hit_line :: "u64 \<Rightarrow> operation \<Rightarrow> dram_cache \<Rightarrow> cache_line \<Rightarrow> cache_line" where
  "hit_line addr op c l = touch_line (counted addr op c)
     (case op of READ \<Rightarrow> l | WRITE \<Rightarrow> l\<lparr>cl_dirty := True\<rparr>)"

lemma hit_line_keeps [simp]:
  "cl_valid (hit_line addr op c l) = cl_valid l" "cl_tag (hit_line addr op c l) = cl_tag l"
  by (cases op; cases "replacement_algo c"; simp add: hit_line_def touch_line_def counted_facts)+

lemma first_way_valid:
  assumes "geometry_ok c" "lines_ok c" "t \<in> resident c"
  shows "cl_valid (caches c ! first_of c t)"
proof -
  obtain i where i: "holds_at c t i" using assms(3) by (auto simp: resident_def)
  then have "in_set c t i" using assms(2) by (auto simp: lines_ok_def)
  moreover from this have "first_of c t \<le> i" by (simp add: in_set_def)
  ultimately show ?thesis using assms(2) i unfolding lines_ok_def holds_at_def by blast
qed

lemma do_cache_op_hit:
  assumes wf: "dram_cache_wf c" and hit: "cache_tag c addr \<in> resident c"
  obtains c' where "do_cache_op rnd addr op c = Some c'" "same_geometry c c'" "dram_cache_wf c'"
    "caches c' = (caches c)[first_of c (cache_tag c addr) :=
       hit_line addr op c (caches c ! first_of c (cache_tag c addr))]"
    "resident c' = resident c" "cur_victimtag c' = cur_victimtag c"
proof -
  let ?f = "first_of c (cache_tag c addr)" and ?c2 = "counted addr op c"
  have g: "geometry_ok c" and ok: "lines_ok c" and n: "dram_counters_ok c" using wf by (simp_all add: dram_cache_wf_def)
  have fl: "?f < length (caches c)" by (rule in_set_length [OF g first_in_set [OF g]])
  have v: "cl_valid (caches c ! ?f)" by (rule first_way_valid [OF g ok hit])
  note lb = line_bounds [OF g refl, of "cache_tag c addr"]
  define c' where "c' = (?c2\<lparr>caches := (caches c)[?f := hit_line addr op c (caches c ! ?f)],
    cache_hit_count := cache_hit_count c + 1,
    cache_hit_r_count := cache_hit_r_count c + (if op = READ then 1 else 0),
    cache_hit_w_count := cache_hit_w_count c + (if op = WRITE then 1 else 0)\<rparr>)"
  have op: "do_cache_op rnd addr op c = Some c'"
    using fl v hit unfolding do_cache_op_counted [OF g ok] Let_def c'_def
    by (cases op) (simp_all add: read_cache_def write_cache_def lb counted_facts hit_line_def counted_def Let_def)
  have sh: "same_geometry c c'"
    by (cases op) (simp_all add: c'_def same_geometry_def counted_def Let_def)
  have cs: "caches c' = (caches c)[?f := hit_line addr op c (caches c ! ?f)]"
    by (simp add: c'_def)
  note t = lines_ok_touch [OF sh cs fl]
  have "dram_counters_ok c'"
    using n by (cases op) (auto simp: dram_counters_ok_def c'_def counted_def Let_def algebra_simps)
  then have "dram_cache_wf c'"
    using g ok t by (simp add: dram_cache_wf_def same_geometry_facts [OF sh])
  moreover have "cur_victimtag c' = cur_victimtag c"
    by (simp add: c'_def counted_facts)
  ultimately show ?thesis using that op sh cs t by simp
qed

text \<open>A miss fills the victim with the tag.\<close>

lemma do_cache_op_miss:
  assumes wf: "dram_cache_wf c" and miss: "cache_tag c addr \<notin> resident c"
  obtains c' v where "do_cache_op rnd addr op c = Some c'" "same_geometry c c'" "dram_cache_wf c'"
    "victim_spec (counted addr op c\<lparr>cache_miss_count := cache_miss_count c + 1\<rparr>) (cache_tag c addr)
       (c'\<lparr>caches := caches c\<rparr>) v"
    "caches c' = (caches c)[v := take_line c' addr op (caches c ! v)]"
    "resident c' = insert (cache_tag c addr)
       (resident c - (if set_full c (cache_tag c addr) then {cl_tag (caches c ! v)} else {}))"
proof -
  let ?t = "cache_tag c addr"
  define c3 where "c3 = counted addr op c\<lparr>cache_miss_count := cache_miss_count c + 1\<rparr>"
  have g: "geometry_ok c" and ok: "lines_ok c" and n: "dram_counters_ok c" using wf by (simp_all add: dram_cache_wf_def)
  have sh3: "same_geometry c c3" and cs3: "caches c3 = caches c"
    by (cases op; simp add: c3_def same_geometry_def counted_def Let_def)+
  note f3 = same_geometry_facts [OF sh3]
  have g3: "geometry_ok c3" using g f3 by simp
  obtain c4 v where v: "dram_find_victim rnd c3 addr = Some (c4, v)" "victim_spec c3 (cache_tag c3 addr) c4 (unat v)"
    by (rule find_victim_ok [OF g3])
  have full3: "set_full c3 ?t = set_full c ?t" by (simp add: set_full_def f3 cs3)
  have sh4: "same_geometry c3 c4" "caches c4 = caches c" "same_counts c3 c4" "in_set c ?t (unat v)"
    "\<And>i. first_of c ?t \<le> i \<Longrightarrow> i < unat v \<Longrightarrow> cl_valid (caches c ! i)" "cl_valid (caches c ! unat v) = set_full c ?t"
    "cache_capacity_miss_count c4 + cache_conflict_miss_count c4 = cache_capacity_miss_count c3 + cache_conflict_miss_count c3 + 1"
    using v(2) by (auto simp: victim_spec_def f3 cs3 full3)
  have vl: "unat v < length (caches c)" by (rule in_set_length [OF g sh4(4)])
  define c' where "c' = c4\<lparr>caches := (caches c)[unat v := take_line c4 addr op (caches c ! unat v)]\<rparr>"
  have miss2: "(counted addr op c)\<lparr>cache_miss_count := cache_miss_count (counted addr op c) + 1\<rparr> = c3"
    by (cases op) (simp_all add: c3_def counted_def Let_def)
  have op: "do_cache_op rnd addr op c = Some c'"
    using miss v(1) vl by (simp add: do_cache_op_counted [OF g ok] miss2 sh4(2) c'_def)
  have sh: "same_geometry c c'"
    using sh3 sh4(1,2) by (simp add: same_geometry_def c'_def)
  have fl: "take_line c4 addr op l = take_line c' addr op l" for l
    by (simp add: take_line_def c'_def cache_tag_def)
  have cs: "caches c' = (caches c)[unat v := take_line c' addr op (caches c ! unat v)]"
    by (simp only: fl [symmetric]) (simp add: c'_def)
  have l: "cl_valid (take_line c' addr op l)" "cl_tag (take_line c' addr op l) = ?t" for l
    by (simp_all add: take_line_def same_geometry_facts [OF sh])
  note fill = lines_ok_fill [OF g ok sh cs sh4(4) l miss sh4(5)]
  have "dram_counters_ok c'"
    using n sh4(3,7)
    by (cases op) (auto simp: dram_counters_ok_def c'_def c3_def counted_def Let_def same_counts_def algebra_simps)
  then have "dram_cache_wf c'"
    using g fill(1) by (simp add: dram_cache_wf_def same_geometry_facts [OF sh])
  moreover have "c'\<lparr>caches := caches c\<rparr> = c4" using sh4(2) by (simp add: c'_def)
  ultimately show ?thesis using that [OF op sh _ _ cs] fill(2) v(2) sh4(6) unfolding c3_def [symmetric] f3 by simp
qed

section \<open>New and flushed caches\<close>

lemma lines_ok_empty:
  assumes "geometry_ok c" "\<forall>l \<in> set (caches c). \<not> cl_valid l"
  shows "lines_ok c" "resident c = {}"
proof -
  have h: "\<not> holds_at c t i" for t i
    using assms(2) by (auto simp: holds_at_def)
  have v: "\<not> cl_valid (caches c ! j)" if "in_set c t j" for t j
    using assms(2) in_set_length [OF assms(1) that] by auto
  show "lines_ok c" "resident c = {}" using h v by (auto simp: lines_ok_def resident_def)
qed

lemma new_dram_cache_wf:
  assumes new: "new_dram_cache sz line_size algo way = Some c"
    and sets: "0 < cache_set_num c" "unat (sz div ucast line_size div ucast way) < 2 ^ 32"
      "unat (cache_set_num c) * unat way < 2 ^ 32"
  shows "dram_cache_wf c" "resident c = {}" "replacement_algo c = algo" "cache_ways c = way"
proof -
  let ?num = "sz div ucast line_size :: u64"
  from new have l: "line_size \<noteq> 0" "way \<noteq> 0"
    by (auto simp: new_dram_cache_def new_cache_base_def arr_simps)
  with new have c: "cache_ways c = way" "cache_set_num c = ucast (?num div ucast way)"
    "cache_line_shifts c = of_nat (log2_floor (unat line_size))" "cache_line_num c = ?num"
    "caches c = replicate (unat ?num) new_cache_line" "replacement_algo c = algo"
    "tick_count c = 0" "cache_r_count c = 0" "cache_w_count c = 0" "cache_hit_r_count c = 0"
    "cache_hit_w_count c = 0" "cache_hit_count c = 0" "cache_miss_count c = 0"
    "cache_capacity_miss_count c = 0" "cache_conflict_miss_count c = 0"
    by (auto simp: new_dram_cache_def new_cache_base_def arr_simps log2_u32_def cache_base.extend_def
        dram_cache.fields_def Let_def)
  have s: "unat (cache_set_num c) = unat ?num div unat way"
    using sets(2) by (simp add: c(2) unsigned_ucast_eq unat_div take_bit_nat_eq_self)
  have "log2_floor (unat line_size) < 32"
    using l(1) unsigned_less [of line_size, where ?'a = nat] by (intro log2_floor_less) (simp_all add: unat_gt_0)
  then have "unat (cache_line_shifts c) < 64"
    by (simp add: c(3) unat_of_nat)
  then have g: "geometry_ok c"
    using l sets(1,3) div_times_less_eq_dividend [of "unat ?num" "unat way"] s
    by (simp add: geometry_ok_def c(1,4,5) word_gt_0)
  have "\<forall>l \<in> set (caches c). \<not> cl_valid l" by (simp add: c(5) new_cache_line_def)
  from lines_ok_empty [OF g this] g show "dram_cache_wf c" "resident c = {}"
    by (simp_all add: dram_cache_wf_def dram_counters_ok_def c)
  show "replacement_algo c = algo" "cache_ways c = way" by (simp_all add: c)
qed

lemma flush_cache_wf:
  assumes "dram_cache_wf c"
  obtains c' where "flush_cache c = Some c'" "dram_cache_wf c'" "resident c' = {}"
proof -
  have g: "geometry_ok c" using assms by (simp add: dram_cache_wf_def)
  then have n: "length (caches c) = unat (cache_line_num c)" by (simp add: geometry_ok_def)
  then obtain c' where c': "flush_cache c = Some c'" "same_geometry c c'" "dram_counters_ok c'"
    "caches c' = map (\<lambda>l. l\<lparr>cl_valid := False, cl_dirty := False\<rparr>) (caches c)"
    by (simp add: flush_cache_def same_geometry_def dram_counters_ok_def)
  have g': "geometry_ok c'" using g by (simp add: same_geometry_facts [OF c'(2)])
  have "\<forall>l \<in> set (caches c'). \<not> cl_valid l" by (simp add: c'(4))
  from lines_ok_empty [OF g' this] show ?thesis using that c'(1,3) g' by (simp add: dram_cache_wf_def)
qed

section \<open>Properties\<close>

text \<open>
  C28. The DRAM cache refines a set of tags: an operation on a well-formed cache always
  succeeds, keeps it well-formed and leaves its own block resident.  A hit changes nothing else
  of the set; a miss adds the block and, only when its set was full, removes exactly one block
  of the same set, the one \<open>get_victim_tag\<close> then reports.
\<close>

theorem dram_cache_refines_tag_set:
  assumes wf: "dram_cache_wf c"
  shows "\<exists>c'. do_cache_op rnd addr op c = Some c' \<and> dram_cache_wf c' \<and>
    check_cache_hit c' addr = Some True \<and>
    (let t = cache_tag c addr in
     if t \<in> resident c then resident c' = resident c \<and> get_victim_tag c' = get_victim_tag c
     else if set_full c t
       then (\<exists>v \<in> resident c. set_index c v = set_index c t \<and> get_victim_tag c' = Some v \<and>
               resident c' = insert t (resident c - {v}))
     else resident c' = insert t (resident c) \<and> get_victim_tag c' = Some ULONG_MAX)"
proof (cases "cache_tag c addr \<in> resident c")
  case True
  obtain c' where c': "do_cache_op rnd addr op c = Some c'" "same_geometry c c'" "dram_cache_wf c'"
    "resident c' = resident c" "cur_victimtag c' = cur_victimtag c"
    by (rule do_cache_op_hit [OF wf True])
  then show ?thesis
    using True by (simp add: dram_cache_wf_def check_cache_hit_eq same_geometry_facts [OF c'(2)] get_victim_tag_def)
next
  case False
  let ?t = "cache_tag c addr"
  let ?c3 = "counted addr op c\<lparr>cache_miss_count := cache_miss_count c + 1\<rparr>"
  obtain c' v where c': "do_cache_op rnd addr op c = Some c'" "same_geometry c c'" "dram_cache_wf c'"
    "victim_spec ?c3 ?t (c'\<lparr>caches := caches c\<rparr>) v"
    "resident c' = insert ?t (resident c - (if set_full c ?t then {cl_tag (caches c ! v)} else {}))"
    by (rule do_cache_op_miss [OF wf False])
  have g: "geometry_ok c" "lines_ok c" using wf by (simp_all add: dram_cache_wf_def)
  have f3: "caches ?c3 = caches c" "set_full ?c3 ?t = set_full c ?t" "in_set ?c3 ?t i = in_set c ?t i" for i
    using counted_facts(2,6,7) [of addr op c] by (simp_all add: set_full_def in_set_def first_of_def set_index_def)
  have v: "in_set c ?t v" "cl_valid (caches c ! v) = set_full c ?t"
    "cur_victimtag c' = Some (if set_full c ?t then cl_tag (caches c ! v) else ULONG_MAX)"
    using c'(4) by (simp_all add: victim_spec_def f3)
  have hit: "check_cache_hit c' addr = Some True"
    using c'(2,3,5) by (simp add: dram_cache_wf_def check_cache_hit_eq same_geometry_facts)
  have "\<exists>u \<in> resident c. set_index c u = set_index c ?t \<and> u = cl_tag (caches c ! v)" if "set_full c ?t"
  proof -
    let ?u = "cl_tag (caches c ! v)"
    have h: "holds_at c ?u v"
      using that v in_set_length [OF g(1) v(1)] by (simp add: holds_at_def)
    then have "in_set c ?u v" using g(2) by (auto simp: lines_ok_def)
    then have "set_index c ?u = set_index c ?t" by (rule in_set_same [OF _ v(1)])
    then show ?thesis using h by (auto simp: resident_def)
  qed
  then show ?thesis
    using False c'(1,3,5) v(3) hit by (auto simp: Let_def get_victim_tag_def)
qed

text \<open>
  A hit rewrites the first way of the set and no other line: whichever way holds the block,
  it is the first way whose counter becomes the current tick (unless the policy is FIFO) and
  which a write marks dirty.  A block in another way is therefore neither refreshed by a hit
  nor marked dirty by a write.
\<close>

theorem dram_hit_updates_first_way:
  assumes wf: "dram_cache_wf c" and hit: "check_cache_hit c addr = Some True"
  shows "\<exists>c'. do_cache_op rnd addr op c = Some c' \<and>
    (let f = first_of c (cache_tag c addr); l = caches c ! f; l' = caches c' ! f in
     (\<forall>i. i \<noteq> f \<longrightarrow> caches c' ! i = caches c ! i) \<and> cl_valid l' \<and> cl_tag l' = cl_tag l \<and>
     cl_count l' = (if replacement_algo c = CACHE_FIFO then cl_count l else tick_count c + 1) \<and>
     cl_dirty l' = (cl_dirty l \<or> op = WRITE))"
proof -
  have g: "geometry_ok c" "lines_ok c" using wf by (simp_all add: dram_cache_wf_def)
  have r: "cache_tag c addr \<in> resident c" using hit by (simp add: check_cache_hit_eq [OF g])
  let ?f = "first_of c (cache_tag c addr)"
  obtain c' where c': "do_cache_op rnd addr op c = Some c'"
    "caches c' = (caches c)[?f := hit_line addr op c (caches c ! ?f)]"
    by (rule do_cache_op_hit [OF wf r])
  have "?f < length (caches c)" by (rule in_set_length [OF g(1) first_in_set [OF g(1)]])
  moreover have "tick_count (counted addr op c) = tick_count c + 1"
    by (cases op) (simp_all add: counted_def)
  ultimately show ?thesis
    using c' first_way_valid [OF g r]
    by (cases op; cases "replacement_algo c") (simp_all add: hit_line_def touch_line_def counted_facts)
qed

text \<open>
  In a full set FIFO and LRU evict a line whose counter is the least of the set, as long as
  the counters fit a positive \<open>int\<close>; the block that was in that line, and no other, stops
  being resident.
\<close>

theorem dram_miss_evicts_least_count:
  assumes wf: "dram_cache_wf c" and miss: "check_cache_hit c addr = Some False"
    and full: "set_full c (cache_tag c addr)" and algo: "replacement_algo c \<noteq> CACHE_RAND"
    and small: "\<And>i. in_set c (cache_tag c addr) i \<Longrightarrow> cl_count (caches c ! i) < 2 ^ 31"
  shows "\<exists>c' v i. do_cache_op rnd addr op c = Some c' \<and> holds_at c v i \<and> in_set c (cache_tag c addr) i \<and>
    (\<forall>j. in_set c (cache_tag c addr) j \<longrightarrow> cl_count (caches c ! i) \<le> cl_count (caches c ! j)) \<and>
    get_victim_tag c' = Some v \<and> resident c - resident c' = {v}"
proof -
  let ?t = "cache_tag c addr"
  let ?c3 = "counted addr op c\<lparr>cache_miss_count := cache_miss_count c + 1\<rparr>"
  have g: "geometry_ok c" "lines_ok c" using wf by (simp_all add: dram_cache_wf_def)
  have nr: "?t \<notin> resident c" using miss by (simp add: check_cache_hit_eq [OF g])
  obtain c' v where c': "do_cache_op rnd addr op c = Some c'"
    "victim_spec ?c3 ?t (c'\<lparr>caches := caches c\<rparr>) v"
    "resident c' = insert ?t (resident c - (if set_full c ?t then {cl_tag (caches c ! v)} else {}))"
    by (rule do_cache_op_miss [OF wf nr])
  have f3: "caches ?c3 = caches c" "set_full ?c3 ?t" "in_set ?c3 ?t i = in_set c ?t i"
    "replacement_algo ?c3 = replacement_algo c" for i
    using counted_facts(2,6,7,11) [of addr op c] full by (simp_all add: set_full_def in_set_def first_of_def set_index_def)
  have v: "in_set c ?t v" "cl_valid (caches c ! v)" "cur_victimtag c' = Some (cl_tag (caches c ! v))"
    "\<forall>j. in_set c ?t j \<longrightarrow> cl_count (caches c ! v) \<le> cl_count (caches c ! j)"
    using c'(2) algo small by (simp_all add: victim_spec_def f3)
  have h: "holds_at c (cl_tag (caches c ! v)) v"
    using v(2) in_set_length [OF g(1) v(1)] by (simp add: holds_at_def)
  then have "cl_tag (caches c ! v) \<in> resident c" by (auto simp: resident_def)
  then have "resident c - resident c' = {cl_tag (caches c ! v)}"
    using c'(3) full nr by auto
  then show ?thesis using c'(1) v h by (auto simp: get_victim_tag_def)
qed

subsection \<open>Witnesses\<close>

text \<open>Four lines of 64 bytes in two ways: a new cache, and after two reads of one set.\<close>

definition demo_dram :: dram_cache where
  "demo_dram = the (new_dram_cache 256 64 CACHE_LRU 2)"

definition demo_dram2 :: dram_cache where
  "demo_dram2 = the (do { c \<leftarrow> do_cache_op 0 0 READ demo_dram; do_cache_op 0 128 READ c })"

lemma do_cache_op_wf:
  assumes "dram_cache_wf c" "do_cache_op rnd addr op c = Some c'"
  shows "dram_cache_wf c'"
  using do_cache_op_hit [OF assms(1), of addr rnd op] do_cache_op_miss [OF assms(1), of addr rnd op] assms(2)
  by (metis option.inject)

lemma demo_dram_new: "new_dram_cache 256 64 CACHE_LRU 2 = Some demo_dram"
  by code_simp

lemma demo_dram_wf: "dram_cache_wf demo_dram"
proof -
  have sets: "cache_set_num demo_dram = 2" by code_simp
  then have "0 < cache_set_num demo_dram" by simp
  moreover have "(256 :: u64) div ucast (64 :: u32) div ucast (2 :: u32) = 2" by code_simp
  then have "unat ((256 :: u64) div ucast (64 :: u32) div ucast (2 :: u32)) < 2 ^ 32" by simp
  moreover have "unat (cache_set_num demo_dram) * unat (2 :: u32) < 2 ^ 32" by (simp add: sets)
  ultimately show ?thesis by (rule new_dram_cache_wf(1) [OF demo_dram_new])
qed

lemma demo_dram2_ops:
  "\<exists>c. do_cache_op 0 0 READ demo_dram = Some c \<and> do_cache_op 0 128 READ c = Some demo_dram2"
proof -
  have "do { c \<leftarrow> do_cache_op 0 0 READ demo_dram; do_cache_op 0 128 READ c } = Some demo_dram2"
    unfolding demo_dram2_def option.the_def by code_simp
  then show ?thesis unfolding bind_Some_iff .
qed

lemma demo_dram2_wf: "dram_cache_wf demo_dram2"
  using demo_dram2_ops do_cache_op_wf demo_dram_wf by metis

text \<open>LRU evicts the block that was used last: the two ways of the set hold the blocks 0 and 2,
  block 2 is read again, and the next miss removes it.\<close>

lemma lru_evicts_last_used:
  "map_option get_victim_tag (do { c \<leftarrow> do_cache_op 0 128 READ demo_dram2; do_cache_op 0 256 READ c })
     = Some (Some 2)"
  by code_simp

lemma dram_cache_refines_tag_set_witness:
  "\<exists>c'. do_cache_op 0 256 WRITE demo_dram2 = Some c' \<and> dram_cache_wf c' \<and>
    check_cache_hit c' 256 = Some True"
  using dram_cache_refines_tag_set [OF demo_dram2_wf, of 0 256 WRITE] by blast

lemma dram_hit_updates_first_way_witness:
  "\<exists>c'. do_cache_op 0 128 READ demo_dram2 = Some c' \<and> cl_count (caches c' ! 0) = 3 \<and>
     caches c' ! 1 = caches demo_dram2 ! 1 \<and> cl_tag (caches demo_dram2 ! 1) = 2"
proof -
  have "check_cache_hit demo_dram2 128 = Some True" by code_simp
  note dram_hit_updates_first_way [OF demo_dram2_wf this, of 0 READ]
  moreover have "first_of demo_dram2 (cache_tag demo_dram2 128) = 0" by code_simp
  moreover have "replacement_algo demo_dram2 = CACHE_LRU" by code_simp
  moreover have "tick_count demo_dram2 = 2" by code_simp
  moreover have "cl_tag (caches demo_dram2 ! 1) = 2" by code_simp
  ultimately show ?thesis by (auto simp: Let_def)
qed

lemma dram_miss_evicts_least_count_witness:
  "\<exists>c' v i. do_cache_op 0 256 READ demo_dram2 = Some c' \<and> holds_at demo_dram2 v i \<and>
    get_victim_tag c' = Some v \<and> resident demo_dram2 - resident c' = {v}"
proof -
  have f: "first_of demo_dram2 (cache_tag demo_dram2 256) = 0" "unat (cache_ways demo_dram2) = 2"
    by code_simp+
  have s: "in_set demo_dram2 (cache_tag demo_dram2 256) i \<longleftrightarrow> i = 0 \<or> i = 1" for i
    by (auto simp: in_set_def f)
  have v: "cl_valid (caches demo_dram2 ! 0)" "cl_valid (caches demo_dram2 ! 1)" by code_simp+
  have n: "cl_count (caches demo_dram2 ! 0) = 1" "cl_count (caches demo_dram2 ! 1) = 2" by code_simp+
  have "check_cache_hit demo_dram2 256 = Some False" by code_simp
  moreover have "set_full demo_dram2 (cache_tag demo_dram2 256)" using v by (auto simp: set_full_def s)
  moreover have "replacement_algo demo_dram2 \<noteq> CACHE_RAND" by code_simp
  moreover have "cl_count (caches demo_dram2 ! i) < 2 ^ 31"
    if "in_set demo_dram2 (cache_tag demo_dram2 256) i" for i
    using that n by (auto simp: s)
  ultimately show ?thesis
    using dram_miss_evicts_least_count [OF demo_dram2_wf, of 256 0 READ] by blast
qed

end
