(* ===== verification/Hash_Zoo.thy ===== *)
theory Hash_Zoo
  imports NV_Prelude
begin

text \<open>
  The integer hash functions of \<open>src/util.cc\<close>: the mixing functions of \<open>HashZoo\<close>, which the
  learning prefetchers select by number, and the index functions of \<open>PredictorHashZoo\<close>, which
  the hit predictors use.  All arithmetic wraps at the width of the code.

  The string hashes (\<open>MurmurHash3\<close>, MD5, SHA-1) are third-party code and are not modelled.
\<close>

unbundle bit_operations_syntax

section \<open>Mixing functions\<close>

definition jenkins :: "u32 \<Rightarrow> u32" where
  "jenkins key =
    (let key = key + push_bit 12 key;
         key = key XOR drop_bit 22 key;
         key = key + push_bit 4 key;
         key = key XOR drop_bit 9 key;
         key = key + push_bit 10 key;
         key = key XOR drop_bit 2 key;
         key = key + push_bit 7 key;
         key = key XOR drop_bit 12 key
     in key)"

definition knuth :: "u32 \<Rightarrow> u32" where
  "knuth key = drop_bit 3 key * 2654435761"

definition jenkins32 :: "u32 \<Rightarrow> u32" where
  "jenkins32 key =
    (let key = (key + 0x7ed55d16) + push_bit 12 key;
         key = (key XOR 0xc761c23c) XOR drop_bit 19 key;
         key = (key + 0x165667b1) + push_bit 5 key;
         key = (key + 0xd3a2646c) XOR push_bit 9 key;
         key = (key + 0xfd7046c5) + push_bit 3 key;
         key = (key XOR 0xb55a4f09) XOR drop_bit 16 key
     in key)"

definition hash32shift :: "u32 \<Rightarrow> u32" where
  "hash32shift key =
    (let key = NOT key + push_bit 15 key;
         key = key XOR drop_bit 12 key;
         key = key + push_bit 2 key;
         key = key XOR drop_bit 4 key;
         key = key * 2057;
         key = key XOR drop_bit 16 key
     in key)"

definition hash32shiftmult :: "u32 \<Rightarrow> u32" where
  "hash32shiftmult key =
    (let key = (key XOR 61) XOR drop_bit 16 key;
         key = key + push_bit 3 key;
         key = key XOR drop_bit 4 key;
         key = key * 0x27d4eb2d;
         key = key XOR drop_bit 15 key
     in key)"

definition hash64shift :: "u32 \<Rightarrow> u32" where
  "hash64shift key =
    (let key = NOT key + push_bit 21 key;
         key = key XOR drop_bit 24 key;
         key = (key + push_bit 3 key) + push_bit 8 key;
         key = key XOR drop_bit 14 key;
         key = (key + push_bit 2 key) + push_bit 4 key;
         key = key XOR drop_bit 28 key;
         key = key + push_bit 31 key
     in key)"

definition hash5shift :: "u32 \<Rightarrow> u32" where
  "hash5shift key =
    (let key = (key XOR 61) XOR drop_bit 16 key;
         key = key + push_bit 3 key;
         key = key XOR drop_bit 4 key;
         key = key * 0x27d4eb2d;
         key = key XOR drop_bit 15 key
     in key)"

definition hash7shift :: "u32 \<Rightarrow> u32" where
  "hash7shift key =
    (let key = key - push_bit 6 key;
         key = key XOR drop_bit 17 key;
         key = key - push_bit 9 key;
         key = key XOR push_bit 4 key;
         key = key - push_bit 3 key;
         key = key XOR push_bit 10 key;
         key = key XOR drop_bit 15 key
     in key)"

definition Wang6shift :: "u32 \<Rightarrow> u32" where
  "Wang6shift key =
    (let key = key + NOT (push_bit 15 key);
         key = key XOR drop_bit 10 key;
         key = key + push_bit 3 key;
         key = key XOR drop_bit 6 key;
         key = key + NOT (push_bit 11 key);
         key = key XOR drop_bit 16 key
     in key)"

definition Wang5shift :: "u32 \<Rightarrow> u32" where
  "Wang5shift key =
    (let key = (key + 0x479ab41d) + push_bit 8 key;
         key = (key XOR 0xe4aa10ce) XOR drop_bit 5 key;
         key = (key + 0x9942f0a6) - push_bit 14 key;
         key = (key XOR 0x5aedd67d) XOR drop_bit 3 key;
         key = (key + 0x17bea992) + push_bit 7 key
     in key)"

definition Wang4shift :: "u32 \<Rightarrow> u32" where
  "Wang4shift key =
    (let key = (key XOR 0xdeadbeef) + push_bit 4 key;
         key = key XOR drop_bit 10 key;
         key = key + push_bit 7 key;
         key = key XOR drop_bit 13 key
     in key)"

definition Wang3shift :: "u32 \<Rightarrow> u32" where
  "Wang3shift key =
    (let key = key XOR drop_bit 4 key;
         key = (key XOR 0xdeadbeef) + push_bit 5 key;
         key = key XOR drop_bit 11 key
     in key)"

definition three_hybrid1 :: "u32 \<Rightarrow> u32" where
  "three_hybrid1 key = knuth (hash64shift (jenkins32 key))"

definition three_hybrid2 :: "u32 \<Rightarrow> u32" where
  "three_hybrid2 key = jenkins32 (Wang5shift (hash5shift key))"

definition three_hybrid3 :: "u32 \<Rightarrow> u32" where
  "three_hybrid3 key = jenkins (hash32shiftmult (Wang3shift key))"

definition three_hybrid4 :: "u32 \<Rightarrow> u32" where
  "three_hybrid4 key = Wang6shift (hash32shift (Wang5shift key))"

definition three_hybrid5 :: "u32 \<Rightarrow> u32" where
  "three_hybrid5 key = hash64shift (hash32shift (knuth key))"

definition three_hybrid6 :: "u32 \<Rightarrow> u32" where
  "three_hybrid6 key = hash5shift (jenkins (Wang6shift key))"

definition three_hybrid7 :: "u32 \<Rightarrow> u32" where
  "three_hybrid7 key = Wang4shift (jenkins32 (hash7shift key))"

definition three_hybrid8 :: "u32 \<Rightarrow> u32" where
  "three_hybrid8 key = Wang3shift (Wang6shift (hash64shift key))"

definition three_hybrid9 :: "u32 \<Rightarrow> u32" where
  "three_hybrid9 key = hash32shift (Wang3shift (jenkins key))"

definition three_hybrid10 :: "u32 \<Rightarrow> u32" where
  "three_hybrid10 key = hash32shiftmult (Wang4shift (hash32shiftmult key))"

definition three_hybrid11 :: "u32 \<Rightarrow> u32" where
  "three_hybrid11 key = hash7shift (hash5shift (Wang4shift key))"

definition three_hybrid12 :: "u32 \<Rightarrow> u32" where
  "three_hybrid12 key = Wang5shift (jenkins32 (hash32shift key))"

definition four_hybrid1 :: "u32 \<Rightarrow> u32" where
  "four_hybrid1 key = Wang6shift (Wang5shift (Wang3shift (Wang4shift key)))"

definition four_hybrid2 :: "u32 \<Rightarrow> u32" where
  "four_hybrid2 key = hash32shiftmult (jenkins (Wang5shift (Wang6shift key)))"

definition four_hybrid3 :: "u32 \<Rightarrow> u32" where
  "four_hybrid3 key = hash64shift (hash7shift (jenkins32 (hash32shift key)))"

definition four_hybrid4 :: "u32 \<Rightarrow> u32" where
  "four_hybrid4 key = knuth (knuth (hash32shiftmult (hash5shift key)))"

definition four_hybrid5 :: "u32 \<Rightarrow> u32" where
  "four_hybrid5 key = jenkins32 (Wang4shift (hash64shift (hash32shiftmult key)))"

definition four_hybrid6 :: "u32 \<Rightarrow> u32" where
  "four_hybrid6 key = jenkins (hash32shift (Wang4shift (Wang3shift key)))"

definition four_hybrid7 :: "u32 \<Rightarrow> u32" where
  "four_hybrid7 key = hash32shift (hash64shift (hash5shift (hash64shift key)))"

definition four_hybrid8 :: "u32 \<Rightarrow> u32" where
  "four_hybrid8 key = hash7shift (hash5shift (hash32shiftmult (Wang6shift key)))"

definition four_hybrid9 :: "u32 \<Rightarrow> u32" where
  "four_hybrid9 key = hash32shiftmult (Wang6shift (jenkins32 (knuth key)))"

definition four_hybrid10 :: "u32 \<Rightarrow> u32" where
  "four_hybrid10 key = Wang3shift (jenkins32 (knuth (jenkins key)))"

definition four_hybrid11 :: "u32 \<Rightarrow> u32" where
  "four_hybrid11 key = hash5shift (hash32shiftmult (hash32shift (jenkins32 key)))"

definition four_hybrid12 :: "u32 \<Rightarrow> u32" where
  "four_hybrid12 key = Wang4shift (Wang3shift (jenkins (hash7shift key)))"

text \<open>
  \<open>getHash\<close>.  Selector 4 is \<open>murmur3\<close>, which keeps \<open>std::to_string(key).c_str()\<close> past the end of
  the string's life and reads it: \<open>None\<close>.  Any other selector fails the assertion.
\<close>

definition getHash :: "u32 \<Rightarrow> u32 \<Rightarrow> u32 option" where
  "getHash selector key =
    (if selector = 1 then Some key
     else if selector = 2 then Some (jenkins key)
     else if selector = 3 then Some (knuth key)
     else if selector = 4 then None
     else if selector = 5 then Some (jenkins32 key)
     else if selector = 6 then Some (hash32shift key)
     else if selector = 7 then Some (hash32shiftmult key)
     else if selector = 8 then Some (hash64shift key)
     else if selector = 9 then Some (hash5shift key)
     else if selector = 10 then Some (hash7shift key)
     else if selector = 11 then Some (Wang6shift key)
     else if selector = 12 then Some (Wang5shift key)
     else if selector = 13 then Some (Wang4shift key)
     else if selector = 14 then Some (Wang3shift key)
     else if selector = 101 then Some (three_hybrid1 key)
     else if selector = 102 then Some (three_hybrid2 key)
     else if selector = 103 then Some (three_hybrid3 key)
     else if selector = 104 then Some (three_hybrid4 key)
     else if selector = 105 then Some (three_hybrid5 key)
     else if selector = 106 then Some (three_hybrid6 key)
     else if selector = 107 then Some (three_hybrid7 key)
     else if selector = 108 then Some (three_hybrid8 key)
     else if selector = 109 then Some (three_hybrid9 key)
     else if selector = 110 then Some (three_hybrid10 key)
     else if selector = 111 then Some (three_hybrid11 key)
     else if selector = 112 then Some (three_hybrid12 key)
     else if selector = 1001 then Some (four_hybrid1 key)
     else if selector = 1002 then Some (four_hybrid2 key)
     else if selector = 1003 then Some (four_hybrid3 key)
     else if selector = 1004 then Some (four_hybrid4 key)
     else if selector = 1005 then Some (four_hybrid5 key)
     else if selector = 1006 then Some (four_hybrid6 key)
     else if selector = 1007 then Some (four_hybrid7 key)
     else if selector = 1008 then Some (four_hybrid8 key)
     else if selector = 1009 then Some (four_hybrid9 key)
     else if selector = 1010 then Some (four_hybrid10 key)
     else if selector = 1011 then Some (four_hybrid11 key)
     else if selector = 1012 then Some (four_hybrid12 key)
     else None)"

section \<open>Folding and index functions\<close>

text \<open>\<open>folded_xor\<close>.\<close>

fun folded_xor_loop :: "u64 \<Rightarrow> u64 \<Rightarrow> nat \<Rightarrow> nat \<Rightarrow> nat \<Rightarrow> u32 \<Rightarrow> u32" where
  "folded_xor_loop v m bits i 0 folded = folded"
| "folded_xor_loop v m bits i (Suc n) folded =
     folded_xor_loop v m bits (Suc i) n (folded XOR ucast (drop_bit (i * bits) v AND m))"

definition folded_xor :: "u64 \<Rightarrow> u32 \<Rightarrow> u32 option" where
  "folded_xor value num_folds = do {
     assert_that (1 < num_folds);
     assert_that (num_folds AND (num_folds - 1) = 0);
     let bits_in_fold = 64 div unat num_folds;
     let m = (if num_folds = 2 then (0xffffffff :: u64)
              else ucast (ucast ((push_bit bits_in_fold 1 :: u64) - 1) :: u32));
     Some (folded_xor_loop value m bits_in_fold 0 (unat num_folds) 0) }"

definition A0_SHIFT :: nat where "A0_SHIFT = 8"

text \<open>\<open>~(0xffffffffffffffff << lengthshift)\<close>; a shift by 64 or more is undefined.\<close>

definition low_mask :: "u32 \<Rightarrow> u64 option" where
  "low_mask lengthshift = do {
     assert_that (unat lengthshift < 64);
     Some (NOT (push_bit (unat lengthshift) 0xffffffffffffffff)) }"

function shift_xor_loop :: "nat \<Rightarrow> u64 \<Rightarrow> u64 \<Rightarrow> u64" where
  "shift_xor_loop n res temp =
     (if drop_bit n temp \<noteq> 0 then shift_xor_loop n (res XOR temp) (drop_bit 1 temp) else res)"
  by pat_completeness auto
termination
proof (relation "measure (\<lambda>(n, res, temp). unat temp)", goal_cases)
  case (2 n res temp)
  then have "temp \<noteq> 0" by auto
  then have "0 < unat temp" by (simp add: unat_gt_0)
  then show ?case by (simp add: drop_bit_eq_div unat_div)
qed simp

declare shift_xor_loop.simps [simp del]

definition shift_xor :: "u64 \<Rightarrow> u32 \<Rightarrow> u32 option" where
  "shift_xor linetag lengthshift = do {
     m \<leftarrow> low_mask lengthshift;
     let res = shift_xor_loop (unat lengthshift) (linetag AND m) (drop_bit 1 linetag);
     Some (ucast (res AND m)) }"

fun fold_xor_loop :: "nat \<Rightarrow> nat \<Rightarrow> u64 \<Rightarrow> u64 \<Rightarrow> u64" where
  "fold_xor_loop n 0 res temp = res"
| "fold_xor_loop n (Suc k) res temp = fold_xor_loop n k (res XOR temp) (drop_bit n temp)"

definition fold_xor :: "u64 \<Rightarrow> u32 \<Rightarrow> u32 option" where
  "fold_xor linetag lengthshift = do {
     m \<leftarrow> low_mask lengthshift;
     let res = linetag AND m;
     let temp = drop_bit (unat lengthshift) linetag;
     assert_that (lengthshift \<noteq> 0);
     let res = fold_xor_loop (unat lengthshift) (64 div unat lengthshift) res temp;
     Some (ucast (res AND m)) }"

definition hash_a0 :: "u64 \<Rightarrow> u32 \<Rightarrow> u32 option" where
  "hash_a0 linetag lengthshift = do {
     m \<leftarrow> low_mask lengthshift;
     Some (ucast (linetag AND m)) }"

definition hash_a1 :: "u64 \<Rightarrow> u32 \<Rightarrow> u32 option" where
  "hash_a1 linetag lengthshift = do {
     m \<leftarrow> low_mask lengthshift;
     Some (ucast (drop_bit A0_SHIFT linetag AND m)) }"

definition hash_a2 :: "u64 \<Rightarrow> u32 \<Rightarrow> u32 option" where
  "hash_a2 linetag lengthshift = do {
     let a1_shift = (48 - 8 - A0_SHIFT) div 2;
     m \<leftarrow> low_mask lengthshift;
     Some (ucast (drop_bit (a1_shift + A0_SHIFT) linetag AND m)) }"

text \<open>
  The combinations.  Their parts are 32-bit values: the address, the address shifted by
  \<open>A0_SHIFT\<close>, and the address shifted by a number the line size gives, where a shift of 64 or
  more is undefined; the last mask is 64 bits wide.
\<close>

definition part_a0 :: "u64 \<Rightarrow> u32" where
  "part_a0 linetag = ucast linetag"

definition part_a1 :: "u64 \<Rightarrow> u32" where
  "part_a1 linetag = ucast (drop_bit A0_SHIFT linetag)"

definition part_a2 :: "u64 \<Rightarrow> u32 \<Rightarrow> u32 option" where
  "part_a2 linetag cache_line_shifts = do {
     let a1_shift = (48 - cache_line_shifts - of_nat A0_SHIFT) div 2;
     let s = unat (of_nat A0_SHIFT + a1_shift);
     assert_that (s < 64);
     Some (ucast (drop_bit s linetag)) }"

definition masked :: "u32 \<Rightarrow> u32 \<Rightarrow> u32 option" where
  "masked w lengthshift = do {
     m \<leftarrow> low_mask lengthshift;
     Some (ucast (ucast w AND m)) }"

definition a1anda0 :: "u64 \<Rightarrow> u32 \<Rightarrow> u32 \<Rightarrow> u32 option" where
  "a1anda0 linetag cache_line_shifts lengthshift =
     masked (part_a1 linetag AND part_a0 linetag) lengthshift"

definition a1ora0 :: "u64 \<Rightarrow> u32 \<Rightarrow> u32 \<Rightarrow> u32 option" where
  "a1ora0 linetag cache_line_shifts lengthshift =
     masked (part_a1 linetag OR part_a0 linetag) lengthshift"

definition a1xora0 :: "u64 \<Rightarrow> u32 \<Rightarrow> u32 \<Rightarrow> u32 option" where
  "a1xora0 linetag cache_line_shifts lengthshift =
     masked (part_a1 linetag XOR part_a0 linetag) lengthshift"

definition a2anda0 :: "u64 \<Rightarrow> u32 \<Rightarrow> u32 \<Rightarrow> u32 option" where
  "a2anda0 linetag cache_line_shifts lengthshift = do {
     a2 \<leftarrow> part_a2 linetag cache_line_shifts;
     masked (a2 AND part_a0 linetag) lengthshift }"

definition a2ora0 :: "u64 \<Rightarrow> u32 \<Rightarrow> u32 \<Rightarrow> u32 option" where
  "a2ora0 linetag cache_line_shifts lengthshift = do {
     a2 \<leftarrow> part_a2 linetag cache_line_shifts;
     masked (a2 OR part_a0 linetag) lengthshift }"

definition a2xora0 :: "u64 \<Rightarrow> u32 \<Rightarrow> u32 \<Rightarrow> u32 option" where
  "a2xora0 linetag cache_line_shifts lengthshift = do {
     a2 \<leftarrow> part_a2 linetag cache_line_shifts;
     masked (a2 XOR part_a0 linetag) lengthshift }"

definition a2anda1 :: "u64 \<Rightarrow> u32 \<Rightarrow> u32 \<Rightarrow> u32 option" where
  "a2anda1 linetag cache_line_shifts lengthshift = do {
     a2 \<leftarrow> part_a2 linetag cache_line_shifts;
     masked (a2 AND part_a1 linetag) lengthshift }"

definition a2ora1 :: "u64 \<Rightarrow> u32 \<Rightarrow> u32 \<Rightarrow> u32 option" where
  "a2ora1 linetag cache_line_shifts lengthshift = do {
     a2 \<leftarrow> part_a2 linetag cache_line_shifts;
     masked (a2 OR part_a1 linetag) lengthshift }"

definition a2xora1 :: "u64 \<Rightarrow> u32 \<Rightarrow> u32 \<Rightarrow> u32 option" where
  "a2xora1 linetag cache_line_shifts lengthshift = do {
     a2 \<leftarrow> part_a2 linetag cache_line_shifts;
     masked (a2 XOR part_a1 linetag) lengthshift }"

definition a2xora1ora0 :: "u64 \<Rightarrow> u32 \<Rightarrow> u32 \<Rightarrow> u32 option" where
  "a2xora1ora0 linetag cache_line_shifts lengthshift = do {
     a2 \<leftarrow> part_a2 linetag cache_line_shifts;
     masked ((a2 XOR part_a1 linetag) OR part_a0 linetag) lengthshift }"

definition a2xora1anda0 :: "u64 \<Rightarrow> u32 \<Rightarrow> u32 \<Rightarrow> u32 option" where
  "a2xora1anda0 linetag cache_line_shifts lengthshift = do {
     a2 \<leftarrow> part_a2 linetag cache_line_shifts;
     masked ((a2 XOR part_a1 linetag) AND part_a0 linetag) lengthshift }"

definition a2xora1xora0 :: "u64 \<Rightarrow> u32 \<Rightarrow> u32 \<Rightarrow> u32 option" where
  "a2xora1xora0 linetag cache_line_shifts lengthshift = do {
     a2 \<leftarrow> part_a2 linetag cache_line_shifts;
     masked ((a2 XOR part_a1 linetag) XOR part_a0 linetag) lengthshift }"

section \<open>The mixing functions are permutations\<close>

named_theorems mixing_inj

lemma inj_let [mixing_inj]:
  "inj f \<Longrightarrow> inj g \<Longrightarrow> inj (\<lambda>x. let y = f x in g y)"
  by (auto simp: inj_def)

lemma inj_id_word [mixing_inj]: "inj (\<lambda>x :: u32. x)"
  by (simp add: inj_def)

text \<open>A number equal to an even multiple of itself is zero: so odd multipliers are injective.\<close>

lemma even_multiple_zero:
  fixes d e :: u32
  assumes "d = 2 * e * d"
  shows "d = 0"
proof -
  have "d = (2 * e) ^ n * d" for n
  proof (induction n)
    case (Suc n)
    have "(2 * e) ^ Suc n * d = (2 * e) ^ n * (2 * e * d)" by (simp add: mult_ac)
    then show ?case using Suc assms by simp
  qed simp
  from this [of 32] have "d = (2 :: u32) ^ 32 * e ^ 32 * d" by (simp only: power_mult_distrib)
  moreover have "(2 :: u32) ^ 32 = 0" by simp
  ultimately show ?thesis by (simp only: mult_zero_left)
qed

lemma inj_odd_mult:
  fixes e c :: u32
  shows "inj (\<lambda>x. (1 + 2 * e) * x + c)"
proof (rule injI)
  fix x y assume "(1 + 2 * e) * x + c = (1 + 2 * e) * y + c"
  then have "x - y = 2 * (- e) * (x - y)" by (simp add: algebra_simps)
  then have "x - y = 0" by (rule even_multiple_zero)
  then show "x = y" by simp
qed

lemma inj_add_shl [mixing_inj]: "0 < k \<Longrightarrow> inj (\<lambda>x :: u32. x + push_bit k x)"
  using inj_odd_mult [of "2 ^ (k - 1)" 0] by (cases k) (simp_all add: push_bit_eq_mult algebra_simps)

lemma inj_add_const_shl [mixing_inj]: "0 < k \<Longrightarrow> inj (\<lambda>x :: u32. (x + c) + push_bit k x)"
  using inj_odd_mult [of "2 ^ (k - 1)" c] by (cases k) (simp_all add: push_bit_eq_mult algebra_simps)

lemma inj_sub_shl [mixing_inj]: "0 < k \<Longrightarrow> inj (\<lambda>x :: u32. x - push_bit k x)"
  using inj_odd_mult [of "- (2 ^ (k - 1))" 0] by (cases k) (simp_all add: push_bit_eq_mult algebra_simps)

lemma inj_sub_const_shl [mixing_inj]: "0 < k \<Longrightarrow> inj (\<lambda>x :: u32. (x + c) - push_bit k x)"
  using inj_odd_mult [of "- (2 ^ (k - 1))" c] by (cases k) (simp_all add: push_bit_eq_mult algebra_simps)

lemma inj_not_add_shl [mixing_inj]: "0 < k \<Longrightarrow> inj (\<lambda>x :: u32. NOT x + push_bit k x)"
  using inj_odd_mult [of "2 ^ (k - 1) - 1" "- 1"]
  by (cases k) (simp_all add: push_bit_eq_mult not_eq_complement algebra_simps)

lemma inj_add_not_shl [mixing_inj]: "0 < k \<Longrightarrow> inj (\<lambda>x :: u32. x + NOT (push_bit k x))"
  using inj_odd_mult [of "- (2 ^ (k - 1))" "- 1"]
  by (cases k) (simp_all add: push_bit_eq_mult not_eq_complement algebra_simps)

lemma inj_add_two_shl [mixing_inj]:
  "0 < j \<Longrightarrow> 0 < k \<Longrightarrow> inj (\<lambda>x :: u32. (x + push_bit j x) + push_bit k x)"
  using inj_odd_mult [of "2 ^ (j - 1) + 2 ^ (k - 1)" 0]
  by (cases j; cases k) (simp_all add: push_bit_eq_mult algebra_simps)

lemma inj_odd_numeral [mixing_inj]: "inj (\<lambda>x :: u32. x * numeral (num.Bit1 n))"
  using inj_odd_mult [of "numeral n" 0] by (simp add: numeral.simps(3) algebra_simps flip: mult_2)

text \<open>The exclusive or with a shift of itself.\<close>

lemma inj_xor_shr [mixing_inj]:
  assumes "0 < k"
  shows "inj (\<lambda>x :: u32. (x XOR c) XOR drop_bit k x)"
proof (rule injI)
  fix x y :: u32
  assume eq: "(x XOR c) XOR drop_bit k x = (y XOR c) XOR drop_bit k y"
  define z where "z = x XOR y"
  have step: "bit z i = bit z (i + k)" for i
    using arg_cong [OF eq, of "\<lambda>w. bit w i"] bit_imp_le_length [of x "i + k"] bit_imp_le_length [of y "i + k"]
    by (auto simp: z_def bit_simps add.commute)
  have all: "bit z i = bit z (i + m * k)" for i m
  proof (induction m)
    case (Suc m)
    then show ?case using step [of "i + m * k"] by (simp add: ac_simps)
  qed simp
  have "\<not> bit z i" for i
  proof -
    have "32 \<le> i + 32 * k" using assms by simp
    then have "\<not> bit z (i + 32 * k)" using bit_imp_le_length [of z "i + 32 * k"] by auto
    then show ?thesis using all by metis
  qed
  then have "z = 0" by (simp add: bit_eq_iff)
  moreover have "x = z XOR y" by (simp add: z_def xor.assoc)
  ultimately show "x = y" by simp
qed

lemma inj_xor_shr0 [mixing_inj]: "0 < k \<Longrightarrow> inj (\<lambda>x :: u32. x XOR drop_bit k x)"
  using inj_xor_shr [of k 0] by simp

text \<open>Functions in which a bit of the argument is given by the result and the lower bits.\<close>

lemma inj_low_bits:
  fixes f :: "u32 \<Rightarrow> u32"
  assumes "\<And>x y m. f x = f y \<Longrightarrow> take_bit m x = take_bit m y \<Longrightarrow> take_bit (Suc m) x = take_bit (Suc m) y"
  shows "inj f"
proof (rule injI)
  fix x y assume eq: "f x = f y"
  have "take_bit m x = take_bit m y" for m
    by (induction m) (simp, rule assms [OF eq])
  from this [of 32] show "x = y" by (simp add: take_bit_word_eq_self)
qed

lemma take_bit_shl:
  fixes x y :: u32
  assumes "0 < k" "take_bit m x = take_bit m y"
  shows "take_bit (Suc m) (push_bit k x) = take_bit (Suc m) (push_bit k y)"
proof (rule bit_eqI)
  fix n
  have "bit x i = bit y i" if "i < m" for i
    using arg_cong [OF assms(2), of "\<lambda>w. bit w i"] that by (simp add: bit_simps)
  then show "bit (take_bit (Suc m) (push_bit k x)) n = bit (take_bit (Suc m) (push_bit k y)) n"
    using assms(1) by (auto simp: bit_simps)
qed

text \<open>A value is recovered from its combination with the shifted argument.\<close>

lemma take_bit_xor_part:
  fixes a b :: u32
  shows "take_bit n a = take_bit n (a XOR b) XOR take_bit n b"
  by (simp add: take_bit_xor xor.assoc)

lemma uint_take_bit_diff:
  fixes a b :: u32
  shows "uint (take_bit n (a - b)) =
    take_bit (min n 32) (take_bit (min n 32) (uint (take_bit n a)) - take_bit (min n 32) (uint (take_bit n b)))"
proof -
  have t: "take_bit (min n 32) (uint (take_bit n w)) = take_bit (min n 32) (uint w)" for w :: u32
    by (simp add: unsigned_take_bit_eq ac_simps)
  have "uint (a - b) = take_bit 32 (uint a - uint b)"
    using uint_word_arith_bintrs(2) [of a b] by simp
  then have "uint (take_bit n (a - b)) = take_bit (min n 32) (uint a - uint b)"
    by (simp only: unsigned_take_bit_eq take_bit_take_bit)
  then show ?thesis by (simp only: t take_bit_diff)
qed

lemma take_bit_diff_cong:
  fixes a b c d :: u32
  assumes "take_bit n a = take_bit n c" "take_bit n b = take_bit n d"
  shows "take_bit n (a - b) = take_bit n (c - d)"
proof -
  have "uint (take_bit n (a - b)) = uint (take_bit n (c - d))"
    by (simp only: uint_take_bit_diff assms)
  then show ?thesis by (simp only: word_eq_iff_unsigned [where ?'a = int])
qed

lemma inj_xor_shl [mixing_inj]:
  assumes "0 < k" shows "inj (\<lambda>x :: u32. x XOR push_bit k x)"
proof (rule inj_low_bits)
  fix x y :: u32 and m
  assume eq: "x XOR push_bit k x = y XOR push_bit k y" and low: "take_bit m x = take_bit m y"
  show "take_bit (Suc m) x = take_bit (Suc m) y"
    unfolding take_bit_xor_part [of "Suc m" x "push_bit k x"] take_bit_xor_part [of "Suc m" y "push_bit k y"]
    by (simp only: eq take_bit_shl [OF assms low])
qed

lemma inj_add_const_xor_shl [mixing_inj]:
  assumes "0 < k" shows "inj (\<lambda>x :: u32. (x + c) XOR push_bit k x)"
proof (rule inj_low_bits)
  fix x y :: u32 and m
  assume eq: "(x + c) XOR push_bit k x = (y + c) XOR push_bit k y" and low: "take_bit m x = take_bit m y"
  have sum: "take_bit (Suc m) (x + c) = take_bit (Suc m) (y + c)"
    unfolding take_bit_xor_part [of "Suc m" "x + c" "push_bit k x"] take_bit_xor_part [of "Suc m" "y + c" "push_bit k y"]
    by (simp only: eq take_bit_shl [OF assms low])
  show "take_bit (Suc m) x = take_bit (Suc m) y"
    using take_bit_diff_cong [OF sum refl, of c] by simp
qed

lemma inj_xor_const_add_shl [mixing_inj]:
  assumes "0 < k" shows "inj (\<lambda>x :: u32. (x XOR c) + push_bit k x)"
proof (rule inj_low_bits)
  fix x y :: u32 and m
  assume eq: "(x XOR c) + push_bit k x = (y XOR c) + push_bit k y" and low: "take_bit m x = take_bit m y"
  have sum: "take_bit (Suc m) (x XOR c) = take_bit (Suc m) (y XOR c)"
    using take_bit_diff_cong [OF arg_cong [OF eq, of "take_bit (Suc m)"] take_bit_shl [OF assms low]] by simp
  show "take_bit (Suc m) x = take_bit (Suc m) y"
    unfolding take_bit_xor_part [of "Suc m" x c] take_bit_xor_part [of "Suc m" y c] by (simp only: sum)
qed

text \<open>Each mixing function is a chain of injective steps.\<close>

lemma mixing_functions_inj [mixing_inj]:
  "inj jenkins" "inj jenkins32" "inj hash32shift" "inj hash32shiftmult" "inj hash64shift"
  "inj hash5shift" "inj hash7shift" "inj Wang6shift" "inj Wang5shift" "inj Wang4shift" "inj Wang3shift"
proof -
  have eta: "inj (\<lambda>x. f x) \<Longrightarrow> inj f" for f :: "u32 \<Rightarrow> u32" .
  show "inj jenkins" unfolding jenkins_def by (rule eta) (intro mixing_inj; simp)
  show "inj jenkins32" unfolding jenkins32_def by (rule eta) (intro mixing_inj; simp)
  show "inj hash32shift" unfolding hash32shift_def by (rule eta) (intro mixing_inj; simp)
  show "inj hash32shiftmult" unfolding hash32shiftmult_def by (rule eta) (intro mixing_inj; simp)
  show "inj hash64shift" unfolding hash64shift_def by (rule eta) (intro mixing_inj; simp)
  show "inj hash5shift" unfolding hash5shift_def by (rule eta) (intro mixing_inj; simp)
  show "inj hash7shift" unfolding hash7shift_def by (rule eta) (intro mixing_inj; simp)
  show "inj Wang6shift" unfolding Wang6shift_def by (rule eta) (intro mixing_inj; simp)
  show "inj Wang5shift" unfolding Wang5shift_def by (rule eta) (intro mixing_inj; simp)
  show "inj Wang4shift" unfolding Wang4shift_def by (rule eta) (intro mixing_inj; simp)
  show "inj Wang3shift" unfolding Wang3shift_def by (rule eta) (intro mixing_inj; simp)
qed

lemmas mixing_eq = mixing_functions_inj [THEN inj_eq]

lemma hybrids_inj:
  "inj three_hybrid2" "inj three_hybrid3" "inj three_hybrid4" "inj three_hybrid6" "inj three_hybrid7"
  "inj three_hybrid8" "inj three_hybrid9" "inj three_hybrid10" "inj three_hybrid11" "inj three_hybrid12"
  "inj four_hybrid1" "inj four_hybrid2" "inj four_hybrid3" "inj four_hybrid5" "inj four_hybrid6"
  "inj four_hybrid7" "inj four_hybrid8" "inj four_hybrid11" "inj four_hybrid12"
  by (simp_all add: inj_def mixing_eq three_hybrid2_def three_hybrid3_def three_hybrid4_def three_hybrid6_def
      three_hybrid7_def three_hybrid8_def three_hybrid9_def three_hybrid10_def three_hybrid11_def
      three_hybrid12_def four_hybrid1_def four_hybrid2_def four_hybrid3_def four_hybrid5_def
      four_hybrid6_def four_hybrid7_def four_hybrid8_def four_hybrid11_def four_hybrid12_def)

text \<open>The selectors whose function does not go through \<open>knuth\<close> or \<open>murmur3\<close>.\<close>

definition permuting_selectors :: "u32 list" where
  "permuting_selectors = [1, 2, 5, 6, 7, 8, 9, 10, 11, 12, 13, 14,
     102, 103, 104, 106, 107, 108, 109, 110, 111, 112,
     1001, 1002, 1003, 1005, 1006, 1007, 1008, 1011, 1012]"

text \<open>What each of these selectors runs.\<close>

definition selected :: "u32 \<Rightarrow> u32 \<Rightarrow> u32" where
  "selected s key = the (getHash s key)"

lemma selected_inj: "list_all (\<lambda>s. inj (selected s)) permuting_selectors"
  unfolding permuting_selectors_def list.pred_inject selected_def
  by (intro conjI TrueI; simp add: getHash_def inj_def mixing_eq hybrids_inj [THEN inj_eq])

lemma getHash_selected: "list_all (\<lambda>s. getHash s key \<noteq> None) permuting_selectors"
  unfolding permuting_selectors_def list.pred_inject by (intro conjI TrueI; simp add: getHash_def)

text \<open>
  The mixing functions lose nothing: for every selector that does not go through
  \<open>knuth\<close> (which drops three bits) or \<open>murmur3\<close>, \<open>getHash\<close> returns a value for every key
  and is a permutation of the 32-bit keys, so two keys never collide before the index is
  reduced to the size of a table.
\<close>

theorem hash_zoo_permutes:
  assumes "selector \<in> set permuting_selectors"
  shows "\<exists>f. bij f \<and> (\<forall>key. getHash selector key = Some (f key))"
proof (intro exI conjI allI)
  have "inj (selected selector)" using selected_inj assms by (simp add: list_all_iff)
  then show "bij (selected selector)" by (simp add: bij_def finite_UNIV_inj_surj)
  fix key
  have "getHash selector key \<noteq> None" using getHash_selected assms by (simp add: list_all_iff)
  then show "getHash selector key = Some (selected selector key)" by (auto simp: selected_def)
qed

text \<open>\<open>knuth\<close> maps the eight keys that differ in their low three bits to one value.\<close>

lemma knuth_collides: "knuth 0 = knuth 7"
  by (simp add: knuth_def drop_bit_eq_div)

lemma hash_zoo_permutes_witness: "getHash 5 1 \<noteq> getHash 5 2"
proof -
  obtain f where f: "bij f" "\<And>key. getHash 5 key = Some (f key)"
    using hash_zoo_permutes [of 5] by (auto simp: permuting_selectors_def)
  have "f 1 \<noteq> f 2" using injD [OF bij_is_inj [OF f(1)], of 1 2] by auto
  then show ?thesis by (simp add: f(2))
qed

section \<open>The two folding functions agree\<close>

text \<open>The exclusive or of the first \<open>m\<close> chunks of \<open>n\<close> bits.\<close>

primrec xor_chunks :: "nat \<Rightarrow> nat \<Rightarrow> u64 \<Rightarrow> u64" where
  "xor_chunks n 0 v = 0"
| "xor_chunks n (Suc m) v = xor_chunks n m v XOR take_bit n (drop_bit (m * n) v)"

lemma low_mask_eq: "unat w < 64 \<Longrightarrow> low_mask w = Some (mask (unat w))"
proof -
  have m: "NOT (push_bit n 0xffffffffffffffff :: u64) = mask n" for n
  proof -
    have "(0xffffffffffffffff :: u64) = - 1" by simp
    then show ?thesis by (simp only: push_bit_minus_one_eq_not_mask bit.double_compl)
  qed
  show "unat w < 64 \<Longrightarrow> low_mask w = Some (mask (unat w))"
    by (simp add: low_mask_def m)
qed

lemma fold_xor_loop_chunks:
  "take_bit n (fold_xor_loop n k res (drop_bit (m * n) v)) =
     take_bit n res XOR xor_chunks n (m + k) v XOR xor_chunks n m v"
proof (induction k arbitrary: res m)
  case (Suc k)
  have "drop_bit n (drop_bit (m * n) v) = drop_bit (Suc m * n) v" by (simp add: add.commute)
  then have "take_bit n (fold_xor_loop n (Suc k) res (drop_bit (m * n) v)) =
      take_bit n (res XOR drop_bit (m * n) v) XOR xor_chunks n (Suc m + k) v XOR xor_chunks n (Suc m) v"
    using Suc.IH [of "res XOR drop_bit (m * n) v" "Suc m"] by simp
  then show ?case by (simp add: take_bit_xor ac_simps)
qed simp

lemma fold_xor_eq:
  assumes "0 < unat n" "unat n < 64"
  shows "fold_xor v n = Some (ucast (xor_chunks (unat n) (Suc (64 div unat n)) v))"
proof -
  have "fold_xor v n = Some (ucast (take_bit (unat n)
      (fold_xor_loop (unat n) (64 div unat n) (take_bit (unat n) v) (drop_bit (1 * unat n) v))))"
    using assms by (cases "n = 0") (simp_all add: fold_xor_def low_mask_eq take_bit_eq_mask)
  then show ?thesis unfolding fold_xor_loop_chunks by (simp add: ac_simps)
qed

lemma folded_xor_loop_chunks:
  assumes "m = mask b"
  shows "folded_xor_loop v m b i n (ucast (xor_chunks b i v)) = ucast (xor_chunks b (i + n) v)"
proof (induction n arbitrary: i)
  case (Suc n)
  have "ucast (xor_chunks b i v) XOR ucast (drop_bit (i * b) v AND m) = (ucast (xor_chunks b (Suc i) v) :: u32)"
    by (simp add: assms take_bit_eq_mask bit_eq_iff bit_simps)
  then show ?case using Suc [of "Suc i"] by simp
qed simp

lemma bit_xor_chunks:
  "bit (xor_chunks n m v) i \<longleftrightarrow> i < n \<and> odd (card {k. k < m \<and> bit v (k * n + i)})"
proof (induction m)
  case (Suc m)
  have "{k. k < Suc m \<and> bit v (k * n + i)} =
      (if bit v (m * n + i) then insert m {k. k < m \<and> bit v (k * n + i)} else {k. k < m \<and> bit v (k * n + i)})"
    by (auto simp: less_Suc_eq)
  then have "card {k. k < Suc m \<and> bit v (k * n + i)} =
      card {k. k < m \<and> bit v (k * n + i)} + (if bit v (m * n + i) then 1 else 0)"
    by simp
  then show ?case using Suc by (auto simp: bit_simps)
qed simp

lemma folded_xor_eq:
  assumes "f \<in> {2, 4, 8, 16, 32, 64}"
  shows "folded_xor v f = Some (ucast (xor_chunks (64 div unat f) (unat f) v))"
proof -
  let ?b = "64 div unat f"
  let ?m = "if f = 2 then (0xffffffff :: u64) else ucast (ucast ((push_bit ?b 1 :: u64) - 1) :: u32)"
  have m: "?m = mask ?b"
    using assms by (elim insertE emptyE; simp add: mask_eq_exp_minus_1)
  have "1 < f" "f AND (f - 1) = 0" using assms by (elim insertE emptyE; simp)+
  then have "folded_xor v f = Some (folded_xor_loop v ?m ?b 0 (unat f) 0)"
    by (simp add: folded_xor_def Let_def)
  then show ?thesis using folded_xor_loop_chunks [OF m, of v 0 "unat f"] by simp
qed

text \<open>
  The two folding functions of \<open>util.cc\<close> agree: folding a 64-bit value to an index of
  \<open>n\<close> bits with \<open>PredictorHashZoo::fold_xor\<close> and folding it \<open>64 / n\<close> times with \<open>folded_xor\<close>
  give the same number, the one whose bit \<open>i\<close> is the parity of the bits of the value at the
  positions congruent to \<open>i\<close> modulo \<open>n\<close>; so it is below \<open>2 ^ n\<close>.
\<close>

theorem folding_agrees:
  assumes "n \<in> {1, 2, 4, 8, 16, 32}"
  shows "\<exists>h. fold_xor v n = Some h \<and> folded_xor v (64 div n) = Some h \<and>
    (\<forall>i. bit h i = (i < unat n \<and> odd (card {k. k < 64 div unat n \<and> bit v (k * unat n + i)})))"
proof -
  have n: "0 < unat n" "unat n \<le> 32" "unat (64 div n) = 64 div unat n" "64 div n \<in> {2, 4, 8, 16, 32, 64}"
    "64 div (64 div unat n) = unat n" "64 div unat n * unat n = 64"
    using assms by (elim insertE emptyE; simp)+
  have "drop_bit 64 v = 0" by (rule bit_eqI) (simp add: bit_simps)
  then have "fold_xor v n = Some (ucast (xor_chunks (unat n) (64 div unat n) v))"
    using n by (simp add: fold_xor_eq)
  moreover have "folded_xor v (64 div n) = Some (ucast (xor_chunks (unat n) (64 div unat n) v))"
    using n by (simp add: folded_xor_eq)
  moreover have "bit (ucast (xor_chunks (unat n) (64 div unat n) v) :: u32) i =
      (i < unat n \<and> odd (card {k. k < 64 div unat n \<and> bit v (k * unat n + i)}))" for i
    using n(2) by (auto simp: bit_ucast_iff bit_xor_chunks)
  ultimately show ?thesis by blast
qed

lemma folding_agrees_witness: "fold_xor 0x123456789abcdef0 16 = folded_xor 0x123456789abcdef0 4"
proof -
  have d: "(64 :: u32) div 16 = 4" by simp
  have s: "(16 :: u32) \<in> {1, 2, 4, 8, 16, 32}" by blast
  from folding_agrees [OF s, of "0x123456789abcdef0"] obtain h
    where "fold_xor 0x123456789abcdef0 16 = Some h" "folded_xor 0x123456789abcdef0 (64 div 16) = Some h"
    by (elim exE conjE)
  then show ?thesis by (simp only: d)
qed

text \<open>Every index function stays below the size of its table.\<close>

lemma low_mask_small:
  assumes "low_mask lengthshift = Some m" "unat lengthshift \<le> 32"
  shows "unat (ucast (w AND m) :: u32) < 2 ^ unat lengthshift"
proof -
  have s: "unat lengthshift < 64" using assms(1) by (simp add: low_mask_def arr_simps)
  then have "m = mask (unat lengthshift)" using assms(1) by (simp add: low_mask_eq)
  then have "unat (ucast (w AND m) :: u32) = take_bit 32 (take_bit (unat lengthshift) (unat w))"
    by (simp add: unsigned_ucast_eq unsigned_and_eq unsigned_take_bit_eq min.commute flip: take_bit_eq_mask)
  also have "\<dots> < 2 ^ unat lengthshift" using assms(2) by (simp add: min_def take_bit_take_bit del: take_bit_eq_mod)
  finally show ?thesis .
qed

lemma masked_small: "masked w lengthshift = Some h \<Longrightarrow> unat lengthshift \<le> 32 \<Longrightarrow> unat h < 2 ^ unat lengthshift"
  unfolding masked_def by (auto simp: arr_simps intro: low_mask_small)

lemma fold_xor_small: "fold_xor v n = Some h \<Longrightarrow> unat n \<le> 32 \<Longrightarrow> unat h < 2 ^ unat n"
  unfolding fold_xor_def by (auto simp: arr_simps Let_def intro: low_mask_small)

end
