(* ===== verification/Hit_Predictors.thy ===== *)
theory Hit_Predictors
  imports Dram_Cache Hash_Zoo Std_Map
begin

text \<open>
  The hit predictors of the DRAM cache (\<open>predictor/map_g.cc\<close>, \<open>map_i.cc\<close>, \<open>missmap.cc\<close>,
  \<open>bloomfilter_predictor.cc\<close> and their headers).  Each keeps a summary of the cache's content:
  \<open>update\<close> reads whether the cache holds the address and which block it evicted last,
  \<open>predict\<close> answers whether an address will hit.

  A \<open>std::bitset<64>\<close> is a 64-bit word, a \<open>std::map\<close> the sorted list of \<open>Std_Map\<close>.  The
  parameter \<open>op\<close> of \<open>predict\<close>, which no predictor reads, is left out.
\<close>

unbundle bit_operations_syntax

section \<open>Saturating counters: MAP-G and MAP-I\<close>

record saturate_count =
  countbit :: u32
  countmax :: u32
  val :: u32

definition new_saturate_count :: "u32 \<Rightarrow> saturate_count option" where
  "new_saturate_count bits = do {
     assert_that (unat bits < 31);
     Some \<lparr>countbit = bits, countmax = push_bit (unat bits) 1 - 1, val = 0\<rparr> }"

definition incrment :: "saturate_count \<Rightarrow> saturate_count" where
  "incrment s = (if val s < countmax s then s\<lparr>val := val s + 1\<rparr> else s)"

definition decrment :: "saturate_count \<Rightarrow> saturate_count" where
  "decrment s = (if 0 < val s then s\<lparr>val := val s - 1\<rparr> else s)"

definition resize :: "u32 \<Rightarrow> saturate_count \<Rightarrow> saturate_count option" where
  "resize bits s = do {
     assert_that (unat bits < 31);
     Some (s\<lparr>countbit := bits, countmax := push_bit (unat bits) 1 - 1\<rparr>) }"

definition MSB :: "saturate_count \<Rightarrow> bool option" where
  "MSB s = do {
     assert_that (unat (countbit s - 1) < 32);
     Some (drop_bit (unat (countbit s - 1)) (val s) \<noteq> 0) }"

definition map_g_update :: "u64 \<Rightarrow> dram_cache \<Rightarrow> saturate_count \<Rightarrow> saturate_count option" where
  "map_g_update addr c counter = do {
     hit \<leftarrow> check_cache_hit c addr;
     Some (if hit then decrment counter else incrment counter) }"

definition map_g_predict :: "saturate_count \<Rightarrow> bool option" where
  "map_g_predict counter = map_option Not (MSB counter)"

record map_i =
  mi_length :: u32
  MACT :: "saturate_count list"
  mi_length_shift :: u32
  mi_cache_line_shift :: u32

definition new_map_i :: "u32 \<Rightarrow> u32 \<Rightarrow> u32 \<Rightarrow> map_i option" where
  "new_map_i line_size counternum counterbit = do {
     shift \<leftarrow> log2_u32 counternum;
     s \<leftarrow> new_saturate_count counterbit;
     line_shift \<leftarrow> log2_u32 line_size;
     Some \<lparr>mi_length = counternum, MACT = replicate (unat counternum) s, mi_length_shift = shift,
       mi_cache_line_shift = line_shift\<rparr> }"

definition shift_right :: "u64 \<Rightarrow> u32 \<Rightarrow> u64 option" where
  "shift_right x n = (if unat n < 64 then Some (drop_bit (unat n) x) else None)"

definition on_counter :: "(saturate_count \<Rightarrow> saturate_count) \<Rightarrow> u64 \<Rightarrow> map_i \<Rightarrow> map_i option" where
  "on_counter f tag m = do {
     pos \<leftarrow> fold_xor tag (mi_length_shift m);
     s \<leftarrow> arr_get (MACT m) (unat pos);
     Some (m\<lparr>MACT := (MACT m)[unat pos := f s]\<rparr>) }"

definition map_i_update :: "u64 \<Rightarrow> dram_cache \<Rightarrow> map_i \<Rightarrow> map_i option" where
  "map_i_update addr c m = do {
     tag \<leftarrow> shift_right addr (mi_cache_line_shift m);
     hit \<leftarrow> check_cache_hit c addr;
     if hit then on_counter decrment tag m
     else do {
       m1 \<leftarrow> on_counter incrment tag m;
       victimtag \<leftarrow> get_victim_tag c;
       if victimtag < ULONG_MAX then on_counter incrment victimtag m1 else Some m1 } }"

definition map_i_predict :: "u64 \<Rightarrow> map_i \<Rightarrow> bool option" where
  "map_i_predict addr m = do {
     tag \<leftarrow> shift_right addr (mi_cache_line_shift m);
     pos \<leftarrow> fold_xor tag (mi_length_shift m);
     s \<leftarrow> arr_get (MACT m) (unat pos);
     map_option Not (MSB s) }"

section \<open>MissMap\<close>

text \<open>An entry is its bitmap; \<open>check_bitmap_zero\<close> returns whether some bit is set, as the code
  does.\<close>

definition entry_set :: "nat \<Rightarrow> u64 \<Rightarrow> u64 option" where
  "entry_set pos bm = (if pos < 64 then Some (set_bit pos bm) else None)"

definition entry_reset :: "nat \<Rightarrow> u64 \<Rightarrow> u64 option" where
  "entry_reset pos bm = (if pos < 64 then Some (unset_bit pos bm) else None)"

definition check_bitmap_zero :: "u64 \<Rightarrow> bool" where
  "check_bitmap_zero bm = (bm \<noteq> 0)"

record miss_map =
  missmap :: "(u64, u64) std_map"
  mm_cache_line_shift :: u32
  mm_cache_segement_shift :: u32
  Maxlength :: u32
  posmask :: u64

definition new_miss_map :: "u32 \<Rightarrow> u32 \<Rightarrow> u32 \<Rightarrow> miss_map option" where
  "new_miss_map segement_size line_size len = do {
     line_shift \<leftarrow> log2_u32 line_size;
     segement_shift \<leftarrow> log2_u32 segement_size;
     m \<leftarrow> low_mask (segement_shift - line_shift);
     Some \<lparr>missmap = [], mm_cache_line_shift = line_shift, mm_cache_segement_shift = segement_shift,
       Maxlength = len, posmask = m\<rparr> }"

definition AddEntry :: "u64 \<Rightarrow> nat \<Rightarrow> miss_map \<Rightarrow> (miss_map \<times> bool) option" where
  "AddEntry tag pos m =
     (if length (missmap m) < unat (Maxlength m)
      then do {
        e \<leftarrow> entry_set pos 0;
        Some (m\<lparr>missmap := map_insert tag e (missmap m)\<rparr>, True) }
      else Some (m, False))"

text \<open>The segment of an address and its position there.\<close>

definition segement_of :: "u64 \<Rightarrow> miss_map \<Rightarrow> u64 option" where
  "segement_of addr m = shift_right addr (mm_cache_segement_shift m)"

definition position_of :: "u64 \<Rightarrow> miss_map \<Rightarrow> u32 option" where
  "position_of addr m = do {
     line \<leftarrow> shift_right addr (mm_cache_line_shift m);
     Some (ucast (posmask m AND line)) }"

definition miss_map_predict :: "u64 \<Rightarrow> miss_map \<Rightarrow> bool option" where
  "miss_map_predict addr m = do {
     tag \<leftarrow> segement_of addr m;
     pos \<leftarrow> position_of addr m;
     (case map_of (missmap m) tag of
        None \<Rightarrow> Some False
      | Some bm \<Rightarrow> if unat pos < 64 then Some (bit bm (unat pos)) else None) }"

text \<open>Marking a block as present, which both branches of \<open>update\<close> start with.\<close>

definition mark_present :: "u64 \<Rightarrow> nat \<Rightarrow> miss_map \<Rightarrow> miss_map option" where
  "mark_present tag pos m = (case map_of (missmap m) tag of
     Some bm \<Rightarrow> do {
       e \<leftarrow> entry_set pos bm;
       Some (m\<lparr>missmap := map_assign tag e (missmap m)\<rparr>) }
   | None \<Rightarrow> map_option fst (AddEntry tag pos m))"

definition forget_victim :: "u64 \<Rightarrow> nat \<Rightarrow> miss_map \<Rightarrow> miss_map option" where
  "forget_victim vtag vpos m = (case map_of (missmap m) vtag of
     None \<Rightarrow> Some m
   | Some bm \<Rightarrow> do {
       e \<leftarrow> entry_reset vpos bm;
       Some (m\<lparr>missmap := if check_bitmap_zero e then map_erase vtag (missmap m)
                         else map_assign vtag e (missmap m)\<rparr>) })"

definition miss_map_update :: "u64 \<Rightarrow> dram_cache \<Rightarrow> miss_map \<Rightarrow> miss_map option" where
  "miss_map_update addr c m = do {
     tag \<leftarrow> segement_of addr m;
     pos \<leftarrow> position_of addr m;
     hit \<leftarrow> check_cache_hit c addr;
     m1 \<leftarrow> mark_present tag (unat pos) m;
     if hit then Some m1
     else do {
       victim \<leftarrow> get_victim_tag c;
       if victim < ULONG_MAX
       then do {
         vtag \<leftarrow> shift_right victim (mm_cache_segement_shift m - mm_cache_line_shift m);
         let vpos = (ucast (posmask m AND victim) :: u32);
         forget_victim vtag (unat vpos) m1 }
       else Some m1 } }"

section \<open>The Bloom filter\<close>

record bloom_filter =
  bf_length :: u32
  bloomfilter :: "bool list"

definition new_bloom_filter :: "u32 \<Rightarrow> bloom_filter" where
  "new_bloom_filter len = \<lparr>bf_length = len, bloomfilter = replicate (unat len) False\<rparr>"

definition bloom_set :: "u32 \<Rightarrow> bloom_filter \<Rightarrow> bloom_filter option" where
  "bloom_set index b =
     (if bf_length b \<le> index then Some b
      else do { bs \<leftarrow> arr_set (bloomfilter b) (unat index) True; Some (b\<lparr>bloomfilter := bs\<rparr>) })"

text \<open>\<open>reset\<close> writes only when the index is out of range, as the code does.\<close>

definition bloom_reset :: "u32 \<Rightarrow> bloom_filter \<Rightarrow> bloom_filter option" where
  "bloom_reset index b =
     (if bf_length b \<le> index
      then do { bs \<leftarrow> arr_set (bloomfilter b) (unat index) False; Some (b\<lparr>bloomfilter := bs\<rparr>) }
      else Some b)"

definition bloom_check :: "u32 \<Rightarrow> bloom_filter \<Rightarrow> bool option" where
  "bloom_check index b =
     (if bf_length b \<le> index then Some False else arr_get (bloomfilter b) (unat index))"

record bloom_predictor =
  bp_filter :: bloom_filter
  bp_length_shift :: u32
  bp_cache_line_shift :: u32

definition new_bloom_predictor :: "u32 \<Rightarrow> u32 \<Rightarrow> bloom_predictor option" where
  "new_bloom_predictor line_size len = do {
     line_shift \<leftarrow> log2_u32 line_size;
     shift \<leftarrow> log2_u32 len;
     Some \<lparr>bp_filter = new_bloom_filter len, bp_length_shift = shift, bp_cache_line_shift = line_shift\<rparr> }"

definition bloom_index :: "u64 \<Rightarrow> bloom_predictor \<Rightarrow> u32 option" where
  "bloom_index addr p = do {
     tag \<leftarrow> shift_right addr (bp_cache_line_shift p);
     a1anda0 tag (bp_cache_line_shift p) (bp_length_shift p) }"

definition bloom_update :: "u64 \<Rightarrow> dram_cache \<Rightarrow> bloom_predictor \<Rightarrow> bloom_predictor option" where
  "bloom_update addr c p = do {
     index \<leftarrow> bloom_index addr p;
     hit \<leftarrow> check_cache_hit c addr;
     b \<leftarrow> bloom_set index (bp_filter p);
     if hit then Some (p\<lparr>bp_filter := b\<rparr>)
     else do {
       victim \<leftarrow> get_victim_tag c;
       if victim < ULONG_MAX
       then do {
         vindex \<leftarrow> a1anda0 victim (bp_cache_line_shift p) (bp_length_shift p);
         b' \<leftarrow> bloom_reset vindex b;
         Some (p\<lparr>bp_filter := b'\<rparr>) }
       else Some (p\<lparr>bp_filter := b\<rparr>) } }"

definition bloom_predict :: "u64 \<Rightarrow> bloom_predictor \<Rightarrow> bool option" where
  "bloom_predict addr p = do {
     index \<leftarrow> bloom_index addr p;
     bloom_check index (bp_filter p) }"

section \<open>What MissMap answers\<close>

definition segment_bits :: "miss_map \<Rightarrow> nat" where
  "segment_bits m = unat (mm_cache_segement_shift m) - unat (mm_cache_line_shift m)"

definition missmap_ok :: "miss_map \<Rightarrow> bool" where
  "missmap_ok m \<longleftrightarrow> map_sorted (missmap m) \<and> unat (mm_cache_segement_shift m) < 64 \<and>
     mm_cache_line_shift m \<le> mm_cache_segement_shift m \<and> segment_bits m \<le> 6 \<and>
     posmask m = mask (segment_bits m)"

definition segment :: "miss_map \<Rightarrow> u64 \<Rightarrow> u64" where
  "segment m tag = drop_bit (segment_bits m) tag"

definition place :: "miss_map \<Rightarrow> u64 \<Rightarrow> nat" where
  "place m tag = unat (take_bit (segment_bits m) tag)"

definition block_tag :: "miss_map \<Rightarrow> u64 \<Rightarrow> u64" where
  "block_tag m addr = drop_bit (unat (mm_cache_line_shift m)) addr"

definition recorded :: "miss_map \<Rightarrow> u64 \<Rightarrow> bool" where
  "recorded m tag = (case map_of (missmap m) (segment m tag) of None \<Rightarrow> False | Some bm \<Rightarrow> bit bm (place m tag))"

lemma missmap_shape:
  assumes "missmap_ok m"
  shows "unat (mm_cache_line_shift m) < 64" "unat (mm_cache_segement_shift m - mm_cache_line_shift m) = segment_bits m"
    "unat (mm_cache_segement_shift m) = segment_bits m + unat (mm_cache_line_shift m)" "segment_bits m < 64"
  using assms by (simp_all add: missmap_ok_def segment_bits_def word_le_nat_alt unat_sub)

lemma place_less: "missmap_ok m \<Longrightarrow> place m tag < 64"
proof -
  assume ok: "missmap_ok m"
  then have "2 ^ segment_bits m \<le> (2 :: nat) ^ 6"
    by (intro power_increasing) (simp_all add: missmap_ok_def)
  moreover have "place m tag < 2 ^ segment_bits m"
    by (simp add: place_def unsigned_take_bit_eq)
  ultimately show ?thesis by simp
qed

lemma place_eq:
  assumes "missmap_ok m"
  shows "unat (ucast (posmask m AND tag) :: u32) = place m tag"
proof -
  have "posmask m AND tag = take_bit (segment_bits m) tag"
    using assms by (simp add: missmap_ok_def take_bit_eq_mask and.commute)
  then have "unat (ucast (posmask m AND tag) :: u32) = take_bit 32 (place m tag)"
    by (simp add: place_def unsigned_ucast_eq)
  then show ?thesis
    using place_less [OF assms, of tag] by (simp add: take_bit_nat_eq_self)
qed

lemma segement_of_eq: "missmap_ok m \<Longrightarrow> segement_of addr m = Some (segment m (block_tag m addr))"
  using missmap_shape(3) [of m]
  by (simp add: segement_of_def shift_right_def missmap_ok_def segment_def block_tag_def add.commute)

lemma position_of_eq:
  "missmap_ok m \<Longrightarrow> map_option unat (position_of addr m) = Some (place m (block_tag m addr))"
  using missmap_shape(1) [of m] by (simp add: position_of_def shift_right_def block_tag_def place_eq)

lemma missmap_predict_eq: "missmap_ok m \<Longrightarrow> miss_map_predict addr m = Some (recorded m (block_tag m addr))"
  using position_of_eq [of m addr] place_less [of m "block_tag m addr"]
  by (auto simp: miss_map_predict_def segement_of_eq recorded_def split: option.splits)

text \<open>Two tags are equal when they agree on their segment and their place.\<close>

lemma tag_parts: "segment m a = segment m b \<Longrightarrow> place m a = place m b \<Longrightarrow> a = b"
proof -
  assume eq: "segment m a = segment m b" "place m a = place m b"
  then have "take_bit (segment_bits m) a = take_bit (segment_bits m) b"
    by (simp add: place_def word_eq_iff_unsigned [where ?'a = nat] del: unsigned_take_bit_eq)
  then have "push_bit (segment_bits m) (drop_bit (segment_bits m) a) + take_bit (segment_bits m) a =
      push_bit (segment_bits m) (drop_bit (segment_bits m) b) + take_bit (segment_bits m) b"
    using eq(1) by (simp add: segment_def)
  then show ?thesis by (simp only: bits_ident)
qed

definition has_room :: "miss_map \<Rightarrow> u64 \<Rightarrow> bool" where
  "has_room m tag \<longleftrightarrow> segment m tag \<in> fst ` set (missmap m) \<or> length (missmap m) < unat (Maxlength m)"

lemma mark_present_ok:
  assumes ok: "missmap_ok m"
  obtains m1 where "mark_present (segment m tag) (place m tag) m = Some m1" "missmap_ok m1"
    "segment m1 = segment m" "place m1 = place m" "block_tag m1 = block_tag m" "posmask m1 = posmask m"
    "mm_cache_line_shift m1 = mm_cache_line_shift m" "mm_cache_segement_shift m1 = mm_cache_segement_shift m"
    "\<And>t. recorded m1 t = (recorded m t \<or> t = tag \<and> has_room m tag)"
proof -
  define s k where "s = segment m tag" and "k = place m tag"
  have k: "k < 64" using place_less [OF ok] by (simp add: k_def)
  have so: "map_sorted (missmap m)" using ok by (simp add: missmap_ok_def)
  define xs where "xs = (if s \<in> fst ` set (missmap m)
      then map_assign s (set_bit k (the (map_of (missmap m) s))) (missmap m)
      else if length (missmap m) < unat (Maxlength m) then map_insert s (set_bit k 0) (missmap m) else missmap m)"
  define m1 where "m1 = m\<lparr>missmap := xs\<rparr>"
  have run: "mark_present s k m = Some m1"
  proof (cases "map_of (missmap m) s")
    case None
    then have "s \<notin> fst ` set (missmap m)" by (simp add: map_of_key)
    with None k show ?thesis by (auto simp: mark_present_def AddEntry_def entry_set_def m1_def xs_def)
  next
    case (Some bm)
    then have "s \<in> fst ` set (missmap m)" by (metis map_of_key option.distinct(1))
    with Some k show ?thesis by (simp add: mark_present_def entry_set_def m1_def xs_def)
  qed
  have "map_sorted xs" using so by (simp add: xs_def map_insert_sorted)
  then have ok1: "missmap_ok m1" using ok by (simp add: missmap_ok_def m1_def segment_bits_def)
  have f: "segment m1 = segment m" "place m1 = place m" "block_tag m1 = block_tag m"
    by (simp_all add: fun_eq_iff segment_def place_def block_tag_def segment_bits_def m1_def)
  have "missmap m1 = xs" by (simp add: m1_def)
  then have mk: "recorded m1 t = (case map_of xs (segment m t) of None \<Rightarrow> False | Some bm \<Rightarrow> bit bm (place m t))" for t
    by (simp only: recorded_def f)
  have look: "map_of xs u = (if u = s \<and> has_room m tag
      then Some (set_bit k (case map_of (missmap m) s of None \<Rightarrow> 0 | Some bm \<Rightarrow> bm)) else map_of (missmap m) u)" for u
    using so map_of_key [of "missmap m" s]
    by (auto simp: xs_def has_room_def map_of_map_assign map_of_map_insert s_def [symmetric] split: option.splits)
  have "recorded m1 t = (recorded m t \<or> t = tag \<and> has_room m tag)" for t
  proof (cases "segment m t = s \<and> has_room m tag")
    case True
    have "place m t = k \<longleftrightarrow> t = tag" using True tag_parts [of m t tag] by (auto simp: s_def k_def)
    moreover have "recorded m1 t = (bit (case map_of (missmap m) s of None \<Rightarrow> 0 | Some bm \<Rightarrow> bm) (place m t) \<or> place m t = k)"
      using True k look [of s] by (auto simp: mk bit_simps possible_bit_def)
    ultimately show ?thesis using True by (auto simp: recorded_def split: option.splits)
  next
    case False
    then show ?thesis using look [of "segment m t"] unfolding mk by (auto simp: recorded_def s_def)
  qed
  then show ?thesis using that [OF run [unfolded s_def k_def] ok1 f] by (simp add: m1_def)
qed

lemma forget_victim_ok:
  assumes ok: "missmap_ok m"
  obtains m1 where "forget_victim (segment m tag) (place m tag) m = Some m1" "missmap_ok m1"
    "\<And>t. recorded m1 t = (recorded m t \<and> segment m t \<noteq> segment m tag)" "block_tag m1 = block_tag m"
proof -
  define s k where "s = segment m tag" and "k = place m tag"
  have k: "k < 64" using place_less [OF ok] by (simp add: k_def)
  have so: "map_sorted (missmap m)" using ok by (simp add: missmap_ok_def)
  show ?thesis
  proof (cases "map_of (missmap m) s")
    case None
    then have "forget_victim s k m = Some m" by (simp add: forget_victim_def)
    moreover have "recorded m t = (recorded m t \<and> segment m t \<noteq> s)" for t
      using None by (auto simp: recorded_def)
    ultimately show ?thesis using that ok by (simp add: s_def k_def)
  next
    case (Some bm)
    define e where "e = unset_bit k bm"
    define xs where "xs = (if check_bitmap_zero e then map_erase s (missmap m) else map_assign s e (missmap m))"
    define m1 where "m1 = m\<lparr>missmap := xs\<rparr>"
    have run: "forget_victim s k m = Some m1"
      using Some k by (simp add: forget_victim_def entry_reset_def m1_def xs_def e_def)
    have "map_sorted xs" using so by (simp add: xs_def map_erase_sorted)
    then have ok1: "missmap_ok m1" using ok by (simp add: missmap_ok_def m1_def segment_bits_def)
    have f: "segment m1 = segment m" "place m1 = place m" "block_tag m1 = block_tag m"
      by (simp_all add: fun_eq_iff segment_def place_def block_tag_def segment_bits_def m1_def)
    have "missmap m1 = xs" by (simp add: m1_def)
    then have mk: "recorded m1 t = (case map_of xs (segment m t) of None \<Rightarrow> False | Some bm \<Rightarrow> bit bm (place m t))" for t
      by (simp only: recorded_def f)
    have look: "map_of xs u = (if u = s then (if e = 0 then Some 0 else None) else map_of (missmap m) u)" for u
      using Some map_of_key [of "missmap m" s]
      by (auto simp: xs_def check_bitmap_zero_def map_of_map_erase map_of_map_assign)
    have "recorded m1 t = (recorded m t \<and> segment m t \<noteq> s)" for t
      unfolding mk look by (auto simp: recorded_def)
    then show ?thesis using that [OF run [unfolded s_def k_def] ok1] f(3) by (simp add: s_def)
  qed
qed

text \<open>
  C29. What MissMap predicts after an update.  The updated address is predicted present when its
  segment had an entry or the table had room; every other address keeps its prediction, except
  that evicting a block makes the map predict a miss for the whole segment of the block: the
  code erases the entry when bits are left in it, and an entry without bits predicts misses.
\<close>

theorem missmap_update_predicts:
  assumes ok: "missmap_ok m" and hit: "check_cache_hit c addr = Some hit"
    and victim: "get_victim_tag c = Some v"
  shows "\<exists>m'. miss_map_update addr c m = Some m' \<and> missmap_ok m' \<and>
    (\<forall>a. miss_map_predict a m' = Some (
       if \<not> hit \<and> v < ULONG_MAX \<and> segment m (block_tag m a) = segment m v then False
       else miss_map_predict a m = Some True \<or>
         block_tag m a = block_tag m addr \<and> has_room m (block_tag m addr)))"
proof -
  let ?t = "block_tag m addr"
  obtain m1 where m1: "mark_present (segment m ?t) (place m ?t) m = Some m1" "missmap_ok m1"
    "segment m1 = segment m" "place m1 = place m" "block_tag m1 = block_tag m" "posmask m1 = posmask m"
    "\<And>t. recorded m1 t = (recorded m t \<or> t = ?t \<and> has_room m ?t)"
    by (rule mark_present_ok [OF ok, of ?t]) blast
  obtain m2 where m2: "forget_victim (segment m1 v) (place m1 v) m1 = Some m2" "missmap_ok m2"
    "\<And>t. recorded m2 t = (recorded m1 t \<and> segment m1 t \<noteq> segment m1 v)" "block_tag m2 = block_tag m1"
    by (rule forget_victim_ok [OF m1(2), of v]) blast
  let ?m' = "if hit \<or> \<not> v < ULONG_MAX then m1 else m2"
  obtain pos where pos: "position_of addr m = Some pos" "unat pos = place m ?t"
    using position_of_eq [OF ok, of addr] by auto
  have "shift_right v (mm_cache_segement_shift m - mm_cache_line_shift m) = Some (segment m v)"
    using missmap_shape [OF ok] by (simp add: shift_right_def segment_def)
  then have "miss_map_update addr c m = Some ?m'"
    using m1(1) m2(1) hit victim pos place_eq [OF ok, of v]
    by (simp add: miss_map_update_def segement_of_eq [OF ok] m1(3,4) Let_def)
  moreover have "missmap_ok ?m'" using m1(2) m2(2) by simp
  moreover have "miss_map_predict a ?m' = Some (
       if \<not> hit \<and> v < ULONG_MAX \<and> segment m (block_tag m a) = segment m v then False
       else miss_map_predict a m = Some True \<or> block_tag m a = ?t \<and> has_room m ?t)" for a
    by (auto simp: missmap_predict_eq ok m1 m2)
  ultimately show ?thesis by blast
qed

section \<open>What the Bloom filter answers\<close>

definition bloom_ok :: "bloom_predictor \<Rightarrow> bool" where
  "bloom_ok p \<longleftrightarrow> unat (bp_cache_line_shift p) < 64 \<and> unat (bp_length_shift p) \<le> 32 \<and>
     2 ^ unat (bp_length_shift p) \<le> unat (bf_length (bp_filter p)) \<and>
     length (bloomfilter (bp_filter p)) = unat (bf_length (bp_filter p))"

lemma bloom_ok_new:
  assumes "new_bloom_predictor line_size len = Some p"
  shows "bloom_ok p"
proof -
  have nz: "line_size \<noteq> 0" "len \<noteq> 0"
    and p: "bp_cache_line_shift p = of_nat (log2_floor (unat line_size))"
      "bp_length_shift p = of_nat (log2_floor (unat len))" "bp_filter p = new_bloom_filter len"
    using assms by (auto simp: new_bloom_predictor_def log2_u32_def arr_simps split: if_splits)
  have l: "log2_floor (unat w) < 32" if "w \<noteq> 0" for w :: u32
    using that unsigned_less [of w, where ?'a = nat] by (intro log2_floor_less) (simp_all add: unat_gt_0)
  have "2 ^ log2_floor (unat len) \<le> unat len"
    using log2_floor_bounds [of "unat len"] nz(2) by (simp add: unat_gt_0)
  then show ?thesis
    using l [OF nz(1)] l [OF nz(2)] by (simp add: bloom_ok_def p new_bloom_filter_def unat_of_nat)
qed

lemma bloom_index_ok:
  assumes "bloom_ok p"
  obtains h where "a1anda0 tag (bp_cache_line_shift p) (bp_length_shift p) = Some h"
    "h < bf_length (bp_filter p)" "unat h < length (bloomfilter (bp_filter p))"
proof -
  have s: "unat (bp_length_shift p) \<le> 32" using assms by (simp add: bloom_ok_def)
  then obtain h where h: "a1anda0 tag (bp_cache_line_shift p) (bp_length_shift p) = Some h"
    by (simp add: a1anda0_def masked_def low_mask_eq)
  then have "unat h < 2 ^ unat (bp_length_shift p)"
    using masked_small s by (simp add: a1anda0_def)
  then show ?thesis using that h assms by (simp add: bloom_ok_def word_less_nat_alt)
qed

text \<open>
  C30. The Bloom filter predictor only ever learns hits: an update sets the bit of its address,
  whether the cache holds the block or not, and evicting a block clears nothing (the guard of
  \<open>reset\<close> is inverted).  So an update never makes a prediction go from hit to miss, and no
  access is out of bounds.
\<close>

theorem bloom_update_predicts:
  assumes ok: "bloom_ok p" and hit: "check_cache_hit c addr = Some hit"
    and victim: "get_victim_tag c = Some v"
  shows "\<exists>p'. bloom_update addr c p = Some p' \<and> bloom_ok p' \<and>
    (\<forall>a. bloom_predict a p' = (if bloom_index a p = bloom_index addr p then Some True else bloom_predict a p))"
proof -
  have idx: "bloom_index a p = a1anda0 (drop_bit (unat (bp_cache_line_shift p)) a) (bp_cache_line_shift p) (bp_length_shift p)" for a
    using ok by (simp add: bloom_index_def shift_right_def bloom_ok_def)
  obtain i where i: "bloom_index addr p = Some i" "i < bf_length (bp_filter p)"
    "unat i < length (bloomfilter (bp_filter p))"
    unfolding idx by (rule bloom_index_ok [OF ok])
  obtain j where j: "a1anda0 v (bp_cache_line_shift p) (bp_length_shift p) = Some j" "j < bf_length (bp_filter p)"
    by (rule bloom_index_ok [OF ok])
  let ?b = "(bp_filter p)\<lparr>bloomfilter := (bloomfilter (bp_filter p))[unat i := True]\<rparr>"
  let ?p = "p\<lparr>bp_filter := ?b\<rparr>"
  have set: "bloom_set i (bp_filter p) = Some ?b" using i by (simp add: bloom_set_def not_le)
  have "bloom_reset j ?b = Some ?b" using j by (simp add: bloom_reset_def not_le)
  then have "bloom_update addr c p = Some ?p"
    using set i(1) j(1) hit victim by (simp add: bloom_update_def)
  moreover have "bloom_ok ?p" using ok by (simp add: bloom_ok_def)
  moreover have "bloom_predict a ?p = (if bloom_index a p = bloom_index addr p then Some True else bloom_predict a p)" for a
  proof -
    obtain k where k: "bloom_index a p = Some k" "k < bf_length (bp_filter p)"
      "unat k < length (bloomfilter (bp_filter p))"
      unfolding idx by (rule bloom_index_ok [OF ok])
    have "bloom_index a ?p = Some k" using k(1) by (simp add: bloom_index_def)
    then show ?thesis
      using k i by (auto simp: bloom_predict_def bloom_check_def not_le nth_list_update word_eq_iff_unsigned [where ?'a = nat])
  qed
  ultimately show ?thesis by blast
qed

section \<open>MAP-I\<close>

definition map_i_ok :: "map_i \<Rightarrow> bool" where
  "map_i_ok m \<longleftrightarrow> unat (mi_cache_line_shift m) < 64 \<and> 0 < unat (mi_length_shift m) \<and>
     unat (mi_length_shift m) \<le> 32 \<and> 2 ^ unat (mi_length_shift m) \<le> length (MACT m) \<and>
     (\<forall>s \<in> set (MACT m). val s \<le> countmax s)"

lemma on_counter_ok:
  assumes ok: "map_i_ok m" and f: "\<And>s. val s \<le> countmax s \<Longrightarrow> val (f s) \<le> countmax (f s)"
  obtains m' where "on_counter f tag m = Some m'" "map_i_ok m'" "mi_cache_line_shift m' = mi_cache_line_shift m"
proof -
  have n: "0 < unat (mi_length_shift m)" "unat (mi_length_shift m) \<le> 32" using ok by (simp_all add: map_i_ok_def)
  then obtain h where h: "fold_xor tag (mi_length_shift m) = Some h" by (simp add: fold_xor_eq)
  have l: "unat h < length (MACT m)"
    using fold_xor_small [OF h n(2)] ok by (simp add: map_i_ok_def)
  let ?m = "m\<lparr>MACT := (MACT m)[unat h := f (MACT m ! unat h)]\<rparr>"
  have run: "on_counter f tag m = Some ?m" using h l by (simp add: on_counter_def)
  have "\<forall>s \<in> set (MACT ?m). val s \<le> countmax s"
    using set_update_subset_insert [of "MACT m" "unat h" "f (MACT m ! unat h)"] ok f l
    by (auto simp: map_i_ok_def)
  then have "map_i_ok ?m" using ok by (simp add: map_i_ok_def)
  from that [OF run this] show ?thesis by simp
qed

text \<open>The counters step by one between zero and their maximum.\<close>

lemma counter_steps:
  "val s \<le> countmax s \<Longrightarrow> val (incrment s) \<le> countmax (incrment s)"
  "val s \<le> countmax s \<Longrightarrow> val (decrment s) \<le> countmax (decrment s)"
proof -
  assume v: "val s \<le> countmax s"
  show "val (incrment s) \<le> countmax (incrment s)"
  proof (cases "val s < countmax s")
    case True
    then have "unat (val s + 1) = Suc (unat (val s))"
      using unsigned_less [of "countmax s", where ?'a = nat]
      by (subst unat_add_lem [THEN iffD1]) (simp_all add: word_less_nat_alt)
    with True show ?thesis by (simp add: incrment_def word_le_nat_alt word_less_nat_alt)
  qed (simp add: incrment_def v)
  show "val (decrment s) \<le> countmax (decrment s)"
  proof (cases "0 < val s")
    case True
    then have "unat (val s - 1) = unat (val s) - 1" by (simp add: unat_minus_one word_gt_0)
    with v True show ?thesis by (simp add: decrment_def word_le_nat_alt)
  qed (simp add: decrment_def v)
qed

lemma map_i_update_safe:
  assumes ok: "map_i_ok m" and hit: "check_cache_hit c addr = Some hit" and victim: "get_victim_tag c = Some v"
  shows "\<exists>m'. map_i_update addr c m = Some m' \<and> map_i_ok m'"
proof -
  let ?tag = "drop_bit (unat (mi_cache_line_shift m)) addr"
  have t: "shift_right addr (mi_cache_line_shift m) = Some ?tag"
    using ok by (simp add: shift_right_def map_i_ok_def)
  obtain m1 where m1: "on_counter decrment ?tag m = Some m1" "map_i_ok m1"
    by (rule on_counter_ok [OF ok counter_steps(2)])
  obtain m2 where m2: "on_counter incrment ?tag m = Some m2" "map_i_ok m2"
    by (rule on_counter_ok [OF ok counter_steps(1)])
  obtain m3 where m3: "on_counter incrment v m2 = Some m3" "map_i_ok m3"
    by (rule on_counter_ok [OF m2(2) counter_steps(1)])
  show ?thesis
    by (cases hit; cases "v < ULONG_MAX") (simp_all add: map_i_update_def t hit victim m1 m2 m3)
qed

section \<open>Witnesses\<close>

text \<open>A third block is read in the full set of \<open>demo_dram2\<close>: block 0 leaves, blocks 2 and 4 stay.\<close>

definition demo_dram3 :: dram_cache where
  "demo_dram3 = the (do_cache_op 0 256 READ demo_dram2)"

definition demo_miss_map :: miss_map where
  "demo_miss_map = \<lparr>missmap = [(0, 5)], mm_cache_line_shift = 6, mm_cache_segement_shift = 12,
     Maxlength = 8, posmask = 63\<rparr>"

lemma demo_dram3_facts:
  "check_cache_hit demo_dram3 64 = Some False" "check_cache_hit demo_dram3 128 = Some True"
  "get_victim_tag demo_dram3 = Some 0"
  by code_simp+

lemma demo_miss_map_ok: "missmap_ok demo_miss_map"
proof -
  have "(63 :: u64) = mask 6" by (simp add: mask_eq_exp_minus_1)
  then show ?thesis
    by (simp add: missmap_ok_def demo_miss_map_def segment_bits_def word_le_nat_alt)
qed

text \<open>Blocks 0 and 2 are recorded and block 2 is resident, but after block 0 is evicted MissMap
  predicts a miss for block 2.\<close>

lemma missmap_update_predicts_witness:
  "\<exists>m'. miss_map_update 64 demo_dram3 demo_miss_map = Some m' \<and>
     miss_map_predict 128 demo_miss_map = Some True \<and> miss_map_predict 128 m' = Some False \<and>
     check_cache_hit demo_dram3 128 = Some True"
proof -
  have s: "segment demo_miss_map (block_tag demo_miss_map 128) = segment demo_miss_map 0"
    by (simp add: segment_def segment_bits_def block_tag_def demo_miss_map_def drop_bit_eq_div)
  have "(0 :: u64) < ULONG_MAX" by (simp add: ULONG_MAX_def)
  moreover have "miss_map_predict 128 demo_miss_map = Some True" by code_simp
  ultimately show ?thesis
    using missmap_update_predicts [OF demo_miss_map_ok demo_dram3_facts(1,3)] s demo_dram3_facts(2) by auto
qed

definition demo_bloom :: bloom_predictor where
  "demo_bloom = the (new_bloom_predictor 64 16)"

lemma demo_bloom_new: "new_bloom_predictor 64 16 = Some demo_bloom"
  by code_simp

lemma bloom_update_predicts_witness:
  "\<exists>p'. bloom_update 64 demo_dram3 demo_bloom = Some p' \<and> bloom_predict 64 p' = Some True \<and>
     check_cache_hit demo_dram3 64 = Some False"
  using bloom_update_predicts [OF bloom_ok_new [OF demo_bloom_new] demo_dram3_facts(1,3)]
    demo_dram3_facts(1) by auto

end
