(* ===== verification/Bitmap.thy ===== *)
theory Bitmap
  imports NV_Prelude
begin

text \<open>
  The bitmaps of the pattern based prefetchers (\<open>inc/bitmap.h\<close>, \<open>src/bitmap.cc\<close>).  A \<open>Bitmap\<close>,
  \<open>std::bitset<64>\<close>, is a 64-bit word; reading or writing a position from 64 on is undefined
  (\<open>None\<close>).  The loop bounds are the 32-bit values of the code, so a rotation by more than the
  size runs past the end.  \<open>to_string\<close>, which only prints, is left out.
\<close>

unbundle bit_operations_syntax

type_synonym bitmap = u64

definition bmp_get :: "bitmap \<Rightarrow> nat \<Rightarrow> bool option" where
  "bmp_get b i = (if i < 64 then Some (bit b i) else None)"

definition bmp_put :: "bitmap \<Rightarrow> nat \<Rightarrow> bool \<Rightarrow> bitmap option" where
  "bmp_put b i v = (if i < 64 then Some (if v then set_bit i b else unset_bit i b) else None)"

section \<open>Counting\<close>

definition count_bits_set :: "bitmap \<Rightarrow> nat \<Rightarrow> nat option" where
  "count_bits_set b sz = fold_opt (\<lambda>count i. do {
     x \<leftarrow> bmp_get b i; Some (if x then count + 1 else count) }) 0 [0 ..< sz]"

definition count_bits_same :: "bitmap \<Rightarrow> bitmap \<Rightarrow> nat \<Rightarrow> nat option" where
  "count_bits_same b1 b2 sz = fold_opt (\<lambda>count i. do {
     x \<leftarrow> bmp_get b1 i; y \<leftarrow> bmp_get b2 i;
     Some (if x \<and> x = y then count + 1 else count) }) 0 [0 ..< sz]"

definition count_bits_diff :: "bitmap \<Rightarrow> bitmap \<Rightarrow> nat \<Rightarrow> nat option" where
  "count_bits_diff b1 b2 sz = fold_opt (\<lambda>count i. do {
     x \<leftarrow> bmp_get b1 i; y \<leftarrow> bmp_get b2 i;
     Some (if x \<and> \<not> y then count + 1 else count) }) 0 [0 ..< sz]"

definition bitmap_value :: "bitmap \<Rightarrow> u64" where
  "bitmap_value b = b"

section \<open>Rotations\<close>

definition rotate_left :: "bitmap \<Rightarrow> u32 \<Rightarrow> u32 \<Rightarrow> bitmap option" where
  "rotate_left b amount sz = do {
     r \<leftarrow> fold_opt (\<lambda>r i. do { x \<leftarrow> bmp_get b i; bmp_put r (i + unat amount) x }) 0 [0 ..< unat (sz - amount)];
     fold_opt (\<lambda>r i. do { x \<leftarrow> bmp_get b (unat (of_nat i + sz - amount)); bmp_put r i x }) r [0 ..< unat amount] }"

definition rotate_right :: "bitmap \<Rightarrow> u32 \<Rightarrow> u32 \<Rightarrow> bitmap option" where
  "rotate_right b amount sz = do {
     r \<leftarrow> fold_opt (\<lambda>r i. do { x \<leftarrow> bmp_get b (i + unat amount); bmp_put r i x }) 0 [0 ..< unat (sz - amount)];
     fold_opt (\<lambda>r i. do { x \<leftarrow> bmp_get b i; bmp_put r (unat (sz - amount + of_nat i)) x }) r [0 ..< unat amount] }"

section \<open>Changing the granularity\<close>

text \<open>The inner loop of \<open>compress\<close>: the disjunction of one group of bits.\<close>

definition group_bit :: "bitmap \<Rightarrow> nat \<Rightarrow> nat \<Rightarrow> nat \<Rightarrow> bool option" where
  "group_bit b granularity sz index = fold_opt (\<lambda>res gran. do {
     assert_that (index + gran < sz);
     x \<leftarrow> bmp_get b (index + gran);
     Some (res \<or> x) }) False [0 ..< granularity]"

function compress_loop :: "bitmap \<Rightarrow> nat \<Rightarrow> nat \<Rightarrow> nat \<Rightarrow> nat \<Rightarrow> bitmap \<Rightarrow> bitmap option" where
  "compress_loop b granularity sz index ptr result =
     (if index < sz \<and> 0 < granularity
      then do {
        res \<leftarrow> group_bit b granularity sz index;
        result' \<leftarrow> bmp_put result ptr res;
        compress_loop b granularity sz (index + granularity) (Suc ptr) result' }
      else Some result)"
  by pat_completeness auto
termination
  by (relation "measure (\<lambda>(b, g, sz, index, ptr, r). sz - index)") auto

declare compress_loop.simps [simp del]

definition compress :: "bitmap \<Rightarrow> u32 \<Rightarrow> u32 \<Rightarrow> bitmap option" where
  "compress b granularity sz = do {
     assert_that (granularity \<noteq> 0);
     assert_that (sz mod granularity = 0);
     compress_loop b (unat granularity) (unat sz) 0 0 0 }"

definition decompress :: "bitmap \<Rightarrow> u32 \<Rightarrow> u32 \<Rightarrow> bitmap option" where
  "decompress b granularity sz = do {
     assert_that (sz * granularity \<le> 64);
     fold_opt (\<lambda>result index. do {
       x \<leftarrow> bmp_get b index;
       if x
       then fold_opt (\<lambda>result count. bmp_put result (index * unat granularity + count) True) result
              [0 ..< unat granularity]
       else Some result }) 0 [0 ..< unat sz] }"

section \<open>Bitwise operations\<close>

definition bitwise_or :: "bitmap \<Rightarrow> bitmap \<Rightarrow> nat \<Rightarrow> bitmap option" where
  "bitwise_or b1 b2 sz = fold_opt (\<lambda>r i. do {
     x \<leftarrow> bmp_get b1 i; y \<leftarrow> bmp_get b2 i;
     (if x \<or> y then bmp_put r i True else Some r) }) 0 [0 ..< sz]"

definition bitwise_and :: "bitmap \<Rightarrow> bitmap \<Rightarrow> nat \<Rightarrow> bitmap option" where
  "bitwise_and b1 b2 sz = fold_opt (\<lambda>r i. do {
     x \<leftarrow> bmp_get b1 i; y \<leftarrow> bmp_get b2 i;
     (if x \<and> y then bmp_put r i True else Some r) }) 0 [0 ..< sz]"

section \<open>What the loops compute\<close>

lemma fold_opt_snoc: "fold_opt f s (xs @ [x]) = do { s' \<leftarrow> fold_opt f s xs; f s' x }"
  by (induction xs arbitrary: s) (auto split: Option.bind_splits)

text \<open>Positions \<open>d ..< d + n\<close> receive the bits \<open>v 0, v 1, \<dots>\<close>.\<close>

lemma put_loop:
  assumes "\<And>i. i < n \<Longrightarrow> f i = Some (v i)" "\<And>i. i < n \<Longrightarrow> h i = d + i" "d + n \<le> 64"
  shows "\<exists>r'. fold_opt (\<lambda>r i. do { x \<leftarrow> f i; bmp_put r (h i) x }) r [0 ..< n] = Some r' \<and>
    (\<forall>j. bit r' j = (if d \<le> j \<and> j < d + n then v (j - d) else bit r j))"
  using assms
proof (induction n)
  case (Suc n)
  have "\<exists>r'. fold_opt (\<lambda>r i. do { x \<leftarrow> f i; bmp_put r (h i) x }) r [0 ..< n] = Some r' \<and>
      (\<forall>j. bit r' j = (if d \<le> j \<and> j < d + n then v (j - d) else bit r j))"
    by (rule Suc.IH) (use Suc.prems in simp_all)
  then obtain r' where r': "fold_opt (\<lambda>r i. do { x \<leftarrow> f i; bmp_put r (h i) x }) r [0 ..< n] = Some r'"
    "\<And>j. bit r' j = (if d \<le> j \<and> j < d + n then v (j - d) else bit r j)" by blast
  let ?r = "if v n then set_bit (d + n) r' else unset_bit (d + n) r'"
  have run: "fold_opt (\<lambda>r i. do { x \<leftarrow> f i; bmp_put r (h i) x }) r [0 ..< Suc n] = Some ?r"
    using Suc.prems(1,2) [of n] Suc.prems(3) by (simp add: fold_opt_snoc r'(1)) (simp add: bmp_put_def)
  have "bit ?r j = (if d \<le> j \<and> j < d + Suc n then v (j - d) else bit r j)" for j
    using Suc.prems(3) by (auto simp: bit_simps possible_bit_def r'(2) less_Suc_eq)
  with run show ?case by blast
qed auto

lemma bit_above: "64 \<le> i \<Longrightarrow> \<not> bit (b :: u64) i"
  using bit_imp_le_length [of b i] by auto

lemma rotate_left_bits:
  assumes "amount \<le> sz" "unat sz \<le> 64"
  shows "\<exists>r. rotate_left b amount sz = Some r \<and>
    (\<forall>j. bit r j = (j < unat sz \<and> bit b (if unat amount \<le> j then j - unat amount else j + unat sz - unat amount)))"
proof -
  have s: "unat (sz - amount) = unat sz - unat amount" "unat amount \<le> unat sz"
    using assms(1) by (simp_all add: unat_sub word_le_nat_alt)
  have i: "unat (of_nat i + sz - amount) = i + unat sz - unat amount" if "i < unat amount" for i
  proof -
    have "unat (of_nat i + (sz - amount)) = i + (unat sz - unat amount)"
      using that s assms(2) by (subst unat_add_lem [THEN iffD1]) (simp_all add: unat_of_nat)
    then show ?thesis using s(2) by (simp add: add_diff_eq)
  qed
  let ?a = "unat amount" and ?n = "unat sz - unat amount"
  have "\<exists>r1. fold_opt (\<lambda>r i. do { x \<leftarrow> bmp_get b i; bmp_put r (i + ?a) x }) 0 [0 ..< ?n] = Some r1 \<and>
      (\<forall>j. bit r1 j = (if ?a \<le> j \<and> j < ?a + ?n then bit b (j - ?a) else bit (0 :: u64) j))"
    by (rule put_loop [of ?n "bmp_get b" "bit b" "\<lambda>i. i + ?a" ?a 0]) (use s assms(2) in \<open>auto simp: bmp_get_def\<close>)
  then obtain r1 where r1: "fold_opt (\<lambda>r i. do { x \<leftarrow> bmp_get b i; bmp_put r (i + ?a) x }) 0 [0 ..< ?n] = Some r1"
    "\<And>j. bit r1 j = (if ?a \<le> j \<and> j < ?a + ?n then bit b (j - ?a) else bit (0 :: u64) j)" by blast
  have "\<exists>r2. fold_opt (\<lambda>r i. do { x \<leftarrow> bmp_get b (unat (of_nat i + sz - amount)); bmp_put r i x }) r1
      [0 ..< ?a] = Some r2 \<and>
      (\<forall>j. bit r2 j = (if 0 \<le> j \<and> j < 0 + ?a then bit b (j - 0 + unat sz - ?a) else bit r1 j))"
    by (rule put_loop [of ?a "\<lambda>i. bmp_get b (unat (of_nat i + sz - amount))" "\<lambda>i. bit b (i + unat sz - ?a)"
        "\<lambda>i. i" 0 r1]) (use s assms(2) i in \<open>auto simp: bmp_get_def\<close>)
  then obtain r2 where r2: "fold_opt (\<lambda>r i. do { x \<leftarrow> bmp_get b (unat (of_nat i + sz - amount)); bmp_put r i x }) r1
      [0 ..< ?a] = Some r2"
    "\<And>j. bit r2 j = (if 0 \<le> j \<and> j < 0 + ?a then bit b (j - 0 + unat sz - ?a) else bit r1 j)" by blast
  have "rotate_left b amount sz = Some r2" by (simp add: rotate_left_def s r1(1) r2(1))
  moreover have "bit r2 j = (j < unat sz \<and> bit b (if ?a \<le> j then j - ?a else j + unat sz - ?a))" for j
    using s(2) by (auto simp: r1(2) r2(2))
  ultimately show ?thesis by blast
qed

lemma rotate_right_bits:
  assumes "amount \<le> sz" "unat sz \<le> 64"
  shows "\<exists>r. rotate_right b amount sz = Some r \<and>
    (\<forall>j. bit r j = (j < unat sz \<and> bit b (if j + unat amount < unat sz then j + unat amount else j + unat amount - unat sz)))"
proof -
  have s: "unat (sz - amount) = unat sz - unat amount" "unat amount \<le> unat sz"
    using assms(1) by (simp_all add: unat_sub word_le_nat_alt)
  let ?a = "unat amount" and ?n = "unat sz - unat amount"
  have i: "unat (sz - amount + of_nat i) = ?n + i" if "i < ?a" for i
    using that s assms(2) by (subst unat_add_lem [THEN iffD1]) (simp_all add: unat_of_nat)
  have "\<exists>r1. fold_opt (\<lambda>r i. do { x \<leftarrow> bmp_get b (i + ?a); bmp_put r i x }) 0 [0 ..< ?n] = Some r1 \<and>
      (\<forall>j. bit r1 j = (if 0 \<le> j \<and> j < 0 + ?n then bit b (j - 0 + ?a) else bit (0 :: u64) j))"
    by (rule put_loop [of ?n "\<lambda>i. bmp_get b (i + ?a)" "\<lambda>i. bit b (i + ?a)" "\<lambda>i. i" 0 0]) (use s assms(2) in \<open>auto simp: bmp_get_def\<close>)
  then obtain r1 where r1: "fold_opt (\<lambda>r i. do { x \<leftarrow> bmp_get b (i + ?a); bmp_put r i x }) 0 [0 ..< ?n] = Some r1"
    "\<And>j. bit r1 j = (if 0 \<le> j \<and> j < 0 + ?n then bit b (j - 0 + ?a) else bit (0 :: u64) j)" by blast
  have "\<exists>r2. fold_opt (\<lambda>r i. do { x \<leftarrow> bmp_get b i; bmp_put r (unat (sz - amount + of_nat i)) x }) r1
      [0 ..< ?a] = Some r2 \<and>
      (\<forall>j. bit r2 j = (if ?n \<le> j \<and> j < ?n + ?a then bit b (j - ?n) else bit r1 j))"
    by (rule put_loop [of ?a "bmp_get b" "bit b" "\<lambda>i. unat (sz - amount + of_nat i)" ?n r1]) (use s assms(2) i in \<open>auto simp: bmp_get_def\<close>)
  then obtain r2 where r2: "fold_opt (\<lambda>r i. do { x \<leftarrow> bmp_get b i; bmp_put r (unat (sz - amount + of_nat i)) x }) r1
      [0 ..< ?a] = Some r2"
    "\<And>j. bit r2 j = (if ?n \<le> j \<and> j < ?n + ?a then bit b (j - ?n) else bit r1 j)" by blast
  have "rotate_right b amount sz = Some r2" by (simp add: rotate_right_def s r1(1) r2(1))
  moreover have "bit r2 j = (j < unat sz \<and> bit b (if j + ?a < unat sz then j + ?a else j + ?a - unat sz))" for j
  proof (cases "j < unat sz \<and> ?n \<le> j")
    case True
    then have "j - ?n = j + ?a - unat sz" using s(2) by simp
    then show ?thesis using True s(2) by (auto simp: r2(2))
  qed (use s(2) in \<open>auto simp: r1(2) r2(2)\<close>)
  ultimately show ?thesis by blast
qed

lemma decompress_bits:
  assumes "unat sz * unat g \<le> 64" "g \<noteq> 0"
  shows "\<exists>r. decompress b g sz = Some r \<and>
    (\<forall>j. bit r j = (j < unat sz * unat g \<and> bit b (j div unat g)))"
proof -
  let ?g = "unat g" and ?n = "unat sz"
  let ?f = "\<lambda>result index. do { x \<leftarrow> bmp_get b index;
    if x then fold_opt (\<lambda>result count. bmp_put result (index * ?g + count) True) result [0 ..< ?g] else Some result }"
  have one: "\<exists>r'. ?f r k = Some r' \<and>
      (\<forall>j. bit r' j = (if k * ?g \<le> j \<and> j < k * ?g + ?g \<and> bit b k then True else bit r j))"
    if k: "k < 64" "k * ?g + ?g \<le> 64" for r k
    using put_loop [of ?g "\<lambda>_. Some True" "\<lambda>_. True" "\<lambda>c. k * ?g + c" "k * ?g" r] k
    by (cases "bit b k") (simp_all add: bmp_get_def)
  have g: "0 < ?g" using assms(2) by (simp add: unat_gt_0)
  have "\<exists>r. fold_opt ?f 0 [0 ..< m] = Some r \<and>
      (\<forall>j. bit r j = (j < m * ?g \<and> bit b (j div ?g)))" if "m \<le> ?n" for m
    using that
  proof (induction m)
    case (Suc m)
    then obtain r where r: "fold_opt ?f 0 [0 ..< m] = Some r" "\<And>j. bit r j = (j < m * ?g \<and> bit b (j div ?g))" by auto
    have "Suc m * ?g \<le> ?n * ?g" using Suc.prems(1) by (intro mult_le_mono1)
    then have le: "m * ?g + ?g \<le> 64" using assms by simp
    have "m \<le> m * ?g" using g by simp
    then have "m < 64" using le g by linarith
    with le one obtain r' where r': "?f r m = Some r'"
      "\<And>j. bit r' j = (if m * ?g \<le> j \<and> j < m * ?g + ?g \<and> bit b m then True else bit r j)" by blast
    have "bit r' j = (j < Suc m * ?g \<and> bit b (j div ?g))" for j
    proof (cases "m * ?g \<le> j \<and> j < m * ?g + ?g")
      case True
      then have "j div ?g = m" by (intro div_nat_eqI) (simp_all add: mult.commute)
      then show ?thesis using True by (simp add: r'(2) r(2))
    next
      case False
      then show ?thesis by (auto simp: r'(2) r(2))
    qed
    then show ?case using r(1) r'(1) by (simp add: fold_opt_snoc)
  qed simp
  note outer = this [of ?n]
  have "sz * g \<le> 64"
    using assms by (simp add: word_le_nat_alt unat_word_ariths(2))
  then show ?thesis using outer by (simp add: decompress_def)
qed

lemma group_bit_eq:
  assumes "index + g \<le> sz" "sz \<le> 64"
  shows "group_bit b g sz index = Some (\<exists>c < g. bit b (index + c))"
proof -
  have "fold_opt (\<lambda>res gran. do { assert_that (index + gran < sz); x \<leftarrow> bmp_get b (index + gran); Some (res \<or> x) })
      False [0 ..< m] = Some (\<exists>c < m. bit b (index + c))" if "m \<le> g" for m
    using that
  proof (induction m)
    case (Suc m)
    then show ?case using assms by (auto simp: fold_opt_snoc bmp_get_def less_Suc_eq)
  qed simp
  then show ?thesis by (simp add: group_bit_def)
qed

lemma compress_loop_bits:
  assumes "i \<le> n" "n * g \<le> 64" "0 < g"
  shows "\<exists>r'. compress_loop b g (n * g) (i * g) i r = Some r' \<and>
    (\<forall>j. bit r' j = (if i \<le> j \<and> j < n then \<exists>c < g. bit b (j * g + c) else bit r j))"
  using assms(1)
proof (induction "n - i" arbitrary: i r)
  case 0
  then show ?case by (auto simp: compress_loop.simps)
next
  case (Suc k)
  then have i: "i < n" by simp
  have "Suc i * g \<le> n * g" using i by (intro mult_le_mono1) simp
  then have le: "i * g + g \<le> n * g" by simp
  have "i \<le> i * g" using assms(3) by simp
  then have i64: "i < 64" using le assms(2,3) by linarith
  define v where "v = (\<exists>c < g. bit b (i * g + c))"
  define r1 where "r1 = (if v then set_bit i r else unset_bit i r)"
  have step: "compress_loop b g (n * g) (i * g) i r = compress_loop b g (n * g) (Suc i * g) (Suc i) r1"
    using i assms(3) i64 group_bit_eq [OF le assms(2), of b]
    by (simp add: compress_loop.simps [of b g "n * g" "i * g"] bmp_put_def add.commute v_def r1_def)
  have k: "k = n - Suc i" using Suc.hyps(2) by simp
  obtain r' where r': "compress_loop b g (n * g) (Suc i * g) (Suc i) r1 = Some r'"
    "\<And>j. bit r' j = (if Suc i \<le> j \<and> j < n then \<exists>c < g. bit b (j * g + c) else bit r1 j)"
    using Suc.hyps(1) [of "Suc i" r1, OF k Suc_leI [OF i]] by blast
  have "bit r1 j = (if j = i then v else bit r j)" for j
    using i64 by (auto simp: r1_def bit_simps possible_bit_def)
  then have "bit r' j = (if i \<le> j \<and> j < n then \<exists>c < g. bit b (j * g + c) else bit r j)" for j
    using i by (cases "j = i") (auto simp: r'(2) v_def)
  then show ?case using step r'(1) by auto
qed

section \<open>Round trips\<close>

text \<open>
  The bitmap transformations undo each other on bitmaps of at most 64 bits: rotating left
  and then right by an amount within the size gives back the bitmap cut to its size, and so
  does widening every bit to a group (\<open>decompress\<close>) and compressing the groups again; neither
  reads or writes outside the 64 bits.
\<close>

theorem bitmap_round_trips:
  assumes "amount \<le> sz" "unat sz \<le> 64" "g \<noteq> 0" "unat sz * unat g \<le> 64"
  shows "do { r \<leftarrow> rotate_left b amount sz; rotate_right r amount sz } = Some (take_bit (unat sz) b) \<and>
    do { d \<leftarrow> decompress b g sz; compress d g (sz * g) } = Some (take_bit (unat sz) b)"
proof
  obtain r where r: "rotate_left b amount sz = Some r"
    "\<And>j. bit r j = (j < unat sz \<and> bit b (if unat amount \<le> j then j - unat amount else j + unat sz - unat amount))"
    using rotate_left_bits [OF assms(1,2)] by blast
  obtain r' where r': "rotate_right r amount sz = Some r'"
    "\<And>j. bit r' j = (j < unat sz \<and> bit r (if j + unat amount < unat sz then j + unat amount else j + unat amount - unat sz))"
    using rotate_right_bits [OF assms(1,2)] by blast
  have "bit r' j = bit (take_bit (unat sz) b) j" for j
    using assms(1) by (auto simp: r'(2) r(2) bit_simps word_le_nat_alt)
  then have "r' = take_bit (unat sz) b" by (simp add: bit_eq_iff)
  then show "do { r \<leftarrow> rotate_left b amount sz; rotate_right r amount sz } = Some (take_bit (unat sz) b)"
    using r(1) r'(1) by simp
next
  have g: "0 < unat g" using assms(3) by (simp add: unat_gt_0)
  have sz: "unat (sz * g) = unat sz * unat g"
    using assms(4) by (simp add: unat_word_ariths(2))
  then have m: "(sz * g) mod g = 0" by (simp add: word_eq_iff_unsigned [where ?'a = nat] unat_mod)
  obtain d where d: "decompress b g sz = Some d"
    "\<And>j. bit d j = (j < unat sz * unat g \<and> bit b (j div unat g))"
    using decompress_bits [OF assms(4,3)] by blast
  obtain r where r: "compress_loop d (unat g) (unat sz * unat g) (0 * unat g) 0 0 = Some r"
    "\<And>j. bit r j = (if 0 \<le> j \<and> j < unat sz then \<exists>c < unat g. bit d (j * unat g + c) else bit (0 :: u64) j)"
    using compress_loop_bits [OF le0 assms(4) g, of d 0] by blast
  have "(\<exists>c < unat g. bit d (j * unat g + c)) = bit b j" if "j < unat sz" for j
  proof -
    have "Suc j * unat g \<le> unat sz * unat g" using that by (intro mult_le_mono1) simp
    then have "bit d (j * unat g + c) = bit b j" if "c < unat g" for c
      using that by (simp add: d(2))
    then show ?thesis using g by blast
  qed
  then have "r = take_bit (unat sz) b" by (auto simp: bit_eq_iff r(2) bit_simps)
  then show "do { d \<leftarrow> decompress b g sz; compress d g (sz * g) } = Some (take_bit (unat sz) b)"
    using d(1) r(1) assms(3) m by (simp add: compress_def sz)
qed

lemma bitmap_round_trips_witness:
  "do { r \<leftarrow> rotate_left 0xA5 5 32; rotate_right r 5 32 } = Some 0xA5 \<and>
   do { d \<leftarrow> decompress 0xA5 2 32; compress d 2 (32 * 2) } = Some 0xA5"
proof -
  have t: "take_bit (unat (32 :: u32)) (0xA5 :: u64) = 0xA5" by simp
  have h: "(5 :: u32) \<le> 32" "unat (32 :: u32) \<le> 64" "(2 :: u32) \<noteq> 0" "unat (32 :: u32) * unat (2 :: u32) \<le> 64"
    by simp_all
  from bitmap_round_trips [OF h, of "0xA5"] show ?thesis by (simp only: t)
qed

end
