(* ===== verification/C_Text.thy ===== *)
theory C_Text
  imports Float32 "HOL-Library.Char_ord"
begin

text \<open>
  Strings of C and the conversions of the C library the configuration code calls.  A string is
  its characters up to the terminating null, which \<open>c_str\<close> cuts at.  \<open>atoi\<close>, \<open>atol\<close>, \<open>strtol\<close> and
  \<open>strtoul\<close> read an integer: leading space, a sign, the longest run of digits (none gives 0);
  the first two leave a value out of range undefined, which is \<open>None\<close>, the last two saturate.
  \<open>strtod\<close> reads decimal and hexadecimal numbers, infinities and NaNs, and rounds to the nearest
  double; \<open>atof\<close> is \<open>strtod\<close>.  The sign of a zero is not kept.
\<close>

unbundle bit_operations_syntax

section \<open>Characters\<close>

definition char_code :: "char \<Rightarrow> nat" where
  "char_code c = of_char c"

definition isspace :: "char \<Rightarrow> bool" where
  "isspace c \<longleftrightarrow> char_code c = 32 \<or> (9 \<le> char_code c \<and> char_code c \<le> 13)"

definition newline :: char where
  "newline = CHR 0x0A"

definition c_str :: "string \<Rightarrow> string" where
  "c_str s = takeWhile (\<lambda>c. c \<noteq> CHR 0x00) s"

text \<open>The value of a digit in a base of at most 16.\<close>

definition digit_of :: "nat \<Rightarrow> char \<Rightarrow> nat option" where
  "digit_of base c = (let x = char_code c;
     d = (if 48 \<le> x \<and> x \<le> 57 then x - 48
          else if 97 \<le> x \<and> x \<le> 102 then x - 87
          else if 65 \<le> x \<and> x \<le> 70 then x - 55 else base) in
     if d < base then Some d else None)"

definition lower :: "char \<Rightarrow> char" where
  "lower c = (let x = char_code c in if 65 \<le> x \<and> x \<le> 90 then char_of (x + 32) else c)"

section \<open>Integers\<close>

text \<open>The digits at the front of a text as a value, with their number and what follows.\<close>

fun scan_digits :: "nat \<Rightarrow> nat \<Rightarrow> nat \<Rightarrow> string \<Rightarrow> nat \<times> nat \<times> string" where
  "scan_digits base acc n [] = (acc, n, [])"
| "scan_digits base acc n (c # cs) = (case digit_of base c of
     None \<Rightarrow> (acc, n, c # cs)
   | Some d \<Rightarrow> scan_digits base (acc * base + d) (Suc n) cs)"

text \<open>An optional sign: whether it is a minus, and the rest.\<close>

fun scan_sign :: "string \<Rightarrow> bool \<times> string" where
  "scan_sign (c # cs) = (if c = CHR ''-'' then (True, cs) else if c = CHR ''+'' then (False, cs) else (False, c # cs))"
| "scan_sign [] = (False, [])"

definition signed :: "bool \<Rightarrow> int \<Rightarrow> int" where
  "signed neg x = (if neg then - x else x)"

text \<open>\<open>0x\<close> in front of a hexadecimal digit.\<close>

definition hex_prefix :: "string \<Rightarrow> bool" where
  "hex_prefix s \<longleftrightarrow> (case s of a # b # c # _ \<Rightarrow> a = CHR ''0'' \<and> lower b = CHR ''x'' \<and> digit_of 16 c \<noteq> None | _ \<Rightarrow> False)"

definition scan_int :: "nat \<Rightarrow> string \<Rightarrow> int" where
  "scan_int base s = (case scan_sign (dropWhile isspace s) of (neg, t) \<Rightarrow>
     signed neg (int (fst (scan_digits base 0 0 t))))"

text \<open>Base 0: sixteen after \<open>0x\<close>, eight after \<open>0\<close>, else ten.\<close>

definition scan_magnitude :: "string \<Rightarrow> nat" where
  "scan_magnitude t = fst (if hex_prefix t then scan_digits 16 0 0 (drop 2 t)
     else if take 1 t = ''0'' then scan_digits 8 0 0 t else scan_digits 10 0 0 t)"

definition scan_int_any :: "string \<Rightarrow> int" where
  "scan_int_any s = (case scan_sign (dropWhile isspace s) of (neg, t) \<Rightarrow> signed neg (int (scan_magnitude t)))"

definition atoi :: "string \<Rightarrow> int option" where
  "atoi s = (let x = scan_int 10 s in if - (2 ^ 31) \<le> x \<and> x < 2 ^ 31 then Some x else None)"

definition atol :: "string \<Rightarrow> int option" where
  "atol s = (let x = scan_int 10 s in if - (2 ^ 63) \<le> x \<and> x < 2 ^ 63 then Some x else None)"

definition strtol :: "string \<Rightarrow> int" where
  "strtol s = max (- (2 ^ 63)) (min (2 ^ 63 - 1) (scan_int_any s))"

text \<open>\<open>strtoul\<close> negates in 64 bits, and saturates when the magnitude does not fit.\<close>

definition strtoul :: "string \<Rightarrow> int" where
  "strtoul s = (let x = scan_int_any s in
     if 2 ^ 64 \<le> \<bar>x\<bar> then 2 ^ 64 - 1 else x mod 2 ^ 64)"

section \<open>Floating-point numbers\<close>

datatype fnum = Finite rat | Infinity bool | NotANumber

text \<open>The nearest value with \<open>p\<close> digits whose least one is at \<open>emin\<close> or above, ties to even; a
  magnitude of \<open>2 ^ emax\<close> or more overflows.\<close>

definition fp_round :: "nat \<Rightarrow> int \<Rightarrow> int \<Rightarrow> rat \<Rightarrow> fnum" where
  "fp_round p emin emax q = (if q = 0 then Finite 0 else
     let u = pow2 (max emin (f32_exp \<bar>q\<bar> - int p + 1));
         r = of_int (round_even (\<bar>q\<bar> / u)) * u in
     if pow2 emax \<le> r then Infinity (q < 0) else Finite (if q < 0 then - r else r))"

definition to_double :: "rat \<Rightarrow> fnum" where
  "to_double q = fp_round 53 (- 1074) 1024 q"

text \<open>A double assigned to a \<open>float\<close>.\<close>

definition to_float :: "fnum \<Rightarrow> fnum" where
  "to_float x = (case x of Finite q \<Rightarrow> fp_round 24 (- 149) 128 q | _ \<Rightarrow> x)"

text \<open>Digits with an optional point: the value, the number of digits and the rest.\<close>

definition scan_mantissa :: "nat \<Rightarrow> string \<Rightarrow> rat \<times> nat \<times> string" where
  "scan_mantissa base s = (case scan_digits base 0 0 s of (m, n, t) \<Rightarrow>
     (case t of
        c # t' \<Rightarrow> if c = CHR ''.''
          then (case scan_digits base m 0 t' of (m', k, t'') \<Rightarrow>
                  (of_nat m' / of_nat base ^ k, n + k, t''))
          else (of_nat m, n, t)
      | [] \<Rightarrow> (of_nat m, n, t)))"

text \<open>An exponent: the letter, a sign and at least one digit.\<close>

definition scan_exponent :: "char \<Rightarrow> string \<Rightarrow> int" where
  "scan_exponent letter s = (case s of
     c # t \<Rightarrow> if lower c = letter
       then (case scan_sign t of (neg, t') \<Rightarrow> signed neg (int (fst (scan_digits 10 0 0 t'))))
       else 0
   | [] \<Rightarrow> 0)"

definition rat_power :: "rat \<Rightarrow> int \<Rightarrow> rat" where
  "rat_power b e = (if 0 \<le> e then b ^ nat e else 1 / b ^ nat (- e))"

definition scan_number :: "string \<Rightarrow> rat" where
  "scan_number t = (if hex_prefix t \<or> (take 1 t = ''0'' \<and> map lower (take 1 (drop 1 t)) = ''x'' \<and>
          take 1 (drop 2 t) = ''.'' \<and> hex_prefix (take 2 t @ drop 3 t))
     then (case scan_mantissa 16 (drop 2 t) of (m, n, t') \<Rightarrow> m * rat_power 2 (scan_exponent CHR ''p'' t'))
     else (case scan_mantissa 10 t of (m, n, t') \<Rightarrow> if n = 0 then 0
       else m * rat_power 10 (scan_exponent CHR ''e'' t')))"

definition strtod :: "string \<Rightarrow> fnum" where
  "strtod s = (case scan_sign (dropWhile isspace s) of (neg, t) \<Rightarrow>
     if map lower (take 3 t) = ''inf'' then Infinity neg
     else if map lower (take 3 t) = ''nan'' then NotANumber
     else to_double (if neg then - scan_number t else scan_number t))"

definition atof :: "string \<Rightarrow> fnum" where
  "atof s = strtod s"

section \<open>Tokens\<close>

text \<open>\<open>strtok\<close>: the runs of characters that are not the delimiter.\<close>

fun tokens_aux :: "char \<Rightarrow> string \<Rightarrow> string \<Rightarrow> string list" where
  "tokens_aux d [] tok = (if tok = [] then [] else [rev tok])"
| "tokens_aux d (c # cs) tok =
     (if c = d then (if tok = [] then tokens_aux d cs [] else rev tok # tokens_aux d cs [])
      else tokens_aux d cs (c # tok))"

definition strtok_all :: "char \<Rightarrow> string \<Rightarrow> string list" where
  "strtok_all d s = tokens_aux d s []"

section \<open>Arrays\<close>

definition to_int32 :: "int \<Rightarrow> int" where
  "to_int32 x = sint (word_of_int x :: u32)"

definition get_array_int :: "string \<Rightarrow> int list" where
  "get_array_int str = map (\<lambda>pch. to_int32 (strtol pch)) (strtok_all CHR '','' str)"

definition get_array_float :: "string \<Rightarrow> fnum list" where
  "get_array_float str = map (\<lambda>pch. to_float (atof pch)) (strtok_all CHR '','' str)"

section \<open>Printing\<close>

definition digit_char :: "nat \<Rightarrow> char" where
  "digit_char d = char_of (48 + d)"

fun show_nat :: "nat \<Rightarrow> string" where
  "show_nat n = (if n < 10 then [digit_char n] else show_nat (n div 10) @ [digit_char (n mod 10)])"

declare show_nat.simps [simp del]

definition show_int :: "int \<Rightarrow> string" where
  "show_int x = (if x < 0 then CHR ''-'' # show_nat (nat (- x)) else show_nat (nat x))"

fun comma_list :: "string list \<Rightarrow> string" where
  "comma_list [] = []"
| "comma_list [t] = t"
| "comma_list (t # ts) = t @ CHR '','' # comma_list ts"

lemma digit_char_code: "d < 10 \<Longrightarrow> char_code (digit_char d) = 48 + d"
  by (simp add: digit_char_def char_code_def)

lemma digit_of_digit_char: "d < 10 \<Longrightarrow> 10 \<le> base \<Longrightarrow> digit_of base (digit_char d) = Some d"
  by (simp add: digit_of_def digit_char_code Let_def)

lemma digit_char_zero: 
  assumes d: "d < 10"
  shows "digit_char d = CHR ''0'' \<longleftrightarrow> d = 0"
proof
  assume "digit_char d = CHR ''0''"
  moreover have "char_code CHR ''0'' = 48" by (simp add: char_code_def)
  ultimately show "d = 0" using digit_char_code [OF d] by simp
next
  have "digit_char 0 = CHR ''0''" by code_simp
  then show "d = 0 \<Longrightarrow> digit_char d = CHR ''0''" by simp
qed

lemma digit_char_plain:
  assumes "d < 10"
  shows "digit_char d \<noteq> CHR ''-'' \<and> digit_char d \<noteq> CHR ''+'' \<and> \<not> isspace (digit_char d) \<and> digit_char d \<noteq> CHR '','' \<and>
    digit_char d \<noteq> CHR ''x''"
proof -
  have "char_code (digit_char d) = 48 + d" using assms by (rule digit_char_code)
  moreover have "char_code CHR ''-'' = 45" "char_code CHR ''+'' = 43" "char_code CHR '','' = 44" "char_code CHR ''x'' = 120"
    by (simp_all add: char_code_def)
  ultimately show ?thesis using assms by (auto simp: isspace_def)
qed

lemma show_nat_digits: "\<forall>c \<in> set (show_nat n). \<exists>d < 10. c = digit_char d"
proof (induction n rule: show_nat.induct)
  case (1 n)
  have "\<exists>d < 10. digit_char (n mod 10) = digit_char d" by (rule exI [of _ "n mod 10"]) simp
  with 1 show ?case by (subst show_nat.simps) auto
qed

lemma show_nat_head: "\<exists>d cs. show_nat n = digit_char d # cs \<and> d < 10 \<and> (d = 0 \<longrightarrow> n = 0 \<and> cs = [])"
proof (induction n rule: show_nat.induct)
  case (1 n)
  show ?case
  proof (cases "n < 10")
    case True
    then show ?thesis by (subst show_nat.simps) auto
  next
    case False
    with 1 show ?thesis by (subst show_nat.simps) fastforce
  qed
qed

lemma scan_show_nat:
  "scan_digits 10 acc k (show_nat n @ rest) =
     scan_digits 10 (acc * 10 ^ length (show_nat n) + n) (k + length (show_nat n)) rest"
proof (induction n arbitrary: acc k rest rule: show_nat.induct)
  case (1 n)
  show ?case
  proof (cases "n < 10")
    case True
    then have s: "show_nat n = [digit_char n]" by (subst show_nat.simps) simp
    show ?thesis using True by (simp add: s digit_of_digit_char)
  next
    case False
    then have s: "show_nat n = show_nat (n div 10) @ [digit_char (n mod 10)]" by (subst show_nat.simps) simp
    have "n mod 10 < 10" by simp
    from digit_of_digit_char [OF this, of 10]
    have "scan_digits 10 acc k (show_nat n @ rest) =
      scan_digits 10 ((acc * 10 ^ length (show_nat (n div 10)) + n div 10) * 10 + n mod 10) (k + length (show_nat (n div 10)) + 1) rest"
      by (simp add: s 1 [OF False])
    moreover have "(acc * 10 ^ length (show_nat (n div 10)) + n div 10) * 10 + n mod 10 =
      acc * 10 ^ length (show_nat n) + n" by (simp add: s algebra_simps)
    moreover have "k + length (show_nat (n div 10)) + 1 = k + length (show_nat n)" by (simp add: s)
    ultimately show ?thesis by (simp only:)
  qed
qed

lemma scan_any_show_nat: "scan_magnitude (show_nat n) = n"
proof -
  obtain d cs where s: "show_nat n = digit_char d # cs" "d < 10" "d = 0 \<longrightarrow> n = 0 \<and> cs = []"
    using show_nat_head by blast
  show ?thesis
  proof (cases "d = 0")
    case True
    then have "show_nat n = ''0''" "n = 0" using s by (auto simp: digit_char_zero)
    then show ?thesis by (simp add: scan_magnitude_def hex_prefix_def digit_of_def char_code_def)
  next
    case False
    then have "digit_char d \<noteq> CHR ''0''" using s(2) by (simp add: digit_char_zero)
    then have "\<not> hex_prefix (show_nat n)" "take 1 (show_nat n) \<noteq> ''0''"
      by (auto simp: s(1) hex_prefix_def split: list.splits)
    then show ?thesis using scan_show_nat [of 0 0 n "[]"] by (simp add: scan_magnitude_def)
  qed
qed

lemma scan_int_any_show: "scan_int_any (show_int x) = x"
proof -
  obtain d cs where s: "show_nat (nat \<bar>x\<bar>) = digit_char d # cs" "d < 10" using show_nat_head by blast
  note plain = digit_char_plain [OF s(2)]
  show ?thesis
  proof (cases "x < 0")
    case True
    then have e: "show_int x = CHR ''-'' # show_nat (nat \<bar>x\<bar>)" by (simp add: show_int_def)
    have "\<not> isspace CHR ''-''" by (simp add: isspace_def char_code_def)
    then show ?thesis using True scan_any_show_nat [of "nat \<bar>x\<bar>"]
      by (simp add: e scan_int_any_def signed_def)
  next
    case False
    then have e: "show_int x = show_nat (nat \<bar>x\<bar>)" by (simp add: show_int_def)
    have "scan_sign (dropWhile isspace (show_nat (nat \<bar>x\<bar>))) = (False, show_nat (nat \<bar>x\<bar>))"
      using plain by (simp add: s(1))
    then show ?thesis using False scan_any_show_nat [of "nat \<bar>x\<bar>"]
      by (simp add: e scan_int_any_def signed_def)
  qed
qed

lemma strtol_show: "- (2 ^ 63) \<le> x \<Longrightarrow> x < 2 ^ 63 \<Longrightarrow> strtol (show_int x) = x"
  by (simp add: strtol_def scan_int_any_show)

lemma to_int32_eq: "- (2 ^ 31) \<le> x \<Longrightarrow> x < 2 ^ 31 \<Longrightarrow> to_int32 x = x"
  using signed_take_bit_int_eq_self [of 31 x] by (simp add: to_int32_def signed_of_int)

lemma show_int_chars: "show_int x \<noteq> [] \<and> CHR '','' \<notin> set (show_int x)"
proof -
  have "CHR '','' \<notin> set (show_nat n)" for n using show_nat_digits [of n] digit_char_plain by metis
  moreover have "show_nat n \<noteq> []" for n using show_nat_head [of n] by auto
  ultimately show ?thesis by (simp add: show_int_def)
qed

lemma tokens_aux_skip: "d \<notin> set t \<Longrightarrow> tokens_aux d (t @ rest) tok = tokens_aux d rest (rev t @ tok)"
  by (induction t arbitrary: tok) auto

lemma tokens_comma_list:
  "\<forall>t \<in> set ts. t \<noteq> [] \<and> CHR '','' \<notin> set t \<Longrightarrow> strtok_all CHR '','' (comma_list ts) = ts"
proof (induction ts rule: comma_list.induct)
  case (2 t)
  then show ?case using tokens_aux_skip [of "CHR '',''" t "[]" "[]"] by (simp add: strtok_all_def)
next
  case (3 t u ts)
  then show ?case by (simp add: strtok_all_def tokens_aux_skip)
qed (simp add: strtok_all_def)

text \<open>
  C34. Integer arrays survive the configuration file: the comma-separated decimals of a list of
  \<open>int32_t\<close> values are read back as that list.
\<close>

theorem get_array_int_round_trip:
  assumes "\<forall>x \<in> set xs. - (2 ^ 31) \<le> x \<and> x < 2 ^ 31"
  shows "get_array_int (comma_list (map show_int xs)) = xs"
proof -
  have "strtok_all CHR '','' (comma_list (map show_int xs)) = map show_int xs"
    by (rule tokens_comma_list) (use show_int_chars in auto)
  moreover have "to_int32 (strtol (show_int x)) = x" if "x \<in> set xs" for x
    using assms that by (force simp: strtol_show to_int32_eq)
  ultimately show ?thesis by (simp add: get_array_int_def map_idI)
qed

theorem get_array_int_round_trip_witness:
  "get_array_int ''-8,0,77'' = [- 8, 0, 77]"
proof -
  have "comma_list (map show_int [- 8, 0, 77]) = ''-8,0,77''" by code_simp
  then show ?thesis using get_array_int_round_trip [of "[- 8, 0, 77]"] by simp
qed

end
