(* ===== verification/Ini_Parser.thy ===== *)
theory Ini_Parser
  imports C_Text
begin

text \<open>
  The \<open>.ini\<close> reader of \<open>src/ini.cc\<close> with the options of \<open>inc/ini.h\<close>: multi-line values, byte order
  marks and inline comments allowed, lines in a buffer of 2000 characters, no stop at the first
  error.  The text still to be read is the stream; \<open>fgets\<close> on a file does what
  \<open>ini_reader_string\<close> does on a string.  The handler is a function from the state of the user, the
  section, the name and the value to the new state and whether it accepted them.  In-place edits
  of the line buffer become the part of the line they leave.
\<close>

definition INI_MAX_LINE :: nat where "INI_MAX_LINE = 2000"
definition MAX_SECTION :: nat where "MAX_SECTION = 50"
definition MAX_NAME :: nat where "MAX_NAME = 50"

type_synonym 'st ini_handler = "'st \<Rightarrow> string \<Rightarrow> string \<Rightarrow> string \<Rightarrow> ('st \<times> bool) option"

section \<open>Helpers on lines\<close>

definition rstrip :: "string \<Rightarrow> string" where
  "rstrip s = rev (dropWhile isspace (rev s))"

definition lskip :: "string \<Rightarrow> string" where
  "lskip s = dropWhile isspace s"

definition strncpy0 :: "string \<Rightarrow> nat \<Rightarrow> string" where
  "strncpy0 src n = take (n - 1) src"

text \<open>The text before the first of \<open>chars\<close> or inline comment, and the text from there on.\<close>

fun find_chars_or_comment :: "string \<Rightarrow> bool \<Rightarrow> string \<Rightarrow> string \<times> string" where
  "find_chars_or_comment chars was_space [] = ([], [])"
| "find_chars_or_comment chars was_space (c # s) =
     (if c \<in> set chars \<or> (was_space \<and> c = CHR '';'') then ([], c # s)
      else (case find_chars_or_comment chars (isspace c) s of (a, b) \<Rightarrow> (c # a, b)))"

text \<open>\<open>ini_reader_string\<close>: at most \<open>num - 1\<close> characters, up to and with the end of the line.\<close>

fun read_chars :: "nat \<Rightarrow> string \<Rightarrow> string \<times> string" where
  "read_chars (Suc num) (c # cs) =
     (if c = newline then ([c], cs) else (case read_chars num cs of (l, rest) \<Rightarrow> (c # l, rest)))"
| "read_chars 0 cs = ([], cs)"
| "read_chars (Suc num) [] = ([], [])"

definition ini_reader_string :: "nat \<Rightarrow> string \<Rightarrow> (string \<times> string) option" where
  "ini_reader_string num left = (if left = [] \<or> num < 2 then None else Some (read_chars (num - 1) left))"

section \<open>The parser\<close>

record 'st ini_state =
  ini_user :: 'st
  ini_section :: string
  ini_prev_name :: string
  ini_lineno :: nat
  ini_error :: nat

definition note_error :: "'st ini_state \<Rightarrow> 'st ini_state" where
  "note_error s = (if ini_error s = 0 then s\<lparr>ini_error := ini_lineno s\<rparr> else s)"

definition call_handler :: "'st ini_handler \<Rightarrow> string \<Rightarrow> string \<Rightarrow> 'st ini_state \<Rightarrow> 'st ini_state option" where
  "call_handler h name value s = do {
     (u, ok) \<leftarrow> h (ini_user s) (ini_section s) name value;
     let s' = s\<lparr>ini_user := u\<rparr>;
     Some (if ok then s' else note_error s') }"

definition ini_line :: "'st ini_handler \<Rightarrow> string \<Rightarrow> 'st ini_state \<Rightarrow> 'st ini_state option" where
  "ini_line h buffer s0 = (
     let s = s0\<lparr>ini_lineno := ini_lineno s0 + 1\<rparr>;
         line = c_str buffer;
         bom = (ini_lineno s = 1 \<and> take 3 line = [CHR 0xEF, CHR 0xBB, CHR 0xBF]);
         text = rstrip (if bom then drop 3 line else line);
         start = lskip text;
         moved = (bom \<or> (\<exists>c \<in> set (take 1 text). isspace c)) in
     if start = [] \<or> hd start = CHR '';'' \<or> hd start = CHR ''#'' then Some s
     else if ini_prev_name s \<noteq> [] \<and> moved then call_handler h (ini_prev_name s) start s
     else if hd start = CHR ''['' then
       (case find_chars_or_comment '']'' False (tl start) of (a, b) \<Rightarrow>
          if take 1 b = '']'' then Some (s\<lparr>ini_section := strncpy0 a MAX_SECTION, ini_prev_name := []\<rparr>)
          else Some (note_error s))
     else
       (case find_chars_or_comment ''=:'' False start of (a, b) \<Rightarrow>
          if take 1 b = ''='' \<or> take 1 b = '':'' then
            (let name = rstrip a;
                 value = rstrip (lskip (fst (find_chars_or_comment [] False (tl b)))) in
             call_handler h name value (s\<lparr>ini_prev_name := strncpy0 name MAX_NAME\<rparr>))
          else Some (note_error s)))"

lemma read_chars_append: "fst (read_chars n s) @ snd (read_chars n s) = s"
  by (induction n s rule: read_chars.induct) (auto split: prod.splits)

lemma read_chars_less: "s \<noteq> [] \<Longrightarrow> 0 < n \<Longrightarrow> length (snd (read_chars n s)) < length s"
  using arg_cong [OF read_chars_append [of n s], of length]
  by (cases n; cases s) (auto split: prod.splits)

text \<open>The loop over the lines.\<close>

function ini_lines :: "'st ini_handler \<Rightarrow> string \<Rightarrow> 'st ini_state \<Rightarrow> 'st ini_state option" where
  "ini_lines h left s = (case ini_reader_string INI_MAX_LINE left of
       None \<Rightarrow> Some s
     | Some (line, rest) \<Rightarrow> do { s' \<leftarrow> ini_line h line s; ini_lines h rest s' })"
  by pat_completeness auto
termination
proof (relation "measure (\<lambda>(h, left, s). length left)")
  fix h :: "'a ini_handler" and left line rest x :: string and s s' :: "'a ini_state" and p
  assume "ini_reader_string INI_MAX_LINE left = Some p" "(line, rest) = p"
  then have "left \<noteq> []" "rest = snd (read_chars 1999 left)"
    by (auto simp: ini_reader_string_def INI_MAX_LINE_def split: if_splits dest: sym)
  then show "((h, rest, s'), h, left, s) \<in> measure (\<lambda>(h, left, s). length left)"
    using read_chars_less [of left 1999] by simp
qed simp

declare ini_lines.simps [simp del]

definition ini_start :: "'st \<Rightarrow> 'st ini_state" where
  "ini_start u = \<lparr>ini_user = u, ini_section = [], ini_prev_name = [], ini_lineno = 0, ini_error = 0\<rparr>"

text \<open>The state of the user at the end, and the number of the first line in error (0 for none).\<close>

definition ini_parse_stream :: "'st ini_handler \<Rightarrow> 'st \<Rightarrow> string \<Rightarrow> ('st \<times> nat) option" where
  "ini_parse_stream h u left = map_option (\<lambda>s. (ini_user s, ini_error s)) (ini_lines h left (ini_start u))"

definition ini_parse_string :: "'st ini_handler \<Rightarrow> 'st \<Rightarrow> string \<Rightarrow> ('st \<times> nat) option" where
  "ini_parse_string h u str = ini_parse_stream h u (c_str str)"

text \<open>\<open>ini_parse\<close> on a file system: a missing file is the error \<open>-1\<close>.\<close>

definition ini_parse :: "(string \<Rightarrow> string option) \<Rightarrow> 'st ini_handler \<Rightarrow> 'st \<Rightarrow> string \<Rightarrow> ('st \<times> int) option" where
  "ini_parse files h u filename = (case files filename of
       None \<Rightarrow> Some (u, - 1)
     | Some text \<Rightarrow> map_option (\<lambda>(u', e). (u', int e)) (ini_parse_stream h u text))"

section \<open>Configuration files as lists of items\<close>

datatype ini_item = Setting string string | Remark string | Blank

fun item_text :: "ini_item \<Rightarrow> string" where
  "item_text (Setting name value) = name @ '' = '' @ value"
| "item_text (Remark t) = ''# '' @ t"
| "item_text Blank = []"

definition print_items :: "ini_item list \<Rightarrow> string" where
  "print_items items = concat (map (\<lambda>i. item_text i @ [newline]) items)"

definition plain_name :: "string \<Rightarrow> bool" where
  "plain_name n \<longleftrightarrow> n \<noteq> [] \<and> list_all (\<lambda>c. \<not> isspace c \<and> c \<noteq> CHR 0x00 \<and> c \<noteq> CHR ''='' \<and> c \<noteq> CHR '':'' \<and> c \<noteq> CHR '';'') n \<and>
     hd n \<noteq> CHR ''#'' \<and> hd n \<noteq> CHR ''['' \<and> hd n \<noteq> CHR 0xEF"

definition plain_value :: "string \<Rightarrow> bool" where
  "plain_value v \<longleftrightarrow> list_all (\<lambda>c. c \<noteq> CHR 0x00 \<and> c \<noteq> newline \<and> c \<noteq> CHR '';'') v \<and>
     (v = [] \<or> (\<not> isspace (hd v) \<and> \<not> isspace (last v)))"

fun item_ok :: "ini_item \<Rightarrow> bool" where
  "item_ok (Setting n v) \<longleftrightarrow> plain_name n \<and> plain_value v \<and> length (item_text (Setting n v)) < INI_MAX_LINE - 1"
| "item_ok (Remark t) \<longleftrightarrow> list_all (\<lambda>c. c \<noteq> CHR 0x00 \<and> c \<noteq> newline) t \<and> length t < INI_MAX_LINE - 3"
| "item_ok Blank \<longleftrightarrow> True"

text \<open>What the items mean: the settings in order, each numbered by its line.\<close>

fun apply_items :: "'st ini_handler \<Rightarrow> nat \<Rightarrow> 'st \<times> nat \<Rightarrow> ini_item list \<Rightarrow> ('st \<times> nat) option" where
  "apply_items h line (u, e) [] = Some (u, e)"
| "apply_items h line (u, e) (Setting n v # items) = do {
     (u', ok) \<leftarrow> h u [] n v;
     apply_items h (line + 1) (u', if ok \<or> e \<noteq> 0 then e else line) items }"
| "apply_items h line (u, e) (Remark t # items) = apply_items h (line + 1) (u, e) items"
| "apply_items h line (u, e) (Blank # items) = apply_items h (line + 1) (u, e) items"

lemma newline_space [simp]: "isspace newline" "newline \<noteq> CHR 0x00" "\<not> isspace CHR ''=''" "isspace CHR '' ''" "\<not> isspace CHR ''#''"
  by code_simp+

lemma rstrip_space [simp]: "isspace c \<Longrightarrow> rstrip (s @ [c]) = rstrip s"
  by (simp add: rstrip_def)

lemma rstrip_id: "s \<noteq> [] \<Longrightarrow> \<not> isspace (last s) \<Longrightarrow> rstrip s = s"
  by (cases s rule: rev_cases) (simp_all add: rstrip_def)

lemma rstrip_Nil [simp]: "rstrip [] = []"
  by (simp add: rstrip_def)

lemma lskip_id: "s \<noteq> [] \<Longrightarrow> \<not> isspace (hd s) \<Longrightarrow> lskip s = s"
  by (cases s) (simp_all add: lskip_def)

lemma c_str_id: "CHR 0x00 \<notin> set s \<Longrightarrow> c_str s = s"
  by (auto simp: c_str_def takeWhile_eq_all_conv)

lemma find_chars_plain:
  "CHR '';'' \<notin> set s \<Longrightarrow>
     find_chars_or_comment chars w s = (takeWhile (\<lambda>c. c \<notin> set chars) s, dropWhile (\<lambda>c. c \<notin> set chars) s)"
  by (induction s arbitrary: w) auto

lemma read_chars_line:
  "newline \<notin> set l \<Longrightarrow> length l < n \<Longrightarrow> read_chars n (l @ newline # rest) = (l @ [newline], rest)"
proof (induction l arbitrary: n)
  case Nil
  then show ?case by (cases n) simp_all
next
  case (Cons c l)
  then show ?case by (cases n) auto
qed

lemma plain_value_strip: "plain_value v \<Longrightarrow> rstrip (lskip v) = v \<and> rstrip (lskip (CHR '' '' # v)) = v"
proof (cases "v = []")
  case True
  then show ?thesis by (simp add: lskip_def)
next
  case False
  moreover assume "plain_value v"
  ultimately have "lskip v = v" "rstrip v = v" by (simp_all add: plain_value_def lskip_id rstrip_id)
  then show ?thesis by (simp add: lskip_def)
qed

lemma setting_text:
  assumes "plain_name n" "plain_value v"
  shows "\<exists>t. rstrip (item_text (Setting n v) @ [newline]) = n @ CHR '' '' # CHR ''='' # t \<and>
    CHR '';'' \<notin> set t \<and> rstrip (lskip t) = v"
proof (cases "v = []")
  case True
  have "rstrip (n @ [CHR '' '', CHR ''='', CHR '' '', newline]) = rstrip ((n @ [CHR '' '', CHR ''='']) @ [CHR '' ''])"
    using rstrip_space [of newline "n @ [CHR '' '', CHR ''='', CHR '' '']"] by simp
  also have "\<dots> = n @ [CHR '' '', CHR ''='']" using rstrip_id [of "n @ [CHR '' '', CHR ''='']"] by (simp del: append_assoc)
  finally show ?thesis using True by (auto simp: lskip_def)
next
  case False
  then have "\<not> isspace (last (n @ '' = '' @ v))" using assms(2) by (simp add: plain_value_def)
  then have "rstrip (item_text (Setting n v) @ [newline]) = n @ '' = '' @ v"
    using rstrip_space [of newline "n @ '' = '' @ v"] rstrip_id [of "n @ '' = '' @ v"] by simp
  moreover have "CHR '';'' \<notin> set (CHR '' '' # v)" using assms(2) by (auto simp: plain_value_def list_all_iff)
  ultimately show ?thesis using plain_value_strip [OF assms(2)] by (intro exI [of _ "CHR '' '' # v"]) simp
qed

lemma plain_name_hd:
  assumes "plain_name n"
  shows "n \<noteq> [] \<and> \<not> isspace (hd n) \<and> hd n \<noteq> CHR '';'' \<and> hd n \<noteq> CHR ''#'' \<and> hd n \<noteq> CHR ''['' \<and> hd n \<noteq> CHR 0xEF"
  using assms by (cases n) (simp_all add: plain_name_def)

lemma setting_no_null:
  assumes "plain_name n" "plain_value v"
  shows "CHR 0x00 \<notin> set (item_text (Setting n v) @ [newline])"
proof -
  have "CHR 0x00 \<notin> set n" using assms(1) unfolding plain_name_def list_all_iff by blast
  moreover have "CHR 0x00 \<notin> set v" using assms(2) unfolding plain_value_def list_all_iff by blast
  ultimately show ?thesis using newline_space(2) [symmetric] by simp
qed

lemma ini_line_setting:
  assumes "plain_name n" "plain_value v"
  shows "ini_line h (item_text (Setting n v) @ [newline]) s =
    call_handler h n v (s\<lparr>ini_lineno := ini_lineno s + 1, ini_prev_name := strncpy0 n MAX_NAME\<rparr>)"
proof -
  let ?line = "item_text (Setting n v) @ [newline]"
  obtain t where t: "rstrip ?line = n @ CHR '' '' # CHR ''='' # t"
    "CHR '';'' \<notin> set t" "rstrip (lskip t) = v" using setting_text [OF assms] by blast
  have z: "c_str ?line = ?line"
    using setting_no_null [OF assms] by (rule c_str_id)
  have hd: "n \<noteq> []" "\<not> isspace (hd n)" "hd n \<noteq> CHR '';''" "hd n \<noteq> CHR ''#''" "hd n \<noteq> CHR ''[''" "hd n \<noteq> CHR 0xEF"
    using plain_name_hd [OF assms(1)] by blast+
  have nb: "take 3 ?line \<noteq> [CHR 0xEF, CHR 0xBB, CHR 0xBF]" using hd(1,6) by (cases n) simp_all
  have l: "lskip (n @ CHR '' '' # CHR ''='' # t) = n @ CHR '' '' # CHR ''='' # t"
    using hd(1,2) by (intro lskip_id) simp_all
  have "\<forall>x \<in> set n. x \<noteq> CHR ''='' \<and> x \<noteq> CHR '':''" "CHR '';'' \<notin> set n"
    using assms(1) unfolding plain_name_def list_all_iff by blast+
  then have f: "find_chars_or_comment ''=:'' False (n @ CHR '' '' # CHR ''='' # t) = (n @ [CHR '' ''], CHR ''='' # t)"
    using t(2) by (simp add: find_chars_plain takeWhile_append dropWhile_append)
  have r: "rstrip (n @ [CHR '' '']) = n"
    using assms(1) by (simp add: plain_name_def list_all_iff rstrip_id)
  have v: "fst (find_chars_or_comment [] False t) = t" using t(2) by (simp add: find_chars_plain takeWhile_eq_all_conv)
  have m: "\<not> (\<exists>c \<in> set (take 1 (n @ CHR '' '' # CHR ''='' # t)). isspace c)" using hd(1,2) by (cases n) simp_all
  have h': "hd (n @ CHR '' '' # CHR ''='' # t) = hd n" "n @ CHR '' '' # CHR ''='' # t \<noteq> []" using hd(1) by simp_all
  show ?thesis
    unfolding ini_line_def Let_def z
    by (simp only: nb t(1) l m h' hd f r v t(3) if_False simp_thms prod.case) (simp add: r v t(3))
qed

lemma ini_line_remark:
  assumes "CHR 0x00 \<notin> set t"
  shows "ini_line h (item_text (Remark t) @ [newline]) s = Some (s\<lparr>ini_lineno := ini_lineno s + 1\<rparr>)"
proof -
  let ?line = "CHR ''#'' # CHR '' '' # t @ [newline]"
  have z: "c_str ?line = ?line" using assms newline_space(2) [symmetric] by (intro c_str_id) simp
  obtain u where u: "rstrip ?line = CHR ''#'' # u"
  proof (cases "rstrip (CHR '' '' # t @ [newline]) = []")
    case True
    then have "dropWhile isspace (rev (CHR '' '' # t @ [newline])) = []" by (simp add: rstrip_def)
    then have "\<forall>c \<in> set (rev (CHR '' '' # t @ [newline])). isspace c" by (simp only: dropWhile_eq_Nil_conv)
    then have "rstrip ?line = [CHR ''#'']" by (simp add: rstrip_def dropWhile_append)
    then show ?thesis using that by blast
  next
    case False
    then have "\<not> (\<forall>c \<in> set (rev (CHR '' '' # t @ [newline])). isspace c)"
      by (simp only: rstrip_def rev_is_Nil_conv dropWhile_eq_Nil_conv not_False_eq_True)
    then have "rstrip ?line = CHR ''#'' # rstrip (CHR '' '' # t @ [newline])"
      by (auto simp: rstrip_def dropWhile_append)
    then show ?thesis using that by blast
  qed
  moreover have "lskip (CHR ''#'' # u) = CHR ''#'' # u" by (simp add: lskip_def)
  ultimately show ?thesis by (simp add: ini_line_def Let_def z)
qed

lemma ini_line_blank: "ini_line h [newline] s = Some (s\<lparr>ini_lineno := ini_lineno s + 1\<rparr>)"
proof -
  have "c_str [newline] = [newline]" "rstrip [newline] = []" "lskip [] = []" by code_simp+
  then show ?thesis by (simp add: ini_line_def Let_def)
qed

lemma ini_lines_step:
  assumes "newline \<notin> set l" "length l < INI_MAX_LINE - 1"
  shows "ini_lines h (l @ newline # rest) s = Option.bind (ini_line h (l @ [newline]) s) (ini_lines h rest)"
  using read_chars_line [of l 1999 rest] assms
  by (subst ini_lines.simps) (simp add: ini_reader_string_def INI_MAX_LINE_def)

lemma ini_lines_Nil: "ini_lines h [] s = Some s"
  by (subst ini_lines.simps) (simp add: ini_reader_string_def)

lemma item_line:
  assumes "item_ok i"
  shows "newline \<notin> set (item_text i)" "length (item_text i) < INI_MAX_LINE - 1"
proof -
  have "newline \<notin> set n" if "plain_name n" for n
    using that newline_space(1) unfolding plain_name_def list_all_iff by blast
  moreover have "newline \<notin> set v" if "plain_value v" for v
    using that unfolding plain_value_def list_all_iff by blast
  moreover have "newline \<noteq> CHR '' ''" "newline \<noteq> CHR ''=''" "newline \<noteq> CHR ''#''" by code_simp+
  ultimately show "newline \<notin> set (item_text i)"
    using assms by (cases i) (auto simp: list_all_iff)
  show "length (item_text i) < INI_MAX_LINE - 1"
    using assms by (cases i) (auto simp: INI_MAX_LINE_def)
qed

lemma ini_lines_items:
  "\<forall>i \<in> set items. item_ok i \<Longrightarrow> ini_section s = [] \<Longrightarrow>
   map_option (\<lambda>s. (ini_user s, ini_error s)) (ini_lines h (print_items items) s) =
     apply_items h (ini_lineno s + 1) (ini_user s, ini_error s) items"
proof (induction items arbitrary: s)
  case Nil
  then show ?case by (simp add: print_items_def ini_lines_Nil)
next
  case (Cons i items)
  have p: "print_items (i # items) = item_text i @ newline # print_items items" by (simp add: print_items_def)
  have ok: "item_ok i" and rest: "\<forall>i \<in> set items. item_ok i" using Cons.prems(1) by simp_all
  note step = ini_lines_step [OF item_line [OF ok], of h "print_items items" s, folded p]
  note IH = Cons.IH [OF rest]
  show ?case
  proof (cases i)
    case (Setting n v)
    then have "plain_name n" "plain_value v" using ok by simp_all
    from ini_line_setting [OF this, of h s] show ?thesis
      using IH Cons.prems(2) unfolding step unfolding Setting
      by (auto simp: call_handler_def note_error_def Let_def option.map_comp split: Option.bind_split)
  next
    case (Remark t)
    then have "CHR 0x00 \<notin> set t" using ok unfolding Remark item_ok.simps list_all_iff by blast
    from ini_line_remark [OF this, of h s] show ?thesis
      using IH Cons.prems(2) unfolding step unfolding Remark by simp
  next
    case Blank
    then show ?thesis using IH Cons.prems(2) ini_line_blank [of h s] unfolding step unfolding Blank by simp
  qed
qed

text \<open>
  C33. The configuration reader reads what the format means: a file of settings
  \<open>name = value\<close>, comments and blank lines has the handler called for each setting, in order, with
  exactly that name and value and the empty section; the result is the state it leaves and the number of the first
  line it refused.
\<close>

theorem ini_parse_stream_reads_items:
  assumes "list_all item_ok items"
  shows "ini_parse_stream h u (print_items items) = apply_items h 1 (u, 0) items"
  using ini_lines_items [of items "ini_start u" h] assms
  by (simp add: ini_parse_stream_def ini_start_def list_all_iff)

theorem ini_parse_stream_reads_items_witness:
  "ini_parse_stream (\<lambda>log sec n v. Some (log @ [(sec, n, v)], n \<noteq> ''bad'')) []
     (print_items [Remark ''BOP'', Setting ''bop_rr_size'' ''256'', Blank, Setting ''bad'' ''x y'']) =
   Some ([([], ''bop_rr_size'', ''256''), ([], ''bad'', ''x y'')], 4)"
proof -
  let ?items = "[Remark ''BOP'', Setting ''bop_rr_size'' ''256'', Blank, Setting ''bad'' ''x y'']"
  have "list_all item_ok ?items" by code_simp
  from ini_parse_stream_reads_items [OF this, of "\<lambda>log sec n v. Some (log @ [(sec, n, v)], n \<noteq> ''bad'')" "[]"]
  show ?thesis by simp
qed

end
