(* ===== verification/Knob_Table.thy ===== *)
theory Knob_Table
  imports C_Text
begin

text \<open>
  The configuration variables of \<open>src/knobs.cc\<close> as data.  \<open>knob_defaults\<close> lists the declarations of
  the namespace \<open>knob\<close>: each name with its type and its initialiser, or the zero of
  static storage.  A floating-point initialiser is a fraction; a vector has none.  \<open>knob_table\<close>
  lists the branches of \<open>parse_knobs\<close> after the one for \<open>config\<close>: the name each compares with
  and the statements it runs, in the order of the chain.  Both are split along the comments of
  the source.
\<close>

datatype knob_decl =
    Uint64 int
  | Uint32 int
  | Int32 int
  | Bool bool
  | Float int int
  | Double int int
  | String string
  | Ints
  | Floats
  | Strings

text \<open>How a branch reads its text, and what it does with it.\<close>

datatype knob_read = Atol | Atoi | Strtoul | Is_true | Atof | Strtod | Text | Array_int | Array_float

datatype knob_stmt =
    Assign string knob_read
  | Push_back string
  | Assign_log2 string string
  | Assign_lines string string
  | Assign_pow2 string string
  | Assign_size string string

section \<open>The variables\<close>

definition general_defaults :: "(string \<times> knob_decl) list" where
  "general_defaults = [
     (''warmup_instructions'', Uint64 1000000),
     (''simulation_instructions'', Uint64 1000000),
     (''knob_cloudsuite'', Bool False),
     (''knob_low_bandwidth'', Bool False),
     (''l2c_prefetcher_types'', Strings),
     (''l1d_prefetcher_types'', Strings),
     (''l1d_perfect'', Bool False),
     (''l2c_perfect'', Bool False),
     (''llc_perfect'', Bool False),
     (''l1d_semi_perfect'', Bool False),
     (''l2c_semi_perfect'', Bool False),
     (''llc_semi_perfect'', Bool False),
     (''semi_perfect_cache_page_buffer_size'', Uint32 64),
     (''measure_ipc'', Bool False),
     (''measure_ipc_epoch'', Uint64 1000),
     (''dram_io_freq'', Uint32 2400),
     (''measure_dram_bw'', Bool True),
     (''measure_dram_bw_epoch'', Uint64 256),
     (''measure_cache_acc'', Bool True),
     (''measure_cache_acc_epoch'', Uint64 1024)]"

definition next_line_defaults :: "(string \<times> knob_decl) list" where
  "next_line_defaults = [
     (''next_line_deltas'', Ints),
     (''next_line_delta_prob'', Floats),
     (''next_line_seed'', Uint32 255),
     (''next_line_pt_size'', Uint32 256),
     (''next_line_enable_prefetch_tracking'', Bool True),
     (''next_line_enable_trace'', Bool False),
     (''next_line_trace_interval'', Uint32 5),
     (''next_line_trace_name'', String ''next_line_trace.csv''),
     (''next_line_pref_degree'', Uint32 1)]"

definition sms_defaults :: "(string \<times> knob_decl) list" where
  "sms_defaults = [
     (''sms_at_size'', Uint32 32),
     (''sms_ft_size'', Uint32 64),
     (''sms_pht_size'', Uint32 16384),
     (''sms_pht_assoc'', Uint32 16),
     (''sms_pref_degree'', Uint32 4),
     (''sms_region_size'', Uint32 2048),
     (''sms_region_size_log'', Uint32 11),
     (''sms_enable_pref_buffer'', Bool True),
     (''sms_pref_buffer_size'', Uint32 256)]"

definition spp_defaults :: "(string \<times> knob_decl) list" where
  "spp_defaults = [
     (''spp_st_size'', Uint32 256),
     (''spp_pt_size'', Uint32 512),
     (''spp_max_outcomes'', Uint32 4),
     (''spp_max_confidence'', Double 25 1),
     (''spp_max_depth'', Uint32 64),
     (''spp_max_prefetch_per_level'', Uint32 1),
     (''spp_max_confidence_counter_value'', Uint32 16),
     (''spp_max_global_counter_value'', Uint32 1024),
     (''spp_pf_size'', Uint32 1024),
     (''spp_enable_alpha'', Bool True),
     (''spp_enable_pref_buffer'', Bool True),
     (''spp_pref_buffer_size'', Uint32 256),
     (''spp_pref_degree'', Uint32 4),
     (''spp_enable_ghr'', Bool True),
     (''spp_ghr_size'', Uint32 8),
     (''spp_signature_bits'', Uint32 12),
     (''spp_alpha_epoch'', Uint32 1024)]"

definition spp_dev2_defaults :: "(string \<times> knob_decl) list" where
  "spp_dev2_defaults = [
     (''spp_dev2_fill_threshold'', Uint32 90),
     (''spp_dev2_pf_threshold'', Uint32 25)]"

definition bop_defaults :: "(string \<times> knob_decl) list" where
  "bop_defaults = [
     (''bop_candidates'', Ints),
     (''bop_max_rounds'', Uint32 100),
     (''bop_max_score'', Uint32 31),
     (''bop_top_n'', Uint32 1),
     (''bop_enable_pref_buffer'', Bool False),
     (''bop_pref_buffer_size'', Uint32 256),
     (''bop_pref_degree'', Uint32 4),
     (''bop_rr_size'', Uint32 256)]"

definition sandbox_defaults :: "(string \<times> knob_decl) list" where
  "sandbox_defaults = [
     (''sandbox_pref_degree'', Uint32 4),
     (''sandbox_enable_stream_detect'', Bool False),
     (''sandbox_stream_detect_length'', Uint32 4),
     (''sandbox_num_access_in_phase'', Uint32 256),
     (''sandbox_num_cycle_offsets'', Uint32 4),
     (''sandbox_bloom_filter_size'', Uint32 2048),
     (''sandbox_seed'', Uint32 200)]"

definition dspatch_defaults :: "(string \<times> knob_decl) list" where
  "dspatch_defaults = [
     (''dspatch_log2_region_size'', Uint32 0),
     (''dspatch_num_cachelines_in_region'', Uint32 0),
     (''dspatch_pb_size'', Uint32 0),
     (''dspatch_num_spt_entries'', Uint32 0),
     (''dspatch_compression_granularity'', Uint32 0),
     (''dspatch_pred_throttle_bw_thr'', Uint32 0),
     (''dspatch_bitmap_selection_policy'', Uint32 0),
     (''dspatch_sig_type'', Uint32 0),
     (''dspatch_sig_hash_type'', Uint32 0),
     (''dspatch_or_count_max'', Uint32 0),
     (''dspatch_measure_covP_max'', Uint32 0),
     (''dspatch_measure_accP_max'', Uint32 0),
     (''dspatch_acc_thr'', Uint32 0),
     (''dspatch_cov_thr'', Uint32 0),
     (''dspatch_enable_pref_buffer'', Bool False),
     (''dspatch_pref_buffer_size'', Uint32 0),
     (''dspatch_pref_degree'', Uint32 0)]"

definition ppf_defaults :: "(string \<times> knob_decl) list" where
  "ppf_defaults = [
     (''ppf_perc_threshold_hi'', Int32 (- 5)),
     (''ppf_perc_threshold_lo'', Int32 (- 15))]"

definition mlop_defaults :: "(string \<times> knob_decl) list" where
  "mlop_defaults = [
     (''mlop_pref_degree'', Uint32 0),
     (''mlop_num_updates'', Uint32 0),
     (''mlop_l1d_thresh'', Float 0 1),
     (''mlop_l2c_thresh'', Float 0 1),
     (''mlop_llc_thresh'', Float 0 1),
     (''mlop_debug_level'', Uint32 0)]"

definition bingo_defaults :: "(string \<times> knob_decl) list" where
  "bingo_defaults = [
     (''bingo_region_size'', Uint32 2048),
     (''bingo_pattern_len'', Uint32 32),
     (''bingo_pc_width'', Uint32 16),
     (''bingo_min_addr_width'', Uint32 5),
     (''bingo_max_addr_width'', Uint32 16),
     (''bingo_ft_size'', Uint32 64),
     (''bingo_at_size'', Uint32 128),
     (''bingo_pht_size'', Uint32 8192),
     (''bingo_pht_ways'', Uint32 16),
     (''bingo_pf_streamer_size'', Uint32 128),
     (''bingo_debug_level'', Uint32 0),
     (''bingo_l1d_thresh'', Float 0 1),
     (''bingo_l2c_thresh'', Float 0 1),
     (''bingo_llc_thresh'', Float 0 1),
     (''bingo_pc_address_fill_level'', String '''')]"

definition stride_defaults :: "(string \<times> knob_decl) list" where
  "stride_defaults = [
     (''stride_num_trackers'', Uint32 64),
     (''stride_pref_degree'', Uint32 2)]"

definition gnn_defaults :: "(string \<times> knob_decl) list" where
  "gnn_defaults = [
     (''RegTableEntry_num'', Uint32 512),
     (''reg_pref_degree'', Uint32 2)]"

definition streamer_defaults :: "(string \<times> knob_decl) list" where
  "streamer_defaults = [
     (''streamer_num_trackers'', Uint32 64),
     (''streamer_pref_degree'', Uint32 5)]"

definition ampm_defaults :: "(string \<times> knob_decl) list" where
  "ampm_defaults = [
     (''ampm_pb_size'', Uint32 64),
     (''ampm_pred_degree'', Uint32 4),
     (''ampm_pref_degree'', Uint32 4),
     (''ampm_pref_buffer_size'', Uint32 256),
     (''ampm_enable_pref_buffer'', Bool False),
     (''ampm_max_delta'', Uint32 16)]"

definition context_defaults :: "(string \<times> knob_decl) list" where
  "context_defaults = [
     (''cp_cst_size'', Uint32 2048),
     (''cp_cst_assoc'', Uint32 16),
     (''cp_max_response_per_cst'', Uint32 4),
     (''cp_init_reward'', Int32 0),
     (''cp_prefetch_queue_size'', Uint32 128)]"

definition power7_defaults :: "(string \<times> knob_decl) list" where
  "power7_defaults = [
     (''power7_explore_epoch'', Uint32 1000),
     (''power7_exploit_epoch'', Uint32 100000),
     (''power7_default_streamer_degree'', Uint32 4)]"

definition t2_defaults :: "(string \<times> knob_decl) list" where
  "t2_defaults = [
     (''t2_non_loop_table_size'', Uint32 20),
     (''t2_min_seg_size'', Uint32 2),
     (''t2_loop_branch_register_size'', Uint32 20),
     (''t2_stride_identifier_table_size'', Uint32 32),
     (''t2_perf_degree'', Uint32 1)]"

definition tpc_defaults :: "(string \<times> knob_decl) list" where
  "tpc_defaults = [
     (''tpc_t2_non_loop_table_size'', Uint32 32),
     (''tpc_t2_min_seg_size'', Uint32 2),
     (''tpc_t2_loop_branch_register_size'', Uint32 512),
     (''tpc_t2p1_stride_identifier_table_size'', Uint32 512),
     (''tpc_p1_tain_reg_range'', Uint32 4096),
     (''tpc_t2_perf_degree'', Uint32 2),
     (''tpc_p1_perf_degree'', Uint32 2),
     (''tpc_c1_total_region_threshold'', Uint32 4),
     (''tpc_c1_dense_region_threshold'', Uint32 6),
     (''tpc_c1_instruction_monitor_size'', Uint32 512),
     (''tpc_c1_region_monitor_size'', Uint32 512),
     (''tpc_c1_perf_degree'', Uint32 4),
     (''tpc_enable'', Bool False)]"

definition scooby_defaults :: "(string \<times> knob_decl) list" where
  "scooby_defaults = [
     (''scooby_alpha'', Float 65 10000),
     (''scooby_gamma'', Float 55 100),
     (''scooby_epsilon'', Float 2 1000),
     (''scooby_state_num_bits'', Uint32 10),
     (''scooby_max_states'', Uint32 1024),
     (''scooby_seed'', Uint32 200),
     (''scooby_policy'', String ''EGreedy''),
     (''scooby_learning_type'', String ''SARSA''),
     (''scooby_actions'', Ints),
     (''scooby_max_actions'', Uint32 64),
     (''scooby_pt_size'', Uint32 256),
     (''scooby_st_size'', Uint32 64),
     (''scooby_reward_none'', Int32 (- 4)),
     (''scooby_reward_incorrect'', Int32 (- 8)),
     (''scooby_reward_correct_untimely'', Int32 12),
     (''scooby_reward_correct_timely'', Int32 20),
     (''scooby_max_pcs'', Uint32 5),
     (''scooby_max_offsets'', Uint32 5),
     (''scooby_max_deltas'', Uint32 5),
     (''scooby_brain_zero_init'', Bool False),
     (''scooby_enable_reward_all'', Bool False),
     (''scooby_enable_track_multiple'', Bool False),
     (''scooby_enable_reward_out_of_bounds'', Bool True),
     (''scooby_reward_out_of_bounds'', Int32 (- 12)),
     (''scooby_state_type'', Uint32 1),
     (''scooby_access_debug'', Bool False),
     (''scooby_print_access_debug'', Bool False),
     (''scooby_print_access_debug_pc'', Uint64 0),
     (''scooby_print_access_debug_pc_count'', Uint32 0),
     (''scooby_print_trace'', Bool False),
     (''scooby_enable_state_action_stats'', Bool False),
     (''scooby_enable_reward_tracker_hit'', Bool False),
     (''scooby_reward_tracker_hit'', Int32 (- 2)),
     (''scooby_enable_shaggy'', Bool False),
     (''scooby_state_hash_type'', Uint32 11),
     (''scooby_prefetch_with_shaggy'', Bool False),
     (''scooby_enable_featurewise_engine'', Bool True),
     (''scooby_pref_degree'', Uint32 1),
     (''scooby_enable_dyn_degree'', Bool True),
     (''scooby_max_to_avg_q_thresholds'', Floats),
     (''scooby_dyn_degrees'', Ints),
     (''scooby_early_exploration_window'', Uint64 0),
     (''scooby_multi_deg_select_type'', Uint32 2),
     (''scooby_last_pref_offset_conf_thresholds'', Ints),
     (''scooby_dyn_degrees_type2'', Ints),
     (''scooby_action_tracker_size'', Uint32 2),
     (''scooby_high_bw_thresh'', Uint32 4),
     (''scooby_enable_hbw_reward'', Bool True),
     (''scooby_reward_hbw_correct_timely'', Int32 20),
     (''scooby_reward_hbw_correct_untimely'', Int32 12),
     (''scooby_reward_hbw_incorrect'', Int32 (- 14)),
     (''scooby_reward_hbw_none'', Int32 (- 2)),
     (''scooby_reward_hbw_out_of_bounds'', Int32 (- 12)),
     (''scooby_reward_hbw_tracker_hit'', Int32 (- 2)),
     (''scooby_last_pref_offset_conf_thresholds_hbw'', Ints),
     (''scooby_dyn_degrees_type2_hbw'', Ints)]"

definition engine_defaults :: "(string \<times> knob_decl) list" where
  "engine_defaults = [
     (''le_enable_trace'', Bool False),
     (''le_trace_interval'', Uint32 0),
     (''le_trace_file_name'', String ''''),
     (''le_trace_state'', Uint32 0),
     (''le_enable_score_plot'', Bool False),
     (''le_plot_actions'', Ints),
     (''le_plot_file_name'', String ''''),
     (''le_enable_action_trace'', Bool False),
     (''le_action_trace_interval'', Uint32 0),
     (''le_action_trace_name'', String ''''),
     (''le_enable_action_plot'', Bool False)]"

definition featurewise_defaults :: "(string \<times> knob_decl) list" where
  "featurewise_defaults = [
     (''le_featurewise_active_features'', Ints),
     (''le_featurewise_num_tilings'', Ints),
     (''le_featurewise_num_tiles'', Ints),
     (''le_featurewise_hash_types'', Ints),
     (''le_featurewise_enable_tiling_offset'', Ints),
     (''le_featurewise_max_q_thresh'', Float 5 10),
     (''le_featurewise_enable_action_fallback'', Bool True),
     (''le_featurewise_feature_weights'', Floats),
     (''le_featurewise_enable_dynamic_weight'', Bool False),
     (''le_featurewise_weight_gradient'', Float 1 1000),
     (''le_featurewise_disable_adjust_weight_all_features_align'', Bool False),
     (''le_featurewise_selective_update'', Bool False),
     (''le_featurewise_pooling_type'', Uint32 2),
     (''le_featurewise_enable_dyn_action_fallback'', Bool True),
     (''le_featurewise_bw_acc_check_level'', Uint32 1),
     (''le_featurewise_acc_thresh'', Uint32 2),
     (''le_featurewise_enable_trace'', Bool False),
     (''le_featurewise_trace_feature_type'', Uint32 0),
     (''le_featurewise_trace_feature'', String ''''),
     (''le_featurewise_trace_interval'', Uint32 0),
     (''le_featurewise_trace_record_count'', Uint32 0),
     (''le_featurewise_trace_file_name'', String ''''),
     (''le_featurewise_enable_score_plot'', Bool False),
     (''le_featurewise_plot_actions'', Ints),
     (''le_featurewise_plot_file_name'', String ''''),
     (''le_featurewise_remove_plot_script'', Bool False)]"

definition cbp_defaults :: "(string \<times> knob_decl) list" where
  "cbp_defaults = [
     (''cbp_alpha'', Float 65 10000),
     (''cbp_gamma'', Float 55 100),
     (''cbp_max_states'', Uint32 1024),
     (''cbp_policy'', String ''Directly''),
     (''cbp_learning_type'', String ''SARSA''),
     (''cbp_early_exploration_window'', Uint64 0),
     (''cbp_pt_size'', Uint32 256),
     (''cbp_st_size'', Uint32 64),
     (''cbp_hst_size'', Uint32 256),
     (''cbp_action_tracker_size'', Uint32 2),
     (''cbp_brain_zero_init'', Bool False),
     (''cbp_enable_reward_all'', Bool False),
     (''cbp_enable_hbw_reward'', Bool True),
     (''cbp_reward_none'', Int32 (- 1)),
     (''cbp_reward_hbw_none'', Int32 (- 2)),
     (''cbp_reward_incorrect'', Int32 (- 4)),
     (''cbp_reward_hbw_incorrect'', Int32 (- 7)),
     (''cbp_state_type'', Uint32 7),
     (''cbp_state_hash_type'', Uint32 11),
     (''cbp_pref_degree'', Uint32 1),
     (''cbp_high_bw_thresh'', Uint32 4),
     (''cbp_max_pcs'', Uint32 5),
     (''cbp_max_offsets'', Uint32 5),
     (''cbp_max_deltas'', Uint32 5),
     (''cbp_enable_state_action_stats'', Bool True),
     (''cbp_state_action_stats_topK'', Uint32 10),
     (''cbp_enable_track_multiple'', Bool False),
     (''cbp_access_debug'', Bool False),
     (''cbp_print_access_debug'', Bool False),
     (''cbp_print_access_debug_pc'', Uint64 0),
     (''cbp_print_access_debug_pc_count'', Uint32 0),
     (''cbp_print_trace'', Bool False)]"

definition cbp_engine_defaults :: "(string \<times> knob_decl) list" where
  "cbp_engine_defaults = [
     (''cbp_le_enable_trace'', Bool False),
     (''cbp_le_trace_interval'', Uint32 5),
     (''cbp_le_trace_file_name'', String ''cbp_trace_file.txt''),
     (''cbp_le_trace_state'', Uint32 0),
     (''cbp_le_enable_score_plot'', Bool False),
     (''cbp_le_plot_file_name'', String ''cbp_score_plot.png''),
     (''cbp_le_enable_action_trace'', Bool False),
     (''cbp_le_action_trace_interval'', Uint32 5),
     (''cbp_le_action_trace_name'', String ''cbp_action_trace_file.txt''),
     (''cbp_le_enable_action_plot'', Bool False)]"

definition rlp_defaults :: "(string \<times> knob_decl) list" where
  "rlp_defaults = [
     (''rlp_ir_alpha'', Float 65 10000),
     (''rlp_rp_alpha'', Float 65 10000),
     (''rlp_ir_gamma'', Float 55 100),
     (''rlp_rp_gamma'', Float 55 100),
     (''rlp_epsilon'', Float 5 10),
     (''rlp_rp_epsilon'', Float 2 1000),
     (''rlp_ir_max_states'', Uint32 1024),
     (''rlp_rp_max_states'', Uint32 1024),
     (''rlp_rp_actions'', Ints),
     (''rlp_ir_max_actions'', Uint32 1024),
     (''rlp_rp_max_actions'', Uint32 128),
     (''rlp_seed'', Uint32 123),
     (''rlp_rp_seed'', Uint32 199),
     (''rlp_ir_policy'', String ''Directly''),
     (''rlp_rp_policy'', String ''EGreedy''),
     (''rlp_ir_learning_type'', String ''SARSA''),
     (''rlp_rp_learning_type'', String ''SARSA''),
     (''rlp_ir_brain_zero_init'', Bool False),
     (''rlp_rp_brain_zero_init'', Bool False),
     (''rlp_ir_early_exploration_window'', Uint64 64)]"

definition rlp_reward_defaults :: "(string \<times> knob_decl) list" where
  "rlp_reward_defaults = [
     (''rlp_enable_hbw_reward'', Bool True),
     (''rlp_enable_reward_all'', Bool False),
     (''rlp_enable_reward_ir_prefetch_queue_hit'', Bool False),
     (''rlp_enable_reward_rp_prefetch_queue_hit'', Bool False),
     (''rlp_enable_reward_rp_out_of_bounds'', Bool False),
     (''rlp_reward_ir_none'', Int32 (- 8)),
     (''rlp_reward_rp_none'', Int32 (- 4)),
     (''rlp_reward_ir_incorrect'', Int32 (- 12)),
     (''rlp_reward_rp_incorrect'', Int32 (- 8)),
     (''rlp_reward_ir_correct_timely'', Int32 16),
     (''rlp_reward_rp_correct_timely'', Int32 20),
     (''rlp_reward_ir_correct_untimely'', Int32 8),
     (''rlp_reward_rp_correct_untimely'', Int32 12),
     (''rlp_reward_ir_prefetch_queue_hit'', Int32 (- 4)),
     (''rlp_reward_rp_prefetch_queue_hit'', Int32 (- 2)),
     (''rlp_reward_rp_out_of_bounds'', Int32 0),
     (''rlp_reward_ir_hbw_none'', Int32 (- 4)),
     (''rlp_reward_rp_hbw_none'', Int32 (- 2)),
     (''rlp_reward_ir_hbw_incorrect'', Int32 (- 18)),
     (''rlp_reward_rp_hbw_incorrect'', Int32 (- 14)),
     (''rlp_reward_ir_hbw_correct_timely'', Int32 16),
     (''rlp_reward_rp_hbw_correct_timely'', Int32 20),
     (''rlp_reward_ir_hbw_correct_untimely'', Int32 8),
     (''rlp_reward_rp_hbw_correct_untimely'', Int32 12),
     (''rlp_reward_ir_hbw_prefetch_queue_hit'', Int32 (- 4)),
     (''rlp_reward_rp_hbw_prefetch_queue_hit'', Int32 (- 2)),
     (''rlp_reward_rp_hbw_out_of_bounds'', Int32 (- 12))]"

definition rlp_module_defaults :: "(string \<times> knob_decl) list" where
  "rlp_module_defaults = [
     (''rlp_prefetch_queue_size'', Uint32 256),
     (''rlp_signature_table_size'', Uint32 64),
     (''rlp_history_state_queue_size'', Uint32 256),
     (''rlp_action_tracker_size'', Uint32 2),
     (''rlp_ir_state_type'', Uint32 7),
     (''rlp_rp_state_type'', Uint32 1),
     (''rlp_ir_state_hash_type'', Uint32 11),
     (''rlp_rp_state_hash_type'', Uint32 11),
     (''rlp_max_pcs'', Uint32 5),
     (''rlp_max_offsets'', Uint32 5),
     (''rlp_max_deltas'', Uint32 5)]"

definition rlp_feature_defaults :: "(string \<times> knob_decl) list" where
  "rlp_feature_defaults = [
     (''rlp_ir_pref_degree'', Uint32 1),
     (''rlp_rp_pref_degree'', Uint32 1),
     (''rlp_rp_enable_dyn_degree'', Uint32 1),
     (''rlp_rp_multi_deg_select_type'', Uint32 2),
     (''rlp_rp_max_to_avg_q_thresholds'', Floats),
     (''rlp_rp_dyn_degrees'', Ints),
     (''rlp_rp_last_pref_offset_conf_thresholds'', Ints),
     (''rlp_rp_dyn_degrees_type2'', Ints),
     (''rlp_rp_last_pref_offset_conf_thresholds_hbw'', Ints),
     (''rlp_rp_dyn_degrees_type2_hbw'', Ints),
     (''rlp_enable_track_multiple'', Bool False),
     (''rlp_high_bw_thresh'', Uint32 4)]"

definition rlp_debug_defaults :: "(string \<times> knob_decl) list" where
  "rlp_debug_defaults = [
     (''rlp_debug_enable_state_action_stats'', Bool False),
     (''rlp_debug_state_action_stats_topK'', Uint32 0),
     (''rlp_debug_access'', Bool False),
     (''rlp_debug_print_access'', Bool False),
     (''rlp_debug_print_access_pc'', Uint64 0),
     (''rlp_debug_print_access_pc_count'', Uint32 0),
     (''rlp_debug_print_trace'', Bool False)]"

definition rlp_irregular_defaults :: "(string \<times> knob_decl) list" where
  "rlp_irregular_defaults = [
     (''rlp_le_ir_way'', Uint32 4),
     (''rlp_le_ir_enable_trace'', Bool False),
     (''rlp_le_ir_trace_interval'', Uint32 5),
     (''rlp_le_ir_trace_file_name'', String ''rlp_le_ir_trace_file.txt''),
     (''rlp_le_ir_trace_state'', Uint32 0),
     (''rlp_le_ir_enable_score_plot'', Bool False),
     (''rlp_le_ir_plot_file_name'', String ''rlp_le_ir_score_plot.png''),
     (''rlp_le_ir_enable_action_trace'', Bool False),
     (''rlp_le_ir_action_trace_interval'', Uint32 5),
     (''rlp_le_ir_action_trace_name'', String ''rlp_le_ir_action_trace_file.txt''),
     (''rlp_le_ir_enable_action_plot'', Bool False)]"

definition rlp_regular_defaults :: "(string \<times> knob_decl) list" where
  "rlp_regular_defaults = [
     (''rlp_le_rp_featurewise_active_features'', Ints),
     (''rlp_le_rp_featurewise_num_tilings'', Ints),
     (''rlp_le_rp_featurewise_num_tiles'', Ints),
     (''rlp_le_rp_featurewise_hash_types'', Ints),
     (''rlp_le_rp_featurewise_enable_tiling_offset'', Ints),
     (''rlp_le_rp_featurewise_max_q_thresh'', Float 5 10),
     (''rlp_le_rp_featurewise_enable_action_fallback'', Bool True),
     (''rlp_le_rp_featurewise_feature_weights'', Floats),
     (''rlp_le_rp_featurewise_enable_dynamic_weight'', Bool True),
     (''rlp_le_rp_featurewise_weight_gradient'', Float 1 1000),
     (''rlp_le_rp_featurewise_disable_adjust_weight_all_features_align'', Bool False),
     (''rlp_le_rp_featurewise_selective_update'', Bool False),
     (''rlp_le_rp_featurewise_pooling_type'', Uint32 2),
     (''rlp_le_rp_featurewise_enable_dyn_action_fallback'', Bool True),
     (''rlp_le_rp_featurewise_bw_acc_check_level'', Uint32 1),
     (''rlp_le_rp_featurewise_acc_thresh'', Uint32 2),
     (''rlp_le_rp_featurewise_enable_trace'', Bool False),
     (''rlp_le_rp_featurewise_trace_feature_type'', Uint32 0),
     (''rlp_le_rp_featurewise_trace_feature'', String ''''),
     (''rlp_le_rp_featurewise_trace_interval'', Uint32 0),
     (''rlp_le_rp_featurewise_trace_record_count'', Uint32 0),
     (''rlp_le_rp_featurewise_trace_file_name'', String ''''),
     (''rlp_le_rp_featurewise_enable_score_plot'', Bool False),
     (''rlp_le_rp_featurewise_plot_actions'', Ints),
     (''rlp_le_rp_featurewise_plot_file_name'', String ''''),
     (''rlp_le_rp_featurewise_remove_plot_script'', Bool False)]"

definition knob_defaults :: "(string \<times> knob_decl) list" where
  "knob_defaults = concat [general_defaults, next_line_defaults, sms_defaults, spp_defaults, spp_dev2_defaults,
     bop_defaults, sandbox_defaults, dspatch_defaults, ppf_defaults, mlop_defaults,
     bingo_defaults, stride_defaults, gnn_defaults, streamer_defaults, ampm_defaults,
     context_defaults, power7_defaults, t2_defaults, tpc_defaults, scooby_defaults,
     engine_defaults, featurewise_defaults, cbp_defaults, cbp_engine_defaults, rlp_defaults,
     rlp_reward_defaults, rlp_module_defaults, rlp_feature_defaults, rlp_debug_defaults,
     rlp_irregular_defaults, rlp_regular_defaults]"

section \<open>The settings\<close>

definition general_settings :: "(string \<times> knob_stmt list) list" where
  "general_settings = [
     (''warmup_instructions'', [Assign ''warmup_instructions'' Atol]),
     (''simulation_instructions'', [Assign ''simulation_instructions'' Atol]),
     (''knob_cloudsuite'', [Assign ''knob_cloudsuite'' Is_true]),
     (''knob_low_bandwidth'', [Assign ''knob_low_bandwidth'' Atoi]),
     (''l2c_prefetcher_types'', [Push_back ''l2c_prefetcher_types'']),
     (''l1d_prefetcher_types'', [Push_back ''l1d_prefetcher_types'']),
     (''l1d_perfect'', [Assign ''l1d_perfect'' Is_true]),
     (''l2c_perfect'', [Assign ''l2c_perfect'' Is_true]),
     (''llc_perfect'', [Assign ''llc_perfect'' Is_true]),
     (''l1d_semi_perfect'', [Assign ''l1d_semi_perfect'' Is_true]),
     (''l2c_semi_perfect'', [Assign ''l2c_semi_perfect'' Is_true]),
     (''llc_semi_perfect'', [Assign ''llc_semi_perfect'' Is_true]),
     (''semi_perfect_cache_page_buffer_size'', [Assign ''semi_perfect_cache_page_buffer_size'' Atoi]),
     (''measure_ipc'', [Assign ''measure_ipc'' Is_true]),
     (''measure_ipc_epoch'', [Assign ''measure_ipc_epoch'' Atoi]),
     (''dram_io_freq'', [Assign ''dram_io_freq'' Atoi]),
     (''measure_dram_bw'', [Assign ''measure_dram_bw'' Is_true]),
     (''measure_dram_bw_epoch'', [Assign ''measure_dram_bw_epoch'' Atoi]),
     (''measure_cache_acc'', [Assign ''measure_cache_acc'' Is_true]),
     (''measure_cache_acc_epoch'', [Assign ''measure_cache_acc_epoch'' Atoi])]"

definition next_line_settings :: "(string \<times> knob_stmt list) list" where
  "next_line_settings = [
     (''next_line_deltas'', [Assign ''next_line_deltas'' Array_int]),
     (''next_line_delta_prob'', [Assign ''next_line_delta_prob'' Array_float]),
     (''next_line_seed'', [Assign ''next_line_seed'' Atoi]),
     (''next_line_pt_size'', [Assign ''next_line_pt_size'' Atoi]),
     (''next_line_enable_prefetch_tracking'', [Assign ''next_line_enable_prefetch_tracking'' Is_true]),
     (''next_line_enable_trace'', [Assign ''next_line_enable_trace'' Is_true]),
     (''next_line_trace_interval'', [Assign ''next_line_trace_interval'' Atoi]),
     (''next_line_trace_name'', [Assign ''next_line_trace_name'' Text]),
     (''next_line_pref_degree'', [Assign ''next_line_pref_degree'' Atoi])]"

definition sms_settings :: "(string \<times> knob_stmt list) list" where
  "sms_settings = [
     (''sms_at_size'', [Assign ''sms_at_size'' Atoi]),
     (''sms_ft_size'', [Assign ''sms_ft_size'' Atoi]),
     (''sms_pht_size'', [Assign ''sms_pht_size'' Atoi]),
     (''sms_pht_assoc'', [Assign ''sms_pht_assoc'' Atoi]),
     (''sms_pref_degree'', [Assign ''sms_pref_degree'' Atoi]),
     (''sms_region_size'', [Assign ''sms_region_size'' Atoi, Assign_log2 ''sms_region_size_log'' ''sms_region_size'']),
     (''sms_enable_pref_buffer'', [Assign ''sms_enable_pref_buffer'' Is_true]),
     (''sms_pref_buffer_size'', [Assign ''sms_pref_buffer_size'' Atoi])]"

definition spp_settings :: "(string \<times> knob_stmt list) list" where
  "spp_settings = [
     (''spp_st_size'', [Assign ''spp_st_size'' Atoi]),
     (''spp_pt_size'', [Assign ''spp_pt_size'' Atoi]),
     (''spp_max_outcomes'', [Assign ''spp_max_outcomes'' Atoi]),
     (''spp_max_confidence'', [Assign ''spp_max_confidence'' Strtod]),
     (''spp_max_depth'', [Assign ''spp_max_depth'' Atoi]),
     (''spp_max_prefetch_per_level'', [Assign ''spp_max_prefetch_per_level'' Atoi]),
     (''spp_max_confidence_counter_value'', [Assign ''spp_max_confidence_counter_value'' Atoi]),
     (''spp_max_global_counter_value'', [Assign ''spp_max_global_counter_value'' Atoi]),
     (''spp_pf_size'', [Assign ''spp_pf_size'' Atoi]),
     (''spp_enable_alpha'', [Assign ''spp_enable_alpha'' Is_true]),
     (''spp_enable_pref_buffer'', [Assign ''spp_enable_pref_buffer'' Is_true]),
     (''spp_pref_buffer_size'', [Assign ''spp_pref_buffer_size'' Atoi]),
     (''spp_pref_degree'', [Assign ''spp_pref_degree'' Atoi]),
     (''spp_enable_ghr'', [Assign ''spp_enable_ghr'' Is_true]),
     (''spp_ghr_size'', [Assign ''spp_ghr_size'' Atoi]),
     (''spp_signature_bits'', [Assign ''spp_signature_bits'' Atoi]),
     (''spp_alpha_epoch'', [Assign ''spp_alpha_epoch'' Atoi])]"

definition spp_dev2_settings :: "(string \<times> knob_stmt list) list" where
  "spp_dev2_settings = [
     (''spp_dev2_fill_threshold'', [Assign ''spp_dev2_fill_threshold'' Atoi]),
     (''spp_dev2_pf_threshold'', [Assign ''spp_dev2_pf_threshold'' Atoi])]"

definition bop_settings :: "(string \<times> knob_stmt list) list" where
  "bop_settings = [
     (''bop_candidates'', [Assign ''bop_candidates'' Array_int]),
     (''bop_max_rounds'', [Assign ''bop_max_rounds'' Atoi]),
     (''bop_max_score'', [Assign ''bop_max_score'' Atoi]),
     (''bop_top_n'', [Assign ''bop_top_n'' Atoi]),
     (''bop_enable_pref_buffer'', [Assign ''bop_enable_pref_buffer'' Is_true]),
     (''bop_pref_buffer_size'', [Assign ''bop_pref_buffer_size'' Atoi]),
     (''bop_pref_degree'', [Assign ''bop_pref_degree'' Atoi]),
     (''bop_rr_size'', [Assign ''bop_rr_size'' Atoi])]"

definition sandbox_settings :: "(string \<times> knob_stmt list) list" where
  "sandbox_settings = [
     (''sandbox_pref_degree'', [Assign ''sandbox_pref_degree'' Atoi]),
     (''sandbox_enable_stream_detect'', [Assign ''sandbox_enable_stream_detect'' Is_true]),
     (''sandbox_stream_detect_length'', [Assign ''sandbox_stream_detect_length'' Atoi]),
     (''sandbox_num_access_in_phase'', [Assign ''sandbox_num_access_in_phase'' Atoi]),
     (''sandbox_num_cycle_offsets'', [Assign ''sandbox_num_cycle_offsets'' Atoi]),
     (''sandbox_bloom_filter_size'', [Assign ''sandbox_bloom_filter_size'' Atoi]),
     (''sandbox_seed'', [Assign ''sandbox_seed'' Atoi])]"

definition dspatch_settings :: "(string \<times> knob_stmt list) list" where
  "dspatch_settings = [
     (''dspatch_log2_region_size'', [Assign ''dspatch_log2_region_size'' Atoi, Assign_lines ''dspatch_num_cachelines_in_region'' ''dspatch_log2_region_size'']),
     (''dspatch_pb_size'', [Assign ''dspatch_pb_size'' Atoi]),
     (''dspatch_num_spt_entries'', [Assign ''dspatch_num_spt_entries'' Atoi]),
     (''dspatch_compression_granularity'', [Assign ''dspatch_compression_granularity'' Atoi]),
     (''dspatch_pred_throttle_bw_thr'', [Assign ''dspatch_pred_throttle_bw_thr'' Atoi]),
     (''dspatch_bitmap_selection_policy'', [Assign ''dspatch_bitmap_selection_policy'' Atoi]),
     (''dspatch_sig_type'', [Assign ''dspatch_sig_type'' Atoi]),
     (''dspatch_sig_hash_type'', [Assign ''dspatch_sig_hash_type'' Atoi]),
     (''dspatch_or_count_max'', [Assign ''dspatch_or_count_max'' Atoi]),
     (''dspatch_measure_covP_max'', [Assign ''dspatch_measure_covP_max'' Atoi]),
     (''dspatch_measure_accP_max'', [Assign ''dspatch_measure_accP_max'' Atoi]),
     (''dspatch_acc_thr'', [Assign ''dspatch_acc_thr'' Atoi]),
     (''dspatch_cov_thr'', [Assign ''dspatch_cov_thr'' Atoi]),
     (''dspatch_enable_pref_buffer'', [Assign ''dspatch_enable_pref_buffer'' Is_true]),
     (''dspatch_pref_buffer_size'', [Assign ''dspatch_pref_buffer_size'' Atoi]),
     (''dspatch_pref_degree'', [Assign ''dspatch_pref_degree'' Atoi])]"

definition ppf_settings :: "(string \<times> knob_stmt list) list" where
  "ppf_settings = [
     (''ppf_perc_threshold_hi'', [Assign ''ppf_perc_threshold_hi'' Atoi]),
     (''ppf_perc_threshold_lo'', [Assign ''ppf_perc_threshold_lo'' Atoi])]"

definition mlop_settings :: "(string \<times> knob_stmt list) list" where
  "mlop_settings = [
     (''mlop_pref_degree'', [Assign ''mlop_pref_degree'' Atoi]),
     (''mlop_num_updates'', [Assign ''mlop_num_updates'' Atoi]),
     (''mlop_l1d_thresh'', [Assign ''mlop_l1d_thresh'' Atof]),
     (''mlop_l2c_thresh'', [Assign ''mlop_l2c_thresh'' Atof]),
     (''mlop_llc_thresh'', [Assign ''mlop_llc_thresh'' Atof]),
     (''mlop_debug_level'', [Assign ''mlop_debug_level'' Atoi])]"

definition bingo_settings :: "(string \<times> knob_stmt list) list" where
  "bingo_settings = [
     (''bingo_region_size'', [Assign ''bingo_region_size'' Atoi]),
     (''bingo_pattern_len'', [Assign ''bingo_pattern_len'' Atoi]),
     (''bingo_pc_width'', [Assign ''bingo_pc_width'' Atoi]),
     (''bingo_min_addr_width'', [Assign ''bingo_min_addr_width'' Atoi]),
     (''bingo_max_addr_width'', [Assign ''bingo_max_addr_width'' Atoi]),
     (''bingo_ft_size'', [Assign ''bingo_ft_size'' Atoi]),
     (''bingo_at_size'', [Assign ''bingo_at_size'' Atoi]),
     (''bingo_pht_size'', [Assign ''bingo_pht_size'' Atoi]),
     (''bingo_pht_ways'', [Assign ''bingo_pht_ways'' Atoi]),
     (''bingo_pf_streamer_size'', [Assign ''bingo_pf_streamer_size'' Atoi]),
     (''bingo_debug_level'', [Assign ''bingo_debug_level'' Atoi]),
     (''bingo_l1d_thresh'', [Assign ''bingo_l1d_thresh'' Atof]),
     (''bingo_l2c_thresh'', [Assign ''bingo_l2c_thresh'' Atof]),
     (''bingo_llc_thresh'', [Assign ''bingo_llc_thresh'' Atof]),
     (''bingo_pc_address_fill_level'', [Assign ''bingo_pc_address_fill_level'' Text])]"

definition stride_streamer_settings :: "(string \<times> knob_stmt list) list" where
  "stride_streamer_settings = [
     (''stride_num_trackers'', [Assign ''stride_num_trackers'' Atoi]),
     (''stride_pref_degree'', [Assign ''stride_pref_degree'' Atoi]),
     (''streamer_num_trackers'', [Assign ''streamer_num_trackers'' Atoi]),
     (''streamer_pref_degree'', [Assign ''streamer_pref_degree'' Atoi])]"

definition gnn_settings :: "(string \<times> knob_stmt list) list" where
  "gnn_settings = [
     (''RegTableEntry_num'', [Assign ''RegTableEntry_num'' Atoi]),
     (''reg_pref_degree'', [Assign ''reg_pref_degree'' Atoi])]"

definition ampm_settings :: "(string \<times> knob_stmt list) list" where
  "ampm_settings = [
     (''ampm_pb_size'', [Assign ''ampm_pb_size'' Atoi]),
     (''ampm_pred_degree'', [Assign ''ampm_pred_degree'' Atoi]),
     (''ampm_pref_degree'', [Assign ''ampm_pref_degree'' Atoi]),
     (''ampm_pref_buffer_size'', [Assign ''ampm_pref_buffer_size'' Atoi]),
     (''ampm_enable_pref_buffer'', [Assign ''ampm_enable_pref_buffer'' Is_true]),
     (''ampm_max_delta'', [Assign ''ampm_max_delta'' Atoi])]"

definition context_settings :: "(string \<times> knob_stmt list) list" where
  "context_settings = [
     (''cp_cst_size'', [Assign ''cp_cst_size'' Atoi]),
     (''cp_cst_assoc'', [Assign ''cp_cst_assoc'' Atoi]),
     (''cp_max_response_per_cst'', [Assign ''cp_max_response_per_cst'' Atoi]),
     (''cp_init_reward'', [Assign ''cp_init_reward'' Atoi]),
     (''cp_prefetch_queue_size'', [Assign ''cp_prefetch_queue_size'' Atoi])]"

definition power7_settings :: "(string \<times> knob_stmt list) list" where
  "power7_settings = [
     (''power7_explore_epoch'', [Assign ''power7_explore_epoch'' Atoi]),
     (''power7_exploit_epoch'', [Assign ''power7_exploit_epoch'' Atoi]),
     (''power7_default_streamer_degree'', [Assign ''power7_default_streamer_degree'' Atoi])]"

definition scooby_settings :: "(string \<times> knob_stmt list) list" where
  "scooby_settings = [
     (''scooby_alpha'', [Assign ''scooby_alpha'' Atof]),
     (''scooby_gamma'', [Assign ''scooby_gamma'' Atof]),
     (''scooby_epsilon'', [Assign ''scooby_epsilon'' Atof]),
     (''scooby_state_num_bits'', [Assign ''scooby_state_num_bits'' Atoi, Assign_pow2 ''scooby_max_states'' ''scooby_state_num_bits'']),
     (''scooby_seed'', [Assign ''scooby_seed'' Atoi]),
     (''scooby_policy'', [Assign ''scooby_policy'' Text]),
     (''scooby_learning_type'', [Assign ''scooby_learning_type'' Text]),
     (''scooby_actions'', [Assign ''scooby_actions'' Array_int, Assign_size ''scooby_max_actions'' ''scooby_actions'']),
     (''scooby_pt_size'', [Assign ''scooby_pt_size'' Atoi]),
     (''scooby_st_size'', [Assign ''scooby_st_size'' Atoi]),
     (''scooby_reward_none'', [Assign ''scooby_reward_none'' Atoi]),
     (''scooby_reward_incorrect'', [Assign ''scooby_reward_incorrect'' Atoi]),
     (''scooby_reward_correct_untimely'', [Assign ''scooby_reward_correct_untimely'' Atoi]),
     (''scooby_reward_correct_timely'', [Assign ''scooby_reward_correct_timely'' Atoi]),
     (''scooby_max_pcs'', [Assign ''scooby_max_pcs'' Atoi]),
     (''scooby_max_offsets'', [Assign ''scooby_max_offsets'' Atoi]),
     (''scooby_max_deltas'', [Assign ''scooby_max_deltas'' Atoi]),
     (''scooby_brain_zero_init'', [Assign ''scooby_brain_zero_init'' Is_true]),
     (''scooby_enable_reward_all'', [Assign ''scooby_enable_reward_all'' Is_true]),
     (''scooby_enable_track_multiple'', [Assign ''scooby_enable_track_multiple'' Is_true]),
     (''scooby_enable_reward_out_of_bounds'', [Assign ''scooby_enable_reward_out_of_bounds'' Is_true]),
     (''scooby_reward_out_of_bounds'', [Assign ''scooby_reward_out_of_bounds'' Atoi]),
     (''scooby_state_type'', [Assign ''scooby_state_type'' Atoi]),
     (''scooby_access_debug'', [Assign ''scooby_access_debug'' Is_true]),
     (''scooby_print_access_debug'', [Assign ''scooby_print_access_debug'' Is_true]),
     (''scooby_print_access_debug_pc'', [Assign ''scooby_print_access_debug_pc'' Strtoul]),
     (''scooby_print_access_debug_pc_count'', [Assign ''scooby_print_access_debug_pc_count'' Atoi])]"

definition scooby_tracking_settings :: "(string \<times> knob_stmt list) list" where
  "scooby_tracking_settings = [
     (''scooby_print_trace'', [Assign ''scooby_print_trace'' Is_true]),
     (''scooby_enable_state_action_stats'', [Assign ''scooby_enable_state_action_stats'' Is_true]),
     (''scooby_enable_reward_tracker_hit'', [Assign ''scooby_enable_reward_tracker_hit'' Is_true]),
     (''scooby_reward_tracker_hit'', [Assign ''scooby_reward_tracker_hit'' Atoi]),
     (''scooby_enable_shaggy'', [Assign ''scooby_enable_shaggy'' Is_true]),
     (''scooby_state_hash_type'', [Assign ''scooby_state_hash_type'' Atoi]),
     (''scooby_prefetch_with_shaggy'', [Assign ''scooby_prefetch_with_shaggy'' Is_true]),
     (''scooby_enable_featurewise_engine'', [Assign ''scooby_enable_featurewise_engine'' Is_true]),
     (''scooby_pref_degree'', [Assign ''scooby_pref_degree'' Atoi]),
     (''scooby_enable_dyn_degree'', [Assign ''scooby_enable_dyn_degree'' Is_true]),
     (''scooby_max_to_avg_q_thresholds'', [Assign ''scooby_max_to_avg_q_thresholds'' Array_float]),
     (''scooby_early_exploration_window'', [Assign ''scooby_early_exploration_window'' Atoi]),
     (''scooby_dyn_degrees'', [Assign ''scooby_dyn_degrees'' Array_int]),
     (''scooby_multi_deg_select_type'', [Assign ''scooby_multi_deg_select_type'' Atoi]),
     (''scooby_last_pref_offset_conf_thresholds'', [Assign ''scooby_last_pref_offset_conf_thresholds'' Array_int]),
     (''scooby_dyn_degrees_type2'', [Assign ''scooby_dyn_degrees_type2'' Array_int]),
     (''scooby_action_tracker_size'', [Assign ''scooby_action_tracker_size'' Atoi]),
     (''scooby_high_bw_thresh'', [Assign ''scooby_high_bw_thresh'' Atoi]),
     (''scooby_enable_hbw_reward'', [Assign ''scooby_enable_hbw_reward'' Is_true]),
     (''scooby_reward_hbw_correct_timely'', [Assign ''scooby_reward_hbw_correct_timely'' Atoi]),
     (''scooby_reward_hbw_correct_untimely'', [Assign ''scooby_reward_hbw_correct_untimely'' Atoi]),
     (''scooby_reward_hbw_incorrect'', [Assign ''scooby_reward_hbw_incorrect'' Atoi]),
     (''scooby_reward_hbw_none'', [Assign ''scooby_reward_hbw_none'' Atoi]),
     (''scooby_reward_hbw_out_of_bounds'', [Assign ''scooby_reward_hbw_out_of_bounds'' Atoi]),
     (''scooby_reward_hbw_tracker_hit'', [Assign ''scooby_reward_hbw_tracker_hit'' Atoi]),
     (''scooby_last_pref_offset_conf_thresholds_hbw'', [Assign ''scooby_last_pref_offset_conf_thresholds_hbw'' Array_int]),
     (''scooby_dyn_degrees_type2_hbw'', [Assign ''scooby_dyn_degrees_type2_hbw'' Array_int])]"

definition engine_settings :: "(string \<times> knob_stmt list) list" where
  "engine_settings = [
     (''le_enable_trace'', [Assign ''le_enable_trace'' Is_true]),
     (''le_trace_interval'', [Assign ''le_trace_interval'' Atoi]),
     (''le_trace_file_name'', [Assign ''le_trace_file_name'' Text]),
     (''le_trace_state'', [Assign ''le_trace_state'' Strtoul]),
     (''le_enable_score_plot'', [Assign ''le_enable_score_plot'' Is_true]),
     (''le_plot_actions'', [Assign ''le_plot_actions'' Array_int]),
     (''le_plot_file_name'', [Assign ''le_plot_file_name'' Text]),
     (''le_enable_action_trace'', [Assign ''le_enable_action_trace'' Is_true]),
     (''le_action_trace_interval'', [Assign ''le_action_trace_interval'' Atoi]),
     (''le_action_trace_name'', [Assign ''le_action_trace_name'' Text]),
     (''le_enable_action_plot'', [Assign ''le_enable_action_plot'' Is_true])]"

definition featurewise_settings :: "(string \<times> knob_stmt list) list" where
  "featurewise_settings = [
     (''le_featurewise_active_features'', [Assign ''le_featurewise_active_features'' Array_int]),
     (''le_featurewise_num_tilings'', [Assign ''le_featurewise_num_tilings'' Array_int]),
     (''le_featurewise_num_tiles'', [Assign ''le_featurewise_num_tiles'' Array_int]),
     (''le_featurewise_hash_types'', [Assign ''le_featurewise_hash_types'' Array_int]),
     (''le_featurewise_enable_tiling_offset'', [Assign ''le_featurewise_enable_tiling_offset'' Array_int]),
     (''le_featurewise_max_q_thresh'', [Assign ''le_featurewise_max_q_thresh'' Atof]),
     (''le_featurewise_enable_action_fallback'', [Assign ''le_featurewise_enable_action_fallback'' Is_true]),
     (''le_featurewise_feature_weights'', [Assign ''le_featurewise_feature_weights'' Array_float]),
     (''le_featurewise_enable_dynamic_weight'', [Assign ''le_featurewise_enable_dynamic_weight'' Is_true]),
     (''le_featurewise_weight_gradient'', [Assign ''le_featurewise_weight_gradient'' Atof]),
     (''le_featurewise_disable_adjust_weight_all_features_align'', [Assign ''le_featurewise_disable_adjust_weight_all_features_align'' Is_true]),
     (''le_featurewise_selective_update'', [Assign ''le_featurewise_selective_update'' Is_true]),
     (''le_featurewise_pooling_type'', [Assign ''le_featurewise_pooling_type'' Atoi]),
     (''le_featurewise_enable_dyn_action_fallback'', [Assign ''le_featurewise_enable_dyn_action_fallback'' Is_true]),
     (''le_featurewise_bw_acc_check_level'', [Assign ''le_featurewise_bw_acc_check_level'' Atoi]),
     (''le_featurewise_acc_thresh'', [Assign ''le_featurewise_acc_thresh'' Atoi]),
     (''le_featurewise_enable_trace'', [Assign ''le_featurewise_enable_trace'' Is_true]),
     (''le_featurewise_trace_feature_type'', [Assign ''le_featurewise_trace_feature_type'' Atoi]),
     (''le_featurewise_trace_feature'', [Assign ''le_featurewise_trace_feature'' Text]),
     (''le_featurewise_trace_interval'', [Assign ''le_featurewise_trace_interval'' Atoi]),
     (''le_featurewise_trace_record_count'', [Assign ''le_featurewise_trace_record_count'' Atoi]),
     (''le_featurewise_trace_file_name'', [Assign ''le_featurewise_trace_file_name'' Text]),
     (''le_featurewise_enable_score_plot'', [Assign ''le_featurewise_enable_score_plot'' Is_true]),
     (''le_featurewise_plot_actions'', [Assign ''le_featurewise_plot_actions'' Array_int]),
     (''le_featurewise_plot_file_name'', [Assign ''le_featurewise_plot_file_name'' Text]),
     (''le_featurewise_remove_plot_script'', [Assign ''le_featurewise_remove_plot_script'' Is_true])]"

definition rlp_settings :: "(string \<times> knob_stmt list) list" where
  "rlp_settings = [
     (''rlp_rp_actions'', [Assign ''rlp_rp_actions'' Array_int, Assign_size ''rlp_rp_max_actions'' ''rlp_rp_actions'']),
     (''rlp_rp_max_to_avg_q_thresholds'', [Assign ''rlp_rp_max_to_avg_q_thresholds'' Array_float]),
     (''rlp_rp_dyn_degrees'', [Assign ''rlp_rp_dyn_degrees'' Array_int]),
     (''rlp_rp_last_pref_offset_conf_thresholds'', [Assign ''rlp_rp_last_pref_offset_conf_thresholds'' Array_int]),
     (''rlp_rp_dyn_degrees_type2'', [Assign ''rlp_rp_dyn_degrees_type2'' Array_int]),
     (''rlp_rp_last_pref_offset_conf_thresholds_hbw'', [Assign ''rlp_rp_last_pref_offset_conf_thresholds_hbw'' Array_int]),
     (''rlp_rp_dyn_degrees_type2_hbw'', [Assign ''rlp_rp_dyn_degrees_type2_hbw'' Array_int])]"

definition rlp_regular_settings :: "(string \<times> knob_stmt list) list" where
  "rlp_regular_settings = [
     (''rlp_le_rp_featurewise_active_features'', [Assign ''rlp_le_rp_featurewise_active_features'' Array_int]),
     (''rlp_le_rp_featurewise_num_tilings'', [Assign ''rlp_le_rp_featurewise_num_tilings'' Array_int]),
     (''rlp_le_rp_featurewise_num_tiles'', [Assign ''rlp_le_rp_featurewise_num_tiles'' Array_int]),
     (''rlp_le_rp_featurewise_hash_types'', [Assign ''rlp_le_rp_featurewise_hash_types'' Array_int]),
     (''rlp_le_rp_featurewise_enable_tiling_offset'', [Assign ''rlp_le_rp_featurewise_enable_tiling_offset'' Array_int]),
     (''rlp_le_rp_featurewise_feature_weights'', [Assign ''rlp_le_rp_featurewise_feature_weights'' Array_float])]"

definition knob_table :: "(string \<times> knob_stmt list) list" where
  "knob_table = concat [general_settings, next_line_settings, sms_settings, spp_settings, spp_dev2_settings,
     bop_settings, sandbox_settings, dspatch_settings, ppf_settings, mlop_settings,
     bingo_settings, stride_streamer_settings, gnn_settings, ampm_settings, context_settings,
     power7_settings, scooby_settings, scooby_tracking_settings, engine_settings,
     featurewise_settings, rlp_settings, rlp_regular_settings]"

end
