(* ===== verification/Knob_Types.thy ===== *)
theory Knob_Types
  imports Knob_Table
begin

text \<open>
  The two tables of \<open>Knob_Table\<close> fit together: no variable is declared twice, and every branch of
  \<open>parse_knobs\<close> sets the variable it is named after, with a conversion its type has, and at most
  derives another declared one from it.  The checks walk down both tables at once, so each is a
  short simplification.
\<close>

fun accepts :: "knob_decl \<Rightarrow> knob_read \<Rightarrow> bool" where
  "accepts (Uint64 _) r \<longleftrightarrow> r = Atol \<or> r = Atoi \<or> r = Strtoul"
| "accepts (Uint32 _) r \<longleftrightarrow> r = Atoi \<or> r = Strtoul"
| "accepts (Int32 _) r \<longleftrightarrow> r = Atoi"
| "accepts (Bool _) r \<longleftrightarrow> r = Is_true \<or> r = Atoi"
| "accepts (Float _ _) r \<longleftrightarrow> r = Atof"
| "accepts (Double _ _) r \<longleftrightarrow> r = Strtod"
| "accepts (String _) r \<longleftrightarrow> r = Text"
| "accepts Ints r \<longleftrightarrow> r = Array_int"
| "accepts Floats r \<longleftrightarrow> r = Array_float"
| "accepts Strings r \<longleftrightarrow> False"

text \<open>The variables a branch derives from the one it sets.\<close>

definition derived_knobs :: "string list" where
  "derived_knobs = [''sms_region_size_log'', ''dspatch_num_cachelines_in_region'', ''scooby_max_states'',
     ''scooby_max_actions'', ''rlp_rp_max_actions'']"

fun derives :: "string \<Rightarrow> knob_decl \<Rightarrow> knob_stmt \<Rightarrow> bool" where
  "derives n (Uint32 _) (Assign_log2 m k) \<longleftrightarrow> k = n \<and> m \<in> set derived_knobs"
| "derives n (Uint32 _) (Assign_lines m k) \<longleftrightarrow> k = n \<and> m \<in> set derived_knobs"
| "derives n (Uint32 _) (Assign_pow2 m k) \<longleftrightarrow> k = n \<and> m \<in> set derived_knobs"
| "derives n Ints (Assign_size m k) \<longleftrightarrow> k = n \<and> m \<in> set derived_knobs"
| "derives n _ _ \<longleftrightarrow> False"

text \<open>A branch sets the variable it is named after, of that type, and may derive another from it.\<close>

fun branch_ok :: "string \<Rightarrow> knob_decl \<Rightarrow> knob_stmt list \<Rightarrow> bool" where
  "branch_ok n d (Push_back m # ss) \<longleftrightarrow> m = n \<and> d = Strings \<and> ss = []"
| "branch_ok n d (Assign m r # ss) \<longleftrightarrow> m = n \<and> accepts d r \<and> (ss = [] \<or> (length ss = 1 \<and> derives n d (hd ss)))"
| "branch_ok n d ss \<longleftrightarrow> False"

text \<open>The branches come in the order of the declarations.\<close>

fun aligned :: "(string \<times> knob_decl) list \<Rightarrow> (string \<times> knob_stmt list) list \<Rightarrow> bool" where
  "aligned ds [] \<longleftrightarrow> True"
| "aligned [] (e # es) \<longleftrightarrow> False"
| "aligned (d # ds) (e # es) \<longleftrightarrow>
     (if fst d = fst e then branch_ok (fst d) (snd d) (snd e) \<and> aligned ds es else aligned ds (e # es))"

lemma aligned_sound: "aligned ds es \<Longrightarrow> (n, ss) \<in> set es \<Longrightarrow> \<exists>d. (n, d) \<in> set ds \<and> branch_ok n d ss"
proof (induction ds es rule: aligned.induct)
  case (3 d ds e es)
  show ?case
  proof (cases "fst d = fst e")
    case True
    then show ?thesis using 3 by (cases "(n, ss) = e") (auto simp: prod_eq_iff)
  next
    case False
    then show ?thesis using 3 by auto
  qed
qed auto

lemma aligned_general: "aligned general_defaults general_settings"
  by (simp add: general_defaults_def general_settings_def derived_knobs_def)

lemma aligned_next_line: "aligned next_line_defaults next_line_settings"
  by (simp add: next_line_defaults_def next_line_settings_def derived_knobs_def)

lemma aligned_sms: "aligned sms_defaults sms_settings"
  by (simp add: sms_defaults_def sms_settings_def derived_knobs_def)

lemma aligned_spp: "aligned spp_defaults spp_settings"
  by (simp add: spp_defaults_def spp_settings_def derived_knobs_def)

lemma aligned_spp_dev2: "aligned spp_dev2_defaults spp_dev2_settings"
  by (simp add: spp_dev2_defaults_def spp_dev2_settings_def derived_knobs_def)

lemma aligned_bop: "aligned bop_defaults bop_settings"
  by (simp add: bop_defaults_def bop_settings_def derived_knobs_def)

lemma aligned_sandbox: "aligned sandbox_defaults sandbox_settings"
  by (simp add: sandbox_defaults_def sandbox_settings_def derived_knobs_def)

lemma aligned_dspatch: "aligned dspatch_defaults dspatch_settings"
  by (simp add: dspatch_defaults_def dspatch_settings_def derived_knobs_def)

lemma aligned_ppf: "aligned ppf_defaults ppf_settings"
  by (simp add: ppf_defaults_def ppf_settings_def derived_knobs_def)

lemma aligned_mlop: "aligned mlop_defaults mlop_settings"
  by (simp add: mlop_defaults_def mlop_settings_def derived_knobs_def)

lemma aligned_bingo: "aligned bingo_defaults bingo_settings"
  by (simp add: bingo_defaults_def bingo_settings_def derived_knobs_def)

lemma aligned_gnn: "aligned gnn_defaults gnn_settings"
  by (simp add: gnn_defaults_def gnn_settings_def derived_knobs_def)

lemma aligned_ampm: "aligned ampm_defaults ampm_settings"
  by (simp add: ampm_defaults_def ampm_settings_def derived_knobs_def)

lemma aligned_context: "aligned context_defaults context_settings"
  by (simp add: context_defaults_def context_settings_def derived_knobs_def)

lemma aligned_power7: "aligned power7_defaults power7_settings"
  by (simp add: power7_defaults_def power7_settings_def derived_knobs_def)

lemma aligned_scooby: "aligned scooby_defaults scooby_settings"
  by (simp add: scooby_defaults_def scooby_settings_def derived_knobs_def)

lemma aligned_engine: "aligned engine_defaults engine_settings"
  by (simp add: engine_defaults_def engine_settings_def derived_knobs_def)

lemma aligned_featurewise: "aligned featurewise_defaults featurewise_settings"
  by (simp add: featurewise_defaults_def featurewise_settings_def derived_knobs_def)

lemma aligned_rlp_regular: "aligned rlp_regular_defaults rlp_regular_settings"
  by (simp add: rlp_regular_defaults_def rlp_regular_settings_def derived_knobs_def)

lemma aligned_stride_streamer: "aligned (stride_defaults @ streamer_defaults) stride_streamer_settings"
  by (simp add: stride_defaults_def streamer_defaults_def stride_streamer_settings_def)

lemma aligned_rlp: "aligned (rlp_defaults @ rlp_feature_defaults) rlp_settings"
  by (simp add: rlp_defaults_def rlp_feature_defaults_def rlp_settings_def derived_knobs_def)

lemma aligned_scooby_tracking:
  "aligned scooby_defaults (take 12 scooby_tracking_settings)"
  "aligned scooby_defaults (drop 12 scooby_tracking_settings)"
  by (simp_all add: scooby_defaults_def scooby_tracking_settings_def)

lemmas aligned_tables = aligned_general
  aligned_next_line
  aligned_sms
  aligned_spp
  aligned_spp_dev2
  aligned_bop
  aligned_sandbox
  aligned_dspatch
  aligned_ppf
  aligned_mlop
  aligned_bingo
  aligned_gnn
  aligned_ampm
  aligned_context
  aligned_power7
  aligned_scooby
  aligned_engine
  aligned_featurewise
  aligned_rlp_regular
  aligned_stride_streamer aligned_rlp aligned_scooby_tracking

lemma aligned_table:
  assumes "(n, ss) \<in> set knob_table"
  shows "\<exists>d. (n, d) \<in> set knob_defaults \<and> branch_ok n d ss"
proof -
  have "set scooby_tracking_settings = set (take 12 scooby_tracking_settings) \<union> set (drop 12 scooby_tracking_settings)"
    by (metis append_take_drop_id set_append)
  with assms obtain ds es where "aligned ds es" "(n, ss) \<in> set es" "set ds \<subseteq> set knob_defaults"
    unfolding knob_table_def knob_defaults_def set_concat
    using aligned_tables by simp (elim disjE; force)
  from aligned_sound [OF this(1,2)] this(3) show ?thesis by blast
qed

text \<open>No name is declared twice: names of different groups differ in their first word.\<close>

definition first_word :: "string \<Rightarrow> string" where
  "first_word n = takeWhile (\<lambda>c. c \<noteq> CHR ''_'') n"

text \<open>An initialiser in the range of its type.\<close>

definition decl_ok :: "knob_decl \<Rightarrow> bool" where
  "decl_ok d \<longleftrightarrow> (case d of Int32 i \<Rightarrow> - (2 ^ 31) \<le> i \<and> i < 2 ^ 31 | _ \<Rightarrow> True)"

definition group_ok :: "string list \<Rightarrow> (string \<times> knob_decl) list \<Rightarrow> bool" where
  "group_ok ws ds \<longleftrightarrow> distinct (map fst ds) \<and>
     list_all (\<lambda>d. first_word (fst d) \<in> set ws \<and> decl_ok (snd d)) ds"

lemma distinct_groups:
  "list_all (\<lambda>(ws, ds). group_ok ws ds) gs \<Longrightarrow> distinct (concat (map fst gs)) \<Longrightarrow>
     distinct (map fst (concat (map snd gs)))"
proof (induction gs)
  case (Cons g gs)
  obtain ws ds where g: "g = (ws, ds)" by (cases g)
  have "first_word n \<in> set ws" if "n \<in> fst ` set ds" for n
    using Cons.prems(1) that by (auto simp: g group_ok_def list_all_iff)
  moreover have "first_word n \<in> set (concat (map fst gs))" if "n \<in> fst ` set (concat (map snd gs))" for n
  proof -
    from that obtain ws' ds' d where "(ws', ds') \<in> set gs" "d \<in> set ds'" "n = fst d" by auto
    then show ?thesis using Cons.prems(1) by (force simp: group_ok_def list_all_iff)
  qed
  moreover have "set ws \<inter> set (concat (map fst gs)) = {}" using Cons.prems(2) by (simp add: g)
  ultimately have "fst ` set ds \<inter> fst ` set (concat (map snd gs)) = {}" by blast
  moreover have "distinct (map fst ds)" using Cons.prems(1) by (simp add: g group_ok_def)
  moreover have "distinct (map fst (concat (map snd gs)))"
    using Cons by (auto simp: g)
  ultimately show ?case by (simp add: g)
qed simp

lemma group_general: "group_ok [''warmup'', ''simulation'', ''knob'', ''l2c'', ''l1d'', ''llc'', ''semi'', ''measure'', ''dram''] general_defaults"
  by (simp add: group_ok_def first_word_def decl_ok_def general_defaults_def)

lemma group_next_line: "group_ok [''next''] next_line_defaults"
  by (simp add: group_ok_def first_word_def decl_ok_def next_line_defaults_def)

lemma group_sms: "group_ok [''sms''] sms_defaults"
  by (simp add: group_ok_def first_word_def decl_ok_def sms_defaults_def)

lemma group_spp: "group_ok [''spp''] (spp_defaults @ spp_dev2_defaults)"
  by (simp add: group_ok_def first_word_def decl_ok_def spp_defaults_def spp_dev2_defaults_def)

lemma group_bop: "group_ok [''bop''] bop_defaults"
  by (simp add: group_ok_def first_word_def decl_ok_def bop_defaults_def)

lemma group_sandbox: "group_ok [''sandbox''] sandbox_defaults"
  by (simp add: group_ok_def first_word_def decl_ok_def sandbox_defaults_def)

lemma group_dspatch: "group_ok [''dspatch''] dspatch_defaults"
  by (simp add: group_ok_def first_word_def decl_ok_def dspatch_defaults_def)

lemma group_ppf: "group_ok [''ppf''] ppf_defaults"
  by (simp add: group_ok_def first_word_def decl_ok_def ppf_defaults_def)

lemma group_mlop: "group_ok [''mlop''] mlop_defaults"
  by (simp add: group_ok_def first_word_def decl_ok_def mlop_defaults_def)

lemma group_bingo: "group_ok [''bingo''] bingo_defaults"
  by (simp add: group_ok_def first_word_def decl_ok_def bingo_defaults_def)

lemma group_stride: "group_ok [''stride''] stride_defaults"
  by (simp add: group_ok_def first_word_def decl_ok_def stride_defaults_def)

lemma group_gnn: "group_ok [''RegTableEntry'', ''reg''] gnn_defaults"
  by (simp add: group_ok_def first_word_def decl_ok_def gnn_defaults_def)

lemma group_streamer: "group_ok [''streamer''] streamer_defaults"
  by (simp add: group_ok_def first_word_def decl_ok_def streamer_defaults_def)

lemma group_ampm: "group_ok [''ampm''] ampm_defaults"
  by (simp add: group_ok_def first_word_def decl_ok_def ampm_defaults_def)

lemma group_context: "group_ok [''cp''] context_defaults"
  by (simp add: group_ok_def first_word_def decl_ok_def context_defaults_def)

lemma group_power7: "group_ok [''power7''] power7_defaults"
  by (simp add: group_ok_def first_word_def decl_ok_def power7_defaults_def)

lemma group_t2: "group_ok [''t2''] t2_defaults"
  by (simp add: group_ok_def first_word_def decl_ok_def t2_defaults_def)

lemma group_tpc: "group_ok [''tpc''] tpc_defaults"
  by (simp add: group_ok_def first_word_def decl_ok_def tpc_defaults_def)

lemma group_scooby: "group_ok [''scooby''] scooby_defaults"
  by (simp add: group_ok_def first_word_def decl_ok_def scooby_defaults_def)

lemma group_engine: "group_ok [''le''] (engine_defaults @ featurewise_defaults)"
  by (simp add: group_ok_def first_word_def decl_ok_def engine_defaults_def featurewise_defaults_def)

lemma group_cbp: "group_ok [''cbp''] (cbp_defaults @ cbp_engine_defaults)"
  by (simp add: group_ok_def first_word_def decl_ok_def cbp_defaults_def cbp_engine_defaults_def)

lemma group_rlp: "group_ok [''rlp''] (rlp_defaults @ rlp_reward_defaults @ rlp_module_defaults @ rlp_feature_defaults @ rlp_debug_defaults @ rlp_irregular_defaults @ rlp_regular_defaults)"
  by (simp add: group_ok_def first_word_def decl_ok_def rlp_defaults_def rlp_reward_defaults_def rlp_module_defaults_def rlp_feature_defaults_def rlp_debug_defaults_def rlp_irregular_defaults_def rlp_regular_defaults_def)

definition knob_groups :: "(string list \<times> (string \<times> knob_decl) list) list" where
  "knob_groups = [([''warmup'', ''simulation'', ''knob'', ''l2c'', ''l1d'', ''llc'', ''semi'', ''measure'', ''dram''], general_defaults),
     ([''next''], next_line_defaults),
     ([''sms''], sms_defaults),
     ([''spp''], spp_defaults @ spp_dev2_defaults),
     ([''bop''], bop_defaults),
     ([''sandbox''], sandbox_defaults),
     ([''dspatch''], dspatch_defaults),
     ([''ppf''], ppf_defaults),
     ([''mlop''], mlop_defaults),
     ([''bingo''], bingo_defaults),
     ([''stride''], stride_defaults),
     ([''RegTableEntry'', ''reg''], gnn_defaults),
     ([''streamer''], streamer_defaults),
     ([''ampm''], ampm_defaults),
     ([''cp''], context_defaults),
     ([''power7''], power7_defaults),
     ([''t2''], t2_defaults),
     ([''tpc''], tpc_defaults),
     ([''scooby''], scooby_defaults),
     ([''le''], engine_defaults @ featurewise_defaults),
     ([''cbp''], cbp_defaults @ cbp_engine_defaults),
     ([''rlp''], rlp_defaults @ rlp_reward_defaults @ rlp_module_defaults @ rlp_feature_defaults @ rlp_debug_defaults @ rlp_irregular_defaults @ rlp_regular_defaults)]"

lemma defaults_groups: "knob_defaults = concat (map snd knob_groups)"
  by (simp add: knob_defaults_def knob_groups_def)

lemma groups_ok: "list_all (\<lambda>(ws, ds). group_ok ws ds) knob_groups"
  unfolding knob_groups_def list.pred_inject prod.case by (intro conjI list.pred_inject(1) group_general group_next_line group_sms group_spp group_bop group_sandbox group_dspatch group_ppf group_mlop group_bingo group_stride group_gnn group_streamer group_ampm group_context group_power7 group_t2 group_tpc group_scooby group_engine group_cbp group_rlp)

lemma distinct_words: "distinct (concat (map fst knob_groups))"
  by (simp add: knob_groups_def)

lemma distinct_defaults: "distinct (map fst knob_defaults)"
  unfolding defaults_groups by (rule distinct_groups [OF groups_ok distinct_words])

lemma defaults_ok: "(n, d) \<in> set knob_defaults \<Longrightarrow> decl_ok d"
proof -
  assume "(n, d) \<in> set knob_defaults"
  then obtain ws ds where "(ws, ds) \<in> set knob_groups" "(n, d) \<in> set ds"
    unfolding defaults_groups by fastforce
  with groups_ok show "decl_ok d" by (force simp: group_ok_def list_all_iff)
qed

text \<open>Every branch of the table sets a declared variable, its namesake, with a value of its type.\<close>

lemma table_branch:
  assumes "map_of knob_table n = Some ss"
  shows "\<exists>d. map_of knob_defaults n = Some d \<and> branch_ok n d ss"
proof -
  obtain d where "(n, d) \<in> set knob_defaults" "branch_ok n d ss"
    using aligned_table [OF map_of_SomeD [OF assms]] by blast
  then show ?thesis using map_of_is_SomeI [OF distinct_defaults] by blast
qed

lemma derived_declared: "m \<in> set derived_knobs \<Longrightarrow> \<exists>i. map_of knob_defaults m = Some (Uint32 i)"
proof -
  have "(''sms_region_size_log'', Uint32 11) \<in> set sms_defaults" by (simp add: sms_defaults_def)
  moreover have "(''dspatch_num_cachelines_in_region'', Uint32 0) \<in> set dspatch_defaults"
    by (simp add: dspatch_defaults_def)
  moreover have "(''scooby_max_states'', Uint32 1024) \<in> set scooby_defaults"
    "(''scooby_max_actions'', Uint32 64) \<in> set scooby_defaults" by (simp_all add: scooby_defaults_def)
  moreover have "(''rlp_rp_max_actions'', Uint32 128) \<in> set rlp_defaults" by (simp add: rlp_defaults_def)
  moreover assume "m \<in> set derived_knobs"
  ultimately have "\<exists>i. (m, Uint32 i) \<in> set (sms_defaults @ dspatch_defaults @ scooby_defaults @ rlp_defaults)"
    unfolding derived_knobs_def list.set set_append by (elim insertE emptyE) blast+
  moreover have "set (sms_defaults @ dspatch_defaults @ scooby_defaults @ rlp_defaults) \<subseteq> set knob_defaults"
    by (auto simp: knob_defaults_def)
  ultimately show ?thesis using map_of_is_SomeI [OF distinct_defaults] by blast
qed

end
