(* ===== verification/Knobs.thy ===== *)
theory Knobs
  imports Knob_Types Ini_Parser
begin

text \<open>
  The configuration of the simulator (\<open>src/knobs.cc\<close>): the store of the knobs, \<open>parse_knobs\<close>, the
  configuration files it includes and the command line.  A store maps the name of a knob to its
  value; the constructor of the value is the declared type of the knob.  A file system maps a name
  to a text.  \<open>None\<close> is an exit with a message or undefined behaviour (a
  number out of range, a file name of 256 characters or more); the nesting of included files is
  bounded by a number, and running out of it is \<open>None\<close> as well.
\<close>

unbundle bit_operations_syntax

datatype knob_value =
    VU64 u64
  | VU32 u32
  | VI32 int
  | VBool bool
  | VF32 fnum
  | VF64 fnum
  | VText string
  | VInts "int list"
  | VFloats "fnum list"
  | VTexts "string list"

type_synonym knob_store = "string \<Rightarrow> knob_value option"

definition MAX_LEN :: nat where "MAX_LEN = 256"

text \<open>The value a declaration gives its variable.\<close>

fun initial_value :: "knob_decl \<Rightarrow> knob_value" where
  "initial_value (Uint64 i) = VU64 (word_of_int i)"
| "initial_value (Uint32 i) = VU32 (word_of_int i)"
| "initial_value (Int32 i) = VI32 i"
| "initial_value (Bool b) = VBool b"
| "initial_value (Float n d) = VF32 (to_float (to_double (of_int n / of_int d)))"
| "initial_value (Double n d) = VF64 (to_double (of_int n / of_int d))"
| "initial_value (String s) = VText s"
| "initial_value Ints = VInts []"
| "initial_value Floats = VFloats []"
| "initial_value Strings = VTexts []"

definition initial_knobs :: knob_store where
  "initial_knobs n = map_option initial_value (map_of knob_defaults n)"

section \<open>Assignments\<close>

datatype read_value = RInt int | RBool bool | RNum fnum | RText string | RInts "int list" | RNums "fnum list"

definition read_knob :: "knob_read \<Rightarrow> string \<Rightarrow> read_value option" where
  "read_knob r value = (case r of
     Atol \<Rightarrow> map_option RInt (atol value)
   | Atoi \<Rightarrow> map_option RInt (atoi value)
   | Strtoul \<Rightarrow> Some (RInt (strtoul value))
   | Is_true \<Rightarrow> Some (RBool (value = ''true''))
   | Atof \<Rightarrow> Some (RNum (atof value))
   | Strtod \<Rightarrow> Some (RNum (strtod value))
   | Text \<Rightarrow> Some (RText value)
   | Array_int \<Rightarrow> Some (RInts (get_array_int value))
   | Array_float \<Rightarrow> Some (RNums (get_array_float value)))"

text \<open>The conversion of an assignment to the type of the variable, which its old value shows; the
  pairs without a conversion do not compile.\<close>

fun convert_knob :: "knob_value \<Rightarrow> read_value \<Rightarrow> knob_value option" where
  "convert_knob (VU64 _) (RInt i) = Some (VU64 (word_of_int i))"
| "convert_knob (VU32 _) (RInt i) = Some (VU32 (word_of_int i))"
| "convert_knob (VI32 _) (RInt i) = Some (VI32 (to_int32 i))"
| "convert_knob (VBool _) (RInt i) = Some (VBool (i \<noteq> 0))"
| "convert_knob (VBool _) (RBool b) = Some (VBool b)"
| "convert_knob (VF32 _) (RNum x) = Some (VF32 (to_float x))"
| "convert_knob (VF64 _) (RNum x) = Some (VF64 x)"
| "convert_knob (VText _) (RText s) = Some (VText s)"
| "convert_knob (VInts _) (RInts xs) = Some (VInts xs)"
| "convert_knob (VFloats _) (RNums xs) = Some (VFloats xs)"
| "convert_knob _ _ = None"

definition assign_knob :: "string \<Rightarrow> read_value \<Rightarrow> knob_store \<Rightarrow> knob_store option" where
  "assign_knob n r st = do { old \<leftarrow> st n; v \<leftarrow> convert_knob old r; Some (st(n \<mapsto> v)) }"

definition knob_u32 :: "knob_store \<Rightarrow> string \<Rightarrow> u32 option" where
  "knob_u32 st n = (case st n of Some (VU32 w) \<Rightarrow> Some w | _ \<Rightarrow> None)"

text \<open>One statement of a branch.  \<open>log2\<close> of 0 and \<open>pow\<close> above the range do not convert to
  \<open>uint32_t\<close>; a shift is by less than 32.\<close>

fun knob_stmt :: "string \<Rightarrow> knob_stmt \<Rightarrow> knob_store \<Rightarrow> knob_store option" where
  "knob_stmt value (Assign n r) st = do { x \<leftarrow> read_knob r value; assign_knob n x st }"
| "knob_stmt value (Push_back n) st = (case st n of
     Some (VTexts ts) \<Rightarrow> Some (st(n \<mapsto> VTexts (ts @ [value])))
   | _ \<Rightarrow> None)"
| "knob_stmt value (Assign_log2 n m) st = do {
     w \<leftarrow> knob_u32 st m;
     assert_that (w \<noteq> 0);
     assign_knob n (RInt (lg2 (unat w))) st }"
| "knob_stmt value (Assign_lines n m) st = do {
     w \<leftarrow> knob_u32 st m;
     assert_that (w - 6 < 32);
     assign_knob n (RInt (2 ^ unat (w - 6))) st }"
| "knob_stmt value (Assign_pow2 n m) st = do {
     w \<leftarrow> knob_u32 st m;
     assert_that (w < 32);
     assign_knob n (RInt (2 ^ unat w)) st }"
| "knob_stmt value (Assign_size n m) st = (case st m of
     Some (VInts xs) \<Rightarrow> assign_knob n (RInt (int (length xs))) st
   | _ \<Rightarrow> None)"

text \<open>The chain of comparisons: the first entry of the table with the name.\<close>

definition parse_known :: "string \<Rightarrow> string \<Rightarrow> string \<Rightarrow> knob_store \<Rightarrow> (knob_store \<times> bool) option" where
  "parse_known section name value st =
     (case (if section = [] then map_of knob_table name else None) of
        Some stmts \<Rightarrow> do { st' \<leftarrow> fold_opt (\<lambda>st s. knob_stmt value s st) st stmts; Some (st', True) }
      | None \<Rightarrow> Some (st, False))"

definition parse_knobs :: "(string \<Rightarrow> knob_store \<Rightarrow> knob_store option) \<Rightarrow> knob_store ini_handler" where
  "parse_knobs load st section name value =
     (if section = [] \<and> name = ''config''
      then do {
        assert_that (length value < MAX_LEN);
        st' \<leftarrow> load value st;
        Some (st', True) }
      else parse_known section name value st)"

section \<open>Files and the command line\<close>

text \<open>\<open>parse_config\<close>, files nested at most \<open>n\<close> deep.  Only a missing file is fatal: refused lines
  are reported and skipped.\<close>

fun parse_config :: "(string \<Rightarrow> string option) \<Rightarrow> nat \<Rightarrow> string \<Rightarrow> knob_store \<Rightarrow> knob_store option" where
  "parse_config files 0 name st = None"
| "parse_config files (Suc n) name st = do {
     (st', e) \<leftarrow> ini_parse files (parse_knobs (parse_config files n)) st name;
     assert_that (0 \<le> e);
     Some st' }"

definition handler :: "(string \<Rightarrow> knob_store \<Rightarrow> knob_store option) \<Rightarrow> knob_store ini_handler" where
  "handler load st section name value =
     (if section = [] \<and> name = ''config''
      then do {
        assert_that (length value < MAX_LEN);
        st' \<leftarrow> load value st;
        Some (st', True) }
      else do { (st', ok) \<leftarrow> parse_knobs load st section name value; Some (st', True) })"

definition parse_arg :: "(string \<Rightarrow> string option) \<Rightarrow> nat \<Rightarrow> knob_store \<Rightarrow> string \<Rightarrow> knob_store option" where
  "parse_arg files n st arg = do {
     let arg' = (if take 2 arg = ''--'' then drop 2 arg else arg);
     (st', e) \<leftarrow> ini_parse_string (handler (parse_config files n)) st arg';
     Some st' }"

definition parse_args :: "(string \<Rightarrow> string option) \<Rightarrow> nat \<Rightarrow> string list \<Rightarrow> knob_store \<Rightarrow> knob_store option" where
  "parse_args files n argv st = fold_opt (parse_arg files n) st argv"

section \<open>Stores that hold what is declared\<close>

definition has_type :: "knob_decl \<Rightarrow> knob_value \<Rightarrow> bool" where
  "has_type d v = (case d of
     Uint64 _ \<Rightarrow> (case v of VU64 _ \<Rightarrow> True | _ \<Rightarrow> False)
   | Uint32 _ \<Rightarrow> (case v of VU32 _ \<Rightarrow> True | _ \<Rightarrow> False)
   | Int32 _ \<Rightarrow> (case v of VI32 i \<Rightarrow> - (2 ^ 31) \<le> i \<and> i < 2 ^ 31 | _ \<Rightarrow> False)
   | Bool _ \<Rightarrow> (case v of VBool _ \<Rightarrow> True | _ \<Rightarrow> False)
   | Float _ _ \<Rightarrow> (case v of VF32 _ \<Rightarrow> True | _ \<Rightarrow> False)
   | Double _ _ \<Rightarrow> (case v of VF64 _ \<Rightarrow> True | _ \<Rightarrow> False)
   | String _ \<Rightarrow> (case v of VText _ \<Rightarrow> True | _ \<Rightarrow> False)
   | Ints \<Rightarrow> (case v of VInts xs \<Rightarrow> \<forall>x \<in> set xs. - (2 ^ 31) \<le> x \<and> x < 2 ^ 31 | _ \<Rightarrow> False)
   | Floats \<Rightarrow> (case v of VFloats _ \<Rightarrow> True | _ \<Rightarrow> False)
   | Strings \<Rightarrow> (case v of VTexts _ \<Rightarrow> True | _ \<Rightarrow> False))"

lemma has_type_u32: "has_type (Uint32 i) v \<Longrightarrow> \<exists>w. v = VU32 w"
  by (cases v) (simp_all add: has_type_def)

lemma has_type_strings: "has_type Strings v \<Longrightarrow> \<exists>ts. v = VTexts ts"
  by (cases v) (simp_all add: has_type_def)

definition knobs_typed :: "knob_store \<Rightarrow> bool" where
  "knobs_typed st \<longleftrightarrow> (\<forall>n. case map_of knob_defaults n of
     Some d \<Rightarrow> (case st n of Some v \<Rightarrow> has_type d v | None \<Rightarrow> False)
   | None \<Rightarrow> st n = None)"

lemma knobs_typedD: "knobs_typed st \<Longrightarrow> map_of knob_defaults n = Some d \<Longrightarrow> \<exists>v. st n = Some v \<and> has_type d v"
  unfolding knobs_typed_def by (drule spec [of _ n]) (auto split: option.splits)

lemma knobs_typed_update:
  assumes "knobs_typed st" "map_of knob_defaults n = Some d" "has_type d v"
  shows "knobs_typed (st(n \<mapsto> v))"
  unfolding knobs_typed_def
proof
  fix m
  show "case map_of knob_defaults m of Some d \<Rightarrow> (case (st(n \<mapsto> v)) m of Some v \<Rightarrow> has_type d v | None \<Rightarrow> False)
    | None \<Rightarrow> (st(n \<mapsto> v)) m = None"
  proof (cases "m = n")
    case True
    then show ?thesis using assms(2,3) by simp
  next
    case False
    then show ?thesis using assms(1) unfolding fun_upd_other [OF False] knobs_typed_def by blast
  qed
qed

lemma initial_has_type: "decl_ok d \<Longrightarrow> has_type d (initial_value d)"
  by (cases d) (simp_all add: decl_ok_def has_type_def)

lemma initial_knobs_typed: "knobs_typed initial_knobs"
  using defaults_ok [OF map_of_SomeD] by (auto simp: knobs_typed_def initial_knobs_def initial_has_type split: option.splits)

lemma to_int32_range: "- (2 ^ 31) \<le> to_int32 x \<and> to_int32 x < 2 ^ 31"
  using sint_range_size [of "word_of_int x :: u32"] by (simp add: to_int32_def word_size)

lemma convert_read:
  assumes "accepts d r" "has_type d old" "read_knob r value = Some x"
  shows "\<exists>v. convert_knob old x = Some v \<and> has_type d v"
  using assms to_int32_range
  by (cases d; cases old; auto simp: has_type_def read_knob_def get_array_int_def)

lemma assign_typed:
  assumes "knobs_typed st" "map_of knob_defaults n = Some d" "accepts d r" "read_knob r value = Some x"
  shows "\<exists>old v. st n = Some old \<and> convert_knob old x = Some v \<and> assign_knob n x st = Some (st(n \<mapsto> v)) \<and>
    knobs_typed (st(n \<mapsto> v))"
proof -
  obtain old where old: "st n = Some old" "has_type d old" using knobs_typedD assms(1,2) by blast
  from convert_read [OF assms(3) old(2) assms(4)] obtain v where v: "convert_knob old x = Some v" "has_type d v" by blast
  then show ?thesis using old knobs_typed_update [OF assms(1,2) v(2)] by (simp add: assign_knob_def)
qed

lemma assign_u32_typed:
  assumes "knobs_typed st" "map_of knob_defaults m = Some (Uint32 i)" "assign_knob m (RInt k) st = Some st'"
  shows "knobs_typed st' \<and> (\<forall>x. x \<noteq> m \<longrightarrow> st' x = st x)"
proof -
  obtain w where "st m = Some (VU32 w)"
    using knobs_typedD [OF assms(1,2)] has_type_u32 by blast
  then show ?thesis using assms(3) knobs_typed_update [OF assms(1,2), of "VU32 (word_of_int k)"]
    by (auto simp: assign_knob_def has_type_def)
qed

lemma derives_typed:
  assumes st: "knobs_typed st" and s: "derives n d s" "knob_stmt value s st = Some st'"
  shows "knobs_typed st' \<and> (\<forall>x. x \<notin> set derived_knobs \<longrightarrow> st' x = st x)"
proof -
  obtain m k where m: "m \<in> set derived_knobs" "assign_knob m (RInt k) st = Some st'"
    using s by (cases "(n, d, s)" rule: derives.cases)
      (auto simp: arr_simps split: option.splits knob_value.splits)
  with derived_declared obtain i where "map_of knob_defaults m = Some (Uint32 i)" by blast
  from assign_u32_typed [OF st this m(2)] m(1) show ?thesis by auto
qed

text \<open>A branch that runs to its end.\<close>

lemma branch_typed:
  assumes st: "knobs_typed st" and d: "map_of knob_defaults n = Some d" and ok: "branch_ok n d ss"
    and run: "fold_opt (\<lambda>st s. knob_stmt value s st) st ss = Some st'"
  shows "knobs_typed st' \<and> (\<forall>x. x \<noteq> n \<longrightarrow> x \<notin> set derived_knobs \<longrightarrow> st' x = st x)"
  using ok
proof (cases "(n, d, ss)" rule: branch_ok.cases)
  case (1 n' d' m ss')
  then have e: "ss = [Push_back n]" "d = Strings" using ok by auto
  obtain ts where "st n = Some (VTexts ts)"
    using knobs_typedD [OF st d] e(2) has_type_strings by blast
  then show ?thesis using run knobs_typed_update [OF st d, of "VTexts (ts @ [value])"] e by (auto simp: has_type_def)
next
  case (2 n' d' m r ss')
  then have e: "ss = Assign n r # ss'" "accepts d r" "ss' = [] \<or> (length ss' = 1 \<and> derives n d (hd ss'))"
    using ok by auto
  from run e(1) obtain x where x: "read_knob r value = Some x" by (cases "read_knob r value") auto
  obtain v where v: "assign_knob n x st = Some (st(n \<mapsto> v))" "knobs_typed (st(n \<mapsto> v))"
    using assign_typed [OF st d e(2) x] by blast
  have run': "fold_opt (\<lambda>st s. knob_stmt value s st) (st(n \<mapsto> v)) ss' = Some st'"
    using run e(1) x v(1) by simp
  show ?thesis
  proof (cases ss')
    case Nil
    then show ?thesis using run' v(2) by auto
  next
    case (Cons s ss'')
    then have "derives n d s" "knob_stmt value s (st(n \<mapsto> v)) = Some st'"
      using e(3) run' by (auto split: Option.bind_split_asm)
    from derives_typed [OF v(2) this] show ?thesis by auto
  qed
qed auto

lemma parse_known_typed:
  assumes "knobs_typed st" "parse_known section name value st = Some (st', ok)"
  shows "knobs_typed st' \<and> (\<forall>x. x \<noteq> name \<longrightarrow> x \<notin> set derived_knobs \<longrightarrow> st' x = st x)"
proof (cases "if section = [] then map_of knob_table name else None")
  case None
  then show ?thesis using assms by (simp add: parse_known_def)
next
  case (Some ss)
  then have ss: "map_of knob_table name = Some ss" by (simp split: if_splits)
  then obtain d where d: "map_of knob_defaults name = Some d" "branch_ok name d ss" using table_branch by blast
  have "fold_opt (\<lambda>st s. knob_stmt value s st) st ss = Some st'"
    using assms(2) Some by (auto simp: parse_known_def arr_simps)
  from branch_typed [OF assms(1) d this] show ?thesis .
qed

lemma plain_branch:
  assumes st: "knobs_typed st" and t: "map_of knob_table n = Some [Assign m r]" and x: "read_knob r value = Some x"
  shows "m = n \<and> (\<exists>old v. st n = Some old \<and> convert_knob old x = Some v \<and>
    parse_known [] n value st = Some (st(n \<mapsto> v), True) \<and> knobs_typed (st(n \<mapsto> v)))"
proof -
  obtain d where d: "map_of knob_defaults n = Some d" "branch_ok n d [Assign m r]" using table_branch [OF t] by blast
  then have m: "m = n" "accepts d r" by simp_all
  from assign_typed [OF st d(1) m(2) x] show ?thesis
    using t x m(1) by (auto simp: parse_known_def)
qed

text \<open>
  C31. A line \<open>name = value\<close> of a configuration sets the knob of that name and no other: for every
  name that \<open>parse_knobs\<close> compares with and handles by one assignment, the variable assigned is the one of that
  name, its new value is the text read and converted to the declared type, and the store stays
  well typed.  Any other name, and any name in a section, is refused with the store unchanged.
\<close>

theorem knob_line_sets_its_knob:
  assumes "knobs_typed st" "n \<noteq> ''config''"
  shows "(map_of knob_table n = Some [Assign m r] \<longrightarrow> read_knob r value = Some x \<longrightarrow>
      m = n \<and> (\<exists>old v. st n = Some old \<and> convert_knob old x = Some v \<and> knobs_typed (st(n \<mapsto> v)) \<and>
        parse_knobs load st [] n value = Some (st(n \<mapsto> v), True))) \<and>
    (map_of knob_table n = None \<or> sec \<noteq> [] \<longrightarrow> parse_knobs load st sec n value = Some (st, False))"
proof -
  have "parse_knobs load st se n value = parse_known se n value st" for se
    using assms(2) by (simp add: parse_knobs_def)
  moreover have "map_of knob_table n = None \<or> sec \<noteq> [] \<Longrightarrow> parse_known sec n value st = Some (st, False)"
    by (auto simp: parse_known_def)
  ultimately show ?thesis using plain_branch [OF assms(1), of n m r "value" x] by auto
qed

lemma table_warmup: "map_of knob_table ''warmup_instructions'' = Some [Assign ''warmup_instructions'' Atol]"
  by (simp add: knob_table_def general_settings_def)

theorem knob_line_sets_its_knob_witness:
  "\<exists>st'. parse_knobs (\<lambda>_ _. None) initial_knobs [] ''warmup_instructions'' '' 25'' = Some (st', True) \<and>
    st' ''warmup_instructions'' = Some (VU64 25)"
proof -
  have x: "read_knob Atol '' 25'' = Some (RInt 25)" by code_simp
  have "map_of knob_defaults ''warmup_instructions'' = Some (Uint64 1000000)"
    by (simp add: knob_defaults_def general_defaults_def)
  then have i: "initial_knobs ''warmup_instructions'' = Some (VU64 1000000)" by (simp add: initial_knobs_def)
  have "''warmup_instructions'' \<noteq> ''config''" by simp
  from knob_line_sets_its_knob [OF initial_knobs_typed this, THEN conjunct1, rule_format, OF table_warmup x]
  show ?thesis using i by auto
qed

section \<open>Whether a text is accepted does not depend on the store\<close>

definition value_ok :: "string \<Rightarrow> string \<Rightarrow> bool" where
  "value_ok name v \<longleftrightarrow> parse_known [] name v initial_knobs \<noteq> None"

lemma convert_same: "has_type d old \<Longrightarrow> has_type d old' \<Longrightarrow> convert_knob old x = convert_knob old' x"
  by (cases d; cases old; simp add: has_type_def; cases old'; simp; cases x; simp)

lemma assign_u32_runs: "knobs_typed st \<Longrightarrow> m \<in> set derived_knobs \<Longrightarrow> assign_knob m (RInt k) st \<noteq> None"
proof -
  assume st: "knobs_typed st" and "m \<in> set derived_knobs"
  then obtain i where i: "map_of knob_defaults m = Some (Uint32 i)" using derived_declared by blast
  then obtain w where "st m = Some (VU32 w)" using knobs_typedD [OF st] has_type_u32 by blast
  then show ?thesis by (simp add: assign_knob_def)
qed

lemma derives_runs:
  assumes "derives n d s" "knobs_typed st" "knobs_typed st'" "st n = st' n" "knob_stmt v s st \<noteq> None"
  shows "knob_stmt v s st' \<noteq> None"
  using assms assign_u32_runs [OF assms(3)]
  by (cases "(n, d, s)" rule: derives.cases)
    (auto simp: arr_simps knob_u32_def split: option.splits knob_value.splits)

lemma branch_runs:
  assumes st: "knobs_typed st" and st': "knobs_typed st'" and d: "map_of knob_defaults n = Some d"
    and ok: "branch_ok n d ss" and run: "fold_opt (\<lambda>st s. knob_stmt v s st) st ss \<noteq> None"
  shows "fold_opt (\<lambda>st s. knob_stmt v s st) st' ss \<noteq> None"
proof (cases "(n, d, ss)" rule: branch_ok.cases)
  case (1 n' d' m ss')
  then have e: "ss = [Push_back n]" "d = Strings" using ok by auto
  obtain ts where "st' n = Some (VTexts ts)" using knobs_typedD [OF st' d] e(2) has_type_strings by blast
  then show ?thesis using e(1) by simp
next
  case (2 n' d' m r ss')
  then have e: "ss = Assign n r # ss'" "accepts d r" "ss' = [] \<or> (length ss' = 1 \<and> derives n d (hd ss'))"
    using ok by auto
  from run e(1) obtain x where x: "read_knob r v = Some x" by (cases "read_knob r v") auto
  obtain old w where w: "st n = Some old" "convert_knob old x = Some w" "assign_knob n x st = Some (st(n \<mapsto> w))"
    "knobs_typed (st(n \<mapsto> w))" using assign_typed [OF st d e(2) x] by blast
  obtain old' w' where w': "st' n = Some old'" "convert_knob old' x = Some w'" "assign_knob n x st' = Some (st'(n \<mapsto> w'))"
    "knobs_typed (st'(n \<mapsto> w'))" using assign_typed [OF st' d e(2) x] by blast
  have "w = w'" using convert_same [of d old old' x] knobs_typedD [OF st d] knobs_typedD [OF st' d] w w' by simp
  show ?thesis
  proof (cases ss')
    case Nil
    then show ?thesis using e(1) x w'(3) by simp
  next
    case (Cons s ss'')
    then have s: "ss' = [s]" "derives n d s" using e(3) by auto
    then have "knob_stmt v s (st(n \<mapsto> w)) \<noteq> None" using run e(1) x w(3) by (cases "knob_stmt v s (st(n \<mapsto> w))") auto
    from derives_runs [OF s(2) w(4) w'(4) _ this] \<open>w = w'\<close> obtain st'' where "knob_stmt v s (st'(n \<mapsto> w')) = Some st''" by auto
    then show ?thesis using e(1) s(1) x w'(3) by simp
  qed
qed (use ok in auto)

lemma known_runs:
  assumes "knobs_typed st" "value_ok n v"
  shows "\<exists>st' ok. parse_known [] n v st = Some (st', ok) \<and> knobs_typed st'"
proof -
  have "parse_known [] n v st \<noteq> None"
  proof (cases "map_of knob_table n")
    case None
    then show ?thesis by (simp add: parse_known_def)
  next
    case (Some ss)
    then obtain d where d: "map_of knob_defaults n = Some d" "branch_ok n d ss" using table_branch by blast
    have "fold_opt (\<lambda>st s. knob_stmt v s st) initial_knobs ss \<noteq> None"
      using assms(2) Some by (cases "fold_opt (\<lambda>st s. knob_stmt v s st) initial_knobs ss") (simp_all add: value_ok_def parse_known_def)
    from branch_runs [OF initial_knobs_typed assms(1) d this]
    obtain st' where "fold_opt (\<lambda>st s. knob_stmt v s st) st ss = Some st'" by blast
    then show ?thesis using Some by (simp add: parse_known_def)
  qed
  then obtain st' ok where "parse_known [] n v st = Some (st', ok)" by auto
  with parse_known_typed [OF assms(1) this] show ?thesis by blast
qed

section \<open>Configuration files that end\<close>

text \<open>The file \<open>f\<close> of a file system given by items exists, its settings are accepted, and files
  nest less than \<open>n\<close> deep below it.\<close>

fun config_ok :: "(string \<Rightarrow> ini_item list option) \<Rightarrow> nat \<Rightarrow> string \<Rightarrow> bool" where
  "config_ok cfg 0 f \<longleftrightarrow> False"
| "config_ok cfg (Suc n) f \<longleftrightarrow> (case cfg f of
     None \<Rightarrow> False
   | Some items \<Rightarrow> list_all (\<lambda>i. item_ok i \<and> (case i of
       Setting name v \<Rightarrow> if name = ''config'' then length v < MAX_LEN \<and> config_ok cfg n v else value_ok name v
     | _ \<Rightarrow> True)) items)"

definition printed :: "(string \<Rightarrow> ini_item list option) \<Rightarrow> string \<Rightarrow> string option" where
  "printed cfg f = map_option print_items (cfg f)"

lemma ini_parse_items:
  assumes "cfg f = Some items" "\<forall>i \<in> set items. item_ok i"
  shows "ini_parse (printed cfg) h u f = map_option (\<lambda>(u', e). (u', int e)) (apply_items h 1 (u, 0) items)"
  using ini_lines_items [OF assms(2), of "ini_start u" h] assms(1)
  by (simp add: ini_parse_def printed_def ini_parse_stream_def ini_start_def)

lemma items_run:
  assumes load: "\<And>g st. config_ok cfg n g \<Longrightarrow> knobs_typed st \<Longrightarrow>
      \<exists>st'. knobs_typed st' \<and> (\<forall>m \<ge> n. parse_config files m g st = Some st')"
  shows "list_all (\<lambda>i. item_ok i \<and> (case i of
       Setting name v \<Rightarrow> if name = ''config'' then length v < MAX_LEN \<and> config_ok cfg n v else value_ok name v
     | _ \<Rightarrow> True)) items \<Longrightarrow> knobs_typed st \<Longrightarrow>
    \<exists>st' e'. knobs_typed st' \<and> (\<forall>m \<ge> n. apply_items (parse_knobs (parse_config files m)) line (st, e) items = Some (st', e'))"
proof (induction items arbitrary: st e line)
  case (Cons i items)
  show ?case
  proof (cases i)
    case (Setting name v)
    have "\<exists>st' ok. knobs_typed st' \<and> (\<forall>m \<ge> n. parse_knobs (parse_config files m) st [] name v = Some (st', ok))"
    proof (cases "name = ''config''")
      case True
      then have c: "length v < MAX_LEN" "config_ok cfg n v" using Cons.prems(1) by (simp_all add: Setting)
      from load [OF this(2) Cons.prems(2)] obtain st'
        where "knobs_typed st'" "\<forall>m \<ge> n. parse_config files m v st = Some st'" by blast
      then show ?thesis using True c(1) by (auto simp: parse_knobs_def)
    next
      case False
      then have "value_ok name v" using Cons.prems(1) by (simp add: Setting)
      from known_runs [OF Cons.prems(2) this] show ?thesis using False by (auto simp: parse_knobs_def)
    qed
    then obtain st1 ok where st1: "knobs_typed st1"
      "\<forall>m \<ge> n. parse_knobs (parse_config files m) st [] name v = Some (st1, ok)" by blast
    have rest: "list_all (\<lambda>i. item_ok i \<and> (case i of
       Setting name v \<Rightarrow> if name = ''config'' then length v < MAX_LEN \<and> config_ok cfg n v else value_ok name v
     | _ \<Rightarrow> True)) items" using Cons.prems(1) by simp
    from Cons.IH [OF rest st1(1), of "line + 1" "if ok \<or> e \<noteq> 0 then e else line"] show ?thesis
      using st1(2) by (auto simp: Setting)
  next
    case (Remark t)
    then show ?thesis using Cons by simp
  next
    case Blank
    then show ?thesis using Cons by simp
  qed
qed auto

lemma config_runs:
  "config_ok cfg n f \<Longrightarrow> knobs_typed st \<Longrightarrow>
     \<exists>st'. knobs_typed st' \<and> (\<forall>m \<ge> n. parse_config (printed cfg) m f st = Some st')"
proof (induction n arbitrary: f st)
  case (Suc n)
  from Suc.prems(1) obtain items where i: "cfg f = Some items" "list_all (\<lambda>i. item_ok i \<and> (case i of
       Setting name v \<Rightarrow> if name = ''config'' then length v < MAX_LEN \<and> config_ok cfg n v else value_ok name v
     | _ \<Rightarrow> True)) items" by (auto split: option.splits)
  then have ok: "\<forall>i \<in> set items. item_ok i" by (simp add: list_all_iff)
  from items_run [OF Suc.IH i(2) Suc.prems(2), of 1 0] obtain st' e'
    where r: "knobs_typed st'" "\<forall>m \<ge> n. apply_items (parse_knobs (parse_config (printed cfg) m)) 1 (st, 0) items = Some (st', e')"
    by blast
  have "parse_config (printed cfg) m f st = Some st'" if "Suc n \<le> m" for m
  proof -
    obtain k where k: "m = Suc k" "n \<le> k" using \<open>Suc n \<le> m\<close> by (cases m) auto
    then show ?thesis using r(2) by (simp add: ini_parse_items [where cfg = cfg and f = f, OF i(1) ok])
  qed
  then show ?case using r(1) by blast
qed simp

text \<open>
  C32. Reading a configuration ends: when the files a configuration file includes nest less than
  \<open>n\<close> deep, exist and hold acceptable values, \<open>parse_config\<close> returns, the depth allowed does not matter from \<open>n\<close>
  on, and every knob still holds a value of its declared type.
\<close>

theorem parse_config_ends:
  assumes "config_ok cfg n f" "knobs_typed st"
  shows "\<exists>st'. knobs_typed st' \<and> (\<forall>m \<ge> n. parse_config (printed cfg) m f st = Some st')"
  using assms by (rule config_runs)

definition demo_configs :: "string \<Rightarrow> ini_item list option" where
  "demo_configs f = (if f = ''main'' then Some [Remark ''nested'', Setting ''config'' ''sub'', Setting ''measure_ipc'' ''true'']
     else if f = ''sub'' then Some [Setting ''warmup_instructions'' ''7'', Blank, Setting ''l2c_prefetcher_types'' ''bop'']
     else None)"

theorem parse_config_ends_witness:
  "\<exists>st'. knobs_typed st' \<and> parse_config (printed demo_configs) 2 ''main'' initial_knobs = Some st'"
proof -
  have d: "map_of knob_defaults ''warmup_instructions'' = Some (Uint64 1000000)"
    "map_of knob_defaults ''measure_ipc'' = Some (Bool False)"
    "map_of knob_defaults ''l2c_prefetcher_types'' = Some Strings"
    by (simp_all add: knob_defaults_def general_defaults_def)
  have t: "map_of knob_table ''warmup_instructions'' = Some [Assign ''warmup_instructions'' Atol]"
    "map_of knob_table ''measure_ipc'' = Some [Assign ''measure_ipc'' Is_true]"
    "map_of knob_table ''l2c_prefetcher_types'' = Some [Push_back ''l2c_prefetcher_types'']"
    by (simp_all add: knob_table_def general_settings_def)
  have "read_knob Atol ''7'' = Some (RInt 7)" "read_knob Is_true ''true'' = Some (RBool True)" by code_simp+
  then have "value_ok ''warmup_instructions'' ''7''" "value_ok ''measure_ipc'' ''true''" "value_ok ''l2c_prefetcher_types'' ''bop''"
    by (simp_all add: value_ok_def parse_known_def t initial_knobs_def d assign_knob_def)
  moreover have "item_ok (Setting ''warmup_instructions'' ''7'')" "item_ok (Setting ''l2c_prefetcher_types'' ''bop'')"
    "item_ok (Setting ''measure_ipc'' ''true'')" "item_ok (Setting ''config'' ''sub'')" "item_ok (Remark ''nested'')"
    "length ''sub'' < MAX_LEN" by code_simp+
  ultimately have "config_ok demo_configs (Suc (Suc 0)) ''main''"
    by (simp add: demo_configs_def del: item_ok.simps(1,2))
  from parse_config_ends [OF this initial_knobs_typed] show ?thesis by (auto simp: numeral_2_eq_2)
qed

text \<open>A file that includes itself before anything else is read again without end.\<close>

lemma self_inclusion_never_ends:
  assumes "cfg f = Some (Setting ''config'' f # items)" "\<forall>i \<in> set (Setting ''config'' f # items). item_ok i"
  shows "parse_config (printed cfg) n f st = None"
proof (induction n)
  case (Suc n)
  then show ?case by (auto simp: ini_parse_items [where cfg = cfg and f = f, OF assms] parse_knobs_def split: Option.bind_split)
qed simp

section \<open>The command line\<close>

lemma ini_line_invariant:
  assumes h: "\<And>u sec n v u' ok. P u \<Longrightarrow> h u sec n v = Some (u', ok) \<Longrightarrow> P u'"
    and s: "P (ini_user s)" "ini_line h buffer s = Some s'"
  shows "P (ini_user s')"
proof -
  have c: "call_handler h n v t = Some t' \<Longrightarrow> P (ini_user t) \<longrightarrow> P (ini_user t')" for n v t t'
    using h by (auto simp: call_handler_def note_error_def arr_simps Let_def split: if_splits)
  show ?thesis
    using s unfolding ini_line_def Let_def
    by (auto simp: note_error_def split: if_splits prod.splits dest!: c)
qed

lemma ini_lines_invariant:
  assumes h: "\<And>u sec n v u' ok. P u \<Longrightarrow> h u sec n v = Some (u', ok) \<Longrightarrow> P u'"
  shows "P (ini_user s) \<Longrightarrow> ini_lines h left s = Some s' \<Longrightarrow> P (ini_user s')"
proof (induction "length left" arbitrary: left s rule: less_induct)
  case less
  show ?case
  proof (cases "ini_reader_string INI_MAX_LINE left")
    case None
    then show ?thesis using less.prems by (subst (asm) ini_lines.simps) simp
  next
    case (Some p)
    then have p: "left \<noteq> []" "p = read_chars 1999 left"
      by (auto simp: ini_reader_string_def INI_MAX_LINE_def split: if_splits)
    obtain s1 where s1: "ini_line h (fst p) s = Some s1" "ini_lines h (snd p) s1 = Some s'"
      using less.prems(2) Some by (subst (asm) ini_lines.simps) (auto simp: arr_simps split: prod.splits)
    have "length (snd p) < length left" using p read_chars_less [of left 1999] by simp
    moreover have "P (ini_user s1)" by (rule ini_line_invariant [where P = P and h = h and s = s, OF _ less.prems(1) s1(1)]) (erule (1) h)
    ultimately show ?thesis using less.hyps s1(2) by blast
  qed
qed

lemma parse_knobs_typed:
  assumes load: "\<And>f st st'. knobs_typed st \<Longrightarrow> load f st = Some st' \<Longrightarrow> knobs_typed st'"
    and st: "knobs_typed st" "parse_knobs load st sec n v = Some (st', ok)"
  shows "knobs_typed st'"
  using st load parse_known_typed [OF st(1)]
  by (auto simp: parse_knobs_def arr_simps split: if_splits)

lemma parse_config_typed: "knobs_typed st \<Longrightarrow> parse_config files n f st = Some st' \<Longrightarrow> knobs_typed st'"
proof (induction n arbitrary: f st st')
  case (Suc n)
  let ?h = "parse_knobs (parse_config files n)"
  have h: "knobs_typed u \<Longrightarrow> ?h u sec k v = Some (u', ok) \<Longrightarrow> knobs_typed u'" for u sec k v u' ok
    using parse_knobs_typed [of "parse_config files n"] Suc.IH by blast
  obtain content s where "files f = Some content" "ini_lines ?h content (ini_start st) = Some s" "st' = ini_user s"
    using Suc.prems(2) by (auto simp: arr_simps ini_parse_def ini_parse_stream_def split: option.splits)
  then show ?case
    using ini_lines_invariant [of knobs_typed ?h "ini_start st" content s, OF h] Suc.prems(1) by (simp add: ini_start_def)
qed simp

lemma handler_typed:
  "knobs_typed u \<Longrightarrow> handler (parse_config files n) u sec k v = Some (u', ok) \<Longrightarrow> knobs_typed u'"
proof -
  assume u: "knobs_typed u" "handler (parse_config files n) u sec k v = Some (u', ok)"
  show "knobs_typed u'"
  proof (cases "sec = [] \<and> k = ''config''")
    case True
    then have "parse_config files n v u = Some u'"
      using u(2) unfolding handler_def arr_simps by (simp add: arr_simps)
    from parse_config_typed [OF u(1) this] show ?thesis .
  next
    case False
    then obtain ok' where *: "parse_knobs (parse_config files n) u sec k v = Some (u', ok')"
      using u(2) unfolding handler_def if_not_P [OF False] arr_simps by auto
    show ?thesis by (rule parse_knobs_typed [OF _ u(1) *]) (erule (1) parse_config_typed)
  qed
qed

lemma parse_arg_typed: "knobs_typed st \<Longrightarrow> parse_arg files n st arg = Some st' \<Longrightarrow> knobs_typed st'"
proof -
  let ?h = "handler (parse_config files n)"
  assume st: "knobs_typed st" and "parse_arg files n st arg = Some st'"
  then obtain content s where s: "ini_lines ?h content (ini_start st) = Some s" "st' = ini_user s"
    unfolding parse_arg_def ini_parse_string_def ini_parse_stream_def Let_def
    by (cases "ini_lines ?h (c_str (if take 2 arg = ''--'' then drop 2 arg else arg)) (ini_start st)") auto
  have "knobs_typed (ini_user (ini_start st))" using st by (simp add: ini_start_def)
  then show "knobs_typed st'"
    unfolding s(2) by (rule ini_lines_invariant [where P = knobs_typed, OF _ _ s(1), rotated]) (erule (1) handler_typed)
qed

text \<open>
  The configuration is well typed whatever the command line and the files hold: when \<open>parse_args\<close>
  returns, every declared knob has a value of its declared type in range, and there is no other
  knob.
\<close>

lemma parse_args_typed:
  assumes "parse_args files n argv initial_knobs = Some st"
  shows "knobs_typed st"
  by (rule fold_opt_invariant [where P = knobs_typed, OF initial_knobs_typed _ assms [unfolded parse_args_def]])
    (erule (1) parse_arg_typed)

lemma parse_args_example:
  "\<exists>st. parse_args (\<lambda>_. None) 1 [''bin/sim'', ''--measure_ipc=true''] initial_knobs = Some st \<and> knobs_typed st"
proof -
  have t: "map_of knob_table ''measure_ipc'' = Some [Assign ''measure_ipc'' Is_true]"
    by (simp add: knob_table_def general_settings_def)
  have d: "initial_knobs ''measure_ipc'' = Some (VBool False)"
    by (simp add: initial_knobs_def knob_defaults_def general_defaults_def)
  have "read_knob Is_true ''true'' = Some (RBool True)" by code_simp
  then have k: "parse_known [] ''measure_ipc'' ''true'' initial_knobs = Some (initial_knobs(''measure_ipc'' \<mapsto> VBool True), True)"
    by (simp add: parse_known_def t assign_knob_def d)
  let ?h = "handler (parse_config (\<lambda>_. None) 1)"
  have l: "ini_reader_string INI_MAX_LINE ''bin/sim'' = Some (''bin/sim'', [])"
    "ini_reader_string INI_MAX_LINE ''measure_ipc=true'' = Some (''measure_ipc=true'', [])"
    "c_str ''bin/sim'' = ''bin/sim''" "c_str ''measure_ipc=true'' = ''measure_ipc=true''"
    "rstrip ''bin/sim'' = ''bin/sim''" "rstrip ''measure_ipc=true'' = ''measure_ipc=true''"
    "lskip ''bin/sim'' = ''bin/sim''" "lskip ''measure_ipc=true'' = ''measure_ipc=true''"
    "find_chars_or_comment ''=:'' False ''bin/sim'' = (''bin/sim'', [])"
    "find_chars_or_comment ''=:'' False ''measure_ipc=true'' = (''measure_ipc'', ''=true'')"
    "rstrip ''measure_ipc'' = ''measure_ipc''" "rstrip (lskip (fst (find_chars_or_comment [] False ''true''))) = ''true''"
    "rstrip (lskip ''true'') = ''true''"
    "isspace CHR ''b'' = False" "isspace CHR ''m'' = False" by code_simp+
  have "parse_arg (\<lambda>_. None) 1 initial_knobs ''bin/sim'' = Some initial_knobs"
    by (simp add: parse_arg_def ini_parse_string_def ini_parse_stream_def ini_lines.simps [of _ "''bin/sim''"] l ini_line_def
      ini_start_def note_error_def ini_lines_Nil)
  moreover have "parse_arg (\<lambda>_. None) 1 initial_knobs ''--measure_ipc=true'' = Some (initial_knobs(''measure_ipc'' \<mapsto> VBool True))"
    by (simp add: parse_arg_def ini_parse_string_def ini_parse_stream_def ini_lines.simps [of _ "''measure_ipc=true''"] l ini_line_def
      ini_start_def ini_lines_Nil call_handler_def handler_def parse_knobs_def k Let_def)
  ultimately have "parse_args (\<lambda>_. None) 1 [''bin/sim'', ''--measure_ipc=true''] initial_knobs =
    Some (initial_knobs(''measure_ipc'' \<mapsto> VBool True))" by (simp add: parse_args_def)
  with parse_args_typed [OF this] show ?thesis by blast
qed

end
