(* ===== verification/Prefetch_Base.thy ===== *)
theory Prefetch_Base
  imports NV_Prelude
begin

text \<open>
  What the prefetchers of \<open>prefetcher/\<close> share: the page and the offset of an address, the address
  of a line of a page, the prefetch buffer some of them drain slowly, and their interface.

  The interface \<open>Prefetcher\<close> of \<open>inc/prefetcher.h\<close> is the locale \<open>page_prefetcher\<close>: an event (a
  demand access with whatever random draw it uses) changes the state and returns the addresses
  to prefetch; the contract is that no admissible event fails and that every address lies in the page
  of the access.  \<open>run_prefetcher\<close> feeds a sequence of events to a prefetcher.

  A deque of pointers is the list of the records they point to, front first; no two elements
  are the same object.
\<close>

unbundle bit_operations_syntax

section \<open>Pages and lines\<close>

definition pf_page :: "u64 \<Rightarrow> u64" where
  "pf_page address = drop_bit LOG2_PAGE_SIZE address"

definition pf_offset :: "u64 \<Rightarrow> u32" where
  "pf_offset address = ucast (drop_bit LOG2_BLOCK_SIZE address AND
     (push_bit (LOG2_PAGE_SIZE - LOG2_BLOCK_SIZE) 1 - 1))"

text \<open>\<open>(page << LOG2_PAGE_SIZE) + (offset << LOG2_BLOCK_SIZE)\<close> for an \<open>int\<close> offset from 0 to 63.\<close>

definition pf_line :: "u64 \<Rightarrow> int \<Rightarrow> u64" where
  "pf_line page off = push_bit LOG2_PAGE_SIZE page + of_int (off * 2 ^ LOG2_BLOCK_SIZE)"

text \<open>A 32-bit unsigned value stored into an \<open>int32_t\<close>.\<close>

definition int32 :: "u32 \<Rightarrow> int" where
  "int32 w = sint w"

lemma pf_offset_eq: "pf_offset address = ucast (take_bit 6 (drop_bit 6 address))"
proof -
  have "(push_bit 6 1 - 1 :: u64) = mask 6" by (simp add: mask_eq_exp_minus_1 push_bit_eq_mult)
  then show ?thesis by (simp add: pf_offset_def champsim_consts take_bit_eq_mask)
qed

lemma pf_offset_nat: "unat (pf_offset address) = unat address div 64 mod 64"
proof -
  have "unat (take_bit 6 (drop_bit 6 address)) = unat address div 64 mod 64"
    by (simp add: take_bit_eq_mod drop_bit_eq_div unat_div unat_mod)
  then show ?thesis by (simp add: pf_offset_eq unsigned_ucast_eq take_bit_nat_eq_self)
qed

lemma pf_offset_less: "unat (pf_offset address) < 64"
  by (simp add: pf_offset_nat)

lemma pf_page_nat: "unat (pf_page address) = unat address div 4096"
  by (simp add: pf_page_def champsim_consts drop_bit_eq_div unat_div)

lemma pf_line_nat:
  assumes "0 \<le> off"
  shows "unat (pf_line page off) = (unat page * 4096 + nat off * 64) mod 2 ^ 64"
proof -
  have "pf_line page off = of_nat (unat page * 4096 + nat off * 64)"
    using assms by (simp add: pf_line_def champsim_consts push_bit_eq_mult mult.commute)
  then show ?thesis by (simp only: unat_of_nat) simp
qed

lemma pf_line_page:
  assumes "0 \<le> off" "off < 64"
  shows "pf_page (pf_line (pf_page address) off) = pf_page address"
proof -
  have "unat address div 4096 < 2 ^ 52"
    using unsigned_less [of address, where ?'a = nat] by (simp add: less_mult_imp_div_less)
  moreover have "nat off < 64" using assms by simp
  ultimately have "unat (pf_page address) * 4096 + nat off * 64 < 2 ^ 64"
    unfolding pf_page_nat by simp
  then have "unat (pf_page (pf_line (pf_page address) off)) = unat (pf_page address)"
    using assms by (simp add: pf_page_nat [of "pf_line _ _"] pf_line_nat)
  then show ?thesis by (simp add: word_eq_iff_unsigned [where ?'a = nat])
qed

lemma pf_line_offset:
  assumes "0 \<le> off" "off < 64"
  shows "int (unat (pf_offset (pf_line page off))) = off"
proof -
  let ?n = "unat page * 4096 + nat off * 64"
  have "?n mod 2 ^ 64 div 64 mod 64 = ?n div 64 mod 64"
    using mod_mult2_eq [of ?n 64 "2 ^ 58"] mod_mod_cancel [of 64 "2 ^ 58" "?n div 64"] by simp
  then show ?thesis using assms by (simp add: pf_offset_nat pf_line_nat)
qed

section \<open>Deques\<close>

text \<open>\<open>std::find_if\<close> as a position, and \<open>erase\<close> at a position.\<close>

fun find_pos :: "('a \<Rightarrow> bool) \<Rightarrow> 'a list \<Rightarrow> nat option" where
  "find_pos P [] = None"
| "find_pos P (x # xs) = (if P x then Some 0 else map_option Suc (find_pos P xs))"

definition erase_at :: "nat \<Rightarrow> 'a list \<Rightarrow> 'a list" where
  "erase_at i xs = take i xs @ drop (Suc i) xs"

lemma find_pos_Some:
  "find_pos P xs = Some i \<Longrightarrow> i < length xs \<and> P (xs ! i) \<and> (\<forall>j < i. \<not> P (xs ! j))"
proof (induction xs arbitrary: i)
  case (Cons x xs)
  show ?case
  proof (cases "P x")
    case True
    then show ?thesis using Cons.prems by auto
  next
    case False
    then obtain j where j: "find_pos P xs = Some j" "i = Suc j" using Cons.prems by auto
    have "\<not> P ((x # xs) ! k)" if "k < i" for k
      using that False Cons.IH [OF j(1)] j(2) by (cases k) auto
    then show ?thesis using Cons.IH [OF j(1)] j(2) by auto
  qed
qed simp

lemma find_pos_None: "find_pos P xs = None \<longleftrightarrow> (\<forall>x \<in> set xs. \<not> P x)"
  by (induction xs) auto

lemma length_erase_at [simp]: "i < length xs \<Longrightarrow> length (erase_at i xs) = length xs - 1"
  by (simp add: erase_at_def)

lemma set_erase_at: "set (erase_at i xs) \<subseteq> set xs"
  by (auto simp: erase_at_def dest: in_set_takeD in_set_dropD)

lemma map_erase_at: "map f (erase_at i xs) = erase_at i (map f xs)"
  by (simp add: erase_at_def take_map drop_map)

lemma erase_at_distinct: "distinct xs \<Longrightarrow> distinct (erase_at i xs)"
  by (simp add: erase_at_def set_take_disj_set_drop_if_distinct)

lemma set_erase_at_distinct:
  assumes "distinct xs" "i < length xs"
  shows "set (erase_at i xs) = set xs - {xs ! i}"
proof -
  have x: "xs = take i xs @ xs ! i # drop (Suc i) xs" using assms(2) by (simp add: id_take_nth_drop)
  then have "distinct (take i xs @ xs ! i # drop (Suc i) xs)" using assms(1) by simp
  then have "xs ! i \<notin> set (erase_at i xs)" by (simp add: erase_at_def)
  moreover have "set xs = insert (xs ! i) (set (erase_at i xs))"
    using arg_cong [OF x, of set] by (simp add: erase_at_def)
  ultimately show ?thesis by auto
qed

section \<open>The prefetch buffer\<close>

text \<open>\<open>buffer_prefetch\<close> of BOP and SMS: addresses are appended while there is room; the result
  counts them.  \<open>issue_prefetch\<close>: at most \<open>degree\<close> addresses leave the front of the buffer.\<close>

fun buffer_loop :: "nat \<Rightarrow> u64 list \<Rightarrow> u64 list \<Rightarrow> u64 \<Rightarrow> u64 list \<times> u64" where
  "buffer_loop sz [] buf count = (buf, count)"
| "buffer_loop sz (a # as) buf count =
     (if sz \<le> length buf then (buf, count) else buffer_loop sz as (buf @ [a]) (count + 1))"

fun issue_loop :: "nat \<Rightarrow> u64 list \<Rightarrow> u64 list \<Rightarrow> u64 list \<times> u64 list" where
  "issue_loop (Suc n) (a # buf) out = issue_loop n buf (out @ [a])"
| "issue_loop 0 buf out = (buf, out)"
| "issue_loop (Suc n) [] out = ([], out)"

lemma buffer_loop_eq: "fst (buffer_loop sz as buf count) = buf @ take (sz - length buf) as"
proof (induction sz as buf count rule: buffer_loop.induct)
  case (2 sz a as buf count)
  show ?case
  proof (cases "sz \<le> length buf")
    case False
    then have "sz - length buf = Suc (sz - length (buf @ [a]))" by simp
    then show ?thesis using 2 False by simp
  qed simp
qed simp

lemma issue_loop_eq: "issue_loop n buf out = (drop n buf, out @ take n buf)"
  by (induction n buf out rule: issue_loop.induct) simp_all

section \<open>The interface\<close>

fun run_prefetcher :: "('s \<Rightarrow> 'e \<Rightarrow> ('s \<times> u64 list) option) \<Rightarrow> 's \<Rightarrow> 'e list \<Rightarrow> ('s \<times> ('e \<times> u64 list) list) option" where
  "run_prefetcher invoke s [] = Some (s, [])"
| "run_prefetcher invoke s (e # es) = do {
     (s', out) \<leftarrow> invoke s e;
     (s'', log) \<leftarrow> run_prefetcher invoke s' es;
     Some (s'', (e, out) # log) }"

text \<open>At most \<open>degree\<close> addresses, all in the page of the access.\<close>

definition in_page :: "nat \<Rightarrow> u64 \<Rightarrow> u64 list \<Rightarrow> bool" where
  "in_page degree address out \<longleftrightarrow> length out \<le> degree \<and> (\<forall>x \<in> set out. pf_page x = pf_page address)"

locale page_prefetcher =
  fixes invoke :: "'s \<Rightarrow> 'e \<Rightarrow> ('s \<times> u64 list) option"
    and address :: "'e \<Rightarrow> u64"
    and degree :: nat
    and ok :: "'e \<Rightarrow> bool"
    and inv :: "'s \<Rightarrow> bool"
  assumes step: "inv s \<Longrightarrow> ok e \<Longrightarrow> \<exists>s' out. invoke s e = Some (s', out) \<and> inv s' \<and> in_page degree (address e) out"
begin

lemma run_ok:
  "inv s \<Longrightarrow> \<forall>e \<in> set es. ok e \<Longrightarrow> \<exists>s' log. run_prefetcher invoke s es = Some (s', log) \<and> inv s' \<and> map fst log = es \<and>
     (\<forall>(e, out) \<in> set log. in_page degree (address e) out)"
proof (induction es arbitrary: s)
  case (Cons e es)
  from step [OF Cons.prems(1), of e] Cons.prems(2) obtain s' out
    where s': "invoke s e = Some (s', out)" "inv s'" "in_page degree (address e) out" by auto
  from Cons.IH [OF s'(2)] Cons.prems(2) obtain s'' log
    where "run_prefetcher invoke s' es = Some (s'', log)" "inv s''" "map fst log = es"
      "\<forall>(e, out) \<in> set log. in_page degree (address e) out" by auto
  with s' show ?case by auto
qed simp

end

text \<open>A loop that emits the lines at successive offsets as long as they stay in the page.\<close>

lemma in_page_lines:
  assumes "length offs \<le> degree" "\<forall>off \<in> set offs. 0 \<le> off \<and> off < 64"
  shows "in_page degree address (map (pf_line (pf_page address)) offs)"
  using assms by (auto simp: in_page_def pf_line_page)

end
