(* ===== verification/Prefetch_Streams.thy ===== *)
theory Prefetch_Streams
  imports Prefetch_Base
begin

text \<open>
  The streamer (\<open>prefetcher/streamer.cc\<close>) and the stride prefetcher (\<open>prefetcher/stride.cc\<close>) with
  their statistics.  Both keep a bounded deque of trackers ordered by use: the streamer finds
  the direction in which the lines of a page are touched, the other the stride between the
  lines an instruction touches.  The parameters \<open>cache_hit\<close> and \<open>type\<close> are not read.
\<close>

unbundle bit_operations_syntax

section \<open>The streamer\<close>

record stream_tracker =
  st_page :: u64
  st_last_offset :: u32
  st_last_dir :: int
  st_conf :: u8

record streamer_stats =
  ss_called :: u64
  ss_missed :: u64
  ss_evict :: u64
  ss_insert :: u64
  ss_hit :: u64
  ss_same_offset :: u64
  ss_dir_match :: u64
  ss_dir_mismatch :: u64
  ss_pred_dir_match :: u64
  ss_pred_total :: u64

record streamer =
  sr_trackers :: "stream_tracker list"
  sr_stats :: streamer_stats

record streamer_knobs =
  streamer_num_trackers :: u32
  streamer_pref_degree :: u32

definition new_stream_tracker :: "u64 \<Rightarrow> u32 \<Rightarrow> stream_tracker" where
  "new_stream_tracker page last_offset =
     \<lparr>st_page = page, st_last_offset = last_offset, st_last_dir = 0, st_conf = 0\<rparr>"

definition new_streamer :: streamer where
  "new_streamer = \<lparr>sr_trackers = [], sr_stats = \<lparr>ss_called = 0, ss_missed = 0, ss_evict = 0,
     ss_insert = 0, ss_hit = 0, ss_same_offset = 0, ss_dir_match = 0, ss_dir_mismatch = 0,
     ss_pred_dir_match = 0, ss_pred_total = 0\<rparr>\<rparr>"

text \<open>The loop that generates prefetches, \<open>n\<close> rounds left.\<close>

fun stream_loop :: "int \<Rightarrow> u64 \<Rightarrow> nat \<Rightarrow> int \<Rightarrow> u64 list \<Rightarrow> u64 list" where
  "stream_loop dir page 0 off acc = acc"
| "stream_loop dir page (Suc n) off acc =
     (let off' = (if dir = 1 then off + 1 else off - 1) in
      if 0 \<le> off' \<and> off' < 64 then stream_loop dir page n off' (acc @ [pf_line page off']) else acc)"

text \<open>A page without a tracker: the oldest makes room when the table is full.\<close>

definition streamer_insert :: "streamer_knobs \<Rightarrow> u64 \<Rightarrow> u32 \<Rightarrow> streamer \<Rightarrow> streamer option" where
  "streamer_insert k page offset s = do {
     let st = (sr_stats s)\<lparr>ss_missed := ss_missed (sr_stats s) + 1\<rparr>;
     (ts, st1) \<leftarrow> (if unat (streamer_num_trackers k) \<le> length (sr_trackers s)
       then (case sr_trackers s of [] \<Rightarrow> None | _ # ts \<Rightarrow> Some (ts, st\<lparr>ss_evict := ss_evict st + 1\<rparr>))
       else Some (sr_trackers s, st));
     Some (s\<lparr>sr_trackers := ts @ [new_stream_tracker page offset],
             sr_stats := st1\<lparr>ss_insert := ss_insert st1 + 1\<rparr>\<rparr>) }"

definition streamer_invoke ::
  "streamer_knobs \<Rightarrow> streamer \<Rightarrow> u64 \<Rightarrow> u64 list \<Rightarrow> (streamer \<times> u64 list) option" where
  "streamer_invoke k s address pref_addr = do {
     let page = pf_page address;
     let offset = pf_offset address;
     let s0 = s\<lparr>sr_stats := (sr_stats s)\<lparr>ss_called := ss_called (sr_stats s) + 1\<rparr>\<rparr>;
     (case find_pos (\<lambda>t. st_page t = page) (sr_trackers s0) of
       None \<Rightarrow> do { s1 \<leftarrow> streamer_insert k page offset s0; Some (s1, pref_addr) }
     | Some it \<Rightarrow> do {
         let tracker = sr_trackers s0 ! it;
         assert_that (st_page tracker = page);
         let st = (sr_stats s0)\<lparr>ss_hit := ss_hit (sr_stats s0) + 1\<rparr>;
         if offset = st_last_offset tracker
         then Some (s0\<lparr>sr_stats := st\<lparr>ss_same_offset := ss_same_offset st + 1\<rparr>\<rparr>, pref_addr)
         else do {
           let dir = (if st_last_offset tracker < offset then 1 else - 1);
           let dir_match = (dir = st_last_dir tracker);
           let conf = (if dir_match then 1 else 0);
           let st1 = (if dir_match then st\<lparr>ss_dir_match := ss_dir_match st + 1\<rparr>
                      else st\<lparr>ss_dir_mismatch := ss_dir_mismatch st + 1\<rparr>);
           let tracker' = tracker\<lparr>st_page := page, st_last_offset := offset, st_last_dir := dir, st_conf := conf\<rparr>;
           let s1 = s0\<lparr>sr_trackers := erase_at it (sr_trackers s0) @ [tracker']\<rparr>;
           let out = (if dir_match
             then stream_loop dir page (unat (streamer_pref_degree k)) (int (unat offset)) pref_addr
             else pref_addr);
           let st2 = (if dir_match then st1\<lparr>ss_pred_dir_match := ss_pred_dir_match st1 + 1\<rparr> else st1);
           Some (s1\<lparr>sr_stats := st2\<lparr>ss_pred_total := ss_pred_total st2 + of_nat (length out)\<rparr>\<rparr>, out) } }) }"

section \<open>The stride prefetcher\<close>

record tracker =
  tr_pc :: u64
  tr_last_cl_addr :: u64
  tr_last_stride :: int

record stride_stats =
  sd_lookup :: u64
  sd_evict :: u64
  sd_insert :: u64
  sd_hit :: u64
  sd_pos :: u64
  sd_neg :: u64
  sd_zero :: u64
  sd_stride_match :: u64
  sd_generated :: u64

record stride_prefetcher =
  sp_trackers :: "tracker list"
  sp_stats :: stride_stats

record stride_knobs =
  stride_num_trackers :: u32
  stride_pref_degree :: u32

text \<open>\<open>generate_prefetch\<close>, from degree \<open>deg\<close> on with \<open>n\<close> rounds left; it counts what it emits.
  The offset is computed in 32-bit unsigned arithmetic and then read as signed.\<close>

fun stride_loop :: "u64 \<Rightarrow> u32 \<Rightarrow> int \<Rightarrow> nat \<Rightarrow> u32 \<Rightarrow> u64 list \<Rightarrow> u32 \<Rightarrow> u64 list \<times> u32" where
  "stride_loop page offset stride 0 deg acc count = (acc, count)"
| "stride_loop page offset stride (Suc n) deg acc count =
     (let pref_offset = int32 (offset + of_int stride * deg) in
      if 0 \<le> pref_offset \<and> pref_offset < 64
      then stride_loop page offset stride n (deg + 1) (acc @ [pf_line page pref_offset]) (count + 1)
      else (acc, count))"

definition stride_generate :: "stride_knobs \<Rightarrow> u64 \<Rightarrow> int \<Rightarrow> u64 list \<Rightarrow> (u64 list \<times> u32) option" where
  "stride_generate k address stride pref_addr = do {
     let r = stride_loop (pf_page address) (pf_offset address) stride (unat (stride_pref_degree k)) 0 pref_addr 0;
     assert_that (snd r \<le> stride_pref_degree k);
     Some r }"

text \<open>The stride between two lines: their distance cut to 32 bits, negated when the second is
  below the first (negating the least \<open>int32_t\<close> overflows).\<close>

definition stride_between :: "u64 \<Rightarrow> u64 \<Rightarrow> int option" where
  "stride_between prev cl =
     (if prev < cl then Some (int32 (ucast (cl - prev)))
      else if cl < prev
      then do {
        let d = int32 (ucast (prev - cl));
        assert_that (d \<noteq> - (2 ^ 31));
        Some (- d) }
      else Some 0)"

definition stride_insert :: "stride_knobs \<Rightarrow> u64 \<Rightarrow> u64 \<Rightarrow> stride_prefetcher \<Rightarrow> stride_prefetcher option" where
  "stride_insert k pc cl s = do {
     let st = sp_stats s;
     (ts, st1) \<leftarrow> (if unat (stride_num_trackers k) \<le> length (sp_trackers s)
       then (if sp_trackers s = [] then None
             else Some (butlast (sp_trackers s), st\<lparr>sd_evict := sd_evict st + 1\<rparr>))
       else Some (sp_trackers s, st));
     Some (s\<lparr>sp_trackers := \<lparr>tr_pc = pc, tr_last_cl_addr = cl, tr_last_stride = 0\<rparr> # ts,
             sp_stats := st1\<lparr>sd_insert := sd_insert st1 + 1\<rparr>\<rparr>) }"

definition stride_invoke ::
  "stride_knobs \<Rightarrow> stride_prefetcher \<Rightarrow> u64 \<Rightarrow> u64 \<Rightarrow> u64 list \<Rightarrow> (stride_prefetcher \<times> u64 list) option" where
  "stride_invoke k s pc address pref_addr = do {
     let cl = drop_bit LOG2_BLOCK_SIZE address;
     let s0 = s\<lparr>sp_stats := (sp_stats s)\<lparr>sd_lookup := sd_lookup (sp_stats s) + 1\<rparr>\<rparr>;
     (case find_pos (\<lambda>t. tr_pc t = pc) (sp_trackers s0) of
       None \<Rightarrow> do { s1 \<leftarrow> stride_insert k pc cl s0; Some (s1, pref_addr) }
     | Some it \<Rightarrow> do {
         let t = sp_trackers s0 ! it;
         let st = (sp_stats s0)\<lparr>sd_hit := sd_hit (sp_stats s0) + 1\<rparr>;
         stride \<leftarrow> stride_between (tr_last_cl_addr t) cl;
         let st1 = (if tr_last_cl_addr t < cl then st\<lparr>sd_pos := sd_pos st + 1\<rparr>
                    else if cl < tr_last_cl_addr t then st\<lparr>sd_neg := sd_neg st + 1\<rparr> else st);
         if stride = 0
         then Some (s0\<lparr>sp_stats := st1\<lparr>sd_zero := sd_zero st1 + 1\<rparr>\<rparr>, pref_addr)
         else do {
           (out, st2) \<leftarrow> (if stride = tr_last_stride t
             then do {
               r \<leftarrow> stride_generate k address stride pref_addr;
               Some (fst r, st1\<lparr>sd_stride_match := sd_stride_match st1 + 1,
                                sd_generated := sd_generated st1 + ucast (snd r)\<rparr>) }
             else Some (pref_addr, st1));
           let t' = t\<lparr>tr_last_stride := stride, tr_last_cl_addr := cl\<rparr>;
           Some (s0\<lparr>sp_trackers := t' # erase_at it (sp_trackers s0), sp_stats := st2\<rparr>, out) } }) }"

section \<open>What the streamer emits\<close>

text \<open>The offsets from \<open>off\<close> in direction \<open>d\<close> that stay in the page.\<close>

definition stream_offsets :: "int \<Rightarrow> nat \<Rightarrow> int \<Rightarrow> int list" where
  "stream_offsets d n off = takeWhile (\<lambda>x. 0 \<le> x \<and> x < 64) (map (\<lambda>i. off + d * int i) [1 ..< Suc n])"

lemma stream_offsets_Suc:
  "stream_offsets d (Suc n) off =
     (if 0 \<le> off + d \<and> off + d < 64 then (off + d) # stream_offsets d n (off + d) else [])"
proof -
  have "map (\<lambda>i. off + d * int i) [1 ..< Suc (Suc n)] = (off + d) # map (\<lambda>i. (off + d) + d * int i) [1 ..< Suc n]"
    by (simp add: upt_conv_Cons map_Suc_upt [symmetric] algebra_simps del: upt_Suc)
  then show ?thesis by (simp add: stream_offsets_def del: upt_Suc)
qed

lemma stream_loop_eq:
  "d = 1 \<or> d = - 1 \<Longrightarrow> stream_loop d page n off acc = acc @ map (pf_line page) (stream_offsets d n off)"
proof (induction n arbitrary: off acc)
  case 0
  then show ?case by (simp add: stream_offsets_def)
next
  case (Suc n)
  then show ?case by (auto simp: stream_offsets_Suc Let_def)
qed

lemma stream_offsets_ok: "length (stream_offsets d n off) \<le> n" "\<forall>x \<in> set (stream_offsets d n off). 0 \<le> x \<and> x < 64"
  using length_takeWhile_le [of "\<lambda>x. 0 \<le> x \<and> x < 64" "map (\<lambda>i. off + d * int i) [1 ..< Suc n]"]
  by (auto simp: stream_offsets_def dest: set_takeWhileD simp del: upt_Suc)

definition streamer_ok :: "streamer_knobs \<Rightarrow> streamer \<Rightarrow> bool" where
  "streamer_ok k s \<longleftrightarrow> streamer_num_trackers k \<noteq> 0 \<and>
     length (sr_trackers s) \<le> unat (streamer_num_trackers k) \<and> distinct (map st_page (sr_trackers s))"

lemma streamer_insert_ok:
  assumes ok: "streamer_ok k s" and new: "page \<notin> st_page ` set (sr_trackers s)"
  shows "\<exists>s'. streamer_insert k page offset s = Some s' \<and> streamer_ok k s' \<and>
    sr_trackers s' = (if unat (streamer_num_trackers k) \<le> length (sr_trackers s) then tl (sr_trackers s)
      else sr_trackers s) @ [new_stream_tracker page offset]"
proof (cases "unat (streamer_num_trackers k) \<le> length (sr_trackers s)")
  case True
  moreover have "0 < unat (streamer_num_trackers k)" using ok by (simp add: streamer_ok_def unat_gt_0)
  ultimately obtain t ts where ts: "sr_trackers s = t # ts" by (cases "sr_trackers s") auto
  show ?thesis
    using ok new True by (auto simp: streamer_insert_def streamer_ok_def ts new_stream_tracker_def Let_def)
next
  case False
  then show ?thesis
    using ok new by (auto simp: streamer_insert_def streamer_ok_def new_stream_tracker_def Let_def)
qed

text \<open>The direction of an access and what it makes of its tracker.\<close>

definition stream_dir :: "stream_tracker \<Rightarrow> u64 \<Rightarrow> int" where
  "stream_dir t address = (if st_last_offset t < pf_offset address then 1 else - 1)"

definition stream_moved :: "stream_tracker \<Rightarrow> u64 \<Rightarrow> stream_tracker" where
  "stream_moved t address = \<lparr>st_page = pf_page address, st_last_offset = pf_offset address,
     st_last_dir = stream_dir t address, st_conf = if stream_dir t address = st_last_dir t then 1 else 0\<rparr>"

lemma streamer_hit:
  assumes it: "find_pos (\<lambda>t. st_page t = pf_page address) (sr_trackers s) = Some i"
    and moved: "pf_offset address \<noteq> st_last_offset (sr_trackers s ! i)"
  shows "\<exists>s'. streamer_invoke k s address [] = Some (s',
      if stream_dir (sr_trackers s ! i) address = st_last_dir (sr_trackers s ! i)
      then map (pf_line (pf_page address)) (stream_offsets (stream_dir (sr_trackers s ! i) address)
             (unat (streamer_pref_degree k)) (int (unat (pf_offset address))))
      else []) \<and>
    sr_trackers s' = erase_at i (sr_trackers s) @ [stream_moved (sr_trackers s ! i) address]"
proof -
  let ?t = "sr_trackers s ! i" and ?d = "stream_dir (sr_trackers s ! i) address"
  have p: "st_page ?t = pf_page address" using find_pos_Some [OF it] by simp
  have d: "?d = 1 \<or> ?d = - 1" by (simp add: stream_dir_def)
  show ?thesis
    using moved p it unfolding streamer_invoke_def Let_def
    by (simp add: stream_moved_def flip: stream_dir_def) (use stream_loop_eq [OF d] in auto)
qed

lemma streamer_step:
  assumes ok: "streamer_ok k s"
  shows "\<exists>s' out. streamer_invoke k s address [] = Some (s', out) \<and> streamer_ok k s' \<and>
    in_page (unat (streamer_pref_degree k)) address out"
proof (cases "find_pos (\<lambda>t. st_page t = pf_page address) (sr_trackers s)")
  case None
  let ?s = "s\<lparr>sr_stats := (sr_stats s)\<lparr>ss_called := ss_called (sr_stats s) + 1\<rparr>\<rparr>"
  have "streamer_ok k ?s" "pf_page address \<notin> st_page ` set (sr_trackers ?s)"
    using ok None by (auto simp: streamer_ok_def find_pos_None)
  from streamer_insert_ok [OF this, of "pf_offset address"] None show ?thesis
    by (auto simp: streamer_invoke_def Let_def in_page_def)
next
  case (Some i)
  let ?t = "sr_trackers s ! i"
  have i: "i < length (sr_trackers s)" "st_page ?t = pf_page address" using find_pos_Some [OF Some] by auto
  show ?thesis
  proof (cases "pf_offset address = st_last_offset ?t")
    case True
    then show ?thesis
      using ok Some i by (auto simp: streamer_invoke_def Let_def in_page_def streamer_ok_def)
  next
    case False
    obtain s' where s': "streamer_invoke k s address [] = Some (s',
      if stream_dir ?t address = st_last_dir ?t
      then map (pf_line (pf_page address)) (stream_offsets (stream_dir ?t address)
             (unat (streamer_pref_degree k)) (int (unat (pf_offset address))))
      else [])" "sr_trackers s' = erase_at i (sr_trackers s) @ [stream_moved ?t address]"
      using streamer_hit [OF Some False] by blast
    have d: "distinct (map st_page (sr_trackers s))" using ok by (simp add: streamer_ok_def)
    have "set (map st_page (erase_at i (sr_trackers s))) = set (map st_page (sr_trackers s)) - {pf_page address}"
      using set_erase_at_distinct [OF d, of i] i by (simp add: map_erase_at)
    moreover have "Suc (length (sr_trackers s) - Suc 0) = length (sr_trackers s)" using i(1) by simp
    ultimately have "streamer_ok k s'"
      using ok i(1) erase_at_distinct [OF d, of i]
      by (simp add: streamer_ok_def s'(2) stream_moved_def map_erase_at [symmetric])
    then show ?thesis using s'(1) stream_offsets_ok by (auto simp: in_page_def pf_line_page)
  qed
qed

interpretation streamer: page_prefetcher "\<lambda>s e. streamer_invoke k s (snd e) []" snd
  "unat (streamer_pref_degree k)" "\<lambda>_ :: u64 \<times> u64. True" "streamer_ok k" for k
  by unfold_locales (rule streamer_step)

section \<open>What the stride prefetcher emits\<close>

definition stride_offsets :: "u32 \<Rightarrow> int \<Rightarrow> nat \<Rightarrow> u32 \<Rightarrow> int list" where
  "stride_offsets offset stride n deg = takeWhile (\<lambda>x. 0 \<le> x \<and> x < 64)
     (map (\<lambda>i. int32 (offset + of_int stride * (deg + of_nat i))) [0 ..< n])"

lemma stride_offsets_Suc:
  "stride_offsets offset stride (Suc n) deg =
     (let x = int32 (offset + of_int stride * deg) in
      if 0 \<le> x \<and> x < 64 then x # stride_offsets offset stride n (deg + 1) else [])"
proof -
  have "map (\<lambda>i. int32 (offset + of_int stride * (deg + of_nat i))) [0 ..< Suc n] =
      int32 (offset + of_int stride * deg) # map (\<lambda>i. int32 (offset + of_int stride * (deg + 1 + of_nat i))) [0 ..< n]"
    by (simp add: upt_conv_Cons map_Suc_upt [symmetric] algebra_simps del: upt_Suc)
  then show ?thesis by (simp add: stride_offsets_def Let_def del: upt_Suc)
qed

lemma stride_loop_eq:
  "stride_loop page offset stride n deg acc count =
     (acc @ map (pf_line page) (stride_offsets offset stride n deg),
      count + of_nat (length (stride_offsets offset stride n deg)))"
proof (induction n arbitrary: deg acc count)
  case 0
  then show ?case by (simp add: stride_offsets_def)
next
  case (Suc n)
  then show ?case by (simp add: stride_offsets_Suc Let_def)
qed

lemma stride_offsets_ok:
  "length (stride_offsets offset stride n deg) \<le> n" "\<forall>x \<in> set (stride_offsets offset stride n deg). 0 \<le> x \<and> x < 64"
  using length_takeWhile_le [of "\<lambda>x. 0 \<le> x \<and> x < 64" "map (\<lambda>i. int32 (offset + of_int stride * (deg + of_nat i))) [0 ..< n]"]
  by (auto simp: stride_offsets_def dest: set_takeWhileD)

lemma stride_generate_eq:
  "\<exists>count. stride_generate k address stride acc =
     Some (acc @ map (pf_line (pf_page address)) (stride_offsets (pf_offset address) stride (unat (stride_pref_degree k)) 0), count)"
proof -
  let ?l = "length (stride_offsets (pf_offset address) stride (unat (stride_pref_degree k)) 0)"
  have "?l \<le> unat (stride_pref_degree k)" by (rule stride_offsets_ok)
  then have "(of_nat ?l :: u32) \<le> stride_pref_degree k"
    using unsigned_less [of "stride_pref_degree k", where ?'a = nat]
    by (simp add: word_le_nat_alt unat_of_nat)
  then show ?thesis by (simp add: stride_generate_def stride_loop_eq)
qed

text \<open>The trackers of a table whose addresses stay below \<open>2 ^ 37\<close>: their distances fit an
  \<open>int32_t\<close>.\<close>

definition stride_ok :: "stride_knobs \<Rightarrow> stride_prefetcher \<Rightarrow> bool" where
  "stride_ok k s \<longleftrightarrow> stride_num_trackers k \<noteq> 0 \<and>
     length (sp_trackers s) \<le> unat (stride_num_trackers k) \<and> distinct (map tr_pc (sp_trackers s)) \<and>
     (\<forall>t \<in> set (sp_trackers s). unat (tr_last_cl_addr t) < 2 ^ 31)"

lemma int32_small:
  fixes w :: u64
  assumes "unat w < 2 ^ 31"
  shows "int32 (ucast w) = int (unat w)"
proof -
  have u: "int (unat w) = uint w" by simp
  have "int (unat w) < int (2 ^ 31)" using assms by (simp only: of_nat_less_iff)
  then have lt: "uint w < 2 ^ 31" by simp
  have "signed_take_bit 31 (uint w) = uint w"
    by (rule signed_take_bit_int_eq_self) (use uint_ge_0 [of w] lt in linarith)+
  moreover have "sint (ucast w :: u32) = signed_take_bit 31 (uint w)" by (simp add: signed_ucast_eq)
  ultimately show ?thesis by (simp add: int32_def)
qed

lemma stride_between_eq:
  assumes "unat prev < 2 ^ 31" "unat cl < 2 ^ 31"
  shows "stride_between prev cl = Some (int (unat cl) - int (unat prev))"
proof (cases "prev < cl")
  case True
  then have d: "unat (cl - prev) = unat cl - unat prev" by (simp add: unat_sub word_less_nat_alt word_le_nat_alt)
  then have "unat (cl - prev) < 2 ^ 31" using assms by simp
  then show ?thesis using True d by (simp add: stride_between_def int32_small word_less_nat_alt)
next
  case nlt: False
  show ?thesis
  proof (cases "cl < prev")
    case True
    then have d: "unat (prev - cl) = unat prev - unat cl" by (simp add: unat_sub word_less_nat_alt word_le_nat_alt)
    then have "unat (prev - cl) < 2 ^ 31" using assms by simp
    moreover have "uint prev - uint cl \<noteq> - (2 ^ 31)" using True by (simp add: word_less_def)
    ultimately show ?thesis using True nlt d by (simp add: stride_between_def int32_small word_less_nat_alt)
  next
    case False
    then show ?thesis using nlt by (simp add: stride_between_def)
  qed
qed

lemma stride_insert_ok:
  assumes ok: "stride_ok k s" and new: "pc \<notin> tr_pc ` set (sp_trackers s)" and cl: "unat cl < 2 ^ 31"
  shows "\<exists>s'. stride_insert k pc cl s = Some s' \<and> stride_ok k s'"
proof (cases "unat (stride_num_trackers k) \<le> length (sp_trackers s)")
  case True
  moreover have "0 < unat (stride_num_trackers k)" using ok by (simp add: stride_ok_def unat_gt_0)
  ultimately obtain ts t where ts: "sp_trackers s = ts @ [t]" by (cases "sp_trackers s" rule: rev_cases) auto
  show ?thesis
    using ok new cl True by (auto simp: stride_insert_def stride_ok_def ts Let_def)
next
  case False
  then show ?thesis
    using ok new cl by (auto simp: stride_insert_def stride_ok_def Let_def)
qed

text \<open>An access by an instruction that has a tracker.\<close>

lemma stride_hit:
  assumes ok: "stride_ok k s" and cl: "unat address < 2 ^ 37"
    and it: "find_pos (\<lambda>t. tr_pc t = pc) (sp_trackers s) = Some i"
  defines "t \<equiv> sp_trackers s ! i"
  defines "d \<equiv> int (unat address div 64) - int (unat (tr_last_cl_addr t))"
  shows "\<exists>s'. stride_invoke k s pc address [] = Some (s',
      if d \<noteq> 0 \<and> d = tr_last_stride t
      then map (pf_line (pf_page address)) (stride_offsets (pf_offset address) d (unat (stride_pref_degree k)) 0)
      else []) \<and>
    sp_trackers s' = (if d = 0 then sp_trackers s
      else t\<lparr>tr_last_stride := d, tr_last_cl_addr := drop_bit 6 address\<rparr> # erase_at i (sp_trackers s))"
proof -
  have i: "i < length (sp_trackers s)" using find_pos_Some [OF it] by simp
  have c: "unat (drop_bit 6 address) = unat address div 64" by (simp add: drop_bit_eq_div unat_div)
  have "unat (tr_last_cl_addr t) < 2 ^ 31" using ok i by (auto simp: stride_ok_def t_def)
  moreover have "unat (drop_bit 6 address) < 2 ^ 31" using cl c by (simp add: less_mult_imp_div_less)
  ultimately have b: "stride_between (tr_last_cl_addr t) (drop_bit 6 address) = Some d"
    by (simp add: stride_between_eq d_def c)
  obtain count where g: "stride_generate k address d [] =
      Some (map (pf_line (pf_page address)) (stride_offsets (pf_offset address) d (unat (stride_pref_degree k)) 0), count)"
    using stride_generate_eq [of k address d "[]"] by auto
  show ?thesis
    using it b g by (auto simp: stride_invoke_def Let_def champsim_consts t_def [symmetric])
qed

lemma stride_step:
  assumes ok: "stride_ok k s" and a: "unat address < 2 ^ 37"
  shows "\<exists>s' out. stride_invoke k s pc address [] = Some (s', out) \<and> stride_ok k s' \<and>
    in_page (unat (stride_pref_degree k)) address out"
proof (cases "find_pos (\<lambda>t. tr_pc t = pc) (sp_trackers s)")
  case None
  let ?s = "s\<lparr>sp_stats := (sp_stats s)\<lparr>sd_lookup := sd_lookup (sp_stats s) + 1\<rparr>\<rparr>"
  have c: "unat (drop_bit 6 address) < 2 ^ 31" using a by (simp add: drop_bit_eq_div unat_div less_mult_imp_div_less)
  have "stride_ok k ?s" "pc \<notin> tr_pc ` set (sp_trackers ?s)"
    using ok None by (auto simp: stride_ok_def find_pos_None)
  from stride_insert_ok [OF this c] None show ?thesis
    by (auto simp: stride_invoke_def Let_def in_page_def champsim_consts)
next
  case (Some i)
  let ?t = "sp_trackers s ! i"
  let ?d = "int (unat address div 64) - int (unat (tr_last_cl_addr ?t))"
  have i: "i < length (sp_trackers s)" "tr_pc ?t = pc" using find_pos_Some [OF Some] by auto
  have c: "unat (drop_bit 6 address) < 2 ^ 31" using a by (simp add: drop_bit_eq_div unat_div less_mult_imp_div_less)
  obtain s' where s': "stride_invoke k s pc address [] = Some (s',
      if ?d \<noteq> 0 \<and> ?d = tr_last_stride ?t
      then map (pf_line (pf_page address)) (stride_offsets (pf_offset address) ?d (unat (stride_pref_degree k)) 0)
      else [])"
    "sp_trackers s' = (if ?d = 0 then sp_trackers s
      else ?t\<lparr>tr_last_stride := ?d, tr_last_cl_addr := drop_bit 6 address\<rparr> # erase_at i (sp_trackers s))"
    using stride_hit [OF ok a Some] by blast
  have d: "distinct (map tr_pc (sp_trackers s))" using ok by (simp add: stride_ok_def)
  have e: "tr_pc ` set (erase_at i (sp_trackers s)) = tr_pc ` set (sp_trackers s) - {pc}"
    using set_erase_at_distinct [OF d, of i] i by (simp flip: map_erase_at)
  have "distinct (map tr_pc (erase_at i (sp_trackers s)))" using erase_at_distinct [OF d] by (simp add: map_erase_at)
  moreover have "Suc (length (sp_trackers s) - Suc 0) = length (sp_trackers s)" using i(1) by simp
  moreover have "\<forall>t \<in> set (erase_at i (sp_trackers s)). unat (tr_last_cl_addr t) < 2 ^ 31"
    using ok set_erase_at [of i "sp_trackers s"] by (auto simp: stride_ok_def)
  ultimately have "stride_ok k s'" using ok i c e by (simp add: stride_ok_def s'(2))
  then show ?thesis using s'(1) stride_offsets_ok by (auto simp: in_page_def pf_line_page)
qed

interpretation stride: page_prefetcher "\<lambda>s e. stride_invoke k s (fst e) (snd e) []" snd
  "unat (stride_pref_degree k)" "\<lambda>e. unat (snd e) < 2 ^ 37" "stride_ok k" for k
  by unfold_locales (rule stride_step)

section \<open>Properties\<close>

lemma stream_offsets_closed:
  assumes "d = 1 \<or> d = - 1" "0 \<le> off" "off < 64"
  shows "stream_offsets d n off =
    map (\<lambda>i. off + d * int i) [1 ..< Suc (min n (nat (if d = 1 then 63 - off else off)))]"
  using assms(2,3)
proof (induction n arbitrary: off)
  case 0
  then show ?case by (simp add: stream_offsets_def)
next
  case (Suc n)
  let ?room = "\<lambda>x. nat (if d = 1 then 63 - x else x)"
  show ?case
  proof (cases "0 \<le> off + d \<and> off + d < 64")
    case True
    then have r: "?room off = Suc (?room (off + d))" using assms(1) by auto
    have "stream_offsets d (Suc n) off = (off + d) # map (\<lambda>i. off + d + d * int i) [1 ..< Suc (min n (?room (off + d)))]"
      using True Suc.IH [of "off + d"] by (simp add: stream_offsets_Suc del: upt_Suc)
    also have "\<dots> = map (\<lambda>i. off + d * int i) [1 ..< Suc (Suc (min n (?room (off + d))))]"
      by (simp add: upt_conv_Cons map_Suc_upt [symmetric] algebra_simps del: upt_Suc)
    finally show ?thesis by (simp add: r del: upt_Suc)
  next
    case False
    then have "?room off = 0" using Suc.prems assms(1) by auto
    then show ?thesis using False by (auto simp: stream_offsets_Suc)
  qed
qed

lemma tracker_found:
  assumes "distinct (map f ts)" "t \<in> set ts" "f t = x"
  shows "\<exists>i. find_pos (\<lambda>t. f t = x) ts = Some i \<and> i < length ts \<and> ts ! i = t"
proof (cases "find_pos (\<lambda>t. f t = x) ts")
  case None
  then show ?thesis using assms(2,3) by (simp add: find_pos_None)
next
  case (Some i)
  then have "i < length ts" "f (ts ! i) = x" using find_pos_Some by fast+
  moreover obtain j where "j < length ts" "ts ! j = t" using assms(2) by (auto simp: in_set_conv_nth)
  ultimately show ?thesis using assms(1,3) Some by (metis length_map nth_eq_iff_index_eq nth_map)
qed

text \<open>
  C36. The streamer follows the stream: an access to another line of a tracked page sets the
  direction of the tracker and makes it the most recently used.  When the direction is the one
  of the access before, the prefetches are exactly the next lines in that direction, as many as
  the degree asks for and the page has room for; otherwise there is none.
\<close>

theorem streamer_follows_stream:
  fixes k :: streamer_knobs
  assumes ok: "streamer_ok k s" and t: "t \<in> set (sr_trackers s)" "st_page t = pf_page address"
    and moved: "pf_offset address \<noteq> st_last_offset t"
  shows "\<exists>s' out. streamer_invoke k s address [] = Some (s', out) \<and> streamer_ok k s' \<and>
    last (sr_trackers s') = stream_moved t address \<and>
    (let d = stream_dir t address; off = int (unat (pf_offset address));
         room = nat (if d = 1 then 63 - off else off);
         n = (if d = st_last_dir t then min (unat (streamer_pref_degree k)) room else 0) in
     length out = n \<and> (\<forall>j < n. pf_page (out ! j) = pf_page address \<and>
       int (unat (pf_offset (out ! j))) = off + d * (int j + 1)))"
proof -
  have "distinct (map st_page (sr_trackers s))" using ok by (simp add: streamer_ok_def)
  from tracker_found [OF this t] obtain i where i: "find_pos (\<lambda>t. st_page t = pf_page address) (sr_trackers s) = Some i"
    "sr_trackers s ! i = t" by blast
  let ?d = "stream_dir t address" and ?off = "int (unat (pf_offset address))"
  have d: "?d = 1 \<or> ?d = - 1" by (simp add: stream_dir_def)
  have "?off < int 64" using pf_offset_less [of address] by (simp only: of_nat_less_iff)
  then have off: "0 \<le> ?off" "?off < 64" by simp_all
  let ?offs = "stream_offsets ?d (unat (streamer_pref_degree k)) ?off"
  obtain s' where s': "streamer_invoke k s address [] = Some (s',
      if ?d = st_last_dir t then map (pf_line (pf_page address)) ?offs else [])"
    "sr_trackers s' = erase_at i (sr_trackers s) @ [stream_moved t address]"
    using streamer_hit [OF i(1), of k] moved i(2) by auto
  let ?room = "nat (if ?d = 1 then 63 - ?off else ?off)"
  let ?out = "if ?d = st_last_dir t then map (pf_line (pf_page address)) ?offs else []"
  have ok': "streamer_ok k s'" using streamer_step [OF ok, of address] s'(1) by auto
  have lines: "pf_page (pf_line (pf_page address) (?offs ! j)) = pf_page address \<and>
      int (unat (pf_offset (pf_line (pf_page address) (?offs ! j)))) = ?off + ?d * (int j + 1)"
    if "j < length ?offs" for j
  proof -
    have at: "?offs ! j = ?off + ?d * (int j + 1)"
      using that stream_offsets_closed [OF d off] by (simp del: upt_Suc)
    have "0 \<le> ?offs ! j" "?offs ! j < 64"
      using stream_offsets_ok(2) [of ?d _ ?off] that nth_mem by blast+
    from pf_line_page [OF this] pf_line_offset [OF this] at show ?thesis by (simp only: at)
  qed
  have len: "length ?offs = min (unat (streamer_pref_degree k)) ?room"
    unfolding stream_offsets_closed [OF d off] length_map length_upt diff_Suc_1 by (rule refl)
  have "length ?out = (if ?d = st_last_dir t then min (unat (streamer_pref_degree k)) ?room else 0)"
    by (simp only: len length_map list.size(3) if_distrib [of length])
  moreover have "\<forall>j < length ?out. pf_page (?out ! j) = pf_page address \<and>
      int (unat (pf_offset (?out ! j))) = ?off + ?d * (int j + 1)"
  proof (cases "?d = st_last_dir t")
    case True
    then show ?thesis using lines by (simp only: nth_map length_map if_True) simp
  qed (simp only: list.size(3) if_False, simp)
  moreover have "last (sr_trackers s') = stream_moved t address" by (simp only: s'(2) last_snoc)
  ultimately have "let out = ?out in last (sr_trackers s') = stream_moved t address \<and>
    (let d = ?d; off = ?off; room = nat (if d = 1 then 63 - off else off);
         n = (if d = st_last_dir t then min (unat (streamer_pref_degree k)) room else 0) in
     length out = n \<and> (\<forall>j < n. pf_page (out ! j) = pf_page address \<and>
       int (unat (pf_offset (out ! j))) = off + d * (int j + 1)))"
    unfolding Let_def by (simp only: simp_thms)
  with s'(1) ok' show ?thesis unfolding Let_def by blast
qed

definition demo_streamer :: streamer where
  "demo_streamer = new_streamer\<lparr>sr_trackers :=
     [\<lparr>st_page = 7, st_last_offset = 60, st_last_dir = 1, st_conf = 0\<rparr>, new_stream_tracker 9 3]\<rparr>"

theorem streamer_follows_stream_witness:
  "\<exists>s' out. streamer_invoke \<lparr>streamer_num_trackers = 2, streamer_pref_degree = 4\<rparr> demo_streamer 32576 [] = Some (s', out) \<and>
    out = [32640, 32704]"
proof -
  let ?k = "\<lparr>streamer_num_trackers = 2, streamer_pref_degree = 4\<rparr>"
  let ?t = "\<lparr>st_page = 7, st_last_offset = 60, st_last_dir = 1, st_conf = 0\<rparr>"
  have "streamer_ok ?k demo_streamer" "?t \<in> set (sr_trackers demo_streamer)" "st_page ?t = pf_page 32576"
    "pf_offset 32576 \<noteq> st_last_offset ?t" by code_simp+
  from streamer_follows_stream [OF this] obtain s' out
    where "streamer_invoke ?k demo_streamer 32576 [] = Some (s', out)" by (auto simp: Let_def)
  moreover have "map_option snd (streamer_invoke ?k demo_streamer 32576 []) = Some [32640, 32704]" by code_simp
  ultimately show ?thesis by auto
qed


section \<open>The stride prefetcher on an access it predicts\<close>






end
