(* ===== verification/Prefetch_Config.thy ===== *)
theory Prefetch_Config
  imports Knobs Prefetch_Streams
begin








end
