(* ===== verification/Prefetch_Bop.thy ===== *)
theory Prefetch_Bop
  imports Prefetch_Base
begin

text \<open>
  The best-offset prefetcher (\<open>prefetcher/bop.cc\<close>): it scores candidate offsets against the lines
  recently filled, and at the end of a phase takes the best for the next one.  The
  unsigned index of a loop over a vector is its position (vectors are shorter than \<open>2 ^ 32\<close>).
\<close>

unbundle bit_operations_syntax

section \<open>State and operations\<close>

record bop_stats =
  bs_max_round :: u64
  bs_max_score :: u64
  bs_fill_called :: u64
  bs_fill_insert :: u64
  bs_rr_hit :: u64
  bs_rr_evict :: u64
  bs_rr_insert :: u64
  bs_buffered :: u64
  bs_spilled :: u64
  bs_issued :: u64
  bs_total_phases :: u64
  bs_pref_issued :: u64

record bop =
  bo_rr :: "u64 list"
  bo_scores :: "u32 list"
  bo_pref_buffer :: "u64 list"
  bo_round_counter :: u32
  bo_candidate_ptr :: u32
  bo_best_offsets :: "int list"
  bo_stats :: bop_stats

record bop_knobs =
  bop_candidates :: "int list"
  bop_max_rounds :: u32
  bop_max_score :: u32
  bop_top_n :: u32
  bop_enable_pref_buffer :: bool
  bop_pref_buffer_size :: u32
  bop_pref_degree :: u32
  bop_rr_size :: u32

definition new_bop :: "bop_knobs \<Rightarrow> bop" where
  "new_bop k = \<lparr>bo_rr = [], bo_scores = replicate (length (bop_candidates k)) 0, bo_pref_buffer = [],
     bo_round_counter = 0, bo_candidate_ptr = 0, bo_best_offsets = [1],
     bo_stats = \<lparr>bs_max_round = 0, bs_max_score = 0, bs_fill_called = 0, bs_fill_insert = 0, bs_rr_hit = 0,
       bs_rr_evict = 0, bs_rr_insert = 0, bs_buffered = 0, bs_spilled = 0, bs_issued = 0,
       bs_total_phases = 0, bs_pref_issued = 0\<rparr>\<rparr>"

definition search_rr :: "u64 \<Rightarrow> bop \<Rightarrow> bool" where
  "search_rr address s \<longleftrightarrow> list_ex (\<lambda>a. a = address) (bo_rr s)"

text \<open>The loop of \<open>check_end_of_phase\<close>: what it keeps is an index, and it compares scores with it.\<close>

fun max_score_loop :: "u32 list \<Rightarrow> u32 \<Rightarrow> u32 \<Rightarrow> u32" where
  "max_score_loop [] index m = m"
| "max_score_loop (x # xs) index m = max_score_loop xs (index + 1) (if m \<le> x then index else m)"

definition check_end_of_phase :: "bop_knobs \<Rightarrow> bop \<Rightarrow> bop \<times> bool" where
  "check_end_of_phase k s =
     (if bop_max_rounds k \<le> bo_round_counter s
      then (s\<lparr>bo_stats := (bo_stats s)\<lparr>bs_max_round := bs_max_round (bo_stats s) + 1\<rparr>\<rparr>, True)
      else if bop_max_score k \<le> max_score_loop (bo_scores s) 0 0
      then (s\<lparr>bo_stats := (bo_stats s)\<lparr>bs_max_score := bs_max_score (bo_stats s) + 1\<rparr>\<rparr>, True)
      else (s, False))"

text \<open>The greatest score below \<open>max\<close>, the last of equals, from index \<open>i\<close> on.\<close>

fun select_loop :: "u32 list \<Rightarrow> nat \<Rightarrow> u32 \<Rightarrow> u32 \<Rightarrow> nat \<Rightarrow> u32 \<times> nat" where
  "select_loop [] i bound curr_max max_idx = (curr_max, max_idx)"
| "select_loop (x # xs) i bound curr_max max_idx =
     (if curr_max \<le> x \<and> x < bound then select_loop xs (i + 1) bound x i
      else select_loop xs (i + 1) bound curr_max max_idx)"

fun top_loop :: "int list \<Rightarrow> u32 list \<Rightarrow> nat \<Rightarrow> u32 \<Rightarrow> int list \<Rightarrow> int list option" where
  "top_loop candidates scores 0 bound best = Some best"
| "top_loop candidates scores (Suc n) bound best = do {
     let r = select_loop scores 0 bound 0 0;
     c \<leftarrow> arr_get candidates (snd r);
     top_loop candidates scores n (fst r) (best @ [c]) }"

definition phase_end :: "bop_knobs \<Rightarrow> bop \<Rightarrow> bop option" where
  "phase_end k s = do {
     let st = (bo_stats s)\<lparr>bs_total_phases := bs_total_phases (bo_stats s) + 1\<rparr>;
     best \<leftarrow> top_loop (bop_candidates k) (bo_scores s) (unat (bop_top_n k)) 4294967295 [];
     assert_that (length best = unat (bop_top_n k));
     Some (s\<lparr>bo_stats := st, bo_best_offsets := best, bo_scores := replicate (length (bop_candidates k)) 0,
             bo_round_counter := 0, bo_candidate_ptr := 0\<rparr>) }"

text \<open>The addresses for the best offsets; the sum is unsigned and then read as signed.\<close>

fun best_loop :: "u64 \<Rightarrow> u32 \<Rightarrow> int list \<Rightarrow> u64 list \<Rightarrow> u64 list" where
  "best_loop page offset [] acc = acc"
| "best_loop page offset (b # bs) acc =
     (let pf_offset = int32 (offset + of_int b) in
      best_loop page offset bs (if 0 \<le> pf_offset \<and> pf_offset < 64 then acc @ [pf_line page pf_offset] else acc))"

definition bop_buffer_prefetch :: "bop_knobs \<Rightarrow> u64 list \<Rightarrow> bop \<Rightarrow> bop" where
  "bop_buffer_prefetch k pref_addr s = (case buffer_loop (unat (bop_pref_buffer_size k)) pref_addr (bo_pref_buffer s) 0 of
     (buf, count) \<Rightarrow> s\<lparr>bo_pref_buffer := buf, bo_stats := (bo_stats s)
       \<lparr>bs_buffered := bs_buffered (bo_stats s) + count,
        bs_spilled := bs_spilled (bo_stats s) + (of_nat (length pref_addr) - count)\<rparr>\<rparr>)"

definition bop_issue_prefetch :: "bop_knobs \<Rightarrow> bop \<Rightarrow> bop \<times> u64 list" where
  "bop_issue_prefetch k s = (case issue_loop (unat (bop_pref_degree k)) (bo_pref_buffer s) [] of
     (buf, out) \<Rightarrow> (s\<lparr>bo_pref_buffer := buf, bo_stats := (bo_stats s)
       \<lparr>bs_issued := bs_issued (bo_stats s) + of_nat (length out)\<rparr>\<rparr>, out))"

definition bop_evaluate :: "bop_knobs \<Rightarrow> u64 \<Rightarrow> bop \<Rightarrow> bop option" where
  "bop_evaluate k address s = do {
     let ca_address = drop_bit LOG2_BLOCK_SIZE address;
     let ptr = bo_candidate_ptr s;
     offset \<leftarrow> arr_get (bop_candidates k) (unat ptr);
     scores \<leftarrow> (if search_rr (ca_address - of_int offset) s
       then do { x \<leftarrow> arr_get (bo_scores s) (unat ptr); arr_set (bo_scores s) (unat ptr) (x + 1) }
       else Some (bo_scores s));
     Some (s\<lparr>bo_scores := scores,
             bo_candidate_ptr := of_nat (unat (ptr + 1) mod length (bop_candidates k)),
             bo_round_counter := bo_round_counter s + 1\<rparr>) }"

definition bop_invoke :: "bop_knobs \<Rightarrow> u64 \<Rightarrow> u64 list \<Rightarrow> bop \<Rightarrow> (bop \<times> u64 list) option" where
  "bop_invoke k address pref_addr s = do {
     s1 \<leftarrow> bop_evaluate k address s;
     let r = check_end_of_phase k s1;
     s2 \<leftarrow> (if snd r then phase_end k (fst r) else Some (fst r));
     let out = best_loop (pf_page address) (pf_offset address) (bo_best_offsets s2) pref_addr;
     let q = (if bop_enable_pref_buffer k then bop_issue_prefetch k (bop_buffer_prefetch k out s2) else (s2, out));
     Some ((fst q)\<lparr>bo_stats := (bo_stats (fst q))
        \<lparr>bs_pref_issued := bs_pref_issued (bo_stats (fst q)) + of_nat (length (snd q))\<rparr>\<rparr>, snd q) }"

definition insert_rr :: "bop_knobs \<Rightarrow> u64 \<Rightarrow> bop \<Rightarrow> bop option" where
  "insert_rr k address s = (let st = bo_stats s in
     if search_rr address s then Some (s\<lparr>bo_stats := st\<lparr>bs_rr_hit := bs_rr_hit st + 1\<rparr>\<rparr>)
     else do {
       (rr, st1) \<leftarrow> (if unat (bop_rr_size k) \<le> length (bo_rr s)
         then (case bo_rr s of [] \<Rightarrow> None | _ # rr \<Rightarrow> Some (rr, st\<lparr>bs_rr_evict := bs_rr_evict st + 1\<rparr>))
         else Some (bo_rr s, st));
       Some (s\<lparr>bo_rr := rr @ [address], bo_stats := st1\<lparr>bs_rr_insert := bs_rr_insert st1 + 1\<rparr>\<rparr>) })"

fun fill_loop :: "bop_knobs \<Rightarrow> u64 \<Rightarrow> u32 \<Rightarrow> int list \<Rightarrow> bop \<Rightarrow> bop option" where
  "fill_loop k ca_address offset [] s = Some s"
| "fill_loop k ca_address offset (b # bs) s = do {
     let origin = int32 (offset - of_int b);
     s' \<leftarrow> (if 0 \<le> origin \<and> origin < 64
       then insert_rr k (ca_address - of_int b)
              (s\<lparr>bo_stats := (bo_stats s)\<lparr>bs_fill_insert := bs_fill_insert (bo_stats s) + 1\<rparr>\<rparr>)
       else Some s);
     fill_loop k ca_address offset bs s' }"

definition register_fill :: "bop_knobs \<Rightarrow> u64 \<Rightarrow> bop \<Rightarrow> bop option" where
  "register_fill k address0 s = (
     let address = push_bit LOG2_BLOCK_SIZE (drop_bit LOG2_BLOCK_SIZE address0) in
     fill_loop k (drop_bit LOG2_BLOCK_SIZE address) (pf_offset address) (bo_best_offsets s)
       (s\<lparr>bo_stats := (bo_stats s)\<lparr>bs_fill_called := bs_fill_called (bo_stats s) + 1\<rparr>\<rparr>))"

text \<open>What happens to a prefetcher: an access or a fill.\<close>

datatype bop_event = Access u64 | Fill u64

fun bop_event_address :: "bop_event \<Rightarrow> u64" where
  "bop_event_address (Access a) = a"
| "bop_event_address (Fill a) = a"

fun bop_step :: "bop_knobs \<Rightarrow> bop \<Rightarrow> bop_event \<Rightarrow> (bop \<times> u64 list) option" where
  "bop_step k s (Access a) = bop_invoke k a [] s"
| "bop_step k s (Fill a) = map_option (\<lambda>s'. (s', [])) (register_fill k a s)"

section \<open>The scores and the choice\<close>

lemma select_loop_spec:
  assumes "\<forall>x \<in> set xs. x < m"
  shows "select_loop xs i m c j = (c', j') \<Longrightarrow>
    c \<le> c' \<and> (\<forall>x \<in> set xs. x \<le> c') \<and>
    (if \<forall>x \<in> set xs. x < c then j' = j \<and> c' = c
     else \<exists>p < length xs. j' = i + p \<and> xs ! p = c' \<and> (\<forall>q < length xs. p < q \<longrightarrow> xs ! q < c'))"
  using assms
proof (induction xs arbitrary: i c j)
  case (Cons x xs)
  show ?case
  proof (cases "c \<le> x")
    case True
    then have e: "select_loop xs (i + 1) m x i = (c', j')" using Cons.prems by simp
    have "\<forall>y \<in> set xs. y < m" using Cons.prems(2) by simp
    note IH = Cons.IH [OF e this]
    have x: "x \<le> c'" "\<forall>y \<in> set xs. y \<le> c'" using IH Cons.prems(2) by auto
    have "\<exists>p < length (x # xs). j' = i + p \<and> (x # xs) ! p = c' \<and> (\<forall>q < length (x # xs). p < q \<longrightarrow> (x # xs) ! q < c')"
    proof (cases "\<forall>y \<in> set xs. y < x")
      case True
      then have "j' = i" "c' = x" using IH Cons.prems(2) by auto
      then show ?thesis using True by (intro exI [of _ 0]) (auto simp: nth_Cons split: nat.splits)
    next
      case False
      obtain p where "p < length xs" "j' = i + 1 + p" "xs ! p = c'" "\<forall>q < length xs. p < q \<longrightarrow> xs ! q < c'"
        using IH unfolding if_not_P [OF False] by blast
      then show ?thesis by (intro exI [of _ "Suc p"]) (auto simp: nth_Cons split: nat.splits)
    qed
    then show ?thesis using True x by auto
  next
    case False
    then have e: "select_loop xs (i + 1) m c j = (c', j')" using Cons.prems by simp
    have "\<forall>y \<in> set xs. y < m" using Cons.prems(2) by simp
    note IH = Cons.IH [OF e this]
    have x: "x < c" using False by simp
    show ?thesis
    proof (cases "\<forall>y \<in> set xs. y < c")
      case True
      then show ?thesis using IH x by auto
    next
      case F: False
      obtain p where "p < length xs" "j' = i + 1 + p" "xs ! p = c'" "\<forall>q < length xs. p < q \<longrightarrow> xs ! q < c'"
        using IH unfolding if_not_P [OF F] by blast
      then have "\<exists>p < length (x # xs). j' = i + p \<and> (x # xs) ! p = c' \<and> (\<forall>q < length (x # xs). p < q \<longrightarrow> (x # xs) ! q < c')"
        by (intro exI [of _ "Suc p"]) (auto simp: nth_Cons split: nat.splits)
      then show ?thesis using IH x F by auto
    qed
  qed
qed auto

lemma select_loop_index: "j \<le> i + length xs \<Longrightarrow> snd (select_loop xs i m c j) \<le> i + length xs \<and>
    (j < i + length xs \<longrightarrow> snd (select_loop xs i m c j) < i + length xs)"
proof (induction xs arbitrary: i c j)
  case (Cons x xs)
  from Cons.IH [of i "i + 1" x] Cons.IH [of j "i + 1" c] Cons.prems show ?case by auto
qed auto

lemma top_loop_runs:
  "scores \<noteq> [] \<Longrightarrow> length candidates = length scores \<Longrightarrow>
     \<exists>best'. top_loop candidates scores n m best = Some best' \<and> length best' = length best + n"
proof (induction n arbitrary: m best)
  case (Suc n)
  have "snd (select_loop scores 0 m 0 0) < length candidates"
    using select_loop_index [of 0 0 scores m 0] Suc.prems by simp
  then show ?case
    using Suc.IH [OF Suc.prems, of "fst (select_loop scores 0 m 0 0)" "best @ [candidates ! snd (select_loop scores 0 m 0 0)]"]
    by (auto simp: Let_def)
qed simp

lemma top_loop_append: "top_loop candidates scores n m best = Some best' \<Longrightarrow> \<exists>r. best' = best @ r"
proof (induction n arbitrary: m best)
  case (Suc n)
  then show ?case by (force simp: Let_def arr_simps)
qed simp

lemma max_score_loop_less:
  "unat m < n \<Longrightarrow> unat i + length xs \<le> n \<Longrightarrow> n < 2 ^ 32 \<Longrightarrow> unat (max_score_loop xs i m) < n"
proof (induction xs arbitrary: i m)
  case (Cons x xs)
  have "unat (i + 1) = unat i + 1" using Cons.prems by (simp add: unat_add_lem [THEN iffD1])
  then show ?case using Cons by simp
qed simp

section \<open>The invariant\<close>

definition bop_ok :: "bop_knobs \<Rightarrow> bop \<Rightarrow> bool" where
  "bop_ok k s \<longleftrightarrow> bop_candidates k \<noteq> [] \<and> length (bop_candidates k) < 2 ^ 32 \<and> bop_rr_size k \<noteq> 0 \<and>
     length (bo_scores s) = length (bop_candidates k) \<and> unat (bo_candidate_ptr s) < length (bop_candidates k) \<and>
     length (bo_best_offsets s) \<le> max 1 (unat (bop_top_n k)) \<and>
     distinct (bo_rr s) \<and> length (bo_rr s) \<le> unat (bop_rr_size k)"

lemma new_bop_ok:
  "bop_candidates k \<noteq> [] \<Longrightarrow> length (bop_candidates k) < 2 ^ 32 \<Longrightarrow> bop_rr_size k \<noteq> 0 \<Longrightarrow> bop_ok k (new_bop k)"
  by (simp add: bop_ok_def new_bop_def)

lemma bop_evaluate_ok:
  assumes "bop_ok k s"
  shows "\<exists>s'. bop_evaluate k address s = Some s' \<and> bop_ok k s' \<and> bo_round_counter s' = bo_round_counter s + 1 \<and>
    bo_best_offsets s' = bo_best_offsets s"
proof -
  let ?n = "length (bop_candidates k)"
  let ?p = "unat (bo_candidate_ptr s + 1) mod ?n"
  have n: "0 < ?n" "?n < 2 ^ 32" using assms by (simp_all add: bop_ok_def)
  then have "?p < ?n" by simp
  then have "unat (of_nat ?p :: u32) = ?p" using n(2) by (simp add: unat_of_nat)
  then have p: "unat (of_nat ?p :: u32) < ?n" using \<open>?p < ?n\<close> by simp
  show ?thesis
    using assms p by (auto simp: bop_evaluate_def bop_ok_def Let_def)
qed

lemma phase_end_ok:
  assumes "bop_ok k s"
  shows "\<exists>s'. phase_end k s = Some s' \<and> bop_ok k s' \<and> bo_round_counter s' = 0"
proof -
  have "bo_scores s \<noteq> []" "length (bop_candidates k) = length (bo_scores s)" using assms by (auto simp: bop_ok_def)
  from top_loop_runs [OF this] obtain best where
    "top_loop (bop_candidates k) (bo_scores s) (unat (bop_top_n k)) 4294967295 [] = Some best" "length best = unat (bop_top_n k)"
    by fastforce
  then show ?thesis using assms by (auto simp: phase_end_def bop_ok_def Let_def)
qed

lemma check_end_ok:
  "bop_ok k s \<Longrightarrow> bop_ok k (fst (check_end_of_phase k s)) \<and>
    bo_round_counter (fst (check_end_of_phase k s)) = bo_round_counter s"
  by (simp add: check_end_of_phase_def bop_ok_def)

lemma insert_rr_ok:
  assumes "bop_ok k s"
  shows "\<exists>s'. insert_rr k a s = Some s' \<and> bop_ok k s' \<and> a \<in> set (bo_rr s') \<and> bo_best_offsets s' = bo_best_offsets s"
proof (cases "search_rr a s")
  case True
  then show ?thesis using assms by (auto simp: insert_rr_def bop_ok_def search_rr_def list_ex_iff Let_def)
next
  case False
  then have new: "a \<notin> set (bo_rr s)" by (simp add: search_rr_def list_ex_iff)
  have n: "0 < unat (bop_rr_size k)" using assms by (simp add: bop_ok_def unat_gt_0)
  show ?thesis
    using assms False new n by (cases "bo_rr s") (auto simp: insert_rr_def bop_ok_def Let_def)
qed

lemma fill_loop_ok:
  "bop_ok k s \<Longrightarrow> \<exists>s'. fill_loop k ca offset bs s = Some s' \<and> bop_ok k s' \<and> bo_best_offsets s' = bo_best_offsets s"
proof (induction bs arbitrary: s)
  case (Cons b bs)
  let ?t = "s\<lparr>bo_stats := (bo_stats s)\<lparr>bs_fill_insert := bs_fill_insert (bo_stats s) + 1\<rparr>\<rparr>"
  have "bop_ok k ?t" using Cons.prems by (simp add: bop_ok_def)
  from insert_rr_ok [OF this] obtain s1 where
    "insert_rr k (ca - of_int b) ?t = Some s1" "bop_ok k s1" "bo_best_offsets s1 = bo_best_offsets s" by force
  then show ?case using Cons.IH [of s1] Cons.IH [OF Cons.prems] by (auto simp: Let_def)
qed simp

lemma register_fill_ok:
  assumes "bop_ok k s"
  shows "\<exists>s'. register_fill k a s = Some s' \<and> bop_ok k s' \<and> bo_best_offsets s' = bo_best_offsets s"
proof -
  have "bop_ok k (s\<lparr>bo_stats := (bo_stats s)\<lparr>bs_fill_called := bs_fill_called (bo_stats s) + 1\<rparr>\<rparr>)"
    using assms by (simp add: bop_ok_def)
  from fill_loop_ok [OF this] show ?thesis by (simp add: register_fill_def Let_def)
qed

definition best_lines :: "u64 \<Rightarrow> int list \<Rightarrow> u64 list" where
  "best_lines address bs = map (pf_line (pf_page address))
     (filter (\<lambda>x. 0 \<le> x \<and> x < 64) (map (\<lambda>b. int32 (pf_offset address + of_int b)) bs))"

lemma best_loop_eq: "best_loop (pf_page address) (pf_offset address) bs acc = acc @ best_lines address bs"
  by (induction bs arbitrary: acc) (simp_all add: best_lines_def Let_def)

lemma best_lines_in_page: "length bs \<le> n \<Longrightarrow> in_page n address (best_lines address bs)"
  unfolding best_lines_def
  by (rule in_page_lines) (auto intro: order_trans [OF length_filter_le])

text \<open>An access without the prefetch buffer.\<close>

lemma bop_invoke_ok:
  assumes ok: "bop_ok k s" and nb: "\<not> bop_enable_pref_buffer k"
  shows "\<exists>s1 s2 s'. bop_evaluate k a s = Some s1 \<and>
    (if snd (check_end_of_phase k s1) then phase_end k (fst (check_end_of_phase k s1)) else Some (fst (check_end_of_phase k s1))) = Some s2 \<and>
    bop_invoke k a [] s = Some (s', best_lines a (bo_best_offsets s')) \<and> bop_ok k s' \<and>
    bo_best_offsets s' = bo_best_offsets s2 \<and> bo_scores s' = bo_scores s2 \<and> bo_round_counter s' = bo_round_counter s2 \<and>
    bo_candidate_ptr s' = bo_candidate_ptr s2 \<and> bo_rr s' = bo_rr s2"
proof -
  obtain s1 where s1: "bop_evaluate k a s = Some s1" "bop_ok k s1" using bop_evaluate_ok [OF ok] by blast
  let ?r = "check_end_of_phase k s1"
  have r: "bop_ok k (fst ?r)" using check_end_ok [OF s1(2)] by blast
  obtain s2 where s2: "(if snd ?r then phase_end k (fst ?r) else Some (fst ?r)) = Some s2" "bop_ok k s2"
    using phase_end_ok [OF r] r by (cases "snd ?r") auto
  then show ?thesis
    using s1 nb by (auto simp: bop_invoke_def Let_def best_loop_eq bop_ok_def)
qed

lemma bop_step_ok:
  assumes ok: "bop_ok k s" and nb: "\<not> bop_enable_pref_buffer k"
  shows "\<exists>s' out. bop_step k s e = Some (s', out) \<and> bop_ok k s' \<and>
    in_page (max 1 (unat (bop_top_n k))) (bop_event_address e) out"
proof (cases e)
  case (Access a)
  obtain s' where s': "bop_invoke k a [] s = Some (s', best_lines a (bo_best_offsets s'))" "bop_ok k s'"
    using bop_invoke_ok [OF ok nb] by blast
  then have "length (bo_best_offsets s') \<le> max 1 (unat (bop_top_n k))" by (simp add: bop_ok_def)
  from best_lines_in_page [OF this] s' show ?thesis by (simp add: Access)
next
  case (Fill a)
  then show ?thesis using register_fill_ok [OF ok, of a] by (auto simp: in_page_def)
qed

interpretation bop: page_prefetcher "bop_step k" bop_event_address "max 1 (unat (bop_top_n k))"
  "\<lambda>_. \<not> bop_enable_pref_buffer k" "bop_ok k" for k
  by unfold_locales (rule bop_step_ok)

section \<open>Properties\<close>

lemma scores_never_end_phase:
  assumes "bop_ok k s" "length (bop_candidates k) \<le> unat (bop_max_score k)"
  shows "snd (check_end_of_phase k s) \<longleftrightarrow> bop_max_rounds k \<le> bo_round_counter s"
proof -
  have "unat (max_score_loop (bo_scores s) 0 0) < length (bop_candidates k)"
    using assms(1) by (intro max_score_loop_less) (auto simp: bop_ok_def)
  then show ?thesis using assms(2) by (simp add: check_end_of_phase_def word_le_nat_alt)
qed

lemma phase_end_picks_best:
  assumes ok: "bop_ok k s" and n: "bop_top_n k = 1" and small: "\<forall>x \<in> set (bo_scores s). x < 4294967295"
  shows "\<exists>s' i. phase_end k s = Some s' \<and> i < length (bop_candidates k) \<and> bo_best_offsets s' = [bop_candidates k ! i] \<and>
    (\<forall>x \<in> set (bo_scores s). x \<le> bo_scores s ! i) \<and>
    (\<forall>q < length (bo_scores s). i < q \<longrightarrow> bo_scores s ! q < bo_scores s ! i) \<and>
    bo_scores s' = replicate (length (bop_candidates k)) 0 \<and> bo_round_counter s' = 0 \<and> bo_candidate_ptr s' = 0 \<and>
    bo_rr s' = bo_rr s"
proof -
  obtain c i where r: "select_loop (bo_scores s) 0 4294967295 0 0 = (c, i)" by fastforce
  note spec = select_loop_spec [OF small r]
  have ne: "bo_scores s \<noteq> []" "length (bo_scores s) = length (bop_candidates k)" using ok by (auto simp: bop_ok_def)
  then have "\<not> (\<forall>x \<in> set (bo_scores s). x < 0)" by (cases "bo_scores s") auto
  then have i: "i < length (bo_scores s)" "bo_scores s ! i = c" "\<forall>q < length (bo_scores s). i < q \<longrightarrow> bo_scores s ! q < c"
    using spec by auto
  have "phase_end k s = Some (s\<lparr>bo_stats := (bo_stats s)\<lparr>bs_total_phases := bs_total_phases (bo_stats s) + 1\<rparr>,
      bo_best_offsets := [bop_candidates k ! i], bo_scores := replicate (length (bop_candidates k)) 0,
      bo_round_counter := 0, bo_candidate_ptr := 0\<rparr>)"
    using r i(1) ne(2) n by (simp add: phase_end_def Let_def)
  then show ?thesis using i ne(2) spec by auto
qed

text \<open>
  C38. A phase of the best-offset prefetcher, with one best offset and no prefetch buffer: as long as there are at
  most \<open>bop_max_score\<close> candidates the phase ends with its \<open>bop_max_rounds\<close>th access and never
  earlier, whatever the scores; until then the offset stays.  At the end it becomes the candidate with
  the greatest score, the last of equals, and the scores and counters start anew.  The access prefetches the line at the new
  offset when that line is in the page, and nothing else.
\<close>

theorem bop_phase:
  assumes ok: "bop_ok k s" and k: "bop_top_n k = 1" "\<not> bop_enable_pref_buffer k"
    "length (bop_candidates k) \<le> unat (bop_max_score k)"
    and s1: "bop_evaluate k address s = Some s1" "\<forall>x \<in> set (bo_scores s1). x < 4294967295"
  shows "\<exists>s'. bop_invoke k address [] s = Some (s', best_lines address (bo_best_offsets s')) \<and> bop_ok k s' \<and>
    (if bop_max_rounds k \<le> bo_round_counter s + 1
     then (\<exists>i < length (bop_candidates k). bo_best_offsets s' = [bop_candidates k ! i] \<and>
         (\<forall>x \<in> set (bo_scores s1). x \<le> bo_scores s1 ! i) \<and>
         (\<forall>q < length (bo_scores s1). i < q \<longrightarrow> bo_scores s1 ! q < bo_scores s1 ! i)) \<and>
       bo_scores s' = replicate (length (bop_candidates k)) 0 \<and> bo_round_counter s' = 0 \<and> bo_candidate_ptr s' = 0
     else bo_best_offsets s' = bo_best_offsets s \<and> bo_scores s' = bo_scores s1 \<and>
       bo_round_counter s' = bo_round_counter s + 1)"
proof -
  have s1': "bop_ok k s1" "bo_round_counter s1 = bo_round_counter s + 1" "bo_best_offsets s1 = bo_best_offsets s"
    using bop_evaluate_ok [OF ok, of address] s1(1) by auto
  let ?r = "check_end_of_phase k s1"
  obtain s2 s' where s2: "(if snd ?r then phase_end k (fst ?r) else Some (fst ?r)) = Some s2"
    "bop_invoke k address [] s = Some (s', best_lines address (bo_best_offsets s'))" "bop_ok k s'"
    "bo_best_offsets s' = bo_best_offsets s2" "bo_scores s' = bo_scores s2" "bo_round_counter s' = bo_round_counter s2"
    "bo_candidate_ptr s' = bo_candidate_ptr s2"
    using bop_invoke_ok [OF ok k(2), of address] s1(1) by auto
  have e: "snd ?r \<longleftrightarrow> bop_max_rounds k \<le> bo_round_counter s + 1"
    using scores_never_end_phase [OF s1'(1) k(3)] s1'(2) by simp
  have f: "bop_ok k (fst ?r)" "bo_scores (fst ?r) = bo_scores s1" "bo_best_offsets (fst ?r) = bo_best_offsets s1"
    "bo_round_counter (fst ?r) = bo_round_counter s1"
    using check_end_ok [OF s1'(1)] by (simp_all add: check_end_of_phase_def)
  show ?thesis
  proof (cases "bop_max_rounds k \<le> bo_round_counter s + 1")
    case True
    then have "phase_end k (fst ?r) = Some s2" using s2(1) e by simp
    then show ?thesis
      using phase_end_picks_best [OF f(1) k(1)] s1(2) s2(2-) True unfolding f(2) by auto
  next
    case False
    then have "s2 = fst ?r" using s2(1) e by simp
    then show ?thesis using s2(2-) f s1'(2,3) False by auto
  qed
qed

definition demo_bop_knobs :: bop_knobs where
  "demo_bop_knobs = \<lparr>bop_candidates = [1, 2, 5], bop_max_rounds = 4, bop_max_score = 31, bop_top_n = 1,
     bop_enable_pref_buffer = False, bop_pref_buffer_size = 256, bop_pref_degree = 4, bop_rr_size = 2\<rparr>"

definition demo_bop :: bop where
  "demo_bop = (new_bop demo_bop_knobs)\<lparr>bo_scores := [7, 6, 3], bo_rr := [98], bo_round_counter := 3, bo_candidate_ptr := 1\<rparr>"

theorem bop_phase_witness:
  "\<exists>s'. bop_invoke demo_bop_knobs 6400 [] demo_bop = Some (s', [6528]) \<and> bo_best_offsets s' = [2]"
proof -
  have ok: "bop_ok demo_bop_knobs demo_bop" by (simp add: bop_ok_def demo_bop_def new_bop_def demo_bop_knobs_def)
  have k: "bop_top_n demo_bop_knobs = 1" "\<not> bop_enable_pref_buffer demo_bop_knobs"
    "length (bop_candidates demo_bop_knobs) \<le> unat (bop_max_score demo_bop_knobs)" by (simp_all add: demo_bop_knobs_def)
  obtain s1 where s1: "bop_evaluate demo_bop_knobs 6400 demo_bop = Some s1" "bo_scores s1 = [7, 7, 3]"
    by (simp add: bop_evaluate_def demo_bop_def new_bop_def demo_bop_knobs_def search_rr_def champsim_consts Let_def)
  have "\<forall>x \<in> set (bo_scores s1). x < 4294967295" by (simp add: s1(2))
  moreover have "bop_max_rounds demo_bop_knobs \<le> bo_round_counter demo_bop + 1"
    by (simp add: demo_bop_knobs_def demo_bop_def)
  ultimately obtain s' i where
    s': "bop_invoke demo_bop_knobs 6400 [] demo_bop = Some (s', best_lines 6400 (bo_best_offsets s'))"
    "i < length (bop_candidates demo_bop_knobs)" "bo_best_offsets s' = [bop_candidates demo_bop_knobs ! i]"
    "\<forall>x \<in> set (bo_scores s1). x \<le> bo_scores s1 ! i"
    "\<forall>q < length (bo_scores s1). i < q \<longrightarrow> bo_scores s1 ! q < bo_scores s1 ! i"
    using bop_phase [OF ok k s1(1)] by metis
  have "i < 3" using s'(2) by (simp add: demo_bop_knobs_def)
  moreover have "bo_scores s1 ! 1 = 7" "bo_scores s1 ! 2 = 3" using s1(2) by simp_all
  ultimately have "i = 1" using s'(4) spec [OF s'(5), of 1] s1(2) by (auto simp: less_Suc_eq numeral_3_eq_3)
  then have b: "bo_best_offsets s' = [2]" using s'(3) by (simp add: demo_bop_knobs_def)
  have "best_lines 6400 [2] = [6528]" by code_simp
  then show ?thesis using s'(1) b by auto
qed

end
