(* ===== verification/Prefetch_Ampm.thy ===== *)
theory Prefetch_Ampm
  imports Prefetch_Base Bitmap
begin

text \<open>
  The access map pattern matching prefetcher (\<open>prefetcher/ampm.cc\<close>): per page a bitmap of the lines
  accessed; a distance is predicted when the lines one and two distances behind have both
  been accessed.
\<close>

unbundle bit_operations_syntax

section \<open>State and operations\<close>

record ampm_entry =
  pb_page_id :: u64
  pb_bitmap :: bitmap

record ampm_stats =
  as_invoke_called :: u64
  as_pb_hit :: u64
  as_pb_evict :: u64
  as_pb_insert :: u64
  as_pos_histogram :: "u64 list"
  as_neg_histogram :: "u64 list"
  as_pred_total :: u64
  as_degree_reached_pos :: u64
  as_degree_reached_neg :: u64
  as_buffer_hit :: u64
  as_buffer_dropped :: u64
  as_buffer_insert :: u64
  as_buffer_issued :: u64
  as_pref_total :: u64

record ampm =
  am_page_buffer :: "ampm_entry list"
  am_pref_buffer :: "u64 list"
  am_stats :: ampm_stats

record ampm_knobs =
  ampm_pb_size :: u32
  ampm_pred_degree :: u32
  ampm_pref_degree :: u32
  ampm_pref_buffer_size :: u32
  ampm_enable_pref_buffer :: bool
  ampm_max_delta :: u32

definition MAX_OFFSETS :: nat where "MAX_OFFSETS = 64"


text \<open>The entry of the page, its line marked, moves to the back of the page buffer.\<close>

definition track_page :: "ampm_knobs \<Rightarrow> u64 \<Rightarrow> u32 \<Rightarrow> ampm \<Rightarrow> (ampm \<times> bitmap) option" where
  "track_page k page offset s = (let st = am_stats s in
     case find_pos (\<lambda>e. pb_page_id e = page) (am_page_buffer s) of
       Some it \<Rightarrow> do {
         let e = am_page_buffer s ! it;
         b \<leftarrow> bmp_put (pb_bitmap e) (unat offset) True;
         Some (s\<lparr>am_page_buffer := erase_at it (am_page_buffer s) @ [e\<lparr>pb_page_id := page, pb_bitmap := b\<rparr>],
                 am_stats := st\<lparr>as_pb_hit := as_pb_hit st + 1\<rparr>\<rparr>, b) }
     | None \<Rightarrow> do {
         (es, st1) \<leftarrow> (if unat (ampm_pb_size k) \<le> length (am_page_buffer s)
           then (case am_page_buffer s of [] \<Rightarrow> None | _ # es \<Rightarrow> Some (es, st\<lparr>as_pb_evict := as_pb_evict st + 1\<rparr>))
           else Some (am_page_buffer s, st));
         b \<leftarrow> bmp_put 0 (unat offset) True;
         Some (s\<lparr>am_page_buffer := es @ [\<lparr>pb_page_id = page, pb_bitmap = b\<rparr>],
                 am_stats := st1\<lparr>as_pb_insert := as_pb_insert st1 + 1\<rparr>\<rparr>, b) })"

definition both_set :: "bitmap \<Rightarrow> int \<Rightarrow> int \<Rightarrow> bool option" where
  "both_set b one_hop two_hop =
     (if 0 \<le> one_hop \<and> 0 \<le> two_hop
      then do { x \<leftarrow> bmp_get b (nat one_hop); if x then bmp_get b (nat two_hop) else Some False }
      else Some False)"

text \<open>The two loops over the deltas, from \<open>n\<close> down to 1.  \<open>offset\<close> is unsigned, so the first
  comparison \<open>offset - delta >= 0\<close> always holds; the difference, read as signed, is negative when it wraps.
  \<open>2*delta\<close> must not overflow.\<close>

fun select_pos :: "bitmap \<Rightarrow> u32 \<Rightarrow> nat \<Rightarrow> int list \<Rightarrow> int list option" where
  "select_pos b offset 0 acc = Some acc"
| "select_pos b offset (Suc n) acc = do {
     let delta = int (Suc n);
     assert_that (2 * delta < 2 ^ 31);
     hit \<leftarrow> both_set b (int32 (offset - of_int delta)) (int32 (offset - of_int (2 * delta)));
     select_pos b offset n (if hit then acc @ [delta] else acc) }"

fun select_neg :: "bitmap \<Rightarrow> u32 \<Rightarrow> nat \<Rightarrow> int list \<Rightarrow> int list option" where
  "select_neg b offset 0 acc = Some acc"
| "select_neg b offset (Suc n) acc = do {
     let delta = int (Suc n);
     assert_that (2 * delta < 2 ^ 31);
     let one = (offset + of_int delta :: u32);
     let two = (offset + of_int (2 * delta) :: u32);
     hit \<leftarrow> both_set b (if one < 64 then int32 one else - 1) (if two < 64 then int32 two else - 1);
     select_neg b offset n (if hit then acc @ [delta] else acc) }"

text \<open>The loops that turn deltas into addresses: the addresses, their number, the histogram, and
  whether the degree stopped the loop.\<close>

fun predict_loop :: "ampm_knobs \<Rightarrow> u64 \<Rightarrow> (int \<Rightarrow> u32) \<Rightarrow> int list \<Rightarrow> u64 list \<Rightarrow> u32 \<Rightarrow> u64 list
    \<Rightarrow> (u64 list \<times> u32 \<times> u64 list \<times> bool) option" where
  "predict_loop k page f [] addrs count hist = Some (addrs, count, hist, False)"
| "predict_loop k page f (d # ds) addrs count hist =
     (if ampm_pred_degree k \<le> count then Some (addrs, count, hist, True)
      else do {
        assert_that (1 \<le> \<bar>d\<bar> \<and> \<bar>d\<bar> \<le> int (unat (ampm_max_delta k)));
        let pref_offset = int32 (f d);
        if 0 \<le> pref_offset \<and> pref_offset < 64
        then do {
          h \<leftarrow> arr_get hist (nat d);
          hist' \<leftarrow> arr_set hist (nat d) (h + 1);
          predict_loop k page f ds (addrs @ [pf_line page pref_offset]) (count + 1) hist' }
        else predict_loop k page f ds addrs count hist })"

text \<open>\<open>buffer_prefetch\<close> of AMPM skips addresses it holds, and drops the rest when it is full.\<close>

fun ampm_buffer_loop :: "nat \<Rightarrow> u64 list \<Rightarrow> u64 list \<Rightarrow> ampm_stats \<Rightarrow> u64 list \<times> ampm_stats" where
  "ampm_buffer_loop sz [] buf st = (buf, st)"
| "ampm_buffer_loop sz (a # as) buf st =
     (if a \<in> set buf then ampm_buffer_loop sz as buf (st\<lparr>as_buffer_hit := as_buffer_hit st + 1\<rparr>)
      else if sz \<le> length buf
      then (buf, st\<lparr>as_buffer_dropped := as_buffer_dropped st + of_nat (length (a # as))\<rparr>)
      else ampm_buffer_loop sz as (buf @ [a]) (st\<lparr>as_buffer_insert := as_buffer_insert st + 1\<rparr>))"

definition ampm_output :: "ampm_knobs \<Rightarrow> u64 list \<Rightarrow> u64 list \<Rightarrow> ampm \<Rightarrow> ampm \<times> u64 list" where
  "ampm_output k predicted pref_addr s =
     (if ampm_enable_pref_buffer k
      then (case ampm_buffer_loop (unat (ampm_pref_buffer_size k)) predicted (am_pref_buffer s) (am_stats s) of (buf, st) \<Rightarrow>
        case issue_loop (unat (ampm_pref_degree k)) buf pref_addr of (buf', out) \<Rightarrow>
          (s\<lparr>am_pref_buffer := buf', am_stats := st\<lparr>as_buffer_issued := as_buffer_issued st + of_nat (length out)\<rparr>\<rparr>, out))
      else (s, predicted))"

definition ampm_invoke :: "ampm_knobs \<Rightarrow> ampm \<Rightarrow> u64 \<Rightarrow> u64 list \<Rightarrow> (ampm \<times> u64 list) option" where
  "ampm_invoke k s address pref_addr = do {
     let page = pf_page address;
     let offset = pf_offset address;
     (s1, b) \<leftarrow> track_page k page offset
       (s\<lparr>am_stats := (am_stats s)\<lparr>as_invoke_called := as_invoke_called (am_stats s) + 1\<rparr>\<rparr>);
     let n = nat (int32 (ampm_max_delta k));
     pos \<leftarrow> select_pos b offset n [];
     neg \<leftarrow> select_neg b offset n [];
     let st = am_stats s1;
     (addrs, count, hist, reached) \<leftarrow>
       predict_loop k page (\<lambda>d. offset + of_int d) pos [] 0 (as_pos_histogram st);
     let st1 = st\<lparr>as_pos_histogram := hist,
       as_degree_reached_pos := as_degree_reached_pos st + (if reached then 1 else 0)\<rparr>;
     (addrs', count', hist', reached') \<leftarrow>
       predict_loop k page (\<lambda>d. offset - of_int d) neg addrs count (as_neg_histogram st1);
     let st2 = st1\<lparr>as_neg_histogram := hist',
       as_degree_reached_neg := as_degree_reached_neg st1 + (if reached' then 1 else 0)\<rparr>;
     let st3 = st2\<lparr>as_pred_total := as_pred_total st2 + of_nat (length addrs')\<rparr>;
     let r = ampm_output k addrs' pref_addr (s1\<lparr>am_stats := st3\<rparr>);
     let st4 = am_stats (fst r);
     Some ((fst r)\<lparr>am_stats := st4\<lparr>as_pred_total := as_pred_total st4 + of_nat (length (snd r))\<rparr>\<rparr>, snd r) }"

section \<open>What is predicted\<close>

text \<open>Bit \<open>x\<close> of a bitmap, for a signed position.\<close>

definition seen :: "bitmap \<Rightarrow> int \<Rightarrow> bool" where
  "seen b x \<longleftrightarrow> 0 \<le> x \<and> x < 64 \<and> bit b (nat x)"

definition deltas_down :: "nat \<Rightarrow> int list" where
  "deltas_down n = rev (map int [1 ..< Suc n])"

definition ampm_deltas :: "bitmap \<Rightarrow> int \<Rightarrow> int \<Rightarrow> nat \<Rightarrow> int list" where
  "ampm_deltas b off dir n = filter (\<lambda>d. seen b (off - dir * d) \<and> seen b (off - dir * (2 * d))) (deltas_down n)"

text \<open>Positive deltas come first, and greater before smaller ones.\<close>

definition ampm_offsets :: "bitmap \<Rightarrow> int \<Rightarrow> nat \<Rightarrow> int list" where
  "ampm_offsets b off n = filter (\<lambda>x. 0 \<le> x \<and> x < 64)
     (map (\<lambda>d. off + d) (ampm_deltas b off 1 n) @ map (\<lambda>d. off - d) (ampm_deltas b off (- 1) n))"

lemma deltas_down_Suc: "deltas_down (Suc n) = int (Suc n) # deltas_down n"
  by (simp add: deltas_down_def)

lemma int32_exact: "- (2 ^ 31) \<le> x \<Longrightarrow> x < 2 ^ 31 \<Longrightarrow> int32 (of_int x) = x"
  using signed_take_bit_int_eq_self [of 31 x] by (simp add: int32_def signed_of_int)

lemma offset_bounds: "0 \<le> int (unat (pf_offset a))" "int (unat (pf_offset a)) < 64"
proof -
  have "int (unat (pf_offset a)) < int 64" using pf_offset_less [of a] by (simp only: of_nat_less_iff)
  then show "int (unat (pf_offset a)) < 64" by simp
qed simp

lemma offset_plus:
  assumes "- (2 ^ 31) \<le> d" "d < 2 ^ 31 - 64"
  shows "int32 (pf_offset a + of_int d) = int (unat (pf_offset a)) + d"
proof -
  have "pf_offset a + of_int d = of_int (int (unat (pf_offset a)) + d)" by simp
  then show ?thesis using int32_exact [of "int (unat (pf_offset a)) + d"] offset_bounds [of a] assms by (simp only:)
qed

lemma offset_minus:
  assumes "- (2 ^ 31 - 64) < d" "d \<le> 2 ^ 31"
  shows "int32 (pf_offset a - of_int d) = int (unat (pf_offset a)) - d"
  using offset_plus [of "- d" a] assms by (simp only: of_int_minus diff_conv_add_uminus)

lemma both_set_eq: "x < 64 \<Longrightarrow> y < 64 \<Longrightarrow> both_set b x y = Some (seen b x \<and> seen b y)"
  by (auto simp: both_set_def bmp_get_def seen_def nat_less_iff)

lemma select_pos_eq:
  "n < 2 ^ 30 \<Longrightarrow> select_pos b (pf_offset a) n acc = Some (acc @ ampm_deltas b (int (unat (pf_offset a))) 1 n)"
proof (induction n arbitrary: acc)
  case 0
  then show ?case by (simp add: ampm_deltas_def deltas_down_def)
next
  case (Suc n)
  let ?d = "int (Suc n)" and ?off = "int (unat (pf_offset a))"
  have d: "0 < ?d" "?d < 2 ^ 30" using Suc.prems by simp_all
  have "int32 (pf_offset a - of_int ?d) = ?off - ?d" "int32 (pf_offset a - of_int (2 * ?d)) = ?off - 2 * ?d"
    by (rule offset_minus; use d in simp)+
  moreover have "?off - ?d < 64" "?off - 2 * ?d < 64" using offset_bounds(2) [of a] d by linarith+
  ultimately show ?case
    using Suc.IH Suc.prems d by (simp add: Let_def both_set_eq ampm_deltas_def deltas_down_Suc del: of_nat_Suc)
qed

lemma select_neg_eq:
  "n < 2 ^ 30 \<Longrightarrow> select_neg b (pf_offset a) n acc = Some (acc @ ampm_deltas b (int (unat (pf_offset a))) (- 1) n)"
proof (induction n arbitrary: acc)
  case 0
  then show ?case by (simp add: ampm_deltas_def deltas_down_def)
next
  case (Suc n)
  let ?d = "int (Suc n)" and ?off = "int (unat (pf_offset a))"
  have d: "0 < ?d" "?d < 2 ^ 30" using Suc.prems by simp_all
  have less: "(if pf_offset a + of_int e < 64 then int32 (pf_offset a + of_int e) else - 1) = (if ?off + e < 64 then ?off + e else - 1)"
    if e: "0 < e" "e < 2 ^ 31" for e
  proof -
    have "?off + e < 2 ^ 32" using e offset_bounds [of a] by simp
    moreover have "0 \<le> ?off + e" using e offset_bounds [of a] by linarith
    moreover have "uint (of_int x :: u32) = x" if "0 \<le> x" "x < 2 ^ 32" for x
      using that by (simp add: uint_word_of_int)
    ultimately have "uint (of_int (?off + e) :: u32) = ?off + e" by blast
    moreover have "pf_offset a + of_int e = of_int (?off + e)" by simp
    ultimately have u: "uint (pf_offset a + of_int e) = ?off + e" by (simp only:)
    have "(pf_offset a + of_int e < 64) = (?off + e < 64)" unfolding word_less_def u by simp
    moreover have "int32 (pf_offset a + of_int e) = ?off + e" if "?off + e < 64"
    proof (rule offset_plus)
      have "e < 64" using that offset_bounds(1) [of a] by linarith
      then show "e < 2 ^ 31 - 64" by simp
    qed (use e in simp)
    ultimately show ?thesis by (simp only: split: if_split) blast
  qed
  have bs: "both_set b (if pf_offset a + of_int ?d < 64 then int32 (pf_offset a + of_int ?d) else - 1)
      (if pf_offset a + of_int (2 * ?d) < 64 then int32 (pf_offset a + of_int (2 * ?d)) else - 1) =
    Some (seen b (?off + ?d) \<and> seen b (?off + 2 * ?d))"
  proof -
    have "0 < ?d" "?d < 2 ^ 31" "0 < 2 * ?d" "2 * ?d < 2 ^ 31" using d by simp_all
    note l = less [OF this(1,2)] less [OF this(3,4)]
    show ?thesis unfolding l by (subst both_set_eq) (auto simp: seen_def)
  qed
  have a: "assert_that (2 * ?d < 2 ^ 31) = Some ()" using d by simp
  have "select_neg b (pf_offset a) (Suc n) acc = select_neg b (pf_offset a) n
      (if seen b (?off + ?d) \<and> seen b (?off + 2 * ?d) then acc @ [?d] else acc)"
    by (simp only: select_neg.simps Let_def bs a Option.bind.simps)
  then show ?case
    using Suc.IH Suc.prems by (simp add: ampm_deltas_def deltas_down_Suc)
qed

lemma predict_loop_eq:
  "\<forall>d \<in> set ds. 1 \<le> d \<and> d \<le> int (unat (ampm_max_delta k)) \<and> d < int (length hist) \<Longrightarrow> unat count = length addrs \<Longrightarrow>
   length addrs \<le> unat (ampm_pred_degree k) \<Longrightarrow>
   \<exists>addrs' count' hist' r. predict_loop k page f ds addrs count hist = Some (addrs', count', hist', r) \<and>
     addrs' = take (unat (ampm_pred_degree k))
       (addrs @ map (pf_line page) (filter (\<lambda>x. 0 \<le> x \<and> x < 64) (map (\<lambda>d. int32 (f d)) ds))) \<and>
     unat count' = length addrs' \<and> length hist' = length hist"
proof (induction ds arbitrary: addrs count hist)
  case (Cons d ds)
  show ?case
  proof (cases "ampm_pred_degree k \<le> count")
    case True
    then have "length addrs = unat (ampm_pred_degree k)" using Cons.prems(2,3) by (simp add: word_le_nat_alt)
    then show ?thesis using True Cons.prems(2) by auto
  next
    case False
    then have c: "unat count < unat (ampm_pred_degree k)" by (simp add: word_less_nat_alt not_le)
    then have c1: "unat (count + 1) = unat count + 1"
      using unsigned_less [of "ampm_pred_degree k", where ?'a = nat] by (simp add: unat_add_lem [THEN iffD1])
    have d: "1 \<le> \<bar>d\<bar> \<and> \<bar>d\<bar> \<le> int (unat (ampm_max_delta k))" "nat d < length hist" using Cons.prems(1) by auto
    show ?thesis
    proof (cases "0 \<le> int32 (f d) \<and> int32 (f d) < 64")
      case True
      have "\<exists>addrs' count' hist' r. predict_loop k page f ds (addrs @ [pf_line page (int32 (f d))]) (count + 1)
          (hist[nat d := hist ! nat d + 1]) = Some (addrs', count', hist', r) \<and>
        addrs' = take (unat (ampm_pred_degree k)) ((addrs @ [pf_line page (int32 (f d))]) @
          map (pf_line page) (filter (\<lambda>x. 0 \<le> x \<and> x < 64) (map (\<lambda>d. int32 (f d)) ds))) \<and>
        unat count' = length addrs' \<and> length hist' = length (hist[nat d := hist ! nat d + 1])"
        using Cons.prems c c1 by (intro Cons.IH) simp_all
      then show ?thesis using False True d by (simp add: Let_def)
    next
      case out: False
      have "\<exists>addrs' count' hist' r. predict_loop k page f ds addrs count hist = Some (addrs', count', hist', r) \<and>
        addrs' = take (unat (ampm_pred_degree k)) (addrs @
          map (pf_line page) (filter (\<lambda>x. 0 \<le> x \<and> x < 64) (map (\<lambda>d. int32 (f d)) ds))) \<and>
        unat count' = length addrs' \<and> length hist' = length hist"
        using Cons.prems by (intro Cons.IH) simp_all
      then show ?thesis using False out d(1) by (auto simp: Let_def)
    qed
  qed
qed auto

lemma ampm_deltas_range:
  assumes "d \<in> set (ampm_deltas b off dir n)" "dir = 1 \<or> dir = - 1" "0 \<le> off" "off < 64"
  shows "1 \<le> d \<and> d \<le> int n \<and> d < 32"
  using assms by (auto simp: ampm_deltas_def deltas_down_def seen_def)

section \<open>The invariant\<close>

definition ampm_ok :: "ampm_knobs \<Rightarrow> ampm \<Rightarrow> bool" where
  "ampm_ok k s \<longleftrightarrow> ampm_pb_size k \<noteq> 0 \<and> unat (ampm_max_delta k) < 2 ^ 30 \<and>
     length (am_page_buffer s) \<le> unat (ampm_pb_size k) \<and> distinct (map pb_page_id (am_page_buffer s)) \<and>
     length (as_pos_histogram (am_stats s)) = MAX_OFFSETS \<and> length (as_neg_histogram (am_stats s)) = MAX_OFFSETS"

text \<open>The lines of a page accessed so far.\<close>

definition access_map :: "ampm \<Rightarrow> u64 \<Rightarrow> bitmap" where
  "access_map s page = (case find (\<lambda>e. pb_page_id e = page) (am_page_buffer s) of Some e \<Rightarrow> pb_bitmap e | None \<Rightarrow> 0)"

lemma find_pos_find: "find_pos P xs = Some i \<Longrightarrow> find P xs = Some (xs ! i)"
  by (induction xs arbitrary: i) (auto split: if_splits)

lemma find_pos_find_None: "find_pos P xs = None \<Longrightarrow> find P xs = None"
  by (simp add: find_pos_None find_None_iff)

lemma bmp_put_offset: "bmp_put b (unat (pf_offset a)) True = Some (set_bit (unat (pf_offset a)) b)"
  using pf_offset_less [of a] by (simp add: bmp_put_def)

lemma track_page_ok:
  fixes a :: u64
  assumes ok: "ampm_ok k s"
  defines "b \<equiv> set_bit (unat (pf_offset a)) (access_map s (pf_page a))"
  shows "\<exists>s1. track_page k (pf_page a) (pf_offset a) s = Some (s1, b) \<and> ampm_ok k s1 \<and>
    am_page_buffer s1 \<noteq> [] \<and> last (am_page_buffer s1) = \<lparr>pb_page_id = pf_page a, pb_bitmap = b\<rparr> \<and>
    am_pref_buffer s1 = am_pref_buffer s"
proof (cases "find_pos (\<lambda>e. pb_page_id e = pf_page a) (am_page_buffer s)")
  case (Some it)
  let ?e = "am_page_buffer s ! it"
  have it: "it < length (am_page_buffer s)" "pb_page_id ?e = pf_page a" using find_pos_Some [OF Some] by auto
  have b: "b = set_bit (unat (pf_offset a)) (pb_bitmap ?e)"
    using find_pos_find [OF Some] by (simp add: b_def access_map_def)
  have d: "distinct (map pb_page_id (am_page_buffer s))" using ok by (simp add: ampm_ok_def)
  have "set (map pb_page_id (erase_at it (am_page_buffer s))) = set (map pb_page_id (am_page_buffer s)) - {pf_page a}"
    using set_erase_at_distinct [OF d, of it] it by (simp add: map_erase_at)
  moreover have "Suc (length (am_page_buffer s) - Suc 0) = length (am_page_buffer s)" using it(1) by simp
  ultimately show ?thesis
    using ok it erase_at_distinct [OF d, of it]
    by (simp add: track_page_def Some Let_def bmp_put_offset b ampm_ok_def map_erase_at [symmetric])
next
  case None
  have b: "b = set_bit (unat (pf_offset a)) 0" using find_pos_find_None [OF None] by (simp add: b_def access_map_def)
  have n: "0 < unat (ampm_pb_size k)" using ok by (simp add: ampm_ok_def unat_gt_0)
  have new: "pf_page a \<notin> pb_page_id ` set (am_page_buffer s)" using None by (auto simp: find_pos_None)
  show ?thesis
  proof (cases "am_page_buffer s")
    case Nil
    then show ?thesis using ok n b by (simp add: track_page_def Let_def bmp_put_offset ampm_ok_def)
  next
    case (Cons e es)
    then show ?thesis using ok n b new None
      by (auto simp: track_page_def Let_def bmp_put_offset ampm_ok_def)
  qed
qed

lemma ampm_invoke_eq:
  fixes a :: u64
  assumes ok: "ampm_ok k s" and nb: "\<not> ampm_enable_pref_buffer k"
  defines "b \<equiv> set_bit (unat (pf_offset a)) (access_map s (pf_page a))"
  shows "\<exists>s'. ampm_invoke k s a [] = Some (s', map (pf_line (pf_page a)) (take (unat (ampm_pred_degree k))
      (ampm_offsets b (int (unat (pf_offset a))) (unat (ampm_max_delta k))))) \<and> ampm_ok k s' \<and>
    am_page_buffer s' \<noteq> [] \<and> last (am_page_buffer s') = \<lparr>pb_page_id = pf_page a, pb_bitmap = b\<rparr>"
proof -
  let ?s = "s\<lparr>am_stats := (am_stats s)\<lparr>as_invoke_called := as_invoke_called (am_stats s) + 1\<rparr>\<rparr>"
  let ?off = "int (unat (pf_offset a))" and ?n = "unat (ampm_max_delta k)" and ?D = "unat (ampm_pred_degree k)"
  have "ampm_ok k ?s" "access_map ?s (pf_page a) = access_map s (pf_page a)" using ok by (simp_all add: ampm_ok_def access_map_def)
  from track_page_ok [OF this(1), of a] this(2) obtain s1 where
    s1: "track_page k (pf_page a) (pf_offset a) ?s = Some (s1, b)" "ampm_ok k s1" "am_page_buffer s1 \<noteq> []"
    "last (am_page_buffer s1) = \<lparr>pb_page_id = pf_page a, pb_bitmap = b\<rparr>" by (auto simp: b_def)
  have n: "?n < 2 ^ 30" using ok by (simp add: ampm_ok_def)
  have "int ?n < int (2 ^ 30)" using n by (simp only: of_nat_less_iff)
  then have "int ?n < 2 ^ 31" by simp
  moreover have "- (2 ^ 31) \<le> int ?n" by (rule order_trans [of _ 0]) simp_all
  ultimately have "int32 (ampm_max_delta k) = int ?n"
    using int32_exact [of "int ?n"] by simp
  then have N: "nat (int32 (ampm_max_delta k)) = ?n" by simp
  let ?P = "ampm_deltas b ?off 1 ?n" and ?N = "ampm_deltas b ?off (- 1) ?n"
  note pos = select_pos_eq [OF n, of b a "[]"] and neg = select_neg_eq [OF n, of b a "[]"]
  let ?hp = "as_pos_histogram (am_stats s1)" and ?hn = "as_neg_histogram (am_stats s1)"
  have h: "length ?hp = 64" "length ?hn = 64" using s1(2) by (simp_all add: ampm_ok_def MAX_OFFSETS_def)
  have rng: "1 \<le> d \<and> d \<le> int ?n \<and> d < 32" if "d \<in> set ?P \<or> d \<in> set ?N" for d
    using that ampm_deltas_range [of d b ?off _ ?n] offset_bounds [of a] by blast
  have fp: "map (\<lambda>d. int32 (pf_offset a + of_int d)) ?P = map (\<lambda>d. ?off + d) ?P"
    by (rule map_cong [OF refl], rule offset_plus) (use rng in force)+
  have fn: "map (\<lambda>d. int32 (pf_offset a - of_int d)) ?N = map (\<lambda>d. ?off - d) ?N"
    by (rule map_cong [OF refl], rule offset_minus) (use rng in force)+
  have "\<forall>d \<in> set ?P. 1 \<le> d \<and> d \<le> int ?n \<and> d < int (length ?hp)" using rng h(1) by force
  from predict_loop_eq [OF this, of 0 "[]" "pf_page a" "\<lambda>d. pf_offset a + of_int d"] obtain A c hp' r where
    A: "predict_loop k (pf_page a) (\<lambda>d. pf_offset a + of_int d) ?P [] 0 ?hp = Some (A, c, hp', r)"
    "A = take ?D (map (pf_line (pf_page a)) (filter (\<lambda>x. 0 \<le> x \<and> x < 64) (map (\<lambda>d. ?off + d) ?P)))"
    "unat c = length A" "length hp' = length ?hp" unfolding fp by auto
  have "\<forall>d \<in> set ?N. 1 \<le> d \<and> d \<le> int ?n \<and> d < int (length ?hn)" using rng h(2) by force
  from predict_loop_eq [OF this A(3), of "pf_page a" "\<lambda>d. pf_offset a - of_int d"] A(2) obtain B c' hn' r' where
    B: "predict_loop k (pf_page a) (\<lambda>d. pf_offset a - of_int d) ?N A c ?hn = Some (B, c', hn', r')"
    "B = take ?D (A @ map (pf_line (pf_page a)) (filter (\<lambda>x. 0 \<le> x \<and> x < 64) (map (\<lambda>d. ?off - d) ?N)))"
    "length hn' = length ?hn" unfolding fn by auto
  have "B = map (pf_line (pf_page a)) (take ?D (ampm_offsets b ?off ?n))"
    unfolding B(2) A(2) by (simp add: ampm_offsets_def take_map [symmetric] min_def)
  then show ?thesis
    using s1 A(1,4) B(1,3) nb
    by (simp add: ampm_invoke_def Let_def pos neg N ampm_output_def ampm_ok_def)
qed

lemma ampm_step:
  assumes ok: "ampm_ok k s" and nb: "\<not> ampm_enable_pref_buffer k"
  shows "\<exists>s' out. ampm_invoke k s a [] = Some (s', out) \<and> ampm_ok k s' \<and> in_page (unat (ampm_pred_degree k)) a out"
proof -
  let ?offs = "take (unat (ampm_pred_degree k)) (ampm_offsets (set_bit (unat (pf_offset a)) (access_map s (pf_page a)))
    (int (unat (pf_offset a))) (unat (ampm_max_delta k)))"
  have "in_page (unat (ampm_pred_degree k)) a (map (pf_line (pf_page a)) ?offs)"
    by (rule in_page_lines) (auto simp: ampm_offsets_def dest: in_set_takeD)
  with ampm_invoke_eq [OF ok nb, of a] show ?thesis by blast
qed

interpretation ampm: page_prefetcher "\<lambda>s a. ampm_invoke k s a []" "\<lambda>a. a" "unat (ampm_pred_degree k)"
  "\<lambda>_. \<not> ampm_enable_pref_buffer k" "ampm_ok k" for k
  by unfold_locales (rule ampm_step)

section \<open>Properties\<close>





end
