(* ===== verification/Prefetch_Sms.thy ===== *)
theory Prefetch_Sms
  imports Prefetch_Base Bitmap
begin

text \<open>
  The spatial memory streaming prefetcher (\<open>prefetcher/sms.cc\<close>).  A region is first seen in the
  filter table, then its lines are gathered in the accumulation table, and when it is evicted from
  there the pattern goes to the pattern history table under the instruction and the offset that
  started it; the next region started the same way is prefetched by that pattern.
\<close>

unbundle bit_operations_syntax

section \<open>State\<close>

record ft_entry =
  ft_page :: u64
  ft_pc :: u64
  ft_trigger_offset :: u32

record at_entry =
  at_page :: u64
  at_pc :: u64
  at_trigger_offset :: u32
  at_pattern :: bitmap
  at_age :: u32

record pht_entry =
  ph_signature :: u64
  ph_pattern :: bitmap
  ph_age :: u32

record table_stats =
  ts_lookup :: u64
  ts_hit :: u64
  ts_insert :: u64
  ts_evict :: u64

record sms_stats =
  mt_ft :: table_stats
  mt_at :: table_stats
  mt_pht :: table_stats
  mt_called :: u64
  mt_pht_miss :: u64
  mt_pref_generated :: u64
  mt_spilled :: u64
  mt_buffered :: u64
  mt_issued :: u64

record sms =
  sm_filter_table :: "ft_entry list"
  sm_acc_table :: "at_entry list"
  sm_pht :: "pht_entry list list"
  sm_pht_sets :: u32
  sm_pref_buffer :: "u64 list"
  sm_stats :: sms_stats

record sms_knobs =
  sms_at_size :: u32
  sms_ft_size :: u32
  sms_pht_size :: u32
  sms_pht_assoc :: u32
  sms_pref_degree :: u32
  sms_region_size_log :: u32
  sms_enable_pref_buffer :: bool
  sms_pref_buffer_size :: u32

definition zero_table_stats :: table_stats where
  "zero_table_stats = \<lparr>ts_lookup = 0, ts_hit = 0, ts_insert = 0, ts_evict = 0\<rparr>"

definition new_sms :: "sms_knobs \<Rightarrow> sms option" where
  "new_sms k = do {
     assert_that (sms_pht_assoc k \<noteq> 0);
     let sets = sms_pht_size k div sms_pht_assoc k;
     Some \<lparr>sm_filter_table = [], sm_acc_table = [], sm_pht = replicate (unat sets) [], sm_pht_sets = sets,
       sm_pref_buffer = [], sm_stats = \<lparr>mt_ft = zero_table_stats, mt_at = zero_table_stats, mt_pht = zero_table_stats,
         mt_called = 0, mt_pht_miss = 0, mt_pref_generated = 0, mt_spilled = 0, mt_buffered = 0, mt_issued = 0\<rparr>\<rparr> }"

definition count_lookup :: "table_stats \<Rightarrow> table_stats" where
  "count_lookup t = t\<lparr>ts_lookup := ts_lookup t + 1\<rparr>"

definition count_hit :: "table_stats \<Rightarrow> table_stats" where
  "count_hit t = t\<lparr>ts_hit := ts_hit t + 1\<rparr>"

definition count_insert :: "table_stats \<Rightarrow> table_stats" where
  "count_insert t = t\<lparr>ts_insert := ts_insert t + 1\<rparr>"

definition count_evict :: "table_stats \<Rightarrow> table_stats" where
  "count_evict t = t\<lparr>ts_evict := ts_evict t + 1\<rparr>"

definition on_ft :: "(table_stats \<Rightarrow> table_stats) \<Rightarrow> sms \<Rightarrow> sms" where
  "on_ft f s = s\<lparr>sm_stats := (sm_stats s)\<lparr>mt_ft := f (mt_ft (sm_stats s))\<rparr>\<rparr>"

definition on_at :: "(table_stats \<Rightarrow> table_stats) \<Rightarrow> sms \<Rightarrow> sms" where
  "on_at f s = s\<lparr>sm_stats := (sm_stats s)\<lparr>mt_at := f (mt_at (sm_stats s))\<rparr>\<rparr>"

definition on_pht :: "(table_stats \<Rightarrow> table_stats) \<Rightarrow> sms \<Rightarrow> sms" where
  "on_pht f s = s\<lparr>sm_stats := (sm_stats s)\<lparr>mt_pht := f (mt_pht (sm_stats s))\<rparr>\<rparr>"

section \<open>Operations\<close>

text \<open>Regions.  A shift by 64 or more, which a logarithm below 6 wraps to, is undefined.\<close>

definition region_shift :: "sms_knobs \<Rightarrow> nat option" where
  "region_shift k = (if 6 \<le> sms_region_size_log k \<and> sms_region_size_log k < 64
     then Some (unat (sms_region_size_log k)) else None)"

definition region_of :: "nat \<Rightarrow> u64 \<Rightarrow> u64" where
  "region_of l address = drop_bit l address"

definition region_offset :: "nat \<Rightarrow> u64 \<Rightarrow> u32" where
  "region_offset l address = ucast (drop_bit LOG2_BLOCK_SIZE address AND (push_bit (l - LOG2_BLOCK_SIZE) 1 - 1))"

definition create_signature :: "nat \<Rightarrow> u64 \<Rightarrow> u32 \<Rightarrow> u64" where
  "create_signature l pc offset = push_bit (l - LOG2_BLOCK_SIZE) pc + ucast offset"

text \<open>The position of the greatest age, the last of equals; none in an empty table.\<close>

fun victim_loop :: "u32 list \<Rightarrow> nat \<Rightarrow> u32 \<Rightarrow> nat option \<Rightarrow> nat option" where
  "victim_loop [] i max_age victim = victim"
| "victim_loop (a # as) i max_age victim =
     (if max_age \<le> a then victim_loop as (i + 1) a (Some i) else victim_loop as (i + 1) max_age victim)"

definition evict_filter_table :: "nat \<Rightarrow> sms \<Rightarrow> sms option" where
  "evict_filter_table i s = do {
     assert_that (i < length (sm_filter_table s));
     Some ((on_ft count_evict s)\<lparr>sm_filter_table := erase_at i (sm_filter_table s)\<rparr>) }"

definition insert_filter_table :: "sms_knobs \<Rightarrow> u64 \<Rightarrow> u64 \<Rightarrow> u32 \<Rightarrow> sms \<Rightarrow> sms option" where
  "insert_filter_table k pc page offset s0 = do {
     let s = on_ft count_insert s0;
     s1 \<leftarrow> (if unat (sms_ft_size k) \<le> length (sm_filter_table s) then evict_filter_table 0 s else Some s);
     Some (s1\<lparr>sm_filter_table := sm_filter_table s1 @ [\<lparr>ft_page = page, ft_pc = pc, ft_trigger_offset = offset\<rparr>]\<rparr>) }"

text \<open>The set of a signature; \<open>set\<close> is an \<open>int32_t\<close>.\<close>

definition pht_set :: "sms \<Rightarrow> u64 \<Rightarrow> nat option" where
  "pht_set s signature = do {
     assert_that (sm_pht_sets s \<noteq> 0);
     let w = signature mod ucast (sm_pht_sets s);
     assert_that (w < 2147483648 \<and> unat w < length (sm_pht s));
     Some (unat w) }"

definition search_pht :: "u64 \<Rightarrow> pht_entry list \<Rightarrow> nat option" where
  "search_pht signature es = find_pos (\<lambda>e. ph_signature e = signature) es"

definition age_pht :: "nat \<Rightarrow> pht_entry list \<Rightarrow> pht_entry list" where
  "age_pht i es = (map (\<lambda>e. e\<lparr>ph_age := ph_age e + 1\<rparr>) es)[i := (es ! i)\<lparr>ph_age := 0\<rparr>]"

definition insert_pht_table :: "sms_knobs \<Rightarrow> nat \<Rightarrow> at_entry \<Rightarrow> sms \<Rightarrow> sms option" where
  "insert_pht_table k l e s0 = do {
     let s = on_pht count_lookup s0;
     let signature = create_signature l (at_pc e) (at_trigger_offset e);
     i \<leftarrow> pht_set s signature;
     let es = sm_pht s ! i;
     (case search_pht signature es of
       Some j \<Rightarrow> Some ((on_pht count_hit s)\<lparr>sm_pht := (sm_pht s)
         [i := age_pht j (es[j := (es ! j)\<lparr>ph_pattern := at_pattern e\<rparr>])]\<rparr>)
     | None \<Rightarrow> do {
         (es1, s1) \<leftarrow> (if unat (sms_pht_assoc k) \<le> length es
           then do {
             v \<leftarrow> victim_loop (map ph_age es) 0 0 None;
             Some (erase_at v es, on_pht count_evict s) }
           else Some (es, s));
         let es2 = map (\<lambda>p. p\<lparr>ph_age := 0\<rparr>) es1 @ [\<lparr>ph_signature = signature, ph_pattern = at_pattern e, ph_age = 0\<rparr>];
         Some ((on_pht count_insert s1)\<lparr>sm_pht := (sm_pht s1)[i := es2]\<rparr>) }) }"

definition evict_acc_table :: "sms_knobs \<Rightarrow> nat \<Rightarrow> nat \<Rightarrow> sms \<Rightarrow> sms option" where
  "evict_acc_table k l i s = do {
     e \<leftarrow> arr_get (sm_acc_table s) i;
     s1 \<leftarrow> insert_pht_table k l e (on_at count_evict s);
     Some (s1\<lparr>sm_acc_table := erase_at i (sm_acc_table s1)\<rparr>) }"

definition insert_acc_table :: "sms_knobs \<Rightarrow> nat \<Rightarrow> ft_entry \<Rightarrow> u32 \<Rightarrow> sms \<Rightarrow> sms option" where
  "insert_acc_table k l f offset s0 = do {
     let s = on_at count_insert s0;
     s1 \<leftarrow> (if unat (sms_at_size k) \<le> length (sm_acc_table s)
       then do { v \<leftarrow> victim_loop (map at_age (sm_acc_table s)) 0 0 None; evict_acc_table k l v s }
       else Some s);
     p \<leftarrow> bmp_put 0 (unat (ft_trigger_offset f)) True;
     p' \<leftarrow> bmp_put p (unat offset) True;
     Some (s1\<lparr>sm_acc_table := map (\<lambda>e. e\<lparr>at_age := at_age e + 1\<rparr>) (sm_acc_table s1) @
       [\<lparr>at_page = ft_page f, at_pc = ft_pc f, at_trigger_offset = ft_trigger_offset f, at_pattern = p', at_age = 0\<rparr>]\<rparr>) }"

definition age_acc :: "nat \<Rightarrow> at_entry list \<Rightarrow> at_entry list" where
  "age_acc i es = (map (\<lambda>e. e\<lparr>at_age := at_age e + 1\<rparr>) es)[i := (es ! i)\<lparr>at_age := 0\<rparr>]"

text \<open>The addresses of a pattern but for the trigger itself.\<close>

definition pattern_lines :: "nat \<Rightarrow> u64 \<Rightarrow> u32 \<Rightarrow> bitmap \<Rightarrow> u64 list" where
  "pattern_lines l page offset p = map (\<lambda>i. push_bit l page + of_nat (i * 2 ^ LOG2_BLOCK_SIZE))
     (filter (\<lambda>i. bit p i \<and> unat offset \<noteq> i) [0 ..< 64])"

definition sms_generate :: "nat \<Rightarrow> u64 \<Rightarrow> u64 \<Rightarrow> u32 \<Rightarrow> u64 list \<Rightarrow> sms \<Rightarrow> (sms \<times> u64 list) option" where
  "sms_generate l pc page offset pref_addr s0 = do {
     let s = s0\<lparr>sm_stats := (sm_stats s0)\<lparr>mt_called := mt_called (sm_stats s0) + 1\<rparr>\<rparr>;
     let signature = create_signature l pc offset;
     i \<leftarrow> pht_set s signature;
     let es = sm_pht s ! i;
     (case search_pht signature es of
       None \<Rightarrow> Some (s\<lparr>sm_stats := (sm_stats s)\<lparr>mt_pht_miss := mt_pht_miss (sm_stats s) + 1\<rparr>\<rparr>, pref_addr)
     | Some j \<Rightarrow> (let out = pref_addr @ pattern_lines l page offset (ph_pattern (es ! j)) in
         Some (s\<lparr>sm_pht := (sm_pht s)[i := age_pht j es],
           sm_stats := (sm_stats s)\<lparr>mt_pref_generated := mt_pref_generated (sm_stats s) + of_nat (length out)\<rparr>\<rparr>, out))) }"

definition sms_buffer_prefetch :: "sms_knobs \<Rightarrow> u64 list \<Rightarrow> sms \<Rightarrow> sms" where
  "sms_buffer_prefetch k pref_addr s = (case buffer_loop (unat (sms_pref_buffer_size k)) pref_addr (sm_pref_buffer s) 0 of
     (buf, count) \<Rightarrow> s\<lparr>sm_pref_buffer := buf, sm_stats := (sm_stats s)
       \<lparr>mt_buffered := mt_buffered (sm_stats s) + count,
        mt_spilled := mt_spilled (sm_stats s) + (of_nat (length pref_addr) - count)\<rparr>\<rparr>)"

definition sms_issue_prefetch :: "sms_knobs \<Rightarrow> u64 list \<Rightarrow> sms \<Rightarrow> sms \<times> u64 list" where
  "sms_issue_prefetch k pref_addr s = (case issue_loop (unat (sms_pref_degree k)) (sm_pref_buffer s) pref_addr of
     (buf, out) \<Rightarrow> (s\<lparr>sm_pref_buffer := buf, sm_stats := (sm_stats s)
       \<lparr>mt_issued := mt_issued (sm_stats s) + of_nat (length out)\<rparr>\<rparr>, out))"

definition sms_invoke :: "sms_knobs \<Rightarrow> sms \<Rightarrow> u64 \<Rightarrow> u64 \<Rightarrow> u64 list \<Rightarrow> (sms \<times> u64 list) option" where
  "sms_invoke k s0 pc address pref_addr = do {
     l \<leftarrow> region_shift k;
     let page = region_of l address;
     let offset = region_offset l address;
     let s = on_at count_lookup s0;
     (s1, out) \<leftarrow> (case find_pos (\<lambda>e. at_page e = page) (sm_acc_table s) of
       Some i \<Rightarrow> do {
         p \<leftarrow> bmp_put (at_pattern (sm_acc_table s ! i)) (unat offset) True;
         Some ((on_at count_hit s)\<lparr>sm_acc_table := age_acc i
           ((sm_acc_table s)[i := (sm_acc_table s ! i)\<lparr>at_pattern := p\<rparr>])\<rparr>, pref_addr) }
     | None \<Rightarrow> (let t = on_ft count_lookup s in
         case find_pos (\<lambda>e. ft_page e = page) (sm_filter_table t) of
           Some i \<Rightarrow> do {
             t1 \<leftarrow> insert_acc_table k l (sm_filter_table t ! i) offset (on_ft count_hit t);
             t2 \<leftarrow> evict_filter_table i t1;
             Some (t2, pref_addr) }
         | None \<Rightarrow> do {
             t1 \<leftarrow> insert_filter_table k pc page offset t;
             (t2, out) \<leftarrow> sms_generate l pc page offset pref_addr t1;
             Some (if sms_enable_pref_buffer k then (sms_buffer_prefetch k out t2, []) else (t2, out)) }));
     Some (if sms_enable_pref_buffer k then sms_issue_prefetch k out s1 else (s1, out)) }"

section \<open>The invariant\<close>

definition confined :: "nat \<Rightarrow> bitmap \<Rightarrow> bool" where
  "confined l p \<longleftrightarrow> (\<forall>i. bit p i \<longrightarrow> i < 2 ^ (l - 6))"

definition set_ok :: "sms_knobs \<Rightarrow> nat \<Rightarrow> pht_entry list \<Rightarrow> bool" where
  "set_ok k l es \<longleftrightarrow> length es \<le> unat (sms_pht_assoc k) \<and> distinct (map ph_signature es) \<and>
     (\<forall>e \<in> set es. confined l (ph_pattern e))"

definition pht_ok :: "sms_knobs \<Rightarrow> nat \<Rightarrow> sms \<Rightarrow> bool" where
  "pht_ok k l s \<longleftrightarrow> sms_pht_assoc k \<noteq> 0 \<and> sm_pht_sets s \<noteq> 0 \<and> unat (sm_pht_sets s) \<le> 2 ^ 31 \<and>
     length (sm_pht s) = unat (sm_pht_sets s) \<and> (\<forall>es \<in> set (sm_pht s). set_ok k l es)"

definition at_ok :: "sms_knobs \<Rightarrow> nat \<Rightarrow> at_entry list \<Rightarrow> bool" where
  "at_ok k l es \<longleftrightarrow> sms_at_size k \<noteq> 0 \<and> length es \<le> unat (sms_at_size k) \<and> distinct (map at_page es) \<and>
     (\<forall>e \<in> set es. unat (at_trigger_offset e) < 2 ^ (l - 6) \<and> confined l (at_pattern e))"

definition ft_ok :: "sms_knobs \<Rightarrow> nat \<Rightarrow> ft_entry list \<Rightarrow> bool" where
  "ft_ok k l es \<longleftrightarrow> sms_ft_size k \<noteq> 0 \<and> length es \<le> unat (sms_ft_size k) \<and> distinct (map ft_page es) \<and>
     (\<forall>e \<in> set es. unat (ft_trigger_offset e) < 2 ^ (l - 6))"

definition sms_ok :: "sms_knobs \<Rightarrow> sms \<Rightarrow> bool" where
  "sms_ok k s \<longleftrightarrow> (let l = unat (sms_region_size_log k) in 6 \<le> l \<and> l \<le> 12 \<and>
     pht_ok k l s \<and> at_ok k l (sm_acc_table s) \<and> ft_ok k l (sm_filter_table s) \<and>
     at_page ` set (sm_acc_table s) \<inter> ft_page ` set (sm_filter_table s) = {})"

text \<open>The pattern on record for a signature.\<close>

definition recorded :: "sms \<Rightarrow> u64 \<Rightarrow> bitmap option" where
  "recorded s signature = do {
     i \<leftarrow> pht_set s signature;
     j \<leftarrow> search_pht signature (sm_pht s ! i);
     Some (ph_pattern (sm_pht s ! i ! j)) }"

lemma on_stats_simps [simp]:
  "sm_filter_table (on_ft f s) = sm_filter_table s" "sm_acc_table (on_ft f s) = sm_acc_table s" "sm_pht (on_ft f s) = sm_pht s"
  "sm_pht_sets (on_ft f s) = sm_pht_sets s" "sm_pref_buffer (on_ft f s) = sm_pref_buffer s"
  "sm_filter_table (on_at f s) = sm_filter_table s" "sm_acc_table (on_at f s) = sm_acc_table s" "sm_pht (on_at f s) = sm_pht s"
  "sm_pht_sets (on_at f s) = sm_pht_sets s" "sm_pref_buffer (on_at f s) = sm_pref_buffer s"
  "sm_filter_table (on_pht f s) = sm_filter_table s" "sm_acc_table (on_pht f s) = sm_acc_table s" "sm_pht (on_pht f s) = sm_pht s"
  "sm_pht_sets (on_pht f s) = sm_pht_sets s" "sm_pref_buffer (on_pht f s) = sm_pref_buffer s"
  by (simp_all add: on_ft_def on_at_def on_pht_def)

lemma pht_ok_cong: "sm_pht s' = sm_pht s \<Longrightarrow> sm_pht_sets s' = sm_pht_sets s \<Longrightarrow> pht_ok k l s' = pht_ok k l s"
  by (simp add: pht_ok_def)

lemma pht_set_cong: "length (sm_pht s') = length (sm_pht s) \<Longrightarrow> sm_pht_sets s' = sm_pht_sets s \<Longrightarrow> pht_set s' x = pht_set s x"
  by (simp add: pht_set_def)

lemma recorded_cong: "sm_pht s' = sm_pht s \<Longrightarrow> sm_pht_sets s' = sm_pht_sets s \<Longrightarrow> recorded s' = recorded s"
  by (simp add: recorded_def fun_eq_iff pht_set_def)

lemma pht_set_ok: "pht_ok k l s \<Longrightarrow> \<exists>i. pht_set s x = Some i \<and> i < length (sm_pht s)"
proof -
  assume ok: "pht_ok k l s"
  then have n: "0 < unat (sm_pht_sets s)" "unat (sm_pht_sets s) \<le> 2 ^ 31" by (simp_all add: pht_ok_def unat_gt_0)
  have "unat (x mod ucast (sm_pht_sets s)) = unat x mod unat (sm_pht_sets s)"
    by (simp add: unat_mod unsigned_ucast_eq take_bit_nat_eq_self order.strict_trans [OF unsigned_less])
  then have "unat (x mod ucast (sm_pht_sets s)) < unat (sm_pht_sets s)" using n(1) by simp
  then show ?thesis using ok n(2) by (simp add: pht_set_def pht_ok_def Let_def word_less_nat_alt)
qed

text \<open>The victim is the last entry of the greatest age.\<close>

definition oldest_at :: "at_entry list \<Rightarrow> nat \<Rightarrow> bool" where
  "oldest_at es v \<longleftrightarrow> v < length es \<and> (\<forall>j < length es. at_age (es ! j) \<le> at_age (es ! v) \<and>
     (v < j \<longrightarrow> at_age (es ! j) < at_age (es ! v)))"

lemma victim_loop_greatest:
  "if \<forall>a \<in> set as. a < m then victim_loop as i m v = v
   else \<exists>w < length as. victim_loop as i m v = Some (i + w) \<and> m \<le> as ! w \<and>
     (\<forall>j < length as. as ! j \<le> as ! w \<and> (w < j \<longrightarrow> as ! j < as ! w))"
proof (induction as arbitrary: i m v)
  case (Cons a as)
  show ?case
  proof (cases "m \<le> a")
    case ge: True
    then have v: "victim_loop (a # as) i m v = victim_loop as (i + 1) a (Some i)" by simp
    have n: "\<not> (\<forall>b \<in> set (a # as). b < m)" using ge by auto
    show ?thesis
    proof (cases "\<forall>b \<in> set as. b < a")
      case True
      then have "victim_loop as (i + 1) a (Some i) = Some i" using Cons.IH [of a "i + 1" "Some i"] by simp
      moreover have "(a # as) ! j \<le> a \<and> (0 < j \<longrightarrow> (a # as) ! j < a)" if "j < length (a # as)" for j
        using True that by (cases j) (auto simp: less_imp_le)
      ultimately show ?thesis unfolding if_not_P [OF n] v using ge by (intro exI [of _ 0]) simp
    next
      case False
      then obtain w where w: "w < length as" "victim_loop as (i + 1) a (Some i) = Some (i + 1 + w)" "a \<le> as ! w"
        "\<forall>j < length as. as ! j \<le> as ! w \<and> (w < j \<longrightarrow> as ! j < as ! w)"
        using Cons.IH [of a "i + 1" "Some i", unfolded if_not_P [OF False]] by blast
      have "(a # as) ! j \<le> as ! w \<and> (Suc w < j \<longrightarrow> (a # as) ! j < as ! w)" if "j < length (a # as)" for j
        using w(3,4) that by (cases j) auto
      then show ?thesis unfolding if_not_P [OF n] v using ge w(1-3) by (intro exI [of _ "Suc w"]) auto
    qed
  next
    case lt: False
    then have v: "victim_loop (a # as) i m v = victim_loop as (i + 1) m v" by simp
    show ?thesis
    proof (cases "\<forall>b \<in> set as. b < m")
      case True
      then show ?thesis using lt v Cons.IH [of m "i + 1" v] by auto
    next
      case False
      then obtain w where w: "w < length as" "victim_loop as (i + 1) m v = Some (i + 1 + w)" "m \<le> as ! w"
        "\<forall>j < length as. as ! j \<le> as ! w \<and> (w < j \<longrightarrow> as ! j < as ! w)"
        using Cons.IH [of m "i + 1" v, unfolded if_not_P [OF False]] by blast
      have n: "\<not> (\<forall>b \<in> set (a # as). b < m)" using False by auto
      have "(a # as) ! j \<le> as ! w \<and> (Suc w < j \<longrightarrow> (a # as) ! j < as ! w)" if "j < length (a # as)" for j
        using w(3,4) lt that by (cases j) auto
      then show ?thesis unfolding if_not_P [OF n] v using w(1-3) by (intro exI [of _ "Suc w"]) auto
    qed
  qed
qed simp

lemma victim_ok: "as \<noteq> [] \<Longrightarrow> \<exists>w. victim_loop as 0 0 None = Some w \<and> w < length as"
  using victim_loop_greatest [of as 0 0 None] by (cases as) (auto split: if_splits)

lemma victim_oldest:
  assumes "es \<noteq> []"
  shows "\<exists>v. victim_loop (map at_age es) 0 0 None = Some v \<and> oldest_at es v"
proof -
  have "\<not> (\<forall>a \<in> set (map at_age es). a < 0)" using assms by (cases es) auto
  then obtain w where "w < length (map at_age es)" "victim_loop (map at_age es) 0 0 None = Some (0 + w)"
    "\<forall>j < length (map at_age es). map at_age es ! j \<le> map at_age es ! w \<and> (w < j \<longrightarrow> map at_age es ! j < map at_age es ! w)"
    using victim_loop_greatest [of "map at_age es" 0 0 None] by auto
  then show ?thesis by (auto simp: oldest_at_def)
qed

lemma age_pht_map:
  assumes "j < length es"
  shows "map ph_signature (age_pht j es) = map ph_signature es" "map ph_pattern (age_pht j es) = map ph_pattern es"
  using assms by (auto simp: age_pht_def list_eq_iff_nth_eq nth_list_update)

lemma find_pos_map: "find_pos (\<lambda>x. f x = a) xs = find_pos (\<lambda>y. y = a) (map f xs)"
  by (induction xs) simp_all

lemma search_pht_cong: "map ph_signature es' = map ph_signature es \<Longrightarrow> search_pht x es' = search_pht x es"
  by (simp only: search_pht_def find_pos_map [where f = ph_signature])

lemma find_pos_append:
  "find_pos P (xs @ ys) = (case find_pos P xs of Some i \<Rightarrow> Some i | None \<Rightarrow> map_option (\<lambda>i. length xs + i) (find_pos P ys))"
  by (induction xs; cases "find_pos P ys") (auto split: option.splits)

text \<open>The record after the sets change in one place.\<close>

lemma recorded_update:
  assumes "pht_set s x = Some i" "i < length (sm_pht s)" "sm_pht s' = (sm_pht s)[i := es]" "sm_pht_sets s' = sm_pht_sets s"
  shows "recorded s' x = map_option (\<lambda>j. ph_pattern (es ! j)) (search_pht x es)"
    "pht_set s y \<noteq> Some i \<Longrightarrow> recorded s' y = recorded s y"
proof -
  have p: "pht_set s' y = pht_set s y" for y using assms(3,4) by (intro pht_set_cong) simp_all
  show "recorded s' x = map_option (\<lambda>j. ph_pattern (es ! j)) (search_pht x es)"
    using assms p by (cases "search_pht x es") (simp_all add: recorded_def)
  assume "pht_set s y \<noteq> Some i"
  then show "recorded s' y = recorded s y"
    using assms(3) p [of y] by (cases "pht_set s y") (auto simp: recorded_def)
qed

lemma set_ok_update:
  assumes "pht_ok k l s" "i < length (sm_pht s)" "set_ok k l es" "sm_pht s' = (sm_pht s)[i := es]" "sm_pht_sets s' = sm_pht_sets s"
  shows "pht_ok k l s'"
  using assms set_update_subset_insert [of "sm_pht s" i es] by (auto simp: pht_ok_def)

lemma age_pht_ok:
  assumes "set_ok k l es" "j < length es"
  shows "set_ok k l (age_pht j es)"
proof -
  have "ph_pattern ` set (age_pht j es) = ph_pattern ` set es"
    using arg_cong [OF age_pht_map(2) [OF assms(2)], of set] by simp
  moreover have "length (age_pht j es) = length es" by (simp add: age_pht_def)
  ultimately show ?thesis using assms age_pht_map(1) [OF assms(2)] unfolding set_ok_def by (metis imageE imageI)
qed

section \<open>The tables\<close>

lemma insert_pht_table_ok:
  assumes ok: "pht_ok k l s" and e: "confined l (at_pattern e)"
  defines "sig \<equiv> create_signature l (at_pc e) (at_trigger_offset e)"
  shows "\<exists>s'. insert_pht_table k l e s = Some s' \<and> pht_ok k l s' \<and> sm_acc_table s' = sm_acc_table s \<and>
    sm_filter_table s' = sm_filter_table s \<and> recorded s' sig = Some (at_pattern e)"
proof -
  obtain i where i: "pht_set s sig = Some i" "i < length (sm_pht s)" using pht_set_ok [OF ok] by blast
  let ?es = "sm_pht s ! i"
  have es: "set_ok k l ?es" using ok i(2) by (simp add: pht_ok_def)
  have p: "pht_set (on_pht f s) sig = Some i" for f using i(1) pht_set_cong [of "on_pht f s" s sig] by simp
  show ?thesis
  proof (cases "search_pht sig ?es")
    case (Some j)
    then have j: "j < length ?es" "ph_signature (?es ! j) = sig" using find_pos_Some unfolding search_pht_def by fast+
    let ?es1 = "?es[j := (?es ! j)\<lparr>ph_pattern := at_pattern e\<rparr>]"
    let ?s' = "(on_pht count_hit (on_pht count_lookup s))\<lparr>sm_pht := (sm_pht s)[i := age_pht j ?es1]\<rparr>"
    have m: "map ph_signature ?es1 = map ph_signature ?es"
      using j by (auto simp: list_eq_iff_nth_eq nth_list_update)
    have "set ?es1 \<subseteq> insert ((?es ! j)\<lparr>ph_pattern := at_pattern e\<rparr>) (set ?es)" by (rule set_update_subset_insert)
    then have "\<forall>x \<in> set ?es1. confined l (ph_pattern x)" using es e unfolding set_ok_def by auto
    then have "set_ok k l ?es1" using es m unfolding set_ok_def by simp
    then have so: "set_ok k l (age_pht j ?es1)" using j(1) by (intro age_pht_ok) simp_all
    have "map ph_signature (age_pht j ?es1) = map ph_signature ?es"
      using age_pht_map(1) [of j ?es1] j(1) m by simp
    then have f: "search_pht sig (age_pht j ?es1) = Some j" using search_pht_cong Some by metis
    have "ph_pattern (age_pht j ?es1 ! j) = at_pattern e"
      using j(1) by (simp add: age_pht_def)
    then have "recorded ?s' sig = Some (at_pattern e)"
      using recorded_update(1) [OF i, of ?s' "age_pht j ?es1"] f by simp
    moreover have "pht_ok k l ?s'" by (rule set_ok_update [OF ok i(2) so]) simp_all
    ultimately show ?thesis using p Some by (auto simp: insert_pht_table_def Let_def sig_def [symmetric])
  next
    case None
    obtain es1 s1 where s1: "(if unat (sms_pht_assoc k) \<le> length ?es
        then do { v \<leftarrow> victim_loop (map ph_age ?es) 0 0 None; Some (erase_at v ?es, on_pht count_evict (on_pht count_lookup s)) }
        else Some (?es, on_pht count_lookup s)) = Some (es1, s1)"
      "length es1 < unat (sms_pht_assoc k)" "distinct (map ph_signature es1)" "set es1 \<subseteq> set ?es"
      "sm_pht s1 = sm_pht s" "sm_pht_sets s1 = sm_pht_sets s" "sm_acc_table s1 = sm_acc_table s" "sm_filter_table s1 = sm_filter_table s"
    proof (cases "unat (sms_pht_assoc k) \<le> length ?es")
      case True
      moreover have "0 < unat (sms_pht_assoc k)" using ok by (simp add: pht_ok_def unat_gt_0)
      ultimately have ne: "map ph_age ?es \<noteq> []" by auto
      obtain v where v: "victim_loop (map ph_age ?es) 0 0 None = Some v" "v < length (map ph_age ?es)"
        using victim_ok [OF ne] by blast
      have "distinct (map ph_signature (erase_at v ?es))"
        using es by (simp add: set_ok_def map_erase_at erase_at_distinct)
      moreover have "length (erase_at v ?es) < unat (sms_pht_assoc k)" using v(2) es True by (simp add: set_ok_def)
      ultimately show ?thesis using that v(1) True set_erase_at [of v ?es] by simp
    next
      case False
      then show ?thesis using that es by (simp add: set_ok_def)
    qed
    let ?es2 = "map (\<lambda>p. p\<lparr>ph_age := 0\<rparr>) es1 @ [\<lparr>ph_signature = sig, ph_pattern = at_pattern e, ph_age = 0\<rparr>]"
    let ?s' = "(on_pht count_insert s1)\<lparr>sm_pht := (sm_pht s1)[i := ?es2]\<rparr>"
    have new: "\<forall>x \<in> set es1. ph_signature x \<noteq> sig"
      using None s1(4) unfolding search_pht_def find_pos_None by blast
    have "map ph_signature (map (\<lambda>p. p\<lparr>ph_age := 0\<rparr>) es1) = map ph_signature es1" by simp
    then have so: "set_ok k l ?es2"
      using s1(2,3,4) es e new unfolding set_ok_def by (auto simp: comp_def)
    have "search_pht sig (map (\<lambda>p. p\<lparr>ph_age := 0\<rparr>) es1) = None"
      using new unfolding search_pht_def find_pos_None by simp
    then have "search_pht sig ?es2 = Some (length es1)" by (simp add: search_pht_def find_pos_append)
    then have "recorded ?s' sig = Some (at_pattern e)"
      using recorded_update(1) [OF i, of ?s' ?es2] s1(5,6) by (simp add: nth_append)
    moreover have "pht_ok k l ?s'" by (rule set_ok_update [OF ok i(2) so]) (simp_all add: s1)
    moreover have "insert_pht_table k l e s = Some ?s'"
      by (simp only: insert_pht_table_def Let_def sig_def [symmetric] p Option.bind.simps on_stats_simps None option.case
        s1(1) prod.case)
    ultimately show ?thesis using s1(7,8) by simp
  qed
qed

lemma at_ok_erase: "at_ok k l es \<Longrightarrow> i < length es \<Longrightarrow> at_ok k l (erase_at i es) \<and> length (erase_at i es) < unat (sms_at_size k)"
proof -
  assume ok: "at_ok k l es" "i < length es"
  have "distinct (map at_page (erase_at i es))" using ok(1) by (simp add: at_ok_def map_erase_at erase_at_distinct)
  then show ?thesis using ok set_erase_at [of i es] by (auto simp: at_ok_def)
qed

lemma evict_acc_table_ok:
  assumes ok: "pht_ok k l s" "at_ok k l (sm_acc_table s)" and i: "i < length (sm_acc_table s)"
  shows "\<exists>s'. evict_acc_table k l i s = Some s' \<and> pht_ok k l s' \<and> sm_acc_table s' = erase_at i (sm_acc_table s) \<and>
    sm_filter_table s' = sm_filter_table s \<and>
    recorded s' (create_signature l (at_pc (sm_acc_table s ! i)) (at_trigger_offset (sm_acc_table s ! i))) =
      Some (at_pattern (sm_acc_table s ! i))"
proof -
  let ?e = "sm_acc_table s ! i" and ?s = "on_at count_evict s"
  have "pht_ok k l ?s" using ok(1) by (simp add: pht_ok_cong [of ?s s])
  moreover have "confined l (at_pattern ?e)" using ok(2) i by (simp add: at_ok_def)
  ultimately obtain s1 where s1: "insert_pht_table k l ?e ?s = Some s1" "pht_ok k l s1" "sm_acc_table s1 = sm_acc_table ?s"
    "sm_filter_table s1 = sm_filter_table ?s"
    "recorded s1 (create_signature l (at_pc ?e) (at_trigger_offset ?e)) = Some (at_pattern ?e)"
    using insert_pht_table_ok by blast
  let ?s' = "s1\<lparr>sm_acc_table := erase_at i (sm_acc_table s1)\<rparr>"
  have "pht_ok k l ?s'" "recorded ?s' = recorded s1" using s1(2) by (simp_all add: pht_ok_cong [of ?s' s1] recorded_cong [of ?s' s1])
  then show ?thesis using s1 i by (simp add: evict_acc_table_def)
qed

lemma confined_set: "confined l p \<Longrightarrow> n < 2 ^ (l - 6) \<Longrightarrow> confined l (set_bit n p)"
  by (simp add: confined_def bit_set_bit_iff)

lemma two_power_le: "l \<le> 12 \<Longrightarrow> (2::nat) ^ (l - 6) \<le> 64"
proof -
  assume "l \<le> 12"
  then have "(2::nat) ^ (l - 6) \<le> 2 ^ 6" by (intro power_increasing) simp_all
  then show ?thesis by simp
qed

text \<open>
  What becomes of the accumulation table when a region enters: the others grow older; when there
  is no room, the oldest leaves and its pattern is on record under its instruction and offset.
\<close>

definition grow_older :: "at_entry list \<Rightarrow> at_entry list" where
  "grow_older = map (\<lambda>e. e\<lparr>at_age := at_age e + 1\<rparr>)"

definition room_made :: "sms_knobs \<Rightarrow> nat \<Rightarrow> sms \<Rightarrow> sms \<Rightarrow> at_entry \<Rightarrow> bool" where
  "room_made k l s s' new \<longleftrightarrow> (let es = sm_acc_table s in
     if length es < unat (sms_at_size k) then sm_acc_table s' = grow_older es @ [new] \<and> sm_pht s' = sm_pht s
     else \<exists>v. oldest_at es v \<and> sm_acc_table s' = grow_older (erase_at v es) @ [new] \<and>
       recorded s' (create_signature l (at_pc (es ! v)) (at_trigger_offset (es ! v))) = Some (at_pattern (es ! v)))"

lemma room_made_cong:
  assumes "room_made k l s1 s1' e" "sm_acc_table s1 = sm_acc_table s" "sm_pht s1 = sm_pht s"
    "sm_acc_table s1' = sm_acc_table s'" "sm_pht s1' = sm_pht s'" "sm_pht_sets s1' = sm_pht_sets s'"
  shows "room_made k l s s' e"
proof -
  have r: "recorded s' = recorded s1'" by (rule recorded_cong) (simp_all add: assms)
  show ?thesis using assms(1) unfolding room_made_def Let_def assms(2-5) r .
qed

lemma insert_acc_table_ok:
  assumes l: "l \<le> 12" and ok: "pht_ok k l s" "at_ok k l (sm_acc_table s)"
    and f: "ft_page f \<notin> at_page ` set (sm_acc_table s)" "unat (ft_trigger_offset f) < 2 ^ (l - 6)"
    and offset: "unat offset < 2 ^ (l - 6)"
  shows "\<exists>s'. insert_acc_table k l f offset s = Some s' \<and> pht_ok k l s' \<and> at_ok k l (sm_acc_table s') \<and>
    sm_filter_table s' = sm_filter_table s \<and> at_page ` set (sm_acc_table s') \<subseteq> insert (ft_page f) (at_page ` set (sm_acc_table s)) \<and>
    room_made k l s s' \<lparr>at_page = ft_page f, at_pc = ft_pc f, at_trigger_offset = ft_trigger_offset f,
      at_pattern = set_bit (unat offset) (set_bit (unat (ft_trigger_offset f)) 0), at_age = 0\<rparr>"
proof -
  let ?s = "on_at count_insert s"
  have pok: "pht_ok k l ?s" using ok(1) by (simp add: pht_ok_cong [of ?s s])
  obtain s1 where s1: "(if unat (sms_at_size k) \<le> length (sm_acc_table ?s)
      then do { v \<leftarrow> victim_loop (map at_age (sm_acc_table ?s)) 0 0 None; evict_acc_table k l v ?s }
      else Some ?s) = Some s1" "pht_ok k l s1" "at_ok k l (sm_acc_table s1)" "length (sm_acc_table s1) < unat (sms_at_size k)"
    "set (sm_acc_table s1) \<subseteq> set (sm_acc_table s)" "sm_filter_table s1 = sm_filter_table s"
    "if length (sm_acc_table s) < unat (sms_at_size k) then sm_acc_table s1 = sm_acc_table s \<and> sm_pht s1 = sm_pht s
     else \<exists>v. oldest_at (sm_acc_table s) v \<and> sm_acc_table s1 = erase_at v (sm_acc_table s) \<and>
       recorded s1 (create_signature l (at_pc (sm_acc_table s ! v)) (at_trigger_offset (sm_acc_table s ! v))) =
         Some (at_pattern (sm_acc_table s ! v))"
  proof (cases "unat (sms_at_size k) \<le> length (sm_acc_table ?s)")
    case True
    moreover have "0 < unat (sms_at_size k)" using ok(2) by (simp add: at_ok_def unat_gt_0)
    ultimately have "sm_acc_table s \<noteq> []" by auto
    from victim_oldest [OF this] obtain v where v: "victim_loop (map at_age (sm_acc_table ?s)) 0 0 None = Some v"
      "v < length (sm_acc_table s)" "oldest_at (sm_acc_table s) v" by (auto simp: oldest_at_def)
    from evict_acc_table_ok [OF pok, of v] ok(2) v(2) obtain s1 where
      "evict_acc_table k l v ?s = Some s1" "pht_ok k l s1" "sm_acc_table s1 = erase_at v (sm_acc_table s)"
      "sm_filter_table s1 = sm_filter_table s"
      "recorded s1 (create_signature l (at_pc (sm_acc_table s ! v)) (at_trigger_offset (sm_acc_table s ! v))) =
         Some (at_pattern (sm_acc_table s ! v))" by auto
    then show ?thesis
      using that [of s1] v True at_ok_erase [OF ok(2) v(2)] set_erase_at [of v "sm_acc_table s"] by auto
  next
    case False
    then show ?thesis using that pok ok(2) by simp
  qed
  let ?p = "set_bit (unat offset) (set_bit (unat (ft_trigger_offset f)) 0)"
  have "unat offset < 64" "unat (ft_trigger_offset f) < 64" using two_power_le [OF l] f(2) offset by simp_all
  then have b: "bmp_put 0 (unat (ft_trigger_offset f)) True = Some (set_bit (unat (ft_trigger_offset f)) 0)"
    "bmp_put (set_bit (unat (ft_trigger_offset f)) 0) (unat offset) True = Some ?p" by (simp_all add: bmp_put_def)
  let ?es = "map (\<lambda>e. e\<lparr>at_age := at_age e + 1\<rparr>) (sm_acc_table s1) @ [\<lparr>at_page = ft_page f, at_pc = ft_pc f,
    at_trigger_offset = ft_trigger_offset f, at_pattern = ?p, at_age = 0\<rparr>]"
  have "confined l 0" by (simp add: confined_def)
  then have "confined l ?p" using f(2) offset by (intro confined_set)
  moreover have "ft_page f \<notin> at_page ` set (sm_acc_table s1)" using f(1) s1(5) by auto
  moreover have "map at_page (map (\<lambda>e. e\<lparr>at_age := at_age e + 1\<rparr>) (sm_acc_table s1)) = map at_page (sm_acc_table s1)" by simp
  ultimately have "at_ok k l ?es" using s1(3,4) f(2) by (auto simp: at_ok_def comp_def)
  moreover have "pht_ok k l (s1\<lparr>sm_acc_table := ?es\<rparr>)" using s1(2) by (simp add: pht_ok_def)
  moreover have "insert_acc_table k l f offset s = Some (s1\<lparr>sm_acc_table := ?es\<rparr>)"
    by (simp only: insert_acc_table_def Let_def s1(1) b Option.bind.simps)
  moreover have "room_made k l s (s1\<lparr>sm_acc_table := ?es\<rparr>) (last ?es)"
  proof -
    have "recorded (s1\<lparr>sm_acc_table := ?es\<rparr>) = recorded s1" by (rule recorded_cong) simp_all
    then show ?thesis using s1(7) by (auto simp: room_made_def Let_def grow_older_def split: if_splits)
  qed
  ultimately show ?thesis using s1(5,6) by auto
qed

lemma insert_filter_table_ok:
  assumes ok: "ft_ok k l (sm_filter_table s)" and page: "page \<notin> ft_page ` set (sm_filter_table s)"
    and offset: "unat offset < 2 ^ (l - 6)"
  shows "\<exists>s'. insert_filter_table k pc page offset s = Some s' \<and> ft_ok k l (sm_filter_table s') \<and>
    sm_acc_table s' = sm_acc_table s \<and> sm_pht s' = sm_pht s \<and> sm_pht_sets s' = sm_pht_sets s \<and>
    ft_page ` set (sm_filter_table s') \<subseteq> insert page (ft_page ` set (sm_filter_table s)) \<and>
    sm_filter_table s' \<noteq> [] \<and> last (sm_filter_table s') = \<lparr>ft_page = page, ft_pc = pc, ft_trigger_offset = offset\<rparr>"
proof -
  have n: "0 < unat (sms_ft_size k)" using ok by (simp add: ft_ok_def unat_gt_0)
  show ?thesis
  proof (cases "unat (sms_ft_size k) \<le> length (sm_filter_table s)")
    case True
    then obtain e es where e: "sm_filter_table s = e # es" using n by (cases "sm_filter_table s") auto
    then show ?thesis
      using True ok page offset n
      by (auto simp: insert_filter_table_def evict_filter_table_def ft_ok_def erase_at_def Let_def)
  next
    case False
    then show ?thesis using ok page offset by (auto simp: insert_filter_table_def ft_ok_def Let_def)
  qed
qed

lemma sms_generate_ok:
  assumes ok: "pht_ok k l s"
  shows "\<exists>s'. sms_generate l pc page offset [] s = Some (s', case recorded s (create_signature l pc offset) of
        None \<Rightarrow> [] | Some p \<Rightarrow> pattern_lines l page offset p) \<and>
    pht_ok k l s' \<and> sm_acc_table s' = sm_acc_table s \<and> sm_filter_table s' = sm_filter_table s"
proof -
  let ?sig = "create_signature l pc offset"
  let ?s = "s\<lparr>sm_stats := (sm_stats s)\<lparr>mt_called := mt_called (sm_stats s) + 1\<rparr>\<rparr>"
  obtain i where i: "pht_set s ?sig = Some i" "i < length (sm_pht s)" using pht_set_ok [OF ok] by blast
  have p: "pht_set ?s ?sig = Some i" using i(1) by (simp add: pht_set_def)
  have es: "set_ok k l (sm_pht s ! i)" using ok i(2) by (simp add: pht_ok_def)
  show ?thesis
  proof (cases "search_pht ?sig (sm_pht s ! i)")
    case None
    then show ?thesis using ok i p by (auto simp: sms_generate_def Let_def recorded_def pht_ok_def)
  next
    case (Some j)
    then have j: "j < length (sm_pht s ! i)" using find_pos_Some unfolding search_pht_def by fast
    have "pht_ok k l (s\<lparr>sm_pht := (sm_pht s)[i := age_pht j (sm_pht s ! i)], sm_stats := x\<rparr>)" for x
      by (rule set_ok_update [OF ok i(2) age_pht_ok [OF es j]]) simp_all
    then show ?thesis using Some i p by (simp add: sms_generate_def Let_def recorded_def)
  qed
qed

section \<open>Regions and pages\<close>

lemma region_offset_less:
  assumes "6 \<le> l" "l \<le> 12"
  shows "unat (region_offset l a) < 2 ^ (l - 6)"
proof -
  have m: "(push_bit (l - 6) 1 - 1 :: u64) = mask (l - 6)" by (simp add: mask_eq_exp_minus_1 push_bit_eq_mult)
  have "unat (take_bit (l - 6) (drop_bit 6 a)) < 2 ^ (l - 6)"
    by (simp add: unsigned_take_bit_eq)
  moreover have "unat (region_offset l a) \<le> unat (take_bit (l - 6) (drop_bit 6 a))"
    unfolding region_offset_def champsim_consts m take_bit_eq_mask [symmetric]
    by (simp add: unsigned_ucast_eq take_bit_nat_less_eq_self)
  ultimately show ?thesis by linarith
qed

lemma region_line_page:
  assumes l: "6 \<le> l" "l \<le> 12" and i: "i < 2 ^ (l - 6)"
  shows "pf_page (push_bit l (region_of l a) + of_nat (i * 2 ^ LOG2_BLOCK_SIZE)) = pf_page a"
proof -
  let ?A = "unat a" and ?n = "unat a div 2 ^ l * 2 ^ l + i * 64"
  have p: "(2::nat) ^ l = 2 ^ (l - 6) * 64" using l(1) power_add [of "2::nat" "l - 6" 6] by simp
  then have r: "i * 64 < 2 ^ l" using i by simp
  have d: "drop_bit l a = (of_nat (?A div 2 ^ l) :: u64)"
  proof -
    have "unat (drop_bit l a) = ?A div 2 ^ l" by (subst unat_drop_bit_eq) (rule drop_bit_eq_div)
    then show ?thesis by (metis of_nat_unat ucast_id)
  qed
  have "push_bit l (region_of l a) + of_nat (i * 2 ^ LOG2_BLOCK_SIZE) = (of_nat ?n :: u64)"
    by (simp only: region_of_def d push_bit_eq_mult of_nat_add of_nat_mult of_nat_power of_nat_numeral LOG2_BLOCK_SIZE_def) simp
  moreover have lt: "?n < 2 ^ 64"
  proof -
    have "?A < 2 ^ 64" using unsigned_less [of a, where ?'a = nat] by simp
    moreover have "(2::nat) ^ 64 = 2 ^ (64 - l) * 2 ^ l" using l(2) power_add [of "2::nat" "64 - l" l] by simp
    ultimately have "?A div 2 ^ l < 2 ^ (64 - l)" by (simp add: less_mult_imp_div_less)
    then have "(?A div 2 ^ l + 1) * 2 ^ l \<le> 2 ^ (64 - l) * 2 ^ l" by (intro mult_right_mono) simp_all
    then show ?thesis using r \<open>(2::nat) ^ 64 = 2 ^ (64 - l) * 2 ^ l\<close> by (simp add: algebra_simps)
  qed
  moreover have "?n div 4096 = ?A div 4096"
  proof -
    have q: "(4096::nat) = 2 ^ l * 2 ^ (12 - l)" using l(2) power_add [of "2::nat" l "12 - l"] by simp
    have "?n div 2 ^ l = ?A div 2 ^ l" using r by simp
    then show ?thesis unfolding q div_mult2_eq by simp
  qed
  ultimately have "unat (pf_page (push_bit l (region_of l a) + of_nat (i * 2 ^ LOG2_BLOCK_SIZE))) = unat (pf_page a)"
    by (simp only: pf_page_nat unat_of_nat) simp
  then show ?thesis by (simp add: word_eq_iff_unsigned [where ?'a = nat])
qed

section \<open>An access\<close>

lemma find_pos_eq_find:
  "find (\<lambda>x. f x = a) xs = map_option (\<lambda>i. xs ! i) (find_pos (\<lambda>x. f x = a) xs)"
  by (induction xs) (auto simp: option.map_comp comp_def)

lemma age_acc_map:
  assumes "i < length es"
  shows "map at_page (age_acc i es) = map at_page es" "map at_pattern (age_acc i es) = map at_pattern es"
    "map at_trigger_offset (age_acc i es) = map at_trigger_offset es" "map at_pc (age_acc i es) = map at_pc es"
  using assms by (auto simp: age_acc_def list_eq_iff_nth_eq nth_list_update)

lemma age_acc_ok:
  assumes "at_ok k l es" "i < length es"
  shows "at_ok k l (age_acc i es)"
proof -
  have "(unat (at_trigger_offset (age_acc i es ! j)) < 2 ^ (l - 6)) \<and> confined l (at_pattern (age_acc i es ! j))"
    if "j < length es" for j
    using that assms by (auto simp: at_ok_def age_acc_def nth_list_update)
  moreover have "length (age_acc i es) = length es" by (simp add: age_acc_def)
  ultimately show ?thesis
    using assms age_acc_map(1) [OF assms(2)] by (auto simp: at_ok_def in_set_conv_nth)
qed

lemma mark_line_ok:
  assumes "at_ok k l es" "i < length es" "n < 2 ^ (l - 6)"
  shows "at_ok k l (es[i := (es ! i)\<lparr>at_pattern := set_bit n (at_pattern (es ! i))\<rparr>])"
proof -
  let ?es = "es[i := (es ! i)\<lparr>at_pattern := set_bit n (at_pattern (es ! i))\<rparr>]"
  have "map at_page ?es = map at_page es" using assms(2) by (auto simp: list_eq_iff_nth_eq nth_list_update)
  moreover have "set ?es \<subseteq> insert ((es ! i)\<lparr>at_pattern := set_bit n (at_pattern (es ! i))\<rparr>) (set es)"
    by (rule set_update_subset_insert)
  ultimately show ?thesis using assms confined_set unfolding at_ok_def by auto
qed

definition acc_entry :: "sms \<Rightarrow> u64 \<Rightarrow> at_entry option" where
  "acc_entry s page = find (\<lambda>e. at_page e = page) (sm_acc_table s)"

definition filter_entry :: "sms \<Rightarrow> u64 \<Rightarrow> ft_entry option" where
  "filter_entry s page = find (\<lambda>e. ft_page e = page) (sm_filter_table s)"

lemma sms_access_acc:
  assumes ok: "sms_ok k s" and nb: "\<not> sms_enable_pref_buffer k" and e: "acc_entry s page = Some e"
  defines "l \<equiv> unat (sms_region_size_log k)"
  assumes page: "page = region_of l a"
  shows "\<exists>s'. sms_invoke k s pc a [] = Some (s', []) \<and> sms_ok k s' \<and> sm_pht s' = sm_pht s \<and> sm_filter_table s' = sm_filter_table s \<and>
    (\<exists>i. find_pos (\<lambda>e. at_page e = page) (sm_acc_table s') = Some i \<and>
       at_pattern (sm_acc_table s' ! i) = set_bit (unat (region_offset l a)) (at_pattern e) \<and>
       at_pc (sm_acc_table s' ! i) = at_pc e \<and> at_trigger_offset (sm_acc_table s' ! i) = at_trigger_offset e)"
proof -
  have l: "6 \<le> l" "l \<le> 12" using ok by (simp_all add: sms_ok_def l_def Let_def)
  have rs: "region_shift k = Some l" using l by (simp add: region_shift_def l_def word_le_nat_alt word_less_nat_alt)
  let ?es = "sm_acc_table s" and ?n = "unat (region_offset l a)"
  have n: "?n < 2 ^ (l - 6)" using region_offset_less [OF l] .
  obtain i where i: "find_pos (\<lambda>e. at_page e = page) ?es = Some i" "?es ! i = e"
    using e unfolding acc_entry_def find_pos_eq_find by (cases "find_pos (\<lambda>e. at_page e = page) ?es") auto
  have il: "i < length ?es" using find_pos_Some [OF i(1)] by simp
  have put: "bmp_put (at_pattern e) ?n True = Some (set_bit ?n (at_pattern e))"
    using n two_power_le [OF l(2)] by (simp add: bmp_put_def)
  let ?es1 = "?es[i := e\<lparr>at_pattern := set_bit ?n (at_pattern e)\<rparr>]"
  let ?es2 = "age_acc i ?es1"
  let ?s' = "(on_at count_hit (on_at count_lookup s))\<lparr>sm_acc_table := ?es2\<rparr>"
  have run: "sms_invoke k s pc a [] = Some (?s', [])"
    using i put nb by (simp add: sms_invoke_def rs Let_def page [symmetric])
  have at: "at_ok k l ?es" using ok by (simp add: sms_ok_def l_def Let_def)
  have "at_ok k l ?es1" using mark_line_ok [OF at il n] i(2) by simp
  then have at2: "at_ok k l ?es2" using il by (intro age_acc_ok) simp_all
  have m: "map at_page ?es2 = map at_page ?es"
    using age_acc_map(1) [of i ?es1] il i(2) by (simp add: map_update list_update_same_conv [THEN iffD2] nth_map)
  then have "at_page ` set ?es2 = at_page ` set ?es" by (metis list.set_map)
  then have "sms_ok k ?s'" using ok at2 by (simp add: sms_ok_def Let_def l_def [symmetric] pht_ok_def)
  moreover have "find_pos (\<lambda>e. at_page e = page) ?es2 = Some i"
    using i(1) m unfolding find_pos_map [where f = at_page] by simp
  moreover have "?es2 ! i = e\<lparr>at_pattern := set_bit ?n (at_pattern e), at_age := 0\<rparr>" using il by (simp add: age_acc_def)
  ultimately show ?thesis using run by simp
qed

lemma sms_access_filter:
  assumes ok: "sms_ok k s" and nb: "\<not> sms_enable_pref_buffer k"
    and none: "acc_entry s page = None" and f: "filter_entry s page = Some f"
  defines "l \<equiv> unat (sms_region_size_log k)"
  assumes page: "page = region_of l a"
  shows "\<exists>s'. sms_invoke k s pc a [] = Some (s', []) \<and> sms_ok k s' \<and> filter_entry s' page = None \<and>
    room_made k l s s' \<lparr>at_page = page, at_pc = ft_pc f, at_trigger_offset = ft_trigger_offset f,
      at_pattern = set_bit (unat (region_offset l a)) (set_bit (unat (ft_trigger_offset f)) 0), at_age = 0\<rparr>"
proof -
  have l: "6 \<le> l" "l \<le> 12" using ok by (simp_all add: sms_ok_def l_def Let_def)
  have rs: "region_shift k = Some l" using l by (simp add: region_shift_def l_def word_le_nat_alt word_less_nat_alt)
  have n: "unat (region_offset l a) < 2 ^ (l - 6)" using region_offset_less [OF l] .
  have parts: "pht_ok k l s" "at_ok k l (sm_acc_table s)" "ft_ok k l (sm_filter_table s)"
    "at_page ` set (sm_acc_table s) \<inter> ft_page ` set (sm_filter_table s) = {}"
    using ok by (simp_all add: sms_ok_def l_def Let_def)
  have na: "find_pos (\<lambda>e. at_page e = page) (sm_acc_table s) = None"
    using none unfolding acc_entry_def find_pos_eq_find by simp
  obtain i where i: "find_pos (\<lambda>e. ft_page e = page) (sm_filter_table s) = Some i" "sm_filter_table s ! i = f"
    using f unfolding filter_entry_def find_pos_eq_find by (cases "find_pos (\<lambda>e. ft_page e = page) (sm_filter_table s)") auto
  then have il: "i < length (sm_filter_table s)" "ft_page f = page" using find_pos_Some [OF i(1)] by auto
  let ?t = "on_ft count_hit (on_ft count_lookup (on_at count_lookup s))"
  have t: "pht_ok k l ?t" "at_ok k l (sm_acc_table ?t)" using parts by (simp_all add: pht_ok_cong [of ?t s])
  have "ft_page f \<notin> at_page ` set (sm_acc_table ?t)" using na il(2) by (auto simp: find_pos_None)
  moreover have "unat (ft_trigger_offset f) < 2 ^ (l - 6)" using parts(3) il i(2) by (auto simp: ft_ok_def)
  ultimately obtain t1 where t1: "insert_acc_table k l f (region_offset l a) ?t = Some t1" "pht_ok k l t1" "at_ok k l (sm_acc_table t1)"
    "sm_filter_table t1 = sm_filter_table s" "at_page ` set (sm_acc_table t1) \<subseteq> insert page (at_page ` set (sm_acc_table s))"
    "room_made k l ?t t1 \<lparr>at_page = page, at_pc = ft_pc f, at_trigger_offset = ft_trigger_offset f,
      at_pattern = set_bit (unat (region_offset l a)) (set_bit (unat (ft_trigger_offset f)) 0), at_age = 0\<rparr>"
    using insert_acc_table_ok [OF l(2) t, of f "region_offset l a"] n il(2) by auto
  let ?fs = "erase_at i (sm_filter_table s)"
  let ?t2 = "(on_ft count_evict t1)\<lparr>sm_filter_table := ?fs\<rparr>"
  have run: "sms_invoke k s pc a [] = Some (?t2, [])"
    using i na t1(1,4) nb il(1) by (simp add: sms_invoke_def rs Let_def page [symmetric] evict_filter_table_def)
  have d: "distinct (map ft_page (sm_filter_table s))" using parts(3) by (simp add: ft_ok_def)
  have fp: "ft_page ` set ?fs = ft_page ` set (sm_filter_table s) - {page}"
    using set_erase_at_distinct [OF d, of i] il i(2) by (simp flip: map_erase_at)
  have "ft_ok k l ?fs"
    using parts(3) il(1) set_erase_at [of i "sm_filter_table s"] erase_at_distinct [OF d, of i]
    by (auto simp: ft_ok_def map_erase_at)
  moreover have "at_page ` set (sm_acc_table t1) \<inter> ft_page ` set ?fs = {}" using t1(5) parts(4) fp by auto
  moreover have "pht_ok k l ?t2" using t1(2) by (simp add: pht_ok_def)
  ultimately have "sms_ok k ?t2" using l t1(3) by (simp add: sms_ok_def Let_def l_def [symmetric])
  moreover have "filter_entry ?t2 page = None"
    using fp by (auto simp: filter_entry_def find_None_iff)
  moreover note room_made_cong [OF t1(6), of s ?t2]
  ultimately show ?thesis using run by simp
qed

lemma sms_access_trigger:
  assumes ok: "sms_ok k s" and nb: "\<not> sms_enable_pref_buffer k"
    and none: "acc_entry s page = None" "filter_entry s page = None"
  defines "l \<equiv> unat (sms_region_size_log k)"
  assumes page: "page = region_of l a"
  shows "\<exists>s'. sms_invoke k s pc a [] = Some (s', case recorded s (create_signature l pc (region_offset l a)) of
        None \<Rightarrow> [] | Some p \<Rightarrow> pattern_lines l page (region_offset l a) p) \<and> sms_ok k s' \<and>
    last (sm_filter_table s') = \<lparr>ft_page = page, ft_pc = pc, ft_trigger_offset = region_offset l a\<rparr> \<and>
    sm_acc_table s' = sm_acc_table s"
proof -
  let ?offset = "region_offset l a"
  have l: "6 \<le> l" "l \<le> 12" using ok by (simp_all add: sms_ok_def l_def Let_def)
  have rs: "region_shift k = Some l" using l by (simp add: region_shift_def l_def word_le_nat_alt word_less_nat_alt)
  have n: "unat ?offset < 2 ^ (l - 6)" using region_offset_less [OF l] .
  have parts: "pht_ok k l s" "at_ok k l (sm_acc_table s)" "ft_ok k l (sm_filter_table s)"
    "at_page ` set (sm_acc_table s) \<inter> ft_page ` set (sm_filter_table s) = {}"
    using ok by (simp_all add: sms_ok_def l_def Let_def)
  have na: "find_pos (\<lambda>e. at_page e = page) (sm_acc_table s) = None"
    "find_pos (\<lambda>e. ft_page e = page) (sm_filter_table s) = None"
    using none unfolding acc_entry_def filter_entry_def find_pos_eq_find by simp_all
  let ?t = "on_ft count_lookup (on_at count_lookup s)"
  have "page \<notin> ft_page ` set (sm_filter_table ?t)" using na(2) by (auto simp: find_pos_None)
  from insert_filter_table_ok [of k l ?t page ?offset pc, OF _ this n] parts(3) obtain t1 where
    t1: "insert_filter_table k pc page ?offset ?t = Some t1" "ft_ok k l (sm_filter_table t1)"
    "sm_acc_table t1 = sm_acc_table s" "sm_pht t1 = sm_pht s" "sm_pht_sets t1 = sm_pht_sets s"
    "ft_page ` set (sm_filter_table t1) \<subseteq> insert page (ft_page ` set (sm_filter_table s))"
    "last (sm_filter_table t1) = \<lparr>ft_page = page, ft_pc = pc, ft_trigger_offset = ?offset\<rparr>" by auto
  have p1: "pht_ok k l t1" using parts(1) t1(4,5) by (simp add: pht_ok_def)
  have r1: "recorded t1 = recorded s" by (rule recorded_cong [OF t1(4,5)])
  obtain t2 where t2: "sms_generate l pc page ?offset [] t1 = Some (t2, case recorded s (create_signature l pc ?offset) of
        None \<Rightarrow> [] | Some p \<Rightarrow> pattern_lines l page ?offset p)"
    "pht_ok k l t2" "sm_acc_table t2 = sm_acc_table s" "sm_filter_table t2 = sm_filter_table t1"
    using sms_generate_ok [OF p1, of pc page ?offset] t1(3) unfolding r1 by auto
  have run: "sms_invoke k s pc a [] = Some (t2, case recorded s (create_signature l pc ?offset) of
        None \<Rightarrow> [] | Some p \<Rightarrow> pattern_lines l page ?offset p)"
    using na t1(1) t2(1) nb by (simp add: sms_invoke_def rs Let_def page [symmetric])
  have "page \<notin> at_page ` set (sm_acc_table s)" using na(1) by (auto simp: find_pos_None)
  then have "at_page ` set (sm_acc_table s) \<inter> ft_page ` set (sm_filter_table t1) = {}" using t1(6) parts(4) by blast
  then have "sms_ok k t2" using l parts(2) t1(2) t2(2,3,4) by (simp add: sms_ok_def Let_def l_def [symmetric])
  then show ?thesis using run t1(7) t2(3,4) by auto
qed

lemma recorded_confined: "pht_ok k l s \<Longrightarrow> recorded s x = Some p \<Longrightarrow> confined l p"
proof -
  assume ok: "pht_ok k l s" and "recorded s x = Some p"
  then obtain i j where i: "pht_set s x = Some i" "search_pht x (sm_pht s ! i) = Some j" "p = ph_pattern (sm_pht s ! i ! j)"
    by (auto simp: recorded_def arr_simps)
  then have "i < length (sm_pht s)" using pht_set_ok [OF ok, of x] by auto
  then have "set_ok k l (sm_pht s ! i)" using ok by (simp add: pht_ok_def)
  moreover have "j < length (sm_pht s ! i)" using find_pos_Some i(2) unfolding search_pht_def by fast
  ultimately show ?thesis by (simp add: set_ok_def i(3))
qed

lemma pattern_lines_in_page:
  assumes "6 \<le> l" "l \<le> 12" "confined l p"
  shows "in_page 64 a (pattern_lines l (region_of l a) offset p)"
proof -
  have "length (pattern_lines l (region_of l a) offset p) \<le> 64"
    unfolding pattern_lines_def length_map by (rule order_trans [OF length_filter_le]) simp
  moreover have "pf_page x = pf_page a" if "x \<in> set (pattern_lines l (region_of l a) offset p)" for x
    using that assms(3) region_line_page [OF assms(1,2)] by (auto simp: pattern_lines_def confined_def)
  ultimately show ?thesis by (simp add: in_page_def)
qed

lemma sms_step:
  assumes ok: "sms_ok k s" and nb: "\<not> sms_enable_pref_buffer k"
  shows "\<exists>s' out. sms_invoke k s pc a [] = Some (s', out) \<and> sms_ok k s' \<and> in_page 64 a out"
proof -
  let ?l = "unat (sms_region_size_log k)"
  let ?page = "region_of ?l a"
  have l: "6 \<le> ?l" "?l \<le> 12" "pht_ok k ?l s" using ok by (simp_all add: sms_ok_def Let_def)
  have nil: "in_page 64 a []" by (simp add: in_page_def)
  show ?thesis
  proof (cases "acc_entry s ?page")
    case (Some e)
    from sms_access_acc [OF ok nb Some refl, of pc] nil show ?thesis by blast
  next
    case none: None
    show ?thesis
    proof (cases "filter_entry s ?page")
      case (Some f)
      from sms_access_filter [OF ok nb none Some refl, of pc] nil show ?thesis by blast
    next
      case None
      obtain s' where s': "sms_invoke k s pc a [] = Some (s', case recorded s (create_signature ?l pc (region_offset ?l a)) of
          None \<Rightarrow> [] | Some p \<Rightarrow> pattern_lines ?l ?page (region_offset ?l a) p)" "sms_ok k s'"
        using sms_access_trigger [OF ok nb none None refl, of pc] by blast
      have "in_page 64 a (case recorded s (create_signature ?l pc (region_offset ?l a)) of
          None \<Rightarrow> [] | Some p \<Rightarrow> pattern_lines ?l ?page (region_offset ?l a) p)"
        using recorded_confined [OF l(3)] pattern_lines_in_page [OF l(1,2)] nil by (auto split: option.splits)
      then show ?thesis using s' by blast
    qed
  qed
qed

interpretation sms: page_prefetcher "\<lambda>s e. sms_invoke k s (fst e) (snd e) []" snd 64
  "\<lambda>_ :: u64 \<times> u64. \<not> sms_enable_pref_buffer k" "sms_ok k" for k
  by unfold_locales (rule sms_step)

lemma new_sms_ok:
  assumes "sms_at_size k \<noteq> 0" "sms_ft_size k \<noteq> 0" "sms_pht_assoc k \<noteq> 0" "sms_pht_assoc k \<le> sms_pht_size k"
    "unat (sms_pht_size k) \<le> 2 ^ 31" "6 \<le> unat (sms_region_size_log k)" "unat (sms_region_size_log k) \<le> 12"
  shows "\<exists>s. new_sms k = Some s \<and> sms_ok k s"
proof -
  have d: "unat (sms_pht_size k div sms_pht_assoc k) = unat (sms_pht_size k) div unat (sms_pht_assoc k)" by (rule unat_div)
  have "0 < unat (sms_pht_assoc k)" "unat (sms_pht_assoc k) \<le> unat (sms_pht_size k)"
    using assms(3,4) by (simp_all add: unat_gt_0 word_le_nat_alt)
  then have "0 < unat (sms_pht_size k) div unat (sms_pht_assoc k)" by (simp add: div_greater_zero_iff)
  then have "sms_pht_size k div sms_pht_assoc k \<noteq> 0" using d by (metis unat_0 less_irrefl)
  moreover have "unat (sms_pht_size k div sms_pht_assoc k) \<le> 2 ^ 31"
    unfolding d using assms(5) by (rule order_trans [OF div_le_dividend])
  ultimately show ?thesis
    using assms by (simp add: new_sms_def Let_def sms_ok_def pht_ok_def at_ok_def ft_ok_def set_ok_def)
qed

section \<open>The prefetch buffer\<close>

text \<open>
  With the buffer an access works on the tables as without it; the lines it generates are appended
  to the buffer as far as there is room, and the oldest lines of the buffer are issued.
\<close>

abbreviation no_buffer :: "sms_knobs \<Rightarrow> sms_knobs" where
  "no_buffer k \<equiv> k\<lparr>sms_enable_pref_buffer := False\<rparr>"

lemma no_buffer_sel:
  "sms_pht_assoc (no_buffer k) = sms_pht_assoc k" "sms_at_size (no_buffer k) = sms_at_size k"
  "sms_ft_size (no_buffer k) = sms_ft_size k" "sms_region_size_log (no_buffer k) = sms_region_size_log k"
  by simp_all

lemma no_buffer_pht: "insert_pht_table (no_buffer k) l e s = insert_pht_table k l e s"
  unfolding insert_pht_table_def no_buffer_sel ..

lemma no_buffer_evict: "evict_acc_table (no_buffer k) l i s = evict_acc_table k l i s"
  unfolding evict_acc_table_def no_buffer_pht ..

lemma no_buffer_ops:
  "region_shift (no_buffer k) = region_shift k" "insert_acc_table (no_buffer k) l f n s = insert_acc_table k l f n s"
  "insert_filter_table (no_buffer k) pc page n s = insert_filter_table k pc page n s" "sms_ok (no_buffer k) s = sms_ok k s"
  "room_made (no_buffer k) l s s' e = room_made k l s s' e"
  unfolding region_shift_def insert_acc_table_def no_buffer_evict insert_filter_table_def sms_ok_def pht_ok_def at_ok_def
    ft_ok_def set_ok_def room_made_def no_buffer_sel by (rule refl)+

lemma buffer_nothing: "sms_buffer_prefetch k [] s = s"
  by (simp add: sms_buffer_prefetch_def)

lemma sms_invoke_buffered:
  assumes "sms_enable_pref_buffer k"
  shows "sms_invoke k s pc a [] = map_option (\<lambda>(s1, gen). sms_issue_prefetch k [] (sms_buffer_prefetch k gen s1))
    (sms_invoke (no_buffer k) s pc a [])"
  using assms buffer_nothing [of k]
  by (auto simp: sms_invoke_def no_buffer_ops Let_def map_option_bind split: option.split bind_split)

lemma insert_acc_table_buffer: "insert_acc_table k l f n s = Some s' \<Longrightarrow> sm_pref_buffer s' = sm_pref_buffer s"
  by (auto simp: insert_acc_table_def evict_acc_table_def insert_pht_table_def Let_def arr_simps
      split: if_splits option.splits)

lemma insert_filter_table_buffer: "insert_filter_table k pc page n s = Some s' \<Longrightarrow> sm_pref_buffer s' = sm_pref_buffer s"
  by (auto simp: insert_filter_table_def evict_filter_table_def Let_def arr_simps split: if_splits)

lemma sms_generate_buffer: "sms_generate l pc page n out s = Some (s', out') \<Longrightarrow> sm_pref_buffer s' = sm_pref_buffer s"
  by (auto simp: sms_generate_def Let_def arr_simps split: option.splits)

lemma sms_invoke_buffer_kept:
  assumes "\<not> sms_enable_pref_buffer k" "sms_invoke k s pc a [] = Some (s', out)"
  shows "sm_pref_buffer s' = sm_pref_buffer s"
  using assms
  by (auto simp: sms_invoke_def Let_def arr_simps evict_filter_table_def split: option.splits
      dest!: insert_acc_table_buffer insert_filter_table_buffer sms_generate_buffer)

text \<open>What an access does to the tables, and the lines it generates.\<close>

definition sms_effect :: "sms_knobs \<Rightarrow> sms \<Rightarrow> u64 \<Rightarrow> u64 \<Rightarrow> sms \<Rightarrow> bool" where
  "sms_effect k s pc address s' \<longleftrightarrow> (let l = unat (sms_region_size_log k); page = region_of l address; offset = region_offset l address in
     case acc_entry s page of
       Some e \<Rightarrow> sm_pht s' = sm_pht s \<and> sm_filter_table s' = sm_filter_table s \<and>
         map_option at_pattern (acc_entry s' page) = Some (set_bit (unat offset) (at_pattern e))
     | None \<Rightarrow> (case filter_entry s page of
         Some f \<Rightarrow> filter_entry s' page = None \<and>
           room_made k l s s' \<lparr>at_page = page, at_pc = ft_pc f, at_trigger_offset = ft_trigger_offset f,
             at_pattern = set_bit (unat offset) (set_bit (unat (ft_trigger_offset f)) 0), at_age = 0\<rparr>
       | None \<Rightarrow> last (sm_filter_table s') = \<lparr>ft_page = page, ft_pc = pc, ft_trigger_offset = offset\<rparr> \<and>
           sm_acc_table s' = sm_acc_table s))"

definition sms_lines :: "sms_knobs \<Rightarrow> sms \<Rightarrow> u64 \<Rightarrow> u64 \<Rightarrow> u64 list" where
  "sms_lines k s pc address = (let l = unat (sms_region_size_log k); page = region_of l address; offset = region_offset l address in
     if acc_entry s page \<noteq> None \<or> filter_entry s page \<noteq> None then []
     else (case recorded s (create_signature l pc offset) of None \<Rightarrow> [] | Some p \<Rightarrow> pattern_lines l page offset p))"

lemma sms_effect_cong:
  assumes "sm_acc_table s2 = sm_acc_table s1" "sm_filter_table s2 = sm_filter_table s1" "sm_pht s2 = sm_pht s1" "sm_pht_sets s2 = sm_pht_sets s1"
  shows "sms_effect k s pc a s2 = sms_effect k s pc a s1"
proof -
  have f: "acc_entry s2 = acc_entry s1" "filter_entry s2 = filter_entry s1"
    by (simp_all add: acc_entry_def filter_entry_def fun_eq_iff assms)
  have r: "room_made k l s s2 e = room_made k l s s1 e" for l e
    unfolding room_made_def assms(1,3) recorded_cong [OF assms(3,4)] ..
  show ?thesis unfolding sms_effect_def f r assms(1-3) ..
qed

lemma sms_access_unbuffered:
  assumes ok: "sms_ok k s" and nb: "\<not> sms_enable_pref_buffer k"
  shows "\<exists>s'. sms_invoke k s pc address [] = Some (s', sms_lines k s pc address) \<and> sms_ok k s' \<and> sms_effect k s pc address s'"
proof -
  let ?page = "region_of (unat (sms_region_size_log k)) address"
  show ?thesis
  proof (cases "acc_entry s ?page")
    case (Some e)
    obtain s' i where "sms_invoke k s pc address [] = Some (s', [])" "sms_ok k s'" "sm_pht s' = sm_pht s"
      "sm_filter_table s' = sm_filter_table s" "find_pos (\<lambda>e. at_page e = ?page) (sm_acc_table s') = Some i"
      "at_pattern (sm_acc_table s' ! i) = set_bit (unat (region_offset (unat (sms_region_size_log k)) address)) (at_pattern e)"
      using sms_access_acc [OF ok nb Some refl, of pc] by blast
    then show ?thesis
      using Some by (simp add: Let_def sms_effect_def sms_lines_def acc_entry_def [of s'] find_pos_eq_find)
  next
    case none: None
    show ?thesis
    proof (cases "filter_entry s ?page")
      case (Some f)
      from sms_access_filter [OF ok nb none Some refl, of pc] none Some show ?thesis
        by (simp add: Let_def sms_effect_def sms_lines_def)
    next
      case None
      from sms_access_trigger [OF ok nb none None refl, of pc] none None show ?thesis
        by (simp add: Let_def sms_effect_def sms_lines_def)
    qed
  qed
qed

lemma no_buffer_lines: "sms_lines (no_buffer k) s pc a = sms_lines k s pc a" "sms_effect (no_buffer k) s pc a s' = sms_effect k s pc a s'"
  unfolding sms_lines_def sms_effect_def no_buffer_ops no_buffer_sel by (rule refl)+

lemma buffer_issue:
  assumes "sms_issue_prefetch k [] (sms_buffer_prefetch k gen s1) = (s', out)"
  defines "q \<equiv> sm_pref_buffer s1 @ take (unat (sms_pref_buffer_size k) - length (sm_pref_buffer s1)) gen"
  shows "out = take (unat (sms_pref_degree k)) q" "sm_pref_buffer s' = drop (unat (sms_pref_degree k)) q"
    "sm_acc_table s' = sm_acc_table s1" "sm_filter_table s' = sm_filter_table s1" "sm_pht s' = sm_pht s1" "sm_pht_sets s' = sm_pht_sets s1"
proof -
  obtain buf n where b: "buffer_loop (unat (sms_pref_buffer_size k)) gen (sm_pref_buffer s1) 0 = (buf, n)" by fastforce
  then have "buf = q" using buffer_loop_eq [of "unat (sms_pref_buffer_size k)" gen "sm_pref_buffer s1" 0] by (simp add: q_def)
  then show "out = take (unat (sms_pref_degree k)) q" "sm_pref_buffer s' = drop (unat (sms_pref_degree k)) q"
    "sm_acc_table s' = sm_acc_table s1" "sm_filter_table s' = sm_filter_table s1" "sm_pht s' = sm_pht s1" "sm_pht_sets s' = sm_pht_sets s1"
    using assms(1) b by (auto simp: sms_issue_prefetch_def sms_buffer_prefetch_def issue_loop_eq)
qed

lemma sms_ok_cong:
  assumes "sm_acc_table s2 = sm_acc_table s1" "sm_filter_table s2 = sm_filter_table s1" "sm_pht s2 = sm_pht s1" "sm_pht_sets s2 = sm_pht_sets s1"
  shows "sms_ok k s2 = sms_ok k s1"
  using assms pht_ok_cong [OF assms(3,4)] by (simp add: sms_ok_def)

lemma sms_access_buffered:
  assumes ok: "sms_ok k s" and b: "sms_enable_pref_buffer k"
  shows "\<exists>s1 s' out. sms_issue_prefetch k [] (sms_buffer_prefetch k (sms_lines k s pc address) s1) = (s', out) \<and>
    sm_pref_buffer s1 = sm_pref_buffer s \<and> sms_invoke k s pc address [] = Some (s', out) \<and> sms_ok k s' \<and> sms_effect k s pc address s'"
proof -
  have "sms_ok (no_buffer k) s" "\<not> sms_enable_pref_buffer (no_buffer k)" using ok by (simp_all only: no_buffer_ops) simp
  from sms_access_unbuffered [OF this, of pc address] obtain s1 where
    s1: "sms_invoke (no_buffer k) s pc address [] = Some (s1, sms_lines k s pc address)" "sms_ok k s1" "sms_effect k s pc address s1"
    unfolding no_buffer_lines no_buffer_ops by blast
  obtain s' out where i: "sms_issue_prefetch k [] (sms_buffer_prefetch k (sms_lines k s pc address) s1) = (s', out)" by fastforce
  have "sms_invoke k s pc address [] = Some (s', out)" using sms_invoke_buffered [OF b, of s pc address] s1(1) i by simp
  moreover have "sm_pref_buffer s1 = sm_pref_buffer s" by (rule sms_invoke_buffer_kept [OF _ s1(1)]) simp
  ultimately show ?thesis
    using i sms_ok_cong [OF buffer_issue(3-6) [OF i], of k] sms_effect_cong [OF buffer_issue(3-6) [OF i], of k s pc address] s1(2,3)
    by blast
qed

text \<open>
  C40. An access to SMS, with the prefetch buffer (the default) or without.  It does not fail and
  keeps the invariant.  By the state of its region: in the accumulation table, the line joins the
  pattern; in the filter table, the region moves to the accumulation table with the trigger and
  this line as its pattern, and when that table is full its oldest region leaves and has its
  pattern on record afterwards; in neither, the region enters the filter table.  Lines are
  generated in the last case only: those of the pattern on record for this instruction and offset,
  but for the accessed one.  Without the buffer they are the prefetches; with it they are appended
  to the buffer as far as there is room, and the first \<open>sms_pref_degree\<close> lines of the buffer are
  the prefetches of this access.
\<close>

theorem sms_access:
  assumes ok: "sms_ok k s"
  shows "\<exists>s' out. sms_invoke k s pc address [] = Some (s', out) \<and> sms_ok k s' \<and> sms_effect k s pc address s' \<and>
    (if sms_enable_pref_buffer k
     then let q = sm_pref_buffer s @ take (unat (sms_pref_buffer_size k) - length (sm_pref_buffer s)) (sms_lines k s pc address) in
       out = take (unat (sms_pref_degree k)) q \<and> sm_pref_buffer s' = drop (unat (sms_pref_degree k)) q
     else out = sms_lines k s pc address \<and> sm_pref_buffer s' = sm_pref_buffer s)"
proof (cases "sms_enable_pref_buffer k")
  case True
  obtain s1 s' out where i: "sms_issue_prefetch k [] (sms_buffer_prefetch k (sms_lines k s pc address) s1) = (s', out)"
    "sm_pref_buffer s1 = sm_pref_buffer s" "sms_invoke k s pc address [] = Some (s', out)" "sms_ok k s'" "sms_effect k s pc address s'"
    using sms_access_buffered [OF ok True, of pc address] by blast
  with buffer_issue(1,2) [OF i(1)] True show ?thesis by (simp add: Let_def)
next
  case False
  obtain s' where s': "sms_invoke k s pc address [] = Some (s', sms_lines k s pc address)" "sms_ok k s'" "sms_effect k s pc address s'"
    using sms_access_unbuffered [OF ok False] by blast
  with sms_invoke_buffer_kept [OF False s'(1)] False show ?thesis by simp
qed

definition demo_sms_knobs :: sms_knobs where
  "demo_sms_knobs = \<lparr>sms_at_size = 1, sms_ft_size = 2, sms_pht_size = 2, sms_pht_assoc = 1, sms_pref_degree = 1,
     sms_region_size_log = 11, sms_enable_pref_buffer = True, sms_pref_buffer_size = 8\<rparr>"

text \<open>The second of two regions evicts the first and leaves its pattern on record; a third region
  started the same way is prefetched by it: one line now, the other one waits in the buffer.\<close>

definition demo_sms :: "sms option" where
  "demo_sms = do {
     s0 \<leftarrow> new_sms demo_sms_knobs;
     fold_opt (\<lambda>s e. map_option fst (sms_invoke demo_sms_knobs s (fst e) (snd e) [])) s0
       [(5, 4160), (5, 4288), (5, 4352), (9, 8192), (9, 8256)] }"

lemma demo_sms_ok: "\<exists>s. demo_sms = Some s \<and> sms_ok demo_sms_knobs s"
proof -
  have b: "sms_enable_pref_buffer demo_sms_knobs" by (simp add: demo_sms_knobs_def)
  have run: "sms_ok demo_sms_knobs s \<Longrightarrow>
      \<exists>s'. fold_opt (\<lambda>s e. map_option fst (sms_invoke demo_sms_knobs s (fst e) (snd e) [])) s es = Some s' \<and> sms_ok demo_sms_knobs s'"
    for s es
  proof (induction es arbitrary: s)
    case (Cons e es)
    from sms_access_buffered [OF Cons.prems b, of "fst e" "snd e"] obtain s' out where
      "sms_invoke demo_sms_knobs s (fst e) (snd e) [] = Some (s', out)" "sms_ok demo_sms_knobs s'" by blast
    with Cons.IH show ?case by simp
  qed simp
  obtain s0 where "new_sms demo_sms_knobs = Some s0" "sms_ok demo_sms_knobs s0"
    using new_sms_ok [of demo_sms_knobs] by (auto simp: demo_sms_knobs_def word_le_nat_alt)
  with run [of s0 "[(5, 4160), (5, 4288), (5, 4352), (9, 8192), (9, 8256)]"] show ?thesis
    by (simp add: demo_sms_def del: fold_opt.simps)
qed

theorem sms_access_witness:
  "\<exists>s s'. demo_sms = Some s \<and> sms_invoke demo_sms_knobs s 5 20544 [] = Some (s', [20672]) \<and> sm_pref_buffer s' = [20736]"
proof -
  obtain s where s: "demo_sms = Some s" "sms_ok demo_sms_knobs s" using demo_sms_ok by blast
  from sms_access [OF s(2), of 5 20544] obtain s' out where
    out: "sms_invoke demo_sms_knobs s 5 20544 [] = Some (s', out)" by blast
  have "Option.bind demo_sms (\<lambda>s. map_option (\<lambda>(s', out). (sm_pref_buffer s', out)) (sms_invoke demo_sms_knobs s 5 20544 [])) =
      Some ([20736], [20672])" by code_simp
  then have "out = [20672] \<and> sm_pref_buffer s' = [20736]" unfolding s(1) by (simp add: out)
  then show ?thesis using s(1) out by blast
qed

end
